(* ===== verification/Prelude.thy ===== *)
theory Prelude
  imports Complex_Main "HOL-Library.Product_Lexorder"
begin

text \<open>
  The part of JavaScript the modelled code relies on, and the generic facts shared by every
  component.

  A \<open>number\<close> is a \<open>jsnum\<close>: a finite value (a rational), an infinity or \<open>NaN\<close>; \<open>fl\<close>
  rounds a rational to the nearest IEEE double, ties to even. An \<open>unknown\<close> argument is a
  \<open>jsval\<close>: undefined, null, a boolean, a number or a string. \<open>Number(v)\<close> is \<open>to_number\<close>, with
  the StringNumericLiteral grammar (decimal with exponent, 0x, 0o, 0b, Infinity). A string is a list
  of code units below 256. A \<open>Map\<close> that the code iterates over is an association list in insertion
  order (\<open>alist_set\<close>, \<open>alist_delete\<close>); a \<open>Set\<close> that it only tests is a list or a set.
\<close>

named_theorems js_simps
named_theorems alist_simps
named_theorems throw_simps

section \<open>Numbers\<close>

datatype jsnum = NaN | PosInf | NegInf | Fin rat

fun num_lt :: "jsnum \<Rightarrow> jsnum \<Rightarrow> bool" where
  "num_lt NaN y = False"
| "num_lt x NaN = False"
| "num_lt PosInf y = False"
| "num_lt x NegInf = False"
| "num_lt NegInf y = True"
| "num_lt x PosInf = True"
| "num_lt (Fin a) (Fin b) = (a < b)"

definition num_eq :: "jsnum \<Rightarrow> jsnum \<Rightarrow> bool" where
  "num_eq x y \<longleftrightarrow> x \<noteq> NaN \<and> x = y"

definition num_le :: "jsnum \<Rightarrow> jsnum \<Rightarrow> bool" where
  "num_le x y \<longleftrightarrow> num_lt x y \<or> num_eq x y"

fun is_finite :: "jsnum \<Rightarrow> bool" where
  "is_finite (Fin r) = True"
| "is_finite _ = False"

text \<open>\<open>Number.isInteger\<close>, with the integer when it is one.\<close>

fun as_integer :: "jsnum \<Rightarrow> int option" where
  "as_integer (Fin r) = (if of_int \<lfloor>r\<rfloor> = r then Some \<lfloor>r\<rfloor> else None)"
| "as_integer _ = None"

definition MAX_SAFE_INTEGER :: int where
  "MAX_SAFE_INTEGER = 9007199254740991"

definition as_safe_integer :: "jsnum \<Rightarrow> int option" where
  "as_safe_integer x = (case as_integer x of None \<Rightarrow> None
     | Some n \<Rightarrow> if \<bar>n\<bar> \<le> MAX_SAFE_INTEGER then Some n else None)"

abbreviation inum :: "int \<Rightarrow> jsnum" where
  "inum n \<equiv> Fin (of_int n)"

subsection \<open>Rounding to a double\<close>

fun ilog2 :: "nat \<Rightarrow> nat" where
  "ilog2 n = (if n < 2 then 0 else Suc (ilog2 (n div 2)))"

declare ilog2.simps [simp del]

definition pow2 :: "int \<Rightarrow> rat" where
  "pow2 e = (if 0 \<le> e then 2 ^ nat e else 1 / 2 ^ nat (- e))"

definition floor_log2 :: "rat \<Rightarrow> int" where
  "floor_log2 a = (case quotient_of a of (n, d) \<Rightarrow>
     (let k = int (ilog2 (nat n)) - int (ilog2 (nat d)) in if pow2 k \<le> a then k else k - 1))"

definition round_half_even :: "rat \<Rightarrow> int" where
  "round_half_even q =
     (let f = \<lfloor>q\<rfloor>; d = q - of_int f in
      if d < 1 / 2 then f else if 1 / 2 < d then f + 1 else if even f then f else f + 1)"

definition fl :: "rat \<Rightarrow> jsnum" where
  "fl r =
     (if r = 0 then Fin 0
      else let e = max (- 1074) (floor_log2 \<bar>r\<bar> - 52);
               v = of_int (round_half_even (\<bar>r\<bar> / pow2 e)) * pow2 e in
           if pow2 1024 \<le> v then (if 0 < r then PosInf else NegInf)
           else Fin (sgn r * v))"

subsection \<open>Strings to numbers\<close>

definition is_ws :: "char \<Rightarrow> bool" where
  "is_ws c \<longleftrightarrow> of_char c \<in> {9, 10, 11, 12, 13, 32, 160 :: nat}"

definition js_trim :: "string \<Rightarrow> string" where
  "js_trim s = rev (dropWhile is_ws (rev (dropWhile is_ws s)))"

definition is_digit :: "char \<Rightarrow> bool" where
  "is_digit c \<longleftrightarrow> 48 \<le> (of_char c :: nat) \<and> (of_char c :: nat) \<le> 57"

definition digit_val :: "char \<Rightarrow> nat" where
  "digit_val c = (of_char c :: nat) - 48"

definition lower_char :: "char \<Rightarrow> char" where
  "lower_char c = (let n = (of_char c :: nat) in
     if (65 \<le> n \<and> n \<le> 90) \<or> (192 \<le> n \<and> n \<le> 222 \<and> n \<noteq> 215) then char_of (n + 32) else c)"

definition js_lower :: "string \<Rightarrow> string" where
  "js_lower s = map lower_char s"

fun digits_val :: "nat \<Rightarrow> string \<Rightarrow> nat" where
  "digits_val acc [] = acc"
| "digits_val acc (c # cs) = digits_val (10 * acc + digit_val c) cs"

definition radix_digit :: "nat \<Rightarrow> char \<Rightarrow> nat option" where
  "radix_digit b c =
     (let n = (of_char (lower_char c) :: nat);
          d = (if 48 \<le> n \<and> n \<le> 57 then n - 48 else if 97 \<le> n \<and> n \<le> 102 then n - 87 else 99) in
      if d < b then Some d else None)"

fun radix_val :: "nat \<Rightarrow> nat \<Rightarrow> string \<Rightarrow> nat option" where
  "radix_val b acc [] = Some acc"
| "radix_val b acc (c # cs) =
     (case radix_digit b c of None \<Rightarrow> None | Some d \<Rightarrow> radix_val b (b * acc + d) cs)"

definition pow10 :: "int \<Rightarrow> rat" where
  "pow10 e = (if 0 \<le> e then 10 ^ nat e else 1 / 10 ^ nat (- e))"

definition parse_exponent :: "string \<Rightarrow> int option" where
  "parse_exponent s =
     (let (neg, ds) = (case s of [] \<Rightarrow> (False, [])
        | c # cs \<Rightarrow> if c = CHR ''-'' then (True, cs)
                    else if c = CHR ''+'' then (False, cs) else (False, s)) in
      if ds = [] \<or> \<not> list_all is_digit ds then None
      else Some (if neg then - int (digits_val 0 ds) else int (digits_val 0 ds)))"

definition parse_decimal :: "string \<Rightarrow> rat option" where
  "parse_decimal s =
     (let ip = takeWhile is_digit s; r1 = dropWhile is_digit s;
          fr = (case r1 of [] \<Rightarrow> ([], [])
                | c # cs \<Rightarrow> if c = CHR ''.'' then (takeWhile is_digit cs, dropWhile is_digit cs)
                            else ([], r1));
          fp = fst fr; r2 = snd fr;
          ex = (case r2 of [] \<Rightarrow> Some 0
                | c # cs \<Rightarrow> if lower_char c = CHR ''e'' then parse_exponent cs else None) in
      if ip = [] \<and> fp = [] then None
      else case ex of None \<Rightarrow> None
           | Some e \<Rightarrow> Some (of_nat (digits_val 0 (ip @ fp)) * pow10 (e - int (length fp))))"

definition parse_signed :: "string \<Rightarrow> jsnum" where
  "parse_signed s =
     (let (neg, t) = (case s of [] \<Rightarrow> (False, [])
        | c # cs \<Rightarrow> if c = CHR ''-'' then (True, cs)
                    else if c = CHR ''+'' then (False, cs) else (False, s)) in
      if t = ''Infinity'' then (if neg then NegInf else PosInf)
      else case parse_decimal t of None \<Rightarrow> NaN
           | Some r \<Rightarrow> fl (if neg then - r else r))"

definition radix_prefix :: "string \<Rightarrow> nat option" where
  "radix_prefix p =
     (if p = ''0x'' \<or> p = ''0X'' then Some 16
      else if p = ''0o'' \<or> p = ''0O'' then Some 8
      else if p = ''0b'' \<or> p = ''0B'' then Some 2 else None)"

definition string_to_number :: "string \<Rightarrow> jsnum" where
  "string_to_number s0 =
     (let s = js_trim s0 in
      if s = [] then Fin 0
      else case radix_prefix (take 2 s) of
             Some b \<Rightarrow> (if length s \<le> 2 then NaN
                        else case radix_val b 0 (drop 2 s) of None \<Rightarrow> NaN | Some n \<Rightarrow> fl (of_nat n))
           | None \<Rightarrow> parse_signed s)"

section \<open>Values\<close>

datatype jsval = JUndefined | JNull | JBool bool | JNum jsnum | JStr string

fun to_number :: "jsval \<Rightarrow> jsnum" where
  "to_number JUndefined = NaN"
| "to_number JNull = Fin 0"
| "to_number (JBool b) = Fin (if b then 1 else 0)"
| "to_number (JNum x) = x"
| "to_number (JStr s) = string_to_number s"

fun is_nullish :: "jsval \<Rightarrow> bool" where
  "is_nullish JUndefined = True"
| "is_nullish JNull = True"
| "is_nullish _ = False"

fun truthy :: "jsval \<Rightarrow> bool" where
  "truthy JUndefined = False"
| "truthy JNull = False"
| "truthy (JBool b) = b"
| "truthy (JNum x) = (x \<noteq> NaN \<and> x \<noteq> Fin 0)"
| "truthy (JStr s) = (s \<noteq> [])"

subsection \<open>Decimal text of a natural number\<close>

fun show_nat :: "nat \<Rightarrow> string" where
  "show_nat n = (if n < 10 then [char_of (48 + n)] else show_nat (n div 10) @ [char_of (48 + n mod 10)])"

declare show_nat.simps [simp del]

definition show_int :: "int \<Rightarrow> string" where
  "show_int i = (if i < 0 then CHR ''-'' # show_nat (nat (- i)) else show_nat (nat i))"

fun js_split :: "char \<Rightarrow> string \<Rightarrow> string list" where
  "js_split sep [] = [[]]"
| "js_split sep (c # cs) =
     (if c = sep then [] # js_split sep cs
      else case js_split sep cs of [] \<Rightarrow> [[c]] | w # ws \<Rightarrow> (c # w) # ws)"

fun js_join :: "string \<Rightarrow> string list \<Rightarrow> string" where
  "js_join sep [] = []"
| "js_join sep [w] = w"
| "js_join sep (w # ws) = w @ sep @ js_join sep ws"

section \<open>Facts about numbers and text\<close>

lemma ilog2_bounds: "0 < n \<Longrightarrow> 2 ^ ilog2 n \<le> n \<and> n < 2 ^ Suc (ilog2 n)"
proof (induction n rule: ilog2.induct)
  case (1 n)
  show ?case
  proof (cases "n < 2")
    case True
    with "1.prems" show ?thesis by (subst (1 2) ilog2.simps) simp
  next
    case False
    then have "2 ^ ilog2 (n div 2) \<le> n div 2 \<and> n div 2 < 2 ^ Suc (ilog2 (n div 2))"
      using "1.IH" by simp
    moreover have "ilog2 n = Suc (ilog2 (n div 2))"
      using False by (subst ilog2.simps) simp
    ultimately show ?thesis by auto
  qed
qed

lemma ilog2_Suc0 [simp]: "ilog2 (Suc 0) = 0"
  by (subst ilog2.simps) simp

lemma quotient_of_of_int: "quotient_of (of_int n) = (n, 1)"
  by (metis Rat.of_int_def quotient_of_int)

lemma floor_log2_int:
  assumes "0 < n"
  shows "floor_log2 (of_int n) = int (ilog2 (nat n))"
proof -
  have "2 ^ ilog2 (nat n) \<le> nat n" using ilog2_bounds [of "nat n"] assms by simp
  then have "(2::int) ^ ilog2 (nat n) \<le> n" 
    by (metis assms int_nat_eq nat_int of_nat_le_iff of_nat_numeral of_nat_power order.strict_implies_order)
  then have "(2::rat) ^ ilog2 (nat n) \<le> of_int n"
    by (metis of_int_le_iff of_int_numeral of_int_power)
  then show ?thesis
    by (simp add: floor_log2_def quotient_of_of_int pow2_def)
qed

lemma round_half_even_int [simp]: "round_half_even (of_int i) = i"
  by (simp add: round_half_even_def)

lemma pow2_pos [simp]: "0 < pow2 e"
  by (simp add: pow2_def)

lemma fl_of_int_pos:
  assumes "0 < n" "n \<le> 2 ^ 53"
  shows "fl (of_int n) = inum n"
proof -
  define k where "k = int (ilog2 (nat n))"
  define e where "e = max (- 1074) (k - 52)"
  have fk: "floor_log2 \<bar>of_int n :: rat\<bar> = k"
    using floor_log2_int [OF assms(1)] assms(1) by (simp add: k_def)
  have k53: "k \<le> 53"
  proof (rule ccontr)
    assume "\<not> k \<le> 53"
    then have "54 \<le> ilog2 (nat n)" by (simp add: k_def)
    then have "(2::nat) ^ 54 \<le> 2 ^ ilog2 (nat n)" by (rule power_increasing) simp
    also have "\<dots> \<le> nat n" using ilog2_bounds [of "nat n"] assms(1) by simp
    finally show False using assms(2) by simp
  qed
  have "\<exists>i::int. of_int n / pow2 e = of_int i"
  proof (cases "e \<le> 0")
    case True
    have "of_int n / pow2 e = of_int (n * 2 ^ nat (- e))"
      using True by (cases "e = 0") (simp_all add: pow2_def)
    then show ?thesis by blast
  next
    case False
    then have ek: "e = 1" "k = 53" using k53 by (auto simp: e_def max_def split: if_splits)
    then have "ilog2 (nat n) = 53" by (simp add: k_def)
    then have "2 ^ 53 \<le> nat n" using ilog2_bounds [of "nat n"] assms(1) by simp
    then have "n = 2 ^ 53" using assms(2) by simp
    then have "of_int n / pow2 e = of_int (2 ^ 52)" using ek by (simp add: pow2_def)
    then show ?thesis by blast
  qed
  then obtain i where i: "of_int n / pow2 e = of_int i" by blast
  have bk: "of_int i * pow2 e = (of_int n :: rat)"
    using i pow2_pos [of e] by (simp add: field_simps)
  have small: "\<not> pow2 1024 \<le> (of_int n :: rat)"
  proof -
    have "(of_int n :: rat) \<le> of_int (2 ^ 53)" using assms(2) by (simp only: of_int_le_iff)
    also have "\<dots> < pow2 1024" by (simp add: pow2_def)
    finally show ?thesis by simp
  qed
  have "\<bar>of_int n :: rat\<bar> = of_int n" using assms(1) by simp
  with fk i bk small assms(1) show ?thesis
    by (simp add: fl_def e_def [symmetric] Let_def)
qed

lemma fl_of_nat [simp]:
  assumes "n \<le> 2 ^ 53"
  shows "fl (of_nat n) = Fin (of_nat n)"
proof (cases "n = 0")
  case True
  then show ?thesis by (simp add: fl_def)
next
  case False
  then show ?thesis using fl_of_int_pos [of "int n"] assms by simp
qed

lemma as_integer_inum [simp]: "as_integer (inum n) = Some n"
  by simp

lemma as_integer_Some: "as_integer x = Some n \<longleftrightarrow> x = inum n"
  by (cases x) auto

lemma is_digit_of_nat: "(k::nat) < 10 \<Longrightarrow> is_digit (char_of (48 + k))"
  by (simp add: is_digit_def)

lemma show_nat_digits: "list_all is_digit (show_nat n)"
proof (induction n rule: show_nat.induct)
  case (1 n)
  show ?case
  proof (cases "n < 10")
    case True
    then show ?thesis by (subst show_nat.simps) (simp add: is_digit_of_nat)
  next
    case False
    then show ?thesis using 1 by (subst show_nat.simps) (simp add: is_digit_of_nat)
  qed
qed

lemma show_nat_nonempty [simp]: "show_nat n \<noteq> []"
  by (subst show_nat.simps) simp

lemma digits_val_snoc: "digits_val acc (xs @ [c]) = 10 * digits_val acc xs + digit_val c"
  by (induction xs arbitrary: acc) simp_all

lemma digits_val_show_nat [simp]: "digits_val 0 (show_nat n) = n"
proof (induction n rule: show_nat.induct)
  case (1 n)
  show ?case
  proof (cases "n < 10")
    case True
    then show ?thesis by (subst show_nat.simps) (simp add: digit_val_def)
  next
    case False
    then show ?thesis using 1 by (subst show_nat.simps) (simp add: digits_val_snoc digit_val_def)
  qed
qed

lemma digit_not_ws: "is_digit c \<Longrightarrow> \<not> is_ws c"
  by (auto simp: is_digit_def is_ws_def)

lemma dropWhile_none: "list_all (\<lambda>x. \<not> P x) xs \<Longrightarrow> dropWhile P xs = xs"
  by (cases xs) auto

lemma trim_digits: "list_all is_digit s \<Longrightarrow> js_trim s = s"
  using digit_not_ws by (simp add: js_trim_def dropWhile_none list_all_iff)

lemma takeWhile_all: "list_all P xs \<Longrightarrow> takeWhile P xs = xs"
  by (simp add: list_all_iff)

lemma dropWhile_all: "list_all P xs \<Longrightarrow> dropWhile P xs = []"
  by (simp add: list_all_iff)

lemma parse_decimal_digits:
  assumes "list_all is_digit s" "s \<noteq> []"
  shows "parse_decimal s = Some (of_nat (digits_val 0 s))"
  using assms by (simp add: parse_decimal_def takeWhile_all dropWhile_all pow10_def)

lemma is_digit_signs: "\<not> is_digit CHR ''-''" "\<not> is_digit CHR ''+''" "\<not> is_digit CHR ''I''"
  "\<not> is_digit CHR ''x''" "\<not> is_digit CHR ''X''" "\<not> is_digit CHR ''o''"
  "\<not> is_digit CHR ''O''" "\<not> is_digit CHR ''b''" "\<not> is_digit CHR ''B''" "\<not> is_digit CHR '',''"
  by (simp_all add: is_digit_def)

lemma parse_signed_digits:
  assumes "list_all is_digit s" "s \<noteq> []"
  shows "parse_signed s = fl (of_nat (digits_val 0 s))"
proof -
  obtain c cs where s: "s = c # cs" using assms(2) by (cases s) auto
  then have "c \<noteq> CHR ''-''" "c \<noteq> CHR ''+''" "c \<noteq> CHR ''I''"
    using assms(1) is_digit_signs by auto
  with s show ?thesis
    using parse_decimal_digits [OF assms] by (simp add: parse_signed_def)
qed

lemma radix_prefix_digits:
  assumes "list_all is_digit s"
  shows "radix_prefix s = None"
proof -
  have ne: "s \<noteq> [a, b]" if "\<not> is_digit b" for a b
    using assms that by auto
  show ?thesis
    unfolding radix_prefix_def
    by (simp only: ne [OF is_digit_signs(4)] ne [OF is_digit_signs(5)] ne [OF is_digit_signs(6)]
        ne [OF is_digit_signs(7)] ne [OF is_digit_signs(8)] ne [OF is_digit_signs(9)] simp_thms if_False)
qed

lemma string_to_number_digits:
  assumes "list_all is_digit s" "s \<noteq> []"
  shows "string_to_number s = fl (of_nat (digits_val 0 s))"
proof -
  have "list_all is_digit (take 2 s)"
    using assms(1) by (auto simp: list_all_iff dest: in_set_takeD)
  then show ?thesis
    using assms by (simp add: string_to_number_def trim_digits radix_prefix_digits parse_signed_digits)
qed

lemma string_to_number_show [js_simps]:
  "n \<le> 2 ^ 53 \<Longrightarrow> string_to_number (show_nat n) = Fin (of_nat n)"
  by (simp add: string_to_number_digits show_nat_digits)

subsection \<open>Trimming and lowering\<close>

lemma dropWhile_rev_dropWhile:
  assumes "xs = [] \<or> \<not> P (hd xs)"
  shows "dropWhile P (rev (dropWhile P (rev xs))) = rev (dropWhile P (rev xs))"
proof -
  let ?ys = "rev (dropWhile P (rev xs))"
  have xs: "xs = ?ys @ rev (takeWhile P (rev xs))"
    by (metis rev_append rev_rev_ident takeWhile_dropWhile_id)
  show ?thesis
  proof (cases "?ys")
    case (Cons c cs)
    then have "hd xs = c" "xs \<noteq> []" using xs by (metis append_Cons list.sel(1)) (metis Cons append_Cons list.distinct(1) xs)
    then show ?thesis using assms Cons by simp
  next
    case Nil
    then show ?thesis by (simp only: dropWhile.simps)
  qed
qed

lemma js_trim_idem [simp]: "js_trim (js_trim s) = js_trim s"
proof -
  have "dropWhile is_ws s = [] \<or> \<not> is_ws (hd (dropWhile is_ws s))" using hd_dropWhile by blast
  from dropWhile_rev_dropWhile [of _ is_ws, OF this] show ?thesis by (simp add: js_trim_def)
qed

lemma of_char_of_small: "n < 256 \<Longrightarrow> of_char (char_of n :: char) = (n :: nat)"
  by simp

lemma lower_char_ws [simp]: "is_ws (lower_char c) = is_ws c"
  by (auto simp: is_ws_def lower_char_def Let_def of_char_of_small)

lemma lower_char_idem [simp]: "lower_char (lower_char c) = lower_char c"
  by (auto simp: lower_char_def Let_def of_char_of_small)

lemma js_trim_lower: "js_trim (js_lower s) = js_lower (js_trim s)"
  by (simp add: js_trim_def js_lower_def dropWhile_map comp_def rev_map)

lemma js_lower_idem [simp]: "js_lower (js_lower s) = js_lower s"
  by (simp add: js_lower_def)

subsection \<open>Splitting and joining\<close>

lemma js_split_ne [simp]: "js_split sep s \<noteq> []"
  by (induction s) (auto split: list.splits)

lemma js_split_word: "sep \<notin> set w \<Longrightarrow> js_split sep w = [w]"
  by (induction w) auto

lemma js_split_append: "sep \<notin> set w \<Longrightarrow> js_split sep (w @ sep # s) = w # js_split sep s"
  by (induction w) auto

lemma js_split_join:
  "ws \<noteq> [] \<Longrightarrow> \<forall>w\<in>set ws. sep \<notin> set w \<Longrightarrow> js_split sep (js_join [sep] ws) = ws"
  by (induction "[sep]" ws rule: js_join.induct) (auto simp: js_split_word js_split_append)

subsection \<open>Insertion-ordered maps and sets\<close>

fun alist_set :: "'k \<Rightarrow> 'v \<Rightarrow> ('k \<times> 'v) list \<Rightarrow> ('k \<times> 'v) list" where
  "alist_set k v [] = [(k, v)]"
| "alist_set k v ((k', v') # m) = (if k = k' then (k, v) # m else (k', v') # alist_set k v m)"

definition alist_delete :: "'k \<Rightarrow> ('k \<times> 'v) list \<Rightarrow> ('k \<times> 'v) list" where
  "alist_delete k m = filter (\<lambda>e. fst e \<noteq> k) m"

definition keys_distinct :: "('k \<times> 'v) list \<Rightarrow> bool" where
  "keys_distinct m \<longleftrightarrow> distinct (map fst m)"

lemma map_of_alist_set [alist_simps]: "map_of (alist_set k v m) = (map_of m)(k \<mapsto> v)"
  by (induction k v m rule: alist_set.induct) auto

lemma map_of_filter_keys: "map_of (filter (\<lambda>e. P (fst e)) m) k = (if P k then map_of m k else None)"
  by (induction m) auto

lemma map_of_alist_delete [alist_simps]: "map_of (alist_delete k m) = (map_of m)(k := None)"
  using map_of_filter_keys [of "\<lambda>x. x \<noteq> k" m] by (auto simp: alist_delete_def fun_eq_iff)

lemma keys_alist_set [alist_simps]: "fst ` set (alist_set k v m) = insert k (fst ` set m)"
  by (induction k v m rule: alist_set.induct) auto

lemma keys_alist_delete [alist_simps]: "fst ` set (alist_delete k m) = fst ` set m - {k}"
  by (auto simp: alist_delete_def)

lemma keys_distinct_Nil [simp]: "keys_distinct []"
  by (simp add: keys_distinct_def)

lemma keys_distinct_set [alist_simps]: "keys_distinct m \<Longrightarrow> keys_distinct (alist_set k v m)"
  unfolding keys_distinct_def
  by (induction k v m rule: alist_set.induct) (auto simp: keys_alist_set simp flip: image_set)

lemma keys_distinct_filter [alist_simps]: "keys_distinct m \<Longrightarrow> keys_distinct (filter P m)"
  by (simp add: keys_distinct_def distinct_map_filter)

lemma keys_distinct_delete [alist_simps]: "keys_distinct m \<Longrightarrow> keys_distinct (alist_delete k m)"
  by (simp add: alist_delete_def keys_distinct_filter)

lemma keys_distinct_mem: "keys_distinct m \<Longrightarrow> (k, v) \<in> set m \<longleftrightarrow> map_of m k = Some v"
  by (auto simp: keys_distinct_def dest: map_of_SomeD)

text \<open>\<open>Array.from(new Set(xs))\<close>: the first occurrences, in order.\<close>

definition js_distinct :: "'a list \<Rightarrow> 'a list" where
  "js_distinct xs = rev (remdups (rev xs))"

lemma set_js_distinct [simp]: "set (js_distinct xs) = set xs"
  by (simp add: js_distinct_def)

lemma distinct_js_distinct [simp]: "distinct (js_distinct xs)"
  by (simp add: js_distinct_def)

lemma js_distinct_id: "distinct xs \<Longrightarrow> js_distinct xs = xs"
  by (simp add: js_distinct_def distinct_remdups_id)

subsection \<open>Identifiers and sets of them\<close>

text \<open>An identifier given as a value of any kind, 0 when it is not a positive integer; adding to a \<open>Set\<close>.\<close>

definition positive_id :: "jsval \<Rightarrow> int" where
  "positive_id value = (case as_integer (to_number (if truthy value then value else JNum (inum 0))) of
     None \<Rightarrow> 0 | Some n \<Rightarrow> if n > 0 then n else 0)"

definition set_add :: "'a \<Rightarrow> 'a list \<Rightarrow> 'a list" where
  "set_add x xs = (if x \<in> set xs then xs else xs @ [x])"

lemma set_set_add [simp]: "set (set_add x xs) = insert x (set xs)"
  by (auto simp: set_add_def)

lemma set_fold_set_add [simp]: "set (fold set_add xs ys) = set xs \<union> set ys"
  by (induction xs arbitrary: ys) auto

lemma positive_id_nonneg [simp]: "0 \<le> positive_id v"
  by (simp add: positive_id_def split: option.splits)

definition add_positive_ids :: "jsval list \<Rightarrow> int list \<Rightarrow> int list" where
  "add_positive_ids vs ids = fold (\<lambda>v acc. let i = positive_id v in if i > 0 then set_add i acc else acc) vs ids"

lemma set_add_positive_ids [simp]:
  "set (add_positive_ids vs ids) = set ids \<union> {i. 0 < i \<and> (\<exists>v \<in> set vs. positive_id v = i)}"
  unfolding add_positive_ids_def by (induction vs arbitrary: ids) (auto simp: Let_def)

lemma positive_id_int: "positive_id (JNum (inum n)) = (if 0 < n then n else 0)"
  by (simp add: positive_id_def)

subsection \<open>Computations that may throw\<close>

text \<open>A computation that throws \<open>e\<close> is \<open>Inl e\<close>; \<open>ebind\<close> is sequencing and \<open>guardE\<close> a check that throws.\<close>

definition ebind :: "'e + 'a \<Rightarrow> ('a \<Rightarrow> 'e + 'b) \<Rightarrow> 'e + 'b" where
  "ebind x f = (case x of Inl e \<Rightarrow> Inl e | Inr a \<Rightarrow> f a)"

definition guardE :: "bool \<Rightarrow> 'e \<Rightarrow> 'e + unit" where
  "guardE b e = (if b then Inr () else Inl e)"

fun traverseE :: "('a \<Rightarrow> 'e + 'b) \<Rightarrow> 'a list \<Rightarrow> 'e + 'b list" where
  "traverseE f [] = Inr []"
| "traverseE f (x # xs) = ebind (f x) (\<lambda>y. ebind (traverseE f xs) (\<lambda>ys. Inr (y # ys)))"

lemma ebind_simps [simp]: "ebind (Inl e) f = Inl e" "ebind (Inr a) f = f a"
  by (simp_all add: ebind_def)

lemma ebind_Inr [throw_simps]: "ebind x f = Inr y \<longleftrightarrow> (\<exists>a. x = Inr a \<and> f a = Inr y)"
  by (cases x) simp_all

lemma guardE_Inr [simp]: "guardE b e = Inr u \<longleftrightarrow> b"
  by (simp add: guardE_def)

lemma guardE_simps [simp]: "guardE True e = Inr ()" "guardE False e = Inl e"
  by (simp_all add: guardE_def)

text \<open>Inversion of a successful result through the guards the code is made of.\<close>

lemma if_throw_Inr [throw_simps]: "(if b then Inl e else x) = Inr y \<longleftrightarrow> \<not> b \<and> x = Inr y"
  by simp

lemma option_throw_Inr [throw_simps]:
  "(case z of None \<Rightarrow> Inl e | Some x \<Rightarrow> f x) = Inr y \<longleftrightarrow> (\<exists>x. z = Some x \<and> f x = Inr y)"
  by (cases z) simp_all

lemma single_throw_Inr [throw_simps]:
  "(case xs of [] \<Rightarrow> Inl e | [x] \<Rightarrow> f x | x # y # zs \<Rightarrow> Inl e) = Inr r \<longleftrightarrow> (\<exists>x. xs = [x] \<and> f x = Inr r)"
  by (cases xs; cases "tl xs") auto

end
