(* ===== verification/PortPolicy.thy ===== *)
theory PortPolicy
  imports Prelude
begin

text \<open>
  Port policies (server/portPolicy.ts): which listener ports a host, a user grant or a plan range
  admits, how several policies are combined, and how a free port is picked.

  A \<open>PortPolicy\<close> is a record whose numbers are integers: every policy of the program is built by
  \<open>portPolicyFrom\<close> or \<open>combinePortPolicies\<close>. Membership of the object in the
  WeakSet \<open>normalizedPolicies\<close> is the field \<open>normalized\<close>. \<open>Math.random\<close> is the parameter \<open>rnd\<close>,
  with \<open>rnd n\<close> the value of \<open>Math.floor(Math.random() * n)\<close>.
\<close>

type_synonym port_interval = "int \<times> int"

record PortPolicySource =
  portRangeStart :: jsval
  portRangeEnd :: jsval
  portAllowlist :: "string option"
  portRanges :: "(jsval \<times> jsval) list"

record PortPolicy =
  rangeStart :: "int option"
  rangeEnd :: "int option"
  allowlist :: "int list"
  ranges :: "port_interval list"
  denyAll :: bool
  normalized :: bool

section \<open>Intervals\<close>

definition clamp_interval :: "jsnum \<times> jsnum \<Rightarrow> port_interval list" where
  "clamp_interval r = (case r of (Fin a, Fin b) \<Rightarrow>
       (let s = max 1 \<lceil>a\<rceil>; e = min 65535 \<lfloor>b\<rfloor> in if s \<le> e then [(s, e)] else [])
     | _ \<Rightarrow> [])"

text \<open>The loop over the sorted intervals; \<open>acc\<close> is the array \<open>normalized\<close>, last element first.\<close>

fun merge_intervals :: "port_interval list \<Rightarrow> port_interval list \<Rightarrow> port_interval list" where
  "merge_intervals acc [] = rev acc"
| "merge_intervals [] (r # rs) = merge_intervals [r] rs"
| "merge_intervals ((ps, pe) # acc) ((s, e) # rs) =
     (if s \<le> pe + 1 then merge_intervals ((ps, max pe e) # acc) rs
      else merge_intervals ((s, e) # (ps, pe) # acc) rs)"

definition normalizeIntervals :: "(jsnum \<times> jsnum) list \<Rightarrow> port_interval list" where
  "normalizeIntervals rs = merge_intervals [] (sort (concat (map clamp_interval rs)))"

abbreviation num_interval :: "port_interval \<Rightarrow> jsnum \<times> jsnum" where
  "num_interval r \<equiv> (inum (fst r), inum (snd r))"

definition policyIntervals :: "PortPolicy \<Rightarrow> port_interval list" where
  "policyIntervals p =
     (if denyAll p then []
      else normalizeIntervals (map num_interval
        ((case (rangeStart p, rangeEnd p) of (Some s, Some e) \<Rightarrow> [(s, e)] | _ \<Rightarrow> [])
         @ ranges p @ map (\<lambda>q. (q, q)) (allowlist p))))"

fun intersectIntervals :: "port_interval list \<Rightarrow> port_interval list \<Rightarrow> port_interval list" where
  "intersectIntervals [] rs = []"
| "intersectIntervals ls [] = []"
| "intersectIntervals ((ls, le) # l) ((rs, re) # r) =
     (let s = max ls rs; e = min le re;
          rest = (if le < re then intersectIntervals l ((rs, re) # r)
                  else intersectIntervals ((ls, le) # l) r) in
      if s \<le> e then (s, e) # rest else rest)"

section \<open>Binary searches\<close>

function bsearch_numbers :: "int list \<Rightarrow> int \<Rightarrow> int \<Rightarrow> int \<Rightarrow> bool" where
  "bsearch_numbers vs t low high =
     (if 0 \<le> low \<and> low \<le> high
      then let m = (low + high) div 2; v = vs ! nat m in
           if v = t then True
           else if v < t then bsearch_numbers vs t (m + 1) high
           else bsearch_numbers vs t low (m - 1)
      else False)"
  by pat_completeness auto
termination
  by (relation "measure (\<lambda>(vs, t, low, high). nat (high + 1 - low))") auto

definition sortedNumbersInclude :: "int list \<Rightarrow> int \<Rightarrow> bool" where
  "sortedNumbersInclude vs t = bsearch_numbers vs t 0 (int (length vs) - 1)"

function bsearch_intervals :: "port_interval list \<Rightarrow> int \<Rightarrow> int \<Rightarrow> int \<Rightarrow> bool" where
  "bsearch_intervals rs t low high =
     (if 0 \<le> low \<and> low \<le> high
      then let m = (low + high) div 2; r = rs ! nat m in
           if t < fst r then bsearch_intervals rs t low (m - 1)
           else if snd r < t then bsearch_intervals rs t (m + 1) high
           else True
      else False)"
  by pat_completeness auto
termination
  by (relation "measure (\<lambda>(rs, t, low, high). nat (high + 1 - low))") auto

declare bsearch_numbers.simps [simp del] bsearch_intervals.simps [simp del]

definition sortedIntervalsInclude :: "port_interval list \<Rightarrow> int \<Rightarrow> bool" where
  "sortedIntervalsInclude rs t = bsearch_intervals rs t 0 (int (length rs) - 1)"

section \<open>Reading a policy\<close>

abbreviation valid_port :: "int \<Rightarrow> bool" where
  "valid_port p \<equiv> 1 \<le> p \<and> p \<le> 65535"

definition port_of_number :: "jsnum \<Rightarrow> int option" where
  "port_of_number x = (case as_integer x of Some p \<Rightarrow> if valid_port p then Some p else None | None \<Rightarrow> None)"

definition parsePortAllowlist :: "string option \<Rightarrow> int list" where
  "parsePortAllowlist v =
     (let txt = js_trim (case v of None \<Rightarrow> [] | Some s \<Rightarrow> s) in
      if txt = [] then []
      else sort (js_distinct (List.map_filter (\<lambda>item. port_of_number (string_to_number (js_trim item)))
             (js_split CHR '','' txt))))"

definition normalizePortAllowlist :: "string option \<Rightarrow> string" where
  "normalizePortAllowlist v = js_join '','' (map show_int (parsePortAllowlist v))"

definition optionalPort :: "jsval \<Rightarrow> int option" where
  "optionalPort v = (if is_nullish v \<or> v = JStr [] then None else port_of_number (to_number v))"

definition source_ranges :: "(jsval \<times> jsval) list \<Rightarrow> port_interval list" where
  "source_ranges rs = js_distinct (List.map_filter
     (\<lambda>r. case (optionalPort (fst r), optionalPort (snd r)) of
            (Some s, Some e) \<Rightarrow> if s \<le> e then Some (s, e) else None
          | _ \<Rightarrow> None) rs)"

definition portPolicyFrom :: "PortPolicySource option \<Rightarrow> PortPolicy" where
  "portPolicyFrom source =
     (let rs = (case source of None \<Rightarrow> None | Some x \<Rightarrow> optionalPort (portRangeStart x));
          re = (case source of None \<Rightarrow> None | Some x \<Rightarrow> optionalPort (portRangeEnd x));
          hasValidRange = (case (rs, re) of (Some s, Some e) \<Rightarrow> s \<le> e | _ \<Rightarrow> False) in
      \<lparr>rangeStart = (if hasValidRange then rs else None),
       rangeEnd = (if hasValidRange then re else None),
       allowlist = parsePortAllowlist (case source of None \<Rightarrow> None | Some x \<Rightarrow> portAllowlist x),
       ranges = normalizeIntervals (map num_interval
                  (source_ranges (case source of None \<Rightarrow> [] | Some x \<Rightarrow> portRanges x))),
       denyAll = False,
       normalized = True\<rparr>)"

definition portPolicyHasRestriction :: "PortPolicy \<Rightarrow> bool" where
  "portPolicyHasRestriction p \<longleftrightarrow>
     denyAll p \<or> (rangeStart p \<noteq> None \<and> rangeEnd p \<noteq> None) \<or> 0 < length (ranges p) \<or> 0 < length (allowlist p)"

definition in_primary_range :: "int \<Rightarrow> PortPolicy \<Rightarrow> bool" where
  "in_primary_range q p = (case (rangeStart p, rangeEnd p) of (Some s, Some e) \<Rightarrow> s \<le> q \<and> q \<le> e | _ \<Rightarrow> False)"

definition isPortAllowedByPolicy :: "jsnum \<Rightarrow> PortPolicy \<Rightarrow> bool" where
  "isPortAllowedByPolicy port p =
     (case port_of_number port of None \<Rightarrow> False
      | Some q \<Rightarrow>
          if denyAll p then False
          else if \<not> portPolicyHasRestriction p then True
          else if in_primary_range q p then True
          else if normalized p
               then sortedIntervalsInclude (ranges p) q \<or> sortedNumbersInclude (allowlist p) q
          else list_ex (\<lambda>r. fst r \<le> q \<and> q \<le> snd r) (ranges p) \<or> q \<in> set (allowlist p))"

section \<open>Combining policies\<close>

fun intersect_all :: "port_interval list \<Rightarrow> PortPolicy list \<Rightarrow> port_interval list" where
  "intersect_all allowed [] = allowed"
| "intersect_all allowed (p # ps) =
     (if allowed = [] then allowed
      else intersect_all (intersectIntervals allowed (policyIntervals p)) ps)"

definition interval_width :: "port_interval \<Rightarrow> int" where
  "interval_width r = snd r - fst r"

text \<open>The index of the widest interval, the first one among equals.\<close>

fun best_index :: "port_interval list \<Rightarrow> nat \<Rightarrow> nat \<Rightarrow> nat" where
  "best_index allowed 0 best = best"
| "best_index allowed (Suc k) best =
     (let i = length allowed - Suc k in
      best_index allowed k
        (if interval_width (allowed ! i) > interval_width (allowed ! best) then i else best))"

definition remaining_intervals :: "bool \<Rightarrow> nat \<Rightarrow> port_interval list \<Rightarrow> port_interval list" where
  "remaining_intervals hasPrimary bi allowed =
     map snd (filter (\<lambda>(i, r). \<not> hasPrimary \<or> i \<noteq> bi) (enumerate 0 allowed))"

definition policy_of_intervals :: "port_interval list \<Rightarrow> PortPolicy" where
  "policy_of_intervals allowed =
     (let bi = best_index allowed (length allowed - 1) 0;
          best = allowed ! bi;
          hasPrimary = snd best > fst best;
          remaining = remaining_intervals hasPrimary bi allowed in
      \<lparr>rangeStart = (if hasPrimary then Some (fst best) else None),
       rangeEnd = (if hasPrimary then Some (snd best) else None),
       allowlist = map fst (filter (\<lambda>r. fst r = snd r) remaining),
       ranges = filter (\<lambda>r. fst r \<noteq> snd r) remaining,
       denyAll = False,
       normalized = True\<rparr>)"

definition combinePortPolicies :: "PortPolicy list \<Rightarrow> PortPolicy" where
  "combinePortPolicies ps =
     (case filter portPolicyHasRestriction ps of
        [] \<Rightarrow> portPolicyFrom None
      | r # rs \<Rightarrow>
          (let allowed = intersect_all (policyIntervals r) rs in
           if allowed = []
           then \<lparr>rangeStart = None, rangeEnd = None, allowlist = [], ranges = [], denyAll = True,
                 normalized = True\<rparr>
           else policy_of_intervals allowed))"

section \<open>Picking a port\<close>

definition add_candidates :: "int set \<Rightarrow> int list \<Rightarrow> int list" where
  "add_candidates used ports = js_distinct (filter (\<lambda>q. q \<notin> used) ports)"

definition policy_candidates :: "PortPolicy \<Rightarrow> int list" where
  "policy_candidates p =
     (case (rangeStart p, rangeEnd p) of (Some s, Some e) \<Rightarrow> [s..e] | _ \<Rightarrow> [])
     @ concat (map (\<lambda>r. [fst r..snd r]) (ranges p)) @ allowlist p"

fun scan_from :: "int set \<Rightarrow> int \<Rightarrow> int \<Rightarrow> int \<Rightarrow> nat \<Rightarrow> int option" where
  "scan_from used start off len 0 = None"
| "scan_from used start off len (Suc k) =
     (let i = len - int (Suc k); port = start + ((off + i) mod len) in
      if port \<notin> used then Some port else scan_from used start off len k)"

definition pick_random :: "(int \<Rightarrow> int) \<Rightarrow> int list \<Rightarrow> int option" where
  "pick_random rnd cs = (if cs = [] then None else Some (cs ! nat (rnd (int (length cs)))))"

definition pickAvailablePort ::
  "(int \<Rightarrow> int) \<Rightarrow> PortPolicy \<Rightarrow> int set \<Rightarrow> int \<Rightarrow> int \<Rightarrow> int option" where
  "pickAvailablePort rnd p used dstart dend =
     (if portPolicyHasRestriction p then pick_random rnd (add_candidates used (policy_candidates p))
      else let start = max 1 (min 65535 dstart);
               fin = max start (min 65535 dend);
               len = fin - start + 1 in
           if len \<le> 10000 then pick_random rnd (add_candidates used [start..fin])
           else scan_from used start (rnd len) len (nat len))"

section \<open>Facts about intervals\<close>

definition cover :: "port_interval list \<Rightarrow> int set" where
  "cover rs = {q. \<exists>r\<in>set rs. fst r \<le> q \<and> q \<le> snd r}"

definition gap_sorted :: "port_interval list \<Rightarrow> bool" where
  "gap_sorted rs \<longleftrightarrow> sorted_wrt (\<lambda>a b. snd a + 1 < fst b) rs \<and> (\<forall>r\<in>set rs. fst r \<le> snd r)"

lemma cover_simps [simp]:
  "cover [] = {}"
  "cover (r # rs) = {fst r..snd r} \<union> cover rs"
  "cover (xs @ ys) = cover xs \<union> cover ys"
  by (auto simp: cover_def)

lemma cover_cong: "set xs = set ys \<Longrightarrow> cover xs = cover ys"
  by (simp add: cover_def)

lemma gap_sorted_simps [simp]:
  "gap_sorted []"
  "gap_sorted (r # rs) \<longleftrightarrow> fst r \<le> snd r \<and> (\<forall>x\<in>set rs. snd r + 1 < fst x) \<and> gap_sorted rs"
  "gap_sorted (rs @ [r]) \<longleftrightarrow> fst r \<le> snd r \<and> (\<forall>x\<in>set rs. snd x + 1 < fst r) \<and> gap_sorted rs"
  by (auto simp: gap_sorted_def sorted_wrt_append)

lemma merge_intervals_cover:
  assumes "sorted (map fst rs)" "\<forall>r\<in>set rs. fst r \<le> snd r"
    "\<forall>r\<in>set rs. \<forall>a\<in>set acc. fst a \<le> fst r" "\<forall>a\<in>set acc. fst a \<le> snd a"
  shows "cover (merge_intervals acc rs) = cover acc \<union> cover rs"
  using assms
proof (induction acc rs rule: merge_intervals.induct)
  case (1 acc)
  then show ?case by (simp add: cover_def)
next
  case (2 r rs)
  then show ?case by auto
next
  case (3 ps pe acc s e rs)
  show ?case
  proof (cases "s \<le> pe + 1")
    case True
    have "ps \<le> s" "s \<le> e" using 3 by auto
    then have "{ps..max pe e} = {ps..pe} \<union> {s..e}" using True by auto
    moreover have "cover (merge_intervals ((ps, max pe e) # acc) rs) = cover ((ps, max pe e) # acc) \<union> cover rs"
      using 3 True by auto
    ultimately show ?thesis using True by auto
  next
    case False
    have "sorted (map fst rs)" "\<forall>r\<in>set rs. fst r \<le> snd r"
      "\<forall>r\<in>set rs. \<forall>a\<in>set ((s, e) # (ps, pe) # acc). fst a \<le> fst r"
      "\<forall>a\<in>set ((s, e) # (ps, pe) # acc). fst a \<le> snd a"
      using "3.prems" by auto
    from "3.IH"(2) [OF False this]
    have "cover (merge_intervals ((s, e) # (ps, pe) # acc) rs) = cover ((s, e) # (ps, pe) # acc) \<union> cover rs" .
    then show ?thesis using False by auto
  qed
qed

lemma merge_intervals_gap:
  assumes "sorted (map fst rs)" "\<forall>r\<in>set rs. fst r \<le> snd r"
    "\<forall>r\<in>set rs. \<forall>a\<in>set acc. fst a \<le> fst r" "gap_sorted (rev acc)"
  shows "gap_sorted (merge_intervals acc rs)"
  using assms
proof (induction acc rs rule: merge_intervals.induct)
  case (3 ps pe acc s e rs)
  show ?case
  proof (cases "s \<le> pe + 1")
    case True
    then show ?thesis using 3 by auto
  next
    case False
    have "gap_sorted ((rev acc @ [(ps, pe)]) @ [(s, e)])"
      using 3(4,6) False by (subst gap_sorted_simps(3)) auto
    then have gap: "gap_sorted (rev ((s, e) # (ps, pe) # acc))" by simp
    have "sorted (map fst rs)" "\<forall>r\<in>set rs. fst r \<le> snd r"
      "\<forall>r\<in>set rs. \<forall>a\<in>set ((s, e) # (ps, pe) # acc). fst a \<le> fst r"
      using "3.prems" by auto
    from "3.IH"(2) [OF False this gap] False show ?thesis by simp
  qed
qed auto

lemma sorted_map_fst: "sorted (xs :: (int \<times> int) list) \<Longrightarrow> sorted (map fst xs)"
  by (induction xs) (auto simp: less_eq_prod_def)

definition in_interval :: "int \<Rightarrow> jsnum \<times> jsnum \<Rightarrow> bool" where
  "in_interval q r \<longleftrightarrow> is_finite (fst r) \<and> is_finite (snd r) \<and>
     num_le (fst r) (inum q) \<and> num_le (inum q) (snd r)"

lemma num_le_Fin [simp]: "num_le (Fin a) (Fin b) \<longleftrightarrow> a \<le> b"
  by (auto simp: num_le_def num_eq_def)

lemma cover_clamp: "cover (clamp_interval r) = {q. valid_port q \<and> in_interval q r}"
proof (cases "\<exists>a b. r = (Fin a, Fin b)")
  case True
  then obtain a b where r: "r = (Fin a, Fin b)" by blast
  define c f where "c = \<lceil>a\<rceil>" and "f = \<lfloor>b\<rfloor>"
  have iffs: "a \<le> of_int q \<longleftrightarrow> c \<le> q" "of_int q \<le> b \<longleftrightarrow> q \<le> f" for q
    by (simp_all add: c_def f_def ceiling_le_iff le_floor_iff)
  have "clamp_interval r = (if max 1 c \<le> min 65535 f then [(max 1 c, min 65535 f)] else [])"
    by (simp add: clamp_interval_def r c_def f_def Let_def)
  then show ?thesis using r by (auto simp: in_interval_def iffs)
next
  case False
  then have "\<not> (is_finite (fst r) \<and> is_finite (snd r))"
    by (cases r; cases "fst r"; cases "snd r") auto
  with False show ?thesis
    by (auto simp: clamp_interval_def in_interval_def split: prod.splits jsnum.splits)
qed

lemma clamp_ordered: "x \<in> set (clamp_interval r) \<Longrightarrow> fst x \<le> snd x \<and> 1 \<le> fst x \<and> snd x \<le> 65535"
  by (auto simp: clamp_interval_def Let_def split: prod.splits jsnum.splits if_splits)

lemma cover_concat: "cover (concat xss) = (\<Union>xs\<in>set xss. cover xs)"
  by (auto simp: cover_def)

lemma normalizeIntervals_cover:
  "cover (normalizeIntervals rs) = {q. valid_port q \<and> (\<exists>r\<in>set rs. in_interval q r)}"
proof -
  let ?xs = "sort (concat (map clamp_interval rs))"
  have "cover (normalizeIntervals rs) = cover ?xs"
    using merge_intervals_cover [of ?xs "[]"] clamp_ordered
    by (force simp: normalizeIntervals_def sorted_map_fst)
  also have "\<dots> = cover (concat (map clamp_interval rs))" by (rule cover_cong) simp
  also have "\<dots> = {q. valid_port q \<and> (\<exists>r\<in>set rs. in_interval q r)}"
    by (auto simp: cover_concat cover_clamp)
  finally show ?thesis .
qed

lemma normalizeIntervals_gap: "gap_sorted (normalizeIntervals rs)"
  using merge_intervals_gap [of "sort (concat (map clamp_interval rs))" "[]"] clamp_ordered
  by (force simp: normalizeIntervals_def sorted_map_fst)

lemma intersectIntervals_mem:
  "x \<in> set (intersectIntervals l r) \<Longrightarrow>
   (\<exists>a\<in>set l. \<exists>b\<in>set r. x = (max (fst a) (fst b), min (snd a) (snd b))) \<and> fst x \<le> snd x"
  by (induction l r rule: intersectIntervals.induct) (force simp: Let_def split: if_splits)+

lemma intersectIntervals_gap:
  "gap_sorted l \<Longrightarrow> gap_sorted r \<Longrightarrow> gap_sorted (intersectIntervals l r)"
proof (induction l r rule: intersectIntervals.induct)
  case (3 ls le l rs re r)
  show ?case
  proof (cases "le < re")
    case True
    have "min le re + 1 < fst x" if "x \<in> set (intersectIntervals l ((rs, re) # r))" for x
      using intersectIntervals_mem [OF that] 3(3) True by fastforce
    then show ?thesis using 3 True by (auto simp: Let_def)
  next
    case False
    have "min le re + 1 < fst x" if "x \<in> set (intersectIntervals ((ls, le) # l) r)" for x
      using intersectIntervals_mem [OF that] 3(4) False by fastforce
    then show ?thesis using 3 False by (auto simp: Let_def)
  qed
qed auto

lemma cover_after: "\<forall>x\<in>set rs. k < fst x \<Longrightarrow> q \<le> k \<Longrightarrow> q \<notin> cover rs"
  by (force simp: cover_def)

lemma intersectIntervals_cover:
  "gap_sorted l \<Longrightarrow> gap_sorted r \<Longrightarrow> cover (intersectIntervals l r) = cover l \<inter> cover r"
proof (induction l r rule: intersectIntervals.induct)
  case (3 ls le l rs re r)
  have here: "cover (if max ls rs \<le> min le re then [(max ls rs, min le re)] else []) = {ls..le} \<inter> {rs..re}"
    by auto
  show ?case
  proof (cases "le < re")
    case True
    have "{ls..le} \<inter> cover r = {}"
      using 3(4) True cover_after [of r "re"] by fastforce
    moreover have "cover (intersectIntervals l ((rs, re) # r)) = cover l \<inter> cover ((rs, re) # r)"
      using 3 True by simp
    ultimately show ?thesis using here True by (auto simp: Let_def split: if_splits)
  next
    case False
    have "cover l \<inter> {rs..re} = {}"
      using 3(3) False cover_after [of l "le"] by fastforce
    moreover have "cover (intersectIntervals ((ls, le) # l) r) = cover ((ls, le) # l) \<inter> cover r"
      using 3 False by simp
    ultimately show ?thesis using here False by (auto simp: Let_def split: if_splits)
  qed
qed auto

section \<open>Facts about the searches\<close>

lemma bsearch_numbers_iff:
  assumes "sorted vs" "0 \<le> low" "high < int (length vs)"
  shows "bsearch_numbers vs t low high \<longleftrightarrow> (\<exists>i. low \<le> i \<and> i \<le> high \<and> vs ! nat i = t)"
  using assms
proof (induction vs t low high rule: bsearch_numbers.induct)
  case (1 vs t low high)
  define m where "m = (low + high) div 2"
  show ?case
  proof (cases "low \<le> high")
    case False
    then show ?thesis by (simp add: bsearch_numbers.simps [of vs t low high])
  next
    case True
    then have m: "low \<le> m" "m \<le> high" by (auto simp: m_def)
    have mono: "vs ! nat i \<le> vs ! nat j" if "i \<le> j" "j \<le> high" for i j
      using that "1.prems" True by (intro sorted_nth_mono) auto
    consider "vs ! nat m = t" | "vs ! nat m < t" | "t < vs ! nat m" by linarith
    then show ?thesis
    proof cases
      case 1
      then show ?thesis using True m "1.prems"
        by (auto simp: bsearch_numbers.simps [of vs t low high] Let_def m_def)
    next
      case 2
      then have "bsearch_numbers vs t low high = bsearch_numbers vs t (m + 1) high"
        using True "1.prems" by (simp add: bsearch_numbers.simps [of vs t low high] Let_def m_def)
      moreover have "m + 1 \<le> i" if "vs ! nat i = t" for i
        using mono [of i m] 2 m that by force
      moreover have "bsearch_numbers vs t (m + 1) high \<longleftrightarrow> (\<exists>i. m + 1 \<le> i \<and> i \<le> high \<and> vs ! nat i = t)"
        using "1.IH"(1) [of m "vs ! nat m"] 2 True "1.prems" m by (simp add: m_def)
      moreover have "low \<le> i" if "m + 1 \<le> i" for i using that m by simp
      ultimately show ?thesis by blast
    next
      case 3
      then have "bsearch_numbers vs t low high = bsearch_numbers vs t low (m - 1)"
        using True "1.prems" by (simp add: bsearch_numbers.simps [of vs t low high] Let_def m_def)
      moreover have "i \<le> m - 1" if "vs ! nat i = t" "i \<le> high" for i
        using mono [of m i] 3 m that by force
      moreover have "bsearch_numbers vs t low (m - 1) \<longleftrightarrow> (\<exists>i. low \<le> i \<and> i \<le> m - 1 \<and> vs ! nat i = t)"
        using "1.IH"(2) [of m "vs ! nat m"] 3 True "1.prems" m by (simp add: m_def)
      ultimately show ?thesis using m by fastforce
    qed
  qed
qed

lemma ex_int_index: "(\<exists>i. 0 \<le> i \<and> i \<le> int (length xs) - 1 \<and> P (xs ! nat i)) \<longleftrightarrow> (\<exists>x\<in>set xs. P x)"
proof
  assume "\<exists>x\<in>set xs. P x"
  then obtain k where "k < length xs" "P (xs ! k)" by (auto simp: in_set_conv_nth)
  then show "\<exists>i. 0 \<le> i \<and> i \<le> int (length xs) - 1 \<and> P (xs ! nat i)"
    by (intro exI [of _ "int k"]) auto
next
  assume "\<exists>i. 0 \<le> i \<and> i \<le> int (length xs) - 1 \<and> P (xs ! nat i)"
  then obtain i where "0 \<le> i" "i \<le> int (length xs) - 1" "P (xs ! nat i)" by blast
  then show "\<exists>x\<in>set xs. P x" by (auto intro!: bexI [of _ "xs ! nat i"])
qed

lemma sortedNumbersInclude_iff: "sorted vs \<Longrightarrow> sortedNumbersInclude vs t \<longleftrightarrow> t \<in> set vs"
  using ex_int_index [of vs "\<lambda>v. v = t"]
  by (auto simp: sortedNumbersInclude_def bsearch_numbers_iff)

lemma gap_sorted_nth:
  assumes "gap_sorted rs" "i \<le> j" "0 \<le> i" "j < int (length rs)"
  shows "snd (rs ! nat i) \<le> snd (rs ! nat j)" "fst (rs ! nat i) \<le> fst (rs ! nat j)"
proof -
  have ord: "fst (rs ! nat i) \<le> snd (rs ! nat i)" "fst (rs ! nat j) \<le> snd (rs ! nat j)"
    using assms by (auto simp: gap_sorted_def)
  have "snd (rs ! nat i) + 1 < fst (rs ! nat j)" if "i < j"
    using assms that by (intro sorted_wrt_nth_less [of _ rs, where P = "\<lambda>a b. snd a + 1 < fst b"])
      (auto simp: gap_sorted_def)
  with ord assms(2) show "snd (rs ! nat i) \<le> snd (rs ! nat j)" "fst (rs ! nat i) \<le> fst (rs ! nat j)"
    by (cases "i = j"; force)+
qed

lemma bsearch_intervals_iff:
  assumes "gap_sorted rs" "0 \<le> low" "high < int (length rs)"
  shows "bsearch_intervals rs t low high \<longleftrightarrow>
    (\<exists>i. low \<le> i \<and> i \<le> high \<and> fst (rs ! nat i) \<le> t \<and> t \<le> snd (rs ! nat i))"
  using assms
proof (induction rs t low high rule: bsearch_intervals.induct)
  case (1 rs t low high)
  define m where "m = (low + high) div 2"
  show ?case
  proof (cases "low \<le> high")
    case False
    then show ?thesis by (simp add: bsearch_intervals.simps [of rs t low high])
  next
    case True
    then have m: "low \<le> m" "m \<le> high" by (auto simp: m_def)
    consider "fst (rs ! nat m) \<le> t \<and> t \<le> snd (rs ! nat m)" | "t < fst (rs ! nat m)"
      | "\<not> t < fst (rs ! nat m)" "snd (rs ! nat m) < t" by linarith
    then show ?thesis
    proof cases
      case 1
      then show ?thesis using True m "1.prems"
        by (auto simp: bsearch_intervals.simps [of rs t low high] Let_def m_def)
    next
      case 2
      then have "bsearch_intervals rs t low high = bsearch_intervals rs t low (m - 1)"
        using True "1.prems" by (simp add: bsearch_intervals.simps [of rs t low high] Let_def m_def)
      moreover have "i \<le> m - 1" if "fst (rs ! nat i) \<le> t" "i \<le> high" for i
        using gap_sorted_nth(2) [of rs m i] 2 m that "1.prems" by force
      moreover have "bsearch_intervals rs t low (m - 1) \<longleftrightarrow>
        (\<exists>i. low \<le> i \<and> i \<le> m - 1 \<and> fst (rs ! nat i) \<le> t \<and> t \<le> snd (rs ! nat i))"
        using "1.IH"(1) [of m "rs ! nat m"] 2 True "1.prems" m by (simp add: m_def)
      ultimately show ?thesis using m by fastforce
    next
      case 3
      then have "bsearch_intervals rs t low high = bsearch_intervals rs t (m + 1) high"
        using True "1.prems" by (simp add: bsearch_intervals.simps [of rs t low high] Let_def m_def)
      moreover have "m + 1 \<le> i" if "t \<le> snd (rs ! nat i)" "low \<le> i" for i
        using gap_sorted_nth(1) [of rs i m] 3 m that "1.prems" by force
      moreover have "bsearch_intervals rs t (m + 1) high \<longleftrightarrow>
        (\<exists>i. m + 1 \<le> i \<and> i \<le> high \<and> fst (rs ! nat i) \<le> t \<and> t \<le> snd (rs ! nat i))"
        using "1.IH"(2) [of m "rs ! nat m"] 3 True "1.prems" m by (simp add: m_def)
      moreover have "low \<le> i" if "m + 1 \<le> i" for i using that m by simp
      ultimately show ?thesis by blast
    qed
  qed
qed

lemma sortedIntervalsInclude_iff: "gap_sorted rs \<Longrightarrow> sortedIntervalsInclude rs t \<longleftrightarrow> t \<in> cover rs"
  using ex_int_index [of rs "\<lambda>r. fst r \<le> t \<and> t \<le> snd r"]
  by (auto simp: sortedIntervalsInclude_def bsearch_intervals_iff cover_def)

section \<open>What a policy admits\<close>

definition policy_wf :: "PortPolicy \<Rightarrow> bool" where
  "policy_wf p \<longleftrightarrow> (normalized p \<longrightarrow> gap_sorted (ranges p) \<and> sorted (allowlist p))"

definition policy_admits :: "PortPolicy \<Rightarrow> int \<Rightarrow> bool" where
  "policy_admits p q \<longleftrightarrow> valid_port q \<and> \<not> denyAll p \<and>
     (\<not> portPolicyHasRestriction p \<or> in_primary_range q p \<or> q \<in> cover (ranges p) \<or> q \<in> set (allowlist p))"

lemma port_of_number_inum [simp]: "port_of_number (inum q) = (if valid_port q then Some q else None)"
  by (simp add: port_of_number_def)

lemma port_of_number_Some: "port_of_number x = Some q \<longleftrightarrow> x = inum q \<and> valid_port q"
  by (auto simp: port_of_number_def as_integer_Some split: option.splits)

lemma isPortAllowedByPolicy_iff:
  "policy_wf p \<Longrightarrow> isPortAllowedByPolicy (inum q) p \<longleftrightarrow> policy_admits p q"
  by (auto simp: isPortAllowedByPolicy_def policy_wf_def policy_admits_def sortedNumbersInclude_iff
      sortedIntervalsInclude_iff list_ex_iff cover_def split: if_splits)

lemma in_interval_num [simp]: "in_interval q (inum a, inum b) \<longleftrightarrow> a \<le> q \<and> q \<le> b"
  by (simp add: in_interval_def)

lemma normalize_num_cover:
  "cover (normalizeIntervals (map num_interval rs)) = {q. valid_port q} \<inter> cover rs"
  by (auto simp: normalizeIntervals_cover cover_def [of rs])

lemma cover_points [simp]: "cover (map (\<lambda>q. (q, q)) qs) = set qs"
  by (auto simp: cover_def)

lemma policyIntervals_cover:
  "portPolicyHasRestriction p \<Longrightarrow> cover (policyIntervals p) = {q. policy_admits p q}"
  unfolding policyIntervals_def normalize_num_cover
  by (auto simp: normalize_num_cover policy_admits_def in_primary_range_def simp del: map_append map_map
      split: option.splits)

lemma policyIntervals_gap: "gap_sorted (policyIntervals p)"
  by (simp add: policyIntervals_def normalizeIntervals_gap)

lemma intersect_all_spec:
  assumes "gap_sorted allowed"
  shows "gap_sorted (intersect_all allowed ps)"
    and "cover (intersect_all allowed ps) = cover allowed \<inter> (\<Inter>p\<in>set ps. cover (policyIntervals p))"
  using assms
  by (induction allowed ps rule: intersect_all.induct)
    (auto simp: intersectIntervals_gap intersectIntervals_cover policyIntervals_gap)

lemma best_index_less: "best < length xs \<Longrightarrow> k < length xs \<Longrightarrow> best_index xs k best < length xs"
  by (induction k arbitrary: best) (auto simp: Let_def)

lemma sorted_wrt_remaining:
  "sorted_wrt R xs \<Longrightarrow> sorted_wrt R (map snd (filter P (enumerate n xs)))"
proof (induction xs arbitrary: n)
  case (Cons x xs)
  have "set (map snd (filter P (enumerate (Suc n) xs))) \<subseteq> set xs"
    by (auto simp: in_set_enumerate_eq)
  with Cons show ?case by auto
qed simp

lemma set_remaining:
  "set (remaining_intervals b bi xs) = {xs ! i | i. i < length xs \<and> (\<not> b \<or> i \<noteq> bi)}"
  by (force simp: remaining_intervals_def in_set_enumerate_eq image_iff)

lemma gap_sorted_filter_remaining:
  assumes "gap_sorted xs"
  shows "gap_sorted (filter Q (remaining_intervals b bi xs))"
proof -
  have "sorted_wrt (\<lambda>a b. snd a + 1 < fst b) (remaining_intervals b bi xs)"
    using assms unfolding remaining_intervals_def
    by (intro sorted_wrt_remaining) (simp add: gap_sorted_def)
  moreover have "\<forall>r\<in>set (remaining_intervals b bi xs). fst r \<le> snd r"
    using assms unfolding set_remaining gap_sorted_def by fastforce
  ultimately show ?thesis by (simp add: gap_sorted_def sorted_wrt_filter)
qed

lemma gap_sorted_starts: "gap_sorted xs \<Longrightarrow> sorted (map fst xs)"
  by (induction xs) force+

lemma policy_of_intervals_wf: "gap_sorted xs \<Longrightarrow> policy_wf (policy_of_intervals xs)"
  by (simp add: policy_wf_def policy_of_intervals_def Let_def gap_sorted_filter_remaining
      gap_sorted_starts)

lemma set_policy_candidates:
  "set (policy_candidates p) = {q. in_primary_range q p} \<union> cover (ranges p) \<union> set (allowlist p)"
proof -
  have "(\<Union>r\<in>set (ranges p). {fst r..snd r}) = cover (ranges p)"
    unfolding cover_def by force
  then show ?thesis
    by (cases "rangeStart p"; cases "rangeEnd p") (auto simp: policy_candidates_def in_primary_range_def)
qed

lemma policyIntervals_valid: "q \<in> cover (policyIntervals p) \<Longrightarrow> valid_port q"
  unfolding policyIntervals_def normalize_num_cover by (auto split: if_splits simp: normalizeIntervals_cover)

lemma policy_of_intervals_candidates:
  assumes ne: "xs \<noteq> []"
  shows "set (policy_candidates (policy_of_intervals xs)) = cover xs"
proof -
  define bi where "bi = best_index xs (length xs - 1) 0"
  define b where "b = (snd (xs ! bi) > fst (xs ! bi))"
  define rem where "rem = remaining_intervals b bi xs"
  have bi: "bi < length xs" using ne by (simp add: bi_def best_index_less)
  have all: "set xs = set rem \<union> (if b then {xs ! bi} else {})"
    unfolding rem_def set_remaining set_conv_nth [of xs] using bi by (cases b) auto
  have eq: "policy_of_intervals xs = \<lparr>rangeStart = (if b then Some (fst (xs ! bi)) else None),
       rangeEnd = (if b then Some (snd (xs ! bi)) else None),
       allowlist = map fst (filter (\<lambda>r. fst r = snd r) rem),
       ranges = filter (\<lambda>r. fst r \<noteq> snd r) rem, denyAll = False, normalized = True\<rparr>"
    by (simp add: policy_of_intervals_def Let_def bi_def b_def rem_def)
  have "cover xs = cover rem \<union> (if b then {fst (xs ! bi)..snd (xs ! bi)} else {})"
    using all by (auto simp: cover_def split: if_splits)
  moreover have "cover rem = cover (filter (\<lambda>r. fst r \<noteq> snd r) rem)
      \<union> set (map fst (filter (\<lambda>r. fst r = snd r) rem))"
    by (force simp: cover_def)
  ultimately show ?thesis
    by (auto simp: set_policy_candidates eq in_primary_range_def)
qed

lemma candidates_restricted: "policy_candidates p \<noteq> [] \<Longrightarrow> portPolicyHasRestriction p"
  by (auto simp: policy_candidates_def portPolicyHasRestriction_def split: option.splits)

lemma policy_of_intervals_admits:
  assumes "gap_sorted xs" "xs \<noteq> []" "\<forall>q\<in>cover xs. valid_port q"
  shows "policy_admits (policy_of_intervals xs) q \<longleftrightarrow> q \<in> cover xs"
proof -
  have "cover xs \<noteq> {}" using assms(1,2) by (cases xs) auto
  then have "policy_candidates (policy_of_intervals xs) \<noteq> []"
    using policy_of_intervals_candidates [OF assms(2)] by auto
  moreover have "\<not> denyAll (policy_of_intervals xs)"
    by (simp add: policy_of_intervals_def Let_def)
  ultimately show ?thesis
    using assms(3) policy_of_intervals_candidates [OF assms(2)] candidates_restricted
    unfolding policy_admits_def set_policy_candidates by blast
qed

lemma policy_admits_valid: "policy_admits p q \<Longrightarrow> valid_port q"
  by (simp add: policy_admits_def)

lemma policy_admits_unrestricted: "\<not> portPolicyHasRestriction p \<Longrightarrow> policy_admits p q \<longleftrightarrow> valid_port q"
  by (auto simp: policy_admits_def portPolicyHasRestriction_def)

lemma source_ranges_Nil [simp]: "source_ranges [] = []"
  by (simp add: source_ranges_def js_distinct_def)

lemma normalizeIntervals_Nil [simp]: "normalizeIntervals [] = []"
  by (simp add: normalizeIntervals_def)

lemma portPolicyFrom_None: "\<not> portPolicyHasRestriction (portPolicyFrom None)"
  by (simp add: portPolicyFrom_def portPolicyHasRestriction_def parsePortAllowlist_def js_trim_def)

lemma combine_admits:
  "policy_admits (combinePortPolicies ps) q \<longleftrightarrow> valid_port q \<and> (\<forall>p\<in>set ps. policy_admits p q)"
proof -
  have all: "(\<forall>p\<in>set ps. policy_admits p q) \<longleftrightarrow> (\<forall>p\<in>set (filter portPolicyHasRestriction ps). policy_admits p q)"
    if "valid_port q"
    using that policy_admits_unrestricted by auto
  show ?thesis
  proof (cases "filter portPolicyHasRestriction ps")
    case Nil
    then show ?thesis using all
      by (auto simp: combinePortPolicies_def policy_admits_unrestricted portPolicyFrom_None)
  next
    case (Cons r rs)
    define xs where "xs = intersect_all (policyIntervals r) rs"
    have restr: "portPolicyHasRestriction p" if "p \<in> set (r # rs)" for p
      using that Cons by (metis (mono_tags) mem_Collect_eq set_filter)
    have cov: "cover xs = {q. \<forall>p\<in>set (r # rs). policy_admits p q}"
      using restr by (auto simp: xs_def intersect_all_spec policyIntervals_gap policyIntervals_cover)
    have gap: "gap_sorted xs" by (simp add: xs_def intersect_all_spec policyIntervals_gap)
    show ?thesis
    proof (cases "xs = []")
      case True
      then have "\<not> policy_admits (combinePortPolicies ps) q"
        by (simp add: combinePortPolicies_def Cons xs_def [symmetric] policy_admits_def)
      moreover have "\<not> (\<forall>p\<in>set (r # rs). policy_admits p q)" using cov True by auto
      ultimately show ?thesis using all Cons by metis
    next
      case False
      have "\<forall>q\<in>cover xs. valid_port q" using cov policy_admits_valid by auto
      then have "policy_admits (combinePortPolicies ps) q \<longleftrightarrow> q \<in> cover xs"
        using policy_of_intervals_admits [OF gap False] False
        by (simp add: combinePortPolicies_def Cons xs_def [symmetric])
      moreover have "q \<in> cover xs \<longleftrightarrow> (\<forall>p\<in>set (r # rs). policy_admits p q)" using cov by auto
      ultimately show ?thesis using all Cons policy_admits_valid by (metis list.set_intros(1))
    qed
  qed
qed

section \<open>Policies built by the program\<close>

definition policy_in_bounds :: "PortPolicy \<Rightarrow> bool" where
  "policy_in_bounds p \<longleftrightarrow> (\<forall>q\<in>set (policy_candidates p). valid_port q) \<and> (denyAll p \<longrightarrow> policy_candidates p = [])"

abbreviation policy_ok :: "PortPolicy \<Rightarrow> bool" where
  "policy_ok p \<equiv> policy_wf p \<and> policy_in_bounds p"

lemma policy_candidates_admitted:
  "policy_in_bounds p \<Longrightarrow> portPolicyHasRestriction p \<Longrightarrow> set (policy_candidates p) = {q. policy_admits p q}"
  using set_policy_candidates [of p] by (auto simp: policy_in_bounds_def policy_admits_def)

lemma parsePortAllowlist_props:
  "sorted (parsePortAllowlist v)" "distinct (parsePortAllowlist v)" "q \<in> set (parsePortAllowlist v) \<Longrightarrow> valid_port q"
  by (auto simp: parsePortAllowlist_def Let_def List.map_filter_def port_of_number_Some split: if_splits)

lemma optionalPort_valid: "optionalPort v = Some q \<Longrightarrow> valid_port q"
  by (auto simp: optionalPort_def port_of_number_Some split: if_splits)

lemma portPolicyFrom_ok: "policy_ok (portPolicyFrom s)"
proof -
  have "valid_port q" if "q \<in> set (policy_candidates (portPolicyFrom s))" for q
    using that unfolding set_policy_candidates
    by (auto simp: portPolicyFrom_def Let_def in_primary_range_def normalize_num_cover
        dest!: optionalPort_valid parsePortAllowlist_props(3) split: option.splits if_splits)
  then show ?thesis
    by (simp add: policy_wf_def policy_in_bounds_def)
      (simp add: portPolicyFrom_def Let_def normalizeIntervals_gap parsePortAllowlist_props)
qed

lemma combinePortPolicies_ok: "policy_ok (combinePortPolicies ps)"
proof (cases "filter portPolicyHasRestriction ps")
  case Nil
  then show ?thesis using portPolicyFrom_ok by (simp add: combinePortPolicies_def)
next
  case (Cons r rs)
  define xs where "xs = intersect_all (policyIntervals r) rs"
  have gap: "gap_sorted xs" by (simp add: xs_def intersect_all_spec policyIntervals_gap)
  show ?thesis
  proof (cases "xs = []")
    case True
    then show ?thesis
      by (simp add: combinePortPolicies_def Cons xs_def [symmetric] policy_wf_def policy_in_bounds_def
          policy_candidates_def)
  next
    case False
    have eq: "combinePortPolicies ps = policy_of_intervals xs"
      using False by (simp add: combinePortPolicies_def Cons xs_def [symmetric])
    have valid: "\<forall>q\<in>cover xs. valid_port q"
      using policyIntervals_valid by (auto simp: xs_def intersect_all_spec policyIntervals_gap)
    have nd: "\<not> denyAll (policy_of_intervals xs)" by (simp add: policy_of_intervals_def Let_def)
    have "\<forall>q\<in>set (policy_candidates (policy_of_intervals xs)). valid_port q"
      using valid policy_of_intervals_candidates [OF False] by simp
    then show ?thesis using gap nd by (simp add: eq policy_of_intervals_wf policy_in_bounds_def)
  qed
qed

section \<open>Picking a port\<close>

definition rnd_ok :: "(int \<Rightarrow> int) \<Rightarrow> bool" where
  "rnd_ok rnd \<longleftrightarrow> (\<forall>n>0. 0 \<le> rnd n \<and> rnd n < n)"

definition pick_domain :: "PortPolicy \<Rightarrow> int \<Rightarrow> int \<Rightarrow> int set" where
  "pick_domain p dstart dend =
     (if portPolicyHasRestriction p then {q. policy_admits p q}
      else {max 1 (min 65535 dstart)..max (max 1 (min 65535 dstart)) (min 65535 dend)})"

lemma set_add_candidates [simp]: "set (add_candidates used ports) = set ports - used"
  by (auto simp: add_candidates_def)

lemma pick_random_spec:
  assumes "rnd_ok rnd"
  shows "pick_random rnd cs = Some q \<Longrightarrow> q \<in> set cs" "pick_random rnd cs = None \<longleftrightarrow> cs = []"
  using assms by (auto simp: pick_random_def rnd_ok_def nat_less_iff split: if_splits)

lemma scan_from_Some:
  "0 < len \<Longrightarrow> scan_from used start off len k = Some q \<Longrightarrow> q \<notin> used \<and> start \<le> q \<and> q < start + len"
  by (induction k) (auto simp: Let_def split: if_splits)

lemma scan_from_None:
  "scan_from used start off len k = None \<longleftrightarrow>
   (\<forall>i. len - int k \<le> i \<and> i < len \<longrightarrow> start + (off + i) mod len \<in> used)"
proof (induction k)
  case (Suc k)
  have "(\<forall>i. len - int (Suc k) \<le> i \<and> i < len \<longrightarrow> P i) \<longleftrightarrow>
        P (len - int (Suc k)) \<and> (\<forall>i. len - int k \<le> i \<and> i < len \<longrightarrow> P i)" for P
  proof (intro iffI conjI allI impI; (elim conjE)?)
    fix i assume a: "P (len - int (Suc k))" "\<forall>i. len - int k \<le> i \<and> i < len \<longrightarrow> P i"
      and i: "len - int (Suc k) \<le> i" "i < len"
    show "P i" using a i by (cases "i = len - int (Suc k)") auto
  qed auto
  from this [of "\<lambda>i. start + (off + i) mod len \<in> used"] Suc show ?case
    by (simp add: Let_def)
qed auto

lemma rotation_covers:
  assumes "0 < (len::int)" "0 \<le> j" "j < len"
  shows "\<exists>i. 0 \<le> i \<and> i < len \<and> (off + i) mod len = j"
proof (intro exI conjI)
  show "(off + (j - off) mod len) mod len = j"
    using assms by (simp add: mod_add_right_eq)
qed (use assms in auto)

lemma scan_from_all:
  assumes "0 < len"
  shows "scan_from used start off len (nat len) = None \<longleftrightarrow> {start..start + len - 1} \<subseteq> used"
proof -
  have "(\<forall>i. 0 \<le> i \<and> i < len \<longrightarrow> start + (off + i) mod len \<in> used) \<longleftrightarrow> {start..start + len - 1} \<subseteq> used"
  proof (intro iffI subsetI allI impI)
    fix q assume a: "\<forall>i. 0 \<le> i \<and> i < len \<longrightarrow> start + (off + i) mod len \<in> used"
      and q: "q \<in> {start..start + len - 1}"
    then obtain i where "0 \<le> i" "i < len" "(off + i) mod len = q - start"
      using rotation_covers [OF assms, of "q - start" off] by auto
    then show "q \<in> used" using a by (metis add_diff_cancel_left' diff_add_cancel add.commute)
  next
    fix i assume s: "{start..start + len - 1} \<subseteq> used"
    have "0 \<le> (off + i) mod len" "(off + i) mod len < len" using assms by simp_all
    then show "start + (off + i) mod len \<in> used" using s by (intro subsetD [OF s]) simp
  qed
  then show ?thesis using assms by (simp add: scan_from_None)
qed

lemma pickAvailablePort_spec:
  assumes "rnd_ok rnd" "policy_ok p"
  shows "pickAvailablePort rnd p used ds de = Some q \<Longrightarrow> q \<in> pick_domain p ds de \<and> q \<notin> used"
    and "pickAvailablePort rnd p used ds de = None \<longleftrightarrow> pick_domain p ds de \<subseteq> used"
proof -
  define start fin where "start = max 1 (min 65535 ds)" and "fin = max start (min 65535 de)"
  have pos: "0 < fin - start + 1" by (simp add: fin_def)
  have empty: "add_candidates used ports = [] \<longleftrightarrow> set ports \<subseteq> used" for ports
    using set_add_candidates [of used ports] by (metis Diff_eq_empty_iff set_empty)
  have cand: "portPolicyHasRestriction p \<Longrightarrow> set (policy_candidates p) = {q. policy_admits p q}"
    using assms(2) policy_candidates_admitted by blast
  show "q \<in> pick_domain p ds de \<and> q \<notin> used" if "pickAvailablePort rnd p used ds de = Some q"
    using that pick_random_spec(1) [OF assms(1), of _ q] cand scan_from_Some [OF pos, of used start _ _ q]
    unfolding pickAvailablePort_def pick_domain_def Let_def start_def [symmetric] fin_def [symmetric]
    by (force split: if_splits)
  show "pickAvailablePort rnd p used ds de = None \<longleftrightarrow> pick_domain p ds de \<subseteq> used"
    using cand scan_from_all [OF pos]
    unfolding pickAvailablePort_def pick_domain_def Let_def start_def [symmetric] fin_def [symmetric]
    by (simp add: pick_random_spec(2) [OF assms(1)] empty)
qed

section \<open>The stored allowlist text\<close>

lemma js_join_chars: "c \<in> set (js_join sep ws) \<Longrightarrow> c \<in> set sep \<or> (\<exists>w\<in>set ws. c \<in> set w)"
  by (induction sep ws rule: js_join.induct) auto

lemma js_join_empty: "js_join sep ws = [] \<Longrightarrow> \<forall>w\<in>set ws. w \<noteq> [] \<Longrightarrow> ws = []"
  by (induction sep ws rule: js_join.induct) auto

lemma trim_no_ws: "list_all (\<lambda>c. \<not> is_ws c) s \<Longrightarrow> js_trim s = s"
  by (simp add: js_trim_def dropWhile_none list_all_iff)

lemma valid_port_show:
  assumes "valid_port q"
  shows "list_all is_digit (show_int q)" "show_int q \<noteq> []" "string_to_number (show_int q) = inum q"
  using assms by (auto simp: show_int_def show_nat_digits string_to_number_show)

lemma parse_shown_ports:
  assumes "sorted xs" "distinct xs" "\<forall>q\<in>set xs. valid_port q"
  shows "parsePortAllowlist (Some (js_join '','' (map show_int xs))) = xs"
proof (cases "xs = []")
  case True
  then show ?thesis by (simp add: parsePortAllowlist_def js_trim_def)
next
  case False
  let ?ws = "map show_int xs" and ?s = "js_join '','' (map show_int xs)"
  have dig: "list_all is_digit w" "w \<noteq> []" if "w \<in> set ?ws" for w
    using that assms(3) valid_port_show by auto
  have nows: "list_all (\<lambda>c. \<not> is_ws c) ?s"
    using js_join_chars [of _ "'',''" ?ws] dig(1) digit_not_ws by (fastforce simp: list_all_iff is_ws_def)
  have sep: "CHR '','' \<notin> set w" if "w \<in> set ?ws" for w
    using dig(1) [OF that] is_digit_signs(10) by (auto simp: list_all_iff)
  have "?s \<noteq> []" using False js_join_empty [of "'',''" ?ws] dig(2) by auto
  moreover have "js_split CHR '','' ?s = ?ws"
    using js_split_join [of ?ws "CHR '',''"] sep False by auto
  moreover have "List.map_filter (\<lambda>item. port_of_number (string_to_number (js_trim item))) ?ws = xs"
    using assms(3)
  proof (induction xs)
    case (Cons q qs)
    then have "port_of_number (string_to_number (js_trim (show_int q))) = Some q"
      using valid_port_show [of q] by (simp add: trim_digits)
    then show ?case using Cons by (simp add: List.map_filter_simps)
  qed (simp add: List.map_filter_simps)
  ultimately show ?thesis
    using assms nows by (simp add: parsePortAllowlist_def Let_def trim_no_ws js_distinct_id sorted_sort_id)
qed

section \<open>The contract of combination\<close>

text \<open>
  What the callers that narrow a policy step by step (rule creation, port suggestion) rely on:
  combination is intersection of the admitted ports and keeps policies searchable.
\<close>

locale port_admission =
  fixes admits :: "'p \<Rightarrow> int \<Rightarrow> bool"
    and combine :: "'p list \<Rightarrow> 'p"
    and ok :: "'p \<Rightarrow> bool"
  assumes admits_valid: "ok p \<Longrightarrow> admits p q \<Longrightarrow> valid_port q"
    and combine_ok: "ok (combine ps)"
    and admits_combine: "\<forall>p\<in>set ps. ok p \<Longrightarrow>
      admits (combine ps) q \<longleftrightarrow> valid_port q \<and> (\<forall>p\<in>set ps. admits p q)"
begin

lemma narrowing:
  "\<forall>p\<in>set ps. ok p \<Longrightarrow> p \<in> set ps \<Longrightarrow> admits (combine ps) q \<Longrightarrow> admits p q"
  by (simp add: admits_combine)

lemma incremental:
  assumes "\<forall>p\<in>set (ps @ qs). ok p"
  shows "admits (combine (combine ps # qs)) q \<longleftrightarrow> admits (combine (ps @ qs)) q"
  using assms by (auto simp: admits_combine combine_ok)

lemma reorder:
  assumes "\<forall>p\<in>set ps. ok p" "set ps = set qs"
  shows "admits (combine ps) q \<longleftrightarrow> admits (combine qs) q"
  using assms by (simp add: admits_combine)

end

interpretation pp: port_admission "\<lambda>p q. isPortAllowedByPolicy (inum q) p" combinePortPolicies policy_wf
proof
  show "policy_wf (combinePortPolicies ps)" for ps
    using combinePortPolicies_ok by blast
qed (simp_all add: isPortAllowedByPolicy_iff policy_admits_valid combine_admits combinePortPolicies_ok)

lemma isPortAllowedByPolicy_port: "isPortAllowedByPolicy x p \<Longrightarrow> \<exists>q. x = inum q \<and> valid_port q"
  by (auto simp: isPortAllowedByPolicy_def port_of_number_Some split: option.splits)

section \<open>Properties\<close>

text \<open>C23: a combined policy admits exactly the valid ports that every one of the combined policies
  admits, whatever mix of primary ranges, extra ranges and allowlists they carry (and none when one
  of them denies all ports).\<close>

theorem combine_is_intersection:
  assumes "list_all policy_wf ps"
  shows "isPortAllowedByPolicy x (combinePortPolicies ps) \<longleftrightarrow>
    port_of_number x \<noteq> None \<and> list_all (isPortAllowedByPolicy x) ps"
proof (cases "port_of_number x")
  case None
  then show ?thesis by (simp add: isPortAllowedByPolicy_def)
next
  case (Some q)
  then have "x = inum q" "valid_port q" by (simp_all add: port_of_number_Some)
  then show ?thesis using pp.admits_combine [of ps q] assms by (simp add: list_all_iff)
qed

abbreviation wit_source :: "int \<Rightarrow> int \<Rightarrow> string \<Rightarrow> PortPolicySource" where
  "wit_source s e a \<equiv> \<lparr>portRangeStart = JNum (inum s), portRangeEnd = JNum (inum e),
     portAllowlist = Some a, portRanges = []\<rparr>"

abbreviation wit_policies :: "PortPolicy list" where
  "wit_policies \<equiv> [portPolicyFrom (Some (wit_source 100 200 ''8080'')), portPolicyFrom (Some (wit_source 150 300 ''8080,9''))]"

lemma combine_is_intersection_witness:
  "list_all policy_wf wit_policies \<and>
   (isPortAllowedByPolicy (inum 8080) (combinePortPolicies wit_policies) \<longleftrightarrow>
     port_of_number (inum 8080) \<noteq> None \<and> list_all (isPortAllowedByPolicy (inum 8080)) wit_policies)"
proof -
  have wf: "list_all policy_wf wit_policies" using portPolicyFrom_ok by simp
  show ?thesis using combine_is_intersection [OF wf, of "inum 8080"] wf by (rule conjI [rotated])
qed

text \<open>Narrowing a policy step by step, as rule creation does with the plan ranges, admits the same
  ports as combining all the policies at once.\<close>

theorem combine_incremental:
  assumes "list_all policy_wf (ps @ qs)"
  shows "isPortAllowedByPolicy x (combinePortPolicies (combinePortPolicies ps # qs)) \<longleftrightarrow>
    isPortAllowedByPolicy x (combinePortPolicies (ps @ qs))"
  using pp.incremental [of ps qs] assms isPortAllowedByPolicy_port by (metis list_all_iff)

lemma combine_incremental_witness:
  "list_all policy_wf (wit_policies @ [portPolicyFrom None]) \<and>
   (isPortAllowedByPolicy (inum 8080) (combinePortPolicies (combinePortPolicies wit_policies # [portPolicyFrom None])) \<longleftrightarrow>
    isPortAllowedByPolicy (inum 8080) (combinePortPolicies (wit_policies @ [portPolicyFrom None])))"
proof -
  have wf: "list_all policy_wf (wit_policies @ [portPolicyFrom None])" using portPolicyFrom_ok by simp
  show ?thesis using combine_incremental [OF wf] wf by (rule conjI [rotated])
qed

text \<open>For every policy the program builds, the binary searches over the normalised ranges and
  allowlist answer as the linear scan over the same policy does.\<close>

theorem fast_path_agrees:
  "isPortAllowedByPolicy x (portPolicyFrom s) = isPortAllowedByPolicy x ((portPolicyFrom s)\<lparr>normalized := False\<rparr>)
   \<and> isPortAllowedByPolicy x (combinePortPolicies ps) =
     isPortAllowedByPolicy x ((combinePortPolicies ps)\<lparr>normalized := False\<rparr>)"
proof -
  have "isPortAllowedByPolicy x p = isPortAllowedByPolicy x (p\<lparr>normalized := False\<rparr>)" if "policy_wf p" for p
  proof -
    have "policy_wf (p\<lparr>normalized := False\<rparr>)" by (simp add: policy_wf_def)
    moreover have "policy_admits (p\<lparr>normalized := False\<rparr>) q = policy_admits p q" for q
      by (simp add: policy_admits_def portPolicyHasRestriction_def in_primary_range_def)
    ultimately show ?thesis
      using isPortAllowedByPolicy_iff that isPortAllowedByPolicy_port by metis
  qed
  then show ?thesis using portPolicyFrom_ok combinePortPolicies_ok by blast
qed

text \<open>Picking a port is sound and complete: the port returned is unused and admitted (for an
  unrestricted policy, inside the clamped default range), and no port is returned only when every
  such port is used.\<close>

theorem pickAvailablePort_sound_complete:
  assumes "rnd_ok rnd" "policy_ok p"
  shows "(\<forall>q. pickAvailablePort rnd p used ds de = Some q \<longrightarrow> q \<in> pick_domain p ds de \<and> q \<notin> used)
    \<and> (pickAvailablePort rnd p used ds de = None \<longleftrightarrow> pick_domain p ds de \<subseteq> used)"
  using pickAvailablePort_spec [OF assms] by blast

lemma pickAvailablePort_sound_complete_witness:
  "rnd_ok (\<lambda>n. 0) \<and> policy_ok (portPolicyFrom None) \<and>
   (pickAvailablePort (\<lambda>n. 0) (portPolicyFrom None) {} 1 65535 = None \<longleftrightarrow> pick_domain (portPolicyFrom None) 1 65535 \<subseteq> {})"
proof -
  have "rnd_ok (\<lambda>n. 0)" by (simp add: rnd_ok_def)
  then show ?thesis using pickAvailablePort_sound_complete [of "\<lambda>n. 0" "portPolicyFrom None" "{}" 1 65535] portPolicyFrom_ok
    by blast
qed

text \<open>C35: what \<open>normalizePortAllowlist\<close> stores for an allowlist parses back to the same ports, whatever
  the user typed.\<close>

theorem allowlist_roundtrip:
  "parsePortAllowlist (Some (normalizePortAllowlist v)) = parsePortAllowlist v"
  unfolding normalizePortAllowlist_def
  using parse_shown_ports [of "parsePortAllowlist v"] parsePortAllowlist_props by blast

end
