(* ===== verification/ForwardTypes.thy ===== *)
theory ForwardTypes
  imports Prelude
begin

text \<open>
  The forwarding vocabulary shared by client and server (shared/forwardTypes.ts): rule protocols and
  their normalisation, forwarding engines, and the table of enabled protocols.

  \<open>String(v)\<close> of a boolean or a number never spells a protocol, so those cases of an \<open>unknown\<close>
  argument take the fallback as the source does after its comparisons fail.
\<close>

datatype ForwardRuleProtocol = Tcp | Udp | Both

definition is_separator :: "char \<Rightarrow> bool" where
  "is_separator c \<longleftrightarrow> is_ws c \<or> c \<in> {CHR ''_'', CHR ''+'', CHR ''/'', CHR ''-''}"

definition protocol_of_text :: "string \<Rightarrow> ForwardRuleProtocol \<Rightarrow> ForwardRuleProtocol" where
  "protocol_of_text s fallback =
     (let raw = js_lower (js_trim s) in
      if raw = [] then fallback
      else if raw = ''tcp'' then Tcp else if raw = ''udp'' then Udp else if raw = ''both'' then Both
      else let compact = filter (\<lambda>c. \<not> is_separator c) raw in
           if compact \<in> {''tcpudp'', ''udptcp'', ''tcpandudp'', ''udpandtcp''} then Both else fallback)"

fun normalizeForwardRuleProtocol :: "jsval \<Rightarrow> ForwardRuleProtocol \<Rightarrow> ForwardRuleProtocol" where
  "normalizeForwardRuleProtocol (JStr s) fallback = protocol_of_text s fallback"
| "normalizeForwardRuleProtocol _ fallback = fallback"

datatype network = NetTcp | NetUdp

fun protocol_networks :: "ForwardRuleProtocol \<Rightarrow> network list" where
  "protocol_networks Udp = [NetUdp]"
| "protocol_networks Both = [NetTcp, NetUdp]"
| "protocol_networks Tcp = [NetTcp]"

definition forwardRuleProtocols :: "jsval \<Rightarrow> ForwardRuleProtocol \<Rightarrow> network list" where
  "forwardRuleProtocols p fallback = protocol_networks (normalizeForwardRuleProtocol p fallback)"

definition isForwardRuleProtocolTcpEnabled :: "jsval \<Rightarrow> ForwardRuleProtocol \<Rightarrow> bool" where
  "isForwardRuleProtocolTcpEnabled p fallback \<longleftrightarrow> normalizeForwardRuleProtocol p fallback \<noteq> Udp"

definition isForwardRuleProtocolUdpEnabled :: "jsval \<Rightarrow> ForwardRuleProtocol \<Rightarrow> bool" where
  "isForwardRuleProtocolUdpEnabled p fallback \<longleftrightarrow> normalizeForwardRuleProtocol p fallback \<noteq> Tcp"

fun protocol_name :: "ForwardRuleProtocol \<Rightarrow> string" where
  "protocol_name Tcp = ''tcp''"
| "protocol_name Udp = ''udp''"
| "protocol_name Both = ''both''"

fun FORWARD_RULE_PROTOCOL_LABELS :: "ForwardRuleProtocol \<Rightarrow> string" where
  "FORWARD_RULE_PROTOCOL_LABELS Tcp = ''TCP''"
| "FORWARD_RULE_PROTOCOL_LABELS Udp = ''UDP''"
| "FORWARD_RULE_PROTOCOL_LABELS Both = ''TCP + UDP''"

definition formatForwardRuleProtocol :: "string option \<Rightarrow> string" where
  "formatForwardRuleProtocol p = (case p of None \<Rightarrow> ''-''
     | Some s \<Rightarrow> if js_trim s = [] then ''-''
                 else FORWARD_RULE_PROTOCOL_LABELS (normalizeForwardRuleProtocol (JStr s) Tcp))"

section \<open>Enabled forwarding protocols\<close>

definition FORWARD_TYPES :: "string list" where
  "FORWARD_TYPES = [''iptables'', ''nftables'', ''realm'', ''socat'', ''gost'', ''nginx'']"

definition TUNNEL_PROTOCOLS :: "string list" where
  "TUNNEL_PROTOCOLS = [''forwardx'', ''tls'', ''wss'', ''tcp'', ''mtls'', ''mwss'', ''mtcp'', ''nginx_stream'']"

definition FORWARD_PROTOCOLS :: "string list" where
  "FORWARD_PROTOCOLS = js_distinct (FORWARD_TYPES @ TUNNEL_PROTOCOLS)"

definition isExternalProxyForwardType :: "jsval \<Rightarrow> bool" where
  "isExternalProxyForwardType v = (case v of JStr s \<Rightarrow> s \<in> set FORWARD_TYPES | _ \<Rightarrow> False)"

definition DEFAULT_FORWARD_PROTOCOL_SETTINGS :: "string \<Rightarrow> bool" where
  "DEFAULT_FORWARD_PROTOCOL_SETTINGS k \<longleftrightarrow> k \<noteq> ''nginx'' \<and> k \<noteq> ''nginx_stream''"

definition setting_value :: "(string \<Rightarrow> jsval) \<Rightarrow> string \<Rightarrow> bool" where
  "setting_value input k = (case input k of JBool b \<Rightarrow> b | JStr s \<Rightarrow> s = ''true''
     | _ \<Rightarrow> DEFAULT_FORWARD_PROTOCOL_SETTINGS k)"

definition normalizeForwardProtocolSettings :: "(string \<Rightarrow> jsval) option \<Rightarrow> (string \<times> bool) list" where
  "normalizeForwardProtocolSettings input =
     map (\<lambda>k. (k, case input of None \<Rightarrow> DEFAULT_FORWARD_PROTOCOL_SETTINGS k | Some f \<Rightarrow> setting_value f k))
       FORWARD_PROTOCOLS"

definition isForwardProtocolEnabled :: "(string \<Rightarrow> jsval) option \<Rightarrow> string \<Rightarrow> bool" where
  "isForwardProtocolEnabled settings k \<longleftrightarrow> map_of (normalizeForwardProtocolSettings settings) k \<noteq> Some False"

definition isNginxForwardProtocolEnabled :: "(string \<Rightarrow> jsval) option \<Rightarrow> bool" where
  "isNginxForwardProtocolEnabled settings \<longleftrightarrow>
     map_of (normalizeForwardProtocolSettings settings) ''nginx'' \<noteq> Some False
     \<or> map_of (normalizeForwardProtocolSettings settings) ''nginx_stream'' \<noteq> Some False"

section \<open>Facts\<close>

lemma normalize_protocol_name: "normalizeForwardRuleProtocol (JStr (protocol_name p)) fallback = p"
  by (cases p) (simp_all add: protocol_of_text_def js_trim_def js_lower_def is_ws_def lower_char_def Let_def)

lemma protocol_networks_ne [simp]: "protocol_networks p \<noteq> []"
  by (cases p) simp_all

text \<open>Normalising a rule protocol is a projection: its result is a fixed point, names exactly the
  networks that the TCP and UDP tests report, and never comes out empty.\<close>

theorem protocol_normalisation:
  "normalizeForwardRuleProtocol (JStr (protocol_name (normalizeForwardRuleProtocol v d))) e
     = normalizeForwardRuleProtocol v d
   \<and> (NetTcp \<in> set (forwardRuleProtocols v d) \<longleftrightarrow> isForwardRuleProtocolTcpEnabled v d)
   \<and> (NetUdp \<in> set (forwardRuleProtocols v d) \<longleftrightarrow> isForwardRuleProtocolUdpEnabled v d)
   \<and> forwardRuleProtocols v d \<noteq> []"
proof (intro conjI)
  show "normalizeForwardRuleProtocol (JStr (protocol_name (normalizeForwardRuleProtocol v d))) e
     = normalizeForwardRuleProtocol v d"
    by (rule normalize_protocol_name)
qed (cases "normalizeForwardRuleProtocol v d"; simp add: forwardRuleProtocols_def
    isForwardRuleProtocolTcpEnabled_def isForwardRuleProtocolUdpEnabled_def)+

end
