(* ===== verification/Claims.thy ===== *)
theory Claims
  imports Prelude
begin

text \<open>
  The contract of a book of exclusive claims: a component that hands out claims with a release
  handle and promises that two live claims never conflict. \<open>claim_run\<close> is every interleaving of
  acquisitions and releases; the second component of a run's state records the claims handed out
  so far, since a handle may be released late or twice.
\<close>

inductive claim_run ::
  "('s \<Rightarrow> 'a \<Rightarrow> 's \<times> 'c option) \<Rightarrow> ('s \<Rightarrow> 'c \<Rightarrow> 's) \<Rightarrow> 's \<Rightarrow> 's \<Rightarrow> 'c set \<Rightarrow> bool"
  for acquire drop s0 where
  start: "claim_run acquire drop s0 s0 {}"
| acquired: "claim_run acquire drop s0 s H \<Longrightarrow> acquire s a = (s', Some c) \<Longrightarrow> claim_run acquire drop s0 s' (insert c H)"
| refused: "claim_run acquire drop s0 s H \<Longrightarrow> acquire s a = (s', None) \<Longrightarrow> claim_run acquire drop s0 s' H"
| dropped: "claim_run acquire drop s0 s H \<Longrightarrow> c \<in> H \<Longrightarrow> claim_run acquire drop s0 (drop s c) H"

locale claim_book =
  fixes acquire :: "'s \<Rightarrow> 'a \<Rightarrow> 's \<times> 'c option"
    and drop :: "'s \<Rightarrow> 'c \<Rightarrow> 's"
    and init :: 's
    and live :: "'s \<Rightarrow> 'c set"
    and conflict :: "'c \<Rightarrow> 'c \<Rightarrow> bool"
    and inv :: "'s \<Rightarrow> 'c set \<Rightarrow> bool"
  assumes init_inv: "inv init {}"
    and init_live: "live init = {}"
    and conflict_sym: "conflict c d \<Longrightarrow> conflict d c"
    and acquire_Some: "inv s H \<Longrightarrow> acquire s a = (s', Some c) \<Longrightarrow>
      inv s' (insert c H) \<and> live s' = insert c (live s) \<and> (\<forall>d\<in>live s. \<not> conflict d c)"
    and acquire_None: "inv s H \<Longrightarrow> acquire s a = (s', None) \<Longrightarrow> inv s' H \<and> live s' = live s"
    and drop_live: "inv s H \<Longrightarrow> c \<in> H \<Longrightarrow> inv (drop s c) H \<and> live (drop s c) = live s - {c}"
begin

lemma run_inv: "claim_run acquire drop init s H \<Longrightarrow> inv s H"
  by (induction rule: claim_run.induct) (use init_inv acquire_Some acquire_None drop_live in blast)+

lemma run_exclusive:
  "claim_run acquire drop init s H \<Longrightarrow> c \<in> live s \<Longrightarrow> d \<in> live s \<Longrightarrow> c \<noteq> d \<Longrightarrow> \<not> conflict c d"
proof (induction arbitrary: c d rule: claim_run.induct)
  case start
  then show ?case using init_live by simp
next
  case (acquired s H a s' e)
  have "live s' = insert e (live s)" "\<forall>d\<in>live s. \<not> conflict d e"
    using acquire_Some [OF run_inv [OF acquired.hyps(1)] acquired.hyps(2)] by blast+
  moreover have "conflict c d \<longleftrightarrow> conflict d c" using conflict_sym by blast
  ultimately show ?case using acquired.IH acquired.prems by (cases "c = e"; cases "d = e") auto
next
  case (refused s H a s')
  have "live s' = live s"
    using acquire_None [OF run_inv [OF refused.hyps(1)] refused.hyps(2)] by simp
  then show ?case using refused.IH refused.prems by simp
next
  case (dropped s H e)
  have "live (drop s e) = live s - {e}"
    using drop_live [OF run_inv [OF dropped.hyps(1)] dropped.hyps(2)] by simp
  then show ?case using dropped.IH dropped.prems by simp
qed

lemma run_live_issued: "claim_run acquire drop init s H \<Longrightarrow> live s \<subseteq> H"
proof (induction rule: claim_run.induct)
  case start
  then show ?case using init_live by simp
next
  case (acquired s H a s' c)
  have "live s' = insert c (live s)"
    using acquire_Some [OF run_inv [OF acquired.hyps(1)] acquired.hyps(2)] by simp
  then show ?case using acquired.IH by auto
next
  case (refused s H a s')
  have "live s' = live s"
    using acquire_None [OF run_inv [OF refused.hyps(1)] refused.hyps(2)] by simp
  then show ?case using refused.IH by simp
next
  case (dropped s H e)
  have "live (drop s e) = live s - {e}"
    using drop_live [OF run_inv [OF dropped.hyps(1)] dropped.hyps(2)] by simp
  then show ?case using dropped.IH by auto
qed

lemma all_dropped:
  "claim_run acquire drop init s H \<Longrightarrow> set cs \<subseteq> H \<Longrightarrow> live (fold (\<lambda>c s. drop s c) cs s) = live s - set cs"
proof (induction cs arbitrary: s)
  case (Cons c cs)
  then have "claim_run acquire drop init (drop s c) H" "live (drop s c) = live s - {c}"
    using claim_run.dropped drop_live [OF run_inv] by auto
  then show ?case using Cons by auto
qed simp

end

end
