(* ===== verification/PortReservations.thy ===== *)
theory PortReservations
  imports ForwardTypes Claims
begin

text \<open>
  In-process host port reservations (server/portReservations.ts).

  The module-level \<open>Map<hostId, Map<port, entries>>\<close> is a nested association list. A token
  (a fresh \<open>Symbol\<close>) is a number drawn from \<open>next_token\<close>; the \<open>released\<close> flag that each
  \<open>release\<close> closure captures is membership of its token in \<open>released\<close>. The database lookups passed
  to the asynchronous operations (\<open>findPort\<close>, \<open>isUsed\<close>) are parameters: they get the attempt's number, and
  \<open>Inl ()\<close> is a rejected promise.
\<close>

record ReservationEntry =
  re_token :: nat
  re_protocol :: ForwardRuleProtocol

record HostPortReservation =
  hr_hostId :: int
  hr_port :: int
  hr_protocol :: ForwardRuleProtocol
  hr_token :: nat

type_synonym host_ports = "(int \<times> ReservationEntry list) list"

record res_state =
  reservations :: "(int \<times> host_ports) list"
  next_token :: nat
  released :: "nat set"

definition protocolsConflict :: "ForwardRuleProtocol \<Rightarrow> ForwardRuleProtocol \<Rightarrow> bool" where
  "protocolsConflict l r = list_ex (\<lambda>n. n \<in> set (protocol_networks r)) (protocol_networks l)"

definition normalizedHostId :: "jsval \<Rightarrow> int" where
  "normalizedHostId v = (case as_integer (to_number v) of Some n \<Rightarrow> if 0 < n then n else 0 | None \<Rightarrow> 0)"

definition normalizedPort :: "jsval \<Rightarrow> int" where
  "normalizedPort v = (case as_integer (to_number v) of Some n \<Rightarrow> if 1 \<le> n \<and> n \<le> 65535 then n else 0 | None \<Rightarrow> 0)"

definition entries_conflict :: "ReservationEntry list \<Rightarrow> ForwardRuleProtocol \<Rightarrow> bool" where
  "entries_conflict es p = list_ex (\<lambda>e. protocolsConflict (re_protocol e) p) es"

definition reservedHostPorts :: "res_state \<Rightarrow> jsval \<Rightarrow> jsval \<Rightarrow> int list" where
  "reservedHostPorts st hostIdValue protocolValue =
     (let hostId = normalizedHostId hostIdValue;
          protocol = normalizeForwardRuleProtocol protocolValue Both in
      case map_of (reservations st) hostId of None \<Rightarrow> []
      | Some m \<Rightarrow> map fst (filter (\<lambda>(port, es). entries_conflict es protocol) m))"

definition tryReserveHostPort ::
  "res_state \<Rightarrow> jsval \<Rightarrow> jsval \<Rightarrow> jsval \<Rightarrow> res_state \<times> HostPortReservation option" where
  "tryReserveHostPort st hostIdValue portValue protocolValue =
     (let hostId = normalizedHostId hostIdValue;
          port = normalizedPort portValue;
          protocol = normalizeForwardRuleProtocol protocolValue Both in
      if hostId = 0 \<or> port = 0 then (st, None)
      else
        let m = (case map_of (reservations st) hostId of None \<Rightarrow> [] | Some m \<Rightarrow> m);
            st1 = (if map_of (reservations st) hostId = None
                   then st\<lparr>reservations := alist_set hostId [] (reservations st)\<rparr> else st);
            es = (case map_of m port of None \<Rightarrow> [] | Some es \<Rightarrow> es) in
        if entries_conflict es protocol then (st1, None)
        else
          let token = next_token st1;
              es' = es @ [\<lparr>re_token = token, re_protocol = protocol\<rparr>] in
          (st1\<lparr>reservations := alist_set hostId (alist_set port es' m) (reservations st1),
               next_token := Suc token\<rparr>,
           Some \<lparr>hr_hostId = hostId, hr_port = port, hr_protocol = protocol, hr_token = token\<rparr>))"

definition release :: "res_state \<Rightarrow> HostPortReservation \<Rightarrow> res_state" where
  "release st r =
     (if hr_token r \<in> released st then st
      else
        let st1 = st\<lparr>released := insert (hr_token r) (released st)\<rparr> in
        case map_of (reservations st1) (hr_hostId r) of None \<Rightarrow> st1
        | Some m \<Rightarrow>
            (case map_of m (hr_port r) of None \<Rightarrow> st1
             | Some es \<Rightarrow>
                 let remaining = filter (\<lambda>e. re_token e \<noteq> hr_token r) es;
                     m' = (if 0 < length remaining then alist_set (hr_port r) remaining m
                           else alist_delete (hr_port r) m) in
                 st1\<lparr>reservations :=
                       (if length m' = 0 then alist_delete (hr_hostId r) (reservations st1)
                        else alist_set (hr_hostId r) m' (reservations st1))\<rparr>))"

section \<open>The asynchronous operations\<close>

definition reserveSpecificHostPort ::
  "res_state \<Rightarrow> jsval \<Rightarrow> jsval \<Rightarrow> jsval \<Rightarrow> (int \<Rightarrow> unit + bool) option
   \<Rightarrow> res_state \<times> (unit + HostPortReservation option)" where
  "reserveSpecificHostPort st hostId port protocol isUsed =
     (case tryReserveHostPort st hostId port protocol of
        (st1, None) \<Rightarrow> (st1, Inr None)
      | (st1, Some r) \<Rightarrow>
          (case isUsed of None \<Rightarrow> (st1, Inr (Some r))
           | Some f \<Rightarrow>
               (case f (hr_port r) of
                  Inl e \<Rightarrow> (release st1 r, Inl e)
                | Inr used \<Rightarrow> if used then (release st1 r, Inr None) else (st1, Inr (Some r)))))"

definition max_attempts :: "int option \<Rightarrow> nat" where
  "max_attempts v = nat (max 1 (min 256 (case v of None \<Rightarrow> 64 | Some n \<Rightarrow> if n = 0 then 64 else n)))"

fun reserve_attempts ::
  "nat \<Rightarrow> nat \<Rightarrow> res_state \<Rightarrow> jsval \<Rightarrow> jsval \<Rightarrow> (nat \<Rightarrow> int list \<Rightarrow> unit + int option)
   \<Rightarrow> (nat \<Rightarrow> int \<Rightarrow> unit + bool) option \<Rightarrow> res_state \<times> (unit + HostPortReservation option)" where
  "reserve_attempts 0 attempt st hostId protocol findPort isUsed = (st, Inr None)"
| "reserve_attempts (Suc k) attempt st hostId protocol findPort isUsed =
     (case findPort attempt (reservedHostPorts st hostId protocol) of
        Inl e \<Rightarrow> (st, Inl e)
      | Inr None \<Rightarrow> (st, Inr None)
      | Inr (Some port) \<Rightarrow>
          if port = 0 then (st, Inr None)
          else
          (case tryReserveHostPort st hostId (JNum (inum port)) protocol of
             (st1, None) \<Rightarrow> reserve_attempts k (Suc attempt) st1 hostId protocol findPort isUsed
           | (st1, Some r) \<Rightarrow>
               (case isUsed of None \<Rightarrow> (st1, Inr (Some r))
                | Some f \<Rightarrow>
                    (case f attempt port of
                       Inl e \<Rightarrow> (release st1 r, Inl e)
                     | Inr used \<Rightarrow>
                         if used then reserve_attempts k (Suc attempt) (release st1 r) hostId protocol findPort isUsed
                         else (st1, Inr (Some r))))))"

definition reserveAvailableHostPort ::
  "res_state \<Rightarrow> jsval \<Rightarrow> jsval \<Rightarrow> (nat \<Rightarrow> int list \<Rightarrow> unit + int option)
   \<Rightarrow> (nat \<Rightarrow> int \<Rightarrow> unit + bool) option \<Rightarrow> int option \<Rightarrow> res_state \<times> (unit + HostPortReservation option)" where
  "reserveAvailableHostPort st hostId protocol findPort isUsed maxAttempts =
     reserve_attempts (max_attempts maxAttempts) 0 st hostId protocol findPort isUsed"

definition releaseHostPortReservations :: "res_state \<Rightarrow> HostPortReservation list \<Rightarrow> res_state" where
  "releaseHostPortReservations st items = fold (\<lambda>r s. release s r) items st"

definition clearHostPortReservationsForTest :: "res_state \<Rightarrow> res_state" where
  "clearHostPortReservationsForTest st = st\<lparr>reservations := []\<rparr>"

section \<open>Live reservations\<close>

definition entries_at :: "res_state \<Rightarrow> int \<Rightarrow> int \<Rightarrow> ReservationEntry list" where
  "entries_at st h p = (case map_of (reservations st) h of None \<Rightarrow> []
     | Some m \<Rightarrow> (case map_of m p of None \<Rightarrow> [] | Some es \<Rightarrow> es))"

definition live_reservations :: "res_state \<Rightarrow> HostPortReservation set" where
  "live_reservations st = {r. \<lparr>re_token = hr_token r, re_protocol = hr_protocol r\<rparr> \<in> set (entries_at st (hr_hostId r) (hr_port r))}"

definition reservation_conflict :: "HostPortReservation \<Rightarrow> HostPortReservation \<Rightarrow> bool" where
  "reservation_conflict r s \<longleftrightarrow> hr_hostId r = hr_hostId s \<and> hr_port r = hr_port s
     \<and> protocolsConflict (hr_protocol r) (hr_protocol s)"

definition res_init :: res_state where
  "res_init = \<lparr>reservations = [], next_token = 0, released = {}\<rparr>"

definition res_inv :: "res_state \<Rightarrow> HostPortReservation set \<Rightarrow> bool" where
  "res_inv st H \<longleftrightarrow> live_reservations st \<subseteq> H
     \<and> (\<forall>r\<in>H. hr_token r < next_token st)
     \<and> (\<forall>r\<in>H. \<forall>s\<in>H. hr_token r = hr_token s \<longrightarrow> r = s)
     \<and> (\<forall>r\<in>live_reservations st. hr_token r \<notin> released st)
     \<and> (\<forall>t\<in>released st. t < next_token st)"

definition res_request :: "res_state \<Rightarrow> jsval \<times> jsval \<times> jsval \<Rightarrow> res_state \<times> HostPortReservation option" where
  "res_request st a = (case a of (h, p, pr) \<Rightarrow> tryReserveHostPort st h p pr)"

lemma protocolsConflict_sym: "protocolsConflict a b \<Longrightarrow> protocolsConflict b a"
  by (auto simp: protocolsConflict_def list_ex_iff)

lemma protocolsConflict_refl: "protocolsConflict a a"
  by (cases a) (simp_all add: protocolsConflict_def)

lemma entries_at_update:
  "entries_at (st\<lparr>reservations := alist_set h m (reservations st')\<rparr>) h' p =
   (if h' = h then (case map_of m p of None \<Rightarrow> [] | Some es \<Rightarrow> es) else entries_at st' h' p)"
  by (simp add: entries_at_def map_of_alist_set)

lemma entries_at_cong: "reservations st = reservations st' \<Longrightarrow> entries_at st = entries_at st'"
  by (simp add: entries_at_def fun_eq_iff)

lemma tryReserve_refused:
  "normalizedHostId hv = 0 \<or> normalizedPort pv = 0
   \<or> entries_conflict (entries_at st (normalizedHostId hv) (normalizedPort pv)) (normalizeForwardRuleProtocol prv Both)
   \<Longrightarrow> tryReserveHostPort st hv pv prv = (st, None)"
  by (auto simp: tryReserveHostPort_def Let_def entries_at_def entries_conflict_def split: option.splits)

lemma tryReserve_granted:
  assumes "normalizedHostId hv \<noteq> 0" "normalizedPort pv \<noteq> 0"
    "\<not> entries_conflict (entries_at st (normalizedHostId hv) (normalizedPort pv)) (normalizeForwardRuleProtocol prv Both)"
  shows "\<exists>m R. tryReserveHostPort st hv pv prv =
      (st\<lparr>reservations := alist_set (normalizedHostId hv) (alist_set (normalizedPort pv)
           (entries_at st (normalizedHostId hv) (normalizedPort pv)
             @ [\<lparr>re_token = next_token st, re_protocol = normalizeForwardRuleProtocol prv Both\<rparr>]) m) R,
         next_token := Suc (next_token st)\<rparr>,
       Some \<lparr>hr_hostId = normalizedHostId hv, hr_port = normalizedPort pv,
         hr_protocol = normalizeForwardRuleProtocol prv Both, hr_token = next_token st\<rparr>)
    \<and> map_of m = (case map_of (reservations st) (normalizedHostId hv) of None \<Rightarrow> Map.empty | Some m \<Rightarrow> map_of m)
    \<and> (\<forall>h. h \<noteq> normalizedHostId hv \<longrightarrow> map_of R h = map_of (reservations st) h)"
proof (cases "map_of (reservations st) (normalizedHostId hv)")
  case None
  then show ?thesis using assms
    by (intro exI [of _ "[]"] exI [of _ "alist_set (normalizedHostId hv) [] (reservations st)"])
      (simp add: tryReserveHostPort_def Let_def entries_at_def map_of_alist_set)
next
  case (Some m)
  then show ?thesis using assms
    by (intro exI [of _ m] exI [of _ "reservations st"])
      (simp add: tryReserveHostPort_def Let_def entries_at_def)
qed

lemma tryReserve_Some:
  assumes "tryReserveHostPort st hv pv prv = (st', Some r)"
  shows "r = \<lparr>hr_hostId = normalizedHostId hv, hr_port = normalizedPort pv,
         hr_protocol = normalizeForwardRuleProtocol prv Both, hr_token = next_token st\<rparr>"
    "hr_hostId r \<noteq> 0" "hr_port r \<noteq> 0"
    "\<not> entries_conflict (entries_at st (hr_hostId r) (hr_port r)) (hr_protocol r)"
    "next_token st' = Suc (next_token st)" "released st' = released st"
    "entries_at st' h p = (if h = hr_hostId r \<and> p = hr_port r
       then entries_at st h p @ [\<lparr>re_token = hr_token r, re_protocol = hr_protocol r\<rparr>] else entries_at st h p)"
proof -
  have ok: "normalizedHostId hv \<noteq> 0" "normalizedPort pv \<noteq> 0"
    "\<not> entries_conflict (entries_at st (normalizedHostId hv) (normalizedPort pv)) (normalizeForwardRuleProtocol prv Both)"
    using assms tryReserve_refused [of hv pv st prv] by auto
  obtain m R where
    st': "st' = st\<lparr>reservations := alist_set (normalizedHostId hv) (alist_set (normalizedPort pv)
           (entries_at st (normalizedHostId hv) (normalizedPort pv)
             @ [\<lparr>re_token = next_token st, re_protocol = normalizeForwardRuleProtocol prv Both\<rparr>]) m) R,
         next_token := Suc (next_token st)\<rparr>"
    and r: "r = \<lparr>hr_hostId = normalizedHostId hv, hr_port = normalizedPort pv,
         hr_protocol = normalizeForwardRuleProtocol prv Both, hr_token = next_token st\<rparr>"
    and m: "map_of m = (case map_of (reservations st) (normalizedHostId hv) of None \<Rightarrow> Map.empty | Some m \<Rightarrow> map_of m)"
    and R: "\<forall>h. h \<noteq> normalizedHostId hv \<longrightarrow> map_of R h = map_of (reservations st) h"
    using tryReserve_granted [OF ok] assms by auto
  show "r = \<lparr>hr_hostId = normalizedHostId hv, hr_port = normalizedPort pv,
         hr_protocol = normalizeForwardRuleProtocol prv Both, hr_token = next_token st\<rparr>" by (rule r)
  show "hr_hostId r \<noteq> 0" "hr_port r \<noteq> 0"
    "\<not> entries_conflict (entries_at st (hr_hostId r) (hr_port r)) (hr_protocol r)"
    "next_token st' = Suc (next_token st)" "released st' = released st"
    using ok by (simp_all add: r st')
  show "entries_at st' h p = (if h = hr_hostId r \<and> p = hr_port r
       then entries_at st h p @ [\<lparr>re_token = hr_token r, re_protocol = hr_protocol r\<rparr>] else entries_at st h p)"
    using m R by (auto simp: st' r entries_at_def map_of_alist_set split: option.splits)
qed

lemma tryReserve_None: "tryReserveHostPort st hv pv prv = (st', None) \<Longrightarrow> st' = st"
  using tryReserve_refused [of hv pv st prv] tryReserve_granted [of hv pv st prv] by auto

lemma live_after_reserve:
  assumes "tryReserveHostPort st hv pv prv = (st', Some r)"
  shows "live_reservations st' = insert r (live_reservations st)"
proof -
  have "x \<in> live_reservations st' \<longleftrightarrow> x = r \<or> x \<in> live_reservations st" for x
    by (cases x; cases r) (auto simp: live_reservations_def tryReserve_Some [OF assms])
  then show ?thesis by blast
qed

lemma entries_at_release:
  "entries_at (release st r) h p =
     (if h = hr_hostId r \<and> p = hr_port r \<and> hr_token r \<notin> released st
      then filter (\<lambda>e. re_token e \<noteq> hr_token r) (entries_at st h p) else entries_at st h p)"
proof (cases "hr_token r \<in> released st")
  case True
  then show ?thesis by (simp add: release_def)
next
  case False
  show ?thesis
  proof (cases "map_of (reservations st) (hr_hostId r)")
    case None
    then show ?thesis using False by (auto simp: release_def entries_at_def)
  next
    case (Some m)
    show ?thesis
    proof (cases "map_of m (hr_port r)")
      case None
      then show ?thesis using False Some by (auto simp: release_def entries_at_def)
    next
      case (Some es)
      define rem where "rem = filter (\<lambda>e. re_token e \<noteq> hr_token r) es"
      define m' where "m' = (if 0 < length rem then alist_set (hr_port r) rem m else alist_delete (hr_port r) m)"
      have m': "map_of m' = (map_of m)(hr_port r := (if rem = [] then None else Some rem))"
        by (auto simp: m'_def alist_simps)
      have rel: "release st r = st\<lparr>released := insert (hr_token r) (released st), reservations :=
          (if m' = [] then alist_delete (hr_hostId r) (reservations st)
           else alist_set (hr_hostId r) m' (reservations st))\<rparr>"
        using False \<open>map_of (reservations st) (hr_hostId r) = Some m\<close> Some
        by (simp add: release_def Let_def rem_def m'_def)
      have "map_of m' q = None" if "m' = []" for q using that by simp
      then have "entries_at (release st r) h p =
          (if h = hr_hostId r then (case map_of m' p of None \<Rightarrow> [] | Some es \<Rightarrow> es) else entries_at st h p)"
        by (auto simp: rel entries_at_def alist_simps split: option.splits)
      then show ?thesis
        using False \<open>map_of (reservations st) (hr_hostId r) = Some m\<close> Some
        by (auto simp: entries_at_def m' rem_def)
    qed
  qed
qed

lemma release_fields [simp]:
  "next_token (release st r) = next_token st" "released (release st r) = insert (hr_token r) (released st)"
  by (auto simp: release_def Let_def split: option.splits)

lemma live_after_release:
  assumes "res_inv st H" "r \<in> H"
  shows "live_reservations (release st r) = live_reservations st - {r}"
proof -
  have uniq: "x = r" if "x \<in> live_reservations st" "hr_token x = hr_token r" for x
    using assms that unfolding res_inv_def by blast
  have notrel: "hr_token x \<notin> released st" if "x \<in> live_reservations st" for x
    using assms(1) that unfolding res_inv_def by blast
  have "x \<in> live_reservations (release st r) \<longleftrightarrow> x \<in> live_reservations st \<and> x \<noteq> r" for x
  proof (cases "hr_token x = hr_token r")
    case True
    then show ?thesis using uniq notrel
      by (auto simp: live_reservations_def entries_at_release split: if_splits)
  next
    case False
    then show ?thesis by (auto simp: live_reservations_def entries_at_release split: if_splits)
  qed
  then show ?thesis by blast
qed

lemma fresh: "res_inv st H \<Longrightarrow> next_token st \<notin> released st"
  unfolding res_inv_def by blast

interpretation res: claim_book res_request release res_init live_reservations reservation_conflict res_inv
proof
  show "res_inv res_init {}"
    by (auto simp: res_inv_def res_init_def live_reservations_def entries_at_def)
  show "live_reservations res_init = {}"
    by (auto simp: res_init_def live_reservations_def entries_at_def)
  show "reservation_conflict d c" if "reservation_conflict c d" for c d
    using that protocolsConflict_sym by (auto simp: reservation_conflict_def)
  show "res_inv s' (insert c H) \<and> live_reservations s' = insert c (live_reservations s) \<and>
        (\<forall>d\<in>live_reservations s. \<not> reservation_conflict d c)"
    if inv: "res_inv s H" and req: "res_request s a = (s', Some c)" for s H a s' c
  proof -
    obtain h p pr where a: "a = (h, p, pr)" by (cases a)
    have tr: "tryReserveHostPort s h p pr = (s', Some c)" using req by (simp add: res_request_def a)
    note live = live_after_reserve [OF tr] and upd = tryReserve_Some [OF tr]
    have "res_inv s' (insert c H)"
    proof -
      have old: "hr_token x < next_token s" if "x \<in> H" for x
        using inv that unfolding res_inv_def by blast
      have tok: "hr_token c = next_token s" using upd(1) by simp
      have "hr_token x < Suc (next_token s)" if "x \<in> insert c H" for x
        using that old tok by (auto intro: less_SucI)
      moreover have "x = y" if "x \<in> insert c H" "y \<in> insert c H" "hr_token x = hr_token y" for x y
        using that old tok inv unfolding res_inv_def by (metis insertE less_irrefl)
      moreover have "hr_token x \<notin> released s" if "x \<in> insert c (live_reservations s)" for x
        using that tok fresh [OF inv] inv unfolding res_inv_def by auto
      ultimately show ?thesis using inv upd(5,6) unfolding res_inv_def live by auto
    qed
    moreover have "\<not> reservation_conflict d c" if "d \<in> live_reservations s" for d
      using that upd(4) by (fastforce simp: reservation_conflict_def live_reservations_def entries_conflict_def list_ex_iff)
    ultimately show ?thesis using live by blast
  qed
  show "res_inv s' H \<and> live_reservations s' = live_reservations s"
    if "res_inv s H" "res_request s a = (s', None)" for s H a s'
    using that by (auto simp: res_request_def split: prod.splits dest!: tryReserve_None)
  show "res_inv (release s c) H \<and> live_reservations (release s c) = live_reservations s - {c}"
    if inv: "res_inv s H" and c: "c \<in> H" for s H c
  proof -
    note live = live_after_release [OF inv c]
    have "res_inv (release s c) H"
      using inv c unfolding res_inv_def live by auto
    then show ?thesis using live by blast
  qed
qed

abbreviation res_run :: "res_state \<Rightarrow> HostPortReservation set \<Rightarrow> bool" where
  "res_run \<equiv> claim_run res_request release res_init"

section \<open>The reported ports\<close>

definition res_keys :: "res_state \<Rightarrow> bool" where
  "res_keys st \<longleftrightarrow> (\<forall>h m. map_of (reservations st) h = Some m \<longrightarrow> keys_distinct m)"

lemma res_keys_reserve:
  assumes "res_keys st" "tryReserveHostPort st hv pv prv = (st', x)"
  shows "res_keys st'"
  using assms unfolding res_keys_def tryReserveHostPort_def Let_def
  by (auto simp: map_of_alist_set keys_distinct_set keys_distinct_def [of "[_]"] split: if_splits option.splits)

lemma res_keys_release: "res_keys st \<Longrightarrow> res_keys (release st r)"
  unfolding res_keys_def release_def Let_def
  by (auto simp: alist_simps split: option.splits if_splits)

lemma res_run_keys: "res_run st H \<Longrightarrow> res_keys st"
proof (induction rule: claim_run.induct)
  case start
  then show ?case by (simp add: res_keys_def res_init_def)
next
  case (acquired s H a s' c)
  then show ?case using res_keys_reserve by (auto simp: res_request_def split: prod.splits)
next
  case (refused s H a s')
  then show ?case using res_keys_reserve by (auto simp: res_request_def split: prod.splits)
next
  case (dropped s H c)
  then show ?case using res_keys_release by simp
qed

lemma reservedHostPorts_iff:
  assumes "res_keys st"
  shows "p \<in> set (reservedHostPorts st hv prv) \<longleftrightarrow>
    entries_conflict (entries_at st (normalizedHostId hv) p) (normalizeForwardRuleProtocol prv Both)"
proof (cases "map_of (reservations st) (normalizedHostId hv)")
  case None
  then show ?thesis by (simp add: reservedHostPorts_def entries_at_def entries_conflict_def)
next
  case (Some m)
  then have "keys_distinct m" using assms unfolding res_keys_def by blast
  then have "(p, es) \<in> set m \<longleftrightarrow> map_of m p = Some es" for es by (rule keys_distinct_mem)
  then show ?thesis using Some
    by (force simp: reservedHostPorts_def entries_at_def entries_conflict_def image_iff split: option.splits)
qed

section \<open>The asynchronous operations leave nothing behind\<close>

definition granted :: "unit + HostPortReservation option \<Rightarrow> HostPortReservation set" where
  "granted out = (case out of Inr (Some r) \<Rightarrow> {r} | _ \<Rightarrow> {})"

lemma reserve_then_release:
  assumes "res_run st H" "tryReserveHostPort st hv pv prv = (st1, Some r)"
  shows "res_run st1 (insert r H)" "live_reservations st1 = insert r (live_reservations st)"
    "r \<notin> live_reservations st"
    "res_run (release st1 r) (insert r H)" "live_reservations (release st1 r) = live_reservations st"
proof -
  show run1: "res_run st1 (insert r H)"
    using claim_run.acquired [OF assms(1), of "(hv, pv, prv)" st1 r] assms(2) by (simp add: res_request_def)
  show live1: "live_reservations st1 = insert r (live_reservations st)"
    by (rule live_after_reserve [OF assms(2)])
  have "hr_token r = next_token st" using tryReserve_Some(1) [OF assms(2)] by simp
  then show notin: "r \<notin> live_reservations st"
    using res.run_inv [OF assms(1)] unfolding res_inv_def by (metis less_irrefl subsetD)
  show "res_run (release st1 r) (insert r H)"
    using claim_run.dropped [OF run1] by simp
  show "live_reservations (release st1 r) = live_reservations st"
    using res.drop_live [OF res.run_inv [OF run1], of r] live1 notin by auto
qed

lemma res_run_refused: "res_run st H \<Longrightarrow> tryReserveHostPort st hv pv prv = (st1, None) \<Longrightarrow> st1 = st"
  using tryReserve_None by blast

lemma reserveSpecific_live:
  assumes "res_run st H" "reserveSpecificHostPort st hv pv prv isUsed = (st', out)"
  shows "(\<exists>H'. res_run st' H') \<and> live_reservations st' = live_reservations st \<union> granted out"
proof (cases "tryReserveHostPort st hv pv prv")
  case (Pair st1 x)
  show ?thesis
  proof (cases x)
    case None
    then have "st1 = st" using res_run_refused [OF assms(1)] Pair by blast
    then show ?thesis using assms Pair None
      by (auto simp: reserveSpecificHostPort_def granted_def)
  next
    case (Some r)
    note step = reserve_then_release [OF assms(1) Pair [unfolded Some]]
    show ?thesis using assms(2) Pair Some step
      by (auto simp: reserveSpecificHostPort_def granted_def split: option.splits sum.splits if_splits)
  qed
qed

lemma reserve_attempts_live:
  assumes "res_run st H" "reserve_attempts k n st hv prv findPort isUsed = (st', out)"
  shows "(\<exists>H'. res_run st' H') \<and> live_reservations st' = live_reservations st \<union> granted out"
  using assms
proof (induction k arbitrary: n st H)
  case 0
  then show ?case by (auto simp: granted_def)
next
  case (Suc k)
  show ?case
  proof (cases "\<exists>port. findPort n (reservedHostPorts st hv prv) = Inr (Some port) \<and> port \<noteq> 0")
    case False
    then have "st' = st" "granted out = {}" using Suc.prems(2)
      by (auto simp: granted_def split: sum.splits option.splits if_splits)
    then show ?thesis using Suc.prems(1) by auto
  next
    case True
    then obtain port where port: "findPort n (reservedHostPorts st hv prv) = Inr (Some port)" "port \<noteq> 0" by blast
    obtain st1 x where tr: "tryReserveHostPort st hv (JNum (inum port)) prv = (st1, x)" by fastforce
    show ?thesis
    proof (cases x)
      case None
      then have "st1 = st" using tr tryReserve_None by blast
      then show ?thesis using Suc.IH [OF Suc.prems(1)] Suc.prems(2) port tr None by simp
    next
      case (Some r)
      note step = reserve_then_release [OF Suc.prems(1) tr [unfolded Some]]
      show ?thesis
      proof (cases "\<exists>f. isUsed = Some f \<and> f n port = Inr True")
        case True
        then show ?thesis
          using Suc.IH [OF step(4)] Suc.prems(2) port tr Some step(5) by auto
      next
        case False
        then show ?thesis using Suc.prems(2) port tr Some step
          by (auto simp: granted_def split: option.splits sum.splits if_splits)
      qed
    qed
  qed
qed

section \<open>Properties\<close>

text \<open>C5: whatever the order in which reservations are requested and released (late and repeated releases
  included), two live reservations of one port of one host never share a network.\<close>

theorem reservations_exclusive:
  assumes "res_run st H" "r \<in> live_reservations st" "s \<in> live_reservations st" "r \<noteq> s"
    "hr_hostId r = hr_hostId s" "hr_port r = hr_port s"
  shows "\<not> protocolsConflict (hr_protocol r) (hr_protocol s)"
  using res.run_exclusive [OF assms(1-4)] assms(5,6) by (simp add: reservation_conflict_def)

abbreviation wit_reservation :: "nat \<Rightarrow> ForwardRuleProtocol \<Rightarrow> HostPortReservation" where
  "wit_reservation t pr \<equiv> \<lparr>hr_hostId = 7, hr_port = 8080, hr_protocol = pr, hr_token = t\<rparr>"

abbreviation wit_res_state :: res_state where
  "wit_res_state \<equiv> \<lparr>reservations = [(7, [(8080, [\<lparr>re_token = 0, re_protocol = Tcp\<rparr>, \<lparr>re_token = 1, re_protocol = Udp\<rparr>])])],
     next_token = 2, released = {}\<rparr>"

lemma wit_res_run: "res_run wit_res_state {wit_reservation 1 Udp, wit_reservation 0 Tcp}"
proof -
  have a: "res_request res_init (JNum (inum 7), JNum (inum 8080), JStr (protocol_name Tcp)) =
    (\<lparr>reservations = [(7, [(8080, [\<lparr>re_token = 0, re_protocol = Tcp\<rparr>])])], next_token = 1, released = {}\<rparr>,
     Some (wit_reservation 0 Tcp))"
    by (simp add: res_request_def res_init_def tryReserveHostPort_def normalizedHostId_def normalizedPort_def
        entries_conflict_def normalize_protocol_name del: protocol_name.simps normalizeForwardRuleProtocol.simps)
  have b: "res_request \<lparr>reservations = [(7, [(8080, [\<lparr>re_token = 0, re_protocol = Tcp\<rparr>])])], next_token = 1, released = {}\<rparr>
      (JNum (inum 7), JNum (inum 8080), JStr (protocol_name Udp)) = (wit_res_state, Some (wit_reservation 1 Udp))"
    by (simp add: res_request_def tryReserveHostPort_def normalizedHostId_def normalizedPort_def Let_def
        entries_conflict_def protocolsConflict_def normalize_protocol_name
        del: protocol_name.simps normalizeForwardRuleProtocol.simps)
  have "res_run \<lparr>reservations = [(7, [(8080, [\<lparr>re_token = 0, re_protocol = Tcp\<rparr>])])], next_token = 1, released = {}\<rparr>
      {wit_reservation 0 Tcp}"
    by (rule claim_run.acquired [OF claim_run.start]) (rule a)
  then show ?thesis by (rule claim_run.acquired) (rule b)
qed

lemma reservations_exclusive_witness:
  "\<not> protocolsConflict (hr_protocol (wit_reservation 0 Tcp)) (hr_protocol (wit_reservation 1 Udp))"
  by (rule reservations_exclusive [OF wit_res_run]) (simp_all add: live_reservations_def entries_at_def)

text \<open>In every reachable state the ports reported as reserved for a host and protocol are exactly the
  valid ports on which a reservation of that protocol is refused.\<close>

theorem reserved_ports_exact:
  assumes "res_run st H" "normalizedHostId hv \<noteq> 0" "normalizedPort pv \<noteq> 0"
  shows "snd (tryReserveHostPort st hv pv prv) = None \<longleftrightarrow> normalizedPort pv \<in> set (reservedHostPorts st hv prv)"
  unfolding reservedHostPorts_iff [OF res_run_keys [OF assms(1)]]
  using tryReserve_refused [of hv pv st prv] tryReserve_granted [OF assms(2,3), of st prv] by force

lemma reserved_ports_exact_witness:
  "snd (tryReserveHostPort wit_res_state (JNum (inum 7)) (JNum (inum 8080)) JNull) = None \<longleftrightarrow>
   normalizedPort (JNum (inum 8080)) \<in> set (reservedHostPorts wit_res_state (JNum (inum 7)) JNull)"
  by (rule reserved_ports_exact [OF wit_res_run]) (simp_all add: normalizedHostId_def normalizedPort_def)

text \<open>The asynchronous operations leave no reservation behind: whatever the database checks answer
  (a rejected promise included), the live reservations grow by exactly the reservation handed to the
  caller, and a call that returns null or throws leaves them as they were.\<close>

theorem reserve_operations_no_leak:
  assumes "res_run st H"
  shows "(reserveSpecificHostPort st hv pv prv isUsed = (st1, out1) \<longrightarrow>
      live_reservations st1 = live_reservations st \<union> granted out1)
    \<and> (reserveAvailableHostPort st hv prv findPort isUsed' maxAttempts = (st2, out2) \<longrightarrow>
      live_reservations st2 = live_reservations st \<union> granted out2)"
  using reserveSpecific_live [OF assms] reserve_attempts_live [OF assms]
  by (auto simp: reserveAvailableHostPort_def)

lemma reserve_operations_no_leak_witness:
  "live_reservations (fst (reserveSpecificHostPort wit_res_state (JNum (inum 7)) (JNum (inum 9000)) JNull (Some (\<lambda>p. Inl ()))))
   = live_reservations wit_res_state \<union> granted (snd (reserveSpecificHostPort wit_res_state (JNum (inum 7)) (JNum (inum 9000)) JNull (Some (\<lambda>p. Inl ()))))"
  using reserve_operations_no_leak [OF wit_res_run] by (metis prod.collapse)

end
