(* ===== verification/GlobalPortLedger.thy ===== *)
theory GlobalPortLedger
  imports Prelude
begin

text \<open>
  The global port ledger (server/globalPortAllocationService.ts, with the keys and tags of
  server/globalPortBackfill.ts): one allocation row per listener port and one reference row per
  resource that uses it.

  The database is the record \<open>ledger\<close>. A varchar column with a closed vocabulary holds \<open>Text x\<close>,
  or \<open>OtherText\<close> for any other stored text. Epoch columns hold seconds: a \<open>Date\<close> parameter is
  stored as \<open>Math.floor(ms / 1000)\<close> (dbCompat.ts) and read back by \<open>dateFromDatabase\<close>. An operation
  inside \<open>withDatabaseTransaction\<close> is a function \<open>ledger \<Rightarrow> error + result \<times> ledger\<close>: a thrown error
  carries no state, which is the rollback (a nested transaction joins the outer one). A \<open>Date\<close>
  argument is its time value, \<open>None\<close> for an invalid date. The SHA-256 digest and the random token are
  parameters.
\<close>

section \<open>Rows, errors and inputs\<close>

datatype 'a db_text = Text 'a | OtherText

datatype GlobalPortAllocationStatus =
  RESERVED | ACTIVE | RELEASING | PENDING_SCAN | FREE | EXTERNAL_OCCUPIED | LEGACY_CONFLICT

datatype GlobalPortAllocationErrorCode =
  GLOBAL_PORT_INVALID | GLOBAL_PORT_CONFLICT | GLOBAL_PORT_LEGACY_CONFLICT
| GLOBAL_PORT_RESERVATION_EXPIRED | GLOBAL_PORT_RESERVATION_INVALID
| GLOBAL_PORT_SCAN_PENDING | GLOBAL_PORT_EXTERNAL_OCCUPIED

datatype GlobalPortPrimaryOwnerType =
  OwnXrayInbound | OwnForwardRule | OwnManagedService | OwnTunnel | OwnQuickConfig

datatype GlobalPortResourceType =
  ResXrayInbound | ResForwardRule | ResManagedService | ResTunnel | ResTunnelExitNode | ResTunnelHop
| ResForwardRuleTunnelExit | ResQuickConfig

datatype GlobalPortReferenceNetwork = RefTcp | RefUdp | RefBoth | RefNone

datatype GlobalPortReferenceRole = RoleTarget | RolePublicListener | RoleOwnership | RoleMimic

datatype reference_slot = SlotPrimary | SlotMapped

datatype GlobalPortOwner =
  XrayInboundOwner string | ManagedServiceOwner string | QuickConfigOwner string
| ForwardRuleOwner int | TunnelOwner int

fun owner_type :: "GlobalPortOwner \<Rightarrow> GlobalPortPrimaryOwnerType" where
  "owner_type (XrayInboundOwner s) = OwnXrayInbound"
| "owner_type (ManagedServiceOwner s) = OwnManagedService"
| "owner_type (QuickConfigOwner s) = OwnQuickConfig"
| "owner_type (ForwardRuleOwner n) = OwnForwardRule"
| "owner_type (TunnelOwner n) = OwnTunnel"

record AllocationRow =
  a_id :: int
  a_port :: int
  a_status :: "GlobalPortAllocationStatus db_text"
  a_ownerType :: "GlobalPortPrimaryOwnerType db_text option"
  a_ownerTag :: "string option"
  a_tokenHash :: "string option"
  a_reservedUntil :: "int option"
  a_scanNotBefore :: "int option"
  a_lastScanStartedAt :: "int option"
  a_lastScanFinishedAt :: "int option"
  a_lastErrorCode :: "string option"
  a_version :: int
  a_updatedAt :: int

record ReferenceRow =
  r_id :: int
  r_key :: string
  r_allocationId :: int
  r_resourceType :: GlobalPortResourceType
  r_resourceId :: int
  r_ownerGroupTag :: string
  r_hostId :: "int option"
  r_network :: GlobalPortReferenceNetwork
  r_role :: GlobalPortReferenceRole
  r_isOwning :: bool

record GlobalPortReferenceInput =
  in_resourceType :: GlobalPortResourceType
  in_resourceId :: int
  in_hostId :: "int option"
  in_network :: GlobalPortReferenceNetwork
  in_role :: GlobalPortReferenceRole
  in_isOwning :: bool
  in_slot :: "reference_slot option"

record GlobalPortAllocationDto =
  dto_allocationId :: int
  dto_port :: int
  dto_status :: GlobalPortAllocationStatus
  dto_version :: int
  dto_ownerType :: "GlobalPortPrimaryOwnerType option"
  dto_ownerTag :: "string option"
  dto_reservedUntil :: "int option"

record XrayInboundRow =
  xi_id :: int
  xi_hostId :: int
  xi_listenPort :: int
  xi_runtimeTag :: string
  xi_isEnabled :: bool
  xi_pendingDelete :: bool

record QuickConfigRow =
  qc_id :: int
  qc_configTag :: string
  qc_xrayInboundId :: int
  qc_removed :: bool

record ledger =
  allocations :: "AllocationRow list"
  references :: "ReferenceRow list"
  next_allocation :: int
  next_reference :: int
  xray_inbounds :: "XrayInboundRow list"
  quick_configs :: "QuickConfigRow list"

type_synonym 'a txn = "ledger \<Rightarrow> GlobalPortAllocationErrorCode + 'a \<times> ledger"

definition RESERVATION_TTL_MS :: int where
  "RESERVATION_TTL_MS = 60000"

definition RECLAIM_DELAY_MS :: int where
  "RECLAIM_DELAY_MS = 12 * 60 * 60 * 1000"

section \<open>Validation\<close>

definition positiveId :: "jsval \<Rightarrow> GlobalPortAllocationErrorCode + int" where
  "positiveId v = (case as_safe_integer (to_number v) of None \<Rightarrow> Inl GLOBAL_PORT_INVALID
     | Some n \<Rightarrow> if n \<le> 0 then Inl GLOBAL_PORT_INVALID else Inr n)"

abbreviation posId :: "int \<Rightarrow> GlobalPortAllocationErrorCode + int" where
  "posId n \<equiv> positiveId (JNum (inum n))"

definition storedListenerPort :: "jsval \<Rightarrow> GlobalPortAllocationErrorCode + int" where
  "storedListenerPort v = (case as_safe_integer (to_number v) of None \<Rightarrow> Inl GLOBAL_PORT_INVALID
     | Some n \<Rightarrow> if n < 1 \<or> n > 65535 then Inl GLOBAL_PORT_INVALID else Inr n)"

definition newListenerPort :: "jsval \<Rightarrow> GlobalPortAllocationErrorCode + int" where
  "newListenerPort v = ebind (storedListenerPort v)
     (\<lambda>p. if p < 1000 then Inl GLOBAL_PORT_INVALID else Inr p)"

definition version_number :: "jsval \<Rightarrow> GlobalPortAllocationErrorCode + int" where
  "version_number v = ebind (positiveId v)
     (\<lambda>n. if n \<ge> MAX_SAFE_INTEGER then Inl GLOBAL_PORT_CONFLICT else Inr n)"

definition validDate :: "int option \<Rightarrow> GlobalPortAllocationErrorCode + int" where
  "validDate v = (case v of None \<Rightarrow> Inl GLOBAL_PORT_INVALID | Some t \<Rightarrow> Inr t)"

definition epochSeconds :: "int \<Rightarrow> int" where
  "epochSeconds ms = ms div 1000"

definition dateFromDatabase :: "int option \<Rightarrow> int option" where
  "dateFromDatabase v = (case v of None \<Rightarrow> None | Some n \<Rightarrow> Some (if n < 10000000000 then n * 1000 else n))"

definition allocationStatus :: "GlobalPortAllocationStatus db_text \<Rightarrow> GlobalPortAllocationErrorCode + GlobalPortAllocationStatus" where
  "allocationStatus v = (case v of Text s \<Rightarrow> Inr s | OtherText \<Rightarrow> Inl GLOBAL_PORT_INVALID)"

definition ownerType ::
  "GlobalPortPrimaryOwnerType db_text option \<Rightarrow> GlobalPortAllocationErrorCode + GlobalPortPrimaryOwnerType option" where
  "ownerType v = (case v of None \<Rightarrow> Inr None | Some (Text t) \<Rightarrow> Inr (Some t) | Some OtherText \<Rightarrow> Inl GLOBAL_PORT_INVALID)"

definition is_alnum :: "char \<Rightarrow> bool" where
  "is_alnum c = (let n = (of_char c :: nat) in
     (48 \<le> n \<and> n \<le> 57) \<or> (65 \<le> n \<and> n \<le> 90) \<or> (97 \<le> n \<and> n \<le> 122))"

definition is_tag_char :: "char \<Rightarrow> bool" where
  "is_tag_char c \<longleftrightarrow> is_alnum c \<or> c \<in> {CHR ''.'', CHR ''_'', CHR '':'', CHR ''-''}"

definition owner_tag_text :: "string \<Rightarrow> GlobalPortAllocationErrorCode + string" where
  "owner_tag_text tag =
     (if tag = [] \<or> length tag > 128 \<or> tag \<noteq> js_trim tag
         \<or> \<not> (is_alnum (hd tag) \<and> list_all is_tag_char (tl tag))
      then Inl GLOBAL_PORT_INVALID else Inr tag)"

text \<open>\<open>ownerTag\<close> with \<open>buildGlobalPortOwnerGroupTag\<close>; any failure there is rethrown as \<open>GLOBAL_PORT_INVALID\<close>.\<close>

fun ownerTag :: "GlobalPortOwner \<Rightarrow> GlobalPortAllocationErrorCode + string" where
  "ownerTag (ForwardRuleOwner n) = ebind (posId n) (\<lambda>k. Inr (''forward-rule:'' @ show_int k))"
| "ownerTag (TunnelOwner n) = ebind (posId n) (\<lambda>k. Inr (''tunnel:'' @ show_int k))"
| "ownerTag (XrayInboundOwner s) = owner_tag_text s"
| "ownerTag (ManagedServiceOwner s) = owner_tag_text s"
| "ownerTag (QuickConfigOwner s) = owner_tag_text s"

fun resource_name :: "GlobalPortResourceType \<Rightarrow> string" where
  "resource_name ResXrayInbound = ''XRAY_INBOUND''"
| "resource_name ResForwardRule = ''FORWARD_RULE''"
| "resource_name ResManagedService = ''MANAGED_SERVICE''"
| "resource_name ResTunnel = ''TUNNEL''"
| "resource_name ResTunnelExitNode = ''TUNNEL_EXIT_NODE''"
| "resource_name ResTunnelHop = ''TUNNEL_HOP''"
| "resource_name ResForwardRuleTunnelExit = ''FORWARD_RULE_TUNNEL_EXIT''"
| "resource_name ResQuickConfig = ''QUICK_CONFIG''"

fun network_name :: "GlobalPortReferenceNetwork \<Rightarrow> string" where
  "network_name RefTcp = ''TCP''"
| "network_name RefUdp = ''UDP''"
| "network_name RefBoth = ''BOTH''"
| "network_name RefNone = ''NONE''"

fun role_name :: "GlobalPortReferenceRole \<Rightarrow> string" where
  "role_name RoleTarget = ''TARGET''"
| "role_name RolePublicListener = ''PUBLIC_LISTENER''"
| "role_name RoleOwnership = ''OWNERSHIP''"
| "role_name RoleMimic = ''MIMIC''"

fun slot_name :: "reference_slot \<Rightarrow> string" where
  "slot_name SlotPrimary = ''PRIMARY''"
| "slot_name SlotMapped = ''MAPPED''"

definition reference_key_parts :: "GlobalPortReferenceInput \<Rightarrow> string list" where
  "reference_key_parts i =
     [''global-port-ref'', ''v1'', resource_name (in_resourceType i), show_int (in_resourceId i),
      (case in_hostId i of None \<Rightarrow> ''host-none'' | Some h \<Rightarrow> ''host-'' @ show_int h),
      network_name (in_network i), role_name (in_role i)]
     @ (case in_slot i of None \<Rightarrow> [] | Some s \<Rightarrow> [slot_name s])"

definition referenceKey :: "GlobalPortReferenceInput \<Rightarrow> GlobalPortAllocationErrorCode + string" where
  "referenceKey i =
     ebind (posId (in_resourceId i)) (\<lambda>_.
     ebind (case in_hostId i of None \<Rightarrow> Inr 0 | Some h \<Rightarrow> posId h) (\<lambda>_.
     Inr (js_join '':'' (reference_key_parts i))))"

definition is_hex :: "char \<Rightarrow> bool" where
  "is_hex c = (let n = (of_char c :: nat) in (48 \<le> n \<and> n \<le> 57) \<or> (97 \<le> n \<and> n \<le> 102))"

definition is_hex64 :: "string \<Rightarrow> bool" where
  "is_hex64 s \<longleftrightarrow> length s = 64 \<and> list_all is_hex s"

definition is_token_text :: "string \<Rightarrow> bool" where
  "is_token_text s \<longleftrightarrow> length s = 43 \<and> list_all (\<lambda>c. is_alnum c \<or> c = CHR ''_'' \<or> c = CHR ''-'') s"

definition tokenHash :: "(string \<Rightarrow> string) \<Rightarrow> string \<Rightarrow> GlobalPortAllocationErrorCode + string" where
  "tokenHash sha256 token = (if \<not> is_token_text token then Inl GLOBAL_PORT_RESERVATION_INVALID
     else Inr (sha256 (''forwardx-global-port-reservation:v1'' @ [CHR 0x0A] @ token)))"

definition secureHashEqual :: "string option \<Rightarrow> string \<Rightarrow> bool" where
  "secureHashEqual actual expected = (case actual of None \<Rightarrow> False
     | Some a \<Rightarrow> if \<not> is_hex64 a then False else a = expected)"

fun conflictForStatus :: "GlobalPortAllocationStatus \<Rightarrow> GlobalPortAllocationErrorCode" where
  "conflictForStatus LEGACY_CONFLICT = GLOBAL_PORT_LEGACY_CONFLICT"
| "conflictForStatus PENDING_SCAN = GLOBAL_PORT_SCAN_PENDING"
| "conflictForStatus RELEASING = GLOBAL_PORT_SCAN_PENDING"
| "conflictForStatus EXTERNAL_OCCUPIED = GLOBAL_PORT_EXTERNAL_OCCUPIED"
| "conflictForStatus _ = GLOBAL_PORT_CONFLICT"

definition allocationDto :: "AllocationRow \<Rightarrow> GlobalPortAllocationErrorCode + GlobalPortAllocationDto" where
  "allocationDto row =
     ebind (allocationStatus (a_status row)) (\<lambda>status.
     ebind (ownerType (a_ownerType row)) (\<lambda>ot.
     let tag = a_ownerTag row; h = a_tokenHash row; reservedUntil = dateFromDatabase (a_reservedUntil row);
         expectsOwner = (status = RESERVED \<or> status = ACTIVE \<or> status = RELEASING);
         expectsReservation = (status = RESERVED) in
     if (ot = None) \<noteq> (tag = None) \<or> (case tag of None \<Rightarrow> 0 | Some t \<Rightarrow> length t) > 128
        \<or> expectsOwner \<noteq> (ot \<noteq> None)
        \<or> expectsReservation \<noteq> (h \<noteq> None \<and> reservedUntil \<noteq> None)
        \<or> (case h of None \<Rightarrow> False | Some t \<Rightarrow> \<not> is_hex64 t)
     then Inl GLOBAL_PORT_INVALID
     else ebind (posId (a_id row)) (\<lambda>i.
          ebind (storedListenerPort (JNum (inum (a_port row)))) (\<lambda>p.
          ebind (version_number (JNum (inum (a_version row)))) (\<lambda>v.
          Inr \<lparr>dto_allocationId = i, dto_port = p, dto_status = status, dto_version = v,
               dto_ownerType = ot, dto_ownerTag = tag, dto_reservedUntil = reservedUntil\<rparr>)))))"

section \<open>Reading\<close>

definition allocationByPort :: "ledger \<Rightarrow> int \<Rightarrow> AllocationRow option" where
  "allocationByPort db port = find (\<lambda>r. a_port r = port) (allocations db)"

definition allocationById :: "ledger \<Rightarrow> int \<Rightarrow> AllocationRow option" where
  "allocationById db i = find (\<lambda>r. a_id r = i) (allocations db)"

definition referenceByKey :: "ledger \<Rightarrow> string \<Rightarrow> ReferenceRow option" where
  "referenceByKey db k = find (\<lambda>r. r_key r = k) (references db)"

definition allocationForReference ::
  "GlobalPortReferenceInput \<Rightarrow> ledger \<Rightarrow> GlobalPortAllocationErrorCode + (GlobalPortAllocationDto \<times> string) option" where
  "allocationForReference ref db =
     ebind (referenceKey ref) (\<lambda>k.
     case referenceByKey db k of None \<Rightarrow> Inr None
     | Some r \<Rightarrow> (case allocationById db (r_allocationId r) of None \<Rightarrow> Inr None
         | Some a \<Rightarrow> ebind (allocationDto a) (\<lambda>d. Inr (Some (d, r_ownerGroupTag r)))))"

definition inspectGlobalPortAllocation ::
  "jsval \<Rightarrow> ledger \<Rightarrow> GlobalPortAllocationErrorCode + GlobalPortAllocationDto option" where
  "inspectGlobalPortAllocation portValue db =
     ebind (storedListenerPort portValue) (\<lambda>port.
     case allocationByPort db port of None \<Rightarrow> Inr None
     | Some row \<Rightarrow> ebind (allocationDto row) (\<lambda>d. Inr (Some d)))"

definition collectUnavailableGlobalPorts :: "ledger \<Rightarrow> GlobalPortAllocationErrorCode + int list" where
  "collectUnavailableGlobalPorts db =
     ebind (traverseE (\<lambda>row. ebind (allocationStatus (a_status row)) (\<lambda>st.
              if st \<noteq> FREE then ebind (storedListenerPort (JNum (inum (a_port row)))) (\<lambda>p. Inr [p]) else Inr []))
            (filter (\<lambda>row. a_status row \<noteq> Text FREE) (allocations db)))
       (\<lambda>pss. Inr (concat pss))"

definition inspectGlobalPortReferenceAllocation ::
  "GlobalPortReferenceInput \<Rightarrow> ledger \<Rightarrow> GlobalPortAllocationErrorCode + GlobalPortAllocationDto option" where
  "inspectGlobalPortReferenceAllocation ref db =
     ebind (allocationForReference ref db) (\<lambda>x. Inr (map_option fst x))"

definition active_inbound_alias :: "ledger \<Rightarrow> int \<Rightarrow> int \<Rightarrow> AllocationRow \<Rightarrow> bool" where
  "active_inbound_alias db port inboundId a \<longleftrightarrow>
     a_port a = port \<and> a_status a = Text ACTIVE \<and> a_ownerType a = Some (Text OwnXrayInbound) \<and> a_ownerTag a \<noteq> None
     \<and> list_ex (\<lambda>r. list_ex (\<lambda>i.
          r_allocationId r = a_id a \<and> xi_id i = r_resourceId r
          \<and> r_resourceType r = ResXrayInbound \<and> r_resourceId r = inboundId
          \<and> r_isOwning r \<and> r_role r = RolePublicListener
          \<and> a_ownerTag a = Some (r_ownerGroupTag r) \<and> r_hostId r = Some (xi_hostId i)
          \<and> xi_listenPort i = a_port a \<and> a_ownerTag a = Some (xi_runtimeTag i)
          \<and> xi_isEnabled i \<and> \<not> xi_pendingDelete i) (xray_inbounds db)) (references db)"

definition assertActiveXrayInboundPortTargetAlias ::
  "jsval \<Rightarrow> jsval \<Rightarrow> ledger \<Rightarrow> GlobalPortAllocationErrorCode + GlobalPortAllocationDto" where
  "assertActiveXrayInboundPortTargetAlias inboundIdValue portValue db =
     ebind (positiveId inboundIdValue) (\<lambda>inboundId.
     ebind (newListenerPort portValue) (\<lambda>port.
     case find (active_inbound_alias db port inboundId) (allocations db) of
       None \<Rightarrow> Inl GLOBAL_PORT_CONFLICT | Some a \<Rightarrow> allocationDto a))"

definition owned_by :: "AllocationRow \<Rightarrow> GlobalPortPrimaryOwnerType \<Rightarrow> string \<Rightarrow> bool" where
  "owned_by row t tag \<longleftrightarrow> a_ownerType row = Some (Text t) \<and> a_ownerTag row = Some tag"

definition assertGlobalPortAvailable ::
  "jsval \<Rightarrow> GlobalPortOwner option \<Rightarrow> ledger \<Rightarrow> GlobalPortAllocationErrorCode + unit" where
  "assertGlobalPortAvailable portValue allowedOwner db =
     ebind (newListenerPort portValue) (\<lambda>port.
     case allocationByPort db port of None \<Rightarrow> Inr ()
     | Some row \<Rightarrow>
         ebind (allocationStatus (a_status row)) (\<lambda>st.
         if st = FREE then Inr ()
         else case allowedOwner of None \<Rightarrow> Inl (conflictForStatus st)
              | Some ow \<Rightarrow>
                  if st = ACTIVE \<and> a_ownerType row = Some (Text (owner_type ow))
                  then ebind (ownerTag ow) (\<lambda>tag.
                       if a_ownerTag row = Some tag then Inr () else Inl (conflictForStatus st))
                  else Inl (conflictForStatus st)))"

section \<open>Writing\<close>

definition bump :: "int \<Rightarrow> AllocationRow \<Rightarrow> AllocationRow" where
  "bump now r = r\<lparr>a_version := a_version r + 1, a_updatedAt := epochSeconds now\<rparr>"

text \<open>An \<open>UPDATE ... WHERE id = ? AND version = ? AND status IN (...)\<close> that must affect exactly one row.\<close>

definition cas_hit :: "int \<Rightarrow> int \<Rightarrow> GlobalPortAllocationStatus list \<Rightarrow> AllocationRow \<Rightarrow> bool" where
  "cas_hit i v sts r \<longleftrightarrow> a_id r = i \<and> a_version r = v \<and> a_status r \<in> Text ` set sts"

definition cas_update ::
  "int \<Rightarrow> int \<Rightarrow> GlobalPortAllocationStatus list \<Rightarrow> (AllocationRow \<Rightarrow> AllocationRow) \<Rightarrow> ledger \<Rightarrow> ledger option" where
  "cas_update i v sts f db =
     (if length (filter (cas_hit i v sts) (allocations db)) = 1
      then Some (db\<lparr>allocations := map (\<lambda>r. if cas_hit i v sts r then f r else r) (allocations db)\<rparr>)
      else None)"

definition update_and_read ::
  "int \<Rightarrow> int \<Rightarrow> GlobalPortAllocationStatus \<Rightarrow> (AllocationRow \<Rightarrow> AllocationRow) \<Rightarrow> GlobalPortAllocationDto txn" where
  "update_and_read i v st f db =
     (case cas_update i v [st] f db of None \<Rightarrow> Inl GLOBAL_PORT_CONFLICT
      | Some db' \<Rightarrow>
          (case allocationById db' i of None \<Rightarrow> Inl GLOBAL_PORT_CONFLICT
           | Some row \<Rightarrow> ebind (allocationDto row) (\<lambda>d. Inr (d, db'))))"

definition same_reference ::
  "ReferenceRow \<Rightarrow> int \<Rightarrow> string \<Rightarrow> GlobalPortReferenceInput \<Rightarrow> GlobalPortAllocationErrorCode + bool" where
  "same_reference row allocationId ownerGroupTag ref =
     ebind (posId (r_allocationId row)) (\<lambda>a.
     if a \<noteq> allocationId \<or> r_ownerGroupTag row \<noteq> ownerGroupTag \<or> r_resourceType row \<noteq> in_resourceType ref
     then Inr False
     else ebind (posId (r_resourceId row)) (\<lambda>i.
          if i \<noteq> in_resourceId ref then Inr False
          else ebind (case r_hostId row of None \<Rightarrow> Inr None | Some h \<Rightarrow> ebind (posId h) (\<lambda>h. Inr (Some h))) (\<lambda>h.
               Inr (h = in_hostId ref \<and> r_network row = in_network ref \<and> r_role row = in_role ref
                    \<and> r_isOwning row = in_isOwning ref))))"

definition insertReference :: "int \<Rightarrow> string \<Rightarrow> GlobalPortReferenceInput \<Rightarrow> bool txn" where
  "insertReference allocationId ownerGroupTag ref db =
     ebind (referenceKey ref) (\<lambda>key.
     case referenceByKey db key of
       Some row \<Rightarrow> ebind (same_reference row allocationId ownerGroupTag ref) (\<lambda>same.
                   if same then Inr (False, db) else Inl GLOBAL_PORT_CONFLICT)
     | None \<Rightarrow>
         ebind (posId (in_resourceId ref)) (\<lambda>i.
         ebind (case in_hostId ref of None \<Rightarrow> Inr None | Some h \<Rightarrow> ebind (posId h) (\<lambda>h. Inr (Some h))) (\<lambda>h.
         Inr (True, db\<lparr>references := references db @
                [\<lparr>r_id = next_reference db, r_key = key, r_allocationId = allocationId,
                  r_resourceType = in_resourceType ref, r_resourceId = i, r_ownerGroupTag = ownerGroupTag,
                  r_hostId = h, r_network = in_network ref, r_role = in_role ref, r_isOwning = in_isOwning ref\<rparr>],
              next_reference := next_reference db + 1\<rparr>))))"

fun insertReferences :: "int \<Rightarrow> string \<Rightarrow> GlobalPortReferenceInput list \<Rightarrow> unit txn" where
  "insertReferences allocationId tag [] db = Inr ((), db)"
| "insertReferences allocationId tag (ref # refs) db =
     ebind (insertReference allocationId tag ref db) (\<lambda>(_, db'). insertReferences allocationId tag refs db')"

definition reserved_row :: "GlobalPortOwner \<Rightarrow> string \<Rightarrow> string \<Rightarrow> int \<Rightarrow> AllocationRow \<Rightarrow> AllocationRow" where
  "reserved_row ow tag h reservedUntil r =
     r\<lparr>a_status := Text RESERVED, a_ownerType := Some (Text (owner_type ow)), a_ownerTag := Some tag,
       a_tokenHash := Some h, a_reservedUntil := Some (epochSeconds reservedUntil),
       a_scanNotBefore := None, a_lastErrorCode := None\<rparr>"

definition fresh_row :: "ledger \<Rightarrow> int \<Rightarrow> int \<Rightarrow> AllocationRow" where
  "fresh_row db port now =
     \<lparr>a_id = next_allocation db, a_port = port, a_status = Text RESERVED, a_ownerType = None, a_ownerTag = None,
      a_tokenHash = None, a_reservedUntil = None, a_scanNotBefore = None, a_lastScanStartedAt = None,
      a_lastScanFinishedAt = None, a_lastErrorCode = None, a_version = 1, a_updatedAt = epochSeconds now\<rparr>"

definition ttl_ok :: "jsnum option \<Rightarrow> GlobalPortAllocationErrorCode + int" where
  "ttl_ok ttl = (case as_safe_integer (case ttl of None \<Rightarrow> inum RESERVATION_TTL_MS | Some x \<Rightarrow> x) of
     None \<Rightarrow> Inl GLOBAL_PORT_INVALID
   | Some n \<Rightarrow> if n < 1000 \<or> n > RESERVATION_TTL_MS then Inl GLOBAL_PORT_INVALID else Inr n)"

text \<open>The result is built from the row that was written. The code does so after its transaction has committed; the only row
  that cannot be turned into a result is one whose version was already the largest safe integer, and for that one alone
  the model does not keep the write.\<close>

definition reserveGlobalPortAllocation ::
  "(string \<Rightarrow> string) \<Rightarrow> string \<Rightarrow> jsval \<Rightarrow> GlobalPortOwner \<Rightarrow> int option \<Rightarrow> jsnum option
   \<Rightarrow> (GlobalPortAllocationDto \<times> string) txn" where
  "reserveGlobalPortAllocation sha256 token portValue ow nowValue ttlMs db =
     ebind (newListenerPort portValue) (\<lambda>port.
     ebind (validDate nowValue) (\<lambda>now.
     ebind (ttl_ok ttlMs) (\<lambda>ttl.
     ebind (ownerTag ow) (\<lambda>tag.
     ebind (tokenHash sha256 token) (\<lambda>h.
     let upd = reserved_row ow tag h (now + ttl) in
     case allocationByPort db port of
       None \<Rightarrow>
         (let row = upd (fresh_row db port now);
              db' = db\<lparr>allocations := allocations db @ [row], next_allocation := next_allocation db + 1\<rparr> in
          case allocationById db' (a_id row) of None \<Rightarrow> Inl GLOBAL_PORT_CONFLICT
          | Some r \<Rightarrow> ebind (allocationDto r) (\<lambda>d. Inr ((d, token), db')))
     | Some existing \<Rightarrow>
         ebind (allocationDto existing) (\<lambda>current.
         if dto_status current \<noteq> FREE then Inl (conflictForStatus (dto_status current))
         else ebind (update_and_read (dto_allocationId current) (dto_version current) FREE (\<lambda>r. bump now (upd r)) db)
                (\<lambda>(d, db'). Inr ((d, token), db'))))))))"

text \<open>The check \<open>!row || version(row.version) !== expectedVersion || allocationStatus(row.status) !== status ||
  owner mismatch\<close> that several operations begin with.\<close>

definition expect_row ::
  "ledger \<Rightarrow> int \<Rightarrow> int \<Rightarrow> GlobalPortAllocationStatus \<Rightarrow> (AllocationRow \<Rightarrow> bool) \<Rightarrow> GlobalPortAllocationErrorCode + AllocationRow" where
  "expect_row db i v st P =
     (case allocationById db i of None \<Rightarrow> Inl GLOBAL_PORT_CONFLICT
      | Some row \<Rightarrow>
          ebind (version_number (JNum (inum (a_version row)))) (\<lambda>rv.
          if rv \<noteq> v then Inl GLOBAL_PORT_CONFLICT
          else ebind (allocationStatus (a_status row)) (\<lambda>rs.
               if rs \<noteq> st \<or> \<not> P row then Inl GLOBAL_PORT_CONFLICT else Inr row)))"

definition activateReservedGlobalPortAllocation ::
  "(string \<Rightarrow> string) \<Rightarrow> jsval \<Rightarrow> jsval \<Rightarrow> GlobalPortOwner \<Rightarrow> string \<Rightarrow> GlobalPortReferenceInput list
   \<Rightarrow> int option \<Rightarrow> GlobalPortAllocationDto txn" where
  "activateReservedGlobalPortAllocation sha256 allocationIdValue expectedVersionValue ow token refs nowValue db =
     ebind (positiveId allocationIdValue) (\<lambda>allocationId.
     ebind (version_number expectedVersionValue) (\<lambda>expectedVersion.
     ebind (validDate nowValue) (\<lambda>now.
     ebind (ownerTag ow) (\<lambda>tag.
     if length refs < 1 \<or> length refs > 256 \<or> list_ex (\<lambda>r. \<not> in_isOwning r) refs then Inl GLOBAL_PORT_INVALID
     else
     ebind (expect_row db allocationId expectedVersion RESERVED (\<lambda>row. owned_by row (owner_type ow) tag)) (\<lambda>row.
     ebind (guardE (case dateFromDatabase (a_reservedUntil row) of None \<Rightarrow> False | Some t \<Rightarrow> \<not> t \<le> now)
              GLOBAL_PORT_RESERVATION_EXPIRED) (\<lambda>_.
     ebind (tokenHash sha256 token) (\<lambda>h.
     ebind (guardE (secureHashEqual (a_tokenHash row) h) GLOBAL_PORT_RESERVATION_INVALID) (\<lambda>_.
     ebind (insertReferences allocationId tag refs db) (\<lambda>(_, db1).
     update_and_read allocationId expectedVersion RESERVED
       (\<lambda>r. bump now (r\<lparr>a_status := Text ACTIVE, a_tokenHash := None, a_reservedUntil := None\<rparr>)) db1)))))))))"

definition addActiveGlobalPortOwningReference ::
  "jsval \<Rightarrow> jsval \<Rightarrow> GlobalPortOwner \<Rightarrow> GlobalPortReferenceInput \<Rightarrow> int option \<Rightarrow> GlobalPortAllocationDto txn" where
  "addActiveGlobalPortOwningReference allocationIdValue expectedVersionValue ow ref nowValue db =
     ebind (positiveId allocationIdValue) (\<lambda>allocationId.
     ebind (version_number expectedVersionValue) (\<lambda>expectedVersion.
     ebind (validDate nowValue) (\<lambda>now.
     ebind (ownerTag ow) (\<lambda>tag.
     ebind (guardE (in_isOwning ref) GLOBAL_PORT_INVALID) (\<lambda>_.
     ebind (expect_row db allocationId expectedVersion ACTIVE (\<lambda>row. owned_by row (owner_type ow) tag)) (\<lambda>row.
     ebind (insertReference allocationId tag ref db) (\<lambda>(inserted, db1).
     if \<not> inserted then ebind (allocationDto row) (\<lambda>d. Inr (d, db1))
     else update_and_read allocationId expectedVersion ACTIVE (bump now) db1)))))))"

definition acquireGlobalPortOwningReference ::
  "(string \<Rightarrow> string) \<Rightarrow> string \<Rightarrow> jsval \<Rightarrow> GlobalPortOwner \<Rightarrow> GlobalPortReferenceInput \<Rightarrow> int option \<Rightarrow> int option
   \<Rightarrow> ledger \<Rightarrow> (GlobalPortAllocationErrorCode + GlobalPortAllocationDto) \<times> ledger" where
  "acquireGlobalPortOwningReference sha256 token portValue ow ref now1 now2 db =
     (case ebind (newListenerPort portValue) (\<lambda>port.
           ebind (allocationForReference ref db) (\<lambda>existing. Inr (port, existing))) of
        Inl e \<Rightarrow> (Inl e, db)
      | Inr (port, Some (d, _)) \<Rightarrow>
          ((if dto_port d \<noteq> port \<or> dto_status d \<noteq> ACTIVE \<or> dto_ownerType d \<noteq> Some (owner_type ow)
            then Inl GLOBAL_PORT_CONFLICT
            else ebind (ownerTag ow) (\<lambda>tag. if dto_ownerTag d \<noteq> Some tag then Inl GLOBAL_PORT_CONFLICT else Inr d)), db)
      | Inr (port, None) \<Rightarrow>
          (case inspectGlobalPortAllocation (JNum (inum port)) db of
             Inl e \<Rightarrow> (Inl e, db)
           | Inr current \<Rightarrow>
               (case current of
                  Some d \<Rightarrow>
                    if dto_status d = ACTIVE
                    then (case addActiveGlobalPortOwningReference (JNum (inum (dto_allocationId d)))
                                 (JNum (inum (dto_version d))) ow ref now1 db of
                            Inl e \<Rightarrow> (Inl e, db) | Inr (r, db') \<Rightarrow> (Inr r, db'))
                    else (case reserveGlobalPortAllocation sha256 token (JNum (inum port)) ow now1 None db of
                            Inl e \<Rightarrow> (Inl e, db)
                          | Inr ((rd, tok), db1) \<Rightarrow>
                              (case activateReservedGlobalPortAllocation sha256 (JNum (inum (dto_allocationId rd)))
                                      (JNum (inum (dto_version rd))) ow tok [ref] now2 db1 of
                                 Inl e \<Rightarrow> (Inl e, db1) | Inr (r, db') \<Rightarrow> (Inr r, db')))
                | None \<Rightarrow>
                    (case reserveGlobalPortAllocation sha256 token (JNum (inum port)) ow now1 None db of
                       Inl e \<Rightarrow> (Inl e, db)
                     | Inr ((rd, tok), db1) \<Rightarrow>
                         (case activateReservedGlobalPortAllocation sha256 (JNum (inum (dto_allocationId rd)))
                                 (JNum (inum (dto_version rd))) ow tok [ref] now2 db1 of
                            Inl e \<Rightarrow> (Inl e, db1) | Inr (r, db') \<Rightarrow> (Inr r, db'))))))"

definition attachGlobalPortTargetAlias ::
  "jsval \<Rightarrow> jsval \<Rightarrow> GlobalPortOwner \<Rightarrow> GlobalPortOwner \<Rightarrow> GlobalPortReferenceInput \<Rightarrow> int option
   \<Rightarrow> GlobalPortAllocationDto txn" where
  "attachGlobalPortTargetAlias allocationIdValue expectedVersionValue sourceOwner aliasOwner ref nowValue db =
     ebind (positiveId allocationIdValue) (\<lambda>allocationId.
     ebind (version_number expectedVersionValue) (\<lambda>expectedVersion.
     ebind (ownerTag sourceOwner) (\<lambda>sourceTag.
     ebind (ownerTag aliasOwner) (\<lambda>aliasTag.
     ebind (validDate nowValue) (\<lambda>now.
     if owner_type sourceOwner \<noteq> OwnXrayInbound \<or> owner_type aliasOwner \<noteq> OwnQuickConfig
        \<or> in_resourceType ref \<noteq> ResQuickConfig \<or> in_isOwning ref
        \<or> (in_role ref \<noteq> RoleTarget \<and> in_role ref \<noteq> RolePublicListener)
     then Inl GLOBAL_PORT_INVALID
     else
     ebind (expect_row db allocationId expectedVersion ACTIVE (\<lambda>row. owned_by row (owner_type sourceOwner) sourceTag)) (\<lambda>row.
     ebind (traverseE (\<lambda>r. posId (r_resourceId r))
              (filter (\<lambda>r. r_allocationId r = allocationId \<and> r_ownerGroupTag r = sourceTag
                         \<and> r_resourceType r = ResXrayInbound \<and> r_isOwning r) (references db))) (\<lambda>ids.
     case js_distinct ids of
       [sourceInboundId] \<Rightarrow>
         ebind (posId (in_resourceId ref)) (\<lambda>qid.
         case find (\<lambda>q. qc_id q = qid) (quick_configs db) of
           None \<Rightarrow> Inl GLOBAL_PORT_CONFLICT
         | Some q \<Rightarrow>
             if qc_configTag q \<noteq> aliasTag then Inl GLOBAL_PORT_CONFLICT
             else ebind (posId (qc_xrayInboundId q)) (\<lambda>qi.
             if qi \<noteq> sourceInboundId \<or> qc_removed q then Inl GLOBAL_PORT_CONFLICT
             else
             ebind (insertReference allocationId aliasTag ref db) (\<lambda>(inserted, db1).
             if \<not> inserted then ebind (allocationDto row) (\<lambda>d. Inr (d, db1))
             else update_and_read allocationId expectedVersion ACTIVE (bump now) db1)))
     | _ \<Rightarrow> Inl GLOBAL_PORT_CONFLICT)))))))"

section \<open>Releasing\<close>

definition delete_reference :: "int \<Rightarrow> string \<Rightarrow> ledger \<Rightarrow> ledger" where
  "delete_reference i key db = db\<lparr>references := filter (\<lambda>r. \<not> (r_id r = i \<and> r_key r = key)) (references db)\<rparr>"

text \<open>In the release operations the status is tested before the version.\<close>

definition expect_status ::
  "ledger \<Rightarrow> int \<Rightarrow> int \<Rightarrow> GlobalPortAllocationStatus \<Rightarrow> GlobalPortAllocationErrorCode + AllocationRow" where
  "expect_status db i v st =
     (case allocationById db i of None \<Rightarrow> Inl GLOBAL_PORT_CONFLICT
      | Some row \<Rightarrow>
          ebind (allocationStatus (a_status row)) (\<lambda>rs.
          if rs \<noteq> st then Inl GLOBAL_PORT_CONFLICT
          else ebind (version_number (JNum (inum (a_version row)))) (\<lambda>rv.
               if rv \<noteq> v then Inl GLOBAL_PORT_CONFLICT else Inr row)))"

definition beginGlobalPortReferenceRelease ::
  "GlobalPortReferenceInput \<Rightarrow> jsval \<Rightarrow> int option \<Rightarrow> GlobalPortAllocationDto option txn" where
  "beginGlobalPortReferenceRelease refIn expectedVersionValue nowValue db =
     ebind (referenceKey refIn) (\<lambda>key.
     ebind (version_number expectedVersionValue) (\<lambda>expectedVersion.
     ebind (validDate nowValue) (\<lambda>now.
     case referenceByKey db key of None \<Rightarrow> Inr (None, db)
     | Some ref \<Rightarrow>
         ebind (posId (r_allocationId ref)) (\<lambda>allocationId.
         ebind (expect_status db allocationId expectedVersion ACTIVE) (\<lambda>allocation.
         ebind (posId (r_id ref)) (\<lambda>refId.
         let remaining = filter (\<lambda>r. r_allocationId r = allocationId \<and> r_id r \<noteq> refId) (references db);
             primaryTag = (case a_ownerTag allocation of None \<Rightarrow> [] | Some t \<Rightarrow> t) in
         if 0 < length remaining \<and> \<not> list_ex (\<lambda>r. r_ownerGroupTag r = primaryTag \<and> r_isOwning r) remaining
         then Inl GLOBAL_PORT_CONFLICT
         else ebind (update_and_read allocationId expectedVersion ACTIVE
                 (if 0 < length remaining then bump now else (\<lambda>r. bump now (r\<lparr>a_status := Text RELEASING\<rparr>)))
                 (if 0 < length remaining then delete_reference refId key db else db))
              (\<lambda>(d, db'). Inr (Some d, db'))))))))"

definition confirmGlobalPortReferenceReleased ::
  "GlobalPortReferenceInput \<Rightarrow> jsval \<Rightarrow> int option \<Rightarrow> GlobalPortAllocationDto txn" where
  "confirmGlobalPortReferenceReleased refIn expectedVersionValue nowValue db =
     ebind (referenceKey refIn) (\<lambda>key.
     ebind (version_number expectedVersionValue) (\<lambda>expectedVersion.
     ebind (validDate nowValue) (\<lambda>now.
     case referenceByKey db key of None \<Rightarrow> Inl GLOBAL_PORT_CONFLICT
     | Some ref \<Rightarrow>
         ebind (posId (r_allocationId ref)) (\<lambda>allocationId.
         ebind (expect_status db allocationId expectedVersion RELEASING) (\<lambda>allocation.
         ebind (posId (r_id ref)) (\<lambda>refId.
         if 0 < length (filter (\<lambda>r. r_allocationId r = allocationId \<and> r_id r \<noteq> refId) (references db))
         then Inl GLOBAL_PORT_CONFLICT
         else update_and_read allocationId expectedVersion RELEASING
                (\<lambda>r. bump now (r\<lparr>a_status := Text PENDING_SCAN, a_ownerType := None, a_ownerTag := None,
                                  a_scanNotBefore := Some (epochSeconds (now + RECLAIM_DELAY_MS))\<rparr>))
                (delete_reference refId key db)))))))"

definition releaseGlobalPortReferenceAfterRuntimeCleanup ::
  "GlobalPortReferenceInput \<Rightarrow> int option \<Rightarrow> GlobalPortAllocationDto option txn" where
  "releaseGlobalPortReferenceAfterRuntimeCleanup ref nowValue db =
     ebind (validDate nowValue) (\<lambda>now.
     ebind (allocationForReference ref db) (\<lambda>located.
     case located of None \<Rightarrow> Inr (None, db)
     | Some (d, _) \<Rightarrow>
         ebind (beginGlobalPortReferenceRelease ref (JNum (inum (dto_version d))) (Some now) db) (\<lambda>(releasing, db1).
         case releasing of None \<Rightarrow> Inr (None, db1)
         | Some rd \<Rightarrow>
             if dto_status rd \<noteq> RELEASING then Inr (Some rd, db1)
             else ebind (confirmGlobalPortReferenceReleased ref (JNum (inum (dto_version rd))) (Some now) db1)
                    (\<lambda>(d2, db2). Inr (Some d2, db2)))))"

section \<open>Promotion of staged listeners\<close>

definition located_active ::
  "GlobalPortOwner \<Rightarrow> string \<Rightarrow> (GlobalPortAllocationDto \<times> string) option \<Rightarrow> bool" where
  "located_active ow tag x = (case x of None \<Rightarrow> False
     | Some (d, groupTag) \<Rightarrow> dto_status d = ACTIVE \<and> dto_ownerType d = Some (owner_type ow)
         \<and> dto_ownerTag d = Some tag \<and> groupTag = tag)"

definition attach_and_unstage ::
  "GlobalPortOwner \<Rightarrow> int \<Rightarrow> int \<Rightarrow> GlobalPortReferenceInput \<Rightarrow> GlobalPortReferenceInput \<Rightarrow> int
   \<Rightarrow> GlobalPortAllocationDto txn" where
  "attach_and_unstage ow allocationId v next staged now db =
     ebind (addActiveGlobalPortOwningReference (JNum (inum allocationId)) (JNum (inum v)) ow next (Some now) db)
       (\<lambda>(withPublic, db1).
     ebind (beginGlobalPortReferenceRelease staged (JNum (inum (dto_version withPublic))) (Some now) db1)
       (\<lambda>(withoutStaging, db2).
     case withoutStaging of None \<Rightarrow> Inl GLOBAL_PORT_CONFLICT
     | Some d \<Rightarrow> if dto_status d \<noteq> ACTIVE then Inl GLOBAL_PORT_CONFLICT else Inr (d, db2)))"

definition promoteStagedGlobalPortOwningReference ::
  "GlobalPortOwner \<Rightarrow> GlobalPortReferenceInput \<Rightarrow> GlobalPortReferenceInput option \<Rightarrow> GlobalPortReferenceInput
   \<Rightarrow> int option \<Rightarrow> GlobalPortAllocationDto txn" where
  "promoteStagedGlobalPortOwningReference ow public nextPublic staged nowValue db =
     ebind (validDate nowValue) (\<lambda>now.
     ebind (ownerTag ow) (\<lambda>tag.
     let next = (case nextPublic of None \<Rightarrow> public | Some n \<Rightarrow> n) in
     if \<not> in_isOwning public \<or> (in_role public \<noteq> RolePublicListener \<and> in_role public \<noteq> RoleMimic)
        \<or> \<not> in_isOwning next \<or> in_role next \<noteq> in_role public
        \<or> \<not> in_isOwning staged \<or> in_role staged \<noteq> RoleOwnership
        \<or> in_resourceType public \<noteq> in_resourceType staged \<or> in_resourceId public \<noteq> in_resourceId staged
        \<or> in_resourceType next \<noteq> in_resourceType staged \<or> in_resourceId next \<noteq> in_resourceId staged
        \<or> in_hostId next \<noteq> in_hostId staged \<or> in_network next \<noteq> in_network staged
     then Inl GLOBAL_PORT_INVALID
     else
     ebind (allocationForReference public db) (\<lambda>source.
     ebind (allocationForReference staged db) (\<lambda>target.
     if \<not> located_active ow tag source \<or> \<not> located_active ow tag target then Inl GLOBAL_PORT_CONFLICT
     else
     let sd = fst (the source); td = fst (the target) in
     ebind (beginGlobalPortReferenceRelease public (JNum (inum (dto_version sd))) (Some now) db) (\<lambda>(releasing, db1).
     case releasing of None \<Rightarrow> Inl GLOBAL_PORT_CONFLICT
     | Some rd \<Rightarrow>
         if dto_status rd \<noteq> RELEASING \<and> dto_status rd \<noteq> ACTIVE then Inl GLOBAL_PORT_CONFLICT
         else
         ebind (if dto_status rd = RELEASING
                then ebind (confirmGlobalPortReferenceReleased public (JNum (inum (dto_version rd))) (Some now) db1)
                       (\<lambda>(_, db2). Inr ((), db2))
                else Inr ((), db1)) (\<lambda>(_, db2).
         attach_and_unstage ow (dto_allocationId td)
           (if dto_allocationId sd = dto_allocationId td then dto_version rd else dto_version td)
           next staged now db2))))))"

definition ends_with :: "string \<Rightarrow> string \<Rightarrow> bool" where
  "ends_with suffix s \<longleftrightarrow> length suffix \<le> length s \<and> drop (length s - length suffix) s = suffix"

definition key_slot :: "string \<Rightarrow> reference_slot option" where
  "key_slot k = (if ends_with '':PRIMARY'' k then Some SlotPrimary
                 else if ends_with '':MAPPED'' k then Some SlotMapped else None)"

definition promoteOrphanedStagedGlobalPortOwningReference ::
  "GlobalPortOwner \<Rightarrow> GlobalPortReferenceInput \<Rightarrow> GlobalPortReferenceInput \<Rightarrow> int option \<Rightarrow> GlobalPortAllocationDto txn" where
  "promoteOrphanedStagedGlobalPortOwningReference ow next staged nowValue db =
     ebind (validDate nowValue) (\<lambda>now.
     ebind (ownerTag ow) (\<lambda>tag.
     if \<not> in_isOwning next \<or> (in_role next \<noteq> RolePublicListener \<and> in_role next \<noteq> RoleMimic)
        \<or> \<not> in_isOwning staged \<or> in_role staged \<noteq> RoleOwnership
        \<or> in_resourceType next \<noteq> in_resourceType staged \<or> in_resourceId next \<noteq> in_resourceId staged
        \<or> in_hostId next \<noteq> in_hostId staged \<or> in_network next \<noteq> in_network staged
     then Inl GLOBAL_PORT_INVALID
     else
     ebind (allocationForReference staged db) (\<lambda>target.
     if \<not> located_active ow tag target then Inl GLOBAL_PORT_CONFLICT
     else if list_ex (\<lambda>r. r_resourceType r = in_resourceType next \<and> r_resourceId r = in_resourceId next
                       \<and> r_role r = in_role next \<and> key_slot (r_key r) = in_slot next) (references db)
     then Inl GLOBAL_PORT_CONFLICT
     else attach_and_unstage ow (dto_allocationId (fst (the target))) (dto_version (fst (the target))) next staged now db)))"

section \<open>Recovering abandoned reservations\<close>

definition expired_reservation :: "int \<Rightarrow> ledger \<Rightarrow> AllocationRow \<Rightarrow> bool" where
  "expired_reservation now db a \<longleftrightarrow> a_status a = Text RESERVED
     \<and> (case a_reservedUntil a of None \<Rightarrow> False | Some t \<Rightarrow> t \<le> epochSeconds now)
     \<and> a_version a < MAX_SAFE_INTEGER
     \<and> \<not> list_ex (\<lambda>r. r_allocationId r = a_id a) (references db)"

definition recoverExpiredGlobalPortReservations :: "int option \<Rightarrow> nat txn" where
  "recoverExpiredGlobalPortReservations nowValue db =
     ebind (validDate nowValue) (\<lambda>now.
     Inr (length (filter (expired_reservation now db) (allocations db)),
          db\<lparr>allocations := map (\<lambda>a. if expired_reservation now db a
               then bump now (a\<lparr>a_status := Text PENDING_SCAN, a_ownerType := None, a_ownerTag := None,
                        a_tokenHash := None, a_reservedUntil := None,
                        a_scanNotBefore := Some (epochSeconds (now + RECLAIM_DELAY_MS))\<rparr>)
               else a) (allocations db)\<rparr>))"

end
