(* ===== verification/LedgerRefinement.thy ===== *)
theory LedgerRefinement
  imports GlobalPortLedger
begin

text \<open>
  The abstract specification of the port ledger and its refinement by the operations of
  globalPortAllocationService.ts. One allocation is seen as its row with the references that point
  to it (\<open>view\<close>); \<open>alloc_step\<close> is the state machine one allocation may follow. Every committed
  transaction keeps the table constraints and moves each allocation along \<open>alloc_step\<close>.
\<close>

named_theorems ledger_simps

section \<open>The state machine of one allocation\<close>

type_synonym allocation_view = "(AllocationRow \<times> ReferenceRow list) option"

definition refs_of :: "ledger \<Rightarrow> int \<Rightarrow> ReferenceRow list" where
  "refs_of db i = filter (\<lambda>r. r_allocationId r = i) (references db)"

definition view :: "ledger \<Rightarrow> int \<Rightarrow> allocation_view" where
  "view db i = map_option (\<lambda>a. (a, refs_of db i)) (allocationById db i)"

definition owns_primary :: "AllocationRow \<Rightarrow> ReferenceRow \<Rightarrow> bool" where
  "owns_primary a r \<longleftrightarrow> r_isOwning r \<and> a_ownerTag a = Some (r_ownerGroupTag r)"

inductive alloc_step :: "allocation_view \<Rightarrow> allocation_view \<Rightarrow> bool" where
  reserve_new: "a_status a = Text RESERVED \<Longrightarrow> a_ownerTag a = Some t \<Longrightarrow> a_version a = 1
    \<Longrightarrow> alloc_step None (Some (a, []))"
| reserve_free: "a_status a = Text FREE \<Longrightarrow> a' = bump now (reserved_row ow t h u a)
    \<Longrightarrow> alloc_step (Some (a, rs)) (Some (a', rs))"
| activate: "a_status a = Text RESERVED \<Longrightarrow> a_ownerTag a = Some t
    \<Longrightarrow> (case dateFromDatabase (a_reservedUntil a) of None \<Rightarrow> False | Some d \<Rightarrow> now < d)
    \<Longrightarrow> list_all (owns_primary a) new \<Longrightarrow> list_ex (owns_primary a) (rs @ new)
    \<Longrightarrow> a' = bump now (a\<lparr>a_status := Text ACTIVE, a_tokenHash := None, a_reservedUntil := None\<rparr>)
    \<Longrightarrow> alloc_step (Some (a, rs)) (Some (a', rs @ new))"
| attach: "a_status a = Text ACTIVE \<Longrightarrow> r_isOwning r \<longrightarrow> owns_primary a r
    \<Longrightarrow> alloc_step (Some (a, rs)) (Some (bump now a, rs @ [r]))"
| detach: "a_status a = Text ACTIVE \<Longrightarrow> rs' = filter (\<lambda>r. r_id r \<noteq> k) rs
    \<Longrightarrow> list_ex (\<lambda>r. r_isOwning r \<and> r_ownerGroupTag r = (case a_ownerTag a of None \<Rightarrow> [] | Some t \<Rightarrow> t)) rs'
    \<Longrightarrow> alloc_step (Some (a, rs)) (Some (bump now a, rs'))"
| begin_release: "a_status a = Text ACTIVE
    \<Longrightarrow> a' = bump now (a\<lparr>a_status := Text RELEASING\<rparr>)
    \<Longrightarrow> alloc_step (Some (a, [r])) (Some (a', [r]))"
| confirm_release: "a_status a = Text RELEASING
    \<Longrightarrow> a' = bump now (a\<lparr>a_status := Text PENDING_SCAN, a_ownerType := None, a_ownerTag := None,
                a_scanNotBefore := Some (epochSeconds (now + RECLAIM_DELAY_MS))\<rparr>)
    \<Longrightarrow> alloc_step (Some (a, [r])) (Some (a', []))"
| recover: "a_status a = Text RESERVED \<Longrightarrow> a_reservedUntil a = Some u \<Longrightarrow> u \<le> epochSeconds now
    \<Longrightarrow> a' = bump now (a\<lparr>a_status := Text PENDING_SCAN, a_ownerType := None, a_ownerTag := None,
                a_tokenHash := None, a_reservedUntil := None,
                a_scanNotBefore := Some (epochSeconds (now + RECLAIM_DELAY_MS))\<rparr>)
    \<Longrightarrow> alloc_step (Some (a, [])) (Some (a', []))"

definition view_inv :: "allocation_view \<Rightarrow> bool" where
  "view_inv x = (case x of None \<Rightarrow> True
     | Some (a, rs) \<Rightarrow>
         (case a_status a of
            Text RESERVED \<Rightarrow> rs = [] \<and> a_ownerTag a \<noteq> None
          | Text ACTIVE \<Rightarrow> list_ex (owns_primary a) rs \<and> list_all (\<lambda>r. r_isOwning r \<longrightarrow> owns_primary a r) rs
          | Text RELEASING \<Rightarrow> a_ownerTag a \<noteq> None \<and> length rs = 1
          | Text PENDING_SCAN \<Rightarrow> rs = [] \<and> a_ownerTag a = None
          | Text FREE \<Rightarrow> rs = [] \<and> a_ownerTag a = None
          | Text EXTERNAL_OCCUPIED \<Rightarrow> rs = [] \<and> a_ownerTag a = None
          | _ \<Rightarrow> True))"

lemma bump_simps [simp]:
  "a_id (bump now a) = a_id a" "a_port (bump now a) = a_port a" "a_status (bump now a) = a_status a"
  "a_ownerType (bump now a) = a_ownerType a" "a_ownerTag (bump now a) = a_ownerTag a"
  "a_tokenHash (bump now a) = a_tokenHash a" "a_reservedUntil (bump now a) = a_reservedUntil a"
  "a_scanNotBefore (bump now a) = a_scanNotBefore a" "a_version (bump now a) = a_version a + 1"
  by (simp_all add: bump_def)

lemma reserved_row_simps [simp]:
  "a_id (reserved_row ow t h u a) = a_id a" "a_port (reserved_row ow t h u a) = a_port a"
  "a_status (reserved_row ow t h u a) = Text RESERVED" "a_ownerTag (reserved_row ow t h u a) = Some t"
  "a_ownerType (reserved_row ow t h u a) = Some (Text (owner_type ow))"
  "a_tokenHash (reserved_row ow t h u a) = Some h"
  "a_reservedUntil (reserved_row ow t h u a) = Some (epochSeconds u)"
  "a_version (reserved_row ow t h u a) = a_version a"
  by (simp_all add: reserved_row_def)

lemma owns_primary_cong:
  "a_ownerTag a' = a_ownerTag a \<Longrightarrow> owns_primary a' = owns_primary a"
  by (simp add: owns_primary_def fun_eq_iff)

lemma alloc_step_inv:
  assumes "alloc_step x y" "view_inv x"
  shows "view_inv y"
  using assms
proof (cases rule: alloc_step.cases)
  case (activate a t now new rs a')
  then have "owns_primary a' = owns_primary a" "rs = []"
    using assms(2) by (simp_all add: owns_primary_def fun_eq_iff view_inv_def)
  with activate show ?thesis by (auto simp: view_inv_def list_all_iff)
next
  case (attach a r rs now)
  then show ?thesis using assms(2) by (simp add: view_inv_def owns_primary_def list_all_iff list_ex_iff)
next
  case (detach a rs' k rs now)
  then have "list_ex (owns_primary a) rs'"
    using assms(2) by (auto simp: view_inv_def owns_primary_def list_all_iff list_ex_iff)
  then show ?thesis
    using assms(2) detach by (simp add: view_inv_def owns_primary_def list_all_iff list_ex_iff)
next
  case (begin_release a a' now r)
  then show ?thesis using assms(2) by (auto simp: view_inv_def owns_primary_def)
qed (auto simp: view_inv_def)

text \<open>The row and its references never change without the version moving.\<close>

lemma alloc_step_version:
  assumes "alloc_step (Some (a, rs)) y"
  shows "\<exists>a' rs'. y = Some (a', rs') \<and> a_id a' = a_id a \<and> a_port a' = a_port a \<and> a_version a' = a_version a + 1"
  using assms by cases auto

section \<open>Table constraints and primitive writes\<close>

definition tables_inv :: "ledger \<Rightarrow> bool" where
  "tables_inv db \<longleftrightarrow>
     distinct (map a_id (allocations db)) \<and> distinct (map a_port (allocations db))
     \<and> distinct (map r_id (references db)) \<and> distinct (map r_key (references db))
     \<and> list_all (\<lambda>a. a_id a < next_allocation db) (allocations db)
     \<and> list_all (\<lambda>r. r_id r < next_reference db \<and> r_allocationId r \<in> set (map a_id (allocations db))) (references db)"

definition ledger_step :: "ledger \<Rightarrow> ledger \<Rightarrow> bool" where
  "ledger_step db db' \<longleftrightarrow> (\<forall>i. view db' i = view db i \<or> alloc_step (view db i) (view db' i))"

definition moves :: "ledger \<Rightarrow> ledger \<Rightarrow> bool" where
  "moves db db' \<longleftrightarrow> tables_inv db' \<and> ledger_step\<^sup>*\<^sup>* db db'"

lemma moves_refl [simp]: "moves db db \<longleftrightarrow> tables_inv db"
  by (simp add: moves_def)

lemma moves_trans: "moves db db1 \<Longrightarrow> moves db1 db2 \<Longrightarrow> moves db db2"
  unfolding moves_def by (meson rtranclp_trans)

lemma moves_tables: "moves db db' \<Longrightarrow> tables_inv db'"
  by (simp add: moves_def)

lemma find_Some_iff:
  "distinct (map f xs) \<Longrightarrow> find (\<lambda>x. f x = k) xs = Some a \<longleftrightarrow> a \<in> set xs \<and> f a = k"
  by (induction xs) (auto split: if_splits)

lemma find_map_keep:
  "(\<And>x. f (g x) = f x) \<Longrightarrow> find (\<lambda>x. f x = k) (map g xs) = map_option g (find (\<lambda>x. f x = k) xs)"
  by (induction xs) auto

lemma find_snoc: "find P (xs @ [x]) = (case find P xs of None \<Rightarrow> if P x then Some x else None | Some y \<Rightarrow> Some y)"
  by (induction xs) auto

lemma find_SomeD: "find P xs = Some a \<Longrightarrow> a \<in> set xs \<and> P a"
  by (induction xs) (auto split: if_splits)

lemma find_NoneD: "find P xs = None \<Longrightarrow> x \<in> set xs \<Longrightarrow> \<not> P x"
  by (induction xs) (auto split: if_splits)

lemma allocationById_iff:
  "tables_inv db \<Longrightarrow> allocationById db i = Some a \<longleftrightarrow> a \<in> set (allocations db) \<and> a_id a = i"
  unfolding allocationById_def tables_inv_def by (simp add: find_Some_iff)

lemma allocationByPort_iff:
  "tables_inv db \<Longrightarrow> allocationByPort db p = Some a \<longleftrightarrow> a \<in> set (allocations db) \<and> a_port a = p"
  unfolding allocationByPort_def tables_inv_def by (simp add: find_Some_iff)

lemma referenceByKey_iff:
  "tables_inv db \<Longrightarrow> referenceByKey db k = Some r \<longleftrightarrow> r \<in> set (references db) \<and> r_key r = k"
  unfolding referenceByKey_def tables_inv_def by (simp add: find_Some_iff)

lemma tables_inv_map:
  assumes "tables_inv db" "\<And>r. a_id (g r) = a_id r" "\<And>r. a_port (g r) = a_port r"
  shows "tables_inv (db\<lparr>allocations := map g (allocations db)\<rparr>)"
proof -
  have "map a_id (map g xs) = map a_id xs" "map a_port (map g xs) = map a_port xs" for xs
    using assms(2,3) by simp_all
  then show ?thesis
    using assms by (simp add: tables_inv_def list.pred_map comp_def)
qed

lemma one_step:
  assumes "tables_inv db'" "alloc_step (view db i) (view db' i)"
    "\<And>j. j \<noteq> i \<Longrightarrow> allocationById db' j = allocationById db j"
    "\<And>j. j \<noteq> i \<Longrightarrow> refs_of db' j = refs_of db j"
  shows "moves db db'"
proof -
  have "view db' j = view db j" if "j \<noteq> i" for j
    using assms(3,4) that by (simp add: view_def)
  with assms(2) have "ledger_step db db'"
    unfolding ledger_step_def by metis
  with assms(1) show ?thesis by (simp add: moves_def)
qed

text \<open>What a compare-and-set update did, when it did anything.\<close>

lemma cas_update_anyD:
  assumes "cas_update i v sts f db = Some db'" "tables_inv db"
    and f: "\<And>r. a_id (f r) = a_id r" "\<And>r. a_port (f r) = a_port r"
  obtains a where "allocationById db i = Some a" "a_version a = v" "a_status a \<in> Text ` set sts"
    "tables_inv db'" "allocationById db' i = Some (f a)"
    "\<And>j. j \<noteq> i \<Longrightarrow> allocationById db' j = allocationById db j" "references db' = references db"
proof -
  define g where "g = (\<lambda>r. if cas_hit i v sts r then f r else r)"
  have len: "length (filter (cas_hit i v sts) (allocations db)) = 1"
    and db': "db' = db\<lparr>allocations := map g (allocations db)\<rparr>"
    using assms(1) by (auto simp: cas_update_def g_def split: if_splits)
  obtain a where a: "a \<in> set (allocations db)" "cas_hit i v sts a"
    using len by (metis filter_False length_0_conv zero_neq_one)
  have g: "a_id (g r) = a_id r" "a_port (g r) = a_port r" for r
    using f by (simp_all add: g_def)
  have hit: "a_id a = i" "a_version a = v" "a_status a \<in> Text ` set sts"
    using a(2) by (simp_all add: cas_hit_def)
  have get: "allocationById db i = Some a"
    using a(1) hit(1) assms(2) by (simp add: allocationById_iff)
  have upd: "allocationById db' j = map_option g (allocationById db j)" for j
    using find_map_keep [where f = a_id and g = g] g(1) by (simp add: allocationById_def db')
  have other: "allocationById db' j = allocationById db j" if "j \<noteq> i" for j
  proof (cases "allocationById db j")
    case None
    then show ?thesis by (simp add: upd)
  next
    case (Some b)
    then have "a_id b = j" using assms(2) by (simp add: allocationById_iff)
    then show ?thesis using that Some by (simp add: upd g_def cas_hit_def)
  qed
  show ?thesis
  proof (rule that [OF get hit(2,3) _ _ other])
    show "tables_inv db'" unfolding db' by (rule tables_inv_map [OF assms(2) g])
    show "allocationById db' i = Some (f a)" using get a(2) by (simp add: upd g_def)
    show "references db' = references db" by (simp add: db')
  qed
qed

lemma cas_updateD:
  assumes "cas_update i v [st] f db = Some db'" "tables_inv db"
    and f: "\<And>r. a_id (f r) = a_id r" "\<And>r. a_port (f r) = a_port r"
  obtains a where "allocationById db i = Some a" "a_version a = v" "a_status a = Text st"
    "tables_inv db'" "allocationById db' i = Some (f a)"
    "\<And>j. j \<noteq> i \<Longrightarrow> allocationById db' j = allocationById db j" "references db' = references db"
  by (rule cas_update_anyD [OF assms]) (rule that, auto)

lemma update_and_readD:
  assumes "update_and_read i v st f db = Inr (d, db')" "tables_inv db"
    and f: "\<And>r. a_id (f r) = a_id r" "\<And>r. a_port (f r) = a_port r"
  obtains a where "allocationById db i = Some a" "a_version a = v" "a_status a = Text st"
    "tables_inv db'" "allocationById db' i = Some (f a)" "allocationDto (f a) = Inr d"
    "\<And>j. j \<noteq> i \<Longrightarrow> allocationById db' j = allocationById db j" "references db' = references db"
proof -
  obtain row where u: "cas_update i v [st] f db = Some db'" "allocationById db' i = Some row"
    "allocationDto row = Inr d"
    using assms(1) by (auto simp: update_and_read_def ebind_Inr split: option.splits)
  show ?thesis
    by (rule cas_updateD [OF u(1) assms(2) f], rule that) (use u in auto)
qed

lemma refs_of_eq: "references db' = references db \<Longrightarrow> refs_of db' = refs_of db"
  by (simp add: refs_of_def fun_eq_iff)

lemma view_simps: "allocationById db i = Some a \<Longrightarrow> view db i = Some (a, refs_of db i)"
  by (simp add: view_def)

lemma posId_Inr [ledger_simps]:
  "posId n = Inr m \<longleftrightarrow> m = n \<and> 0 < n \<and> n \<le> MAX_SAFE_INTEGER"
  by (auto simp: positiveId_def as_safe_integer_def to_number.simps split: if_splits)

lemma version_number_Inr [ledger_simps]:
  "version_number (JNum (inum n)) = Inr m \<longleftrightarrow> m = n \<and> 0 < n \<and> n < MAX_SAFE_INTEGER"
  by (auto simp: version_number_def ebind_Inr posId_Inr split: if_splits)

lemma storedListenerPort_Inr [ledger_simps]:
  "storedListenerPort (JNum (inum n)) = Inr m \<longleftrightarrow> m = n \<and> 1 \<le> n \<and> n \<le> 65535"
  by (auto simp: storedListenerPort_def as_safe_integer_def MAX_SAFE_INTEGER_def split: if_splits)

lemma insertReferenceD:
  assumes "insertReference i tag ref db = Inr (b, db')" "tables_inv db" "i \<in> set (map a_id (allocations db))"
  obtains (found) r where "\<not> b" "db' = db" "r \<in> set (refs_of db i)" "r_ownerGroupTag r = tag"
      "r_isOwning r = in_isOwning ref"
  | (inserted) r where "b" "tables_inv db'" "allocations db' = allocations db"
      "references db' = references db @ [r]" "r_allocationId r = i" "r_ownerGroupTag r = tag"
      "r_isOwning r = in_isOwning ref"
proof -
  obtain key where key: "referenceKey ref = Inr key"
    using assms(1) by (auto simp: insertReference_def ebind_Inr)
  show ?thesis
  proof (cases "referenceByKey db key")
    case (Some r)
    then have same: "same_reference r i tag ref = Inr True" and b: "\<not> b" "db' = db"
      using assms(1) key by (auto simp: insertReference_def ebind_Inr split: if_splits)
    have "r_allocationId r = i" "r_ownerGroupTag r = tag" "r_isOwning r = in_isOwning ref"
      using same by (auto simp: same_reference_def ebind_Inr posId_Inr split: if_splits)
    moreover have "r \<in> set (references db)"
      using Some assms(2) by (simp add: referenceByKey_iff)
    ultimately show ?thesis using b found by (simp add: refs_of_def)
  next
    case None
    then have nk: "key \<notin> set (map r_key (references db))"
      using find_NoneD [of "\<lambda>r. r_key r = key"] by (auto simp: referenceByKey_def)
    obtain r where r: "b" "db' = db\<lparr>references := references db @ [r], next_reference := next_reference db + 1\<rparr>"
      "r_id r = next_reference db" "r_key r = key" "r_allocationId r = i" "r_ownerGroupTag r = tag"
      "r_isOwning r = in_isOwning ref"
      using assms(1) key None by (auto simp: insertReference_def ebind_Inr)
    have "tables_inv db'"
      using assms(2,3) nk r(2-5) by (auto simp: tables_inv_def list_all_iff)
    then show ?thesis using inserted r by simp
  qed
qed

section \<open>Every operation follows the state machine\<close>

lemma refs_of_append [simp]:
  "references db' = references db @ [r] \<Longrightarrow>
   refs_of db' j = (if r_allocationId r = j then refs_of db j @ [r] else refs_of db j)"
  by (simp add: refs_of_def)

lemma allocationById_cong: "allocations db' = allocations db \<Longrightarrow> allocationById db' = allocationById db"
  by (simp add: allocationById_def fun_eq_iff)

lemma allocationById_mem:
  "allocationById db i = Some a \<Longrightarrow> i \<in> set (map a_id (allocations db))"
  by (auto simp: allocationById_def dest: find_SomeD)

lemma fresh_id_unused:
  assumes "tables_inv db"
  shows "allocationById db (next_allocation db) = None" "refs_of db (next_allocation db) = []"
proof -
  show "allocationById db (next_allocation db) = None"
    using assms find_SomeD [of "\<lambda>r. a_id r = next_allocation db"]
    by (cases "allocationById db (next_allocation db)") (force simp: allocationById_def tables_inv_def list_all_iff)+
  show "refs_of db (next_allocation db) = []"
    using assms by (fastforce simp: refs_of_def tables_inv_def list_all_iff filter_empty_conv)
qed

lemma allocationDto_fields:
  assumes "allocationDto a = Inr d"
  shows "dto_allocationId d = a_id a" "dto_port d = a_port a" "a_status a = Text (dto_status d)"
    "dto_version d = a_version a" "a_ownerType a = map_option Text (dto_ownerType d)" "dto_ownerTag d = a_ownerTag a"
    "0 < a_version a" "a_version a < MAX_SAFE_INTEGER" "0 < a_id a" "a_id a \<le> MAX_SAFE_INTEGER"
    "1 \<le> a_port a" "a_port a \<le> 65535"
    "dto_status d \<in> {RESERVED, ACTIVE, RELEASING} \<longleftrightarrow> a_ownerTag a \<noteq> None"
proof -
  obtain st ot i p v where *: "allocationStatus (a_status a) = Inr st" "ownerType (a_ownerType a) = Inr ot"
    "posId (a_id a) = Inr i" "storedListenerPort (JNum (inum (a_port a))) = Inr p"
    "version_number (JNum (inum (a_version a))) = Inr v"
    "(ot = None) = (a_ownerTag a = None)" "(st = RESERVED \<or> st = ACTIVE \<or> st = RELEASING) = (ot \<noteq> None)"
    "d = \<lparr>dto_allocationId = i, dto_port = p, dto_status = st, dto_version = v,
               dto_ownerType = ot, dto_ownerTag = a_ownerTag a, dto_reservedUntil = dateFromDatabase (a_reservedUntil a)\<rparr>"
    using assms unfolding allocationDto_def Let_def ebind_Inr by (fastforce split: if_splits simp: ebind_Inr)
  show "dto_allocationId d = a_id a" "dto_port d = a_port a"
    "dto_version d = a_version a" "dto_ownerTag d = a_ownerTag a"
    "0 < a_version a" "a_version a < MAX_SAFE_INTEGER" "0 < a_id a" "a_id a \<le> MAX_SAFE_INTEGER"
    "1 \<le> a_port a" "a_port a \<le> 65535"
    using * by (simp_all add: ledger_simps)
  show "a_status a = Text (dto_status d)"
    using * by (simp add: allocationStatus_def split: db_text.splits)
  show "a_ownerType a = map_option Text (dto_ownerType d)"
    using * by (auto simp add: ownerType_def split: option.splits db_text.splits)
  show "dto_status d \<in> {RESERVED, ACTIVE, RELEASING} \<longleftrightarrow> a_ownerTag a \<noteq> None"
    using * by auto
qed

lemma reserve_cases:
  assumes "reserveGlobalPortAllocation sha256 token pv ow nowV ttlV db = Inr (r, db')"
  obtains (new) port now ttl tag h where "newListenerPort pv = Inr port" "nowV = Some now" "ttl_ok ttlV = Inr ttl"
      "ownerTag ow = Inr tag" "tokenHash sha256 token = Inr h" "allocationByPort db port = None"
      "db' = db\<lparr>allocations := allocations db @ [reserved_row ow tag h (now + ttl) (fresh_row db port now)],
               next_allocation := next_allocation db + 1\<rparr>"
  | (reuse) port now ttl tag h a where "newListenerPort pv = Inr port" "nowV = Some now" "ttl_ok ttlV = Inr ttl"
      "ownerTag ow = Inr tag" "tokenHash sha256 token = Inr h" "allocationByPort db port = Some a"
      "a_status a = Text FREE" "r = (fst r, token)"
      "update_and_read (a_id a) (a_version a) FREE (\<lambda>x. bump now (reserved_row ow tag h (now + ttl) x)) db = Inr (fst r, db')"
proof -
  obtain port now ttl tag h where pre: "newListenerPort pv = Inr port" "nowV = Some now" "ttl_ok ttlV = Inr ttl"
      "ownerTag ow = Inr tag" "tokenHash sha256 token = Inr h"
    using assms by (auto simp: reserveGlobalPortAllocation_def ebind_Inr validDate_def split: option.splits)
  show ?thesis
  proof (cases "allocationByPort db port")
    case None
    then show ?thesis
      using assms pre new by (auto simp: reserveGlobalPortAllocation_def validDate_def Let_def ebind_Inr split: option.splits)
  next
    case (Some a)
    obtain d where "allocationDto a = Inr d" "dto_status d = FREE" "r = (fst r, token)"
      "update_and_read (dto_allocationId d) (dto_version d) FREE (\<lambda>x. bump now (reserved_row ow tag h (now + ttl) x)) db = Inr (fst r, db')"
      using assms pre Some
      by (auto simp: reserveGlobalPortAllocation_def validDate_def Let_def ebind_Inr split: if_splits)
    then show ?thesis
      using reuse [OF pre Some] allocationDto_fields [of a d] by simp
  qed
qed

lemma fresh_row_simps [simp]:
  "a_id (fresh_row db port now) = next_allocation db" "a_port (fresh_row db port now) = port"
  "a_version (fresh_row db port now) = 1"
  by (simp_all add: fresh_row_def)

lemma reserve_moves:
  assumes "reserveGlobalPortAllocation sha256 token pv ow nowV ttlV db = Inr (r, db')" "tables_inv db"
  shows "moves db db'"
  using assms(1)
proof (cases rule: reserve_cases)
  case (new port now ttl tag h)
  define a where "a = reserved_row ow tag h (now + ttl) (fresh_row db port now)"
  note fresh = fresh_id_unused [OF assms(2)]
  have np: "port \<notin> set (map a_port (allocations db))"
    using new(6) find_NoneD [of "\<lambda>r. a_port r = port"] by (auto simp: allocationByPort_def)
  have db': "db' = db\<lparr>allocations := allocations db @ [a], next_allocation := next_allocation db + 1\<rparr>"
    using new(7) by (simp add: a_def)
  have byId: "allocationById db' j = (if j = next_allocation db then Some a else allocationById db j)" for j
    using fresh(1) by (auto simp: allocationById_def db' find_snoc a_def split: option.splits)
  show ?thesis
  proof (rule one_step [where i = "next_allocation db"])
    show "tables_inv db'"
      using assms(2) np by (auto simp: db' a_def tables_inv_def list_all_iff)
    have "view db (next_allocation db) = None" "view db' (next_allocation db) = Some (a, [])"
      using fresh byId [of "next_allocation db"] by (simp_all add: view_def refs_of_def db')
    then show "alloc_step (view db (next_allocation db)) (view db' (next_allocation db))"
      by (simp add: a_def alloc_step.reserve_new)
  qed (simp add: byId, simp add: refs_of_def db')
next
  case (reuse port now ttl tag h a)
  show ?thesis
  proof (rule update_and_readD [OF reuse(9) assms(2)])
    fix b
    assume b: "allocationById db (a_id a) = Some b" "a_status b = Text FREE" "tables_inv db'"
      "allocationById db' (a_id a) = Some (bump now (reserved_row ow tag h (now + ttl) b))"
      "\<And>j. j \<noteq> a_id a \<Longrightarrow> allocationById db' j = allocationById db j" "references db' = references db"
    note v = refs_of_eq [OF b(6)]
    show ?thesis
      by (rule one_step [where i = "a_id a"])
        (use b v in \<open>auto simp: view_simps intro: alloc_step.reserve_free\<close>)
  qed simp_all
qed

lemma insertReferencesD:
  assumes "insertReferences i tag refs db = Inr (u, db')" "tables_inv db" "i \<in> set (map a_id (allocations db))"
    "list_all in_isOwning refs"
  obtains new where "tables_inv db'" "allocations db' = allocations db" "refs_of db' i = refs_of db i @ new"
    "\<And>j. j \<noteq> i \<Longrightarrow> refs_of db' j = refs_of db j"
    "list_all (\<lambda>r. r_isOwning r \<and> r_ownerGroupTag r = tag) new"
    "refs \<noteq> [] \<longrightarrow> list_ex (\<lambda>r. r_isOwning r \<and> r_ownerGroupTag r = tag) (refs_of db i @ new)"
  using assms
proof (induction refs arbitrary: db thesis)
  case Nil
  then show ?case by (auto intro!: Nil.prems(1) [of "[]"])
next
  case (Cons ref refs)
  obtain b db1 where ins: "insertReference i tag ref db = Inr (b, db1)" "insertReferences i tag refs db1 = Inr (u, db')"
    using Cons.prems(2) by (auto simp: ebind_Inr)
  have own: "in_isOwning ref" "list_all in_isOwning refs" using Cons.prems(5) by auto
  from ins(1) Cons.prems(3,4) show ?case
  proof (cases rule: insertReferenceD)
    case (found r)
    have t: "tables_inv db1" "i \<in> set (map a_id (allocations db1))" using Cons.prems(3,4) found by auto
    show ?thesis
    proof (rule Cons.IH [OF _ ins(2) t own(2)])
      fix new
      assume *: "tables_inv db'" "allocations db' = allocations db1" "refs_of db' i = refs_of db1 i @ new"
        "\<And>j. j \<noteq> i \<Longrightarrow> refs_of db' j = refs_of db1 j"
        "list_all (\<lambda>r. r_isOwning r \<and> r_ownerGroupTag r = tag) new"
      show ?thesis
        by (rule Cons.prems(1) [OF *(1)]) (use * found own in \<open>auto simp: list_ex_iff\<close>)
    qed
  next
    case (inserted r)
    have t: "tables_inv db1" "i \<in> set (map a_id (allocations db1))" using Cons.prems(4) inserted by auto
    show ?thesis
    proof (rule Cons.IH [OF _ ins(2) t own(2)])
      fix new
      assume *: "tables_inv db'" "allocations db' = allocations db1" "refs_of db' i = refs_of db1 i @ new"
        "\<And>j. j \<noteq> i \<Longrightarrow> refs_of db' j = refs_of db1 j"
        "list_all (\<lambda>r. r_isOwning r \<and> r_ownerGroupTag r = tag) new"
      show ?thesis
        by (rule Cons.prems(1) [of "r # new", OF *(1)]) (use * inserted own in \<open>auto simp: list_ex_iff\<close>)
    qed
  qed
qed

lemma expect_row_Inr:
  "expect_row db i v st P = Inr row \<longleftrightarrow>
     allocationById db i = Some row \<and> a_version row = v \<and> 0 < v \<and> v < MAX_SAFE_INTEGER \<and> a_status row = Text st \<and> P row"
  by (auto simp: expect_row_def ebind_Inr ledger_simps allocationStatus_def split: option.splits db_text.splits if_splits)

lemma expect_status_Inr:
  "expect_status db i v st = Inr row \<longleftrightarrow>
     allocationById db i = Some row \<and> a_version row = v \<and> 0 < v \<and> v < MAX_SAFE_INTEGER \<and> a_status row = Text st"
  by (auto simp: expect_status_def ebind_Inr ledger_simps allocationStatus_def split: option.splits db_text.splits if_splits)

lemma activate_moves:
  assumes "activateReservedGlobalPortAllocation sha256 iV vV ow token refs nowV db = Inr (d, db')" "tables_inv db"
  shows "moves db db'"
proof -
  obtain i v now tag row db1 u where *: "positiveId iV = Inr i" "version_number vV = Inr v" "nowV = Some now"
      "ownerTag ow = Inr tag" "refs \<noteq> []" "list_all in_isOwning refs"
      "allocationById db i = Some row" "a_status row = Text RESERVED" "owned_by row (owner_type ow) tag"
      "case dateFromDatabase (a_reservedUntil row) of None \<Rightarrow> False | Some t \<Rightarrow> now < t"
      "insertReferences i tag refs db = Inr (u, db1)"
      "update_and_read i v RESERVED
         (\<lambda>r. bump now (r\<lparr>a_status := Text ACTIVE, a_tokenHash := None, a_reservedUntil := None\<rparr>)) db1 = Inr (d, db')"
    using assms(1)
    by (auto simp: activateReservedGlobalPortAllocation_def ebind_Inr expect_row_Inr validDate_def not_le list_all_iff
             list_ex_iff split: if_splits option.splits)
  have tag: "a_ownerTag row = Some tag" using *(9) by (simp add: owned_by_def)
  have op: "owns_primary row r \<longleftrightarrow> r_isOwning r \<and> r_ownerGroupTag r = tag" for r
    using tag by (auto simp: owns_primary_def)
  obtain new where n: "tables_inv db1" "allocations db1 = allocations db" "refs_of db1 i = refs_of db i @ new"
    "\<And>j. j \<noteq> i \<Longrightarrow> refs_of db1 j = refs_of db j" "list_all (owns_primary row) new"
    "list_ex (owns_primary row) (refs_of db i @ new)"
    using insertReferencesD [OF *(11) assms(2) allocationById_mem [OF *(7)] *(6)] *(5)
    by (auto simp: op [abs_def])
  show ?thesis
  proof (rule update_and_readD [OF *(12) n(1)])
    fix a
    assume a: "allocationById db1 i = Some a" "tables_inv db'"
      "allocationById db' i = Some (bump now (a\<lparr>a_status := Text ACTIVE, a_tokenHash := None, a_reservedUntil := None\<rparr>))"
      "\<And>j. j \<noteq> i \<Longrightarrow> allocationById db' j = allocationById db1 j" "references db' = references db1"
    have "a = row" using a(1) *(7) allocationById_cong [OF n(2)] by simp
    then show ?thesis
      by (intro one_step [where i = i])
        (use a n * tag refs_of_eq [OF a(5)] allocationById_cong [OF n(2)]
         in \<open>auto simp: view_simps intro!: alloc_step.activate\<close>)
  qed simp_all
qed

text \<open>Attaching one reference to an active allocation, as three operations do.\<close>

lemma attach_moves:
  assumes ins: "insertReference i tag ref db = Inr (b, db1)"
    and row: "allocationById db i = Some row" "a_status row = Text ACTIVE"
    and own: "in_isOwning ref \<longrightarrow> a_ownerTag row = Some tag"
    and upd: "if b then update_and_read i v ACTIVE (bump now) db1 = Inr (d, db') else db' = db1"
    and inv: "tables_inv db"
  shows "moves db db'"
  using ins inv allocationById_mem [OF row(1)]
proof (cases rule: insertReferenceD)
  case (found r)
  then show ?thesis using upd inv by simp
next
  case (inserted r)
  have upd': "update_and_read i v ACTIVE (bump now) db1 = Inr (d, db')" using upd inserted(1) by simp
  show ?thesis
  proof (rule update_and_readD [OF upd' inserted(2)])
    fix a
    assume a: "allocationById db1 i = Some a" "tables_inv db'" "allocationById db' i = Some (bump now a)"
      "\<And>j. j \<noteq> i \<Longrightarrow> allocationById db' j = allocationById db1 j" "references db' = references db1"
    have "a = row" using a(1) row(1) allocationById_cong [OF inserted(3)] by simp
    moreover have "r_isOwning r \<longrightarrow> owns_primary row r"
      using own inserted by (simp add: owns_primary_def)
    ultimately show ?thesis
      by (intro one_step [where i = i])
        (use a row inserted refs_of_eq [OF a(5)] allocationById_cong [OF inserted(3)]
         in \<open>auto simp: view_simps intro!: alloc_step.attach\<close>)
  qed simp_all
qed

lemma addActive_moves:
  assumes "addActiveGlobalPortOwningReference iV vV ow ref nowV db = Inr (d, db')" "tables_inv db"
  shows "moves db db'"
proof -
  obtain i v now tag row b db1 where *: "positiveId iV = Inr i" "version_number vV = Inr v" "nowV = Some now"
      "ownerTag ow = Inr tag" "allocationById db i = Some row" "a_status row = Text ACTIVE"
      "owned_by row (owner_type ow) tag" "insertReference i tag ref db = Inr (b, db1)"
      "(if \<not> b then ebind (allocationDto row) (\<lambda>d. Inr (d, db1)) else update_and_read i v ACTIVE (bump now) db1) = Inr (d, db')"
    using assms(1)
    by (auto simp: addActiveGlobalPortOwningReference_def ebind_Inr expect_row_Inr validDate_def split: option.splits)
  show ?thesis
    by (rule attach_moves [OF *(8,5,6) _ _ assms(2), where d = d and v = v and now = now])
      (use * in \<open>auto simp: owned_by_def ebind_Inr\<close>)
qed

lemma attachAlias_moves:
  assumes "attachGlobalPortTargetAlias iV vV src al ref nowV db = Inr (d, db')" "tables_inv db"
  shows "moves db db'"
proof -
  obtain i v now tag row b db1 where *: "version_number vV = Inr v" "allocationById db i = Some row"
      "a_status row = Text ACTIVE" "\<not> in_isOwning ref" "insertReference i tag ref db = Inr (b, db1)"
      "(if \<not> b then ebind (allocationDto row) (\<lambda>d. Inr (d, db1)) else update_and_read i v ACTIVE (bump now) db1) = Inr (d, db')"
    using assms(1)
    by (auto simp: attachGlobalPortTargetAlias_def throw_simps expect_row_Inr validDate_def
        simp del: if_not_P split: if_splits)
  show ?thesis
    by (rule attach_moves [OF *(5,2,3) _ _ assms(2), where d = d and v = v and now = now])
      (use * in \<open>auto simp: ebind_Inr\<close>)
qed

lemma delete_reference_facts:
  assumes "tables_inv db" "ref \<in> set (references db)"
  shows "tables_inv (delete_reference (r_id ref) (r_key ref) db)"
    "refs_of (delete_reference (r_id ref) (r_key ref) db) j = filter (\<lambda>r. r_id r \<noteq> r_id ref) (refs_of db j)"
    "j \<noteq> r_allocationId ref \<Longrightarrow> refs_of (delete_reference (r_id ref) (r_key ref) db) j = refs_of db j"
    "allocations (delete_reference (r_id ref) (r_key ref) db) = allocations db"
proof -
  have same: "r = ref" if "r \<in> set (references db)" "r_id r = r_id ref" for r
    using assms that by (auto simp: tables_inv_def distinct_map dest: inj_onD)
  show "tables_inv (delete_reference (r_id ref) (r_key ref) db)"
    using assms(1) by (auto simp: tables_inv_def delete_reference_def list_all_iff distinct_map_filter)
  show r: "refs_of (delete_reference (r_id ref) (r_key ref) db) j = filter (\<lambda>r. r_id r \<noteq> r_id ref) (refs_of db j)" for j
    using same by (auto simp: refs_of_def delete_reference_def intro!: filter_cong)
  show "refs_of (delete_reference (r_id ref) (r_key ref) db) j = refs_of db j" if "j \<noteq> r_allocationId ref"
  proof -
    have "r_id r \<noteq> r_id ref" if "r \<in> set (refs_of db j)" for r
      using that same [of r] \<open>j \<noteq> r_allocationId ref\<close> by (auto simp: refs_of_def)
    then show ?thesis unfolding r by (simp add: filter_id_conv)
  qed
  show "allocations (delete_reference (r_id ref) (r_key ref) db) = allocations db"
    by (simp add: delete_reference_def)
qed

lemma singleton_by_key:
  assumes "distinct (map f xs)" "x \<in> set xs" "\<forall>y\<in>set xs. f y = f x"
  shows "xs = [x]"
proof (cases xs)
  case (Cons y ys)
  then have "ys = []" using assms by (cases ys) auto
  with Cons assms(2) show ?thesis by simp
qed (use assms in simp)

lemma beginRelease_cases:
  assumes "beginGlobalPortReferenceRelease refIn vV nowV db = Inr (res, db')" "tables_inv db"
  obtains (absent) key where "referenceKey refIn = Inr key" "referenceByKey db key = None" "res = None" "db' = db"
  | (dropped) key ref v now row d where "referenceKey refIn = Inr key" "version_number vV = Inr v" "nowV = Some now"
      "referenceByKey db key = Some ref" "allocationById db (r_allocationId ref) = Some row" "a_status row = Text ACTIVE"
      "a_version row = v" "res = Some d"
      "filter (\<lambda>r. r_id r \<noteq> r_id ref) (refs_of db (r_allocationId ref)) \<noteq> []"
      "list_ex (\<lambda>r. r_isOwning r \<and> r_ownerGroupTag r = (case a_ownerTag row of None \<Rightarrow> [] | Some t \<Rightarrow> t))
         (filter (\<lambda>r. r_id r \<noteq> r_id ref) (refs_of db (r_allocationId ref)))"
      "update_and_read (r_allocationId ref) v ACTIVE (bump now) (delete_reference (r_id ref) (r_key ref) db) = Inr (d, db')"
  | (last) key ref v now row d where "referenceKey refIn = Inr key" "version_number vV = Inr v" "nowV = Some now"
      "referenceByKey db key = Some ref" "allocationById db (r_allocationId ref) = Some row" "a_status row = Text ACTIVE"
      "a_version row = v" "res = Some d" "refs_of db (r_allocationId ref) = [ref]"
      "update_and_read (r_allocationId ref) v ACTIVE (\<lambda>r. bump now (r\<lparr>a_status := Text RELEASING\<rparr>)) db = Inr (d, db')"
proof -
  obtain key v now where pre: "referenceKey refIn = Inr key" "version_number vV = Inr v" "nowV = Some now"
    using assms(1) by (auto simp: beginGlobalPortReferenceRelease_def ebind_Inr validDate_def split: option.splits)
  note def = beginGlobalPortReferenceRelease_def pre validDate_def
  show ?thesis
  proof (cases "referenceByKey db key")
    case None
    then show ?thesis using absent pre assms(1) by (simp add: def)
  next
    case (Some ref)
    define rest where "rest = filter (\<lambda>r. r_id r \<noteq> r_id ref) (refs_of db (r_allocationId ref))"
    have ref: "ref \<in> set (references db)" "r_key ref = key"
      using Some assms(2) by (simp_all add: referenceByKey_iff)
    have rest: "filter (\<lambda>r. r_allocationId r = r_allocationId ref \<and> r_id r \<noteq> r_id ref) (references db) = rest"
      by (simp add: rest_def refs_of_def conj_commute)
    obtain row d where r: "allocationById db (r_allocationId ref) = Some row" "a_status row = Text ACTIVE"
      "a_version row = v" "res = Some d"
      "rest \<noteq> [] \<longrightarrow> list_ex (\<lambda>r. r_isOwning r \<and> r_ownerGroupTag r = (case a_ownerTag row of None \<Rightarrow> [] | Some t \<Rightarrow> t)) rest"
      "update_and_read (r_allocationId ref) v ACTIVE
         (if rest \<noteq> [] then bump now else (\<lambda>r. bump now (r\<lparr>a_status := Text RELEASING\<rparr>)))
         (if rest \<noteq> [] then delete_reference (r_id ref) key db else db) = Inr (d, db')"
      using assms(1) Some
      by (auto simp: def ebind_Inr expect_status_Inr ledger_simps Let_def rest conj_commute split: if_splits)
    show ?thesis
    proof (cases "rest = []")
      case False
      then show ?thesis using dropped [OF pre Some r(1-4)] r(5,6) ref(2) by (simp add: rest_def)
    next
      case True
      have "refs_of db (r_allocationId ref) = [ref]"
      proof -
        have d: "distinct (map r_id (refs_of db (r_allocationId ref)))"
          using assms(2) by (simp add: tables_inv_def refs_of_def distinct_map_filter)
        have m: "ref \<in> set (refs_of db (r_allocationId ref))" using ref by (simp add: refs_of_def)
        have "\<forall>r\<in>set (refs_of db (r_allocationId ref)). r_id r = r_id ref"
          using True by (auto simp: rest_def filter_empty_conv)
        then show ?thesis using d m
          by (intro singleton_by_key)
      qed
      then show ?thesis using last [OF pre Some r(1-4)] r(6) True by simp
    qed
  qed
qed

lemma beginRelease_moves:
  assumes "beginGlobalPortReferenceRelease refIn vV nowV db = Inr (res, db')" "tables_inv db"
  shows "moves db db'"
  using assms
proof (cases rule: beginRelease_cases)
  case absent
  then show ?thesis using assms by simp
next
  case (dropped key ref v now row d)
  have ref: "ref \<in> set (references db)" using dropped(4) assms(2) by (simp add: referenceByKey_iff)
  note del = delete_reference_facts [OF assms(2) ref]
  show ?thesis
  proof (rule update_and_readD [OF dropped(11) del(1)])
    fix a
    assume a: "allocationById (delete_reference (r_id ref) (r_key ref) db) (r_allocationId ref) = Some a" "tables_inv db'"
      "allocationById db' (r_allocationId ref) = Some (bump now a)"
      "\<And>j. j \<noteq> r_allocationId ref \<Longrightarrow> allocationById db' j = allocationById (delete_reference (r_id ref) (r_key ref) db) j"
      "references db' = references (delete_reference (r_id ref) (r_key ref) db)"
    note al = allocationById_cong [OF del(4)]
    have "a = row" using a(1) dropped(5) al by simp
    then show ?thesis
      using a dropped refs_of_eq [OF a(5)] al del(2,3)
      by (intro one_step [where i = "r_allocationId ref"])
        (auto simp: view_simps intro!: alloc_step.detach [where k = "r_id ref"])
  qed simp_all
next
  case (last key ref v now row d)
  show ?thesis
  proof (rule update_and_readD [OF last(10) assms(2)])
    fix a
    assume a: "allocationById db (r_allocationId ref) = Some a" "tables_inv db'"
      "allocationById db' (r_allocationId ref) = Some (bump now (a\<lparr>a_status := Text RELEASING\<rparr>))"
      "\<And>j. j \<noteq> r_allocationId ref \<Longrightarrow> allocationById db' j = allocationById db j" "references db' = references db"
    then show ?thesis
      using last(5,6,9) refs_of_eq [OF a(5)]
      by (intro one_step [where i = "r_allocationId ref"]) (auto simp: view_simps intro!: alloc_step.begin_release)
  qed simp_all
qed

definition released_row :: "int \<Rightarrow> AllocationRow \<Rightarrow> AllocationRow" where
  "released_row now r = bump now (r\<lparr>a_status := Text PENDING_SCAN, a_ownerType := None, a_ownerTag := None,
                                  a_scanNotBefore := Some (epochSeconds (now + RECLAIM_DELAY_MS))\<rparr>)"

lemma confirm_cases:
  assumes "confirmGlobalPortReferenceReleased refIn vV nowV db = Inr (d, db')" "tables_inv db"
  obtains key ref v now row where "referenceKey refIn = Inr key" "version_number vV = Inr v" "nowV = Some now"
      "referenceByKey db key = Some ref" "allocationById db (r_allocationId ref) = Some row" "a_status row = Text RELEASING"
      "a_version row = v" "refs_of db (r_allocationId ref) = [ref]" "ref \<in> set (references db)"
      "update_and_read (r_allocationId ref) v RELEASING (released_row now) (delete_reference (r_id ref) (r_key ref) db) = Inr (d, db')"
proof -
  obtain key v now ref row where *: "referenceKey refIn = Inr key" "version_number vV = Inr v" "nowV = Some now"
      "referenceByKey db key = Some ref" "allocationById db (r_allocationId ref) = Some row" "a_status row = Text RELEASING"
      "a_version row = v"
      "filter (\<lambda>r. r_allocationId r = r_allocationId ref \<and> r_id r \<noteq> r_id ref) (references db) = []"
      "update_and_read (r_allocationId ref) v RELEASING (released_row now) (delete_reference (r_id ref) key db) = Inr (d, db')"
    using assms(1)
    by (auto simp: confirmGlobalPortReferenceReleased_def throw_simps expect_status_Inr ledger_simps validDate_def
          released_row_def [abs_def])
  have ref: "ref \<in> set (references db)" "r_key ref = key"
    using * assms(2) by (simp_all add: referenceByKey_iff)
  have "refs_of db (r_allocationId ref) = [ref]"
  proof (rule singleton_by_key [of r_id])
    show "distinct (map r_id (refs_of db (r_allocationId ref)))"
      using assms(2) by (simp add: tables_inv_def refs_of_def distinct_map_filter)
    show "ref \<in> set (refs_of db (r_allocationId ref))" using ref(1) by (simp add: refs_of_def)
    show "\<forall>r\<in>set (refs_of db (r_allocationId ref)). r_id r = r_id ref"
      using *(8) unfolding refs_of_def filter_empty_conv by simp
  qed
  then show ?thesis using that * ref by simp
qed

lemma released_row_simps [simp]:
  "a_id (released_row now a) = a_id a" "a_port (released_row now a) = a_port a"
  "a_status (released_row now a) = Text PENDING_SCAN" "a_ownerTag (released_row now a) = None"
  "a_version (released_row now a) = a_version a + 1"
  "a_scanNotBefore (released_row now a) = Some (epochSeconds (now + RECLAIM_DELAY_MS))"
  by (simp_all add: released_row_def)

lemma confirm_moves:
  assumes "confirmGlobalPortReferenceReleased refIn vV nowV db = Inr (d, db')" "tables_inv db"
  shows "moves db db'"
  using assms
proof (cases rule: confirm_cases)
  case (1 key ref v now row)
  note del = delete_reference_facts [OF assms(2) 1(9)]
  show ?thesis
  proof (rule update_and_readD [OF 1(10) del(1)])
    fix a
    assume a: "allocationById (delete_reference (r_id ref) (r_key ref) db) (r_allocationId ref) = Some a" "tables_inv db'"
      "allocationById db' (r_allocationId ref) = Some (released_row now a)"
      "\<And>j. j \<noteq> r_allocationId ref \<Longrightarrow> allocationById db' j = allocationById (delete_reference (r_id ref) (r_key ref) db) j"
      "references db' = references (delete_reference (r_id ref) (r_key ref) db)"
    note al = allocationById_cong [OF del(4)]
    have "a = row" using a(1) 1(5) al by simp
    then have v: "view db (r_allocationId ref) = Some (row, [ref])"
      "view db' (r_allocationId ref) = Some (released_row now row, [])"
      using a(3) 1(5,8) del(2) refs_of_eq [OF a(5)] by (simp_all add: view_simps)
    show ?thesis
    proof (rule one_step [where i = "r_allocationId ref", OF a(2)])
      show "alloc_step (view db (r_allocationId ref)) (view db' (r_allocationId ref))"
        unfolding v by (rule alloc_step.confirm_release [OF 1(6) released_row_def])
    qed (use a(4) al del(3) refs_of_eq [OF a(5)] in auto)
  qed simp_all
qed

lemma release_parts:
  assumes "releaseGlobalPortReferenceAfterRuntimeCleanup ref nowV db = Inr (res, db')"
  obtains (absent) "db' = db"
  | (released) vV now rel db1 where "beginGlobalPortReferenceRelease ref vV (Some now) db = Inr (rel, db1)"
      "db' = db1 \<or> (\<exists>vV d. confirmGlobalPortReferenceReleased ref vV (Some now) db1 = Inr (d, db'))"
proof -
  obtain now loc where pre: "nowV = Some now" "allocationForReference ref db = Inr loc"
    using assms by (auto simp: releaseGlobalPortReferenceAfterRuntimeCleanup_def throw_simps validDate_def)
  show ?thesis
  proof (cases loc)
    case None
    then show ?thesis using assms pre absent
      by (simp add: releaseGlobalPortReferenceAfterRuntimeCleanup_def validDate_def)
  next
    case (Some p)
    then obtain d t where loc: "loc = Some (d, t)" by (cases p) simp
    obtain rel db1 where b: "beginGlobalPortReferenceRelease ref (JNum (inum (dto_version d))) (Some now) db = Inr (rel, db1)"
      and rest: "(case rel of None \<Rightarrow> Inr (None, db1)
         | Some rd \<Rightarrow>
             if dto_status rd \<noteq> RELEASING then Inr (Some rd, db1)
             else ebind (confirmGlobalPortReferenceReleased ref (JNum (inum (dto_version rd))) (Some now) db1)
                    (\<lambda>(d2, db2). Inr (Some d2, db2))) = Inr (res, db')"
      using assms pre loc
      by (auto simp: releaseGlobalPortReferenceAfterRuntimeCleanup_def validDate_def ebind_Inr)
    have "db' = db1 \<or> (\<exists>vV d. confirmGlobalPortReferenceReleased ref vV (Some now) db1 = Inr (d, db'))"
      using rest by (auto simp: ebind_Inr split: option.splits if_splits)
    with b show ?thesis by (rule released)
  qed
qed

lemma release_after_cleanup_moves:
  assumes "releaseGlobalPortReferenceAfterRuntimeCleanup ref nowV db = Inr (res, db')" "tables_inv db"
  shows "moves db db'"
  using assms(1)
proof (cases rule: release_parts)
  case absent
  then show ?thesis using assms(2) by simp
next
  case (released vV now rel db1)
  note m = beginRelease_moves [OF released(1) assms(2)]
  have "moves db1 db'" using released(2) confirm_moves [OF _ moves_tables [OF m]] moves_tables [OF m] by auto
  with m show ?thesis by (rule moves_trans)
qed

lemma attach_and_unstage_moves:
  assumes "attach_and_unstage ow i v nxt staged now db = Inr (d, db')" "tables_inv db"
  shows "moves db db'"
proof -
  obtain d1 db1 d2 where a: "addActiveGlobalPortOwningReference (JNum (inum i)) (JNum (inum v)) ow nxt (Some now) db = Inr (d1, db1)"
    and b: "beginGlobalPortReferenceRelease staged (JNum (inum (dto_version d1))) (Some now) db1 = Inr (d2, db')"
    using assms(1) by (auto simp: attach_and_unstage_def throw_simps)
  have m: "moves db db1" by (rule addActive_moves [OF a assms(2)])
  show ?thesis by (rule moves_trans [OF m beginRelease_moves [OF b moves_tables [OF m]]])
qed

lemma promote_parts:
  assumes "promoteStagedGlobalPortOwningReference ow public nextP staged nowV db = Inr (d, db')"
  obtains now vV rd db1 db2 i v nxt where
    "beginGlobalPortReferenceRelease public vV (Some now) db = Inr (Some rd, db1)"
    "db2 = db1 \<or> (\<exists>vV e. confirmGlobalPortReferenceReleased public vV (Some now) db1 = Inr (e, db2))"
    "attach_and_unstage ow i v nxt staged now db2 = Inr (d, db')"
proof -
  obtain now vs rd vr db1 db2 u i v nxt where
    b: "beginGlobalPortReferenceRelease public vs (Some now) db = Inr (Some rd, db1)"
    and c: "(if dto_status rd = RELEASING
             then ebind (confirmGlobalPortReferenceReleased public vr (Some now) db1) (\<lambda>(_, db2). Inr ((), db2))
             else Inr ((), db1)) = Inr (u, db2)"
    and a: "attach_and_unstage ow i v nxt staged now db2 = Inr (d, db')"
    using assms
    by (auto simp: promoteStagedGlobalPortOwningReference_def throw_simps validDate_def Let_def)
  have "db2 = db1 \<or> (\<exists>vV e. confirmGlobalPortReferenceReleased public vV (Some now) db1 = Inr (e, db2))"
    using c by (auto simp: ebind_Inr split: if_splits)
  then show ?thesis by (rule that [OF b _ a])
qed

lemma promote_moves:
  assumes "promoteStagedGlobalPortOwningReference ow public nextP staged nowV db = Inr (d, db')" "tables_inv db"
  shows "moves db db'"
  using assms(1)
proof (cases rule: promote_parts)
  case (1 now vV rd db1 db2 i v nxt)
  note m = beginRelease_moves [OF 1(1) assms(2)]
  have m2: "moves db1 db2" using 1(2) confirm_moves [OF _ moves_tables [OF m]] moves_tables [OF m] by auto
  have "moves db2 db'" by (rule attach_and_unstage_moves [OF 1(3) moves_tables [OF m2]])
  with moves_trans [OF m m2] show ?thesis by (rule moves_trans)
qed

lemma promote_orphaned_moves:
  assumes "promoteOrphanedStagedGlobalPortOwningReference ow nxt staged nowV db = Inr (d, db')" "tables_inv db"
  shows "moves db db'"
proof -
  obtain i v now where "attach_and_unstage ow i v nxt staged now db = Inr (d, db')"
    using assms(1) by (auto simp: promoteOrphanedStagedGlobalPortOwningReference_def throw_simps validDate_def)
  then show ?thesis using assms(2) by (rule attach_and_unstage_moves)
qed

lemma recover_moves:
  assumes "recoverExpiredGlobalPortReservations nowV db = Inr (n, db')" "tables_inv db"
  shows "moves db db'"
proof -
  obtain now where now: "nowV = Some now"
    using assms(1) by (auto simp: recoverExpiredGlobalPortReservations_def throw_simps validDate_def)
  define g where "g = (\<lambda>a. if expired_reservation now db a
               then bump now (a\<lparr>a_status := Text PENDING_SCAN, a_ownerType := None, a_ownerTag := None,
                        a_tokenHash := None, a_reservedUntil := None,
                        a_scanNotBefore := Some (epochSeconds (now + RECLAIM_DELAY_MS))\<rparr>) else a)"
  have db': "db' = db\<lparr>allocations := map g (allocations db)\<rparr>"
    using assms(1) now by (simp add: recoverExpiredGlobalPortReservations_def validDate_def g_def)
  have g: "a_id (g a) = a_id a" "a_port (g a) = a_port a" for a by (simp_all add: g_def)
  have "tables_inv db'" unfolding db' by (rule tables_inv_map [OF assms(2) g])
  moreover have upd: "allocationById db' j = map_option g (allocationById db j)" for j
    using find_map_keep [where f = a_id and g = g] g(1) by (simp add: allocationById_def db')
  have refs: "refs_of db' j = refs_of db j" for j by (simp add: refs_of_def db')
  have "view db' j = view db j \<or> alloc_step (view db j) (view db' j)" for j
  proof (cases "allocationById db j")
    case (Some a)
    show ?thesis
    proof (cases "expired_reservation now db a")
      case True
      have "a_id a = j" using Some assms(2) by (simp add: allocationById_iff)
      then have "refs_of db j = []" "a_status a = Text RESERVED"
        "\<exists>u. a_reservedUntil a = Some u \<and> u \<le> epochSeconds now"
        using True by (auto simp: expired_reservation_def refs_of_def filter_empty_conv list_ex_iff split: option.splits)
      then show ?thesis
        using Some True by (auto simp: view_def upd refs g_def intro!: alloc_step.recover [where now = now])
    next
      case False
      then show ?thesis using Some by (simp add: view_def upd refs g_def)
    qed
  qed (simp add: view_def upd)
  ultimately show ?thesis by (auto simp: moves_def ledger_step_def)
qed

lemma acquire_moves:
  assumes "acquireGlobalPortOwningReference sha256 token pv ow ref now1 now2 db = (res, db')" "tables_inv db"
  shows "moves db db'"
proof -
  have act: "moves db db2" if "reserveGlobalPortAllocation sha256 token p ow now1 None db = Inr (r, db1)"
    "activateReservedGlobalPortAllocation sha256 i v ow tok [ref] now2 db1 = Inr (d, db2)" for p r db1 i v tok d db2
  proof -
    have m: "moves db db1" by (rule reserve_moves [OF that(1) assms(2)])
    show ?thesis by (rule moves_trans [OF m activate_moves [OF that(2) moves_tables [OF m]]])
  qed
  show ?thesis
    using assms act reserve_moves [OF _ assms(2)] addActive_moves [OF _ assms(2)]
    by (auto simp: acquireGlobalPortOwningReference_def split: sum.splits option.splits prod.splits if_splits)
qed

section \<open>Committed transactions\<close>

text \<open>One committed call of the service, with any arguments.\<close>

inductive ledger_txn :: "(string \<Rightarrow> string) \<Rightarrow> ledger \<Rightarrow> ledger \<Rightarrow> bool" for sha256 where
  "reserveGlobalPortAllocation sha256 token pv ow nowV ttlV db = Inr (r, db') \<Longrightarrow> ledger_txn sha256 db db'"
| "activateReservedGlobalPortAllocation sha256 iV vV ow token refs nowV db = Inr (d, db') \<Longrightarrow> ledger_txn sha256 db db'"
| "addActiveGlobalPortOwningReference iV vV ow ref nowV db = Inr (d, db') \<Longrightarrow> ledger_txn sha256 db db'"
| "acquireGlobalPortOwningReference sha256 token pv ow ref now1 now2 db = (res, db') \<Longrightarrow> ledger_txn sha256 db db'"
| "attachGlobalPortTargetAlias iV vV src al ref nowV db = Inr (d, db') \<Longrightarrow> ledger_txn sha256 db db'"
| "beginGlobalPortReferenceRelease ref vV nowV db = Inr (rel, db') \<Longrightarrow> ledger_txn sha256 db db'"
| "confirmGlobalPortReferenceReleased ref vV nowV db = Inr (d, db') \<Longrightarrow> ledger_txn sha256 db db'"
| "releaseGlobalPortReferenceAfterRuntimeCleanup ref nowV db = Inr (rel, db') \<Longrightarrow> ledger_txn sha256 db db'"
| "promoteStagedGlobalPortOwningReference ow pub nxtP staged nowV db = Inr (d, db') \<Longrightarrow> ledger_txn sha256 db db'"
| "promoteOrphanedStagedGlobalPortOwningReference ow nxt staged nowV db = Inr (d, db') \<Longrightarrow> ledger_txn sha256 db db'"
| "recoverExpiredGlobalPortReservations nowV db = Inr (n, db') \<Longrightarrow> ledger_txn sha256 db db'"

lemma ledger_txn_moves: "ledger_txn sha256 db db' \<Longrightarrow> tables_inv db \<Longrightarrow> moves db db'"
  by (erule ledger_txn.cases)
    (auto intro: reserve_moves activate_moves addActive_moves acquire_moves attachAlias_moves beginRelease_moves
      confirm_moves release_after_cleanup_moves promote_moves promote_orphaned_moves recover_moves)

lemma ledger_runs_moves:
  assumes "(ledger_txn sha256)\<^sup>*\<^sup>* db db'" "tables_inv db"
  shows "moves db db'"
  using assms(1)
proof (induction rule: rtranclp_induct)
  case base
  then show ?case using assms(2) by simp
next
  case (step db1 db2)
  show ?case
    by (rule moves_trans [OF step.IH ledger_txn_moves [OF step.hyps(2) moves_tables [OF step.IH]]])
qed

definition ledger_inv :: "ledger \<Rightarrow> bool" where
  "ledger_inv db \<longleftrightarrow> tables_inv db \<and> list_all (\<lambda>a. view_inv (Some (a, refs_of db (a_id a)))) (allocations db)"

lemma ledger_inv_view: "ledger_inv db \<longleftrightarrow> tables_inv db \<and> (\<forall>i. view_inv (view db i))"
proof (cases "tables_inv db")
  case True
  have N: "view_inv None" by (simp add: view_inv_def)
  have "view_inv (view db i) \<longleftrightarrow> (\<forall>a. allocationById db i = Some a \<longrightarrow> view_inv (Some (a, refs_of db i)))" for i
    using N by (cases "allocationById db i") (simp_all add: view_def)
  then show ?thesis using True by (auto simp: ledger_inv_def allocationById_iff list_all_iff)
qed (simp add: ledger_inv_def)

lemma ledger_steps_inv:
  "ledger_step\<^sup>*\<^sup>* db db' \<Longrightarrow> \<forall>i. view_inv (view db i) \<Longrightarrow> \<forall>i. view_inv (view db' i)"
proof (induction rule: rtranclp_induct)
  case (step y z)
  then show ?case unfolding ledger_step_def by (metis alloc_step_inv)
qed simp

lemma ledger_runs_inv:
  assumes "(ledger_txn sha256)\<^sup>*\<^sup>* db db'" "ledger_inv db"
  shows "ledger_inv db'"
  using ledger_runs_moves [OF assms(1)] assms(2) ledger_steps_inv
  by (auto simp: ledger_inv_view moves_def)

definition view_le :: "allocation_view \<Rightarrow> allocation_view \<Rightarrow> bool" where
  "view_le x y \<longleftrightarrow> (case x of None \<Rightarrow> True
     | Some (a, rs) \<Rightarrow> (case y of None \<Rightarrow> False
        | Some (a', rs') \<Rightarrow> a_id a' = a_id a \<and> a_port a' = a_port a
            \<and> (a_version a < a_version a' \<or> (a', rs') = (a, rs))))"

lemma view_le_refl [simp]: "view_le x x"
  by (auto simp: view_le_def split: option.splits)

lemma view_le_trans: "view_le x y \<Longrightarrow> view_le y z \<Longrightarrow> view_le x z"
proof (cases x)
  case (Some p)
  assume xy: "view_le x y" and yz: "view_le y z"
  obtain a rs where x: "x = Some (a, rs)" using Some by (cases p) simp
  obtain b bs where y: "y = Some (b, bs)" using xy x by (cases y) (auto simp: view_le_def)
  obtain c cs where z: "z = Some (c, cs)" using yz y by (cases z) (auto simp: view_le_def)
  show ?thesis using xy yz unfolding x y z by (auto simp: view_le_def)
qed (simp add: view_le_def)

lemma alloc_step_le: "alloc_step x y \<Longrightarrow> view_le x y"
proof (cases x)
  case (Some p)
  assume "alloc_step x y"
  then obtain a' rs' where "y = Some (a', rs')" "a_id a' = a_id (fst p)" "a_port a' = a_port (fst p)"
    "a_version a' = a_version (fst p) + 1"
    using alloc_step_version [of "fst p" "snd p" y] Some by auto
  then show ?thesis using Some by (simp add: view_le_def split: prod.splits)
qed (simp add: view_le_def)

lemma ledger_steps_le: "ledger_step\<^sup>*\<^sup>* db db' \<Longrightarrow> view_le (view db i) (view db' i)"
proof (induction rule: rtranclp_induct)
  case (step y z)
  have "view z i = view y i \<or> alloc_step (view y i) (view z i)"
    using step.hyps(2) by (simp add: ledger_step_def)
  then have "view_le (view y i) (view z i)"
    using alloc_step_le [of "view y i" "view z i"] by auto
  with step.IH show ?case by (rule view_le_trans)
qed simp

lemma find_none_snoc: "find P xs = None \<Longrightarrow> find P (xs @ ys) = find P ys"
  by (induction xs) (auto split: if_splits)

lemma update_and_read_ok:
  assumes "tables_inv db" "allocationById db i = Some a" "a_version a = v" "a_status a = Text st"
    "allocationDto (f a) = Inr d" "a_id (f a) = i"
  shows "update_and_read i v st f db = Inr (d, db\<lparr>allocations := map (\<lambda>r. if a_id r = i then f r else r) (allocations db)\<rparr>)"
proof -
  have a: "a \<in> set (allocations db)" "a_id a = i" using assms(1,2) by (auto simp: allocationById_iff)
  have uniq: "r = a" if "r \<in> set (allocations db)" "a_id r = i" for r
    using assms(1) a that by (auto simp: tables_inv_def distinct_map dest: inj_onD)
  have hit: "cas_hit i v [st] r \<longleftrightarrow> a_id r = i" if "r \<in> set (allocations db)" for r
    using uniq [OF that] a assms(3,4) by (auto simp: cas_hit_def)
  have one: "filter (cas_hit i v [st]) (allocations db) = [a]"
  proof (rule singleton_by_key [of a_id])
    show "distinct (map a_id (filter (cas_hit i v [st]) (allocations db)))"
      using assms(1) by (simp add: tables_inv_def distinct_map_filter)
  qed (use a hit in \<open>auto\<close>)
  have m: "map (\<lambda>r. if cas_hit i v [st] r then f r else r) (allocations db)
         = map (\<lambda>r. if a_id r = i then f r else r) (allocations db)"
    using hit by simp
  have "find (\<lambda>r. a_id r = i) (map (\<lambda>r. if a_id r = i then f r else r) xs) = map_option f (find (\<lambda>r. a_id r = i) xs)"
    if "set xs \<subseteq> set (allocations db)" for xs
    using that assms(6) uniq by (induction xs) auto
  from this [of "allocations db"] assms(2)
  have "find (\<lambda>r. a_id r = i) (map (\<lambda>r. if a_id r = i then f r else r) (allocations db)) = Some (f a)"
    by (simp add: allocationById_def)
  then show ?thesis
    using assms(5) by (simp add: update_and_read_def cas_update_def one m allocationById_def)
qed

lemma length_show_nat: "n < 10 ^ Suc k \<Longrightarrow> length (show_nat n) \<le> Suc k"
proof (induction k arbitrary: n)
  case 0
  then show ?case by (subst show_nat.simps) simp
next
  case (Suc k)
  then have "n div 10 < 10 ^ Suc k" by simp
  from Suc.IH [OF this] show ?case by (subst show_nat.simps) simp
qed

lemma ownerTag_length: "ownerTag ow = Inr tag \<Longrightarrow> length tag \<le> 128"
proof -
  have s: "length (show_int n) \<le> 17" if "0 < n" "n \<le> MAX_SAFE_INTEGER" for n
    using that length_show_nat [of "nat n" 16] by (simp add: show_int_def MAX_SAFE_INTEGER_def)
  assume "ownerTag ow = Inr tag"
  then show ?thesis
    by (cases ow) (auto simp: throw_simps ledger_simps owner_tag_text_def split: if_splits dest!: s)
qed

lemma dto_reserved_ok:
  assumes "ownerTag ow = Inr tag" "is_hex64 h" "0 < a_id a" "a_id a \<le> MAX_SAFE_INTEGER"
    "1 \<le> a_port a" "a_port a \<le> 65535" "0 < a_version a" "a_version a < MAX_SAFE_INTEGER"
    "a_status a = Text RESERVED" "a_ownerType a = Some (Text (owner_type ow))" "a_ownerTag a = Some tag"
    "a_tokenHash a = Some h" "a_reservedUntil a = Some u"
  shows "\<exists>d. allocationDto a = Inr d \<and> dto_allocationId d = a_id a \<and> dto_port d = a_port a \<and> dto_status d = RESERVED
     \<and> dto_version d = a_version a"
proof -
  have "posId (a_id a) = Inr (a_id a)" "storedListenerPort (JNum (inum (a_port a))) = Inr (a_port a)"
    "version_number (JNum (inum (a_version a))) = Inr (a_version a)"
    using assms by (simp_all add: ledger_simps)
  then show ?thesis
    using assms ownerTag_length [OF assms(1)]
    by (simp add: allocationDto_def allocationStatus_def ownerType_def dateFromDatabase_def Let_def)
qed

lemma dto_active_ok:
  assumes "ownerTag ow = Inr tag" "0 < a_id a" "a_id a \<le> MAX_SAFE_INTEGER"
    "1 \<le> a_port a" "a_port a \<le> 65535" "0 < a_version a" "a_version a < MAX_SAFE_INTEGER"
    "a_status a = Text ACTIVE" "a_ownerType a = Some (Text (owner_type ow))" "a_ownerTag a = Some tag"
    "a_tokenHash a = None"
  shows "allocationDto a = Inr \<lparr>dto_allocationId = a_id a, dto_port = a_port a, dto_status = ACTIVE, dto_version = a_version a,
     dto_ownerType = Some (owner_type ow), dto_ownerTag = Some tag, dto_reservedUntil = dateFromDatabase (a_reservedUntil a)\<rparr>"
proof -
  have "posId (a_id a) = Inr (a_id a)" "storedListenerPort (JNum (inum (a_port a))) = Inr (a_port a)"
    "version_number (JNum (inum (a_version a))) = Inr (a_version a)"
    using assms by (simp_all add: ledger_simps)
  then show ?thesis
    using assms ownerTag_length [OF assms(1)]
    by (simp add: allocationDto_def allocationStatus_def ownerType_def Let_def)
qed

lemma reserve_ok:
  assumes "tables_inv db" "newListenerPort pv = Inr port" "ttl_ok ttlV = Inr ttl" "ownerTag ow = Inr tag"
    "is_token_text token" "\<forall>s. is_hex64 (sha256 s)"
    "case allocationByPort db port of
       None \<Rightarrow> 0 < next_allocation db \<and> next_allocation db \<le> MAX_SAFE_INTEGER
     | Some a \<Rightarrow> a_status a = Text FREE \<and> a_version a + 1 < MAX_SAFE_INTEGER \<and> (\<exists>d. allocationDto a = Inr d)"
  shows "\<exists>d db1. reserveGlobalPortAllocation sha256 token pv ow (Some now) ttlV db = Inr ((d, token), db1)"
proof -
  define h where "h = sha256 (''forwardx-global-port-reservation:v1'' @ [CHR 0x0A] @ token)"
  have th: "tokenHash sha256 token = Inr h" "is_hex64 h"
    using assms(5,6) by (simp_all add: tokenHash_def h_def)
  have port: "1 \<le> port" "port \<le> 65535"
    using assms(2) by (auto simp: newListenerPort_def storedListenerPort_def throw_simps)
  note def = reserveGlobalPortAllocation_def assms(2-4) th(1) validDate_def
  show ?thesis
  proof (cases "allocationByPort db port")
    case None
    define a where "a = reserved_row ow tag h (now + ttl) (fresh_row db port now)"
    obtain d where d: "allocationDto a = Inr d"
      using dto_reserved_ok [OF assms(4) th(2), of a "epochSeconds (now + ttl)"] assms(7) None port
      by (auto simp: a_def MAX_SAFE_INTEGER_def)
    have "find (\<lambda>r. a_id r = next_allocation db) (allocations db @ [a]) = Some a"
      using fresh_id_unused(1) [OF assms(1)] by (simp add: find_none_snoc allocationById_def a_def)
    moreover have "a_id a = next_allocation db" by (simp add: a_def)
    ultimately show ?thesis
      by (simp add: def None Let_def allocationById_def d flip: a_def)
  next
    case (Some a)
    obtain d0 where a: "a_status a = Text FREE" "a_version a + 1 < MAX_SAFE_INTEGER" "allocationDto a = Inr d0"
      using assms(7) Some by auto
    note f = allocationDto_fields [OF a(3)]
    define a' where "a' = bump now (reserved_row ow tag h (now + ttl) a)"
    obtain d where d: "allocationDto a' = Inr d"
      using dto_reserved_ok [OF assms(4) th(2), of a' "epochSeconds (now + ttl)"] a(2) f by (auto simp: a'_def)
    have byId: "allocationById db (a_id a) = Some a"
      using Some assms(1) by (simp add: allocationByPort_iff allocationById_iff)
    have st: "dto_status d0 = FREE" using a(1) f(3) by simp
    note u = update_and_read_ok [OF assms(1) byId refl a(1), where f = "\<lambda>r. bump now (reserved_row ow tag h (now + ttl) r)"]
    show ?thesis
      using u d by (simp add: def Some a(3) st f(1,4) Let_def a'_def)
  qed
qed

lemma reserve_result:
  assumes "reserveGlobalPortAllocation sha256 token pv ow (Some now) ttlV db = Inr ((d, tok), db1)" "tables_inv db"
  obtains port ttl tag h a where "newListenerPort pv = Inr port" "ttl_ok ttlV = Inr ttl" "ownerTag ow = Inr tag"
    "tokenHash sha256 token = Inr h" "tok = token" "tables_inv db1" "references db1 = references db"
    "allocationById db1 (dto_allocationId d) = Some (reserved_row ow tag h (now + ttl) a)"
    "a_port a = port" "allocationDto (reserved_row ow tag h (now + ttl) a) = Inr d"
    "dto_version d = (case allocationByPort db port of None \<Rightarrow> 1 | Some a0 \<Rightarrow> a_version a0 + 1)"
proof -
  have t: "tables_inv db1" by (rule moves_tables [OF reserve_moves [OF assms]])
  from assms(1) show ?thesis
  proof (cases rule: reserve_cases)
    case (new port now' ttl tag h)
    define a where "a = reserved_row ow tag h (now + ttl) (fresh_row db port now)"
    have "find (\<lambda>r. a_id r = next_allocation db) (allocations db @ [a]) = Some a"
      using fresh_id_unused(1) [OF assms(2)] by (simp add: find_none_snoc allocationById_def a_def)
    then have "allocationById db1 (next_allocation db) = Some a" "allocationDto a = Inr d" "tok = token"
      using assms(1) new
      by (auto simp: reserveGlobalPortAllocation_def validDate_def Let_def allocationById_def throw_simps a_def)
    moreover have "a_id a = next_allocation db" by (simp add: a_def)
    ultimately show ?thesis
      using that [OF new(1,3-5), of "fresh_row db port now"] new t allocationDto_fields(1,4) [of a d]
      by (simp add: a_def)
  next
    case (reuse port now' ttl tag h a)
    define b where "b = (\<lambda>x. x\<lparr>a_version := a_version x + 1, a_updatedAt := epochSeconds now\<rparr> :: AllocationRow)"
    have comm: "bump now (reserved_row ow tag h (now + ttl) x) = reserved_row ow tag h (now + ttl) (b x)" for x
      by (simp add: bump_def reserved_row_def b_def)
    have now: "now' = now" using reuse by simp
    have port: "a_port a = port" "allocationById db (a_id a) = Some a"
      using reuse(6) assms(2) by (auto simp: allocationByPort_iff allocationById_iff)
    show ?thesis
    proof (rule update_and_readD [OF reuse(9) assms(2)])
      fix c
      assume c: "allocationById db (a_id a) = Some c" "tables_inv db1"
        "allocationById db1 (a_id a) = Some (bump now' (reserved_row ow tag h (now' + ttl) c))"
        "allocationDto (bump now' (reserved_row ow tag h (now' + ttl) c)) = Inr (fst (d, tok))" "references db1 = references db"
      have "c = a" using c(1) port by simp
      then show ?thesis
        using that [OF reuse(1,3-5), of "b a"] reuse(6,8) c port allocationDto_fields(1,4) [OF c(4)]
        by (simp add: now comm) (simp add: b_def)
    qed simp_all
  qed
qed

lemma insertReference_ok:
  assumes "referenceKey ref = Inr k" "referenceByKey db k = None"
  obtains db2 r where "insertReference i tag ref db = Inr (True, db2)" "allocations db2 = allocations db"
    "references db2 = references db @ [r]" "r_key r = k" "r_allocationId r = i" "r_ownerGroupTag r = tag"
    "r_isOwning r = in_isOwning ref"
proof -
  have "posId (in_resourceId ref) = Inr (in_resourceId ref)"
    "(case in_hostId ref of None \<Rightarrow> Inr None | Some h \<Rightarrow> ebind (posId h) (\<lambda>h. Inr (Some h))) = Inr (in_hostId ref)"
    using assms(1) by (auto simp: referenceKey_def throw_simps ledger_simps split: option.splits)
  then have "insertReference i tag ref db = Inr (True, db\<lparr>references := references db @
      [\<lparr>r_id = next_reference db, r_key = k, r_allocationId = i, r_resourceType = in_resourceType ref,
        r_resourceId = in_resourceId ref, r_ownerGroupTag = tag, r_hostId = in_hostId ref,
        r_network = in_network ref, r_role = in_role ref, r_isOwning = in_isOwning ref\<rparr>],
      next_reference := next_reference db + 1\<rparr>)"
    by (simp add: insertReference_def assms)
  then show ?thesis by (rule that) (simp_all, simp_all)
qed

lemma reservation_expiry:
  assumes "0 \<le> now + ttl" "now + ttl < 10 ^ 13"
  shows "dateFromDatabase (Some (epochSeconds (now + ttl))) = Some (1000 * ((now + ttl) div 1000))"
  using assms by (simp add: dateFromDatabase_def epochSeconds_def)

lemma activate_reserved:
  fixes now2 :: int
  assumes t: "tables_inv db"
    and row: "allocationById db (a_id row) = Some row" "a_status row = Text RESERVED" "owned_by row (owner_type ow) tag"
      "allocationDto row = Inr d" "a_tokenHash row = Some h" "a_version row + 1 < MAX_SAFE_INTEGER"
      "dateFromDatabase (a_reservedUntil row) = Some u"
    and ow: "ownerTag ow = Inr tag" and h: "is_hex64 h" and tok: "tokenHash sha256 token = Inr h'"
    and ref: "referenceKey ref = Inr k" "referenceByKey db k = None" "in_isOwning ref"
  defines "act \<equiv> activateReservedGlobalPortAllocation sha256 (JNum (inum (a_id row))) (JNum (inum (a_version row))) ow token [ref]
             (Some now2) db"
  shows "u \<le> now2 \<Longrightarrow> act = Inl GLOBAL_PORT_RESERVATION_EXPIRED"
    and "now2 < u \<Longrightarrow> h' \<noteq> h \<Longrightarrow> act = Inl GLOBAL_PORT_RESERVATION_INVALID"
    and "now2 < u \<Longrightarrow> h' = h \<Longrightarrow> \<exists>db2 r. act = Inr (\<lparr>dto_allocationId = a_id row, dto_port = a_port row, dto_status = ACTIVE,
            dto_version = a_version row + 1, dto_ownerType = Some (owner_type ow), dto_ownerTag = Some tag,
            dto_reservedUntil = None\<rparr>, db2)
          \<and> references db2 = references db @ [r] \<and> r_key r = k \<and> r_allocationId r = a_id row \<and> r_ownerGroupTag r = tag
          \<and> allocations db2 = map (\<lambda>x. if a_id x = a_id row
               then bump now2 (x\<lparr>a_status := Text ACTIVE, a_tokenHash := None, a_reservedUntil := None\<rparr>) else x) (allocations db)"
proof -
  note f = allocationDto_fields [OF row(4)]
  have pre: "posId (a_id row) = Inr (a_id row)" "version_number (JNum (inum (a_version row))) = Inr (a_version row)"
    using f by (simp_all add: ledger_simps)
  have er: "expect_row db (a_id row) (a_version row) RESERVED (\<lambda>row. owned_by row (owner_type ow) tag) = Inr row"
    using row f by (simp add: expect_row_Inr)
  note def = act_def activateReservedGlobalPortAllocation_def pre validDate_def ow tok er ref(3) row(7)
  show "act = Inl GLOBAL_PORT_RESERVATION_EXPIRED" if "u \<le> now2"
    using that by (simp add: def guardE_def)
  show "act = Inl GLOBAL_PORT_RESERVATION_INVALID" if "now2 < u" "h' \<noteq> h"
    using that by (simp add: def secureHashEqual_def row(5))
  assume ok: "now2 < u" "h' = h"
  obtain db2 r where ins: "insertReference (a_id row) tag ref db = Inr (True, db2)" "allocations db2 = allocations db"
    "references db2 = references db @ [r]" "r_key r = k" "r_allocationId r = a_id row" "r_ownerGroupTag r = tag"
    by (rule insertReference_ok [OF ref(1,2)])
  have t2: "tables_inv db2"
    by (rule insertReferenceD [OF ins(1) t allocationById_mem [OF row(1)]]) simp_all
  have by2: "allocationById db2 (a_id row) = Some row"
    using row(1) allocationById_cong [OF ins(2)] by simp
  define a' where "a' = bump now2 (row\<lparr>a_status := Text ACTIVE, a_tokenHash := None, a_reservedUntil := None\<rparr>)"
  have dto: "allocationDto a' = Inr \<lparr>dto_allocationId = a_id row, dto_port = a_port row, dto_status = ACTIVE,
            dto_version = a_version row + 1, dto_ownerType = Some (owner_type ow), dto_ownerTag = Some tag,
            dto_reservedUntil = None\<rparr>"
    using dto_active_ok [OF ow, of a'] f row(3,6) by (simp add: a'_def owned_by_def dateFromDatabase_def)
  show "\<exists>db2 r. act = Inr (\<lparr>dto_allocationId = a_id row, dto_port = a_port row, dto_status = ACTIVE,
            dto_version = a_version row + 1, dto_ownerType = Some (owner_type ow), dto_ownerTag = Some tag,
            dto_reservedUntil = None\<rparr>, db2)
          \<and> references db2 = references db @ [r] \<and> r_key r = k \<and> r_allocationId r = a_id row \<and> r_ownerGroupTag r = tag
          \<and> allocations db2 = map (\<lambda>x. if a_id x = a_id row
               then bump now2 (x\<lparr>a_status := Text ACTIVE, a_tokenHash := None, a_reservedUntil := None\<rparr>) else x) (allocations db)"
    using update_and_read_ok [OF t2 by2 refl row(2), of
        "\<lambda>x. bump now2 (x\<lparr>a_status := Text ACTIVE, a_tokenHash := None, a_reservedUntil := None\<rparr>)"] dto ok ins
    by (auto simp: def secureHashEqual_def row(5) h a'_def)
qed

end
