(* ===== verification/LedgerProperties.thy ===== *)
theory LedgerProperties
  imports LedgerRefinement
begin

text \<open>
  What the port ledger promises: refinement of the allocation state machine, the safety invariant over
  any run of operations, the meaning of the version column, the life of a reservation, acquisition and
  release of a port, and the identity of reference keys.
\<close>

section \<open>Properties\<close>

text \<open>C3: Every committed operation of the ledger keeps the table constraints and moves each allocation, with
  the references that point to it, only along the abstract state machine \<open>alloc_step\<close>.\<close>

theorem ledger_refines_machine:
  assumes "ledger_txn sha256 db db'" "tables_inv db"
  shows "tables_inv db' \<and> ledger_step\<^sup>*\<^sup>* db db'"
  using ledger_txn_moves [OF assms] by (simp add: moves_def)

text \<open>C2: Whatever operations run, a port that is free, reserved, waiting for its scan or externally occupied has no
  reference left, no port has two allocations, every reference belongs to an allocation, and all owning references
  of an active port carry its one owner tag.\<close>

theorem ports_never_reused_while_referenced:
  assumes "(ledger_txn sha256)\<^sup>*\<^sup>* db db'" "ledger_inv db" "a \<in> set (allocations db')"
  shows "(a_status a \<in> Text ` {FREE, RESERVED, PENDING_SCAN, EXTERNAL_OCCUPIED} \<longrightarrow> refs_of db' (a_id a) = [])
    \<and> (\<forall>b\<in>set (allocations db'). a_port b = a_port a \<longrightarrow> b = a)
    \<and> (\<forall>r\<in>set (references db'). \<exists>b\<in>set (allocations db'). a_id b = r_allocationId r)
    \<and> (a_status a = Text ACTIVE \<longrightarrow>
         (\<exists>r\<in>set (refs_of db' (a_id a)). r_isOwning r)
         \<and> (\<forall>r\<in>set (refs_of db' (a_id a)). r_isOwning r \<longrightarrow> a_ownerTag a = Some (r_ownerGroupTag r)))"
proof -
  have inv: "ledger_inv db'" by (rule ledger_runs_inv [OF assms(1,2)])
  then have t: "tables_inv db'" and v: "view_inv (Some (a, refs_of db' (a_id a)))"
    using assms(3) by (auto simp: ledger_inv_def list_all_iff)
  have 1: "a_status a \<in> Text ` {FREE, RESERVED, PENDING_SCAN, EXTERNAL_OCCUPIED} \<longrightarrow> refs_of db' (a_id a) = []"
    using v by (auto simp: view_inv_def)
  have 2: "\<forall>b\<in>set (allocations db'). a_port b = a_port a \<longrightarrow> b = a"
    using t assms(3) by (auto simp: tables_inv_def distinct_map dest: inj_onD)
  have 3: "\<forall>r\<in>set (references db'). \<exists>b\<in>set (allocations db'). a_id b = r_allocationId r"
  proof
    fix r
    assume "r \<in> set (references db')"
    then have "r_allocationId r \<in> a_id ` set (allocations db')"
      using t by (simp add: tables_inv_def list_all_iff)
    then show "\<exists>b\<in>set (allocations db'). a_id b = r_allocationId r" by auto
  qed
  have 4: "a_status a = Text ACTIVE \<longrightarrow>
         (\<exists>r\<in>set (refs_of db' (a_id a)). r_isOwning r)
         \<and> (\<forall>r\<in>set (refs_of db' (a_id a)). r_isOwning r \<longrightarrow> a_ownerTag a = Some (r_ownerGroupTag r))"
  proof
    assume "a_status a = Text ACTIVE"
    then have "list_ex (owns_primary a) (refs_of db' (a_id a))"
      "list_all (\<lambda>r. r_isOwning r \<longrightarrow> owns_primary a r) (refs_of db' (a_id a))"
      using v by (simp_all add: view_inv_def)
    then show "(\<exists>r\<in>set (refs_of db' (a_id a)). r_isOwning r)
         \<and> (\<forall>r\<in>set (refs_of db' (a_id a)). r_isOwning r \<longrightarrow> a_ownerTag a = Some (r_ownerGroupTag r))"
      unfolding list_all_iff list_ex_iff owns_primary_def by blast
  qed
  from 1 2 3 4 show ?thesis by (intro conjI)
qed

text \<open>An allocation is never deleted nor moved to another port, its version never decreases, and as long as the
  version is the same neither the row nor its references have changed: a caller that holds the current version has
  seen the current state.\<close>

theorem version_guards_every_change:
  assumes "(ledger_txn sha256)\<^sup>*\<^sup>* db db'" "tables_inv db" "allocationById db i = Some a"
  shows "\<exists>a'. allocationById db' i = Some a' \<and> a_port a' = a_port a \<and> a_version a \<le> a_version a'
    \<and> (a_version a' = a_version a \<longrightarrow> a' = a \<and> refs_of db' i = refs_of db i)"
proof -
  have "view_le (view db i) (view db' i)"
    by (rule ledger_steps_le) (use ledger_runs_moves [OF assms(1,2)] in \<open>simp add: moves_def\<close>)
  then show ?thesis
    using assms(3) by (cases "allocationById db' i") (auto simp: view_le_def view_def)
qed

text \<open>C31: A reservation can be turned into an active allocation with its own token until the second its time to live
  ends in; from then on it is expired, and with another token it is refused.\<close>

theorem activation_window:
  assumes res: "reserveGlobalPortAllocation sha256 token pv ow (Some now) ttlV db = Inr ((d, tok), db1)"
    and t: "tables_inv db" and sha: "\<And>s. is_hex64 (sha256 s)" and ttl: "ttl_ok ttlV = Inr ttl"
    and range: "0 \<le> now" "now + ttl < 10 ^ 13" "dto_version d + 1 < MAX_SAFE_INTEGER"
    and ref: "referenceKey ref = Inr k" "referenceByKey db k = None" "in_isOwning ref"
    and other: "tokenHash sha256 token' = Inr h'" "tokenHash sha256 token \<noteq> Inr h'"
  defines "act \<equiv> \<lambda>tk now2. activateReservedGlobalPortAllocation sha256 (JNum (inum (dto_allocationId d)))
                   (JNum (inum (dto_version d))) ow tk [ref] (Some now2) db1"
  shows "(\<forall>now2 < 1000 * ((now + ttl) div 1000). \<exists>d2 db2. act tok now2 = Inr (d2, db2)
              \<and> dto_status d2 = ACTIVE \<and> dto_port d2 = dto_port d \<and> referenceByKey db2 k \<noteq> None)
    \<and> (\<forall>now2 \<ge> 1000 * ((now + ttl) div 1000). act tok now2 = Inl GLOBAL_PORT_RESERVATION_EXPIRED)
    \<and> (\<forall>now2 < 1000 * ((now + ttl) div 1000). act token' now2 = Inl GLOBAL_PORT_RESERVATION_INVALID)
    \<and> now < 1000 * ((now + ttl) div 1000)"
proof (rule reserve_result [OF res t])
  fix port ttl' tag h a
  assume r: "ttl_ok ttlV = Inr ttl'" "ownerTag ow = Inr tag" "tokenHash sha256 token = Inr h" "tok = token" "tables_inv db1"
    "references db1 = references db" "allocationById db1 (dto_allocationId d) = Some (reserved_row ow tag h (now + ttl') a)"
    "allocationDto (reserved_row ow tag h (now + ttl') a) = Inr d"
  define row where "row = reserved_row ow tag h (now + ttl) a"
  have ttl': "ttl' = ttl" using r(1) ttl by simp
  have ttl1: "1000 \<le> ttl" using ttl by (auto simp: ttl_ok_def throw_simps)
  note f = allocationDto_fields [OF r(8)]
  have h: "is_hex64 h" using r(3) sha by (auto simp: tokenHash_def split: if_splits)
  have nk: "referenceByKey db1 k = None" using ref(2) r(6) by (simp add: referenceByKey_def)
  have row: "allocationById db1 (a_id row) = Some row" "a_status row = Text RESERVED" "owned_by row (owner_type ow) tag"
    "allocationDto row = Inr d" "a_tokenHash row = Some h" "a_version row + 1 < MAX_SAFE_INTEGER"
    "dateFromDatabase (a_reservedUntil row) = Some (1000 * ((now + ttl) div 1000))"
    using r f range reservation_expiry [of now ttl] ttl1 by (simp_all add: row_def ttl' owned_by_def)
  note A = activate_reserved [OF r(5) row r(2) h _ ref(1) nk ref(3)]
  have ids: "dto_allocationId d = a_id row" "dto_version d = a_version row" "dto_port d = a_port row"
    using f by (simp_all add: row_def ttl')
  have 1: "\<exists>d2 db2. act tok now2 = Inr (d2, db2) \<and> dto_status d2 = ACTIVE \<and> dto_port d2 = dto_port d \<and> referenceByKey db2 k \<noteq> None"
    if lt: "now2 < 1000 * ((now + ttl) div 1000)" for now2
  proof -
    obtain db2 x where x: "act tok now2 = Inr (\<lparr>dto_allocationId = a_id row, dto_port = a_port row, dto_status = ACTIVE,
            dto_version = a_version row + 1, dto_ownerType = Some (owner_type ow), dto_ownerTag = Some tag,
            dto_reservedUntil = None\<rparr>, db2)" "references db2 = references db1 @ [x]" "r_key x = k"
      using A(3) [OF r(3) lt refl] unfolding act_def ids r(4) by blast
    have "referenceByKey db2 k = Some x"
      using nk x(2,3) by (simp add: referenceByKey_def find_none_snoc)
    with x(1) show ?thesis by (simp add: ids)
  qed
  have 2: "act tok now2 = Inl GLOBAL_PORT_RESERVATION_EXPIRED" if "1000 * ((now + ttl) div 1000) \<le> now2" for now2
    using A(1) [OF r(3) that] by (simp add: act_def ids r(4))
  have 3: "act token' now2 = Inl GLOBAL_PORT_RESERVATION_INVALID" if "now2 < 1000 * ((now + ttl) div 1000)" for now2
    using A(2) [OF other(1) that] other(2) r(3) by (simp add: act_def ids)
  have 4: "now < 1000 * ((now + ttl) div 1000)" using ttl1 by linarith
  show ?thesis using 1 2 3 4 by blast
qed

lemma update_and_read_result:
  "update_and_read i v st f db = Inr (d, db') \<Longrightarrow> \<exists>a'. allocationById db' i = Some a' \<and> allocationDto a' = Inr d"
  by (auto simp: update_and_read_def throw_simps split: option.splits)

lemma activate_result:
  assumes "activateReservedGlobalPortAllocation sha256 (JNum (inum i)) vV ow token refs nowV db = Inr (d, db')"
  shows "\<exists>a'. allocationById db' i = Some a' \<and> allocationDto a' = Inr d"
  using assms update_and_read_result
  by (fastforce simp: activateReservedGlobalPortAllocation_def throw_simps ledger_simps)

lemma newListenerPort_Inr: "newListenerPort pv = Inr port \<Longrightarrow>
   1000 \<le> port \<and> port \<le> 65535 \<and> newListenerPort (JNum (inum port)) = Inr port \<and> storedListenerPort (JNum (inum port)) = Inr port"
  by (auto simp: newListenerPort_def storedListenerPort_def throw_simps as_safe_integer_def MAX_SAFE_INTEGER_def split: if_splits)

text \<open>A caller that asks for a listener port nobody holds gets it: the port becomes active under the caller's
  owner and reference, and asking again returns the same allocation and changes nothing.\<close>

theorem acquire_free_port:
  assumes t: "tables_inv db" and port: "newListenerPort pv = Inr port" and ow: "ownerTag ow = Inr tag"
    and tok: "is_token_text token" and sha: "\<And>s. is_hex64 (sha256 s)"
    and free: "case allocationByPort db port of
       None \<Rightarrow> 0 < next_allocation db \<and> next_allocation db \<le> MAX_SAFE_INTEGER
     | Some a \<Rightarrow> a_status a = Text FREE \<and> a_version a + 2 < MAX_SAFE_INTEGER \<and> (\<exists>d. allocationDto a = Inr d)"
    and ref: "referenceKey ref = Inr k" "referenceByKey db k = None" "in_isOwning ref"
    and range: "0 \<le> now" "now + 60000 < 10 ^ 13"
  shows "\<exists>d db'. acquireGlobalPortOwningReference sha256 token pv ow ref (Some now) (Some now) db = (Inr d, db')
    \<and> dto_status d = ACTIVE \<and> dto_port d = port \<and> dto_ownerTag d = Some tag
    \<and> (\<forall>token2 n1 n2. acquireGlobalPortOwningReference sha256 token2 pv ow ref n1 n2 db' = (Inr d, db'))"
proof -
  note P = newListenerPort_Inr [OF port]
  have ttl: "ttl_ok None = Inr 60000" by (simp add: ttl_ok_def as_safe_integer_def RESERVATION_TTL_MS_def MAX_SAFE_INTEGER_def)
  have "case allocationByPort db port of None \<Rightarrow> 0 < next_allocation db \<and> next_allocation db \<le> MAX_SAFE_INTEGER
     | Some a \<Rightarrow> a_status a = Text FREE \<and> a_version a + 1 < MAX_SAFE_INTEGER \<and> (\<exists>d. allocationDto a = Inr d)"
    using free by (auto split: option.splits)
  then obtain d db1 where res: "reserveGlobalPortAllocation sha256 token (JNum (inum port)) ow (Some now) None db = Inr ((d, token), db1)"
    using reserve_ok [OF t conjunct1 [OF conjunct2 [OF conjunct2 [OF P]]] ttl ow tok, of sha256 now] sha by blast
  obtain tg h a where r: "ownerTag ow = Inr tg" "tokenHash sha256 token = Inr h" "tables_inv db1" "references db1 = references db"
    "allocationById db1 (dto_allocationId d) = Some (reserved_row ow tg h (now + 60000) a)" "a_port a = port"
    "allocationDto (reserved_row ow tg h (now + 60000) a) = Inr d"
    "dto_version d = (case allocationByPort db port of None \<Rightarrow> 1 | Some a0 \<Rightarrow> a_version a0 + 1)"
    by (rule reserve_result [OF res t]) (use P ttl in auto)
  define row where "row = reserved_row ow tag h (now + 60000) a"
  have tg: "tg = tag" using r(1) ow by simp
  note f = allocationDto_fields [OF r(7)]
  have ver: "dto_version d + 1 < MAX_SAFE_INTEGER"
    using free r(8) by (auto simp: MAX_SAFE_INTEGER_def split: option.splits)
  have nk: "referenceByKey db1 k = None" using ref(2) r(4) by (simp add: referenceByKey_def)
  have h: "is_hex64 h" using r(2) sha by (auto simp: tokenHash_def split: if_splits)
  have row: "allocationById db1 (a_id row) = Some row" "a_status row = Text RESERVED" "owned_by row (owner_type ow) tag"
    "allocationDto row = Inr d" "a_tokenHash row = Some h" "a_version row + 1 < MAX_SAFE_INTEGER"
    "dateFromDatabase (a_reservedUntil row) = Some (1000 * ((now + 60000) div 1000))"
    using r f range ver reservation_expiry [of now 60000] by (simp_all add: row_def tg owned_by_def)
  have ids: "dto_allocationId d = a_id row" "dto_version d = a_version row" "a_port row = port"
    using f r(6) by (simp_all add: row_def tg)
  define d2 where "d2 = \<lparr>dto_allocationId = a_id row, dto_port = port, dto_status = ACTIVE,
            dto_version = a_version row + 1, dto_ownerType = Some (owner_type ow), dto_ownerTag = Some tag,
            dto_reservedUntil = None\<rparr>"
  have lt: "now < 1000 * ((now + 60000) div 1000)" by linarith
  obtain db2 x where act: "activateReservedGlobalPortAllocation sha256 (JNum (inum (a_id row))) (JNum (inum (a_version row))) ow token [ref]
             (Some now) db1 = Inr (d2, db2)" "references db2 = references db1 @ [x]" "r_key x = k" "r_allocationId x = a_id row"
    using activate_reserved(3) [OF r(3) row ow h r(2) ref(1) nk ref(3) lt refl] unfolding d2_def ids(3) by blast
  have fresh: "allocationForReference ref db = Inr None"
    using ref by (simp add: allocationForReference_def)
  have acq: "acquireGlobalPortOwningReference sha256 token pv ow ref (Some now) (Some now) db = (Inr d2, db2)"
  proof (cases "allocationByPort db port")
    case None
    then show ?thesis
      using port P fresh res act(1) ids by (simp add: acquireGlobalPortOwningReference_def inspectGlobalPortAllocation_def)
  next
    case (Some a0)
    then obtain d0 where "allocationDto a0 = Inr d0" "dto_status d0 = FREE"
      using free allocationDto_fields(3) [of a0] by auto
    then show ?thesis
      using Some port P fresh res act(1) ids by (simp add: acquireGlobalPortOwningReference_def inspectGlobalPortAllocation_def)
  qed
  obtain a' where a': "allocationById db2 (a_id row) = Some a'" "allocationDto a' = Inr d2"
    using activate_result [OF act(1)] by blast
  have "referenceByKey db2 k = Some x"
    using nk act(2,3) by (simp add: referenceByKey_def find_none_snoc)
  then have "allocationForReference ref db2 = Inr (Some (d2, r_ownerGroupTag x))"
    using ref(1) a' act(4) by (simp add: allocationForReference_def)
  then have "acquireGlobalPortOwningReference sha256 token2 pv ow ref n1 n2 db2 = (Inr d2, db2)" for token2 n1 n2
    using port ow by (simp add: acquireGlobalPortOwningReference_def d2_def)
  with acq show ?thesis by (auto simp: d2_def)
qed

lemma dto_pending_ok:
  assumes "0 < a_id a" "a_id a \<le> MAX_SAFE_INTEGER" "1 \<le> a_port a" "a_port a \<le> 65535" "0 < a_version a"
    "a_version a < MAX_SAFE_INTEGER" "a_status a = Text PENDING_SCAN" "a_ownerType a = None" "a_ownerTag a = None"
    "a_tokenHash a = None"
  shows "\<exists>d. allocationDto a = Inr d \<and> dto_status d = PENDING_SCAN"
proof -
  have "posId (a_id a) = Inr (a_id a)" "storedListenerPort (JNum (inum (a_port a))) = Inr (a_port a)"
    "version_number (JNum (inum (a_version a))) = Inr (a_version a)"
    using assms by (simp_all add: ledger_simps)
  then show ?thesis
    using assms by (simp add: allocationDto_def allocationStatus_def ownerType_def Let_def)
qed

text \<open>The status in \<open>allocationDto\<close> may change from active to releasing without making the row inconsistent.\<close>

lemma dto_owned_version:
  assumes "allocationDto a = Inr d" "dto_status d = ACTIVE" "a_version a + 1 < MAX_SAFE_INTEGER" "st = ACTIVE \<or> st = RELEASING"
  shows "allocationDto (bump now (a\<lparr>a_status := Text st\<rparr>)) = Inr (d\<lparr>dto_status := st, dto_version := a_version a + 1\<rparr>)"
proof -
  note f = allocationDto_fields [OF assms(1)]
  have *: "posId (a_id a) = Inr (a_id a)" "storedListenerPort (JNum (inum (a_port a))) = Inr (a_port a)"
    "version_number (JNum (inum (a_version a))) = Inr (a_version a)"
    "version_number (JNum (inum (a_version a + 1))) = Inr (a_version a + 1)"
    using f assms(3) by (simp_all only: ledger_simps) simp_all
  show ?thesis
    using assms * f(3) by (auto simp: allocationDto_def allocationStatus_def Let_def throw_simps simp del: of_int_add split: if_splits)
qed

definition set_row :: "int \<Rightarrow> (AllocationRow \<Rightarrow> AllocationRow) \<Rightarrow> ledger \<Rightarrow> ledger" where
  "set_row i f db = db\<lparr>allocations := map (\<lambda>x. if a_id x = i then f x else x) (allocations db)\<rparr>"

lemma set_row_simps [simp]:
  "references (set_row i f db) = references db" "refs_of (set_row i f db) = refs_of db"
  "referenceByKey (set_row i f db) = referenceByKey db"
  by (simp_all add: set_row_def refs_of_def referenceByKey_def fun_eq_iff)

lemma allocationById_set_row:
  assumes "tables_inv db" "allocationById db i = Some a" "\<And>x. a_id (f x) = a_id x"
  shows "allocationById (set_row i f db) i = Some (f a)"
proof -
  have "a_id a = i" using assms(1,2) by (simp add: allocationById_iff)
  then show ?thesis
    using assms(2) find_map_keep [where f = a_id and g = "\<lambda>x. if a_id x = i then f x else x"] assms(3)
    by (simp add: allocationById_def set_row_def)
qed

lemma tables_inv_set_row:
  assumes "tables_inv db" "\<And>x. a_id (f x) = a_id x" "\<And>x. a_port (f x) = a_port x"
  shows "tables_inv (set_row i f db)"
  unfolding set_row_def by (rule tables_inv_map) (use assms in auto)

lemma allocationByPort_set_row:
  assumes "tables_inv db" "allocationById db i = Some a" "\<And>x. a_id (f x) = a_id x" "\<And>x. a_port (f x) = a_port x"
  shows "allocationByPort (set_row i f db) (a_port a) = Some (f a)"
proof -
  note t = tables_inv_set_row [OF assms(1,3,4)]
  have "f a \<in> set (allocations (set_row i f db))"
    using allocationById_set_row [OF assms(1,2,3)] t by (simp add: allocationById_iff)
  then show ?thesis using t assms(4) by (simp add: allocationByPort_iff)
qed

text \<open>The lookup both release operations start with, on a consistent row.\<close>

definition holds_ref ::
  "ledger \<Rightarrow> GlobalPortReferenceInput \<Rightarrow> string \<Rightarrow> ReferenceRow \<Rightarrow> AllocationRow \<Rightarrow> GlobalPortAllocationDto \<Rightarrow> bool" where
  "holds_ref db refIn k r a d \<longleftrightarrow> referenceKey refIn = Inr k \<and> referenceByKey db k = Some r
     \<and> allocationById db (r_allocationId r) = Some a \<and> allocationDto a = Inr d \<and> 0 < r_id r \<and> r_id r \<le> MAX_SAFE_INTEGER"

lemma holds_refD:
  assumes "tables_inv db" "holds_ref db refIn k r a d"
  shows "r \<in> set (references db)" "r_key r = k" "a_id a = r_allocationId r" "posId (a_id a) = Inr (a_id a)"
    "posId (r_id r) = Inr (r_id r)" "version_number (JNum (inum (a_version a))) = Inr (a_version a)"
    "allocationById db (a_id a) = Some a"
    "expect_status db (a_id a) (a_version a) (dto_status d) = Inr a"
    "filter (\<lambda>x. r_allocationId x = a_id a \<and> r_id x \<noteq> r_id r) (references db) = filter (\<lambda>x. r_id x \<noteq> r_id r) (refs_of db (a_id a))"
proof -
  have H: "referenceByKey db k = Some r" "allocationById db (r_allocationId r) = Some a" "allocationDto a = Inr d"
    "0 < r_id r" "r_id r \<le> MAX_SAFE_INTEGER"
    using assms(2) by (simp_all add: holds_ref_def)
  note f = allocationDto_fields [OF H(3)]
  show "r \<in> set (references db)" "r_key r = k" and ida: "a_id a = r_allocationId r"
    using assms(1) H by (simp_all add: referenceByKey_iff allocationById_iff)
  show "posId (a_id a) = Inr (a_id a)" "posId (r_id r) = Inr (r_id r)"
    "version_number (JNum (inum (a_version a))) = Inr (a_version a)"
    using f H by (simp_all add: ledger_simps)
  show "allocationById db (a_id a) = Some a" using H(2) ida by simp
  show "expect_status db (a_id a) (a_version a) (dto_status d) = Inr a"
    using H(2) ida f by (simp add: expect_status_Inr)
  show "filter (\<lambda>x. r_allocationId x = a_id a \<and> r_id x \<noteq> r_id r) (references db) = filter (\<lambda>x. r_id x \<noteq> r_id r) (refs_of db (a_id a))"
    by (simp add: refs_of_def conj_commute)
qed

definition other_owner :: "ledger \<Rightarrow> AllocationRow \<Rightarrow> ReferenceRow \<Rightarrow> bool" where
  "other_owner db a r \<longleftrightarrow> list_ex (owns_primary a) (filter (\<lambda>x. r_id x \<noteq> r_id r) (refs_of db (a_id a)))"

lemma begin_release_eval:
  assumes t: "tables_inv db" and h: "holds_ref db refIn k r a d" "dto_status d = ACTIVE" "a_version a + 1 < MAX_SAFE_INTEGER"
  shows "refs_of db (a_id a) = [r] \<Longrightarrow> beginGlobalPortReferenceRelease refIn (JNum (inum (a_version a))) (Some now) db
      = Inr (Some (d\<lparr>dto_status := RELEASING, dto_version := a_version a + 1\<rparr>),
             set_row (a_id a) (\<lambda>x. bump now (x\<lparr>a_status := Text RELEASING\<rparr>)) db)"
    and "other_owner db a r \<Longrightarrow> beginGlobalPortReferenceRelease refIn (JNum (inum (a_version a))) (Some now) db
      = Inr (Some (d\<lparr>dto_version := a_version a + 1\<rparr>), set_row (a_id a) (bump now) (delete_reference (r_id r) k db))"
    and "refs_of db (a_id a) \<noteq> [r] \<Longrightarrow> \<not> other_owner db a r
      \<Longrightarrow> beginGlobalPortReferenceRelease refIn (JNum (inum (a_version a))) (Some now) db = Inl GLOBAL_PORT_CONFLICT"
proof -
  note H = holds_refD [OF t h(1)]
  have key: "referenceKey refIn = Inr k" "referenceByKey db k = Some r" "allocationDto a = Inr d"
    using h(1) by (simp_all add: holds_ref_def)
  note f = allocationDto_fields [OF key(3)]
  obtain tag where tag: "a_ownerTag a = Some tag" using f(13) h(2) by auto
  have own: "list_ex (\<lambda>x. r_ownerGroupTag x = tag \<and> r_isOwning x) xs = list_ex (owns_primary a) xs" for xs
    by (induction xs) (auto simp: owns_primary_def tag)
  note def = beginGlobalPortReferenceRelease_def key validDate_def H(4-6) H(8) [unfolded h(2)] H(9) tag own Let_def
    other_owner_def [symmetric]
  have nil: "(filter (\<lambda>x. r_id x \<noteq> r_id r) (refs_of db (a_id a)) = []) = (refs_of db (a_id a) = [r])"
  proof
    assume e: "filter (\<lambda>x. r_id x \<noteq> r_id r) (refs_of db (a_id a)) = []"
    show "refs_of db (a_id a) = [r]"
    proof (rule singleton_by_key [of r_id])
      show "distinct (map r_id (refs_of db (a_id a)))"
        using t by (simp add: tables_inv_def refs_of_def distinct_map_filter)
      show "r \<in> set (refs_of db (a_id a))" using H(1,3) by (simp add: refs_of_def)
      show "\<forall>y\<in>set (refs_of db (a_id a)). r_id y = r_id r" using e by (simp add: filter_empty_conv)
    qed
  qed simp
  show "beginGlobalPortReferenceRelease refIn (JNum (inum (a_version a))) (Some now) db
      = Inr (Some (d\<lparr>dto_status := RELEASING, dto_version := a_version a + 1\<rparr>),
             set_row (a_id a) (\<lambda>x. bump now (x\<lparr>a_status := Text RELEASING\<rparr>)) db)" if "refs_of db (a_id a) = [r]"
    using update_and_read_ok [OF t H(7) refl, of ACTIVE "\<lambda>x. bump now (x\<lparr>a_status := Text RELEASING\<rparr>)"]
      dto_owned_version [OF key(3) h(2,3), of RELEASING now] f(3) h(2) that
    by (simp add: def H(3) [symmetric] nil set_row_def)
  show "beginGlobalPortReferenceRelease refIn (JNum (inum (a_version a))) (Some now) db
      = Inr (Some (d\<lparr>dto_version := a_version a + 1\<rparr>), set_row (a_id a) (bump now) (delete_reference (r_id r) k db))"
    if o: "other_owner db a r"
  proof -
    note del = delete_reference_facts [OF t H(1)]
    have ne: "filter (\<lambda>x. r_id x \<noteq> r_id r) (refs_of db (a_id a)) \<noteq> []"
      using o by (auto simp: other_owner_def)
    have "a\<lparr>a_status := Text ACTIVE\<rparr> = a" "d\<lparr>dto_status := ACTIVE, dto_version := a_version a + 1\<rparr> = d\<lparr>dto_version := a_version a + 1\<rparr>"
      using f(3) h(2) by (cases a, simp) (cases d, use h(2) in simp)
    then have "allocationDto (bump now a) = Inr (d\<lparr>dto_version := a_version a + 1\<rparr>)"
      using dto_owned_version [OF key(3) h(2,3), of ACTIVE now] by simp
    then show ?thesis
      using update_and_read_ok [OF del(1) _ refl, of "a_id a" a ACTIVE "bump now"] f(3) h(2) H(2,7)
        allocationById_cong [OF del(4)] o ne
      by (simp add: def H(3) [symmetric] set_row_def)
  qed
  show "beginGlobalPortReferenceRelease refIn (JNum (inum (a_version a))) (Some now) db = Inl GLOBAL_PORT_CONFLICT"
    if "refs_of db (a_id a) \<noteq> [r]" "\<not> other_owner db a r"
    using that nil by (simp add: def H(3) [symmetric])
qed

lemma confirm_eval:
  assumes t: "tables_inv db" and h: "holds_ref db refIn k r a d" "dto_status d = RELEASING" "a_version a + 1 < MAX_SAFE_INTEGER"
    and one: "refs_of db (a_id a) = [r]" and th: "a_tokenHash a = None"
  shows "\<exists>d2. confirmGlobalPortReferenceReleased refIn (JNum (inum (a_version a))) (Some now) db
      = Inr (d2, set_row (a_id a) (released_row now) (delete_reference (r_id r) k db))
      \<and> allocationDto (released_row now a) = Inr d2 \<and> dto_status d2 = PENDING_SCAN"
proof -
  note H = holds_refD [OF t h(1)]
  have key: "referenceKey refIn = Inr k" "referenceByKey db k = Some r" "allocationDto a = Inr d"
    using h(1) by (simp_all add: holds_ref_def)
  note f = allocationDto_fields [OF key(3)]
  note del = delete_reference_facts [OF t H(1)]
  have rr: "a_ownerType (released_row now a) = None" "a_tokenHash (released_row now a) = None"
    using th by (simp_all add: released_row_def)
  obtain d2 where d2: "allocationDto (released_row now a) = Inr d2" "dto_status d2 = PENDING_SCAN"
    using dto_pending_ok [of "released_row now a"] f h(3) rr by auto
  have "filter (\<lambda>x. r_id x \<noteq> r_id r) (refs_of db (a_id a)) = []" using one by simp
  then show ?thesis
    using update_and_read_ok [OF del(1) _ refl, of "a_id a" a RELEASING "released_row now"] f(3) h(2) H(2,7)
      allocationById_cong [OF del(4)] d2
    by (simp add: confirmGlobalPortReferenceReleased_def key validDate_def H(3) [symmetric] H(4-6) H(8) [unfolded h(2)] H(9)
        set_row_def released_row_def [abs_def])
qed

lemma reserve_pending_refused:
  assumes "tables_inv db" "allocationByPort db port = Some a" "allocationDto a = Inr d" "dto_status d = PENDING_SCAN"
    "newListenerPort pv = Inr port" "ttl_ok ttlV = Inr ttl" "ownerTag ow = Inr tag" "is_token_text token"
  shows "reserveGlobalPortAllocation sha256 token pv ow (Some now) ttlV db = Inl GLOBAL_PORT_SCAN_PENDING"
  using assms by (simp add: reserveGlobalPortAllocation_def validDate_def tokenHash_def Let_def)

definition released_port :: "ledger \<Rightarrow> AllocationRow \<Rightarrow> int \<Rightarrow> bool" where
  "released_port db a now \<longleftrightarrow> refs_of db (a_id a) = []
     \<and> (\<exists>a' d. allocationById db (a_id a) = Some a' \<and> allocationByPort db (a_port a) = Some a' \<and> a_ownerTag a' = None
          \<and> allocationDto a' = Inr d \<and> dto_status d = PENDING_SCAN
          \<and> a_scanNotBefore a' = Some (epochSeconds (now + RECLAIM_DELAY_MS)))"

lemma release_last:
  assumes t: "tables_inv db" and h: "holds_ref db refIn k r a d" "dto_status d = ACTIVE" "a_version a + 2 < MAX_SAFE_INTEGER"
    and th: "a_tokenHash a = None" and one: "refs_of db (a_id a) = [r]"
  shows "\<exists>d1 db1 d2 db2. beginGlobalPortReferenceRelease refIn (JNum (inum (a_version a))) (Some now) db = Inr (Some d1, db1)
    \<and> dto_status d1 = RELEASING \<and> confirmGlobalPortReferenceReleased refIn (JNum (inum (dto_version d1))) (Some now) db1 = Inr (d2, db2)
    \<and> dto_status d2 = PENDING_SCAN \<and> tables_inv db2 \<and> released_port db2 a now"
proof -
  note H = holds_refD [OF t h(1)]
  have dto: "allocationDto a = Inr d" using h(1) by (simp add: holds_ref_def)
  have v1: "a_version a + 1 < MAX_SAFE_INTEGER" using h(3) by simp
  define rel where "rel = (\<lambda>x. bump now (x\<lparr>a_status := Text RELEASING\<rparr>))"
  define db1 where "db1 = set_row (a_id a) rel db"
  define d1 where "d1 = d\<lparr>dto_status := RELEASING, dto_version := a_version a + 1\<rparr>"
  have keep: "a_id (rel x) = a_id x" "a_port (rel x) = a_port x" for x by (simp_all add: rel_def)
  have ver: "a_version (rel a) = a_version a + 1" "a_tokenHash (rel a) = None" "dto_version d1 = a_version a + 1"
    using th by (simp_all add: rel_def d1_def)
  have t1: "tables_inv db1" unfolding db1_def by (rule tables_inv_set_row [OF t keep])
  have "allocationDto (rel a) = Inr d1"
    using dto_owned_version [OF dto h(2) v1, of RELEASING now] by (simp add: rel_def d1_def)
  then have h1: "holds_ref db1 refIn k r (rel a) d1" "dto_status d1 = RELEASING"
    using h(1) H(3) allocationById_set_row [OF t H(7) keep(1)] by (simp_all add: holds_ref_def db1_def d1_def)
  have one1: "refs_of db1 (a_id (rel a)) = [r]" using one by (simp add: db1_def keep)
  define db2 where "db2 = set_row (a_id a) (released_row now) (delete_reference (r_id r) k db1)"
  obtain d2 where d2: "confirmGlobalPortReferenceReleased refIn (JNum (inum (dto_version d1))) (Some now) db1 = Inr (d2, db2)"
    "allocationDto (released_row now (rel a)) = Inr d2" "dto_status d2 = PENDING_SCAN"
    using confirm_eval [OF t1 h1 _ one1 ver(2), of now] h(3) by (auto simp: ver keep db2_def)
  have b: "beginGlobalPortReferenceRelease refIn (JNum (inum (a_version a))) (Some now) db = Inr (Some d1, db1)"
    using begin_release_eval(1) [OF t h(1,2) v1 one, of now] by (simp add: d1_def db1_def rel_def)
  note H1 = holds_refD [OF t1 h1(1)]
  note del = delete_reference_facts [OF t1 H1(1), unfolded H1(2)]
  have a1: "allocationById (delete_reference (r_id r) k db1) (a_id a) = Some (rel a)"
    using H1(7) allocationById_cong [OF del(4)] by (simp add: keep)
  have "tables_inv db2" unfolding db2_def by (rule tables_inv_set_row [OF del(1)]) simp_all
  moreover have "released_port db2 a now"
    unfolding released_port_def
    using allocationById_set_row [OF del(1) a1, of "released_row now"] allocationByPort_set_row [OF del(1) a1, of "released_row now"]
      del(2) [of "a_id a"] one1 d2(2,3) by (simp add: db2_def keep)
  ultimately show ?thesis using b h1(2) d2 by blast
qed

text \<open>After the runtime was cleaned up, releasing the last reference leaves the port unowned, unreferenced and
  waiting for a scan for twelve hours, and reserving it is refused meanwhile; releasing one of several references
  keeps it active while another owning reference remains, and is refused when only aliases would remain.\<close>

theorem release_outcome:
  fixes now :: int
  assumes t: "tables_inv db" and h: "holds_ref db refIn k r a d" "dto_status d = ACTIVE" "a_version a + 2 < MAX_SAFE_INTEGER"
    and th: "a_tokenHash a = None"
  defines "res \<equiv> releaseGlobalPortReferenceAfterRuntimeCleanup refIn (Some now) db"
  shows "(refs_of db (a_id a) = [r] \<longrightarrow> (\<exists>d2 db'. res = Inr (Some d2, db') \<and> dto_status d2 = PENDING_SCAN
            \<and> released_port db' a now
            \<and> (\<forall>sha256 token pv ow now2 ttlV ttl tag. newListenerPort pv = Inr (a_port a) \<and> ttl_ok ttlV = Inr ttl
                 \<and> ownerTag ow = Inr tag \<and> is_token_text token \<longrightarrow>
                 reserveGlobalPortAllocation sha256 token pv ow (Some now2) ttlV db' = Inl GLOBAL_PORT_SCAN_PENDING)))
    \<and> (other_owner db a r \<longrightarrow> (\<exists>d2 db'. res = Inr (Some d2, db') \<and> dto_status d2 = ACTIVE
            \<and> refs_of db' (a_id a) = filter (\<lambda>x. r_id x \<noteq> r_id r) (refs_of db (a_id a))))
    \<and> (refs_of db (a_id a) \<noteq> [r] \<and> \<not> other_owner db a r \<longrightarrow> res = Inl GLOBAL_PORT_CONFLICT)"
proof (intro conjI impI)
  note H = holds_refD [OF t h(1)]
  have key: "referenceKey refIn = Inr k" "referenceByKey db k = Some r" "allocationById db (r_allocationId r) = Some a"
    "allocationDto a = Inr d"
    using h(1) by (simp_all add: holds_ref_def)
  have v1: "a_version a + 1 < MAX_SAFE_INTEGER" using h(3) by simp
  note B = begin_release_eval [OF t h(1,2) v1]
  have res: "res = ebind (beginGlobalPortReferenceRelease refIn (JNum (inum (a_version a))) (Some now) db) (\<lambda>(releasing, db1).
         case releasing of None \<Rightarrow> Inr (None, db1)
         | Some rd \<Rightarrow>
             if dto_status rd \<noteq> RELEASING then Inr (Some rd, db1)
             else ebind (confirmGlobalPortReferenceReleased refIn (JNum (inum (dto_version rd))) (Some now) db1)
                    (\<lambda>(d2, db2). Inr (Some d2, db2)))"
    by (simp add: res_def releaseGlobalPortReferenceAfterRuntimeCleanup_def validDate_def allocationForReference_def key
        allocationDto_fields(4) [OF key(4)])
  show "\<exists>d2 db'. res = Inr (Some d2, db') \<and> dto_status d2 = PENDING_SCAN \<and> released_port db' a now
            \<and> (\<forall>sha256 token pv ow now2 ttlV ttl tag. newListenerPort pv = Inr (a_port a) \<and> ttl_ok ttlV = Inr ttl
                 \<and> ownerTag ow = Inr tag \<and> is_token_text token \<longrightarrow>
                 reserveGlobalPortAllocation sha256 token pv ow (Some now2) ttlV db' = Inl GLOBAL_PORT_SCAN_PENDING)"
    if one: "refs_of db (a_id a) = [r]"
  proof -
    obtain d1 db1 d2 db2 where "beginGlobalPortReferenceRelease refIn (JNum (inum (a_version a))) (Some now) db = Inr (Some d1, db1)"
      "dto_status d1 = RELEASING" "confirmGlobalPortReferenceReleased refIn (JNum (inum (dto_version d1))) (Some now) db1 = Inr (d2, db2)"
      and r: "dto_status d2 = PENDING_SCAN" "tables_inv db2" "released_port db2 a now"
      using release_last [OF t h th one] by blast
    then have "res = Inr (Some d2, db2)" by (simp add: res)
    moreover have "reserveGlobalPortAllocation sha256 token pv ow (Some now2) ttlV db2 = Inl GLOBAL_PORT_SCAN_PENDING"
      if "newListenerPort pv = Inr (a_port a) \<and> ttl_ok ttlV = Inr ttl \<and> ownerTag ow = Inr tag \<and> is_token_text token"
      for sha256 token pv ow now2 ttlV ttl tag
      using that r(3) reserve_pending_refused [OF r(2)] unfolding released_port_def by blast
    ultimately show ?thesis using r by blast
  qed
  show "\<exists>d2 db'. res = Inr (Some d2, db') \<and> dto_status d2 = ACTIVE
            \<and> refs_of db' (a_id a) = filter (\<lambda>x. r_id x \<noteq> r_id r) (refs_of db (a_id a))" if o: "other_owner db a r"
    using B(2) [OF o, of now] h(2) delete_reference_facts(2) [OF t H(1), of "a_id a"] H(2) by (simp add: res)
  show "res = Inl GLOBAL_PORT_CONFLICT" if "refs_of db (a_id a) \<noteq> [r] \<and> \<not> other_owner db a r"
    using B(3) [of now] that by (simp add: res)
qed

lemma show_int_digits: "0 < n \<Longrightarrow> list_all is_digit (show_int n)"
  by (simp add: show_int_def show_nat_digits)

lemma show_int_inj:
  assumes "0 < m" "0 < n" "show_int m = show_int n"
  shows "m = n"
proof -
  have "digits_val 0 (show_nat (nat m)) = digits_val 0 (show_nat (nat n))"
    using assms by (simp add: show_int_def)
  then show ?thesis using assms by simp
qed

lemma name_injs:
  "resource_name x = resource_name y \<longleftrightarrow> x = y" "network_name u = network_name v \<longleftrightarrow> u = v"
  "role_name p = role_name q \<longleftrightarrow> p = q" "slot_name a = slot_name b \<longleftrightarrow> a = b"
  by ((cases x; cases y; simp), (cases u; cases v; simp), (cases p; cases q; simp), (cases a; cases b; simp))

lemma no_colon_digits: "list_all is_digit s \<Longrightarrow> CHR '':'' \<notin> set s"
  by (auto simp: list_all_iff is_digit_def)

lemma no_colon_names:
  "CHR '':'' \<notin> set (resource_name x)" "CHR '':'' \<notin> set (network_name u)" "CHR '':'' \<notin> set (role_name p)"
  "CHR '':'' \<notin> set (slot_name a)"
  by ((cases x; simp), (cases u; simp), (cases p; simp), (cases a; simp))

definition host_part :: "int option \<Rightarrow> string" where
  "host_part h = (case h of None \<Rightarrow> ''host-none'' | Some h \<Rightarrow> ''host-'' @ show_int h)"

lemma host_part_inj:
  assumes "case g of None \<Rightarrow> True | Some n \<Rightarrow> 0 < n" "case h of None \<Rightarrow> True | Some n \<Rightarrow> 0 < n" "host_part g = host_part h"
  shows "g = h"
proof -
  have n: "show_int m \<noteq> ''none''" if "0 < m" for m
    using show_int_digits [OF that] by (auto simp: is_digit_def)
  show ?thesis
    using assms n show_int_inj by (auto simp: host_part_def split: option.splits)
qed

text \<open>Two references have the same key only when they are the same resource, host, network, role and slot.\<close>

theorem reference_key_injective:
  assumes "referenceKey x = Inr k" "referenceKey y = Inr k"
  shows "in_resourceType x = in_resourceType y \<and> in_resourceId x = in_resourceId y \<and> in_hostId x = in_hostId y
    \<and> in_network x = in_network y \<and> in_role x = in_role y \<and> in_slot x = in_slot y"
proof -
  have P: "0 < in_resourceId z \<and> (case in_hostId z of None \<Rightarrow> True | Some n \<Rightarrow> 0 < n) \<and> k = js_join '':'' (reference_key_parts z)"
    if "referenceKey z = Inr k" for z
    using that by (auto simp: referenceKey_def throw_simps ledger_simps split: option.splits)
  have parts: "js_split CHR '':'' k = reference_key_parts z" if "referenceKey z = Inr k" for z
  proof -
    have "CHR '':'' \<notin> set w" if "w \<in> set (reference_key_parts z)" for w
      using that P [OF \<open>referenceKey z = Inr k\<close>] no_colon_names no_colon_digits [OF show_int_digits]
      by (auto simp: reference_key_parts_def split: option.splits)
    moreover have "reference_key_parts z \<noteq> []" by (simp add: reference_key_parts_def)
    ultimately show ?thesis using js_split_join [of "reference_key_parts z" "CHR '':''"] P [OF that] by simp
  qed
  have "reference_key_parts x = reference_key_parts y" using parts [OF assms(1)] parts [OF assms(2)] by simp
  then have eq: "resource_name (in_resourceType x) = resource_name (in_resourceType y)"
    "show_int (in_resourceId x) = show_int (in_resourceId y)" "host_part (in_hostId x) = host_part (in_hostId y)"
    "network_name (in_network x) = network_name (in_network y)" "role_name (in_role x) = role_name (in_role y)"
    "(case in_slot x of None \<Rightarrow> [] | Some s \<Rightarrow> [slot_name s]) = (case in_slot y of None \<Rightarrow> [] | Some s \<Rightarrow> [slot_name s])"
    by (simp_all only: reference_key_parts_def host_part_def append_Cons append_Nil list.inject simp_thms)
  have "in_slot x = in_slot y" using eq(6) name_injs(4) by (auto split: option.splits)
  then show ?thesis
    using eq P [OF assms(1)] P [OF assms(2)] show_int_inj host_part_inj [OF _ _ eq(3)] by (simp add: name_injs)
qed

text \<open>The ports reported unavailable are exactly those whose allocation is not free, and no reservation ever succeeds on one.\<close>

theorem unavailable_ports_exact:
  assumes "tables_inv db" "collectUnavailableGlobalPorts db = Inr ps"
  shows "set ps = {a_port a |a. a \<in> set (allocations db) \<and> a_status a \<noteq> Text FREE}
    \<and> (\<forall>sha256 token pv port ow nowV ttlV r db'. newListenerPort pv = Inr port \<and> port \<in> set ps
         \<longrightarrow> reserveGlobalPortAllocation sha256 token pv ow nowV ttlV db \<noteq> Inr (r, db'))"
proof
  let ?f = "\<lambda>row. ebind (allocationStatus (a_status row)) (\<lambda>st.
              if st \<noteq> FREE then ebind (storedListenerPort (JNum (inum (a_port row)))) (\<lambda>p. Inr [p]) else Inr [])"
  have trav: "set (concat pss) = a_port ` set xs"
    if "traverseE ?f xs = Inr pss" "\<forall>x\<in>set xs. a_status x \<noteq> Text FREE" for xs pss
    using that
  proof (induction xs arbitrary: pss)
    case (Cons x xs)
    obtain y ys where y: "?f x = Inr y" "traverseE ?f xs = Inr ys" "pss = y # ys"
      using Cons.prems(1) by (auto simp: ebind_Inr)
    have "y = [a_port x]"
      using y(1) Cons.prems(2) by (auto simp: throw_simps allocationStatus_def ledger_simps split: db_text.splits if_splits)
    with y Cons.IH [OF y(2)] Cons.prems(2) show ?case by simp
  qed simp
  obtain pss where pss: "traverseE ?f (filter (\<lambda>row. a_status row \<noteq> Text FREE) (allocations db)) = Inr pss" "ps = concat pss"
    using assms(2) by (auto simp: collectUnavailableGlobalPorts_def ebind_Inr)
  have all: "\<forall>x\<in>set (filter (\<lambda>row. a_status row \<noteq> Text FREE) (allocations db)). a_status x \<noteq> Text FREE" by simp
  have "set ps = a_port ` {a \<in> set (allocations db). a_status a \<noteq> Text FREE}"
    using trav [OF pss(1) all] unfolding pss(2) set_filter .
  then show ps: "set ps = {a_port a |a. a \<in> set (allocations db) \<and> a_status a \<noteq> Text FREE}"
    by (simp add: setcompr_eq_image)
  show "\<forall>sha256 token pv port ow nowV ttlV r db'. newListenerPort pv = Inr port \<and> port \<in> set ps
         \<longrightarrow> reserveGlobalPortAllocation sha256 token pv ow nowV ttlV db \<noteq> Inr (r, db')"
  proof (intro allI impI notI)
    fix sha256 token pv port ow nowV ttlV r db'
    assume p: "newListenerPort pv = Inr port \<and> port \<in> set ps"
      and res: "reserveGlobalPortAllocation sha256 token pv ow nowV ttlV db = Inr (r, db')"
    obtain a where a: "allocationByPort db port = Some a" "a_status a \<noteq> Text FREE"
      using p ps assms(1) by (auto simp: allocationByPort_iff)
    from res show False
      by (cases rule: reserve_cases) (use p a in auto)
  qed
qed

section \<open>A sample ledger\<close>

definition sample_sha :: "string \<Rightarrow> string" where
  "sample_sha s = replicate 64 (if last s = CHR ''A'' then CHR ''a'' else CHR ''b'')"

definition sample_token :: string where
  "sample_token = replicate 43 CHR ''A''"

definition sample_ref :: GlobalPortReferenceInput where
  "sample_ref = \<lparr>in_resourceType = ResForwardRule, in_resourceId = 7, in_hostId = Some 3, in_network = RefTcp,
     in_role = RolePublicListener, in_isOwning = True, in_slot = None\<rparr>"

definition sample_key :: string where
  "sample_key = ''global-port-ref:v1:FORWARD_RULE:7:host-3:TCP:PUBLIC_LISTENER''"

definition sample_empty :: ledger where
  "sample_empty = \<lparr>allocations = [], references = [], next_allocation = 1, next_reference = 1, xray_inbounds = [], quick_configs = []\<rparr>"

definition sample_row :: AllocationRow where
  "sample_row = \<lparr>a_id = 1, a_port = 20000, a_status = Text RESERVED, a_ownerType = Some (Text OwnForwardRule),
     a_ownerTag = Some ''forward-rule:7'', a_tokenHash = Some (replicate 64 CHR ''a''), a_reservedUntil = Some 1700000060,
     a_scanNotBefore = None, a_lastScanStartedAt = None, a_lastScanFinishedAt = None, a_lastErrorCode = None,
     a_version = 1, a_updatedAt = 1700000000\<rparr>"

definition sample_reserved :: ledger where
  "sample_reserved = sample_empty\<lparr>allocations := [sample_row], next_allocation := 2\<rparr>"

definition sample_dto :: GlobalPortAllocationDto where
  "sample_dto = \<lparr>dto_allocationId = 1, dto_port = 20000, dto_status = RESERVED, dto_version = 1,
     dto_ownerType = Some OwnForwardRule, dto_ownerTag = Some ''forward-rule:7'', dto_reservedUntil = Some 1700000060000\<rparr>"

definition sample_active_row :: AllocationRow where
  "sample_active_row = sample_row\<lparr>a_status := Text ACTIVE, a_tokenHash := None, a_reservedUntil := None, a_version := 2\<rparr>"

definition sample_ref_row :: ReferenceRow where
  "sample_ref_row = \<lparr>r_id = 1, r_key = sample_key, r_allocationId = 1, r_resourceType = ResForwardRule, r_resourceId = 7,
     r_ownerGroupTag = ''forward-rule:7'', r_hostId = Some 3, r_network = RefTcp, r_role = RolePublicListener, r_isOwning = True\<rparr>"

definition sample_active :: ledger where
  "sample_active = sample_empty\<lparr>allocations := [sample_active_row], next_allocation := 2, references := [sample_ref_row],
     next_reference := 2\<rparr>"

lemma sample_reserve: "reserveGlobalPortAllocation sample_sha sample_token (JNum (inum 20000)) (ForwardRuleOwner 7)
   (Some 1700000000000) None sample_empty = Inr ((sample_dto, sample_token), sample_reserved)"
  by code_simp

lemma sample_acquire: "acquireGlobalPortOwningReference sample_sha sample_token (JNum (inum 20000)) (ForwardRuleOwner 7) sample_ref
   (Some 1700000000000) (Some 1700000000000) sample_empty
   = (Inr (sample_dto\<lparr>dto_status := ACTIVE, dto_version := 2, dto_reservedUntil := None\<rparr>), sample_active)"
  by code_simp

lemma sample_activate: "activateReservedGlobalPortAllocation sample_sha (JNum (inum 1)) (JNum (inum 1)) (ForwardRuleOwner 7)
   sample_token [sample_ref] (Some 1700000000000) sample_reserved
   = Inr (sample_dto\<lparr>dto_status := ACTIVE, dto_version := 2, dto_reservedUntil := None\<rparr>, sample_active)"
  by code_simp

lemma sample_hex: "is_hex64 (sample_sha s)"
proof -
  have "list_all is_hex (replicate 64 CHR ''a'')" "list_all is_hex (replicate 64 CHR ''b'')" by code_simp+
  then show ?thesis by (simp add: is_hex64_def sample_sha_def)
qed

lemma sample_facts:
  "referenceKey sample_ref = Inr sample_key" "is_token_text sample_token" "tables_inv sample_empty" "ledger_inv sample_empty"
  "tables_inv sample_reserved" "tables_inv sample_active"
  by code_simp+

theorem ledger_refines_machine_witness:
  "tables_inv sample_reserved \<and> ledger_step\<^sup>*\<^sup>* sample_empty sample_reserved"
  using ledger_refines_machine [OF ledger_txn.intros(1) [OF sample_reserve] sample_facts(3)] .

theorem ports_never_reused_while_referenced_witness:
  "list_ex r_isOwning (refs_of sample_active 1)"
proof -
  have m: "sample_active_row \<in> set (allocations sample_active)" by (simp add: sample_active_def)
  have "a_status sample_active_row = Text ACTIVE" "a_id sample_active_row = 1"
    by (simp_all add: sample_active_row_def sample_row_def)
  then show ?thesis
    using ports_never_reused_while_referenced [OF r_into_rtranclp [where r = "ledger_txn sample_sha", OF ledger_txn.intros(4) [OF sample_acquire]] sample_facts(4) m]
    by (simp add: list_ex_iff)
qed

theorem version_guards_every_change_witness:
  "\<exists>a'. allocationById sample_active 1 = Some a' \<and> a_port a' = 20000 \<and> 1 \<le> a_version a'"
proof -
  have "allocationById sample_reserved 1 = Some sample_row" by code_simp
  from version_guards_every_change [OF r_into_rtranclp [where r = "ledger_txn sample_sha", OF ledger_txn.intros(2) [OF sample_activate]] sample_facts(5) this]
  show ?thesis by (auto simp: sample_row_def)
qed

theorem activation_window_witness:
  "activateReservedGlobalPortAllocation sample_sha (JNum (inum 1)) (JNum (inum 1)) (ForwardRuleOwner 7) sample_token [sample_ref]
     (Some 1700000060000) sample_reserved = Inl GLOBAL_PORT_RESERVATION_EXPIRED
   \<and> activateReservedGlobalPortAllocation sample_sha (JNum (inum 1)) (JNum (inum 1)) (ForwardRuleOwner 7) (replicate 43 CHR ''B'') [sample_ref]
     (Some 1700000059999) sample_reserved = Inl GLOBAL_PORT_RESERVATION_INVALID"
proof -
  have "ttl_ok None = Inr 60000" "referenceByKey sample_empty sample_key = None" "in_isOwning sample_ref"
    "tokenHash sample_sha (replicate 43 CHR ''B'') = Inr (replicate 64 CHR ''b'')"
    "tokenHash sample_sha sample_token \<noteq> Inr (replicate 64 CHR ''b'')"
    "dto_version sample_dto + 1 < MAX_SAFE_INTEGER" "dto_allocationId sample_dto = 1" "dto_version sample_dto = 1"
    by code_simp+
  then show ?thesis
    using activation_window [OF sample_reserve sample_facts(3) sample_hex, of 60000 sample_ref sample_key "replicate 43 CHR ''B''"
        "replicate 64 CHR ''b''"] sample_facts(1)
    by simp
qed

theorem acquire_free_port_witness:
  "\<exists>d db'. acquireGlobalPortOwningReference sample_sha sample_token (JNum (inum 20000)) (ForwardRuleOwner 7) sample_ref
       (Some 1700000000000) (Some 1700000000000) sample_empty = (Inr d, db') \<and> dto_status d = ACTIVE"
proof -
  have p: "newListenerPort (JNum (inum 20000)) = Inr 20000" and o: "ownerTag (ForwardRuleOwner 7) = Inr ''forward-rule:7''"
    and r: "referenceByKey sample_empty sample_key = None" "in_isOwning sample_ref"
    and f: "allocationByPort sample_empty 20000 = None" "next_allocation sample_empty = 1" "1 \<le> MAX_SAFE_INTEGER"
    by code_simp+
  have free: "case allocationByPort sample_empty 20000 of
       None \<Rightarrow> 0 < next_allocation sample_empty \<and> next_allocation sample_empty \<le> MAX_SAFE_INTEGER
     | Some a \<Rightarrow> a_status a = Text FREE \<and> a_version a + 2 < MAX_SAFE_INTEGER \<and> (\<exists>d. allocationDto a = Inr d)"
    using f by simp
  note acquire_free_port [OF sample_facts(3) p o sample_facts(2) _ free sample_facts(1) r, of sample_sha 1700000000000]
  then show ?thesis using sample_hex by (simp del: ownerTag.simps) blast
qed

theorem release_outcome_witness:
  "\<exists>d db'. releaseGlobalPortReferenceAfterRuntimeCleanup sample_ref (Some 1700000000000) sample_active = Inr (Some d, db')
     \<and> dto_status d = PENDING_SCAN \<and> released_port db' sample_active_row 1700000000000"
proof -
  have h: "holds_ref sample_active sample_ref sample_key sample_ref_row sample_active_row
         (sample_dto\<lparr>dto_status := ACTIVE, dto_version := 2, dto_reservedUntil := None\<rparr>)"
    by code_simp
  have "dto_status (sample_dto\<lparr>dto_status := ACTIVE, dto_version := 2, dto_reservedUntil := None\<rparr>) = ACTIVE"
    "a_version sample_active_row + 2 < MAX_SAFE_INTEGER" "a_tokenHash sample_active_row = None"
    "refs_of sample_active (a_id sample_active_row) = [sample_ref_row]"
    by code_simp+
  then show ?thesis
    using release_outcome [OF sample_facts(6) h, of 1700000000000] by blast
qed

theorem reference_key_injective_witness:
  "in_hostId (sample_ref\<lparr>in_isOwning := False\<rparr>) = in_hostId sample_ref \<and> referenceKey sample_ref = Inr sample_key"
proof -
  have "referenceKey (sample_ref\<lparr>in_isOwning := False\<rparr>) = Inr sample_key" by code_simp
  from reference_key_injective [OF this sample_facts(1)] show ?thesis using sample_facts(1) by blast
qed

theorem unavailable_ports_exact_witness:
  "20000 \<in> {a_port a |a. a \<in> set (allocations sample_active) \<and> a_status a \<noteq> Text FREE}"
proof -
  have "collectUnavailableGlobalPorts sample_active = Inr [20000]" by code_simp
  from unavailable_ports_exact [OF sample_facts(6) this]
  have "set [20000] = {a_port a |a. a \<in> set (allocations sample_active) \<and> a_status a \<noteq> Text FREE}" ..
  then show ?thesis by (metis list.set_intros(1))
qed

end
