(* ===== verification/GlobalPortReclaim.thy ===== *)
theory GlobalPortReclaim
  imports LedgerRefinement
begin

text \<open>
  Reclaiming released ports (server/globalPortReclaimService.ts): a scan, guarded by a lease, asks every managed host to
  probe the ports of allocations that wait for it and frees a port only when all of them found it free.

  The tables the service uses beside the ledger are the record \<open>reclaim_db\<close>; timestamp columns hold seconds as in the
  ledger. The digest, the random identifiers, the order of NULLs in the database and the outcomes the agents report are
  arguments. A \<open>FREE\<close> probe is \<open>PFree\<close> here, to keep it apart from the status of an allocation. Two allocations
  never run in one transaction, so a scan is a sequence of transactions; other transactions may run between them.
\<close>

section \<open>Tables\<close>

datatype ProbeNetwork = ProbeTcp | ProbeUdp

datatype ProbeStatus = PFree | POccupied | POffline | PUnsupported | PError | PExpired

datatype RunStatus = RUNNING | SUCCESS | FAILED

record ManagedHost =
  h_id :: int
  h_userId :: int

record AllocationCandidate =
  c_id :: int
  c_port :: int

record ProbeOutcome =
  o_hostId :: int
  o_network :: ProbeNetwork
  o_operationId :: string
  o_status :: ProbeStatus

record ProbeRunRow =
  pr_id :: int
  pr_probeTag :: string
  pr_allocationId :: int
  pr_allocationVersion :: int
  pr_candidatePort :: int
  pr_status :: RunStatus
  pr_hostSetHash :: string
  pr_expectedHostCount :: nat
  pr_startedAt :: int
  pr_finishedAt :: "int option"
  pr_expiresAt :: int
  pr_errorCode :: "string option"

record ProbeResultRow =
  ps_probeRunId :: int
  ps_hostId :: int
  ps_network :: ProbeNetwork
  ps_operationId :: string
  ps_status :: ProbeStatus
  ps_probedAt :: int
  ps_expiresAt :: int

record ScanLease =
  leaseOwner :: "string option"
  leaseUntil :: "int option"
  lastStartedAt :: "int option"
  lastFinishedAt :: "int option"
  leaseUpdatedAt :: int

record RulePorts =
  sourcePort :: int
  tunnelExitPort :: "int option"

record reclaim_db =
  rdb_ledger :: ledger
  probe_runs :: "ProbeRunRow list"
  probe_results :: "ProbeResultRow list"
  next_run :: int
  scan_lease :: "ScanLease option"
  host_rows :: "ManagedHost list"
  rule_ports :: "RulePorts list"

record GlobalPortReclaimScanSummary =
  sum_acquired :: bool
  sum_scanned :: nat
  sum_freed :: nat
  sum_occupied :: nat
  sum_deferred :: nat

definition SCAN_INTERVAL_MS :: int where "SCAN_INTERVAL_MS = 12 * 60 * 60 * 1000"
definition LEASE_TTL_MS :: int where "LEASE_TTL_MS = 30 * 60 * 1000"
definition RUN_TTL_MS :: int where "RUN_TTL_MS = 2 * 60 * 1000"
definition DEFAULT_BATCH_SIZE :: int where "DEFAULT_BATCH_SIZE = 8"

definition positiveInteger :: "int \<Rightarrow> int option" where
  "positiveInteger v = (if \<bar>v\<bar> \<le> MAX_SAFE_INTEGER \<and> v > 0 then Some v else None)"

definition databaseDate :: "int option \<Rightarrow> int option" where
  "databaseDate v = dateFromDatabase v"

definition host_set_text :: "ManagedHost list \<Rightarrow> string" where
  "host_set_text hosts = ''forwardx-global-port-host-set:v1'' @ [CHR 0x0A] @ ''['' @ js_join '','' (map show_int (sort (map h_id hosts))) @ '']''"

definition hostSetHash :: "(string \<Rightarrow> string) \<Rightarrow> ManagedHost list \<Rightarrow> string" where
  "hostSetHash sha256 hosts = sha256 (host_set_text hosts)"

definition managedHosts :: "reclaim_db \<Rightarrow> ManagedHost list" where
  "managedHosts db = filter (\<lambda>h. positiveInteger (h_id h) \<noteq> None \<and> positiveInteger (h_userId h) \<noteq> None) (sort_key h_id (host_rows db))"

definition acquireLease :: "string \<Rightarrow> int \<Rightarrow> reclaim_db \<Rightarrow> bool \<times> reclaim_db" where
  "acquireLease ownerHash now db =
     (case scan_lease db of
        None \<Rightarrow> (False, db)
      | Some l \<Rightarrow>
          if (leaseUntil l = None \<or> the (leaseUntil l) \<le> epochSeconds now)
            \<and> (lastStartedAt l = None \<or> the (lastStartedAt l) \<le> epochSeconds (now - SCAN_INTERVAL_MS))
          then (True, db\<lparr>scan_lease := Some (l\<lparr>leaseOwner := Some ownerHash, leaseUntil := Some (epochSeconds (now + LEASE_TTL_MS)),
                   lastStartedAt := Some (epochSeconds now), leaseUpdatedAt := epochSeconds now\<rparr>)\<rparr>)
          else (False, db))"

definition releaseLease :: "string \<Rightarrow> int \<Rightarrow> reclaim_db \<Rightarrow> reclaim_db" where
  "releaseLease ownerHash now db =
     (case scan_lease db of
        None \<Rightarrow> db
      | Some l \<Rightarrow>
          if leaseOwner l = Some ownerHash
          then db\<lparr>scan_lease := Some (l\<lparr>leaseOwner := None, leaseUntil := None, lastFinishedAt := Some (epochSeconds now),
                 leaseUpdatedAt := epochSeconds now\<rparr>)\<rparr>
          else db)"

definition waiting_statuses :: "GlobalPortAllocationStatus list" where
  "waiting_statuses = [PENDING_SCAN, EXTERNAL_OCCUPIED]"

definition scan_rank :: "bool \<Rightarrow> AllocationRow \<Rightarrow> nat \<times> int \<times> int" where
  "scan_rank nullsFirst a = (case a_scanNotBefore a of
     None \<Rightarrow> ((if nullsFirst then 0 else 2), 0, a_id a)
   | Some t \<Rightarrow> (1, t, a_id a))"

definition eligibleAllocations :: "bool \<Rightarrow> int \<Rightarrow> nat \<Rightarrow> reclaim_db \<Rightarrow> AllocationCandidate list" where
  "eligibleAllocations nullsFirst now batchSize db =
     (let L = rdb_ledger db;
          rows = take batchSize (sort_key (scan_rank nullsFirst)
            (filter (\<lambda>a. a_status a \<in> Text ` set waiting_statuses
               \<and> (a_scanNotBefore a = None \<or> the (a_scanNotBefore a) \<le> epochSeconds now)
               \<and> \<not> list_ex (\<lambda>r. r_allocationId r = a_id a) (references L)) (allocations L))) in
      concat (map (\<lambda>a. case (positiveInteger (a_id a), positiveInteger (a_port a)) of
         (Some i, Some p) \<Rightarrow> if p \<le> 65535 then [\<lparr>c_id = i, c_port = p\<rparr>] else []
       | _ \<Rightarrow> []) rows))"

definition hasListenerDrift :: "int \<Rightarrow> reclaim_db \<Rightarrow> bool" where
  "hasListenerDrift port db \<longleftrightarrow>
     length (filter (\<lambda>x. xi_listenPort x = port) (xray_inbounds (rdb_ledger db)))
     + length (filter (\<lambda>r. sourcePort r = port \<or> tunnelExitPort r = Some port) (rule_ports db)) > 0"

section \<open>Probing a port\<close>

text \<open>\<open>createXrayPortProbeOperation\<close> fails with the code of an \<open>XrayPortOperationError\<close> or with another error; a poll
  either throws (\<open>None\<close>) or returns a result, and the polls end when the deadline has passed.\<close>

record probe_result_dto =
  pd_status :: string
  pd_selectedPort :: "int option"
  pd_errorCode :: "string option"
  pd_reservationId :: "string option"

definition safePreflightError :: "string option \<Rightarrow> ProbeStatus \<times> string" where
  "safePreflightError error =
     (let code = (case error of None \<Rightarrow> ''INTERNAL_ERROR'' | Some c \<Rightarrow> c) in
      if code = ''HOST_OFFLINE'' \<or> code = ''HOST_NOT_FOUND'' then (POffline, ''HOST_OFFLINE'')
      else if code = ''AGENT_CAPABILITY_MISSING'' \<or> code = ''UDP_CAPABILITY_REQUIRED'' then (PUnsupported, code)
      else if code = ''PORT_IN_USE'' then (POccupied, ''PORT_IN_USE'')
      else (PError, ''INTERNAL_ERROR''))"

definition terminalProbeStatus :: "probe_result_dto \<Rightarrow> ProbeStatus option" where
  "terminalProbeStatus r =
     (if pd_status r = ''SUCCESS'' then Some (if pd_selectedPort r \<noteq> None \<and> pd_selectedPort r \<noteq> Some 0 then PFree else PError)
      else if pd_status r = ''TIMEOUT'' then Some PExpired
      else if pd_status r \<noteq> ''FAILED'' \<and> pd_status r \<noteq> ''CANCELLED'' then None
      else if pd_errorCode r = Some ''PORT_IN_USE'' then Some POccupied
      else if pd_errorCode r = Some ''HOST_OFFLINE'' then Some POffline
      else if pd_errorCode r = Some ''AGENT_CAPABILITY_MISSING'' \<or> pd_errorCode r = Some ''UDP_CAPABILITY_REQUIRED'' then Some PUnsupported
      else if pd_errorCode r = Some ''TASK_EXPIRED'' then Some PExpired
      else Some PError)"

fun poll_loop :: "int \<Rightarrow> (string \<Rightarrow> bool) \<Rightarrow> probe_result_dto option list \<Rightarrow> ProbeStatus" where
  "poll_loop port releaseReservation [] = PExpired"
| "poll_loop port releaseReservation (None # polls) = PError"
| "poll_loop port releaseReservation (Some r # polls) =
     (case terminalProbeStatus r of
        None \<Rightarrow> poll_loop port releaseReservation polls
      | Some st \<Rightarrow>
          if st = PFree \<and> (case pd_reservationId r of None \<Rightarrow> False | Some i \<Rightarrow> i \<noteq> []) \<and> pd_selectedPort r = Some port
             \<and> \<not> releaseReservation (the (pd_reservationId r)) then PError
          else if st = PFree \<and> pd_selectedPort r \<noteq> Some port then PError
          else st)"

definition probeOne ::
  "ManagedHost \<Rightarrow> ProbeNetwork \<Rightarrow> int \<Rightarrow> string option + string \<Rightarrow> string \<Rightarrow> (string \<Rightarrow> bool) \<Rightarrow> probe_result_dto option list \<Rightarrow> ProbeOutcome" where
  "probeOne host network port created failureId releaseReservation polls =
     (case created of
        Inl error \<Rightarrow> \<lparr>o_hostId = h_id host, o_network = network, o_operationId = failureId, o_status = fst (safePreflightError error)\<rparr>
      | Inr operationId \<Rightarrow> \<lparr>o_hostId = h_id host, o_network = network, o_operationId = operationId,
          o_status = poll_loop port releaseReservation polls\<rparr>)"

section \<open>Runs\<close>

record started_run =
  sr_runId :: int
  sr_allocationVersion :: int
  sr_expiresAt :: int

definition startProbeRun ::
  "(string \<Rightarrow> string) \<Rightarrow> string \<Rightarrow> int \<Rightarrow> int \<Rightarrow> ManagedHost list \<Rightarrow> int \<Rightarrow> reclaim_db \<Rightarrow> started_run option \<times> reclaim_db" where
  "startProbeRun sha256 uuid allocationId port hosts now db =
     (let L = rdb_ledger db in
      case allocationById L allocationId of
        None \<Rightarrow> (None, db)
      | Some row \<Rightarrow>
          (case positiveInteger (a_version row) of
             None \<Rightarrow> (None, db)
           | Some version \<Rightarrow>
               if a_port row \<noteq> port \<or> a_status row \<notin> Text ` set waiting_statuses then (None, db)
               else if length (filter (\<lambda>r. r_allocationId r = allocationId) (references L)) \<noteq> 0 then (None, db)
               else (case cas_update allocationId version waiting_statuses
                       (\<lambda>a. bump now (a\<lparr>a_lastScanStartedAt := Some (epochSeconds now), a_lastErrorCode := None\<rparr>)) L of
                       None \<Rightarrow> (None, db)
                     | Some L' \<Rightarrow>
                         let allocationVersion = version + 1; expiresAt = now + RUN_TTL_MS;
                             run = \<lparr>pr_id = next_run db,
                               pr_probeTag = ''global-port-reclaim:v1:'' @ show_int allocationId @ '':'' @ show_int allocationVersion @ '':'' @ uuid,
                               pr_allocationId = allocationId, pr_allocationVersion = allocationVersion, pr_candidatePort = port,
                               pr_status = RUNNING, pr_hostSetHash = hostSetHash sha256 hosts, pr_expectedHostCount = length hosts,
                               pr_startedAt = epochSeconds now, pr_finishedAt = None, pr_expiresAt = epochSeconds expiresAt, pr_errorCode = None\<rparr> in
                         (Some \<lparr>sr_runId = next_run db, sr_allocationVersion = allocationVersion, sr_expiresAt = expiresAt\<rparr>,
                          db\<lparr>rdb_ledger := L', probe_runs := probe_runs db @ [run], next_run := next_run db + 1\<rparr>))))"

definition persistOutcomes :: "int \<Rightarrow> ProbeOutcome list \<Rightarrow> int \<Rightarrow> int \<Rightarrow> reclaim_db \<Rightarrow> reclaim_db" where
  "persistOutcomes runId outcomes expiresAt now db =
     db\<lparr>probe_results := probe_results db @ map (\<lambda>out. \<lparr>ps_probeRunId = runId, ps_hostId = o_hostId out, ps_network = o_network out,
          ps_operationId = o_operationId out, ps_status = o_status out, ps_probedAt = epochSeconds now, ps_expiresAt = epochSeconds expiresAt\<rparr>) outcomes\<rparr>"

definition update_run :: "int \<Rightarrow> (ProbeRunRow \<Rightarrow> ProbeRunRow) \<Rightarrow> reclaim_db \<Rightarrow> reclaim_db" where
  "update_run runId f db =
     db\<lparr>probe_runs := map (\<lambda>r. if pr_id r = runId \<and> pr_status r = RUNNING then f r else r) (probe_runs db)\<rparr>"

definition failRun :: "int \<Rightarrow> string \<Rightarrow> int \<Rightarrow> reclaim_db \<Rightarrow> reclaim_db" where
  "failRun runId errorCode now =
     update_run runId (\<lambda>r. r\<lparr>pr_status := FAILED, pr_finishedAt := Some (epochSeconds now), pr_errorCode := Some errorCode\<rparr>)"

datatype ScanResult = ScanFree | ScanOccupied | ScanDeferred

definition expected_keys :: "ManagedHost list \<Rightarrow> (int \<times> ProbeNetwork) list" where
  "expected_keys hosts = js_distinct (concat (map (\<lambda>h. [(h_id h, ProbeTcp), (h_id h, ProbeUdp)]) hosts))"

definition run_results :: "int \<Rightarrow> reclaim_db \<Rightarrow> ProbeResultRow list" where
  "run_results runId db = filter (\<lambda>r. ps_probeRunId r = runId) (probe_results db)"

definition results_complete :: "ManagedHost list \<Rightarrow> int \<Rightarrow> ProbeResultRow list \<Rightarrow> bool" where
  "results_complete expectedHosts now results \<longleftrightarrow>
     (let expectedKeys = expected_keys expectedHosts;
          resultKeys = js_distinct (map (\<lambda>r. (ps_hostId r, ps_network r)) results) in
      length results = length expectedKeys \<and> length resultKeys = length expectedKeys
      \<and> list_all (\<lambda>k. k \<in> set resultKeys) expectedKeys
      \<and> list_all (\<lambda>r. case databaseDate (Some (ps_expiresAt r)) of None \<Rightarrow> False | Some t \<Rightarrow> t > now) results)"

definition valid_lease :: "string \<Rightarrow> int \<Rightarrow> reclaim_db \<Rightarrow> bool" where
  "valid_lease ownerHash now db =
     (case scan_lease db of
        None \<Rightarrow> False
      | Some l \<Rightarrow> leaseOwner l = Some ownerHash \<and> (case databaseDate (leaseUntil l) of None \<Rightarrow> False | Some t \<Rightarrow> t > now))"

definition valid_snapshot ::
  "(string \<Rightarrow> string) \<Rightarrow> int \<Rightarrow> int \<Rightarrow> int \<Rightarrow> ManagedHost list \<Rightarrow> string \<Rightarrow> int \<Rightarrow> reclaim_db \<Rightarrow> bool" where
  "valid_snapshot sha256 runId allocationId allocationVersion expectedHosts ownerHash now db =
     (case (find (\<lambda>r. pr_id r = runId) (probe_runs db), allocationById (rdb_ledger db) allocationId) of
        (Some run, Some a) \<Rightarrow>
          pr_status run = RUNNING \<and> pr_allocationVersion run = allocationVersion
          \<and> pr_expectedHostCount run = length expectedHosts
          \<and> pr_hostSetHash run = hostSetHash sha256 expectedHosts
          \<and> a_version a = allocationVersion \<and> a_status a \<in> Text ` set waiting_statuses
          \<and> length (filter (\<lambda>r. r_allocationId r = allocationId) (references (rdb_ledger db))) = 0
          \<and> \<not> hasListenerDrift (a_port a) db
          \<and> length (managedHosts db) = length expectedHosts
          \<and> hostSetHash sha256 (managedHosts db) = hostSetHash sha256 expectedHosts
          \<and> results_complete expectedHosts now (run_results runId db)
          \<and> valid_lease ownerHash now db
      | _ \<Rightarrow> False)"

definition freed_row :: "int \<Rightarrow> AllocationRow \<Rightarrow> AllocationRow" where
  "freed_row now a = bump now (a\<lparr>a_status := Text FREE, a_ownerType := None, a_ownerTag := None, a_tokenHash := None,
     a_reservedUntil := None, a_scanNotBefore := None, a_lastScanFinishedAt := Some (epochSeconds now), a_lastErrorCode := None\<rparr>)"

definition rescan_row :: "int \<Rightarrow> GlobalPortAllocationStatus db_text \<Rightarrow> string \<Rightarrow> AllocationRow \<Rightarrow> AllocationRow" where
  "rescan_row now st errorCode a = bump now (a\<lparr>a_status := st, a_scanNotBefore := Some (epochSeconds (now + SCAN_INTERVAL_MS)),
     a_lastScanFinishedAt := Some (epochSeconds now), a_lastErrorCode := Some errorCode\<rparr>)"

definition finalizeProbeRun ::
  "(string \<Rightarrow> string) \<Rightarrow> int \<Rightarrow> int \<Rightarrow> int \<Rightarrow> ManagedHost list \<Rightarrow> string \<Rightarrow> int \<Rightarrow> reclaim_db \<Rightarrow> ScanResult \<times> reclaim_db" where
  "finalizeProbeRun sha256 runId allocationId allocationVersion expectedHosts ownerHash now db =
     (let stale = (ScanDeferred, failRun runId ''GLOBAL_PORT_SCAN_STALE'' now db); L = rdb_ledger db in
      if \<not> valid_snapshot sha256 runId allocationId allocationVersion expectedHosts ownerHash now db then stale
      else
        let results = run_results runId db;
            hasOccupied = list_ex (\<lambda>r. ps_status r = POccupied) results;
            allFree = (results \<noteq> [] \<and> list_all (\<lambda>r. ps_status r = PFree) results) in
        if allFree then
          (case cas_update allocationId allocationVersion waiting_statuses (freed_row now) L of
             None \<Rightarrow> stale
           | Some L' \<Rightarrow> (ScanFree, update_run runId (\<lambda>r. r\<lparr>pr_status := SUCCESS, pr_finishedAt := Some (epochSeconds now), pr_errorCode := None\<rparr>)
                            (db\<lparr>rdb_ledger := L'\<rparr>)))
        else
          let errorCode = (if hasOccupied then ''GLOBAL_PORT_EXTERNAL_OCCUPIED'' else ''GLOBAL_PORT_PROBE_FAILED'');
              status = (case allocationById L allocationId of None \<Rightarrow> OtherText | Some a \<Rightarrow> a_status a);
              nextStatus = (if hasOccupied then Text EXTERNAL_OCCUPIED else status) in
          (case cas_update allocationId allocationVersion waiting_statuses (rescan_row now nextStatus errorCode) L of
             None \<Rightarrow> stale
           | Some L' \<Rightarrow> ((if hasOccupied then ScanOccupied else ScanDeferred),
                update_run runId (\<lambda>r. r\<lparr>pr_status := (if hasOccupied then SUCCESS else FAILED), pr_finishedAt := Some (epochSeconds now),
                   pr_errorCode := (if hasOccupied then None else Some errorCode)\<rparr>) (db\<lparr>rdb_ledger := L'\<rparr>))))"

definition markDriftDeferred :: "int \<Rightarrow> int \<Rightarrow> reclaim_db \<Rightarrow> reclaim_db" where
  "markDriftDeferred allocationId now db =
     (let L = rdb_ledger db in
      db\<lparr>rdb_ledger := L\<lparr>allocations := map (\<lambda>a.
         if a_id a = allocationId \<and> a_status a \<in> Text ` set waiting_statuses \<and> \<not> list_ex (\<lambda>r. r_allocationId r = a_id a) (references L)
         then bump now (a\<lparr>a_lastScanStartedAt := Some (epochSeconds now), a_lastScanFinishedAt := Some (epochSeconds now),
                a_lastErrorCode := Some ''GLOBAL_PORT_REFERENCE_DRIFT'', a_scanNotBefore := Some (epochSeconds (now + SCAN_INTERVAL_MS))\<rparr>)
         else a) (allocations L)\<rparr>\<rparr>)"

section \<open>Scans\<close>

text \<open>What a scan meets outside: the times of its steps, the identifier of its run, the outcomes the hosts report (\<open>Inl\<close>
  with the outcomes already stored when probing or storing them throws), the transactions of others before the final one, and whether that throws. A
  scan that throws has the result \<open>None\<close>: \<open>return finalizeProbeRun(...)\<close> is not awaited inside the \<open>try\<close>, so that its
  failure is not caught there.\<close>

record scan_env =
  env_startedAt :: int
  env_uuid :: string
  env_probe :: "ManagedHost list \<Rightarrow> ProbeOutcome list + ProbeOutcome list"
  env_probedAt :: int
  env_others :: "reclaim_db \<Rightarrow> reclaim_db"
  env_finishedAt :: int
  env_finalizeThrows :: bool

definition scanAllocation ::
  "(string \<Rightarrow> string) \<Rightarrow> AllocationCandidate \<Rightarrow> string \<Rightarrow> scan_env \<Rightarrow> reclaim_db \<Rightarrow> ScanResult option \<times> reclaim_db" where
  "scanAllocation sha256 candidate ownerHash env db =
     (if hasListenerDrift (c_port candidate) db
      then (Some ScanDeferred, markDriftDeferred (c_id candidate) (env_startedAt env) db)
      else
        let hosts = managedHosts db in
        case startProbeRun sha256 (env_uuid env) (c_id candidate) (c_port candidate) hosts (env_startedAt env) db of
          (None, db1) \<Rightarrow> (Some ScanDeferred, db1)
        | (Some run, db1) \<Rightarrow>
            (case env_probe env hosts of
               Inl stored \<Rightarrow>
                 let db2 = env_others env (persistOutcomes (sr_runId run) stored (sr_expiresAt run) (env_probedAt env) db1) in
                 (Some ScanDeferred, failRun (sr_runId run) ''GLOBAL_PORT_PROBE_FAILED'' (env_finishedAt env) db2)
             | Inr outcomes \<Rightarrow>
                 let db2 = env_others env (persistOutcomes (sr_runId run) outcomes (sr_expiresAt run) (env_probedAt env) db1) in
                 if env_finalizeThrows env then (None, db2)
                 else (case finalizeProbeRun sha256 (sr_runId run) (c_id candidate) (sr_allocationVersion run) hosts ownerHash
                              (env_finishedAt env) db2 of
                         (r, db3) \<Rightarrow> (Some r, db3))))"

definition add_result :: "ScanResult \<Rightarrow> GlobalPortReclaimScanSummary \<Rightarrow> GlobalPortReclaimScanSummary" where
  "add_result r s =
     (let s1 = s\<lparr>sum_scanned := sum_scanned s + 1\<rparr> in
      case r of ScanFree \<Rightarrow> s1\<lparr>sum_freed := sum_freed s + 1\<rparr>
              | ScanOccupied \<Rightarrow> s1\<lparr>sum_occupied := sum_occupied s + 1\<rparr>
              | ScanDeferred \<Rightarrow> s1\<lparr>sum_deferred := sum_deferred s + 1\<rparr>)"

fun scan_loop ::
  "(string \<Rightarrow> string) \<Rightarrow> string \<Rightarrow> (AllocationCandidate \<Rightarrow> scan_env) \<Rightarrow> AllocationCandidate list \<Rightarrow> GlobalPortReclaimScanSummary
    \<Rightarrow> reclaim_db \<Rightarrow> GlobalPortReclaimScanSummary option \<times> reclaim_db" where
  "scan_loop sha256 ownerHash env [] summary db = (Some summary, db)"
| "scan_loop sha256 ownerHash env (c # cs) summary db =
     (case scanAllocation sha256 c ownerHash (env c) db of
        (None, db') \<Rightarrow> (None, db')
      | (Some r, db') \<Rightarrow> scan_loop sha256 ownerHash env cs (add_result r summary) db')"

definition empty_summary :: "bool \<Rightarrow> GlobalPortReclaimScanSummary" where
  "empty_summary acquired = \<lparr>sum_acquired = acquired, sum_scanned = 0, sum_freed = 0, sum_occupied = 0, sum_deferred = 0\<rparr>"

definition runGlobalPortReclaimScan ::
  "(string \<Rightarrow> string) \<Rightarrow> string \<Rightarrow> bool \<Rightarrow> (AllocationCandidate \<Rightarrow> scan_env) \<Rightarrow> int option \<Rightarrow> int \<Rightarrow> int \<Rightarrow> reclaim_db
    \<Rightarrow> GlobalPortReclaimScanSummary option \<times> reclaim_db" where
  "runGlobalPortReclaimScan sha256 ownerHash nullsFirst env batchSizeValue startedAt endedAt db =
     (let batchSize = max 1 (min 32 (case batchSizeValue of None \<Rightarrow> DEFAULT_BATCH_SIZE | Some n \<Rightarrow> n)) in
      case acquireLease ownerHash startedAt db of
        (False, db1) \<Rightarrow> (Some (empty_summary False), db1)
      | (True, db1) \<Rightarrow>
          (case scan_loop sha256 ownerHash env (eligibleAllocations nullsFirst startedAt (nat batchSize) db1) (empty_summary True) db1 of
             (s, db2) \<Rightarrow> (s, releaseLease ownerHash endedAt db2)))"

section \<open>Refinement of the ledger\<close>

text \<open>What reclaiming does to one allocation: it has no references and waits for a scan, and it goes on waiting or becomes
  free, with a new version.\<close>

inductive reclaim_step :: "allocation_view \<Rightarrow> allocation_view \<Rightarrow> bool" where
  scan: "a_status a \<in> Text ` set waiting_statuses \<Longrightarrow> a_status a' \<in> Text ` set (FREE # waiting_statuses)
    \<Longrightarrow> a_id a' = a_id a \<Longrightarrow> a_port a' = a_port a \<Longrightarrow> a_version a' = a_version a + 1 \<Longrightarrow> a_ownerTag a' = a_ownerTag a \<or> a_ownerTag a' = None
    \<Longrightarrow> reclaim_step (Some (a, [])) (Some (a', []))"

lemma reclaim_step_inv: "reclaim_step x y \<Longrightarrow> view_inv x \<Longrightarrow> view_inv y"
  by (erule reclaim_step.cases) (auto simp: view_inv_def waiting_statuses_def)

lemma reclaim_step_le: "reclaim_step x y \<Longrightarrow> view_le x y"
  by (erule reclaim_step.cases) (auto simp: view_le_def)

definition reclaims :: "ledger \<Rightarrow> ledger \<Rightarrow> bool" where
  "reclaims L L' \<longleftrightarrow> tables_inv L' \<and> (\<forall>i. view L' i = view L i \<or> reclaim_step (view L i) (view L' i))"

lemma reclaims_refl [simp]: "reclaims L L \<longleftrightarrow> tables_inv L"
  by (simp add: reclaims_def)

lemma reclaims_inv: "reclaims L L' \<Longrightarrow> ledger_inv L \<Longrightarrow> ledger_inv L' \<and> view_le (view L i) (view L' i)"
  unfolding reclaims_def ledger_inv_view using reclaim_step_inv reclaim_step_le view_le_refl by metis

text \<open>A compare-and-set on a waiting allocation without references is such a step.\<close>

lemma cas_reclaims:
  assumes cas: "cas_update i v waiting_statuses f L = Some L'" and t: "tables_inv L" and refs: "refs_of L i = []"
    and f: "\<And>a. a_id (f a) = a_id a" "\<And>a. a_port (f a) = a_port a" "\<And>a. a_version (f a) = a_version a + 1"
      "\<And>a. a_ownerTag (f a) = a_ownerTag a \<or> a_ownerTag (f a) = None"
    and st: "\<And>a. allocationById L i = Some a \<Longrightarrow> a_status a \<in> Text ` set waiting_statuses \<Longrightarrow> a_status (f a) \<in> Text ` set (FREE # waiting_statuses)"
  shows "reclaims L L'"
proof (rule cas_update_anyD [OF cas t f(1,2)])
  fix a assume a: "allocationById L i = Some a" "a_status a \<in> Text ` set waiting_statuses" "tables_inv L'"
    "allocationById L' i = Some (f a)" "references L' = references L"
    and other: "\<And>j. j \<noteq> i \<Longrightarrow> allocationById L' j = allocationById L j"
  have r: "refs_of L' = refs_of L" by (rule refs_of_eq [OF a(5)])
  have step: "reclaim_step (view L i) (view L' i)"
    unfolding view_def a(1,4) r refs option.map by (rule reclaim_step.scan) (use a st f in auto)
  have "view L' j = view L j" if "j \<noteq> i" for j using other [OF that] by (simp add: view_def r)
  with step a(3) show ?thesis unfolding reclaims_def by metis
qed

lemma update_run_ledger [simp]: "rdb_ledger (update_run k f db) = rdb_ledger db"
  by (simp add: update_run_def)

lemma failRun_ledger [simp]: "rdb_ledger (failRun k e t db) = rdb_ledger db"
  by (simp add: failRun_def)

lemma no_refs_iff: "length (filter (\<lambda>r. r_allocationId r = i) (references L)) = 0 \<longleftrightarrow> refs_of L i = []"
  by (simp add: refs_of_def)

lemma start_reclaims:
  assumes "tables_inv (rdb_ledger db)" "startProbeRun sha256 uuid i port hosts now db = (r, db')"
  shows "reclaims (rdb_ledger db) (rdb_ledger db')"
proof (cases r)
  case None
  then have "db' = db" using assms(2) by (auto simp: startProbeRun_def Let_def split: option.splits if_splits)
  then show ?thesis using assms(1) by simp
next
  case (Some run)
  let ?f = "\<lambda>a. bump now (a\<lparr>a_lastScanStartedAt := Some (epochSeconds now), a_lastErrorCode := None\<rparr>)"
  obtain v where "cas_update i v waiting_statuses ?f (rdb_ledger db) = Some (rdb_ledger db')" "refs_of (rdb_ledger db) i = []"
    using assms(2) Some by (auto simp: startProbeRun_def Let_def no_refs_iff [symmetric] split: option.splits if_splits)
  then show ?thesis
    by (elim cas_reclaims [OF _ assms(1)]) auto
qed

text \<open>Every way the final transaction of a run can go.\<close>

lemma finalize_cases:
  assumes fin: "finalizeProbeRun sha256 k i v hosts owner now db = (r, db')"
  obtains (stale) "r = ScanDeferred" "db' = failRun k ''GLOBAL_PORT_SCAN_STALE'' now db"
  | (freed) "valid_snapshot sha256 k i v hosts owner now db" "run_results k db \<noteq> []"
      "list_all (\<lambda>p. ps_status p = PFree) (run_results k db)" "r = ScanFree"
      "cas_update i v waiting_statuses (freed_row now) (rdb_ledger db) = Some (rdb_ledger db')"
  | (rescan) st e where "valid_snapshot sha256 k i v hosts owner now db" "r \<noteq> ScanFree"
      "st = Text EXTERNAL_OCCUPIED \<or> st = (case allocationById (rdb_ledger db) i of None \<Rightarrow> OtherText | Some a \<Rightarrow> a_status a)"
      "cas_update i v waiting_statuses (rescan_row now st e) (rdb_ledger db) = Some (rdb_ledger db')"
proof (cases "valid_snapshot sha256 k i v hosts owner now db")
  case False
  then show ?thesis using fin stale by (simp add: finalizeProbeRun_def Let_def)
next
  case snap: True
  show ?thesis
  proof (cases "run_results k db \<noteq> [] \<and> list_all (\<lambda>p. ps_status p = PFree) (run_results k db)")
    case all: True
    show ?thesis
    proof (cases "cas_update i v waiting_statuses (freed_row now) (rdb_ledger db)")
      case None
      then show ?thesis using fin snap all stale by (simp add: finalizeProbeRun_def Let_def)
    next
      case (Some L')
      have "r = ScanFree" "rdb_ledger db' = L'"
        using fin snap all Some by (auto simp: finalizeProbeRun_def Let_def)
      then show ?thesis using freed snap all Some by simp
    qed
  next
    case nall: False
    define occ where "occ = list_ex (\<lambda>p. ps_status p = POccupied) (run_results k db)"
    define st where "st = (if occ then Text EXTERNAL_OCCUPIED else (case allocationById (rdb_ledger db) i of None \<Rightarrow> OtherText | Some a \<Rightarrow> a_status a))"
    define e where "e = (if occ then ''GLOBAL_PORT_EXTERNAL_OCCUPIED'' else ''GLOBAL_PORT_PROBE_FAILED'')"
    note F = fin [unfolded finalizeProbeRun_def Let_def if_not_P [OF nall] occ_def [symmetric] st_def [symmetric] e_def [symmetric]]
    show ?thesis
    proof (cases "cas_update i v waiting_statuses (rescan_row now st e) (rdb_ledger db)")
      case None
      then show ?thesis using F snap stale by simp
    next
      case (Some L')
      have "r = (if occ then ScanOccupied else ScanDeferred)" "rdb_ledger db' = L'" using F snap Some by auto
      then show ?thesis using rescan [OF snap _ _ Some [folded \<open>rdb_ledger db' = L'\<close>]] by (auto simp: st_def)
    qed
  qed
qed

lemma snapshot_refs: "valid_snapshot sha256 k i v hosts owner now db \<Longrightarrow> refs_of (rdb_ledger db) i = []"
  by (auto simp: valid_snapshot_def no_refs_iff [symmetric] split: option.splits)

lemma finalize_reclaims:
  assumes t: "tables_inv (rdb_ledger db)" and fin: "finalizeProbeRun sha256 k i v hosts owner now db = (r, db')"
  shows "reclaims (rdb_ledger db) (rdb_ledger db')"
  using fin
proof (cases rule: finalize_cases)
  case stale
  then show ?thesis using t by simp
next
  case freed
  then show ?thesis by (intro cas_reclaims [OF freed(5) t snapshot_refs [OF freed(1)]]) (auto simp: freed_row_def)
next
  case (rescan st e)
  show ?thesis
    by (rule cas_reclaims [OF rescan(4) t snapshot_refs [OF rescan(1)]])
      (use rescan(3) in \<open>auto simp: rescan_row_def waiting_statuses_def\<close>)
qed

lemma drift_reclaims:
  assumes t: "tables_inv (rdb_ledger db)"
  shows "reclaims (rdb_ledger db) (rdb_ledger (markDriftDeferred i now db))"
proof -
  let ?L = "rdb_ledger db"
  define hit where "hit = (\<lambda>a :: AllocationRow. a_id a = i \<and> a_status a \<in> Text ` set waiting_statuses \<and> \<not> list_ex (\<lambda>r. r_allocationId r = a_id a) (references ?L))"
  define f where "f = (\<lambda>a :: AllocationRow. bump now (a\<lparr>a_lastScanStartedAt := Some (epochSeconds now), a_lastScanFinishedAt := Some (epochSeconds now),
    a_lastErrorCode := Some ''GLOBAL_PORT_REFERENCE_DRIFT'', a_scanNotBefore := Some (epochSeconds (now + SCAN_INTERVAL_MS))\<rparr>))"
  define g where "g = (\<lambda>a. if hit a then f a else a)"
  have L': "rdb_ledger (markDriftDeferred i now db) = ?L\<lparr>allocations := map g (allocations ?L)\<rparr>"
    unfolding g_def hit_def f_def by (simp add: markDriftDeferred_def Let_def)
  have g: "a_id (g a) = a_id a" "a_port (g a) = a_port a" for a by (simp_all add: g_def f_def)
  have upd: "allocationById (?L\<lparr>allocations := map g (allocations ?L)\<rparr>) j = map_option g (allocationById ?L j)" for j
    using find_map_keep [where f = a_id and g = g] g(1) by (simp add: allocationById_def)
  have "view (?L\<lparr>allocations := map g (allocations ?L)\<rparr>) j = view ?L j
      \<or> reclaim_step (view ?L j) (view (?L\<lparr>allocations := map g (allocations ?L)\<rparr>) j)" for j
  proof (cases "allocationById ?L j")
    case None
    then show ?thesis by (simp add: view_def upd)
  next
    case (Some a)
    have id: "a_id a = j" using Some t by (simp add: allocationById_iff)
    have refs: "refs_of (?L\<lparr>allocations := map g (allocations ?L)\<rparr>) j = refs_of ?L j" by (simp add: refs_of_def)
    show ?thesis
    proof (cases "hit a")
      case False
      then have "g a = a" by (simp add: g_def)
      then show ?thesis by (simp add: view_def upd Some refs)
    next
      case True
      then have "refs_of ?L j = []" "a_status a \<in> Text ` set waiting_statuses"
        by (auto simp: hit_def refs_of_def id list_ex_iff filter_empty_conv)
      then have "reclaim_step (Some (a, [])) (Some (g a, []))"
        by (intro reclaim_step.scan) (auto simp: g_def True f_def)
      then show ?thesis using \<open>refs_of ?L j = []\<close> by (simp add: view_def upd Some refs)
    qed
  qed
  then show ?thesis unfolding reclaims_def L' using tables_inv_map [OF t g] by blast
qed

text \<open>Everything that may happen to the database: the transactions of the ledger, those of a scan, and changes of the
  tables beside the ledger, the Xray inbounds and the quick configurations among them.\<close>

inductive reclaim_txn :: "(string \<Rightarrow> string) \<Rightarrow> reclaim_db \<Rightarrow> reclaim_db \<Rightarrow> bool" for sha256 where
  by_ledger: "ledger_txn sha256 (rdb_ledger db) L' \<Longrightarrow> reclaim_txn sha256 db (db\<lparr>rdb_ledger := L'\<rparr>)"
| by_start: "startProbeRun sha256 uuid i port hosts now db = (r, db') \<Longrightarrow> reclaim_txn sha256 db db'"
| by_finalize: "finalizeProbeRun sha256 k i v hosts owner now db = (res, db') \<Longrightarrow> reclaim_txn sha256 db db'"
| by_drift: "reclaim_txn sha256 db (markDriftDeferred i now db)"
| beside: "rdb_ledger db' = (rdb_ledger db)\<lparr>xray_inbounds := xs, quick_configs := qs\<rparr> \<Longrightarrow> reclaim_txn sha256 db db'"

lemma resources_beside_ledger:
  defines "L' L xs qs \<equiv> L\<lparr>xray_inbounds := xs, quick_configs := qs\<rparr>"
  shows "view (L' L xs qs) i = view L i" "ledger_inv (L' L xs qs) = ledger_inv L"
  by (simp_all add: assms view_def ledger_inv_def tables_inv_def refs_of_def allocationById_def)

lemma reclaim_txn_inv:
  assumes "reclaim_txn sha256 db db'" "ledger_inv (rdb_ledger db)"
  shows "ledger_inv (rdb_ledger db') \<and> view_le (view (rdb_ledger db) i) (view (rdb_ledger db') i)"
  using assms(1)
proof cases
  have t: "tables_inv (rdb_ledger db)" using assms(2) by (simp add: ledger_inv_def)
  {
    case (by_ledger L')
    have "moves (rdb_ledger db) L'" by (rule ledger_txn_moves [OF by_ledger(2) t])
    then have "view_le (view (rdb_ledger db) i) (view L' i)" by (simp add: moves_def ledger_steps_le)
    moreover have "(ledger_txn sha256)\<^sup>*\<^sup>* (rdb_ledger db) L'" using by_ledger(2) by (rule r_into_rtranclp)
    then have "ledger_inv L'" using assms(2) by (rule ledger_runs_inv)
    ultimately show ?thesis by (simp add: by_ledger(1))
  next
    case by_start
    then show ?thesis using reclaims_inv [OF start_reclaims [OF t] assms(2)] by blast
  next
    case by_finalize
    then show ?thesis using reclaims_inv [OF finalize_reclaims [OF t] assms(2)] by blast
  next
    case (by_drift j now)
    then show ?thesis using reclaims_inv [OF drift_reclaims [OF t] assms(2)] by blast
  next
    case (beside xs qs)
    then show ?thesis using assms(2) by (simp add: resources_beside_ledger view_le_refl)
  }
qed

section \<open>The set of hosts\<close>

lemma show_int_comma: "0 < n \<Longrightarrow> CHR '','' \<notin> set (show_int n)" "show_int n \<noteq> []"
proof -
  show "0 < n \<Longrightarrow> CHR '','' \<notin> set (show_int n)"
    using show_nat_digits [of "nat n"] is_digit_signs(10) by (auto simp: show_int_def list_all_iff)
qed (simp add: show_int_def)

lemma join_ints_inj:
  assumes "\<forall>n\<in>set xs. 0 < n" "\<forall>n\<in>set ys. 0 < n" "js_join '','' (map show_int xs) = js_join '','' (map show_int ys)"
  shows "xs = ys"
proof -
  have split: "js_split CHR '','' (js_join '','' (map show_int zs)) = (if zs = [] then [[]] else map show_int zs)"
    if "\<forall>n\<in>set zs. 0 < n" for zs :: "int list"
    using js_split_join [of "map show_int zs" "CHR '',''"] that show_int_comma(1) by auto
  have "(if xs = [] then [[]] else map show_int xs) = (if ys = [] then [[]] else map show_int ys)"
    using split [OF assms(1)] split [OF assms(2)] assms(3) by simp
  moreover have "map show_int zs \<noteq> [[]]" for zs using show_int_comma(2) by (cases zs) auto
  ultimately have m: "map show_int xs = map show_int ys" by (metis map_is_Nil_conv)
  have "inj_on show_int {n. 0 < n}"
    by (rule inj_onI) (metis digits_val_show_nat mem_Collect_eq nat_eq_iff2 less_le not_le show_int_def)
  then show ?thesis
    using m assms(1,2) by (intro map_inj_on [OF m]) (auto intro: inj_on_subset)
qed

lemma host_set_hash_ids:
  assumes "\<And>s t. sha256 s = sha256 t \<Longrightarrow> s = t" "hostSetHash sha256 hs = hostSetHash sha256 hs'"
    "list_all (\<lambda>h. 0 < h_id h) hs" "list_all (\<lambda>h. 0 < h_id h) hs'"
  shows "h_id ` set hs = h_id ` set hs'"
proof -
  have "host_set_text hs = host_set_text hs'" using assms(1,2) by (simp add: hostSetHash_def)
  then have "js_join '','' (map show_int (sort (map h_id hs))) = js_join '','' (map show_int (sort (map h_id hs')))"
    by (simp add: host_set_text_def)
  then have "sort (map h_id hs) = sort (map h_id hs')"
    by (rule join_ints_inj [rotated 2]) (use assms(3,4) in \<open>auto simp: list_all_iff\<close>)
  then have "set (sort (map h_id hs)) = set (sort (map h_id hs'))" by simp
  then show ?thesis by simp
qed

lemma managed_positive: "list_all (\<lambda>h. 0 < h_id h) (managedHosts db)"
  by (auto simp: managedHosts_def list_all_iff positiveInteger_def split: if_splits)

lemma set_expected_keys: "set (expected_keys hosts) = {(h_id h, n) | h n. h \<in> set hosts}"
proof -
  have "n = ProbeTcp \<or> n = ProbeUdp" for n by (cases n) auto
  then show ?thesis by (auto simp: expected_keys_def)
qed

section \<open>An undisturbed scan\<close>

lemma cas_update_any_ok:
  assumes "tables_inv L" "allocationById L i = Some a" "a_version a = v" "a_status a \<in> Text ` set sts"
  obtains L' where "cas_update i v sts f L = Some L'"
proof -
  have a: "a \<in> set (allocations L)" "a_id a = i" using assms(1,2) by (auto simp: allocationById_iff)
  have uniq: "r = a" if "r \<in> set (allocations L)" "a_id r = i" for r
    using assms(1) a that by (auto simp: tables_inv_def distinct_map dest: inj_onD)
  have hit: "cas_hit i v sts r \<longleftrightarrow> a_id r = i" if "r \<in> set (allocations L)" for r
    using uniq [OF that] a assms(3,4) by (auto simp: cas_hit_def)
  have "filter (cas_hit i v sts) (allocations L) = [a]"
  proof (rule singleton_by_key [of a_id])
    show "distinct (map a_id (filter (cas_hit i v sts) (allocations L)))"
      using assms(1) by (simp add: tables_inv_def distinct_map_filter)
  qed (use a hit in auto)
  then show thesis using that by (simp add: cas_update_def)
qed

text \<open>Run identifiers are generated: no run and no result has the next one.\<close>

definition runs_ok :: "reclaim_db \<Rightarrow> bool" where
  "runs_ok db \<longleftrightarrow> list_all (\<lambda>r. pr_id r < next_run db) (probe_runs db) \<and> list_all (\<lambda>p. ps_probeRunId p < next_run db) (probe_results db)"

lemma start_ok:
  assumes t: "tables_inv (rdb_ledger db)" and ok: "runs_ok db"
    and a: "allocationById (rdb_ledger db) i = Some a" "a_port a = port" "a_status a \<in> Text ` set waiting_statuses"
      "0 < a_version a" "a_version a \<le> MAX_SAFE_INTEGER" "refs_of (rdb_ledger db) i = []"
  obtains dbn anew run where
    "startProbeRun digest uuid i port hosts now db =
       (Some \<lparr>sr_runId = next_run db, sr_allocationVersion = a_version a + 1, sr_expiresAt = now + RUN_TTL_MS\<rparr>, dbn)"
    "tables_inv (rdb_ledger dbn)" "allocationById (rdb_ledger dbn) i = Some anew" "a_version anew = a_version a + 1" "a_port anew = port"
    "a_status anew = a_status a" "references (rdb_ledger dbn) = references (rdb_ledger db)"
    "xray_inbounds (rdb_ledger dbn) = xray_inbounds (rdb_ledger db)"
    "find (\<lambda>r. pr_id r = next_run db) (probe_runs dbn) = Some run" "pr_status run = RUNNING" "pr_allocationVersion run = a_version a + 1"
    "pr_expectedHostCount run = length hosts" "pr_hostSetHash run = hostSetHash digest hosts"
    "host_rows dbn = host_rows db" "rule_ports dbn = rule_ports db" "scan_lease dbn = scan_lease db" "probe_results dbn = probe_results db"
proof -
  let ?f = "\<lambda>a. bump now (a\<lparr>a_lastScanStartedAt := Some (epochSeconds now), a_lastErrorCode := None\<rparr>)"
  obtain L' where L': "cas_update i (a_version a) waiting_statuses ?f (rdb_ledger db) = Some L'"
    by (rule cas_update_any_ok [OF t a(1) refl a(3)])
  have x: "xray_inbounds L' = xray_inbounds (rdb_ledger db)" using L' by (auto simp: cas_update_def split: if_splits)
  define run where "run = \<lparr>pr_id = next_run db,
      pr_probeTag = ''global-port-reclaim:v1:'' @ show_int i @ '':'' @ show_int (a_version a + 1) @ '':'' @ uuid,
      pr_allocationId = i, pr_allocationVersion = a_version a + 1, pr_candidatePort = port,
      pr_status = RUNNING, pr_hostSetHash = hostSetHash digest hosts, pr_expectedHostCount = length hosts,
      pr_startedAt = epochSeconds now, pr_finishedAt = None, pr_expiresAt = epochSeconds (now + RUN_TTL_MS), pr_errorCode = None\<rparr>"
  define dbn where "dbn = db\<lparr>rdb_ledger := L', probe_runs := probe_runs db @ [run], next_run := next_run db + 1\<rparr>"
  have pi: "positiveInteger (a_version a) = Some (a_version a)" using a(4,5) by (simp add: positiveInteger_def)
  have start: "startProbeRun digest uuid i port hosts now db =
      (Some \<lparr>sr_runId = next_run db, sr_allocationVersion = a_version a + 1, sr_expiresAt = now + RUN_TTL_MS\<rparr>, dbn)"
    using a(2,3,6) by (simp add: startProbeRun_def Let_def a(1) pi L' dbn_def run_def no_refs_iff [simplified])
  have "find (\<lambda>r. pr_id r = next_run db) (probe_runs db) = None"
    using ok by (auto simp: find_None_iff runs_ok_def list_all_iff)
  then have fnd: "find (\<lambda>r. pr_id r = next_run db) (probe_runs dbn) = Some run"
    by (simp add: dbn_def find_snoc run_def)
  show thesis
  proof (rule cas_update_anyD [OF L' t])
    fix b assume b: "allocationById (rdb_ledger db) i = Some b" "tables_inv L'" "allocationById L' i = Some (?f b)"
      "references L' = references (rdb_ledger db)"
    have "b = a" using b(1) a(1) by simp
    show thesis
      by (rule that [where anew = "?f a", OF start _ _ _ _ _ _ _ fnd]) (use b a x \<open>b = a\<close> in \<open>simp_all add: dbn_def run_def\<close>)
  qed simp_all
qed

lemma expiry_time:
  assumes "0 \<le> t" "t < 10000000000000" "now < 1000 * (t div 1000)"
  shows "databaseDate (Some (epochSeconds t)) = Some (1000 * (t div 1000))"
  using assms by (auto simp: databaseDate_def dateFromDatabase_def epochSeconds_def)

text \<open>Scans exclude each other and start at least twelve hours apart, to the second, even if the earlier one has
  released its lease.\<close>

lemma scans_spaced:
  assumes "acquireLease first start1 db = (True, db1)" "scan_lease db2 = scan_lease (releaseLease first end1 db1) \<or> scan_lease db2 = scan_lease db1"
    "acquireLease second start2 db2 = (True, db3)"
  shows "start1 + SCAN_INTERVAL_MS < start2 + 1000"
proof -
  obtain l where "scan_lease db2 = Some l" "lastStartedAt l = Some (epochSeconds start1)"
    using assms(1,2) by (auto simp: acquireLease_def releaseLease_def split: option.splits if_splits)
  then have "epochSeconds start1 \<le> epochSeconds (start2 - SCAN_INTERVAL_MS)"
    using assms(3) by (auto simp: acquireLease_def split: if_splits)
  then show ?thesis unfolding epochSeconds_def by linarith
qed

text \<open>A failure of the final transaction is not caught: the scan throws and the run stays \<open>RUNNING\<close>.\<close>

lemma thrown_finalize_leaves_run:
  assumes t: "tables_inv (rdb_ledger db)" "runs_ok db"
    and a: "allocationById (rdb_ledger db) (c_id c) = Some a" "a_port a = c_port c" "a_status a \<in> Text ` set waiting_statuses"
      "0 < a_version a" "a_version a \<le> MAX_SAFE_INTEGER" "refs_of (rdb_ledger db) (c_id c) = []"
    and env: "\<not> hasListenerDrift (c_port c) db" "env_others env = (\<lambda>d. d)" "env_finalizeThrows env"
      "env_probe env (managedHosts db) = Inr outs"
  shows "\<exists>db' run. scanAllocation sha256 c owner env db = (None, db')
    \<and> find (\<lambda>r. pr_id r = next_run db) (probe_runs db') = Some run \<and> pr_status run = RUNNING"
proof (rule start_ok [OF t a, where digest = sha256 and uuid = "env_uuid env" and hosts = "managedHosts db" and now = "env_startedAt env"])
  fix db1 a1 run
  assume "startProbeRun sha256 (env_uuid env) (c_id c) (c_port c) (managedHosts db) (env_startedAt env) db =
       (Some \<lparr>sr_runId = next_run db, sr_allocationVersion = a_version a + 1, sr_expiresAt = env_startedAt env + RUN_TTL_MS\<rparr>, db1)"
    "find (\<lambda>r. pr_id r = next_run db) (probe_runs db1) = Some run" "pr_status run = RUNNING"
  then show ?thesis using env by (simp add: scanAllocation_def Let_def persistOutcomes_def)
qed

section \<open>Properties\<close>

definition waiting_row :: AllocationRow where
  "waiting_row = \<lparr>a_id = 1, a_port = 20000, a_status = Text PENDING_SCAN, a_ownerType = None, a_ownerTag = None, a_tokenHash = None,
     a_reservedUntil = None, a_scanNotBefore = None, a_lastScanStartedAt = None, a_lastScanFinishedAt = None, a_lastErrorCode = None,
     a_version = 4, a_updatedAt = 0\<rparr>"

definition sample_db :: reclaim_db where
  "sample_db = \<lparr>rdb_ledger = \<lparr>allocations = [waiting_row], references = [], next_allocation = 2, next_reference = 1,
       xray_inbounds = [], quick_configs = []\<rparr>,
     probe_runs = [], probe_results = [], next_run = 1,
     scan_lease = Some \<lparr>leaseOwner = Some ''o'', leaseUntil = Some 2000, lastStartedAt = Some 1000, lastFinishedAt = None, leaseUpdatedAt = 1000\<rparr>,
     host_rows = [\<lparr>h_id = 7, h_userId = 1\<rparr>], rule_ports = []\<rparr>"

definition sample_outcomes :: "ProbeOutcome list" where
  "sample_outcomes = [\<lparr>o_hostId = 7, o_network = ProbeTcp, o_operationId = ''p'', o_status = PFree\<rparr>,
     \<lparr>o_hostId = 7, o_network = ProbeUdp, o_operationId = ''q'', o_status = PFree\<rparr>]"

definition sample_env :: scan_env where
  "sample_env = \<lparr>env_startedAt = 1000000, env_uuid = ''u'', env_probe = (\<lambda>hosts. Inr sample_outcomes), env_probedAt = 1010000,
     env_others = (\<lambda>d. d), env_finishedAt = 1020000, env_finalizeThrows = False\<rparr>"

definition probed_db :: reclaim_db where
  "probed_db = persistOutcomes 1 sample_outcomes 1120000 1010000
     (snd (startProbeRun (\<lambda>s. s) ''u'' 1 20000 [\<lparr>h_id = 7, h_userId = 1\<rparr>] 1000000 sample_db))"

lemma sample_inv: "ledger_inv (rdb_ledger sample_db)"
  by (simp add: sample_db_def ledger_inv_def tables_inv_def waiting_row_def view_inv_def refs_of_def)

lemma probed_inv: "ledger_inv (rdb_ledger probed_db)"
proof -
  obtain r db' where s: "startProbeRun (\<lambda>s. s) ''u'' 1 20000 [\<lparr>h_id = 7, h_userId = 1\<rparr>] 1000000 sample_db = (r, db')" by force
  have "rdb_ledger probed_db = rdb_ledger db'" by (simp add: probed_db_def s persistOutcomes_def)
  then show ?thesis using reclaim_txn_inv [OF reclaim_txn.by_start [OF s] sample_inv] by simp
qed

text \<open>C1: A scan frees a port only if, in the very transaction that frees it, nothing refers to it and no listener uses it,
  nobody changed the allocation since the scan started, the scan still holds its lease, and every host the panel manages
  at that moment has an unexpired result for TCP and for UDP and all of them say the port is free. The allocation is
  then free and unowned under a new version; no other outcome makes any allocation free.\<close>

theorem port_freed_only_when_all_hosts_agree:
  assumes sha256_inj: "\<And>s t. sha256 s = sha256 t \<Longrightarrow> s = t" and t: "tables_inv (rdb_ledger db)"
    and hosts: "list_all (\<lambda>h. 0 < h_id h) hosts" and fin: "finalizeProbeRun sha256 k i v hosts owner now db = (r, db')"
  shows "(r = ScanFree \<longrightarrow> (\<exists>a. allocationById (rdb_ledger db) i = Some a \<and> a_version a = v
        \<and> refs_of (rdb_ledger db) i = [] \<and> \<not> hasListenerDrift (a_port a) db \<and> valid_lease owner now db
        \<and> allocationById (rdb_ledger db') i = Some (freed_row now a)
        \<and> (\<forall>h n. h \<in> set (managedHosts db) \<longrightarrow> (\<exists>p. p \<in> set (run_results k db) \<and> ps_hostId p = h_id h \<and> ps_network p = n
             \<and> ps_status p = PFree \<and> (\<exists>e. databaseDate (Some (ps_expiresAt p)) = Some e \<and> now < e)))))
    \<and> (r \<noteq> ScanFree \<longrightarrow> (\<forall>j a'. allocationById (rdb_ledger db') j = Some a' \<and> a_status a' = Text FREE
         \<longrightarrow> allocationById (rdb_ledger db) j = Some a'))"
  using fin
proof (cases rule: finalize_cases)
  case stale
  then show ?thesis by simp
next
  case freed
  obtain a where a: "allocationById (rdb_ledger db) i = Some a" "a_version a = v" "\<not> hasListenerDrift (a_port a) db"
    "hostSetHash sha256 (managedHosts db) = hostSetHash sha256 hosts" "results_complete hosts now (run_results k db)" "valid_lease owner now db"
    using freed(1) by (auto simp: valid_snapshot_def split: option.splits)
  have new: "allocationById (rdb_ledger db') i = Some (freed_row now a)"
    by (rule cas_update_anyD [OF freed(5) t]) (use a(1) in \<open>auto simp: freed_row_def\<close>)
  have ids: "h_id ` set (managedHosts db) = h_id ` set hosts"
    by (rule host_set_hash_ids [OF sha256_inj a(4) managed_positive hosts])
  have probed: "\<exists>p. p \<in> set (run_results k db) \<and> ps_hostId p = h_id h \<and> ps_network p = n
      \<and> ps_status p = PFree \<and> (\<exists>e. databaseDate (Some (ps_expiresAt p)) = Some e \<and> now < e)"
    if h: "h \<in> set (managedHosts db)" for h n
  proof -
    have "h_id h \<in> h_id ` set hosts" using h ids by blast
    then have "(h_id h, n) \<in> set (expected_keys hosts)" by (auto simp: set_expected_keys)
    then obtain p where p: "p \<in> set (run_results k db)" "ps_hostId p = h_id h" "ps_network p = n"
      using a(5) by (auto simp: results_complete_def Let_def list_all_iff)
    moreover have "ps_status p = PFree" using freed(3) p(1) by (simp add: list_all_iff)
    moreover have "case databaseDate (Some (ps_expiresAt p)) of None \<Rightarrow> False | Some e \<Rightarrow> now < e"
      using a(5) p(1) by (simp add: results_complete_def Let_def list_all_iff)
    ultimately show ?thesis by (auto split: option.splits)
  qed
  show ?thesis using freed(4) a new probed snapshot_refs [OF freed(1)] by blast
next
  case (rescan st e)
  have "allocationById (rdb_ledger db) j = Some a'"
    if "allocationById (rdb_ledger db') j = Some a'" "a_status a' = Text FREE" for j a'
  proof (rule cas_update_anyD [OF rescan(4) t])
    fix a assume a: "allocationById (rdb_ledger db) i = Some a" "a_status a \<in> Text ` set waiting_statuses"
      "allocationById (rdb_ledger db') i = Some (rescan_row now st e a)"
      and other: "\<And>j. j \<noteq> i \<Longrightarrow> allocationById (rdb_ledger db') j = allocationById (rdb_ledger db) j"
    have "j \<noteq> i" using that a rescan(3) by (auto simp: rescan_row_def waiting_statuses_def)
    then show ?thesis using other that(1) by simp
  qed (simp_all add: rescan_row_def)
  then show ?thesis using rescan(2) by blast
qed

theorem port_freed_only_when_all_hosts_agree_witness:
  "fst (finalizeProbeRun (\<lambda>s. s) 1 1 5 [\<lparr>h_id = 7, h_userId = 1\<rparr>] ''o'' 1020000 probed_db) = ScanFree
   \<and> (\<exists>a p. allocationById (rdb_ledger probed_db) 1 = Some a \<and> \<not> hasListenerDrift (a_port a) probed_db
        \<and> p \<in> set (run_results 1 probed_db) \<and> ps_hostId p = 7 \<and> ps_network p = ProbeUdp \<and> ps_status p = PFree)"
proof -
  obtain r db' where fin: "finalizeProbeRun (\<lambda>s. s) 1 1 5 [\<lparr>h_id = 7, h_userId = 1\<rparr>] ''o'' 1020000 probed_db = (r, db')" by force
  have r: "fst (finalizeProbeRun (\<lambda>s. s) 1 1 5 [\<lparr>h_id = 7, h_userId = 1\<rparr>] ''o'' 1020000 probed_db) = ScanFree" by code_simp
  have h: "managedHosts probed_db = [\<lparr>h_id = 7, h_userId = 1\<rparr>]" by code_simp
  have "tables_inv (rdb_ledger probed_db)" using probed_inv by (simp add: ledger_inv_def)
  from port_freed_only_when_all_hosts_agree [OF _ this _ fin] r show ?thesis by (fastforce simp: fin h)
qed

text \<open>C4: Whatever transactions of the ledger and of port scans run, in any order, the ledger keeps its invariant, no
  allocation disappears or changes its port, and every change of an allocation gives it a higher version.\<close>

theorem ledger_and_reclaim_interleave:
  assumes "(reclaim_txn sha256)\<^sup>*\<^sup>* db db'" "ledger_inv (rdb_ledger db)"
  shows "ledger_inv (rdb_ledger db') \<and> (\<forall>i. view_le (view (rdb_ledger db) i) (view (rdb_ledger db') i))"
  using assms(1)
proof (induction rule: rtranclp_induct)
  case base
  then show ?case using assms(2) by simp
next
  case (step db1 db2)
  then show ?case using reclaim_txn_inv [OF step.hyps(2)] view_le_trans by blast
qed


theorem ledger_and_reclaim_interleave_witness:
  "ledger_inv (rdb_ledger probed_db) \<and> view_le (view (rdb_ledger sample_db) 1) (view (rdb_ledger probed_db) 1)"
proof -
  obtain r db' where s: "startProbeRun (\<lambda>s. s) ''u'' 1 20000 [\<lparr>h_id = 7, h_userId = 1\<rparr>] 1000000 sample_db = (r, db')" by force
  have "rdb_ledger probed_db = rdb_ledger db'" by (simp add: probed_db_def s persistOutcomes_def)
  then have "reclaim_txn (\<lambda>s. s) sample_db db'" "reclaim_txn (\<lambda>s. s) db' probed_db"
    using reclaim_txn.by_start [OF s] reclaim_txn.beside [where db = db' and db' = probed_db and xs = "xray_inbounds (rdb_ledger db')" and qs = "quick_configs (rdb_ledger db')"] by simp_all
  then have "(reclaim_txn (\<lambda>s. s))\<^sup>*\<^sup>* sample_db probed_db" by (meson rtranclp.rtrancl_into_rtrancl rtranclp.rtrancl_refl)
  from ledger_and_reclaim_interleave [OF this sample_inv] show ?thesis by blast
qed

text \<open>C28: An undisturbed scan of a waiting port succeeds: if the allocation has no references and no listener, the lease is
  valid to the end, and every managed host reports the port free for TCP and UDP before the run expires, then the scan
  frees the port.\<close>

theorem undisturbed_scan_frees_port:
  assumes t: "tables_inv (rdb_ledger db)" "runs_ok db"
    and a: "allocationById (rdb_ledger db) (c_id c) = Some a" "a_port a = c_port c" "a_status a \<in> Text ` set waiting_statuses"
      "0 < a_version a" "a_version a \<le> MAX_SAFE_INTEGER" "refs_of (rdb_ledger db) (c_id c) = []"
    and quiet: "\<not> hasListenerDrift (c_port c) db" "env_others env = (\<lambda>d. d)" "\<not> env_finalizeThrows env"
    and lease: "valid_lease owner (env_finishedAt env) db"
    and hosts: "managedHosts db \<noteq> []" "distinct (map h_id (managedHosts db))"
    and probe: "env_probe env (managedHosts db) = Inr outs" "distinct (map (\<lambda>x. (o_hostId x, o_network x)) outs)"
      "set (map (\<lambda>x. (o_hostId x, o_network x)) outs) = set (expected_keys (managedHosts db))"
      "list_all (\<lambda>x. o_status x = PFree) outs"
    and time: "0 \<le> env_startedAt env" "env_startedAt env + RUN_TTL_MS < 10000000000000"
      "env_finishedAt env < 1000 * ((env_startedAt env + RUN_TTL_MS) div 1000)"
  shows "\<exists>db' a'. scanAllocation sha256 c owner env db = (Some ScanFree, db')
    \<and> allocationById (rdb_ledger db') (c_id c) = Some a' \<and> a_status a' = Text FREE \<and> a_ownerTag a' = None
    \<and> a_version a' = a_version a + 2"
proof (rule start_ok [OF t a, where digest = sha256 and uuid = "env_uuid env" and hosts = "managedHosts db" and now = "env_startedAt env"])
  fix db1 a1 run
  assume s: "startProbeRun sha256 (env_uuid env) (c_id c) (c_port c) (managedHosts db) (env_startedAt env) db =
       (Some \<lparr>sr_runId = next_run db, sr_allocationVersion = a_version a + 1, sr_expiresAt = env_startedAt env + RUN_TTL_MS\<rparr>, db1)"
    "tables_inv (rdb_ledger db1)" "allocationById (rdb_ledger db1) (c_id c) = Some a1" "a_version a1 = a_version a + 1" "a_port a1 = c_port c"
    "a_status a1 = a_status a" "references (rdb_ledger db1) = references (rdb_ledger db)"
    "xray_inbounds (rdb_ledger db1) = xray_inbounds (rdb_ledger db)"
    "find (\<lambda>r. pr_id r = next_run db) (probe_runs db1) = Some run" "pr_status run = RUNNING" "pr_allocationVersion run = a_version a + 1"
    "pr_expectedHostCount run = length (managedHosts db)" "pr_hostSetHash run = hostSetHash sha256 (managedHosts db)"
    "host_rows db1 = host_rows db" "rule_ports db1 = rule_ports db" "scan_lease db1 = scan_lease db" "probe_results db1 = probe_results db"
  let ?now = "env_finishedAt env" and ?exp = "env_startedAt env + RUN_TTL_MS"
  define row where "row = (\<lambda>x :: ProbeOutcome. \<lparr>ps_probeRunId = next_run db, ps_hostId = o_hostId x, ps_network = o_network x,
    ps_operationId = o_operationId x, ps_status = o_status x, ps_probedAt = epochSeconds (env_probedAt env), ps_expiresAt = epochSeconds ?exp\<rparr>)"
  define db2 where "db2 = persistOutcomes (next_run db) outs ?exp (env_probedAt env) db1"
  have db2: "rdb_ledger db2 = rdb_ledger db1" "probe_runs db2 = probe_runs db1" "probe_results db2 = probe_results db @ map row outs"
    "managedHosts db2 = managedHosts db" "scan_lease db2 = scan_lease db"
    by (simp_all add: db2_def persistOutcomes_def row_def s managedHosts_def)
  have "filter (\<lambda>p. ps_probeRunId p = next_run db) (probe_results db) = []"
    using t(2) by (auto simp: runs_ok_def list_all_iff filter_empty_conv)
  then have res: "run_results (next_run db) db2 = map row outs"
    by (simp add: run_results_def db2 row_def)
  have drift: "\<not> hasListenerDrift (a_port a1) db2"
    using quiet(1) s(5,8,15) by (simp add: hasListenerDrift_def db2 db2_def persistOutcomes_def)
  have refs: "length (filter (\<lambda>r. r_allocationId r = c_id c) (references (rdb_ledger db2))) = 0"
    using a(6) s(7) by (simp add: db2 refs_of_def)
  have keys: "map (\<lambda>p. (ps_hostId p, ps_network p)) (map row outs) = map (\<lambda>x. (o_hostId x, o_network x)) outs"
    by (simp add: row_def)
  have len: "length outs = length (expected_keys (managedHosts db))"
    using distinct_card [OF probe(2)] distinct_card [of "expected_keys (managedHosts db)"] probe(3)
    by (simp add: expected_keys_def)
  have complete: "results_complete (managedHosts db) ?now (map row outs)"
    unfolding results_complete_def Let_def keys js_distinct_id [OF probe(2)]
    using len probe(3) expiry_time [OF _ time(2,3)] time(1,3)
    by (auto simp: list_all_iff row_def RUN_TTL_MS_def)
  have snap: "valid_snapshot sha256 (next_run db) (c_id c) (a_version a + 1) (managedHosts db) owner ?now db2"
    using s(3,4,6,9-13) a(3) refs drift complete lease
    by (simp add: valid_snapshot_def db2 res valid_lease_def)
  have ne: "outs \<noteq> []"
  proof -
    obtain h where "h \<in> set (managedHosts db)" using hosts(1) by (cases "managedHosts db") auto
    then show ?thesis using probe(3) by (auto simp: set_expected_keys)
  qed
  obtain L' where L': "cas_update (c_id c) (a_version a + 1) waiting_statuses (freed_row ?now) (rdb_ledger db1) = Some L'"
    by (rule cas_update_any_ok [OF s(2,3,4)]) (use s(6) a(3) in simp_all)
  define db3 where "db3 = update_run (next_run db) (\<lambda>r. r\<lparr>pr_status := SUCCESS, pr_finishedAt := Some (epochSeconds ?now), pr_errorCode := None\<rparr>)
    (db2\<lparr>rdb_ledger := L'\<rparr>)"
  have "list_all (\<lambda>p. ps_status p = PFree) (map row outs)" using probe(4) by (simp add: list_all_iff row_def)
  then have fin: "finalizeProbeRun sha256 (next_run db) (c_id c) (a_version a + 1) (managedHosts db) owner ?now db2 = (ScanFree, db3)"
    using snap ne L' by (simp add: finalizeProbeRun_def Let_def res db2(1) db3_def)
  have scan: "scanAllocation sha256 c owner env db = (Some ScanFree, db3)"
    using quiet probe(1) by (simp add: scanAllocation_def Let_def s(1) db2_def [symmetric] fin)
  have "allocationById L' (c_id c) = Some (freed_row ?now a1)"
    by (rule cas_update_anyD [OF L' s(2)]) (use s(3) in \<open>auto simp: freed_row_def\<close>)
  then show ?thesis using scan s(4) by (simp add: db3_def freed_row_def)
qed


theorem undisturbed_scan_frees_port_witness:
  "\<exists>db' a'. scanAllocation (\<lambda>s. s) \<lparr>c_id = 1, c_port = 20000\<rparr> ''o'' sample_env sample_db = (Some ScanFree, db')
    \<and> allocationById (rdb_ledger db') 1 = Some a' \<and> a_status a' = Text FREE \<and> a_version a' = 6"
proof -
  have h: "managedHosts sample_db = [\<lparr>h_id = 7, h_userId = 1\<rparr>]" by code_simp
  have l: "valid_lease ''o'' (env_finishedAt sample_env) sample_db" by code_simp
  have "\<exists>db' a'. scanAllocation (\<lambda>s. s) \<lparr>c_id = 1, c_port = 20000\<rparr> ''o'' sample_env sample_db = (Some ScanFree, db')
      \<and> allocationById (rdb_ledger db') (c_id \<lparr>c_id = 1, c_port = 20000\<rparr>) = Some a' \<and> a_status a' = Text FREE \<and> a_ownerTag a' = None
      \<and> a_version a' = a_version waiting_row + 2"
    by (rule undisturbed_scan_frees_port [where outs = sample_outcomes, OF _ _ _ _ _ _ _ _ _ _ _ l])
      (use sample_inv in \<open>simp_all add: h ledger_inv_def\<close>, simp_all add: sample_db_def waiting_row_def runs_ok_def allocationById_def
        refs_of_def hasListenerDrift_def sample_env_def sample_outcomes_def expected_keys_def js_distinct_def RUN_TTL_MS_def
        waiting_statuses_def MAX_SAFE_INTEGER_def)
  then show ?thesis by (auto simp: waiting_row_def)
qed

end
