(* ===== verification/AuthLimits.thy ===== *)
theory AuthLimits
  imports Prelude
begin

text \<open>
  Authentication limits: the insertion-ordered bounded maps of server/boundedCache.ts, the failure and
  challenge-issue counters of server/authRateLimit.ts and the second-factor challenges of
  server/twoFactorChallenges.ts. Every in-memory \<open>Map\<close> is an association list in insertion order; the
  clock is an argument in milliseconds; the random challenge identifier is an argument.
\<close>

section \<open>Bounded maps\<close>

text \<open>The eviction loop removes the oldest key while the map is full.\<close>

fun evict_oldest :: "nat \<Rightarrow> ('k \<times> 'v) list \<Rightarrow> ('k \<times> 'v) list" where
  "evict_oldest maxSize [] = []"
| "evict_oldest maxSize (e # m) = (if length (e # m) \<ge> max 1 maxSize then evict_oldest maxSize m else e # m)"

definition setBoundedMapValue :: "('k \<times> 'v) list \<Rightarrow> 'k \<Rightarrow> 'v \<Rightarrow> nat \<Rightarrow> ('k \<times> 'v) list" where
  "setBoundedMapValue m key v maxSize = evict_oldest maxSize (alist_delete key m) @ [(key, v)]"

definition pruneMapEntries :: "('k \<times> 'v) list \<Rightarrow> ('v \<Rightarrow> 'k \<Rightarrow> bool) \<Rightarrow> nat \<times> ('k \<times> 'v) list" where
  "pruneMapEntries m shouldDelete =
     (length (filter (\<lambda>(k, v). shouldDelete v k) m), filter (\<lambda>(k, v). \<not> shouldDelete v k) m)"

section \<open>Failure counters\<close>

record AuthRateLimitState =
  limited :: bool
  retryAfterSeconds :: int

record FailureEntry =
  fail_count :: nat
  lastFailAt :: int

record auth_state =
  loginFailStore :: "(string \<times> FailureEntry) list"
  loginAccountFailStore :: "(string \<times> FailureEntry) list"
  loginIpFailStore :: "(string \<times> FailureEntry) list"
  challengeIssueStore :: "(string \<times> int list) list"
  challengeIssueAccountStore :: "(string \<times> int list) list"
  challengeIssueIpStore :: "(string \<times> int list) list"

definition LOGIN_FAIL_WINDOW_MS :: int where "LOGIN_FAIL_WINDOW_MS = 30 * 60 * 1000"
definition LOGIN_BLOCK_MS :: int where "LOGIN_BLOCK_MS = 15 * 60 * 1000"
definition LOGIN_BLOCK_THRESHOLD_PER_ACCOUNT :: nat where "LOGIN_BLOCK_THRESHOLD_PER_ACCOUNT = 8"
definition LOGIN_BLOCK_THRESHOLD_PER_IP :: nat where "LOGIN_BLOCK_THRESHOLD_PER_IP = 40"
definition TWO_FACTOR_CHALLENGE_ISSUE_WINDOW_MS :: int where "TWO_FACTOR_CHALLENGE_ISSUE_WINDOW_MS = 60 * 1000"
definition TWO_FACTOR_CHALLENGE_ISSUE_MAX :: nat where "TWO_FACTOR_CHALLENGE_ISSUE_MAX = 5"
definition AUTH_RATE_LIMIT_MAX_KEYS :: nat where "AUTH_RATE_LIMIT_MAX_KEYS = 50000"

definition or_text :: "string \<Rightarrow> string \<Rightarrow> string" where
  "or_text s d = (if s = [] then d else s)"

definition normalizeIp :: "string \<Rightarrow> string" where
  "normalizeIp ip = or_text (js_lower (js_trim (or_text ip ''unknown''))) ''unknown''"

definition normalizeUsername :: "string \<Rightarrow> string" where
  "normalizeUsername username = js_lower (js_trim username)"

definition getAuthAttemptKey :: "string \<Rightarrow> string \<Rightarrow> string" where
  "getAuthAttemptKey ip username = normalizeIp ip @ '':'' @ normalizeUsername username"

definition ceil_div :: "int \<Rightarrow> int \<Rightarrow> int" where
  "ceil_div a b = - ((- a) div b)"

definition activeFailureEntry ::
  "(string \<times> FailureEntry) list \<Rightarrow> string \<Rightarrow> int \<Rightarrow> FailureEntry option \<times> (string \<times> FailureEntry) list" where
  "activeFailureEntry store key now =
     (case map_of store key of
        None \<Rightarrow> (None, store)
      | Some entry \<Rightarrow> if now - lastFailAt entry < LOGIN_FAIL_WINDOW_MS then (Some entry, store)
                      else (None, alist_delete key store))"

definition recordFailure :: "(string \<times> FailureEntry) list \<Rightarrow> string \<Rightarrow> int \<Rightarrow> (string \<times> FailureEntry) list" where
  "recordFailure store key now =
     (let (entry, store') = activeFailureEntry store key now in
      case entry of
        Some e \<Rightarrow> setBoundedMapValue store' key \<lparr>fail_count = fail_count e + 1, lastFailAt = now\<rparr> AUTH_RATE_LIMIT_MAX_KEYS
      | None \<Rightarrow> setBoundedMapValue store' key \<lparr>fail_count = 1, lastFailAt = now\<rparr> AUTH_RATE_LIMIT_MAX_KEYS)"

definition recordAuthFailure :: "string \<Rightarrow> string \<Rightarrow> int \<Rightarrow> auth_state \<Rightarrow> auth_state" where
  "recordAuthFailure ip username now st =
     st\<lparr>loginFailStore := recordFailure (loginFailStore st) (getAuthAttemptKey ip username) now,
        loginAccountFailStore := recordFailure (loginAccountFailStore st) (normalizeUsername username) now,
        loginIpFailStore := recordFailure (loginIpFailStore st) (normalizeIp ip) now\<rparr>"

definition recordPasswordFailure :: "string \<Rightarrow> string \<Rightarrow> int \<Rightarrow> auth_state \<Rightarrow> auth_state" where
  "recordPasswordFailure ip username now st =
     st\<lparr>loginFailStore := recordFailure (loginFailStore st) (getAuthAttemptKey ip username) now,
        loginIpFailStore := recordFailure (loginIpFailStore st) (normalizeIp ip) now\<rparr>"

text \<open>The loop over the three checks: the first one that still blocks decides.\<close>

fun first_block :: "int \<Rightarrow> (FailureEntry option \<times> nat) list \<Rightarrow> AuthRateLimitState" where
  "first_block now [] = \<lparr>limited = False, retryAfterSeconds = 0\<rparr>"
| "first_block now ((entry, threshold) # checks) =
     (case entry of
        None \<Rightarrow> first_block now checks
      | Some e \<Rightarrow>
          if fail_count e < threshold then first_block now checks
          else if lastFailAt e + LOGIN_BLOCK_MS > now
               then \<lparr>limited = True, retryAfterSeconds = max 1 (ceil_div (lastFailAt e + LOGIN_BLOCK_MS - now) 1000)\<rparr>
               else first_block now checks)"

definition authRateLimitState :: "string \<Rightarrow> string \<Rightarrow> int \<Rightarrow> auth_state \<Rightarrow> AuthRateLimitState \<times> auth_state" where
  "authRateLimitState ip username now st =
     (let (pair, s1) = activeFailureEntry (loginFailStore st) (getAuthAttemptKey ip username) now;
          (account, s2) = activeFailureEntry (loginAccountFailStore st) (normalizeUsername username) now;
          (addr, s3) = activeFailureEntry (loginIpFailStore st) (normalizeIp ip) now in
      (first_block now [(pair, LOGIN_BLOCK_THRESHOLD_PER_ACCOUNT), (account, LOGIN_BLOCK_THRESHOLD_PER_ACCOUNT),
                        (addr, LOGIN_BLOCK_THRESHOLD_PER_IP)],
       st\<lparr>loginFailStore := s1, loginAccountFailStore := s2, loginIpFailStore := s3\<rparr>))"

definition clearAuthAccountFailures :: "string \<Rightarrow> string \<Rightarrow> auth_state \<Rightarrow> auth_state" where
  "clearAuthAccountFailures ip username st =
     st\<lparr>loginFailStore := alist_delete (getAuthAttemptKey ip username) (loginFailStore st),
        loginAccountFailStore := alist_delete (normalizeUsername username) (loginAccountFailStore st)\<rparr>"

section \<open>Challenge issuance\<close>

definition active_issues :: "int \<Rightarrow> int list \<Rightarrow> int list" where
  "active_issues now timestamps = filter (\<lambda>t. t > now - TWO_FACTOR_CHALLENGE_ISSUE_WINDOW_MS) timestamps"

definition issue_scope :: "int \<Rightarrow> (string \<times> int list) list \<Rightarrow> string \<Rightarrow> int \<times> (string \<times> int list) list" where
  "issue_scope now store key =
     (case map_of store key of
        None \<Rightarrow> (0, store)
      | Some timestamps \<Rightarrow>
          let active = active_issues now timestamps in
          (if length active \<ge> TWO_FACTOR_CHALLENGE_ISSUE_MAX
           then ceil_div (hd active + TWO_FACTOR_CHALLENGE_ISSUE_WINDOW_MS - now) 1000 else 0,
           if active \<noteq> [] then setBoundedMapValue store key active AUTH_RATE_LIMIT_MAX_KEYS else alist_delete key store))"

definition twoFactorChallengeIssueState :: "string \<Rightarrow> string \<Rightarrow> int \<Rightarrow> auth_state \<Rightarrow> AuthRateLimitState \<times> auth_state" where
  "twoFactorChallengeIssueState ip username now st =
     (let (r1, s1) = issue_scope now (challengeIssueStore st) (getAuthAttemptKey ip username);
          (r2, s2) = issue_scope now (challengeIssueAccountStore st) (normalizeUsername username);
          (r3, s3) = issue_scope now (challengeIssueIpStore st) (normalizeIp ip);
          retry = max (max (max 0 r1) r2) r3 in
      (if retry > 0 then \<lparr>limited = True, retryAfterSeconds = retry\<rparr> else \<lparr>limited = False, retryAfterSeconds = 0\<rparr>,
       st\<lparr>challengeIssueStore := s1, challengeIssueAccountStore := s2, challengeIssueIpStore := s3\<rparr>))"

definition record_issue :: "int \<Rightarrow> (string \<times> int list) list \<Rightarrow> string \<Rightarrow> (string \<times> int list) list" where
  "record_issue now store key =
     setBoundedMapValue store key
       (active_issues now (case map_of store key of None \<Rightarrow> [] | Some ts \<Rightarrow> ts) @ [now]) AUTH_RATE_LIMIT_MAX_KEYS"

definition recordTwoFactorChallengeIssue :: "string \<Rightarrow> string \<Rightarrow> int \<Rightarrow> auth_state \<Rightarrow> auth_state" where
  "recordTwoFactorChallengeIssue ip username now st =
     st\<lparr>challengeIssueStore := record_issue now (challengeIssueStore st) (getAuthAttemptKey ip username),
        challengeIssueAccountStore := record_issue now (challengeIssueAccountStore st) (normalizeUsername username),
        challengeIssueIpStore := record_issue now (challengeIssueIpStore st) (normalizeIp ip)\<rparr>"

text \<open>
  The pruning loop \<open>for (const [key, timestamps] of store)\<close> changes the map it walks over, and a \<open>Map\<close>
  iterator also visits entries that are appended during the walk. A visited entry is either deleted or
  deleted and appended again, so the next entry to visit is always the first of the current map and the
  loop ends when the map is empty. The fuel bounds the number of loop steps; \<open>None\<close> means that the loop
  did not end within it.
\<close>

fun prune_issues :: "nat \<Rightarrow> int \<Rightarrow> (string \<times> int list) list \<Rightarrow> (string \<times> int list) list option" where
  "prune_issues fuel now [] = Some []"
| "prune_issues 0 now (e # store) = None"
| "prune_issues (Suc fuel) now ((key, timestamps) # store) =
     (let active = active_issues now timestamps; m = (key, timestamps) # store in
      if active \<noteq> [] then prune_issues fuel now (setBoundedMapValue m key active AUTH_RATE_LIMIT_MAX_KEYS)
      else prune_issues fuel now (alist_delete key m))"

definition pruneAuthRateLimitState :: "nat \<Rightarrow> int \<Rightarrow> auth_state \<Rightarrow> auth_state option" where
  "pruneAuthRateLimitState fuel now st =
     (let expired = (\<lambda>entry (_ :: string). now - lastFailAt entry \<ge> LOGIN_FAIL_WINDOW_MS) in
      case prune_issues fuel now (challengeIssueStore st) of None \<Rightarrow> None
      | Some c1 \<Rightarrow> (case prune_issues fuel now (challengeIssueAccountStore st) of None \<Rightarrow> None
      | Some c2 \<Rightarrow> (case prune_issues fuel now (challengeIssueIpStore st) of None \<Rightarrow> None
      | Some c3 \<Rightarrow> Some (st\<lparr>loginFailStore := snd (pruneMapEntries (loginFailStore st) expired),
            loginAccountFailStore := snd (pruneMapEntries (loginAccountFailStore st) expired),
            loginIpFailStore := snd (pruneMapEntries (loginIpFailStore st) expired),
            challengeIssueStore := c1, challengeIssueAccountStore := c2, challengeIssueIpStore := c3\<rparr>))))"

definition clearTwoFactorChallengeIssueHistory :: "string \<Rightarrow> string \<Rightarrow> auth_state \<Rightarrow> auth_state" where
  "clearTwoFactorChallengeIssueHistory ip username st =
     st\<lparr>challengeIssueStore := alist_delete (getAuthAttemptKey ip username) (challengeIssueStore st),
        challengeIssueAccountStore := alist_delete (normalizeUsername username) (challengeIssueAccountStore st)\<rparr>"

definition clearAuthRateLimitStateForTests :: "auth_state \<Rightarrow> auth_state" where
  "clearAuthRateLimitStateForTests st =
     st\<lparr>loginFailStore := [], loginAccountFailStore := [], loginIpFailStore := [],
        challengeIssueStore := [], challengeIssueAccountStore := [], challengeIssueIpStore := []\<rparr>"

definition authRateLimitStoreSizesForTests :: "auth_state \<Rightarrow> nat \<times> nat" where
  "authRateLimitStoreSizesForTests st =
     (length (loginFailStore st) + length (loginAccountFailStore st) + length (loginIpFailStore st),
      length (challengeIssueStore st) + length (challengeIssueAccountStore st) + length (challengeIssueIpStore st))"

section \<open>Second-factor challenges\<close>

record TwoFactorChallenge =
  ch_userId :: int
  ch_username :: string
  ch_mobile :: bool
  ch_issueIp :: string
  ch_expiresAt :: int
  ch_attempts :: nat

type_synonym challenge_store = "(string \<times> TwoFactorChallenge) list"

definition TWO_FACTOR_CHALLENGE_TTL_MS :: int where "TWO_FACTOR_CHALLENGE_TTL_MS = 5 * 60 * 1000"
definition TWO_FACTOR_CHALLENGE_MAX_ATTEMPTS :: nat where "TWO_FACTOR_CHALLENGE_MAX_ATTEMPTS = 5"

definition challengeIpMatches :: "string \<Rightarrow> string \<Rightarrow> bool" where
  "challengeIpMatches issueIp requestIp =
     (let issued = normalizeIp issueIp; requested = normalizeIp requestIp in
      if issued = ''unknown'' \<or> requested = ''unknown'' then True else issued = requested)"

definition pruneExpired :: "int \<Rightarrow> challenge_store \<Rightarrow> challenge_store" where
  "pruneExpired now challenges = filter (\<lambda>(_, c). \<not> ch_expiresAt c \<le> now) challenges"

definition createTwoFactorChallenge ::
  "string \<Rightarrow> int \<Rightarrow> string \<Rightarrow> bool \<Rightarrow> string option \<Rightarrow> int \<Rightarrow> int \<Rightarrow> challenge_store \<Rightarrow> (string \<times> int) \<times> challenge_store" where
  "createTwoFactorChallenge challengeId userId username mobile ip now1 now2 challenges =
     ((challengeId, TWO_FACTOR_CHALLENGE_TTL_MS div 1000),
      alist_set challengeId
        \<lparr>ch_userId = userId, ch_username = username, ch_mobile = mobile,
         ch_issueIp = normalizeIp (case ip of None \<Rightarrow> [] | Some s \<Rightarrow> s),
         ch_expiresAt = now2 + TWO_FACTOR_CHALLENGE_TTL_MS, ch_attempts = 0\<rparr>
        (pruneExpired now1 challenges))"

definition getTwoFactorChallenge ::
  "string \<Rightarrow> string option \<Rightarrow> int \<Rightarrow> challenge_store \<Rightarrow> TwoFactorChallenge option \<times> challenge_store" where
  "getTwoFactorChallenge challengeId requestIp now challenges =
     (case map_of challenges challengeId of
        None \<Rightarrow> (None, challenges)
      | Some c \<Rightarrow>
          if ch_expiresAt c \<le> now then (None, alist_delete challengeId challenges)
          else case requestIp of
                 Some ip \<Rightarrow> if \<not> challengeIpMatches (ch_issueIp c) ip then (None, challenges) else (Some c, challenges)
               | None \<Rightarrow> (Some c, challenges))"

definition clearTwoFactorChallenge :: "string \<Rightarrow> challenge_store \<Rightarrow> challenge_store" where
  "clearTwoFactorChallenge challengeId challenges = alist_delete challengeId challenges"

definition recordTwoFactorChallengeFailure :: "string \<Rightarrow> int \<Rightarrow> challenge_store \<Rightarrow> bool \<times> challenge_store" where
  "recordTwoFactorChallengeFailure challengeId now challenges =
     (case getTwoFactorChallenge challengeId None now challenges of
        (None, cs) \<Rightarrow> (False, cs)
      | (Some c, cs) \<Rightarrow>
          let attempts = ch_attempts c + 1 in
          if attempts \<ge> TWO_FACTOR_CHALLENGE_MAX_ATTEMPTS then (False, alist_delete challengeId cs)
          else (True, alist_set challengeId (c\<lparr>ch_attempts := attempts\<rparr>) cs))"

section \<open>Bounded maps keep the newest entries\<close>

lemma evict_oldest_drop: "evict_oldest n m = drop (length m - (max 1 n - 1)) m"
  by (induction n m rule: evict_oldest.induct) (auto simp: Suc_diff_le)

lemma length_evict_oldest: "length (evict_oldest n m) \<le> max 1 n - 1"
  by (simp add: evict_oldest_drop)

lemma evict_oldest_id: "length m < max 1 n \<Longrightarrow> evict_oldest n m = m"
  by (simp add: evict_oldest_drop)

lemma set_evict_oldest: "set (evict_oldest n m) \<subseteq> set m"
  by (simp add: evict_oldest_drop set_drop_subset)

lemma keys_distinct_evict: "keys_distinct m \<Longrightarrow> keys_distinct (evict_oldest n m)"
  unfolding keys_distinct_def evict_oldest_drop by (metis distinct_drop drop_map)

lemma not_key_delete: "k \<notin> fst ` set (alist_delete k m)"
  by (simp add: keys_alist_delete)

lemma keys_distinct_setBounded [alist_simps]:
  assumes "keys_distinct m"
  shows "keys_distinct (setBoundedMapValue m k v n)"
proof -
  have "keys_distinct (evict_oldest n (alist_delete k m))"
    by (simp add: keys_distinct_evict keys_distinct_delete assms)
  moreover have "k \<notin> fst ` set (evict_oldest n (alist_delete k m))"
    using set_evict_oldest [of n "alist_delete k m"] not_key_delete [of k m] by blast
  ultimately show ?thesis by (simp add: setBoundedMapValue_def keys_distinct_def)
qed

lemma setBounded_same: "map_of (setBoundedMapValue m k v n) k = Some v"
proof -
  have "k \<notin> fst ` set (evict_oldest n (alist_delete k m))"
    using set_evict_oldest [of n "alist_delete k m"] not_key_delete [of k m] by blast
  then have "map_of (evict_oldest n (alist_delete k m)) k = None" by (simp add: map_of_eq_None_iff)
  then show ?thesis by (simp add: setBoundedMapValue_def map_add_def)
qed

lemma setBounded_other:
  assumes "k' \<noteq> k" "keys_distinct m" "map_of (setBoundedMapValue m k v n) k' = Some x"
  shows "map_of m k' = Some x"
proof -
  have "map_of (evict_oldest n (alist_delete k m)) k' = Some x"
    using assms(1,3) by (simp add: setBoundedMapValue_def map_add_def split: option.splits)
  then have "(k', x) \<in> set (alist_delete k m)"
    using set_evict_oldest [of n "alist_delete k m"] by (auto dest: map_of_SomeD)
  then show ?thesis using assms(2) by (auto simp: alist_delete_def keys_distinct_def)
qed

lemma setBounded_room:
  assumes "length (alist_delete k m) < max 1 n"
  shows "map_of (setBoundedMapValue m k v n) = (map_of m)(k \<mapsto> v)"
  using assms by (auto simp: setBoundedMapValue_def evict_oldest_id map_add_def map_of_alist_delete fun_eq_iff
      split: option.splits)

text \<open>A bounded map holds at most its limit of entries, one per key; the written key is found with its value,
  every other entry found was there before, and nothing is lost while there is room.\<close>

theorem bounded_map_contract:
  assumes "keys_distinct m"
  shows "keys_distinct (setBoundedMapValue m k v n) \<and> length (setBoundedMapValue m k v n) \<le> max 1 n
    \<and> map_of (setBoundedMapValue m k v n) k = Some v
    \<and> (\<forall>k' x. k' \<noteq> k \<longrightarrow> map_of (setBoundedMapValue m k v n) k' = Some x \<longrightarrow> map_of m k' = Some x)
    \<and> (length (alist_delete k m) < max 1 n \<longrightarrow> map_of (setBoundedMapValue m k v n) = (map_of m)(k \<mapsto> v))"
proof (intro conjI allI impI)
  show "length (setBoundedMapValue m k v n) \<le> max 1 n"
    using length_evict_oldest [of n "alist_delete k m"] by (simp add: setBoundedMapValue_def)
qed (use assms setBounded_other setBounded_room in \<open>auto simp: keys_distinct_setBounded setBounded_same\<close>)

theorem bounded_map_contract_witness:
  "length (setBoundedMapValue [(''a'', 1), (''b'', 2)] ''c'' (3::int) 2) \<le> max 1 2
   \<and> map_of (setBoundedMapValue [(''a'', 1), (''b'', 2)] ''c'' (3::int) 2) ''c'' = Some 3"
  using bounded_map_contract [of "[(''a'', 1), (''b'', 2 :: int)]" "''c''" 3 2] by (simp add: keys_distinct_def)

section \<open>Counting failures\<close>

lemma recordFailure_lookup:
  "map_of (recordFailure store key now) key =
     Some \<lparr>fail_count = (case map_of store key of
                Some e \<Rightarrow> if now - lastFailAt e < LOGIN_FAIL_WINDOW_MS then fail_count e + 1 else 1 | None \<Rightarrow> 1),
           lastFailAt = now\<rparr>"
  by (auto simp: recordFailure_def activeFailureEntry_def setBounded_same split: option.splits)

lemma activeFailureEntry_fst:
  "fst (activeFailureEntry store key now) =
     (case map_of store key of None \<Rightarrow> None | Some e \<Rightarrow> if now - lastFailAt e < LOGIN_FAIL_WINDOW_MS then Some e else None)"
  by (auto simp: activeFailureEntry_def split: option.splits)

definition blocks :: "int \<Rightarrow> nat \<Rightarrow> FailureEntry option \<Rightarrow> bool" where
  "blocks now threshold entry \<longleftrightarrow> (case entry of None \<Rightarrow> False
     | Some e \<Rightarrow> threshold \<le> fail_count e \<and> now < lastFailAt e + LOGIN_BLOCK_MS)"

lemma first_block_limited: "limited (first_block now cs) \<longleftrightarrow> list_ex (\<lambda>(e, n). blocks now n e) cs"
  by (induction now cs rule: first_block.induct) (auto simp: blocks_def split: option.splits)

lemma first_block_retry:
  "limited (first_block now cs) \<Longrightarrow> 1 \<le> retryAfterSeconds (first_block now cs)"
  by (induction now cs rule: first_block.induct) (auto split: option.splits if_splits)

lemma authRateLimitState_fst:
  "fst (authRateLimitState ip u now st) = first_block now
     [(fst (activeFailureEntry (loginFailStore st) (getAuthAttemptKey ip u) now), LOGIN_BLOCK_THRESHOLD_PER_ACCOUNT),
      (fst (activeFailureEntry (loginAccountFailStore st) (normalizeUsername u) now), LOGIN_BLOCK_THRESHOLD_PER_ACCOUNT),
      (fst (activeFailureEntry (loginIpFailStore st) (normalizeIp ip) now), LOGIN_BLOCK_THRESHOLD_PER_IP)]"
  by (simp add: authRateLimitState_def Let_def case_prod_beta del: first_block.simps)

subsection \<open>Runs of the module\<close>

text \<open>Every exported operation that changes a store, each with the time of its call. The timer's pruning appears with the
  fuel of its loop and only when it returns.\<close>

datatype auth_op = TwoFactorFailure string string | PasswordFailure string string | RateChecked string string
  | FailuresCleared string string | IssueChecked string string | ChallengeIssued string string
  | IssueHistoryCleared string string | Pruned nat

fun auth_step :: "int \<times> auth_op \<Rightarrow> auth_state \<Rightarrow> auth_state option" where
  "auth_step (t, TwoFactorFailure ip u) st = Some (recordAuthFailure ip u t st)"
| "auth_step (t, PasswordFailure ip u) st = Some (recordPasswordFailure ip u t st)"
| "auth_step (t, RateChecked ip u) st = Some (snd (authRateLimitState ip u t st))"
| "auth_step (t, FailuresCleared ip u) st = Some (clearAuthAccountFailures ip u st)"
| "auth_step (t, IssueChecked ip u) st = Some (snd (twoFactorChallengeIssueState ip u t st))"
| "auth_step (t, ChallengeIssued ip u) st = Some (recordTwoFactorChallengeIssue ip u t st)"
| "auth_step (t, IssueHistoryCleared ip u) st = Some (clearTwoFactorChallengeIssueHistory ip u st)"
| "auth_step (t, Pruned fuel) st = pruneAuthRateLimitState fuel t st"

definition empty_auth :: auth_state where
  "empty_auth = \<lparr>loginFailStore = [], loginAccountFailStore = [], loginIpFailStore = [], challengeIssueStore = [],
     challengeIssueAccountStore = [], challengeIssueIpStore = []\<rparr>"

text \<open>A failure that is recorded while its store has room evicts nothing.\<close>

definition has_room :: "auth_state \<Rightarrow> bool" where
  "has_room st \<longleftrightarrow> length (loginFailStore st) < AUTH_RATE_LIMIT_MAX_KEYS \<and> length (loginAccountFailStore st) < AUTH_RATE_LIMIT_MAX_KEYS
     \<and> length (loginIpFailStore st) < AUTH_RATE_LIMIT_MAX_KEYS"

text \<open>The runs since the start of the process, their newest call first, with a clock that does not run backwards, in which
  no failure store is full.\<close>

inductive auth_reach :: "(int \<times> auth_op) list \<Rightarrow> auth_state \<Rightarrow> bool" where
  auth_start: "auth_reach [] empty_auth"
| auth_next: "auth_reach evs st \<Longrightarrow> list_all (\<lambda>e. fst e \<le> t) evs \<Longrightarrow> has_room st \<Longrightarrow> auth_step (t, op) st = Some st'
    \<Longrightarrow> auth_reach ((t, op) # evs) st'"

subsection \<open>The reference: streaks of failures in a run\<close>

definition live :: "int \<Rightarrow> FailureEntry option \<Rightarrow> FailureEntry option" where
  "live now entry = (case entry of None \<Rightarrow> None | Some e \<Rightarrow> if now - lastFailAt e < LOGIN_FAIL_WINDOW_MS then Some e else None)"

definition one_more :: "int \<Rightarrow> FailureEntry option \<Rightarrow> FailureEntry" where
  "one_more t entry = \<lparr>fail_count = (case live t entry of None \<Rightarrow> 1 | Some e \<Rightarrow> fail_count e + 1), lastFailAt = t\<rparr>"

text \<open>The length and the last time of the current streak: the counted failures since the last reset, none of them half
  an hour or more after the one before.\<close>

fun streak :: "(auth_op \<Rightarrow> bool) \<Rightarrow> (auth_op \<Rightarrow> bool) \<Rightarrow> (int \<times> auth_op) list \<Rightarrow> FailureEntry option" where
  "streak counts resets [] = None"
| "streak counts resets ((t, op) # evs) =
     (if resets op then None
      else if counts op then Some (one_more t (streak counts resets evs))
      else streak counts resets evs)"

text \<open>What the three counters count: failures of either kind for the pair and for the address, second-factor failures
  alone for the account. Clearing after a successful authentication resets the pair and the account.\<close>

fun pair_failure :: "string \<Rightarrow> auth_op \<Rightarrow> bool" where
  "pair_failure k (TwoFactorFailure ip u) = (getAuthAttemptKey ip u = k)"
| "pair_failure k (PasswordFailure ip u) = (getAuthAttemptKey ip u = k)"
| "pair_failure k _ = False"

fun pair_reset :: "string \<Rightarrow> auth_op \<Rightarrow> bool" where
  "pair_reset k (FailuresCleared ip u) = (getAuthAttemptKey ip u = k)"
| "pair_reset k _ = False"

fun account_failure :: "string \<Rightarrow> auth_op \<Rightarrow> bool" where
  "account_failure k (TwoFactorFailure ip u) = (normalizeUsername u = k)"
| "account_failure k _ = False"

fun account_reset :: "string \<Rightarrow> auth_op \<Rightarrow> bool" where
  "account_reset k (FailuresCleared ip u) = (normalizeUsername u = k)"
| "account_reset k _ = False"

fun address_failure :: "string \<Rightarrow> auth_op \<Rightarrow> bool" where
  "address_failure k (TwoFactorFailure ip u) = (normalizeIp ip = k)"
| "address_failure k (PasswordFailure ip u) = (normalizeIp ip = k)"
| "address_failure k _ = False"

definition no_reset :: "auth_op \<Rightarrow> bool" where
  "no_reset op = False"

subsection \<open>The stores hold the streaks\<close>

text \<open>A store agrees with a streak when both have the same entry at every later time at which the entry has not expired.\<close>

definition agrees :: "int \<Rightarrow> (string \<times> FailureEntry) list \<Rightarrow> string \<Rightarrow> FailureEntry option \<Rightarrow> bool" where
  "agrees t m k s \<longleftrightarrow> keys_distinct m \<and> (\<forall>now \<ge> t. live now (map_of m k) = live now s)"

lemma active_live: "fst (activeFailureEntry store key now) = live now (map_of store key)"
  by (simp add: activeFailureEntry_fst live_def)

lemma recordFailure_map:
  assumes "length m < AUTH_RATE_LIMIT_MAX_KEYS"
  shows "map_of (recordFailure m k t) = (map_of m)(k \<mapsto> one_more t (map_of m k))"
proof -
  have e: "recordFailure m k t = setBoundedMapValue (snd (activeFailureEntry m k t)) k (one_more t (map_of m k)) AUTH_RATE_LIMIT_MAX_KEYS"
    by (auto simp: recordFailure_def activeFailureEntry_def one_more_def live_def split: option.splits)
  have "length (alist_delete k (snd (activeFailureEntry m k t))) \<le> length m"
    by (auto simp: activeFailureEntry_def alist_delete_def split: option.splits intro: order_trans length_filter_le)
  then have "map_of (recordFailure m k t) = (map_of (snd (activeFailureEntry m k t)))(k \<mapsto> one_more t (map_of m k))"
    unfolding e by (intro setBounded_room) (use assms in \<open>simp add: AUTH_RATE_LIMIT_MAX_KEYS_def\<close>)
  then show ?thesis by (auto simp: activeFailureEntry_def alist_simps fun_eq_iff split: option.splits)
qed

lemma keys_distinct_active: "keys_distinct m \<Longrightarrow> keys_distinct (snd (activeFailureEntry m k t))"
  by (auto simp: activeFailureEntry_def alist_simps split: option.splits)

lemma keys_distinct_recordFailure: "keys_distinct m \<Longrightarrow> keys_distinct (recordFailure m k t)"
  using keys_distinct_active [of m k t]
  by (auto simp: recordFailure_def alist_simps split: prod.splits option.splits)

lemma agrees_later: "agrees t m k s \<Longrightarrow> t \<le> t' \<Longrightarrow> agrees t' m k s"
  by (simp add: agrees_def)

lemma agrees_record:
  assumes "agrees t m k s" "length m < AUTH_RATE_LIMIT_MAX_KEYS"
  shows "agrees t (recordFailure m k t) k (Some (one_more t s))"
    and "k' \<noteq> k \<Longrightarrow> agrees t (recordFailure m k' t) k s"
proof -
  have "live t (map_of m k) = live t s" using assms(1) by (simp add: agrees_def)
  then have "one_more t (map_of m k) = one_more t s" by (simp add: one_more_def)
  then show "agrees t (recordFailure m k t) k (Some (one_more t s))"
    using assms by (simp add: agrees_def recordFailure_map keys_distinct_recordFailure)
  show "agrees t (recordFailure m k' t) k s" if "k' \<noteq> k"
    using that assms by (simp add: agrees_def recordFailure_map keys_distinct_recordFailure)
qed

lemma live_checked: "t \<le> now \<Longrightarrow> live now (map_of (snd (activeFailureEntry m k' t)) k) = live now (map_of m k)"
  by (auto simp: activeFailureEntry_def alist_simps live_def split: option.splits)

lemma agrees_checked: "agrees t m k s \<Longrightarrow> agrees t (snd (activeFailureEntry m k' t)) k s"
  by (simp add: agrees_def live_checked keys_distinct_active)

lemma agrees_cleared:
  assumes "agrees t m k s"
  shows "agrees t (alist_delete k m) k None" and "k' \<noteq> k \<Longrightarrow> agrees t (alist_delete k' m) k s"
  using assms by (simp_all add: agrees_def alist_simps)

lemma agrees_pruned:
  assumes "agrees t m k s"
  shows "agrees t (snd (pruneMapEntries m (\<lambda>e (_ :: string). LOGIN_FAIL_WINDOW_MS \<le> t - lastFailAt e))) k s"
proof -
  have d: "keys_distinct m" using assms by (simp add: agrees_def)
  have "live now (map_of (snd (pruneMapEntries m (\<lambda>e (_ :: string). LOGIN_FAIL_WINDOW_MS \<le> t - lastFailAt e))) k) = live now (map_of m k)"
    if "t \<le> now" for now
    using d
  proof (induction m)
    case (Cons x m)
    have "map_of (filter P m) k = None" if "fst x = k" for P using Cons.prems that by (auto simp: keys_distinct_def map_of_eq_None_iff)
    moreover have "keys_distinct m" using Cons.prems by (simp add: keys_distinct_def)
    ultimately show ?case using Cons.IH \<open>t \<le> now\<close> by (cases x) (auto simp: pruneMapEntries_def live_def)
  qed (simp add: pruneMapEntries_def)
  then show ?thesis using assms d by (simp add: agrees_def pruneMapEntries_def alist_simps)
qed

definition counters_ok :: "(int \<times> auth_op) list \<Rightarrow> int \<Rightarrow> auth_state \<Rightarrow> bool" where
  "counters_ok evs t st \<longleftrightarrow>
     (\<forall>k. agrees t (loginFailStore st) k (streak (pair_failure k) (pair_reset k) evs))
     \<and> (\<forall>k. agrees t (loginAccountFailStore st) k (streak (account_failure k) (account_reset k) evs))
     \<and> (\<forall>k. agrees t (loginIpFailStore st) k (streak (address_failure k) no_reset evs))"

lemma counters_okD:
  assumes "counters_ok evs t st"
  shows "agrees t (loginFailStore st) k (streak (pair_failure k) (pair_reset k) evs)"
    "agrees t (loginAccountFailStore st) k (streak (account_failure k) (account_reset k) evs)"
    "agrees t (loginIpFailStore st) k (streak (address_failure k) no_reset evs)"
  using assms by (simp_all add: counters_ok_def)

lemma counters_ok_step:
  assumes ok: "counters_ok evs t st" and room: "has_room st" and step: "auth_step (t, op) st = Some st'"
  shows "counters_ok ((t, op) # evs) t st'"
proof -
  note D = counters_okD [OF ok]
  have r: "length (loginFailStore st) < AUTH_RATE_LIMIT_MAX_KEYS" "length (loginAccountFailStore st) < AUTH_RATE_LIMIT_MAX_KEYS"
    "length (loginIpFailStore st) < AUTH_RATE_LIMIT_MAX_KEYS" using room by (simp_all add: has_room_def)
  note R = agrees_record [OF D(1) r(1)] agrees_record [OF D(2) r(2)] agrees_record [OF D(3) r(3)]
  note C = agrees_cleared [OF D(1)] agrees_cleared [OF D(2)]
  show ?thesis
  proof (cases op)
    case (TwoFactorFailure ip u)
    then have "st' = recordAuthFailure ip u t st" using step by simp
    then show ?thesis unfolding counters_ok_def TwoFactorFailure by (simp add: recordAuthFailure_def no_reset_def R)
  next
    case (PasswordFailure ip u)
    then have "st' = recordPasswordFailure ip u t st" using step by simp
    then show ?thesis unfolding counters_ok_def PasswordFailure by (simp add: recordPasswordFailure_def no_reset_def R D)
  next
    case (RateChecked ip u)
    then show ?thesis using step D
      by (auto simp: counters_ok_def authRateLimitState_def no_reset_def Let_def case_prod_beta agrees_checked)
  next
    case (FailuresCleared ip u)
    then have "st' = clearAuthAccountFailures ip u st" using step by simp
    then show ?thesis unfolding counters_ok_def FailuresCleared by (simp add: clearAuthAccountFailures_def no_reset_def C D)
  next
    case (Pruned fuel)
    then show ?thesis using D step
      by (auto simp: counters_ok_def pruneAuthRateLimitState_def no_reset_def Let_def agrees_pruned split: option.splits)
  qed (use D step in \<open>auto simp: counters_ok_def no_reset_def twoFactorChallengeIssueState_def recordTwoFactorChallengeIssue_def
      clearTwoFactorChallengeIssueHistory_def Let_def case_prod_beta\<close>)
qed

lemma counters_ok_later: "counters_ok evs t st \<Longrightarrow> t \<le> t' \<Longrightarrow> counters_ok evs t' st"
  unfolding counters_ok_def using agrees_later by blast

lemma auth_reach_ok: "auth_reach evs st \<Longrightarrow> list_all (\<lambda>e. fst e \<le> t) evs \<Longrightarrow> counters_ok evs t st"
proof (induction arbitrary: t rule: auth_reach.induct)
  case auth_start
  then show ?case by (simp add: counters_ok_def agrees_def empty_auth_def keys_distinct_def live_def)
next
  case (auth_next evs st t' op st')
  have "counters_ok ((t', op) # evs) t' st'"
    using auth_next counters_ok_step by blast
  then show ?case by (rule counters_ok_later) (use auth_next.prems in simp)
qed

text \<open>C32: who is blocked, exactly. After any run of the module in which no store is full, a request for an account from an address is
  limited exactly when one of three streaks is long enough and its last failure less than a quarter of an hour ago:
  eight failures of either kind for this pair of address and account, eight second-factor failures of the account from whatever
  addresses, or forty failures of either kind from the address. So eight second-factor failures lock an account
  out from every address, while password failures from other addresses never do. A streak is made of failures less than
  half an hour apart and ends with a successful authentication of its account; the answer of a limited request is a positive delay.\<close>

theorem account_is_blocked:
  assumes "auth_reach evs st" "list_all (\<lambda>e. fst e \<le> now) evs"
  shows "(limited (fst (authRateLimitState ip u now st)) \<longleftrightarrow>
      blocks now 8 (live now (streak (pair_failure (getAuthAttemptKey ip u)) (pair_reset (getAuthAttemptKey ip u)) evs))
      \<or> blocks now 8 (live now (streak (account_failure (normalizeUsername u)) (account_reset (normalizeUsername u)) evs))
      \<or> blocks now 40 (live now (streak (address_failure (normalizeIp ip)) no_reset evs)))
    \<and> (list_all (\<lambda>e. \<not> pair_failure (getAuthAttemptKey ip u) (snd e) \<and> \<not> account_failure (normalizeUsername u) (snd e)
          \<and> \<not> address_failure (normalizeIp ip) (snd e)) evs
        \<longrightarrow> \<not> limited (fst (authRateLimitState ip u now st)))
    \<and> (limited (fst (authRateLimitState ip u now st)) \<longrightarrow> 1 \<le> retryAfterSeconds (fst (authRateLimitState ip u now st)))"
proof (intro conjI impI)
  have ok: "counters_ok evs now st" by (rule auth_reach_ok [OF assms])
  show iff: "limited (fst (authRateLimitState ip u now st)) \<longleftrightarrow>
      blocks now 8 (live now (streak (pair_failure (getAuthAttemptKey ip u)) (pair_reset (getAuthAttemptKey ip u)) evs))
      \<or> blocks now 8 (live now (streak (account_failure (normalizeUsername u)) (account_reset (normalizeUsername u)) evs))
      \<or> blocks now 40 (live now (streak (address_failure (normalizeIp ip)) no_reset evs))"
    using ok unfolding authRateLimitState_fst first_block_limited active_live
    by (simp add: counters_ok_def agrees_def LOGIN_BLOCK_THRESHOLD_PER_ACCOUNT_def LOGIN_BLOCK_THRESHOLD_PER_IP_def)
  show "\<not> limited (fst (authRateLimitState ip u now st))"
    if "list_all (\<lambda>e. \<not> pair_failure (getAuthAttemptKey ip u) (snd e) \<and> \<not> account_failure (normalizeUsername u) (snd e)
          \<and> \<not> address_failure (normalizeIp ip) (snd e)) evs"
  proof -
    have "streak c r evs = None" if "list_all (\<lambda>e. \<not> c (snd e)) evs" for c r
      using that by (induction c r evs rule: streak.induct) auto
    then show ?thesis unfolding iff using that by (simp add: list_all_iff live_def blocks_def)
  qed
  show "1 \<le> retryAfterSeconds (fst (authRateLimitState ip u now st))" if "limited (fst (authRateLimitState ip u now st))"
    using that first_block_retry unfolding authRateLimitState_fst by blast
qed

text \<open>Runs of failures, and the state after them.\<close>

fun replay :: "(int \<times> auth_op) list \<Rightarrow> auth_state option" where
  "replay [] = Some empty_auth"
| "replay (e # evs) = Option.bind (replay evs) (auth_step e)"

lemma recordFailure_length: "length (recordFailure m k t) \<le> Suc (length m)"
proof -
  have f: "length (filter P m) \<le> length m" for P by simp
  have g: "length (filter Q (filter P m)) \<le> length m" for P Q using le_trans [OF length_filter_le length_filter_le] .
  show ?thesis
    by (auto simp: recordFailure_def activeFailureEntry_def setBoundedMapValue_def evict_oldest_drop alist_delete_def
        split: option.splits simp del: filter_filter intro: le_trans [OF diff_le_self] f g)
qed

lemma active_length: "length (snd (activeFailureEntry m k t)) \<le> length m"
  by (auto simp: activeFailureEntry_def alist_delete_def split: option.splits)

definition stores_within :: "nat \<Rightarrow> auth_state \<Rightarrow> bool" where
  "stores_within n st \<longleftrightarrow> length (loginFailStore st) \<le> n \<and> length (loginAccountFailStore st) \<le> n \<and> length (loginIpFailStore st) \<le> n"

lemma auth_step_within:
  assumes "stores_within n st" "auth_step (t, op) st = Some st'"
  shows "stores_within (Suc n) st'"
proof (cases op)
  case (TwoFactorFailure ip u)
  then show ?thesis using assms recordFailure_length
    by (auto simp: stores_within_def recordAuthFailure_def intro: le_trans [OF recordFailure_length])
next
  case (PasswordFailure ip u)
  then show ?thesis using assms
    by (auto simp: stores_within_def recordPasswordFailure_def intro: le_trans [OF recordFailure_length])
next
  case (RateChecked ip u)
  then show ?thesis using assms
    by (auto simp: stores_within_def authRateLimitState_def Let_def case_prod_beta intro!: le_trans [OF active_length])
next
  case (FailuresCleared ip u)
  then show ?thesis using assms
    by (auto simp: stores_within_def clearAuthAccountFailures_def alist_delete_def intro!: le_trans [OF length_filter_le])
next
  case (Pruned fuel)
  then show ?thesis using assms
    by (auto simp: stores_within_def pruneAuthRateLimitState_def pruneMapEntries_def Let_def split: option.splits
        intro!: le_trans [OF length_filter_le])
qed (use assms in \<open>auto simp: stores_within_def twoFactorChallengeIssueState_def recordTwoFactorChallengeIssue_def
      clearTwoFactorChallengeIssueHistory_def Let_def case_prod_beta\<close>)

text \<open>A run of fewer calls than a store has room for never fills one.\<close>

lemma replay_reach:
  "replay evs = Some st \<Longrightarrow> sorted_wrt (\<lambda>newer older. fst older \<le> fst newer) evs \<Longrightarrow> length evs \<le> AUTH_RATE_LIMIT_MAX_KEYS
    \<Longrightarrow> auth_reach evs st \<and> stores_within (length evs) st"
proof (induction evs arbitrary: st)
  case Nil
  then have "st = empty_auth" by simp
  then show ?case using auth_start by (simp add: stores_within_def) (simp add: empty_auth_def)
next
  case (Cons e evs)
  obtain st1 where st1: "replay evs = Some st1" "auth_step e st1 = Some st" using Cons.prems(1) by (auto simp: bind_eq_Some_conv)
  have IH: "auth_reach evs st1" "stores_within (length evs) st1" using Cons.IH [OF st1(1)] Cons.prems(2,3) by simp_all
  obtain t op where e: "e = (t, op)" by (cases e)
  have "has_room st1" using IH(2) Cons.prems(3) by (simp add: has_room_def stores_within_def)
  moreover have "list_all (\<lambda>x. fst x \<le> t) evs" using Cons.prems(2) by (simp add: e list_all_iff)
  ultimately show ?case
    using auth_next [OF IH(1)] auth_step_within [OF IH(2)] st1(2) unfolding e by simp
qed

text \<open>Eight second-factor failures of one account from two addresses, a password failure of it in between, and eight password
  failures of another account.\<close>

definition sample_attempts :: "(int \<times> auth_op) list" where
  "sample_attempts = [(1700, TwoFactorFailure ''1.2.3.4'' ''bob''), (1600, TwoFactorFailure ''9.9.9.9'' ''bob''),
     (1500, TwoFactorFailure ''1.2.3.4'' ''bob''), (1400, PasswordFailure ''1.2.3.4'' ''bob''),
     (1300, TwoFactorFailure ''9.9.9.9'' ''bob''), (1200, TwoFactorFailure ''9.9.9.9'' ''bob''),
     (1100, TwoFactorFailure ''1.2.3.4'' ''bob''), (1000, TwoFactorFailure ''1.2.3.4'' ''Bob''),
     (900, TwoFactorFailure ''1.2.3.4'' ''bob''),
     (800, PasswordFailure ''1.2.3.4'' ''eve''), (700, PasswordFailure ''1.2.3.4'' ''eve''), (600, PasswordFailure ''1.2.3.4'' ''eve''),
     (500, PasswordFailure ''1.2.3.4'' ''eve''), (400, PasswordFailure ''1.2.3.4'' ''eve''), (300, PasswordFailure ''1.2.3.4'' ''eve''),
     (200, PasswordFailure ''1.2.3.4'' ''eve''), (100, PasswordFailure ''1.2.3.4'' ''eve'')]"

definition sample_auth :: auth_state where
  "sample_auth = the (replay sample_attempts)"

lemma sample_auth_reach: "auth_reach sample_attempts sample_auth"
proof -
  have "replay sample_attempts = Some sample_auth" by (simp add: sample_auth_def sample_attempts_def)
  from replay_reach [OF this] show ?thesis by (simp add: sample_attempts_def AUTH_RATE_LIMIT_MAX_KEYS_def)
qed

lemma sample_streaks:
  "streak (account_failure (normalizeUsername ''bob'')) (account_reset (normalizeUsername ''bob'')) sample_attempts
     = Some \<lparr>fail_count = 8, lastFailAt = 1700\<rparr>"
  "list_all (\<lambda>e. \<not> pair_failure (getAuthAttemptKey ''5.6.7.8'' ''eve'') (snd e) \<and> \<not> account_failure (normalizeUsername ''eve'') (snd e)
      \<and> \<not> address_failure (normalizeIp ''5.6.7.8'') (snd e)) sample_attempts"
  by code_simp+

theorem account_is_blocked_witness:
  "limited (fst (authRateLimitState ''5.6.7.8'' ''bob'' 1800 sample_auth))
   \<and> \<not> limited (fst (authRateLimitState ''5.6.7.8'' ''eve'' 1800 sample_auth))"
proof -
  have "list_all (\<lambda>e. fst e \<le> 1800) sample_attempts" by (simp add: sample_attempts_def)
  note B = account_is_blocked [OF sample_auth_reach this]
  have "blocks 1800 8 (live 1800 (Some \<lparr>fail_count = 8, lastFailAt = 1700\<rparr>))"
    by (simp add: blocks_def live_def LOGIN_FAIL_WINDOW_MS_def LOGIN_BLOCK_MS_def)
  then have "limited (fst (authRateLimitState ''5.6.7.8'' ''bob'' 1800 sample_auth))"
    using conjunct1 [OF B, of "''5.6.7.8''" "''bob''"] sample_streaks(1) by simp
  then show ?thesis using conjunct1 [OF conjunct2 [OF B], of "''5.6.7.8''" "''eve''"] sample_streaks(2) by blast
qed

section \<open>Issuing challenges\<close>

lemma issue_scope_retry: "fst (issue_scope now store key) > 0 \<longleftrightarrow>
   (\<exists>ts. map_of store key = Some ts \<and> TWO_FACTOR_CHALLENGE_ISSUE_MAX \<le> length (active_issues now ts))"
proof (cases "map_of store key")
  case (Some ts)
  show ?thesis
  proof (cases "TWO_FACTOR_CHALLENGE_ISSUE_MAX \<le> length (active_issues now ts)")
    case True
    then have "active_issues now ts \<noteq> []" by (auto simp: TWO_FACTOR_CHALLENGE_ISSUE_MAX_def)
    then have "hd (active_issues now ts) \<in> set (active_issues now ts)" by simp
    then have "0 < hd (active_issues now ts) + TWO_FACTOR_CHALLENGE_ISSUE_WINDOW_MS - now"
      by (simp add: active_issues_def)
    then have "0 < ceil_div (hd (active_issues now ts) + TWO_FACTOR_CHALLENGE_ISSUE_WINDOW_MS - now) 1000"
      unfolding ceil_div_def by linarith
    then show ?thesis using True Some by (simp add: issue_scope_def Let_def)
  qed (simp add: Some issue_scope_def Let_def)
qed (simp add: issue_scope_def)

lemma issue_limited: "limited (fst (twoFactorChallengeIssueState ip u now st)) \<longleftrightarrow>
   fst (issue_scope now (challengeIssueStore st) (getAuthAttemptKey ip u)) > 0
   \<or> fst (issue_scope now (challengeIssueAccountStore st) (normalizeUsername u)) > 0
   \<or> fst (issue_scope now (challengeIssueIpStore st) (normalizeIp ip)) > 0"
  by (auto simp: twoFactorChallengeIssueState_def Let_def case_prod_beta)

lemma issue_scope_lookup:
  "map_of (snd (issue_scope now store key)) key = (case map_of store key of None \<Rightarrow> None
     | Some ts \<Rightarrow> if active_issues now ts = [] then None else Some (active_issues now ts))"
  by (auto simp: issue_scope_def Let_def setBounded_same map_of_alist_delete split: option.splits)

lemma active_issues_idem [simp]: "active_issues now (active_issues now ts) = active_issues now ts"
  by (simp add: active_issues_def)

definition recent :: "int \<Rightarrow> (string \<times> int list) list \<Rightarrow> string \<Rightarrow> nat" where
  "recent now store key = length (active_issues now (case map_of store key of None \<Rightarrow> [] | Some ts \<Rightarrow> ts))"

text \<open>Checking the scope first keeps the recorded issues of that scope.\<close>

lemma recent_after_scope: "recent now (snd (issue_scope now store key)) key = recent now store key"
  by (auto simp: recent_def issue_scope_lookup active_issues_def split: option.splits)

lemma recent_record: "recent now (record_issue now store key) key = recent now store key + 1"
  by (simp add: recent_def record_issue_def setBounded_same active_issues_def TWO_FACTOR_CHALLENGE_ISSUE_WINDOW_MS_def)

lemma scope_free: "\<not> fst (issue_scope now store key) > 0 \<longleftrightarrow> recent now store key < TWO_FACTOR_CHALLENGE_ISSUE_MAX"
  unfolding issue_scope_retry
  by (auto simp: recent_def active_issues_def TWO_FACTOR_CHALLENGE_ISSUE_MAX_def split: option.splits)

text \<open>A challenge is issued only while fewer than five were recorded in the last minute for the address with the
  account, for the account and for the address; recording it leaves at most five in each of the three scopes.\<close>

theorem challenge_issue_window:
  assumes "twoFactorChallengeIssueState ip u now st = (r, st1)"
  shows "(limited r \<longleftrightarrow> recent now (challengeIssueStore st) (getAuthAttemptKey ip u) \<ge> 5
          \<or> recent now (challengeIssueAccountStore st) (normalizeUsername u) \<ge> 5
          \<or> recent now (challengeIssueIpStore st) (normalizeIp ip) \<ge> 5)
    \<and> (let st2 = recordTwoFactorChallengeIssue ip u now st1 in \<not> limited r \<longrightarrow>
         recent now (challengeIssueStore st2) (getAuthAttemptKey ip u) \<le> 5
         \<and> recent now (challengeIssueAccountStore st2) (normalizeUsername u) \<le> 5
         \<and> recent now (challengeIssueIpStore st2) (normalizeIp ip) \<le> 5)"
proof -
  have r: "r = fst (twoFactorChallengeIssueState ip u now st)" using assms by simp
  have lim: "limited r \<longleftrightarrow> recent now (challengeIssueStore st) (getAuthAttemptKey ip u) \<ge> 5
          \<or> recent now (challengeIssueAccountStore st) (normalizeUsername u) \<ge> 5
          \<or> recent now (challengeIssueIpStore st) (normalizeIp ip) \<ge> 5"
    unfolding r issue_limited
    using scope_free [of now "challengeIssueStore st" "getAuthAttemptKey ip u"]
      scope_free [of now "challengeIssueAccountStore st" "normalizeUsername u"]
      scope_free [of now "challengeIssueIpStore st" "normalizeIp ip"]
    by (auto simp: TWO_FACTOR_CHALLENGE_ISSUE_MAX_def)
  have "challengeIssueStore st1 = snd (issue_scope now (challengeIssueStore st) (getAuthAttemptKey ip u))"
    "challengeIssueAccountStore st1 = snd (issue_scope now (challengeIssueAccountStore st) (normalizeUsername u))"
    "challengeIssueIpStore st1 = snd (issue_scope now (challengeIssueIpStore st) (normalizeIp ip))"
    using assms by (auto simp: twoFactorChallengeIssueState_def Let_def case_prod_beta)
  then show ?thesis
    using lim by (auto simp: recordTwoFactorChallengeIssue_def recent_record recent_after_scope Let_def)
qed

theorem challenge_issue_window_witness:
  "limited (fst (twoFactorChallengeIssueState ''1.2.3.4'' ''bob'' 2000
     \<lparr>loginFailStore = [], loginAccountFailStore = [], loginIpFailStore = [], challengeIssueStore = [],
      challengeIssueAccountStore = [(''bob'', [1000, 1100, 1200, 1300, 1400])], challengeIssueIpStore = []\<rparr>))"
proof -
  define st where "st = \<lparr>loginFailStore = [], loginAccountFailStore = [], loginIpFailStore = [], challengeIssueStore = [],
      challengeIssueAccountStore = [(''bob'', [1000, 1100, 1200, 1300, 1400])], challengeIssueIpStore = []\<rparr>"
  have "recent 2000 (challengeIssueAccountStore st) (normalizeUsername ''bob'') \<ge> 5"
    unfolding st_def by code_simp
  then show ?thesis
    using challenge_issue_window [of "''1.2.3.4''" "''bob''" 2000 st, OF prod.collapse [symmetric]] unfolding st_def by blast
qed

section \<open>The pruning loop\<close>

definition some_active :: "int \<Rightarrow> (string \<times> int list) list \<Rightarrow> bool" where
  "some_active now store \<longleftrightarrow> list_ex (\<lambda>e. active_issues now (snd e) \<noteq> []) store"

lemma prune_stuck:
  "keys_distinct store \<Longrightarrow> some_active now store \<Longrightarrow> prune_issues fuel now store = None"
proof (induction fuel now store rule: prune_issues.induct)
  case (3 fuel now key timestamps store)
  have d: "keys_distinct store" "alist_delete key ((key, timestamps) # store) = store"
    using 3(3) by (auto simp: alist_delete_def keys_distinct_def filter_id_conv)
  show ?case
  proof (cases "active_issues now timestamps = []")
    case True
    then have "some_active now store" using 3(4) by (simp add: some_active_def)
    then show ?thesis using 3(2) True d by (simp add: Let_def)
  next
    case False
    define m where "m = setBoundedMapValue ((key, timestamps) # store) key (active_issues now timestamps) AUTH_RATE_LIMIT_MAX_KEYS"
    have "some_active now m" using False by (simp add: m_def setBoundedMapValue_def some_active_def)
    moreover have "keys_distinct m" unfolding m_def by (rule keys_distinct_setBounded [OF 3(3)])
    ultimately show ?thesis using 3(1) False by (simp add: Let_def m_def)
  qed
qed (simp_all add: some_active_def)

lemma prune_all_old:
  "\<not> some_active now store \<Longrightarrow> length store \<le> fuel \<Longrightarrow> prune_issues fuel now store = Some []"
proof (induction fuel now store rule: prune_issues.induct)
  case (3 fuel now key timestamps store)
  have len: "length (alist_delete key ((key, timestamps) # store)) \<le> fuel"
    using 3(4) le_trans [OF length_filter_le] by (simp add: alist_delete_def)
  have "\<not> some_active now (alist_delete key ((key, timestamps) # store))"
    using 3(3) by (auto simp: some_active_def alist_delete_def list_ex_iff)
  then show ?case using 3 len by (auto simp: Let_def some_active_def)
qed simp_all

text \<open>C36: The periodic pruning never ends when any recorded challenge issue is less than a minute old: the loop keeps
  re-appending that entry to the map it iterates over. It ends, with empty issue stores, when all issues are older.\<close>

theorem prune_ends_only_when_idle:
  assumes "keys_distinct (challengeIssueStore st)" "keys_distinct (challengeIssueAccountStore st)"
    "keys_distinct (challengeIssueIpStore st)"
  shows "(some_active now (challengeIssueStore st) \<or> some_active now (challengeIssueAccountStore st)
          \<or> some_active now (challengeIssueIpStore st) \<longrightarrow> (\<forall>fuel. pruneAuthRateLimitState fuel now st = None))
    \<and> (\<not> some_active now (challengeIssueStore st) \<and> \<not> some_active now (challengeIssueAccountStore st)
          \<and> \<not> some_active now (challengeIssueIpStore st) \<longrightarrow>
        (\<exists>fuel st'. pruneAuthRateLimitState fuel now st = Some st'
           \<and> snd (authRateLimitStoreSizesForTests st') = 0))"
proof (intro conjI impI allI)
  fix fuel
  assume "some_active now (challengeIssueStore st) \<or> some_active now (challengeIssueAccountStore st)
          \<or> some_active now (challengeIssueIpStore st)"
  then show "pruneAuthRateLimitState fuel now st = None"
    using assms prune_stuck by (auto simp: pruneAuthRateLimitState_def Let_def split: option.splits)
next
  assume idle: "\<not> some_active now (challengeIssueStore st) \<and> \<not> some_active now (challengeIssueAccountStore st)
          \<and> \<not> some_active now (challengeIssueIpStore st)"
  let ?fuel = "length (challengeIssueStore st) + length (challengeIssueAccountStore st) + length (challengeIssueIpStore st)"
  have "prune_issues ?fuel now (challengeIssueStore st) = Some []"
    "prune_issues ?fuel now (challengeIssueAccountStore st) = Some []"
    "prune_issues ?fuel now (challengeIssueIpStore st) = Some []"
    using idle by (simp_all add: prune_all_old)
  then show "\<exists>fuel st'. pruneAuthRateLimitState fuel now st = Some st' \<and> snd (authRateLimitStoreSizesForTests st') = 0"
    by (intro exI [of _ ?fuel]) (simp add: pruneAuthRateLimitState_def Let_def authRateLimitStoreSizesForTests_def)
qed

theorem prune_ends_only_when_idle_witness:
  "pruneAuthRateLimitState 1000 300000
     \<lparr>loginFailStore = [], loginAccountFailStore = [], loginIpFailStore = [],
      challengeIssueStore = [(''1.2.3.4:bob'', [299000])], challengeIssueAccountStore = [(''bob'', [299000])],
      challengeIssueIpStore = [(''1.2.3.4'', [299000])]\<rparr> = None"
  using prune_ends_only_when_idle
    [of "\<lparr>loginFailStore = [], loginAccountFailStore = [], loginIpFailStore = [],
      challengeIssueStore = [(''1.2.3.4:bob'', [299000])], challengeIssueAccountStore = [(''bob'', [299000])],
      challengeIssueIpStore = [(''1.2.3.4'', [299000])]\<rparr>" 300000]
  by (simp add: keys_distinct_def some_active_def active_issues_def TWO_FACTOR_CHALLENGE_ISSUE_WINDOW_MS_def)

section \<open>Second-factor challenges\<close>

fun challenge_failures :: "string \<Rightarrow> int list \<Rightarrow> challenge_store \<Rightarrow> bool list \<times> challenge_store" where
  "challenge_failures cid [] cs = ([], cs)"
| "challenge_failures cid (t # ts) cs =
     (let (b, cs1) = recordTwoFactorChallengeFailure cid t cs; (bs, cs2) = challenge_failures cid ts cs1 in (b # bs, cs2))"

definition attempts_left :: "string \<Rightarrow> challenge_store \<Rightarrow> nat" where
  "attempts_left cid cs = (case map_of cs cid of None \<Rightarrow> 0 | Some c \<Rightarrow> TWO_FACTOR_CHALLENGE_MAX_ATTEMPTS - ch_attempts c)"

lemma challenge_failure_step:
  assumes "recordTwoFactorChallengeFailure cid t cs = (b, cs')"
  shows "attempts_left cid cs' \<le> attempts_left cid cs - 1" "b \<Longrightarrow> attempts_left cid cs' + 1 = attempts_left cid cs \<and> 0 < attempts_left cid cs'"
    "\<not> b \<Longrightarrow> map_of cs' cid = None"
  using assms
  by (auto simp: recordTwoFactorChallengeFailure_def getTwoFactorChallenge_def attempts_left_def map_of_alist_delete
      map_of_alist_set Let_def split: option.splits if_splits)

definition attempts_ok :: "string \<Rightarrow> challenge_store \<Rightarrow> bool" where
  "attempts_ok cid cs \<longleftrightarrow> (case map_of cs cid of None \<Rightarrow> True | Some c \<Rightarrow> ch_attempts c < TWO_FACTOR_CHALLENGE_MAX_ATTEMPTS)"

lemma attempts_ok_step:
  assumes "recordTwoFactorChallengeFailure cid t cs = (b, cs')" "attempts_ok cid cs"
  shows "attempts_ok cid cs'"
  using assms
  by (auto simp: recordTwoFactorChallengeFailure_def getTwoFactorChallenge_def attempts_ok_def map_of_alist_delete
      map_of_alist_set Let_def split: option.splits if_splits)

lemma attempts_ok_failures:
  "challenge_failures cid ts cs = (bs, cs') \<Longrightarrow> attempts_ok cid cs \<Longrightarrow> attempts_ok cid cs'"
  by (induction ts arbitrary: cs bs) (auto simp: Let_def dest: attempts_ok_step split: prod.splits)

lemma challenge_failures_left:
  assumes "challenge_failures cid ts cs = (bs, cs')"
  shows "attempts_left cid cs' \<le> attempts_left cid cs - length ts
    \<and> length (filter id bs) \<le> attempts_left cid cs - 1"
  using assms
proof (induction ts arbitrary: cs bs)
  case (Cons t ts)
  obtain b cs1 bs1 where b: "recordTwoFactorChallengeFailure cid t cs = (b, cs1)" "challenge_failures cid ts cs1 = (bs1, cs')"
    "bs = b # bs1"
    using Cons.prems by (auto simp: Let_def split: prod.splits)
  note s = challenge_failure_step [OF b(1)]
  from Cons.IH [OF b(2)] s b(3) show ?case by (cases b) auto
qed simp

text \<open>A second-factor challenge accepts at most four wrong codes and is gone after the fifth, whatever the times
  of the attempts, and a challenge is only ever returned before it expires and to a matching address.\<close>

theorem challenge_attempts_bounded:
  assumes "challenge_failures cid ts (snd (createTwoFactorChallenge cid uid name mobile ip now1 now2 cs)) = (bs, cs')"
  shows "length (filter id bs) \<le> 4 \<and> (5 \<le> length ts \<longrightarrow> fst (getTwoFactorChallenge cid req now cs') = None)
    \<and> (\<forall>c. fst (getTwoFactorChallenge cid req now cs') = Some c \<longrightarrow>
          now < ch_expiresAt c \<and> (case req of None \<Rightarrow> True | Some a \<Rightarrow> challengeIpMatches (ch_issueIp c) a))"
proof -
  have left: "attempts_left cid (snd (createTwoFactorChallenge cid uid name mobile ip now1 now2 cs)) = 5"
    by (simp add: createTwoFactorChallenge_def attempts_left_def map_of_alist_set TWO_FACTOR_CHALLENGE_MAX_ATTEMPTS_def)
  note L = challenge_failures_left [OF assms, unfolded left]
  have "attempts_ok cid (snd (createTwoFactorChallenge cid uid name mobile ip now1 now2 cs))"
    by (simp add: createTwoFactorChallenge_def attempts_ok_def map_of_alist_set TWO_FACTOR_CHALLENGE_MAX_ATTEMPTS_def)
  then have "attempts_ok cid cs'" by (rule attempts_ok_failures [OF assms])
  then have gone: "map_of cs' cid = None" if "5 \<le> length ts"
    using L that by (auto simp: attempts_ok_def attempts_left_def split: option.splits)
  have "now < ch_expiresAt c \<and> (case req of None \<Rightarrow> True | Some a \<Rightarrow> challengeIpMatches (ch_issueIp c) a)"
    if "fst (getTwoFactorChallenge cid req now cs') = Some c" for c
    using that by (auto simp: getTwoFactorChallenge_def split: option.splits if_splits)
  then show ?thesis using L gone by (auto simp: getTwoFactorChallenge_def)
qed

theorem challenge_attempts_bounded_witness:
  "fst (getTwoFactorChallenge ''abc'' None 50
     (snd (challenge_failures ''abc'' [10, 20, 30, 40, 45]
        (snd (createTwoFactorChallenge ''abc'' 1 ''bob'' False None 0 0 []))))) = None"
  using challenge_attempts_bounded [of "''abc''" "[10, 20, 30, 40, 45]" 1 "''bob''" False None 0 0 "[]",
      OF prod.collapse [symmetric], of None 50]
  by simp

end
