(* ===== verification/RuleQuota.thy ===== *)
theory RuleQuota
  imports Prelude
begin

text \<open>
  Keyed task locks (server/keyedTaskLock.ts) as a step system over promises, and the quota reservations
  for rule creation (server/ruleQuotaReservations.ts) whose critical sections the locks make atomic.
\<close>

section \<open>Keyed task locks\<close>

text \<open>
  Every call of \<open>withKeyedTaskLock\<close> has a number; it waits for the gate of the call that was pending for
  the same key, if any, then runs its task and finally opens its own gate. \<open>pendingTasks\<close> maps a key to the
  last call and its depth.
\<close>

datatype lock_phase = Waiting "nat option" | Running | Finished

record lock_call =
  lc_id :: nat
  lc_key :: string
  lc_phase :: lock_phase

record lock_state =
  lk_calls :: "lock_call list"
  lk_pending :: "string \<Rightarrow> (nat \<times> nat) option"
  lk_open :: "nat list"
  lk_next :: nat

definition lock_key :: "string \<Rightarrow> string" where
  "lock_key keyValue = js_trim keyValue"

definition lock_enter :: "string \<Rightarrow> lock_state \<Rightarrow> lock_state" where
  "lock_enter keyValue s =
     (let key = lock_key keyValue; i = lk_next s in
      if key = [] then s\<lparr>lk_calls := lk_calls s @ [\<lparr>lc_id = i, lc_key = key, lc_phase = Running\<rparr>], lk_next := i + 1\<rparr>
      else s\<lparr>lk_calls := lk_calls s @ [\<lparr>lc_id = i, lc_key = key, lc_phase = Waiting (map_option fst (lk_pending s key))\<rparr>],
             lk_pending := (lk_pending s)(key \<mapsto> (i, (case lk_pending s key of None \<Rightarrow> 0 | Some p \<Rightarrow> snd p) + 1)),
             lk_next := i + 1\<rparr>)"

definition set_phase :: "nat \<Rightarrow> lock_phase \<Rightarrow> lock_call list \<Rightarrow> lock_call list" where
  "set_phase i p cs = map (\<lambda>c. if lc_id c = i then c\<lparr>lc_phase := p\<rparr> else c) cs"

definition gate_open :: "lock_state \<Rightarrow> nat option \<Rightarrow> bool" where
  "gate_open s w = (case w of None \<Rightarrow> True | Some j \<Rightarrow> j \<in> set (lk_open s))"

definition lock_start :: "nat \<Rightarrow> lock_state \<Rightarrow> lock_state option" where
  "lock_start i s =
     (case find (\<lambda>c. lc_id c = i) (lk_calls s) of
        Some c \<Rightarrow> (case lc_phase c of
            Waiting w \<Rightarrow> if gate_open s w then Some (s\<lparr>lk_calls := set_phase i Running (lk_calls s)\<rparr>) else None
          | _ \<Rightarrow> None)
      | None \<Rightarrow> None)"

definition lock_finish :: "nat \<Rightarrow> lock_state \<Rightarrow> lock_state option" where
  "lock_finish i s =
     (case find (\<lambda>c. lc_id c = i) (lk_calls s) of
        Some c \<Rightarrow> (case lc_phase c of
            Running \<Rightarrow>
              if lc_key c = [] then Some (s\<lparr>lk_calls := set_phase i Finished (lk_calls s)\<rparr>)
              else Some (s\<lparr>lk_calls := set_phase i Finished (lk_calls s), lk_open := i # lk_open s,
                     lk_pending := (if map_option fst (lk_pending s (lc_key c)) = Some i
                                    then (lk_pending s)(lc_key c := None) else lk_pending s)\<rparr>)
          | _ \<Rightarrow> None)
      | None \<Rightarrow> None)"

definition keyedTaskDepth :: "string \<Rightarrow> lock_state \<Rightarrow> nat" where
  "keyedTaskDepth keyValue s = (case lk_pending s (lock_key keyValue) of None \<Rightarrow> 0 | Some p \<Rightarrow> snd p)"

section \<open>Quota reservations\<close>

record PendingQuota =
  pq_rules :: int
  pq_ports :: int

record RuleQuotaReservation =
  rq_id :: nat
  rq_user :: int
  rq_rules :: bool
  rq_ports :: bool

record quota_state =
  pendingByUser :: "(int \<times> PendingQuota) list"
  rq_live :: "nat list"
  rq_next :: nat

datatype quota_error = MaxRulesReached int | MaxPortsReached int

definition pending_of :: "quota_state \<Rightarrow> int \<Rightarrow> PendingQuota" where
  "pending_of s u = (case map_of (pendingByUser s) u of None \<Rightarrow> \<lparr>pq_rules = 0, pq_ports = 0\<rparr> | Some p \<Rightarrow> p)"

definition one_if :: "bool \<Rightarrow> int" where
  "one_if b = (if b then 1 else 0)"

text \<open>The critical section under the lock \<open>rule-create-quota:user\<close>; the counts are what the two callbacks
  return. With no limits a reservation without effect is returned, \<open>None\<close>.\<close>

definition reserveRuleCreateQuota ::
  "int \<Rightarrow> int \<Rightarrow> int \<Rightarrow> int \<Rightarrow> int \<Rightarrow> quota_state \<Rightarrow> quota_error + RuleQuotaReservation option \<times> quota_state" where
  "reserveRuleCreateQuota userId maxRulesValue maxPortsValue ruleCountValue portCountValue s =
     (let maxRules = max 0 maxRulesValue; maxPorts = max 0 maxPortsValue in
      if maxRules = 0 \<and> maxPorts = 0 then Inr (None, s)
      else
        let pending = pending_of s userId;
            ruleCount = (if maxRules > 0 then ruleCountValue else 0);
            portCount = (if maxPorts > 0 then portCountValue else 0) in
        if maxRules > 0 \<and> ruleCount + pq_rules pending \<ge> maxRules then Inl (MaxRulesReached maxRules)
        else if maxPorts > 0 \<and> portCount + pq_ports pending \<ge> maxPorts then Inl (MaxPortsReached maxPorts)
        else Inr (Some \<lparr>rq_id = rq_next s, rq_user = userId, rq_rules = (maxRules > 0), rq_ports = (maxPorts > 0)\<rparr>,
          s\<lparr>pendingByUser := alist_set userId
                \<lparr>pq_rules = pq_rules pending + one_if (maxRules > 0), pq_ports = pq_ports pending + one_if (maxPorts > 0)\<rparr>
                (pendingByUser s),
            rq_live := rq_next s # rq_live s, rq_next := rq_next s + 1\<rparr>))"

text \<open>The \<open>release\<close> closure; \<open>rq_live\<close> holds the reservations whose \<open>released\<close> flag is not set.\<close>

definition release_quota :: "RuleQuotaReservation \<Rightarrow> quota_state \<Rightarrow> quota_state" where
  "release_quota r s =
     (if rq_id r \<notin> set (rq_live s) then s
      else
        let s' = s\<lparr>rq_live := remove1 (rq_id r) (rq_live s)\<rparr> in
        case map_of (pendingByUser s) (rq_user r) of
          None \<Rightarrow> s'
        | Some current \<Rightarrow>
            let next = \<lparr>pq_rules = max 0 (pq_rules current - one_if (rq_rules r)),
                        pq_ports = max 0 (pq_ports current - one_if (rq_ports r))\<rparr> in
            if pq_rules next = 0 \<and> pq_ports next = 0
            then s'\<lparr>pendingByUser := alist_delete (rq_user r) (pendingByUser s)\<rparr>
            else s'\<lparr>pendingByUser := alist_set (rq_user r) next (pendingByUser s)\<rparr>)"

definition clearRuleQuotaReservationsForTest :: "quota_state \<Rightarrow> quota_state" where
  "clearRuleQuotaReservationsForTest s = s\<lparr>pendingByUser := []\<rparr>"

section \<open>Mutual exclusion and order of the locks\<close>

inductive lock_step :: "lock_state \<Rightarrow> lock_state \<Rightarrow> bool" where
  enter: "lock_step s (lock_enter k s)"
| start: "lock_start i s = Some s' \<Longrightarrow> lock_step s s'"
| finish: "lock_finish i s = Some s' \<Longrightarrow> lock_step s s'"

definition lock_init :: lock_state where
  "lock_init = \<lparr>lk_calls = [], lk_pending = (\<lambda>_. None), lk_open = [], lk_next = 0\<rparr>"

text \<open>The calls of one key that have not finished, in the order they were made.\<close>

definition live_calls :: "lock_state \<Rightarrow> string \<Rightarrow> lock_call list" where
  "live_calls s k = filter (\<lambda>c. lc_key c = k \<and> lc_phase c \<noteq> Finished) (lk_calls s)"

text \<open>A chain: the first live call runs or may start, every later one waits for the call before it.\<close>

fun chained :: "lock_call list \<Rightarrow> bool" where
  "chained (c # c' # cs) = (lc_phase c' = Waiting (Some (lc_id c)) \<and> chained (c' # cs))"
| "chained _ = True"

definition key_inv :: "lock_state \<Rightarrow> string \<Rightarrow> bool" where
  "key_inv s k \<longleftrightarrow> chained (live_calls s k)
     \<and> (case live_calls s k of [] \<Rightarrow> lk_pending s k = None
        | c # cs \<Rightarrow> (lc_phase c = Running \<or> (\<exists>w. lc_phase c = Waiting w \<and> gate_open s w))
            \<and> map_option fst (lk_pending s k) = Some (lc_id (last (c # cs))))"

definition lock_inv :: "lock_state \<Rightarrow> bool" where
  "lock_inv s \<longleftrightarrow> distinct (map lc_id (lk_calls s)) \<and> list_all (\<lambda>c. lc_id c < lk_next s) (lk_calls s)
     \<and> (\<forall>i\<in>set (lk_open s). \<exists>c\<in>set (lk_calls s). lc_id c = i \<and> lc_phase c = Finished)
     \<and> (\<forall>k. k \<noteq> [] \<longrightarrow> key_inv s k)"

lemma chained_snoc:
  "chained (cs @ [c]) \<longleftrightarrow> chained cs \<and> (cs \<noteq> [] \<longrightarrow> lc_phase c = Waiting (Some (lc_id (last cs))))"
  by (induction cs rule: chained.induct) auto

lemma chained_Cons: "chained (c # cs) \<longleftrightarrow> chained cs \<and> (cs \<noteq> [] \<longrightarrow> lc_phase (hd cs) = Waiting (Some (lc_id c)))"
  by (cases cs) auto

text \<open>Every call of a chain but the first waits for a call of the chain.\<close>

lemma chained_tail:
  assumes "chained (c # cs)" "d \<in> set cs"
  shows "\<exists>e\<in>set (c # cs). lc_phase d = Waiting (Some (lc_id e))"
  using assms
proof (induction cs arbitrary: c)
  case (Cons x xs)
  show ?case
  proof (cases "d = x")
    case False
    then have "d \<in> set xs" "chained (x # xs)" using Cons.prems by auto
    from Cons.IH [OF this(2,1)] show ?thesis by auto
  qed (use Cons.prems in auto)
qed simp

lemma live_calls_Finished:
  "live_calls (s\<lparr>lk_calls := set_phase i Finished (lk_calls s)\<rparr>) k = filter (\<lambda>c. lc_id c \<noteq> i) (live_calls s k)"
proof -
  have "filter (\<lambda>c. lc_key c = k \<and> lc_phase c \<noteq> Finished) (set_phase i Finished xs)
      = filter (\<lambda>c. lc_id c \<noteq> i) (filter (\<lambda>c. lc_key c = k \<and> lc_phase c \<noteq> Finished) xs)" for xs
    by (induction xs) (auto simp: set_phase_def)
  then show ?thesis by (simp add: live_calls_def)
qed

lemma live_calls_Running:
  assumes "distinct (map lc_id (lk_calls s))" "c \<in> set (lk_calls s)" "lc_phase c \<noteq> Finished"
  shows "live_calls (s\<lparr>lk_calls := set_phase (lc_id c) Running (lk_calls s)\<rparr>) k
    = map (\<lambda>d. if lc_id d = lc_id c then d\<lparr>lc_phase := Running\<rparr> else d) (live_calls s k)"
proof -
  have uniq: "d = c" if "d \<in> set (lk_calls s)" "lc_id d = lc_id c" for d
    using assms(1,2) that by (auto simp: distinct_map dest: inj_onD)
  have "filter (\<lambda>d. lc_key d = k \<and> lc_phase d \<noteq> Finished) (set_phase (lc_id c) Running xs)
      = map (\<lambda>d. if lc_id d = lc_id c then d\<lparr>lc_phase := Running\<rparr> else d)
          (filter (\<lambda>d. lc_key d = k \<and> lc_phase d \<noteq> Finished) xs)" if "set xs \<subseteq> set (lk_calls s)" for xs
    using that uniq assms(3) by (induction xs) (auto simp: set_phase_def)
  from this [of "lk_calls s"] show ?thesis by (simp add: live_calls_def)
qed

lemma lock_find:
  "distinct (map lc_id cs) \<Longrightarrow> find (\<lambda>c. lc_id c = i) cs = Some c \<longleftrightarrow> c \<in> set cs \<and> lc_id c = i"
  by (induction cs) (auto split: if_splits)

lemma map_id_set_phase [simp]: "map lc_id (set_phase i p cs) = map lc_id cs"
  by (simp add: set_phase_def)

lemma all_id_set_phase [simp]: "list_all (\<lambda>c. lc_id c < n) (set_phase i p cs) = list_all (\<lambda>c. lc_id c < n) cs"
  by (induction cs) (auto simp: set_phase_def)

lemma lock_invD:
  assumes "lock_inv s" "k \<noteq> []"
  shows "chained (live_calls s k)" "live_calls s k = [] \<Longrightarrow> lk_pending s k = None"
    "live_calls s k = c # cs \<Longrightarrow> lc_phase c = Running \<or> (\<exists>w. lc_phase c = Waiting w \<and> gate_open s w)"
    "live_calls s k = c # cs \<Longrightarrow> map_option fst (lk_pending s k) = Some (lc_id (last (c # cs)))"
proof -
  have "key_inv s k" using assms by (simp add: lock_inv_def)
  then show "chained (live_calls s k)" "live_calls s k = [] \<Longrightarrow> lk_pending s k = None"
    "live_calls s k = c # cs \<Longrightarrow> lc_phase c = Running \<or> (\<exists>w. lc_phase c = Waiting w \<and> gate_open s w)"
    "live_calls s k = c # cs \<Longrightarrow> map_option fst (lk_pending s k) = Some (lc_id (last (c # cs)))"
    unfolding key_inv_def by (simp_all only: list.case)
qed

lemma lock_inv_base:
  assumes "lock_inv s"
  shows "distinct (map lc_id (lk_calls s))" "list_all (\<lambda>c. lc_id c < lk_next s) (lk_calls s)"
    "i \<in> set (lk_open s) \<Longrightarrow> \<exists>c\<in>set (lk_calls s). lc_id c = i \<and> lc_phase c = Finished"
  using assms by (simp_all add: lock_inv_def)

lemma live_mem: "c \<in> set (live_calls s k) \<longleftrightarrow> c \<in> set (lk_calls s) \<and> lc_key c = k \<and> lc_phase c \<noteq> Finished"
  by (auto simp: live_calls_def)

lemma distinct_live: "lock_inv s \<Longrightarrow> distinct (map lc_id (live_calls s k))"
  using lock_inv_base(1) [of s] by (simp add: live_calls_def distinct_map_filter)

text \<open>A live call that runs or whose gate is open is the first live call of its key.\<close>

lemma head_of_chain:
  assumes inv: "lock_inv s" and c: "c \<in> set (live_calls s k)" "k \<noteq> []"
    and ready: "lc_phase c = Running \<or> (\<exists>w. lc_phase c = Waiting w \<and> gate_open s w)"
  shows "\<exists>cs. live_calls s k = c # cs"
proof (cases "live_calls s k")
  case Nil
  then show ?thesis using c by simp
next
  case (Cons d ds)
  show ?thesis
  proof (cases "c = d")
    case False
    then have "c \<in> set ds" using c Cons by auto
    with chained_tail [of d ds c] lock_invD(1) [OF inv c(2)] Cons
    obtain e where e: "e \<in> set (live_calls s k)" "lc_phase c = Waiting (Some (lc_id e))" by auto
    with ready have "lc_id e \<in> set (lk_open s)" by (auto simp: gate_open_def)
    then obtain f where "f \<in> set (lk_calls s)" "lc_id f = lc_id e" "lc_phase f = Finished"
      using lock_inv_base(3) [OF inv] by blast
    moreover have "e \<in> set (lk_calls s)" "lc_phase e \<noteq> Finished" using e(1) by (simp_all add: live_mem)
    ultimately have False
      using lock_inv_base(1) [OF inv] by (metis distinct_map inj_onD)
    then show ?thesis ..
  qed (simp add: Cons)
qed

lemma live_calls_cong: "lk_calls s' = lk_calls s \<Longrightarrow> live_calls s' k = live_calls s k"
  by (simp add: live_calls_def)

lemma key_inv_mono:
  assumes "key_inv s k" "live_calls s' k = live_calls s k" "lk_pending s' k = lk_pending s k"
    "\<And>w. gate_open s w \<Longrightarrow> gate_open s' w"
  shows "key_inv s' k"
proof (cases "live_calls s k")
  case Nil
  then show ?thesis using assms by (simp add: key_inv_def)
next
  case (Cons c cs)
  then have "lc_phase c = Running \<or> (\<exists>w. lc_phase c = Waiting w \<and> gate_open s' w)"
    using assms(1,4) by (auto simp: key_inv_def)
  then show ?thesis using assms(1-3) Cons by (simp add: key_inv_def)
qed

lemma enter_inv:
  assumes inv: "lock_inv s"
  shows "lock_inv (lock_enter kv s)"
proof -
  define k where "k = lock_key kv"
  define c where "c = (if k = [] then \<lparr>lc_id = lk_next s, lc_key = k, lc_phase = Running\<rparr>
    else \<lparr>lc_id = lk_next s, lc_key = k, lc_phase = Waiting (map_option fst (lk_pending s k))\<rparr>)"
  let ?s = "lock_enter kv s"
  have calls: "lk_calls ?s = lk_calls s @ [c]" "lk_next ?s = lk_next s + 1" "lk_open ?s = lk_open s"
    by (auto simp: lock_enter_def k_def [symmetric] Let_def c_def)
  have live: "live_calls ?s k' = (if k' = k then live_calls s k' @ [c] else live_calls s k')" for k'
    by (auto simp: live_calls_def calls c_def)
  have pend: "k' \<noteq> k \<Longrightarrow> lk_pending ?s k' = lk_pending s k'" for k'
    by (simp add: lock_enter_def Let_def k_def)
  have go: "gate_open ?s w = gate_open s w" for w by (simp add: gate_open_def calls split: option.splits)
  have key: "key_inv ?s k'" if "k' \<noteq> []" for k'
  proof (cases "k' = k")
    case False
    then have "live_calls ?s k' = live_calls s k'" "lk_pending ?s k' = lk_pending s k'" using live pend by simp_all
    moreover have "key_inv s k'" using inv that by (simp add: lock_inv_def)
    ultimately show ?thesis using key_inv_mono go by blast
  next
    case True
    have p: "map_option fst (lk_pending ?s k) = Some (lc_id c)" and cw: "lc_phase c = Waiting (map_option fst (lk_pending s k))"
      using that True by (simp_all add: lock_enter_def Let_def k_def [symmetric] c_def)
    show ?thesis
    proof (cases "live_calls s k")
      case Nil
      then have "lk_pending s k = None" using lock_invD(2) [OF inv] that True by simp
      then show ?thesis using True Nil live p cw by (simp add: key_inv_def gate_open_def)
    next
      case (Cons d ds)
      have m: "map_option fst (lk_pending s k) = Some (lc_id (last (d # ds)))"
        by (rule lock_invD(4) [OF inv _ Cons]) (use that True in simp)
      have "chained (live_calls s k @ [c])"
        using lock_invD(1) [OF inv, of k] that True cw m Cons unfolding chained_snoc by simp
      then show ?thesis
        using True Cons live [of k] p lock_invD(3) [OF inv _ Cons] that by (simp add: key_inv_def go)
    qed
  qed
  have "\<forall>d\<in>set (lk_calls s). lc_id d < lk_next s" using lock_inv_base(2) [OF inv] by (simp add: list_all_iff)
  then have "distinct (map lc_id (lk_calls ?s))" "list_all (\<lambda>d. lc_id d < lk_next ?s) (lk_calls ?s)"
    using lock_inv_base(1) [OF inv] by (auto simp: calls c_def list_all_iff less_Suc_eq)
  moreover have "\<forall>i\<in>set (lk_open ?s). \<exists>d\<in>set (lk_calls ?s). lc_id d = i \<and> lc_phase d = Finished"
    using lock_inv_base(3) [OF inv] by (fastforce simp: calls)
  ultimately show ?thesis using key by (simp add: lock_inv_def)
qed

lemma chained_map_head:
  "chained (c # cs) \<Longrightarrow> lc_id c' = lc_id c \<Longrightarrow> chained (c' # cs)"
  by (cases cs) auto

lemma start_inv:
  assumes inv: "lock_inv s" and st: "lock_start i s = Some s'"
  shows "lock_inv s'"
proof -
  obtain c w where c: "c \<in> set (lk_calls s)" "lc_id c = i" "lc_phase c = Waiting w" "gate_open s w"
    and s': "s' = s\<lparr>lk_calls := set_phase i Running (lk_calls s)\<rparr>"
    using st lock_find [OF lock_inv_base(1) [OF inv]]
    by (auto simp: lock_start_def split: option.splits lock_phase.splits if_splits)
  let ?f = "\<lambda>d. if lc_id d = i then d\<lparr>lc_phase := Running\<rparr> else d"
  have live: "live_calls s' k = map ?f (live_calls s k)" for k
    using live_calls_Running [OF lock_inv_base(1) [OF inv] c(1)] c(2,3) by (simp add: s')
  have same: "lk_pending s' = lk_pending s" "lk_open s' = lk_open s" "lk_next s' = lk_next s" by (simp_all add: s')
  have go: "gate_open s' w = gate_open s w" for w by (simp add: gate_open_def same split: option.splits)
  have uniq: "d = c" if "d \<in> set (lk_calls s)" "lc_id d = i" for d
    using lock_inv_base(1) [OF inv] c(1,2) that by (metis distinct_map inj_onD)
  have key: "key_inv s' k" if kne: "k \<noteq> []" for k
  proof (cases "lc_key c = k")
    case False
    then have "map ?f (live_calls s k) = live_calls s k"
      using uniq by (intro map_idI) (auto simp: live_mem)
    then show ?thesis using key_inv_mono [of s k s'] inv that by (simp add: lock_inv_def live same go)
  next
    case True
    have "c \<in> set (live_calls s k)" using c True by (simp add: live_mem)
    then obtain cs where cs: "live_calls s k = c # cs" using head_of_chain [OF inv _ kne, of c] c(3,4) by blast
    have "c \<notin> set cs" using distinct_live [OF inv, of k] cs by auto
    then have "map ?f cs = cs"
      using uniq cs by (intro map_idI) (metis live_mem list.set_intros(2))
    then have l: "live_calls s' k = c\<lparr>lc_phase := Running\<rparr> # cs" using cs c(2) live by simp
    show ?thesis
      using chained_map_head [of c cs "c\<lparr>lc_phase := Running\<rparr>"] lock_invD(1,4) [OF inv that] cs
      by (cases cs) (simp_all add: key_inv_def l same)
  qed
  have "\<exists>d\<in>set (lk_calls s'). lc_id d = j \<and> lc_phase d = Finished" if j: "j \<in> set (lk_open s')" for j
  proof -
    obtain d where d: "d \<in> set (lk_calls s)" "lc_id d = j" "lc_phase d = Finished"
      using lock_inv_base(3) [OF inv, of j] j same by auto
    then have "lc_id d \<noteq> i" using uniq c(3) by fastforce
    then have "d \<in> set (lk_calls s')" using d(1) by (force simp: s' set_phase_def)
    then show ?thesis using d by blast
  qed
  then show ?thesis using key lock_inv_base(1,2) [OF inv] by (simp add: lock_inv_def s')
qed

lemma finish_inv:
  assumes inv: "lock_inv s" and st: "lock_finish i s = Some s'"
  shows "lock_inv s'"
proof -
  obtain c where c: "c \<in> set (lk_calls s)" "lc_id c = i" "lc_phase c = Running"
    and s': "s' = (if lc_key c = [] then s\<lparr>lk_calls := set_phase i Finished (lk_calls s)\<rparr>
              else s\<lparr>lk_calls := set_phase i Finished (lk_calls s), lk_open := i # lk_open s,
                     lk_pending := (if map_option fst (lk_pending s (lc_key c)) = Some i
                                    then (lk_pending s)(lc_key c := None) else lk_pending s)\<rparr>)"
    using st lock_find [OF lock_inv_base(1) [OF inv]]
    by (auto simp: lock_finish_def split: option.splits lock_phase.splits if_splits)
  have calls: "lk_calls s' = set_phase i Finished (lk_calls s)" by (simp add: s')
  have live: "live_calls s' k = filter (\<lambda>d. lc_id d \<noteq> i) (live_calls s k)" for k
    using live_calls_Finished [of i s k] live_calls_cong [of s' "s\<lparr>lk_calls := set_phase i Finished (lk_calls s)\<rparr>" k] calls by simp
  have uniq: "d = c" if "d \<in> set (lk_calls s)" "lc_id d = i" for d
    using lock_inv_base(1) [OF inv] c(1,2) that by (metis distinct_map inj_onD)
  have go: "gate_open s w \<Longrightarrow> gate_open s' w" for w by (auto simp: gate_open_def s' split: option.splits)
  have pend: "lk_pending s' k = lk_pending s k" if "k \<noteq> lc_key c" for k using that by (simp add: s')
  have key: "key_inv s' k" if kne: "k \<noteq> []" for k
  proof (cases "lc_key c = k")
    case False
    have "filter (\<lambda>d. lc_id d \<noteq> i) (live_calls s k) = live_calls s k"
      using False uniq by (intro filter_True) (auto simp: live_mem)
    moreover have "key_inv s k" using inv that by (simp add: lock_inv_def)
    ultimately show ?thesis using key_inv_mono [of s k s'] go pend [of k] False by (simp add: live)
  next
    case True
    have "c \<in> set (live_calls s k)" using c True by (simp add: live_mem)
    then obtain cs where cs: "live_calls s k = c # cs" using head_of_chain [OF inv _ kne, of c] c(3) by blast
    have nc: "i \<notin> set (map lc_id cs)" using distinct_live [OF inv, of k] cs c(2) by auto
    then have l: "live_calls s' k = cs" using cs c(2) live by (simp add: filter_id_conv image_iff) force
    have p: "map_option fst (lk_pending s k) = Some (lc_id (last (c # cs)))" by (rule lock_invD(4) [OF inv that cs])
    have op: "i \<in> set (lk_open s')" using True that by (simp add: s')
    show ?thesis
    proof (cases cs)
      case Nil
      then have "lk_pending s' k = None" using p c(2) True that by (simp add: s')
      then show ?thesis using l Nil by (simp add: key_inv_def)
    next
      case (Cons d ds)
      have "lc_id (last cs) \<in> set (map lc_id cs)" using Cons by (metis image_eqI image_set last_in_set list.distinct(1))
      then have ne: "lc_id (last (c # cs)) \<noteq> i" using nc Cons by auto
      have "lk_pending s' k = lk_pending s k" using p ne True by (auto simp: s')
      moreover have "chained cs" "lc_phase d = Waiting (Some i)"
        using lock_invD(1) [OF inv that] cs Cons c(2) by simp_all
      ultimately show ?thesis using l Cons p op by (simp add: key_inv_def gate_open_def)
    qed
  qed
  have "\<exists>d\<in>set (lk_calls s'). lc_id d = j \<and> lc_phase d = Finished" if j: "j \<in> set (lk_open s')" for j
  proof (cases "j = i")
    case True
    have "c\<lparr>lc_phase := Finished\<rparr> \<in> set (lk_calls s')" using c by (force simp: calls set_phase_def)
    then show ?thesis using True c(2) by (intro bexI [of _ "c\<lparr>lc_phase := Finished\<rparr>"]) simp_all
  next
    case False
    then have "j \<in> set (lk_open s)" using j by (auto simp: s' split: if_splits)
    then obtain d where d: "d \<in> set (lk_calls s)" "lc_id d = j" "lc_phase d = Finished"
      using lock_inv_base(3) [OF inv] by blast
    then have "d \<in> set (lk_calls s')" using False by (force simp: calls set_phase_def)
    then show ?thesis using d by blast
  qed
  moreover have "lk_next s' = lk_next s" by (simp add: s')
  ultimately show ?thesis using key lock_inv_base(1,2) [OF inv] by (simp add: lock_inv_def calls)
qed

lemma lock_reachable_inv:
  assumes "lock_step\<^sup>*\<^sup>* lock_init s"
  shows "lock_inv s"
  using assms
proof (induction rule: rtranclp_induct)
  case base
  then show ?case by (simp add: lock_inv_def lock_init_def key_inv_def live_calls_def)
next
  case (step s s')
  from step.hyps(2) show ?case
  proof cases
    case (enter k)
    then show ?thesis using enter_inv [OF step.IH] by simp
  qed (use start_inv [OF step.IH] finish_inv [OF step.IH] in blast)+
qed

text \<open>C25: Calls under one lock key never run at the same time, run in the order they were made, and are never stuck:
  while a call of a key has not finished, the first such call runs or may start; when all have finished the key is
  forgotten.\<close>

theorem keyed_lock_fifo_mutex:
  assumes "lock_step\<^sup>*\<^sup>* lock_init s" "k \<noteq> []"
  shows "(\<forall>c\<in>set (lk_calls s). \<forall>d\<in>set (lk_calls s). lc_key c = k \<and> lc_key d = k
            \<and> lc_phase c = Running \<and> lc_phase d = Running \<longrightarrow> c = d)
    \<and> (\<forall>i s' c. lock_start i s = Some s' \<and> c \<in> set (lk_calls s) \<and> lc_id c = i \<and> lc_key c = k \<longrightarrow>
          (\<exists>cs. live_calls s k = c # cs))
    \<and> (case live_calls s k of [] \<Rightarrow> lk_pending s k = None
       | c # cs \<Rightarrow> lc_phase c = Running \<or> lock_start (lc_id c) s \<noteq> None)"
proof (intro conjI ballI allI impI)
  have inv: "lock_inv s" by (rule lock_reachable_inv [OF assms(1)])
  fix c d
  assume "c \<in> set (lk_calls s)" "d \<in> set (lk_calls s)" "lc_key c = k \<and> lc_key d = k \<and> lc_phase c = Running \<and> lc_phase d = Running"
  then have "c \<in> set (live_calls s k)" "d \<in> set (live_calls s k)" "lc_phase c = Running" "lc_phase d = Running"
    by (simp_all add: live_mem)
  then show "c = d" using head_of_chain [OF inv _ assms(2)] by (metis list.inject)
next
  have inv: "lock_inv s" by (rule lock_reachable_inv [OF assms(1)])
  fix i s' c
  assume a: "lock_start i s = Some s' \<and> c \<in> set (lk_calls s) \<and> lc_id c = i \<and> lc_key c = k"
  then have "find (\<lambda>c. lc_id c = i) (lk_calls s) = Some c" using lock_find [OF lock_inv_base(1) [OF inv]] by simp
  then obtain w where "lc_phase c = Waiting w" "gate_open s w"
    using a by (auto simp: lock_start_def split: lock_phase.splits if_splits)
  then show "\<exists>cs. live_calls s k = c # cs" using head_of_chain [OF inv _ assms(2), of c] a by (simp add: live_mem)
next
  have inv: "lock_inv s" by (rule lock_reachable_inv [OF assms(1)])
  show "case live_calls s k of [] \<Rightarrow> lk_pending s k = None | c # cs \<Rightarrow> lc_phase c = Running \<or> lock_start (lc_id c) s \<noteq> None"
  proof (cases "live_calls s k")
    case Nil
    then show ?thesis using lock_invD(2) [OF inv assms(2)] by simp
  next
    case (Cons c cs)
    then have "c \<in> set (lk_calls s)" by (metis live_mem list.set_intros(1))
    then have "find (\<lambda>d. lc_id d = lc_id c) (lk_calls s) = Some c" using lock_find [OF lock_inv_base(1) [OF inv]] by simp
    then show ?thesis using lock_invD(3) [OF inv assms(2) Cons] Cons by (auto simp: lock_start_def)
  qed
qed

theorem keyed_lock_fifo_mutex_witness:
  "lock_start 0 (lock_enter ''a'' (lock_enter ''a'' lock_init)) \<noteq> None"
proof -
  let ?s = "lock_enter ''a'' (lock_enter ''a'' lock_init)"
  have run: "lock_step\<^sup>*\<^sup>* lock_init ?s"
    by (meson lock_step.enter rtranclp.rtrancl_into_rtrancl rtranclp.rtrancl_refl)
  have "live_calls ?s ''a'' = [\<lparr>lc_id = 0, lc_key = ''a'', lc_phase = Waiting None\<rparr>, \<lparr>lc_id = 1, lc_key = ''a'', lc_phase = Waiting (Some 0)\<rparr>]"
    by code_simp
  then show ?thesis using keyed_lock_fifo_mutex [OF run, of "''a''"] by simp
qed

section \<open>Quota accounting\<close>

text \<open>The creations of one user: reservations granted with the current counts, rules stored, reservations released.\<close>

record creation_state =
  cr_quota :: quota_state
  cr_held :: "RuleQuotaReservation list"
  cr_stored :: "nat list"
  cr_rules :: int
  cr_ports :: int

inductive creation_step :: "int \<Rightarrow> int \<Rightarrow> int \<Rightarrow> creation_state \<Rightarrow> creation_state \<Rightarrow> bool" for u mr mp where
  grant: "reserveRuleCreateQuota u mr mp (cr_rules x) (cr_ports x) (cr_quota x) = Inr (Some r, q)
    \<Longrightarrow> creation_step u mr mp x (x\<lparr>cr_quota := q, cr_held := r # cr_held x\<rparr>)"
| store: "r \<in> set (cr_held x) \<Longrightarrow> rq_id r \<notin> set (cr_stored x)
    \<Longrightarrow> creation_step u mr mp x (x\<lparr>cr_stored := rq_id r # cr_stored x, cr_rules := cr_rules x + 1, cr_ports := cr_ports x + 1\<rparr>)"
| release: "r \<in> set (cr_held x) \<Longrightarrow>
    creation_step u mr mp x (x\<lparr>cr_quota := release_quota r (cr_quota x), cr_held := remove1 r (cr_held x)\<rparr>)"
| delete: "cr_rules x > 0 \<Longrightarrow> n \<le> cr_rules x \<Longrightarrow> 0 \<le> n \<Longrightarrow> 0 \<le> m \<Longrightarrow> m \<le> cr_ports x
    \<Longrightarrow> creation_step u mr mp x (x\<lparr>cr_rules := n, cr_ports := m\<rparr>)"

definition unstored :: "creation_state \<Rightarrow> nat" where
  "unstored x = length (filter (\<lambda>r. rq_id r \<notin> set (cr_stored x)) (cr_held x))"

definition creation_inv :: "int \<Rightarrow> int \<Rightarrow> int \<Rightarrow> creation_state \<Rightarrow> bool" where
  "creation_inv u mr mp x \<longleftrightarrow>
     distinct (map rq_id (cr_held x)) \<and> distinct (rq_live (cr_quota x))
     \<and> list_all (\<lambda>r. rq_user r = u \<and> rq_rules r = (mr > 0) \<and> rq_ports r = (mp > 0) \<and> rq_id r < rq_next (cr_quota x)
           \<and> rq_id r \<in> set (rq_live (cr_quota x))) (cr_held x)
     \<and> list_all (\<lambda>i. i < rq_next (cr_quota x)) (rq_live (cr_quota x) @ cr_stored x)
     \<and> pending_of (cr_quota x) u = \<lparr>pq_rules = (if mr > 0 then int (length (cr_held x)) else 0),
                                    pq_ports = (if mp > 0 then int (length (cr_held x)) else 0)\<rparr>
     \<and> (mr > 0 \<longrightarrow> cr_rules x + int (unstored x) \<le> mr) \<and> (mp > 0 \<longrightarrow> cr_ports x + int (unstored x) \<le> mp)"

lemma unstored_le: "unstored x \<le> length (cr_held x)"
  by (simp add: unstored_def)

lemma length_filter_remove1_le: "length (filter P (remove1 r xs)) \<le> length (filter P xs)"
  by (induction xs) auto

lemma filter_insert_id:
  assumes "distinct (map rq_id xs)" "r \<in> set xs" "rq_id r \<notin> set ys"
  shows "Suc (length (filter (\<lambda>x. rq_id x \<notin> set (rq_id r # ys)) xs)) = length (filter (\<lambda>x. rq_id x \<notin> set ys) xs)"
  using assms
proof (induction xs)
  case (Cons a xs)
  show ?case
  proof (cases "a = r")
    case True
    then have "rq_id x \<noteq> rq_id r" if "x \<in> set xs" for x using Cons.prems(1) that by (auto simp: image_iff)
    then have "filter (\<lambda>x. rq_id x \<notin> set (rq_id r # ys)) xs = filter (\<lambda>x. rq_id x \<notin> set ys) xs"
      by (intro filter_cong) auto
    then show ?thesis using True Cons.prems(3) by simp
  next
    case False
    then have "rq_id a \<noteq> rq_id r" "r \<in> set xs" using Cons.prems by auto
    then show ?thesis using Cons by auto
  qed
qed simp

lemma grant_inv:
  assumes inv: "creation_inv u mr mp x"
    and r: "reserveRuleCreateQuota u mr mp (cr_rules x) (cr_ports x) (cr_quota x) = Inr (Some r, q)"
  shows "creation_inv u mr mp (x\<lparr>cr_quota := q, cr_held := r # cr_held x\<rparr>)"
proof -
  let ?q = "cr_quota x"
  have pend: "pending_of ?q u = \<lparr>pq_rules = (if mr > 0 then int (length (cr_held x)) else 0),
                                 pq_ports = (if mp > 0 then int (length (cr_held x)) else 0)\<rparr>"
    using inv by (simp add: creation_inv_def)
  have R: "r = \<lparr>rq_id = rq_next ?q, rq_user = u, rq_rules = (mr > 0), rq_ports = (mp > 0)\<rparr>"
    "mr > 0 \<longrightarrow> cr_rules x + int (length (cr_held x)) < mr" "mp > 0 \<longrightarrow> cr_ports x + int (length (cr_held x)) < mp"
    and q: "q = ?q\<lparr>pendingByUser := alist_set u \<lparr>pq_rules = pq_rules (pending_of ?q u) + one_if (mr > 0),
        pq_ports = pq_ports (pending_of ?q u) + one_if (mp > 0)\<rparr> (pendingByUser ?q),
        rq_live := rq_next ?q # rq_live ?q, rq_next := rq_next ?q + 1\<rparr>"
    using r by (auto simp: reserveRuleCreateQuota_def Let_def pend split: if_splits)
  have lt: "i < rq_next ?q" if "i \<in> set (rq_live ?q) \<union> set (cr_stored x)" for i
    using inv that by (auto simp: creation_inv_def list_all_iff)
  have held: "rq_user h = u" "rq_rules h = (mr > 0)" "rq_ports h = (mp > 0)" "rq_id h < rq_next ?q" "rq_id h \<in> set (rq_live ?q)"
    if "h \<in> set (cr_held x)" for h
    using inv that by (auto simp: creation_inv_def list_all_iff)
  have us: "unstored (x\<lparr>cr_quota := q, cr_held := r # cr_held x\<rparr>) = Suc (unstored x)"
    using lt [of "rq_next ?q"] by (auto simp: unstored_def R(1))
  have pq: "pending_of q u = \<lparr>pq_rules = (if mr > 0 then int (length (r # cr_held x)) else 0),
                              pq_ports = (if mp > 0 then int (length (r # cr_held x)) else 0)\<rparr>"
    by (simp add: q pending_of_def map_of_alist_set one_if_def pend [unfolded pending_of_def] split: option.splits)
  have d: "distinct (map rq_id (cr_held x))" "distinct (rq_live ?q)" using inv by (simp_all add: creation_inv_def)
  have nq: "rq_next q = Suc (rq_next ?q)" "rq_live q = rq_next ?q # rq_live ?q" "rq_id r = rq_next ?q" by (simp_all add: q R(1))
  have c1: "distinct (map rq_id (r # cr_held x))" using d(1) held(4) by (fastforce simp: nq(3))
  have c2: "distinct (rq_live q)" using d(2) lt [of "rq_next ?q"] by (auto simp: nq(2))
  have c3: "list_all (\<lambda>h. rq_user h = u \<and> rq_rules h = (mr > 0) \<and> rq_ports h = (mp > 0) \<and> rq_id h < rq_next q
           \<and> rq_id h \<in> set (rq_live q)) (r # cr_held x)"
    using held by (simp add: nq list_all_iff less_SucI) (simp add: R(1))
  have c4: "list_all (\<lambda>i. i < rq_next q) (rq_live q @ cr_stored x)"
    using lt by (simp add: nq list_all_iff less_SucI)
  have c5: "mr > 0 \<longrightarrow> cr_rules x + int (Suc (unstored x)) \<le> mr" "mp > 0 \<longrightarrow> cr_ports x + int (Suc (unstored x)) \<le> mp"
    using R(2,3) unstored_le [of x] by linarith+
  show ?thesis unfolding creation_inv_def us using c1 c2 c3 c4 c5 pq by simp
qed

lemma store_inv:
  assumes inv: "creation_inv u mr mp x" and r: "r \<in> set (cr_held x)" "rq_id r \<notin> set (cr_stored x)"
  shows "creation_inv u mr mp (x\<lparr>cr_stored := rq_id r # cr_stored x, cr_rules := cr_rules x + 1, cr_ports := cr_ports x + 1\<rparr>)"
proof -
  have us: "Suc (unstored (x\<lparr>cr_stored := rq_id r # cr_stored x, cr_rules := cr_rules x + 1, cr_ports := cr_ports x + 1\<rparr>)) = unstored x"
    using filter_insert_id [of "cr_held x" r "cr_stored x"] inv r by (simp add: unstored_def creation_inv_def)
  have "rq_id r < rq_next (cr_quota x)" using inv r by (simp add: creation_inv_def list_all_iff)
  then show ?thesis using inv us by (auto simp: creation_inv_def)
qed

lemma release_inv:
  assumes inv: "creation_inv u mr mp x" and r: "r \<in> set (cr_held x)"
  shows "creation_inv u mr mp (x\<lparr>cr_quota := release_quota r (cr_quota x), cr_held := remove1 r (cr_held x)\<rparr>)"
proof -
  let ?q = "cr_quota x" and ?q' = "release_quota r (cr_quota x)" and ?n = "int (length (cr_held x))"
  have H: "rq_user r = u" "rq_rules r = (mr > 0)" "rq_ports r = (mp > 0)" "rq_id r \<in> set (rq_live ?q)"
    using inv r by (simp_all add: creation_inv_def list_all_iff)
  have n: "0 < ?n" "int (length (remove1 r (cr_held x))) = ?n - 1"
    using r length_pos_if_in_set [OF r] by (simp_all add: length_remove1 of_nat_diff Suc_leI)
  have pend: "pending_of ?q u = \<lparr>pq_rules = (if mr > 0 then ?n else 0), pq_ports = (if mp > 0 then ?n else 0)\<rparr>"
    using inv by (simp add: creation_inv_def)
  have live: "rq_live ?q' = remove1 (rq_id r) (rq_live ?q)" "rq_next ?q' = rq_next ?q"
    using H by (auto simp: release_quota_def Let_def split: option.splits)
  have pq: "pending_of ?q' u = \<lparr>pq_rules = (if mr > 0 then ?n - 1 else 0), pq_ports = (if mp > 0 then ?n - 1 else 0)\<rparr>"
  proof (cases "map_of (pendingByUser ?q) u")
    case None
    then have "\<not> mr > 0" "\<not> mp > 0" using pend n(1) by (auto simp: pending_of_def split: if_splits)
    then show ?thesis using None H by (simp add: release_quota_def pending_of_def Let_def)
  next
    case (Some p)
    then have "p = \<lparr>pq_rules = (if mr > 0 then ?n else 0), pq_ports = (if mp > 0 then ?n else 0)\<rparr>"
      using pend by (simp add: pending_of_def)
    then show ?thesis using Some H n(1)
      by (auto simp: release_quota_def pending_of_def Let_def one_if_def map_of_alist_set map_of_alist_delete)
  qed
  have us: "unstored (x\<lparr>cr_quota := ?q', cr_held := remove1 r (cr_held x)\<rparr>) \<le> unstored x"
    by (simp add: unstored_def length_filter_remove1_le)
  have d: "distinct (map rq_id (cr_held x))" "distinct (rq_live ?q)" using inv by (simp_all add: creation_inv_def)
  have held: "rq_id h \<in> set (remove1 (rq_id r) (rq_live ?q))" if h: "h \<in> set (remove1 r (cr_held x))" for h
  proof -
    have "h \<in> set (cr_held x)" "h \<noteq> r" using h d(1) by (auto simp: distinct_map)
    then have "rq_id h \<noteq> rq_id r" "rq_id h \<in> set (rq_live ?q)"
      using d(1) r inv by (auto simp: distinct_map creation_inv_def list_all_iff dest: inj_onD)
    then show ?thesis using d(2) by (simp add: set_remove1_eq)
  qed
  have "distinct (map rq_id (remove1 r (cr_held x)))" using d(1) by (simp add: distinct_map inj_on_def set_remove1_eq)
  then show ?thesis
    unfolding creation_inv_def using inv us d held pq n(2)
    by (auto simp: creation_inv_def live list_all_iff set_remove1_eq distinct_map)
qed

lemma creation_runs_inv:
  assumes "(creation_step u mr mp)\<^sup>*\<^sup>* x y" "creation_inv u mr mp x"
  shows "creation_inv u mr mp y"
  using assms
proof (induction rule: rtranclp_induct)
  case (step y z)
  from step.hyps(2) show ?case
  proof cases
    case (grant r q)
    then show ?thesis using grant_inv step by simp
  next
    case (store r)
    then show ?thesis using store_inv step by simp
  next
    case (release r)
    then show ?thesis using release_inv step by simp
  next
    case (delete n m)
    moreover have "creation_inv u mr mp y" by (rule step.IH [OF step.prems])
    ultimately show ?thesis by (auto simp: creation_inv_def unstored_def)
  qed
qed

text \<open>C21: However grants, stored rules, releases and deletions of a user interleave, the number of rules and of ports
  never exceeds a configured limit, also counting the granted creations that are not stored yet.\<close>

theorem quota_never_exceeded:
  assumes "(creation_step u mr mp)\<^sup>*\<^sup>* x y" "creation_inv u mr mp x"
  shows "(mr > 0 \<longrightarrow> cr_rules y + int (unstored y) \<le> mr) \<and> (mp > 0 \<longrightarrow> cr_ports y + int (unstored y) \<le> mp)"
  using creation_runs_inv [OF assms] by (simp add: creation_inv_def)

definition sample_creation :: creation_state where
  "sample_creation = \<lparr>cr_quota = \<lparr>pendingByUser = [], rq_live = [], rq_next = 0\<rparr>, cr_held = [], cr_stored = [],
     cr_rules = 1, cr_ports = 1\<rparr>"

theorem quota_never_exceeded_witness:
  "\<exists>y. (creation_step 7 2 0)\<^sup>*\<^sup>* sample_creation y \<and> length (cr_held y) = 1 \<and> cr_rules y + int (unstored y) \<le> 2"
proof -
  obtain r q where g: "reserveRuleCreateQuota 7 2 0 (cr_rules sample_creation) (cr_ports sample_creation) (cr_quota sample_creation)
      = Inr (Some r, q)"
    by (simp add: reserveRuleCreateQuota_def Let_def sample_creation_def pending_of_def)
  have inv: "creation_inv 7 2 0 sample_creation"
    by (simp add: creation_inv_def sample_creation_def pending_of_def unstored_def)
  let ?y = "sample_creation\<lparr>cr_quota := q, cr_held := r # cr_held sample_creation\<rparr>"
  have run: "(creation_step 7 2 0)\<^sup>*\<^sup>* sample_creation ?y" by (rule r_into_rtranclp, rule creation_step.grant [OF g])
  have "length (cr_held ?y) = 1" by (simp add: sample_creation_def)
  then show ?thesis using quota_never_exceeded [OF run inv] run by (intro exI [of _ ?y]) simp
qed

end
