(* ===== verification/HeartbeatGate.thy ===== *)
theory HeartbeatGate
  imports Claims
begin

text \<open>
  Admission of agent heartbeats (server/agentHeartbeatGate.ts): the gate that bounds concurrent heartbeat
  processing and queues the hosts it turned away, the cache of stable heartbeat plans, and the selection of
  report and heartbeat intervals. The clock is an argument in milliseconds. A release closure is a handle
  with a number and its host; \<open>g_open\<close> holds the handles whose \<open>released\<close> flag is not set.
\<close>

section \<open>The gate\<close>

record gate_config =
  coalesceMs :: int
  maxConcurrent :: nat
  waitingTimeoutMs :: int

record gate_handle =
  gh_id :: nat
  gh_host :: int

record AgentHeartbeatGate =
  g_active :: "int list"
  completedAt :: "(int \<times> int) list"
  g_waiting :: "int list"
  waitingSince :: "(int \<times> int) list"
  g_open :: "gate_handle list"
  g_next :: nat

definition gate_capacity :: "gate_config \<Rightarrow> nat" where
  "gate_capacity cfg = max 1 (maxConcurrent cfg)"

definition default_gate :: gate_config where
  "default_gate = \<lparr>coalesceMs = 5000, maxConcurrent = 8, waitingTimeoutMs = 30000\<rparr>"

fun pruneWaiting :: "int \<Rightarrow> int \<Rightarrow> int list \<Rightarrow> (int \<times> int) list \<Rightarrow> int list \<times> (int \<times> int) list" where
  "pruneWaiting timeout currentTime [] since = ([], since)"
| "pruneWaiting timeout currentTime (hostId # waiting) since =
     (case map_of since hostId of
        Some queuedAt \<Rightarrow>
          if currentTime - queuedAt \<le> timeout then (hostId # waiting, since)
          else pruneWaiting timeout currentTime waiting (alist_delete hostId since)
      | None \<Rightarrow> pruneWaiting timeout currentTime waiting (alist_delete hostId since))"

definition enqueue :: "int \<Rightarrow> int \<Rightarrow> AgentHeartbeatGate \<Rightarrow> AgentHeartbeatGate" where
  "enqueue hostId currentTime g =
     (if map_of (waitingSince g) hostId \<noteq> None
      then g\<lparr>waitingSince := alist_set hostId currentTime (waitingSince g)\<rparr>
      else g\<lparr>g_waiting := g_waiting g @ [hostId], waitingSince := alist_set hostId currentTime (waitingSince g)\<rparr>)"

definition removeWaiting :: "int \<Rightarrow> AgentHeartbeatGate \<Rightarrow> AgentHeartbeatGate" where
  "removeWaiting hostId g =
     (if map_of (waitingSince g) hostId = None then g
      else g\<lparr>waitingSince := alist_delete hostId (waitingSince g), g_waiting := remove1 hostId (g_waiting g)\<rparr>)"

definition admit :: "int \<Rightarrow> AgentHeartbeatGate \<Rightarrow> gate_handle option \<times> AgentHeartbeatGate" where
  "admit hostId g =
     (let h = \<lparr>gh_id = g_next g, gh_host = hostId\<rparr> in
      (Some h, g\<lparr>g_active := g_active g @ [hostId], g_open := h # g_open g, g_next := g_next g + 1\<rparr>))"

definition tryAcquire ::
  "gate_config \<Rightarrow> jsval \<Rightarrow> bool \<Rightarrow> int \<Rightarrow> AgentHeartbeatGate \<Rightarrow> gate_handle option \<times> AgentHeartbeatGate" where
  "tryAcquire cfg hostIdValue force currentTime g0 =
     (case as_integer (to_number hostIdValue) of
        None \<Rightarrow> (None, g0)
      | Some hostId \<Rightarrow>
          if hostId \<le> 0 then (None, g0)
          else
            let (w, ws) = pruneWaiting (waitingTimeoutMs cfg) currentTime (g_waiting g0) (waitingSince g0);
                g = g0\<lparr>g_waiting := w, waitingSince := ws\<rparr>;
                recentlyCompleted = currentTime - (case map_of (completedAt g) hostId of None \<Rightarrow> 0 | Some t \<Rightarrow> t) < coalesceMs cfg in
            if hostId \<in> set (g_active g) \<or> (\<not> force \<and> recentlyCompleted) then (None, g)
            else if length (g_active g) \<ge> gate_capacity cfg then (None, enqueue hostId currentTime g)
            else if g_waiting g \<noteq> []
            then (if map_of (waitingSince g) hostId = None then (None, enqueue hostId currentTime g)
                  else if hd (g_waiting g) \<noteq> hostId
                  then (None, g\<lparr>waitingSince := alist_set hostId currentTime (waitingSince g)\<rparr>)
                  else admit hostId (g\<lparr>g_waiting := tl (g_waiting g), waitingSince := alist_delete hostId (waitingSince g)\<rparr>))
            else admit hostId g)"

definition release_handle :: "gate_handle \<Rightarrow> int \<Rightarrow> AgentHeartbeatGate \<Rightarrow> AgentHeartbeatGate" where
  "release_handle h now g =
     (if h \<notin> set (g_open g) then g
      else g\<lparr>g_open := remove1 h (g_open g), g_active := remove1 (gh_host h) (g_active g),
             completedAt := alist_set (gh_host h) now (completedAt g)\<rparr>)"

definition clear_gate :: "jsval \<Rightarrow> AgentHeartbeatGate \<Rightarrow> AgentHeartbeatGate" where
  "clear_gate hostIdValue g =
     (if hostIdValue = JUndefined then g\<lparr>g_active := [], completedAt := [], g_waiting := [], waitingSince := []\<rparr>
      else case as_integer (to_number hostIdValue) of
             None \<Rightarrow> g
           | Some hostId \<Rightarrow>
               removeWaiting hostId (g\<lparr>g_active := remove1 hostId (g_active g), completedAt := alist_delete hostId (completedAt g)\<rparr>))"

section \<open>Responses and intervals\<close>

record heartbeat_response =
  hr_success :: bool
  hr_actions :: "string list"
  hr_selfTests :: "string list"
  hr_lookingGlassTests :: "string list"
  hr_iperf3Tasks :: "string list"
  hr_pluginTasks :: "string list"
  hr_agentUpgrade :: "string option"
  hr_panelUrl :: string
  hr_forceTcping :: bool
  hr_nextInterval :: int
  hr_requestLocalState :: bool
  hr_compactReports :: bool
  hr_presenceSupported :: bool
  hr_metricsOnly :: bool
  hr_trafficReportInterval :: "int option"

text \<open>The task lists of a busy response are always empty; their elements are left as text.\<close>

definition buildBusyAgentHeartbeatResponse :: "string \<Rightarrow> bool \<Rightarrow> bool option \<Rightarrow> int option \<Rightarrow> heartbeat_response" where
  "buildBusyAgentHeartbeatResponse panelUrl requestLocalState metricsWatching trafficReportInterval =
     (let metricsOnly = (metricsWatching = Some True \<and> \<not> requestLocalState) in
      \<lparr>hr_success = True, hr_actions = [], hr_selfTests = [], hr_lookingGlassTests = [], hr_iperf3Tasks = [],
       hr_pluginTasks = [], hr_agentUpgrade = None, hr_panelUrl = panelUrl, hr_forceTcping = False,
       hr_nextInterval = (if metricsOnly then 3 else 5), hr_requestLocalState = requestLocalState,
       hr_compactReports = True, hr_presenceSupported = True, hr_metricsOnly = metricsOnly, hr_trafficReportInterval = trafficReportInterval\<rparr>)"

definition AGENT_PRESENCE_INTERVAL_SECONDS :: int where "AGENT_PRESENCE_INTERVAL_SECONDS = 5"

definition shouldDeferAgentWorkForLocalState :: "bool \<Rightarrow> bool \<Rightarrow> bool" where
  "shouldDeferAgentWorkForLocalState supportsDesiredState requestLocalState \<longleftrightarrow> supportsDesiredState \<and> requestLocalState"

definition AGENT_IDLE_HEARTBEAT_INTERVAL_SECONDS :: int where "AGENT_IDLE_HEARTBEAT_INTERVAL_SECONDS = 60"
definition AGENT_PRESENCE_PERSIST_INTERVAL_MS :: int where "AGENT_PRESENCE_PERSIST_INTERVAL_MS = 90 * 1000"
definition AGENT_TRAFFIC_REPORT_INTERACTIVE_SECONDS :: int where "AGENT_TRAFFIC_REPORT_INTERACTIVE_SECONDS = 10"
definition AGENT_TRAFFIC_REPORT_STEADY_SECONDS :: int where "AGENT_TRAFFIC_REPORT_STEADY_SECONDS = 30"
definition AGENT_STABLE_PLAN_AUDIT_INTERVAL_MS :: int where "AGENT_STABLE_PLAN_AUDIT_INTERVAL_MS = 5 * 60 * 1000"

definition selectAgentTrafficReportInterval :: "bool \<Rightarrow> bool \<Rightarrow> int" where
  "selectAgentTrafficReportInterval metricsWatching strictAccounting =
     (if metricsWatching \<or> strictAccounting then AGENT_TRAFFIC_REPORT_INTERACTIVE_SECONDS
      else AGENT_TRAFFIC_REPORT_STEADY_SECONDS)"

definition shouldPersistAgentPresence :: "bool \<Rightarrow> int option \<Rightarrow> int \<Rightarrow> bool" where
  "shouldPersistAgentPresence wasOnline lastHeartbeatMs nowMs =
     (if \<not> wasOnline then True
      else case lastHeartbeatMs of None \<Rightarrow> True | Some t \<Rightarrow> nowMs - t \<ge> AGENT_PRESENCE_PERSIST_INTERVAL_MS)"

definition buildReportedRuntimeHeartbeatPatch ::
  "bool \<Rightarrow> string \<Rightarrow> string option \<Rightarrow> int option \<Rightarrow> int \<Rightarrow> (string \<times> string option \<times> int) option" where
  "buildReportedRuntimeHeartbeatPatch hasLocalRuntimeState status message checkedAt now =
     (if \<not> hasLocalRuntimeState then None else Some (status, message, (case checkedAt of None \<Rightarrow> now | Some t \<Rightarrow> t)))"

definition probe_interval :: "jsval \<Rightarrow> int" where
  "probe_interval v = (case (if truthy v then to_number v else inum 30) of
     Fin r \<Rightarrow> max 5 \<lfloor>r\<rfloor> | _ \<Rightarrow> 30)"

definition selectAgentHeartbeatInterval :: "bool \<Rightarrow> bool \<Rightarrow> bool \<Rightarrow> jsval list \<Rightarrow> int" where
  "selectAgentHeartbeatInterval requestLocalState hasInteractiveTasks metricsWatching serviceProbeIntervals =
     (if requestLocalState \<or> hasInteractiveTasks then 2
      else min (if metricsWatching then 3 else AGENT_IDLE_HEARTBEAT_INTERVAL_SECONDS)
             (foldl (\<lambda>minimum v. min minimum (probe_interval v)) AGENT_IDLE_HEARTBEAT_INTERVAL_SECONDS serviceProbeIntervals))"

section \<open>Stable heartbeat plans\<close>

record AgentStableHeartbeatPlan =
  p_plannedAt :: int
  p_configRevision :: int
  p_desiredStateHash :: string
  p_localStateSignature :: string
  p_stateSignatures :: "(string \<times> string) list"
  p_agentVersion :: string
  p_agentBootId :: string
  p_agentProcessStartedAt :: int
  p_defaultNetworkInterface :: string
  p_pluginInventorySignature :: string
  p_mimicEnvironmentSignature :: string
  p_xrayCompatible :: bool
  p_xrayStateSignature :: string
  p_managedServicesCompatible :: "bool option"
  p_managedServicesStateSignature :: "string option"
  p_idleNextInterval :: int
  p_panelUrl :: string

record AgentStableHeartbeatMatch =
  m_forceReconcile :: bool
  m_hasBlockingWork :: bool
  m_recoveryTriggered :: bool
  m_addressChanged :: bool
  m_hasDnsChanges :: bool
  m_hasLocalStateUpload :: bool
  m_hasEndpointEvents :: bool
  m_localStateSignature :: string
  m_stateSignatures :: "(string \<times> string) list"
  m_agentVersion :: string
  m_agentBootId :: string
  m_agentProcessStartedAt :: int
  m_defaultNetworkInterface :: string
  m_pluginInventorySignature :: string
  m_mimicEnvironmentSignature :: string
  m_xrayCompatible :: bool
  m_xrayStateSignature :: string
  m_managedServicesCompatible :: "bool option"
  m_managedServicesStateSignature :: "string option"
  m_agentLastReceivedRevision :: int
  m_agentLastAppliedRevision :: int
  m_agentLastReceivedHash :: string
  m_agentLastAppliedHash :: string

definition normalizedHash :: "string option \<Rightarrow> string" where
  "normalizedHash v = (case v of None \<Rightarrow> [] | Some s \<Rightarrow> js_lower (js_trim s))"

definition signaturesMatch :: "(string \<times> string) list \<Rightarrow> (string \<times> string) list \<Rightarrow> bool" where
  "signaturesMatch expected actual \<longleftrightarrow> expected \<noteq> []
     \<and> list_all (\<lambda>(name, v). normalizedHash (map_of actual name) = normalizedHash (Some v)) expected"

type_synonym plan_cache = "(int \<times> AgentStableHeartbeatPlan) list"

definition normalize_plan :: "AgentStableHeartbeatPlan \<Rightarrow> AgentStableHeartbeatPlan" where
  "normalize_plan plan =
     plan\<lparr>p_desiredStateHash := normalizedHash (Some (p_desiredStateHash plan)),
          p_localStateSignature := normalizedHash (Some (p_localStateSignature plan)),
          p_xrayStateSignature := normalizedHash (Some (p_xrayStateSignature plan)),
          p_managedServicesCompatible := Some (p_managedServicesCompatible plan = Some True),
          p_managedServicesStateSignature := Some (normalizedHash (p_managedServicesStateSignature plan))\<rparr>"

definition remember :: "jsval \<Rightarrow> AgentStableHeartbeatPlan \<Rightarrow> plan_cache \<Rightarrow> bool \<times> plan_cache" where
  "remember hostIdValue plan plans =
     (case as_integer (to_number hostIdValue) of
        None \<Rightarrow> (False, plans)
      | Some hostId \<Rightarrow>
          if hostId \<le> 0 then (False, plans)
          else if p_localStateSignature plan = [] \<or> p_desiredStateHash plan = [] \<or> p_stateSignatures plan = []
          then (False, plans)
          else (True, alist_set hostId (normalize_plan plan) plans))"

definition plan_matches :: "AgentStableHeartbeatPlan \<Rightarrow> AgentStableHeartbeatMatch \<Rightarrow> bool" where
  "plan_matches plan i \<longleftrightarrow>
     normalizedHash (Some (m_localStateSignature i)) = p_localStateSignature plan
     \<and> signaturesMatch (p_stateSignatures plan) (m_stateSignatures i)
     \<and> m_agentVersion i = p_agentVersion plan \<and> m_agentBootId i = p_agentBootId plan
     \<and> m_agentProcessStartedAt i = p_agentProcessStartedAt plan
     \<and> m_defaultNetworkInterface i = p_defaultNetworkInterface plan
     \<and> m_pluginInventorySignature i = p_pluginInventorySignature plan
     \<and> m_mimicEnvironmentSignature i = p_mimicEnvironmentSignature plan
     \<and> m_xrayCompatible i = p_xrayCompatible plan
     \<and> normalizedHash (Some (m_xrayStateSignature i)) = p_xrayStateSignature plan
     \<and> (m_managedServicesCompatible i = Some True) = (p_managedServicesCompatible plan = Some True)
     \<and> normalizedHash (m_managedServicesStateSignature i) = normalizedHash (p_managedServicesStateSignature plan)
     \<and> m_agentLastReceivedRevision i = p_configRevision plan \<and> m_agentLastAppliedRevision i = p_configRevision plan
     \<and> normalizedHash (Some (m_agentLastReceivedHash i)) = p_desiredStateHash plan
     \<and> normalizedHash (Some (m_agentLastAppliedHash i)) = p_desiredStateHash plan"

definition must_plan :: "AgentStableHeartbeatMatch \<Rightarrow> bool" where
  "must_plan i \<longleftrightarrow> m_forceReconcile i \<or> m_hasBlockingWork i \<or> m_recoveryTriggered i \<or> m_addressChanged i
     \<or> m_hasDnsChanges i \<or> m_hasLocalStateUpload i \<or> m_hasEndpointEvents i"

definition match_plan ::
  "int \<Rightarrow> jsval \<Rightarrow> AgentStableHeartbeatMatch \<Rightarrow> int \<Rightarrow> plan_cache \<Rightarrow> AgentStableHeartbeatPlan option" where
  "match_plan auditIntervalMs hostIdValue i currentTime plans =
     (case as_integer (to_number hostIdValue) of
        None \<Rightarrow> None
      | Some hostId \<Rightarrow>
          if hostId \<le> 0 then None
          else case map_of plans hostId of
                 None \<Rightarrow> None
               | Some plan \<Rightarrow>
                   if currentTime - p_plannedAt plan \<ge> auditIntervalMs then None
                   else if must_plan i then None
                   else if \<not> plan_matches plan i then None
                   else Some plan)"

definition invalidate :: "jsval \<Rightarrow> plan_cache \<Rightarrow> plan_cache" where
  "invalidate hostIdValue plans =
     (if hostIdValue = JUndefined then []
      else case as_integer (to_number hostIdValue) of None \<Rightarrow> plans | Some hostId \<Rightarrow> alist_delete hostId plans)"

section \<open>Queue and capacity\<close>

text \<open>The hosts that wait and their time stamps.\<close>

definition queue_ok :: "int list \<Rightarrow> (int \<times> int) list \<Rightarrow> bool" where
  "queue_ok w since \<longleftrightarrow> distinct w \<and> keys_distinct since \<and> fst ` set since = set w"

lemma pruneWaiting_queue:
  assumes "queue_ok w since" "pruneWaiting timeout now w since = (w', since')"
  shows "queue_ok w' since'" "\<exists>p. w = p @ w'"
proof -
  have "queue_ok w' since' \<and> (\<exists>p. w = p @ w')"
    using assms
  proof (induction timeout now w since rule: pruneWaiting.induct)
    case (2 timeout now h w since)
    have q: "queue_ok w (alist_delete h since)"
      using 2(3) by (auto simp: queue_ok_def keys_distinct_delete keys_alist_delete)
    show ?case
    proof (cases "map_of since h")
      case None
      then have "pruneWaiting timeout now w (alist_delete h since) = (w', since')" using 2(4) by simp
      from 2(1) [OF None q this] show ?thesis by (metis append_Cons)
    next
      case (Some t)
      show ?thesis
      proof (cases "now - t \<le> timeout")
        case True
        then show ?thesis using 2(3,4) Some by auto
      next
        case False
        then have "pruneWaiting timeout now w (alist_delete h since) = (w', since')" using 2(4) Some by simp
        from 2(2) [OF Some False q this] show ?thesis by (metis append_Cons)
      qed
    qed
  qed auto
  then show "queue_ok w' since'" "\<exists>p. w = p @ w'" by blast+
qed

lemma waiting_mem: "queue_ok w since \<Longrightarrow> map_of since h = None \<longleftrightarrow> h \<notin> set w"
  by (simp add: queue_ok_def map_of_eq_None_iff)

lemma enqueue_queue:
  assumes "queue_ok (g_waiting g) (waitingSince g)"
  shows "queue_ok (g_waiting (enqueue h t g)) (waitingSince (enqueue h t g))"
    "g_waiting (enqueue h t g) = (if h \<in> set (g_waiting g) then g_waiting g else g_waiting g @ [h])"
    "g_active (enqueue h t g) = g_active g" "g_open (enqueue h t g) = g_open g" "g_next (enqueue h t g) = g_next g"
    "completedAt (enqueue h t g) = completedAt g"
proof -
  show w: "g_waiting (enqueue h t g) = (if h \<in> set (g_waiting g) then g_waiting g else g_waiting g @ [h])"
    using waiting_mem [OF assms, of h] by (auto simp: enqueue_def)
  have "fst ` set (waitingSince (enqueue h t g)) = insert h (set (g_waiting g))"
    using assms by (simp add: enqueue_def queue_ok_def keys_alist_set)
  then show "queue_ok (g_waiting (enqueue h t g)) (waitingSince (enqueue h t g))"
    using assms w by (auto simp: queue_ok_def enqueue_def keys_distinct_set)
qed (simp_all add: enqueue_def)

definition gate_inv :: "gate_config \<Rightarrow> AgentHeartbeatGate \<Rightarrow> bool" where
  "gate_inv cfg g \<longleftrightarrow> queue_ok (g_waiting g) (waitingSince g)
     \<and> set (g_waiting g) \<inter> set (g_active g) = {}
     \<and> distinct (map gh_host (g_open g)) \<and> distinct (g_active g) \<and> set (g_active g) = gh_host ` set (g_open g)
     \<and> length (g_active g) \<le> gate_capacity cfg
     \<and> list_all (\<lambda>h. gh_id h < g_next g) (g_open g)"

text \<open>Every outcome of \<open>tryAcquire\<close>, over the queue left by the timeouts.\<close>

lemma tryAcquire_cases:
  assumes "tryAcquire cfg hv force now g0 = (r, g')"
  obtains (invalid) "r = None" "g' = g0" "\<nexists>host. as_integer (to_number hv) = Some host \<and> host > 0"
  | (valid) host w ws g where "as_integer (to_number hv) = Some host" "host > 0"
      "pruneWaiting (waitingTimeoutMs cfg) now (g_waiting g0) (waitingSince g0) = (w, ws)"
      "g = g0\<lparr>g_waiting := w, waitingSince := ws\<rparr>"
      "(host \<in> set (g_active g) \<or> (\<not> force \<and> now - (case map_of (completedAt g) host of None \<Rightarrow> 0 | Some t \<Rightarrow> t) < coalesceMs cfg))
         \<and> r = None \<and> g' = g
       \<or> host \<notin> set (g_active g) \<and> (length (g_active g) \<ge> gate_capacity cfg \<or> w \<noteq> [] \<and> map_of ws host = None)
         \<and> r = None \<and> g' = enqueue host now g
       \<or> host \<notin> set (g_active g) \<and> length (g_active g) < gate_capacity cfg \<and> w \<noteq> [] \<and> map_of ws host \<noteq> None \<and> hd w \<noteq> host
         \<and> r = None \<and> g' = g\<lparr>waitingSince := alist_set host now ws\<rparr>
       \<or> host \<notin> set (g_active g) \<and> length (g_active g) < gate_capacity cfg \<and> w \<noteq> [] \<and> hd w = host
         \<and> (r, g') = admit host (g\<lparr>g_waiting := tl w, waitingSince := alist_delete host ws\<rparr>)
       \<or> host \<notin> set (g_active g) \<and> length (g_active g) < gate_capacity cfg \<and> w = [] \<and> (r, g') = admit host g"
proof (cases "as_integer (to_number hv)")
  case None
  then show ?thesis using assms invalid by (simp add: tryAcquire_def)
next
  case (Some host)
  obtain w ws where p: "pruneWaiting (waitingTimeoutMs cfg) now (g_waiting g0) (waitingSince g0) = (w, ws)"
    by (cases "pruneWaiting (waitingTimeoutMs cfg) now (g_waiting g0) (waitingSince g0)")
  show ?thesis
  proof (cases "host \<le> 0")
    case True
    then show ?thesis using assms Some invalid by (simp add: tryAcquire_def)
  next
    case False
    show ?thesis
      by (rule valid [OF Some _ p refl])
        (use assms False Some p in \<open>simp_all add: tryAcquire_def Let_def not_le eq_commute [of r] split: if_splits\<close>)
  qed
qed

lemma admit_inv:
  assumes "gate_inv cfg g" "host \<notin> set (g_active g)" "host \<notin> set (g_waiting g)" "length (g_active g) < gate_capacity cfg"
    "admit host g = (r, g')"
  shows "gate_inv cfg g'" "\<exists>h. r = Some h \<and> gh_host h = host \<and> set (g_open g') = insert h (set (g_open g)) \<and> gh_id h = g_next g"
  using assms by (auto simp: gate_inv_def admit_def Let_def less_Suc_eq list_all_iff)

lemma gate_inv_requeue:
  assumes "gate_inv cfg g" "queue_ok w ws" "set w \<inter> set (g_active g) = {}"
  shows "gate_inv cfg (g\<lparr>g_waiting := w, waitingSince := ws\<rparr>)"
  using assms by (simp add: gate_inv_def)

lemma tryAcquire_inv:
  assumes inv: "gate_inv cfg g0" and acq: "tryAcquire cfg hv force now g0 = (r, g')"
  shows "gate_inv cfg g' \<and> (case r of
      None \<Rightarrow> set (g_open g') = set (g_open g0) \<and> g_next g' = g_next g0
    | Some h \<Rightarrow> gh_host h \<notin> set (g_active g0) \<and> gh_id h = g_next g0 \<and> g_next g' = Suc (g_next g0)
        \<and> set (g_open g') = insert h (set (g_open g0)))"
  using acq
proof (cases rule: tryAcquire_cases)
  case invalid
  then show ?thesis using inv by simp
next
  case (valid host w ws g)
  have q0: "queue_ok (g_waiting g0) (waitingSince g0)" using inv by (simp add: gate_inv_def)
  note pr = pruneWaiting_queue [OF q0 valid(3)]
  have disj: "set w \<inter> set (g_active g0) = {}" using inv pr(2) by (auto simp: gate_inv_def)
  have g: "gate_inv cfg g" "g_active g = g_active g0" "g_open g = g_open g0" "g_next g = g_next g0" "g_waiting g = w" "waitingSince g = ws"
    using gate_inv_requeue [OF inv pr(1) disj] by (simp_all add: valid(4))
  have qg: "queue_ok (g_waiting g) (waitingSince g)" using g pr(1) by simp
  note en = enqueue_queue [OF qg, of host now]
  from valid(5) consider
      (same) "r = None" "g' = g"
    | (queued) "r = None" "g' = enqueue host now g" "host \<notin> set (g_active g)"
    | (touched) "r = None" "g' = g\<lparr>waitingSince := alist_set host now ws\<rparr>" "map_of ws host \<noteq> None"
    | (head) "host \<notin> set (g_active g)" "length (g_active g) < gate_capacity cfg" "w \<noteq> []" "hd w = host"
        "(r, g') = admit host (g\<lparr>g_waiting := tl w, waitingSince := alist_delete host ws\<rparr>)"
    | (free) "host \<notin> set (g_active g)" "length (g_active g) < gate_capacity cfg" "w = []" "(r, g') = admit host g"
    by blast
  then show ?thesis
  proof cases
    case same
    then show ?thesis using g by simp
  next
    case queued
    have "gate_inv cfg g'"
      using g(1) en queued(2,3) by (auto simp: gate_inv_def)
    then show ?thesis using queued en g by simp
  next
    case touched
    have "queue_ok w (alist_set host now ws)"
      using pr(1) waiting_mem [OF pr(1), of host] touched(3)
      by (auto simp: queue_ok_def keys_distinct_set keys_alist_set)
    moreover have "g' = g\<lparr>g_waiting := w, waitingSince := alist_set host now ws\<rparr>"
      using touched(2) g(5) by (cases g) simp
    ultimately have "gate_inv cfg g'" using gate_inv_requeue [OF g(1)] disj g(2) by simp
    then show ?thesis using touched g by simp
  next
    case head
    have w: "w = host # tl w" using head(3,4) by (cases w) auto
    then have q: "queue_ok (tl w) (alist_delete host ws)"
      using pr(1) by (cases w) (auto simp: queue_ok_def keys_distinct_delete keys_alist_delete)
    have nt: "host \<notin> set (tl w)" using w pr(1) by (metis distinct.simps(2) queue_ok_def)
    let ?g = "g\<lparr>g_waiting := tl w, waitingSince := alist_delete host ws\<rparr>"
    have "set (tl w) \<inter> set (g_active g) = {}" using disj g(2) by (metis Int_mono list.set_sel(2) w disjoint_iff list.set_intros(2))
    then have ig: "gate_inv cfg ?g" using gate_inv_requeue [OF g(1) q] by simp
    show ?thesis
      using admit_inv [OF ig, of host r g'] head nt g by (auto simp: admit_def Let_def)
  next
    case free
    show ?thesis using admit_inv [OF g(1), of host r g'] free g by (auto simp: admit_def Let_def)
  qed
qed

lemma release_gate_inv:
  assumes inv: "gate_inv cfg g"
  shows "gate_inv cfg (release_handle h now g) \<and> set (g_open (release_handle h now g)) = set (g_open g) - {h}
    \<and> g_next (release_handle h now g) = g_next g"
proof (cases "h \<in> set (g_open g)")
  case True
  have d: "distinct (map gh_host (g_open g))" "distinct (g_open g)" "distinct (g_active g)" "set (g_active g) = gh_host ` set (g_open g)"
    using inv by (auto simp: gate_inv_def distinct_map)
  have "gh_host ` (set (g_open g) - {h}) = gh_host ` set (g_open g) - {gh_host h}"
    using d(1) True by (auto simp: distinct_map dest: inj_onD)
  then have eq: "set (remove1 (gh_host h) (g_active g)) = gh_host ` set (remove1 h (g_open g))"
    using d by (simp add: set_remove1_eq)
  have len: "length (remove1 (gh_host h) (g_active g)) \<le> length (g_active g)" by (simp add: length_remove1)
  have dm: "distinct (map gh_host (remove1 h (g_open g)))"
    using d(1,2) by (auto simp: distinct_map set_remove1_eq inj_on_def)
  show ?thesis
    using inv True d eq len dm
    by (auto simp: gate_inv_def release_handle_def set_remove1_eq list_all_iff)
next
  case False
  then show ?thesis using inv by (simp add: release_handle_def)
qed

text \<open>A request carries its time; a release happens at the time of the latest request, and a request with an
  invalid host identifier only moves the clock.\<close>

definition gate_request ::
  "gate_config \<Rightarrow> int \<times> AgentHeartbeatGate \<Rightarrow> jsval \<times> bool \<times> int \<Rightarrow> (int \<times> AgentHeartbeatGate) \<times> gate_handle option" where
  "gate_request cfg s req = (case req of (hv, force, now) \<Rightarrow>
     (case tryAcquire cfg hv force now (snd s) of (r, g) \<Rightarrow> ((now, g), r)))"

definition gate_release :: "int \<times> AgentHeartbeatGate \<Rightarrow> gate_handle \<Rightarrow> int \<times> AgentHeartbeatGate" where
  "gate_release s h = (fst s, release_handle h (fst s) (snd s))"

definition gate_init :: "int \<times> AgentHeartbeatGate" where
  "gate_init = (0, \<lparr>g_active = [], completedAt = [], g_waiting = [], waitingSince = [], g_open = [], g_next = 0\<rparr>)"

definition gate_live :: "int \<times> AgentHeartbeatGate \<Rightarrow> gate_handle set" where
  "gate_live s = set (g_open (snd s))"

definition same_host :: "gate_handle \<Rightarrow> gate_handle \<Rightarrow> bool" where
  "same_host h h' \<longleftrightarrow> gh_host h = gh_host h'"

definition gate_book_inv :: "gate_config \<Rightarrow> int \<times> AgentHeartbeatGate \<Rightarrow> gate_handle set \<Rightarrow> bool" where
  "gate_book_inv cfg s H \<longleftrightarrow> gate_inv cfg (snd s)"

interpretation gate: claim_book "gate_request cfg" gate_release gate_init gate_live same_host "gate_book_inv cfg" for cfg
proof unfold_locales
  show "gate_book_inv cfg gate_init {}"
    by (simp add: gate_book_inv_def gate_inv_def gate_init_def queue_ok_def)
  show "gate_live gate_init = {}" by (simp add: gate_live_def gate_init_def)
  show "same_host d c" if "same_host c d" for c d using that by (simp add: same_host_def)
  show "gate_book_inv cfg s' (insert c H) \<and> gate_live s' = insert c (gate_live s) \<and> (\<forall>d\<in>gate_live s. \<not> same_host d c)"
    if inv: "gate_book_inv cfg s H" and req: "gate_request cfg s a = (s', Some c)" for s H a s' c
  proof -
    obtain hv force now where a: "a = (hv, force, now)" by (cases a)
    obtain g where g: "tryAcquire cfg hv force now (snd s) = (Some c, g)" "s' = (now, g)"
      using req by (auto simp: gate_request_def a split: prod.splits)
    have i: "gate_inv cfg (snd s)" using inv by (simp add: gate_book_inv_def)
    have R: "gate_inv cfg g" "gh_host c \<notin> set (g_active (snd s))" "set (g_open g) = insert c (set (g_open (snd s)))"
      using tryAcquire_inv [OF i g(1)] by simp_all
    moreover have "set (g_active (snd s)) = gh_host ` set (g_open (snd s))" using i by (simp add: gate_inv_def)
    ultimately have "\<forall>d\<in>set (g_open (snd s)). gh_host d \<noteq> gh_host c" by (metis imageI)
    then show ?thesis using R by (simp add: g(2) gate_book_inv_def gate_live_def same_host_def)
  qed
  show "gate_book_inv cfg s' H \<and> gate_live s' = gate_live s"
    if inv: "gate_book_inv cfg s H" and req: "gate_request cfg s a = (s', None)" for s H a s'
  proof -
    obtain hv force now where a: "a = (hv, force, now)" by (cases a)
    obtain g where g: "tryAcquire cfg hv force now (snd s) = (None, g)" "s' = (now, g)"
      using req by (auto simp: gate_request_def a split: prod.splits)
    show ?thesis
      using tryAcquire_inv [OF _ g(1)] inv by (simp add: g(2) gate_book_inv_def gate_live_def)
  qed
  show "gate_book_inv cfg (gate_release s c) H \<and> gate_live (gate_release s c) = gate_live s - {c}"
    if "gate_book_inv cfg s H" "c \<in> H" for s H c
    using release_gate_inv [of cfg "snd s" c "fst s"] that(1) by (simp add: gate_book_inv_def gate_live_def gate_release_def)
qed

section \<open>Properties\<close>

text \<open>C22: In every run of requests and releases the gate processes at most its capacity of heartbeats, never two of one
  host, and its queue holds each waiting host once and no host that is being processed.\<close>

theorem gate_capacity_and_exclusion:
  assumes "claim_run (gate_request cfg) gate_release gate_init s H"
  shows "length (g_active (snd s)) \<le> gate_capacity cfg
    \<and> (\<forall>h h'. h \<in> gate_live s \<and> h' \<in> gate_live s \<and> h \<noteq> h' \<longrightarrow> gh_host h \<noteq> gh_host h')
    \<and> set (g_active (snd s)) = gh_host ` gate_live s
    \<and> distinct (g_waiting (snd s)) \<and> set (g_waiting (snd s)) \<inter> set (g_active (snd s)) = {}"
proof -
  have "gate_inv cfg (snd s)" using gate.run_inv [OF assms] by (simp add: gate_book_inv_def)
  moreover have "h \<in> gate_live s \<and> h' \<in> gate_live s \<and> h \<noteq> h' \<Longrightarrow> gh_host h \<noteq> gh_host h'" for h h'
    using gate.run_exclusive [OF assms] by (auto simp: same_host_def)
  ultimately show ?thesis by (auto simp: gate_inv_def queue_ok_def gate_live_def)
qed

theorem gate_capacity_and_exclusion_witness:
  "length (g_active (snd (fst (gate_request default_gate gate_init (JNum (inum 4), False, 10000))))) \<le> 8
   \<and> length (g_active (snd (fst (gate_request default_gate gate_init (JNum (inum 4), False, 10000))))) = 1"
proof -
  let ?s = "gate_request default_gate gate_init (JNum (inum 4), False, 10000)"
  have one: "length (g_active (snd (fst ?s))) = 1" "\<exists>c. snd ?s = Some c"
    by (simp_all add: gate_request_def tryAcquire_def default_gate_def gate_init_def gate_capacity_def admit_def Let_def)
  then obtain c where c: "?s = (fst ?s, Some c)" by (metis prod.collapse)
  have "claim_run (gate_request default_gate) gate_release gate_init (fst ?s) {c}"
    by (rule claim_run.acquired [where acquire = "gate_request default_gate" and s = gate_init, OF claim_run.start c])
  from gate_capacity_and_exclusion [OF this] one(1) show ?thesis
    by (simp add: gate_capacity_def default_gate_def)
qed

text \<open>The gate is first come, first served: a request that is admitted comes from the host at the head of the
  queue left by the timeouts, or finds it empty; a refused request leaves that queue as it is or joins it at the end;
  and the host at the head is admitted as soon as it asks while there is room.\<close>

theorem gate_first_come_first_served:
  assumes inv: "gate_inv cfg g0" and acq: "tryAcquire cfg hv force now g0 = (r, g')"
    and host: "as_integer (to_number hv) = Some host" "host > 0"
    and pruned: "pruneWaiting (waitingTimeoutMs cfg) now (g_waiting g0) (waitingSince g0) = (w, ws)"
  shows "(case r of
      Some h \<Rightarrow> gh_host h = host \<and> (w = [] \<or> hd w = host) \<and> g_waiting g' = tl w
    | None \<Rightarrow> g_waiting g' = w \<or> g_waiting g' = w @ [host])
    \<and> (w \<noteq> [] \<and> hd w = host \<and> length (g_active g0) < gate_capacity cfg
         \<and> (force \<or> coalesceMs cfg \<le> now - (case map_of (completedAt g0) host of None \<Rightarrow> 0 | Some t \<Rightarrow> t))
       \<longrightarrow> r \<noteq> None)"
  using acq
proof (cases rule: tryAcquire_cases)
  case invalid
  then show ?thesis using host by blast
next
  case (valid host' w' ws' g)
  have eq: "host' = host" "w' = w" "ws' = ws" using valid(1,3) host(1) pruned by auto
  have q0: "queue_ok (g_waiting g0) (waitingSince g0)" using inv by (simp add: gate_inv_def)
  note pr = pruneWaiting_queue [OF q0 pruned]
  have disj: "set w \<inter> set (g_active g0) = {}" using inv pr(2) by (auto simp: gate_inv_def)
  have head: "host \<notin> set (g_active g0) \<and> map_of ws host \<noteq> None" if "w \<noteq> []" "hd w = host"
    using that disj waiting_mem [OF pr(1), of host] hd_in_set by (metis disjoint_iff)
  have q: "queue_ok (g_waiting g) (waitingSince g)" using pr(1) valid(4) eq by simp
  have en: "g_waiting (enqueue host now g) = (if host \<in> set w then w else w @ [host])"
    using enqueue_queue(2) [OF q, of host now] valid(4) eq by simp
  show ?thesis
    using valid(5) head en unfolding valid(4) eq
    by (elim disjE conjE) (auto simp: admit_def Let_def split: if_splits)
qed


definition queued_gate :: AgentHeartbeatGate where
  "queued_gate = \<lparr>g_active = [1], completedAt = [], g_waiting = [7, 5], waitingSince = [(5, 39000), (7, 38000)],
     g_open = [\<lparr>gh_id = 0, gh_host = 1\<rparr>], g_next = 1\<rparr>"

lemma queued_gate_inv: "gate_inv default_gate queued_gate"
  by (simp add: gate_inv_def queued_gate_def queue_ok_def keys_distinct_def default_gate_def gate_capacity_def insert_commute)

theorem gate_first_come_first_served_witness:
  "\<exists>h g'. tryAcquire default_gate (JNum (inum 7)) False 40000 queued_gate = (Some h, g') \<and> g_waiting g' = [5]"
proof -
  obtain r g' where acq: "tryAcquire default_gate (JNum (inum 7)) False 40000 queued_gate = (r, g')" by force
  have p: "pruneWaiting (waitingTimeoutMs default_gate) 40000 (g_waiting queued_gate) (waitingSince queued_gate)
      = ([7, 5], [(5, 39000), (7, 38000)])"
    by (simp add: queued_gate_def default_gate_def)
  have "as_integer (to_number (JNum (inum 7))) = Some 7" by simp
  from gate_first_come_first_served [OF queued_gate_inv acq this _ p] acq show ?thesis
    by (cases r) (simp_all add: queued_gate_def default_gate_def gate_capacity_def)
qed

lemma probe_interval_ge: "5 \<le> probe_interval v"
  by (simp add: probe_interval_def split: jsnum.splits)

lemma probe_fold:
  "foldl (\<lambda>m v. min m (probe_interval v)) a vs \<le> a"
  "5 \<le> a \<Longrightarrow> 5 \<le> foldl (\<lambda>m v. min m (probe_interval v)) a vs"
  "v \<in> set vs \<Longrightarrow> foldl (\<lambda>m v. min m (probe_interval v)) a vs \<le> probe_interval v"
proof -
  show le: "foldl (\<lambda>m v. min m (probe_interval v)) a vs \<le> a" for a vs
    by (induction vs arbitrary: a) (simp_all, meson min.boundedE)
  show "5 \<le> a \<Longrightarrow> 5 \<le> foldl (\<lambda>m v. min m (probe_interval v)) a vs"
    by (induction vs arbitrary: a) (simp_all add: probe_interval_ge)
  show "v \<in> set vs \<Longrightarrow> foldl (\<lambda>m v. min m (probe_interval v)) a vs \<le> probe_interval v"
  proof (induction vs arbitrary: a)
    case (Cons u vs)
    show ?case
    proof (cases "v \<in> set vs")
      case False
      then show ?thesis using Cons.prems le [of "min a (probe_interval u)" vs] by simp
    qed (use Cons in simp)
  qed simp
qed

text \<open>A heartbeat interval is always between 2 and 60 seconds: 2 while local state or interactive work is
  pending, 3 while metrics are watched, and otherwise at least 5 and no longer than any service probe interval of
  the host, whatever values the host stored for them.\<close>

theorem heartbeat_interval_bounds:
  "2 \<le> selectAgentHeartbeatInterval req tasks watching probes \<and> selectAgentHeartbeatInterval req tasks watching probes \<le> 60
   \<and> (req \<or> tasks \<longrightarrow> selectAgentHeartbeatInterval req tasks watching probes = 2)
   \<and> (\<not> req \<and> \<not> tasks \<and> watching \<longrightarrow> selectAgentHeartbeatInterval req tasks watching probes = 3)
   \<and> (\<not> req \<and> \<not> tasks \<and> \<not> watching \<longrightarrow> 5 \<le> selectAgentHeartbeatInterval req tasks watching probes
        \<and> (\<forall>v. v \<in> set probes \<longrightarrow> selectAgentHeartbeatInterval req tasks watching probes \<le> probe_interval v))"
proof -
  have "5 \<le> foldl (\<lambda>m v. min m (probe_interval v)) 60 probes" "foldl (\<lambda>m v. min m (probe_interval v)) 60 probes \<le> 60"
    by (simp_all add: probe_fold)
  then show ?thesis
    using probe_fold(3) [of _ probes 60]
    by (auto simp: selectAgentHeartbeatInterval_def AGENT_IDLE_HEARTBEAT_INTERVAL_SECONDS_def)
qed

theorem heartbeat_interval_bounds_witness:
  "5 \<le> selectAgentHeartbeatInterval False False False [JStr ''12'', JNull, JNum (inum 1)]
   \<and> selectAgentHeartbeatInterval False False False [JStr ''12'', JNull, JNum (inum 1)] \<le> probe_interval JNull
   \<and> selectAgentHeartbeatInterval False True True [JNull] = 2 \<and> selectAgentHeartbeatInterval False False True [JNull] = 3"
  using heartbeat_interval_bounds [of False False False "[JStr ''12'', JNull, JNum (inum 1)]"]
    heartbeat_interval_bounds [of False True True "[JNull]"] heartbeat_interval_bounds [of False False True "[JNull]"]
  by simp

subsection \<open>The plan cache\<close>

lemma normalizedHash_idem: "normalizedHash (Some (normalizedHash v)) = normalizedHash v"
  by (cases v) (simp_all add: normalizedHash_def js_trim_lower, simp_all add: js_lower_def js_trim_def)

text \<open>What a report has to say for a plan to be still in force, stated on the plan as the planner produced it.\<close>

definition reports_plan :: "AgentStableHeartbeatPlan \<Rightarrow> AgentStableHeartbeatMatch \<Rightarrow> bool" where
  "reports_plan plan i \<longleftrightarrow>
     normalizedHash (Some (m_localStateSignature i)) = normalizedHash (Some (p_localStateSignature plan))
     \<and> (\<forall>(name, v) \<in> set (p_stateSignatures plan). normalizedHash (map_of (m_stateSignatures i) name) = normalizedHash (Some v))
     \<and> m_agentVersion i = p_agentVersion plan \<and> m_agentBootId i = p_agentBootId plan
     \<and> m_agentProcessStartedAt i = p_agentProcessStartedAt plan
     \<and> m_defaultNetworkInterface i = p_defaultNetworkInterface plan
     \<and> m_pluginInventorySignature i = p_pluginInventorySignature plan
     \<and> m_mimicEnvironmentSignature i = p_mimicEnvironmentSignature plan
     \<and> m_xrayCompatible i = p_xrayCompatible plan
     \<and> normalizedHash (Some (m_xrayStateSignature i)) = normalizedHash (Some (p_xrayStateSignature plan))
     \<and> (m_managedServicesCompatible i = Some True) = (p_managedServicesCompatible plan = Some True)
     \<and> normalizedHash (m_managedServicesStateSignature i) = normalizedHash (p_managedServicesStateSignature plan)
     \<and> {m_agentLastReceivedRevision i, m_agentLastAppliedRevision i} = {p_configRevision plan}
     \<and> normalizedHash (Some (m_agentLastReceivedHash i)) = normalizedHash (Some (p_desiredStateHash plan))
     \<and> normalizedHash (Some (m_agentLastAppliedHash i)) = normalizedHash (Some (p_desiredStateHash plan))"

lemma plan_matches_normalized:
  "p_stateSignatures plan \<noteq> [] \<Longrightarrow> plan_matches (normalize_plan plan) i \<longleftrightarrow> reports_plan plan i"
  by (simp add: plan_matches_def reports_plan_def normalize_plan_def signaturesMatch_def normalizedHash_idem list_all_iff
      doubleton_eq_iff conj_ac)

text \<open>A remembered plan is served again exactly while it is younger than the audit interval, nothing forces a new
  plan, and the host reports the very state the plan was made for; it is then the plan that was stored, with its
  hashes normalised. Plans of other hosts are not touched, and an invalidated plan is not served at all.\<close>

theorem stable_plan_reuse:
  assumes "remember hv plan plans = (True, plans')" "as_integer (to_number hv) = Some host"
  shows "match_plan audit hv i now plans' =
      (if now - p_plannedAt plan < audit \<and> \<not> must_plan i \<and> reports_plan plan i then Some (normalize_plan plan) else None)
    \<and> (\<forall>hv' other. as_integer (to_number hv') = Some other \<and> other \<noteq> host
         \<longrightarrow> match_plan audit hv' i now plans' = match_plan audit hv' i now plans)
    \<and> match_plan audit hv i now (invalidate hv plans') = None"
proof -
  have r: "host > 0" "p_stateSignatures plan \<noteq> []" "plans' = alist_set host (normalize_plan plan) plans"
    using assms by (auto simp: remember_def split: if_splits)
  have "p_plannedAt (normalize_plan plan) = p_plannedAt plan" by (simp add: normalize_plan_def)
  moreover have "map_of (invalidate hv plans') host = None"
    using assms(2) by (auto simp: invalidate_def alist_simps split: if_splits)
  ultimately show ?thesis
    using r assms(2) plan_matches_normalized [OF r(2), of i] by (auto simp: match_plan_def alist_simps)
qed


definition sample_plan :: AgentStableHeartbeatPlan where
  "sample_plan = \<lparr>p_plannedAt = 1000, p_configRevision = 12, p_desiredStateHash = ''AB12'', p_localStateSignature = ''c3 '',
     p_stateSignatures = [(''rules'', ''D4'')], p_agentVersion = ''2.1'', p_agentBootId = ''b'', p_agentProcessStartedAt = 7,
     p_defaultNetworkInterface = ''eth0'', p_pluginInventorySignature = [], p_mimicEnvironmentSignature = [],
     p_xrayCompatible = False, p_xrayStateSignature = [], p_managedServicesCompatible = None,
     p_managedServicesStateSignature = None, p_idleNextInterval = 60, p_panelUrl = ''https''\<rparr>"

definition sample_report :: AgentStableHeartbeatMatch where
  "sample_report = \<lparr>m_forceReconcile = False, m_hasBlockingWork = False, m_recoveryTriggered = False,
     m_addressChanged = False, m_hasDnsChanges = False, m_hasLocalStateUpload = False, m_hasEndpointEvents = False,
     m_localStateSignature = ''C3'', m_stateSignatures = [(''rules'', ''d4''), (''extra'', ''1'')], m_agentVersion = ''2.1'',
     m_agentBootId = ''b'', m_agentProcessStartedAt = 7, m_defaultNetworkInterface = ''eth0'',
     m_pluginInventorySignature = [], m_mimicEnvironmentSignature = [], m_xrayCompatible = False, m_xrayStateSignature = [],
     m_managedServicesCompatible = Some False, m_managedServicesStateSignature = Some [], m_agentLastReceivedRevision = 12,
     m_agentLastAppliedRevision = 12, m_agentLastReceivedHash = ''ab12'', m_agentLastAppliedHash = ''aB12''\<rparr>"

theorem stable_plan_reuse_witness:
  "match_plan AGENT_STABLE_PLAN_AUDIT_INTERVAL_MS (JNum (inum 3)) sample_report 60000 [(3, normalize_plan sample_plan)]
     = Some (normalize_plan sample_plan)
   \<and> match_plan AGENT_STABLE_PLAN_AUDIT_INTERVAL_MS (JNum (inum 3)) sample_report 60000
       (invalidate (JNum (inum 3)) [(3, normalize_plan sample_plan)]) = None"
proof -
  have "remember (JNum (inum 3)) sample_plan [] = (True, [(3, normalize_plan sample_plan)])"
    by (simp add: remember_def sample_plan_def)
  moreover have "as_integer (to_number (JNum (inum 3))) = Some 3" by simp
  moreover have "reports_plan sample_plan sample_report"
    by (simp add: reports_plan_def sample_plan_def sample_report_def) code_simp
  moreover have "60000 - p_plannedAt sample_plan < AGENT_STABLE_PLAN_AUDIT_INTERVAL_MS" "\<not> must_plan sample_report"
    by (simp_all add: sample_plan_def sample_report_def must_plan_def AGENT_STABLE_PLAN_AUDIT_INTERVAL_MS_def)
  ultimately show ?thesis
    using stable_plan_reuse [of "JNum (inum 3)" sample_plan "[]" "[(3, normalize_plan sample_plan)]" 3
        AGENT_STABLE_PLAN_AUDIT_INTERVAL_MS sample_report 60000] by simp
qed

end
