(* ===== verification/AgentReports.thy ===== *)
theory AgentReports
  imports Prelude "HOL-Library.List_Lexorder" "HOL-Library.Char_ord"
begin

text \<open>
  What the panel does with reports that arrive repeatedly or late: the gate that throttles latency reports of agents
  (server/agentTcpingReportGate.ts) and the guard that refuses overtaken status reports
  (server/agentStatusOrdering.ts). Identifiers of a report are \<open>unknown\<close> numbers, its texts optional strings; an
  identifier is printed in decimal, which is what JavaScript does below 10 to the 21st. A plan carries its
  \<open>committed\<close> flag, so that its \<open>commit\<close> closure is a function of the plan and the gate.
\<close>

section \<open>The report gate\<close>

definition AGENT_TCPING_STEADY_REPORT_MS :: int where "AGENT_TCPING_STEADY_REPORT_MS = 5 * 60 * 1000"
definition AGENT_HEALTH_STEADY_REPORT_MS :: int where "AGENT_HEALTH_STEADY_REPORT_MS = 60 * 1000"
definition AGENT_TCPING_GATE_STATE_TTL_MS :: int where "AGENT_TCPING_GATE_STATE_TTL_MS = 30 * 60 * 1000"

datatype report_kind = RuleReport | TunnelReport | ForwardGroupReport

record ProbeResult =
  r_ruleId :: jsval
  r_tunnelId :: jsval
  r_groupId :: jsval
  r_memberId :: jsval
  r_targetIp :: "string option"
  r_targetPort :: jsval
  r_method :: "string option"
  r_probeKey :: "string option"
  r_topologyKey :: "string option"
  r_latencyMs :: jsval
  r_isTimeout :: "bool option"
  r_hopIndex :: jsval
  r_hopCount :: jsval
  r_seriesKey :: "string option"
  r_healthStatus :: "string option"

record GateState =
  gs_signature :: string
  gs_acceptedAt :: int
  gs_lastSeenAt :: int
  gs_sequence :: nat

type_synonym GateUpdate = "string \<times> GateState"

record report_gate =
  rg_states :: "(string \<times> GateState) list"
  rg_sequence :: nat

record report_gate_config =
  steadyReportMs :: int
  stateTtlMs :: int

record AgentTcpingReportGateInput =
  in_host :: jsval
  in_force :: bool
  in_gateRules :: "bool option"
  in_results :: "ProbeResult list"
  in_tunnels :: "ProbeResult list"
  in_forwardGroups :: "ProbeResult list"
  in_services :: "ProbeResult list"

record AgentTcpingReportGatePlan =
  pl_results :: "ProbeResult list"
  pl_tunnels :: "ProbeResult list"
  pl_forwardGroups :: "ProbeResult list"
  pl_services :: "ProbeResult list"
  pl_transitionRuleIds :: "int list"
  pl_updates :: "GateUpdate list"
  pl_committed :: bool

definition report_text :: "string option \<Rightarrow> string" where
  "report_text v = js_trim (case v of None \<Rightarrow> [] | Some s \<Rightarrow> s)"

definition report_integer :: "jsval \<Rightarrow> int" where
  "report_integer v = (case as_integer (to_number v) of None \<Rightarrow> 0 | Some n \<Rightarrow> n)"

fun kind_text :: "report_kind \<Rightarrow> string" where
  "kind_text RuleReport = ''rule''"
| "kind_text TunnelReport = ''tunnel''"
| "kind_text ForwardGroupReport = ''forwardGroup''"

definition probeStateKey :: "report_kind \<Rightarrow> ProbeResult \<Rightarrow> string" where
  "probeStateKey kind r =
     (if report_text (r_probeKey r) \<noteq> [] then report_text (r_probeKey r)
      else js_join '':'' [kind_text kind, show_int (report_integer (r_ruleId r)), show_int (report_integer (r_tunnelId r)),
        show_int (report_integer (r_groupId r)), show_int (report_integer (r_memberId r)),
        js_lower (report_text (r_targetIp r)), show_int (report_integer (r_targetPort r)),
        js_lower (report_text (r_method r)), show_int (report_integer (r_hopIndex r)),
        show_int (report_integer (r_hopCount r)), js_lower (report_text (r_seriesKey r))])"

fun reportUnitKey :: "int \<Rightarrow> report_kind \<Rightarrow> ProbeResult \<Rightarrow> string" where
  "reportUnitKey hostId RuleReport r = show_int hostId @ '':rule:'' @ show_int (report_integer (r_ruleId r))"
| "reportUnitKey hostId TunnelReport r =
     show_int hostId @ '':tunnel:'' @ show_int (report_integer (r_tunnelId r)) @ '':'' @ report_text (r_topologyKey r)"
| "reportUnitKey hostId ForwardGroupReport r =
     show_int hostId @ '':forward-group:'' @ show_int (report_integer (r_groupId r)) @ '':'' @ report_text (r_topologyKey r)"

definition unit_state :: "report_kind \<Rightarrow> ProbeResult \<Rightarrow> string" where
  "unit_state kind r = probeStateKey kind r @ ''='' @ (if r_isTimeout r = Some True then ''true'' else ''false'')
     @ '':'' @ report_text (r_healthStatus r)"

fun addUnits :: "int \<Rightarrow> report_kind \<Rightarrow> ProbeResult list \<Rightarrow> (string \<times> string list) list \<Rightarrow> (string \<times> string list) list" where
  "addUnits hostId kind [] units = units"
| "addUnits hostId kind (r # reports) units =
     (let key = reportUnitKey hostId kind r;
          values = (case map_of units key of None \<Rightarrow> [] | Some vs \<Rightarrow> vs) in
      addUnits hostId kind reports (alist_set key (values @ [unit_state kind r]) units))"

definition signaturesFor :: "(string \<times> string list) list \<Rightarrow> (string \<times> string) list" where
  "signaturesFor units = map (\<lambda>(key, values). (key, js_join ''|'' (sort values))) units"

definition filterSelected :: "ProbeResult list \<Rightarrow> int \<Rightarrow> report_kind \<Rightarrow> string list \<Rightarrow> ProbeResult list" where
  "filterSelected reports hostId kind selected = filter (\<lambda>r. reportUnitKey hostId kind r \<in> set selected) reports"

definition units_of :: "AgentTcpingReportGateInput \<Rightarrow> (string \<times> string list) list" where
  "units_of i =
     (let hostId = report_integer (in_host i);
          u1 = (if in_gateRules i \<noteq> Some False then addUnits hostId RuleReport (in_results i) [] else []) in
      addUnits hostId ForwardGroupReport (in_forwardGroups i) (addUnits hostId TunnelReport (in_tunnels i) u1))"

definition healthUnits :: "AgentTcpingReportGateInput \<Rightarrow> string list" where
  "healthUnits i =
     (let hostId = report_integer (in_host i) in
      map (reportUnitKey hostId RuleReport) (filter (\<lambda>r. report_text (r_healthStatus r) \<noteq> []) (in_results i))
      @ map (reportUnitKey hostId ForwardGroupReport) (filter (\<lambda>r. report_text (r_healthStatus r) \<noteq> []) (in_forwardGroups i)))"

definition expire_states :: "int \<Rightarrow> int \<Rightarrow> (string \<times> GateState) list \<Rightarrow> (string \<times> GateState) list" where
  "expire_states ttl now states = filter (\<lambda>(key, st). \<not> now - gs_lastSeenAt st > ttl) states"

text \<open>The loop over the signatures: the states, the sequence counter, the selected keys, the transitions and the
  updates so far.\<close>

fun select_units ::
  "report_gate_config \<Rightarrow> bool \<Rightarrow> string list \<Rightarrow> int \<Rightarrow> (string \<times> string) list \<Rightarrow> report_gate
    \<Rightarrow> report_gate \<times> string list \<times> GateUpdate list" where
  "select_units cfg force health now [] g = (g, [], [])"
| "select_units cfg force health now ((key, sig) # sigs) g =
     (let previous = map_of (rg_states g) key;
          g1 = (case previous of None \<Rightarrow> g
                | Some st \<Rightarrow> g\<lparr>rg_states := alist_set key (st\<lparr>gs_lastSeenAt := now\<rparr>) (rg_states g)\<rparr>);
          transition = (case previous of None \<Rightarrow> True | Some st \<Rightarrow> gs_signature st \<noteq> sig);
          steady = (if key \<in> set health then min (steadyReportMs cfg) AGENT_HEALTH_STEADY_REPORT_MS else steadyReportMs cfg) in
      if \<not> force \<and> \<not> transition \<and> (case previous of None \<Rightarrow> False | Some st \<Rightarrow> now - gs_acceptedAt st < steady)
      then select_units cfg force health now sigs g1
      else
        let g2 = g1\<lparr>rg_sequence := rg_sequence g1 + 1\<rparr>;
            u = (key, \<lparr>gs_signature = sig, gs_acceptedAt = now, gs_lastSeenAt = now, gs_sequence = rg_sequence g2\<rparr>);
            (g3, transitions, updates) = select_units cfg force health now sigs g2 in
        (g3, (if transition \<or> force then key # transitions else transitions), u # updates))"

definition plan ::
  "report_gate_config \<Rightarrow> AgentTcpingReportGateInput \<Rightarrow> int \<Rightarrow> report_gate \<Rightarrow> AgentTcpingReportGatePlan \<times> report_gate" where
  "plan cfg i now g0 =
     (let hostId = report_integer (in_host i);
          signatures = signaturesFor (units_of i);
          g1 = g0\<lparr>rg_states := expire_states (stateTtlMs cfg) now (rg_states g0)\<rparr>;
          (g2, transitions, updates) = select_units cfg (in_force i) (healthUnits i) now signatures g1;
          selected = map fst updates;
          results = (if in_gateRules i = Some False then in_results i
                     else filterSelected (in_results i) hostId RuleReport selected);
          transitionRuleIds = js_distinct (filter (\<lambda>n. n > 0) (map (\<lambda>r. report_integer (r_ruleId r))
             (filter (\<lambda>r. reportUnitKey hostId RuleReport r \<in> set transitions) results))) in
      (\<lparr>pl_results = results, pl_tunnels = filterSelected (in_tunnels i) hostId TunnelReport selected,
        pl_forwardGroups = filterSelected (in_forwardGroups i) hostId ForwardGroupReport selected,
        pl_services = in_services i, pl_transitionRuleIds = transitionRuleIds, pl_updates = updates, pl_committed = False\<rparr>, g2))"

fun commit_updates :: "GateUpdate list \<Rightarrow> (string \<times> GateState) list \<Rightarrow> (string \<times> GateState) list" where
  "commit_updates [] states = states"
| "commit_updates ((key, u) # updates) states =
     (let current = map_of states key in
      commit_updates updates
        (if (case current of None \<Rightarrow> True | Some c \<Rightarrow> gs_sequence c < gs_sequence u) then alist_set key u states else states))"

definition commit :: "AgentTcpingReportGatePlan \<Rightarrow> report_gate \<Rightarrow> AgentTcpingReportGatePlan \<times> report_gate" where
  "commit p g = (if pl_committed p then (p, g)
     else (p\<lparr>pl_committed := True\<rparr>, g\<lparr>rg_states := commit_updates (pl_updates p) (rg_states g)\<rparr>))"

section \<open>The status order guard\<close>

definition MAX_FUTURE_SKEW_MS :: int where "MAX_FUTURE_SKEW_MS = 5 * 60 * 1000"
definition STATUS_ORDER_CACHE_MAX_SIZE :: int where "STATUS_ORDER_CACHE_MAX_SIZE = 20000"
definition STATUS_ORDER_CACHE_TTL_MS :: int where "STATUS_ORDER_CACHE_TTL_MS = 24 * 60 * 60 * 1000"

definition normalizeAgentStatusIssuedAt :: "jsval \<Rightarrow> int \<Rightarrow> int" where
  "normalizeAgentStatusIssuedAt v now =
     (case (if truthy v then to_number v else inum 0) of
        Fin r \<Rightarrow> if r \<le> 0 \<or> r > of_int (now + MAX_FUTURE_SKEW_MS) then 0 else \<lfloor>r\<rfloor>
      | _ \<Rightarrow> 0)"

record status_payload =
  sp_statusType :: "string option"
  sp_forwardType :: "string option"
  sp_ruleId :: "int option"
  sp_tunnelId :: "int option"

definition or_default :: "string option \<Rightarrow> string \<Rightarrow> string" where
  "or_default v d = (case v of None \<Rightarrow> d | Some s \<Rightarrow> if s = [] then d else s)"

definition agentStatusOrderingKey :: "int \<Rightarrow> status_payload \<Rightarrow> string" where
  "agentStatusOrderingKey hostId p =
     (let statusType = or_default (sp_statusType p)
            (if (case sp_ruleId p of None \<Rightarrow> False | Some n \<Rightarrow> n > 0) then ''rule'' else ''tunnel'');
          resourceId = (if statusType = ''runtime'' then or_default (sp_forwardType p) ''runtime''
            else if statusType = ''tunnel'' then show_int (case sp_tunnelId p of None \<Rightarrow> 0 | Some n \<Rightarrow> n)
            else show_int (case sp_ruleId p of None \<Rightarrow> 0 | Some n \<Rightarrow> n)) in
      ''agent-status:'' @ show_int hostId @ '':'' @ statusType @ '':'' @ resourceId)"

record latest_status =
  ls_issuedAt :: int
  ls_seenAt :: int

type_synonym order_guard = "(string \<times> latest_status) list"

definition prune_order :: "int \<Rightarrow> order_guard \<Rightarrow> order_guard" where
  "prune_order now latest = filter (\<lambda>(key, v). \<not> now - ls_seenAt v > STATUS_ORDER_CACHE_TTL_MS) latest"

definition expect :: "string \<Rightarrow> jsval \<Rightarrow> int \<Rightarrow> order_guard \<Rightarrow> order_guard" where
  "expect key v now latest =
     (let issuedAt = normalizeAgentStatusIssuedAt v now in
      if key = [] \<or> issuedAt \<le> 0 then latest
      else
        let known = (case map_of latest key of None \<Rightarrow> 0 | Some c \<Rightarrow> ls_issuedAt c);
            latest' = alist_set key \<lparr>ls_issuedAt = max issuedAt known, ls_seenAt = now\<rparr> latest in
        if int (length latest') > STATUS_ORDER_CACHE_MAX_SIZE then prune_order now latest' else latest')"

definition accept :: "string \<Rightarrow> jsval \<Rightarrow> int \<Rightarrow> order_guard \<Rightarrow> bool \<times> order_guard" where
  "accept key v now latest =
     (let issuedAt = normalizeAgentStatusIssuedAt v now in
      if key = [] \<or> issuedAt \<le> 0 then (True, latest)
      else if (case map_of latest key of None \<Rightarrow> False | Some c \<Rightarrow> issuedAt < ls_issuedAt c) then (False, latest)
      else (True, expect key (JNum (inum issuedAt)) now latest))"

definition clear_order :: "order_guard \<Rightarrow> order_guard" where
  "clear_order latest = []"

section \<open>Units and signatures\<close>

text \<open>The reference definition of a unit: all states reported under its key, whatever the kind.\<close>

definition gated_reports :: "AgentTcpingReportGateInput \<Rightarrow> (report_kind \<times> ProbeResult) list" where
  "gated_reports i = (if in_gateRules i \<noteq> Some False then map (Pair RuleReport) (in_results i) else [])
     @ map (Pair TunnelReport) (in_tunnels i) @ map (Pair ForwardGroupReport) (in_forwardGroups i)"

definition reported_states :: "AgentTcpingReportGateInput \<Rightarrow> string \<Rightarrow> string list" where
  "reported_states i key = map (\<lambda>(kind, r). unit_state kind r)
     (filter (\<lambda>(kind, r). reportUnitKey (report_integer (in_host i)) kind r = key) (gated_reports i))"

lemma addUnits_lookup:
  "map_of (addUnits h kind rs units) key =
     (let new = map (unit_state kind) (filter (\<lambda>r. reportUnitKey h kind r = key) rs) in
      if new = [] then map_of units key
      else Some ((case map_of units key of None \<Rightarrow> [] | Some vs \<Rightarrow> vs) @ new))"
  by (induction rs arbitrary: units) (auto simp: Let_def alist_simps split: option.splits)

lemma addUnits_distinct: "keys_distinct units \<Longrightarrow> keys_distinct (addUnits h kind rs units)"
  by (induction rs arbitrary: units) (simp_all add: Let_def keys_distinct_set)

lemma units_of_lookup:
  "map_of (units_of i) key = (if reported_states i key = [] then None else Some (reported_states i key))"
  by (auto simp: units_of_def Let_def addUnits_lookup reported_states_def gated_reports_def filter_map comp_def)

lemma units_of_distinct: "keys_distinct (units_of i)"
  by (simp add: units_of_def Let_def addUnits_distinct)

lemma signaturesFor_lookup:
  "map_of (signaturesFor units) key = map_option (\<lambda>vs. js_join ''|'' (sort vs)) (map_of units key)"
  by (induction units) (auto simp: signaturesFor_def)

lemma signaturesFor_distinct: "keys_distinct units \<Longrightarrow> keys_distinct (signaturesFor units)"
  by (simp add: keys_distinct_def signaturesFor_def case_prod_beta comp_def)

section \<open>Selection\<close>

definition steady_for :: "report_gate_config \<Rightarrow> string list \<Rightarrow> string \<Rightarrow> int" where
  "steady_for cfg health key =
     (if key \<in> set health then min (steadyReportMs cfg) AGENT_HEALTH_STEADY_REPORT_MS else steadyReportMs cfg)"

definition passes :: "report_gate_config \<Rightarrow> bool \<Rightarrow> string list \<Rightarrow> int \<Rightarrow> GateState option \<Rightarrow> string \<times> string \<Rightarrow> bool" where
  "passes cfg force health now previous ks \<longleftrightarrow> force \<or>
     (case previous of None \<Rightarrow> True
      | Some st \<Rightarrow> gs_signature st \<noteq> snd ks \<or> now - gs_acceptedAt st \<ge> steady_for cfg health (fst ks))"

definition touch :: "int \<Rightarrow> (string \<times> string) list \<Rightarrow> string \<Rightarrow> GateState \<Rightarrow> GateState" where
  "touch now sigs key st = (if key \<in> fst ` set sigs then st\<lparr>gs_lastSeenAt := now\<rparr> else st)"

lemma touch_Nil: "touch now [] k = id"
  by (simp add: touch_def fun_eq_iff)

lemma select_units_step:
  "select_units cfg force health now ((key, sig) # sigs) g =
     (let previous = map_of (rg_states g) key;
          g1 = (case previous of None \<Rightarrow> g
                | Some st \<Rightarrow> g\<lparr>rg_states := alist_set key (st\<lparr>gs_lastSeenAt := now\<rparr>) (rg_states g)\<rparr>);
          transition = (case previous of None \<Rightarrow> True | Some st \<Rightarrow> gs_signature st \<noteq> sig) in
      if \<not> passes cfg force health now previous (key, sig)
      then select_units cfg force health now sigs g1
      else
        let g2 = g1\<lparr>rg_sequence := rg_sequence g1 + 1\<rparr>;
            u = (key, \<lparr>gs_signature = sig, gs_acceptedAt = now, gs_lastSeenAt = now, gs_sequence = rg_sequence g2\<rparr>);
            (g3, transitions, updates) = select_units cfg force health now sigs g2 in
        (g3, (if transition \<or> force then key # transitions else transitions), u # updates))"
  by (cases "map_of (rg_states g) key") (auto simp: passes_def steady_for_def Let_def)

lemma select_units_spec:
  assumes "distinct (map fst sigs)" "select_units cfg force health now sigs g = (g', tr, ups)"
  shows "map fst ups = map fst (filter (\<lambda>ks. passes cfg force health now (map_of (rg_states g) (fst ks)) ks) sigs)
    \<and> map_of (rg_states g') = (\<lambda>k. map_option (touch now sigs k) (map_of (rg_states g) k))
    \<and> (keys_distinct (rg_states g) \<longrightarrow> keys_distinct (rg_states g'))
    \<and> rg_sequence g \<le> rg_sequence g'
    \<and> list_all (\<lambda>u. rg_sequence g < gs_sequence (snd u) \<and> gs_sequence (snd u) \<le> rg_sequence g') ups"
  using assms
proof (induction sigs arbitrary: g g' tr ups)
  case (Cons ks sigs)
  obtain key sig where ks: "ks = (key, sig)" by (cases ks)
  define g1 where "g1 = (case map_of (rg_states g) key of None \<Rightarrow> g
    | Some st \<Rightarrow> g\<lparr>rg_states := alist_set key (st\<lparr>gs_lastSeenAt := now\<rparr>) (rg_states g)\<rparr>)"
  have seq1: "rg_sequence g1 = rg_sequence g" by (simp add: g1_def split: option.splits)
  have kd1: "keys_distinct (rg_states g) \<longrightarrow> keys_distinct (rg_states g1)"
    by (simp add: g1_def keys_distinct_set split: option.splits)
  have m1: "map_of (rg_states g1) = (\<lambda>k. map_option (touch now [ks] k) (map_of (rg_states g) k))"
  proof
    fix k
    show "map_of (rg_states g1) k = map_option (touch now [ks] k) (map_of (rg_states g) k)"
      by (cases "map_of (rg_states g) k"; cases "k = key")
        (auto simp: g1_def touch_def ks alist_simps split: option.splits)
  qed
  have nk: "key \<notin> fst ` set sigs" and d: "distinct (map fst sigs)" using Cons.prems(1) by (auto simp: ks)
  have same: "map_of (rg_states g1) k = map_of (rg_states g) k" if "k \<in> fst ` set sigs" for k
  proof -
    have "k \<noteq> key" using that nk by auto
    then show ?thesis by (cases "map_of (rg_states g) k") (simp_all add: m1 touch_def ks)
  qed
  have flt: "filter (\<lambda>ks. passes cfg force health now (map_of (rg_states g1) (fst ks)) ks) sigs
      = filter (\<lambda>ks. passes cfg force health now (map_of (rg_states g) (fst ks)) ks) sigs"
    by (rule filter_cong) (simp_all add: same)
  have tt: "map_option (touch now sigs k) (map_option (touch now [ks] k) x) = map_option (touch now (ks # sigs) k) x" for k x
    by (cases x) (auto simp: touch_def)
  note step = Cons.prems(2) [unfolded ks select_units_step Let_def, folded g1_def]
  show ?case
  proof (cases "passes cfg force health now (map_of (rg_states g) key) (key, sig)")
    case False
    then have "select_units cfg force health now sigs g1 = (g', tr, ups)" using step by simp
    from Cons.IH [OF d this, unfolded flt, unfolded m1 tt seq1] show ?thesis
      using False kd1 by (simp add: ks)
  next
    case True
    define g2 where "g2 = g1\<lparr>rg_sequence := rg_sequence g1 + 1\<rparr>"
    obtain tr' ups' where r: "select_units cfg force health now sigs g2 = (g', tr', ups')"
      "ups = (key, \<lparr>gs_signature = sig, gs_acceptedAt = now, gs_lastSeenAt = now, gs_sequence = rg_sequence g2\<rparr>) # ups'"
      "tr = key # tr' \<or> tr = tr'"
      using step True unfolding g2_def by (auto split: prod.splits if_splits)
    have s2: "rg_states g2 = rg_states g1" "rg_sequence g2 = Suc (rg_sequence g)" by (simp_all add: g2_def seq1)
    note IH = Cons.IH [OF d r(1), unfolded s2, unfolded flt, unfolded m1 tt]
    show ?thesis
      using IH r(3) kd1 True s2(2)
      by (auto simp: ks r(2) list_all_iff)
  qed
qed (simp add: touch_Nil option.map_id)

text \<open>The invariant of the gate, and when a unit is due: reports are forced, the unit was not seen within the time to
  live, its states changed, or the steady interval is over.\<close>

definition report_gate_ok :: "report_gate \<Rightarrow> bool" where
  "report_gate_ok g \<longleftrightarrow> keys_distinct (rg_states g)
     \<and> (\<forall>k st. map_of (rg_states g) k = Some st \<longrightarrow> gs_sequence st \<le> rg_sequence g)"

definition due :: "report_gate_config \<Rightarrow> AgentTcpingReportGateInput \<Rightarrow> int \<Rightarrow> report_gate \<Rightarrow> string \<Rightarrow> bool" where
  "due cfg i now g key \<longleftrightarrow> in_force i \<or>
     (case map_of (rg_states g) key of
        None \<Rightarrow> True
      | Some st \<Rightarrow> now - gs_lastSeenAt st > stateTtlMs cfg
          \<or> gs_signature st \<noteq> js_join ''|'' (sort (reported_states i key))
          \<or> now - gs_acceptedAt st \<ge> steady_for cfg (healthUnits i) key)"

lemma expire_states_lookup:
  assumes "keys_distinct states"
  shows "map_of (expire_states ttl now states) key =
    (case map_of states key of None \<Rightarrow> None | Some st \<Rightarrow> if now - gs_lastSeenAt st > ttl then None else Some st)"
  using assms by (induction states) (auto simp: expire_states_def keys_distinct_def map_of_eq_None_iff split: option.splits)

lemma expire_states_distinct: "keys_distinct states \<Longrightarrow> keys_distinct (expire_states ttl now states)"
  by (simp add: expire_states_def keys_distinct_filter)

lemma plan_updates:
  assumes ok: "report_gate_ok g" and p: "plan cfg i now g = (p, g')"
  shows "set (map fst (pl_updates p)) = {key. reported_states i key \<noteq> [] \<and> due cfg i now g key}"
    "distinct (map fst (pl_updates p))"
    "map_of (rg_states g') = (\<lambda>k. map_option (touch now (signaturesFor (units_of i)) k)
       (map_of (expire_states (stateTtlMs cfg) now (rg_states g)) k))"
    "report_gate_ok g'" "rg_sequence g \<le> rg_sequence g'"
    "list_all (\<lambda>u. rg_sequence g < gs_sequence (snd u) \<and> gs_sequence (snd u) \<le> rg_sequence g') (pl_updates p)"
    "\<not> pl_committed p"
proof -
  let ?sigs = "signaturesFor (units_of i)"
  let ?g1 = "g\<lparr>rg_states := expire_states (stateTtlMs cfg) now (rg_states g)\<rparr>"
  obtain tr where sel: "select_units cfg (in_force i) (healthUnits i) now ?sigs ?g1 = (g', tr, pl_updates p)" "\<not> pl_committed p"
    using p by (auto simp: plan_def Let_def split: prod.splits)
  have kd: "keys_distinct (rg_states g)" and sq: "map_of (rg_states g) k = Some st \<Longrightarrow> gs_sequence st \<le> rg_sequence g" for k st
    using ok by (auto simp: report_gate_ok_def)
  have d: "distinct (map fst ?sigs)" and kds: "keys_distinct ?sigs"
    using signaturesFor_distinct [OF units_of_distinct, of i] by (simp_all add: keys_distinct_def)
  note S = select_units_spec [OF d sel(1), simplified]
  have mem: "ks \<in> set ?sigs \<longleftrightarrow> reported_states i (fst ks) \<noteq> [] \<and> snd ks = js_join ''|'' (sort (reported_states i (fst ks)))" for ks
    using keys_distinct_mem [OF kds, of "fst ks" "snd ks"] by (auto simp: signaturesFor_lookup units_of_lookup)
  have ps: "passes cfg (in_force i) (healthUnits i) now (map_of (expire_states (stateTtlMs cfg) now (rg_states g)) key)
      (key, js_join ''|'' (sort (reported_states i key))) \<longleftrightarrow> due cfg i now g key" for key
    by (auto simp: passes_def due_def expire_states_lookup [OF kd] split: option.splits)
  show "set (map fst (pl_updates p)) = {key. reported_states i key \<noteq> [] \<and> due cfg i now g key}"
  proof (rule set_eqI)
    fix key
    have mp: "map fst (pl_updates p) = map fst (filter (\<lambda>ks. passes cfg (in_force i) (healthUnits i) now
        (map_of (expire_states (stateTtlMs cfg) now (rg_states g)) (fst ks)) ks) ?sigs)"
      using S by simp
    have "key \<in> set (map fst (pl_updates p)) \<longleftrightarrow> (\<exists>ks. ks \<in> set ?sigs \<and> fst ks = key
        \<and> passes cfg (in_force i) (healthUnits i) now (map_of (expire_states (stateTtlMs cfg) now (rg_states g)) key) ks)"
      unfolding mp by (auto simp: image_iff)
    also have "\<dots> \<longleftrightarrow> reported_states i key \<noteq> [] \<and> due cfg i now g key"
      using ps [of key] by (auto simp: mem)
    finally show "key \<in> set (map fst (pl_updates p)) \<longleftrightarrow> key \<in> {key. reported_states i key \<noteq> [] \<and> due cfg i now g key}"
      by simp
  qed
  show "distinct (map fst (pl_updates p))" using S d by (simp add: distinct_map_filter)
  show m: "map_of (rg_states g') = (\<lambda>k. map_option (touch now ?sigs k) (map_of (expire_states (stateTtlMs cfg) now (rg_states g)) k))"
    using S by simp
  show le: "rg_sequence g \<le> rg_sequence g'" using S by simp
  have "gs_sequence st \<le> rg_sequence g'" if st: "map_of (rg_states g') k = Some st" for k st
  proof -
    obtain st0 where "map_of (rg_states g) k = Some st0" "gs_sequence st = gs_sequence st0"
      using st by (auto simp: m touch_def expire_states_lookup [OF kd] split: option.splits if_splits)
    then show ?thesis using sq le by fastforce
  qed
  then show "report_gate_ok g'" using S kd by (simp add: report_gate_ok_def expire_states_distinct)
  show "list_all (\<lambda>u. rg_sequence g < gs_sequence (snd u) \<and> gs_sequence (snd u) \<le> rg_sequence g') (pl_updates p)"
    using S by simp
  show "\<not> pl_committed p" by (rule sel(2))
qed

lemma plan_keeps_state:
  assumes ok: "report_gate_ok g" and p: "plan cfg i now g = (p, g')" and st': "map_of (rg_states g') k = Some st'"
  obtains st where "map_of (rg_states g) k = Some st" "\<not> now - gs_lastSeenAt st > stateTtlMs cfg"
    "gs_signature st' = gs_signature st" "gs_acceptedAt st' = gs_acceptedAt st" "gs_sequence st' = gs_sequence st"
proof -
  have kd: "keys_distinct (rg_states g)" using ok by (simp add: report_gate_ok_def)
  show thesis
    using st' that
    by (auto simp: plan_updates(3) [OF ok p] expire_states_lookup [OF kd] touch_def split: option.splits if_splits)
qed

lemma plan_reports:
  assumes "plan cfg i now g = (p, g')"
  shows "pl_results p = (if in_gateRules i = Some False then in_results i
      else filterSelected (in_results i) (report_integer (in_host i)) RuleReport (map fst (pl_updates p)))"
    "pl_tunnels p = filterSelected (in_tunnels i) (report_integer (in_host i)) TunnelReport (map fst (pl_updates p))"
    "pl_forwardGroups p = filterSelected (in_forwardGroups i) (report_integer (in_host i)) ForwardGroupReport (map fst (pl_updates p))"
    "pl_services p = in_services i"
  using assms by (auto simp: plan_def Let_def split: prod.splits)

lemma filterSelected_due:
  assumes "report_gate_ok g" "plan cfg i now g = (p, g')" "\<And>r. r \<in> set rs \<Longrightarrow> (kind, r) \<in> set (gated_reports i)"
  shows "filterSelected rs (report_integer (in_host i)) kind (map fst (pl_updates p))
    = filter (\<lambda>r. due cfg i now g (reportUnitKey (report_integer (in_host i)) kind r)) rs"
  unfolding filterSelected_def
proof (rule filter_cong [OF refl])
  fix r assume "r \<in> set rs"
  then have "reported_states i (reportUnitKey (report_integer (in_host i)) kind r) \<noteq> []"
    using assms(3) by (force simp: reported_states_def filter_empty_conv)
  then show "reportUnitKey (report_integer (in_host i)) kind r \<in> set (map fst (pl_updates p))
      \<longleftrightarrow> due cfg i now g (reportUnitKey (report_integer (in_host i)) kind r)"
    using plan_updates(1) [OF assms(1,2)] by blast
qed

section \<open>Properties\<close>

text \<open>The gate lets through exactly the reports whose unit is due, compared with what was last committed for it:
  the states of the whole unit are compared irrespective of their order, units with a health decision are reported at
  least every minute, rules pass untouched when they are not gated, and services always pass.\<close>

theorem report_gate_selects_due_units:
  assumes "report_gate_ok g" "plan cfg i now g = (p, g')"
  shows "pl_results p = (if in_gateRules i = Some False then in_results i
      else filter (\<lambda>r. due cfg i now g (reportUnitKey (report_integer (in_host i)) RuleReport r)) (in_results i))
    \<and> pl_tunnels p = filter (\<lambda>r. due cfg i now g (reportUnitKey (report_integer (in_host i)) TunnelReport r)) (in_tunnels i)
    \<and> pl_forwardGroups p = filter (\<lambda>r. due cfg i now g (reportUnitKey (report_integer (in_host i)) ForwardGroupReport r)) (in_forwardGroups i)
    \<and> pl_services p = in_services i"
  using filterSelected_due [OF assms, of "in_results i" RuleReport] filterSelected_due [OF assms, of "in_tunnels i" TunnelReport]
    filterSelected_due [OF assms, of "in_forwardGroups i" ForwardGroupReport]
  by (simp add: plan_reports [OF assms(2)] gated_reports_def)


definition report_gate_default :: report_gate_config where
  "report_gate_default = \<lparr>steadyReportMs = AGENT_TCPING_STEADY_REPORT_MS, stateTtlMs = AGENT_TCPING_GATE_STATE_TTL_MS\<rparr>"

definition sample_tunnel_report :: "int \<Rightarrow> bool \<Rightarrow> ProbeResult" where
  "sample_tunnel_report n timeout = \<lparr>r_ruleId = JUndefined, r_tunnelId = JNum (inum n), r_groupId = JUndefined, r_memberId = JUndefined,
     r_targetIp = None, r_targetPort = JUndefined, r_method = None, r_probeKey = Some ''a'', r_topologyKey = None, r_latencyMs = JUndefined,
     r_isTimeout = Some timeout, r_hopIndex = JUndefined, r_hopCount = JUndefined, r_seriesKey = None, r_healthStatus = None\<rparr>"

definition sample_input :: AgentTcpingReportGateInput where
  "sample_input = \<lparr>in_host = JNum (inum 3), in_force = False, in_gateRules = None, in_results = [],
     in_tunnels = [sample_tunnel_report 1 False, sample_tunnel_report 2 True], in_forwardGroups = [], in_services = []\<rparr>"

definition sample_report_gate :: report_gate where
  "sample_report_gate = \<lparr>rg_states = [(''3:tunnel:1:'', \<lparr>gs_signature = ''a=false:'', gs_acceptedAt = 1000, gs_lastSeenAt = 1000, gs_sequence = 1\<rparr>),
     (''3:tunnel:2:'', \<lparr>gs_signature = ''a=false:'', gs_acceptedAt = 1000, gs_lastSeenAt = 1000, gs_sequence = 2\<rparr>)], rg_sequence = 2\<rparr>"

lemma sample_report_gate_ok: "report_gate_ok sample_report_gate"
  by (auto simp: report_gate_ok_def sample_report_gate_def keys_distinct_def)

theorem report_gate_selects_due_units_witness:
  "pl_tunnels (fst (plan report_gate_default sample_input 61000 sample_report_gate)) = [sample_tunnel_report 2 True]
   \<and> pl_services (fst (plan report_gate_default sample_input 61000 sample_report_gate)) = in_services sample_input"
proof -
  obtain p g' where p: "plan report_gate_default sample_input 61000 sample_report_gate = (p, g')" by force
  have k: "due report_gate_default sample_input 61000 sample_report_gate
      (reportUnitKey (report_integer (in_host sample_input)) TunnelReport (sample_tunnel_report 2 True))"
    "\<not> due report_gate_default sample_input 61000 sample_report_gate
      (reportUnitKey (report_integer (in_host sample_input)) TunnelReport (sample_tunnel_report 1 False))"
    by code_simp+
  have t: "in_tunnels sample_input = [sample_tunnel_report 1 False, sample_tunnel_report 2 True]" by (simp add: sample_input_def)
  show ?thesis
    using report_gate_selects_due_units [OF sample_report_gate_ok p] k by (simp add: t p)
qed

text \<open>No report is lost between a plan and its commit: as long as a plan is not committed, the same reports pass
  the gate again at any later time.\<close>

lemma due_again:
  assumes ok: "report_gate_ok g" and p: "plan cfg i now g = (p, g')" and "now \<le> now'" "due cfg i now g key"
  shows "due cfg i now' g' key"
proof (cases "map_of (rg_states g') key")
  case (Some st')
  obtain st where "map_of (rg_states g) key = Some st" "\<not> now - gs_lastSeenAt st > stateTtlMs cfg"
    "gs_signature st' = gs_signature st" "gs_acceptedAt st' = gs_acceptedAt st"
    by (rule plan_keeps_state [OF ok p Some])
  then show ?thesis using assms(3,4) Some by (auto simp: due_def)
qed (simp add: due_def)

theorem uncommitted_reports_pass_again:
  assumes "report_gate_ok g" "plan cfg i now g = (p, g')" "now \<le> now'"
  shows "set (pl_results p) \<subseteq> set (pl_results (fst (plan cfg i now' g')))
    \<and> set (pl_tunnels p) \<subseteq> set (pl_tunnels (fst (plan cfg i now' g')))
    \<and> set (pl_forwardGroups p) \<subseteq> set (pl_forwardGroups (fst (plan cfg i now' g')))"
proof -
  obtain q g'' where q: "plan cfg i now' g' = (q, g'')" by force
  note ok' = plan_updates(4) [OF assms(1,2)]
  have sub: "set (filterSelected rs (report_integer (in_host i)) kind (map fst (pl_updates p)))
      \<subseteq> set (filterSelected rs (report_integer (in_host i)) kind (map fst (pl_updates q)))"
    if rs: "\<And>r. r \<in> set rs \<Longrightarrow> (kind, r) \<in> set (gated_reports i)" for rs kind
    using due_again [OF assms] filterSelected_due [OF assms(1,2) rs] filterSelected_due [OF ok' q rs] by auto
  show ?thesis
    unfolding q fst_conv plan_reports [OF assms(2)] plan_reports [OF q]
    using sub [of "in_results i" RuleReport] sub [of "in_tunnels i" TunnelReport] sub [of "in_forwardGroups i" ForwardGroupReport]
    by (simp add: gated_reports_def)
qed

theorem uncommitted_reports_pass_again_witness:
  "sample_tunnel_report 2 True \<in> set (pl_tunnels (fst (plan report_gate_default sample_input 62000
     (snd (plan report_gate_default sample_input 61000 sample_report_gate)))))"
proof -
  obtain p g' where p: "plan report_gate_default sample_input 61000 sample_report_gate = (p, g')" by force
  have "sample_tunnel_report 2 True \<in> set (pl_tunnels (fst (plan report_gate_default sample_input 61000 sample_report_gate)))"
    by code_simp
  then show ?thesis
    using uncommitted_reports_pass_again [OF sample_report_gate_ok p, of 62000] by (simp add: p subset_iff)
qed

subsection \<open>Commits\<close>

definition newer :: "GateState option \<Rightarrow> GateState \<Rightarrow> GateState option" where
  "newer c u = (case c of None \<Rightarrow> Some u | Some c \<Rightarrow> if gs_sequence c < gs_sequence u then Some u else Some c)"

lemma commit_updates_lookup:
  "distinct (map fst ups) \<Longrightarrow> map_of (commit_updates ups states) k =
     (case map_of ups k of None \<Rightarrow> map_of states k | Some u \<Rightarrow> newer (map_of states k) u)"
proof (induction ups states rule: commit_updates.induct)
  case (2 key u ups states)
  have IH: "map_of (commit_updates ((key, u) # ups) states) k =
      (case map_of ups k of None \<Rightarrow> map_of (if (case map_of states key of None \<Rightarrow> True | Some c \<Rightarrow> gs_sequence c < gs_sequence u)
         then alist_set key u states else states) k
       | Some v \<Rightarrow> newer (map_of (if (case map_of states key of None \<Rightarrow> True | Some c \<Rightarrow> gs_sequence c < gs_sequence u)
         then alist_set key u states else states) k) v)"
    using 2 by simp
  have "map_of ups k = None" if "k = key" using 2(2) that by (simp add: map_of_eq_None_iff)
  then show ?case
    unfolding IH by (cases "k = key") (auto simp: newer_def alist_simps split: option.splits)
qed simp

text \<open>C24: Commits may arrive in any order: committing the plans of two overlapping reports early or late leaves the same
  states, those of the plan made last, and a second commit of a plan changes nothing.\<close>

theorem commit_order_irrelevant:
  assumes "report_gate_ok g" "plan cfg i now g = (p, g1)" "plan cfg i' now' g1 = (p', g2)"
  shows "map_of (rg_states (snd (commit p' (snd (commit p g2))))) = map_of (rg_states (snd (commit p (snd (commit p' g2)))))
    \<and> (\<forall>key u. map_of (pl_updates p') key = Some u \<longrightarrow> map_of (rg_states (snd (commit p (snd (commit p' g2))))) key = Some u)
    \<and> snd (commit (fst (commit p g2)) (snd (commit p g2))) = snd (commit p g2)"
proof -
  note A = plan_updates [OF assms(1,2)]
  note B = plan_updates [OF A(4) assms(3)]
  have seq: "gs_sequence u < gs_sequence u'" if "map_of (pl_updates p) k = Some u" "map_of (pl_updates p') k = Some u'" for k u u'
    using A(6) B(6) map_of_SomeD [OF that(1)] map_of_SomeD [OF that(2)] by (fastforce simp: list_all_iff)
  have old: "gs_sequence st < gs_sequence u'" if st: "map_of (rg_states g2) k = Some st" and u': "map_of (pl_updates p') k = Some u'" for k st u'
  proof -
    obtain st0 where "map_of (rg_states g1) k = Some st0" "gs_sequence st = gs_sequence st0"
      by (rule plan_keeps_state [OF A(4) assms(3) st])
    then have "gs_sequence st \<le> rg_sequence g1" using A(4) by (auto simp: report_gate_ok_def)
    then show ?thesis using B(6) map_of_SomeD [OF u'] by (fastforce simp: list_all_iff)
  qed
  note L = commit_updates_lookup [OF A(2)] commit_updates_lookup [OF B(2)]
  have "map_of (commit_updates (pl_updates p') (commit_updates (pl_updates p) (rg_states g2))) k
      = map_of (commit_updates (pl_updates p) (commit_updates (pl_updates p') (rg_states g2))) k" for k
    using seq [of k] by (fastforce simp: L newer_def split: option.splits)
  moreover have "map_of (commit_updates (pl_updates p) (commit_updates (pl_updates p') (rg_states g2))) k = Some u"
    if "map_of (pl_updates p') k = Some u" for k u
    using seq [of k] old [of k] that by (fastforce simp: L newer_def split: option.splits)
  ultimately show ?thesis
    using A(7) B(7) by (simp add: commit_def fun_eq_iff)
qed

theorem commit_order_irrelevant_witness:
  "map_of (rg_states (snd (commit (fst (plan report_gate_default sample_input 61000 sample_report_gate))
     (snd (commit (fst (plan report_gate_default sample_input 62000 (snd (plan report_gate_default sample_input 61000 sample_report_gate))))
       (snd (plan report_gate_default sample_input 62000 (snd (plan report_gate_default sample_input 61000 sample_report_gate)))))))))
     ''3:tunnel:2:'' = Some \<lparr>gs_signature = ''a=true:'', gs_acceptedAt = 62000, gs_lastSeenAt = 62000, gs_sequence = 4\<rparr>"
proof -
  obtain p g1 where p: "plan report_gate_default sample_input 61000 sample_report_gate = (p, g1)" by force
  obtain p' g2 where p': "plan report_gate_default sample_input 62000 g1 = (p', g2)" by force
  have "map_of (pl_updates (fst (plan report_gate_default sample_input 62000 (snd (plan report_gate_default sample_input 61000 sample_report_gate)))))
      ''3:tunnel:2:'' = Some \<lparr>gs_signature = ''a=true:'', gs_acceptedAt = 62000, gs_lastSeenAt = 62000, gs_sequence = 4\<rparr>"
    by code_simp
  then have "map_of (pl_updates p') ''3:tunnel:2:'' = Some \<lparr>gs_signature = ''a=true:'', gs_acceptedAt = 62000, gs_lastSeenAt = 62000, gs_sequence = 4\<rparr>"
    by (simp add: p p')
  with commit_order_irrelevant [OF sample_report_gate_ok p p'] show ?thesis by (simp add: p p')
qed

subsection \<open>The order of status reports\<close>

text \<open>A run of the guard, with the accepted reports that carry a time.\<close>

datatype status_event = Accept string jsval int | Expect string jsval int

fun event_time :: "status_event \<Rightarrow> int" where
  "event_time (Accept key v now) = now"
| "event_time (Expect key v now) = now"

fun guard_run :: "status_event list \<Rightarrow> order_guard \<Rightarrow> (string \<times> int) list" where
  "guard_run [] latest = []"
| "guard_run (Accept key v now # es) latest =
     (case accept key v now latest of (ok, latest') \<Rightarrow>
        (if ok \<and> normalizeAgentStatusIssuedAt v now > 0 then [(key, normalizeAgentStatusIssuedAt v now)] else []) @ guard_run es latest')"
| "guard_run (Expect key v now # es) latest = guard_run es (expect key v now latest)"

definition knows :: "int \<Rightarrow> string \<Rightarrow> int \<Rightarrow> order_guard \<Rightarrow> bool" where
  "knows t0 key issued latest \<longleftrightarrow> (\<exists>c. map_of latest key = Some c \<and> issued \<le> ls_issuedAt c \<and> t0 \<le> ls_seenAt c)"

lemma normalize_issued_idem:
  assumes "normalizeAgentStatusIssuedAt v now > 0"
  shows "normalizeAgentStatusIssuedAt (JNum (inum (normalizeAgentStatusIssuedAt v now))) now = normalizeAgentStatusIssuedAt v now"
proof -
  obtain r :: rat where r: "r \<le> of_int (now + MAX_FUTURE_SKEW_MS)" "normalizeAgentStatusIssuedAt v now = \<lfloor>r\<rfloor>"
    using assms by (auto simp: normalizeAgentStatusIssuedAt_def not_less split: jsnum.splits if_splits)
  have "\<lfloor>r\<rfloor> \<le> now + MAX_FUTURE_SKEW_MS" using r(1) by (simp add: floor_le_iff)
  then show ?thesis using assms unfolding r(2) by (simp add: normalizeAgentStatusIssuedAt_def)
qed

lemma map_of_filter_keep: "map_of m k = Some v \<Longrightarrow> P (k, v) \<Longrightarrow> map_of (filter P m) k = Some v"
  by (induction m) (auto split: if_splits)

lemma prune_order_keep:
  "map_of latest k = Some c \<Longrightarrow> now - ls_seenAt c \<le> STATUS_ORDER_CACHE_TTL_MS \<Longrightarrow> map_of (prune_order now latest) k = Some c"
  unfolding prune_order_def by (rule map_of_filter_keep) simp_all

lemma expect_knows:
  assumes "t0 \<le> now" "now \<le> t0 + STATUS_ORDER_CACHE_TTL_MS"
  shows "knows t0 k issued latest \<Longrightarrow> knows t0 k issued (expect key v now latest)"
    "key \<noteq> [] \<Longrightarrow> normalizeAgentStatusIssuedAt v now > 0 \<Longrightarrow>
       knows t0 key (normalizeAgentStatusIssuedAt v now) (expect key v now latest)"
proof -
  let ?e = "\<lambda>known. \<lparr>ls_issuedAt = max (normalizeAgentStatusIssuedAt v now) known, ls_seenAt = now\<rparr>"
  let ?m = "\<lambda>known. alist_set key (?e known) latest"
  have keep: "knows t0 k issued m \<Longrightarrow> knows t0 k issued (prune_order now m)" for k issued m
    using prune_order_keep [of m k] assms(2) by (fastforce simp: knows_def)
  have new: "knows t0 key (normalizeAgentStatusIssuedAt v now) (?m known)" for known
    using assms(1) by (simp add: knows_def alist_simps)
  have old: "knows t0 k issued (?m (case map_of latest key of None \<Rightarrow> 0 | Some c \<Rightarrow> ls_issuedAt c))" if "knows t0 k issued latest"
    using that assms(1) by (auto simp: knows_def alist_simps)
  show "knows t0 k issued latest \<Longrightarrow> knows t0 k issued (expect key v now latest)"
    using keep old by (auto simp: expect_def Let_def)
  show "key \<noteq> [] \<Longrightarrow> normalizeAgentStatusIssuedAt v now > 0 \<Longrightarrow> knows t0 key (normalizeAgentStatusIssuedAt v now) (expect key v now latest)"
    using keep new by (auto simp: expect_def Let_def)
qed

lemma accept_knows:
  assumes t: "t0 \<le> now" "now \<le> t0 + STATUS_ORDER_CACHE_TTL_MS" and a: "accept key v now latest = (ok, latest')"
  shows "knows t0 k issued latest \<Longrightarrow> knows t0 k issued latest'"
    "ok \<Longrightarrow> key \<noteq> [] \<Longrightarrow> normalizeAgentStatusIssuedAt v now > 0 \<Longrightarrow> knows t0 key (normalizeAgentStatusIssuedAt v now) latest'"
    "ok \<Longrightarrow> key \<noteq> [] \<Longrightarrow> normalizeAgentStatusIssuedAt v now > 0 \<Longrightarrow> knows t0 key issued latest \<Longrightarrow> issued \<le> normalizeAgentStatusIssuedAt v now"
proof -
  let ?n = "normalizeAgentStatusIssuedAt v now"
  have c: "latest' = latest \<or> latest' = expect key (JNum (inum ?n)) now latest"
    and e: "ok \<Longrightarrow> key \<noteq> [] \<Longrightarrow> ?n > 0 \<Longrightarrow> latest' = expect key (JNum (inum ?n)) now latest"
    using a by (auto simp: accept_def Let_def split: if_splits)
  show "knows t0 k issued latest \<Longrightarrow> knows t0 k issued latest'"
    using c expect_knows(1) [OF t] by blast
  show "ok \<Longrightarrow> key \<noteq> [] \<Longrightarrow> ?n > 0 \<Longrightarrow> knows t0 key ?n latest'"
    using e expect_knows(2) [OF t, of key "JNum (inum ?n)" latest] normalize_issued_idem [of v now] by simp
  show "ok \<Longrightarrow> key \<noteq> [] \<Longrightarrow> ?n > 0 \<Longrightarrow> knows t0 key issued latest \<Longrightarrow> issued \<le> ?n"
    using a by (auto simp: accept_def Let_def knows_def split: if_splits)
qed

lemma guard_run_sorted:
  assumes "list_all (\<lambda>e. t0 \<le> event_time e \<and> event_time e \<le> t0 + STATUS_ORDER_CACHE_TTL_MS) es" "key \<noteq> []"
  shows "sorted (map snd (filter (\<lambda>e. fst e = key) (guard_run es latest)))
    \<and> (knows t0 key issued latest \<longrightarrow> (\<forall>i \<in> set (map snd (filter (\<lambda>e. fst e = key) (guard_run es latest))). issued \<le> i))"
  using assms(1)
proof (induction es latest arbitrary: issued rule: guard_run.induct)
  case (2 k v now es latest)
  obtain ok latest' where a: "accept k v now latest = (ok, latest')" by force
  have t: "t0 \<le> now" "now \<le> t0 + STATUS_ORDER_CACHE_TTL_MS" using 2(2) by simp_all
  let ?n = "normalizeAgentStatusIssuedAt v now"
  have IH: "sorted (map snd (filter (\<lambda>e. fst e = key) (guard_run es latest')))
      \<and> (knows t0 key issued latest' \<longrightarrow> (\<forall>i \<in> set (map snd (filter (\<lambda>e. fst e = key) (guard_run es latest'))). issued \<le> i))" for issued
    by (rule 2(1) [OF a [symmetric]]) (use 2(2) in simp)
  show ?case
  proof (cases "ok \<and> ?n > 0 \<and> k = key")
    case True
    have "knows t0 key ?n latest'" using accept_knows(2) [OF t a] True assms(2) by simp
    then have "\<forall>i \<in> set (map snd (filter (\<lambda>e. fst e = key) (guard_run es latest'))). ?n \<le> i" using IH by blast
    moreover have "knows t0 key issued latest \<longrightarrow> issued \<le> ?n" using accept_knows(3) [OF t a] True assms(2) by simp
    moreover have r: "guard_run (Accept k v now # es) latest = (key, ?n) # guard_run es latest'" using True a by auto
    ultimately show ?thesis unfolding r using IH [of ?n] by auto
  next
    case False
    then have "filter (\<lambda>e. fst e = key) (guard_run (Accept k v now # es) latest) = filter (\<lambda>e. fst e = key) (guard_run es latest')"
      by (auto simp: a)
    then show ?thesis using IH [of issued] accept_knows(1) [OF t a, of key issued] by simp
  qed
next
  case (3 k v now es latest)
  have t: "t0 \<le> now" "now \<le> t0 + STATUS_ORDER_CACHE_TTL_MS"
    and es: "list_all (\<lambda>e. t0 \<le> event_time e \<and> event_time e \<le> t0 + STATUS_ORDER_CACHE_TTL_MS) es"
    using 3(2) by simp_all
  show ?case
    unfolding guard_run.simps using 3(1) [OF es, of issued] expect_knows(1) [OF t, of key issued latest k v] by blast
qed simp

text \<open>Within the lifetime of a cache entry a status never goes backwards: whatever reports and expectations arrive,
  for whatever keys and however many, the times of the reports accepted under one key never decrease.\<close>

theorem accepted_status_monotone:
  assumes "list_all (\<lambda>e. t0 \<le> event_time e \<and> event_time e \<le> t0 + STATUS_ORDER_CACHE_TTL_MS) es" "key \<noteq> []"
  shows "sorted (map snd (filter (\<lambda>e. fst e = key) (guard_run es latest)))"
  using guard_run_sorted [OF assms] by blast

theorem accepted_status_monotone_witness:
  "guard_run [Accept ''k'' (JNum (inum 900)) 1000, Accept ''k'' (JNum (inum 800)) 1001, Accept ''k'' (JNum (inum 950)) 1002] [] = [(''k'', 900), (''k'', 950)]
   \<and> sorted (map snd (filter (\<lambda>e. fst e = ''k'') (guard_run [Accept ''k'' (JNum (inum 900)) 1000, Accept ''k'' (JNum (inum 800)) 1001,
       Accept ''k'' (JNum (inum 950)) 1002] [])))"
proof
  show "guard_run [Accept ''k'' (JNum (inum 900)) 1000, Accept ''k'' (JNum (inum 800)) 1001, Accept ''k'' (JNum (inum 950)) 1002] []
    = [(''k'', 900), (''k'', 950)]"
    by code_simp
  show "sorted (map snd (filter (\<lambda>e. fst e = ''k'') (guard_run [Accept ''k'' (JNum (inum 900)) 1000, Accept ''k'' (JNum (inum 800)) 1001,
      Accept ''k'' (JNum (inum 950)) 1002] [])))"
    by (rule accepted_status_monotone [of 1000]) (simp_all add: STATUS_ORDER_CACHE_TTL_MS_def)
qed

end
