(* ===== verification/TunnelRuntime.thy ===== *)
theory TunnelRuntime
  imports Prelude
begin

text \<open>
  The runtime state of tunnels and forward groups on the panel: which hosts of a tunnel reported a running runtime
  (server/tunnelRuntimeStatus.ts), which runtime a tunnel needs (server/tunnelRuntimePlan.ts), the strategies and
  endpoints of exit groups (shared/exitStrategy.ts, server/tunnelExitStrategy.ts), and the summary of a forward
  group (server/forwardGroupRuntimeStatus.ts). The two module-level maps are one record. Text columns are optional
  strings; flags and identifiers that the code receives as \<open>unknown\<close> are \<open>jsval\<close>.
\<close>

section \<open>Reported status of tunnel hosts\<close>

record tunnel_runtime =
  tunnelRuntimeStatus :: "(jsnum \<times> (jsnum \<times> bool) list) list"
  tunnelRuntimeGeneration :: "(jsnum \<times> int) list"

fun positive_num :: "jsnum \<Rightarrow> bool" where
  "positive_num (Fin r) = (r > 0)"
| "positive_num _ = False"

definition normalizeTunnelId :: "jsnum \<Rightarrow> jsnum" where
  "normalizeTunnelId tunnelId = (if positive_num tunnelId then tunnelId else Fin 0)"

definition getTunnelRuntimeGeneration :: "jsnum \<Rightarrow> tunnel_runtime \<Rightarrow> int" where
  "getTunnelRuntimeGeneration tunnelId s =
     (let tid = normalizeTunnelId tunnelId in
      if tid = Fin 0 then 0 else case map_of (tunnelRuntimeGeneration s) tid of None \<Rightarrow> 0 | Some n \<Rightarrow> n)"

definition next_generation :: "int \<Rightarrow> int" where
  "next_generation current = (if current \<ge> MAX_SAFE_INTEGER then 1 else current + 1)"

definition bumpTunnelRuntimeGeneration :: "jsnum \<Rightarrow> tunnel_runtime \<Rightarrow> int \<times> tunnel_runtime" where
  "bumpTunnelRuntimeGeneration tunnelId s =
     (let tid = normalizeTunnelId tunnelId in
      if tid = Fin 0 then (0, s)
      else
        let current = (case map_of (tunnelRuntimeGeneration s) tid of None \<Rightarrow> 0 | Some n \<Rightarrow> n);
            nxt = next_generation current in
        (nxt, s\<lparr>tunnelRuntimeGeneration := alist_set tid nxt (tunnelRuntimeGeneration s)\<rparr>))"

definition recordTunnelRuntimeHostStatus :: "jsnum \<Rightarrow> jsnum \<Rightarrow> bool \<Rightarrow> tunnel_runtime \<Rightarrow> tunnel_runtime" where
  "recordTunnelRuntimeHostStatus tunnelId hostId running s =
     (let tid = normalizeTunnelId tunnelId in
      if tid = Fin 0 \<or> \<not> positive_num hostId then s
      else
        let hosts = (case map_of (tunnelRuntimeStatus s) tid of None \<Rightarrow> [] | Some hs \<Rightarrow> hs) in
        s\<lparr>tunnelRuntimeStatus := alist_set tid (alist_set hostId running hosts) (tunnelRuntimeStatus s)\<rparr>)"

definition getTunnelRuntimeHostStatus :: "jsnum \<Rightarrow> jsnum \<Rightarrow> tunnel_runtime \<Rightarrow> bool option" where
  "getTunnelRuntimeHostStatus tunnelId hostId s =
     (case map_of (tunnelRuntimeStatus s) tunnelId of None \<Rightarrow> None | Some hosts \<Rightarrow> map_of hosts hostId)"

definition isTunnelRuntimeHostReady :: "jsnum \<Rightarrow> jsnum \<Rightarrow> tunnel_runtime \<Rightarrow> bool" where
  "isTunnelRuntimeHostReady tunnelId hostId s \<longleftrightarrow> getTunnelRuntimeHostStatus tunnelId hostId s = Some True"

definition getTunnelRuntimeReadyCount :: "jsnum \<Rightarrow> jsnum list \<Rightarrow> tunnel_runtime \<Rightarrow> nat" where
  "getTunnelRuntimeReadyCount tunnelId hostIds s =
     (case map_of (tunnelRuntimeStatus s) tunnelId of
        None \<Rightarrow> 0
      | Some hosts \<Rightarrow> length (filter (\<lambda>hostId. map_of hosts hostId = Some True) hostIds))"

record TunnelRuntimeTopology =
  entryHostIds :: "jsnum list option"
  hopHostIds :: "jsnum list option"
  primaryExitHostId :: "jsnum option"
  extraExitHostIds :: "jsnum list option"
  relayMode :: "string option"
  loadBalanceEnabled :: "bool option"
  loadBalanceStrategy :: "string option"

record TunnelTopologyStatus =
  ts_running :: bool
  ts_readyCount :: nat
  ts_hostCount :: nat
  ts_missingHostIds :: "jsnum list"

definition opt_list :: "'a list option \<Rightarrow> 'a list" where
  "opt_list xs = (case xs of None \<Rightarrow> [] | Some ys \<Rightarrow> ys)"

definition opt_text :: "string option \<Rightarrow> string \<Rightarrow> string" where
  "opt_text v d = (case v of None \<Rightarrow> d | Some s \<Rightarrow> if s = [] then d else s)"

definition unique_ids :: "jsnum list \<Rightarrow> jsnum list" where
  "unique_ids vs = js_distinct (filter positive_num vs)"

text \<open>The candidates of \<open>getTunnelRuntimeTopologyStatus\<close>; \<open>hops[0]\<close> of an empty list is undefined, which \<open>unique\<close> drops.\<close>

definition topo_hops :: "TunnelRuntimeTopology \<Rightarrow> jsnum list" where
  "topo_hops t = unique_ids (opt_list (hopHostIds t))"

definition entryCandidates :: "TunnelRuntimeTopology \<Rightarrow> jsnum list" where
  "entryCandidates t = unique_ids (if opt_list (entryHostIds t) \<noteq> [] then opt_list (entryHostIds t) else take 1 (topo_hops t))"

definition exitCandidates :: "TunnelRuntimeTopology \<Rightarrow> jsnum list" where
  "exitCandidates t =
     (let hops = topo_hops t;
          useExtraExits = (loadBalanceEnabled t = Some True \<and> js_lower (opt_text (loadBalanceStrategy t) []) \<noteq> ''none'');
          lastHop = (if hops = [] then Fin 0 else last hops);
          primary = (case primaryExitHostId t of None \<Rightarrow> lastHop | Some n \<Rightarrow> if n = NaN \<or> n = Fin 0 then lastHop else n) in
      unique_ids (primary # (if useExtraExits then opt_list (extraExitHostIds t) else [])))"

definition relayCandidates :: "TunnelRuntimeTopology \<Rightarrow> jsnum list" where
  "relayCandidates t = (let hops = topo_hops t in if length hops \<ge> 3 then butlast (tl hops) else [])"

definition getTunnelRuntimeTopologyStatus :: "jsnum \<Rightarrow> TunnelRuntimeTopology \<Rightarrow> tunnel_runtime \<Rightarrow> TunnelTopologyStatus" where
  "getTunnelRuntimeTopologyStatus tunnelId t s =
     (let ready = (\<lambda>hostId. isTunnelRuntimeHostReady tunnelId hostId s);
          hops = topo_hops t;
          entryReady = (length hops < 3 \<or> list_ex ready (entryCandidates t));
          exitReady = list_ex ready (exitCandidates t);
          relayReady = (relayCandidates t = []
            \<or> (if js_lower (opt_text (relayMode t) ''chain'') = ''failover'' then list_ex ready (relayCandidates t)
               else list_all ready (relayCandidates t)));
          observed = unique_ids (entryCandidates t @ relayCandidates t @ exitCandidates t) in
      \<lparr>ts_running = (entryReady \<and> relayReady \<and> exitReady), ts_readyCount = length (filter ready observed),
       ts_hostCount = length observed, ts_missingHostIds = filter (\<lambda>hostId. \<not> ready hostId) observed\<rparr>)"

fun clear_host_loop :: "jsnum \<Rightarrow> (jsnum \<times> (jsnum \<times> bool) list) list \<Rightarrow> tunnel_runtime \<Rightarrow> jsnum list \<times> tunnel_runtime" where
  "clear_host_loop hid [] s = ([], s)"
| "clear_host_loop hid ((tunnelId, hosts) # rest) s =
     (let deleted = (map_of hosts hid \<noteq> None);
          hosts' = alist_delete hid hosts;
          s1 = s\<lparr>tunnelRuntimeStatus := alist_set tunnelId hosts' (tunnelRuntimeStatus s)\<rparr>;
          s2 = (if deleted then snd (bumpTunnelRuntimeGeneration tunnelId s1) else s1);
          s3 = (if hosts' = [] then s2\<lparr>tunnelRuntimeStatus := alist_delete tunnelId (tunnelRuntimeStatus s2)\<rparr> else s2);
          (affected, s4) = clear_host_loop hid rest s3 in
      ((if deleted then tunnelId # affected else affected), s4))"

definition clearTunnelRuntimeStatusForHost :: "jsnum \<Rightarrow> tunnel_runtime \<Rightarrow> jsnum list \<times> tunnel_runtime" where
  "clearTunnelRuntimeStatusForHost hostId s =
     (if \<not> positive_num hostId then ([], s) else clear_host_loop hostId (tunnelRuntimeStatus s) s)"

definition clearTunnelRuntimeStatus :: "jsnum \<Rightarrow> tunnel_runtime \<Rightarrow> tunnel_runtime" where
  "clearTunnelRuntimeStatus tunnelId s =
     (let tid = normalizeTunnelId tunnelId in
      if tid = Fin 0 then s
      else snd (bumpTunnelRuntimeGeneration tid (s\<lparr>tunnelRuntimeStatus := alist_delete tid (tunnelRuntimeStatus s)\<rparr>)))"

section \<open>Exit strategies\<close>

datatype ExitGroupStrategy = NoStrategy | Fallback | RoundRobin | RandomExit | IpHash

definition EXIT_GROUP_STRATEGIES :: "(string \<times> ExitGroupStrategy) list" where
  "EXIT_GROUP_STRATEGIES = [(''none'', NoStrategy), (''fallback'', Fallback), (''round_robin'', RoundRobin),
     (''random'', RandomExit), (''ip_hash'', IpHash)]"

definition normalizeExitGroupStrategy :: "string option \<Rightarrow> ExitGroupStrategy" where
  "normalizeExitGroupStrategy v =
     (case map_of EXIT_GROUP_STRATEGIES (js_lower (js_trim (opt_text v []))) of None \<Rightarrow> RoundRobin | Some x \<Rightarrow> x)"

definition exitGroupUsesMultipleExits :: "string option \<Rightarrow> bool" where
  "exitGroupUsesMultipleExits v \<longleftrightarrow> normalizeExitGroupStrategy v \<noteq> NoStrategy"

record ExitGroupTunnelMember =
  em_hostId :: "int option"
  em_connectHost :: "string option"
  em_priority :: "int option"
  em_isEnabled :: jsval

record TunnelExitEndpointSnapshot =
  ee_hostId :: "int option"
  ee_listenPort :: "int option"
  ee_mimicPort :: "int option"
  ee_connectHost :: "string option"

record PlannedTunnelExitEndpoint =
  pe_hostId :: int
  pe_listenPort :: int
  pe_mimicPort :: int
  pe_connectHost :: "string option"

definition or_zero :: "int option \<Rightarrow> int" where
  "or_zero v = (case v of None \<Rightarrow> 0 | Some n \<Rightarrow> n)"

definition memberEnabled :: "jsval \<Rightarrow> bool" where
  "memberEnabled v \<longleftrightarrow> v \<noteq> JBool False \<and> v \<noteq> JNum (Fin 0)"

fun existing_by_host :: "TunnelExitEndpointSnapshot list \<Rightarrow> (int \<times> TunnelExitEndpointSnapshot) list \<Rightarrow> (int \<times> TunnelExitEndpointSnapshot) list" where
  "existing_by_host [] m = m"
| "existing_by_host (e # es) m =
     (let hostId = or_zero (ee_hostId e) in
      existing_by_host es (if hostId > 0 \<and> map_of m hostId = None then alist_set hostId e m else m))"

fun first_of_host :: "ExitGroupTunnelMember list \<Rightarrow> int list \<Rightarrow> ExitGroupTunnelMember list" where
  "first_of_host [] seen = []"
| "first_of_host (m # ms) seen =
     (let hostId = or_zero (em_hostId m) in
      if hostId \<le> 0 \<or> hostId \<in> set seen then first_of_host ms seen else m # first_of_host ms (hostId # seen))"

definition planned_endpoint :: "(int \<times> TunnelExitEndpointSnapshot) list \<Rightarrow> ExitGroupTunnelMember \<Rightarrow> PlannedTunnelExitEndpoint" where
  "planned_endpoint existing m =
     (let hostId = or_zero (em_hostId m); e = map_of existing hostId; host = js_trim (opt_text (em_connectHost m) []) in
      \<lparr>pe_hostId = hostId, pe_listenPort = (case e of None \<Rightarrow> 0 | Some e \<Rightarrow> or_zero (ee_listenPort e)),
       pe_mimicPort = (case e of None \<Rightarrow> 0 | Some e \<Rightarrow> or_zero (ee_mimicPort e)),
       pe_connectHost = (if host = [] then None else Some host)\<rparr>)"

definition planExitGroupTunnelEndpoints ::
  "ExitGroupTunnelMember list \<Rightarrow> TunnelExitEndpointSnapshot list \<Rightarrow> PlannedTunnelExitEndpoint list" where
  "planExitGroupTunnelEndpoints members existingEndpoints =
     map (planned_endpoint (existing_by_host existingEndpoints []))
       (first_of_host (filter (\<lambda>m. memberEnabled (em_isEnabled m)) (sort_key (\<lambda>m. or_zero (em_priority m)) members)) [])"

definition forwardXExitStrategy :: "string option \<Rightarrow> ExitGroupStrategy" where
  "forwardXExitStrategy v = (let s = normalizeExitGroupStrategy v in if s = NoStrategy then RoundRobin else s)"

definition shouldUseFastTunnelFailover :: "jsnum \<Rightarrow> bool \<Rightarrow> bool" where
  "shouldUseFastTunnelFailover exitCandidateCount relayFailover \<longleftrightarrow> relayFailover \<or> num_lt (Fin 1) exitCandidateCount"

record gost_selector =
  sel_strategy :: string
  sel_maxFails :: int
  sel_failTimeout :: string

definition gostExitSelector :: "string option \<Rightarrow> gost_selector" where
  "gostExitSelector v =
     (let s = normalizeExitGroupStrategy v in
      \<lparr>sel_strategy = (if s = Fallback then ''fifo'' else if s = RandomExit then ''random'' else if s = IpHash then ''hash'' else ''round''),
       sel_maxFails = 1, sel_failTimeout = (if s = Fallback then ''5s'' else ''15s'')\<rparr>)"

section \<open>Runtimes of a tunnel\<close>

datatype TunnelRuntimeFamily = ForwardxFamily | GostFamily | NginxFamily
datatype TunnelRuntimeForwardType = ForwardxTunnel | GostTunnel | NginxTunnelExit
datatype TunnelRuleRuntimeForwardType = ForwardxRule | GostRule | NginxTunnelRule

definition js_num_or_zero :: "jsval \<Rightarrow> jsnum" where
  "js_num_or_zero v = (if truthy v then to_number v else Fin 0)"

record local_runtime =
  lr_tunnelId :: jsval
  lr_port :: jsval
  lr_forwardType :: "string option"
  lr_transportVersion :: "string option"
  lr_ready :: jsval

definition isPassiveForwardXFirstHopMarker :: "jsval \<Rightarrow> jsval \<Rightarrow> jsval \<Rightarrow> local_runtime option \<Rightarrow> bool" where
  "isPassiveForwardXFirstHopMarker isFirstHop tunnelIdValue portValue local =
     (case local of
        None \<Rightarrow> False
      | Some l \<Rightarrow>
          let tunnelId = js_num_or_zero tunnelIdValue; port = js_num_or_zero portValue in
          truthy isFirstHop \<and> num_lt (Fin 0) tunnelId \<and> num_lt (Fin 0) port
          \<and> num_eq (js_num_or_zero (lr_tunnelId l)) tunnelId \<and> num_eq (js_num_or_zero (lr_port l)) port
          \<and> js_lower (js_trim (opt_text (lr_forwardType l) [])) = ''forwardx-tunnel''
          \<and> lr_ready l = JBool False
          \<and> js_lower (js_trim (opt_text (lr_transportVersion l) [])) = [])"

definition GOST_TUNNEL_MODES :: "string list" where
  "GOST_TUNNEL_MODES = [''tls'', ''wss'', ''tcp'', ''mtls'', ''mwss'', ''mtcp'']"

definition gostTunnelTransportType :: "string option \<Rightarrow> string" where
  "gostTunnelTransportType mode =
     (let normalized = js_lower (js_trim (opt_text mode [])) in
      if normalized \<in> set GOST_TUNNEL_MODES then normalized else ''tls'')"

definition tunnelRuntimeFamily :: "string option \<Rightarrow> TunnelRuntimeFamily option" where
  "tunnelRuntimeFamily m =
     (let mode = js_lower (js_trim (opt_text m [])) in
      if mode = ''forwardx'' then Some ForwardxFamily
      else if mode = ''nginx_stream'' then Some NginxFamily
      else if mode \<in> set GOST_TUNNEL_MODES then Some GostFamily
      else None)"

definition tunnelExitRuntimeForwardType :: "string option \<Rightarrow> TunnelRuntimeForwardType option" where
  "tunnelExitRuntimeForwardType m =
     (let family = tunnelRuntimeFamily m in
      if family = Some ForwardxFamily then Some ForwardxTunnel
      else if family = Some NginxFamily then Some NginxTunnelExit
      else if family = Some GostFamily then Some GostTunnel else None)"

definition tunnelHopRuntimeForwardType :: "string option \<Rightarrow> TunnelRuntimeForwardType option" where
  "tunnelHopRuntimeForwardType m =
     (let family = tunnelRuntimeFamily m in
      if family = Some NginxFamily then None
      else if family = Some ForwardxFamily then Some ForwardxTunnel
      else if family = Some GostFamily then Some GostTunnel else None)"

definition tunnelRuleRuntimeForwardType :: "string option \<Rightarrow> TunnelRuleRuntimeForwardType option" where
  "tunnelRuleRuntimeForwardType m =
     (let family = tunnelRuntimeFamily m in
      if family = Some ForwardxFamily then Some ForwardxRule
      else if family = Some NginxFamily then Some NginxTunnelRule
      else if family = Some GostFamily then Some GostRule else None)"

text \<open>A listen key is the text of a host identifier and a port, here the pair of them, since the text determines both;
  the name of a listener is given by the identifiers that its template contains.\<close>

datatype probe_name = TunnelProbe jsnum | ExitProbe jsnum jsnum

record GostTunnelProbeListener =
  pl_tunnelId :: jsnum
  pl_mode :: string
  pl_listenPort :: int
  pl_name :: probe_name

record GostTunnelProbeInput =
  gp_id :: jsval
  gp_mode :: "string option"
  gp_isEnabled :: jsval
  gp_protocolEnabled :: jsval
  gp_exitHostId :: jsval
  gp_listenPort :: jsval
  gp_loadBalanceEnabled :: jsval
  gp_loadBalanceStrategy :: "string option"

record GostTunnelProbeExitInput =
  gx_id :: jsval
  gx_seq :: jsval
  gx_hostId :: jsval
  gx_listenPort :: jsval
  gx_isEnabled :: jsval

definition flag_on :: "jsval \<Rightarrow> bool" where
  "flag_on v \<longleftrightarrow> v = JBool True \<or> num_eq (to_number v) (Fin 1)"

definition add_listener ::
  "jsnum \<Rightarrow> (jsnum \<times> int) list \<Rightarrow> GostTunnelProbeInput \<Rightarrow> jsnum \<Rightarrow> probe_name
    \<Rightarrow> GostTunnelProbeListener list \<times> (jsnum \<times> int) list \<Rightarrow> GostTunnelProbeListener list \<times> (jsnum \<times> int) list" where
  "add_listener hostId business tunnel listenPortNum name st =
     (case as_integer listenPortNum of
        None \<Rightarrow> st
      | Some listenPort \<Rightarrow>
          if \<not> positive_num (to_number (gp_id tunnel)) \<or> listenPort \<le> 0 \<or> listenPort > 65535 then st
          else if (hostId, listenPort) \<in> set business \<or> (hostId, listenPort) \<in> set (snd st) then st
          else (let mode = js_lower (js_trim (opt_text (gp_mode tunnel) ''tls'')) in
            (fst st @ [\<lparr>pl_tunnelId = to_number (gp_id tunnel), pl_mode = (if mode = [] then ''tls'' else mode),
                        pl_listenPort = listenPort, pl_name = name\<rparr>],
             snd st @ [(hostId, listenPort)])))"

definition exit_key :: "GostTunnelProbeExitInput \<Rightarrow> jsnum" where
  "exit_key e =
     (let a = to_number (gx_id e); b = to_number (gx_seq e) in
      if a \<noteq> NaN \<and> a \<noteq> Fin 0 then a else if b \<noteq> NaN \<and> b \<noteq> Fin 0 then b else to_number (gx_listenPort e))"

definition exit_node_active :: "jsnum \<Rightarrow> GostTunnelProbeExitInput \<Rightarrow> bool" where
  "exit_node_active hostId e \<longleftrightarrow>
     \<not> (gx_isEnabled e = JBool False \<or> num_eq (to_number (gx_isEnabled e)) (Fin 0) \<or> \<not> num_eq (to_number (gx_hostId e)) hostId)"

definition probe_tunnel ::
  "jsnum \<Rightarrow> (jsnum \<times> GostTunnelProbeExitInput list) list \<Rightarrow> (jsnum \<times> int) list \<Rightarrow> GostTunnelProbeInput
    \<Rightarrow> GostTunnelProbeListener list \<times> (jsnum \<times> int) list \<Rightarrow> GostTunnelProbeListener list \<times> (jsnum \<times> int) list" where
  "probe_tunnel hostId exitNodes business tunnel st =
     (let tunnelId = to_number (gp_id tunnel) in
      if \<not> flag_on (gp_isEnabled tunnel) \<or> \<not> flag_on (gp_protocolEnabled tunnel) \<or> tunnelRuntimeFamily (gp_mode tunnel) \<noteq> Some GostFamily then st
      else if \<not> positive_num tunnelId then st
      else
        let st1 = (if num_eq (to_number (gp_exitHostId tunnel)) hostId
                   then add_listener hostId business tunnel (to_number (gp_listenPort tunnel)) (TunnelProbe tunnelId) st else st) in
        if \<not> flag_on (gp_loadBalanceEnabled tunnel) then st1
        else if \<not> exitGroupUsesMultipleExits (gp_loadBalanceStrategy tunnel) then st1
        else foldl (\<lambda>st e. if \<not> exit_node_active hostId e then st
                     else add_listener hostId business tunnel (to_number (gx_listenPort e)) (ExitProbe tunnelId (exit_key e)) st)
               st1 (opt_list (map_of exitNodes tunnelId)))"

definition planGostTunnelProbeListeners ::
  "jsval \<Rightarrow> GostTunnelProbeInput list \<Rightarrow> (jsnum \<times> GostTunnelProbeExitInput list) list \<Rightarrow> (jsnum \<times> int) list \<Rightarrow> GostTunnelProbeListener list" where
  "planGostTunnelProbeListeners hostIdValue tunnels exitNodesByTunnelId businessListenKeys =
     (let hostId = to_number hostIdValue in
      if \<not> positive_num hostId then []
      else fst (foldl (\<lambda>st tunnel. probe_tunnel hostId exitNodesByTunnelId businessListenKeys tunnel st) ([], []) tunnels))"

record SharedRuntimeReconcileInput =
  configChanged :: bool
  serviceUnhealthy :: bool
  bootstrap :: bool
  desiredRelevant :: bool
  reportedHasWork :: bool

datatype ManualTunnelTestRefreshMode = NoRefresh | Coordinated | Endpoint

text \<open>\<open>Math.max(0, Math.floor(Number(v) || 0))\<close>\<close>

definition count_of :: "jsval \<Rightarrow> jsnum" where
  "count_of v = (case to_number v of Fin r \<Rightarrow> inum (max 0 \<lfloor>r\<rfloor>) | PosInf \<Rightarrow> PosInf | _ \<Rightarrow> Fin 0)"

definition planManualTunnelTestRefresh :: "jsval \<Rightarrow> jsval \<Rightarrow> jsval \<Rightarrow> jsval \<Rightarrow> ManualTunnelTestRefreshMode" where
  "planManualTunnelTestRefresh isRunning hopHostCount loadBalance extraExitCount =
     (if flag_on isRunning then NoRefresh
      else if num_le (Fin 3) (count_of hopHostCount) \<or> (flag_on loadBalance \<and> num_lt (Fin 0) (count_of extraExitCount))
      then Coordinated else Endpoint)"

definition shouldReconcileSharedRuntime :: "SharedRuntimeReconcileInput \<Rightarrow> bool" where
  "shouldReconcileSharedRuntime i \<longleftrightarrow> configChanged i \<or> serviceUnhealthy i \<or> bootstrap i \<or> desiredRelevant i \<or> reportedHasWork i"

definition shouldReconcileNginxRuntime :: "SharedRuntimeReconcileInput \<Rightarrow> bool" where
  "shouldReconcileNginxRuntime i = shouldReconcileSharedRuntime i"

definition shouldReconcileGostRuntime :: "SharedRuntimeReconcileInput \<Rightarrow> bool" where
  "shouldReconcileGostRuntime i = shouldReconcileSharedRuntime i"

section \<open>Forward groups\<close>

datatype ForwardGroupRuntimeStatus = DisabledStatus | IdleStatus | PendingStatus | DegradedStatus | RunningStatus

record ForwardGroupRuleRuntimeStatus =
  rs_templateRuleId :: int
  rs_status :: ForwardGroupRuntimeStatus
  rs_expectedRuleCount :: nat
  rs_configuredRuleCount :: nat
  rs_runningRuleCount :: nat
  rs_failedRuleCount :: nat

record ForwardGroupRuntimeSummary =
  fs_status :: ForwardGroupRuntimeStatus
  fs_expectedRuleCount :: nat
  fs_configuredRuleCount :: nat
  fs_runningRuleCount :: nat
  fs_failedRuleCount :: nat
  fs_ruleStatuses :: "ForwardGroupRuleRuntimeStatus list"

record group_row =
  gr_groupMode :: "string option"
  gr_isEnabled :: jsval
  gr_entryGroupId :: jsval

record member_row =
  mr_id :: jsval
  mr_hostId :: jsval
  mr_isEnabled :: jsval

record group_rule_row =
  ru_id :: jsval
  ru_hostId :: jsval
  ru_isEnabled :: jsval
  ru_isRunning :: jsval
  ru_pendingDelete :: jsval
  ru_forwardGroupRuleId :: jsval
  ru_forwardGroupMemberId :: jsval

datatype group_mode = PortMode | ChainMode | EntryMode | ExitMode | FailoverMode

fun enabled :: "jsval \<Rightarrow> bool" where
  "enabled (JBool b) = b"
| "enabled (JNum n) = (n = Fin 1)"
| "enabled (JStr s) = (s = ''1'' \<or> js_lower s = ''true'')"
| "enabled _ = False"

definition positiveId :: "jsval \<Rightarrow> int" where
  "positiveId v = (case as_integer (js_num_or_zero v) of None \<Rightarrow> 0 | Some n \<Rightarrow> if n > 0 then n else 0)"

definition normalizeGroupMode :: "group_row \<Rightarrow> group_mode" where
  "normalizeGroupMode g =
     (let mode = js_lower (opt_text (gr_groupMode g) []) in
      if mode = ''port'' then PortMode else if mode = ''chain'' then ChainMode
      else if mode = ''entry'' then EntryMode else if mode = ''exit'' then ExitMode else FailoverMode)"

definition member_identity :: "int \<Rightarrow> string" where
  "member_identity memberId = ''member:'' @ show_int memberId"

definition member_host_identity :: "int \<Rightarrow> int \<Rightarrow> string" where
  "member_host_identity memberId hostId = ''member:'' @ show_int memberId @ '':host:'' @ show_int hostId"

definition expectedChildIdentities :: "group_row \<Rightarrow> member_row list \<Rightarrow> member_row list \<Rightarrow> string list" where
  "expectedChildIdentities g members entryMembers =
     (let mode = normalizeGroupMode g;
          activeMembers = filter (\<lambda>m. enabled (mr_isEnabled m) \<and> positiveId (mr_id m) > 0) members in
      if mode = EntryMode \<or> mode = ExitMode then []
      else if mode \<noteq> ChainMode then js_distinct (map (\<lambda>m. member_identity (positiveId (mr_id m))) activeMembers)
      else
        let identities = map (\<lambda>m. member_host_identity (positiveId (mr_id m)) (positiveId (mr_hostId m))) activeMembers;
            firstMemberId = (case activeMembers of [] \<Rightarrow> 0 | m # _ \<Rightarrow> positiveId (mr_id m));
            entryHosts = filter (\<lambda>h. h > 0)
              (map (\<lambda>e. if enabled (mr_isEnabled e) then positiveId (mr_hostId e) else 0) entryMembers) in
        if positiveId (gr_entryGroupId g) > 0 \<and> firstMemberId > 0
        then js_distinct (identities @ map (member_host_identity firstMemberId) entryHosts)
        else js_distinct identities)"

definition childIdentity :: "group_row \<Rightarrow> group_rule_row \<Rightarrow> string" where
  "childIdentity g child =
     (let memberId = positiveId (ru_forwardGroupMemberId child) in
      if memberId \<le> 0 then []
      else if normalizeGroupMode g = ChainMode then member_host_identity memberId (positiveId (ru_hostId child))
      else member_identity memberId)"

definition statusForCounts :: "bool \<Rightarrow> nat \<Rightarrow> nat \<Rightarrow> ForwardGroupRuntimeStatus" where
  "statusForCounts disabled expected running =
     (if disabled then DisabledStatus else if expected \<le> 0 then PendingStatus else if running \<ge> expected then RunningStatus
      else if running > 0 then DegradedStatus else PendingStatus)"

definition rule_status ::
  "group_row \<Rightarrow> string list \<Rightarrow> group_rule_row list \<Rightarrow> group_rule_row \<Rightarrow> ForwardGroupRuleRuntimeStatus" where
  "rule_status g expectedIdentities children template =
     (let templateRuleId = positiveId (ru_id template);
          templateDisabled = (\<not> enabled (gr_isEnabled g) \<or> \<not> enabled (ru_isEnabled template));
          expected = (if templateDisabled then 0 else length expectedIdentities);
          matching = filter (\<lambda>r. positiveId (ru_forwardGroupRuleId r) = templateRuleId) children;
          configured = js_distinct (filter (\<lambda>i. i \<in> set expectedIdentities) (map (childIdentity g) matching));
          running = js_distinct (filter (\<lambda>i. i \<in> set expectedIdentities)
            (map (childIdentity g) (filter (\<lambda>r. enabled (ru_isEnabled r) \<and> enabled (ru_isRunning r)) matching))) in
      \<lparr>rs_templateRuleId = templateRuleId, rs_status = statusForCounts templateDisabled expected (length running),
       rs_expectedRuleCount = expected, rs_configuredRuleCount = length configured, rs_runningRuleCount = length running,
       rs_failedRuleCount = expected - length running\<rparr>)"

definition summarizeForwardGroupRuntime ::
  "group_row \<Rightarrow> member_row list \<Rightarrow> member_row list \<Rightarrow> group_rule_row list \<Rightarrow> group_rule_row list \<Rightarrow> ForwardGroupRuntimeSummary" where
  "summarizeForwardGroupRuntime g members entryMembers templateRules childRules =
     (let templates = filter (\<lambda>r. \<not> enabled (ru_pendingDelete r)) templateRules;
          children = filter (\<lambda>r. \<not> enabled (ru_pendingDelete r)) childRules;
          ruleStatuses = map (rule_status g (expectedChildIdentities g members entryMembers) children) templates;
          active = filter (\<lambda>s. rs_status s \<noteq> DisabledStatus) ruleStatuses;
          total = (\<lambda>st e c r f. \<lparr>fs_status = st, fs_expectedRuleCount = e, fs_configuredRuleCount = c,
            fs_runningRuleCount = r, fs_failedRuleCount = f, fs_ruleStatuses = ruleStatuses\<rparr>) in
      if \<not> enabled (gr_isEnabled g) then total DisabledStatus 0 (length children) 0 0
      else if active = [] then total IdleStatus 0 (length children) 0 0
      else
        let expected = sum_list (map rs_expectedRuleCount active);
            configured = sum_list (map rs_configuredRuleCount active);
            running = sum_list (map rs_runningRuleCount active);
            st = (if expected > 0 \<and> list_all (\<lambda>s. rs_status s = RunningStatus) active then RunningStatus
                  else if running > 0 then DegradedStatus else PendingStatus) in
        total st expected configured running (expected - running))"

section \<open>Facts about the reported status\<close>

lemma normalizeTunnelId_positive [simp]: "positive_num t \<Longrightarrow> normalizeTunnelId t = t" "positive_num t \<Longrightarrow> t \<noteq> Fin 0"
  by (auto simp: normalizeTunnelId_def)

lemma record_status:
  assumes "positive_num t" "positive_num h"
  shows "getTunnelRuntimeHostStatus t' h' (recordTunnelRuntimeHostStatus t h b s) =
    (if t' = t \<and> h' = h then Some b else getTunnelRuntimeHostStatus t' h' s)"
  using assms by (auto simp: getTunnelRuntimeHostStatus_def recordTunnelRuntimeHostStatus_def Let_def alist_simps split: option.splits)

lemma record_ready:
  "positive_num t \<Longrightarrow> positive_num h \<Longrightarrow> isTunnelRuntimeHostReady t' h' (recordTunnelRuntimeHostStatus t h b s) =
    (if t' = t \<and> h' = h then b else isTunnelRuntimeHostReady t' h' s)"
  by (simp add: isTunnelRuntimeHostReady_def record_status)

lemma set_unique_ids: "set (unique_ids vs) = {v \<in> set vs. positive_num v}"
  by (simp add: unique_ids_def)

lemma candidates_positive:
  "v \<in> set (entryCandidates t) \<Longrightarrow> positive_num v" "v \<in> set (exitCandidates t) \<Longrightarrow> positive_num v"
  "v \<in> set (relayCandidates t) \<Longrightarrow> positive_num v"
proof -
  show "v \<in> set (relayCandidates t) \<Longrightarrow> positive_num v"
    by (auto simp: relayCandidates_def Let_def topo_hops_def set_unique_ids split: if_splits dest!: in_set_butlastD list.set_sel(2) [rotated])
qed (simp_all add: entryCandidates_def exitCandidates_def set_unique_ids Let_def)

text \<open>Readiness only matters as a predicate, and \<open>running\<close> is monotone in it.\<close>

lemma topology_running:
  "ts_running (getTunnelRuntimeTopologyStatus tid t s) \<longleftrightarrow>
     (\<exists>h\<in>set (exitCandidates t). isTunnelRuntimeHostReady tid h s)
     \<and> (length (topo_hops t) < 3 \<or> (\<exists>h\<in>set (entryCandidates t). isTunnelRuntimeHostReady tid h s))
     \<and> (relayCandidates t = [] \<or> (if js_lower (opt_text (relayMode t) ''chain'') = ''failover''
           then \<exists>h\<in>set (relayCandidates t). isTunnelRuntimeHostReady tid h s
           else \<forall>h\<in>set (relayCandidates t). isTunnelRuntimeHostReady tid h s))"
  by (auto simp: getTunnelRuntimeTopologyStatus_def Let_def list_ex_iff list_all_iff)

lemma topology_monotone:
  assumes "\<And>h. isTunnelRuntimeHostReady tid h s \<Longrightarrow> isTunnelRuntimeHostReady tid h s'"
    "ts_running (getTunnelRuntimeTopologyStatus tid t s)"
  shows "ts_running (getTunnelRuntimeTopologyStatus tid t s')"
  using assms unfolding topology_running by (auto split: if_splits)

lemma topology_cong:
  assumes "\<And>h. isTunnelRuntimeHostReady tid h s = isTunnelRuntimeHostReady tid h s'"
  shows "getTunnelRuntimeTopologyStatus tid t s = getTunnelRuntimeTopologyStatus tid t s'"
  using assms by (simp add: getTunnelRuntimeTopologyStatus_def)

lemma topology_all_ready:
  assumes "ts_missingHostIds (getTunnelRuntimeTopologyStatus tid t s) = []" "exitCandidates t \<noteq> []" "entryCandidates t \<noteq> []"
  shows "ts_running (getTunnelRuntimeTopologyStatus tid t s)"
proof -
  have "isTunnelRuntimeHostReady tid h s" if "h \<in> set (entryCandidates t @ relayCandidates t @ exitCandidates t)" for h
  proof -
    have "h \<in> set (unique_ids (entryCandidates t @ relayCandidates t @ exitCandidates t))"
      using that candidates_positive [of h t] by (auto simp: set_unique_ids)
    then show ?thesis
      using assms(1) by (auto simp: getTunnelRuntimeTopologyStatus_def Let_def filter_empty_conv)
  qed
  moreover have "hd (exitCandidates t) \<in> set (exitCandidates t)" "hd (entryCandidates t) \<in> set (entryCandidates t)"
    "relayCandidates t = [] \<or> hd (relayCandidates t) \<in> set (relayCandidates t)"
    using assms(2,3) hd_in_set by blast+
  ultimately show ?thesis unfolding topology_running set_append by (metis UnI1 UnI2)
qed

lemma bump_generation:
  assumes "positive_num t" "bumpTunnelRuntimeGeneration t s = (n, s')"
  shows "n = next_generation (getTunnelRuntimeGeneration t s)" "getTunnelRuntimeGeneration t s' = n"
    "t' \<noteq> t \<Longrightarrow> getTunnelRuntimeGeneration t' s' = getTunnelRuntimeGeneration t' s"
    "tunnelRuntimeStatus s' = tunnelRuntimeStatus s"
  using assms by (auto simp: bumpTunnelRuntimeGeneration_def getTunnelRuntimeGeneration_def Let_def alist_simps normalizeTunnelId_def split: if_splits)

text \<open>A generation stays in the range of exact integers and a bump always changes it.\<close>

lemma next_generation_bounds:
  "0 \<le> n \<Longrightarrow> n \<le> MAX_SAFE_INTEGER \<Longrightarrow> 1 \<le> next_generation n \<and> next_generation n \<le> MAX_SAFE_INTEGER \<and> next_generation n \<noteq> n"
  by (auto simp: next_generation_def MAX_SAFE_INTEGER_def)

text \<open>Clearing a host removes it from every tunnel, clearing a tunnel removes all its hosts; the keys of the map stay distinct.\<close>

lemma bump_status [simp]: "tunnelRuntimeStatus (snd (bumpTunnelRuntimeGeneration t s)) = tunnelRuntimeStatus s"
  by (simp add: bumpTunnelRuntimeGeneration_def Let_def)

lemma clear_host_loop_Cons:
  "snd (clear_host_loop hid ((tunnelId, hosts) # rest) s) = snd (clear_host_loop hid rest s')
    \<and> map_of (tunnelRuntimeStatus s') = (map_of (tunnelRuntimeStatus s))(tunnelId :=
        if alist_delete hid hosts = [] then None else Some (alist_delete hid hosts))
    \<and> (keys_distinct (tunnelRuntimeStatus s) \<longrightarrow> keys_distinct (tunnelRuntimeStatus s'))"
  if "s' = (let hosts' = alist_delete hid hosts;
          s1 = s\<lparr>tunnelRuntimeStatus := alist_set tunnelId hosts' (tunnelRuntimeStatus s)\<rparr>;
          s2 = (if map_of hosts hid \<noteq> None then snd (bumpTunnelRuntimeGeneration tunnelId s1) else s1)
        in if hosts' = [] then s2\<lparr>tunnelRuntimeStatus := alist_delete tunnelId (tunnelRuntimeStatus s2)\<rparr> else s2)"
  using that by (auto simp: Let_def alist_simps fun_eq_iff split: prod.splits)

lemma clear_host_loop_keys:
  "keys_distinct (tunnelRuntimeStatus s) \<Longrightarrow> keys_distinct (tunnelRuntimeStatus (snd (clear_host_loop hid entries s)))"
proof (induction entries arbitrary: s)
  case (Cons e entries)
  then show ?case using clear_host_loop_Cons [OF refl, of hid "fst e" "snd e" entries s] by (cases e) (simp del: clear_host_loop.simps)
qed simp

lemma clear_host_loop_status:
  assumes "keys_distinct entries"
  shows "map_of (tunnelRuntimeStatus (snd (clear_host_loop hid entries s))) tid =
      (case map_of entries tid of None \<Rightarrow> map_of (tunnelRuntimeStatus s) tid
       | Some hosts \<Rightarrow> if alist_delete hid hosts = [] then None else Some (alist_delete hid hosts))"
  using assms
proof (induction entries arbitrary: s)
  case (Cons e entries)
  obtain t hosts where e: "e = (t, hosts)" by (cases e)
  have d: "keys_distinct entries" "t \<notin> fst ` set entries" using Cons.prems by (auto simp: keys_distinct_def e)
  then have "map_of entries t = None" by (simp add: map_of_eq_None_iff)
  then show ?case
    using clear_host_loop_Cons [OF refl, of hid t hosts entries s] Cons.IH [OF d(1)]
    by (auto simp del: clear_host_loop.simps simp: e split: option.splits)
qed simp

lemma clear_host_status:
  assumes "keys_distinct (tunnelRuntimeStatus s)" "positive_num h"
  shows "getTunnelRuntimeHostStatus tid x (snd (clearTunnelRuntimeStatusForHost h s)) =
      (if x = h then None else getTunnelRuntimeHostStatus tid x s)"
    and "keys_distinct (tunnelRuntimeStatus (snd (clearTunnelRuntimeStatusForHost h s)))"
proof -
  have e: "map_of hosts x = None" if "alist_delete h hosts = []" "x \<noteq> h" for hosts :: "(jsnum \<times> bool) list"
    using that map_of_alist_delete [of h hosts] by (metis fun_upd_other map_of.simps(1))
  show "getTunnelRuntimeHostStatus tid x (snd (clearTunnelRuntimeStatusForHost h s)) =
      (if x = h then None else getTunnelRuntimeHostStatus tid x s)"
    using assms e by (auto simp: getTunnelRuntimeHostStatus_def clearTunnelRuntimeStatusForHost_def clear_host_loop_status alist_simps
        split: option.splits)
qed (use assms in \<open>simp add: clearTunnelRuntimeStatusForHost_def clear_host_loop_keys\<close>)

lemma clear_tunnel_status:
  assumes "positive_num t"
  shows "getTunnelRuntimeHostStatus tid x (clearTunnelRuntimeStatus t s) = (if tid = t then None else getTunnelRuntimeHostStatus tid x s)"
    and "keys_distinct (tunnelRuntimeStatus s) \<Longrightarrow> keys_distinct (tunnelRuntimeStatus (clearTunnelRuntimeStatus t s))"
  using assms by (auto simp: getTunnelRuntimeHostStatus_def clearTunnelRuntimeStatus_def Let_def alist_simps)

text \<open>What happens to the map: a host reports, a host is cleared in every tunnel, a tunnel is cleared. A host counts as up
  when the newest event about it is a report that its runtime runs (the newest event is the first of the list).\<close>

datatype runtime_event = HostReport jsnum jsnum bool | HostCleared jsnum | TunnelCleared jsnum

fun runtime_apply :: "runtime_event \<Rightarrow> tunnel_runtime \<Rightarrow> tunnel_runtime" where
  "runtime_apply (HostReport tid h b) s = recordTunnelRuntimeHostStatus tid h b s"
| "runtime_apply (HostCleared h) s = snd (clearTunnelRuntimeStatusForHost h s)"
| "runtime_apply (TunnelCleared tid) s = clearTunnelRuntimeStatus tid s"

fun reported_up :: "runtime_event list \<Rightarrow> jsnum \<Rightarrow> jsnum \<Rightarrow> bool" where
  "reported_up [] tid x = False"
| "reported_up (HostReport t h b # evs) tid x = (if t = tid \<and> h = x then b else reported_up evs tid x)"
| "reported_up (HostCleared h # evs) tid x = (h \<noteq> x \<and> reported_up evs tid x)"
| "reported_up (TunnelCleared t # evs) tid x = (t \<noteq> tid \<and> reported_up evs tid x)"

definition no_runtime :: tunnel_runtime where
  "no_runtime = \<lparr>tunnelRuntimeStatus = [], tunnelRuntimeGeneration = []\<rparr>"

lemma record_keys: "keys_distinct (tunnelRuntimeStatus s) \<Longrightarrow> keys_distinct (tunnelRuntimeStatus (recordTunnelRuntimeHostStatus t h b s))"
  by (simp add: recordTunnelRuntimeHostStatus_def Let_def alist_simps)

lemma rejected_events:
  "\<not> positive_num t \<or> \<not> positive_num h \<Longrightarrow> recordTunnelRuntimeHostStatus t h b s = s"
  "\<not> positive_num h \<Longrightarrow> snd (clearTunnelRuntimeStatusForHost h s) = s"
  "\<not> positive_num t \<Longrightarrow> clearTunnelRuntimeStatus t s = s"
  by (auto simp: recordTunnelRuntimeHostStatus_def clearTunnelRuntimeStatusForHost_def clearTunnelRuntimeStatus_def
      normalizeTunnelId_def)

lemma ready_iff_reported_up:
  assumes "positive_num tid" "positive_num x"
  shows "keys_distinct (tunnelRuntimeStatus (foldr runtime_apply evs no_runtime))
    \<and> (isTunnelRuntimeHostReady tid x (foldr runtime_apply evs no_runtime) \<longleftrightarrow> reported_up evs tid x)"
proof (induction evs)
  case Nil
  then show ?case by (simp add: no_runtime_def isTunnelRuntimeHostReady_def getTunnelRuntimeHostStatus_def keys_distinct_def)
next
  case (Cons ev evs)
  define s where "s = foldr runtime_apply evs no_runtime"
  note IH = Cons.IH [folded s_def]
  show ?case
  proof (cases ev)
    case (HostReport t h b)
    then show ?thesis
      using IH assms record_ready [of t h tid x b s] rejected_events(1) [of t h b s]
      by (cases "positive_num t \<and> positive_num h") (auto simp: s_def [symmetric] record_keys)
  next
    case (HostCleared h)
    then show ?thesis
      using IH assms clear_host_status(1) [of s h tid x] clear_host_status(2) [of s h] rejected_events(2) [of h s]
      by (cases "positive_num h") (auto simp: s_def [symmetric] isTunnelRuntimeHostReady_def)
  next
    case (TunnelCleared t)
    then show ?thesis
      using IH assms clear_tunnel_status(1) [of t tid x s] clear_tunnel_status(2) [of t s] rejected_events(3) [of t s]
      by (cases "positive_num t") (auto simp: s_def [symmetric] isTunnelRuntimeHostReady_def)
  qed
qed

text \<open>A path of three or more hops has relays.\<close>

lemma relays_nonempty: "relayCandidates t = [] \<longleftrightarrow> length (topo_hops t) < 3"
proof -
  have "length (butlast (tl (topo_hops t))) = length (topo_hops t) - 2" by simp
  then have "butlast (tl (topo_hops t)) = [] \<longleftrightarrow> length (topo_hops t) - 2 = 0" by (simp only: flip: length_0_conv)
  then show ?thesis by (auto simp: relayCandidates_def Let_def)
qed

definition failover_relays :: "TunnelRuntimeTopology \<Rightarrow> bool" where
  "failover_relays t \<longleftrightarrow> js_lower (opt_text (relayMode t) ''chain'') = ''failover''"

lemma running_iff_reported_up:
  assumes "positive_num tid"
  shows "ts_running (getTunnelRuntimeTopologyStatus tid t (foldr runtime_apply evs no_runtime)) \<longleftrightarrow>
     list_ex (reported_up evs tid) (exitCandidates t)
     \<and> (length (topo_hops t) < 3 \<or> list_ex (reported_up evs tid) (entryCandidates t)
          \<and> (if failover_relays t then list_ex (reported_up evs tid) (relayCandidates t)
             else list_all (reported_up evs tid) (relayCandidates t)))"
proof -
  have up: "isTunnelRuntimeHostReady tid x (foldr runtime_apply evs no_runtime) = reported_up evs tid x" if "positive_num x" for x
    using ready_iff_reported_up [OF assms that] by simp
  note cong = bex_cong [OF refl up [OF candidates_positive(1)]] bex_cong [OF refl up [OF candidates_positive(2)]]
    bex_cong [OF refl up [OF candidates_positive(3)]] ball_cong [OF refl up [OF candidates_positive(3)]]
  show ?thesis
    unfolding topology_running relays_nonempty failover_relays_def list_ex_iff list_all_iff by (auto simp: cong split: if_splits)
qed

lemma missing_iff_not_up:
  assumes "positive_num tid"
  shows "set (ts_missingHostIds (getTunnelRuntimeTopologyStatus tid t (foldr runtime_apply evs no_runtime))) =
    {x \<in> set (entryCandidates t) \<union> set (relayCandidates t) \<union> set (exitCandidates t). \<not> reported_up evs tid x}"
  using ready_iff_reported_up [OF assms] candidates_positive
  by (auto simp: getTunnelRuntimeTopologyStatus_def Let_def set_unique_ids)

section \<open>Facts about probe listeners\<close>

text \<open>The reference: the ports on which a host is an exit of an enabled GOST tunnel.\<close>

definition probe_ports :: "jsnum \<Rightarrow> (jsnum \<times> GostTunnelProbeExitInput list) list \<Rightarrow> GostTunnelProbeInput \<Rightarrow> jsnum list" where
  "probe_ports hostId exitNodes tunnel =
     (if \<not> flag_on (gp_isEnabled tunnel) \<or> \<not> flag_on (gp_protocolEnabled tunnel)
         \<or> tunnelRuntimeFamily (gp_mode tunnel) \<noteq> Some GostFamily \<or> \<not> positive_num (to_number (gp_id tunnel)) then []
      else (if num_eq (to_number (gp_exitHostId tunnel)) hostId then [to_number (gp_listenPort tunnel)] else [])
        @ (if flag_on (gp_loadBalanceEnabled tunnel) \<and> exitGroupUsesMultipleExits (gp_loadBalanceStrategy tunnel)
           then map (\<lambda>e. to_number (gx_listenPort e))
             (filter (exit_node_active hostId) (opt_list (map_of exitNodes (to_number (gp_id tunnel)))))
           else []))"

definition free_port :: "jsnum \<Rightarrow> (jsnum \<times> int) list \<Rightarrow> int \<Rightarrow> bool" where
  "free_port hostId business p \<longleftrightarrow> 1 \<le> p \<and> p \<le> 65535 \<and> (hostId, p) \<notin> set business"

definition free_ports :: "jsnum \<Rightarrow> (jsnum \<times> int) list \<Rightarrow> jsnum set \<Rightarrow> int set" where
  "free_ports hostId business ns = {p. inum p \<in> ns \<and> free_port hostId business p}"

definition listeners_ok :: "jsnum \<Rightarrow> int set \<Rightarrow> GostTunnelProbeListener list \<times> (jsnum \<times> int) list \<Rightarrow> bool" where
  "listeners_ok hostId P st \<longleftrightarrow> snd st = map (\<lambda>l. (hostId, pl_listenPort l)) (fst st)
     \<and> distinct (map pl_listenPort (fst st)) \<and> set (map pl_listenPort (fst st)) = P"

lemma add_listener_ok:
  assumes "listeners_ok hostId P st" "positive_num (to_number (gp_id tunnel))"
  shows "listeners_ok hostId (P \<union> free_ports hostId business {n}) (add_listener hostId business tunnel n name st)"
proof (cases "as_integer n")
  case None
  then have "inum p \<noteq> n" for p by auto
  then show ?thesis using assms(1) None by (simp add: add_listener_def free_ports_def)
next
  case (Some p)
  then have n: "n = inum p" by (simp add: as_integer_Some)
  have mem: "(hostId, p) \<in> set (snd st) \<longleftrightarrow> p \<in> P" using assms(1) by (auto simp: listeners_ok_def)
  have fp: "free_ports hostId business {n} = (if free_port hostId business p then {p} else {})"
    by (auto simp: free_ports_def n)
  show ?thesis
  proof (cases "free_port hostId business p \<and> p \<notin> P")
    case True
    then show ?thesis
      using assms mem by (auto simp: add_listener_def Some fp listeners_ok_def free_port_def Let_def)
  next
    case False
    then have "add_listener hostId business tunnel n name st = st"
      using mem assms(2) by (auto simp: add_listener_def Some free_port_def)
    then show ?thesis using assms(1) False by (auto simp: fp insert_absorb)
  qed
qed

lemma free_ports_union: "free_ports h b (A \<union> B) = free_ports h b A \<union> free_ports h b B" "free_ports h b {} = {}"
  by (auto simp: free_ports_def)

lemma exit_fold_ok:
  assumes "listeners_ok hostId P st" "positive_num (to_number (gp_id tunnel))"
  shows "listeners_ok hostId (P \<union> free_ports hostId business (set (map (\<lambda>e. to_number (gx_listenPort e)) (filter (exit_node_active hostId) es))))
    (foldl (\<lambda>st e. if \<not> exit_node_active hostId e then st
       else add_listener hostId business tunnel (to_number (gx_listenPort e)) (name e) st) st es)"
  using assms(1)
proof (induction es arbitrary: P st)
  case (Cons e es)
  show ?case
  proof (cases "exit_node_active hostId e")
    case True
    let ?S = "(\<lambda>e. to_number (gx_listenPort e)) ` {e \<in> set es. exit_node_active hostId e}"
    have "free_ports hostId business (insert (to_number (gx_listenPort e)) ?S)
        = free_ports hostId business {to_number (gx_listenPort e)} \<union> free_ports hostId business ?S"
      using free_ports_union(1) [of hostId business "{to_number (gx_listenPort e)}" ?S] by simp
    with Cons.IH [OF add_listener_ok [OF Cons.prems assms(2), of business "to_number (gx_listenPort e)" "name e"]] show ?thesis
      using True by (simp add: Un_assoc)
  next
    case False
    then show ?thesis using Cons.IH [OF Cons.prems] by simp
  qed
qed (simp add: free_ports_union)

lemma probe_tunnel_ok:
  assumes "listeners_ok hostId P st"
  shows "listeners_ok hostId (P \<union> free_ports hostId business (set (probe_ports hostId exitNodes tunnel)))
    (probe_tunnel hostId exitNodes business tunnel st)"
proof (cases "\<not> flag_on (gp_isEnabled tunnel) \<or> \<not> flag_on (gp_protocolEnabled tunnel)
    \<or> tunnelRuntimeFamily (gp_mode tunnel) \<noteq> Some GostFamily \<or> \<not> positive_num (to_number (gp_id tunnel))")
  case True
  then show ?thesis using assms by (auto simp: probe_tunnel_def probe_ports_def free_ports_union Let_def)
next
  case False
  let ?t = "to_number (gp_id tunnel)"
  let ?one = "if num_eq (to_number (gp_exitHostId tunnel)) hostId then [to_number (gp_listenPort tunnel)] else []"
  define st1 where "st1 = (if num_eq (to_number (gp_exitHostId tunnel)) hostId
    then add_listener hostId business tunnel (to_number (gp_listenPort tunnel)) (TunnelProbe ?t) st else st)"
  have pos: "positive_num ?t" using False by simp
  have ok1: "listeners_ok hostId (P \<union> free_ports hostId business (set ?one)) st1"
    using add_listener_ok [OF assms pos] assms by (simp add: st1_def free_ports_union)
  show ?thesis
    using ok1 exit_fold_ok [OF ok1 pos, of business "opt_list (map_of exitNodes ?t)" "\<lambda>e. ExitProbe ?t (exit_key e)"] False
    by (auto simp: probe_tunnel_def probe_ports_def Let_def st1_def [symmetric] free_ports_union Un_assoc)
qed

lemma probe_fold_ok:
  "listeners_ok hostId P st \<Longrightarrow>
   listeners_ok hostId (P \<union> free_ports hostId business (\<Union>t\<in>set tunnels. set (probe_ports hostId exitNodes t)))
     (foldl (\<lambda>st t. probe_tunnel hostId exitNodes business t st) st tunnels)"
proof (induction tunnels arbitrary: P st)
  case (Cons t tunnels)
  from Cons.IH [OF probe_tunnel_ok [OF Cons.prems, of business exitNodes t]] show ?case
    by (simp add: free_ports_union Un_assoc)
qed (simp add: free_ports_union)

section \<open>Facts about exit endpoints\<close>

text \<open>An exit group is planned in the order of its priorities, one endpoint per host.\<close>

lemma first_of_host_set:
  "(\<lambda>m. or_zero (em_hostId m)) ` set (first_of_host ms seen) = {h. h > 0 \<and> h \<notin> set seen \<and> h \<in> (\<lambda>m. or_zero (em_hostId m)) ` set ms}"
  by (induction ms seen rule: first_of_host.induct) (auto simp: Let_def)

lemma first_of_host_distinct:
  "distinct (map (\<lambda>m. or_zero (em_hostId m)) (first_of_host ms seen))"
proof (induction ms seen rule: first_of_host.induct)
  case (2 m ms seen)
  show ?case
    using 2 first_of_host_set [of ms "or_zero (em_hostId m) # seen"] by (auto simp: Let_def)
qed simp

lemma existing_by_host_lookup:
  "map_of (existing_by_host es m) h = (case map_of m h of Some e \<Rightarrow> Some e
     | None \<Rightarrow> if h > 0 then find (\<lambda>e. or_zero (ee_hostId e) = h) es else None)"
  by (induction es m rule: existing_by_host.induct) (auto simp: Let_def alist_simps split: option.splits)

lemma planExitGroup_hosts:
  "distinct (map pe_hostId (planExitGroupTunnelEndpoints members existing))"
  "set (map pe_hostId (planExitGroupTunnelEndpoints members existing)) =
     {h. h > 0 \<and> (\<exists>m\<in>set members. memberEnabled (em_isEnabled m) \<and> or_zero (em_hostId m) = h)}"
proof -
  let ?ms = "filter (\<lambda>m. memberEnabled (em_isEnabled m)) (sort_key (\<lambda>m. or_zero (em_priority m)) members)"
  have eq: "map pe_hostId (planExitGroupTunnelEndpoints members existing) = map (\<lambda>m. or_zero (em_hostId m)) (first_of_host ?ms [])"
    by (simp add: planExitGroupTunnelEndpoints_def planned_endpoint_def comp_def Let_def)
  show "distinct (map pe_hostId (planExitGroupTunnelEndpoints members existing))"
    unfolding eq by (rule first_of_host_distinct)
  show "set (map pe_hostId (planExitGroupTunnelEndpoints members existing)) =
      {h. h > 0 \<and> (\<exists>m\<in>set members. memberEnabled (em_isEnabled m) \<and> or_zero (em_hostId m) = h)}"
    unfolding eq using first_of_host_set [of ?ms "[]"] by auto
qed

lemma planExitGroup_keeps_ports:
  assumes "e \<in> set (planExitGroupTunnelEndpoints members existing)"
  shows "pe_listenPort e = (case find (\<lambda>x. or_zero (ee_hostId x) = pe_hostId e) existing of
    None \<Rightarrow> 0 | Some x \<Rightarrow> or_zero (ee_listenPort x))"
proof -
  have "pe_hostId e > 0" using assms planExitGroup_hosts(2) [of members existing] by force
  then show ?thesis
    using assms by (auto simp: planExitGroupTunnelEndpoints_def planned_endpoint_def Let_def existing_by_host_lookup split: option.splits)
qed

section \<open>Facts about forward groups\<close>

lemma length_js_distinct: "length (js_distinct xs) = card (set xs)"
  using distinct_card [of "js_distinct xs"] by simp

lemma expected_distinct: "distinct (expectedChildIdentities g ms es)"
  by (simp add: expectedChildIdentities_def Let_def)

lemma rule_status_counts:
  assumes "distinct ids"
  shows "rs_runningRuleCount (rule_status g ids ch t) \<le> rs_configuredRuleCount (rule_status g ids ch t)"
    "rs_configuredRuleCount (rule_status g ids ch t) \<le> length ids"
    "rs_expectedRuleCount (rule_status g ids ch t) = (if rs_status (rule_status g ids ch t) = DisabledStatus then 0 else length ids)"
    "rs_failedRuleCount (rule_status g ids ch t) = rs_expectedRuleCount (rule_status g ids ch t) - rs_runningRuleCount (rule_status g ids ch t)"
    "rs_status (rule_status g ids ch t) = RunningStatus \<longleftrightarrow> rs_status (rule_status g ids ch t) \<noteq> DisabledStatus \<and> ids \<noteq> []
       \<and> rs_runningRuleCount (rule_status g ids ch t) = length ids"
proof -
  let ?m = "filter (\<lambda>r. positiveId (ru_forwardGroupRuleId r) = positiveId (ru_id t)) ch"
  let ?C = "set (filter (\<lambda>i. i \<in> set ids) (map (childIdentity g) ?m))"
  let ?R = "set (filter (\<lambda>i. i \<in> set ids) (map (childIdentity g) (filter (\<lambda>r. enabled (ru_isEnabled r) \<and> enabled (ru_isRunning r)) ?m)))"
  have c: "rs_configuredRuleCount (rule_status g ids ch t) = card ?C"
    and r: "rs_runningRuleCount (rule_status g ids ch t) = card ?R"
    by (simp_all only: rule_status_def Let_def ForwardGroupRuleRuntimeStatus.simps length_js_distinct)
  have "card ?R \<le> card ?C" by (rule card_mono) auto
  then show rc: "rs_runningRuleCount (rule_status g ids ch t) \<le> rs_configuredRuleCount (rule_status g ids ch t)" unfolding c r .
  have "card ?C \<le> card (set ids)" by (rule card_mono) auto
  then show cl: "rs_configuredRuleCount (rule_status g ids ch t) \<le> length ids" unfolding c distinct_card [OF assms] .
  show "rs_expectedRuleCount (rule_status g ids ch t) = (if rs_status (rule_status g ids ch t) = DisabledStatus then 0 else length ids)"
    by (simp add: rule_status_def Let_def statusForCounts_def)
  show "rs_failedRuleCount (rule_status g ids ch t) = rs_expectedRuleCount (rule_status g ids ch t) - rs_runningRuleCount (rule_status g ids ch t)"
    by (simp add: rule_status_def Let_def)
  have le: "rs_runningRuleCount (rule_status g ids ch t) \<le> length ids" using rc cl by simp
  have st: "rs_status (rule_status g ids ch t) =
      statusForCounts (\<not> enabled (gr_isEnabled g) \<or> \<not> enabled (ru_isEnabled t))
        (if \<not> enabled (gr_isEnabled g) \<or> \<not> enabled (ru_isEnabled t) then 0 else length ids)
        (rs_runningRuleCount (rule_status g ids ch t))"
    by (simp add: rule_status_def Let_def)
  show "rs_status (rule_status g ids ch t) = RunningStatus \<longleftrightarrow> rs_status (rule_status g ids ch t) \<noteq> DisabledStatus \<and> ids \<noteq> []
       \<and> rs_runningRuleCount (rule_status g ids ch t) = length ids"
    unfolding st using le by (auto simp: statusForCounts_def)
qed

lemma sum_list_bounds:
  assumes "\<And>x. x \<in> set xs \<Longrightarrow> f x \<le> (n::nat)"
  shows "sum_list (map f xs) \<le> n * length xs"
    "sum_list (map f xs) = n * length xs \<longleftrightarrow> (\<forall>x\<in>set xs. f x = n)"
proof -
  have le: "sum_list (map f ys) \<le> n * length ys" if "set ys \<subseteq> set xs" for ys
    using that by (induction ys) (use assms in \<open>fastforce simp: add_mono\<close>)+
  then show "sum_list (map f xs) \<le> n * length xs" by simp
  have "sum_list (map f ys) = n * length ys \<longleftrightarrow> (\<forall>x\<in>set ys. f x = n)" if "set ys \<subseteq> set xs" for ys
    using that
  proof (induction ys)
    case (Cons y ys)
    have "f y \<le> n" "sum_list (map f ys) \<le> n * length ys" using Cons.prems assms le [of ys] by auto
    then show ?case using Cons by auto
  qed simp
  then show "sum_list (map f xs) = n * length xs \<longleftrightarrow> (\<forall>x\<in>set xs. f x = n)" by simp
qed

lemma sum_list_const: "(\<And>x. x \<in> set xs \<Longrightarrow> f x = (n::nat)) \<Longrightarrow> sum_list (map f xs) = n * length xs"
  by (induction xs) auto

section \<open>Properties\<close>

text \<open>C34: The status of a tunnel follows the reports of its hosts. After any sequence of reports, cleared hosts and cleared
  tunnels, the tunnel runs exactly when a candidate for the exit is up by its newest report and, on a path of three or more hops,
  a candidate for the entry is up and the relays are up, all of them in a chain and one of them with failover; its
  missing hosts are exactly the candidates that are not up. In any state, a host reported as running never takes the
  tunnel down and one reported as stopped never brings it up, other tunnels are not affected, a tunnel that has
  candidates for entry and exit and of which no host is missing runs, one exit is enough for a tunnel without relays,
  and the ready and missing hosts add up.\<close>

theorem tunnel_topology_status:
  assumes "positive_num tid" "positive_num h"
  shows "(ts_running (getTunnelRuntimeTopologyStatus tid t (foldr runtime_apply evs no_runtime)) \<longleftrightarrow>
      list_ex (reported_up evs tid) (exitCandidates t)
      \<and> (length (topo_hops t) < 3 \<or> list_ex (reported_up evs tid) (entryCandidates t)
          \<and> (if failover_relays t then list_ex (reported_up evs tid) (relayCandidates t)
             else list_all (reported_up evs tid) (relayCandidates t))))
    \<and> set (ts_missingHostIds (getTunnelRuntimeTopologyStatus tid t (foldr runtime_apply evs no_runtime))) =
        {x \<in> set (entryCandidates t) \<union> set (relayCandidates t) \<union> set (exitCandidates t). \<not> reported_up evs tid x}
    \<and> (ts_running (getTunnelRuntimeTopologyStatus tid t s) \<longrightarrow>
      ts_running (getTunnelRuntimeTopologyStatus tid t (recordTunnelRuntimeHostStatus tid h True s)))
    \<and> (ts_running (getTunnelRuntimeTopologyStatus tid t (recordTunnelRuntimeHostStatus tid h False s)) \<longrightarrow>
      ts_running (getTunnelRuntimeTopologyStatus tid t s))
    \<and> (\<forall>other b. other \<noteq> tid \<longrightarrow> getTunnelRuntimeTopologyStatus other t (recordTunnelRuntimeHostStatus tid h b s)
         = getTunnelRuntimeTopologyStatus other t s)
    \<and> (ts_missingHostIds (getTunnelRuntimeTopologyStatus tid t s) = [] \<and> exitCandidates t \<noteq> [] \<and> entryCandidates t \<noteq> []
         \<longrightarrow> ts_running (getTunnelRuntimeTopologyStatus tid t s))
    \<and> (h \<in> set (exitCandidates t) \<and> length (topo_hops t) < 3
         \<longrightarrow> ts_running (getTunnelRuntimeTopologyStatus tid t (recordTunnelRuntimeHostStatus tid h True s)))
    \<and> ts_readyCount (getTunnelRuntimeTopologyStatus tid t s) + length (ts_missingHostIds (getTunnelRuntimeTopologyStatus tid t s))
        = ts_hostCount (getTunnelRuntimeTopologyStatus tid t s)"
proof (intro conjI impI allI)
  show "ts_running (getTunnelRuntimeTopologyStatus tid t (foldr runtime_apply evs no_runtime)) \<longleftrightarrow>
      list_ex (reported_up evs tid) (exitCandidates t)
      \<and> (length (topo_hops t) < 3 \<or> list_ex (reported_up evs tid) (entryCandidates t)
          \<and> (if failover_relays t then list_ex (reported_up evs tid) (relayCandidates t)
             else list_all (reported_up evs tid) (relayCandidates t)))"
    by (rule running_iff_reported_up [OF assms(1)])
  show "set (ts_missingHostIds (getTunnelRuntimeTopologyStatus tid t (foldr runtime_apply evs no_runtime))) =
      {x \<in> set (entryCandidates t) \<union> set (relayCandidates t) \<union> set (exitCandidates t). \<not> reported_up evs tid x}"
    by (rule missing_iff_not_up [OF assms(1)])
  note R = record_ready [OF assms]
  show "ts_running (getTunnelRuntimeTopologyStatus tid t (recordTunnelRuntimeHostStatus tid h True s))"
    if "ts_running (getTunnelRuntimeTopologyStatus tid t s)"
    by (rule topology_monotone [OF _ that]) (simp add: R)
  show "ts_running (getTunnelRuntimeTopologyStatus tid t s)"
    if "ts_running (getTunnelRuntimeTopologyStatus tid t (recordTunnelRuntimeHostStatus tid h False s))"
    by (rule topology_monotone [OF _ that]) (simp add: R split: if_splits)
  show "getTunnelRuntimeTopologyStatus other t (recordTunnelRuntimeHostStatus tid h b s) = getTunnelRuntimeTopologyStatus other t s"
    if "other \<noteq> tid" for other b
    using that by (intro topology_cong) (simp add: R)
  show "ts_running (getTunnelRuntimeTopologyStatus tid t s)"
    if "ts_missingHostIds (getTunnelRuntimeTopologyStatus tid t s) = [] \<and> exitCandidates t \<noteq> [] \<and> entryCandidates t \<noteq> []"
    using topology_all_ready that by blast
  show "ts_running (getTunnelRuntimeTopologyStatus tid t (recordTunnelRuntimeHostStatus tid h True s))"
    if "h \<in> set (exitCandidates t) \<and> length (topo_hops t) < 3"
    using that unfolding topology_running by (auto simp: R relayCandidates_def Let_def)
  show "ts_readyCount (getTunnelRuntimeTopologyStatus tid t s) + length (ts_missingHostIds (getTunnelRuntimeTopologyStatus tid t s))
      = ts_hostCount (getTunnelRuntimeTopologyStatus tid t s)"
    by (simp add: getTunnelRuntimeTopologyStatus_def Let_def sum_length_filter_compl)
qed

definition sample_topology :: TunnelRuntimeTopology where
  "sample_topology = \<lparr>entryHostIds = None, hopHostIds = Some [Fin 1, Fin 2], primaryExitHostId = None, extraExitHostIds = None,
     relayMode = None, loadBalanceEnabled = None, loadBalanceStrategy = None\<rparr>"

text \<open>A chain of four hosts: the exit and the entry are up, the second relay has stopped again.\<close>

definition sample_chain :: TunnelRuntimeTopology where
  "sample_chain = sample_topology\<lparr>hopHostIds := Some [Fin 1, Fin 2, Fin 3, Fin 4]\<rparr>"

definition sample_reports :: "runtime_event list" where
  "sample_reports = [HostReport (Fin 9) (Fin 3) False, HostReport (Fin 9) (Fin 4) True, HostReport (Fin 9) (Fin 3) True,
     HostReport (Fin 9) (Fin 2) True, HostReport (Fin 9) (Fin 1) True]"

theorem tunnel_topology_status_witness:
  "ts_running (getTunnelRuntimeTopologyStatus (Fin 9) sample_topology (recordTunnelRuntimeHostStatus (Fin 9) (Fin 2) True no_runtime))
   \<and> getTunnelRuntimeTopologyStatus (Fin 8) sample_topology (recordTunnelRuntimeHostStatus (Fin 9) (Fin 2) True no_runtime)
     = getTunnelRuntimeTopologyStatus (Fin 8) sample_topology no_runtime
   \<and> \<not> ts_running (getTunnelRuntimeTopologyStatus (Fin 9) sample_chain (foldr runtime_apply sample_reports no_runtime))
   \<and> ts_running (getTunnelRuntimeTopologyStatus (Fin 9) sample_chain (foldr runtime_apply (tl sample_reports) no_runtime))"
proof -
  have "Fin 2 \<in> set (exitCandidates sample_topology)" "length (topo_hops sample_topology) < 3"
    by (simp_all add: sample_topology_def exitCandidates_def topo_hops_def unique_ids_def js_distinct_def opt_list_def Let_def)
  moreover have hops: "topo_hops sample_chain = [Fin 1, Fin 2, Fin 3, Fin 4]"
    by (simp add: sample_chain_def topo_hops_def unique_ids_def js_distinct_def opt_list_def)
  moreover have "relayCandidates sample_chain = [Fin 2, Fin 3]" by (simp add: relayCandidates_def hops)
  moreover have "exitCandidates sample_chain = [Fin 4]" "entryCandidates sample_chain = [Fin 1]"
    unfolding exitCandidates_def entryCandidates_def hops
    by (simp_all add: sample_chain_def sample_topology_def unique_ids_def js_distinct_def opt_list_def)
  moreover have "\<not> failover_relays sample_chain" by code_simp
  moreover have up: "\<not> reported_up sample_reports (Fin 9) (Fin 3)" "list_all (reported_up (tl sample_reports) (Fin 9)) [Fin 1, Fin 2, Fin 3, Fin 4]"
    by (simp_all add: sample_reports_def)
  ultimately show ?thesis
    using tunnel_topology_status [of "Fin 9" "Fin 2" sample_topology "[]" no_runtime] up
      conjunct1 [OF tunnel_topology_status [of "Fin 9" "Fin 2" sample_chain sample_reports no_runtime]]
      conjunct1 [OF tunnel_topology_status [of "Fin 9" "Fin 2" sample_chain "tl sample_reports" no_runtime]]
    by (simp del: foldr_Cons foldr_Nil)
qed

text \<open>The probe listeners planned for a host cover exactly the ports on which it is an exit of an enabled GOST
  tunnel, main exit or load-balanced exit, that are valid and not used by the host's business listeners; each port is
  listened on once.\<close>

theorem gost_probe_listeners_exact:
  assumes "positive_num (to_number hv)"
  shows "distinct (map pl_listenPort (planGostTunnelProbeListeners hv tunnels exitNodes business))
    \<and> set (map pl_listenPort (planGostTunnelProbeListeners hv tunnels exitNodes business)) =
      {p. 1 \<le> p \<and> p \<le> 65535 \<and> (to_number hv, p) \<notin> set business
        \<and> (\<exists>t. t \<in> set tunnels \<and> inum p \<in> set (probe_ports (to_number hv) exitNodes t))}"
proof -
  have "listeners_ok (to_number hv) {} ([], [])" by (simp add: listeners_ok_def)
  from probe_fold_ok [OF this, of business exitNodes tunnels] show ?thesis
    using assms by (auto simp: planGostTunnelProbeListeners_def Let_def listeners_ok_def free_ports_def free_port_def)
qed

definition sample_gost :: GostTunnelProbeInput where
  "sample_gost = \<lparr>gp_id = JNum (Fin 4), gp_mode = Some ''TLS'', gp_isEnabled = JBool True, gp_protocolEnabled = JNum (Fin 1),
     gp_exitHostId = JNum (Fin 7), gp_listenPort = JNum (inum 9000), gp_loadBalanceEnabled = JNull, gp_loadBalanceStrategy = None\<rparr>"

theorem gost_probe_listeners_exact_witness:
  "9000 \<in> set (map pl_listenPort (planGostTunnelProbeListeners (JNum (Fin 7)) [sample_gost] [] [(Fin 7, 443)]))"
proof -
  have "inum 9000 \<in> set (probe_ports (Fin 7) [] sample_gost)"
    by (simp add: sample_gost_def probe_ports_def flag_on_def tunnelRuntimeFamily_def num_eq_def opt_text_def Let_def) code_simp
  then show ?thesis
    using gost_probe_listeners_exact [of "JNum (Fin 7)" "[sample_gost]" "[]" "[(Fin 7, 443)]"] by simp
qed

text \<open>The summary of a forward group is consistent: it is disabled exactly with the group; per rule the running
  children are among the configured ones; it reports running exactly if some rule is active and every active rule runs
  on all the places it is expected on, degraded only if some but not all of them run, and the failed count is what is
  missing.\<close>

theorem forward_group_summary:
  assumes "sm = summarizeForwardGroupRuntime g members entryMembers templates children"
    "act = filter (\<lambda>s. rs_status s \<noteq> DisabledStatus) (fs_ruleStatuses sm)"
  shows "(fs_status sm = DisabledStatus) = (\<not> enabled (gr_isEnabled g))
    \<and> list_all (\<lambda>s. rs_runningRuleCount s \<le> rs_configuredRuleCount s \<and> (rs_status s \<noteq> DisabledStatus \<longrightarrow> rs_configuredRuleCount s \<le> rs_expectedRuleCount s))
        (fs_ruleStatuses sm)
    \<and> (fs_status sm = RunningStatus) = (act \<noteq> [] \<and> list_all (\<lambda>s. rs_status s = RunningStatus) act)
    \<and> (fs_status sm = RunningStatus \<longrightarrow> 0 < fs_expectedRuleCount sm \<and> fs_runningRuleCount sm = fs_expectedRuleCount sm)
    \<and> (fs_status sm = DegradedStatus \<longrightarrow> 0 < fs_runningRuleCount sm \<and> fs_runningRuleCount sm < fs_expectedRuleCount sm)
    \<and> (fs_status sm = PendingStatus \<longrightarrow> fs_runningRuleCount sm = 0)
    \<and> fs_failedRuleCount sm = fs_expectedRuleCount sm - fs_runningRuleCount sm"
proof -
  define ids where "ids = expectedChildIdentities g members entryMembers"
  define ch where "ch = filter (\<lambda>r. \<not> enabled (ru_pendingDelete r)) children"
  have d: "distinct ids" by (simp add: ids_def expected_distinct)
  have sts: "fs_ruleStatuses sm = map (rule_status g ids ch) (filter (\<lambda>r. \<not> enabled (ru_pendingDelete r)) templates)"
    by (simp add: assms(1) summarizeForwardGroupRuntime_def Let_def ids_def ch_def)
  have mem: "\<exists>t. s = rule_status g ids ch t" if "s \<in> set (fs_ruleStatuses sm)" for s
    using that by (auto simp: sts)
  have C: "rs_runningRuleCount s \<le> rs_configuredRuleCount s" "rs_configuredRuleCount s \<le> length ids"
    "rs_expectedRuleCount s = (if rs_status s = DisabledStatus then 0 else length ids)"
    "rs_status s = RunningStatus \<longleftrightarrow> rs_status s \<noteq> DisabledStatus \<and> ids \<noteq> [] \<and> rs_runningRuleCount s = length ids"
    if "s \<in> set (fs_ruleStatuses sm)" for s
    using rule_status_counts [OF d, of g ch] mem [OF that] by metis+
  have A: "rs_runningRuleCount s \<le> length ids" "rs_expectedRuleCount s = length ids"
    "rs_status s = RunningStatus \<longleftrightarrow> ids \<noteq> [] \<and> rs_runningRuleCount s = length ids" if "s \<in> set act" for s
    using C [of s] that by (auto simp: assms(2))
  have dis: "act = []" if "\<not> enabled (gr_isEnabled g)"
    using that by (auto simp: assms(2) sts rule_status_def statusForCounts_def Let_def filter_empty_conv)
  define R where "R = sum_list (map rs_runningRuleCount act)"
  have E: "sum_list (map rs_expectedRuleCount act) = length ids * length act" by (rule sum_list_const) (simp add: A)
  have Rle: "R \<le> length ids * length act" and Req: "R = length ids * length act \<longleftrightarrow> (\<forall>s\<in>set act. rs_runningRuleCount s = length ids)"
    unfolding R_def using sum_list_bounds [of act rs_runningRuleCount "length ids"] A(1) by blast+
  have run: "list_all (\<lambda>s. rs_status s = RunningStatus) act \<longleftrightarrow> act = [] \<or> ids \<noteq> [] \<and> R = length ids * length act"
    unfolding Req using A(3) by (auto simp: list_all_iff)
  have act': "filter (\<lambda>s. rs_status s \<noteq> DisabledStatus) (map (rule_status g (expectedChildIdentities g members entryMembers)
      (filter (\<lambda>r. \<not> enabled (ru_pendingDelete r)) children)) (filter (\<lambda>r. \<not> enabled (ru_pendingDelete r)) templates)) = act"
    by (simp add: assms(2) sts ids_def ch_def)
  have F: "fs_status sm = (if \<not> enabled (gr_isEnabled g) then DisabledStatus else if act = [] then IdleStatus
        else if length ids * length act > 0 \<and> R = length ids * length act then RunningStatus
        else if R > 0 then DegradedStatus else PendingStatus)"
    "fs_expectedRuleCount sm = (if \<not> enabled (gr_isEnabled g) \<or> act = [] then 0 else length ids * length act)"
    "fs_runningRuleCount sm = (if \<not> enabled (gr_isEnabled g) \<or> act = [] then 0 else R)"
    "fs_failedRuleCount sm = fs_expectedRuleCount sm - fs_runningRuleCount sm"
    using run by (simp_all add: assms(1) summarizeForwardGroupRuntime_def Let_def act' E R_def [symmetric])
  show ?thesis
    unfolding F run using C dis Rle by (auto simp: list_all_iff)
qed

definition sample_group :: group_row where
  "sample_group = \<lparr>gr_groupMode = Some ''failover'', gr_isEnabled = JBool True, gr_entryGroupId = JNull\<rparr>"

definition sample_member :: "int \<Rightarrow> member_row" where
  "sample_member n = \<lparr>mr_id = JNum (inum n), mr_hostId = JNum (inum n), mr_isEnabled = JBool True\<rparr>"

definition sample_group_rule :: "int \<Rightarrow> int \<Rightarrow> int \<Rightarrow> group_rule_row" where
  "sample_group_rule n parent member = \<lparr>ru_id = JNum (inum n), ru_hostId = JNull, ru_isEnabled = JBool True, ru_isRunning = JBool True,
     ru_pendingDelete = JBool False, ru_forwardGroupRuleId = JNum (inum parent), ru_forwardGroupMemberId = JNum (inum member)\<rparr>"

theorem forward_group_summary_witness:
  "fs_status (summarizeForwardGroupRuntime sample_group [sample_member 1, sample_member 2] [] [sample_group_rule 5 0 0]
     [sample_group_rule 6 5 1, sample_group_rule 7 5 1]) = DegradedStatus
   \<and> 0 < fs_runningRuleCount (summarizeForwardGroupRuntime sample_group [sample_member 1, sample_member 2] [] [sample_group_rule 5 0 0]
     [sample_group_rule 6 5 1, sample_group_rule 7 5 1])"
proof -
  have "fs_status (summarizeForwardGroupRuntime sample_group [sample_member 1, sample_member 2] [] [sample_group_rule 5 0 0]
     [sample_group_rule 6 5 1, sample_group_rule 7 5 1]) = DegradedStatus" by code_simp
  with forward_group_summary [OF refl refl] show ?thesis by blast
qed

end
