(* ===== verification/TunnelLatency.thy ===== *)
theory TunnelLatency
  imports Prelude
begin

text \<open>
  The latency of multi-hop tunnels, put together from the samples of their hops: chains with one entry
  (server/tunnelAutoLatencyState.ts) and tunnels with several entries (server/tunnelMultiEntryLatencyState.ts).
  The module-level maps are association lists, the clock is an argument in milliseconds. Identifiers, hop numbers
  and latencies are integers: a report is only accepted with integral identifiers (shared/agentDtos.ts) and agents
  measure whole milliseconds. The label the panel makes up for an unnamed entry is a constructor with its host.
\<close>

section \<open>Chains with one entry\<close>

record TunnelAutoHopDetail =
  hopIndex :: int
  hopCount :: int
  fromHostId :: "int option"
  toHostId :: "int option"
  latencyMs :: "int option"
  isTimeout :: bool
  recordedAt :: int

record AutoHopResult = TunnelAutoHopDetail +
  generation :: string

type_synonym hop_map = "(int \<times> AutoHopResult) list"
type_synonym auto_state = "(string \<times> hop_map) list"

definition AUTO_HOP_TTL_MS :: int where "AUTO_HOP_TTL_MS = 6 * 60 * 1000"

definition text_or :: "string option \<Rightarrow> string \<Rightarrow> string" where
  "text_or v d = (case v of None \<Rightarrow> d | Some s \<Rightarrow> if s = [] then d else s)"

definition tunnelPathStateKey :: "int \<Rightarrow> string option \<Rightarrow> string" where
  "tunnelPathStateKey tunnelId pathKey =
     (let path = js_lower (js_trim (text_or pathKey ''default'')) in
      show_int tunnelId @ '':'' @ (if path = [] then ''default'' else path))"

definition starts_with :: "string \<Rightarrow> string \<Rightarrow> bool" where
  "starts_with p s \<longleftrightarrow> take (length p) s = p"

definition clearTunnelAutoHopLatencyState :: "int \<Rightarrow> auto_state \<Rightarrow> auto_state" where
  "clearTunnelAutoHopLatencyState tunnelId m =
     (if tunnelId \<le> 0 then m else filter (\<lambda>(key, hops). \<not> starts_with (show_int tunnelId @ '':'') key) m)"

definition stale_hop :: "int \<Rightarrow> string \<Rightarrow> int \<Rightarrow> AutoHopResult \<Rightarrow> bool" where
  "stale_hop count gen now r \<longleftrightarrow> hopCount r \<noteq> count \<or> generation r \<noteq> gen \<or> now - recordedAt r > AUTO_HOP_TTL_MS"

definition drop_hop :: "int \<Rightarrow> string \<Rightarrow> int \<Rightarrow> int \<Rightarrow> AutoHopResult \<Rightarrow> bool" where
  "drop_hop count gen now idx r \<longleftrightarrow> idx \<ge> count \<or> stale_hop count gen now r"

definition cleanupTunnelHopResults :: "string \<Rightarrow> int \<Rightarrow> string \<Rightarrow> int \<Rightarrow> auto_state \<Rightarrow> auto_state" where
  "cleanupTunnelHopResults stateKey count gen now m =
     (case map_of m stateKey of
        None \<Rightarrow> m
      | Some hops \<Rightarrow>
          let hops' = filter (\<lambda>(idx, r). \<not> drop_hop count gen now idx r) hops in
          if hops' = [] then alist_delete stateKey m else alist_set stateKey hops' m)"

definition failed_sample :: "AutoHopResult \<Rightarrow> bool" where
  "failed_sample r \<longleftrightarrow> isTimeout r \<or> (case latencyMs r of None \<Rightarrow> True | Some l \<Rightarrow> l \<le> 0)"

fun collect_hops :: "hop_map \<Rightarrow> int \<Rightarrow> string \<Rightarrow> int \<Rightarrow> int list \<Rightarrow> AutoHopResult list option" where
  "collect_hops hops count gen now [] = Some []"
| "collect_hops hops count gen now (i # is) =
     (case map_of hops i of
        None \<Rightarrow> None
      | Some r \<Rightarrow>
          if stale_hop count gen now r then None
          else map_option (\<lambda>rs. r # rs) (collect_hops hops count gen now is))"

type_synonym hop_aggregate = "bool \<times> int option"

definition aggregate_hops :: "hop_map \<Rightarrow> int \<Rightarrow> string \<Rightarrow> int \<Rightarrow> bool \<Rightarrow> hop_aggregate option" where
  "aggregate_hops hops count gen now allowEarlyFailure =
     (if allowEarlyFailure \<and> list_ex (\<lambda>(idx, r). generation r = gen \<and> now - recordedAt r \<le> AUTO_HOP_TTL_MS \<and> failed_sample r) hops
      then Some (False, None)
      else case collect_hops hops count gen now [0..count - 1] of
             None \<Rightarrow> None
           | Some results \<Rightarrow>
               if list_ex failed_sample results then Some (False, None)
               else Some (True, Some (sum_list (map (\<lambda>r. case latencyMs r of None \<Rightarrow> 0 | Some l \<Rightarrow> l) results))))"

definition aggregateTunnelHopResults ::
  "string \<Rightarrow> int \<Rightarrow> string \<Rightarrow> int \<Rightarrow> bool \<Rightarrow> auto_state \<Rightarrow> hop_aggregate option \<times> auto_state" where
  "aggregateTunnelHopResults stateKey count gen now allowEarlyFailure m0 =
     (let m = cleanupTunnelHopResults stateKey count gen now m0 in
      case map_of m stateKey of
        None \<Rightarrow> (None, m)
      | Some hops \<Rightarrow> (aggregate_hops hops count gen now allowEarlyFailure, m))"

record hop_report =
  hr_tunnelId :: int
  hr_hopIndex :: int
  hr_hopCount :: int
  hr_latencyMs :: "int option"
  hr_isTimeout :: bool
  hr_generation :: "string option"
  hr_pathKey :: "string option"
  hr_allowEarlyFailure :: bool
  hr_fromHostId :: "int option"
  hr_toHostId :: "int option"

definition positive_or_null :: "int option \<Rightarrow> int option" where
  "positive_or_null v = (case v of None \<Rightarrow> None | Some n \<Rightarrow> if n > 0 then Some n else None)"

definition legacy_generation :: "int \<Rightarrow> string" where
  "legacy_generation count = ''legacy:'' @ show_int count"

definition report_generation :: "hop_report \<Rightarrow> string" where
  "report_generation i = take 1024 (text_or (hr_generation i) (legacy_generation (hr_hopCount i)))"

definition report_sample :: "hop_report \<Rightarrow> int \<Rightarrow> AutoHopResult" where
  "report_sample i now = \<lparr>hopIndex = hr_hopIndex i, hopCount = hr_hopCount i, fromHostId = positive_or_null (hr_fromHostId i),
     toHostId = positive_or_null (hr_toHostId i), latencyMs = hr_latencyMs i, isTimeout = hr_isTimeout i, recordedAt = now,
     generation = report_generation i\<rparr>"

definition recordTunnelAutoHopLatency :: "hop_report \<Rightarrow> int \<Rightarrow> auto_state \<Rightarrow> hop_aggregate option \<times> auto_state" where
  "recordTunnelAutoHopLatency i now m =
     (if hr_tunnelId i \<le> 0 \<or> hr_hopIndex i < 0 \<or> hr_hopCount i \<le> 0 \<or> hr_hopIndex i \<ge> hr_hopCount i then (None, m)
      else
        let gen = report_generation i;
            stateKey = tunnelPathStateKey (hr_tunnelId i) (hr_pathKey i);
            hops = (case map_of m stateKey of None \<Rightarrow> [] | Some hs \<Rightarrow> hs);
            kept = filter (\<lambda>(idx, r). \<not> stale_hop (hr_hopCount i) gen now r) hops;
            m' = alist_set stateKey (alist_set (hr_hopIndex i) (report_sample i now) kept) m in
        aggregateTunnelHopResults stateKey (hr_hopCount i) gen now (hr_allowEarlyFailure i) m')"

definition getTunnelAutoHopAggregate ::
  "int \<Rightarrow> int \<Rightarrow> string option \<Rightarrow> string option \<Rightarrow> bool \<Rightarrow> int \<Rightarrow> auto_state \<Rightarrow> hop_aggregate option \<times> auto_state" where
  "getTunnelAutoHopAggregate tunnelId count gen pathKey allowEarlyFailure now m =
     (if tunnelId \<le> 0 \<or> count \<le> 0 then (None, m)
      else
        let stateKey = tunnelPathStateKey tunnelId pathKey;
            first = (case map_of m stateKey of None \<Rightarrow> None | Some hops \<Rightarrow> map_option generation (map_of hops 0));
            activeGeneration = text_or gen (text_or first (legacy_generation count)) in
        aggregateTunnelHopResults stateKey count activeGeneration now allowEarlyFailure m)"

fun collect_details :: "hop_map \<Rightarrow> int \<Rightarrow> string \<Rightarrow> int \<Rightarrow> int \<Rightarrow> int \<Rightarrow> int list \<Rightarrow> TunnelAutoHopDetail list option" where
  "collect_details hops count gen now maxAgeMs referenceAt [] = Some []"
| "collect_details hops count gen now maxAgeMs referenceAt (i # is) =
     (case map_of hops i of
        None \<Rightarrow> None
      | Some r \<Rightarrow>
          if hopCount r \<noteq> count \<or> generation r \<noteq> gen then None
          else if now - recordedAt r > maxAgeMs then None
          else if referenceAt > 0 \<and> \<bar>recordedAt r - referenceAt\<bar> > 30000 then None
          else map_option (\<lambda>ds. TunnelAutoHopDetail.truncate r # ds) (collect_details hops count gen now maxAgeMs referenceAt is))"

definition or_ttl :: "int option \<Rightarrow> int \<Rightarrow> int" where
  "or_ttl v ttl = max 1000 (case v of None \<Rightarrow> ttl | Some n \<Rightarrow> if n = 0 then ttl else n)"

definition getTunnelAutoHopDetails ::
  "int \<Rightarrow> int \<Rightarrow> string option \<Rightarrow> string option \<Rightarrow> int option \<Rightarrow> int option \<Rightarrow> int \<Rightarrow> auto_state
    \<Rightarrow> TunnelAutoHopDetail list option \<times> auto_state" where
  "getTunnelAutoHopDetails tunnelId count gen pathKey referenceAt maxAgeMs now m =
     (if tunnelId \<le> 0 \<or> count \<le> 0 then (None, m)
      else
        let stateKey = tunnelPathStateKey tunnelId pathKey in
        case map_of m stateKey of
          None \<Rightarrow> (None, m)
        | Some hops \<Rightarrow>
            let g = take 1024 (text_or gen (text_or (map_option generation (map_of hops 0)) (legacy_generation count)));
                m' = cleanupTunnelHopResults stateKey count g now m in
            (case map_of m' stateKey of
               None \<Rightarrow> (None, m')
             | Some refreshed \<Rightarrow>
                 (collect_details refreshed count g now (or_ttl maxAgeMs AUTO_HOP_TTL_MS)
                    (case referenceAt of None \<Rightarrow> 0 | Some t \<Rightarrow> t) [0..count - 1], m')))"

section \<open>Several entries\<close>

datatype entry_label = Reported string | EntryLabel int

record TunnelEntryLatencyDetail =
  ed_hostId :: int
  ed_label :: entry_label
  ed_latencyMs :: "int option"
  ed_isTimeout :: bool

record EntryProbe =
  ep_latencyMs :: "int option"
  ep_isTimeout :: bool
  ep_label :: string
  ep_fromHostId :: int
  ep_toHostId :: "int option"
  ep_hopIndex :: int
  ep_recordedAt :: int

record MultiEntryPathState =
  ms_generation :: string
  ms_hopCount :: int
  ms_expectedEntryHostIds :: "int list"
  ms_entryHops :: "(int \<times> EntryProbe) list"
  ms_sharedHops :: "(int \<times> EntryProbe) list"
  ms_updatedAt :: int

record TunnelMultiEntryLatencyAggregate =
  ma_success :: bool
  ma_partial :: bool
  ma_latencyMs :: "int option"
  ma_details :: "TunnelEntryLatencyDetail list"

type_synonym multi_states = "(string \<times> MultiEntryPathState) list"

definition MULTI_ENTRY_PROBE_TTL_MS :: int where "MULTI_ENTRY_PROBE_TTL_MS = 6 * 60 * 1000"

definition normalizeHostIds :: "jsnum list \<Rightarrow> int list" where
  "normalizeHostIds values = sort (js_distinct (filter (\<lambda>n. n > 0) (List.map_filter as_integer values)))"

definition expectedSignature :: "int list \<Rightarrow> string" where
  "expectedSignature hostIds = js_join '','' (map show_int hostIds)"

definition clearTunnelMultiEntryLatencyState :: "int \<Rightarrow> multi_states \<Rightarrow> multi_states" where
  "clearTunnelMultiEntryLatencyState tunnelId m =
     (if tunnelId \<le> 0 then m else filter (\<lambda>(key, st). \<not> starts_with (show_int tunnelId @ '':'') key) m)"

definition fresh_probes :: "int \<Rightarrow> (int \<times> EntryProbe) list \<Rightarrow> (int \<times> EntryProbe) list" where
  "fresh_probes now m = filter (\<lambda>(k, r). \<not> now - ep_recordedAt r > MULTI_ENTRY_PROBE_TTL_MS) m"

definition cleanExpiredResults :: "MultiEntryPathState \<Rightarrow> int \<Rightarrow> MultiEntryPathState" where
  "cleanExpiredResults st now =
     st\<lparr>ms_entryHops := fresh_probes now (ms_entryHops st), ms_sharedHops := fresh_probes now (ms_sharedHops st)\<rparr>"

definition cleanExpiredStates :: "int \<Rightarrow> multi_states \<Rightarrow> multi_states" where
  "cleanExpiredStates now m = filter (\<lambda>(key, st). \<not> now - ms_updatedAt st > MULTI_ENTRY_PROBE_TTL_MS) m"

definition probe_latency :: "EntryProbe option \<Rightarrow> int" where
  "probe_latency r = (case r of None \<Rightarrow> 0 | Some p \<Rightarrow> (case ep_latencyMs p of None \<Rightarrow> 0 | Some l \<Rightarrow> l))"

definition resultSucceeded :: "EntryProbe option \<Rightarrow> bool" where
  "resultSucceeded r = (case r of None \<Rightarrow> False | Some p \<Rightarrow> \<not> ep_isTimeout p \<and> probe_latency (Some p) > 0)"

fun collect_shared :: "(int \<times> EntryProbe) list \<Rightarrow> int list \<Rightarrow> EntryProbe list option" where
  "collect_shared m [] = Some []"
| "collect_shared m (i # is) =
     (case map_of m i of None \<Rightarrow> None | Some r \<Rightarrow> map_option (\<lambda>rs. r # rs) (collect_shared m is))"

definition entry_detail :: "(int \<times> EntryProbe) list \<Rightarrow> bool \<Rightarrow> int \<Rightarrow> int \<Rightarrow> TunnelEntryLatencyDetail list" where
  "entry_detail entryHops sharedFailed sharedLatency hostId =
     (let entry = map_of entryHops hostId in
      if entry = None \<and> \<not> sharedFailed then []
      else
        let success = (\<not> sharedFailed \<and> resultSucceeded entry) in
        [\<lparr>ed_hostId = hostId,
          ed_label = (case entry of None \<Rightarrow> EntryLabel hostId
             | Some p \<Rightarrow> if ep_label p = [] then EntryLabel hostId else Reported (ep_label p)),
          ed_latencyMs = (if success then Some (probe_latency entry + sharedLatency) else None),
          ed_isTimeout = (\<not> success)\<rparr>])"

definition detail_latency :: "TunnelEntryLatencyDetail \<Rightarrow> int" where
  "detail_latency d = (case ed_latencyMs d of None \<Rightarrow> 0 | Some l \<Rightarrow> l)"

definition aggregateMultiEntryState ::
  "MultiEntryPathState \<Rightarrow> int \<Rightarrow> TunnelMultiEntryLatencyAggregate option \<times> MultiEntryPathState" where
  "aggregateMultiEntryState st0 now =
     (let st = cleanExpiredResults st0 now in
      case collect_shared (ms_sharedHops st) [1..ms_hopCount st - 1] of
        None \<Rightarrow> (None, st)
      | Some sharedResults \<Rightarrow>
          let sharedFailed = list_ex (\<lambda>r. \<not> resultSucceeded (Some r)) sharedResults;
              sharedLatency = sum_list (map (\<lambda>r. probe_latency (Some r)) sharedResults);
              details = concat (map (entry_detail (ms_entryHops st) sharedFailed sharedLatency) (ms_expectedEntryHostIds st));
              successful = filter (\<lambda>d. \<not> ed_isTimeout d \<and> detail_latency d > 0) details in
          if successful \<noteq> [] then
            (Some \<lparr>ma_success = True, ma_partial = length successful < length (ms_expectedEntryHostIds st),
              ma_latencyMs = Some (Max (set (map detail_latency successful))), ma_details = details\<rparr>, st)
          else if sharedFailed \<or> length details = length (ms_expectedEntryHostIds st) then
            (Some \<lparr>ma_success = False, ma_partial = False, ma_latencyMs = None, ma_details = details\<rparr>, st)
          else (None, st))"

record entry_report =
  er_tunnelId :: int
  er_sourceHostId :: int
  er_sourceLabel :: "string option"
  er_expectedEntryHostIds :: "jsnum list"
  er_hopIndex :: int
  er_hopCount :: int
  er_latencyMs :: "int option"
  er_isTimeout :: bool
  er_generation :: "string option"
  er_pathKey :: "string option"
  er_toHostId :: "int option"

definition positive_latency :: "int option \<Rightarrow> bool" where
  "positive_latency v = (case v of None \<Rightarrow> False | Some l \<Rightarrow> l > 0)"

definition state_matches :: "MultiEntryPathState \<Rightarrow> string \<Rightarrow> int \<Rightarrow> int list \<Rightarrow> bool" where
  "state_matches st gen count expected \<longleftrightarrow> \<not> (ms_generation st \<noteq> gen \<or> ms_hopCount st \<noteq> count
     \<or> expectedSignature (ms_expectedEntryHostIds st) \<noteq> expectedSignature expected)"

definition recordTunnelMultiEntryLatency ::
  "entry_report \<Rightarrow> int \<Rightarrow> multi_states \<Rightarrow> TunnelMultiEntryLatencyAggregate option \<times> multi_states" where
  "recordTunnelMultiEntryLatency i now m0 =
     (let expected = normalizeHostIds (er_expectedEntryHostIds i) in
      if er_tunnelId i \<le> 0 \<or> er_sourceHostId i \<le> 0 \<or> er_hopIndex i < 0 \<or> er_hopCount i \<le> 0 \<or> er_hopIndex i \<ge> er_hopCount i
         \<or> length expected < 2 \<or> (er_hopIndex i = 0 \<and> er_sourceHostId i \<notin> set expected) then (None, m0)
      else
        let gen = take 1024 (text_or (er_generation i) (legacy_generation (er_hopCount i)));
            key = tunnelPathStateKey (er_tunnelId i) (er_pathKey i);
            m = cleanExpiredStates now m0;
            new = \<lparr>ms_generation = gen, ms_hopCount = er_hopCount i, ms_expectedEntryHostIds = expected,
                    ms_entryHops = [], ms_sharedHops = [], ms_updatedAt = now\<rparr>;
            st = (case map_of m key of None \<Rightarrow> new
                  | Some s \<Rightarrow> if state_matches s gen (er_hopCount i) expected then s else new);
            st1 = cleanExpiredResults st now;
            result = \<lparr>ep_latencyMs = (if positive_latency (er_latencyMs i) then er_latencyMs i else None),
                       ep_isTimeout = (er_isTimeout i \<or> \<not> positive_latency (er_latencyMs i)),
                       ep_label = take 96 (js_trim (text_or (er_sourceLabel i) [])), ep_fromHostId = er_sourceHostId i,
                       ep_toHostId = positive_or_null (er_toHostId i), ep_hopIndex = er_hopIndex i, ep_recordedAt = now\<rparr>;
            st2 = (if er_hopIndex i = 0 then st1\<lparr>ms_entryHops := alist_set (er_sourceHostId i) result (ms_entryHops st1)\<rparr>
                   else st1\<lparr>ms_sharedHops := alist_set (er_hopIndex i) result (ms_sharedHops st1)\<rparr>);
            (a, st3) = aggregateMultiEntryState (st2\<lparr>ms_updatedAt := now\<rparr>) now in
        (a, alist_set key st3 m))"

definition getTunnelMultiEntryLatency ::
  "int \<Rightarrow> jsnum list \<Rightarrow> int \<Rightarrow> string option \<Rightarrow> string option \<Rightarrow> int \<Rightarrow> multi_states
    \<Rightarrow> TunnelMultiEntryLatencyAggregate option \<times> multi_states" where
  "getTunnelMultiEntryLatency tunnelId expectedValues count gen pathKey now m =
     (let expected = normalizeHostIds expectedValues; key = tunnelPathStateKey tunnelId pathKey in
      if tunnelId \<le> 0 \<or> count \<le> 0 \<or> length expected < 2 then (None, m)
      else case map_of m key of
             None \<Rightarrow> (None, m)
           | Some st \<Rightarrow>
               if \<not> state_matches st (take 1024 (text_or gen (legacy_generation count))) count expected then (None, m)
               else if now - ms_updatedAt st > MULTI_ENTRY_PROBE_TTL_MS then (None, alist_delete key m)
               else (case aggregateMultiEntryState st now of (a, st') \<Rightarrow> (a, alist_set key st' m)))"

definition probe_fresh :: "int \<Rightarrow> int \<Rightarrow> int \<Rightarrow> int \<Rightarrow> bool" where
  "probe_fresh now maxAgeMs referenceAt t \<longleftrightarrow> now - t \<le> maxAgeMs \<and> (referenceAt \<le> 0 \<or> \<bar>t - referenceAt\<bar> \<le> 30000)"

definition or_null :: "int option \<Rightarrow> int option \<Rightarrow> int option" where
  "or_null v d = (case v of None \<Rightarrow> d | Some n \<Rightarrow> if n = 0 then d else Some n)"

fun hop_details :: "(int \<Rightarrow> bool) \<Rightarrow> (int \<Rightarrow> EntryProbe option) \<Rightarrow> (int \<Rightarrow> EntryProbe \<Rightarrow> TunnelAutoHopDetail) \<Rightarrow> int list
    \<Rightarrow> TunnelAutoHopDetail list option" where
  "hop_details fresh look mk [] = Some []"
| "hop_details fresh look mk (i # is) =
     (case look i of
        None \<Rightarrow> hop_details fresh look mk is
      | Some r \<Rightarrow> if \<not> fresh (ep_recordedAt r) then None
                  else map_option (\<lambda>ds. mk i r # ds) (hop_details fresh look mk is))"

definition getTunnelMultiEntryHopDetails ::
  "int \<Rightarrow> jsnum list \<Rightarrow> int \<Rightarrow> string option \<Rightarrow> string option \<Rightarrow> int option \<Rightarrow> int option \<Rightarrow> int \<Rightarrow> multi_states
    \<Rightarrow> TunnelAutoHopDetail list option \<times> multi_states" where
  "getTunnelMultiEntryHopDetails tunnelId expectedValues count gen pathKey referenceAt maxAgeMs now m0 =
     (let expected = normalizeHostIds expectedValues; key = tunnelPathStateKey tunnelId pathKey in
      if tunnelId \<le> 0 \<or> count \<le> 0 \<or> length expected < 2 then (None, m0)
      else
        let m = cleanExpiredStates now m0 in
        case map_of m key of
          None \<Rightarrow> (None, m)
        | Some st0 \<Rightarrow>
            if \<not> state_matches st0 (take 1024 (text_or gen (ms_generation st0))) count expected then (None, m)
            else
              let st = cleanExpiredResults st0 now;
                  fresh = probe_fresh now (or_ttl maxAgeMs MULTI_ENTRY_PROBE_TTL_MS) (case referenceAt of None \<Rightarrow> 0 | Some t \<Rightarrow> t);
                  sharedFirstSource = or_null (map_option ep_fromHostId (map_of (ms_sharedHops st) 1)) None;
                  entries = hop_details fresh (map_of (ms_entryHops st))
                    (\<lambda>hostId e. \<lparr>hopIndex = 0, hopCount = count, fromHostId = Some hostId, toHostId = or_null (ep_toHostId e) sharedFirstSource,
                       latencyMs = ep_latencyMs e, isTimeout = ep_isTimeout e, recordedAt = ep_recordedAt e\<rparr>) expected;
                  shared = hop_details fresh (map_of (ms_sharedHops st))
                    (\<lambda>i r. \<lparr>hopIndex = i, hopCount = count, fromHostId = or_null (Some (ep_fromHostId r)) None,
                       toHostId = or_null (ep_toHostId r) None, latencyMs = ep_latencyMs r, isTimeout = ep_isTimeout r,
                       recordedAt = ep_recordedAt r\<rparr>) [1..count - 1];
                  m' = alist_set key st m in
              (case (entries, shared) of
                 (Some es, Some ss) \<Rightarrow> if es @ ss = [] then (None, m') else (Some (es @ ss), m')
               | _ \<Rightarrow> (None, m')))"

section \<open>Facts about chains\<close>

text \<open>The reference: the fresh sample of each hop, and the latency of the whole chain.\<close>

definition fresh_sample :: "int \<Rightarrow> string \<Rightarrow> int \<Rightarrow> hop_map \<Rightarrow> int \<Rightarrow> AutoHopResult option" where
  "fresh_sample count gen now hops i =
     (case map_of hops i of None \<Rightarrow> None
      | Some r \<Rightarrow> if stale_hop count gen now r then None else Some r)"

definition sample_latency :: "AutoHopResult option \<Rightarrow> int" where
  "sample_latency r = (case r of None \<Rightarrow> 0 | Some r \<Rightarrow> (case latencyMs r of None \<Rightarrow> 0 | Some l \<Rightarrow> l))"

definition hop_failed :: "AutoHopResult option \<Rightarrow> bool" where
  "hop_failed r = (case r of None \<Rightarrow> False | Some r \<Rightarrow> failed_sample r)"

definition chain_latency :: "int \<Rightarrow> bool \<Rightarrow> (int \<Rightarrow> AutoHopResult option) \<Rightarrow> hop_aggregate option" where
  "chain_latency count early sample =
     (if early \<and> (\<exists>i\<in>{0..<count}. hop_failed (sample i)) then Some (False, None)
      else if \<exists>i\<in>{0..<count}. sample i = None then None
      else if \<exists>i\<in>{0..<count}. hop_failed (sample i) then Some (False, None)
      else Some (True, Some (\<Sum>i = 0..<count. sample_latency (sample i))))"

definition auto_ok :: "auto_state \<Rightarrow> bool" where
  "auto_ok m \<longleftrightarrow> keys_distinct m \<and> (\<forall>key hops. map_of m key = Some hops \<longrightarrow> keys_distinct hops \<and> (\<forall>i\<in>fst ` set hops. 0 \<le> i))"

lemma chain_latency_cong:
  assumes "\<And>i. 0 \<le> i \<Longrightarrow> i < count \<Longrightarrow> f i = g i"
  shows "chain_latency count early f = chain_latency count early g"
proof -
  have a: "(\<exists>i\<in>{0..<count}. hop_failed (f i)) = (\<exists>i\<in>{0..<count}. hop_failed (g i))"
    and b: "(\<exists>i\<in>{0..<count}. f i = None) = (\<exists>i\<in>{0..<count}. g i = None)"
    using assms by auto
  have c: "(\<Sum>i = 0..<count. sample_latency (f i)) = (\<Sum>i = 0..<count. sample_latency (g i))"
    by (rule sum.cong) (simp_all add: assms)
  show ?thesis unfolding chain_latency_def a b c ..
qed

lemma collect_hops_eq:
  "collect_hops hops count gen now is =
     (if \<exists>i\<in>set is. fresh_sample count gen now hops i = None then None
      else Some (map (\<lambda>i. the (fresh_sample count gen now hops i)) is))"
  by (induction "is") (auto simp: fresh_sample_def split: option.splits)

lemma map_of_filter_distinct:
  "keys_distinct m \<Longrightarrow> map_of (filter (\<lambda>(k, v). P k v) m) k =
    (case map_of m k of None \<Rightarrow> None | Some v \<Rightarrow> if P k v then Some v else None)"
  by (induction m) (auto simp: keys_distinct_def map_of_eq_None_iff split: option.splits)

lemma sum_list_upto: "sum_list (map f [0..n - 1]) = (\<Sum>i = 0..<n. f i :: int)"
proof -
  have "set [0..n - 1] = {0..<n}" by auto
  then show ?thesis by (simp add: sum_list_distinct_conv_sum_set)
qed

lemma aggregate_hops_eq:
  assumes kd: "keys_distinct hops"
    and all: "\<And>i r. map_of hops i = Some r \<Longrightarrow> 0 \<le> i \<and> i < count \<and> \<not> stale_hop count gen now r"
  shows "aggregate_hops hops count gen now early = chain_latency count early (map_of hops)"
proof -
  have fr: "fresh_sample count gen now hops i = map_of hops i" for i
    using all [of i] by (auto simp: fresh_sample_def split: option.splits)
  have "list_ex (\<lambda>(idx, r). generation r = gen \<and> now - recordedAt r \<le> AUTO_HOP_TTL_MS \<and> failed_sample r) hops
      \<longleftrightarrow> (\<exists>i r. map_of hops i = Some r \<and> generation r = gen \<and> now - recordedAt r \<le> AUTO_HOP_TTL_MS \<and> failed_sample r)"
    unfolding keys_distinct_mem [OF kd, symmetric] by (auto simp: list_ex_iff)
  also have "\<dots> \<longleftrightarrow> (\<exists>i\<in>{0..<count}. hop_failed (map_of hops i))"
  proof (intro iffI; elim exE bexE conjE)
    fix i r assume "map_of hops i = Some r" "failed_sample r"
    then show "\<exists>i\<in>{0..<count}. hop_failed (map_of hops i)"
      using all [of i r] by (intro bexI [of _ i]) (simp_all add: hop_failed_def)
  next
    fix i assume "hop_failed (map_of hops i)"
    then obtain r where "map_of hops i = Some r" "failed_sample r" by (auto simp: hop_failed_def split: option.splits)
    then show "\<exists>i r. map_of hops i = Some r \<and> generation r = gen \<and> now - recordedAt r \<le> AUTO_HOP_TTL_MS \<and> failed_sample r"
      using all [of i r] by (intro exI [of _ i] exI [of _ r]) (simp add: stale_hop_def)
  qed
  finally have early: "list_ex (\<lambda>(idx, r). generation r = gen \<and> now - recordedAt r \<le> AUTO_HOP_TTL_MS \<and> failed_sample r) hops
      \<longleftrightarrow> (\<exists>i\<in>{0..<count}. hop_failed (map_of hops i))" .
  have rng: "set [0..count - 1] = {0..<count}" by auto
  have col: "collect_hops hops count gen now [0..count - 1] =
      (if \<exists>i\<in>{0..<count}. map_of hops i = None then None else Some (map (\<lambda>i. the (map_of hops i)) [0..count - 1]))"
    unfolding collect_hops_eq fr rng ..
  show ?thesis
  proof (cases "\<exists>i\<in>{0..<count}. map_of hops i = None")
    case True
    then show ?thesis by (simp add: aggregate_hops_def early col chain_latency_def)
  next
    case False
    have failed: "list_ex failed_sample (map (\<lambda>i. the (map_of hops i)) [0..count - 1]) \<longleftrightarrow> (\<exists>i\<in>{0..<count}. hop_failed (map_of hops i))"
      unfolding list_ex_iff using False by (force simp: hop_failed_def rng split: option.splits)
    have "map ((\<lambda>r. case latencyMs r of None \<Rightarrow> 0 | Some l \<Rightarrow> l) \<circ> (\<lambda>i. the (map_of hops i))) [0..count - 1]
        = map (\<lambda>i. sample_latency (map_of hops i)) [0..count - 1]"
    proof (intro map_cong refl)
      fix i assume "i \<in> set [0..count - 1]"
      then have "map_of hops i \<noteq> None" using False rng by (metis (no_types))
      then obtain r where "map_of hops i = Some r" by blast
      then show "((\<lambda>r. case latencyMs r of None \<Rightarrow> 0 | Some l \<Rightarrow> l) \<circ> (\<lambda>i. the (map_of hops i))) i = sample_latency (map_of hops i)"
        by (simp add: sample_latency_def)
    qed
    then have total: "sum_list (map (\<lambda>r. case latencyMs r of None \<Rightarrow> 0 | Some l \<Rightarrow> l) (map (\<lambda>i. the (map_of hops i)) [0..count - 1]))
        = (\<Sum>i = 0..<count. sample_latency (map_of hops i))"
      by (simp add: sum_list_upto)
    have "(\<exists>i\<in>{0..<count}. map_of hops i = None) = False" using False by blast
    then show ?thesis by (simp only: aggregate_hops_def early col chain_latency_def failed total if_False option.case)
  qed
qed

lemma cleanup_lookup:
  assumes "auto_ok m"
  shows "map_of (cleanupTunnelHopResults key count gen now m) key =
      (case map_of m key of None \<Rightarrow> None
       | Some hops \<Rightarrow> (let hops' = filter (\<lambda>(idx, r). \<not> drop_hop count gen now idx r) hops in if hops' = [] then None else Some hops'))"
    "key' \<noteq> key \<Longrightarrow> map_of (cleanupTunnelHopResults key count gen now m) key' = map_of m key'"
  by (auto simp: cleanupTunnelHopResults_def Let_def alist_simps split: option.splits)

lemma aggregate_spec:
  assumes ok: "auto_ok m"
  shows "fst (aggregateTunnelHopResults key count gen now early m) =
    (case map_of m key of None \<Rightarrow> None
     | Some hops \<Rightarrow> if \<forall>i\<in>{0..<count}. fresh_sample count gen now hops i = None then None
                     else chain_latency count early (fresh_sample count gen now hops))"
proof (cases "map_of m key")
  case None
  then show ?thesis by (simp add: aggregateTunnelHopResults_def cleanupTunnelHopResults_def)
next
  case (Some hops)
  define h where "h = filter (\<lambda>(idx, r). \<not> drop_hop count gen now idx r) hops"
  have kd: "keys_distinct hops" and pos: "\<forall>i\<in>fst ` set hops. 0 \<le> i"
    using ok Some unfolding auto_ok_def by blast+
  have nn: "0 \<le> i" if "map_of hops i = Some r" for i r
    using pos map_of_SomeD [OF that] by force
  have kd': "keys_distinct h" unfolding h_def by (rule keys_distinct_filter [OF kd])
  have look: "map_of h i = (case map_of hops i of None \<Rightarrow> None | Some r \<Rightarrow> if \<not> drop_hop count gen now i r then Some r else None)" for i
    unfolding h_def by (rule map_of_filter_distinct [OF kd])
  have same: "map_of h i = fresh_sample count gen now hops i" if "i < count" for i
    using that by (simp add: look fresh_sample_def drop_hop_def split: option.splits)
  have empty: "h = [] \<longleftrightarrow> (\<forall>i\<in>{0..<count}. fresh_sample count gen now hops i = None)"
  proof -
    have "h = [] \<longleftrightarrow> (\<forall>i. map_of h i = None)" by (metis map_of_eq_Some_iff [OF kd' [unfolded keys_distinct_def]] list.set_intros(1) map_of.simps(1) option.distinct(1) surj_pair list.exhaust)
    also have "\<dots> \<longleftrightarrow> (\<forall>i\<in>{0..<count}. map_of h i = None)"
      using nn by (auto simp: look drop_hop_def split: option.splits)
    also have "\<dots> \<longleftrightarrow> (\<forall>i\<in>{0..<count}. fresh_sample count gen now hops i = None)" using same by auto
    finally show ?thesis .
  qed
  have cong: "chain_latency count early (map_of h) = chain_latency count early (fresh_sample count gen now hops)"
    by (rule chain_latency_cong) (simp add: same)
  have agg: "aggregate_hops h count gen now early = chain_latency count early (map_of h)"
    by (rule aggregate_hops_eq [OF kd']) (use nn in \<open>auto simp: look drop_hop_def split: option.splits if_splits\<close>)
  show ?thesis
    using cleanup_lookup(1) [OF ok, where key = key and count = count and gen = gen and now = now, folded h_def] Some empty
    by (simp add: h_def [symmetric] aggregateTunnelHopResults_def Let_def agg cong)
qed

lemma aggregate_state:
  "snd (aggregateTunnelHopResults key count gen now early m) = cleanupTunnelHopResults key count gen now m"
  by (simp add: aggregateTunnelHopResults_def Let_def split: option.splits)

definition hops_of :: "auto_state \<Rightarrow> string \<Rightarrow> hop_map" where
  "hops_of m key = (case map_of m key of None \<Rightarrow> [] | Some hs \<Rightarrow> hs)"

lemma auto_ok_hops:
  assumes "auto_ok m"
  shows "keys_distinct (hops_of m key)" "i \<in> fst ` set (hops_of m key) \<Longrightarrow> 0 \<le> i"
  using assms by (cases "map_of m key"; auto simp: auto_ok_def hops_of_def)+

lemma auto_ok_set:
  assumes "auto_ok m" "keys_distinct hops" "\<And>i. i \<in> fst ` set hops \<Longrightarrow> 0 \<le> i"
  shows "auto_ok (alist_set key hops m)"
  using assms by (simp add: auto_ok_def alist_simps)

lemma auto_ok_cleanup:
  assumes ok: "auto_ok m"
  shows "auto_ok (cleanupTunnelHopResults key count gen now m)"
proof (cases "map_of m key")
  case None
  then show ?thesis using ok by (simp add: cleanupTunnelHopResults_def)
next
  case (Some hops)
  let ?h = "filter (\<lambda>(idx, r). \<not> drop_hop count gen now idx r) hops"
  have h: "keys_distinct ?h" "\<And>i. i \<in> fst ` set ?h \<Longrightarrow> 0 \<le> i"
    using auto_ok_hops [OF ok, where key = key] Some by (auto simp: hops_of_def keys_distinct_filter)
  have "auto_ok (alist_delete key m)" using ok by (simp add: auto_ok_def alist_simps)
  moreover have "auto_ok (alist_set key ?h m)" by (rule auto_ok_set [OF ok h])
  ultimately show ?thesis by (simp add: cleanupTunnelHopResults_def Some Let_def)
qed

text \<open>What a valid report leaves in the state before the aggregation.\<close>

definition stored_report :: "hop_report \<Rightarrow> int \<Rightarrow> auto_state \<Rightarrow> auto_state" where
  "stored_report i now m =
     (let key = tunnelPathStateKey (hr_tunnelId i) (hr_pathKey i) in
      alist_set key (alist_set (hr_hopIndex i) (report_sample i now)
        (filter (\<lambda>(idx, r). \<not> stale_hop (hr_hopCount i) (report_generation i) now r) (hops_of m key))) m)"

definition valid_report :: "hop_report \<Rightarrow> bool" where
  "valid_report i \<longleftrightarrow> hr_tunnelId i > 0 \<and> 0 \<le> hr_hopIndex i \<and> hr_hopIndex i < hr_hopCount i"

lemma record_unfold:
  "valid_report i \<Longrightarrow> recordTunnelAutoHopLatency i now m =
     aggregateTunnelHopResults (tunnelPathStateKey (hr_tunnelId i) (hr_pathKey i)) (hr_hopCount i) (report_generation i) now
       (hr_allowEarlyFailure i) (stored_report i now m)"
  by (simp add: recordTunnelAutoHopLatency_def valid_report_def stored_report_def hops_of_def Let_def)

lemma stored_report_ok:
  assumes "auto_ok m" "valid_report i"
  shows "auto_ok (stored_report i now m)"
proof -
  let ?h = "hops_of m (tunnelPathStateKey (hr_tunnelId i) (hr_pathKey i))"
  let ?k = "filter (\<lambda>(idx, r). \<not> stale_hop (hr_hopCount i) (report_generation i) now r) ?h"
  have "keys_distinct (alist_set (hr_hopIndex i) (report_sample i now) ?k)"
    using auto_ok_hops(1) [OF assms(1)] by (simp add: alist_simps)
  moreover have "0 \<le> j" if "j \<in> fst ` set (alist_set (hr_hopIndex i) (report_sample i now) ?k)" for j
    using that auto_ok_hops(2) [OF assms(1)] assms(2) by (auto simp: keys_alist_set valid_report_def)
  ultimately show ?thesis
    unfolding stored_report_def Let_def by (rule auto_ok_set [OF assms(1)])
qed

lemma stored_report_samples:
  assumes ok: "auto_ok m"
  shows "map_of (stored_report i now m) (tunnelPathStateKey (hr_tunnelId i) (hr_pathKey i)) = Some hops \<Longrightarrow>
      fresh_sample (hr_hopCount i) (report_generation i) now hops j =
       (if j = hr_hopIndex i then Some (report_sample i now)
        else fresh_sample (hr_hopCount i) (report_generation i) now (hops_of m (tunnelPathStateKey (hr_tunnelId i) (hr_pathKey i))) j)"
proof -
  let ?h = "hops_of m (tunnelPathStateKey (hr_tunnelId i) (hr_pathKey i))"
  have f: "map_of (filter (\<lambda>(idx, r). \<not> stale_hop (hr_hopCount i) (report_generation i) now r) ?h) j
      = fresh_sample (hr_hopCount i) (report_generation i) now ?h j" for j
    using map_of_filter_distinct [OF auto_ok_hops(1) [OF ok], of "\<lambda>k r. \<not> stale_hop (hr_hopCount i) (report_generation i) now r"]
    by (auto simp: fresh_sample_def split: option.splits)
  have new: "\<not> stale_hop (hr_hopCount i) (report_generation i) now (report_sample i now)"
    by (simp add: stale_hop_def report_sample_def AUTO_HOP_TTL_MS_def)
  show "fresh_sample (hr_hopCount i) (report_generation i) now hops j =
       (if j = hr_hopIndex i then Some (report_sample i now)
        else fresh_sample (hr_hopCount i) (report_generation i) now ?h j)"
    if "map_of (stored_report i now m) (tunnelPathStateKey (hr_tunnelId i) (hr_pathKey i)) = Some hops"
  proof -
    have "hops = alist_set (hr_hopIndex i) (report_sample i now)
        (filter (\<lambda>(idx, r). \<not> stale_hop (hr_hopCount i) (report_generation i) now r) ?h)"
      using that by (simp add: stored_report_def Let_def alist_simps)
    then have "map_of hops j = (if j = hr_hopIndex i then Some (report_sample i now)
        else fresh_sample (hr_hopCount i) (report_generation i) now ?h j)"
      by (simp add: alist_simps f)
    then show ?thesis
      using new by (auto simp: fresh_sample_def split: option.splits if_splits)
  qed
qed

section \<open>Properties\<close>

text \<open>C33: Recording a hop sample gives the latency of the whole chain exactly from the fresh samples of its hops, those
  of the same topology generation and hop count within the time to live: their sum once every hop has a good sample, a
  failure once every hop is sampled and one failed (at once if early failure is allowed), and no result otherwise. The
  state stays well formed and the samples of other tunnels and paths are not touched.\<close>

theorem chain_latency_from_fresh_samples:
  assumes ok: "auto_ok m" and v: "valid_report i" and key: "key = tunnelPathStateKey (hr_tunnelId i) (hr_pathKey i)"
  shows "fst (recordTunnelAutoHopLatency i now m) = chain_latency (hr_hopCount i) (hr_allowEarlyFailure i)
      (\<lambda>j. if j = hr_hopIndex i then Some (report_sample i now)
           else fresh_sample (hr_hopCount i) (report_generation i) now (hops_of m key) j)
    \<and> auto_ok (snd (recordTunnelAutoHopLatency i now m))
    \<and> (\<forall>other. other \<noteq> key \<longrightarrow> map_of (snd (recordTunnelAutoHopLatency i now m)) other = map_of m other)"
proof -
  note sok = stored_report_ok [OF ok v, of now]
  obtain hops where h: "map_of (stored_report i now m) key = Some hops" by (simp add: stored_report_def Let_def alist_simps key)
  note fr = stored_report_samples [OF ok h [unfolded key], folded key]
  have fe: "fresh_sample (hr_hopCount i) (report_generation i) now hops = (\<lambda>j. if j = hr_hopIndex i then Some (report_sample i now)
      else fresh_sample (hr_hopCount i) (report_generation i) now (hops_of m key) j)"
    using fr by (rule ext)
  have idx: "hr_hopIndex i \<in> {0..<hr_hopCount i}" using v by (simp add: valid_report_def)
  have some: "fresh_sample (hr_hopCount i) (report_generation i) now hops (hr_hopIndex i) \<noteq> None" by (simp add: fr)
  have "fst (recordTunnelAutoHopLatency i now m)
      = chain_latency (hr_hopCount i) (hr_allowEarlyFailure i) (fresh_sample (hr_hopCount i) (report_generation i) now hops)"
    using aggregate_spec [OF sok, where key = key] idx some by (auto simp: record_unfold [OF v] key [symmetric] h)
  moreover have "auto_ok (snd (recordTunnelAutoHopLatency i now m))"
    using auto_ok_cleanup [OF sok] by (simp add: record_unfold [OF v] aggregate_state)
  moreover have "map_of (snd (recordTunnelAutoHopLatency i now m)) other = map_of m other" if "other \<noteq> key" for other
    using cleanup_lookup(2) [OF sok, where key' = other and key = key] that
    by (simp add: record_unfold [OF v] aggregate_state key [symmetric]) (simp add: stored_report_def Let_def alist_simps key)
  ultimately show ?thesis unfolding fe by blast
qed


definition sample_hop :: "int \<Rightarrow> int \<Rightarrow> hop_report" where
  "sample_hop idx ms = \<lparr>hr_tunnelId = 4, hr_hopIndex = idx, hr_hopCount = 2, hr_latencyMs = Some ms, hr_isTimeout = False,
     hr_generation = Some ''g1'', hr_pathKey = None, hr_allowEarlyFailure = False, hr_fromHostId = None, hr_toHostId = None\<rparr>"

theorem chain_latency_from_fresh_samples_witness:
  "fst (recordTunnelAutoHopLatency (sample_hop 1 30) 2000 [(''4:default'', [(0, report_sample (sample_hop 0 12) 1000)])]) = Some (True, Some 42)"
proof -
  let ?m = "[(''4:default'', [(0, report_sample (sample_hop 0 12) 1000)])]"
  have k: "''4:default'' = tunnelPathStateKey (hr_tunnelId (sample_hop 1 30)) (hr_pathKey (sample_hop 1 30))" by code_simp
  have ok: "auto_ok ?m" by (simp add: auto_ok_def keys_distinct_def)
  have v: "valid_report (sample_hop 1 30)" by (simp add: valid_report_def sample_hop_def)
  have g: "report_generation (sample_hop j l) = ''g1''" for j l by (simp add: report_generation_def sample_hop_def text_or_def)
  have r: "{0..<2} = {0, 1 :: int}" by auto
  have "chain_latency 2 False (\<lambda>j. if j = 1 then Some (report_sample (sample_hop 1 30) 2000)
      else fresh_sample 2 ''g1'' 2000 [(0, report_sample (sample_hop 0 12) 1000)] j) = Some (True, Some 42)"
    by (simp add: chain_latency_def r fresh_sample_def stale_hop_def report_sample_def g hop_failed_def failed_sample_def
        sample_latency_def AUTO_HOP_TTL_MS_def) (simp add: sample_hop_def)
  moreover have f: "hr_hopCount (sample_hop j l) = 2" "hr_hopIndex (sample_hop j l) = j" "hr_allowEarlyFailure (sample_hop j l) = False" for j l
    by (simp_all add: sample_hop_def)
  moreover have h: "hops_of ?m ''4:default'' = [(0, report_sample (sample_hop 0 12) 1000)]" by (simp add: hops_of_def)
  ultimately show ?thesis
    using chain_latency_from_fresh_samples [OF ok v k, of 2000, unfolded f g h] by simp
qed

text \<open>The two ways of naming a generation differ: a sample is stored under the first 1024 characters of its generation, but
  \<open>getTunnelAutoHopAggregate\<close> asks for the whole text. Asking for a longer generation gives no result and drops every
  sample of the path.\<close>

lemma long_generation_lost:
  assumes "auto_ok m" "1024 < length g" "tunnelId > 0" "count > 0" "key = tunnelPathStateKey tunnelId pathKey"
    "\<And>r. r \<in> snd ` set (hops_of m key) \<Longrightarrow> length (generation r) \<le> 1024"
  shows "fst (getTunnelAutoHopAggregate tunnelId count (Some g) pathKey early now m) = None"
    "map_of (snd (getTunnelAutoHopAggregate tunnelId count (Some g) pathKey early now m)) key = None"
proof -
  have ne: "generation r \<noteq> g" if "r \<in> snd ` set (hops_of m key)" for r
    using assms(2) assms(6) [OF that] by auto
  have "g \<noteq> []" using assms(2) by auto
  then have get: "getTunnelAutoHopAggregate tunnelId count (Some g) pathKey early now m = aggregateTunnelHopResults key count g now early m"
    using assms(3,4) by (simp add: getTunnelAutoHopAggregate_def text_or_def assms(5) Let_def)
  have drop: "filter (\<lambda>(idx, r). \<not> drop_hop count g now idx r) hops = []" if "map_of m key = Some hops" for hops
    using ne that by (force simp: filter_empty_conv drop_hop_def stale_hop_def hops_of_def)
  have none: "map_of (cleanupTunnelHopResults key count g now m) key = None"
    using drop by (auto simp: cleanup_lookup(1) [OF assms(1)] Let_def split: option.splits)
  then show "fst (getTunnelAutoHopAggregate tunnelId count (Some g) pathKey early now m) = None"
    by (simp add: get aggregateTunnelHopResults_def)
  show "map_of (snd (getTunnelAutoHopAggregate tunnelId count (Some g) pathKey early now m)) key = None"
    unfolding get aggregate_state by (rule none)
qed

section \<open>Facts about several entries\<close>

definition multi_reference :: "MultiEntryPathState \<Rightarrow> int \<Rightarrow> (bool \<times> bool \<times> int option) option" where
  "multi_reference st now =
     (let E = map_of (fresh_probes now (ms_entryHops st)); S = map_of (fresh_probes now (ms_sharedHops st));
          hops = {1..<ms_hopCount st}; expected = set (ms_expectedEntryHostIds st);
          failed = (\<exists>i\<in>hops. \<not> resultSucceeded (S i));
          good = {h \<in> expected. \<not> failed \<and> resultSucceeded (E h)} in
      if \<exists>i\<in>hops. S i = None then None
      else if good \<noteq> {} then
        Some (True, good \<noteq> expected, Some (Max ((\<lambda>h. probe_latency (E h) + (\<Sum>i\<in>hops. probe_latency (S i))) ` good)))
      else if failed \<or> (\<forall>h\<in>expected. E h \<noteq> None) then Some (False, False, None)
      else None)"

lemma collect_shared_eq:
  "collect_shared m is = (if \<exists>i\<in>set is. map_of m i = None then None else Some (map (\<lambda>i. the (map_of m i)) is))"
  by (induction "is") (auto split: option.splits)

lemma succeeded_positive: "resultSucceeded r \<Longrightarrow> probe_latency r > 0"
  by (auto simp: resultSucceeded_def split: option.splits)

definition good_detail :: "(int \<times> EntryProbe) list \<Rightarrow> int \<Rightarrow> int \<Rightarrow> TunnelEntryLatencyDetail" where
  "good_detail E shared h = hd (entry_detail E False shared h)"

lemma entry_detail_successful:
  assumes "\<not> failed \<Longrightarrow> 0 \<le> shared"
  shows "filter (\<lambda>d. \<not> ed_isTimeout d \<and> detail_latency d > 0) (entry_detail E failed shared h) =
    (if \<not> failed \<and> resultSucceeded (map_of E h) then [good_detail E shared h] else [])"
proof (cases "\<not> failed \<and> resultSucceeded (map_of E h)")
  case True
  then have "probe_latency (map_of E h) + shared > 0" "map_of E h \<noteq> None"
    using assms succeeded_positive [of "map_of E h"] by (simp, cases "map_of E h") (auto simp: resultSucceeded_def)
  with True show ?thesis by (simp add: entry_detail_def good_detail_def detail_latency_def Let_def)
qed (auto simp: entry_detail_def Let_def)

lemma good_detail_latency:
  "resultSucceeded (map_of E h) \<Longrightarrow> detail_latency (good_detail E shared h) = probe_latency (map_of E h) + shared"
  by (auto simp: good_detail_def entry_detail_def detail_latency_def resultSucceeded_def Let_def)

lemma concat_singletons: "concat (map (\<lambda>h. if P h then [f h] else []) xs) = map f (filter P xs)"
  by (induction xs) auto

lemma details_length:
  "length (concat (map (entry_detail E failed shared) xs)) = length xs \<longleftrightarrow> failed \<or> (\<forall>h\<in>set xs. map_of E h \<noteq> None)"
proof -
  have l: "length (entry_detail E failed shared h) = (if map_of E h = None \<and> \<not> failed then 0 else 1)" for h
    by (simp add: entry_detail_def Let_def)
  have "length (concat (map (entry_detail E failed shared) xs)) = length (filter (\<lambda>h. failed \<or> map_of E h \<noteq> None) xs)"
    by (induction xs) (auto simp: l)
  then show ?thesis by (metis (mono_tags, lifting) filter_id_conv length_filter_less linorder_neq_iff)
qed

lemma filter_all_length:
  assumes "distinct xs"
  shows "length (filter P xs) < length xs \<longleftrightarrow> {x \<in> set xs. P x} \<noteq> set xs"
proof -
  have "length (filter P xs) < length xs \<longleftrightarrow> (\<exists>x\<in>set xs. \<not> P x)"
    using length_filter_less [of _ xs P] by (metis filter_True less_irrefl)
  then show ?thesis by auto
qed

text \<open>The latency of a tunnel with several entries is put together from fresh samples only: no result while a shared
  hop is missing; otherwise the slowest of the entries that work, each with its own sample plus the sum of the shared
  hops, marked partial exactly if not all expected entries work; and a failure exactly when nothing works and either a
  shared hop failed or every expected entry has reported.\<close>

theorem multi_entry_latency_reference:
  assumes "distinct (ms_expectedEntryHostIds st)"
  shows "map_option (\<lambda>a. (ma_success a, ma_partial a, ma_latencyMs a)) (fst (aggregateMultiEntryState st now)) = multi_reference st now"
proof -
  define E where "E = fresh_probes now (ms_entryHops st)"
  define S where "S = fresh_probes now (ms_sharedHops st)"
  define X where "X = ms_expectedEntryHostIds st"
  define I where "I = {1..<ms_hopCount st}"
  have rng: "set [1..ms_hopCount st - 1] = I" by (auto simp: I_def)
  have st: "ms_entryHops (cleanExpiredResults st now) = E" "ms_sharedHops (cleanExpiredResults st now) = S"
    "ms_hopCount (cleanExpiredResults st now) = ms_hopCount st" "ms_expectedEntryHostIds (cleanExpiredResults st now) = X"
    by (simp_all add: cleanExpiredResults_def E_def S_def X_def)
  show ?thesis
  proof (cases "\<exists>i\<in>I. map_of S i = None")
    case True
    then have "collect_shared S [1..ms_hopCount st - 1] = None" by (simp add: collect_shared_eq rng del: set_upto)
    then show ?thesis
      using True by (simp add: aggregateMultiEntryState_def st multi_reference_def Let_def S_def [symmetric] I_def [symmetric])
  next
    case False
    define rs where "rs = map (\<lambda>i. the (map_of S i)) [1..ms_hopCount st - 1]"
    define failed where "failed = (\<exists>i\<in>I. \<not> resultSucceeded (map_of S i))"
    define L where "L = (\<Sum>i\<in>I. probe_latency (map_of S i))"
    have col: "collect_shared S [1..ms_hopCount st - 1] = Some rs"
      using False unfolding collect_shared_eq rng rs_def by simp
    have the: "Some (the (map_of S i)) = map_of S i" if "i \<in> I" for i using False that by auto
    have f: "list_ex (\<lambda>r. \<not> resultSucceeded (Some r)) rs = failed"
      unfolding failed_def rs_def list_ex_iff set_map rng using the by force
    have "map (\<lambda>r. probe_latency (Some r)) rs = map (\<lambda>i. probe_latency (map_of S i)) [1..ms_hopCount st - 1]"
      unfolding rs_def by (simp add: the rng [symmetric] del: set_upto)
    then have l: "sum_list (map (\<lambda>r. probe_latency (Some r)) rs) = L"
      by (simp add: sum_list_distinct_conv_sum_set L_def rng [symmetric] del: set_upto)
    have L0: "0 \<le> L" if "\<not> failed"
      unfolding L_def by (rule sum_nonneg) (use that succeeded_positive in \<open>auto simp: failed_def intro: less_imp_le\<close>)
    define good where "good = {h \<in> set X. \<not> failed \<and> resultSucceeded (map_of E h)}"
    have succ: "filter (\<lambda>d. \<not> ed_isTimeout d \<and> detail_latency d > 0) (concat (map (entry_detail E failed L) X))
        = map (good_detail E L) (filter (\<lambda>h. \<not> failed \<and> resultSucceeded (map_of E h)) X)"
      by (simp add: filter_concat comp_def entry_detail_successful [OF L0] concat_singletons)
    have lats: "detail_latency ` good_detail E L ` good = (\<lambda>h. probe_latency (map_of E h) + L) ` good"
      by (auto simp: image_image good_def good_detail_latency)
    have ne: "filter (\<lambda>h. \<not> failed \<and> resultSucceeded (map_of E h)) X \<noteq> [] \<longleftrightarrow> good \<noteq> {}"
      by (auto simp: good_def filter_empty_conv)
    have part: "length (filter (\<lambda>h. \<not> failed \<and> resultSucceeded (map_of E h)) X) < length X \<longleftrightarrow> good \<noteq> set X"
      using filter_all_length [OF assms [folded X_def]] by (simp add: good_def)
    have gs: "set (filter (\<lambda>h. \<not> failed \<and> resultSucceeded (map_of E h)) X) = good" by (auto simp: good_def)
    have ref: "multi_reference st now = (if good \<noteq> {} then
        Some (True, good \<noteq> set X, Some (Max ((\<lambda>h. probe_latency (map_of E h) + L) ` good)))
      else if failed \<or> (\<forall>h\<in>set X. map_of E h \<noteq> None) then Some (False, False, None) else None)"
      unfolding multi_reference_def Let_def E_def [symmetric] S_def [symmetric] I_def [symmetric] X_def [symmetric]
        failed_def [symmetric] good_def [symmetric] L_def [symmetric]
      by (simp only: False if_False)
    show ?thesis
      unfolding ref aggregateMultiEntryState_def Let_def st col option.case f l succ map_is_Nil_conv ne length_map part
        set_map gs lats details_length
      by auto
  qed
qed


definition sample_probe :: "int option \<Rightarrow> EntryProbe" where
  "sample_probe l = \<lparr>ep_latencyMs = l, ep_isTimeout = (l = None), ep_label = ''a'', ep_fromHostId = 1, ep_toHostId = None, ep_hopIndex = 0, ep_recordedAt = 1000\<rparr>"

definition sample_paths :: MultiEntryPathState where
  "sample_paths = \<lparr>ms_generation = ''g'', ms_hopCount = 2, ms_expectedEntryHostIds = [1, 2, 3],
     ms_entryHops = [(1, sample_probe (Some 10)), (2, sample_probe (Some 25)), (3, sample_probe None)],
     ms_sharedHops = [(1, sample_probe (Some 7))], ms_updatedAt = 1000\<rparr>"

theorem multi_entry_latency_reference_witness:
  "map_option (\<lambda>a. (ma_success a, ma_partial a, ma_latencyMs a)) (fst (aggregateMultiEntryState sample_paths 2000)) = multi_reference sample_paths 2000
   \<and> map_option ma_latencyMs (fst (aggregateMultiEntryState sample_paths 2000)) = Some (Some 32)"
proof
  show "map_option (\<lambda>a. (ma_success a, ma_partial a, ma_latencyMs a)) (fst (aggregateMultiEntryState sample_paths 2000))
    = multi_reference sample_paths 2000"
    by (rule multi_entry_latency_reference) (simp add: sample_paths_def)
  show "map_option ma_latencyMs (fst (aggregateMultiEntryState sample_paths 2000)) = Some (Some 32)" by code_simp
qed

subsection \<open>Clearing a tunnel\<close>

text \<open>The keys of one tunnel are exactly those with its prefix, so that clearing a tunnel touches no other.\<close>

lemma show_nat_no_colon: "CHR '':'' \<notin> set (show_nat n)"
proof -
  have "\<not> is_digit CHR '':''" by (simp add: is_digit_def)
  then show ?thesis using show_nat_digits [of n] by (auto simp: list_all_iff)
qed

lemma prefix_same_tunnel:
  assumes "0 < t" "0 < u"
  shows "starts_with (show_int t @ '':'') (tunnelPathStateKey u path) \<longleftrightarrow> t = u"
proof -
  let ?a = "show_nat (nat t)" and ?b = "show_nat (nat u)"
  obtain rest where key: "tunnelPathStateKey u path = ?b @ CHR '':'' # rest"
    using assms by (simp add: tunnelPathStateKey_def Let_def show_int_def)
  have "starts_with (?a @ '':'') (?b @ CHR '':'' # rest) \<longleftrightarrow> (\<exists>r. ?b @ CHR '':'' # rest = ?a @ CHR '':'' # r)"
  proof
    assume "starts_with (?a @ '':'') (?b @ CHR '':'' # rest)"
    then have "?b @ CHR '':'' # rest = (?a @ '':'') @ drop (length (?a @ '':'')) (?b @ CHR '':'' # rest)"
      unfolding starts_with_def by (metis append_take_drop_id)
    then show "\<exists>r. ?b @ CHR '':'' # rest = ?a @ CHR '':'' # r" by (metis append.assoc append_Cons append_Nil)
  next
    assume "\<exists>r. ?b @ CHR '':'' # rest = ?a @ CHR '':'' # r"
    then obtain r where "?b @ CHR '':'' # rest = ?a @ CHR '':'' # r" by blast
    then show "starts_with (?a @ '':'') (?b @ CHR '':'' # rest)" by (simp add: starts_with_def)
  qed
  also have "\<dots> \<longleftrightarrow> ?a = ?b"
  proof
    assume "\<exists>r. ?b @ CHR '':'' # rest = ?a @ CHR '':'' # r"
    then obtain r where "js_split CHR '':'' (?b @ CHR '':'' # rest) = js_split CHR '':'' (?a @ CHR '':'' # r)" by auto
    then show "?a = ?b" by (simp add: js_split_append show_nat_no_colon)
  qed auto
  also have "\<dots> \<longleftrightarrow> t = u"
  proof
    assume "?a = ?b"
    then have "digits_val 0 ?a = digits_val 0 ?b" by simp
    then show "t = u" using assms by simp
  qed simp
  finally show ?thesis using assms by (simp add: key show_int_def)
qed

lemma clear_auto_exact:
  assumes "0 < t" "0 < u"
  shows "map_of (clearTunnelAutoHopLatencyState t m) (tunnelPathStateKey u path) = (if t = u then None else map_of m (tunnelPathStateKey u path))"
  using map_of_filter_keys [of "\<lambda>k. \<not> starts_with (show_int t @ '':'') k" m "tunnelPathStateKey u path"] assms prefix_same_tunnel [OF assms]
  by (simp add: clearTunnelAutoHopLatencyState_def case_prod_beta')

lemma clear_multi_exact:
  assumes "0 < t" "0 < u"
  shows "map_of (clearTunnelMultiEntryLatencyState t m) (tunnelPathStateKey u path) = (if t = u then None else map_of m (tunnelPathStateKey u path))"
  using map_of_filter_keys [of "\<lambda>k. \<not> starts_with (show_int t @ '':'') k" m "tunnelPathStateKey u path"] assms prefix_same_tunnel [OF assms]
  by (simp add: clearTunnelMultiEntryLatencyState_def case_prod_beta')

end
