(* ===== verification/AgentLiveness.thy ===== *)
theory AgentLiveness
  imports Prelude
begin

text \<open>
  Liveness of agents: the activity table (server/agentActivity.ts), agent versions (server/agentRouteUtils.ts),
  the tracker that confirms a host offline after a silence and announces transitions
  (server/agentFastLiveness.ts), and the debouncer of offline notifications
  (server/hostOfflineNotificationDebouncer.ts).

  The clock is an argument in milliseconds, read once per synchronous call. \<open>setTimer\<close> gives fresh
  handles; the armed timers with what their callbacks captured are part of the state, and a timer that fires
  is no longer armed. \<open>new Date(String(value || ""))\<close> is the parameter \<open>dateParse\<close>. What \<open>emit\<close> hands to the
  listeners is returned as a list of events.
\<close>

section \<open>Activity of authenticated agents\<close>

definition HOST_ONLINE_TTL_MS :: int where "HOST_ONLINE_TTL_MS = 150 * 1000"

definition activity_id :: "jsval \<Rightarrow> int option" where
  "activity_id v = (case as_integer (to_number v) of None \<Rightarrow> None | Some n \<Rightarrow> if n \<le> 0 then None else Some n)"

definition recordAuthenticatedAgentActivity ::
  "jsval \<Rightarrow> int \<Rightarrow> (int \<times> int) list \<Rightarrow> (int \<times> int) option \<times> (int \<times> int) list" where
  "recordAuthenticatedAgentActivity hostIdValue seenAt seen =
     (case activity_id hostIdValue of None \<Rightarrow> (None, seen)
      | Some hostId \<Rightarrow>
          let acceptedAt = max (case map_of seen hostId of None \<Rightarrow> 0 | Some t \<Rightarrow> t) seenAt in
          (Some (hostId, acceptedAt), alist_set hostId acceptedAt seen))"

definition getLastAuthenticatedAgentActivity :: "jsval \<Rightarrow> (int \<times> int) list \<Rightarrow> int option" where
  "getLastAuthenticatedAgentActivity hostIdValue seen =
     (case activity_id hostIdValue of None \<Rightarrow> None | Some hostId \<Rightarrow> map_of seen hostId)"

definition hasRecentAuthenticatedAgentActivity ::
  "jsval \<Rightarrow> int \<Rightarrow> int \<Rightarrow> (int \<times> int) list \<Rightarrow> bool \<times> (int \<times> int) list" where
  "hasRecentAuthenticatedAgentActivity hostIdValue now ttlMs seen =
     (case as_integer (to_number hostIdValue) of None \<Rightarrow> (False, seen)
      | Some hostId \<Rightarrow>
          (case map_of seen hostId of None \<Rightarrow> (False, seen)
           | Some seenAt \<Rightarrow> if now - seenAt \<le> ttlMs then (True, seen) else (False, alist_delete hostId seen)))"

fun partitionHostsByRecentAgentActivity ::
  "('h \<Rightarrow> jsval) \<Rightarrow> 'h list \<Rightarrow> int \<Rightarrow> int \<Rightarrow> (int \<times> int) list \<Rightarrow> ('h list \<times> 'h list) \<times> (int \<times> int) list" where
  "partitionHostsByRecentAgentActivity hid [] now ttlMs seen = (([], []), seen)"
| "partitionHostsByRecentAgentActivity hid (h # hosts) now ttlMs seen =
     (let (recent, seen1) = hasRecentAuthenticatedAgentActivity (hid h) now ttlMs seen;
          ((act, stale), seen2) = partitionHostsByRecentAgentActivity hid hosts now ttlMs seen1 in
      (if recent then (h # act, stale) else (act, h # stale), seen2))"

definition clearAuthenticatedAgentActivity :: "jsval \<Rightarrow> (int \<times> int) list \<Rightarrow> (int \<times> int) list" where
  "clearAuthenticatedAgentActivity v seen =
     (if v = JUndefined then []
      else (case as_integer (to_number v) of None \<Rightarrow> seen | Some hostId \<Rightarrow> alist_delete hostId seen))"

section \<open>Agent versions\<close>

definition normalizeVersion :: "string \<Rightarrow> string" where
  "normalizeVersion version =
     (case js_trim version of c # s \<Rightarrow> if c = CHR ''v'' \<or> c = CHR ''V'' then s else c # s | [] \<Rightarrow> [])"

fun split_version :: "string \<Rightarrow> string list" where
  "split_version [] = [[]]"
| "split_version (c # s) =
     (if c = CHR ''.'' \<or> c = CHR ''-'' then [] # split_version s
      else (case split_version s of w # ws \<Rightarrow> (c # w) # ws | [] \<Rightarrow> [[c]]))"

text \<open>\<open>Number.parseInt(x, 10) || 0\<close>: the longest prefix of digits, rounded to a double.\<close>

definition version_part :: "string \<Rightarrow> jsnum" where
  "version_part x =
     (let t = dropWhile is_ws x;
          r = (case t of c # s \<Rightarrow> if c = CHR ''+'' \<or> c = CHR ''-'' then s else t | [] \<Rightarrow> []);
          neg = (case t of c # s \<Rightarrow> c = CHR ''-'' | [] \<Rightarrow> False);
          n = rat_of_nat (digits_val 0 (takeWhile is_digit r)) in
      fl (if neg then - n else n))"

text \<open>The sign of the first difference that is not 0. Two infinite parts have the difference \<open>NaN\<close>, which is
  neither 0 nor positive.\<close>

fun compare_parts :: "jsnum list \<Rightarrow> jsnum list \<Rightarrow> int" where
  "compare_parts [] [] = 0"
| "compare_parts (x # xs) [] = (if num_eq x (inum 0) then compare_parts xs [] else if num_lt (inum 0) x then 1 else -1)"
| "compare_parts [] (y # ys) = (if num_eq (inum 0) y then compare_parts [] ys else if num_lt y (inum 0) then 1 else -1)"
| "compare_parts (x # xs) (y # ys) =
     (if num_eq x y \<and> is_finite x then compare_parts xs ys else if num_lt y x then 1 else -1)"

definition compareVersions :: "string \<Rightarrow> string \<Rightarrow> int" where
  "compareVersions a b =
     compare_parts (map version_part (split_version (normalizeVersion a))) (map version_part (split_version (normalizeVersion b)))"

definition isAgentVersionAtLeast :: "string \<Rightarrow> string \<Rightarrow> bool" where
  "isAgentVersionAtLeast version target = (version \<noteq> [] \<and> target \<noteq> [] \<and> compareVersions version target \<ge> 0)"

definition isAgentVersionBehind :: "string \<Rightarrow> string \<Rightarrow> bool" where
  "isAgentVersionBehind version target = (version \<noteq> [] \<and> target \<noteq> [] \<and> compareVersions version target < 0)"

definition hasAgentVersionChanged :: "string \<Rightarrow> string \<Rightarrow> bool" where
  "hasAgentVersionChanged previousVersion reportedVersion =
     (let reported = normalizeVersion reportedVersion in reported \<noteq> [] \<and> reported \<noteq> normalizeVersion previousVersion)"

section \<open>The liveness tracker\<close>

definition AGENT_FAST_LIVENESS_MIN_VERSION :: string where "AGENT_FAST_LIVENESS_MIN_VERSION = ''2.2.171''"
definition AGENT_FAST_LIVENESS_SILENCE_MS :: int where "AGENT_FAST_LIVENESS_SILENCE_MS = 90000"
definition AGENT_FAST_LIVENESS_STARTUP_GRACE_MS :: int where "AGENT_FAST_LIVENESS_STARTUP_GRACE_MS = 90000"

datatype ts_value = TsDate jsnum | TsVal jsval

record AgentFastLivenessHost =
  ah_id :: jsval
  ah_hostId :: jsval
  ah_agentVersion :: "string option"
  ah_version :: "string option"
  ah_isOnline :: jsval
  ah_lastHeartbeat :: ts_value

record AgentFastLivenessState =
  lv_hostId :: int
  lv_agentVersion :: string
  transitionEpoch :: int
  lastSeenAt :: "rat option"
  deadlineAt :: int
  offlineAt :: "int option"
  lastOfflineAt :: "int option"
  confirmedOffline :: bool

record MutableAgentFastLivenessState = AgentFastLivenessState +
  timerGeneration :: int
  lv_timer :: "nat option"

datatype AgentFastLivenessTransitionKind = ConfirmedOffline | ActivityRestored

record AgentFastLivenessTransition = AgentFastLivenessState +
  ev_kind :: AgentFastLivenessTransitionKind

record live_timer =
  lt_host :: int
  lt_generation :: int
  lt_due :: int

record AgentFastLivenessTracker =
  tr_silenceMs :: int
  tr_startupGraceMs :: int
  tr_hosts :: "(int \<times> MutableAgentFastLivenessState) list"
  transitionEpochCounter :: int
  tr_timers :: "(nat \<times> live_timer) list"
  tr_nextTimer :: nat

type_synonym 'a trk_result = "'a \<times> AgentFastLivenessTransition list \<times> AgentFastLivenessTracker"

definition make_tracker :: "int option \<Rightarrow> int option \<Rightarrow> AgentFastLivenessTracker" where
  "make_tracker silence grace = \<lparr>
     tr_silenceMs = max 1 (case silence of None \<Rightarrow> AGENT_FAST_LIVENESS_SILENCE_MS | Some n \<Rightarrow> n),
     tr_startupGraceMs = max 0 (case grace of None \<Rightarrow> AGENT_FAST_LIVENESS_STARTUP_GRACE_MS | Some n \<Rightarrow> n),
     tr_hosts = [], transitionEpochCounter = 0, tr_timers = [], tr_nextTimer = 0\<rparr>"

definition positiveHostId :: "jsval \<Rightarrow> int option" where
  "positiveHostId v = (case as_integer (to_number v) of None \<Rightarrow> None | Some n \<Rightarrow> if n > 0 then Some n else None)"

definition positive_time :: "int \<Rightarrow> jsnum \<Rightarrow> rat option" where
  "positive_time now x = (case x of Fin r \<Rightarrow> if r > 0 then Some (min r (of_int now)) else None | _ \<Rightarrow> None)"

definition normalizedTimestamp :: "(jsval \<Rightarrow> jsnum) \<Rightarrow> ts_value \<Rightarrow> int \<Rightarrow> rat option" where
  "normalizedTimestamp dateParse v now =
     (case v of TsDate t \<Rightarrow> positive_time now t
      | TsVal w \<Rightarrow> (case positive_time now (to_number w) of Some t \<Rightarrow> Some t
                   | None \<Rightarrow> positive_time now (dateParse w)))"

definition nextGeneration :: "int \<Rightarrow> int" where
  "nextGeneration current = (if current \<ge> MAX_SAFE_INTEGER then 1 else current + 1)"

definition snapshot :: "MutableAgentFastLivenessState \<Rightarrow> AgentFastLivenessState" where
  "snapshot s = \<lparr>lv_hostId = lv_hostId s, lv_agentVersion = lv_agentVersion s, transitionEpoch = transitionEpoch s,
     lastSeenAt = lastSeenAt s, deadlineAt = deadlineAt s, offlineAt = offlineAt s, lastOfflineAt = lastOfflineAt s,
     confirmedOffline = confirmedOffline s\<rparr>"

definition supportsAgentFastLiveness :: "string \<Rightarrow> bool" where
  "supportsAgentFastLiveness agentVersion = isAgentVersionAtLeast agentVersion AGENT_FAST_LIVENESS_MIN_VERSION"

definition isCurrentTransition :: "jsval \<Rightarrow> jsval \<Rightarrow> bool option \<Rightarrow> AgentFastLivenessTracker \<Rightarrow> bool" where
  "isCurrentTransition hostIdValue epochValue offline tr =
     (case (positiveHostId hostIdValue, as_safe_integer (to_number epochValue)) of
        (Some hostId, Some epoch) \<Rightarrow>
          epoch > 0 \<and>
          (case map_of (tr_hosts tr) hostId of None \<Rightarrow> False
           | Some s \<Rightarrow> transitionEpoch s = epoch \<and> (offline = None \<or> offline = Some (confirmedOffline s)))
      | _ \<Rightarrow> False)"

text \<open>\<open>emit\<close>: the event carries a snapshot; its \<open>isCurrent\<close> is \<open>event_isCurrent\<close>.\<close>

definition emit :: "AgentFastLivenessTransitionKind \<Rightarrow> MutableAgentFastLivenessState \<Rightarrow> AgentFastLivenessTransition" where
  "emit k s = AgentFastLivenessState.extend (snapshot s) \<lparr>ev_kind = k\<rparr>"

definition event_isCurrent :: "AgentFastLivenessTransition \<Rightarrow> AgentFastLivenessTracker \<Rightarrow> bool" where
  "event_isCurrent e tr =
     isCurrentTransition (JNum (inum (lv_hostId e))) (JNum (inum (transitionEpoch e))) (Some (ev_kind e = ConfirmedOffline)) tr"

definition set_state :: "MutableAgentFastLivenessState \<Rightarrow> AgentFastLivenessTracker \<Rightarrow> AgentFastLivenessTracker" where
  "set_state s tr = tr\<lparr>tr_hosts := alist_set (lv_hostId s) s (tr_hosts tr)\<rparr>"

definition clear_live_timer :: "nat option \<Rightarrow> AgentFastLivenessTracker \<Rightarrow> AgentFastLivenessTracker" where
  "clear_live_timer t tr = (case t of None \<Rightarrow> tr | Some k \<Rightarrow> tr\<lparr>tr_timers := alist_delete k (tr_timers tr)\<rparr>)"

definition arm :: "int \<Rightarrow> MutableAgentFastLivenessState \<Rightarrow> AgentFastLivenessTracker \<Rightarrow> AgentFastLivenessTracker" where
  "arm now s tr =
     (let t = tr_nextTimer tr; delayMs = max 0 (deadlineAt s - now) in
      set_state (s\<lparr>lv_timer := Some t\<rparr>)
        (tr\<lparr>tr_timers := (t, \<lparr>lt_host = lv_hostId s, lt_generation = timerGeneration s, lt_due = now + delayMs\<rparr>) # tr_timers tr,
            tr_nextTimer := t + 1\<rparr>))"

definition refreshed :: "rat \<Rightarrow> int \<Rightarrow> MutableAgentFastLivenessState \<Rightarrow> MutableAgentFastLivenessState" where
  "refreshed seenAt deadline s = s\<lparr>lv_timer := None, timerGeneration := nextGeneration (timerGeneration s),
     lastSeenAt := Some (max (case lastSeenAt s of None \<Rightarrow> 0 | Some t \<Rightarrow> t) seenAt),
     deadlineAt := deadline, confirmedOffline := False, offlineAt := None\<rparr>"

definition observeActivity :: "(jsval \<Rightarrow> jsnum) \<Rightarrow> jsval \<Rightarrow> ts_value \<Rightarrow> int \<Rightarrow> AgentFastLivenessTracker \<Rightarrow> bool trk_result" where
  "observeActivity dateParse hostIdValue seenAtValue now tr =
     (case positiveHostId hostIdValue of None \<Rightarrow> (False, [], tr)
      | Some hostId \<Rightarrow>
        (case map_of (tr_hosts tr) hostId of None \<Rightarrow> (False, [], tr)
         | Some s \<Rightarrow>
             let seenAt = (case normalizedTimestamp dateParse seenAtValue now of None \<Rightarrow> of_int now | Some t \<Rightarrow> t);
                 wasOffline = confirmedOffline s;
                 tr1 = clear_live_timer (lv_timer s) tr;
                 s1 = refreshed seenAt (now + tr_silenceMs tr) s;
                 epoch = nextGeneration (transitionEpochCounter tr1);
                 tr2 = (if wasOffline then tr1\<lparr>transitionEpochCounter := epoch\<rparr> else tr1);
                 s2 = (if wasOffline then s1\<lparr>transitionEpoch := epoch\<rparr> else s1) in
             (True, if wasOffline then [emit ActivityRestored s2] else [], arm now s2 tr2)))"

definition removeHost :: "jsval \<Rightarrow> AgentFastLivenessTracker \<Rightarrow> bool \<times> AgentFastLivenessTracker" where
  "removeHost hostIdValue tr =
     (case positiveHostId hostIdValue of None \<Rightarrow> (False, tr)
      | Some hostId \<Rightarrow>
        (case map_of (tr_hosts tr) hostId of None \<Rightarrow> (False, tr)
         | Some s \<Rightarrow> (True, (clear_live_timer (lv_timer s) tr)\<lparr>tr_hosts := alist_delete hostId (tr_hosts tr)\<rparr>)))"

definition initial_state ::
  "(jsval \<Rightarrow> jsnum) \<Rightarrow> AgentFastLivenessHost \<Rightarrow> int \<Rightarrow> string \<Rightarrow> bool \<Rightarrow> ts_value option \<Rightarrow> int \<Rightarrow> AgentFastLivenessTracker \<Rightarrow> MutableAgentFastLivenessState" where
  "initial_state dateParse host hostId agentVersion startupGrace activityAtValue now tr =
     (let activityAt = (case activityAtValue of None \<Rightarrow> None
            | Some v \<Rightarrow> Some (case normalizedTimestamp dateParse v now of None \<Rightarrow> of_int now | Some t \<Rightarrow> t));
          persistedSeenAt = normalizedTimestamp dateParse (ah_lastHeartbeat host) now;
          persistedOffline = (startupGrace \<and> ah_isOnline host \<in> {JBool False, JNum (inum 0), JStr ''0''});
          deadlineDelay = (if startupGrace \<and> activityAt = None then tr_startupGraceMs tr else tr_silenceMs tr) in
      \<lparr>lv_hostId = hostId, lv_agentVersion = agentVersion, transitionEpoch = 0,
       lastSeenAt = (case activityAt of None \<Rightarrow> persistedSeenAt | Some t \<Rightarrow> Some t),
       deadlineAt = now + deadlineDelay, offlineAt = None,
       lastOfflineAt = (if persistedOffline then Some now else None), confirmedOffline = False,
       timerGeneration = 1, lv_timer = None\<rparr>)"

definition registerHost ::
  "(jsval \<Rightarrow> jsnum) \<Rightarrow> AgentFastLivenessHost \<Rightarrow> bool \<Rightarrow> ts_value option \<Rightarrow> int \<Rightarrow> AgentFastLivenessTracker \<Rightarrow> bool trk_result" where
  "registerHost dateParse host startupGrace activityAtValue now tr =
     (case positiveHostId (if is_nullish (ah_hostId host) then ah_id host else ah_hostId host) of None \<Rightarrow> (False, [], tr)
      | Some hostId \<Rightarrow>
        let agentVersion = js_trim (case ah_agentVersion host of Some v \<Rightarrow> v
                             | None \<Rightarrow> (case ah_version host of Some v \<Rightarrow> v | None \<Rightarrow> [])) in
        if \<not> supportsAgentFastLiveness agentVersion
        then (False, [], snd (removeHost (JNum (inum hostId)) tr))
        else
          (case map_of (tr_hosts tr) hostId of
             Some existing \<Rightarrow>
               let tr1 = set_state (existing\<lparr>lv_agentVersion := agentVersion\<rparr>) tr in
               (case activityAtValue of None \<Rightarrow> (True, [], tr1)
                | Some v \<Rightarrow> (True, snd (observeActivity dateParse (JNum (inum hostId)) v now tr1)))
           | None \<Rightarrow>
               let s = initial_state dateParse host hostId agentVersion startupGrace activityAtValue now tr in
               (True, [], arm now s (set_state s tr))))"

fun primeHosts :: "(jsval \<Rightarrow> jsnum) \<Rightarrow> AgentFastLivenessHost list \<Rightarrow> int \<Rightarrow> AgentFastLivenessTracker \<Rightarrow> nat trk_result" where
  "primeHosts dateParse [] now tr = (0, [], tr)"
| "primeHosts dateParse (host # hosts) now tr =
     (let (ok, es, tr1) = registerHost dateParse host True None now tr;
          (eligible, es', tr2) = primeHosts dateParse hosts now tr1 in
      (if ok then eligible + 1 else eligible, es @ es', tr2))"

definition registerPresenceCapableHost ::
  "(jsval \<Rightarrow> jsnum) \<Rightarrow> jsval \<Rightarrow> ts_value \<Rightarrow> int \<Rightarrow> AgentFastLivenessTracker \<Rightarrow> bool trk_result" where
  "registerPresenceCapableHost dateParse hostIdValue seenAtValue now tr =
     (case positiveHostId hostIdValue of None \<Rightarrow> (False, [], tr)
      | Some hostId \<Rightarrow>
          if map_of (tr_hosts tr) hostId \<noteq> None
          then observeActivity dateParse (JNum (inum hostId)) seenAtValue now tr
          else registerHost dateParse \<lparr>ah_id = JUndefined, ah_hostId = JNum (inum hostId),
                 ah_agentVersion = Some AGENT_FAST_LIVENESS_MIN_VERSION, ah_version = None,
                 ah_isOnline = JUndefined, ah_lastHeartbeat = TsVal JUndefined\<rparr> False (Some seenAtValue) now tr)"

definition clear_tracker :: "AgentFastLivenessTracker \<Rightarrow> AgentFastLivenessTracker" where
  "clear_tracker tr = (let tr1 = foldl (\<lambda>acc e. clear_live_timer (lv_timer (snd e)) acc) tr (tr_hosts tr) in tr1\<lparr>tr_hosts := []\<rparr>)"

definition hasHost :: "jsval \<Rightarrow> AgentFastLivenessTracker \<Rightarrow> bool" where
  "hasHost v tr = (case positiveHostId v of None \<Rightarrow> False | Some hostId \<Rightarrow> map_of (tr_hosts tr) hostId \<noteq> None)"

definition isConfirmedOffline :: "jsval \<Rightarrow> AgentFastLivenessTracker \<Rightarrow> bool" where
  "isConfirmedOffline v tr = (case positiveHostId v of None \<Rightarrow> False
     | Some hostId \<Rightarrow> (case map_of (tr_hosts tr) hostId of None \<Rightarrow> False | Some s \<Rightarrow> confirmedOffline s))"

definition tracker_state :: "jsval \<Rightarrow> AgentFastLivenessTracker \<Rightarrow> AgentFastLivenessState option" where
  "tracker_state v tr = (case positiveHostId v of None \<Rightarrow> None
     | Some hostId \<Rightarrow> map_option snapshot (map_of (tr_hosts tr) hostId))"

definition registeredHostIds :: "AgentFastLivenessTracker \<Rightarrow> int list" where
  "registeredHostIds tr = map fst (tr_hosts tr)"

text \<open>The callback that \<open>arm\<close> passes to \<open>setTimer\<close>.\<close>

definition timer_callback :: "nat \<Rightarrow> int \<Rightarrow> AgentFastLivenessTracker \<Rightarrow> AgentFastLivenessTransition list \<times> AgentFastLivenessTracker" where
  "timer_callback t now tr0 =
     (case map_of (tr_timers tr0) t of None \<Rightarrow> ([], tr0)
      | Some j \<Rightarrow>
        let tr = clear_live_timer (Some t) tr0 in
        (case map_of (tr_hosts tr) (lt_host j) of None \<Rightarrow> ([], tr)
         | Some current \<Rightarrow>
             if timerGeneration current \<noteq> lt_generation j \<or> lv_timer current \<noteq> Some t then ([], tr)
             else
               let c1 = current\<lparr>lv_timer := None\<rparr> in
               if now < deadlineAt c1 then ([], arm now c1 (set_state c1 tr))
               else if confirmedOffline c1 then ([], set_state c1 tr)
               else
                 let epoch = nextGeneration (transitionEpochCounter tr);
                     c2 = c1\<lparr>confirmedOffline := True, offlineAt := Some now, lastOfflineAt := Some now, transitionEpoch := epoch\<rparr> in
                 ([emit ConfirmedOffline c2], set_state c2 (tr\<lparr>transitionEpochCounter := epoch\<rparr>))))"

section \<open>The offline notification debouncer\<close>

text \<open>The pair \<open>(isCurrent, notify)\<close> handed to \<open>schedule\<close> is a payload of type \<open>'a\<close>; when the timer runs, the caller
  says what \<open>isCurrent\<close> answers for it, \<open>None\<close> when it throws.\<close>

definition HOST_OFFLINE_NOTIFICATION_DEBOUNCE_MS :: int where "HOST_OFFLINE_NOTIFICATION_DEBOUNCE_MS = 30000"

record PendingNotification =
  pn_generation :: int
  pn_timer :: nat

record 'a deb_timer =
  dt_host :: int
  dt_generation :: int
  dt_due :: int
  dt_payload :: 'a

record 'a HostOfflineNotificationDebouncer =
  delayMs :: int
  deb_pending :: "(int \<times> PendingNotification) list"
  deb_generation :: int
  deb_timers :: "(nat \<times> 'a deb_timer) list"
  deb_nextTimer :: nat

datatype 'a deb_outcome = DebIgnored | DebError int | DebStale | DebNotify 'a

definition make_debouncer :: "int option \<Rightarrow> 'a HostOfflineNotificationDebouncer" where
  "make_debouncer d = \<lparr>delayMs = max 0 (case d of None \<Rightarrow> HOST_OFFLINE_NOTIFICATION_DEBOUNCE_MS | Some n \<Rightarrow> n),
     deb_pending = [], deb_generation = 0, deb_timers = [], deb_nextTimer = 0\<rparr>"

definition deb_cancel :: "jsval \<Rightarrow> 'a HostOfflineNotificationDebouncer \<Rightarrow> bool \<times> 'a HostOfflineNotificationDebouncer" where
  "deb_cancel hostIdValue d =
     (case positiveHostId hostIdValue of None \<Rightarrow> (False, d)
      | Some hostId \<Rightarrow>
        (case map_of (deb_pending d) hostId of None \<Rightarrow> (False, d)
         | Some p \<Rightarrow> (True, d\<lparr>deb_timers := alist_delete (pn_timer p) (deb_timers d),
                              deb_pending := alist_delete hostId (deb_pending d)\<rparr>)))"

definition deb_schedule :: "jsval \<Rightarrow> 'a \<Rightarrow> int \<Rightarrow> 'a HostOfflineNotificationDebouncer \<Rightarrow> bool \<times> 'a HostOfflineNotificationDebouncer" where
  "deb_schedule hostIdValue payload now d0 =
     (case positiveHostId hostIdValue of None \<Rightarrow> (False, d0)
      | Some hostId \<Rightarrow>
        let d = snd (deb_cancel (JNum (inum hostId)) d0);
            generation = nextGeneration (deb_generation d); t = deb_nextTimer d in
        (True, d\<lparr>deb_generation := generation,
                 deb_timers := (t, \<lparr>dt_host = hostId, dt_generation = generation, dt_due = now + delayMs d, dt_payload = payload\<rparr>) # deb_timers d,
                 deb_nextTimer := t + 1,
                 deb_pending := alist_set hostId \<lparr>pn_generation = generation, pn_timer = t\<rparr> (deb_pending d)\<rparr>))"

definition deb_clear :: "'a HostOfflineNotificationDebouncer \<Rightarrow> 'a HostOfflineNotificationDebouncer" where
  "deb_clear d =
     (let d1 = foldl (\<lambda>acc e. acc\<lparr>deb_timers := alist_delete (pn_timer (snd e)) (deb_timers acc)\<rparr>) d (deb_pending d) in
      d1\<lparr>deb_pending := []\<rparr>)"

definition deb_hasPending :: "jsval \<Rightarrow> 'a HostOfflineNotificationDebouncer \<Rightarrow> bool" where
  "deb_hasPending v d = (case positiveHostId v of None \<Rightarrow> False | Some hostId \<Rightarrow> map_of (deb_pending d) hostId \<noteq> None)"

definition deb_callback ::
  "('a \<Rightarrow> bool option) \<Rightarrow> nat \<Rightarrow> 'a HostOfflineNotificationDebouncer \<Rightarrow> 'a deb_outcome \<times> 'a HostOfflineNotificationDebouncer" where
  "deb_callback isCurrent t d0 =
     (case map_of (deb_timers d0) t of None \<Rightarrow> (DebIgnored, d0)
      | Some j \<Rightarrow>
        let d = d0\<lparr>deb_timers := alist_delete t (deb_timers d0)\<rparr> in
        (case map_of (deb_pending d) (dt_host j) of None \<Rightarrow> (DebIgnored, d)
         | Some current \<Rightarrow>
             if pn_generation current \<noteq> dt_generation j \<or> pn_timer current \<noteq> t then (DebIgnored, d)
             else
               let d1 = d\<lparr>deb_pending := alist_delete (dt_host j) (deb_pending d)\<rparr> in
               (case isCurrent (dt_payload j) of
                  None \<Rightarrow> (DebError (dt_host j), d1)
                | Some False \<Rightarrow> (DebStale, d1)
                | Some True \<Rightarrow> (DebNotify (dt_payload j), d1))))"

section \<open>Runs of the tracker\<close>

datatype trk_action =
    TObserve jsval ts_value
  | TPresence jsval ts_value
  | TRegister AgentFastLivenessHost bool "ts_value option"
  | TRemove jsval
  | TTimer nat
  | TClear

fun trk_step :: "(jsval \<Rightarrow> jsnum) \<Rightarrow> trk_action \<times> int \<Rightarrow> AgentFastLivenessTracker \<Rightarrow> AgentFastLivenessTransition list \<times> AgentFastLivenessTracker" where
  "trk_step dp (TObserve h v, now) tr = snd (observeActivity dp h v now tr)"
| "trk_step dp (TPresence h v, now) tr = snd (registerPresenceCapableHost dp h v now tr)"
| "trk_step dp (TRegister host g a, now) tr = snd (registerHost dp host g a now tr)"
| "trk_step dp (TRemove h, now) tr = ([], snd (removeHost h tr))"
| "trk_step dp (TTimer t, now) tr = timer_callback t now tr"
| "trk_step dp (TClear, now) tr = ([], clear_tracker tr)"

fun trk_run :: "(jsval \<Rightarrow> jsnum) \<Rightarrow> (trk_action \<times> int) list \<Rightarrow> AgentFastLivenessTracker \<Rightarrow> AgentFastLivenessTransition list \<times> AgentFastLivenessTracker" where
  "trk_run dp [] tr = ([], tr)"
| "trk_run dp (a # as) tr = (let (es, tr1) = trk_step dp a tr; (es', tr2) = trk_run dp as tr1 in (es @ es', tr2))"

section \<open>The timers of the tracker\<close>

definition owned_timer :: "int \<Rightarrow> MutableAgentFastLivenessState \<Rightarrow> AgentFastLivenessTracker \<Rightarrow> bool" where
  "owned_timer h s tr \<longleftrightarrow> (\<exists>t j. lv_timer s = Some t \<and> map_of (tr_timers tr) t = Some j \<and> lt_host j = h
     \<and> lt_generation j = timerGeneration s \<and> deadlineAt s \<le> lt_due j)"

definition host_inv :: "int \<Rightarrow> MutableAgentFastLivenessState \<Rightarrow> AgentFastLivenessTracker \<Rightarrow> bool" where
  "host_inv h s tr \<longleftrightarrow> lv_hostId s = h \<and> 0 < h \<and>
     (if confirmedOffline s then lv_timer s = None \<and> (\<exists>t. offlineAt s = Some t \<and> deadlineAt s \<le> t) \<and> 0 < transitionEpoch s
      else offlineAt s = None \<and> owned_timer h s tr)"

text \<open>The invariant, with the host \<open>h\<close> left out while an operation rebuilds its state.\<close>

definition inv_except :: "int option \<Rightarrow> AgentFastLivenessTracker \<Rightarrow> bool" where
  "inv_except x tr \<longleftrightarrow> 0 \<le> transitionEpochCounter tr \<and> (\<forall>t. tr_nextTimer tr \<le> t \<longrightarrow> map_of (tr_timers tr) t = None)
     \<and> (\<forall>h s. Some h \<noteq> x \<and> map_of (tr_hosts tr) h = Some s \<longrightarrow> host_inv h s tr)
     \<and> (\<forall>t j. map_of (tr_timers tr) t = Some j \<longrightarrow>
          Some (lt_host j) \<noteq> x \<and> (\<exists>s. map_of (tr_hosts tr) (lt_host j) = Some s \<and> lv_timer s = Some t))"

abbreviation trk_inv :: "AgentFastLivenessTracker \<Rightarrow> bool" where
  "trk_inv \<equiv> inv_except None"

lemma positiveHostId_int [simp]: "positiveHostId (JNum (inum n)) = (if 0 < n then Some n else None)"
  by (simp add: positiveHostId_def)

lemma positiveHostId_pos: "positiveHostId v = Some h \<Longrightarrow> 0 < h"
  by (auto simp: positiveHostId_def split: option.splits if_splits)

lemma nextGeneration_pos: "0 \<le> n \<Longrightarrow> 0 < nextGeneration n"
  by (simp add: nextGeneration_def)

lemma set_state_simps [simp]:
  "map_of (tr_hosts (set_state s tr)) = (map_of (tr_hosts tr))(lv_hostId s \<mapsto> s)"
  "tr_timers (set_state s tr) = tr_timers tr" "tr_nextTimer (set_state s tr) = tr_nextTimer tr"
  "transitionEpochCounter (set_state s tr) = transitionEpochCounter tr" "tr_silenceMs (set_state s tr) = tr_silenceMs tr"
  "tr_startupGraceMs (set_state s tr) = tr_startupGraceMs tr"
  by (simp_all add: set_state_def alist_simps)

lemma clear_live_timer_simps [simp]:
  "tr_hosts (clear_live_timer t tr) = tr_hosts tr" "tr_nextTimer (clear_live_timer t tr) = tr_nextTimer tr"
  "map_of (tr_timers (clear_live_timer t tr)) k = (if t = Some k then None else map_of (tr_timers tr) k)"
  "transitionEpochCounter (clear_live_timer t tr) = transitionEpochCounter tr"
  "tr_silenceMs (clear_live_timer t tr) = tr_silenceMs tr" "tr_startupGraceMs (clear_live_timer t tr) = tr_startupGraceMs tr"
  by (auto simp: clear_live_timer_def alist_simps split: option.splits)

lemma arm_simps [simp]:
  "map_of (tr_hosts (arm now s tr)) = (map_of (tr_hosts tr))(lv_hostId s \<mapsto> s\<lparr>lv_timer := Some (tr_nextTimer tr)\<rparr>)"
  "map_of (tr_timers (arm now s tr)) = (map_of (tr_timers tr))(tr_nextTimer tr \<mapsto>
     \<lparr>lt_host = lv_hostId s, lt_generation = timerGeneration s, lt_due = now + max 0 (deadlineAt s - now)\<rparr>)"
  "tr_nextTimer (arm now s tr) = Suc (tr_nextTimer tr)" "transitionEpochCounter (arm now s tr) = transitionEpochCounter tr"
  "tr_silenceMs (arm now s tr) = tr_silenceMs tr" "tr_startupGraceMs (arm now s tr) = tr_startupGraceMs tr"
  by (simp_all add: arm_def Let_def)

lemma host_inv_timers: "tr_timers tr' = tr_timers tr \<Longrightarrow> host_inv h s tr' \<longleftrightarrow> host_inv h s tr"
  by (simp add: host_inv_def owned_timer_def)

lemma host_inv_updates [simp]:
  "host_inv h s (tr\<lparr>transitionEpochCounter := n\<rparr>) = host_inv h s tr" "host_inv h s (tr\<lparr>tr_hosts := hs\<rparr>) = host_inv h s tr"
  "host_inv h s (set_state s' tr) = host_inv h s tr"
  by (rule host_inv_timers, simp)+

lemma inv_make [simp]: "trk_inv (make_tracker a b)"
  by (simp add: inv_except_def make_tracker_def)

lemma inv_hostD: "inv_except x tr \<Longrightarrow> map_of (tr_hosts tr) h = Some s \<Longrightarrow> Some h \<noteq> x \<Longrightarrow> host_inv h s tr"
  by (simp add: inv_except_def)

lemma inv_timerD:
  "inv_except x tr \<Longrightarrow> map_of (tr_timers tr) t = Some j \<Longrightarrow>
     Some (lt_host j) \<noteq> x \<and> (\<exists>s. map_of (tr_hosts tr) (lt_host j) = Some s \<and> lv_timer s = Some t)"
  by (simp add: inv_except_def)

lemma inv_exceptI:
  assumes "0 \<le> transitionEpochCounter tr" "\<And>t. tr_nextTimer tr \<le> t \<Longrightarrow> map_of (tr_timers tr) t = None"
    "\<And>h s. Some h \<noteq> x \<Longrightarrow> map_of (tr_hosts tr) h = Some s \<Longrightarrow> host_inv h s tr"
    "\<And>t j. map_of (tr_timers tr) t = Some j \<Longrightarrow>
       Some (lt_host j) \<noteq> x \<and> (\<exists>s. map_of (tr_hosts tr) (lt_host j) = Some s \<and> lv_timer s = Some t)"
  shows "inv_except x tr"
  using assms by (simp add: inv_except_def)

lemma inv_counters: "inv_except x tr \<Longrightarrow> 0 \<le> transitionEpochCounter tr \<and> (\<forall>t. tr_nextTimer tr \<le> t \<longrightarrow> map_of (tr_timers tr) t = None)"
  by (simp add: inv_except_def)

lemma timer_host: "host_inv h s tr \<Longrightarrow> lv_timer s = Some t \<Longrightarrow> \<exists>j. map_of (tr_timers tr) t = Some j \<and> lt_host j = h"
  by (auto simp: host_inv_def owned_timer_def split: if_splits)

lemma host_inv_mono:
  assumes "host_inv h s tr" "\<And>t j. lv_timer s = Some t \<Longrightarrow> map_of (tr_timers tr) t = Some j \<Longrightarrow> map_of (tr_timers tr') t = Some j"
  shows "host_inv h s tr'"
  using assms unfolding host_inv_def owned_timer_def by (metis (no_types, lifting))

lemma inv_clear_timer:
  assumes inv: "trk_inv tr" and s: "map_of (tr_hosts tr) h = Some s"
  shows "inv_except (Some h) (clear_live_timer (lv_timer s) tr)"
proof (rule inv_exceptI)
  note hs = inv_hostD [OF inv s]
  fix k s' assume k: "Some k \<noteq> Some h" and s': "map_of (tr_hosts (clear_live_timer (lv_timer s) tr)) k = Some s'"
  have k': "host_inv k s' tr" using inv_hostD [OF inv] s' by simp
  show "host_inv k s' (clear_live_timer (lv_timer s) tr)"
    by (rule host_inv_mono [OF k']) (use timer_host [OF k'] timer_host [OF hs] k in auto)
next
  fix t j assume t: "map_of (tr_timers (clear_live_timer (lv_timer s) tr)) t = Some j"
  then have "map_of (tr_timers tr) t = Some j" "lv_timer s \<noteq> Some t" by (simp_all split: if_splits)
  with inv_timerD [OF inv this(1)] s
  show "Some (lt_host j) \<noteq> Some h \<and> (\<exists>sa. map_of (tr_hosts (clear_live_timer (lv_timer s) tr)) (lt_host j) = Some sa \<and> lv_timer sa = Some t)"
    by auto
qed (use inv_counters [OF inv] in auto)

lemma inv_epoch [simp]: "0 \<le> n \<Longrightarrow> inv_except x tr \<Longrightarrow> inv_except x (tr\<lparr>transitionEpochCounter := n\<rparr>)"
  by (simp add: inv_except_def)

lemma inv_set_state_except [simp]: "inv_except (Some h) tr \<Longrightarrow> lv_hostId s = h \<Longrightarrow> inv_except (Some h) (set_state s tr)"
  by (simp add: inv_except_def)

lemma inv_arm:
  assumes inv: "inv_except (Some (lv_hostId s)) tr" and s: "0 < lv_hostId s" "\<not> confirmedOffline s" "offlineAt s = None"
  shows "trk_inv (arm now s tr)"
proof (rule inv_exceptI)
  have fresh: "map_of (tr_timers tr) (tr_nextTimer tr) = None" using inv_counters [OF inv] by simp
  fix h s' assume h: "map_of (tr_hosts (arm now s tr)) h = Some s'"
  show "host_inv h s' (arm now s tr)"
  proof (cases "h = lv_hostId s")
    case True
    then show ?thesis using h s by (auto simp: host_inv_def owned_timer_def)
  next
    case False
    then have h': "host_inv h s' tr" using inv_hostD [OF inv] h by simp
    show ?thesis by (rule host_inv_mono [OF h']) (use fresh in auto)
  qed
next
  fix t j assume "map_of (tr_timers (arm now s tr)) t = Some j"
  then show "Some (lt_host j) \<noteq> None \<and> (\<exists>sa. map_of (tr_hosts (arm now s tr)) (lt_host j) = Some sa \<and> lv_timer sa = Some t)"
    using inv_timerD [OF inv, of t j] by (auto split: if_splits)
qed (use inv_counters [OF inv] in auto)

lemma inv_new_host: "trk_inv tr \<Longrightarrow> map_of (tr_hosts tr) h = None \<Longrightarrow> inv_except (Some h) tr"
  unfolding inv_except_def by fastforce

lemma inv_drop_host: "inv_except (Some h) tr \<Longrightarrow> trk_inv (tr\<lparr>tr_hosts := alist_delete h (tr_hosts tr)\<rparr>)"
  by (simp add: inv_except_def alist_simps)

lemma inv_confirmed:
  assumes "inv_except (Some (lv_hostId s)) tr" "host_inv (lv_hostId s) s tr" "confirmedOffline s"
  shows "trk_inv (set_state s tr)"
  using assms by (simp add: inv_except_def)

lemma inv_rename:
  assumes inv: "trk_inv tr" and s: "map_of (tr_hosts tr) h = Some s"
  shows "trk_inv (set_state (s\<lparr>lv_agentVersion := v\<rparr>) tr)"
proof -
  have h: "host_inv h s tr" using inv_hostD [OF inv s] by simp
  then have h': "host_inv h (s\<lparr>lv_agentVersion := v\<rparr>) tr" "lv_hostId s = h" unfolding host_inv_def owned_timer_def by auto
  show ?thesis
  proof (rule inv_exceptI)
    fix t j assume "map_of (tr_timers (set_state (s\<lparr>lv_agentVersion := v\<rparr>) tr)) t = Some j"
    then show "Some (lt_host j) \<noteq> None \<and> (\<exists>sa. map_of (tr_hosts (set_state (s\<lparr>lv_agentVersion := v\<rparr>) tr)) (lt_host j) = Some sa \<and> lv_timer sa = Some t)"
      using inv_timerD [OF inv, of t j] s h'(2) by auto
  qed (use inv_counters [OF inv] inv_hostD [OF inv] h' in \<open>auto split: if_splits\<close>)
qed

section \<open>What each operation does\<close>

lemma refreshed_simps [simp]:
  "lv_hostId (refreshed x d s) = lv_hostId s" "\<not> confirmedOffline (refreshed x d s)" "offlineAt (refreshed x d s) = None"
  "deadlineAt (refreshed x d s) = d" "transitionEpoch (refreshed x d s) = transitionEpoch s"
  by (simp_all add: refreshed_def)

lemma observeE:
  assumes "observeActivity dp hv v now tr = (b, es, tr')"
  obtains (none) "\<not> b" "es = []" "tr' = tr" "\<And>h. positiveHostId hv = Some h \<Longrightarrow> map_of (tr_hosts tr) h = None"
  | (online) h s x where "b" "positiveHostId hv = Some h" "map_of (tr_hosts tr) h = Some s" "\<not> confirmedOffline s" "es = []"
      "tr' = arm now (refreshed x (now + tr_silenceMs tr) s) (clear_live_timer (lv_timer s) tr)"
  | (restored) h s x e s' where "b" "positiveHostId hv = Some h" "map_of (tr_hosts tr) h = Some s" "confirmedOffline s"
      "e = nextGeneration (transitionEpochCounter tr)" "s' = (refreshed x (now + tr_silenceMs tr) s)\<lparr>transitionEpoch := e\<rparr>"
      "es = [emit ActivityRestored s']" "tr' = arm now s' ((clear_live_timer (lv_timer s) tr)\<lparr>transitionEpochCounter := e\<rparr>)"
proof (cases "positiveHostId hv")
  case None
  then show thesis using assms none by (simp add: observeActivity_def)
next
  case h: (Some h)
  show thesis
  proof (cases "map_of (tr_hosts tr) h")
    case None
    then show thesis using assms none h by (simp add: observeActivity_def)
  next
    case s: (Some s)
    show thesis
    proof (cases "confirmedOffline s")
      case True
      with assms h s show thesis by (auto simp: observeActivity_def Let_def intro!: restored [OF _ h s])
    next
      case False
      with assms h s show thesis by (auto simp: observeActivity_def Let_def intro!: online [OF _ h s])
    qed
  qed
qed

lemma timerE:
  assumes "timer_callback t now tr = (es, tr')"
  obtains (none) "es = []" "tr' = tr" "map_of (tr_timers tr) t = None"
  | (stale) j where "map_of (tr_timers tr) t = Some j" "es = []" "tr' = clear_live_timer (Some t) tr"
      "\<nexists>s. map_of (tr_hosts tr) (lt_host j) = Some s \<and> timerGeneration s = lt_generation j \<and> lv_timer s = Some t"
  | (rearmed) j s where "map_of (tr_timers tr) t = Some j" "map_of (tr_hosts tr) (lt_host j) = Some s" "lv_timer s = Some t"
      "now < deadlineAt s" "es = []"
      "tr' = arm now (s\<lparr>lv_timer := None\<rparr>) (set_state (s\<lparr>lv_timer := None\<rparr>) (clear_live_timer (Some t) tr))"
  | (again) j s where "map_of (tr_timers tr) t = Some j" "map_of (tr_hosts tr) (lt_host j) = Some s" "lv_timer s = Some t"
      "confirmedOffline s" "es = []" "tr' = set_state (s\<lparr>lv_timer := None\<rparr>) (clear_live_timer (Some t) tr)"
  | (confirmed) j s s' where "map_of (tr_timers tr) t = Some j" "map_of (tr_hosts tr) (lt_host j) = Some s" "lv_timer s = Some t"
      "\<not> confirmedOffline s" "deadlineAt s \<le> now" "es = [emit ConfirmedOffline s']"
      "s' = s\<lparr>lv_timer := None, confirmedOffline := True, offlineAt := Some now, lastOfflineAt := Some now,
              transitionEpoch := nextGeneration (transitionEpochCounter tr)\<rparr>"
      "tr' = set_state s' ((clear_live_timer (Some t) tr)\<lparr>transitionEpochCounter := nextGeneration (transitionEpochCounter tr)\<rparr>)"
proof (cases "map_of (tr_timers tr) t")
  case None
  then show thesis using assms by (intro none) (simp_all add: timer_callback_def)
next
  case j: (Some j)
  show thesis
  proof (cases "\<exists>s. map_of (tr_hosts tr) (lt_host j) = Some s \<and> timerGeneration s = lt_generation j \<and> lv_timer s = Some t")
    case False
    then show thesis
      using assms j by (intro stale [OF j]; cases "map_of (tr_hosts tr) (lt_host j)") (auto simp: timer_callback_def Let_def)
  next
    case True
    then obtain s where s: "map_of (tr_hosts tr) (lt_host j) = Some s" and g: "timerGeneration s = lt_generation j" "lv_timer s = Some t"
      by blast
    consider "now < deadlineAt s" | "\<not> now < deadlineAt s" "confirmedOffline s" | "\<not> now < deadlineAt s" "\<not> confirmedOffline s" by blast
    then show thesis
    proof cases
      case 1
      then show thesis using assms j s g by (intro rearmed [OF j s]) (simp_all add: timer_callback_def Let_def)
    next
      case 2
      then show thesis using assms j s g by (intro again [OF j s]) (simp_all add: timer_callback_def Let_def)
    next
      case 3
      then show thesis using assms j s g by (intro confirmed [OF j s]) (auto simp: timer_callback_def Let_def)
    qed
  qed
qed

definition new_state :: "int \<Rightarrow> int \<Rightarrow> MutableAgentFastLivenessState \<Rightarrow> bool" where
  "new_state h deadline s \<longleftrightarrow> lv_hostId s = h \<and> 0 < h \<and> \<not> confirmedOffline s \<and> offlineAt s = None \<and> transitionEpoch s = 0 \<and> deadlineAt s = deadline"

lemma initial_state_new:
  "0 < h \<Longrightarrow> new_state h (now + (if g \<and> a = None then tr_startupGraceMs tr else tr_silenceMs tr)) (initial_state dp host h ver g a now tr)"
  by (cases a) (simp_all add: new_state_def initial_state_def Let_def)

lemma registerE:
  assumes "registerHost dp host g a now tr = (b, es, tr')"
  obtains (none) "\<not> b" "es = []" "tr' = tr"
  | (unsupported) h where "\<not> b" "es = []" "tr' = snd (removeHost (JNum (inum h)) tr)"
  | (renamed) h s ver where "b" "map_of (tr_hosts tr) h = Some s" "es = []" "tr' = set_state (s\<lparr>lv_agentVersion := ver\<rparr>) tr"
  | (observed) h s ver v b' where "b" "0 < h" "map_of (tr_hosts tr) h = Some s"
      "observeActivity dp (JNum (inum h)) v now (set_state (s\<lparr>lv_agentVersion := ver\<rparr>) tr) = (b', es, tr')"
  | (added) h s where "b" "map_of (tr_hosts tr) h = None" "es = []" "tr' = arm now s (set_state s tr)"
      "new_state h (now + (if g \<and> a = None then tr_startupGraceMs tr else tr_silenceMs tr)) s"
proof (cases "positiveHostId (if is_nullish (ah_hostId host) then ah_id host else ah_hostId host)")
  case None
  then show thesis using assms by (intro none) (simp_all add: registerHost_def)
next
  case h: (Some h)
  define ver where "ver = js_trim (case ah_agentVersion host of Some v \<Rightarrow> v | None \<Rightarrow> (case ah_version host of Some v \<Rightarrow> v | None \<Rightarrow> []))"
  note defs = registerHost_def h ver_def [symmetric] Let_def
  show thesis
  proof (cases "supportsAgentFastLiveness ver")
    case False
    then show thesis using assms by (intro unsupported [of h]) (simp_all add: defs)
  next
    case supported: True
    show thesis
    proof (cases "map_of (tr_hosts tr) h")
      case None
      then show thesis
        using assms supported positiveHostId_pos [OF h]
        by (intro added [OF _ None _ _ initial_state_new]) (auto simp: defs)
    next
      case s: (Some s)
      show thesis
      proof (cases a)
        case None
        then show thesis using assms supported s by (intro renamed [OF _ s, of ver]) (simp_all add: defs)
      next
        case (Some v)
        then show thesis
          using assms supported s positiveHostId_pos [OF h]
          by (intro observed [where h = h and s = s and ver = ver and v = v and b' = "fst (observeActivity dp (JNum (inum h)) v now (set_state (s\<lparr>lv_agentVersion := ver\<rparr>) tr))"])
             (auto simp: defs prod_eq_iff)
      qed
    qed
  qed
qed

section \<open>The invariant is kept\<close>

lemma inv_observe: "trk_inv tr \<Longrightarrow> observeActivity dp hv v now tr = (b, es, tr') \<Longrightarrow> trk_inv tr'"
proof (erule observeE)
  fix h s x assume "trk_inv tr" "map_of (tr_hosts tr) h = Some s"
    and "tr' = arm now (refreshed x (now + tr_silenceMs tr) s) (clear_live_timer (lv_timer s) tr)"
  then show "trk_inv tr'"
    using inv_clear_timer [of tr h s] inv_hostD [of None tr h s] by (auto simp: host_inv_def intro!: inv_arm)
next
  fix h s x e s' assume "trk_inv tr" "map_of (tr_hosts tr) h = Some s" "e = nextGeneration (transitionEpochCounter tr)"
    and "s' = (refreshed x (now + tr_silenceMs tr) s)\<lparr>transitionEpoch := e\<rparr>"
    and "tr' = arm now s' ((clear_live_timer (lv_timer s) tr)\<lparr>transitionEpochCounter := e\<rparr>)"
  moreover have "0 \<le> nextGeneration (transitionEpochCounter tr)"
    using inv_counters [OF \<open>trk_inv tr\<close>] nextGeneration_pos [of "transitionEpochCounter tr"] by simp
  ultimately show "trk_inv tr'"
    using inv_clear_timer [of tr h s] inv_hostD [of None tr h s] by (auto simp: host_inv_def intro!: inv_arm inv_epoch)
qed simp

lemma inv_remove: "trk_inv tr \<Longrightarrow> trk_inv (snd (removeHost hv tr))"
  by (auto simp: removeHost_def split: option.splits dest: inv_drop_host [OF inv_clear_timer])

lemma inv_register:
  assumes inv: "trk_inv tr" and reg: "registerHost dp host g a now tr = (b, es, tr')"
  shows "trk_inv tr'"
  using reg
proof (cases rule: registerE)
  case (observed h s ver v b')
  then show ?thesis using inv_observe inv_rename [OF inv] by blast
next
  case (added h s)
  then show ?thesis using inv_new_host [OF inv, of h] by (auto simp: new_state_def intro!: inv_arm inv_set_state_except)
qed (use inv inv_remove inv_rename in auto)

lemma inv_timer:
  assumes inv: "trk_inv tr" and fire: "timer_callback t now tr = (es, tr')"
  shows "trk_inv tr'"
  using fire
proof (cases rule: timerE)
  case (stale j)
  then show ?thesis using inv_timerD [OF inv stale(1)] inv_hostD [OF inv] timer_host
    by (metis host_inv_def option.distinct(1) option.inject owned_timer_def)
next
  case (rearmed j s)
  then show ?thesis
    using inv_clear_timer [OF inv rearmed(2)] inv_hostD [OF inv rearmed(2)]
    by (auto simp: host_inv_def intro!: inv_arm inv_set_state_except split: if_splits)
next
  case (again j s)
  then show ?thesis using inv_hostD [OF inv again(2)] by (simp add: host_inv_def)
next
  case (confirmed j s s')
  then show ?thesis
    using inv_clear_timer [OF inv confirmed(2)] inv_hostD [OF inv confirmed(2)] inv_counters [OF inv]
      nextGeneration_pos [of "transitionEpochCounter tr"]
    by (auto simp: host_inv_def intro!: inv_confirmed inv_epoch split: if_splits)
qed (use inv in simp)

lemma clear_timers_of:
  "map_of (tr_timers (foldl (\<lambda>acc e. clear_live_timer (lv_timer (snd e)) acc) tr hs)) t =
     (if \<exists>e\<in>set hs. lv_timer (snd e) = Some t then None else map_of (tr_timers tr) t)"
  "tr_nextTimer (foldl (\<lambda>acc e. clear_live_timer (lv_timer (snd e)) acc) tr hs) = tr_nextTimer tr"
  "transitionEpochCounter (foldl (\<lambda>acc e. clear_live_timer (lv_timer (snd e)) acc) tr hs) = transitionEpochCounter tr"
  "tr_silenceMs (foldl (\<lambda>acc e. clear_live_timer (lv_timer (snd e)) acc) tr hs) = tr_silenceMs tr"
  "tr_startupGraceMs (foldl (\<lambda>acc e. clear_live_timer (lv_timer (snd e)) acc) tr hs) = tr_startupGraceMs tr"
  by (induction hs arbitrary: tr) auto

lemma clear_tracker_simps [simp]:
  "tr_hosts (clear_tracker tr) = []" "transitionEpochCounter (clear_tracker tr) = transitionEpochCounter tr"
  "tr_silenceMs (clear_tracker tr) = tr_silenceMs tr" "tr_startupGraceMs (clear_tracker tr) = tr_startupGraceMs tr"
  by (simp_all add: clear_tracker_def clear_timers_of)

lemma inv_clear:
  assumes inv: "trk_inv tr"
  shows "trk_inv (clear_tracker tr)"
proof -
  have "map_of (tr_timers (clear_tracker tr)) t = None" for t
  proof (cases "map_of (tr_timers tr) t")
    case (Some j)
    then obtain s where "map_of (tr_hosts tr) (lt_host j) = Some s" "lv_timer s = Some t" using inv_timerD [OF inv] by blast
    then show ?thesis by (auto simp: clear_tracker_def clear_timers_of dest!: map_of_SomeD intro!: bexI [of _ "(lt_host j, s)"])
  qed (simp add: clear_tracker_def clear_timers_of)
  then show ?thesis using inv_counters [OF inv] by (simp add: inv_except_def)
qed

section \<open>Contracts kept along a run\<close>

text \<open>A contract of the tracker is a property \<open>I\<close> of its state that every operation keeps when its clock reading
  satisfies \<open>ok\<close>, while all it announces satisfies \<open>E\<close>.\<close>

locale tracker_contract =
  fixes dp :: "jsval \<Rightarrow> jsnum" and ok :: "int \<Rightarrow> bool" and I :: "AgentFastLivenessTracker \<Rightarrow> bool"
    and E :: "AgentFastLivenessTransition \<Rightarrow> bool"
  assumes observe: "ok now \<Longrightarrow> I tr \<Longrightarrow> observeActivity dp hv v now tr = (b, es, tr') \<Longrightarrow> I tr' \<and> list_all E es"
    and register: "ok now \<Longrightarrow> I tr \<Longrightarrow> registerHost dp host g a now tr = (b, es, tr') \<Longrightarrow> I tr' \<and> list_all E es"
    and remove: "I tr \<Longrightarrow> I (snd (removeHost hv tr))"
    and timer: "ok now \<Longrightarrow> I tr \<Longrightarrow> timer_callback t now tr = (es, tr') \<Longrightarrow> I tr' \<and> list_all E es"
    and clear: "I tr \<Longrightarrow> I (clear_tracker tr)"
begin

lemma presence:
  assumes "ok now" "I tr" "registerPresenceCapableHost dp hv v now tr = (b, es, tr')"
  shows "I tr' \<and> list_all E es"
proof (cases "positiveHostId hv")
  case None
  then show ?thesis using assms by (simp add: registerPresenceCapableHost_def)
next
  case (Some h)
  then show ?thesis
    using assms observe [OF assms(1,2), of "JNum (inum h)" v b es tr'] register [OF assms(1,2), of _ False "Some v" b es tr']
    by (auto simp: registerPresenceCapableHost_def simp del: not_None_eq split: if_splits)
qed

lemma step:
  assumes "ok (snd a)" "I tr" "trk_step dp a tr = (es, tr')"
  shows "I tr' \<and> list_all E es"
proof -
  obtain act now where a: "a = (act, now)" by (cases a)
  have ok: "ok now" using assms(1) a by simp
  show ?thesis
  proof (cases act)
    case (TObserve hv v)
    then show ?thesis using assms(3) a observe [OF ok assms(2), of hv v] by (cases "observeActivity dp hv v now tr") auto
  next
    case (TPresence hv v)
    then show ?thesis using assms(3) a presence [OF ok assms(2), of hv v] by (cases "registerPresenceCapableHost dp hv v now tr") auto
  next
    case (TRegister host g v)
    then show ?thesis using assms(3) a register [OF ok assms(2), of host g v] by (cases "registerHost dp host g v now tr") auto
  next
    case (TRemove hv)
    then show ?thesis using assms(3) a remove [OF assms(2), of hv] by auto
  next
    case (TTimer t)
    then show ?thesis using assms(3) a timer [OF ok assms(2), of t] by auto
  next
    case TClear
    then show ?thesis using assms(3) a clear [OF assms(2)] by auto
  qed
qed

lemma run: "list_all (\<lambda>a. ok (snd a)) as \<Longrightarrow> I tr \<Longrightarrow> trk_run dp as tr = (es, tr') \<Longrightarrow> I tr' \<and> list_all E es"
proof (induction as arbitrary: tr es)
  case (Cons a as)
  obtain es1 tr1 es2 where st: "trk_step dp a tr = (es1, tr1)" "trk_run dp as tr1 = (es2, tr')" "es = es1 @ es2"
    using Cons.prems(3) by (auto split: prod.splits)
  from step [OF _ Cons.prems(2) st(1)] Cons.prems(1) have "I tr1 \<and> list_all E es1" by simp
  with Cons.IH [OF _ _ st(2)] Cons.prems(1) st(3) show ?case by simp
qed simp

end

interpretation timers: tracker_contract dp "\<lambda>_. True" trk_inv "\<lambda>_. True" for dp
  by unfold_locales (auto simp: list_all_iff intro: inv_observe inv_register inv_remove inv_timer inv_clear)

lemma primeHosts_run:
  "snd (primeHosts dp hosts now tr) = trk_run dp (map (\<lambda>h. (TRegister h True None, now)) hosts) tr"
  by (induction hosts arbitrary: tr) (auto split: prod.splits simp: prod_eq_iff)

section \<open>No host is confirmed offline within the silence window\<close>

lemma emit_simps [simp]:
  "lv_hostId (emit k s) = lv_hostId s" "transitionEpoch (emit k s) = transitionEpoch s" "ev_kind (emit k s) = k"
  "offlineAt (emit k s) = offlineAt s" "confirmedOffline (emit k s) = confirmedOffline s" "deadlineAt (emit k s) = deadlineAt s"
  "lastSeenAt (emit k s) = lastSeenAt s"
  by (simp_all add: emit_def AgentFastLivenessState.extend_def snapshot_def)

definition guarded :: "int \<Rightarrow> int \<Rightarrow> int \<Rightarrow> AgentFastLivenessTracker \<Rightarrow> bool" where
  "guarded h seen S tr \<longleftrightarrow> trk_inv tr \<and> tr_silenceMs tr = S \<and> S \<le> tr_startupGraceMs tr \<and>
     (\<forall>s. map_of (tr_hosts tr) h = Some s \<longrightarrow> \<not> confirmedOffline s \<and> seen + S \<le> deadlineAt s)"

definition not_offline_event :: "int \<Rightarrow> AgentFastLivenessTransition \<Rightarrow> bool" where
  "not_offline_event h e \<longleftrightarrow> \<not> (ev_kind e = ConfirmedOffline \<and> lv_hostId e = h)"

lemma guarded_observe:
  assumes "seen \<le> now" "guarded h seen S tr" "observeActivity dp hv v now tr = (b, es, tr')"
  shows "guarded h seen S tr' \<and> list_all (not_offline_event h) es"
  using assms(3)
proof (cases rule: observeE)
  case (online k s x)
  then show ?thesis using assms inv_observe [OF _ assms(3)] by (auto simp: guarded_def)
next
  case (restored k s x e s')
  then show ?thesis using assms inv_observe [OF _ assms(3)] by (auto simp: guarded_def not_offline_event_def)
qed (use assms in simp)

lemma guarded_remove: "guarded h seen S tr \<Longrightarrow> guarded h seen S (snd (removeHost hv tr))"
  using inv_remove [of tr hv] by (auto simp: guarded_def removeHost_def alist_simps split: option.splits if_splits)

lemma guarded_rename:
  "guarded h seen S tr \<Longrightarrow> map_of (tr_hosts tr) k = Some s \<Longrightarrow> guarded h seen S (set_state (s\<lparr>lv_agentVersion := ver\<rparr>) tr)"
  using inv_rename [of tr k s ver] inv_hostD [of None tr k s] by (auto simp: guarded_def host_inv_def)

lemma guarded_register:
  assumes "seen \<le> now" "guarded h seen S tr" "registerHost dp host g a now tr = (b, es, tr')"
  shows "guarded h seen S tr' \<and> list_all (not_offline_event h) es"
  using assms(3)
proof (cases rule: registerE)
  case (observed k s ver v b')
  then show ?thesis using guarded_observe [OF assms(1) guarded_rename [OF assms(2)]] by blast
next
  case (added k s)
  then show ?thesis using assms inv_register [OF _ assms(3)] by (auto simp: guarded_def new_state_def split: if_splits)
qed (use assms guarded_remove guarded_rename in auto)

lemma guarded_timer:
  assumes "now < seen + S" "guarded h seen S tr" "timer_callback t now tr = (es, tr')"
  shows "guarded h seen S tr' \<and> list_all (not_offline_event h) es"
proof -
  have inv: "trk_inv tr'" using assms inv_timer by (auto simp: guarded_def)
  have key: "lv_hostId s = lt_host j" if "map_of (tr_hosts tr) (lt_host j) = Some s" for j s
    using assms(2) inv_hostD [of None tr "lt_host j" s] that by (simp add: guarded_def host_inv_def)
  from assms(3) show ?thesis
  proof (cases rule: timerE)
    case (rearmed j s)
    then show ?thesis using assms inv key [OF rearmed(2)] by (auto simp: guarded_def)
  next
    case (again j s)
    then show ?thesis using assms inv key [OF again(2)] by (auto simp: guarded_def)
  next
    case (confirmed j s s')
    then show ?thesis using assms inv key [OF confirmed(2)] by (auto simp: guarded_def not_offline_event_def)
  qed (use assms inv in \<open>auto simp: guarded_def\<close>)
qed

interpretation quiet: tracker_contract dp "\<lambda>now. seen \<le> now \<and> now < seen + S" "guarded h seen S" "not_offline_event h" for dp seen S h
proof unfold_locales
  show "guarded h seen S tr \<Longrightarrow> guarded h seen S (clear_tracker tr)" for tr by (auto simp: guarded_def intro: inv_clear)
qed (rule guarded_observe guarded_register guarded_timer guarded_remove; simp)+

section \<open>Transitions that are current\<close>

text \<open>What one operation can do to the state of a host \<open>h\<close>.\<close>

definition host_step :: "int \<Rightarrow> AgentFastLivenessTracker \<Rightarrow> AgentFastLivenessTransition list \<Rightarrow> AgentFastLivenessTracker \<Rightarrow> bool" where
  "host_step h tr es tr' \<longleftrightarrow>
     transitionEpochCounter tr' = (if es = [] then transitionEpochCounter tr else nextGeneration (transitionEpochCounter tr)) \<and>
     (if \<exists>e\<in>set es. lv_hostId e = h
      then (\<exists>e s'. es = [e] \<and> map_of (tr_hosts tr') h = Some s' \<and> transitionEpoch s' = transitionEpochCounter tr' \<and>
              transitionEpoch e = transitionEpochCounter tr' \<and> confirmedOffline s' = (ev_kind e = ConfirmedOffline))
      else map_of (tr_hosts tr') h = None \<or>
           (\<exists>s'. map_of (tr_hosts tr') h = Some s' \<and>
              (case map_of (tr_hosts tr) h of None \<Rightarrow> transitionEpoch s' = 0
               | Some s \<Rightarrow> transitionEpoch s' = transitionEpoch s \<and> confirmedOffline s' = confirmedOffline s)))"

lemma host_step_observe:
  assumes "trk_inv tr" "observeActivity dp hv v now tr = (b, es, tr')"
  shows "host_step h tr es tr'"
  using assms(2)
proof (cases rule: observeE)
  case (online k s x)
  then show ?thesis using inv_hostD [OF assms(1) online(3)] by (auto simp: host_step_def host_inv_def split: option.splits)
next
  case (restored k s x e s')
  then show ?thesis using inv_hostD [OF assms(1) restored(3)] by (auto simp: host_step_def host_inv_def split: option.splits)
qed (auto simp: host_step_def split: option.splits)

lemma host_step_remove: "host_step h tr [] (snd (removeHost hv tr))"
  by (auto simp: host_step_def removeHost_def alist_simps split: option.splits)

lemma host_step_rename:
  assumes "trk_inv tr" "map_of (tr_hosts tr) k = Some s"
  shows "host_step h (set_state (s\<lparr>lv_agentVersion := ver\<rparr>) tr) es tr' = host_step h tr es tr'"
  using inv_hostD [OF assms] assms(2) by (auto simp: host_step_def host_inv_def split: option.splits if_splits)

lemma host_step_register:
  assumes "trk_inv tr" "registerHost dp host g a now tr = (b, es, tr')"
  shows "host_step h tr es tr'"
  using assms(2)
proof (cases rule: registerE)
  case (renamed k s ver)
  then show ?thesis using inv_hostD [OF assms(1) renamed(2)] by (auto simp: host_step_def host_inv_def split: option.splits)
next
  case (observed k s ver v b')
  then show ?thesis
    using host_step_observe [OF inv_rename [OF assms(1) observed(3)] observed(4), of h] host_step_rename [OF assms(1) observed(3)] by simp
next
  case (added k s)
  then show ?thesis by (auto simp: host_step_def new_state_def split: option.splits)
next
  case (unsupported k)
  then show ?thesis by (simp add: host_step_remove)
qed (auto simp: host_step_def split: option.splits)

lemma host_step_timer:
  assumes "trk_inv tr" "timer_callback t now tr = (es, tr')"
  shows "host_step h tr es tr'"
  using assms(2)
proof (cases rule: timerE)
  case (rearmed j s)
  then show ?thesis using inv_hostD [OF assms(1) rearmed(2)] by (auto simp: host_step_def host_inv_def split: option.splits)
next
  case (again j s)
  then show ?thesis using inv_hostD [OF assms(1) again(2)] by (auto simp: host_step_def host_inv_def split: option.splits)
next
  case (confirmed j s s')
  then show ?thesis using inv_hostD [OF assms(1) confirmed(2)] by (auto simp: host_step_def host_inv_def split: option.splits)
qed (auto simp: host_step_def split: option.splits)

lemma host_step_presence:
  assumes "trk_inv tr" "registerPresenceCapableHost dp hv v now tr = (b, es, tr')"
  shows "host_step h tr es tr'"
proof (cases "positiveHostId hv")
  case None
  then show ?thesis using assms by (auto simp: registerPresenceCapableHost_def host_step_def split: option.splits)
next
  case (Some k)
  then show ?thesis
    using assms host_step_observe [OF assms(1), of dp "JNum (inum k)" v now b es tr' h] host_step_register [OF assms(1), of dp _ False "Some v" now b es tr' h]
    by (auto simp: registerPresenceCapableHost_def simp del: not_None_eq split: if_splits)
qed

lemma host_step_step:
  assumes "trk_inv tr" "trk_step dp a tr = (es, tr')"
  shows "host_step h tr es tr'"
proof -
  obtain act now where a: "a = (act, now)" by (cases a)
  show ?thesis
  proof (cases act)
    case (TObserve hv v)
    then show ?thesis using assms a host_step_observe [OF assms(1), of dp hv v now] by (cases "observeActivity dp hv v now tr") auto
  next
    case (TPresence hv v)
    then show ?thesis
      using assms a host_step_presence [OF assms(1), of dp hv v now] by (cases "registerPresenceCapableHost dp hv v now tr") auto
  next
    case (TRegister host g v)
    then show ?thesis using assms a host_step_register [OF assms(1), of dp host g v now] by (cases "registerHost dp host g v now tr") auto
  next
    case TClear
    then show ?thesis using assms a by (auto simp: host_step_def)
  qed (use assms a host_step_timer [OF assms(1)] host_step_remove in auto)
qed

text \<open>The run as a sequence of tracker states and of events.\<close>

lemma epoch_counter_run:
  assumes "trk_inv tr" "trk_run dp as tr = (es, tr')" "transitionEpochCounter tr + int (length as) \<le> MAX_SAFE_INTEGER"
  shows "transitionEpochCounter tr \<le> transitionEpochCounter tr' \<and> transitionEpochCounter tr' \<le> transitionEpochCounter tr + int (length as)"
  using assms
proof (induction as arbitrary: tr es)
  case (Cons a as)
  obtain es1 tr1 es2 where st: "trk_step dp a tr = (es1, tr1)" "trk_run dp as tr1 = (es2, tr')"
    using Cons.prems(2) by (auto split: prod.splits)
  have "transitionEpochCounter tr1 = transitionEpochCounter tr \<or> transitionEpochCounter tr1 = transitionEpochCounter tr + 1"
    using host_step_step [OF Cons.prems(1) st(1), of 0] Cons.prems(3) by (auto simp: host_step_def nextGeneration_def split: if_splits)
  moreover have "trk_inv tr1" using timers.step [OF _ Cons.prems(1) st(1)] by simp
  ultimately show ?case using Cons.IH [OF _ st(2)] Cons.prems(3) by auto
qed simp

definition at_epoch :: "int \<Rightarrow> int \<Rightarrow> bool \<Rightarrow> AgentFastLivenessTracker \<Rightarrow> bool" where
  "at_epoch h n off tr \<longleftrightarrow> (\<exists>s. map_of (tr_hosts tr) h = Some s \<and> transitionEpoch s = n \<and> confirmedOffline s = off)"

definition left_epoch :: "int \<Rightarrow> int \<Rightarrow> AgentFastLivenessTracker \<Rightarrow> bool" where
  "left_epoch h n tr \<longleftrightarrow> (\<forall>s. map_of (tr_hosts tr) h = Some s \<longrightarrow> transitionEpoch s \<noteq> n)"

lemma epoch_step:
  assumes "host_step h tr es tr'" "0 < n" "n \<le> transitionEpochCounter tr" "transitionEpochCounter tr < MAX_SAFE_INTEGER"
  shows "left_epoch h n tr \<Longrightarrow> left_epoch h n tr'"
    and "at_epoch h n off tr \<Longrightarrow>
      (if (\<forall>e\<in>set es. lv_hostId e \<noteq> h) \<and> map_of (tr_hosts tr') h \<noteq> None then at_epoch h n off tr' else left_epoch h n tr')"
  using assms by (auto simp: host_step_def left_epoch_def at_epoch_def nextGeneration_def split: if_splits option.splits)

lemma left_epoch_run:
  assumes "trk_inv tr" "trk_run dp as tr = (es, tr')" "0 < n" "n \<le> transitionEpochCounter tr"
    "transitionEpochCounter tr + int (length as) \<le> MAX_SAFE_INTEGER" "left_epoch h n tr"
  shows "left_epoch h n tr'"
  using assms
proof (induction as arbitrary: tr es)
  case (Cons a as)
  obtain es1 tr1 es2 where st: "trk_step dp a tr = (es1, tr1)" "trk_run dp as tr1 = (es2, tr')"
    using Cons.prems(2) by (auto split: prod.splits)
  note one = epoch_counter_run [of tr dp "[a]" es1 tr1, OF Cons.prems(1)]
  have "left_epoch h n tr1" using epoch_step(1) [OF host_step_step [OF Cons.prems(1) st(1)]] Cons.prems by simp
  moreover have "trk_inv tr1" using timers.step [OF _ Cons.prems(1) st(1)] by simp
  ultimately show ?case using Cons.IH [OF _ st(2)] Cons.prems one st(1) by simp
qed simp

text \<open>The host stays registered through the run, and nothing is announced for it.\<close>

fun undisturbed :: "(jsval \<Rightarrow> jsnum) \<Rightarrow> int \<Rightarrow> (trk_action \<times> int) list \<Rightarrow> AgentFastLivenessTracker \<Rightarrow> bool" where
  "undisturbed dp h [] tr = hasHost (JNum (inum h)) tr"
| "undisturbed dp h (a # as) tr = (hasHost (JNum (inum h)) tr \<and>
     list_all (\<lambda>e. lv_hostId e \<noteq> h) (fst (trk_step dp a tr)) \<and> undisturbed dp h as (snd (trk_step dp a tr)))"

lemma hasHost_int [simp]: "hasHost (JNum (inum h)) tr \<longleftrightarrow> 0 < h \<and> map_of (tr_hosts tr) h \<noteq> None"
  by (simp add: hasHost_def)

lemma at_epoch_run:
  assumes "trk_inv tr" "trk_run dp as tr = (es, tr')" "0 < n" "n \<le> transitionEpochCounter tr"
    "transitionEpochCounter tr + int (length as) \<le> MAX_SAFE_INTEGER" "at_epoch h n off tr"
  shows "if undisturbed dp h as tr then at_epoch h n off tr' else left_epoch h n tr'"
  using assms
proof (induction as arbitrary: tr es)
  case Nil
  then show ?case using inv_hostD [OF Nil.prems(1)] by (auto simp: at_epoch_def host_inv_def)
next
  case (Cons a as)
  obtain es1 tr1 es2 where st: "trk_step dp a tr = (es1, tr1)" "trk_run dp as tr1 = (es2, tr')"
    using Cons.prems(2) by (auto split: prod.splits)
  note one = epoch_counter_run [of tr dp "[a]" es1 tr1, OF Cons.prems(1)]
  have reg: "0 < h" "map_of (tr_hosts tr) h \<noteq> None"
    using Cons.prems(6) inv_hostD [OF Cons.prems(1)] by (auto simp: at_epoch_def host_inv_def)
  have inv1: "trk_inv tr1" using timers.step [OF _ Cons.prems(1) st(1)] by simp
  have bound: "n \<le> transitionEpochCounter tr1" "transitionEpochCounter tr1 + int (length as) \<le> MAX_SAFE_INTEGER"
    using one Cons.prems st(1) by auto
  note step = epoch_step(2) [OF host_step_step [OF Cons.prems(1) st(1)] Cons.prems(3,4) _ Cons.prems(6)]
  show ?case
  proof (cases "(\<forall>e\<in>set es1. lv_hostId e \<noteq> h) \<and> map_of (tr_hosts tr1) h \<noteq> None")
    case True
    then have "at_epoch h n off tr1" using step Cons.prems(5) by simp
    then show ?thesis using Cons.IH [OF inv1 st(2) Cons.prems(3) bound] True reg st(1) by (simp add: list_all_iff)
  next
    case False
    then have "left_epoch h n tr1" using step Cons.prems(5) by (auto split: if_splits)
    moreover have "\<not> undisturbed dp h (a # as) tr"
      using False reg st(1) by (cases as) (auto simp: list_all_iff)
    ultimately show ?thesis using left_epoch_run [OF inv1 st(2) Cons.prems(3) bound] by (simp only: if_False)
  qed
qed

lemma safe_epoch: "0 < n \<Longrightarrow> n \<le> MAX_SAFE_INTEGER \<Longrightarrow> as_safe_integer (inum n) = Some n"
  by (simp add: as_safe_integer_def)

lemma current_at_epoch:
  assumes "0 < lv_hostId e" "0 < transitionEpoch e" "transitionEpoch e \<le> MAX_SAFE_INTEGER"
  shows "event_isCurrent e tr \<longleftrightarrow> at_epoch (lv_hostId e) (transitionEpoch e) (ev_kind e = ConfirmedOffline) tr"
  using assms by (auto simp: event_isCurrent_def isCurrentTransition_def at_epoch_def safe_epoch split: option.splits)

lemma compare_parts_refl: "list_all is_finite xs \<Longrightarrow> compare_parts xs xs = 0"
  by (induction xs) (auto simp: num_eq_def elim!: is_finite.elims)

lemma version_parts_min: "map version_part (split_version (normalizeVersion AGENT_FAST_LIVENESS_MIN_VERSION)) = [inum 2, inum 2, inum 171]"
proof -
  have "split_version (normalizeVersion AGENT_FAST_LIVENESS_MIN_VERSION) = [''2'', ''2'', ''171'']" by code_simp
  moreover have "digits_val 0 (takeWhile is_digit ''2'') = 2" "digits_val 0 (takeWhile is_digit ''171'') = 171" by code_simp+
  moreover have "dropWhile is_ws ''2'' = ''2''" "dropWhile is_ws ''171'' = ''171''" by code_simp+
  ultimately show ?thesis using fl_of_nat [of 2] fl_of_nat [of 171] by (simp add: version_part_def Let_def)
qed

lemma supports_min: "supportsAgentFastLiveness AGENT_FAST_LIVENESS_MIN_VERSION"
  using compare_parts_refl [of "[inum 2, inum 2, inum 171]"]
  by (simp add: supportsAgentFastLiveness_def isAgentVersionAtLeast_def compareVersions_def version_parts_min
      AGENT_FAST_LIVENESS_MIN_VERSION_def [symmetric]) (simp add: AGENT_FAST_LIVENESS_MIN_VERSION_def)

lemma trim_min: "js_trim AGENT_FAST_LIVENESS_MIN_VERSION = AGENT_FAST_LIVENESS_MIN_VERSION"
  by code_simp

lemma run_from_start:
  assumes "trk_run dp as (make_tracker a b) = (es, tr)"
  shows "trk_inv tr"
  using timers.run [OF _ inv_make assms] by (simp add: list_all_iff)

lemma presence_registers:
  assumes inv: "trk_inv tr" and h: "positiveHostId hv = Some h" and reg: "registerPresenceCapableHost dp hv v now tr = (b, es, tr')"
  shows "b" and "\<exists>s. map_of (tr_hosts tr') h = Some s \<and> \<not> confirmedOffline s \<and> deadlineAt s = now + tr_silenceMs tr"
    and "tr_silenceMs tr' = tr_silenceMs tr" and "tr_startupGraceMs tr' = tr_startupGraceMs tr"
proof -
  have "b \<and> (\<exists>s. map_of (tr_hosts tr') h = Some s \<and> \<not> confirmedOffline s \<and> deadlineAt s = now + tr_silenceMs tr)
      \<and> tr_silenceMs tr' = tr_silenceMs tr \<and> tr_startupGraceMs tr' = tr_startupGraceMs tr"
  proof (cases "map_of (tr_hosts tr) h")
    case None
    then show ?thesis
      using reg h positiveHostId_pos [OF h] supports_min
      by (auto simp: registerPresenceCapableHost_def registerHost_def trim_min Let_def initial_state_def)
  next
    case (Some s)
    then have "observeActivity dp (JNum (inum h)) v now tr = (b, es, tr')" using reg h by (simp add: registerPresenceCapableHost_def)
    then show ?thesis
      using inv_hostD [OF inv Some] Some positiveHostId_pos [OF h] by (cases rule: observeE) (auto simp: host_inv_def)
  qed
  then show "b" "\<exists>s. map_of (tr_hosts tr') h = Some s \<and> \<not> confirmedOffline s \<and> deadlineAt s = now + tr_silenceMs tr"
    "tr_silenceMs tr' = tr_silenceMs tr" "tr_startupGraceMs tr' = tr_startupGraceMs tr" by simp_all
qed

definition configured :: "int \<Rightarrow> int \<Rightarrow> AgentFastLivenessTracker \<Rightarrow> bool" where
  "configured S G tr \<longleftrightarrow> tr_silenceMs tr = S \<and> tr_startupGraceMs tr = G"

lemma configured_simps [simp]:
  "configured S G (arm now s tr) = configured S G tr" "configured S G (set_state s tr) = configured S G tr"
  "configured S G (clear_live_timer t tr) = configured S G tr" "configured S G (tr\<lparr>transitionEpochCounter := n\<rparr>) = configured S G tr"
  "configured S G (tr\<lparr>tr_hosts := hs\<rparr>) = configured S G tr" "configured S G (clear_tracker tr) = configured S G tr"
  by (simp_all add: configured_def)

lemma configured_remove [simp]: "configured S G (snd (removeHost hv tr)) = configured S G tr"
  by (auto simp: removeHost_def split: option.splits)

lemma configured_observe: "observeActivity dp hv v now tr = (b, es, tr') \<Longrightarrow> configured S G tr' = configured S G tr"
  by (erule observeE) simp_all

interpretation config: tracker_contract dp "\<lambda>_. True" "configured S G" "\<lambda>_. True" for dp S G
proof unfold_locales
  fix now tr host g a b es tr' assume c: "configured S G tr" and r: "registerHost dp host g a now tr = (b, es, tr')"
  from r have "configured S G tr'"
    by (cases rule: registerE) (use c configured_observe in auto)
  then show "configured S G tr' \<and> list_all (\<lambda>_. True) es" by (simp add: list_all_iff)
next
  fix now tr t es tr' assume c: "configured S G tr" and r: "timer_callback t now tr = (es, tr')"
  from r have "configured S G tr'" by (cases rule: timerE) (use c in auto)
  then show "configured S G tr' \<and> list_all (\<lambda>_. True) es" by (simp add: list_all_iff)
qed (auto simp: list_all_iff configured_observe)

section \<open>Properties of the tracker\<close>

text \<open>C26: an agent that just proved its presence is not declared offline. After any history of a tracker whose
  startup grace is not shorter than its silence window, let a presence request of host \<open>h\<close> arrive at time
  \<open>seen\<close>. Then whatever operations and timers run while the clock is still before \<open>seen\<close> plus the silence
  window, no \<open>confirmed-offline\<close> transition of \<open>h\<close> is announced and \<open>h\<close> is not confirmed offline afterwards.\<close>

theorem no_offline_within_silence:
  assumes "trk_run dp before (make_tracker a b) = (es0, tr0)"
    and "tr_silenceMs (make_tracker a b) \<le> tr_startupGraceMs (make_tracker a b)"
    and "positiveHostId hv = Some h" and "registerPresenceCapableHost dp hv v seen tr0 = (r, es1, tr1)"
    and "\<forall>act\<in>set after. seen \<le> snd act \<and> snd act < seen + tr_silenceMs (make_tracker a b)"
    and "trk_run dp after tr1 = (es2, tr2)"
  shows "r \<and> (\<forall>e\<in>set es2. \<not> (ev_kind e = ConfirmedOffline \<and> lv_hostId e = h)) \<and> \<not> isConfirmedOffline (JNum (inum h)) tr2"
proof -
  let ?S = "tr_silenceMs (make_tracker a b)" and ?G = "tr_startupGraceMs (make_tracker a b)"
  have inv: "trk_inv tr0" by (rule run_from_start [OF assms(1)])
  have "configured ?S ?G tr0" using config.run [OF _ _ assms(1), of ?S ?G] by (simp add: configured_def list_all_iff)
  moreover have "trk_inv tr1" using timers.presence [OF _ inv assms(4)] by simp
  ultimately have "guarded h seen ?S tr1"
    using presence_registers [OF inv assms(3,4)] assms(2) by (auto simp: guarded_def configured_def)
  then have "guarded h seen ?S tr2 \<and> list_all (not_offline_event h) es2"
    using quiet.run [OF _ _ assms(6)] assms(5) by (auto simp: list_all_iff)
  then show ?thesis
    using presence_registers(1) [OF inv assms(3,4)]
    by (auto simp: guarded_def isConfirmedOffline_def list_all_iff not_offline_event_def split: option.splits)
qed

text \<open>A silent host is detected, exactly once. In every reachable state each registered host that is not
  confirmed offline owns an armed timer that is due no earlier than its deadline, and every armed timer
  belongs to a registered host. When that timer runs at or after the deadline, exactly one transition is
  announced, \<open>confirmed-offline\<close> of this host at this time; it is current, and the host is confirmed offline
  with no timer left. When it runs earlier, nothing is announced and the deadline stays.\<close>

theorem silent_host_is_detected:
  assumes "trk_run dp acts (make_tracker a b) = (es, tr)" and "map_of (tr_hosts tr) h = Some s" and "\<not> confirmedOffline s"
  shows "(\<exists>t j. lv_timer s = Some t \<and> map_of (tr_timers tr) t = Some j \<and> deadlineAt s \<le> lt_due j \<and>
      (\<forall>now es' tr'. timer_callback t now tr = (es', tr') \<longrightarrow>
         (if deadlineAt s \<le> now
          then (\<exists>e s'. es' = [e] \<and> ev_kind e = ConfirmedOffline \<and> lv_hostId e = h \<and> offlineAt e = Some now \<and> event_isCurrent e tr'
             \<and> map_of (tr_hosts tr') h = Some s' \<and> confirmedOffline s' \<and> lv_timer s' = None)
          else es' = [] \<and> (\<exists>s'. map_of (tr_hosts tr') h = Some s' \<and> \<not> confirmedOffline s' \<and> deadlineAt s' = deadlineAt s))))
    \<and> (\<forall>t j. map_of (tr_timers tr) t = Some j \<longrightarrow> (\<exists>s'. map_of (tr_hosts tr) (lt_host j) = Some s' \<and> lv_timer s' = Some t))"
proof -
  have inv: "trk_inv tr" by (rule run_from_start [OF assms(1)])
  have host: "host_inv h s tr" using inv_hostD [OF inv assms(2)] by simp
  then obtain t j where t: "lv_timer s = Some t" "map_of (tr_timers tr) t = Some j" "lt_host j = h" "deadlineAt s \<le> lt_due j"
      and key: "lv_hostId s = h" "0 < h" and gen: "timerGeneration s = lt_generation j"
    using assms(3) by (auto simp: host_inv_def owned_timer_def)
  have epoch: "0 < nextGeneration (transitionEpochCounter tr)" "nextGeneration (transitionEpochCounter tr) \<le> MAX_SAFE_INTEGER"
    using inv_counters [OF inv] nextGeneration_pos by (auto simp: nextGeneration_def MAX_SAFE_INTEGER_def)
  have fire: "if deadlineAt s \<le> now
      then (\<exists>e s'. es' = [e] \<and> ev_kind e = ConfirmedOffline \<and> lv_hostId e = h \<and> offlineAt e = Some now \<and> event_isCurrent e tr'
             \<and> map_of (tr_hosts tr') h = Some s' \<and> confirmedOffline s' \<and> lv_timer s' = None)
      else es' = [] \<and> (\<exists>s'. map_of (tr_hosts tr') h = Some s' \<and> \<not> confirmedOffline s' \<and> deadlineAt s' = deadlineAt s)"
    if "timer_callback t now tr = (es', tr')" for now es' tr'
    using that
  proof (cases rule: timerE)
    case (confirmed j' s1 s2)
    then have "s1 = s" using t(2,3) assms(2) by simp
    with confirmed key epoch t(2,3) show ?thesis by (auto simp: current_at_epoch at_epoch_def)
  next
    case (stale k)
    then show ?thesis using t gen assms(2) by auto
  qed (use t assms(2,3) key in auto)
  show ?thesis using t fire inv_timerD [OF inv] by blast
qed

text \<open>A transition is current until the next one. Take a transition announced by some step of a run with fewer
  than \<open>Number.MAX_SAFE_INTEGER\<close> steps. Its \<open>isCurrent()\<close> holds after further steps exactly when its host
  stayed registered all the time and no further transition of that host was announced: stale
  offline work is always recognised, and current work is never dropped.\<close>

theorem transition_current_until_next:
  assumes "trk_run dp before (make_tracker a b) = (es0, tr0)" and "trk_step dp act tr0 = (es1, tr1)" and "e \<in> set es1"
    and "trk_run dp after tr1 = (es2, tr2)" and "int (length before + length after) + 1 \<le> MAX_SAFE_INTEGER"
  shows "event_isCurrent e tr2 \<longleftrightarrow> undisturbed dp (lv_hostId e) after tr1"
proof -
  have inv: "trk_inv tr0" by (rule run_from_start [OF assms(1)])
  have inv1: "trk_inv tr1" using timers.step [OF _ inv assms(2)] by simp
  have c0: "0 \<le> transitionEpochCounter tr0" "transitionEpochCounter tr0 \<le> int (length before)"
    using epoch_counter_run [OF inv_make assms(1)] assms(5) by (simp_all add: make_tracker_def)
  have hs: "host_step (lv_hostId e) tr0 es1 tr1" by (rule host_step_step [OF inv assms(2)])
  with assms(3) obtain s where s: "map_of (tr_hosts tr1) (lv_hostId e) = Some s" "transitionEpoch s = transitionEpochCounter tr1"
      "transitionEpoch e = transitionEpochCounter tr1" "confirmedOffline s = (ev_kind e = ConfirmedOffline)"
      "transitionEpochCounter tr1 = nextGeneration (transitionEpochCounter tr0)"
    by (auto simp: host_step_def split: if_splits)
  have c1: "0 < transitionEpochCounter tr1" "transitionEpochCounter tr1 \<le> int (length before) + 1"
    using s(5) c0 assms(5) by (auto simp: nextGeneration_def)
  have "0 < lv_hostId e" using inv_hostD [OF inv1 s(1)] by (simp add: host_inv_def)
  then have cur: "event_isCurrent e tr \<longleftrightarrow> at_epoch (lv_hostId e) (transitionEpoch e) (ev_kind e = ConfirmedOffline) tr" for tr
    using s(3) c1 assms(5) by (intro current_at_epoch) auto
  have "at_epoch (lv_hostId e) (transitionEpoch e) (ev_kind e = ConfirmedOffline) tr1" using s by (simp add: at_epoch_def)
  from at_epoch_run [OF inv1 assms(4) _ _ _ this] s(3) c1 assms(5)
  show ?thesis unfolding cur by (auto simp: at_epoch_def left_epoch_def split: if_splits)
qed

section \<open>A tracker at work\<close>

definition demo_dates :: "jsval \<Rightarrow> jsnum" where "demo_dates v = NaN"

definition demo_presence :: "int \<Rightarrow> trk_action \<times> int" where
  "demo_presence now = (TPresence (JNum (inum 5)) (TsVal (JNum (inum now))), now)"

lemmas demo_defs = positiveHostId_def demo_dates_def demo_presence_def registerPresenceCapableHost_def registerHost_def initial_state_def Let_def
  make_tracker_def set_state_def arm_def normalizedTimestamp_def positive_time_def trim_min supports_min
  AGENT_FAST_LIVENESS_SILENCE_MS_def AGENT_FAST_LIVENESS_STARTUP_GRACE_MS_def

definition demo_host :: MutableAgentFastLivenessState where
  "demo_host = \<lparr>lv_hostId = 5, lv_agentVersion = AGENT_FAST_LIVENESS_MIN_VERSION, transitionEpoch = 0, lastSeenAt = Some 1000,
     deadlineAt = 91000, offlineAt = None, lastOfflineAt = None, confirmedOffline = False, timerGeneration = 1, lv_timer = Some 0\<rparr>"

definition demo_tracker :: AgentFastLivenessTracker where
  "demo_tracker = \<lparr>tr_silenceMs = 90000, tr_startupGraceMs = 90000, tr_hosts = [(5, demo_host)], transitionEpochCounter = 0,
     tr_timers = [(0, \<lparr>lt_host = 5, lt_generation = 1, lt_due = 91000\<rparr>)], tr_nextTimer = 1\<rparr>"

lemma demo_start: "trk_run demo_dates [demo_presence 1000] (make_tracker None None) = ([], demo_tracker)"
  by (simp add: demo_defs demo_tracker_def demo_host_def)

lemma demo_silent:
  "\<exists>e. timer_callback 0 91000 demo_tracker = ([e], demo_tracker\<lparr>tr_timers := [], transitionEpochCounter := 1,
      tr_hosts := [(5, demo_host\<lparr>lv_timer := None, confirmedOffline := True, offlineAt := Some 91000, lastOfflineAt := Some 91000,
        transitionEpoch := 1\<rparr>)]\<rparr>) \<and> lv_hostId e = 5"
  by (simp add: demo_tracker_def demo_host_def timer_callback_def clear_live_timer_def set_state_def Let_def nextGeneration_def
      MAX_SAFE_INTEGER_def alist_delete_def)

theorem no_offline_within_silence_witness:
  "\<not> isConfirmedOffline (JNum (inum 5)) (snd (trk_run demo_dates [(TTimer 0, 90999)]
       (snd (trk_run demo_dates [demo_presence 1000] (make_tracker None None)))))"
proof -
  obtain r es1 tr1 where st: "registerPresenceCapableHost demo_dates (JNum (inum 5)) (TsVal (JNum (inum 1000))) 1000 (make_tracker None None) = (r, es1, tr1)"
    using prod_cases3 by blast
  obtain es2 tr2 where run: "trk_run demo_dates [(TTimer 0, 90999)] tr1 = (es2, tr2)" by (cases "trk_run demo_dates [(TTimer 0, 90999)] tr1")
  have "\<not> isConfirmedOffline (JNum (inum 5)) tr2"
    using no_offline_within_silence [of demo_dates "[]" None None "[]" "make_tracker None None" "JNum (inum 5)" 5 _ 1000 r es1 tr1
        "[(TTimer 0, 90999)]" es2 tr2, OF _ _ _ st _ run]
    by (simp add: make_tracker_def AGENT_FAST_LIVENESS_SILENCE_MS_def AGENT_FAST_LIVENESS_STARTUP_GRACE_MS_def positiveHostId_def)
  moreover have "snd (trk_run demo_dates [demo_presence 1000] (make_tracker None None)) = tr1"
    using st by (simp add: demo_presence_def)
  ultimately show ?thesis using run by simp
qed

theorem silent_host_is_detected_witness:
  "\<exists>e tr'. timer_callback 0 91000 demo_tracker = ([e], tr') \<and> ev_kind e = ConfirmedOffline \<and> lv_hostId e = 5
     \<and> offlineAt e = Some 91000 \<and> event_isCurrent e tr'"
proof -
  obtain es' tr' where st: "timer_callback 0 91000 demo_tracker = (es', tr')" by (cases "timer_callback 0 91000 demo_tracker")
  have "map_of (tr_hosts demo_tracker) 5 = Some demo_host" "\<not> confirmedOffline demo_host" "lv_timer demo_host = Some 0"
    "deadlineAt demo_host = 91000" by (simp_all add: demo_tracker_def demo_host_def)
  then show ?thesis using silent_host_is_detected [OF demo_start, of 5 demo_host] st by fastforce
qed

theorem transition_current_until_next_witness:
  "\<exists>e tr'. timer_callback 0 91000 demo_tracker = ([e], tr') \<and> event_isCurrent e tr'
     \<and> \<not> event_isCurrent e (snd (trk_run demo_dates [demo_presence 92000] tr'))"
proof -
  obtain e tr1 where e: "timer_callback 0 91000 demo_tracker = ([e], tr1)" "lv_hostId e = 5"
      and tr1: "tr1 = demo_tracker\<lparr>tr_timers := [], transitionEpochCounter := 1,
      tr_hosts := [(5, demo_host\<lparr>lv_timer := None, confirmedOffline := True, offlineAt := Some 91000, lastOfflineAt := Some 91000,
        transitionEpoch := 1\<rparr>)]\<rparr>"
    using demo_silent by blast
  obtain es2 tr2 where run: "trk_run demo_dates [demo_presence 92000] tr1 = (es2, tr2)" by (cases "trk_run demo_dates [demo_presence 92000] tr1")
  have "event_isCurrent e tr1 \<longleftrightarrow> undisturbed demo_dates (lv_hostId e) [] tr1"
    by (rule transition_current_until_next [OF demo_start, of "(TTimer 0, 91000)" "[e]"]) (use e in \<open>auto simp: MAX_SAFE_INTEGER_def\<close>)
  moreover have "event_isCurrent e tr2 \<longleftrightarrow> undisturbed demo_dates (lv_hostId e) [demo_presence 92000] tr1"
    by (rule transition_current_until_next [OF demo_start, of "(TTimer 0, 91000)" "[e]"]) (use e run in \<open>auto simp: MAX_SAFE_INTEGER_def\<close>)
  moreover have "undisturbed demo_dates 5 [] tr1" "\<not> undisturbed demo_dates 5 [demo_presence 92000] tr1"
    by (simp_all add: tr1 demo_tracker_def demo_host_def hasHost_def demo_presence_def positiveHostId_def
        registerPresenceCapableHost_def observeActivity_def Let_def)
  ultimately show ?thesis using e run by auto
qed

end
