(* ===== verification/HostStatus.thy ===== *)
theory HostStatus
  imports AgentLiveness
begin

text \<open>
  Host status transitions (server/hostStatusNotifier.ts) on top of the liveness tracker and the debouncer: each
  transition the tracker announces becomes a task in the queue of its host (\<open>withKeyedTaskLock\<close> with the key
  \<open>agent-liveness:<id>\<close>), which updates the stored online flag, re-evaluates the forward groups and
  notifies.

  A task is a program position. Every \<open>await\<close> of a database or Telegram operation is two steps: the
  operation takes effect, later the code behind the \<open>await\<close> runs. Other operations interleave
  freely between the steps. An operation may also be rejected, before or after it took effect. Sent Telegram messages are recorded as
  pairs of host and status; \<open>telegramHostStatusEnabled\<close> and the recipients are an argument of the step that sends.
\<close>

section \<open>State\<close>

datatype HostStatus = Online | Offline

record host_row =
  row_isOnline :: bool
  row_lastHeartbeat :: "int option"

text \<open>Positions of the handlers; the number is the attempt. In \<open>X n\<close> the operation of the \<open>await\<close> is under way, in
  \<open>X_done n\<close> it is settled and the code behind it is to run.\<close>

datatype task_pos =
    Attempt nat | RetryWait nat
  | TouchOnline nat | TouchOnline_done nat | LoadOnline nat | LoadOnline_done nat bool
  | GroupsOnline nat | GroupsOnline_done nat | SendOnline nat
  | LoadOffline nat | LoadOffline_done nat bool | MarkOffline nat | MarkOffline_done nat
  | GroupsOffline nat | GroupsOffline_done nat
  | RestoreTouch nat | RestoreTouch_done nat | RestoreMark nat
  | Alarm | SendAlarm

record status_task =
  tk_event :: AgentFastLivenessTransition
  tk_pos :: task_pos

record notifier =
  ns_tracker :: AgentFastLivenessTracker
  ns_debouncer :: "AgentFastLivenessTransition HostOfflineNotificationDebouncer"
  ns_rows :: "(int \<times> host_row) list"
  lastKnownStatus :: "(int \<times> HostStatus) list"
  hostStatusNotifierPrimed :: bool
  ns_queue :: "int \<Rightarrow> status_task list"
  ns_gaveUp :: "AgentFastLivenessTransition list"
  ns_sent :: "(int \<times> HostStatus) list"
  ns_outside :: "int \<Rightarrow> bool"

definition FAST_LIVENESS_RETRY_DELAYS_MS :: "int list" where
  "FAST_LIVENESS_RETRY_DELAYS_MS = [0, 1000, 3000, 7000, 15000]"

section \<open>Database operations\<close>

definition touchHostHeartbeat :: "int \<Rightarrow> int \<Rightarrow> (int \<times> host_row) list \<Rightarrow> (int \<times> host_row) list" where
  "touchHostHeartbeat hostId now rows =
     map (\<lambda>(k, r). if k = hostId then (k, r\<lparr>row_isOnline := True, row_lastHeartbeat := Some (now div 1000)\<rparr>) else (k, r)) rows"

definition markHostOffline :: "int \<Rightarrow> (int \<times> host_row) list \<Rightarrow> (int \<times> host_row) list" where
  "markHostOffline hostId rows = map (\<lambda>(k, r). if k = hostId then (k, r\<lparr>row_isOnline := False\<rparr>) else (k, r)) rows"

definition row_stale :: "int \<Rightarrow> int \<Rightarrow> host_row \<Rightarrow> bool" where
  "row_stale now timeoutMs r \<longleftrightarrow> row_isOnline r \<and>
     (case row_lastHeartbeat r of None \<Rightarrow> False | Some t \<Rightarrow> t < (now - timeoutMs) div 1000)"

definition getStaleOnlineHosts :: "int \<Rightarrow> (int \<times> host_row) list \<Rightarrow> int list" where
  "getStaleOnlineHosts now rows = map fst (filter (\<lambda>(k, r). row_stale now HOST_ONLINE_TTL_MS r) rows)"

definition still_stale :: "int \<Rightarrow> (int \<times> host_row) list \<Rightarrow> int \<Rightarrow> bool" where
  "still_stale now rows i = (case map_of rows i of None \<Rightarrow> False | Some r \<Rightarrow> row_stale now HOST_ONLINE_TTL_MS r)"

fun mark_stale :: "int \<Rightarrow> int list \<Rightarrow> (int \<times> host_row) list \<Rightarrow> int list \<times> (int \<times> host_row) list" where
  "mark_stale now [] rows = ([], rows)"
| "mark_stale now (i # ids) rows =
     (let (out, rows') = mark_stale now ids (if still_stale now rows i then markHostOffline i rows else rows) in
      (if still_stale now rows i then i # out else out, rows'))"

definition markStaleHostsOffline :: "int list \<Rightarrow> int \<Rightarrow> (int \<times> host_row) list \<Rightarrow> int list \<times> (int \<times> host_row) list" where
  "markStaleHostsOffline hostIds now rows = mark_stale now (js_distinct (filter (\<lambda>i. i > 0) hostIds)) rows"

section \<open>Notifications\<close>

definition cancel_alarm :: "int \<Rightarrow> notifier \<Rightarrow> notifier" where
  "cancel_alarm hostId s = s\<lparr>ns_debouncer := snd (deb_cancel (JNum (inum hostId)) (ns_debouncer s))\<rparr>"

text \<open>\<open>notifyHostStatusChange\<close> up to its \<open>await sendHostStatusTelegram\<close>; the result says whether it gets there.\<close>

definition notifyHostStatusChange :: "int \<Rightarrow> HostStatus \<Rightarrow> notifier \<Rightarrow> bool \<times> notifier" where
  "notifyHostStatusChange hostId status s0 =
     (if hostId \<le> 0 then (False, s0)
      else
        let s = (if status = Online then cancel_alarm hostId s0 else s0) in
        case map_of (lastKnownStatus s) hostId of
          None \<Rightarrow> (hostStatusNotifierPrimed s \<and> status = Online, s\<lparr>lastKnownStatus := alist_set hostId status (lastKnownStatus s)\<rparr>)
        | Some previous \<Rightarrow>
            if previous = status then (False, s)
            else (True, s\<lparr>lastKnownStatus := alist_set hostId status (lastKnownStatus s)\<rparr>))"

definition notify_and_send :: "bool \<Rightarrow> int \<Rightarrow> HostStatus \<Rightarrow> notifier \<Rightarrow> notifier" where
  "notify_and_send enabled hostId status s =
     (let (sends, s1) = notifyHostStatusChange hostId status s in
      if sends \<and> enabled then s1\<lparr>ns_sent := ns_sent s1 @ [(hostId, status)]\<rparr> else s1)"

definition isHostStatusOnline :: "int \<Rightarrow> host_row \<Rightarrow> int \<Rightarrow> notifier \<Rightarrow> bool" where
  "isHostStatusOnline hostId r now s =
     (case row_lastHeartbeat r of None \<Rightarrow> False
      | Some t \<Rightarrow> row_isOnline r \<and> now - t * 1000 \<le> HOST_ONLINE_TTL_MS \<and> \<not> isConfirmedOffline (JNum (inum hostId)) (ns_tracker s))"

definition notifyHostOnlineIfNeeded :: "bool \<Rightarrow> int \<Rightarrow> notifier \<Rightarrow> notifier" where
  "notifyHostOnlineIfNeeded enabled hostId s = notify_and_send enabled hostId Online (cancel_alarm hostId s)"

section \<open>Priming and the sweep\<close>

text \<open>Both run here without interleaving. \<open>queried\<close> says whether the two queries of priming succeed, \<open>marked\<close> after how many hosts
  \<open>markStaleHostsOffline\<close> throws, \<open>None\<close> when it does not; \<open>touched\<close> says for which hosts refreshing the
  heartbeat succeeds. The evaluation of forward groups and \<open>clearTunnelRuntimeStatusForHost\<close> do not act on
  this state.\<close>

definition set_known :: "HostStatus \<Rightarrow> int list \<Rightarrow> notifier \<Rightarrow> notifier" where
  "set_known v ids s = s\<lparr>lastKnownStatus := foldl (\<lambda>m i. alist_set i v m) (lastKnownStatus s) ids\<rparr>"

definition primeHostStatusNotifier :: "bool \<Rightarrow> nat option \<Rightarrow> int \<Rightarrow> notifier \<Rightarrow> notifier" where
  "primeHostStatusNotifier queried marked now s0 =
     (let s = s0\<lparr>ns_debouncer := deb_clear (ns_debouncer s0)\<rparr> in
      if \<not> queried then s\<lparr>hostStatusNotifierPrimed := False\<rparr>
      else
        let s1 = s\<lparr>lastKnownStatus := foldl (\<lambda>m (k, r). alist_set k (if row_isOnline r then Online else Offline) m) (lastKnownStatus s) (ns_rows s)\<rparr>;
            staleIds = filter (\<lambda>i. i > 0) (getStaleOnlineHosts now (ns_rows s)) in
        if staleIds = [] then s1\<lparr>hostStatusNotifierPrimed := True\<rparr>
        else (case marked of
            None \<Rightarrow> let (ids, rows) = markStaleHostsOffline staleIds now (ns_rows s1) in
                    (set_known Offline ids (s1\<lparr>ns_rows := rows\<rparr>))\<lparr>hostStatusNotifierPrimed := True\<rparr>
          | Some n \<Rightarrow> s1\<lparr>ns_rows := snd (markStaleHostsOffline (take n staleIds) now (ns_rows s1)), hostStatusNotifierPrimed := False\<rparr>))"

definition sweepOfflineHostsAndNotify ::
  "bool \<Rightarrow> bool \<Rightarrow> nat option \<Rightarrow> (int \<Rightarrow> bool) \<Rightarrow> int \<Rightarrow> (int \<times> int) list \<Rightarrow> notifier \<Rightarrow> nat \<times> (int \<times> int) list \<times> notifier" where
  "sweepOfflineHostsAndNotify enabled queried marked touched now seen s0 =
     (let s = (if hostStatusNotifierPrimed s0 then s0 else primeHostStatusNotifier queried marked now s0) in
      if \<not> hostStatusNotifierPrimed s then (0, seen, s)
      else
        let ((act, stale), seen1) =
              partitionHostsByRecentAgentActivity (\<lambda>i. JNum (inum i)) (getStaleOnlineHosts now (ns_rows s)) now HOST_ONLINE_TTL_MS seen;
            s1 = s\<lparr>ns_rows := foldl (\<lambda>rows i. if touched i then touchHostHeartbeat i now rows else rows) (ns_rows s) act\<rparr> in
        if stale = [] then (0, seen1, s1)
        else
          let (ids, rows) = markStaleHostsOffline stale now (ns_rows s1); s2 = s1\<lparr>ns_rows := rows\<rparr>;
              transitioned = filter (\<lambda>i. i \<in> set ids) stale in
          (length transitioned, seen1, foldl (\<lambda>acc i. notify_and_send enabled i Offline acc) s2 transitioned))"

section \<open>Transition tasks\<close>

datatype settled = Fulfilled | RejectedBefore | RejectedAfter

definition goto :: "task_pos \<Rightarrow> int \<Rightarrow> notifier \<Rightarrow> notifier" where
  "goto p hostId s = s\<lparr>ns_queue := (ns_queue s)(hostId := (case ns_queue s hostId of [] \<Rightarrow> [] | t # ts \<Rightarrow> t\<lparr>tk_pos := p\<rparr> # ts))\<rparr>"

definition finish :: "int \<Rightarrow> notifier \<Rightarrow> notifier" where
  "finish hostId s = s\<lparr>ns_queue := (ns_queue s)(hostId := tl (ns_queue s hostId))\<rparr>"

text \<open>The \<open>catch\<close> of the retry loop: the next attempt, or giving up after the last one.\<close>

definition retry :: "AgentFastLivenessTransition \<Rightarrow> nat \<Rightarrow> int \<Rightarrow> notifier \<Rightarrow> notifier" where
  "retry e n hostId s =
     (if Suc n < length FAST_LIVENESS_RETRY_DELAYS_MS then goto (Attempt (Suc n)) hostId s
      else finish hostId (s\<lparr>ns_gaveUp := e # ns_gaveUp s\<rparr>))"

definition current :: "AgentFastLivenessTransition \<Rightarrow> notifier \<Rightarrow> bool" where
  "current e s = event_isCurrent e (ns_tracker s)"

text \<open>The start of \<open>handlePresenceCapableHostOnline\<close> and of \<open>handlePresenceCapableHostOffline\<close>.\<close>

definition enter_handler :: "AgentFastLivenessTransition \<Rightarrow> nat \<Rightarrow> int \<Rightarrow> notifier \<Rightarrow> notifier" where
  "enter_handler e n hostId s =
     (if \<not> current e s then finish hostId s
      else if ev_kind e = ActivityRestored
      then (if confirmedOffline e then finish hostId s else goto (TouchOnline n) hostId (cancel_alarm hostId s))
      else if \<not> confirmedOffline e \<or> offlineAt e = None \<or> offlineAt e = Some 0 then finish hostId s
      else goto (LoadOffline n) hostId s)"

text \<open>The start of \<open>restoreHostOnlineAfterStaleOfflineTransition\<close>.\<close>

definition enter_restore :: "nat \<Rightarrow> int \<Rightarrow> notifier \<Rightarrow> notifier" where
  "enter_restore n hostId s =
     (case tracker_state (JNum (inum hostId)) (ns_tracker s) of
        None \<Rightarrow> finish hostId s
      | Some before \<Rightarrow> if confirmedOffline before then finish hostId s else goto (RestoreTouch n) hostId s)"

definition send :: "bool \<Rightarrow> int \<Rightarrow> HostStatus \<Rightarrow> notifier \<Rightarrow> notifier" where
  "send enabled hostId status s = (if enabled then s\<lparr>ns_sent := ns_sent s @ [(hostId, status)]\<rparr> else s)"

definition set_rows :: "((int \<times> host_row) list \<Rightarrow> (int \<times> host_row) list) \<Rightarrow> notifier \<Rightarrow> notifier" where
  "set_rows f s = s\<lparr>ns_rows := f (ns_rows s)\<rparr>"

text \<open>An operation under way is settled: it may take effect, then the task moves on or the attempt fails.\<close>

definition settle :: "settled \<Rightarrow> (notifier \<Rightarrow> notifier) \<Rightarrow> (notifier \<Rightarrow> notifier) \<Rightarrow> (notifier \<Rightarrow> notifier) \<Rightarrow> notifier \<Rightarrow> notifier" where
  "settle r effect onward rejected s =
     (case r of Fulfilled \<Rightarrow> onward (effect s) | RejectedBefore \<Rightarrow> rejected s | RejectedAfter \<Rightarrow> rejected (effect s))"

fun task_step :: "settled \<Rightarrow> bool \<Rightarrow> int \<Rightarrow> int \<Rightarrow> AgentFastLivenessTransition \<Rightarrow> task_pos \<Rightarrow> notifier \<Rightarrow> notifier" where
  "task_step r enabled now h e (Attempt n) s =
     (if \<not> current e s then finish h s
      else if FAST_LIVENESS_RETRY_DELAYS_MS ! n > 0 then goto (RetryWait n) h s
      else enter_handler e n h s)"
| "task_step r enabled now h e (RetryWait n) s = enter_handler e n h s"
| "task_step r enabled now h e (TouchOnline n) s =
     settle r (set_rows (touchHostHeartbeat h now)) (goto (TouchOnline_done n) h) (retry e n h) s"
| "task_step r enabled now h e (TouchOnline_done n) s = (if \<not> current e s then finish h s else goto (LoadOnline n) h s)"
| "task_step r enabled now h e (LoadOnline n) s =
     settle r id (goto (LoadOnline_done n (map_of (ns_rows s) h \<noteq> None)) h) (retry e n h) s"
| "task_step r enabled now h e (LoadOnline_done n found) s =
     (if \<not> found \<or> \<not> current e s then finish h s else goto (GroupsOnline n) h s)"
| "task_step r enabled now h e (GroupsOnline n) s = settle r id (goto (GroupsOnline_done n) h) (retry e n h) s"
| "task_step r enabled now h e (GroupsOnline_done n) s =
     (if \<not> current e s then finish h s
      else let (sends, s1) = notifyHostStatusChange h Online s in if sends then goto (SendOnline n) h s1 else finish h s1)"
| "task_step r enabled now h e (SendOnline n) s = settle r (send enabled h Online) (finish h) (retry e n h) s"
| "task_step r enabled now h e (LoadOffline n) s =
     settle r id (goto (LoadOffline_done n (map_of (ns_rows s) h \<noteq> None)) h) (retry e n h) s"
| "task_step r enabled now h e (LoadOffline_done n found) s =
     (if \<not> found \<or> \<not> current e s then finish h s else goto (MarkOffline n) h s)"
| "task_step r enabled now h e (MarkOffline n) s = settle r (set_rows (markHostOffline h)) (goto (MarkOffline_done n) h) (retry e n h) s"
| "task_step r enabled now h e (MarkOffline_done n) s =
     (if \<not> current e s then enter_restore n h s else goto (GroupsOffline n) h s)"
| "task_step r enabled now h e (GroupsOffline n) s = settle r id (goto (GroupsOffline_done n) h) (retry e n h) s"
| "task_step r enabled now h e (GroupsOffline_done n) s =
     (if \<not> current e s then enter_restore n h s
      else finish h (s\<lparr>ns_debouncer := snd (deb_schedule (JNum (inum h)) e now (ns_debouncer s))\<rparr>))"
| "task_step r enabled now h e (RestoreTouch n) s =
     settle r (set_rows (touchHostHeartbeat h now)) (goto (RestoreTouch_done n) h) (retry e n h) s"
| "task_step r enabled now h e (RestoreTouch_done n) s =
     (if isConfirmedOffline (JNum (inum h)) (ns_tracker s) then goto (RestoreMark n) h s else finish h s)"
| "task_step r enabled now h e (RestoreMark n) s = settle r (set_rows (markHostOffline h)) (finish h) (retry e n h) s"
| "task_step r enabled now h e Alarm s =
     (if \<not> current e s then finish h s
      else let (sends, s1) = notifyHostStatusChange h Offline s in if sends then goto SendAlarm h s1 else finish h s1)"
| "task_step r enabled now h e SendAlarm s = settle r (send enabled h Offline) (finish h) (finish h) s"

definition run_task :: "settled \<Rightarrow> bool \<Rightarrow> int \<Rightarrow> int \<Rightarrow> notifier \<Rightarrow> notifier" where
  "run_task r enabled now h s =
     (case ns_queue s h of [] \<Rightarrow> s | t # ts \<Rightarrow> task_step r enabled now h (tk_event t) (tk_pos t) s)"

section \<open>Events\<close>

definition enqueue_task :: "int \<Rightarrow> status_task \<Rightarrow> notifier \<Rightarrow> notifier" where
  "enqueue_task hostId t s = s\<lparr>ns_queue := (ns_queue s)(hostId := ns_queue s hostId @ [t])\<rparr>"

text \<open>The listener given to \<open>subscribeAgentFastLiveness\<close>.\<close>

definition on_transition :: "AgentFastLivenessTransition \<Rightarrow> notifier \<Rightarrow> notifier" where
  "on_transition e s0 =
     (let hostId = lv_hostId e in
      if hostId \<le> 0 then s0
      else let s = (if ev_kind e = ActivityRestored then cancel_alarm hostId s0 else s0) in
           (enqueue_task hostId \<lparr>tk_event = e, tk_pos = Attempt 0\<rparr> s)\<lparr>ns_outside := (ns_outside s)(hostId := False)\<rparr>)"

definition track :: "(jsval \<Rightarrow> jsnum) \<Rightarrow> trk_action \<Rightarrow> int \<Rightarrow> notifier \<Rightarrow> notifier" where
  "track dp act now s =
     (let (es, tr) = trk_step dp (act, now) (ns_tracker s) in foldl (\<lambda>acc e. on_transition e acc) (s\<lparr>ns_tracker := tr\<rparr>) es)"

definition alarm_timer :: "nat \<Rightarrow> notifier \<Rightarrow> notifier" where
  "alarm_timer t s =
     (let (out, d) = deb_callback (\<lambda>e. Some (current e s)) t (ns_debouncer s); s1 = s\<lparr>ns_debouncer := d\<rparr> in
      case out of DebNotify e \<Rightarrow> enqueue_task (lv_hostId e) \<lparr>tk_event = e, tk_pos = Alarm\<rparr> s1 | _ \<Rightarrow> s1)"

text \<open>The queue of a host is not the only writer of its row: the presence and heartbeat routes refresh the heartbeat, and priming and the
  sweep refresh it or mark stale hosts offline, all outside the queue. These operations appear whole (\<open>Prime\<close>, \<open>Sweep\<close>) and as the
  single statements in which they interleave with other operations: \<open>TouchRow\<close> is a \<open>touchHostHeartbeat\<close> of a
  route or of the sweep, \<open>MarkStaleRows\<close> a \<open>markStaleHostsOffline\<close> for hosts read earlier, \<open>NotifyOutside\<close>
  a notification by a route (online) or by the sweep (offline). The ghost field \<open>ns_outside\<close> says for which hosts such a
  write has changed the stored flag since the latest transition of the host was announced.\<close>

definition outside :: "notifier \<Rightarrow> notifier \<Rightarrow> notifier" where
  "outside s s' = s'\<lparr>ns_outside := (\<lambda>h. ns_outside s h
     \<or> map_option row_isOnline (map_of (ns_rows s') h) \<noteq> map_option row_isOnline (map_of (ns_rows s) h))\<rparr>"

datatype status_action =
    Track trk_action
  | RunTask int settled bool
  | AlarmTimer nat
  | TouchRow int
  | MarkStaleRows "int list"
  | NotifyOutside bool int HostStatus
  | Prime bool "nat option"
  | Sweep bool bool "nat option" "int \<Rightarrow> bool" "(int \<times> int) list"

fun status_step :: "(jsval \<Rightarrow> jsnum) \<Rightarrow> status_action \<times> int \<Rightarrow> notifier \<Rightarrow> notifier" where
  "status_step dp (Track act, now) s = track dp act now s"
| "status_step dp (RunTask h r enabled, now) s = run_task r enabled now h s"
| "status_step dp (AlarmTimer t, now) s = alarm_timer t s"
| "status_step dp (TouchRow h, now) s = outside s (set_rows (touchHostHeartbeat h now) s)"
| "status_step dp (MarkStaleRows ids, now) s = outside s (set_rows (\<lambda>rows. snd (markStaleHostsOffline ids now rows)) s)"
| "status_step dp (NotifyOutside enabled h status, now) s =
     outside s (if status = Online then notifyHostOnlineIfNeeded enabled h s else notify_and_send enabled h Offline s)"
| "status_step dp (Prime queried marked, now) s = outside s (primeHostStatusNotifier queried marked now s)"
| "status_step dp (Sweep enabled queried marked touched seen, now) s =
     outside s (snd (snd (sweepOfflineHostsAndNotify enabled queried marked touched now seen s)))"

definition status_run :: "(jsval \<Rightarrow> jsnum) \<Rightarrow> (status_action \<times> int) list \<Rightarrow> notifier \<Rightarrow> notifier" where
  "status_run dp acts s = foldl (\<lambda>acc a. status_step dp a acc) s acts"

definition make_notifier :: "int option \<Rightarrow> int option \<Rightarrow> (int \<times> host_row) list \<Rightarrow> (int \<times> HostStatus) list \<Rightarrow> bool \<Rightarrow> notifier" where
  "make_notifier a b rows known primed = \<lparr>ns_tracker = make_tracker a b, ns_debouncer = make_debouncer None, ns_rows = rows,
     lastKnownStatus = known, hostStatusNotifierPrimed = primed, ns_queue = (\<lambda>_. []), ns_gaveUp = [], ns_sent = [], ns_outside = (\<lambda>_. False)\<rparr>"

section \<open>The invariant of the queues\<close>

fun is_transition :: "task_pos \<Rightarrow> bool" where
  "is_transition Alarm = False"
| "is_transition SendAlarm = False"
| "is_transition _ = True"

text \<open>The task has not stored its online flag yet.\<close>

fun pending_pos :: "AgentFastLivenessTransitionKind \<Rightarrow> task_pos \<Rightarrow> bool" where
  "pending_pos k (Attempt n) = True"
| "pending_pos k (RetryWait n) = True"
| "pending_pos k (TouchOnline n) = (k = ActivityRestored)"
| "pending_pos k (LoadOffline n) = (k = ConfirmedOffline)"
| "pending_pos k (LoadOffline_done n found) = (k = ConfirmedOffline \<and> found)"
| "pending_pos k (MarkOffline n) = (k = ConfirmedOffline)"
| "pending_pos k _ = False"

text \<open>It has stored its flag in this attempt.\<close>

fun written_pos :: "AgentFastLivenessTransitionKind \<Rightarrow> task_pos \<Rightarrow> bool" where
  "written_pos k (TouchOnline_done n) = (k = ActivityRestored)"
| "written_pos k (LoadOnline n) = (k = ActivityRestored)"
| "written_pos k (LoadOnline_done n found) = (k = ActivityRestored)"
| "written_pos k (GroupsOnline n) = (k = ActivityRestored)"
| "written_pos k (GroupsOnline_done n) = (k = ActivityRestored)"
| "written_pos k (SendOnline n) = (k = ActivityRestored)"
| "written_pos k (MarkOffline_done n) = (k = ConfirmedOffline)"
| "written_pos k (GroupsOffline n) = (k = ConfirmedOffline)"
| "written_pos k (GroupsOffline_done n) = (k = ConfirmedOffline)"
| "written_pos k _ = False"

fun other_pos :: "bool \<Rightarrow> AgentFastLivenessTransitionKind \<Rightarrow> task_pos \<Rightarrow> bool" where
  "other_pos row k (RestoreTouch n) = (k = ConfirmedOffline)"
| "other_pos row k (RestoreTouch_done n) = (k = ConfirmedOffline)"
| "other_pos row k (RestoreMark n) = (k = ConfirmedOffline)"
| "other_pos row k (LoadOffline_done n found) = (k = ConfirmedOffline \<and> \<not> found \<and> \<not> row)"
| "other_pos row k Alarm = (k = ConfirmedOffline)"
| "other_pos row k SendAlarm = (k = ConfirmedOffline)"
| "other_pos row k _ = False"

definition event_ok :: "AgentFastLivenessTransition \<Rightarrow> bool" where
  "event_ok e \<longleftrightarrow> 0 < lv_hostId e \<and> 0 < transitionEpoch e \<and> confirmedOffline e = (ev_kind e = ConfirmedOffline)
     \<and> (ev_kind e = ConfirmedOffline \<longrightarrow> (\<exists>t. offlineAt e = Some t \<and> 0 < t))"

definition task_ok :: "int \<Rightarrow> notifier \<Rightarrow> status_task \<Rightarrow> bool" where
  "task_ok h s t \<longleftrightarrow> (let e = tk_event t in lv_hostId e = h \<and> event_ok e \<and> transitionEpoch e \<le> transitionEpochCounter (ns_tracker s)
     \<and> (pending_pos (ev_kind e) (tk_pos t) \<or> written_pos (ev_kind e) (tk_pos t) \<or> other_pos (map_of (ns_rows s) h \<noteq> None) (ev_kind e) (tk_pos t)))"

definition ready_task :: "notifier \<Rightarrow> status_task \<Rightarrow> bool" where
  "ready_task s t \<longleftrightarrow> current (tk_event t) s \<and> pending_pos (ev_kind (tk_event t)) (tk_pos t)"

definition synced :: "int \<Rightarrow> notifier \<Rightarrow> bool" where
  "synced h s \<longleftrightarrow> (\<forall>st r. map_of (tr_hosts (ns_tracker s)) h = Some st \<and> 0 < transitionEpoch st \<and> map_of (ns_rows s) h = Some r \<longrightarrow>
      (\<exists>pre t post. ns_queue s h = pre @ t # post \<and> ready_task s t \<and> list_all (\<lambda>x. \<not> is_transition (tk_pos x)) post)
    \<or> (row_isOnline r = (\<not> confirmedOffline st) \<and>
        list_all (\<lambda>x. is_transition (tk_pos x) \<longrightarrow> current (tk_event x) s \<and> written_pos (ev_kind (tk_event x)) (tk_pos x)) (ns_queue s h))
    \<or> (\<exists>e\<in>set (ns_gaveUp s). lv_hostId e = h \<and> current e s) \<or> ns_outside s h)"

definition queue_ok :: "int \<Rightarrow> notifier \<Rightarrow> bool" where
  "queue_ok h s \<longleftrightarrow> list_all (task_ok h s) (ns_queue s h) \<and>
     list_all (\<lambda>t. tk_pos t = Attempt 0 \<or> tk_pos t = Alarm) (tl (ns_queue s h)) \<and> synced h s"

definition alarms_ok :: "notifier \<Rightarrow> bool" where
  "alarms_ok s \<longleftrightarrow> (\<forall>t j. map_of (deb_timers (ns_debouncer s)) t = Some j \<longrightarrow>
     event_ok (dt_payload j) \<and> ev_kind (dt_payload j) = ConfirmedOffline \<and> transitionEpoch (dt_payload j) \<le> transitionEpochCounter (ns_tracker s))
   \<and> (\<forall>e\<in>set (ns_gaveUp s). event_ok e \<and> transitionEpoch e \<le> transitionEpochCounter (ns_tracker s))"

definition status_inv :: "int \<Rightarrow> notifier \<Rightarrow> bool" where
  "status_inv N s \<longleftrightarrow> trk_inv (ns_tracker s) \<and> transitionEpochCounter (ns_tracker s) \<le> N \<and> alarms_ok s \<and> (\<forall>h. queue_ok h s)"

lemma status_inv_start [simp]: "status_inv 0 (make_notifier a b rows known primed)"
  by (simp add: status_inv_def make_notifier_def alarms_ok_def make_debouncer_def queue_ok_def synced_def make_tracker_def inv_except_def)

section \<open>Steps of a task\<close>

lemma rows_same_keys [simp]:
  "map_of (touchHostHeartbeat h now rows) k = (if k = h then map_option (\<lambda>r. r\<lparr>row_isOnline := True, row_lastHeartbeat := Some (now div 1000)\<rparr>) (map_of rows k) else map_of rows k)"
  "map_of (markHostOffline h rows) k = (if k = h then map_option (\<lambda>r. r\<lparr>row_isOnline := False\<rparr>) (map_of rows k) else map_of rows k)"
  unfolding touchHostHeartbeat_def markHostOffline_def by (induction rows) auto

lemma goto_simps [simp]:
  "ns_tracker (goto p h s) = ns_tracker s" "ns_rows (goto p h s) = ns_rows s" "ns_debouncer (goto p h s) = ns_debouncer s"
  "ns_gaveUp (goto p h s) = ns_gaveUp s" "lastKnownStatus (goto p h s) = lastKnownStatus s" "ns_outside (goto p h s) = ns_outside s"
  "k \<noteq> h \<Longrightarrow> ns_queue (goto p h s) k = ns_queue s k"
  "ns_queue s h = t # ts \<Longrightarrow> ns_queue (goto p h s) h = t\<lparr>tk_pos := p\<rparr> # ts"
  by (simp_all add: goto_def)

lemma finish_simps [simp]:
  "ns_tracker (finish h s) = ns_tracker s" "ns_rows (finish h s) = ns_rows s" "ns_debouncer (finish h s) = ns_debouncer s"
  "ns_gaveUp (finish h s) = ns_gaveUp s" "lastKnownStatus (finish h s) = lastKnownStatus s" "ns_outside (finish h s) = ns_outside s"
  "k \<noteq> h \<Longrightarrow> ns_queue (finish h s) k = ns_queue s k" "ns_queue (finish h s) h = tl (ns_queue s h)"
  by (simp_all add: finish_def)

lemma retry_simps [simp]:
  "ns_tracker (retry e n h s) = ns_tracker s" "ns_rows (retry e n h s) = ns_rows s" "ns_debouncer (retry e n h s) = ns_debouncer s"
  "ns_outside (retry e n h s) = ns_outside s" "lastKnownStatus (retry e n h s) = lastKnownStatus s" "k \<noteq> h \<Longrightarrow> ns_queue (retry e n h s) k = ns_queue s k"
  by (simp_all add: retry_def)

lemma cancel_alarm_simps [simp]:
  "ns_tracker (cancel_alarm h s) = ns_tracker s" "ns_rows (cancel_alarm h s) = ns_rows s" "ns_queue (cancel_alarm h s) = ns_queue s"
  "ns_gaveUp (cancel_alarm h s) = ns_gaveUp s" "lastKnownStatus (cancel_alarm h s) = lastKnownStatus s"
  "ns_outside (cancel_alarm h s) = ns_outside s"
  by (simp_all add: cancel_alarm_def)

lemma set_rows_simps [simp]:
  "ns_tracker (set_rows f s) = ns_tracker s" "ns_rows (set_rows f s) = f (ns_rows s)" "ns_queue (set_rows f s) = ns_queue s"
  "ns_gaveUp (set_rows f s) = ns_gaveUp s" "ns_debouncer (set_rows f s) = ns_debouncer s" "lastKnownStatus (set_rows f s) = lastKnownStatus s"
  "ns_outside (set_rows f s) = ns_outside s"
  by (simp_all add: set_rows_def)

lemma send_simps [simp]:
  "ns_tracker (send b h x s) = ns_tracker s" "ns_rows (send b h x s) = ns_rows s" "ns_queue (send b h x s) = ns_queue s"
  "ns_gaveUp (send b h x s) = ns_gaveUp s" "ns_debouncer (send b h x s) = ns_debouncer s" "lastKnownStatus (send b h x s) = lastKnownStatus s"
  "ns_outside (send b h x s) = ns_outside s"
  by (simp_all add: send_def)

lemma notify_simps [simp]:
  "ns_tracker (snd (notifyHostStatusChange h x s)) = ns_tracker s" "ns_rows (snd (notifyHostStatusChange h x s)) = ns_rows s"
  "ns_queue (snd (notifyHostStatusChange h x s)) = ns_queue s" "ns_gaveUp (snd (notifyHostStatusChange h x s)) = ns_gaveUp s"
  "ns_outside (snd (notifyHostStatusChange h x s)) = ns_outside s"
  by (auto simp: notifyHostStatusChange_def Let_def split: option.splits)

lemma current_same: "ns_tracker s' = ns_tracker s \<Longrightarrow> current e s' = current e s"
  by (simp add: current_def)

lemma current_simps [simp]:
  "current e (goto p h s) = current e s" "current e (finish h s) = current e s" "current e (retry e' n h s) = current e s"
  "current e (set_rows f s) = current e s" "current e (cancel_alarm h s) = current e s" "current e (send b h x s) = current e s"
  by (simp_all add: current_def)

lemmas step_simps = enter_handler_def enter_restore_def settle_def Let_def split_def

text \<open>What every step of a task leaves alone.\<close>

definition framed :: "int \<Rightarrow> notifier \<Rightarrow> notifier \<Rightarrow> bool" where
  "framed h s s' \<longleftrightarrow> ns_tracker s' = ns_tracker s \<and> ns_outside s' = ns_outside s \<and> (\<forall>k. k \<noteq> h \<longrightarrow> ns_queue s' k = ns_queue s k \<and> map_of (ns_rows s') k = map_of (ns_rows s) k)
     \<and> (map_of (ns_rows s') h = None \<longleftrightarrow> map_of (ns_rows s) h = None)"

lemma task_step_framed: "framed h s (task_step r b now h e p s)"
  by (cases p; cases r) (auto simp: framed_def step_simps split: option.splits)

text \<open>Where a step takes the head of a queue; with the attempt given up the event is recorded.\<close>

definition head_to :: "int \<Rightarrow> notifier \<Rightarrow> notifier \<Rightarrow> task_pos \<Rightarrow> bool" where
  "head_to h s s' p \<longleftrightarrow> ns_queue s' h = (hd (ns_queue s h))\<lparr>tk_pos := p\<rparr> # tl (ns_queue s h) \<and> ns_gaveUp s' = ns_gaveUp s"

definition head_done :: "int \<Rightarrow> notifier \<Rightarrow> notifier \<Rightarrow> bool" where
  "head_done h s s' \<longleftrightarrow> ns_queue s' h = tl (ns_queue s h) \<and> ns_gaveUp s' = ns_gaveUp s"

definition head_gave_up :: "int \<Rightarrow> AgentFastLivenessTransition \<Rightarrow> notifier \<Rightarrow> notifier \<Rightarrow> bool" where
  "head_gave_up h e s s' \<longleftrightarrow> ns_queue s' h = tl (ns_queue s h) \<and> ns_gaveUp s' = e # ns_gaveUp s"

lemma head_to_goto: "ns_queue s0 = ns_queue s \<Longrightarrow> ns_gaveUp s0 = ns_gaveUp s \<Longrightarrow> ns_queue s h = t # ts \<Longrightarrow> head_to h s (goto p h s0) p"
  by (simp add: head_to_def)

lemma head_done_finish: "ns_queue s0 = ns_queue s \<Longrightarrow> ns_gaveUp s0 = ns_gaveUp s \<Longrightarrow> head_done h s (finish h s0)"
  by (simp add: head_done_def)

lemma retry_cases:
  assumes "ns_queue s0 = ns_queue s" "ns_gaveUp s0 = ns_gaveUp s" "ns_queue s h = t # ts"
  shows "head_to h s (retry e n h s0) (Attempt (Suc n)) \<or> head_gave_up h e s (retry e n h s0)"
  using assms by (simp add: retry_def head_to_def head_gave_up_def)

text \<open>An operation that leaves the queues alone either succeeds, or the attempt fails.\<close>

lemma settle_cases:
  assumes q: "ns_queue s h = t # ts" and eff: "ns_queue (effect s) = ns_queue s" "ns_gaveUp (effect s) = ns_gaveUp s"
  shows "settle r effect onward (retry e n h) s = onward (effect s) \<or>
    (head_to h s (settle r effect onward (retry e n h) s) (Attempt (Suc n)) \<or> head_gave_up h e s (settle r effect onward (retry e n h) s))
      \<and> ns_rows (settle r effect onward (retry e n h) s) \<in> {ns_rows s, ns_rows (effect s)}"
  using retry_cases [OF eff q] retry_cases [OF refl refl q] by (cases r) (simp_all add: settle_def)

lemma settle_id_cases:
  assumes q: "ns_queue s h = t # ts"
  shows "settle r id (goto p h) (retry e n h) s = goto p h s \<or>
    (head_to h s (settle r id (goto p h) (retry e n h) s) (Attempt (Suc n)) \<or> head_gave_up h e s (settle r id (goto p h) (retry e n h) s))
      \<and> ns_rows (settle r id (goto p h) (retry e n h) s) = ns_rows s"
  using settle_cases [OF q, of id r "goto p h"] by auto

definition advanced :: "int \<Rightarrow> AgentFastLivenessTransition \<Rightarrow> notifier \<Rightarrow> notifier \<Rightarrow> bool" where
  "advanced h e s s' \<longleftrightarrow> (\<exists>p'. head_to h s s' p' \<and> pending_pos (ev_kind e) p') \<or>
    (\<exists>p' r'. head_to h s s' p' \<and> written_pos (ev_kind e) p' \<and> map_of (ns_rows s') h = Some r' \<and> row_isOnline r' = (ev_kind e = ActivityRestored))
    \<or> head_gave_up h e s s'"

lemma advanced_goto:
  assumes "ns_queue s h = t # ts" "ns_queue s0 = ns_queue s" "ns_gaveUp s0 = ns_gaveUp s"
    and "pending_pos (ev_kind e) p' \<or> written_pos (ev_kind e) p' \<and> (\<exists>r'. map_of (ns_rows s0) h = Some r' \<and> row_isOnline r' = (ev_kind e = ActivityRestored))"
  shows "advanced h e s (goto p' h s0)"
proof -
  have "head_to h s (goto p' h s0) p'" using assms by (intro head_to_goto) auto
  then show ?thesis using assms(4) unfolding advanced_def by fastforce
qed

lemma advanced_settle:
  assumes "ns_queue s h = t # ts" "ns_queue (effect s) = ns_queue s" "ns_gaveUp (effect s) = ns_gaveUp s" "advanced h e s (onward (effect s))"
  shows "advanced h e s (settle r effect onward (retry e n h) s)"
  using settle_cases [of s h t ts effect r onward e n, OF assms(1-3)] assms(4) unfolding advanced_def by (metis pending_pos.simps(1))

lemma enter_handler_ready:
  assumes q: "ns_queue s h = t # ts" and e: "event_ok e" and cur: "current e s"
  shows "advanced h e s (enter_handler e n h s)"
  using e cur by (cases "ev_kind e") (auto simp: enter_handler_def event_ok_def intro!: advanced_goto [OF q])

lemma ready_step:
  assumes q: "ns_queue s h = t # ts" and e: "event_ok e" and cur: "current e s" and row: "map_of (ns_rows s) h = Some r0"
    and p: "pending_pos (ev_kind e) p"
  shows "advanced h e s (task_step r b now h e p s)"
  using p cur row
  by (cases p) (auto intro!: advanced_settle [OF q] advanced_goto [OF q] enter_handler_ready [OF q e])

text \<open>A current task that has stored its flag stores nothing more: it goes on, ends, or starts over.\<close>

definition kept :: "int \<Rightarrow> AgentFastLivenessTransition \<Rightarrow> notifier \<Rightarrow> notifier \<Rightarrow> bool" where
  "kept h e s s' \<longleftrightarrow> (ns_rows s' = ns_rows s \<and> (head_done h s s' \<or> (\<exists>p'. head_to h s s' p' \<and> written_pos (ev_kind e) p')))
    \<or> (\<exists>n. head_to h s s' (Attempt n)) \<or> head_gave_up h e s s'"

lemma kept_finish: "ns_queue s0 = ns_queue s \<Longrightarrow> ns_gaveUp s0 = ns_gaveUp s \<Longrightarrow> ns_rows s0 = ns_rows s \<Longrightarrow> kept h e s (finish h s0)"
  by (simp add: kept_def head_done_finish)

lemma kept_goto:
  assumes "ns_queue s h = t # ts" "ns_queue s0 = ns_queue s" "ns_gaveUp s0 = ns_gaveUp s" "ns_rows s0 = ns_rows s" "written_pos (ev_kind e) p'"
  shows "kept h e s (goto p' h s0)"
  using head_to_goto [OF assms(2,3,1), of p'] assms(4,5) unfolding kept_def by auto

lemma kept_settle:
  assumes "ns_queue s h = t # ts" "ns_queue (effect s) = ns_queue s" "ns_gaveUp (effect s) = ns_gaveUp s" "kept h e s (onward (effect s))"
  shows "kept h e s (settle r effect onward (retry e n h) s)"
  using settle_cases [of s h t ts effect r onward e n, OF assms(1-3)] assms(4) unfolding kept_def by metis

lemma written_step:
  assumes q: "ns_queue s h = t # ts" and cur: "current e s" and p: "written_pos (ev_kind e) p"
  shows "kept h e s (task_step r b now h e p s)"
  using p cur
  by (cases p) (auto simp: split_def Let_def intro!: kept_settle [OF q] kept_goto [OF q] kept_finish)

text \<open>Alarms leave the rows alone.\<close>

lemma alarm_step:
  assumes q: "ns_queue s h = t # ts" and p: "\<not> is_transition p" and s': "s' = task_step r b now h e p s"
  shows "ns_rows s' = ns_rows s \<and> (head_done h s s' \<or> head_to h s s' SendAlarm)"
  using p
proof (cases p)
  case Alarm
  then show ?thesis using q s' by (auto simp: split_def Let_def intro!: head_to_goto head_done_finish)
next
  case SendAlarm
  then show ?thesis using q s' by (cases r) (auto simp: settle_def intro!: head_done_finish)
qed simp_all

text \<open>In every case the head of the queue moves to a position of its kind, or leaves the queue.\<close>

abbreviation ok_pos :: "bool \<Rightarrow> AgentFastLivenessTransitionKind \<Rightarrow> task_pos \<Rightarrow> bool" where
  "ok_pos row k p \<equiv> pending_pos k p \<or> written_pos k p \<or> other_pos row k p"

definition head_moves :: "int \<Rightarrow> AgentFastLivenessTransition \<Rightarrow> notifier \<Rightarrow> notifier \<Rightarrow> bool" where
  "head_moves h e s s' \<longleftrightarrow> head_done h s s' \<or> head_gave_up h e s s' \<or>
     (\<exists>p'. head_to h s s' p' \<and> ok_pos (map_of (ns_rows s) h \<noteq> None) (ev_kind e) p')"

lemma head_moves_finish: "ns_queue s0 = ns_queue s \<Longrightarrow> ns_gaveUp s0 = ns_gaveUp s \<Longrightarrow> head_moves h e s (finish h s0)"
  by (simp add: head_moves_def head_done_finish)

lemma head_moves_goto:
  assumes "ns_queue s h = t # ts" "ns_queue s0 = ns_queue s" "ns_gaveUp s0 = ns_gaveUp s" "ok_pos (map_of (ns_rows s) h \<noteq> None) (ev_kind e) p'"
  shows "head_moves h e s (goto p' h s0)"
  using head_to_goto [OF assms(2,3,1), of p'] assms(4) unfolding head_moves_def by blast

lemma head_moves_settle:
  assumes "ns_queue s h = t # ts" "ns_queue (effect s) = ns_queue s" "ns_gaveUp (effect s) = ns_gaveUp s" "head_moves h e s (onward (effect s))"
  shows "head_moves h e s (settle r effect onward (retry e n h) s)"
  using settle_cases [of s h t ts effect r onward e n, OF assms(1-3)] assms(4) unfolding head_moves_def by (metis pending_pos.simps(1))

lemma head_moves_enter:
  assumes q: "ns_queue s h = t # ts" and e: "event_ok e"
  shows "head_moves h e s (enter_handler e n h s)"
proof (cases "current e s")
  case True
  then show ?thesis using enter_handler_ready [OF q e True, of n] by (auto simp: head_moves_def advanced_def)
qed (simp add: enter_handler_def head_moves_finish)

lemma head_moves_restore:
  assumes q: "ns_queue s h = t # ts" and "ev_kind e = ConfirmedOffline"
  shows "head_moves h e s (enter_restore n h s)"
  using assms(2) by (auto simp: enter_restore_def intro!: head_moves_finish head_moves_goto [OF q] split: option.splits)

lemma head_moves_step:
  assumes q: "ns_queue s h = t # ts" and e: "event_ok e" and p: "ok_pos (map_of (ns_rows s) h \<noteq> None) (ev_kind e) p"
  shows "head_moves h e s (task_step r b now h e p s)"
proof (cases "p = SendAlarm")
  case True
  then show ?thesis by (cases r) (auto simp: settle_def intro!: head_moves_finish)
next
  case False
  then show ?thesis
    using p
    by (cases p) (auto simp: split_def Let_def intro!: head_moves_settle [OF q] head_moves_goto [OF q] head_moves_finish
        head_moves_enter [OF q e] head_moves_restore [OF q])
qed

section \<open>The invariant is kept by the tasks\<close>

text \<open>The three ways in which the stored flag of \<open>h\<close> is taken care of.\<close>

definition task_waits :: "int \<Rightarrow> notifier \<Rightarrow> bool" where
  "task_waits h s \<longleftrightarrow> (\<exists>pre t post. ns_queue s h = pre @ t # post \<and> ready_task s t \<and> list_all (\<lambda>x. \<not> is_transition (tk_pos x)) post)"

definition flag_stored :: "int \<Rightarrow> bool \<Rightarrow> bool \<Rightarrow> notifier \<Rightarrow> bool" where
  "flag_stored h online offline s \<longleftrightarrow> online = (\<not> offline) \<and>
     list_all (\<lambda>x. is_transition (tk_pos x) \<longrightarrow> current (tk_event x) s \<and> written_pos (ev_kind (tk_event x)) (tk_pos x)) (ns_queue s h)"

definition abandoned :: "int \<Rightarrow> notifier \<Rightarrow> bool" where
  "abandoned h s \<longleftrightarrow> (\<exists>e\<in>set (ns_gaveUp s). lv_hostId e = h \<and> current e s) \<or> ns_outside s h"

lemma synced_alt:
  "synced h s \<longleftrightarrow> (\<forall>st r. map_of (tr_hosts (ns_tracker s)) h = Some st \<and> 0 < transitionEpoch st \<and> map_of (ns_rows s) h = Some r \<longrightarrow>
     task_waits h s \<or> flag_stored h (row_isOnline r) (confirmedOffline st) s \<or> abandoned h s)"
  by (simp add: synced_def task_waits_def flag_stored_def abandoned_def)

lemma pending_is_transition [simp]: "pending_pos k p \<Longrightarrow> is_transition p" "written_pos k p \<Longrightarrow> is_transition p"
  by (cases p; simp)+

lemma pending_not_written: "written_pos k p \<Longrightarrow> \<not> (p = Attempt n \<or> p = Alarm)"
  by (cases p) auto

lemma head_states:
  assumes "head_to h s s' p \<or> head_done h s s' \<or> head_gave_up h e s s'" "ns_queue s h = t # ts"
  shows "ns_queue s' h = ts \<or> (\<exists>p. ns_queue s' h = t\<lparr>tk_pos := p\<rparr> # ts)" "set (ns_gaveUp s) \<subseteq> set (ns_gaveUp s')"
  using assms by (auto simp: head_to_def head_done_def head_gave_up_def)

lemma waits_behind_head:
  assumes "ns_queue s h = t # ts" "ts = pre @ t0 # post" "ready_task s t0" "list_all (\<lambda>x. \<not> is_transition (tk_pos x)) post"
    and "ns_queue s' h = ts \<or> (\<exists>p. ns_queue s' h = t\<lparr>tk_pos := p\<rparr> # ts)" "ns_tracker s' = ns_tracker s"
  shows "task_waits h s'"
proof -
  have "ready_task s' t0" using assms(3,6) by (simp add: ready_task_def current_def)
  moreover obtain pre' where "ns_queue s' h = pre' @ t0 # post" using assms(2,5) by (metis append_Cons)
  ultimately show ?thesis unfolding task_waits_def using assms(4) by blast
qed

lemma current_confirmed:
  assumes "current e s" "event_ok e" "map_of (tr_hosts (ns_tracker s)) (lv_hostId e) = Some st" "transitionEpoch e \<le> MAX_SAFE_INTEGER"
  shows "confirmedOffline st = (ev_kind e = ConfirmedOffline)"
  using assms current_at_epoch [of e "ns_tracker s"] by (auto simp: current_def event_ok_def at_epoch_def)

lemma kind_cases: "(ev_kind e = ActivityRestored) = (ev_kind e \<noteq> ConfirmedOffline)"
  by (cases "ev_kind e") auto

lemma synced_ready:
  assumes q: "ns_queue s h = t # ts" and tr: "ns_tracker s' = ns_tracker s" and adv: "advanced h (tk_event t) s s'"
    and ready: "ready_task s t" and post: "list_all (\<lambda>x. \<not> is_transition (tk_pos x)) ts" and host: "lv_hostId (tk_event t) = h"
    and conf: "confirmedOffline st = (ev_kind (tk_event t) = ConfirmedOffline)" and row: "map_of (ns_rows s') h = Some r"
  shows "task_waits h s' \<or> flag_stored h (row_isOnline r) (confirmedOffline st) s' \<or> abandoned h s'"
proof -
  let ?e = "tk_event t"
  have cur: "current ?e s'" using ready tr by (simp add: ready_task_def current_def)
  from adv show ?thesis
    unfolding advanced_def
  proof (elim disjE exE conjE)
    fix p' assume "head_to h s s' p'" "pending_pos (ev_kind ?e) p'"
    then have "ns_queue s' h = [] @ t\<lparr>tk_pos := p'\<rparr> # ts" "ready_task s' (t\<lparr>tk_pos := p'\<rparr>)" using q cur by (simp_all add: head_to_def ready_task_def)
    then show ?thesis using post unfolding task_waits_def by blast
  next
    fix p' r' assume "head_to h s s' p'" "written_pos (ev_kind ?e) p'" "map_of (ns_rows s') h = Some r'"
      "row_isOnline r' = (ev_kind ?e = ActivityRestored)"
    then show ?thesis using q cur post row conf by (auto simp: flag_stored_def head_to_def kind_cases list_all_iff)
  next
    assume "head_gave_up h ?e s s'"
    then show ?thesis using cur host by (auto simp: abandoned_def head_gave_up_def)
  qed
qed

lemma synced_written:
  assumes q: "ns_queue s h = t # ts" and tr: "ns_tracker s' = ns_tracker s" and kept: "kept h (tk_event t) s s'"
    and cur: "current (tk_event t) s" and post: "list_all (\<lambda>x. \<not> is_transition (tk_pos x)) ts" and host: "lv_hostId (tk_event t) = h"
    and row: "map_of (ns_rows s) h = Some r0" "row_isOnline r0 = (\<not> off)" "map_of (ns_rows s') h = Some r"
  shows "task_waits h s' \<or> flag_stored h (row_isOnline r) off s' \<or> abandoned h s'"
proof -
  let ?e = "tk_event t"
  have cur': "current ?e s'" using cur tr by (simp add: current_def)
  from kept show ?thesis
    unfolding kept_def
  proof (elim disjE exE conjE)
    assume "ns_rows s' = ns_rows s" "head_done h s s'"
    then show ?thesis using q post row by (auto simp: flag_stored_def head_done_def list_all_iff)
  next
    fix p' assume "ns_rows s' = ns_rows s" "head_to h s s' p'" "written_pos (ev_kind ?e) p'"
    then show ?thesis using q post row cur' by (auto simp: flag_stored_def head_to_def list_all_iff)
  next
    fix n assume "head_to h s s' (Attempt n)"
    then have "ns_queue s' h = [] @ t\<lparr>tk_pos := Attempt n\<rparr> # ts" "ready_task s' (t\<lparr>tk_pos := Attempt n\<rparr>)"
      using q cur' by (simp_all add: head_to_def ready_task_def)
    then show ?thesis using post unfolding task_waits_def by blast
  next
    assume "head_gave_up h ?e s s'"
    then show ?thesis using cur' host by (auto simp: abandoned_def head_gave_up_def)
  qed
qed

lemma synced_step:
  assumes q: "ns_queue s h = t # ts" and ok: "queue_ok h s" and s': "s' = task_step r b now h (tk_event t) (tk_pos t) s"
    and bound: "transitionEpochCounter (ns_tracker s) \<le> MAX_SAFE_INTEGER"
  shows "synced h s'"
  unfolding synced_alt
proof (intro allI impI, elim conjE)
  fix st r' assume st: "map_of (tr_hosts (ns_tracker s')) h = Some st" "0 < transitionEpoch st" and row': "map_of (ns_rows s') h = Some r'"
  let ?e = "tk_event t"
  have fr: "ns_tracker s' = ns_tracker s" "map_of (ns_rows s) h \<noteq> None" and out: "ns_outside s' = ns_outside s"
    using task_step_framed [of h s r b now ?e "tk_pos t"] s' row' by (auto simp: framed_def)
  then obtain r0 where row: "map_of (ns_rows s) h = Some r0" by blast
  have t: "lv_hostId ?e = h" "event_ok ?e" "transitionEpoch ?e \<le> transitionEpochCounter (ns_tracker s)"
      "ok_pos (map_of (ns_rows s) h \<noteq> None) (ev_kind ?e) (tk_pos t)"
    using ok q by (auto simp: queue_ok_def task_ok_def Let_def)
  have tail: "list_all (\<lambda>x. tk_pos x = Attempt 0 \<or> tk_pos x = Alarm) ts" using ok q by (simp add: queue_ok_def)
  have moves: "ns_queue s' h = ts \<or> (\<exists>p. ns_queue s' h = t\<lparr>tk_pos := p\<rparr> # ts)" "set (ns_gaveUp s) \<subseteq> set (ns_gaveUp s')"
    using head_moves_step [OF q t(2,4), of r b now] s' head_states [OF _ q] unfolding head_moves_def by blast+
  have "task_waits h s \<or> flag_stored h (row_isOnline r0) (confirmedOffline st) s \<or> abandoned h s"
    using ok st row fr(1) by (auto simp: queue_ok_def synced_alt)
  then show "task_waits h s' \<or> flag_stored h (row_isOnline r') (confirmedOffline st) s' \<or> abandoned h s'"
  proof (elim disjE)
    assume "task_waits h s"
    then obtain pre t0 post where split: "ns_queue s h = pre @ t0 # post" "ready_task s t0" "list_all (\<lambda>x. \<not> is_transition (tk_pos x)) post"
      unfolding task_waits_def by blast
    show ?thesis
    proof (cases pre)
      case Nil
      then have same: "t0 = t" "post = ts" using split(1) q by simp_all
      have adv: "advanced h ?e s s'" unfolding s' using split(2) same by (intro ready_step [OF q t(2) _ row]) (auto simp: ready_task_def)
      have "confirmedOffline st = (ev_kind ?e = ConfirmedOffline)"
        using split(2) same t st fr(1) bound by (intro current_confirmed [of ?e s]) (auto simp: ready_task_def)
      then show ?thesis using synced_ready [OF q fr(1) adv _ _ t(1) _ row'] split same by blast
    next
      case (Cons x pre')
      then have "ts = pre' @ t0 # post" using split(1) q by simp
      then show ?thesis using waits_behind_head [OF q _ split(2,3) moves(1) fr(1)] by blast
    qed
  next
    assume stored: "flag_stored h (row_isOnline r0) (confirmedOffline st) s"
    have post: "list_all (\<lambda>x. \<not> is_transition (tk_pos x)) ts"
      using stored tail q pending_not_written by (fastforce simp: flag_stored_def list_all_iff)
    show ?thesis
    proof (cases "is_transition (tk_pos t)")
      case True
      then have cur: "current ?e s" "written_pos (ev_kind ?e) (tk_pos t)" using stored q by (auto simp: flag_stored_def)
      show ?thesis
        using synced_written [OF q fr(1) written_step [OF q cur, of r b now, folded s'] cur(1) post t(1) row _ row'] stored by (simp add: flag_stored_def)
    next
      case False
      with alarm_step [OF q False s'] stored q row row' show ?thesis
        by (auto simp: flag_stored_def head_done_def head_to_def current_same [OF fr(1)])
    qed
  next
    assume "abandoned h s"
    then show ?thesis using moves(2) current_same [OF fr(1)] out by (auto simp: abandoned_def)
  qed
qed

lemma queue_step:
  assumes q: "ns_queue s h = t # ts" and ok: "queue_ok h s" and s': "s' = task_step r b now h (tk_event t) (tk_pos t) s"
    and bound: "transitionEpochCounter (ns_tracker s) \<le> MAX_SAFE_INTEGER"
  shows "queue_ok h s'"
proof -
  let ?e = "tk_event t"
  have fr: "framed h s s'" using task_step_framed s' by simp
  have t: "task_ok h s t" using ok q by (simp add: queue_ok_def)
  have same: "task_ok h s' x = task_ok h s x" for x using fr by (auto simp: framed_def task_ok_def Let_def)
  have "head_moves h ?e s s'"
    using t s' head_moves_step [OF q] by (auto simp: task_ok_def Let_def)
  then have "ns_queue s' h = ts \<or> (\<exists>p'. ns_queue s' h = t\<lparr>tk_pos := p'\<rparr> # ts \<and> ok_pos (map_of (ns_rows s) h \<noteq> None) (ev_kind ?e) p')"
    using q by (auto simp: head_moves_def head_done_def head_gave_up_def head_to_def)
  moreover have "list_all (task_ok h s) ts" "list_all (\<lambda>t. tk_pos t = Attempt 0 \<or> tk_pos t = Alarm) ts"
    "list_all (\<lambda>t. tk_pos t = Attempt 0 \<or> tk_pos t = Alarm) (tl ts)"
    using ok q by (cases ts; simp add: queue_ok_def)+
  moreover have "task_ok h s (t\<lparr>tk_pos := p'\<rparr>)" if "ok_pos (map_of (ns_rows s) h \<noteq> None) (ev_kind ?e) p'" for p'
    using t that by (simp add: task_ok_def Let_def)
  ultimately have "list_all (task_ok h s') (ns_queue s' h) \<and> list_all (\<lambda>t. tk_pos t = Attempt 0 \<or> tk_pos t = Alarm) (tl (ns_queue s' h))"
    unfolding same by auto
  then show ?thesis using synced_step [OF q ok s' bound] by (simp add: queue_ok_def)
qed

lemma queue_other:
  assumes "framed h s s'" "k \<noteq> h" "set (ns_gaveUp s) \<subseteq> set (ns_gaveUp s')" "queue_ok k s"
  shows "queue_ok k s'"
proof -
  have cur: "current e s' = current e s" for e using assms(1) by (simp add: framed_def current_def)
  have same: "ns_queue s' k = ns_queue s k" "map_of (ns_rows s') k = map_of (ns_rows s) k" "ns_tracker s' = ns_tracker s"
    "ns_outside s' = ns_outside s"
    using assms(1,2) by (simp_all add: framed_def)
  have "task_ok k s' x = task_ok k s x" for x using same by (simp add: task_ok_def Let_def)
  moreover have "synced k s'"
    using assms(3,4) same unfolding queue_ok_def synced_def cur ready_task_def by (simp add: cur) blast
  ultimately show ?thesis using assms(4) same by (simp add: queue_ok_def list_all_iff)
qed

definition deb_payloads :: "'a HostOfflineNotificationDebouncer \<Rightarrow> 'a set" where
  "deb_payloads d = {dt_payload j |t j. map_of (deb_timers d) t = Some j}"

lemma deb_payloads_cancel: "deb_payloads (snd (deb_cancel hv d)) \<subseteq> deb_payloads d"
  by (auto simp: deb_payloads_def deb_cancel_def alist_simps split: option.splits if_splits)

lemma deb_payloads_schedule: "deb_payloads (snd (deb_schedule hv e now d)) \<subseteq> insert e (deb_payloads d)"
  using deb_payloads_cancel [of _ d]
  by (auto simp: deb_schedule_def Let_def deb_payloads_def split: option.splits if_splits) blast+

lemma alarms_ok_payloads:
  "alarms_ok s \<longleftrightarrow> (\<forall>e\<in>deb_payloads (ns_debouncer s). event_ok e \<and> ev_kind e = ConfirmedOffline \<and> transitionEpoch e \<le> transitionEpochCounter (ns_tracker s))
     \<and> (\<forall>e\<in>set (ns_gaveUp s). event_ok e \<and> transitionEpoch e \<le> transitionEpochCounter (ns_tracker s))"
  unfolding alarms_ok_def deb_payloads_def by blast

lemma payloads_cancel_alarm: "deb_payloads (ns_debouncer (cancel_alarm h s)) \<subseteq> deb_payloads (ns_debouncer s)"
  by (simp add: cancel_alarm_def deb_payloads_cancel)

lemma payloads_notify: "deb_payloads (ns_debouncer (snd (notifyHostStatusChange h x s))) \<subseteq> deb_payloads (ns_debouncer s)"
  using payloads_cancel_alarm [of h s] by (auto simp: notifyHostStatusChange_def Let_def split: option.splits)

lemma payloads_enter: "deb_payloads (ns_debouncer (enter_handler e n h s)) \<subseteq> deb_payloads (ns_debouncer s)"
  using payloads_cancel_alarm [of h s] by (auto simp: enter_handler_def)

lemma payloads_step:
  "deb_payloads (ns_debouncer (task_step r b now h e p s)) \<subseteq>
     deb_payloads (ns_debouncer s) \<union> (if \<exists>n. p = GroupsOffline_done n then {e} else {})"
proof (cases p)
  case (GroupsOffline_done n)
  then show ?thesis
    using deb_payloads_schedule [of "JNum (inum h)" e now "ns_debouncer s"] by (auto simp: enter_restore_def split: option.splits)
next
  case (GroupsOnline_done n)
  then show ?thesis using payloads_notify [of h Online s] by (auto simp: split_def Let_def)
next
  case Alarm
  then show ?thesis using payloads_notify [of h Offline s] by (auto simp: split_def Let_def)
qed (use payloads_enter [of e _ h s] in \<open>cases r; auto simp: settle_def enter_restore_def split: option.splits\<close>)+

lemma status_task_step:
  assumes inv: "status_inv N s" and N: "N \<le> MAX_SAFE_INTEGER"
  shows "status_inv N (run_task r b now h s)"
proof (cases "ns_queue s h")
  case Nil
  then show ?thesis using inv by (simp add: run_task_def)
next
  case q: (Cons t ts)
  define s' where "s' = task_step r b now h (tk_event t) (tk_pos t) s"
  have run: "run_task r b now h s = s'" using q by (simp add: run_task_def s'_def)
  have fr: "framed h s s'" using task_step_framed by (simp add: s'_def)
  have bound: "transitionEpochCounter (ns_tracker s) \<le> MAX_SAFE_INTEGER" using inv N by (simp add: status_inv_def)
  have t: "task_ok h s t" using inv q by (auto simp: status_inv_def queue_ok_def dest: spec [of _ h])
  then have "head_moves h (tk_event t) s s'" using head_moves_step [OF q] by (auto simp: task_ok_def Let_def s'_def)
  then have gave: "set (ns_gaveUp s) \<subseteq> set (ns_gaveUp s')" "set (ns_gaveUp s') \<subseteq> insert (tk_event t) (set (ns_gaveUp s))"
    by (auto simp: head_moves_def head_done_def head_to_def head_gave_up_def)
  have "queue_ok k s'" for k
    using queue_step [OF q _ s'_def bound] queue_other [OF fr _ gave(1)] inv by (cases "k = h") (auto simp: status_inv_def)
  moreover have "alarms_ok s'"
    using inv gave(2) payloads_step [of r b now h "tk_event t" "tk_pos t" s, folded s'_def] t fr
    unfolding status_inv_def alarms_ok_payloads framed_def task_ok_def Let_def
    by (fastforce split: if_splits)
  ultimately show ?thesis using inv fr unfolding run by (simp add: status_inv_def framed_def)
qed

section \<open>The invariant is kept by announcements and alarms\<close>

interpretation announced: tracker_contract dp "\<lambda>now. 0 < now" trk_inv event_ok for dp
proof unfold_locales
  have obs: "list_all event_ok es" if inv: "trk_inv tr" and o: "observeActivity dp hv v now tr = (b, es, tr')" for tr hv v now b es tr'
    using o
  proof (cases rule: observeE)
    case (restored h s x e s')
    then show ?thesis
      using inv_hostD [OF inv restored(3)] inv_counters [OF inv] nextGeneration_pos [of "transitionEpochCounter tr"]
      by (auto simp: event_ok_def host_inv_def)
  qed simp_all
  fix now :: int and tr b es tr' assume now: "0 < now" and inv: "trk_inv tr"
  show "trk_inv tr' \<and> list_all event_ok es" if "observeActivity dp hv v now tr = (b, es, tr')" for hv v
    using obs [OF inv that] inv_observe [OF inv that] by simp
  show "trk_inv tr' \<and> list_all event_ok es" if reg: "registerHost dp host g a now tr = (b, es, tr')" for host g a
    using reg
  proof (cases rule: registerE)
    case (observed h s ver v b')
    then show ?thesis using obs [OF inv_rename [OF inv observed(3)] observed(4)] inv_register [OF inv reg] by simp
  qed (use inv_register [OF inv reg] in simp_all)
  show "trk_inv tr' \<and> list_all event_ok es" if fire: "timer_callback t now tr = (es, tr')" for t
    using fire
  proof (cases rule: timerE)
    case (confirmed j s s')
    then show ?thesis
      using inv_hostD [OF inv confirmed(2)] inv_counters [OF inv] nextGeneration_pos [of "transitionEpochCounter tr"] inv_timer [OF inv fire] now
      by (auto simp: event_ok_def host_inv_def)
  qed (use inv_timer [OF inv fire] in simp_all)
qed (simp_all add: inv_remove inv_clear)

lemma current_step:
  assumes "host_step (lv_hostId e) tr es tr'" "\<forall>e'\<in>set es. lv_hostId e' \<noteq> lv_hostId e" "event_ok e"
    "map_of (tr_hosts tr) (lv_hostId e) = Some st" "map_of (tr_hosts tr') (lv_hostId e) = Some st'"
  shows "event_isCurrent e tr' = event_isCurrent e tr"
  using assms by (auto simp: host_step_def event_isCurrent_def isCurrentTransition_def event_ok_def split: option.splits)

lemma carried:
  assumes "ns_queue s' h = ns_queue s h" "ns_gaveUp s' = ns_gaveUp s" "ns_outside s' h = ns_outside s h"
    and q: "\<And>x. x \<in> set (ns_queue s h) \<Longrightarrow> current (tk_event x) s' = current (tk_event x) s"
    and g: "\<And>e. e \<in> set (ns_gaveUp s) \<Longrightarrow> lv_hostId e = h \<Longrightarrow> current e s' = current e s"
  shows "task_waits h s \<Longrightarrow> task_waits h s'" "flag_stored h on off s \<Longrightarrow> flag_stored h on off s'" "abandoned h s \<Longrightarrow> abandoned h s'"
proof -
  show "task_waits h s'" if w: "task_waits h s"
  proof -
    from w obtain pre t post where "ns_queue s h = pre @ t # post" "ready_task s t" "list_all (\<lambda>x. \<not> is_transition (tk_pos x)) post"
      unfolding task_waits_def by blast
    then show ?thesis using assms(1) q [of t] unfolding task_waits_def ready_task_def by force
  qed
qed (use assms in \<open>auto simp: flag_stored_def abandoned_def list_all_iff\<close>)

lemma track_quiet:
  assumes inv: "status_inv N s" and st: "trk_step dp (act, now) (ns_tracker s) = (es, tr')" and "\<forall>e\<in>set es. lv_hostId e \<noteq> h"
    and s': "ns_tracker s' = tr'" "ns_queue s' h = ns_queue s h" "ns_rows s' = ns_rows s" "ns_gaveUp s' = ns_gaveUp s"
    and out: "ns_outside s' h = ns_outside s h" and le: "transitionEpochCounter (ns_tracker s) \<le> transitionEpochCounter tr'"
  shows "queue_ok h s'"
proof -
  have ok: "queue_ok h s" and trk: "trk_inv (ns_tracker s)" using inv by (simp_all add: status_inv_def)
  have step: "host_step h (ns_tracker s) es tr'" by (rule host_step_step [OF trk st])
  have tasks: "list_all (task_ok h s') (ns_queue s' h)"
    using ok s' le by (auto simp: queue_ok_def list_all_iff task_ok_def Let_def)
  have "synced h s'"
    unfolding synced_alt
  proof (intro allI impI, elim conjE)
    fix st' r assume st': "map_of (tr_hosts (ns_tracker s')) h = Some st'" "0 < transitionEpoch st'" and r: "map_of (ns_rows s') h = Some r"
    obtain st0 where st0: "map_of (tr_hosts (ns_tracker s)) h = Some st0" "transitionEpoch st0 = transitionEpoch st'" "confirmedOffline st0 = confirmedOffline st'"
      using step st' s'(1) assms(3) by (auto simp: host_step_def split: option.splits if_splits)
    have cur: "current e s' = current e s" if "lv_hostId e = h" "event_ok e" for e
      using current_step [of e "ns_tracker s" es tr' st0 st'] step st' st0 s'(1) assms(3) that by (simp add: current_def)
    have q: "current (tk_event x) s' = current (tk_event x) s" if "x \<in> set (ns_queue s h)" for x
      using ok that by (intro cur) (auto simp: queue_ok_def list_all_iff task_ok_def Let_def)
    have g: "current e s' = current e s" if "e \<in> set (ns_gaveUp s)" "lv_hostId e = h" for e
      using inv that by (intro cur) (auto simp: status_inv_def alarms_ok_def)
    have "task_waits h s \<or> flag_stored h (row_isOnline r) (confirmedOffline st0) s \<or> abandoned h s"
      using ok st0(1,2) st'(2) r s'(3) by (auto simp: queue_ok_def synced_alt)
    then show "task_waits h s' \<or> flag_stored h (row_isOnline r) (confirmedOffline st') s' \<or> abandoned h s'"
      by (elim disjE) (simp_all add: carried [OF s'(2,4) out q g] st0(3))
  qed
  then show ?thesis using tasks ok s' by (simp add: queue_ok_def)
qed

lemma track_announced:
  assumes inv: "status_inv N s" and st: "trk_step dp (act, now) (ns_tracker s) = ([e], tr')" and now: "0 < now" and N: "N < MAX_SAFE_INTEGER"
    and s': "ns_tracker s' = tr'" "ns_queue s' (lv_hostId e) = ns_queue s (lv_hostId e) @ [\<lparr>tk_event = e, tk_pos = Attempt 0\<rparr>]" "ns_rows s' = ns_rows s"
  shows "queue_ok (lv_hostId e) s'"
proof -
  let ?h = "lv_hostId e" and ?t = "\<lparr>tk_event = e, tk_pos = Attempt 0\<rparr>"
  have ok: "queue_ok ?h s" and trk: "trk_inv (ns_tracker s)" and c: "transitionEpochCounter (ns_tracker s) \<le> N" "0 \<le> transitionEpochCounter (ns_tracker s)"
    using inv inv_counters by (auto simp: status_inv_def)
  have e: "event_ok e" using announced.step [OF _ trk st] now by simp
  obtain st' where st': "map_of (tr_hosts tr') ?h = Some st'" "transitionEpoch st' = transitionEpochCounter tr'" "transitionEpoch e = transitionEpochCounter tr'"
      "confirmedOffline st' = (ev_kind e = ConfirmedOffline)" "transitionEpochCounter tr' = transitionEpochCounter (ns_tracker s) + 1"
    using host_step_step [OF trk st, of ?h] c N by (auto simp: host_step_def nextGeneration_def)
  have "current e s'" using current_at_epoch [of e tr'] e st' s'(1) c N by (auto simp: current_def event_ok_def at_epoch_def)
  then have "ready_task s' ?t" by (simp add: ready_task_def)
  moreover have "ns_queue s' ?h = ns_queue s ?h @ ?t # []" using s'(2) by simp
  ultimately have "task_waits ?h s'" unfolding task_waits_def by (metis list.pred_inject(1))
  then have "synced ?h s'" by (simp add: synced_alt)
  moreover have "list_all (task_ok ?h s') (ns_queue s' ?h)"
    using ok s' st' e by (auto simp: queue_ok_def list_all_iff task_ok_def Let_def)
  moreover have "list_all (\<lambda>t. tk_pos t = Attempt 0 \<or> tk_pos t = Alarm) (tl (ns_queue s' ?h))"
    using ok s'(2) by (cases "ns_queue s ?h") (auto simp: queue_ok_def)
  ultimately show ?thesis by (simp add: queue_ok_def)
qed

lemma on_transition_simps:
  assumes "0 < lv_hostId e"
  shows "ns_tracker (on_transition e s) = ns_tracker s" "ns_rows (on_transition e s) = ns_rows s" "ns_gaveUp (on_transition e s) = ns_gaveUp s"
    "ns_queue (on_transition e s) = (ns_queue s)(lv_hostId e := ns_queue s (lv_hostId e) @ [\<lparr>tk_event = e, tk_pos = Attempt 0\<rparr>])"
    "deb_payloads (ns_debouncer (on_transition e s)) \<subseteq> deb_payloads (ns_debouncer s)"
    "lastKnownStatus (on_transition e s) = lastKnownStatus s" "ns_outside (on_transition e s) = (ns_outside s)(lv_hostId e := False)"
  using assms payloads_cancel_alarm [of "lv_hostId e" s] by (auto simp: on_transition_def Let_def enqueue_task_def)

lemma status_track:
  assumes inv: "status_inv N s" and now: "0 < now" and N: "N < MAX_SAFE_INTEGER"
  shows "status_inv (N + 1) (track dp act now s)"
proof -
  obtain es tr' where st: "trk_step dp (act, now) (ns_tracker s) = (es, tr')" by (cases "trk_step dp (act, now) (ns_tracker s)")
  have trk: "trk_inv (ns_tracker s)" and c: "transitionEpochCounter (ns_tracker s) \<le> N" "0 \<le> transitionEpochCounter (ns_tracker s)"
    using inv inv_counters by (auto simp: status_inv_def)
  have inv': "trk_inv tr'" and es: "list_all event_ok es" using announced.step [OF _ trk st] now by auto
  have cases: "es = [] \<or> (\<exists>e. es = [e])"
    using host_step_step [OF trk st, of "lv_hostId (hd es)"] by (cases es) (auto simp: host_step_def split: if_splits)
  have c': "transitionEpochCounter (ns_tracker s) \<le> transitionEpochCounter tr'" "transitionEpochCounter tr' \<le> N + 1"
    using host_step_step [OF trk st, of 0] c N by (auto simp: host_step_def nextGeneration_def split: if_splits)
  let ?s = "track dp act now s"
  have trk': "ns_tracker ?s = tr'" "ns_rows ?s = ns_rows s" "ns_gaveUp ?s = ns_gaveUp s"
      "deb_payloads (ns_debouncer ?s) \<subseteq> deb_payloads (ns_debouncer s)"
    using cases es st on_transition_simps(5) [of "hd es" "s\<lparr>ns_tracker := tr'\<rparr>"]
    by (auto simp: track_def on_transition_simps(1-4) event_ok_def)
  have queue: "ns_queue ?s h = ns_queue s h" "ns_outside ?s h = ns_outside s h" if "\<forall>e\<in>set es. lv_hostId e \<noteq> h" for h
    using cases es st that by (auto simp: track_def on_transition_simps event_ok_def)
  have "queue_ok h ?s" for h
  proof (cases "\<forall>e\<in>set es. lv_hostId e \<noteq> h")
    case True
    then show ?thesis using track_quiet [OF inv st True trk'(1) queue(1) [OF True] trk'(2,3) queue(2) [OF True] c'(1)] by simp
  next
    case False
    then obtain e where e: "es = [e]" "lv_hostId e = h" using cases by auto
    then have "ns_queue ?s h = ns_queue s h @ [\<lparr>tk_event = e, tk_pos = Attempt 0\<rparr>]"
      using es st by (simp add: track_def on_transition_simps event_ok_def)
    then show ?thesis using track_announced [OF inv st [unfolded e(1)] now N trk'(1) _ trk'(2)] e by simp
  qed
  moreover have "alarms_ok ?s" using inv trk' c' by (fastforce simp: status_inv_def alarms_ok_payloads)
  ultimately show ?thesis using trk' inv' c' by (simp add: status_inv_def)
qed

lemma payloads_callback:
  assumes "deb_callback f t d = (out, d')"
  shows "deb_payloads d' \<subseteq> deb_payloads d" and "out = DebNotify e \<Longrightarrow> e \<in> deb_payloads d \<and> f e = Some True"
proof -
  show "deb_payloads d' \<subseteq> deb_payloads d"
    using assms by (auto simp: deb_callback_def Let_def deb_payloads_def alist_simps split: option.splits if_splits bool.splits) blast+
  show "e \<in> deb_payloads d \<and> f e = Some True" if "out = DebNotify e"
    using assms that by (auto simp: deb_callback_def Let_def deb_payloads_def split: option.splits if_splits bool.splits)
qed

lemma synced_alarm_added:
  assumes "synced h s" "ns_queue s' h = ns_queue s h @ [\<lparr>tk_event = e, tk_pos = Alarm\<rparr>]" "ns_tracker s' = ns_tracker s" "ns_rows s' = ns_rows s" "ns_gaveUp s' = ns_gaveUp s"
    "ns_outside s' h = ns_outside s h"
  shows "synced h s'"
proof -
  note cur = current_same [OF assms(3)]
  have "task_waits h s'" if "task_waits h s"
  proof -
    from that obtain pre t post where "ns_queue s h = pre @ t # post" "ready_task s t" "list_all (\<lambda>x. \<not> is_transition (tk_pos x)) post"
      unfolding task_waits_def by blast
    then have "ns_queue s' h = pre @ t # (post @ [\<lparr>tk_event = e, tk_pos = Alarm\<rparr>])" "ready_task s' t"
      "list_all (\<lambda>x. \<not> is_transition (tk_pos x)) (post @ [\<lparr>tk_event = e, tk_pos = Alarm\<rparr>])"
      using assms(2) by (simp_all add: ready_task_def cur)
    then show ?thesis unfolding task_waits_def by blast
  qed
  moreover have "flag_stored h on off s'" if "flag_stored h on off s" for on off using that assms(2) by (simp add: flag_stored_def cur)
  moreover have "abandoned h s'" if "abandoned h s" using that assms(5,6) by (simp add: abandoned_def cur)
  ultimately show ?thesis using assms(1,3,4) unfolding synced_alt by metis
qed

lemma status_alarm:
  assumes inv: "status_inv N s"
  shows "status_inv N (alarm_timer t s)"
proof -
  obtain out d where cb: "deb_callback (\<lambda>e. Some (current e s)) t (ns_debouncer s) = (out, d)" by (cases "deb_callback (\<lambda>e. Some (current e s)) t (ns_debouncer s)")
  note pay = payloads_callback [OF cb]
  have quiet: "status_inv N (s\<lparr>ns_debouncer := d\<rparr>)"
  proof -
    have "framed 0 s (s\<lparr>ns_debouncer := d\<rparr>)" for h by (simp add: framed_def)
    moreover have "framed 1 s (s\<lparr>ns_debouncer := d\<rparr>)" by (simp add: framed_def)
    ultimately have "queue_ok h (s\<lparr>ns_debouncer := d\<rparr>)" for h
      using inv queue_other [of 0 s "s\<lparr>ns_debouncer := d\<rparr>" h] queue_other [of 1 s "s\<lparr>ns_debouncer := d\<rparr>" h]
      by (cases "h = 0") (auto simp: status_inv_def)
    moreover have "alarms_ok (s\<lparr>ns_debouncer := d\<rparr>)" using inv pay(1) by (fastforce simp: status_inv_def alarms_ok_payloads)
    ultimately show ?thesis using inv by (simp add: status_inv_def)
  qed
  show ?thesis
  proof (cases "\<exists>e. out = DebNotify e")
    case False
    then show ?thesis using quiet cb by (cases out) (auto simp: alarm_timer_def)
  next
    case True
    then obtain e where e: "out = DebNotify e" by blast
    let ?s1 = "s\<lparr>ns_debouncer := d\<rparr>" and ?h = "lv_hostId e"
    define s' where "s' = enqueue_task ?h \<lparr>tk_event = e, tk_pos = Alarm\<rparr> ?s1"
    have s': "alarm_timer t s = s'" using cb e by (simp add: alarm_timer_def s'_def)
    have ev: "event_ok e" "ev_kind e = ConfirmedOffline" "transitionEpoch e \<le> transitionEpochCounter (ns_tracker s)"
      using inv pay(2) [OF e] by (auto simp: status_inv_def alarms_ok_payloads)
    have fr: "framed ?h ?s1 s'" "ns_queue s' ?h = ns_queue s ?h @ [\<lparr>tk_event = e, tk_pos = Alarm\<rparr>]" "ns_gaveUp s' = ns_gaveUp s"
      by (simp_all add: framed_def s'_def enqueue_task_def)
    have ok: "queue_ok ?h ?s1" using quiet by (simp add: status_inv_def)
    have "queue_ok ?h s'"
      using ok ev fr(2) synced_alarm_added [of ?h ?s1 s' e]
      by (cases "ns_queue s ?h") (auto simp: queue_ok_def task_ok_def Let_def list_all_iff s'_def enqueue_task_def)
    then have "queue_ok h s'" for h
      using quiet queue_other [OF fr(1), of h] fr(3) by (cases "h = ?h") (auto simp: status_inv_def)
    moreover have "alarms_ok s'" using quiet by (simp add: status_inv_def alarms_ok_def s'_def enqueue_task_def)
    ultimately show ?thesis using quiet unfolding s' by (simp add: status_inv_def s'_def enqueue_task_def)
  qed
qed

subsection \<open>Writes from outside the queues\<close>

definition untouched :: "notifier \<Rightarrow> notifier \<Rightarrow> bool" where
  "untouched s s' \<longleftrightarrow> ns_tracker s' = ns_tracker s \<and> ns_queue s' = ns_queue s \<and> ns_gaveUp s' = ns_gaveUp s
     \<and> (\<forall>h. map_of (ns_rows s') h = None \<longleftrightarrow> map_of (ns_rows s) h = None) \<and> deb_payloads (ns_debouncer s') \<subseteq> deb_payloads (ns_debouncer s)"

lemma untouched_refl [simp]: "untouched s s"
  by (simp add: untouched_def)

lemma untouched_trans: "untouched s s1 \<Longrightarrow> untouched s1 s2 \<Longrightarrow> untouched s s2"
  by (auto simp: untouched_def)

lemma untouched_rows:
  assumes "\<And>h. map_of (f (ns_rows s)) h = None \<longleftrightarrow> map_of (ns_rows s) h = None"
  shows "untouched s (set_rows f s)"
  using assms by (simp add: untouched_def)

lemma untouched_known [simp]: "untouched s (s\<lparr>lastKnownStatus := k\<rparr>)" "untouched s (s\<lparr>hostStatusNotifierPrimed := b\<rparr>)" "untouched s (set_known v ids s)"
  by (simp_all add: untouched_def set_known_def)

lemma untouched_cancel [simp]: "untouched s (cancel_alarm h s)"
  using payloads_cancel_alarm [of h s] by (simp add: untouched_def)

lemma untouched_notify [simp]: "untouched s (notify_and_send enabled h status s)"
  using payloads_notify [of h status s] by (simp add: untouched_def notify_and_send_def split_def Let_def)

lemma untouched_notify_all: "untouched s (foldl (\<lambda>acc i. notify_and_send enabled i Offline acc) s ids)"
proof (induction ids arbitrary: s)
  case (Cons i ids)
  show ?case using untouched_trans [OF untouched_notify Cons [of "notify_and_send enabled i Offline s"]] by simp
qed simp

lemma touch_all_keys:
  "map_of (foldl (\<lambda>rows i. if touched i then touchHostHeartbeat i now rows else rows) rows ids) h = None \<longleftrightarrow> map_of rows h = None"
  by (induction ids arbitrary: rows) auto

lemma mark_stale_keys: "map_of (snd (mark_stale now ids rows)) h = None \<longleftrightarrow> map_of rows h = None"
  by (induction now ids rows rule: mark_stale.induct) (auto simp: split_def Let_def)

lemma markStale_keys: "map_of (snd (markStaleHostsOffline ids now rows)) h = None \<longleftrightarrow> map_of rows h = None"
  by (simp add: markStaleHostsOffline_def mark_stale_keys)

lemma payloads_clear: "deb_payloads (deb_clear d) \<subseteq> deb_payloads d"
proof -
  have "deb_payloads (foldl (\<lambda>acc e. acc\<lparr>deb_timers := alist_delete (pn_timer (snd e)) (deb_timers acc)\<rparr>) d es) \<subseteq> deb_payloads d" for es d
  proof (induction es arbitrary: d)
    case (Cons e es)
    have "deb_payloads (d\<lparr>deb_timers := alist_delete (pn_timer (snd e)) (deb_timers d)\<rparr>) \<subseteq> deb_payloads d"
      by (auto simp: deb_payloads_def alist_simps split: if_splits)
    then show ?case using Cons [of "d\<lparr>deb_timers := alist_delete (pn_timer (snd e)) (deb_timers d)\<rparr>"] by simp
  qed simp
  from this [of d "deb_pending d"] show ?thesis by (simp add: deb_clear_def Let_def deb_payloads_def)
qed

lemma untouched_prime: "untouched s (primeHostStatusNotifier queried marked now s)"
  using payloads_clear [of "ns_debouncer s"] markStale_keys
  by (auto simp: untouched_def primeHostStatusNotifier_def set_known_def Let_def split_def split: option.splits)

lemma untouched_sweep: "untouched s (snd (snd (sweepOfflineHostsAndNotify enabled queried marked touched now seen s)))"
proof -
  define s0 where "s0 = (if hostStatusNotifierPrimed s then s else primeHostStatusNotifier queried marked now s)"
  have s0: "untouched s s0" using untouched_prime by (simp add: s0_def)
  have rows: "untouched s0 (s0\<lparr>ns_rows := rows\<rparr>)" if "\<And>h. map_of rows h = None \<longleftrightarrow> map_of (ns_rows s0) h = None" for rows
    using that by (simp add: untouched_def)
  note marked = rows [THEN untouched_trans, OF _ untouched_notify_all] markStale_keys touch_all_keys
  show ?thesis
    unfolding sweepOfflineHostsAndNotify_def Let_def split_def s0_def [symmetric]
    by (auto intro!: untouched_trans [OF s0] rows untouched_trans [OF rows untouched_notify_all] simp: markStale_keys touch_all_keys)
qed

lemma status_outside:
  assumes inv: "status_inv N s" and un: "untouched s s'"
  shows "status_inv N (outside s s')"
proof -
  let ?s = "outside s s'"
  have same: "ns_tracker ?s = ns_tracker s" "ns_queue ?s = ns_queue s" "ns_gaveUp ?s = ns_gaveUp s" "ns_rows ?s = ns_rows s'"
    and keys: "map_of (ns_rows s') h = None \<longleftrightarrow> map_of (ns_rows s) h = None" for h
    using un by (simp_all add: untouched_def outside_def)
  have cur: "current e ?s = current e s" for e using same(1) by (simp add: current_def)
  have "queue_ok h ?s" for h
  proof -
    have ok: "queue_ok h s" using inv by (simp add: status_inv_def)
    have "task_ok h ?s x = task_ok h s x" for x using same keys [of h] by (simp add: task_ok_def Let_def)
    moreover have "synced h ?s"
      unfolding synced_alt
    proof (intro allI impI, elim conjE)
      fix st r assume st: "map_of (tr_hosts (ns_tracker ?s)) h = Some st" "0 < transitionEpoch st" and r: "map_of (ns_rows ?s) h = Some r"
      obtain r0 where r0: "map_of (ns_rows s) h = Some r0" using r keys [of h] same(4) by (cases "map_of (ns_rows s) h") auto
      have old: "task_waits h s \<or> flag_stored h (row_isOnline r0) (confirmedOffline st) s \<or> abandoned h s"
        using ok st same(1) r0 by (auto simp: queue_ok_def synced_alt)
      show "task_waits h ?s \<or> flag_stored h (row_isOnline r) (confirmedOffline st) ?s \<or> abandoned h ?s"
      proof (cases "ns_outside ?s h")
        case True
        then show ?thesis by (simp add: abandoned_def)
      next
        case False
        then have o: "ns_outside ?s h = ns_outside s h" "row_isOnline r = row_isOnline r0" using r r0 same(4) by (auto simp: outside_def)
        have q: "ns_queue ?s h = ns_queue s h" using same(2) by simp
        show ?thesis using old carried [OF q same(3) o(1)] cur o(2) by auto
      qed
    qed
    ultimately show ?thesis using ok same(2) by (simp add: queue_ok_def list_all_iff)
  qed
  moreover have "alarms_ok ?s"
    using inv un same unfolding status_inv_def alarms_ok_payloads by (auto simp: untouched_def outside_def)
  ultimately show ?thesis using inv same(1) by (simp add: status_inv_def)
qed

lemma status_outside_step:
  assumes "status_inv N s"
  shows "status_inv N (status_step dp (TouchRow h, now) s)" "status_inv N (status_step dp (MarkStaleRows ids, now) s)"
    "status_inv N (status_step dp (NotifyOutside enabled h status, now) s)" "status_inv N (status_step dp (Prime queried marked, now) s)"
    "status_inv N (status_step dp (Sweep enabled queried marked touched seen, now) s)"
proof -
  have "untouched s (notifyHostOnlineIfNeeded enabled h s)"
    unfolding notifyHostOnlineIfNeeded_def by (rule untouched_trans [OF untouched_cancel untouched_notify])
  then show "status_inv N (status_step dp (NotifyOutside enabled h status, now) s)" using status_outside [OF assms] by simp
qed (simp_all add: status_outside [OF assms] untouched_rows untouched_prime untouched_sweep markStale_keys)

lemma status_step_inv:
  assumes "status_inv N s" "0 < snd a" "N < MAX_SAFE_INTEGER"
  shows "status_inv (N + 1) (status_step dp a s)"
proof -
  have mono: "status_inv (N + 1) s'" if "status_inv N s'" for s' using that by (simp add: status_inv_def)
  show ?thesis
    using assms status_track status_task_step status_alarm status_outside_step mono
    by (cases "(dp, a, s)" rule: status_step.cases) (auto simp del: status_step.simps(4-))
qed

lemma status_run_inv:
  assumes "status_inv N s" "list_all (\<lambda>a. 0 < snd a) acts" "N + int (length acts) \<le> MAX_SAFE_INTEGER"
  shows "status_inv (N + int (length acts)) (status_run dp acts s)"
  using assms
proof (induction acts arbitrary: N s)
  case (Cons a acts)
  then have "status_inv (N + 1) (status_step dp a s)" by (intro status_step_inv) auto
  from Cons.IH [OF this] Cons.prems show ?case by (simp add: status_run_def ac_simps)
qed (simp add: status_run_def)

section \<open>Work left in a queue\<close>

fun pos_rank :: "task_pos \<Rightarrow> nat" where
  "pos_rank (Attempt n) = 12" | "pos_rank (RetryWait n) = 11"
| "pos_rank (TouchOnline n) = 10" | "pos_rank (TouchOnline_done n) = 9" | "pos_rank (LoadOnline n) = 8" | "pos_rank (LoadOnline_done n f) = 7"
| "pos_rank (GroupsOnline n) = 6" | "pos_rank (GroupsOnline_done n) = 5" | "pos_rank (SendOnline n) = 4"
| "pos_rank (LoadOffline n) = 10" | "pos_rank (LoadOffline_done n f) = 9" | "pos_rank (MarkOffline n) = 8" | "pos_rank (MarkOffline_done n) = 7"
| "pos_rank (GroupsOffline n) = 6" | "pos_rank (GroupsOffline_done n) = 5"
| "pos_rank (RestoreTouch n) = 3" | "pos_rank (RestoreTouch_done n) = 2" | "pos_rank (RestoreMark n) = 1"
| "pos_rank Alarm = 2" | "pos_rank SendAlarm = 1"

definition queue_work :: "int \<Rightarrow> notifier \<Rightarrow> nat" where
  "queue_work h s = sum_list (map (\<lambda>t. pos_rank (tk_pos t)) (ns_queue s h))"

lemma pos_rank_pos [simp]: "0 < pos_rank p"
  by (cases p) auto

lemma queue_work_zero: "queue_work h s = 0 \<longleftrightarrow> ns_queue s h = []"
  by (cases "ns_queue s h") (auto simp: queue_work_def)

text \<open>A step whose operation succeeds.\<close>

definition smaller :: "int \<Rightarrow> task_pos \<Rightarrow> notifier \<Rightarrow> notifier \<Rightarrow> bool" where
  "smaller h p s s' \<longleftrightarrow> head_done h s s' \<or> (\<exists>p'. head_to h s s' p' \<and> pos_rank p' < pos_rank p)"

lemma smaller_goto:
  assumes "ns_queue s h = t # ts" "ns_queue s0 = ns_queue s" "ns_gaveUp s0 = ns_gaveUp s" "pos_rank p' < pos_rank p"
  shows "smaller h p s (goto p' h s0)"
  using head_to_goto [OF assms(2,3,1), of p'] assms(4) by (auto simp: smaller_def)

lemma smaller_finish: "ns_queue s0 = ns_queue s \<Longrightarrow> ns_gaveUp s0 = ns_gaveUp s \<Longrightarrow> smaller h p s (finish h s0)"
  by (simp add: smaller_def head_done_finish)

lemma smaller_step:
  assumes q: "ns_queue s h = t # ts"
  shows "smaller h p s (task_step Fulfilled b now h e p s)"
  by (cases p) (auto simp: settle_def enter_handler_def enter_restore_def split_def Let_def intro!: smaller_goto [OF q] smaller_finish split: option.splits)

lemma run_task_smaller:
  "(ns_queue s h \<noteq> [] \<longrightarrow> queue_work h (run_task Fulfilled b now h s) < queue_work h s) \<and> ns_gaveUp (run_task Fulfilled b now h s) = ns_gaveUp s"
proof (cases "ns_queue s h")
  case (Cons t ts)
  then show ?thesis
    using smaller_step [OF Cons, of "tk_pos t" b now "tk_event t"]
    by (auto simp: run_task_def smaller_def head_done_def head_to_def queue_work_def)
qed (simp add: run_task_def)

lemma run_task_tracker: "ns_tracker (run_task r b now h s) = ns_tracker s \<and> ns_outside (run_task r b now h s) = ns_outside s"
    and run_task_row: "map_of (ns_rows (run_task r b now h s)) h = None \<longleftrightarrow> map_of (ns_rows s) h = None"
  using task_step_framed by (auto simp: run_task_def framed_def split: list.splits)

definition drain :: "bool \<Rightarrow> int \<Rightarrow> int \<Rightarrow> nat \<Rightarrow> notifier \<Rightarrow> notifier" where
  "drain b now h n s = (run_task Fulfilled b now h ^^ n) s"

lemma drain_facts:
  "ns_tracker (drain b now h n s) = ns_tracker s \<and> ns_outside (drain b now h n s) = ns_outside s" "ns_gaveUp (drain b now h n s) = ns_gaveUp s"
  "map_of (ns_rows (drain b now h n s)) h = None \<longleftrightarrow> map_of (ns_rows s) h = None"
  "queue_work h s \<le> n \<Longrightarrow> ns_queue (drain b now h n s) h = []"
  "status_inv N s \<Longrightarrow> N \<le> MAX_SAFE_INTEGER \<Longrightarrow> status_inv N (drain b now h n s)"
proof -
  have ind: "ns_tracker (drain b now h n s) = ns_tracker s \<and> ns_outside (drain b now h n s) = ns_outside s \<and> ns_gaveUp (drain b now h n s) = ns_gaveUp s
    \<and> (map_of (ns_rows (drain b now h n s)) h = None \<longleftrightarrow> map_of (ns_rows s) h = None)
    \<and> (queue_work h (drain b now h n s) \<le> queue_work h s - n) \<and> (status_inv N s \<and> N \<le> MAX_SAFE_INTEGER \<longrightarrow> status_inv N (drain b now h n s))"
  proof (induction n)
    case (Suc n)
    let ?s = "drain b now h n s"
    have "drain b now h (Suc n) s = run_task Fulfilled b now h ?s" by (simp add: drain_def)
    moreover have "queue_work h (run_task Fulfilled b now h ?s) \<le> queue_work h ?s - 1"
      using run_task_smaller [of ?s h b now] by (cases "ns_queue ?s h = []") (auto simp: run_task_def queue_work_def)
    ultimately show ?case
      using Suc run_task_smaller [of ?s h b now] run_task_tracker [of Fulfilled b now h ?s] run_task_row [of Fulfilled b now h ?s] status_task_step [of N ?s]
      by auto
  qed (simp add: drain_def)
  show "ns_tracker (drain b now h n s) = ns_tracker s \<and> ns_outside (drain b now h n s) = ns_outside s" "ns_gaveUp (drain b now h n s) = ns_gaveUp s"
    "map_of (ns_rows (drain b now h n s)) h = None \<longleftrightarrow> map_of (ns_rows s) h = None"
    "status_inv N s \<Longrightarrow> N \<le> MAX_SAFE_INTEGER \<Longrightarrow> status_inv N (drain b now h n s)" using ind by auto
  show "ns_queue (drain b now h n s) h = []" if "queue_work h s \<le> n" using ind that queue_work_zero by auto
qed

section \<open>Decisions to notify\<close>

lemma notify_known:
  assumes "map_of (lastKnownStatus (snd (notifyHostStatusChange k x s))) h = Some v" "map_of (lastKnownStatus s) h \<noteq> Some v"
  shows "k = h \<and> v = x"
  using assms by (auto simp: notifyHostStatusChange_def Let_def alist_simps split: option.splits if_splits)

lemma known_step:
  assumes "map_of (lastKnownStatus (task_step r b now k e p s)) h = Some v" "map_of (lastKnownStatus s) h \<noteq> Some v"
  shows "k = h \<and> current e s \<and> ((\<exists>n. p = GroupsOnline_done n \<and> v = Online) \<or> (p = Alarm \<and> v = Offline))"
proof (cases p)
  case (GroupsOnline_done n)
  then show ?thesis using assms notify_known [of k Online s h v] by (auto simp: split_def Let_def split: if_splits)
next
  case Alarm
  then show ?thesis using assms notify_known [of k Offline s h v] by (auto simp: split_def Let_def split: if_splits)
qed (use assms in \<open>cases r; auto simp: settle_def enter_handler_def enter_restore_def split: if_splits option.splits\<close>)+

lemma known_track: "lastKnownStatus (track dp act now s) = lastKnownStatus s"
proof -
  have "lastKnownStatus (foldl (\<lambda>acc e. on_transition e acc) s0 es) = lastKnownStatus s0" for es s0
    by (induction es arbitrary: s0) (auto simp: on_transition_def Let_def enqueue_task_def)
  then show ?thesis by (simp add: track_def split_def Let_def)
qed

lemma known_alarm: "lastKnownStatus (alarm_timer t s) = lastKnownStatus s"
  by (auto simp: alarm_timer_def split_def Let_def enqueue_task_def split: deb_outcome.splits)

section \<open>Properties of the notifier\<close>

text \<open>C7: the stored online flag catches up with the tracker, as long as retries are not exhausted and nobody else writes it last.
  Take any state the panel can reach with fewer than \<open>Number.MAX_SAFE_INTEGER\<close> steps, in which announcements,
  database operations of the queued tasks that succeed or fail, retries, alarm timers, and the writes of the routes, of
  priming and of the sweep interleave in any order. Let a host \<open>h\<close> be registered, have seen at least one transition and have a row.
  Assume that no task gave up on the latest transition of \<open>h\<close> (a task gives up after five failed attempts, and then the flag may stay
  wrong), and that since this transition was announced no write from outside the queue has changed the flag. Then, once
  the tasks queued for \<open>h\<close> run with succeeding operations, the queue is empty after \<open>queue_work\<close> steps, and the
  stored flag says online exactly when the tracker does not hold \<open>h\<close> for offline: neither a late write of an older transition nor an
  earlier write from outside survives. In particular the flag is right in every such state in which the queue of \<open>h\<close> is empty.\<close>

theorem stored_status_catches_up:
  assumes "s = status_run dp acts (make_notifier a b rows known primed)" and "\<forall>act\<in>set acts. 0 < snd act"
    and "int (length acts) \<le> MAX_SAFE_INTEGER"
    and "map_of (tr_hosts (ns_tracker s)) h = Some st" and "0 < transitionEpoch st" and "map_of (ns_rows s) h \<noteq> None"
    and "\<forall>e\<in>set (ns_gaveUp s). lv_hostId e = h \<longrightarrow> \<not> event_isCurrent e (ns_tracker s)" and "\<not> ns_outside s h"
    and "s' = drain enabled now h (queue_work h s) s"
  shows "ns_queue s' h = [] \<and> ns_tracker s' = ns_tracker s \<and>
    (\<exists>r. map_of (ns_rows s') h = Some r \<and> row_isOnline r = (\<not> confirmedOffline st)) \<and>
    (ns_queue s h = [] \<longrightarrow> (\<exists>r. map_of (ns_rows s) h = Some r \<and> row_isOnline r = (\<not> confirmedOffline st)))"
proof -
  have "status_inv (int (length acts)) s"
    using status_run_inv [OF status_inv_start, of acts dp a b rows known primed] assms(1-3) by (simp add: list_all_iff)
  then have inv: "status_inv (int (length acts)) s'" unfolding assms(9) using assms(3) by (rule drain_facts(5))
  have q: "ns_queue s' h = []" and tr: "ns_tracker s' = ns_tracker s" and g: "ns_gaveUp s' = ns_gaveUp s" "ns_outside s' = ns_outside s"
    unfolding assms(9) by (simp_all add: drain_facts)
  obtain r where r: "map_of (ns_rows s') h = Some r" using drain_facts(3) [of enabled now h "queue_work h s" s] assms(6,9) by auto
  have "synced h s'" using inv by (simp add: status_inv_def queue_ok_def)
  then have "task_waits h s' \<or> flag_stored h (row_isOnline r) (confirmedOffline st) s' \<or> abandoned h s'"
    using assms(4,5) tr r by (simp add: synced_alt)
  moreover have "\<not> task_waits h s'" "\<not> abandoned h s'" using q g tr assms(7,8) by (auto simp: task_waits_def abandoned_def current_def)
  moreover have "s' = s" if "ns_queue s h = []" using that queue_work_zero [of h s] assms(9) by (simp add: drain_def)
  ultimately show ?thesis using q tr r by (auto simp: flag_stored_def)
qed

text \<open>The known status of a host only ever changes to what the tracker holds at that moment, the sweep and the notifications by
  routes apart. Whenever a step of the tracker, of a queued task or of an alarm timer
  changes the status that notifications are based on, the host is registered, it is confirmed offline if the
  new status is offline, and it is not confirmed offline if the new status is online. So no offline alarm is decided
  for a host that has recovered, however the alarm timer, the queue of the host and its next
  heartbeat interleave.\<close>

theorem known_status_follows_tracker:
  assumes "s = status_run dp acts (make_notifier a b rows known primed)" and "\<forall>act\<in>set acts. 0 < snd act"
    and "int (length acts) \<le> MAX_SAFE_INTEGER" and "s' = status_step dp act s" and "case fst act of Track _ \<Rightarrow> True | RunTask _ _ _ \<Rightarrow> True | AlarmTimer _ \<Rightarrow> True | _ \<Rightarrow> False"
    and "map_of (lastKnownStatus s') h = Some v" and "map_of (lastKnownStatus s) h \<noteq> Some v"
  shows "\<exists>st. map_of (tr_hosts (ns_tracker s)) h = Some st \<and> confirmedOffline st = (v = Offline)"
proof -
  have inv: "status_inv (int (length acts)) s"
    using status_run_inv [OF status_inv_start, of acts dp a b rows known primed] assms(1-3) by (simp add: list_all_iff)
  obtain x now where a: "act = (x, now)" by (cases act)
  obtain k r en where x: "x = RunTask k r en" using assms(4-7) a known_track known_alarm by (cases x) auto
  then have run: "s' = run_task r en now k s" using assms(4) a by simp
  then obtain t ts where q: "ns_queue s k = t # ts" using assms(6,7) by (cases "ns_queue s k") (auto simp: run_task_def)
  let ?e = "tk_event t"
  have known: "k = h" "current ?e s" "(\<exists>n. tk_pos t = GroupsOnline_done n \<and> v = Online) \<or> (tk_pos t = Alarm \<and> v = Offline)"
    using known_step [of r en now k ?e "tk_pos t" s h v] run q assms(6,7) by (auto simp: run_task_def)
  have "task_ok k s t" using inv q by (auto simp: status_inv_def queue_ok_def dest: spec [of _ k])
  then have t: "lv_hostId ?e = h" "event_ok ?e" "transitionEpoch ?e \<le> MAX_SAFE_INTEGER" "ev_kind ?e = (if v = Online then ActivityRestored else ConfirmedOffline)"
    using known inv assms(3) by (auto simp: task_ok_def Let_def status_inv_def)
  then obtain st where "map_of (tr_hosts (ns_tracker s)) h = Some st"
    using known(2) current_at_epoch [of ?e "ns_tracker s"] by (auto simp: current_def event_ok_def at_epoch_def)
  with current_confirmed [OF known(2) t(2) _ t(3)] t(1,4) show ?thesis by (cases v) auto
qed

section \<open>The sweep\<close>

definition recently_active :: "int \<Rightarrow> (int \<times> int) list \<Rightarrow> int \<Rightarrow> bool" where
  "recently_active now seen i \<longleftrightarrow> (case map_of seen i of None \<Rightarrow> False | Some t \<Rightarrow> now - t \<le> HOST_ONLINE_TTL_MS)"

lemma partition_recent:
  assumes "distinct ids"
  shows "fst (partitionHostsByRecentAgentActivity (\<lambda>i. JNum (inum i)) ids now HOST_ONLINE_TTL_MS seen) =
    (filter (recently_active now seen) ids, filter (\<lambda>i. \<not> recently_active now seen i) ids)"
  using assms
proof (induction ids arbitrary: seen)
  case (Cons i ids)
  obtain r seen1 where r: "hasRecentAuthenticatedAgentActivity (JNum (inum i)) now HOST_ONLINE_TTL_MS seen = (r, seen1)"
    by (cases "hasRecentAuthenticatedAgentActivity (JNum (inum i)) now HOST_ONLINE_TTL_MS seen")
  have same: "recently_active now seen1 k = recently_active now seen k" if "k \<in> set ids" for k
    using r Cons.prems that by (auto simp: hasRecentAuthenticatedAgentActivity_def recently_active_def alist_simps split: option.splits if_splits)
  have "r = recently_active now seen i"
    using r by (auto simp: hasRecentAuthenticatedAgentActivity_def recently_active_def split: option.splits if_splits)
  moreover have "filter (recently_active now seen1) ids = filter (recently_active now seen) ids"
    "filter (\<lambda>k. \<not> recently_active now seen1 k) ids = filter (\<lambda>k. \<not> recently_active now seen k) ids"
    using same by (auto cong: filter_cong)
  ultimately show ?case using Cons.IH [of seen1] Cons.prems r by (auto simp: split_def Let_def prod_eq_iff)
qed simp

lemma touch_all:
  "map_of (foldl (\<lambda>rows i. if touched i then touchHostHeartbeat i now rows else rows) rows ids) k =
     (if k \<in> set ids \<and> touched k then map_option (\<lambda>r. r\<lparr>row_isOnline := True, row_lastHeartbeat := Some (now div 1000)\<rparr>) (map_of rows k) else map_of rows k)"
  by (induction ids arbitrary: rows) (auto simp: option.map_comp comp_def)

lemma still_stale_other: "k \<noteq> i \<Longrightarrow> still_stale now (markHostOffline i rows) k = still_stale now rows k"
  by (simp add: still_stale_def)

lemma mark_stale_rows:
  assumes "distinct ids" and "mark_stale now ids rows = (out, rows')"
  shows "out = filter (still_stale now rows) ids \<and>
    (\<forall>k. map_of rows' k = (if k \<in> set out then map_option (\<lambda>r. r\<lparr>row_isOnline := False\<rparr>) (map_of rows k) else map_of rows k))"
  using assms
proof (induction ids arbitrary: rows out)
  case (Cons i ids)
  define rows1 where "rows1 = (if still_stale now rows i then markHostOffline i rows else rows)"
  obtain out1 where st: "mark_stale now ids rows1 = (out1, rows')" "out = (if still_stale now rows i then i # out1 else out1)"
    using Cons.prems(2) by (cases "mark_stale now ids rows1") (auto simp: Let_def rows1_def split: if_splits)
  have same: "still_stale now rows1 k = still_stale now rows k" if "k \<in> set ids" for k
    using Cons.prems(1) that still_stale_other [of k i now rows] by (cases "k = i") (auto simp: rows1_def)
  have out1: "out1 = filter (still_stale now rows) ids" using Cons.IH [OF _ st(1)] Cons.prems(1) same by (auto cong: filter_cong)
  have "map_of rows' k = (if k \<in> set out1 then map_option (\<lambda>r. r\<lparr>row_isOnline := False\<rparr>) (map_of rows1 k) else map_of rows1 k)"
    and "map_of rows1 k = (if still_stale now rows i \<and> k = i then map_option (\<lambda>r. r\<lparr>row_isOnline := False\<rparr>) (map_of rows k) else map_of rows k)" for k
    using Cons.IH [OF _ st(1)] Cons.prems(1) by (auto simp: rows1_def)
  moreover have "i \<notin> set out1" using Cons.prems(1) out1 by simp
  ultimately show ?case using st(2) unfolding out1 by auto
qed simp

lemma notify_all_rows: "ns_rows (foldl (\<lambda>acc i. notify_and_send enabled i Offline acc) s ids) = ns_rows s"
  by (induction ids arbitrary: s) (simp_all add: notify_and_send_def split_def Let_def)

lemma notify_all_known:
  "list_all (\<lambda>i. 0 < i) ids \<Longrightarrow> map_of (lastKnownStatus (foldl (\<lambda>acc i. notify_and_send enabled i Offline acc) s ids)) k =
     (if k \<in> set ids then Some Offline else map_of (lastKnownStatus s) k)"
  by (induction ids arbitrary: s)
     (auto simp: notify_and_send_def split_def Let_def notifyHostStatusChange_def alist_simps split: option.splits)

text \<open>A sweep takes exactly the silent hosts offline. When a primed panel sweeps, the row of a host changes only if it is stored
  as online with a heartbeat older than the time to live. If the host made an authenticated request within that time, the
  row stays online, with a fresh heartbeat when refreshing it succeeds; otherwise the row is marked offline, the known status
  becomes offline, and the result counts exactly these hosts. All other hosts keep their row and known status.\<close>

theorem sweep_takes_silent_hosts_offline:
  assumes "hostStatusNotifierPrimed s" and "distinct (map fst (ns_rows s))" and "\<forall>i\<in>set (map fst (ns_rows s)). 0 < i"
    and "sweepOfflineHostsAndNotify enabled q m touched now seen s = (n, seen', s')"
  shows "n = card {i. still_stale now (ns_rows s) i \<and> \<not> recently_active now seen i} \<and>
    (\<forall>h. map_of (ns_rows s') h = (case map_of (ns_rows s) h of None \<Rightarrow> None
      | Some r \<Rightarrow> Some (if \<not> row_stale now HOST_ONLINE_TTL_MS r then r
          else if recently_active now seen h then (if touched h then r\<lparr>row_isOnline := True, row_lastHeartbeat := Some (now div 1000)\<rparr> else r)
          else r\<lparr>row_isOnline := False\<rparr>)) \<and>
      map_of (lastKnownStatus s') h =
        (if still_stale now (ns_rows s) h \<and> \<not> recently_active now seen h then Some Offline else map_of (lastKnownStatus s) h))"
proof -
  define ids where "ids = getStaleOnlineHosts now (ns_rows s)"
  define act where "act = filter (recently_active now seen) ids"
  define stale where "stale = filter (\<lambda>i. \<not> recently_active now seen i) ids"
  define rows1 where "rows1 = foldl (\<lambda>rows i. if touched i then touchHostHeartbeat i now rows else rows) (ns_rows s) act"
  have dist: "distinct ids" using assms(2) by (auto simp: ids_def getStaleOnlineHosts_def distinct_map intro: inj_on_subset)
  have mem: "i \<in> set ids \<longleftrightarrow> still_stale now (ns_rows s) i" for i
  proof -
    have "i \<in> set ids \<longleftrightarrow> (\<exists>r. map_of (ns_rows s) i = Some r \<and> row_stale now HOST_ONLINE_TTL_MS r)"
      unfolding map_of_eq_Some_iff [OF assms(2)] by (force simp: ids_def getStaleOnlineHosts_def)
    then show ?thesis by (auto simp: still_stale_def split: option.splits)
  qed
  have pos: "0 < i" if "i \<in> set ids" for i using that assms(3) by (auto simp: ids_def getStaleOnlineHosts_def)
  have part: "fst (partitionHostsByRecentAgentActivity (\<lambda>i. JNum (inum i)) ids now HOST_ONLINE_TTL_MS seen) = (act, stale)"
    using partition_recent [OF dist] by (simp add: act_def stale_def)
  obtain out rows2 where mk: "mark_stale now stale rows1 = (out, rows2)" by (cases "mark_stale now stale rows1")
  have row1: "map_of rows1 k = (if k \<in> set act \<and> touched k then map_option (\<lambda>r. r\<lparr>row_isOnline := True, row_lastHeartbeat := Some (now div 1000)\<rparr>) (map_of (ns_rows s) k) else map_of (ns_rows s) k)" for k
    by (simp add: rows1_def touch_all)
  have "still_stale now rows1 k" if "k \<in> set stale" for k
    using that mem row1 [of k] by (simp add: stale_def act_def still_stale_def)
  then have all: "filter (still_stale now rows1) stale = stale" by (simp add: filter_id_conv)
  have out: "out = stale" and rows2: "map_of rows2 k = (if k \<in> set stale then map_option (\<lambda>r. r\<lparr>row_isOnline := False\<rparr>) (map_of rows1 k) else map_of rows1 k)" for k
    using mark_stale_rows [OF _ mk] dist unfolding all by (auto simp: stale_def)
  have js: "js_distinct (filter (\<lambda>i. 0 < i) stale) = stale"
    using dist pos by (subst filter_True) (auto simp: stale_def intro!: js_distinct_id)
  have sweep: "n = length stale \<and> s' = foldl (\<lambda>acc i. notify_and_send enabled i Offline acc) (s\<lparr>ns_rows := rows2\<rparr>) stale"
    using assms(1,4) part mk out js
    by (auto simp: sweepOfflineHostsAndNotify_def Let_def split_def ids_def [symmetric] rows1_def [symmetric] markStaleHostsOffline_def split: if_splits)
  have set: "set stale = {i. still_stale now (ns_rows s) i \<and> \<not> recently_active now seen i}" using mem by (auto simp: stale_def)
  have "map_of (ns_rows s') h = map_of rows2 h" for h using sweep notify_all_rows by simp
  moreover have "map_of (lastKnownStatus s') h = (if h \<in> set stale then Some Offline else map_of (lastKnownStatus s) h)" for h
    using sweep notify_all_known [of stale] pos by (simp add: list_all_iff stale_def)
  moreover have "n = card (set stale)" using sweep distinct_card [of stale] dist by (simp add: stale_def)
  ultimately show ?thesis
    unfolding set [symmetric] using mem by (auto simp: rows2 row1 set stale_def act_def still_stale_def split: option.splits)
qed

theorem sweep_takes_silent_hosts_offline_witness:
  "let s = (make_notifier None None [(5, \<lparr>row_isOnline = True, row_lastHeartbeat = Some 10\<rparr>), (6, \<lparr>row_isOnline = True, row_lastHeartbeat = Some 10\<rparr>)] [(5, Online)] True);
       (n, seen', s') = sweepOfflineHostsAndNotify True True None (\<lambda>_. True) 500000 [(6, 450000)] s in
     n = card {i. still_stale 500000 (ns_rows s) i \<and> \<not> recently_active 500000 [(6, 450000)] i} \<and> map_of (lastKnownStatus s') 5 = Some Offline"
proof -
  define s where "s = make_notifier None None [(5, \<lparr>row_isOnline = True, row_lastHeartbeat = Some 10\<rparr>), (6, \<lparr>row_isOnline = True, row_lastHeartbeat = Some 10\<rparr>)] [(5, Online)] True"
  obtain n seen' s' where sw: "sweepOfflineHostsAndNotify True True None (\<lambda>_. True) 500000 [(6, 450000)] s = (n, seen', s')"
    using prod_cases3 by blast
  have s: "hostStatusNotifierPrimed s" "distinct (map fst (ns_rows s))" "\<forall>i\<in>set (map fst (ns_rows s)). 0 < i"
    "still_stale 500000 (ns_rows s) 5" "\<not> recently_active 500000 [(6, 450000)] 5"
    by (simp_all add: s_def make_notifier_def still_stale_def row_stale_def HOST_ONLINE_TTL_MS_def recently_active_def)
  show ?thesis using sweep_takes_silent_hosts_offline [OF s(1-3) sw] s(4,5) sw by (simp add: Let_def s_def [symmetric])
qed

section \<open>A host that falls silent\<close>

definition demo_actions :: "(status_action \<times> int) list" where
  "demo_actions = [(Track (fst (demo_presence 1000)), 1000), (TouchRow 5, 1500), (Track (TTimer 0), 91000)]"

definition demo_notifier :: notifier where
  "demo_notifier = make_notifier None None [(5, \<lparr>row_isOnline = False, row_lastHeartbeat = None\<rparr>)] [(5, Online)] True"

definition demo_event :: AgentFastLivenessTransition where
  "demo_event = emit ConfirmedOffline (demo_host\<lparr>lv_timer := None, confirmedOffline := True, offlineAt := Some 91000, lastOfflineAt := Some 91000, transitionEpoch := 1\<rparr>)"

definition demo_silent_tracker :: AgentFastLivenessTracker where
  "demo_silent_tracker = demo_tracker\<lparr>tr_timers := [], transitionEpochCounter := 1,
      tr_hosts := [(5, demo_host\<lparr>lv_timer := None, confirmedOffline := True, offlineAt := Some 91000, lastOfflineAt := Some 91000, transitionEpoch := 1\<rparr>)]\<rparr>"

lemma demo_fire: "timer_callback 0 91000 demo_tracker = ([demo_event], demo_silent_tracker)"
  by (simp add: demo_event_def demo_silent_tracker_def demo_tracker_def demo_host_def timer_callback_def clear_live_timer_def set_state_def Let_def
      nextGeneration_def MAX_SAFE_INTEGER_def alist_delete_def)

lemma demo_register: "trk_step demo_dates (fst (demo_presence 1000), 1000) (make_tracker None None) = ([], demo_tracker)"
  using demo_start by (simp add: demo_presence_def split: prod.splits)

lemma demo_event_host: "lv_hostId demo_event = 5" "ev_kind demo_event = ConfirmedOffline"
  by (simp_all add: demo_event_def demo_host_def)

lemma demo_silence:
  "status_run demo_dates demo_actions demo_notifier = demo_notifier\<lparr>ns_tracker := demo_silent_tracker, ns_rows := [(5, \<lparr>row_isOnline = True, row_lastHeartbeat = Some 1\<rparr>)],
     ns_queue := (\<lambda>_. [])(5 := [\<lparr>tk_event = demo_event, tk_pos = Attempt 0\<rparr>])\<rparr>"
  using demo_register demo_fire demo_event_host
  by (simp add: status_run_def demo_actions_def demo_notifier_def make_notifier_def track_def on_transition_def enqueue_task_def
      outside_def set_rows_def touchHostHeartbeat_def fun_eq_iff)

theorem stored_status_catches_up_witness:
  "let s = status_run demo_dates demo_actions demo_notifier; s' = drain True 91000 5 (queue_work 5 s) s in
     ns_queue s' 5 = [] \<and> (\<exists>r. map_of (ns_rows s') 5 = Some r \<and> \<not> row_isOnline r)"
proof -
  let ?s = "status_run demo_dates demo_actions demo_notifier"
  obtain st where st: "map_of (tr_hosts (ns_tracker ?s)) 5 = Some st" "0 < transitionEpoch st" "confirmedOffline st"
    unfolding demo_silence by (simp add: demo_silent_tracker_def)
  have "map_of (ns_rows ?s) 5 \<noteq> None" "ns_gaveUp ?s = []" "\<not> ns_outside ?s 5" unfolding demo_silence by (simp_all add: demo_notifier_def make_notifier_def)
  then show ?thesis
    using stored_status_catches_up [of ?s demo_dates demo_actions None None _ _ True 5 st _ True 91000] st
    by (auto simp: demo_notifier_def Let_def demo_actions_def MAX_SAFE_INTEGER_def)
qed

definition demo_rest :: "(status_action \<times> int) list" where
  "demo_rest = replicate 7 (RunTask 5 Fulfilled True, 91001) @ [(AlarmTimer 0, 121001)]"

lemma demo_alarm:
  "let s = status_run demo_dates (demo_actions @ demo_rest) demo_notifier in
     map_of (lastKnownStatus s) 5 = Some Online \<and> map_of (lastKnownStatus (status_step demo_dates (RunTask 5 Fulfilled True, 121002) s)) 5 = Some Offline"
proof -
  have split: "status_run demo_dates (demo_actions @ demo_rest) demo_notifier = status_run demo_dates demo_rest (status_run demo_dates demo_actions demo_notifier)"
    by (simp add: status_run_def)
  show ?thesis unfolding split demo_silence by code_simp
qed

theorem known_status_follows_tracker_witness:
  "\<exists>st. map_of (tr_hosts (ns_tracker (status_run demo_dates (demo_actions @ demo_rest) demo_notifier))) 5 = Some st \<and> confirmedOffline st = (Offline = Offline)"
  using demo_alarm unfolding Let_def
  by (intro known_status_follows_tracker [OF _ _ _ refl, of _ demo_dates "demo_actions @ demo_rest" None None _ _ True "(RunTask 5 Fulfilled True, 121002)"])
     (auto simp: demo_notifier_def demo_actions_def demo_rest_def MAX_SAFE_INTEGER_def)

end
