(* ===== verification/TunnelPorts.thy ===== *)
theory TunnelPorts
  imports LedgerProperties
begin

text \<open>
  The ports of tunnels (server/tunnelGlobalPortService.ts): the listeners that the configuration asks for, their
  entry into the port ledger when a tunnel is saved, and the reconciliation of the ledger with what an agent reports
  as running.

  The tables the service reads are the record \<open>tunnel_tables\<close>; the ledger is the one of \<open>GlobalPortLedger\<close>. Saving a
  tunnel is one transaction. The reconciliation is not: each promotion and each release is a transaction of its own, and
  an error ends the loop with the ledger the calls before it left. Clock and random tokens are functions of the number
  of the call.
\<close>

section \<open>Rows and inputs\<close>

record TunnelRow =
  tn_id :: int
  tn_exitHostId :: int
  tn_mode :: string
  tn_forwardxVersion :: string
  tn_listenPort :: int
  tn_mimicPort :: int

record TunnelChildRow =
  tc_id :: int
  tc_tunnelId :: int
  tc_hostId :: int
  tc_listenPort :: int
  tc_mimicPort :: int

record TunnelRuleRow =
  tr_id :: int
  tr_protocol :: string
  tr_tunnelId :: "int option"
  tr_forwardGroupRuleId :: "int option"
  tr_isForwardGroupTemplate :: jsval
  tr_xrayQuickConfigId :: "int option"
  tr_tunnelExitPort :: "int option"

record MappedExitRow =
  me_id :: int
  me_ruleId :: int
  me_tunnelId :: int
  me_exitHostId :: int
  me_tunnelExitPort :: int

record tunnel_tables =
  tunnels :: "TunnelRow list"
  tunnel_exit_nodes :: "TunnelChildRow list"
  tunnel_hops :: "TunnelChildRow list"
  forward_rules :: "TunnelRuleRow list"
  forward_rule_tunnel_exits :: "MappedExitRow list"

record DesiredTunnelPortReference =
  dp_port :: int
  dp_owner :: GlobalPortOwner
  dp_reference :: GlobalPortReferenceInput

record ReportedTunnelListener =
  rt_port :: jsnum
  rt_tunnelId :: jsnum
  rt_udpPort :: "jsnum option"

record ReportedTunnelRuleListener =
  rr_port :: jsnum
  rr_ruleId :: jsnum

record runtime_snapshot =
  sn_hostId :: jsnum
  sn_completeSnapshot :: bool
  sn_tunnels :: "ReportedTunnelListener list"
  sn_rules :: "ReportedTunnelRuleListener list"

section \<open>Conversion of values\<close>

abbreviation jint :: "int \<Rightarrow> jsval" where
  "jint n \<equiv> JNum (inum n)"

definition jopt :: "int option \<Rightarrow> jsval" where
  "jopt v = (case v of None \<Rightarrow> JNull | Some n \<Rightarrow> jint n)"

definition positive_integer :: "jsval \<Rightarrow> int" where
  "positive_integer v = (case as_safe_integer (to_number v) of None \<Rightarrow> 0 | Some n \<Rightarrow> if n > 0 then n else 0)"

fun databaseBoolean :: "jsval \<Rightarrow> bool" where
  "databaseBoolean (JBool b) = b"
| "databaseBoolean (JNum x) = num_eq x (inum 1)"
| "databaseBoolean (JStr s) = (s = ''1'' \<or> s = ''true'')"
| "databaseBoolean _ = False"

definition listenerPort :: "jsval \<Rightarrow> int" where
  "listenerPort v = (let parsed = positive_integer v in if parsed \<le> 65535 then parsed else 0)"

definition ruleNetwork :: "string \<Rightarrow> GlobalPortAllocationErrorCode + GlobalPortReferenceNetwork" where
  "ruleNetwork value = (let protocol = js_lower (js_trim value) in
     if protocol = ''tcp'' then Inr RefTcp
     else if protocol = ''udp'' then Inr RefUdp
     else if protocol = ''both'' then Inr RefBoth
     else Inl GLOBAL_PORT_INVALID)"

definition tunnelNetwork :: "TunnelRow \<Rightarrow> GlobalPortReferenceNetwork" where
  "tunnelNetwork row =
     (if js_lower (js_trim (tn_mode row)) = ''forwardx'' \<and> js_lower (js_trim (tn_forwardxVersion row)) = ''v2''
      then RefUdp else RefTcp)"

definition tunnelOwner :: "int \<Rightarrow> GlobalPortOwner" where
  "tunnelOwner tunnelId = TunnelOwner tunnelId"

definition ruleOwner :: "int option \<Rightarrow> int \<Rightarrow> GlobalPortOwner" where
  "ruleOwner forwardGroupRuleId i = ForwardRuleOwner
     (let g = positive_integer (jopt forwardGroupRuleId) in if g \<noteq> 0 then g else positive_integer (jint i))"

definition owning_reference ::
  "GlobalPortResourceType \<Rightarrow> int \<Rightarrow> int \<Rightarrow> GlobalPortReferenceNetwork \<Rightarrow> GlobalPortReferenceRole \<Rightarrow> reference_slot option
   \<Rightarrow> GlobalPortReferenceInput" where
  "owning_reference rt i h net role slot =
     \<lparr>in_resourceType = rt, in_resourceId = i, in_hostId = Some h, in_network = net, in_role = role,
      in_isOwning = True, in_slot = slot\<rparr>"

definition appendDesired ::
  "DesiredTunnelPortReference list \<Rightarrow> jsval \<Rightarrow> GlobalPortOwner \<Rightarrow> GlobalPortReferenceInput
   \<Rightarrow> DesiredTunnelPortReference list" where
  "appendDesired output portValue ow ref = (let port = listenerPort portValue in
     if port > 0 then output @ [\<lparr>dp_port = port, dp_owner = ow, dp_reference = ref\<rparr>] else output)"

section \<open>The listeners the configuration asks for\<close>

definition tunnel_desired :: "TunnelRow \<Rightarrow> DesiredTunnelPortReference list \<Rightarrow> DesiredTunnelPortReference list" where
  "tunnel_desired row output =
     (let i = positive_integer (jint (tn_id row)); ow = tunnelOwner i; h = positive_integer (jint (tn_exitHostId row));
          out1 = appendDesired output (jint (tn_listenPort row)) ow
                   (owning_reference ResTunnel i h (tunnelNetwork row) RolePublicListener None)
      in appendDesired out1 (jint (tn_mimicPort row)) ow (owning_reference ResTunnel i h RefUdp RoleMimic None))"

definition child_desired ::
  "(int \<times> TunnelRow) list \<Rightarrow> GlobalPortResourceType \<Rightarrow> TunnelChildRow \<Rightarrow> DesiredTunnelPortReference list
   \<Rightarrow> DesiredTunnelPortReference list" where
  "child_desired tunnelById rt row output =
     (let i = positive_integer (jint (tc_id row)); ow = tunnelOwner (positive_integer (jint (tc_tunnelId row))) in
      case map_of tunnelById (positive_integer (jint (tc_tunnelId row))) of None \<Rightarrow> output
      | Some tunnel \<Rightarrow>
          (let h = positive_integer (jint (tc_hostId row));
               out1 = appendDesired output (jint (tc_listenPort row)) ow
                        (owning_reference rt i h (tunnelNetwork tunnel) RolePublicListener None)
           in appendDesired out1 (jint (tc_mimicPort row)) ow (owning_reference rt i h RefUdp RoleMimic None)))"

definition ownedRule :: "TunnelRuleRow \<Rightarrow> bool" where
  "ownedRule row \<longleftrightarrow> \<not> databaseBoolean (tr_isForwardGroupTemplate row) \<and> tr_xrayQuickConfigId row = None"

text \<open>\<open>ruleNetwork\<close> is evaluated before the port is looked at: one owned rule with another protocol text makes the whole
  computation throw.\<close>

fun rules_desired ::
  "(TunnelRuleRow \<times> TunnelRow) list \<Rightarrow> DesiredTunnelPortReference list
   \<Rightarrow> GlobalPortAllocationErrorCode + DesiredTunnelPortReference list" where
  "rules_desired [] output = Inr output"
| "rules_desired ((row, t) # rows) output =
     (if \<not> ownedRule row then rules_desired rows output
      else ebind (ruleNetwork (tr_protocol row)) (\<lambda>net.
           rules_desired rows (appendDesired output (jopt (tr_tunnelExitPort row))
             (ruleOwner (tr_forwardGroupRuleId row) (tr_id row))
             (owning_reference ResForwardRule (positive_integer (jint (tr_id row)))
                (positive_integer (jint (tn_exitHostId t))) net RolePublicListener (Some SlotPrimary)))))"

fun mapped_desired ::
  "(MappedExitRow \<times> TunnelRuleRow) list \<Rightarrow> DesiredTunnelPortReference list
   \<Rightarrow> GlobalPortAllocationErrorCode + DesiredTunnelPortReference list" where
  "mapped_desired [] output = Inr output"
| "mapped_desired ((m, row) # rows) output =
     (if \<not> ownedRule row then mapped_desired rows output
      else ebind (ruleNetwork (tr_protocol row)) (\<lambda>net.
           mapped_desired rows (appendDesired output (jint (me_tunnelExitPort m))
             (ruleOwner (tr_forwardGroupRuleId row) (me_ruleId m))
             (owning_reference ResForwardRuleTunnelExit (positive_integer (jint (me_id m)))
                (positive_integer (jint (me_exitHostId m))) net RolePublicListener (Some SlotMapped)))))"

datatype desired_filter = NoFilter | ByTunnel int | ByHost int

definition desired_filter_of :: "jsval \<Rightarrow> jsval \<Rightarrow> desired_filter" where
  "desired_filter_of tunnelIdValue hostIdValue =
     (let tunnelId = positive_integer tunnelIdValue; hostId = positive_integer hostIdValue in
      if tunnelId > 0 then ByTunnel tunnelId else if hostId > 0 then ByHost hostId else NoFilter)"

fun selected :: "desired_filter \<Rightarrow> int \<Rightarrow> int \<Rightarrow> bool" where
  "selected NoFilter tunnelId hostId = True"
| "selected (ByTunnel t) tunnelId hostId = (tunnelId = t)"
| "selected (ByHost h) tunnelId hostId = (hostId = h)"

definition tunnel_index :: "TunnelRow list \<Rightarrow> (int \<times> TunnelRow) list \<Rightarrow> (int \<times> TunnelRow) list" where
  "tunnel_index rows m = fold (\<lambda>row. alist_set (positive_integer (jint (tn_id row))) row) rows m"

definition loadDesiredTunnelPortReferences ::
  "jsval \<Rightarrow> jsval \<Rightarrow> tunnel_tables \<Rightarrow> GlobalPortAllocationErrorCode + DesiredTunnelPortReference list" where
  "loadDesiredTunnelPortReferences tunnelIdValue hostIdValue T =
     (let flt = desired_filter_of tunnelIdValue hostIdValue;
          tns = filter (\<lambda>t. selected flt (tn_id t) (tn_exitHostId t)) (tunnels T);
          exitNodes = filter (\<lambda>c. selected flt (tc_tunnelId c) (tc_hostId c)) (tunnel_exit_nodes T);
          hops = filter (\<lambda>c. selected flt (tc_tunnelId c) (tc_hostId c)) (tunnel_hops T);
          rules = filter (\<lambda>(r, t). selected flt (tn_id t) (tn_exitHostId t))
                    [(r, t). r \<leftarrow> forward_rules T, t \<leftarrow> tunnels T, tr_tunnelId r = Some (tn_id t)];
          mappedExits = filter (\<lambda>(m, r). selected flt (me_tunnelId m) (me_exitHostId m))
                    [(m, r). m \<leftarrow> forward_rule_tunnel_exits T, r \<leftarrow> forward_rules T, tr_id r = me_ruleId m];
          relatedIds = js_distinct (filter (\<lambda>i. i \<noteq> 0)
                    (map (\<lambda>c. positive_integer (jint (tc_tunnelId c))) exitNodes
                     @ map (\<lambda>c. positive_integer (jint (tc_tunnelId c))) hops
                     @ map (\<lambda>(m, _). positive_integer (jint (me_tunnelId m))) mappedExits));
          tunnelById = (case flt of ByTunnel _ \<Rightarrow> tunnel_index tns []
                        | _ \<Rightarrow> tunnel_index (filter (\<lambda>t. tn_id t \<in> set relatedIds) (tunnels T)) (tunnel_index tns []));
          out = fold tunnel_desired tns [];
          out = fold (child_desired tunnelById ResTunnelExitNode) exitNodes out;
          out = fold (child_desired tunnelById ResTunnelHop) hops out
      in ebind (rules_desired rules out) (\<lambda>out.
         ebind (mapped_desired mappedExits out) (\<lambda>out.
         Inr (filter (\<lambda>item. in_resourceId (dp_reference item) > 0
                \<and> (case in_hostId (dp_reference item) of None \<Rightarrow> 0 | Some h \<Rightarrow> h) > 0) out))))"

definition stagedReferenceFor :: "GlobalPortReferenceInput \<Rightarrow> GlobalPortReferenceInput" where
  "stagedReferenceFor desired = desired\<lparr>in_role := RoleOwnership,
     in_slot := (if in_role desired = RoleMimic then Some SlotMapped
                 else (case in_slot desired of None \<Rightarrow> Some SlotPrimary | Some s \<Rightarrow> Some s))\<rparr>"

section \<open>Entering the listeners of a tunnel into the ledger\<close>

definition acquire_desired ::
  "(string \<Rightarrow> string) \<Rightarrow> string \<Rightarrow> int option \<Rightarrow> int option \<Rightarrow> DesiredTunnelPortReference \<Rightarrow> GlobalPortAllocationDto txn" where
  "acquire_desired sha256 token now1 now2 item db =
     ebind (inspectGlobalPortReferenceAllocation (dp_reference item) db) (\<lambda>current.
     let ref = (if (case current of None \<Rightarrow> False | Some d \<Rightarrow> dto_port d \<noteq> dp_port item)
                then stagedReferenceFor (dp_reference item) else dp_reference item) in
     case acquireGlobalPortOwningReference sha256 token (jint (dp_port item)) (dp_owner item) ref now1 now2 db of
       (Inl e, _) \<Rightarrow> Inl e | (Inr d, db') \<Rightarrow> Inr (d, db'))"

fun acquire_all ::
  "(string \<Rightarrow> string) \<Rightarrow> (nat \<Rightarrow> string) \<Rightarrow> (nat \<Rightarrow> int) \<Rightarrow> nat \<Rightarrow> DesiredTunnelPortReference list \<Rightarrow> unit txn" where
  "acquire_all sha256 token clock n [] db = Inr ((), db)"
| "acquire_all sha256 token clock n (item # items) db =
     ebind (acquire_desired sha256 (token n) (Some (clock (2 * n))) (Some (clock (2 * n + 1))) item db)
       (\<lambda>(_, db'). acquire_all sha256 token clock (n + 1) items db')"

definition ensureTunnelDerivedGlobalPortReferences ::
  "(string \<Rightarrow> string) \<Rightarrow> (nat \<Rightarrow> string) \<Rightarrow> (nat \<Rightarrow> int) \<Rightarrow> jsval \<Rightarrow> tunnel_tables \<Rightarrow> nat txn" where
  "ensureTunnelDerivedGlobalPortReferences sha256 token clock tunnelIdValue T db =
     (let tunnelId = positive_integer tunnelIdValue in
      if tunnelId = 0 then Inl GLOBAL_PORT_INVALID
      else ebind (loadDesiredTunnelPortReferences (jint tunnelId) JUndefined T) (\<lambda>desired.
           ebind (acquire_all sha256 token clock 0 desired db) (\<lambda>(_, db').
           Inr (length desired, db'))))"

section \<open>Reconciliation with a runtime snapshot\<close>

definition tunnel_resource :: "GlobalPortResourceType \<Rightarrow> bool" where
  "tunnel_resource rt \<longleftrightarrow> rt \<in> {ResTunnel, ResTunnelExitNode, ResTunnelHop, ResForwardRule, ResForwardRuleTunnelExit}"

definition rowReference :: "ReferenceRow \<Rightarrow> GlobalPortReferenceInput option" where
  "rowReference row =
     (if \<not> tunnel_resource (r_resourceType row) \<or> r_role row = RoleTarget then None
      else let result = owning_reference (r_resourceType row) (positive_integer (jint (r_resourceId row)))
                          (positive_integer (jopt (r_hostId row))) (r_network row) (r_role row) (key_slot (r_key row)) in
           if in_resourceId result > 0 \<and> the (in_hostId result) > 0 \<and> referenceKey result = Inr (r_key row)
           then Some result else None)"

definition tunnelIdFromOwnerTag :: "string \<Rightarrow> int" where
  "tunnelIdFromOwnerTag value =
     (let n = length ''tunnel:''; digits = drop n value in
      if take n value = ''tunnel:'' \<and> digits \<noteq> [] \<and> list_all is_digit digits \<and> hd digits \<noteq> CHR ''0''
      then positive_integer (JStr digits) else 0)"

definition runtimePorts :: "runtime_snapshot \<Rightarrow> int set" where
  "runtimePorts sn = set (filter (\<lambda>p. p \<noteq> 0)
     (map (\<lambda>t. listenerPort (JNum (rt_port t))) (sn_tunnels sn) @ map (\<lambda>r. listenerPort (JNum (rr_port r))) (sn_rules sn)))"

definition udp_value :: "ReportedTunnelListener \<Rightarrow> jsval" where
  "udp_value t = (case rt_udpPort t of None \<Rightarrow> JUndefined | Some p \<Rightarrow> JNum p)"

definition reportedUdpPorts :: "runtime_snapshot \<Rightarrow> int set" where
  "reportedUdpPorts sn = set (filter (\<lambda>p. p \<noteq> 0) (map (\<lambda>t. listenerPort (udp_value t)) (sn_tunnels sn)))"

definition reportedTunnelIds :: "runtime_snapshot \<Rightarrow> int set" where
  "reportedTunnelIds sn = set (filter (\<lambda>i. i \<noteq> 0) (map (\<lambda>t. positive_integer (JNum (rt_tunnelId t))) (sn_tunnels sn)))"

text \<open>A tunnel that is reported without the field \<open>udpPort\<close> says nothing of its mimic listener.\<close>

definition unknownMimicState :: "runtime_snapshot \<Rightarrow> ReferenceRow \<Rightarrow> bool" where
  "unknownMimicState sn row = (let ownerTunnelId = tunnelIdFromOwnerTag (r_ownerGroupTag row) in
     ownerTunnelId > 0 \<and> ownerTunnelId \<in> reportedTunnelIds sn
     \<and> \<not> list_ex (\<lambda>t. positive_integer (JNum (rt_tunnelId t)) = ownerTunnelId \<and> rt_udpPort t \<noteq> None) (sn_tunnels sn))"

definition port_running :: "runtime_snapshot \<Rightarrow> GlobalPortReferenceRole \<Rightarrow> int \<Rightarrow> bool" where
  "port_running sn role p = (if role = RoleMimic then p \<in> reportedUdpPorts sn else p \<in> runtimePorts sn)"

definition desired_index ::
  "DesiredTunnelPortReference list \<Rightarrow> GlobalPortAllocationErrorCode + (string \<times> DesiredTunnelPortReference) list" where
  "desired_index desired =
     ebind (traverseE (\<lambda>item. ebind (referenceKey (dp_reference item)) (\<lambda>k. Inr (k, item))) desired)
       (\<lambda>kvs. Inr (fold (\<lambda>(k, v). alist_set k v) kvs []))"

definition host_reference_rows :: "int \<Rightarrow> ledger \<Rightarrow> (ReferenceRow \<times> AllocationRow) list" where
  "host_reference_rows hostId db =
     [(r, a). r \<leftarrow> references db, a \<leftarrow> allocations db,
        a_id a = r_allocationId r \<and> r_hostId r = Some hostId \<and> tunnel_resource (r_resourceType r)]"

definition staged_target_role :: "ReferenceRow \<Rightarrow> reference_slot \<Rightarrow> GlobalPortReferenceRole" where
  "staged_target_role row slot =
     (if slot = SlotMapped \<and> r_resourceType row \<noteq> ResForwardRuleTunnelExit then RoleMimic else RolePublicListener)"

definition staged_target :: "ReferenceRow \<Rightarrow> GlobalPortReferenceInput \<Rightarrow> reference_slot \<Rightarrow> GlobalPortReferenceInput" where
  "staged_target row staged slot =
     (let keepsSlot = (in_resourceType staged = ResForwardRule \<or> in_resourceType staged = ResForwardRuleTunnelExit) in
      staged\<lparr>in_role := staged_target_role row slot, in_slot := (if keepsSlot then Some slot else None)\<rparr>)"

definition desired_on ::
  "(string \<times> DesiredTunnelPortReference) list \<Rightarrow> string \<Rightarrow> int \<Rightarrow> DesiredTunnelPortReference option" where
  "desired_on desiredByKey k port = (case map_of desiredByKey k of None \<Rightarrow> None
     | Some target \<Rightarrow> if dp_port target \<noteq> port then None else Some target)"

type_synonym row_step = "(ReferenceRow \<times> AllocationRow) \<Rightarrow> (nat \<times> nat) \<Rightarrow> (nat \<times> nat) txn"

text \<open>One iteration of the first loop: promote or drop a staged listener. The counters are \<open>(promoted, released)\<close>.\<close>

definition reconcile_staged ::
  "(nat \<Rightarrow> int) \<Rightarrow> runtime_snapshot \<Rightarrow> (string \<times> DesiredTunnelPortReference) list \<Rightarrow> row_step" where
  "reconcile_staged clock sn desiredByKey ra c db =
     (case (ra, c) of ((row, a), (promoted, released)) \<Rightarrow>
      let now = Some (clock (promoted + released)) in
      if r_role row \<noteq> RoleOwnership \<or> a_status a \<noteq> Text ACTIVE then Inr (c, db)
      else case rowReference row of None \<Rightarrow> Inr (c, db)
      | Some staged \<Rightarrow>
        (case in_slot staged of None \<Rightarrow> Inr (c, db)
         | Some slot \<Rightarrow>
           let targetRole = staged_target_role row slot;
               targetReference = staged_target row staged slot;
               nextPort = listenerPort (jint (a_port a)) in
           ebind (referenceKey targetReference) (\<lambda>tkey.
           case desired_on desiredByKey tkey nextPort of
             None \<Rightarrow>
               if \<not> (targetRole = RoleMimic \<and> unknownMimicState sn row) \<and> \<not> port_running sn targetRole nextPort
               then ebind (releaseGlobalPortReferenceAfterRuntimeCleanup staged now db)
                      (\<lambda>(_, db'). Inr ((promoted, released + 1), db'))
               else Inr (c, db)
           | Some target \<Rightarrow>
               ebind (inspectGlobalPortReferenceAllocation targetReference db) (\<lambda>previous.
               if (case previous of None \<Rightarrow> False | Some d \<Rightarrow> dto_port d = nextPort) then Inr (c, db)
               else if \<not> port_running sn targetRole nextPort then Inr (c, db)
               else case previous of
                 None \<Rightarrow>
                   ebind (promoteOrphanedStagedGlobalPortOwningReference (dp_owner target) targetReference staged now db)
                     (\<lambda>(_, db'). Inr ((promoted + 1, released), db'))
               | Some d \<Rightarrow>
                   if port_running sn targetRole (dto_port d) then Inr (c, db)
                   else ebind (promoteStagedGlobalPortOwningReference (dp_owner target) targetReference
                                 (Some targetReference) staged now db)
                          (\<lambda>(_, db'). Inr ((promoted + 1, released), db'))))))"

text \<open>One iteration of the second loop: release a listener that is neither wanted nor running.\<close>

definition reconcile_listener ::
  "(nat \<Rightarrow> int) \<Rightarrow> runtime_snapshot \<Rightarrow> (string \<times> DesiredTunnelPortReference) list \<Rightarrow> row_step" where
  "reconcile_listener clock sn desiredByKey ra c db =
     (case (ra, c) of ((row, a), (promoted, released)) \<Rightarrow>
      if (r_role row \<noteq> RolePublicListener \<and> r_role row \<noteq> RoleMimic) \<or> a_status a \<noteq> Text ACTIVE then Inr (c, db)
      else case rowReference row of None \<Rightarrow> Inr (c, db)
      | Some existing \<Rightarrow>
        if in_resourceType existing = ResForwardRule \<and> in_slot existing = None then Inr (c, db)
        else let port = listenerPort (jint (a_port a)) in
        if desired_on desiredByKey (r_key row) port \<noteq> None then Inr (c, db)
        else if in_role existing = RoleMimic
                \<and> (port \<in> reportedUdpPorts sn \<or> unknownMimicState sn row) then Inr (c, db)
        else if in_role existing \<noteq> RoleMimic \<and> port \<in> runtimePorts sn then Inr (c, db)
        else ebind (releaseGlobalPortReferenceAfterRuntimeCleanup existing (Some (clock (promoted + released))) db)
               (\<lambda>(_, db'). Inr ((promoted, released + 1), db')))"

fun reconcile_rows ::
  "row_step \<Rightarrow> (ReferenceRow \<times> AllocationRow) list \<Rightarrow> nat \<times> nat \<Rightarrow> ledger
   \<Rightarrow> (GlobalPortAllocationErrorCode + nat \<times> nat) \<times> ledger" where
  "reconcile_rows step [] c db = (Inr c, db)"
| "reconcile_rows step (ra # rows) c db =
     (case step ra c db of Inl e \<Rightarrow> (Inl e, db) | Inr (c', db') \<Rightarrow> reconcile_rows step rows c' db')"

definition reconcileTunnelGlobalPortsAfterRuntimeSnapshot ::
  "(nat \<Rightarrow> int) \<Rightarrow> runtime_snapshot \<Rightarrow> tunnel_tables \<Rightarrow> ledger
   \<Rightarrow> (GlobalPortAllocationErrorCode + nat \<times> nat) \<times> ledger" where
  "reconcileTunnelGlobalPortsAfterRuntimeSnapshot clock sn T db =
     (let hostId = positive_integer (JNum (sn_hostId sn)) in
      if hostId = 0 \<or> \<not> sn_completeSnapshot sn then (Inr (0, 0), db)
      else case ebind (loadDesiredTunnelPortReferences JUndefined (jint hostId) T) desired_index of
        Inl e \<Rightarrow> (Inl e, db)
      | Inr desiredByKey \<Rightarrow>
          (let rows = host_reference_rows hostId db in
           case reconcile_rows (reconcile_staged clock sn desiredByKey) rows (0, 0) db of
             (Inl e, db1) \<Rightarrow> (Inl e, db1)
           | (Inr c, db1) \<Rightarrow> reconcile_rows (reconcile_listener clock sn desiredByKey) rows c db1))"


section \<open>What the ledger operations leave alone\<close>

text \<open>The active port that a reference stands on, with the owner of that port, and \<open>keeps_except K db db'\<close>: references
  with a key outside \<open>K\<close> still stand where they stood.\<close>

definition listens :: "ledger \<Rightarrow> ReferenceRow \<Rightarrow> (int \<times> string option) option" where
  "listens db r = (case allocationById db (r_allocationId r) of None \<Rightarrow> None
     | Some a \<Rightarrow> if a_status a = Text ACTIVE \<and> r \<in> set (references db) then Some (a_port a, a_ownerTag a) else None)"

definition keeps_except :: "string set \<Rightarrow> ledger \<Rightarrow> ledger \<Rightarrow> bool" where
  "keeps_except K db db' \<longleftrightarrow> (\<forall>r x. listens db r = Some x \<longrightarrow> r_key r \<notin> K \<longrightarrow> listens db' r = Some x)"

lemma listens_Some:
  "listens db r = Some (p, t) \<longleftrightarrow> r \<in> set (references db)
     \<and> (\<exists>a. allocationById db (r_allocationId r) = Some a \<and> a_status a = Text ACTIVE \<and> a_port a = p \<and> a_ownerTag a = t)"
  by (auto simp: listens_def split: option.splits if_splits)

lemma keeps_except_refl [simp]: "keeps_except K db db"
  by (simp add: keeps_except_def)

lemma keeps_except_trans: "keeps_except K db db1 \<Longrightarrow> keeps_except K db1 db2 \<Longrightarrow> keeps_except K db db2"
  by (simp add: keeps_except_def)

lemma keeps_except_mono: "keeps_except K db db' \<Longrightarrow> K \<subseteq> K' \<Longrightarrow> keeps_except K' db db'"
  by (auto simp: keeps_except_def)

lemma keeps_exceptD: "keeps_except K db db' \<Longrightarrow> listens db r = Some x \<Longrightarrow> r_key r \<notin> K \<Longrightarrow> listens db' r = Some x"
  unfolding keeps_except_def by blast

lemma keeps_references:
  "allocations db' = allocations db \<Longrightarrow> set (references db) \<subseteq> set (references db') \<Longrightarrow> keeps_except K db db'"
  by (auto simp: keeps_except_def listens_def allocationById_def split: option.splits if_splits)

text \<open>An update that leaves active rows active, applied to a table that has lost at most the keys \<open>K\<close>.\<close>

lemma update_keeps:
  assumes u: "update_and_read i v st f db1 = Inr (d, db')"
    and al: "allocations db1 = allocations db"
    and rs: "\<And>r. r \<in> set (references db) \<Longrightarrow> r_key r \<notin> K \<Longrightarrow> r \<in> set (references db1)"
    and f: "\<And>a. a_id (f a) = a_id a"
      "\<And>a. a_status a = Text ACTIVE \<Longrightarrow> st = ACTIVE \<Longrightarrow>
         a_status (f a) = Text ACTIVE \<and> a_port (f a) = a_port a \<and> a_ownerTag (f a) = a_ownerTag a"
  shows "keeps_except K db db'"
proof -
  define g where "g = (\<lambda>r. if cas_hit i v [st] r then f r else r)"
  have db': "db' = db1\<lparr>allocations := map g (allocations db)\<rparr>"
    using u al by (auto simp: update_and_read_def cas_update_def g_def throw_simps split: option.splits if_splits)
  have "a_id (g a) = a_id a" for a by (simp add: g_def f(1))
  then have "allocationById db' j = map_option g (allocationById db j)" for j
    by (simp add: allocationById_def db' find_map_keep)
  moreover have "a_status (g a) = Text ACTIVE \<and> a_port (g a) = a_port a \<and> a_ownerTag (g a) = a_ownerTag a"
    if "a_status a = Text ACTIVE" for a
    using f(2) [OF that] that by (auto simp: g_def cas_hit_def)
  ultimately show ?thesis using rs by (auto simp: keeps_except_def listens_Some db')
qed

lemma insert_reference_keeps:
  assumes "insertReference i tag ref db = Inr (b, db')"
  shows "allocations db' = allocations db" "set (references db) \<subseteq> set (references db')"
  using assms by (auto simp: insertReference_def throw_simps split: option.splits if_splits)

lemma insert_references_keep:
  assumes "insertReferences i tag refs db = Inr (u, db')"
  shows "allocations db' = allocations db \<and> set (references db) \<subseteq> set (references db')"
  using assms
proof (induction refs arbitrary: db)
  case (Cons ref refs)
  then obtain b db1 where "insertReference i tag ref db = Inr (b, db1)" "insertReferences i tag refs db1 = Inr (u, db')"
    by (auto simp: ebind_Inr)
  then show ?case using Cons.IH insert_reference_keeps by fastforce
qed simp

lemma begin_release_keeps:
  assumes b: "beginGlobalPortReferenceRelease ref vV nowV db = Inr (res, db')" and k: "referenceKey ref = Inr k"
    and tab: "tables_inv db"
  shows "keeps_except {k} db db'"
  using b tab
proof (cases rule: beginRelease_cases)
  case (dropped key r v now row d)
  then have "r_key r = k" using k tab by (simp add: referenceByKey_iff)
  then show ?thesis
    by (intro update_keeps [OF dropped(11)]) (auto simp: delete_reference_def)
next
  case (last key r v now row d)
  then have r: "r_key r = k" using k tab by (simp add: referenceByKey_iff)
  have u: "(\<forall>j. j \<noteq> r_allocationId r \<longrightarrow> allocationById db' j = allocationById db j) \<and> references db' = references db"
    by (rule update_and_readD [OF last(10) tab]) auto
  have "listens db' r' = listens db r'" if "r_key r' \<noteq> k" for r'
  proof (cases "r' \<in> set (references db)")
    case True
    have "r_allocationId r' \<noteq> r_allocationId r"
    proof
      assume "r_allocationId r' = r_allocationId r"
      then have "r' \<in> set (refs_of db (r_allocationId r))" using True by (simp add: refs_of_def)
      then show False using that r by (simp add: last(9))
    qed
    then show ?thesis using u by (simp add: listens_def split: option.split)
  qed (use u in \<open>simp add: listens_def split: option.splits\<close>)
  then show ?thesis by (simp add: keeps_except_def)
qed simp

lemma confirm_release_keeps:
  assumes b: "confirmGlobalPortReferenceReleased ref vV nowV db = Inr (d, db')" and k: "referenceKey ref = Inr k"
    and tab: "tables_inv db"
  shows "keeps_except {k} db db'"
  using b tab
proof (cases rule: confirm_cases)
  case (1 key r v now row)
  then have "r_key r = k" using k tab by (simp add: referenceByKey_iff)
  then show ?thesis
    by (intro update_keeps [OF 1(10)]) (auto simp: delete_reference_def)
qed

lemma release_keeps:
  assumes r: "releaseGlobalPortReferenceAfterRuntimeCleanup ref nowV db = Inr (res, db')" and k: "referenceKey ref = Inr k"
    and tab: "tables_inv db"
  shows "keeps_except {k} db db'"
  using r
proof (cases rule: release_parts)
  case (released vV now rel db1)
  have "tables_inv db1" by (rule moves_tables [OF beginRelease_moves [OF released(1) tab]])
  then show ?thesis
    using begin_release_keeps [OF released(1) k tab] confirm_release_keeps [OF _ k] released(2)
    by (auto intro: keeps_except_trans)
qed simp

lemma add_active_keeps:
  assumes "addActiveGlobalPortOwningReference iV vV ow ref nowV db = Inr (d, db')"
  shows "keeps_except K db db'"
proof -
  obtain i tag b db1 v now row where ins: "insertReference i tag ref db = Inr (b, db1)"
    and u: "(if \<not> b then ebind (allocationDto row) (\<lambda>d. Inr (d, db1))
             else update_and_read i v ACTIVE (bump now) db1) = Inr (d, db')"
    using assms by (auto simp: addActiveGlobalPortOwningReference_def ebind_Inr)
  note i = insert_reference_keeps [OF ins]
  have "db' = db1 \<or> update_and_read i v ACTIVE (bump now) db1 = Inr (d, db')"
    using u by (auto simp: ebind_Inr split: if_splits)
  then show ?thesis
  proof
    assume "db' = db1"
    then show ?thesis using keeps_references [OF i] by simp
  next
    assume "update_and_read i v ACTIVE (bump now) db1 = Inr (d, db')"
    then show ?thesis by (rule update_keeps) (use i in auto)
  qed
qed

lemma unstage_keeps:
  assumes "attach_and_unstage ow i v nxt staged now db = Inr (d, db')" "referenceKey staged = Inr k" "tables_inv db"
  shows "keeps_except {k} db db'"
proof -
  obtain d1 db1 rel where a: "addActiveGlobalPortOwningReference (jint i) (jint v) ow nxt (Some now) db = Inr (d1, db1)"
    and b: "beginGlobalPortReferenceRelease staged (jint (dto_version d1)) (Some now) db1 = Inr (rel, db')"
    using assms(1) by (auto simp: attach_and_unstage_def throw_simps)
  show ?thesis
    by (rule keeps_except_trans [OF add_active_keeps [OF a] begin_release_keeps [OF b assms(2)]])
      (rule moves_tables [OF addActive_moves [OF a assms(3)]])
qed

lemma promote_keeps:
  assumes "promoteStagedGlobalPortOwningReference ow public nxt staged nowV db = Inr (d, db')"
    and kp: "referenceKey public = Inr kp" and ks: "referenceKey staged = Inr ks" and tab: "tables_inv db"
  shows "keeps_except {kp, ks} db db'"
proof -
  obtain now vV rd db1 db2 i v nx where
    b: "beginGlobalPortReferenceRelease public vV (Some now) db = Inr (Some rd, db1)"
    and c: "db2 = db1 \<or> (\<exists>vV e. confirmGlobalPortReferenceReleased public vV (Some now) db1 = Inr (e, db2))"
    and a: "attach_and_unstage ow i v nx staged now db2 = Inr (d, db')"
    using assms(1) by (rule promote_parts)
  have t1: "tables_inv db1" by (rule moves_tables [OF beginRelease_moves [OF b tab]])
  have t2: "tables_inv db2" using c t1 moves_tables confirm_moves by blast
  have "keeps_except {kp} db db2"
    using begin_release_keeps [OF b kp tab] confirm_release_keeps [OF _ kp t1] c by (auto intro: keeps_except_trans)
  then have "keeps_except {kp, ks} db db2" by (rule keeps_except_mono) simp
  moreover have "keeps_except {kp, ks} db2 db'" by (rule keeps_except_mono [OF unstage_keeps [OF a ks t2]]) simp
  ultimately show ?thesis by (rule keeps_except_trans)
qed

lemma promote_orphaned_keeps:
  assumes "promoteOrphanedStagedGlobalPortOwningReference ow nxt staged nowV db = Inr (d, db')" "referenceKey staged = Inr k"
    "tables_inv db"
  shows "keeps_except {k} db db'"
  using assms
  by (auto simp: promoteOrphanedStagedGlobalPortOwningReference_def throw_simps split: if_splits intro: unstage_keeps)


section \<open>Keys and columns of reference rows\<close>

definition row_input :: "ReferenceRow \<Rightarrow> GlobalPortReferenceInput" where
  "row_input r = \<lparr>in_resourceType = r_resourceType r, in_resourceId = r_resourceId r, in_hostId = r_hostId r,
     in_network = r_network r, in_role = r_role r, in_isOwning = r_isOwning r, in_slot = key_slot (r_key r)\<rparr>"

definition well_keyed :: "ReferenceRow \<Rightarrow> bool" where
  "well_keyed r \<longleftrightarrow> referenceKey (row_input r) = Inr (r_key r)"

lemma positive_integer_jint [simp]:
  "positive_integer (jint n) = (if 0 < n \<and> n \<le> MAX_SAFE_INTEGER then n else 0)"
  by (simp add: positive_integer_def as_safe_integer_def MAX_SAFE_INTEGER_def)

lemma positive_integer_nonneg [simp]: "0 \<le> positive_integer v"
  by (simp add: positive_integer_def split: option.splits)

lemma positive_integer_safe: "positive_integer v \<le> MAX_SAFE_INTEGER"
  by (auto simp: positive_integer_def as_safe_integer_def MAX_SAFE_INTEGER_def split: option.splits if_splits)

lemma listenerPort_bounds [simp]: "0 \<le> listenerPort v" "listenerPort v \<le> 65535"
  by (simp_all add: listenerPort_def Let_def)

lemma listenerPort_jint: "1 \<le> p \<Longrightarrow> p \<le> 65535 \<Longrightarrow> listenerPort (jint p) = p"
  by (simp add: listenerPort_def MAX_SAFE_INTEGER_def)

lemma rowReferenceD:
  assumes "rowReference row = Some x"
  shows "referenceKey x = Inr (r_key row)" "in_resourceType x = r_resourceType row" "in_role x = r_role row"
    "in_slot x = key_slot (r_key row)" "in_isOwning x" "tunnel_resource (r_resourceType row)"
    "in_hostId x = Some (positive_integer (jopt (r_hostId row)))"
  using assms by (auto simp: rowReference_def owning_reference_def Let_def split: if_splits)

lemma host_reference_rowsD:
  assumes "(row, a) \<in> set (host_reference_rows h db)" "tables_inv db"
  shows "row \<in> set (references db)" "r_hostId row = Some h" "tunnel_resource (r_resourceType row)"
    "allocationById db (r_allocationId row) = Some a"
  using assms by (auto simp: host_reference_rows_def allocationById_iff)

lemma same_key_same_row:
  "tables_inv db \<Longrightarrow> r \<in> set (references db) \<Longrightarrow> s \<in> set (references db) \<Longrightarrow> r_key r = r_key s \<Longrightarrow> r = s"
  by (auto simp: tables_inv_def distinct_map dest: inj_onD)

lemma inspect_reference:
  assumes "inspectGlobalPortReferenceAllocation ref db = Inr (Some d)" "referenceKey ref = Inr k" "tables_inv db"
    "r \<in> set (references db)" "r_key r = k" "allocationById db (r_allocationId r) = Some a"
  shows "dto_port d = a_port a"
proof -
  have "referenceByKey db k = Some r" using assms(3-5) by (simp add: referenceByKey_iff)
  then have "allocationDto a = Inr d"
    using assms(1,2,6) by (auto simp: inspectGlobalPortReferenceAllocation_def allocationForReference_def ebind_Inr)
  then show ?thesis by (auto simp: allocationDto_def ebind_Inr Let_def ledger_simps split: if_splits)
qed

section \<open>The steps of the reconciliation\<close>

lemma reconcile_staged_parts:
  assumes "reconcile_staged clock sn D (row, a) c db = Inr (c', db')"
  obtains (same) "db' = db"
  | (dropped) staged now x where "r_role row = RoleOwnership" "rowReference row = Some staged"
      "releaseGlobalPortReferenceAfterRuntimeCleanup staged now db = Inr (x, db')"
  | (orphaned) staged ow tgt now x where "r_role row = RoleOwnership" "rowReference row = Some staged"
      "promoteOrphanedStagedGlobalPortOwningReference ow tgt staged now db = Inr (x, db')"
  | (promoted) staged slot tgt k t d ow now x where "r_role row = RoleOwnership" "rowReference row = Some staged"
      "in_slot staged = Some slot" "tgt = staged_target row staged slot" "referenceKey tgt = Inr k"
      "map_of D k = Some t" "inspectGlobalPortReferenceAllocation tgt db = Inr (Some d)" "dto_port d \<noteq> dp_port t"
      "\<not> port_running sn (in_role tgt) (dto_port d)"
      "promoteStagedGlobalPortOwningReference ow tgt (Some tgt) staged now db = Inr (x, db')"
proof -
  obtain p n where c: "c = (p, n)" by (cases c)
  note def = reconcile_staged_def c Let_def prod.case
  show ?thesis
  proof (cases "r_role row = RoleOwnership \<and> a_status a = Text ACTIVE")
    case True
    show ?thesis
    proof (cases "rowReference row")
      case None
      then show ?thesis using assms True same by (simp add: def)
    next
      case (Some staged)
      show ?thesis
      proof (cases "in_slot staged")
        case None
        then show ?thesis using assms True Some same by (simp add: def)
      next
        case slot: (Some slot)
        define tgt where "tgt = staged_target row staged slot"
        have role: "in_role tgt = staged_target_role row slot" by (simp add: tgt_def staged_target_def Let_def)
        note body = assms [unfolded def, simplified True Some slot option.case if_False simp_thms, folded tgt_def]
        obtain k where k: "referenceKey tgt = Inr k" using body by (auto simp: ebind_Inr)
        define nextPort where "nextPort = listenerPort (jint (a_port a))"
        note body = body [simplified k ebind_simps, folded nextPort_def]
        show ?thesis
        proof (cases "desired_on D k nextPort")
          case None
          then show ?thesis using body same dropped [OF _ Some] True
            by (auto simp: ebind_Inr split: if_splits)
        next
          case t: (Some t)
          then have D: "map_of D k = Some t" "dp_port t = nextPort"
            by (auto simp: desired_on_def split: option.splits if_splits)
          obtain previous where prev: "inspectGlobalPortReferenceAllocation tgt db = Inr previous"
            using body t by (auto simp: ebind_Inr)
          show ?thesis
          proof (cases previous)
            case None
            then show ?thesis using body t prev same orphaned [OF _ Some] True
              by (auto simp: ebind_Inr split: if_splits)
          next
            case d: (Some d)
            then show ?thesis using body t prev same promoted [OF _ Some slot tgt_def k D(1)] D(2) True
              by (auto simp: ebind_Inr role split: if_splits)
          qed
        qed
      qed
    qed
  qed (use assms same in \<open>auto simp: def\<close>)
qed

lemma reconcile_listener_parts:
  assumes "reconcile_listener clock sn D (row, a) c db = Inr (c', db')"
  obtains (same) "db' = db"
  | (released) existing now x where "rowReference row = Some existing"
      "r_role row = RolePublicListener \<or> r_role row = RoleMimic"
      "\<not> (r_resourceType row = ResForwardRule \<and> key_slot (r_key row) = None)"
      "desired_on D (r_key row) (listenerPort (jint (a_port a))) = None"
      "\<not> port_running sn (r_role row) (listenerPort (jint (a_port a)))"
      "releaseGlobalPortReferenceAfterRuntimeCleanup existing now db = Inr (x, db')"
proof -
  obtain p n where c: "c = (p, n)" by (cases c)
  note def = reconcile_listener_def c Let_def prod.case
  show ?thesis
  proof (cases "rowReference row")
    case None
    then show ?thesis using assms same by (auto simp: def split: if_splits)
  next
    case (Some existing)
    note cols = rowReferenceD [OF Some]
    show ?thesis
      using assms same released [OF Some]
      by (auto simp: def Some cols ebind_Inr port_running_def split: if_splits)
  qed
qed

lemma reconcile_rows_invariant:
  assumes "reconcile_rows stp rows c db = (res, db')" "P db"
    "\<And>ra c db c' db'. ra \<in> set rows \<Longrightarrow> P db \<Longrightarrow> stp ra c db = Inr (c', db') \<Longrightarrow> P db'"
  shows "P db'"
  using assms
proof (induction rows arbitrary: c db)
  case (Cons ra rows)
  show ?case
  proof (cases "stp ra c db")
    case (Inr y)
    then obtain c1 db1 where y: "stp ra c db = Inr (c1, db1)" by (cases y) auto
    have "P db1" using Cons.prems(2) y by (rule Cons.prems(3) [rotated]) simp
    then show ?thesis using Cons.prems(1) y by (intro Cons.IH [OF _ _ Cons.prems(3)]) auto
  qed (use Cons.prems in auto)
qed simp

text \<open>What the configuration and the snapshot say about a listener.\<close>

definition desired_keys :: "runtime_snapshot \<Rightarrow> tunnel_tables \<Rightarrow> (string \<times> DesiredTunnelPortReference) list" where
  "desired_keys sn T =
     (case ebind (loadDesiredTunnelPortReferences JUndefined (jint (positive_integer (JNum (sn_hostId sn)))) T) desired_index of
        Inl _ \<Rightarrow> [] | Inr D \<Rightarrow> D)"

definition listener_in_use :: "runtime_snapshot \<Rightarrow> (string \<times> DesiredTunnelPortReference) list \<Rightarrow> ReferenceRow \<Rightarrow> int \<Rightarrow> bool" where
  "listener_in_use sn D r p \<longleftrightarrow>
     (r_role r = RolePublicListener \<or> r_role r = RoleMimic)
     \<and> ((r_resourceType r = ResForwardRule \<and> key_slot (r_key r) = None)
        \<or> desired_on D (r_key r) p \<noteq> None \<or> port_running sn (r_role r) p)"

text \<open>A staged row of a move that this run does not complete: the configuration asks for its port under the key of the target
  but the agent does not report the port as running yet, or the agent reports it (or does not say anything of its mimic
  listener) while the configuration no longer asks for it. A staged row that is both configured and running is the one
  that the run promotes to its target; a staged row that is neither is dropped.\<close>

definition staged_in_use :: "runtime_snapshot \<Rightarrow> (string \<times> DesiredTunnelPortReference) list \<Rightarrow> ReferenceRow \<Rightarrow> int \<Rightarrow> bool" where
  "staged_in_use sn D r p \<longleftrightarrow> r_role r = RoleOwnership
     \<and> (case rowReference r of None \<Rightarrow> True
        | Some staged \<Rightarrow> (case in_slot staged of None \<Rightarrow> True
          | Some slot \<Rightarrow> (case referenceKey (staged_target r staged slot) of Inl _ \<Rightarrow> True
            | Inr k \<Rightarrow> if desired_on D k p = None
                then port_running sn (staged_target_role r slot) p \<or> (staged_target_role r slot = RoleMimic \<and> unknownMimicState sn r)
                else \<not> port_running sn (staged_target_role r slot) p)))"

definition out_of_scope :: "runtime_snapshot \<Rightarrow> ReferenceRow \<Rightarrow> bool" where
  "out_of_scope sn r \<longleftrightarrow> r_hostId r \<noteq> Some (positive_integer (JNum (sn_hostId sn)))
     \<or> \<not> tunnel_resource (r_resourceType r) \<or> r_role r = RoleTarget"

text \<open>The state that both loops carry along for one row \<open>r\<close> on port \<open>p\<close>.\<close>

definition holds_row :: "ReferenceRow \<Rightarrow> int \<times> string option \<Rightarrow> ledger \<Rightarrow> bool" where
  "holds_row r x db \<longleftrightarrow> tables_inv db \<and> listens db r = Some x"

lemma holds_rowD:
  assumes "holds_row r x db"
  shows "tables_inv db" "r \<in> set (references db)"
    "\<exists>a. allocationById db (r_allocationId r) = Some a \<and> a_port a = fst x"
  using assms by (cases x, auto simp: holds_row_def listens_Some)+

lemma holds_row_step:
  assumes "holds_row r x db" "moves db db'" "keeps_except K db db'" "r_key r \<notin> K"
  shows "holds_row r x db'"
  using assms moves_tables [OF assms(2)] keeps_exceptD [OF assms(3) _ assms(4)] by (simp add: holds_row_def)

lemma not_the_key:
  assumes "tables_inv db0" "r \<in> set (references db0)" "(row, a) \<in> set (host_reference_rows h db0)" "r \<noteq> row"
  shows "r_key r \<notin> {r_key row}"
  using same_key_same_row [OF assms(1,2) host_reference_rowsD(1) [OF assms(3,1)]] assms(4) by auto

lemma port_running_bounds: "port_running sn role p \<Longrightarrow> 1 \<le> p \<and> p \<le> 65535"
proof -
  have pos: "1 \<le> listenerPort v" if "listenerPort v \<noteq> 0" for v using that listenerPort_bounds(1) [of v] by linarith
  then show "port_running sn role p \<Longrightarrow> 1 \<le> p \<and> p \<le> 65535"
    by (auto simp: port_running_def runtimePorts_def reportedUdpPorts_def split: if_splits)
qed

lemma same_port:
  assumes "\<And>k t. map_of D k = Some t \<Longrightarrow> 1 \<le> dp_port t \<and> dp_port t \<le> 65535"
  shows "desired_on D k (listenerPort (jint p)) = desired_on D k p" "port_running sn role (listenerPort (jint p)) = port_running sn role p"
proof -
  have out: "desired_on D k q = None" "\<not> port_running sn role q" if "\<not> (1 \<le> q \<and> q \<le> 65535)" for q
    using that assms [of k] port_running_bounds [of sn role q] by (auto simp: desired_on_def split: option.splits)
  have "listenerPort (jint p) = p" if "1 \<le> p \<and> p \<le> 65535" using that by (simp add: listenerPort_jint)
  moreover have "\<not> (1 \<le> listenerPort (jint p) \<and> listenerPort (jint p) \<le> 65535)" if "\<not> (1 \<le> p \<and> p \<le> 65535)"
    using that by (auto simp: listenerPort_def Let_def)
  ultimately show "desired_on D k (listenerPort (jint p)) = desired_on D k p" "port_running sn role (listenerPort (jint p)) = port_running sn role p"
    using out by metis+
qed

lemma staged_in_use_same:
  assumes s: "reconcile_staged clock sn D (r, a) c db = Inr (c', db')" and u: "staged_in_use sn D r (a_port a)"
    and D: "\<And>k t. map_of D k = Some t \<Longrightarrow> 1 \<le> dp_port t \<and> dp_port t \<le> 65535"
  shows "db' = db"
proof -
  obtain p n where c: "c = (p, n)" by (cases c)
  have port: "desired_on D k (listenerPort (jint (a_port a))) = desired_on D k (a_port a)"
    "port_running sn role (listenerPort (jint (a_port a))) = port_running sn role (a_port a)" for k role
    by (rule same_port; use D in blast)+
  note def = reconcile_staged_def c Let_def prod.case port
  show ?thesis
  proof (cases "a_status a = Text ACTIVE \<and> r_role r = RoleOwnership")
    case True
    show ?thesis
    proof (cases "rowReference r")
      case None
      then show ?thesis using s True by (simp add: def)
    next
      case (Some staged)
      show ?thesis
      proof (cases "in_slot staged")
        case None
        then show ?thesis using s True Some by (simp add: def)
      next
        case slot: (Some slot)
        note body = s [unfolded def, simplified True Some slot option.case if_False simp_thms]
        obtain k where k: "referenceKey (staged_target r staged slot) = Inr k" using body by (auto simp: ebind_Inr)
        note use = u [unfolded staged_in_use_def Some option.case slot k sum.case]
        show ?thesis
        proof (cases "desired_on D k (a_port a)")
          case None
          then show ?thesis using body k use by (auto split: if_splits)
        next
          case (Some t)
          then obtain previous where "inspectGlobalPortReferenceAllocation (staged_target r staged slot) db = Inr previous"
            using body k by (auto simp: ebind_Inr)
          then show ?thesis using body k use Some by (auto split: if_splits)
        qed
      qed
    qed
  qed (use s in \<open>auto simp: def\<close>)
qed

lemma staged_step_holds:
  assumes s: "reconcile_staged clock sn D (row, a) c db = Inr (c', db')"
    and h: "h = positive_integer (JNum (sn_hostId sn))" "0 < h"
    and row: "(row, a) \<in> set (host_reference_rows h db0)" "holds_row r x db0" "well_keyed r"
    and D: "\<And>k t. map_of D k = Some t \<Longrightarrow> 1 \<le> dp_port t \<and> dp_port t \<le> 65535"
    and r: "listener_in_use sn D r (fst x) \<or> staged_in_use sn D r (fst x) \<or> out_of_scope sn r"
    and P: "holds_row r x db"
  shows "holds_row r x db'"
proof -
  note tab = holds_rowD(1) [OF P] and mem = holds_rowD(2) [OF P]
  define p where "p = fst x"
  obtain al where al: "allocationById db (r_allocationId r) = Some al" "a_port al = p" using holds_rowD(3) [OF P] p_def by auto
  note tab0 = holds_rowD(1,2) [OF row(2)]
  note rowD = host_reference_rowsD [OF row(1) tab0(1)]
  have own: "staged_in_use sn D r (a_port a)" if "r = row" "r_role row = RoleOwnership"
  proof -
    have "a_port a = fst x" using holds_rowD(3) [OF row(2)] rowD(4) that(1) by simp
    then show ?thesis using r that rowD(2,3) h by (auto simp: listener_in_use_def out_of_scope_def)
  qed
  show ?thesis
  proof (cases "r = row \<and> r_role row = RoleOwnership")
    case True
    then show ?thesis using staged_in_use_same [of clock sn D r a c db c' db'] D s own P by simp
  next
    case False
    have other: "r_key r \<notin> {r_key row}" if "r_role row = RoleOwnership"
      by (rule not_the_key [OF tab0 row(1)]) (use False that in simp)
    show ?thesis
      using s
    proof (cases rule: reconcile_staged_parts)
      case same
      then show ?thesis using P by simp
    next
      case (dropped staged now y)
      then show ?thesis
        using holds_row_step [OF P release_after_cleanup_moves [OF _ tab] release_keeps [OF _ _ tab] other] rowReferenceD(1) by blast
    next
      case (orphaned staged ow tgt now y)
      then show ?thesis
        using holds_row_step [OF P promote_orphaned_moves [OF _ tab] promote_orphaned_keeps [OF _ _ tab] other] rowReferenceD(1) by blast
    next
      case (promoted staged slot tgt k t d ow now y)
      note st = rowReferenceD [OF promoted(2)]
      have tgt: "in_hostId tgt = Some h" "tunnel_resource (in_resourceType tgt)" "in_role tgt \<noteq> RoleTarget"
        "in_resourceType tgt = ResForwardRule \<longrightarrow> in_slot tgt \<noteq> None"
        using st rowD(2,3) h positive_integer_safe [of "JNum (sn_hostId sn)"] unfolding promoted(4)
        by (auto simp: staged_target_def staged_target_role_def jopt_def)
      have "r_key r \<noteq> k"
      proof
        assume eq: "r_key r = k"
        have cols: "r_resourceType r = in_resourceType tgt" "r_hostId r = in_hostId tgt" "r_role r = in_role tgt"
          "key_slot (r_key r) = in_slot tgt"
          using reference_key_injective [of "row_input r" "r_key r" tgt] row(3) promoted(5) eq
          by (simp_all add: well_keyed_def row_input_def)
        have "dto_port d = p" using inspect_reference [OF promoted(7,5) tab mem eq al(1)] al(2) by simp
        then have "\<not> listener_in_use sn D r p"
          using promoted(6,8,9) cols(1,3,4) tgt(4) eq by (auto simp: listener_in_use_def desired_on_def)
        moreover have "\<not> out_of_scope sn r" using cols tgt h by (simp add: out_of_scope_def)
        moreover have "\<not> staged_in_use sn D r p"
          using cols(3) unfolding promoted(4) by (simp add: staged_in_use_def staged_target_def staged_target_role_def Let_def split: if_splits)
        ultimately show False using r p_def by simp
      qed
      then have "r_key r \<notin> {k, r_key row}" using other [OF promoted(1)] by simp
      then show ?thesis
        by (rule holds_row_step [OF P promote_moves [OF promoted(10) tab] promote_keeps [OF promoted(10,5) st(1) tab]])
    qed
  qed
qed

lemma listener_step_holds:
  assumes s: "reconcile_listener clock sn D (row, a) c db = Inr (c', db')"
    and h: "h = positive_integer (JNum (sn_hostId sn))"
    and row: "(row, a) \<in> set (host_reference_rows h db0)" "holds_row r x db0"
    and D: "\<And>k t. map_of D k = Some t \<Longrightarrow> 1 \<le> dp_port t \<and> dp_port t \<le> 65535"
    and r: "listener_in_use sn D r (fst x) \<or> staged_in_use sn D r (fst x) \<or> out_of_scope sn r"
    and P: "holds_row r x db"
  shows "holds_row r x db'"
  using s
proof (cases rule: reconcile_listener_parts)
  case same
  then show ?thesis using P by simp
next
  case (released existing now y)
  note tab = holds_rowD(1) [OF P] holds_rowD(1,2) [OF row(2)]
  note rowD = host_reference_rowsD [OF row(1) tab(2)]
  have "r \<noteq> row"
  proof
    assume eq: "r = row"
    define p where "p = fst x"
    have p: "a_port a = p" using holds_rowD(3) [OF row(2)] rowD(4) eq by (simp add: p_def)
    have "listener_in_use sn D r p" using r eq rowD(2,3) released(2) h by (auto simp: out_of_scope_def staged_in_use_def p_def)
    then have use: "desired_on D (r_key row) p \<noteq> None \<or> port_running sn (r_role row) p"
      using released(3) eq by (auto simp: listener_in_use_def)
    then have "1 \<le> p \<and> p \<le> 65535"
      using D port_running_bounds by (fastforce simp: desired_on_def split: option.splits if_splits)
    then show False using use released(4,5) p by (simp add: listenerPort_jint)
  qed
  then have "r_key r \<notin> {r_key row}" by (rule not_the_key [OF tab(2,3) row(1)])
  then show ?thesis
    by (rule holds_row_step [OF P release_after_cleanup_moves [OF released(6) tab(1)]
          release_keeps [OF released(6) rowReferenceD(1) [OF released(1)] tab(1)]])
qed

section \<open>The listeners the configuration asks for are well formed\<close>

definition desired_shape :: "DesiredTunnelPortReference \<Rightarrow> bool" where
  "desired_shape item \<longleftrightarrow> (let ref = dp_reference item in
     1 \<le> dp_port item \<and> dp_port item \<le> 65535 \<and> in_isOwning ref
     \<and> in_resourceId ref \<le> MAX_SAFE_INTEGER
     \<and> (\<exists>h. in_hostId ref = Some h \<and> h \<le> MAX_SAFE_INTEGER)
     \<and> tunnel_resource (in_resourceType ref)
     \<and> (in_role ref = RolePublicListener \<or> in_role ref = RoleMimic)
     \<and> (in_role ref = RoleMimic \<longrightarrow> in_resourceType ref \<in> {ResTunnel, ResTunnelExitNode, ResTunnelHop})
     \<and> in_slot ref = (if in_resourceType ref = ResForwardRule then Some SlotPrimary
                      else if in_resourceType ref = ResForwardRuleTunnelExit then Some SlotMapped else None))"

lemma append_desired_shape:
  assumes "list_all desired_shape output"
    "\<And>p. 1 \<le> p \<Longrightarrow> p \<le> 65535 \<Longrightarrow> desired_shape \<lparr>dp_port = p, dp_owner = ow, dp_reference = ref\<rparr>"
  shows "list_all desired_shape (appendDesired output v ow ref)"
  using assms listenerPort_bounds [of v] by (simp add: appendDesired_def Let_def)

lemma owning_reference_shape:
  assumes "tunnel_resource rt" "role = RolePublicListener \<or> (role = RoleMimic \<and> rt \<in> {ResTunnel, ResTunnelExitNode, ResTunnelHop})"
    "slot = (if rt = ResForwardRule then Some SlotPrimary else if rt = ResForwardRuleTunnelExit then Some SlotMapped else None)"
    "1 \<le> p" "p \<le> 65535" "i \<le> MAX_SAFE_INTEGER" "h \<le> MAX_SAFE_INTEGER"
  shows "desired_shape \<lparr>dp_port = p, dp_owner = ow, dp_reference = owning_reference rt i h net role slot\<rparr>"
  using assms by (auto simp: desired_shape_def owning_reference_def Let_def)

lemmas desired_shape_intros = append_desired_shape owning_reference_shape positive_integer_safe

lemma tunnel_desired_shape: "list_all desired_shape out \<Longrightarrow> list_all desired_shape (tunnel_desired row out)"
  unfolding tunnel_desired_def Let_def
  by (intro desired_shape_intros) (simp_all add: tunnel_resource_def)

lemma child_desired_shape:
  "list_all desired_shape out \<Longrightarrow> rt = ResTunnelExitNode \<or> rt = ResTunnelHop
   \<Longrightarrow> list_all desired_shape (child_desired ix rt row out)"
  unfolding child_desired_def Let_def
  by (auto simp: tunnel_resource_def simp del: positive_integer_jint split: option.split intro!: desired_shape_intros)

lemma rules_desired_shape:
  "rules_desired rows out = Inr out' \<Longrightarrow> list_all desired_shape out \<Longrightarrow> list_all desired_shape out'"
proof (induction rows arbitrary: out)
  case (Cons x rows)
  obtain row t where x: "x = (row, t)" by (cases x)
  show ?case
    using Cons.prems unfolding x
    by (auto simp: ebind_Inr tunnel_resource_def simp del: positive_integer_jint split: if_splits
        intro!: desired_shape_intros elim!: Cons.IH)
qed simp

lemma mapped_desired_shape:
  "mapped_desired rows out = Inr out' \<Longrightarrow> list_all desired_shape out \<Longrightarrow> list_all desired_shape out'"
proof (induction rows arbitrary: out)
  case (Cons x rows)
  obtain m row where x: "x = (m, row)" by (cases x)
  show ?case
    using Cons.prems unfolding x
    by (auto simp: ebind_Inr tunnel_resource_def simp del: positive_integer_jint split: if_splits
        intro!: desired_shape_intros elim!: Cons.IH)
qed simp

lemma load_desired_shape:
  assumes "loadDesiredTunnelPortReferences tv hv T = Inr ds" "item \<in> set ds"
  shows "desired_shape item" "0 < in_resourceId (dp_reference item)" "0 < the (in_hostId (dp_reference item))"
proof -
  obtain tns ix es hs rules mapped out1 out2 where
    r: "rules_desired rules (fold (child_desired ix ResTunnelHop) hs
          (fold (child_desired ix ResTunnelExitNode) es (fold tunnel_desired tns []))) = Inr out1"
    and m: "mapped_desired mapped out1 = Inr out2"
    and ds: "ds = filter (\<lambda>item. in_resourceId (dp_reference item) > 0
                \<and> (case in_hostId (dp_reference item) of None \<Rightarrow> 0 | Some h \<Rightarrow> h) > 0) out2"
    using assms(1) by (auto simp: loadDesiredTunnelPortReferences_def Let_def ebind_Inr)
  have "list_all desired_shape (fold tunnel_desired tns [])"
    by (rule fold_invariant [where Q = "\<lambda>_. True"]) (auto intro: tunnel_desired_shape)
  then have "list_all desired_shape (fold (child_desired ix ResTunnelExitNode) es (fold tunnel_desired tns []))"
    by (rule fold_invariant [where Q = "\<lambda>_. True", rotated]) (auto intro: child_desired_shape)
  then have "list_all desired_shape (fold (child_desired ix ResTunnelHop) hs
          (fold (child_desired ix ResTunnelExitNode) es (fold tunnel_desired tns [])))"
    by (rule fold_invariant [where Q = "\<lambda>_. True", rotated]) (auto intro: child_desired_shape)
  then have "list_all desired_shape out2" using r m mapped_desired_shape rules_desired_shape by blast
  then show "desired_shape item" "0 < in_resourceId (dp_reference item)" "0 < the (in_hostId (dp_reference item))"
    using assms(2) ds by (auto simp: list_all_iff split: option.splits)
qed

lemma desired_index_mem:
  assumes "desired_index ds = Inr D" "map_of D k = Some t"
  shows "t \<in> set ds"
proof -
  obtain kvs where kvs: "traverseE (\<lambda>item. ebind (referenceKey (dp_reference item)) (\<lambda>k. Inr (k, item))) ds = Inr kvs"
    "D = fold (\<lambda>(k, v). alist_set k v) kvs []"
    using assms(1) by (auto simp: desired_index_def ebind_Inr)
  have fold: "map_of (fold (\<lambda>(k, v). alist_set k v) xs m) k = Some t \<Longrightarrow> t \<in> snd ` set xs \<or> map_of m k = Some t" for xs m
  proof (induction xs arbitrary: m)
    case (Cons x xs)
    obtain a b where "x = (a, b)" by (cases x)
    with Cons show ?case by (fastforce simp: map_of_alist_set split: if_splits)
  qed simp
  have "snd ` set kvs \<subseteq> set ds"
    using kvs(1) by (induction ds arbitrary: kvs) (simp, fastforce simp: ebind_Inr)
  then show ?thesis using fold [of kvs "[]"] kvs(2) assms(2) by auto
qed

lemma desired_keys_port:
  assumes "map_of (desired_keys sn T) k = Some t"
  shows "1 \<le> dp_port t \<and> dp_port t \<le> 65535"
proof -
  obtain ds where ds: "loadDesiredTunnelPortReferences JUndefined (jint (positive_integer (JNum (sn_hostId sn)))) T = Inr ds"
    "desired_index ds = Inr (desired_keys sn T)"
    using assms by (auto simp: desired_keys_def ebind_def split: sum.splits)
  then show ?thesis using load_desired_shape(1) [OF ds(1) desired_index_mem [OF ds(2) assms]]
    by (simp add: desired_shape_def Let_def)
qed

section \<open>Reconciliation never takes a listener that is in use\<close>

lemma reconcile_steps_are_transactions:
  shows "reconcile_staged clock sn D ra c db = Inr (c', db') \<Longrightarrow> (ledger_txn sha256)\<^sup>*\<^sup>* db db'"
    and "reconcile_listener clock sn D ra c db = Inr (c', db') \<Longrightarrow> (ledger_txn sha256)\<^sup>*\<^sup>* db db'"
proof -
  obtain row a where ra: "ra = (row, a)" by (cases ra)
  show "reconcile_staged clock sn D ra c db = Inr (c', db') \<Longrightarrow> (ledger_txn sha256)\<^sup>*\<^sup>* db db'"
    unfolding ra by (erule reconcile_staged_parts) (auto intro!: r_into_rtranclp intro: ledger_txn.intros)
  show "reconcile_listener clock sn D ra c db = Inr (c', db') \<Longrightarrow> (ledger_txn sha256)\<^sup>*\<^sup>* db db'"
    unfolding ra by (erule reconcile_listener_parts) (auto intro!: r_into_rtranclp intro: ledger_txn.intros)
qed

lemma reconcile_invariant:
  assumes run: "reconcileTunnelGlobalPortsAfterRuntimeSnapshot clock sn T db = (res, db')"
    and P: "P db"
    and steps: "\<And>ra c db1 c' db2. \<lbrakk>0 < positive_integer (JNum (sn_hostId sn));
        ra \<in> set (host_reference_rows (positive_integer (JNum (sn_hostId sn))) db); P db1;
        reconcile_staged clock sn (desired_keys sn T) ra c db1 = Inr (c', db2)
        \<or> reconcile_listener clock sn (desired_keys sn T) ra c db1 = Inr (c', db2)\<rbrakk> \<Longrightarrow> P db2"
  shows "P db'"
proof -
  define h where "h = positive_integer (JNum (sn_hostId sn))"
  define load where "load = ebind (loadDesiredTunnelPortReferences JUndefined (jint h) T) desired_index"
  note def = reconcileTunnelGlobalPortsAfterRuntimeSnapshot_def Let_def h_def [symmetric] load_def [symmetric]
  show ?thesis
  proof (cases "h = 0 \<or> \<not> sn_completeSnapshot sn \<or> (\<exists>e. load = Inl e)")
    case True
    then show ?thesis using run P by (auto simp: def split: if_splits)
  next
    case False
    then obtain D where D: "load = Inr D" by (cases load) auto
    then have keys: "desired_keys sn T = D" by (simp add: desired_keys_def load_def h_def)
    have "h \<noteq> 0" "0 \<le> h" using False by (simp_all add: h_def)
    then have h: "0 < h" by simp
    obtain c1 db1 where l: "reconcile_rows (reconcile_staged clock sn D) (host_reference_rows h db) (0, 0) db = (c1, db1)"
      by (cases "reconcile_rows (reconcile_staged clock sn D) (host_reference_rows h db) (0, 0) db")
    have one: "P db1"
      by (rule reconcile_rows_invariant [where P = P, OF l P]) (use steps h keys h_def in blast)
    show ?thesis
    proof (cases c1)
      case (Inl e)
      then show ?thesis using run D l one False by (simp add: def)
    next
      case (Inr c)
      then have "reconcile_rows (reconcile_listener clock sn D) (host_reference_rows h db) c db1 = (res, db')"
        using run D l False by (simp add: def)
      then show ?thesis
        by (rule reconcile_rows_invariant [where P = P, OF _ one]) (use steps h keys h_def in blast)
    qed
  qed
qed

text \<open>C6: whatever an agent reports, reconciling the ledger with its snapshot keeps the ledger consistent and moves or
  releases only what it should look at. A reference on an active port stays on that port, with the same owner, in each of
  these cases: it is a listener under its final key (not the staged row of a move) and the configuration asks for exactly this port under
  the key, or the agent reports the port as running, or it is the source listener of a forwarding rule; it is a staged row
  whose port is configured but does not run yet, or runs but is not configured any more; it
  belongs to another host or another kind of resource. This holds after a failed run too, where the calls before the error
  have been committed. The case left out is a staged row whose port is both configured and running: the run promotes it, and
  the promoted listener is not protected, as \<open>promoted_listener_released_at_once\<close> below shows.\<close>

theorem reconcile_keeps_listeners_in_use:
  assumes inv: "ledger_inv db" "list_all well_keyed (references db)"
    and run: "reconcileTunnelGlobalPortsAfterRuntimeSnapshot clock sn T db = (res, db')"
    and r: "listens db r = Some (p, ow)"
    and use: "listener_in_use sn (desired_keys sn T) r p \<or> staged_in_use sn (desired_keys sn T) r p \<or> out_of_scope sn r"
  shows "ledger_inv db' \<and> listens db' r = Some (p, ow)"
proof -
  define P where "P = (\<lambda>db. ledger_inv db \<and> holds_row r (p, ow) db)"
  have tab: "tables_inv db" using inv(1) by (simp add: ledger_inv_def)
  have row: "holds_row r (p, ow) db" using tab r by (simp add: holds_row_def)
  note mem = holds_rowD(2) [OF row]
  have wk: "well_keyed r" using inv(2) mem by (simp add: list_all_iff)
  have "P db'"
  proof (rule reconcile_invariant [OF run])
    show "P db" using inv(1) row by (simp add: P_def)
    fix ra c db1 c' db2
    assume h: "0 < positive_integer (JNum (sn_hostId sn))"
      and ra: "ra \<in> set (host_reference_rows (positive_integer (JNum (sn_hostId sn))) db)"
      and p1: "P db1"
      and s: "reconcile_staged clock sn (desired_keys sn T) ra c db1 = Inr (c', db2)
        \<or> reconcile_listener clock sn (desired_keys sn T) ra c db1 = Inr (c', db2)"
    obtain row' a where pair: "ra = (row', a)" by (cases ra)
    have "(ledger_txn id)\<^sup>*\<^sup>* db1 db2"
      using s by (elim disjE) (erule reconcile_steps_are_transactions)+
    then have "ledger_inv db2" by (rule ledger_runs_inv) (use p1 in \<open>simp add: P_def\<close>)
    moreover have "holds_row r (p, ow) db2"
      using s
    proof
      assume "reconcile_staged clock sn (desired_keys sn T) ra c db1 = Inr (c', db2)"
      then show ?thesis
        unfolding pair by (rule staged_step_holds [OF _ refl h ra [unfolded pair] row wk desired_keys_port])
          (use use p1 in \<open>simp_all add: P_def\<close>)
    next
      assume "reconcile_listener clock sn (desired_keys sn T) ra c db1 = Inr (c', db2)"
      then show ?thesis
        unfolding pair by (rule listener_step_holds [OF _ refl ra [unfolded pair] row desired_keys_port])
          (use use p1 in \<open>simp_all add: P_def\<close>)
    qed
    ultimately show "P db2" by (simp add: P_def)
  qed
  then show ?thesis by (simp add: P_def holds_row_def)
qed

section \<open>Acquiring the ports of a tunnel\<close>

lemma insert_reference_row:
  assumes "insertReference i tag ref db = Inr (b, db')"
  shows "\<exists>r. r \<in> set (references db') \<and> referenceKey ref = Inr (r_key r) \<and> r_allocationId r = i"
proof -
  obtain k where k: "referenceKey ref = Inr k" using assms by (auto simp: insertReference_def ebind_Inr)
  show ?thesis
  proof (cases "referenceByKey db k")
    case None
    then show ?thesis using assms k by (auto simp: insertReference_def ebind_Inr)
  next
    case (Some r)
    then have "r \<in> set (references db)" "r_key r = k" by (auto simp: referenceByKey_def dest: find_SomeD)
    moreover have "r_allocationId r = i" "db' = db"
      using assms k Some by (auto simp: insertReference_def same_reference_def ebind_Inr ledger_simps split: if_splits)
    ultimately show ?thesis using k by auto
  qed
qed

lemma acquire_parts:
  assumes "acquireGlobalPortOwningReference sha256 token pv ow ref now1 now2 db = (Inr d, db')" "newListenerPort pv = Inr port"
  obtains (existing) g tag where "allocationForReference ref db = Inr (Some (d, g))" "dto_port d = port" "dto_status d = ACTIVE"
      "ownerTag ow = Inr tag" "dto_ownerTag d = Some tag" "db' = db"
  | (attached) a dx where "allocationByPort db port = Some a" "allocationDto a = Inr dx"
      "addActiveGlobalPortOwningReference (jint (dto_allocationId dx)) (jint (dto_version dx)) ow ref now1 db = Inr (d, db')"
  | (reserved) rd tok db1 where "reserveGlobalPortAllocation sha256 token (jint port) ow now1 None db = Inr ((rd, tok), db1)"
      "activateReservedGlobalPortAllocation sha256 (jint (dto_allocationId rd)) (jint (dto_version rd)) ow tok [ref] now2 db1
         = Inr (d, db')"
proof -
  note def = acquireGlobalPortOwningReference_def assms(2)
  obtain loc where loc: "allocationForReference ref db = Inr loc"
    using assms(1) by (cases "allocationForReference ref db") (auto simp: def)
  show ?thesis
  proof (cases loc)
    case (Some x)
    then obtain dx g where x: "loc = Some (dx, g)" by (cases x) simp
    have "(if dto_port dx \<noteq> port \<or> dto_status dx \<noteq> ACTIVE \<or> dto_ownerType dx \<noteq> Some (owner_type ow)
            then Inl GLOBAL_PORT_CONFLICT
            else ebind (ownerTag ow) (\<lambda>tag. if dto_ownerTag dx \<noteq> Some tag then Inl GLOBAL_PORT_CONFLICT else Inr dx)) = Inr d"
      and db': "db' = db"
      using assms(1) loc x by (simp_all add: def)
    then obtain tag where "dto_port dx = port" "dto_status dx = ACTIVE" "ownerTag ow = Inr tag" "dto_ownerTag dx = Some tag" "d = dx"
      by (auto simp: throw_simps)
    then show ?thesis using existing [OF _ _ _ _ _ db'] loc x by blast
  next
    case None
    obtain cur where cur: "inspectGlobalPortAllocation (jint port) db = Inr cur"
      using assms(1) loc None by (cases "inspectGlobalPortAllocation (jint port) db") (auto simp: def)
    have stored: "allocationByPort db port = Some a \<and> allocationDto a = Inr dx" if "cur = Some dx" "allocationByPort db port = Some a" for a dx
      using cur that by (auto simp: inspectGlobalPortAllocation_def throw_simps ledger_simps)
    show ?thesis
    proof (cases "\<exists>dx. cur = Some dx \<and> dto_status dx = ACTIVE")
      case True
      then obtain dx where dx: "cur = Some dx" "dto_status dx = ACTIVE" by auto
      obtain a where "allocationByPort db port = Some a"
        using cur dx by (auto simp: inspectGlobalPortAllocation_def throw_simps ledger_simps split: option.splits)
      then show ?thesis
        using assms(1) loc None cur dx attached stored [OF dx(1)]
        by (auto simp: def split: sum.splits)
    next
      case False
      then show ?thesis
        using assms(1) loc None cur reserved
        by (cases cur) (auto simp: def split: sum.splits prod.splits)
    qed
  qed
qed

lemma reserve_keeps:
  assumes r: "reserveGlobalPortAllocation sha256 token pv ow nowV ttlV db = Inr (x, db')" and tab: "tables_inv db"
  shows "keeps_except K db db'"
  using r
proof (cases rule: reserve_cases)
  case (new port now ttl tag h)
  have "allocationById db' j = Some a" if "allocationById db j = Some a" for j a
    using that by (simp add: allocationById_def new(7) find_snoc)
  then show ?thesis by (auto simp: keeps_except_def listens_Some new(7))
next
  case (reuse port now ttl tag h a)
  show ?thesis by (rule update_keeps [OF reuse(9)]) simp_all
qed

lemma activate_keeps_and_listens:
  assumes a: "activateReservedGlobalPortAllocation sha256 (jint i) vV ow token [ref] nowV db = Inr (d, db')"
    and tab: "tables_inv db" and row: "allocationById db i = Some row"
  shows "keeps_except K db db'"
    "\<exists>r tag. ownerTag ow = Inr tag \<and> referenceKey ref = Inr (r_key r) \<and> listens db' r = Some (a_port row, Some tag)"
proof -
  obtain v now tag u db1 where *: "ownerTag ow = Inr tag" "owned_by row (owner_type ow) tag"
      "insertReference i tag ref db = Inr (u, db1)"
      "update_and_read i v RESERVED
         (\<lambda>r. bump now (r\<lparr>a_status := Text ACTIVE, a_tokenHash := None, a_reservedUntil := None\<rparr>)) db1 = Inr (d, db')"
    using a row
    by (auto simp: activateReservedGlobalPortAllocation_def ebind_Inr expect_row_Inr validDate_def ledger_simps
        split: if_splits option.splits)
  note ins = insert_reference_keeps [OF *(3)]
  show "keeps_except K db db'" by (rule update_keeps [OF *(4) ins(1)]) (use ins(2) in auto)
  obtain r where r: "r \<in> set (references db1)" "referenceKey ref = Inr (r_key r)" "r_allocationId r = i"
    using insert_reference_row [OF *(3)] by auto
  have t1: "tables_inv db1"
    by (rule insertReferenceD [OF *(3) tab allocationById_mem [OF row]]) (use tab in simp_all)
  have row1: "allocationById db1 i = Some row" using row allocationById_cong [OF ins(1)] by simp
  have "allocationById db' i = Some (bump now (row\<lparr>a_status := Text ACTIVE, a_tokenHash := None, a_reservedUntil := None\<rparr>))
      \<and> references db' = references db1"
    by (rule update_and_readD [OF *(4) t1]) (use row1 in auto)
  then have "listens db' r = Some (a_port row, Some tag)" using r *(2) by (simp add: listens_Some owned_by_def)
  then show "\<exists>r tag. ownerTag ow = Inr tag \<and> referenceKey ref = Inr (r_key r) \<and> listens db' r = Some (a_port row, Some tag)"
    using *(1) r(2) by blast
qed

lemma add_active_listens:
  assumes a: "addActiveGlobalPortOwningReference (jint i) vV ow ref nowV db = Inr (d, db')"
    and tab: "tables_inv db" and row: "allocationById db i = Some row"
  shows "\<exists>r tag. ownerTag ow = Inr tag \<and> referenceKey ref = Inr (r_key r) \<and> listens db' r = Some (a_port row, Some tag)"
proof -
  obtain v now tag b db1 where *: "ownerTag ow = Inr tag" "a_status row = Text ACTIVE" "owned_by row (owner_type ow) tag"
      "insertReference i tag ref db = Inr (b, db1)"
      "(if \<not> b then ebind (allocationDto row) (\<lambda>d. Inr (d, db1)) else update_and_read i v ACTIVE (bump now) db1) = Inr (d, db')"
    using a row by (auto simp: addActiveGlobalPortOwningReference_def ebind_Inr expect_row_Inr ledger_simps)
  note ins = insert_reference_keeps [OF *(4)]
  obtain r where r: "r \<in> set (references db1)" "referenceKey ref = Inr (r_key r)" "r_allocationId r = i"
    using insert_reference_row [OF *(4)] by auto
  have row1: "allocationById db1 i = Some row" using row allocationById_cong [OF ins(1)] by simp
  have l1: "listens db1 r = Some (a_port row, Some tag)" using r row1 *(2,3) by (simp add: listens_Some owned_by_def)
  have "listens db' r = Some (a_port row, Some tag)"
  proof (cases b)
    case True
    then have u: "update_and_read i v ACTIVE (bump now) db1 = Inr (d, db')" using *(5) by simp
    have "keeps_except {} db1 db'" by (rule update_keeps [OF u refl]) simp_all
    then show ?thesis using l1 by (rule keeps_exceptD) simp
  qed (use *(5) l1 in \<open>simp add: ebind_Inr\<close>)
  then show ?thesis using *(1) r(2) by blast
qed

lemma listens_located:
  assumes "allocationForReference ref db = Inr (Some (d, g))" "dto_status d = ACTIVE"
  shows "\<exists>r. referenceKey ref = Inr (r_key r) \<and> listens db r = Some (dto_port d, dto_ownerTag d)"
proof -
  obtain k r a where *: "referenceKey ref = Inr k" "referenceByKey db k = Some r" "allocationById db (r_allocationId r) = Some a"
    "allocationDto a = Inr d"
    using assms(1) by (auto simp: allocationForReference_def ebind_Inr split: option.splits)
  have "r \<in> set (references db)" "r_key r = k" using *(2) by (auto simp: referenceByKey_def dest: find_SomeD)
  then show ?thesis using *(1,3) allocationDto_fields [OF *(4)] assms(2)
    by (intro exI [of _ r]) (simp add: listens_Some)
qed

lemma acquire_result:
  assumes a: "acquireGlobalPortOwningReference sha256 token (jint port) ow ref (Some now1) (Some now2) db = (Inr d, db')"
    and tab: "tables_inv db"
  shows "keeps_except {} db db'"
    "\<exists>r tag. ownerTag ow = Inr tag \<and> referenceKey ref = Inr (r_key r) \<and> listens db' r = Some (port, Some tag)"
proof -
  obtain port' where "newListenerPort (jint port) = Inr port'"
    using a by (cases "newListenerPort (jint port)") (auto simp: acquireGlobalPortOwningReference_def)
  moreover from this have "port' = port" by (auto simp: newListenerPort_def throw_simps ledger_simps)
  ultimately have p: "newListenerPort (jint port) = Inr port" by simp
  from a p show "keeps_except {} db db'"
    "\<exists>r tag. ownerTag ow = Inr tag \<and> referenceKey ref = Inr (r_key r) \<and> listens db' r = Some (port, Some tag)"
  proof (atomize (full), cases rule: acquire_parts)
    case (existing g tag)
    then show "keeps_except {} db db' \<and>
      (\<exists>r tag. ownerTag ow = Inr tag \<and> referenceKey ref = Inr (r_key r) \<and> listens db' r = Some (port, Some tag))"
      using listens_located [OF existing(1)] by simp
  next
    case (attached al dx)
    note f = allocationDto_fields [OF attached(2)]
    have al: "allocationById db (dto_allocationId dx) = Some al" "a_port al = port"
      using attached(1) tab f by (simp_all add: allocationByPort_iff allocationById_iff)
    show "keeps_except {} db db' \<and>
      (\<exists>r tag. ownerTag ow = Inr tag \<and> referenceKey ref = Inr (r_key r) \<and> listens db' r = Some (port, Some tag))"
      using add_active_keeps [OF attached(3)] add_active_listens [OF attached(3) tab al(1)] al(2) by simp
  next
    case (reserved rd tok db1)
    obtain al where al: "allocationById db1 (dto_allocationId rd) = Some al" "a_port al = port" "tables_inv db1"
      by (rule reserve_result [OF reserved(1) tab]) (use p in auto)
    show "keeps_except {} db db' \<and>
      (\<exists>r tag. ownerTag ow = Inr tag \<and> referenceKey ref = Inr (r_key r) \<and> listens db' r = Some (port, Some tag))"
      using keeps_except_trans [OF reserve_keeps [OF reserved(1) tab] activate_keeps_and_listens(1) [OF reserved(2) al(3,1)]]
        activate_keeps_and_listens(2) [OF reserved(2) al(3,1)] al(2) by simp
  qed
qed

definition holds_desired :: "ledger \<Rightarrow> DesiredTunnelPortReference \<Rightarrow> bool" where
  "holds_desired db item \<longleftrightarrow> (\<exists>r tag. ownerTag (dp_owner item) = Inr tag
     \<and> Inr (r_key r) \<in> {referenceKey (dp_reference item), referenceKey (stagedReferenceFor (dp_reference item))}
     \<and> listens db r = Some (dp_port item, Some tag))"

lemma holds_desired_keeps: "keeps_except {} db db' \<Longrightarrow> holds_desired db item \<Longrightarrow> holds_desired db' item"
  unfolding holds_desired_def keeps_except_def by blast

lemma committed_Inr:
  "(case x of (Inl e, _) \<Rightarrow> Inl e | (Inr d, db') \<Rightarrow> Inr (d, db')) = Inr (y, z) \<longleftrightarrow> x = (Inr y, z)"
  by (cases x; cases "fst x") auto

lemma acquire_desired_result:
  assumes "acquire_desired sha256 token (Some now1) (Some now2) item db = Inr (d, db')" "tables_inv db"
  shows "keeps_except {} db db'" "holds_desired db' item" "ledger_txn sha256 db db'"
proof -
  obtain ref where ref: "ref \<in> {dp_reference item, stagedReferenceFor (dp_reference item)}"
    and a: "acquireGlobalPortOwningReference sha256 token (jint (dp_port item)) (dp_owner item) ref (Some now1) (Some now2) db
      = (Inr d, db')"
    using assms(1) by (auto simp: acquire_desired_def ebind_Inr Let_def committed_Inr split: if_splits)
  show "keeps_except {} db db'" by (rule acquire_result(1) [OF a assms(2)])
  show "holds_desired db' item" using acquire_result(2) [OF a assms(2)] ref unfolding holds_desired_def by fastforce
  show "ledger_txn sha256 db db'" using a by (rule ledger_txn.intros(4))
qed

lemma acquire_all_result:
  assumes "acquire_all sha256 token clock n items db = Inr (u, db')" "tables_inv db"
  shows "keeps_except {} db db' \<and> (\<forall>item \<in> set items. holds_desired db' item) \<and> (ledger_txn sha256)\<^sup>*\<^sup>* db db'"
  using assms
proof (induction items arbitrary: n db)
  case (Cons item items)
  then obtain d db1 where
    1: "acquire_desired sha256 (token n) (Some (clock (2 * n))) (Some (clock (2 * n + 1))) item db = Inr (d, db1)"
    and 2: "acquire_all sha256 token clock (n + 1) items db1 = Inr (u, db')"
    by (auto simp: ebind_Inr)
  note one = acquire_desired_result [OF 1 Cons.prems(2)]
  have "tables_inv db1" by (rule moves_tables [OF ledger_txn_moves [OF one(3) Cons.prems(2)]])
  note rest = Cons.IH [OF 2 this]
  then show ?case
    using one keeps_except_trans [OF one(1)] holds_desired_keeps
    by (auto intro: converse_rtranclp_into_rtranclp)
qed simp

text \<open>C27: when saving a tunnel succeeds, every listener port that its configuration asks for is active in the ledger and
  belongs to the tunnel or rule that asked for it, either under the key of the listener itself or, while its old port is
  still held, under the key of a staged move; no reference that stood on an active port has moved or lost it, and the
  ledger stays consistent. The call returns the number of these listeners.\<close>

theorem ensure_holds_every_desired_port:
  assumes inv: "ledger_inv db"
    and run: "ensureTunnelDerivedGlobalPortReferences sha256 token clock tunnelId T db = Inr (n, db')"
  shows "ledger_inv db' \<and> (\<forall>r x. listens db r = Some x \<longrightarrow> listens db' r = Some x)
    \<and> (\<exists>desired. loadDesiredTunnelPortReferences (jint (positive_integer tunnelId)) JUndefined T = Inr desired
         \<and> n = length desired \<and> (\<forall>item \<in> set desired. holds_desired db' item))"
proof -
  have tab: "tables_inv db" using inv by (simp add: ledger_inv_def)
  obtain desired u where d: "loadDesiredTunnelPortReferences (jint (positive_integer tunnelId)) JUndefined T = Inr desired"
    "acquire_all sha256 token clock 0 desired db = Inr (u, db')" "n = length desired"
    using run by (auto simp: ensureTunnelDerivedGlobalPortReferences_def Let_def ebind_Inr split: if_splits)
  note all = acquire_all_result [OF d(2) tab]
  then show ?thesis using d(1,3) ledger_runs_inv [OF _ inv] by (auto simp: keeps_except_def)
qed

section \<open>Every row carries the key of its columns\<close>

lemma js_join_snoc: "xs \<noteq> [] \<Longrightarrow> js_join sep (xs @ [x]) = js_join sep xs @ sep @ x"
  by (induction sep xs rule: js_join.induct) auto

lemma ends_with_append: "ends_with suffix (s @ suffix)"
  by (simp add: ends_with_def)

lemma ends_with_last: "ends_with suffix s \<Longrightarrow> suffix \<noteq> [] \<Longrightarrow> last s = last suffix"
  unfolding ends_with_def by (metis last_drop length_greater_0_conv diff_less le_less_trans length_drop drop_eq_Nil not_le)

lemma key_slot_of_key:
  assumes "referenceKey i = Inr k"
  shows "key_slot k = in_slot i"
proof -
  define base where "base = [''global-port-ref'', ''v1'', resource_name (in_resourceType i), show_int (in_resourceId i),
      (case in_hostId i of None \<Rightarrow> ''host-none'' | Some h \<Rightarrow> ''host-'' @ show_int h), network_name (in_network i)]"
  have ne: "base \<noteq> []" by (simp add: base_def)
  have k: "k = js_join '':'' ((base @ [role_name (in_role i)]) @ (case in_slot i of None \<Rightarrow> [] | Some s \<Rightarrow> [slot_name s]))"
    using assms by (auto simp: referenceKey_def throw_simps reference_key_parts_def base_def)
  show ?thesis
  proof (cases "in_slot i")
    case None
    then have "k = js_join '':'' base @ '':'' @ role_name (in_role i)" using k ne by (simp add: js_join_snoc)
    then have "last k = last (role_name (in_role i))" by (cases "in_role i") simp_all
    then have "\<not> ends_with '':PRIMARY'' k" "\<not> ends_with '':MAPPED'' k"
      by (cases "in_role i"; auto dest: ends_with_last)+
    then show ?thesis using None by (simp add: key_slot_def)
  next
    case (Some s)
    then have "k = js_join '':'' (base @ [role_name (in_role i)]) @ ('':'' @ slot_name s)"
      using k js_join_snoc [of "base @ [role_name (in_role i)]" "'':''" "slot_name s"] by simp
    then have e: "ends_with ('':'' @ slot_name s) k" by (simp add: ends_with_append)
    show ?thesis
    proof (cases s)
      case SlotPrimary
      then show ?thesis using e Some by (simp add: key_slot_def)
    next
      case SlotMapped
      then have m: "ends_with '':MAPPED'' k" using e by simp
      then have "last k = CHR ''D''" by (auto dest: ends_with_last)
      then have "\<not> ends_with '':PRIMARY'' k" by (auto dest: ends_with_last)
      then show ?thesis using m Some SlotMapped by (simp add: key_slot_def)
    qed
  qed
qed

definition writes_keyed :: "ledger \<Rightarrow> ledger \<Rightarrow> bool" where
  "writes_keyed db db' \<longleftrightarrow> (\<forall>r \<in> set (references db'). r \<in> set (references db) \<or> well_keyed r)"

lemma writes_keyed_trans: "writes_keyed db db1 \<Longrightarrow> writes_keyed db1 db2 \<Longrightarrow> writes_keyed db db2"
  by (auto simp: writes_keyed_def)

lemma writes_keyed_subset: "set (references db') \<subseteq> set (references db) \<Longrightarrow> writes_keyed db db'"
  by (auto simp: writes_keyed_def)

lemma update_and_read_references:
  "update_and_read i v st f db = Inr (d, db') \<Longrightarrow> references db' = references db"
  by (auto simp: update_and_read_def cas_update_def ebind_Inr split: option.splits if_splits)

lemma insert_reference_writes_keyed:
  assumes "insertReference i tag ref db = Inr (b, db')"
  shows "writes_keyed db db'"
proof -
  obtain k where k: "referenceKey ref = Inr k" using assms by (auto simp: insertReference_def ebind_Inr)
  show ?thesis
  proof (cases "referenceByKey db k")
    case None
    obtain r where db': "references db' = references db @ [r]" and r: "r_key r = k" "r_resourceType r = in_resourceType ref"
      "r_resourceId r = in_resourceId ref" "r_hostId r = in_hostId ref" "r_network r = in_network ref" "r_role r = in_role ref"
      "r_isOwning r = in_isOwning ref"
      using assms k None by (auto simp: insertReference_def ebind_Inr ledger_simps split: option.splits)
    have "row_input r = ref" using r key_slot_of_key [OF k] by (simp add: row_input_def)
    then have "well_keyed r" using k r(1) by (simp add: well_keyed_def)
    then show ?thesis using db' by (simp add: writes_keyed_def)
  next
    case (Some r)
    then show ?thesis using assms k by (auto simp: insertReference_def ebind_Inr writes_keyed_def split: if_splits)
  qed
qed

lemma insert_references_write_keyed:
  "insertReferences i tag refs db = Inr (u, db') \<Longrightarrow> writes_keyed db db'"
proof (induction refs arbitrary: db)
  case (Cons ref refs)
  then obtain b db1 where "insertReference i tag ref db = Inr (b, db1)" "insertReferences i tag refs db1 = Inr (u, db')"
    by (auto simp: ebind_Inr)
  then show ?case using Cons.IH insert_reference_writes_keyed writes_keyed_trans by blast
qed (simp add: writes_keyed_def)

lemma update_writes_keyed:
  "update_and_read i v st f db1 = Inr (d, db') \<Longrightarrow> writes_keyed db db1 \<Longrightarrow> writes_keyed db db'"
  by (simp add: writes_keyed_def update_and_read_references)

lemma reserve_writes_keyed:
  assumes "reserveGlobalPortAllocation sha256 token pv ow nowV ttlV db = Inr (x, db')"
  shows "writes_keyed db db'"
  using assms
proof (cases rule: reserve_cases)
  case (reuse port now ttl tag h a)
  then show ?thesis by (intro writes_keyed_subset) (simp add: update_and_read_references)
qed (simp add: writes_keyed_def)

lemma activate_writes_keyed:
  assumes "activateReservedGlobalPortAllocation sha256 iV vV ow token refs nowV db = Inr (d, db')"
  shows "writes_keyed db db'"
  using assms
  by (auto simp: activateReservedGlobalPortAllocation_def throw_simps
      intro: update_writes_keyed insert_references_write_keyed split: if_splits)

lemma attach_writes_keyed:
  assumes "insertReference i tag ref db = Inr (b, db1)"
    "(if \<not> b then ebind (allocationDto row) (\<lambda>d. Inr (d, db1)) else update_and_read i v st f db1) = Inr (d, db')"
  shows "writes_keyed db db'"
  using assms insert_reference_writes_keyed [OF assms(1)]
  by (auto simp: ebind_Inr intro: update_writes_keyed split: if_splits)

lemma add_active_writes_keyed:
  "addActiveGlobalPortOwningReference iV vV ow ref nowV db = Inr (d, db') \<Longrightarrow> writes_keyed db db'"
  by (auto simp: addActiveGlobalPortOwningReference_def ebind_Inr intro: attach_writes_keyed)

lemma alias_writes_keyed:
  "attachGlobalPortTargetAlias iV vV src al ref nowV db = Inr (d, db') \<Longrightarrow> writes_keyed db db'"
  by (auto simp: attachGlobalPortTargetAlias_def throw_simps split: list.splits option.splits if_splits
      intro: attach_writes_keyed)

lemma begin_release_writes_keyed:
  "beginGlobalPortReferenceRelease ref vV nowV db = Inr (res, db') \<Longrightarrow> writes_keyed db db'"
  by (rule writes_keyed_subset)
    (auto simp: beginGlobalPortReferenceRelease_def throw_simps Let_def delete_reference_def
      split: option.splits if_splits dest!: update_and_read_references)

lemma confirm_release_writes_keyed:
  "confirmGlobalPortReferenceReleased ref vV nowV db = Inr (d, db') \<Longrightarrow> writes_keyed db db'"
  by (rule writes_keyed_subset)
    (auto simp: confirmGlobalPortReferenceReleased_def throw_simps delete_reference_def
      split: option.splits if_splits dest!: update_and_read_references)

lemma release_writes_keyed:
  assumes "releaseGlobalPortReferenceAfterRuntimeCleanup ref nowV db = Inr (res, db')"
  shows "writes_keyed db db'"
  using assms
proof (cases rule: release_parts)
  case (released vV now rel db1)
  then show ?thesis
    using begin_release_writes_keyed confirm_release_writes_keyed writes_keyed_trans by blast
qed (simp add: writes_keyed_def)

lemma unstage_writes_keyed:
  "attach_and_unstage ow i v nxt staged now db = Inr (d, db') \<Longrightarrow> writes_keyed db db'"
  by (auto simp: attach_and_unstage_def throw_simps split: option.splits if_splits
      intro: writes_keyed_trans [OF add_active_writes_keyed begin_release_writes_keyed])

lemma promote_writes_keyed:
  assumes "promoteStagedGlobalPortOwningReference ow public nxt staged nowV db = Inr (d, db')"
  shows "writes_keyed db db'"
  using assms
proof (cases rule: promote_parts)
  case (1 now vV rd db1 db2 i v nx)
  have "writes_keyed db db2"
    using 1(2) begin_release_writes_keyed [OF 1(1)]
    by (auto intro: writes_keyed_trans confirm_release_writes_keyed)
  then show ?thesis by (rule writes_keyed_trans [OF _ unstage_writes_keyed [OF 1(3)]])
qed

lemma promote_orphaned_writes_keyed:
  "promoteOrphanedStagedGlobalPortOwningReference ow nxt staged nowV db = Inr (d, db') \<Longrightarrow> writes_keyed db db'"
  by (auto simp: promoteOrphanedStagedGlobalPortOwningReference_def throw_simps split: if_splits intro: unstage_writes_keyed)

lemma acquire_writes_keyed:
  assumes "acquireGlobalPortOwningReference sha256 token pv ow ref now1 now2 db = (res, db')"
  shows "writes_keyed db db'"
proof -
  have act: "writes_keyed db db2" if "reserveGlobalPortAllocation sha256 token p ow now1 None db = Inr (r, db1)"
    "activateReservedGlobalPortAllocation sha256 i v ow tok [ref] now2 db1 = Inr (d, db2)" for p r db1 i v tok d db2
    by (rule writes_keyed_trans [OF reserve_writes_keyed [OF that(1)] activate_writes_keyed [OF that(2)]])
  show ?thesis
    using assms act reserve_writes_keyed add_active_writes_keyed writes_keyed_subset [OF subset_refl]
    by (auto simp: acquireGlobalPortOwningReference_def split: sum.splits option.splits prod.splits if_splits)
qed

lemma recover_writes_keyed: "recoverExpiredGlobalPortReservations nowV db = Inr (n, db') \<Longrightarrow> writes_keyed db db'"
  by (auto simp: recoverExpiredGlobalPortReservations_def throw_simps writes_keyed_def)

lemma ledger_txn_writes_keyed: "ledger_txn sha256 db db' \<Longrightarrow> writes_keyed db db'"
  by (erule ledger_txn.cases)
    (auto intro: reserve_writes_keyed activate_writes_keyed add_active_writes_keyed acquire_writes_keyed alias_writes_keyed
      begin_release_writes_keyed confirm_release_writes_keyed release_writes_keyed promote_writes_keyed
      promote_orphaned_writes_keyed recover_writes_keyed)

text \<open>C29: the key of a reference row is at all times the key of its own columns, with its slot read off the end of the
  key: whatever sequence of ledger transactions has run, every row can be turned back into the reference it was written
  for, so no row is invisible to the reconciliation because its key and its columns disagree.\<close>

theorem references_stay_well_keyed:
  assumes "(ledger_txn sha256)\<^sup>*\<^sup>* db db'" "list_all well_keyed (references db)"
  shows "list_all well_keyed (references db')
    \<and> (\<forall>r \<in> set (references db'). tunnel_resource (r_resourceType r) \<longrightarrow> r_role r \<noteq> RoleTarget
         \<longrightarrow> r_isOwning r \<longrightarrow> r_hostId r \<noteq> None \<longrightarrow> rowReference r = Some (row_input r))"
proof -
  have "list_all well_keyed (references db')"
    using assms
  proof (induction rule: rtranclp_induct)
    case (step db1 db2)
    then show ?case using ledger_txn_writes_keyed [OF step.hyps(2)] by (auto simp: writes_keyed_def list_all_iff)
  qed
  moreover have "rowReference r = Some (row_input r)"
    if wk: "well_keyed r" and "tunnel_resource (r_resourceType r)" "r_role r \<noteq> RoleTarget" "r_isOwning r"
      and host: "r_hostId r \<noteq> None" for r
  proof -
    obtain h where h: "r_hostId r = Some h" using host by blast
    have "0 < r_resourceId r" "r_resourceId r \<le> MAX_SAFE_INTEGER" "0 < h" "h \<le> MAX_SAFE_INTEGER"
      using wk h by (auto simp: well_keyed_def row_input_def referenceKey_def throw_simps ledger_simps)
    then show ?thesis
      using that h by (simp add: rowReference_def owning_reference_def row_input_def well_keyed_def jopt_def)
  qed
  ultimately show ?thesis by (auto simp: list_all_iff)
qed

text \<open>A staged move is found again. For every listener the configuration asks for, the reference under which a
  changed port is staged has a key of its own, and the target that the reconciliation computes from the staged row is
  exactly the listener it was staged for.\<close>

theorem staged_reference_roundtrip:
  assumes "loadDesiredTunnelPortReferences tunnelId hostId T = Inr desired" "item \<in> set desired"
    and "r_resourceType row = in_resourceType (dp_reference item)"
  shows "\<exists>slot k ks. in_slot (stagedReferenceFor (dp_reference item)) = Some slot
    \<and> staged_target row (stagedReferenceFor (dp_reference item)) slot = dp_reference item
    \<and> referenceKey (dp_reference item) = Inr k \<and> referenceKey (stagedReferenceFor (dp_reference item)) = Inr ks \<and> ks \<noteq> k"
proof -
  define ref where "ref = dp_reference item"
  note s = load_desired_shape [OF assms(1,2), folded ref_def]
  have sh: "in_resourceId ref \<le> MAX_SAFE_INTEGER" "in_isOwning ref" "tunnel_resource (in_resourceType ref)"
      "in_role ref = RolePublicListener \<or> in_role ref = RoleMimic"
      "in_role ref = RoleMimic \<longrightarrow> in_resourceType ref \<in> {ResTunnel, ResTunnelExitNode, ResTunnelHop}"
      "in_slot ref = (if in_resourceType ref = ResForwardRule then Some SlotPrimary
                      else if in_resourceType ref = ResForwardRuleTunnelExit then Some SlotMapped else None)"
    using s(1) by (simp_all add: desired_shape_def Let_def ref_def)
  obtain h where h: "in_hostId ref = Some h" "h \<le> MAX_SAFE_INTEGER" "0 < h"
    using s(1,3) by (auto simp: desired_shape_def Let_def ref_def)
  define st where "st = stagedReferenceFor ref"
  have "in_slot st \<noteq> None" by (simp add: st_def stagedReferenceFor_def split: option.split)
  then obtain slot where slot: "in_slot st = Some slot" by blast
  have role: "staged_target_role row slot = in_role ref"
    using slot sh(3-6) assms(3)
    by (auto simp: st_def stagedReferenceFor_def staged_target_role_def tunnel_resource_def ref_def split: if_splits)
  have "(if in_resourceType ref = ResForwardRule \<or> in_resourceType ref = ResForwardRuleTunnelExit then Some slot else None) = in_slot ref"
    using slot sh(4-6) by (auto simp: st_def stagedReferenceFor_def split: if_splits)
  then have tgt: "staged_target row st slot = ref"
    using role by (simp add: staged_target_def Let_def st_def stagedReferenceFor_def)
  have keyed: "\<exists>k. referenceKey x = Inr k" if "in_resourceId x = in_resourceId ref" "in_hostId x = in_hostId ref" for x
    using that sh(1) h s(2) by (simp add: referenceKey_def ebind_Inr ledger_simps)
  obtain k ks where k: "referenceKey ref = Inr k" "referenceKey st = Inr ks"
    using keyed [of ref] keyed [of st] by (auto simp: st_def stagedReferenceFor_def)
  have "ks \<noteq> k"
    using reference_key_injective [of ref k st] k sh(4) by (auto simp: st_def stagedReferenceFor_def)
  then show ?thesis using slot tgt k unfolding st_def ref_def by blast
qed

section \<open>A tunnel that moves to another port\<close>

definition sample_tables :: "int \<Rightarrow> tunnel_tables" where
  "sample_tables p = \<lparr>tunnels = [\<lparr>tn_id = 3, tn_exitHostId = 5, tn_mode = ''tls'', tn_forwardxVersion = ''v1'',
       tn_listenPort = p, tn_mimicPort = 0\<rparr>],
     tunnel_exit_nodes = [], tunnel_hops = [], forward_rules = [], forward_rule_tunnel_exits = []\<rparr>"

definition sample_snapshot :: "int \<Rightarrow> runtime_snapshot" where
  "sample_snapshot p = \<lparr>sn_hostId = inum 5, sn_completeSnapshot = True,
     sn_tunnels = [\<lparr>rt_port = inum p, rt_tunnelId = inum 3, rt_udpPort = None\<rparr>], sn_rules = []\<rparr>"

definition sample_allocation :: "int \<Rightarrow> int \<Rightarrow> AllocationRow" where
  "sample_allocation i p = \<lparr>a_id = i, a_port = p, a_status = Text ACTIVE, a_ownerType = Some (Text OwnTunnel),
     a_ownerTag = Some ''tunnel:3'', a_tokenHash = None, a_reservedUntil = None, a_scanNotBefore = None,
     a_lastScanStartedAt = None, a_lastScanFinishedAt = None, a_lastErrorCode = None, a_version = 2, a_updatedAt = 0\<rparr>"

definition sample_listener :: ReferenceRow where
  "sample_listener = \<lparr>r_id = 1, r_key = ''global-port-ref:v1:TUNNEL:3:host-5:TCP:PUBLIC_LISTENER'', r_allocationId = 1,
     r_resourceType = ResTunnel, r_resourceId = 3, r_ownerGroupTag = ''tunnel:3'', r_hostId = Some 5, r_network = RefTcp,
     r_role = RolePublicListener, r_isOwning = True\<rparr>"

definition sample_staged :: ReferenceRow where
  "sample_staged = sample_listener\<lparr>r_id := 2, r_key := ''global-port-ref:v1:TUNNEL:3:host-5:TCP:OWNERSHIP:PRIMARY'',
     r_allocationId := 2, r_role := RoleOwnership\<rparr>"

definition sample_saved :: ledger where
  "sample_saved = sample_empty\<lparr>allocations := [sample_allocation 1 20000], references := [sample_listener],
     next_allocation := 2, next_reference := 2\<rparr>"

definition sample_moving :: ledger where
  "sample_moving = sample_empty\<lparr>allocations := [sample_allocation 1 20000, sample_allocation 2 21000],
     references := [sample_listener, sample_staged], next_allocation := 3, next_reference := 3\<rparr>"

lemma sample_save:
  "ensureTunnelDerivedGlobalPortReferences sample_sha (\<lambda>_. sample_token) int (jint 3) (sample_tables 20000) sample_empty
     = Inr (1, sample_saved)"
  by code_simp

lemma sample_move:
  "ensureTunnelDerivedGlobalPortReferences sample_sha (\<lambda>_. sample_token) int (jint 3) (sample_tables 21000) sample_saved
     = Inr (1, sample_moving)"
  by code_simp

lemma sample_invariants: "ledger_inv sample_empty" "ledger_inv sample_saved" "ledger_inv sample_moving"
  "list_all well_keyed (references sample_moving)"
  by code_simp+

text \<open>The second loop of the reconciliation works on the rows read before the first loop ran. When the first loop has
  just moved the key of a listener from its old port to the new one, the second loop still sees the old row, finds that
  the old port is neither wanted nor running, and releases the key, which by now holds the new port. Here the tunnel is
  reported as running on its new port 21000 and is left with no port at all, and the port it listens on waits to be
  reclaimed.\<close>

theorem promoted_listener_released_at_once:
  "reconcileTunnelGlobalPortsAfterRuntimeSnapshot int (sample_snapshot 21000) (sample_tables 21000) sample_moving
     = (Inr (1, 1), sample_moving\<lparr>
          allocations := map (\<lambda>a. a\<lparr>a_status := Text PENDING_SCAN, a_ownerType := None, a_ownerTag := None,
             a_scanNotBefore := Some 43200, a_version := (if a_id a = 1 then 4 else 6)\<rparr>) (allocations sample_moving),
          references := [], next_reference := 4\<rparr>)"
  by code_simp

theorem reconcile_keeps_listeners_in_use_witness:
  "\<exists>res db'. reconcileTunnelGlobalPortsAfterRuntimeSnapshot int (sample_snapshot 20000) (sample_tables 21000) sample_moving = (res, db')
     \<and> ledger_inv db' \<and> listens db' sample_listener = Some (20000, Some ''tunnel:3'')
     \<and> listens db' sample_staged = Some (21000, Some ''tunnel:3'')"
proof -
  obtain res db' where run:
    "reconcileTunnelGlobalPortsAfterRuntimeSnapshot int (sample_snapshot 20000) (sample_tables 21000) sample_moving = (res, db')"
    by fastforce
  have "listens sample_moving sample_listener = Some (20000, Some ''tunnel:3'')" by code_simp
  moreover have "listener_in_use (sample_snapshot 20000) (desired_keys (sample_snapshot 20000) (sample_tables 21000)) sample_listener 20000"
    by code_simp
  ultimately have "ledger_inv db' \<and> listens db' sample_listener = Some (20000, Some ''tunnel:3'')"
    by (intro reconcile_keeps_listeners_in_use [OF sample_invariants(3,4) run]) simp_all
  moreover have "listens sample_moving sample_staged = Some (21000, Some ''tunnel:3'')" by code_simp
  moreover have "staged_in_use (sample_snapshot 20000) (desired_keys (sample_snapshot 20000) (sample_tables 21000)) sample_staged 21000"
    by code_simp
  ultimately show ?thesis
    using run reconcile_keeps_listeners_in_use [OF sample_invariants(3,4) run, of sample_staged 21000] by auto
qed

definition sample_item :: DesiredTunnelPortReference where
  "sample_item = \<lparr>dp_port = 21000, dp_owner = TunnelOwner 3,
     dp_reference = owning_reference ResTunnel 3 5 RefTcp RolePublicListener None\<rparr>"

lemma sample_desired: "loadDesiredTunnelPortReferences (jint 3) JUndefined (sample_tables 21000) = Inr [sample_item]"
  by code_simp

theorem ensure_holds_every_desired_port_witness:
  "ensureTunnelDerivedGlobalPortReferences sample_sha (\<lambda>_. sample_token) int (jint 3) (sample_tables 21000) sample_saved
     = Inr (1, sample_moving)
   \<and> listens sample_moving sample_listener = Some (20000, Some ''tunnel:3'') \<and> holds_desired sample_moving sample_item"
proof -
  have p: "positive_integer (jint 3) = 3" by code_simp
  have "listens sample_saved sample_listener = Some (20000, Some ''tunnel:3'')" by code_simp
  then show ?thesis
    using ensure_holds_every_desired_port [OF sample_invariants(2) sample_move] sample_move sample_desired unfolding p by auto
qed

theorem references_stay_well_keyed_witness:
  "(ledger_txn sample_sha)\<^sup>*\<^sup>* sample_empty sample_active \<and> list_all well_keyed (references sample_active)"
proof -
  have run: "(ledger_txn sample_sha)\<^sup>*\<^sup>* sample_empty sample_active"
    using ledger_txn.intros(4) [OF sample_acquire] by blast
  have "list_all well_keyed (references sample_empty)" by (simp add: sample_empty_def)
  from references_stay_well_keyed [OF run this] run show ?thesis by blast
qed

theorem staged_reference_roundtrip_witness:
  "loadDesiredTunnelPortReferences (jint 3) JUndefined (sample_tables 21000) = Inr [sample_item]
     \<and> (\<exists>slot. staged_target sample_staged (stagedReferenceFor (dp_reference sample_item)) slot = dp_reference sample_item)"
proof -
  have "r_resourceType sample_staged = in_resourceType (dp_reference sample_item)"
    by (simp add: sample_staged_def sample_listener_def sample_item_def owning_reference_def)
  then show ?thesis using staged_reference_roundtrip [OF sample_desired, of sample_item sample_staged] sample_desired by auto
qed

end
