(* ===== verification/LinkAccess.thy ===== *)
theory LinkAccess
  imports Prelude
begin

text \<open>
  Access of users to links (server/linkAccessView.ts): from the hosts, tunnels and forward groups granted to a user, the
  scope of what the user may see and of what the user may select as the resource of a rule, the effect of traffic
  billing on it, the gate that an agent's rules pass, and the fields of a tunnel that a user gets to see.

  Rows and identifiers come from the database as values of any kind (\<open>jsval\<close>, \<open>JUndefined\<close> for a missing property). A
  JavaScript \<open>Set\<close> of identifiers is a list in insertion order, a \<open>Map\<close> an association list. A query that fails where the
  code has a fallback is \<open>None\<close>.
\<close>

section \<open>Rows and scopes\<close>

record TopologyGroup =
  tg_id :: jsval
  tg_entryGroupId :: jsval

record TopologyMember =
  tm_groupId :: jsval
  tm_memberType :: string
  tm_hostId :: jsval
  tm_tunnelId :: jsval
  tm_isEnabled :: jsval

record TopologyTunnel =
  tt_id :: jsval
  tt_entryHostId :: jsval
  tt_exitHostId :: jsval
  tt_entryGroupId :: jsval
  tt_exitGroupId :: jsval

record TopologyHop =
  th_tunnelId :: jsval
  th_hostId :: jsval

record TopologyExit =
  te_tunnelId :: jsval
  te_hostId :: jsval
  te_isEnabled :: jsval

record LinkAccessClosureInput =
  ci_hostIds :: "jsval list"
  ci_tunnelIds :: "jsval list"
  ci_groupIds :: "jsval list"
  ci_groups :: "TopologyGroup list"
  ci_members :: "TopologyMember list"
  ci_tunnels :: "TopologyTunnel list"
  ci_tunnelHops :: "TopologyHop list"
  ci_tunnelExitNodes :: "TopologyExit list"

record LinkAccessScope =
  ls_hostIds :: "int list"
  ls_tunnelIds :: "int list"
  ls_groupIds :: "int list"
  ls_useHostIds :: "int list option"
  ls_useTunnelIds :: "int list option"
  ls_useGroupIds :: "int list option"
  ls_groupHostIds :: "(int \<times> int list) list option"
  ls_groupTunnelIds :: "(int \<times> int list) list option"

fun dbBool :: "jsval \<Rightarrow> bool \<Rightarrow> bool" where
  "dbBool JUndefined fallback = fallback"
| "dbBool JNull fallback = fallback"
| "dbBool (JBool b) fallback = b"
| "dbBool (JNum x) fallback = num_eq x (inum 1)"
| "dbBool (JStr s) fallback = (if s = [] then fallback else s = ''1'' \<or> js_lower (js_trim s) = ''true'')"

definition positive_ids :: "jsval list \<Rightarrow> int list" where
  "positive_ids vs = add_positive_ids vs []"

definition use_ids :: "int list option \<Rightarrow> int list \<Rightarrow> int list" where
  "use_ids useIds ids = (case useIds of None \<Rightarrow> ids | Some xs \<Rightarrow> xs)"

section \<open>Expanding grants to the topology\<close>

record topology =
  tp_groupsById :: "(int \<times> TopologyGroup) list"
  tp_membersByGroupId :: "(int \<times> TopologyMember list) list"
  tp_tunnelsById :: "(int \<times> TopologyTunnel) list"
  tp_tunnelHostIdsByTunnel :: "(int \<times> int list) list"
  tp_directTunnelIds :: "int list"

definition alist_get :: "int \<Rightarrow> (int \<times> 'a list) list \<Rightarrow> 'a list" where
  "alist_get k m = (case map_of m k of None \<Rightarrow> [] | Some xs \<Rightarrow> xs)"

definition addTunnelHost :: "jsval \<Rightarrow> jsval \<Rightarrow> (int \<times> int list) list \<Rightarrow> (int \<times> int list) list" where
  "addTunnelHost tunnelId hostId m =
     (let tunnel = positive_id tunnelId; host = positive_id hostId in
      if tunnel \<le> 0 \<or> host \<le> 0 then m else alist_set tunnel (set_add host (alist_get tunnel m)) m)"

definition enabled_row :: "jsval \<Rightarrow> bool" where
  "enabled_row isEnabled \<longleftrightarrow> \<not> (isEnabled \<noteq> JUndefined \<and> \<not> dbBool isEnabled True)"

definition groups_by_id :: "TopologyGroup list \<Rightarrow> (int \<times> TopologyGroup) list" where
  "groups_by_id groups = fold (\<lambda>g m. let i = positive_id (tg_id g) in if i > 0 then alist_set i g m else m) groups []"

definition members_by_group :: "TopologyMember list \<Rightarrow> (int \<times> TopologyMember list) list" where
  "members_by_group members = fold (\<lambda>mb m. let g = positive_id (tm_groupId mb) in
     if g \<le> 0 then m else alist_set g (alist_get g m @ [mb]) m) members []"

definition tunnels_by_id :: "TopologyTunnel list \<Rightarrow> (int \<times> TopologyTunnel) list" where
  "tunnels_by_id tns = fold (\<lambda>t m. let i = positive_id (tt_id t) in if i > 0 then alist_set i t m else m) tns []"

definition topology_of :: "LinkAccessClosureInput \<Rightarrow> topology" where
  "topology_of input =
     (let tns = tunnels_by_id (ci_tunnels input);
          hs = fold (\<lambda>(_, t) m. addTunnelHost (tt_id t) (tt_exitHostId t) (addTunnelHost (tt_id t) (tt_entryHostId t) m)) tns [];
          hs = fold (\<lambda>h. addTunnelHost (th_tunnelId h) (th_hostId h)) (ci_tunnelHops input) hs;
          hs = fold (\<lambda>e m. if enabled_row (te_isEnabled e) then addTunnelHost (te_tunnelId e) (te_hostId e) m else m)
                 (ci_tunnelExitNodes input) hs
      in \<lparr>tp_groupsById = groups_by_id (ci_groups input), tp_membersByGroupId = members_by_group (ci_members input),
          tp_tunnelsById = tns, tp_tunnelHostIdsByTunnel = hs, tp_directTunnelIds = positive_ids (ci_tunnelIds input)\<rparr>)"

record closure_state =
  cs_hostIds :: "int list"
  cs_groupIds :: "int list"
  cs_pendingGroups :: "int list"
  cs_pendingTunnels :: "int list"
  cs_visitedGroups :: "int list"
  cs_visitedTunnels :: "int list"
  cs_groupHostIds :: "(int \<times> int list) list"
  cs_groupTunnelIds :: "(int \<times> int list) list"

text \<open>An array with a reading index is the list of the elements not read yet.\<close>

definition push_group :: "int \<Rightarrow> closure_state \<Rightarrow> closure_state" where
  "push_group g st = (if g > 0 \<and> g \<notin> set (cs_groupIds st)
     then st\<lparr>cs_groupIds := cs_groupIds st @ [g], cs_pendingGroups := cs_pendingGroups st @ [g]\<rparr> else st)"

definition member_step ::
  "topology \<Rightarrow> int list \<Rightarrow> TopologyMember \<Rightarrow> int list \<times> int list \<times> int list \<Rightarrow> int list \<times> int list \<times> int list" where
  "member_step T visitedTunnels member acc =
     (case acc of (groupHostScope, groupTunnelScope, pendingTunnels) \<Rightarrow>
      if \<not> enabled_row (tm_isEnabled member) then acc
      else if tm_memberType member = ''tunnel''
      then (let tunnelId = positive_id (tm_tunnelId member) in
            if tunnelId \<le> 0 \<or> map_of (tp_tunnelsById T) tunnelId = None then acc
            else (fold set_add (alist_get tunnelId (tp_tunnelHostIdsByTunnel T)) groupHostScope,
                  set_add tunnelId groupTunnelScope,
                  if tunnelId \<in> set visitedTunnels then pendingTunnels else pendingTunnels @ [tunnelId]))
      else (let hostId = positive_id (tm_hostId member) in
            if hostId > 0 then (set_add hostId groupHostScope, groupTunnelScope, pendingTunnels) else acc))"

definition entry_group :: "topology \<Rightarrow> int \<Rightarrow> int" where
  "entry_group T g = (case map_of (tp_groupsById T) g of None \<Rightarrow> 0 | Some grp \<Rightarrow> positive_id (tg_entryGroupId grp))"

definition visit_group :: "topology \<Rightarrow> int \<Rightarrow> closure_state \<Rightarrow> closure_state" where
  "visit_group T g st =
     (if g \<le> 0 \<or> g \<in> set (cs_visitedGroups st) then st
      else let st1 = push_group (entry_group T g) (st\<lparr>cs_visitedGroups := cs_visitedGroups st @ [g]\<rparr>);
               (hs, ts, pend) = fold (member_step T (cs_visitedTunnels st)) (alist_get g (tp_membersByGroupId T))
                  (alist_get g (cs_groupHostIds st), alist_get g (cs_groupTunnelIds st), cs_pendingTunnels st)
           in st1\<lparr>cs_pendingTunnels := pend, cs_groupHostIds := alist_set g hs (cs_groupHostIds st),
                  cs_groupTunnelIds := alist_set g ts (cs_groupTunnelIds st)\<rparr>)"

definition visit_tunnel :: "topology \<Rightarrow> int \<Rightarrow> closure_state \<Rightarrow> closure_state" where
  "visit_tunnel T t st =
     (if t \<le> 0 \<or> t \<in> set (cs_visitedTunnels st) then st
      else let st1 = st\<lparr>cs_visitedTunnels := cs_visitedTunnels st @ [t],
                 cs_hostIds := (if t \<in> set (tp_directTunnelIds T)
                   then fold set_add (alist_get t (tp_tunnelHostIdsByTunnel T)) (cs_hostIds st) else cs_hostIds st)\<rparr>
           in case map_of (tp_tunnelsById T) t of None \<Rightarrow> st1
              | Some tunnel \<Rightarrow> push_group (positive_id (tt_exitGroupId tunnel)) (push_group (positive_id (tt_entryGroupId tunnel)) st1))"

text \<open>The groups that a topology can lead to: they bound the growth of the group set.\<close>

definition related_groups :: "topology \<Rightarrow> int set" where
  "related_groups T = (\<lambda>(_, g). positive_id (tg_entryGroupId g)) ` set (tp_groupsById T)
     \<union> (\<lambda>(_, t). positive_id (tt_entryGroupId t)) ` set (tp_tunnelsById T)
     \<union> (\<lambda>(_, t). positive_id (tt_exitGroupId t)) ` set (tp_tunnelsById T)"

abbreviation missing_groups :: "topology \<Rightarrow> closure_state \<Rightarrow> nat" where
  "missing_groups T st \<equiv> card (related_groups T - set (cs_groupIds st))"

lemma finite_related_groups [simp]: "finite (related_groups T)"
  by (simp add: related_groups_def)

lemma entry_group_related: "0 < entry_group T g \<Longrightarrow> entry_group T g \<in> related_groups T"
  by (force simp: entry_group_def related_groups_def split: option.splits dest: map_of_SomeD)

lemma push_group_cases:
  obtains "push_group g st = st" "0 < g \<longrightarrow> g \<in> set (cs_groupIds st)"
  | "0 < g" "g \<notin> set (cs_groupIds st)"
    "push_group g st = st\<lparr>cs_groupIds := cs_groupIds st @ [g], cs_pendingGroups := cs_pendingGroups st @ [g]\<rparr>"
  by (auto simp: push_group_def)

lemma missing_groups_add:
  assumes "g \<in> related_groups T" "g \<notin> set xs"
  shows "card (related_groups T - set (xs @ [g])) < card (related_groups T - set xs)"
  by (rule psubset_card_mono) (use assms in auto)

lemma visit_group_frame:
  "cs_groupIds (visit_group T g st) = cs_groupIds st \<and> cs_pendingGroups (visit_group T g st) = cs_pendingGroups st
   \<or> missing_groups T (visit_group T g st) < missing_groups T st"
proof (cases "0 < entry_group T g \<and> entry_group T g \<notin> set (cs_groupIds st)")
  case True
  then show ?thesis
    using missing_groups_add [OF entry_group_related, of T g "cs_groupIds st"]
    by (auto simp: visit_group_def push_group_def Let_def split: prod.split)
next
  case False
  then show ?thesis by (auto simp: visit_group_def push_group_def Let_def split: prod.split)
qed

function group_loop :: "topology \<Rightarrow> closure_state \<Rightarrow> closure_state" where
  "group_loop T st = (case cs_pendingGroups st of [] \<Rightarrow> st
     | g # rest \<Rightarrow> group_loop T (visit_group T (positive_id (JNum (inum g))) (st\<lparr>cs_pendingGroups := rest\<rparr>)))"
  by pat_completeness auto
termination
proof (relation "measures [\<lambda>(T, st). missing_groups T st, \<lambda>(T, st). length (cs_pendingGroups st)]")
  fix T and st :: closure_state and g rest
  assume p: "cs_pendingGroups st = g # rest"
  show "((T, visit_group T (positive_id (JNum (inum g))) (st\<lparr>cs_pendingGroups := rest\<rparr>)), T, st)
    \<in> measures [\<lambda>(T, st). missing_groups T st, \<lambda>(T, st). length (cs_pendingGroups st)]"
    using visit_group_frame [of T "positive_id (JNum (inum g))" "st\<lparr>cs_pendingGroups := rest\<rparr>"] p by auto
qed simp

fun tunnel_loop :: "topology \<Rightarrow> int list \<Rightarrow> closure_state \<Rightarrow> closure_state" where
  "tunnel_loop T [] st = st"
| "tunnel_loop T (t # ts) st = tunnel_loop T ts (visit_tunnel T (positive_id (JNum (inum t))) st)"

definition tunnel_pass :: "topology \<Rightarrow> closure_state \<Rightarrow> closure_state" where
  "tunnel_pass T st = tunnel_loop T (cs_pendingTunnels st) (st\<lparr>cs_pendingTunnels := []\<rparr>)"

text \<open>What the two inner loops leave behind.\<close>

lemma group_loop_measure:
  "cs_pendingGroups (group_loop T st) = [] \<and> missing_groups T (group_loop T st) \<le> missing_groups T st"
proof (induction T st rule: group_loop.induct)
  case (1 T st)
  show ?case
  proof (cases "cs_pendingGroups st")
    case (Cons g rest)
    then have "group_loop T st = group_loop T (visit_group T (positive_id (JNum (inum g))) (st\<lparr>cs_pendingGroups := rest\<rparr>))"
      by (simp add: group_loop.simps [of T st])
    then show ?thesis
      using "1.IH" [OF Cons] visit_group_frame [of T "positive_id (JNum (inum g))" "st\<lparr>cs_pendingGroups := rest\<rparr>"]
      by auto
  qed (simp add: group_loop.simps [of T st])
qed

lemma push_group_missing:
  "g \<in> related_groups T \<or> \<not> 0 < g \<Longrightarrow>
   push_group g st = st \<or> missing_groups T (push_group g st) < missing_groups T st"
  using missing_groups_add [of g T "cs_groupIds st"] by (auto simp: push_group_def)

lemma visit_tunnel_measure:
  "cs_pendingGroups (visit_tunnel T t st) = cs_pendingGroups st \<and> missing_groups T (visit_tunnel T t st) = missing_groups T st
   \<or> missing_groups T (visit_tunnel T t st) < missing_groups T st"
proof (cases "map_of (tp_tunnelsById T) t")
  case None
  then show ?thesis by (simp add: visit_tunnel_def Let_def)
next
  case (Some tn)
  have r: "positive_id (tt_entryGroupId tn) \<in> related_groups T" "positive_id (tt_exitGroupId tn) \<in> related_groups T"
    using map_of_SomeD [OF Some] by (force simp: related_groups_def)+
  define st1 where "st1 = st\<lparr>cs_visitedTunnels := cs_visitedTunnels st @ [t],
                 cs_hostIds := (if t \<in> set (tp_directTunnelIds T)
                   then fold set_add (alist_get t (tp_tunnelHostIdsByTunnel T)) (cs_hostIds st) else cs_hostIds st)\<rparr>"
  define st2 where "st2 = push_group (positive_id (tt_entryGroupId tn)) st1"
  have v: "visit_tunnel T t st = (if t \<le> 0 \<or> t \<in> set (cs_visitedTunnels st) then st
      else push_group (positive_id (tt_exitGroupId tn)) st2)"
    using Some by (simp add: visit_tunnel_def Let_def st1_def st2_def)
  have "cs_groupIds st1 = cs_groupIds st" "cs_pendingGroups st1 = cs_pendingGroups st" by (simp_all add: st1_def)
  then show ?thesis
    using push_group_missing [of "positive_id (tt_entryGroupId tn)" T st1]
      push_group_missing [of "positive_id (tt_exitGroupId tn)" T st2] r
    by (auto simp: v st2_def)
qed

lemma tunnel_loop_measure:
  "cs_pendingGroups (tunnel_loop T ts st) = cs_pendingGroups st \<and> missing_groups T (tunnel_loop T ts st) = missing_groups T st
   \<or> missing_groups T (tunnel_loop T ts st) < missing_groups T st"
proof (induction ts arbitrary: st)
  case (Cons t ts)
  show ?case
    using Cons.IH [of "visit_tunnel T (positive_id (JNum (inum t))) st"]
      visit_tunnel_measure [of T "positive_id (JNum (inum t))" st] by auto
qed simp

lemma push_group_tunnels [simp]: "cs_pendingTunnels (push_group g st) = cs_pendingTunnels st"
  by (simp add: push_group_def)

lemma tunnel_loop_pending: "cs_pendingTunnels (tunnel_loop T ts st) = cs_pendingTunnels st"
proof (induction ts arbitrary: st)
  case (Cons t ts)
  then show ?case by (simp add: visit_tunnel_def Let_def split: option.split)
qed simp

function expand_loop :: "topology \<Rightarrow> closure_state \<Rightarrow> closure_state" where
  "expand_loop T st = (if cs_pendingGroups st \<noteq> [] \<or> cs_pendingTunnels st \<noteq> []
     then expand_loop T (tunnel_pass T (group_loop T st)) else st)"
  by pat_completeness auto
termination
proof (relation "measures [\<lambda>(T, st). missing_groups T st, \<lambda>(T, st). length (cs_pendingGroups st) + length (cs_pendingTunnels st)]")
  fix T and st :: closure_state
  assume "cs_pendingGroups st \<noteq> [] \<or> cs_pendingTunnels st \<noteq> []"
  then show "((T, tunnel_pass T (group_loop T st)), T, st)
    \<in> measures [\<lambda>(T, st). missing_groups T st, \<lambda>(T, st). length (cs_pendingGroups st) + length (cs_pendingTunnels st)]"
    using group_loop_measure [of T st] tunnel_loop_pending
      tunnel_loop_measure [of T "cs_pendingTunnels (group_loop T st)" "group_loop T st\<lparr>cs_pendingTunnels := []\<rparr>"]
    by (auto simp: tunnel_pass_def)
qed simp

definition expandLinkAccessScope :: "LinkAccessClosureInput \<Rightarrow> LinkAccessScope" where
  "expandLinkAccessScope input =
     (let hostIds = positive_ids (ci_hostIds input); tunnelIds = positive_ids (ci_tunnelIds input);
          groupIds = positive_ids (ci_groupIds input);
          st = expand_loop (topology_of input)
                 \<lparr>cs_hostIds = hostIds, cs_groupIds = groupIds, cs_pendingGroups = groupIds, cs_pendingTunnels = tunnelIds,
                  cs_visitedGroups = [], cs_visitedTunnels = [], cs_groupHostIds = [], cs_groupTunnelIds = []\<rparr>
      in \<lparr>ls_hostIds = cs_hostIds st, ls_tunnelIds = tunnelIds, ls_groupIds = cs_groupIds st,
          ls_useHostIds = Some hostIds, ls_useTunnelIds = Some tunnelIds, ls_useGroupIds = Some groupIds,
          ls_groupHostIds = Some (cs_groupHostIds st), ls_groupTunnelIds = Some (cs_groupTunnelIds st)\<rparr>)"

section \<open>Traffic billing and the scope of a user\<close>

datatype billing_status = BillingDisabled | BillingReady | BillingDegraded | BillingFailed

record TrafficBillingResourceIds =
  br_hostIds :: "int list"
  br_tunnelIds :: "int list"
  br_forwardGroupIds :: "int list"

record TrafficBillingAccessSnapshot =
  bs_status :: billing_status
  bs_enabled :: bool
  bs_activeResourceIds :: TrafficBillingResourceIds
  bs_usableResourceIds :: TrafficBillingResourceIds

record BillingConfigRow =
  bc_resourceType :: string
  bc_resourceId :: int
  bc_requiresPermission :: bool
  bc_permissionId :: "int option"

definition emptyTrafficBillingResourceIds :: TrafficBillingResourceIds where
  "emptyTrafficBillingResourceIds = \<lparr>br_hostIds = [], br_tunnelIds = [], br_forwardGroupIds = []\<rparr>"

definition billing_ids :: "string \<Rightarrow> BillingConfigRow list \<Rightarrow> int list" where
  "billing_ids t rows = js_distinct (filter (\<lambda>i. i > 0) (map bc_resourceId (filter (\<lambda>r. bc_resourceType r = t) rows)))"

definition trafficBillingResourceIdsFromRows :: "BillingConfigRow list \<Rightarrow> TrafficBillingResourceIds" where
  "trafficBillingResourceIdsFromRows rows = \<lparr>br_hostIds = billing_ids ''host'' rows, br_tunnelIds = billing_ids ''tunnel'' rows,
     br_forwardGroupIds = billing_ids ''forward_group'' rows\<rparr>"

text \<open>The setting, the joined query of configurations with the permissions of the user, and the fallback query of the
  configurations alone; each may fail.\<close>

definition getTrafficBillingAccessSnapshot ::
  "bool option \<Rightarrow> BillingConfigRow list option \<Rightarrow> BillingConfigRow list option \<Rightarrow> TrafficBillingAccessSnapshot" where
  "getTrafficBillingAccessSnapshot billingEnabled joined configs =
     (let failing = (case configs of
            None \<Rightarrow> \<lparr>bs_status = BillingFailed, bs_enabled = True,
                     bs_activeResourceIds = emptyTrafficBillingResourceIds, bs_usableResourceIds = emptyTrafficBillingResourceIds\<rparr>
          | Some rows \<Rightarrow> \<lparr>bs_status = BillingDegraded, bs_enabled = True,
                     bs_activeResourceIds = trafficBillingResourceIdsFromRows rows,
                     bs_usableResourceIds = trafficBillingResourceIdsFromRows (filter (\<lambda>r. \<not> bc_requiresPermission r) rows)\<rparr>) in
      case billingEnabled of None \<Rightarrow> failing
      | Some False \<Rightarrow> \<lparr>bs_status = BillingDisabled, bs_enabled = False,
                     bs_activeResourceIds = emptyTrafficBillingResourceIds, bs_usableResourceIds = emptyTrafficBillingResourceIds\<rparr>
      | Some True \<Rightarrow>
          (case joined of None \<Rightarrow> failing
           | Some rows \<Rightarrow> \<lparr>bs_status = BillingReady, bs_enabled = True,
                     bs_activeResourceIds = trafficBillingResourceIdsFromRows rows,
                     bs_usableResourceIds = trafficBillingResourceIdsFromRows (filter (\<lambda>r. \<not> bc_requiresPermission r
                        \<or> (case bc_permissionId r of None \<Rightarrow> 0 | Some i \<Rightarrow> i) > 0) rows)\<rparr>))"

record SubscriptionGrant =
  sg_hostIds :: "jsval list"
  sg_tunnelIds :: "jsval list"
  sg_forwardGroupIds :: "jsval list"

record link_queries =
  lq_ownedHosts :: "jsval list option"
  lq_ownedTunnels :: "jsval list option"
  lq_ownedForwardGroups :: "jsval list option"
  lq_hostPermissions :: "jsval list option"
  lq_tunnelPermissions :: "jsval list option"
  lq_groupPermissions :: "jsval list option"
  lq_subscriptions :: "SubscriptionGrant list option"
  lq_billingSnapshot :: TrafficBillingAccessSnapshot
  lq_topologyGroups :: "TopologyGroup list option"
  lq_topologyMembers :: "TopologyMember list option"
  lq_topologyTunnels :: "TopologyTunnel list option"
  lq_topologyHops :: "TopologyHop list option"
  lq_topologyExits :: "TopologyExit list option"

definition safe :: "'a list option \<Rightarrow> 'a list" where
  "safe result = (case result of None \<Rightarrow> [] | Some rows \<Rightarrow> rows)"

definition subscription_ids :: "(SubscriptionGrant \<Rightarrow> jsval list) \<Rightarrow> SubscriptionGrant list option \<Rightarrow> jsval list" where
  "subscription_ids f subscriptions = map (\<lambda>v. JNum (to_number v)) (concat (map f (safe subscriptions)))"

definition closure_input :: "link_queries \<Rightarrow> LinkAccessClosureInput" where
  "closure_input Q =
     (let usable = bs_usableResourceIds (lq_billingSnapshot Q); jints = map (\<lambda>n. JNum (inum n)) in
      \<lparr>ci_hostIds = safe (lq_ownedHosts Q) @ safe (lq_hostPermissions Q) @ subscription_ids sg_hostIds (lq_subscriptions Q)
                      @ jints (br_hostIds usable),
       ci_tunnelIds = safe (lq_ownedTunnels Q) @ safe (lq_tunnelPermissions Q) @ subscription_ids sg_tunnelIds (lq_subscriptions Q)
                      @ jints (br_tunnelIds usable),
       ci_groupIds = safe (lq_ownedForwardGroups Q) @ safe (lq_groupPermissions Q)
                      @ subscription_ids sg_forwardGroupIds (lq_subscriptions Q) @ jints (br_forwardGroupIds usable),
       ci_groups = safe (lq_topologyGroups Q), ci_members = safe (lq_topologyMembers Q), ci_tunnels = safe (lq_topologyTunnels Q),
       ci_tunnelHops = safe (lq_topologyHops Q), ci_tunnelExitNodes = safe (lq_topologyExits Q)\<rparr>)"

definition bill_ids :: "int list \<Rightarrow> int list \<Rightarrow> int list \<Rightarrow> int list" where
  "bill_ids active usable useIds = fold (\<lambda>v acc. let i = positive_id (JNum (inum v)) in
     if i \<le> 0 then acc else if i \<in> set usable then set_add i acc else removeAll i acc) active useIds"

text \<open>The search for a member whose traffic is billed and not usable, along the chain of entry groups.\<close>

record billing_search =
  bq_groupsById :: "(int \<times> TopologyGroup) list"
  bq_membersByGroupId :: "(int \<times> TopologyMember list) list"
  bq_activeHosts :: "int list"
  bq_usableHosts :: "int list"
  bq_activeTunnels :: "int list"
  bq_usableTunnels :: "int list"

definition billed_denied :: "int list \<Rightarrow> int list \<Rightarrow> int \<Rightarrow> bool" where
  "billed_denied active usable i \<longleftrightarrow> i \<noteq> 0 \<and> i \<in> set active \<and> i \<notin> set usable"

definition denied_member :: "billing_search \<Rightarrow> TopologyMember \<Rightarrow> bool" where
  "denied_member S member \<longleftrightarrow>
     billed_denied (bq_activeHosts S) (bq_usableHosts S)
       (if tm_memberType member = ''host'' then positive_id (tm_hostId member) else 0)
     \<or> billed_denied (bq_activeTunnels S) (bq_usableTunnels S)
       (if tm_memberType member = ''tunnel'' then positive_id (tm_tunnelId member) else 0)"

definition next_group :: "billing_search \<Rightarrow> int \<Rightarrow> int" where
  "next_group S g = (case map_of (bq_groupsById S) g of None \<Rightarrow> 0 | Some grp \<Rightarrow> positive_id (tg_entryGroupId grp))"

function denied_loop :: "billing_search \<Rightarrow> int list \<Rightarrow> int list \<Rightarrow> bool" where
  "denied_loop S [] visited = False"
| "denied_loop S (p # pending) visited =
     (let g = positive_id (JNum (inum p)) in
      if g = 0 \<or> g \<in> set visited then denied_loop S pending visited
      else let entryGroupId = next_group S g;
               pending1 = (if entryGroupId \<noteq> 0 then pending @ [entryGroupId] else pending) in
           if list_ex (denied_member S) (alist_get g (bq_membersByGroupId S)) then True
           else denied_loop S pending1 (visited @ [g]))"
  by pat_completeness auto
termination
proof (relation "measures [\<lambda>(S, pending, visited). card (fst ` set (bq_groupsById S) - set visited), \<lambda>(S, pending, visited). length pending]", goal_cases)
  case (3 S p pending visited g e pending1)
  show ?case
  proof (cases "map_of (bq_groupsById S) g")
    case None
    then have "g \<notin> fst ` set (bq_groupsById S)" by (simp add: map_of_eq_None_iff)
    then have "fst ` set (bq_groupsById S) - set (visited @ [g]) = fst ` set (bq_groupsById S) - set visited" by auto
    then show ?thesis using 3 None by (simp add: next_group_def)
  next
    case (Some grp)
    then have "g \<in> fst ` set (bq_groupsById S)" by (force dest: map_of_SomeD)
    then have "card (fst ` set (bq_groupsById S) - set (visited @ [g])) < card (fst ` set (bq_groupsById S) - set visited)"
      using 3 by (intro psubset_card_mono) auto
    then show ?thesis by simp
  qed
qed auto

definition billing_search_of :: "link_queries \<Rightarrow> billing_search" where
  "billing_search_of Q =
     (let active = bs_activeResourceIds (lq_billingSnapshot Q); usable = bs_usableResourceIds (lq_billingSnapshot Q) in
      \<lparr>bq_groupsById = fold (\<lambda>g. alist_set (positive_id (tg_id g)) g) (safe (lq_topologyGroups Q)) [],
       bq_membersByGroupId = fold (\<lambda>mb m. if \<not> dbBool (tm_isEnabled mb) True then m
          else let g = positive_id (tm_groupId mb) in if g = 0 then m else alist_set g (alist_get g m @ [mb]) m)
          (safe (lq_topologyMembers Q)) [],
       bq_activeHosts = br_hostIds active, bq_usableHosts = br_hostIds usable,
       bq_activeTunnels = br_tunnelIds active, bq_usableTunnels = br_tunnelIds usable\<rparr>)"

definition groupHasDeniedBillingMember :: "link_queries \<Rightarrow> int \<Rightarrow> bool" where
  "groupHasDeniedBillingMember Q rootGroupId = denied_loop (billing_search_of Q) [rootGroupId] []"

definition loadLinkAccessScope :: "bool \<Rightarrow> link_queries \<Rightarrow> LinkAccessScope" where
  "loadLinkAccessScope dbAvailable Q =
     (if \<not> dbAvailable then \<lparr>ls_hostIds = [], ls_tunnelIds = [], ls_groupIds = [], ls_useHostIds = None, ls_useTunnelIds = None,
          ls_useGroupIds = None, ls_groupHostIds = Some [], ls_groupTunnelIds = Some []\<rparr>
      else
      let scope = expandLinkAccessScope (closure_input Q); snapshot = lq_billingSnapshot Q;
          active = bs_activeResourceIds snapshot; usable = bs_usableResourceIds snapshot;
          uh = use_ids (ls_useHostIds scope) (ls_hostIds scope); ut = use_ids (ls_useTunnelIds scope) (ls_tunnelIds scope);
          ug = use_ids (ls_useGroupIds scope) (ls_groupIds scope) in
      if bs_status snapshot = BillingFailed
      then scope\<lparr>ls_useHostIds := Some [], ls_useTunnelIds := Some [], ls_useGroupIds := Some []\<rparr>
      else if \<not> bs_enabled snapshot then scope
      else let uh = bill_ids (br_hostIds active) (br_hostIds usable) uh;
               ut = bill_ids (br_tunnelIds active) (br_tunnelIds usable) ut;
               ug = bill_ids (br_forwardGroupIds active) (br_forwardGroupIds usable) ug;
               ug = (if lq_topologyGroups Q = None \<or> lq_topologyMembers Q = None then []
                     else filter (\<lambda>g. \<not> groupHasDeniedBillingMember Q g) ug)
           in scope\<lparr>ls_useHostIds := Some uh, ls_useTunnelIds := Some ut, ls_useGroupIds := Some ug\<rparr>)"

section \<open>Rules of a user at run time\<close>

record RuntimeRule =
  ru_userId :: jsval
  ru_forwardGroupId :: jsval
  ru_tunnelId :: jsval
  ru_hostId :: jsval
  ru_isEnabled :: jsval
  ru_resourceAccessDenied :: jsval

record UserRow =
  us_id :: int
  us_role :: "string option"

definition canUseForwardRuleResource :: "'r RuntimeRule_scheme \<Rightarrow> LinkAccessScope option \<Rightarrow> bool" where
  "canUseForwardRuleResource rule scopeOpt =
     (case scopeOpt of None \<Rightarrow> True
      | Some scope \<Rightarrow>
          let groupId = positive_id (ru_forwardGroupId rule) in
          if groupId > 0 then groupId \<in> set (use_ids (ls_useGroupIds scope) (ls_groupIds scope))
          else let tunnelId = positive_id (ru_tunnelId rule) in
          if tunnelId > 0 then tunnelId \<in> set (use_ids (ls_useTunnelIds scope) (ls_tunnelIds scope))
          else let hostId = positive_id (ru_hostId rule) in
               hostId > 0 \<and> hostId \<in> set (use_ids (ls_useHostIds scope) (ls_hostIds scope)))"

definition getLinkAccessScope :: "(int \<Rightarrow> LinkAccessScope) \<Rightarrow> int \<Rightarrow> string \<Rightarrow> LinkAccessScope option" where
  "getLinkAccessScope load userId role = (if role = ''admin'' then None else Some (load userId))"

definition deny_rule :: "'r RuntimeRule_scheme \<Rightarrow> 'r RuntimeRule_scheme" where
  "deny_rule rule = rule\<lparr>ru_isEnabled := JBool False, ru_resourceAccessDenied := JBool True\<rparr>"

definition role_of :: "UserRow \<Rightarrow> string" where
  "role_of u = (case us_role u of None \<Rightarrow> ''user'' | Some r \<Rightarrow> if r = [] then ''user'' else r)"

text \<open>\<open>load\<close> gives the scope of a user, loaded or from the cache in front of \<open>loadLinkAccessScope\<close>.\<close>

definition gateForwardRulesForRuntime ::
  "bool \<Rightarrow> UserRow list \<Rightarrow> (int \<Rightarrow> LinkAccessScope) \<Rightarrow> 'r RuntimeRule_scheme list \<Rightarrow> 'r RuntimeRule_scheme list" where
  "gateForwardRulesForRuntime dbAvailable users load rules =
     (let userIds = js_distinct (filter (\<lambda>i. i > 0) (map (\<lambda>r. positive_id (ru_userId r)) rules)) in
      if userIds = [] then rules
      else if \<not> dbAvailable then map deny_rule rules
      else let userRows = filter (\<lambda>u. us_id u \<in> set userIds) users;
               roleByUserId = fold (\<lambda>u. alist_set (positive_id (JNum (inum (us_id u)))) (role_of u)) userRows [];
               scopeByUserId = map (\<lambda>i. (i, map_option (getLinkAccessScope load i) (map_of roleByUserId i))) userIds in
           map (\<lambda>rule. let allowed = (case map_of scopeByUserId (positive_id (ru_userId rule)) of
                    Some (Some scope) \<Rightarrow> canUseForwardRuleResource rule scope | _ \<Rightarrow> False)
                  in if allowed then rule else deny_rule rule) rules)"

section \<open>What a user sees of a tunnel\<close>

definition scope_number :: "jsval \<Rightarrow> jsnum" where
  "scope_number v = to_number (if truthy v then v else JNum (inum 0))"

definition has_number :: "int list \<Rightarrow> jsval \<Rightarrow> bool" where
  "has_number ids v \<longleftrightarrow> list_ex (\<lambda>i. scope_number v = inum i) ids"

definition allowedHost :: "LinkAccessScope \<Rightarrow> jsval \<Rightarrow> bool" where
  "allowedHost scope hostId \<longleftrightarrow> num_lt (inum 0) (scope_number hostId) \<and> has_number (ls_hostIds scope) hostId"

definition null_if_nullish :: "jsval \<Rightarrow> jsval" where
  "null_if_nullish v = (if is_nullish v then JNull else v)"

text \<open>The fields of a host that a shared link shows; the extension of the record stands for all others.\<close>

record EndpointHost =
  eh_id :: jsval
  eh_name :: jsval
  eh_ip :: jsval
  eh_ipv4 :: jsval
  eh_ipv6 :: jsval
  eh_entryIp :: jsval
  eh_tunnelEntryIp :: jsval
  eh_ddnsEnabled :: jsval
  eh_ddnsDomain :: jsval
  eh_isOnline :: jsval
  eh_lastHeartbeat :: jsval

definition filterTunnelEndpointHost :: "'h EndpointHost_scheme option \<Rightarrow> EndpointHost option" where
  "filterTunnelEndpointHost hostOpt = map_option (\<lambda>host.
     \<lparr>eh_id = eh_id host, eh_name = eh_name host, eh_ip = eh_ip host, eh_ipv4 = eh_ipv4 host, eh_ipv6 = eh_ipv6 host,
      eh_entryIp = eh_entryIp host, eh_tunnelEntryIp = eh_tunnelEntryIp host,
      eh_ddnsEnabled = JBool (truthy (eh_ddnsEnabled host)), eh_ddnsDomain = null_if_nullish (eh_ddnsDomain host),
      eh_isOnline = JBool (truthy (eh_isOnline host)), eh_lastHeartbeat = null_if_nullish (eh_lastHeartbeat host)\<rparr>) hostOpt"

record 'h GroupMember =
  gm_id :: jsval
  gm_groupId :: jsval
  gm_memberType :: jsval
  gm_hostId :: jsval
  gm_tunnelId :: jsval
  gm_priority :: jsval
  gm_isEnabled :: jsval
  gm_chinaHealthStatus :: jsval
  gm_host :: "'h option"

record 'h EndpointGroup =
  eg_id :: jsval
  eg_name :: jsval
  eg_groupMode :: jsval
  eg_exitStrategy :: jsval
  eg_domain :: jsval
  eg_recordType :: jsval
  eg_isEnabled :: jsval
  eg_lastStatus :: jsval
  eg_chinaHealthCheckEnabled :: jsval
  eg_members :: "'h GroupMember list"

definition scope_get :: "(int \<times> int list) list option \<Rightarrow> int \<Rightarrow> int list option" where
  "scope_get m g = (case m of None \<Rightarrow> None | Some xs \<Rightarrow> map_of xs g)"

definition in_optional :: "int list option \<Rightarrow> jsval \<Rightarrow> bool" where
  "in_optional ids v = (case ids of None \<Rightarrow> False | Some xs \<Rightarrow> has_number xs v)"

definition member_visible :: "LinkAccessScope \<Rightarrow> int \<Rightarrow> 'h GroupMember \<Rightarrow> bool" where
  "member_visible scope groupId member =
     (let groupHostIds = scope_get (ls_groupHostIds scope) groupId; groupTunnelIds = scope_get (ls_groupTunnelIds scope) groupId in
      if groupHostIds \<noteq> None \<or> groupTunnelIds \<noteq> None
      then (if gm_memberType member = JStr ''tunnel'' then in_optional groupTunnelIds (gm_tunnelId member)
            else in_optional groupHostIds (gm_hostId member))
      else (if gm_memberType member = JStr ''tunnel'' then has_number (ls_tunnelIds scope) (gm_tunnelId member)
            else has_number (ls_hostIds scope) (gm_hostId member)))"

definition visibleForwardGroupMemberIds :: "jsval \<Rightarrow> 'h GroupMember list \<Rightarrow> LinkAccessScope option \<Rightarrow> jsnum list" where
  "visibleForwardGroupMemberIds groupIdValue members scopeOpt =
     (case scopeOpt of None \<Rightarrow> map (\<lambda>m. to_number (gm_id m)) members
      | Some scope \<Rightarrow> map (\<lambda>m. to_number (gm_id m)) (filter (member_visible scope (positive_id groupIdValue)) members))"

definition endpoint_member ::
  "LinkAccessScope \<Rightarrow> int \<Rightarrow> 'h EndpointHost_scheme GroupMember \<Rightarrow> EndpointHost GroupMember" where
  "endpoint_member scope groupId m =
     (let groupHostIds = scope_get (ls_groupHostIds scope) groupId;
          hostId = (case gm_host m of Some h \<Rightarrow> if truthy (eh_id h) then eh_id h else gm_hostId m | None \<Rightarrow> gm_hostId m);
          hostVisible = (num_lt (inum 0) (scope_number hostId) \<and> (allowedHost scope hostId \<or> in_optional groupHostIds hostId)) in
      \<lparr>gm_id = gm_id m, gm_groupId = gm_groupId m, gm_memberType = gm_memberType m, gm_hostId = null_if_nullish (gm_hostId m),
       gm_tunnelId = null_if_nullish (gm_tunnelId m), gm_priority = JNum (scope_number (gm_priority m)),
       gm_isEnabled = JBool (gm_isEnabled m \<noteq> JBool False), gm_chinaHealthStatus = null_if_nullish (gm_chinaHealthStatus m),
       gm_host = (if hostVisible then filterTunnelEndpointHost (gm_host m) else None)\<rparr>)"

definition filterTunnelEndpointGroup ::
  "'h EndpointHost_scheme EndpointGroup option \<Rightarrow> LinkAccessScope \<Rightarrow> EndpointHost EndpointGroup option" where
  "filterTunnelEndpointGroup groupOpt scope =
     (case groupOpt of None \<Rightarrow> None
      | Some grp \<Rightarrow>
        let groupId = positive_id (eg_id grp) in
        if groupId = 0 \<or> groupId \<notin> set (ls_groupIds scope) then None
        else let visibleMemberIds = visibleForwardGroupMemberIds (eg_id grp) (eg_members grp) (Some scope) in
        Some \<lparr>eg_id = eg_id grp, eg_name = eg_name grp, eg_groupMode = eg_groupMode grp, eg_exitStrategy = eg_exitStrategy grp,
              eg_domain = null_if_nullish (eg_domain grp),
              eg_recordType = (if is_nullish (eg_recordType grp) then JStr ''A'' else eg_recordType grp),
              eg_isEnabled = JBool (eg_isEnabled grp \<noteq> JBool False), eg_lastStatus = null_if_nullish (eg_lastStatus grp),
              eg_chinaHealthCheckEnabled = JBool (truthy (eg_chinaHealthCheckEnabled grp)),
              eg_members = map (endpoint_member scope groupId)
                (filter (\<lambda>m. scope_number (gm_id m) \<in> set visibleMemberIds) (eg_members grp))\<rparr>)"

record ('h, 'x) LoadBalanceExit =
  lb_hostId :: jsval
  lb_host :: "'h option"
  lb_rest :: 'x

text \<open>A tunnel with its private fields, and what is left for a user; \<open>rest\<close> stands for the fields passed on unchanged.\<close>

record ('h, 'x, 'r) TunnelFields =
  tf_certPem :: jsval
  tf_certKeyPem :: jsval
  tf_secret :: jsval
  tf_entryGroup :: "'h EndpointHost_scheme EndpointGroup option"
  tf_exitGroup :: "'h EndpointHost_scheme EndpointGroup option"
  tf_lastTestMessage :: jsval
  tf_latestLatencySeries :: "jsval list"
  tf_entryHostId :: jsval
  tf_exitHostId :: jsval
  tf_entryGroupId :: jsval
  tf_exitGroupId :: jsval
  tf_connectHost :: jsval
  tf_entryHost :: "'h EndpointHost_scheme option"
  tf_exitHost :: "'h EndpointHost_scheme option"
  tf_hopHostIds :: "jsval list"
  tf_hopConnectHosts :: "jsval list"
  tf_hopHosts :: "'h EndpointHost_scheme list"
  tf_loadBalanceExits :: "('h EndpointHost_scheme, 'x) LoadBalanceExit list"
  tf_rest :: 'r

record ('h, 'x, 'r) TunnelView =
  tv_entryHostId :: jsval
  tv_exitHostId :: jsval
  tv_entryGroupId :: jsval
  tv_exitGroupId :: jsval
  tv_connectHost :: jsval
  tv_entryHost :: "'h EndpointHost_scheme option"
  tv_exitHost :: "'h EndpointHost_scheme option"
  tv_entryGroup :: "EndpointHost EndpointGroup option"
  tv_hopHostIds :: "jsnum list"
  tv_hopConnectHosts :: "jsval list"
  tv_hopHosts :: "'h EndpointHost_scheme list"
  tv_loadBalanceExits :: "('h EndpointHost_scheme, 'x) LoadBalanceExit list"
  tv_rest :: 'r

definition filterTunnelFieldsForUser :: "('h, 'x, 'r) TunnelFields \<Rightarrow> LinkAccessScope \<Rightarrow> ('h, 'x, 'r) TunnelView" where
  "filterTunnelFieldsForUser tunnel scope =
     (let rawHopIds = tf_hopHostIds tunnel; rawHopConnectHosts = tf_hopConnectHosts tunnel;
          visibleHopIndexes = filter (\<lambda>i. allowedHost scope (rawHopIds ! i)) [0..<length rawHopIds];
          visibleExits = filter (\<lambda>e. allowedHost scope (lb_hostId e)) (tf_loadBalanceExits tunnel);
          entryHostVisible = allowedHost scope (tf_entryHostId tunnel);
          exitHostVisible = allowedHost scope (tf_exitHostId tunnel) in
      \<lparr>tv_entryHostId = (if entryHostVisible then tf_entryHostId tunnel else JNull),
       tv_exitHostId = (if exitHostVisible then tf_exitHostId tunnel else JNull),
       tv_entryGroupId = (if has_number (ls_groupIds scope) (tf_entryGroupId tunnel) then tf_entryGroupId tunnel else JNull),
       tv_exitGroupId = (if has_number (ls_groupIds scope) (tf_exitGroupId tunnel) then tf_exitGroupId tunnel else JNull),
       tv_connectHost = (if exitHostVisible then null_if_nullish (tf_connectHost tunnel) else JNull),
       tv_entryHost = (if entryHostVisible then tf_entryHost tunnel else None),
       tv_exitHost = (if exitHostVisible then tf_exitHost tunnel else None),
       tv_entryGroup = filterTunnelEndpointGroup (tf_entryGroup tunnel) scope,
       tv_hopHostIds = map (\<lambda>i. to_number (rawHopIds ! i)) visibleHopIndexes,
       tv_hopConnectHosts = map (\<lambda>i. if i < length rawHopConnectHosts then null_if_nullish (rawHopConnectHosts ! i) else JNull) visibleHopIndexes,
       tv_hopHosts = filter (\<lambda>h. allowedHost scope (eh_id h)) (tf_hopHosts tunnel),
       tv_loadBalanceExits = map (\<lambda>e. e\<lparr>lb_host := (if allowedHost scope (lb_hostId e) then lb_host e else None)\<rparr>) visibleExits,
       tv_rest = tf_rest tunnel\<rparr>)"


section \<open>What the expansion reaches\<close>

definition member_tunnels :: "topology \<Rightarrow> TopologyMember list \<Rightarrow> int set" where
  "member_tunnels T ms = {positive_id (tm_tunnelId m) |m. m \<in> set ms \<and> enabled_row (tm_isEnabled m)
     \<and> tm_memberType m = ''tunnel'' \<and> 0 < positive_id (tm_tunnelId m) \<and> positive_id (tm_tunnelId m) \<in> dom (map_of (tp_tunnelsById T))}"

definition member_hosts :: "topology \<Rightarrow> TopologyMember list \<Rightarrow> int set" where
  "member_hosts T ms = {positive_id (tm_hostId m) |m. m \<in> set ms \<and> enabled_row (tm_isEnabled m)
       \<and> tm_memberType m \<noteq> ''tunnel'' \<and> 0 < positive_id (tm_hostId m)}
     \<union> (\<Union>t \<in> member_tunnels T ms. set (alist_get t (tp_tunnelHostIdsByTunnel T)))"

abbreviation members_of :: "topology \<Rightarrow> int \<Rightarrow> TopologyMember list" where
  "members_of T g \<equiv> alist_get g (tp_membersByGroupId T)"

definition tunnel_groups :: "topology \<Rightarrow> int \<Rightarrow> int set" where
  "tunnel_groups T t = (case map_of (tp_tunnelsById T) t of None \<Rightarrow> {}
     | Some tn \<Rightarrow> {g \<in> {positive_id (tt_entryGroupId tn), positive_id (tt_exitGroupId tn)}. 0 < g})"

inductive reach_group :: "topology \<Rightarrow> int set \<Rightarrow> int set \<Rightarrow> int \<Rightarrow> bool"
  and reach_tunnel :: "topology \<Rightarrow> int set \<Rightarrow> int set \<Rightarrow> int \<Rightarrow> bool" for T G Tg where
  granted_group: "g \<in> G \<Longrightarrow> reach_group T G Tg g"
| granted_tunnel: "t \<in> Tg \<Longrightarrow> reach_tunnel T G Tg t"
| via_entry: "reach_group T G Tg g \<Longrightarrow> 0 < entry_group T g \<Longrightarrow> reach_group T G Tg (entry_group T g)"
| via_member: "reach_group T G Tg g \<Longrightarrow> t \<in> member_tunnels T (members_of T g) \<Longrightarrow> reach_tunnel T G Tg t"
| via_tunnel: "reach_tunnel T G Tg t \<Longrightarrow> g \<in> tunnel_groups T t \<Longrightarrow> reach_group T G Tg g"

declare positive_id_int [simp]

lemma set_positive_ids: "set (positive_ids vs) = {i. 0 < i \<and> (\<exists>v \<in> set vs. positive_id v = i)}"
  by (simp add: positive_ids_def)

lemma member_sets_Cons:
  "member_tunnels T (m # ms) = member_tunnels T [m] \<union> member_tunnels T ms"
  "member_hosts T (m # ms) = member_hosts T [m] \<union> member_hosts T ms"
  by (auto simp: member_tunnels_def member_hosts_def)

lemma member_sets_Nil [simp]: "member_tunnels T [] = {}" "member_hosts T [] = {}"
  by (simp_all add: member_tunnels_def member_hosts_def)

lemma member_step_sets:
  assumes "member_step T vt m (hs, ts, pend) = (hs', ts', pend')"
  shows "set hs' = set hs \<union> member_hosts T [m]" "set ts' = set ts \<union> member_tunnels T [m]"
    "set pend' \<union> set vt = set pend \<union> set vt \<union> member_tunnels T [m]" "set pend \<subseteq> set pend'"
    "set pend' \<subseteq> set pend \<union> member_tunnels T [m]"
  using assms
  by (auto simp: member_step_def member_hosts_def member_tunnels_def Let_def domIff split: if_splits)

lemma member_fold_sets:
  assumes "fold (member_step T vt) ms (hs, ts, pend) = (hs', ts', pend')"
  shows "set hs' = set hs \<union> member_hosts T ms \<and> set ts' = set ts \<union> member_tunnels T ms
    \<and> set pend' \<union> set vt = set pend \<union> set vt \<union> member_tunnels T ms \<and> set pend \<subseteq> set pend'
    \<and> set pend' \<subseteq> set pend \<union> member_tunnels T ms"
  using assms
proof (induction ms arbitrary: hs ts pend)
  case (Cons m ms)
  obtain h1 t1 p1 where step: "member_step T vt m (hs, ts, pend) = (h1, t1, p1)"
    by (cases "member_step T vt m (hs, ts, pend)") auto
  have rest: "fold (member_step T vt) ms (h1, t1, p1) = (hs', ts', pend')"
    using Cons.prems step by simp
  show ?case
    using Cons.IH [OF rest] member_step_sets [OF step] member_sets_Cons [of T m ms] by blast
qed simp


definition tunnel_hosts :: "topology \<Rightarrow> int \<Rightarrow> int set" where
  "tunnel_hosts T t = set (alist_get t (tp_tunnelHostIdsByTunnel T))"

definition scopes_exact :: "topology \<Rightarrow> closure_state \<Rightarrow> bool" where
  "scopes_exact T st \<longleftrightarrow> (\<forall>g. (case map_of (cs_groupHostIds st) g of
        None \<Rightarrow> g \<notin> set (cs_visitedGroups st)
      | Some hs \<Rightarrow> g \<in> set (cs_visitedGroups st) \<and> set hs = member_hosts T (members_of T g))
   \<and> (case map_of (cs_groupTunnelIds st) g of
        None \<Rightarrow> g \<notin> set (cs_visitedGroups st)
      | Some ts \<Rightarrow> g \<in> set (cs_visitedGroups st) \<and> set ts = member_tunnels T (members_of T g)))"

definition closed_under :: "topology \<Rightarrow> closure_state \<Rightarrow> bool" where
  "closed_under T st \<longleftrightarrow>
     (\<forall>g \<in> set (cs_visitedGroups st). (0 < entry_group T g \<longrightarrow> entry_group T g \<in> set (cs_groupIds st))
        \<and> member_tunnels T (members_of T g) \<subseteq> set (cs_visitedTunnels st) \<union> set (cs_pendingTunnels st))
   \<and> (\<forall>t \<in> set (cs_visitedTunnels st). tunnel_groups T t \<subseteq> set (cs_groupIds st))"

definition reached :: "topology \<Rightarrow> int set \<Rightarrow> int set \<Rightarrow> closure_state \<Rightarrow> bool" where
  "reached T G Tg st \<longleftrightarrow>
     (\<forall>g \<in> set (cs_groupIds st). 0 < g \<and> reach_group T G Tg g)
   \<and> (\<forall>t \<in> set (cs_visitedTunnels st) \<union> set (cs_pendingTunnels st). 0 < t \<and> reach_tunnel T G Tg t)
   \<and> G \<subseteq> set (cs_groupIds st) \<and> Tg \<subseteq> set (cs_visitedTunnels st) \<union> set (cs_pendingTunnels st)"

definition closure_inv :: "topology \<Rightarrow> int set \<Rightarrow> int set \<Rightarrow> int set \<Rightarrow> closure_state \<Rightarrow> bool" where
  "closure_inv T G Tg H st \<longleftrightarrow>
     set (cs_groupIds st) = set (cs_visitedGroups st) \<union> set (cs_pendingGroups st)
   \<and> reached T G Tg st \<and> closed_under T st \<and> scopes_exact T st
   \<and> set (cs_hostIds st) = H \<union> (\<Union>t \<in> set (cs_visitedTunnels st) \<inter> set (tp_directTunnelIds T). tunnel_hosts T t)"

lemma push_group_sets:
  "set (cs_groupIds (push_group g st)) = (if 0 < g then insert g (set (cs_groupIds st)) else set (cs_groupIds st))"
  "set (cs_pendingGroups (push_group g st)) =
     (if 0 < g \<and> g \<notin> set (cs_groupIds st) then insert g (set (cs_pendingGroups st)) else set (cs_pendingGroups st))"
  "cs_visitedGroups (push_group g st) = cs_visitedGroups st" "cs_visitedTunnels (push_group g st) = cs_visitedTunnels st"
  "cs_hostIds (push_group g st) = cs_hostIds st" "cs_groupHostIds (push_group g st) = cs_groupHostIds st"
  "cs_groupTunnelIds (push_group g st) = cs_groupTunnelIds st"
  by (auto simp: push_group_def)

lemma scopes_exact_cong:
  "cs_visitedGroups st' = cs_visitedGroups st \<Longrightarrow> cs_groupHostIds st' = cs_groupHostIds st \<Longrightarrow>
   cs_groupTunnelIds st' = cs_groupTunnelIds st \<Longrightarrow> scopes_exact T st' = scopes_exact T st"
  by (simp only: scopes_exact_def)

lemma scopes_exact_push [simp]: "scopes_exact T (push_group g st) = scopes_exact T st"
  by (rule scopes_exact_cong) (simp_all add: push_group_sets)

lemma reached_push:
  "reached T G Tg st \<Longrightarrow> (0 < g \<Longrightarrow> reach_group T G Tg g) \<Longrightarrow> reached T G Tg (push_group g st)"
  by (auto simp: reached_def push_group_sets)

lemma frontier_push:
  "set (cs_groupIds st) = set (cs_visitedGroups st) \<union> set (cs_pendingGroups st) \<Longrightarrow>
   set (cs_groupIds (push_group g st)) = set (cs_visitedGroups (push_group g st)) \<union> set (cs_pendingGroups (push_group g st))"
  by (auto simp: push_group_sets)

lemma closed_under_grow:
  assumes "closed_under T st" "set (cs_groupIds st) \<subseteq> set (cs_groupIds st')"
    "set (cs_visitedTunnels st) \<union> set (cs_pendingTunnels st) \<subseteq> set (cs_visitedTunnels st') \<union> set (cs_pendingTunnels st')"
    "\<And>g. g \<in> set (cs_visitedGroups st') - set (cs_visitedGroups st) \<Longrightarrow>
       (0 < entry_group T g \<longrightarrow> entry_group T g \<in> set (cs_groupIds st'))
       \<and> member_tunnels T (members_of T g) \<subseteq> set (cs_visitedTunnels st') \<union> set (cs_pendingTunnels st')"
    "\<And>t. t \<in> set (cs_visitedTunnels st') - set (cs_visitedTunnels st) \<Longrightarrow> tunnel_groups T t \<subseteq> set (cs_groupIds st')"
  shows "closed_under T st'"
  unfolding closed_under_def
proof (intro conjI ballI impI)
  fix g
  assume g: "g \<in> set (cs_visitedGroups st')"
  show "entry_group T g \<in> set (cs_groupIds st')" if "0 < entry_group T g"
    using g that assms(1,2,4) unfolding closed_under_def by blast
  show "member_tunnels T (members_of T g) \<subseteq> set (cs_visitedTunnels st') \<union> set (cs_pendingTunnels st')"
    using g assms(1,3,4) unfolding closed_under_def by blast
next
  fix t
  assume "t \<in> set (cs_visitedTunnels st')"
  then show "tunnel_groups T t \<subseteq> set (cs_groupIds st')"
    using assms(1,2,5) unfolding closed_under_def by blast
qed

lemma scopes_exact_visit:
  assumes "scopes_exact T st" "g \<notin> set (cs_visitedGroups st)"
    and "set hs = member_hosts T (members_of T g)" "set ts = member_tunnels T (members_of T g)"
    and "cs_visitedGroups st' = cs_visitedGroups st @ [g]" "cs_groupHostIds st' = alist_set g hs (cs_groupHostIds st)"
      "cs_groupTunnelIds st' = alist_set g ts (cs_groupTunnelIds st)"
  shows "scopes_exact T st'"
  unfolding scopes_exact_def
proof (intro allI conjI)
  fix k
  note old = assms(1) [unfolded scopes_exact_def, rule_format, of k]
  show "case map_of (cs_groupHostIds st') k of None \<Rightarrow> k \<notin> set (cs_visitedGroups st')
      | Some hs \<Rightarrow> k \<in> set (cs_visitedGroups st') \<and> set hs = member_hosts T (members_of T k)"
    using old assms(2-7) by (cases "k = g") (auto simp: map_of_alist_set split: option.splits)
  show "case map_of (cs_groupTunnelIds st') k of None \<Rightarrow> k \<notin> set (cs_visitedGroups st')
      | Some ts \<Rightarrow> k \<in> set (cs_visitedGroups st') \<and> set ts = member_tunnels T (members_of T k)"
    using old assms(2-7) by (cases "k = g") (auto simp: map_of_alist_set split: option.splits)
qed

lemma visit_group_inv:
  assumes inv: "closure_inv T G Tg H st" and p: "cs_pendingGroups st = g # rest"
  shows "closure_inv T G Tg H (visit_group T (positive_id (JNum (inum g))) (st\<lparr>cs_pendingGroups := rest\<rparr>))"
proof -
  define st0 where "st0 = st\<lparr>cs_pendingGroups := rest\<rparr>"
  have mem: "g \<in> set (cs_groupIds st)" using inv p by (auto simp: closure_inv_def)
  then have g: "0 < g" "reach_group T G Tg g" using inv by (auto simp: closure_inv_def reached_def)
  have ids: "positive_id (JNum (inum g)) = g" using g by simp
  show ?thesis
  proof (cases "g \<in> set (cs_visitedGroups st)")
    case True
    have "scopes_exact T st0 = scopes_exact T st" by (rule scopes_exact_cong) (simp_all add: st0_def)
    moreover have "closed_under T st0 = closed_under T st" by (simp add: closed_under_def st0_def)
    moreover have "reached T G Tg st0 = reached T G Tg st" by (simp add: reached_def st0_def)
    ultimately have "closure_inv T G Tg H st0"
      using inv p True by (auto simp: closure_inv_def st0_def)
    then show ?thesis using True g(1) unfolding ids by (simp add: visit_group_def st0_def)
  next
    case False
    have sc: "scopes_exact T st" using inv by (simp add: closure_inv_def)
    have "map_of (cs_groupHostIds st) g = None" "map_of (cs_groupTunnelIds st) g = None"
      using sc [unfolded scopes_exact_def, rule_format, of g] False by (auto split: option.splits)
    then have fresh: "alist_get g (cs_groupHostIds st) = []" "alist_get g (cs_groupTunnelIds st) = []"
      by (simp_all add: alist_get_def)
    obtain hs ts pend where f: "fold (member_step T (cs_visitedTunnels st)) (members_of T g) ([], [], cs_pendingTunnels st) = (hs, ts, pend)"
      by (metis prod_cases3)
    note sets = member_fold_sets [OF f]
    define st1 where "st1 = st0\<lparr>cs_visitedGroups := cs_visitedGroups st @ [g], cs_pendingTunnels := pend,
      cs_groupHostIds := alist_set g hs (cs_groupHostIds st), cs_groupTunnelIds := alist_set g ts (cs_groupTunnelIds st)\<rparr>"
    have v: "visit_group T g st0 = push_group (entry_group T g) st1"
      using False g(1) f fresh by (simp add: visit_group_def st0_def st1_def push_group_def)
    have "scopes_exact T st1"
      by (rule scopes_exact_visit [of T st g hs ts]) (use inv False sets in \<open>simp_all add: closure_inv_def st1_def st0_def\<close>)
    moreover have r: "reached T G Tg st1"
    proof -
      have "0 < t \<and> reach_tunnel T G Tg t" if "t \<in> set pend" for t
      proof (cases "t \<in> set (cs_pendingTunnels st)")
        case False
        then have "t \<in> member_tunnels T (members_of T g)" using that sets by blast
        then show ?thesis using via_member [OF g(2)] by (auto simp: member_tunnels_def)
      qed (use inv in \<open>simp add: closure_inv_def reached_def\<close>)
      then show ?thesis using inv sets by (auto simp: closure_inv_def reached_def st1_def st0_def)
    qed
    moreover have "set (cs_hostIds st1) = H \<union> (\<Union>t \<in> set (cs_visitedTunnels st1) \<inter> set (tp_directTunnelIds T). tunnel_hosts T t)"
      using inv by (simp add: closure_inv_def st1_def st0_def)
    moreover have "set (cs_groupIds st1) = set (cs_visitedGroups st1) \<union> set (cs_pendingGroups st1)"
      using inv p by (simp add: closure_inv_def st1_def st0_def)
    moreover have "closed_under T (push_group (entry_group T g) st1)"
    proof -
      have "member_tunnels T (members_of T g) \<subseteq> set (cs_visitedTunnels st) \<union> set pend" using sets by blast
      moreover have "set (cs_pendingTunnels st) \<subseteq> set pend" using sets by blast
      moreover have "closed_under T st" using inv by (simp add: closure_inv_def)
      ultimately show ?thesis
        by (elim closed_under_grow) (auto simp: push_group_sets st1_def st0_def)
    qed
    moreover have "reached T G Tg (push_group (entry_group T g) st1)"
      by (rule reached_push [OF r via_entry [OF g(2)]])
    ultimately have "closure_inv T G Tg H (push_group (entry_group T g) st1)"
      unfolding closure_inv_def using frontier_push by (simp add: push_group_sets(4,5))
    then show ?thesis unfolding ids using v by (simp add: st0_def)
  qed
qed

lemma push_group_pendingTunnels:
  "(push_group g st)\<lparr>cs_pendingTunnels := ts\<rparr> = push_group g (st\<lparr>cs_pendingTunnels := ts\<rparr>)"
  by (simp add: push_group_def)

lemma visit_tunnel_inv:
  assumes inv: "closure_inv T G Tg H (st\<lparr>cs_pendingTunnels := t # ts\<rparr>)"
  shows "closure_inv T G Tg H ((visit_tunnel T (positive_id (JNum (inum t))) st)\<lparr>cs_pendingTunnels := ts\<rparr>)"
proof -
  have t: "0 < t" "reach_tunnel T G Tg t" using inv by (auto simp: closure_inv_def reached_def)
  have ids: "positive_id (JNum (inum t)) = t" using t by simp
  show ?thesis
  proof (cases "t \<in> set (cs_visitedTunnels st)")
    case True
    define st0 where "st0 = st\<lparr>cs_pendingTunnels := ts\<rparr>"
    define old where "old = st\<lparr>cs_pendingTunnels := t # ts\<rparr>"
    have "scopes_exact T st0 = scopes_exact T old" by (rule scopes_exact_cong) (simp_all add: st0_def old_def)
    moreover have "closed_under T old \<Longrightarrow> closed_under T st0"
      using True by (auto simp: closed_under_def st0_def old_def)
    moreover have "reached T G Tg old \<Longrightarrow> reached T G Tg st0" using True by (auto simp: reached_def st0_def old_def)
    ultimately have "closure_inv T G Tg H st0"
      using inv unfolding old_def [symmetric] by (simp add: closure_inv_def) (simp add: st0_def old_def)
    then show ?thesis using True t(1) unfolding ids by (simp add: visit_tunnel_def st0_def)
  next
    case False
    define old where "old = st\<lparr>cs_pendingTunnels := t # ts\<rparr>"
    define st1 where "st1 = st\<lparr>cs_visitedTunnels := cs_visitedTunnels st @ [t],
                 cs_hostIds := (if t \<in> set (tp_directTunnelIds T)
                   then fold set_add (alist_get t (tp_tunnelHostIdsByTunnel T)) (cs_hostIds st) else cs_hostIds st),
                 cs_pendingTunnels := ts\<rparr>"
    define st2 where "st2 = (case map_of (tp_tunnelsById T) t of None \<Rightarrow> st1
              | Some tunnel \<Rightarrow> push_group (positive_id (tt_exitGroupId tunnel)) (push_group (positive_id (tt_entryGroupId tunnel)) st1))"
    have v: "(visit_tunnel T t st)\<lparr>cs_pendingTunnels := ts\<rparr> = st2"
      using False t(1) by (simp add: visit_tunnel_def st1_def st2_def Let_def push_group_pendingTunnels split: option.split)
    have frame: "cs_visitedGroups st2 = cs_visitedGroups st" "cs_visitedTunnels st2 = cs_visitedTunnels st @ [t]"
      "cs_pendingTunnels st2 = ts" "cs_hostIds st2 = cs_hostIds st1" "cs_groupHostIds st2 = cs_groupHostIds st"
      "cs_groupTunnelIds st2 = cs_groupTunnelIds st"
      by (simp_all add: st2_def st1_def push_group_sets split: option.split)
    have groups: "set (cs_groupIds st2) = set (cs_groupIds st) \<union> tunnel_groups T t"
      by (auto simp: st2_def st1_def push_group_sets tunnel_groups_def split: option.split)
    have reach: "reach_group T G Tg g" if "g \<in> tunnel_groups T t" for g using via_tunnel [OF t(2) that] .
    have "set (cs_groupIds st1) = set (cs_visitedGroups st1) \<union> set (cs_pendingGroups st1)"
      using inv by (simp add: closure_inv_def st1_def)
    then have "set (cs_groupIds st2) = set (cs_visitedGroups st2) \<union> set (cs_pendingGroups st2)"
      unfolding st2_def by (simp add: frontier_push split: option.split)
    moreover have "scopes_exact T st2"
      using inv scopes_exact_cong [of st2 old T] by (simp add: closure_inv_def frame old_def)
    moreover have "reached T G Tg st2"
      using inv reach by (auto simp: closure_inv_def reached_def groups frame tunnel_groups_def split: option.splits)
    moreover have "closed_under T st2"
    proof (rule closed_under_grow [of T old])
      show "closed_under T old" using inv by (simp add: closure_inv_def old_def)
    qed (auto simp: groups frame old_def)
    moreover have "set (cs_hostIds st2) = H \<union> (\<Union>t \<in> set (cs_visitedTunnels st2) \<inter> set (tp_directTunnelIds T). tunnel_hosts T t)"
      using inv by (auto simp: closure_inv_def frame st1_def tunnel_hosts_def)
    ultimately show ?thesis unfolding ids v by (simp add: closure_inv_def)
  qed
qed

lemma group_loop_inv: "closure_inv T G Tg H st \<Longrightarrow> closure_inv T G Tg H (group_loop T st)"
proof (induction T st rule: group_loop.induct)
  case (1 T st)
  show ?case
  proof (cases "cs_pendingGroups st")
    case (Cons g rest)
    show ?thesis
      using "1.IH" [OF Cons visit_group_inv [OF "1.prems" Cons]] Cons by (simp add: group_loop.simps [of T st])
  qed (use "1.prems" in \<open>simp add: group_loop.simps [of T st]\<close>)
qed

lemma tunnel_loop_inv:
  "closure_inv T G Tg H (st\<lparr>cs_pendingTunnels := ts\<rparr>) \<Longrightarrow> closure_inv T G Tg H ((tunnel_loop T ts st)\<lparr>cs_pendingTunnels := []\<rparr>)"
proof (induction ts arbitrary: st)
  case (Cons t ts)
  show ?case using Cons.IH [OF visit_tunnel_inv [OF Cons.prems]] by simp
qed simp

lemma pending_none: "cs_pendingTunnels st = [] \<Longrightarrow> st\<lparr>cs_pendingTunnels := []\<rparr> = st"
  by (cases st) simp

lemma tunnel_pass_inv: "closure_inv T G Tg H st \<Longrightarrow> closure_inv T G Tg H (tunnel_pass T st)"
  using tunnel_loop_inv [where T = T and G = G and Tg = Tg and H = H and st = "st\<lparr>cs_pendingTunnels := []\<rparr>" and ts = "cs_pendingTunnels st"]
    tunnel_loop_pending [of T "cs_pendingTunnels st" "st\<lparr>cs_pendingTunnels := []\<rparr>"]
  by (simp add: tunnel_pass_def pending_none)

lemma expand_loop_inv:
  "closure_inv T G Tg H st \<Longrightarrow>
   closure_inv T G Tg H (expand_loop T st) \<and> cs_pendingGroups (expand_loop T st) = [] \<and> cs_pendingTunnels (expand_loop T st) = []"
proof (induction T st rule: expand_loop.induct)
  case (1 T st)
  show ?case
  proof (cases "cs_pendingGroups st \<noteq> [] \<or> cs_pendingTunnels st \<noteq> []")
    case True
    show ?thesis
      using "1.IH" [OF True tunnel_pass_inv [OF group_loop_inv [OF "1.prems"]]] True
      by (simp add: expand_loop.simps [of T st])
  qed (use "1.prems" in \<open>simp add: expand_loop.simps [of T st]\<close>)
qed

lemma closure_final:
  assumes inv: "closure_inv T G Tg H st" and fin: "cs_pendingGroups st = []" "cs_pendingTunnels st = []"
  shows "set (cs_groupIds st) = {g. reach_group T G Tg g}" "set (cs_visitedTunnels st) = {t. reach_tunnel T G Tg t}"
proof -
  have c: "closed_under T st" "reached T G Tg st" "set (cs_groupIds st) = set (cs_visitedGroups st)"
    using inv fin by (simp_all add: closure_inv_def)
  have f: "G \<subseteq> set (cs_groupIds st)" "Tg \<subseteq> set (cs_visitedTunnels st)"
    using c(2) fin by (simp_all add: reached_def)
  have cl: "0 < entry_group T g \<Longrightarrow> entry_group T g \<in> set (cs_groupIds st)"
      "member_tunnels T (members_of T g) \<subseteq> set (cs_visitedTunnels st)" if "g \<in> set (cs_groupIds st)" for g
    using c(1) that fin(2) unfolding closed_under_def c(3) by auto
  have cl': "tunnel_groups T t \<subseteq> set (cs_groupIds st)" if "t \<in> set (cs_visitedTunnels st)" for t
    using c(1) that unfolding closed_under_def by blast
  have "reach_group T G Tg g \<Longrightarrow> g \<in> set (cs_groupIds st)" "reach_tunnel T G Tg t \<Longrightarrow> t \<in> set (cs_visitedTunnels st)" for g t
    by (induction rule: reach_group_reach_tunnel.inducts) (use f cl cl' in blast)+
  then show "set (cs_groupIds st) = {g. reach_group T G Tg g}" "set (cs_visitedTunnels st) = {t. reach_tunnel T G Tg t}"
    using c(2) by (auto simp: reached_def)
qed

definition granted_ids :: "jsval list \<Rightarrow> int set" where
  "granted_ids vs = {i. 0 < i \<and> (\<exists>v \<in> set vs. positive_id v = i)}"

lemma expansion_inv:
  fixes input
  defines "T \<equiv> topology_of input"
  defines "st \<equiv> expand_loop T
                 \<lparr>cs_hostIds = positive_ids (ci_hostIds input), cs_groupIds = positive_ids (ci_groupIds input),
                  cs_pendingGroups = positive_ids (ci_groupIds input), cs_pendingTunnels = positive_ids (ci_tunnelIds input),
                  cs_visitedGroups = [], cs_visitedTunnels = [], cs_groupHostIds = [], cs_groupTunnelIds = []\<rparr>"
  shows "closure_inv T (granted_ids (ci_groupIds input)) (granted_ids (ci_tunnelIds input)) (granted_ids (ci_hostIds input)) st"
    "cs_pendingGroups st = []" "cs_pendingTunnels st = []"
proof -
  have "closure_inv T (granted_ids (ci_groupIds input)) (granted_ids (ci_tunnelIds input)) (granted_ids (ci_hostIds input))
                 \<lparr>cs_hostIds = positive_ids (ci_hostIds input), cs_groupIds = positive_ids (ci_groupIds input),
                  cs_pendingGroups = positive_ids (ci_groupIds input), cs_pendingTunnels = positive_ids (ci_tunnelIds input),
                  cs_visitedGroups = [], cs_visitedTunnels = [], cs_groupHostIds = [], cs_groupTunnelIds = []\<rparr>"
    by (auto simp: closure_inv_def reached_def closed_under_def scopes_exact_def set_positive_ids granted_ids_def
        intro: granted_group granted_tunnel)
  from expand_loop_inv [OF this]
  show "closure_inv T (granted_ids (ci_groupIds input)) (granted_ids (ci_tunnelIds input)) (granted_ids (ci_hostIds input)) st"
    "cs_pendingGroups st = []" "cs_pendingTunnels st = []"
    by (simp_all add: st_def)
qed

lemma expand_use_ids [simp]:
  "ls_useHostIds (expandLinkAccessScope input) = Some (positive_ids (ci_hostIds input))"
  "ls_useTunnelIds (expandLinkAccessScope input) = Some (positive_ids (ci_tunnelIds input))"
  "ls_useGroupIds (expandLinkAccessScope input) = Some (positive_ids (ci_groupIds input))"
  "ls_tunnelIds (expandLinkAccessScope input) = positive_ids (ci_tunnelIds input)"
  by (simp_all add: expandLinkAccessScope_def Let_def)

text \<open>C8: expanding the grants of a user ends for every topology, cyclic ones included, and gives exactly the closure of
  the grants. A group is visible if and only if it is granted or reached through entry groups, enabled member tunnels and
  the groups of tunnels; each visible group shows exactly its enabled member hosts, its known member tunnels and their
  hosts. The hosts visible on their own are the granted ones and those of granted tunnels, the tunnels are the granted
  ones, and nothing that is only reached may be used as the resource of a rule.\<close>

theorem grants_expand_to_their_closure:
  "let scope = expandLinkAccessScope input; T = topology_of input;
       G = granted_ids (ci_groupIds input); D = granted_ids (ci_tunnelIds input); H = granted_ids (ci_hostIds input) in
   set (ls_groupIds scope) = {g. reach_group T G D g}
   \<and> (\<forall>g. map_option set (scope_get (ls_groupHostIds scope) g)
          = (if reach_group T G D g then Some (member_hosts T (members_of T g)) else None))
   \<and> (\<forall>g. map_option set (scope_get (ls_groupTunnelIds scope) g)
          = (if reach_group T G D g then Some (member_tunnels T (members_of T g)) else None))
   \<and> set (ls_hostIds scope) = H \<union> (\<Union>t \<in> D. tunnel_hosts T t)
   \<and> set (ls_tunnelIds scope) = D
   \<and> map_option set (ls_useHostIds scope) = Some H \<and> map_option set (ls_useTunnelIds scope) = Some D
   \<and> map_option set (ls_useGroupIds scope) = Some G"
proof -
  define T where "T = topology_of input"
  define st where "st = expand_loop T
                 \<lparr>cs_hostIds = positive_ids (ci_hostIds input), cs_groupIds = positive_ids (ci_groupIds input),
                  cs_pendingGroups = positive_ids (ci_groupIds input), cs_pendingTunnels = positive_ids (ci_tunnelIds input),
                  cs_visitedGroups = [], cs_visitedTunnels = [], cs_groupHostIds = [], cs_groupTunnelIds = []\<rparr>"
  define G D H where "G = granted_ids (ci_groupIds input)" "D = granted_ids (ci_tunnelIds input)" "H = granted_ids (ci_hostIds input)"
  note inv = expansion_inv [of input, folded T_def, folded st_def, folded G_D_H_def]
  note fin = closure_final [OF inv]
  have vis: "set (cs_visitedGroups st) = {g. reach_group T G D g}"
    using inv fin(1) by (simp add: closure_inv_def)
  have sc: "scopes_exact T st" using inv(1) by (simp add: closure_inv_def)
  have hosts: "map_option set (map_of (cs_groupHostIds st) g)
          = (if reach_group T G D g then Some (member_hosts T (members_of T g)) else None)" for g
    using sc [unfolded scopes_exact_def, rule_format, of g] vis by (auto split: option.splits)
  have tuns: "map_option set (map_of (cs_groupTunnelIds st) g)
          = (if reach_group T G D g then Some (member_tunnels T (members_of T g)) else None)" for g
    using sc [unfolded scopes_exact_def, rule_format, of g] vis by (auto split: option.splits)
  have direct: "set (tp_directTunnelIds T) = D"
    by (simp add: T_def topology_of_def Let_def G_D_H_def granted_ids_def set_positive_ids)
  have "D \<subseteq> set (cs_visitedTunnels st)" using fin(2) granted_tunnel by blast
  then have "set (cs_visitedTunnels st) \<inter> set (tp_directTunnelIds T) = D" using direct by blast
  then have H: "set (cs_hostIds st) = H \<union> (\<Union>t \<in> D. tunnel_hosts T t)" using inv(1) by (simp add: closure_inv_def)
  have ids: "set (positive_ids vs) = granted_ids vs" for vs by (simp add: set_positive_ids granted_ids_def)
  have scope: "ls_groupIds (expandLinkAccessScope input) = cs_groupIds st" "ls_hostIds (expandLinkAccessScope input) = cs_hostIds st"
    "ls_groupHostIds (expandLinkAccessScope input) = Some (cs_groupHostIds st)"
    "ls_groupTunnelIds (expandLinkAccessScope input) = Some (cs_groupTunnelIds st)"
    by (simp_all add: expandLinkAccessScope_def Let_def st_def T_def)
  show ?thesis
    unfolding Let_def T_def [symmetric] G_D_H_def [symmetric] scope
    using fin(1) hosts tuns H by (simp add: scope_get_def ids G_D_H_def)
qed

section \<open>What billing leaves usable\<close>

definition denied_group :: "billing_search \<Rightarrow> int \<Rightarrow> bool" where
  "denied_group S g \<longleftrightarrow> list_ex (denied_member S) (alist_get g (bq_membersByGroupId S))"

definition entry_step :: "billing_search \<Rightarrow> int \<Rightarrow> int \<Rightarrow> bool" where
  "entry_step S g h \<longleftrightarrow> h = next_group S g \<and> h \<noteq> 0"

definition blocked :: "billing_search \<Rightarrow> int \<Rightarrow> bool" where
  "blocked S g \<longleftrightarrow> (\<exists>h. (entry_step S)\<^sup>*\<^sup>* g h \<and> denied_group S h)"

lemma next_group_nonneg: "0 \<le> next_group S g"
  by (simp add: next_group_def split: option.splits)

lemma blocked_iff: "blocked S g \<longleftrightarrow> denied_group S g \<or> (next_group S g \<noteq> 0 \<and> blocked S (next_group S g))"
proof
  assume "blocked S g"
  then obtain h where h: "(entry_step S)\<^sup>*\<^sup>* g h" "denied_group S h" by (auto simp: blocked_def)
  show "denied_group S g \<or> (next_group S g \<noteq> 0 \<and> blocked S (next_group S g))"
    using h(1)
  proof (cases rule: converse_rtranclpE)
    case (step y)
    then show ?thesis using h(2) by (auto simp: blocked_def entry_step_def)
  qed (use h in simp)
next
  assume "denied_group S g \<or> (next_group S g \<noteq> 0 \<and> blocked S (next_group S g))"
  then show "blocked S g"
  proof
    assume "next_group S g \<noteq> 0 \<and> blocked S (next_group S g)"
    then obtain h where h: "entry_step S g (next_group S g)" "(entry_step S)\<^sup>*\<^sup>* (next_group S g) h" "denied_group S h"
      by (auto simp: blocked_def entry_step_def)
    then show ?thesis unfolding blocked_def using converse_rtranclp_into_rtranclp [OF h(1,2)] by blast
  qed (auto simp: blocked_def)
qed

text \<open>A visited group leads to a denied member only through a group that is still pending.\<close>

lemma blocked_leaves_visited:
  assumes closed: "\<And>v. v \<in> V \<Longrightarrow> \<not> denied_group S v \<and> (next_group S v \<noteq> 0 \<longrightarrow> next_group S v \<in> V \<union> P)"
    and "blocked S v" "v \<in> V"
  shows "\<exists>p \<in> P. 0 < p \<and> blocked S p"
proof -
  obtain h where "(entry_step S)\<^sup>*\<^sup>* v h" "denied_group S h" using assms(2) by (auto simp: blocked_def)
  then show ?thesis using assms(3)
  proof (induction rule: converse_rtranclp_induct)
    case base
    then show ?case using closed by blast
  next
    case (step y z)
    then have z: "z = next_group S y" "z \<noteq> 0" by (simp_all add: entry_step_def)
    show ?case
    proof (cases "z \<in> V")
      case True
      then show ?thesis using step.IH step.prems by blast
    next
      case False
      then have "z \<in> P" using closed [OF step.prems(2)] z by blast
      moreover have "blocked S z" using step.hyps(2) step.prems(1) by (auto simp: blocked_def)
      moreover have "0 < z" using z next_group_nonneg [of S y] by simp
      ultimately show ?thesis by blast
    qed
  qed
qed

lemma denied_loop_correct:
  "(\<And>v. v \<in> set visited \<Longrightarrow> \<not> denied_group S v \<and> (next_group S v \<noteq> 0 \<longrightarrow> next_group S v \<in> set visited \<union> set pending)) \<Longrightarrow>
   denied_loop S pending visited \<longleftrightarrow> (\<exists>p \<in> set pending. 0 < p \<and> blocked S p)"
proof (induction S pending visited rule: denied_loop.induct)
  case (2 S p pending visited)
  define g where "g = positive_id (JNum (inum p))"
  have g: "g = (if 0 < p then p else 0)" by (simp add: g_def)
  show ?case
  proof (cases "g = 0 \<or> g \<in> set visited")
    case True
    have known: "0 < p \<Longrightarrow> p \<in> set visited" using True g by auto
    have cl: "\<not> denied_group S v \<and> (next_group S v \<noteq> 0 \<longrightarrow> next_group S v \<in> set visited \<union> set pending)"
      if "v \<in> set visited" for v
      using "2.prems" [OF that] next_group_nonneg [of S v] known by auto
    have "denied_loop S (p # pending) visited = denied_loop S pending visited"
      using True by (simp add: g_def Let_def)
    also have "\<dots> \<longleftrightarrow> (\<exists>p \<in> set pending. 0 < p \<and> blocked S p)"
      by (rule "2.IH"(1) [OF g_def True]) (use cl in blast)
    also have "\<dots> \<longleftrightarrow> (\<exists>q \<in> set (p # pending). 0 < q \<and> blocked S q)"
      using blocked_leaves_visited [of "set visited" S "set pending" p, OF cl] known by auto
    finally show ?thesis .
  next
    case False
    then have p: "0 < p" "g = p" "p \<notin> set visited" using g by (auto split: if_splits)
    show ?thesis
    proof (cases "denied_group S p")
      case True
      then have "denied_loop S (p # pending) visited" using False p by (simp add: Let_def denied_group_def)
      moreover have "blocked S p" using True blocked_iff by blast
      ultimately show ?thesis using p(1) by auto
    next
      case ok: False
      define pending1 where "pending1 = (if next_group S p \<noteq> 0 then pending @ [next_group S p] else pending)"
      have "denied_loop S (p # pending) visited = denied_loop S pending1 (visited @ [p])"
        using False p ok by (simp add: Let_def denied_group_def pending1_def)
      also have "\<dots> \<longleftrightarrow> (\<exists>q \<in> set pending1. 0 < q \<and> blocked S q)"
      proof (rule "2.IH"(2) [OF g_def False refl, unfolded p(2)])
        show "pending1 = (if next_group S p \<noteq> 0 then pending @ [next_group S p] else pending)" by (simp add: pending1_def)
        show "\<not> list_ex (denied_member S) (alist_get p (bq_membersByGroupId S))" using ok by (simp add: denied_group_def)
        show "\<not> denied_group S v \<and> (next_group S v \<noteq> 0 \<longrightarrow> next_group S v \<in> set (visited @ [p]) \<union> set pending1)"
          if "v \<in> set (visited @ [p])" for v
          using that ok "2.prems" [of v] by (auto simp: pending1_def)
      qed
      also have "\<dots> \<longleftrightarrow> (\<exists>q \<in> set (p # pending). 0 < q \<and> blocked S q)"
        using blocked_iff [of S p] ok p(1) next_group_nonneg [of S p] by (auto simp: pending1_def)
      finally show ?thesis .
    qed
  qed
qed simp

lemma groupHasDeniedBillingMember_iff:
  "groupHasDeniedBillingMember Q g \<longleftrightarrow> 0 < g \<and> blocked (billing_search_of Q) g"
  using denied_loop_correct [of "[]" "billing_search_of Q" "[g]"] by (simp add: groupHasDeniedBillingMember_def)

definition billed :: "int list \<Rightarrow> int list \<Rightarrow> int set \<Rightarrow> int set" where
  "billed active usable ids = {i. if 0 < i \<and> i \<in> set active then i \<in> set usable else i \<in> ids}"

lemma set_bill_ids: "set (bill_ids active usable ids) = billed active usable (set ids)"
proof -
  have "set (fold (\<lambda>v acc. let i = positive_id (JNum (inum v)) in
     if i \<le> 0 then acc else if i \<in> set usable then set_add i acc else removeAll i acc) active ids)
     = billed active usable (set ids)" for ids
    by (induction active arbitrary: ids) (auto simp: billed_def Let_def)
  then show ?thesis by (simp add: bill_ids_def)
qed

text \<open>C9: what a user may choose as the resource of a rule, while billing is on: of the granted hosts, tunnels and groups
  and the billed ones the user may use, exactly those that are not billed without permission; a group moreover only if
  no enabled member of it or of a group in its chain of entry groups is billed without permission. When the topology
  cannot be read no group is usable, and when the state of billing itself cannot be read nothing is usable at all.\<close>

theorem billing_decides_what_is_usable:
  "let scope = loadLinkAccessScope True Q; snapshot = lq_billingSnapshot Q; A = bs_activeResourceIds snapshot;
       U = bs_usableResourceIds snapshot; I = closure_input Q in
   if bs_status snapshot = BillingFailed then \<forall>rule. \<not> canUseForwardRuleResource rule (Some scope)
   else if bs_enabled snapshot
   then map_option set (ls_useHostIds scope) = Some (billed (br_hostIds A) (br_hostIds U) (granted_ids (ci_hostIds I)))
      \<and> map_option set (ls_useTunnelIds scope) = Some (billed (br_tunnelIds A) (br_tunnelIds U) (granted_ids (ci_tunnelIds I)))
      \<and> map_option set (ls_useGroupIds scope) = Some
          (if lq_topologyGroups Q = None \<or> lq_topologyMembers Q = None then {}
           else {g \<in> billed (br_forwardGroupIds A) (br_forwardGroupIds U) (granted_ids (ci_groupIds I)).
                   \<not> blocked (billing_search_of Q) g})
   else scope = expandLinkAccessScope I"
proof -
  have ids: "set (positive_ids vs) = granted_ids vs" for vs by (simp add: set_positive_ids granted_ids_def)
  have pos: "0 < g" if "g \<in> billed A U (granted_ids vs)" for g A U vs
    using that by (auto simp: billed_def granted_ids_def split: if_splits)
  then have grp: "{g \<in> billed A U (granted_ids vs). 0 < g \<longrightarrow> \<not> b g} = {g \<in> billed A U (granted_ids vs). \<not> b g}" for A U vs b
    by blast
  show ?thesis
    by (simp add: loadLinkAccessScope_def Let_def canUseForwardRuleResource_def use_ids_def set_bill_ids ids
        groupHasDeniedBillingMember_iff grp Collect_conj_eq2)
qed

lemma set_billing_ids: "set (billing_ids t rows) = {bc_resourceId r |r. r \<in> set rows \<and> bc_resourceType r = t \<and> 0 < bc_resourceId r}"
  by (auto simp: billing_ids_def)

definition needs_permission :: "int \<Rightarrow> BillingConfigRow list \<Rightarrow> bool" where
  "needs_permission i rows \<longleftrightarrow> (\<exists>r \<in> set rows. bc_resourceType r = ''host'' \<and> bc_resourceId r = i)
     \<and> (\<forall>r \<in> set rows. bc_resourceType r = ''host'' \<and> bc_resourceId r = i \<longrightarrow>
          bc_requiresPermission r \<and> (case bc_permissionId r of None \<Rightarrow> True | Some p \<Rightarrow> p \<le> 0))"

text \<open>A billed host that needs a permission the user lacks is not usable while billing is on or its setting cannot be
  read, whichever of the queries for the permissions and for the configurations fail, and however it was granted.\<close>

lemma private_host_needs_permission:
  assumes snap: "lq_billingSnapshot Q = getTrafficBillingAccessSnapshot enabled joined configs" "enabled \<noteq> Some False" "0 < i"
    and rows: "\<And>rows. joined = Some rows \<Longrightarrow> needs_permission i rows" "\<And>rows. configs = Some rows \<Longrightarrow> needs_permission i rows"
  shows "i \<notin> set (use_ids (ls_useHostIds (loadLinkAccessScope True Q)) (ls_hostIds (loadLinkAccessScope True Q)))"
proof -
  let ?S = "lq_billingSnapshot Q"
  have "bs_status ?S = BillingFailed \<or> bs_enabled ?S \<and> i \<in> set (br_hostIds (bs_activeResourceIds ?S))
      \<and> i \<notin> set (br_hostIds (bs_usableResourceIds ?S))"
    using rows assms(2,3) unfolding snap(1)
    by (fastforce simp: getTrafficBillingAccessSnapshot_def Let_def trafficBillingResourceIdsFromRows_def set_billing_ids
        needs_permission_def split: option.splits bool.splits)
  then show ?thesis
    using \<open>0 < i\<close> by (auto simp: loadLinkAccessScope_def Let_def use_ids_def set_bill_ids billed_def)
qed

section \<open>The gate of an agent's rules\<close>

definition rule_allowed :: "UserRow list \<Rightarrow> (int \<Rightarrow> LinkAccessScope) \<Rightarrow> 'r RuntimeRule_scheme \<Rightarrow> bool" where
  "rule_allowed users load rule \<longleftrightarrow> (\<exists>u \<in> set users. 0 < us_id u \<and> us_id u = positive_id (ru_userId rule)
     \<and> (role_of u = ''admin'' \<or> canUseForwardRuleResource rule (Some (load (us_id u)))))"

lemma map_of_fold_alist_set_other:
  "i \<notin> k ` set xs \<Longrightarrow> map_of (fold (\<lambda>x. alist_set (k x) (v x)) xs m) i = map_of m i"
  by (induction xs arbitrary: m) (auto simp: map_of_alist_set)

lemma map_of_fold_alist_set:
  "distinct (map k xs) \<Longrightarrow> x \<in> set xs \<Longrightarrow> map_of (fold (\<lambda>x. alist_set (k x) (v x)) xs m) (k x) = Some (v x)"
  by (induction xs arbitrary: m) (auto simp: map_of_alist_set map_of_fold_alist_set_other)

lemma canUse_admin: "canUseForwardRuleResource rule None"
  by (simp add: canUseForwardRuleResource_def)

text \<open>The lookups of the gate, for the users that own a rule.\<close>

lemma gate_scope_lookup:
  fixes users load and ids :: "int list"
  assumes d: "distinct (map us_id users)" and pos: "\<forall>i \<in> set ids. 0 < i"
  defines "roles \<equiv> fold (\<lambda>u. alist_set (positive_id (JNum (inum (us_id u)))) (role_of u)) (filter (\<lambda>u. us_id u \<in> set ids) users) []"
  shows "map_of (map (\<lambda>i. (i, map_option (getLinkAccessScope load i) (map_of roles i))) ids) i = Some (Some sc) \<longleftrightarrow>
    i \<in> set ids \<and> (\<exists>u \<in> set users. us_id u = i \<and> sc = getLinkAccessScope load i (role_of u))"
proof -
  have roles: "roles = fold (\<lambda>u. alist_set (us_id u) (role_of u)) (filter (\<lambda>u. us_id u \<in> set ids) users) []"
    unfolding roles_def by (rule fold_cong) (use pos in auto)
  have known: "map_of roles (us_id u) = Some (role_of u)" if "u \<in> set users" "us_id u \<in> set ids" for u
    unfolding roles by (rule map_of_fold_alist_set) (use that d in \<open>auto intro: distinct_map_filter\<close>)
  have unknown: "map_of roles i = None" if "\<nexists>u. u \<in> set users \<and> us_id u = i"
    unfolding roles by (subst map_of_fold_alist_set_other) (use that in auto)
  have get: "map_of (map (\<lambda>i. (i, map_option (getLinkAccessScope load i) (map_of roles i))) ids) i
      = (if i \<in> set ids then Some (map_option (getLinkAccessScope load i) (map_of roles i)) else None)"
    by (induction ids) auto
  show ?thesis
  proof (cases "\<exists>u. u \<in> set users \<and> us_id u = i")
    case True
    then obtain u where u: "u \<in> set users" "us_id u = i" by blast
    have uniq: "u' = u" if "u' \<in> set users" "us_id u' = i" for u'
      using d that u by (auto simp: distinct_map dest: inj_onD)
    have "(\<exists>u \<in> set users. us_id u = i \<and> sc = getLinkAccessScope load i (role_of u))
        \<longleftrightarrow> sc = getLinkAccessScope load i (role_of u)"
      using u uniq by blast
    moreover have "i \<in> set ids \<Longrightarrow> map_of roles i = Some (role_of u)" using known [OF u(1)] u(2) by simp
    ultimately show ?thesis unfolding get by auto
  next
    case False
    then show ?thesis unfolding get using unknown by auto
  qed
qed

text \<open>C10: the gate in front of an agent's rules keeps every rule in its place and passes unchanged exactly the rules whose
  owner is a known user that is an administrator or may use the rule's resource now; every other rule is only marked as
  disabled and denied, so that its listener is taken down. With no database every rule is denied. All of this once some
  rule of the list has an owner: a list with no owner at all passes unchanged.\<close>

theorem gate_passes_authorized_rules_only:
  assumes "distinct (map us_id users)" "\<exists>r \<in> set rules. 0 < positive_id (ru_userId r)"
  shows "gateForwardRulesForRuntime db users load rules
    = map (\<lambda>r. if db \<and> rule_allowed users load r then r else deny_rule r) rules"
proof -
  define ids where "ids = js_distinct (filter (\<lambda>i. i > 0) (map (\<lambda>r. positive_id (ru_userId r)) rules))"
  have mem: "i \<in> set ids \<longleftrightarrow> 0 < i \<and> (\<exists>r \<in> set rules. positive_id (ru_userId r) = i)" for i
    by (auto simp: ids_def)
  then have ne: "ids \<noteq> []" using assms(2) by (metis empty_iff empty_set)
  note look = gate_scope_lookup [OF assms(1), of ids load]
  have pos: "\<forall>i \<in> set ids. 0 < i" using mem by simp
  have dec: "(\<exists>sc. (i \<in> set ids \<and> (\<exists>u \<in> set users. us_id u = i \<and> sc = getLinkAccessScope load i (role_of u)))
        \<and> canUseForwardRuleResource r sc) \<longleftrightarrow> rule_allowed users load r"
    if "r \<in> set rules" "i = positive_id (ru_userId r)" for r i
  proof -
    have "canUseForwardRuleResource r (getLinkAccessScope load i (role_of u))
        \<longleftrightarrow> role_of u = ''admin'' \<or> canUseForwardRuleResource r (Some (load i))" for u
      by (simp add: getLinkAccessScope_def canUse_admin)
    moreover have "rule_allowed users load r \<longleftrightarrow> 0 < i \<and> (\<exists>u \<in> set users. us_id u = i
        \<and> (role_of u = ''admin'' \<or> canUseForwardRuleResource r (Some (load i))))"
      unfolding rule_allowed_def that(2) by metis
    moreover have "i \<in> set ids \<longleftrightarrow> 0 < i" using that mem by blast
    ultimately show ?thesis by metis
  qed
  have ex: "(case m of Some (Some scope) \<Rightarrow> canUseForwardRuleResource r scope | _ \<Rightarrow> False)
       \<longleftrightarrow> (\<exists>sc. m = Some (Some sc) \<and> canUseForwardRuleResource r sc)" for m and r :: "'a RuntimeRule_scheme"
    by (auto split: option.splits)
  show ?thesis
  proof (cases db)
    case True
    then show ?thesis
      unfolding gateForwardRulesForRuntime_def Let_def ids_def [symmetric] ex look [OF pos]
      using ne by (simp only: dec [OF _ refl] if_False if_True simp_thms cong: map_cong)
  next
    case False
    then show ?thesis using ne by (simp add: gateForwardRulesForRuntime_def Let_def ids_def [symmetric])
  qed
qed

section \<open>What a user sees of a shared tunnel\<close>

text \<open>The hosts in the scope, the hosts that a tunnel and a view of it name, and the host records in them, each with the
  host identifier it stands beside.\<close>

definition visible_hosts :: "LinkAccessScope \<Rightarrow> jsnum set" where
  "visible_hosts scope = {inum h |h. h \<in> set (ls_hostIds scope) \<and> 0 < h}"

definition named_hosts :: "('h, 'x, 'r) TunnelFields \<Rightarrow> jsnum set" where
  "named_hosts t = scope_number ` ({tf_entryHostId t, tf_exitHostId t} \<union> set (tf_hopHostIds t) \<union> eh_id ` set (tf_hopHosts t)
     \<union> lb_hostId ` set (tf_loadBalanceExits t))"

definition shown_hosts :: "('h, 'x, 'r) TunnelView \<Rightarrow> jsnum set" where
  "shown_hosts v = scope_number ` ({tv_entryHostId v, tv_exitHostId v} - {JNull}) \<union> set (tv_hopHostIds v)
     \<union> (scope_number \<circ> eh_id) ` set (tv_hopHosts v) \<union> (scope_number \<circ> lb_hostId) ` set (tv_loadBalanceExits v)"

definition beside :: "jsval \<Rightarrow> 'a option \<Rightarrow> (jsnum \<times> 'a) set" where
  "beside hostId r = {scope_number hostId} \<times> set_option r"

definition tunnel_records :: "('h, 'x, 'r) TunnelFields \<Rightarrow> (jsnum \<times> 'h EndpointHost_scheme) set" where
  "tunnel_records t = beside (tf_entryHostId t) (tf_entryHost t) \<union> beside (tf_exitHostId t) (tf_exitHost t)
     \<union> (\<Union>h \<in> set (tf_hopHosts t). beside (eh_id h) (Some h)) \<union> (\<Union>e \<in> set (tf_loadBalanceExits t). beside (lb_hostId e) (lb_host e))"

definition shown_records :: "('h, 'x, 'r) TunnelView \<Rightarrow> (jsnum \<times> 'h EndpointHost_scheme) set" where
  "shown_records v = beside (tv_entryHostId v) (tv_entryHost v) \<union> beside (tv_exitHostId v) (tv_exitHost v)
     \<union> (\<Union>h \<in> set (tv_hopHosts v). beside (eh_id h) (Some h)) \<union> (\<Union>e \<in> set (tv_loadBalanceExits v). beside (lb_hostId e) (lb_host e))"

definition shown_group_records :: "EndpointHost EndpointGroup \<Rightarrow> jsnum set" where
  "shown_group_records grp = {scope_number (eh_id h) |m h. m \<in> set (eg_members grp) \<and> gm_host m = Some h \<and> truthy (eh_id h)}"

definition group_visible_hosts :: "LinkAccessScope \<Rightarrow> int \<Rightarrow> int set" where
  "group_visible_hosts scope g = set (ls_hostIds scope)
     \<union> (case scope_get (ls_groupHostIds scope) g of None \<Rightarrow> {} | Some hs \<Rightarrow> set hs)"

lemma has_number_iff: "has_number ids v \<longleftrightarrow> scope_number v \<in> inum ` set ids"
  by (auto simp: has_number_def list_ex_iff)

lemma allowedHost_number: "allowedHost scope h \<Longrightarrow> scope_number h \<in> inum ` set (ls_hostIds scope)"
  by (simp add: allowedHost_def has_number_iff)

lemma allowedHost_to_number: "allowedHost scope h \<Longrightarrow> to_number h = scope_number h"
  by (auto simp: allowedHost_def scope_number_def split: if_splits)

lemma scope_number_null_if_nullish [simp]: "scope_number (null_if_nullish v) = scope_number v"
  by (cases v) (auto simp: scope_number_def null_if_nullish_def)

lemma hop_lists_zip:
  fixes ids cs :: "jsval list"
  defines "addr \<equiv> (\<lambda>i. if i < length cs then null_if_nullish (cs ! i) else JNull)"
  shows "zip (map (\<lambda>i. to_number (ids ! i)) (filter (\<lambda>i. P (ids ! i)) [0..<length ids]))
       (map addr (filter (\<lambda>i. P (ids ! i)) [0..<length ids]))
     = map (\<lambda>(h, c). (to_number h, c)) (filter (\<lambda>(h, c). P h) (zip ids (map addr [0..<length ids])))"
proof -
  have "zip ids (map addr [0..<length ids]) = map (\<lambda>i. (ids ! i, addr i)) [0..<length ids]"
    by (rule nth_equalityI) auto
  then show ?thesis by (simp add: zip_map_map filter_map o_def zip_same_conv_map)
qed

lemma endpoint_group_parts:
  assumes "filterTunnelEndpointGroup (Some g) scope = Some grp"
  shows "eg_id grp = eg_id g" "positive_id (eg_id g) \<in> set (ls_groupIds scope)"
    "set (eg_members grp) \<subseteq> endpoint_member scope (positive_id (eg_id g)) ` set (eg_members g)"
  using assms by (auto simp: filterTunnelEndpointGroup_def Let_def split: if_splits)

lemma endpoint_member_host:
  assumes "gm_host (endpoint_member scope g m) = Some h" "truthy (eh_id h)"
  shows "scope_number (eh_id h) \<in> inum ` group_visible_hosts scope g"
proof -
  obtain h' where h': "gm_host m = Some h'" "eh_id h = eh_id h'"
    using assms(1) by (auto simp: endpoint_member_def filterTunnelEndpointHost_def Let_def split: if_splits)
  then have "allowedHost scope (eh_id h) \<or> in_optional (scope_get (ls_groupHostIds scope) g) (eh_id h)"
    using assms by (auto simp: endpoint_member_def Let_def split: if_splits)
  then show ?thesis
    by (auto simp: group_visible_hosts_def in_optional_def has_number_iff split: option.splits dest: allowedHost_number)
qed

lemma allowedHost_visible: "allowedHost scope h \<longleftrightarrow> scope_number h \<in> visible_hosts scope"
  by (auto simp: allowedHost_def has_number_iff visible_hosts_def)

lemma beside_visible:
  "beside (if allowedHost scope i then i else JNull) (if allowedHost scope i then r else None) = {x \<in> beside i r. fst x \<in> visible_hosts scope}"
  by (auto simp: beside_def allowedHost_visible)

lemma view_names_visible_hosts:
  "shown_hosts (filterTunnelFieldsForUser tunnel scope) = named_hosts tunnel \<inter> visible_hosts scope"
proof -
  have null: "scope_number JNull \<notin> visible_hosts scope" by (auto simp: visible_hosts_def scope_number_def)
  have ends: "scope_number ` ({if allowedHost scope i then i else JNull, if allowedHost scope j then j else JNull} - {JNull})
      = scope_number ` {i, j} \<inter> visible_hosts scope" for i j
    using null by (auto simp: allowedHost_visible)
  have hops: "set (map (\<lambda>i. to_number (ids ! i)) (filter (\<lambda>i. allowedHost scope (ids ! i)) [0..<length ids]))
      = scope_number ` set ids \<inter> visible_hosts scope" for ids
  proof -
    have "set (map (\<lambda>i. to_number (ids ! i)) (filter (\<lambda>i. allowedHost scope (ids ! i)) [0..<length ids])) = to_number ` {h \<in> set ids. allowedHost scope h}"
      by (auto simp: in_set_conv_nth image_iff)
    also have "\<dots> = scope_number ` {h \<in> set ids. allowedHost scope h}" by (rule image_cong [OF refl]) (auto dest: allowedHost_to_number)
    finally show ?thesis by (auto simp: allowedHost_visible)
  qed
  have flt: "(scope_number \<circ> f) ` {x \<in> X. allowedHost scope (f x)} = scope_number ` f ` X \<inter> visible_hosts scope" for f :: "'z \<Rightarrow> jsval" and X
    by (auto simp: allowedHost_visible)
  show ?thesis
    unfolding shown_hosts_def filterTunnelFieldsForUser_def Let_def TunnelView.simps hops ends set_filter
    by (simp add: named_hosts_def flt image_Un image_image Int_Un_distrib2 o_def Un_assoc) (auto simp: allowedHost_visible)
qed

lemma view_records_visible_hosts:
  "shown_records (filterTunnelFieldsForUser tunnel scope) = {x \<in> tunnel_records tunnel. fst x \<in> visible_hosts scope}"
proof -
  have hops: "(\<Union>h \<in> set (filter (\<lambda>h. allowedHost scope (eh_id h)) hs). beside (eh_id h) (Some h))
      = {x \<in> (\<Union>h \<in> set hs. beside (eh_id h) (Some h)). fst x \<in> visible_hosts scope}" for hs :: "'a EndpointHost_scheme list"
    by (auto simp: beside_def allowedHost_visible)
  have exits: "(\<Union>e \<in> set (map (\<lambda>e. e\<lparr>lb_host := if allowedHost scope (lb_hostId e) then lb_host e else None\<rparr>)
        (filter (\<lambda>e. allowedHost scope (lb_hostId e)) es)). beside (lb_hostId e) (lb_host e))
      = {x \<in> (\<Union>e \<in> set es. beside (lb_hostId e) (lb_host e)). fst x \<in> visible_hosts scope}" for es :: "('a EndpointHost_scheme, 'b) LoadBalanceExit list"
    by (auto simp: beside_def allowedHost_visible)
  show ?thesis
    unfolding shown_records_def filterTunnelFieldsForUser_def Let_def TunnelView.simps beside_visible hops exits
    by (auto simp: tunnel_records_def)
qed

text \<open>C30: what a user sees of the hosts of a tunnel, exactly. The view names, as an end, a hop, the record of a hop or an exit,
  exactly those hosts of the tunnel that are in the user's scope, and it has the record of a host (of the ends, the hops and
  the load-balanced exits) exactly when the host it stands beside is in the scope. The address of the exit is shown exactly when the exit is visible,
  only visible groups are named, and the entry group is shown only when it is visible, its host records being of hosts visible on their
  own or as members of that group. A hop that is hidden takes its address along: the two lists of hops pair every
  visible hop with the address that was stored at its position.\<close>

theorem tunnel_view_shows_visible_hosts_only:
  "let v = filterTunnelFieldsForUser tunnel scope; ids = tf_hopHostIds tunnel; cs = tf_hopConnectHosts tunnel;
       addr = (\<lambda>i. if i < length cs then null_if_nullish (cs ! i) else JNull) in
   shown_hosts v = named_hosts tunnel \<inter> visible_hosts scope
   \<and> shown_records v = {x \<in> tunnel_records tunnel. fst x \<in> visible_hosts scope}
   \<and> tv_connectHost v = (if scope_number (tf_exitHostId tunnel) \<in> visible_hosts scope then null_if_nullish (tf_connectHost tunnel) else JNull)
   \<and> scope_number ` ({tv_entryGroupId v, tv_exitGroupId v} - {JNull}) \<subseteq> inum ` set (ls_groupIds scope)
   \<and> (case tv_entryGroup v of None \<Rightarrow> True
      | Some grp \<Rightarrow> positive_id (eg_id grp) \<in> set (ls_groupIds scope)
          \<and> shown_group_records grp \<subseteq> inum ` group_visible_hosts scope (positive_id (eg_id grp)))
   \<and> length (tv_hopConnectHosts v) = length (tv_hopHostIds v)
   \<and> zip (tv_hopHostIds v) (tv_hopConnectHosts v)
       = map (\<lambda>(h, c). (to_number h, c)) (filter (\<lambda>(h, c). allowedHost scope h) (zip ids (map addr [0..<length ids])))"
proof -
  define v where "v = filterTunnelFieldsForUser tunnel scope"
  have shown: "shown_hosts v = named_hosts tunnel \<inter> visible_hosts scope"
    "shown_records v = {x \<in> tunnel_records tunnel. fst x \<in> visible_hosts scope}"
    by (simp_all add: v_def view_names_visible_hosts view_records_visible_hosts)
  have addr: "tv_connectHost v = (if scope_number (tf_exitHostId tunnel) \<in> visible_hosts scope then null_if_nullish (tf_connectHost tunnel) else JNull)"
    "scope_number ` ({tv_entryGroupId v, tv_exitGroupId v} - {JNull}) \<subseteq> inum ` set (ls_groupIds scope)"
    by (auto simp: v_def filterTunnelFieldsForUser_def Let_def allowedHost_visible has_number_iff)
  have grp: "positive_id (eg_id grp) \<in> set (ls_groupIds scope)
      \<and> shown_group_records grp \<subseteq> inum ` group_visible_hosts scope (positive_id (eg_id grp))"
    if "filterTunnelEndpointGroup (tf_entryGroup tunnel) scope = Some grp" for grp
  proof -
    obtain g where eg: "tf_entryGroup tunnel = Some g"
      using \<open>filterTunnelEndpointGroup (tf_entryGroup tunnel) scope = Some grp\<close>
      by (cases "tf_entryGroup tunnel") (simp_all add: filterTunnelEndpointGroup_def)
    note g = that [unfolded eg]
    have "scope_number (eh_id h) \<in> inum ` group_visible_hosts scope (positive_id (eg_id grp))"
      if "m \<in> set (eg_members grp)" "gm_host m = Some h" "truthy (eh_id h)" for m h
      using that endpoint_group_parts [OF g] endpoint_member_host [of scope "positive_id (eg_id g)"]
      by fastforce
    then show ?thesis using endpoint_group_parts [OF g] by (auto simp: shown_group_records_def)
  qed
  then have "case tv_entryGroup v of None \<Rightarrow> True
      | Some grp \<Rightarrow> positive_id (eg_id grp) \<in> set (ls_groupIds scope)
          \<and> shown_group_records grp \<subseteq> inum ` group_visible_hosts scope (positive_id (eg_id grp))"
    by (auto simp: v_def filterTunnelFieldsForUser_def Let_def split: option.split)
  moreover have "length (tv_hopConnectHosts v) = length (tv_hopHostIds v)
    \<and> zip (tv_hopHostIds v) (tv_hopConnectHosts v) = map (\<lambda>(h, c). (to_number h, c)) (filter (\<lambda>(h, c). allowedHost scope h)
        (zip (tf_hopHostIds tunnel) (map (\<lambda>i. if i < length (tf_hopConnectHosts tunnel) then null_if_nullish (tf_hopConnectHosts tunnel ! i)
           else JNull) [0..<length (tf_hopHostIds tunnel)])))"
    by (simp add: v_def Let_def filterTunnelFieldsForUser_def hop_lists_zip)
  ultimately show ?thesis unfolding Let_def v_def [symmetric] using shown addr by blast
qed

definition sample_scope :: LinkAccessScope where
  "sample_scope = \<lparr>ls_hostIds = [3], ls_tunnelIds = [], ls_groupIds = [7, 8], ls_useHostIds = Some [3], ls_useTunnelIds = Some [],
     ls_useGroupIds = Some [7], ls_groupHostIds = Some [(7, [4])], ls_groupTunnelIds = Some []\<rparr>"

definition sample_rule :: "int \<Rightarrow> int \<Rightarrow> RuntimeRule" where
  "sample_rule user grp = \<lparr>ru_userId = JNum (inum user), ru_forwardGroupId = JNum (inum grp), ru_tunnelId = JNull,
     ru_hostId = JNum (inum 3), ru_isEnabled = JBool True, ru_resourceAccessDenied = JUndefined\<rparr>"

theorem gate_passes_authorized_rules_only_witness:
  "gateForwardRulesForRuntime True [\<lparr>us_id = 1, us_role = None\<rparr>, \<lparr>us_id = 2, us_role = Some ''admin''\<rparr>] (\<lambda>_. sample_scope)
     [sample_rule 1 7, sample_rule 1 8, sample_rule 2 8, sample_rule 9 7, sample_rule 1 0]
   = [sample_rule 1 7, deny_rule (sample_rule 1 8), sample_rule 2 8, deny_rule (sample_rule 9 7), sample_rule 1 0]"
  by (subst gate_passes_authorized_rules_only)
    (simp_all add: sample_rule_def sample_scope_def rule_allowed_def role_of_def canUseForwardRuleResource_def use_ids_def
      positive_id_def)

end
