(* ===== verification/QueryCache.thy ===== *)
theory QueryCache
  imports Prelude
begin

text \<open>
  The cache of query results (server/queryCache.ts): entries that are fresh for a while, then stale and refreshed in the
  background, and callers that share the load in progress. The handlers of a load run when it settles; between the steps
  any other call may come. A promise is the number of its load, an undefined value is \<open>None\<close>, times are milliseconds.
\<close>

section \<open>State and operations\<close>

record 'v CacheEntry =
  ce_freshUntil :: int
  ce_staleUntil :: int
  ce_value :: "'v option"
  ce_promise :: "nat option"

record CacheQueryOptions =
  co_ttlMs :: int
  co_staleMs :: "int option"

text \<open>A load that has not settled: the variables its handlers close over.\<close>

record running_load =
  rl_id :: nat
  rl_key :: string
  rl_ttlMs :: int
  rl_staleMs :: int

record 'v query_cache =
  qc_entries :: "(string \<times> 'v CacheEntry) list"
  qc_loads :: "running_load list"
  qc_next :: nat

datatype 'v answer = Value 'v | Wait nat

definition createQueryCache :: "'v query_cache" where
  "createQueryCache = \<lparr>qc_entries = [], qc_loads = [], qc_next = 0\<rparr>"

abbreviation idle :: "string \<times> 'v CacheEntry \<Rightarrow> bool" where
  "idle e \<equiv> ce_promise (snd e) = None"

definition live_entries :: "int \<Rightarrow> (string \<times> 'v CacheEntry) list \<Rightarrow> (string \<times> 'v CacheEntry) list" where
  "live_entries now = filter (\<lambda>e. \<not> (idle e \<and> ce_staleUntil (snd e) \<le> now))"

definition evicted :: "nat \<Rightarrow> (string \<times> 'v CacheEntry) list \<Rightarrow> (string \<times> 'v CacheEntry) list" where
  "evicted maxEntries kept =
     (let removable = sort_key (\<lambda>e. ce_staleUntil (snd e)) (filter idle kept) in take (length kept - maxEntries) removable)"

definition prune :: "nat \<Rightarrow> int \<Rightarrow> (string \<times> 'v CacheEntry) list \<Rightarrow> (string \<times> 'v CacheEntry) list" where
  "prune maxEntries now cache =
     (let kept = live_entries now cache in
      if length kept \<le> maxEntries then kept
      else fold (\<lambda>e. alist_delete (fst e)) (evicted maxEntries kept) kept)"

definition refresh :: "string \<Rightarrow> int \<Rightarrow> int \<Rightarrow> 'v query_cache \<Rightarrow> nat \<times> 'v query_cache" where
  "refresh key ttl stale s =
     (let p = qc_next s;
          entry = (case map_of (qc_entries s) key of
             None \<Rightarrow> \<lparr>ce_freshUntil = 0, ce_staleUntil = 0, ce_value = None, ce_promise = Some p\<rparr>
           | Some existing \<Rightarrow> existing\<lparr>ce_promise := Some p\<rparr>)
      in (p, s\<lparr>qc_entries := alist_set key entry (qc_entries s),
               qc_loads := qc_loads s @ [\<lparr>rl_id = p, rl_key = key, rl_ttlMs = ttl, rl_staleMs = stale\<rparr>],
               qc_next := Suc p\<rparr>))"

definition load_done :: "nat \<Rightarrow> nat \<Rightarrow> 'v option \<Rightarrow> int \<Rightarrow> int \<Rightarrow> 'v query_cache \<Rightarrow> 'v query_cache" where
  "load_done maxEntries p value now pruneNow s =
     (case find (\<lambda>l. rl_id l = p) (qc_loads s) of None \<Rightarrow> s
      | Some l \<Rightarrow> s\<lparr>qc_entries := prune maxEntries pruneNow (alist_set (rl_key l)
            \<lparr>ce_freshUntil = now + rl_ttlMs l, ce_staleUntil = now + rl_ttlMs l + rl_staleMs l, ce_value = value, ce_promise = None\<rparr>
            (qc_entries s)),
          qc_loads := filter (\<lambda>l. rl_id l \<noteq> p) (qc_loads s)\<rparr>)"

definition load_failed :: "nat \<Rightarrow> 'v query_cache \<Rightarrow> 'v query_cache" where
  "load_failed p s =
     (case find (\<lambda>l. rl_id l = p) (qc_loads s) of None \<Rightarrow> s
      | Some l \<Rightarrow> s\<lparr>qc_entries := (case map_of (qc_entries s) (rl_key l) of None \<Rightarrow> qc_entries s
            | Some cached \<Rightarrow>
                if ce_value cached \<noteq> None then alist_set (rl_key l) (cached\<lparr>ce_promise := None\<rparr>) (qc_entries s)
                else if ce_promise cached = Some p then alist_delete (rl_key l) (qc_entries s)
                else qc_entries s),
          qc_loads := filter (\<lambda>l. rl_id l \<noteq> p) (qc_loads s)\<rparr>)"

definition stale_of :: "CacheQueryOptions \<Rightarrow> int" where
  "stale_of options = (case co_staleMs options of None \<Rightarrow> co_ttlMs options | Some n \<Rightarrow> n)"

definition get_cached :: "string \<Rightarrow> CacheQueryOptions \<Rightarrow> int \<Rightarrow> 'v query_cache \<Rightarrow> 'v answer \<times> 'v query_cache" where
  "get_cached key options now s =
     (let load = (\<lambda>s. refresh key (co_ttlMs options) (stale_of options) s);
          start = (case load s of (p, s') \<Rightarrow> (Wait p, s')) in
      case map_of (qc_entries s) key of None \<Rightarrow> start
      | Some cached \<Rightarrow>
          (case ce_value cached of
             Some v \<Rightarrow>
               if ce_freshUntil cached > now then (Value v, s)
               else if ce_staleUntil cached > now
               then (Value v, if ce_promise cached = None then snd (load s) else s)
               else (case ce_promise cached of Some p \<Rightarrow> (Wait p, s) | None \<Rightarrow> start)
           | None \<Rightarrow> (case ce_promise cached of Some p \<Rightarrow> (Wait p, s) | None \<Rightarrow> start)))"

definition clear_cache :: "'v query_cache \<Rightarrow> 'v query_cache" where
  "clear_cache s = s\<lparr>qc_entries := []\<rparr>"

text \<open>A run of the cache: the calls and the ends of loads in the order they happen.\<close>

datatype 'v cache_event =
  Get string CacheQueryOptions int
| Loaded nat "'v option" int int
| Failed nat
| Prune int
| Clear

fun apply_event :: "nat \<Rightarrow> 'v cache_event \<Rightarrow> 'v query_cache \<Rightarrow> 'v query_cache" where
  "apply_event mx (Get key options now) s = snd (get_cached key options now s)"
| "apply_event mx (Loaded p v now now') s = load_done mx p v now now' s"
| "apply_event mx (Failed p) s = load_failed p s"
| "apply_event mx (Prune now) s = s\<lparr>qc_entries := prune mx now (qc_entries s)\<rparr>"
| "apply_event mx Clear s = clear_cache s"

definition cache_run :: "nat \<Rightarrow> 'v cache_event list \<Rightarrow> 'v query_cache" where
  "cache_run mx evs = fold (apply_event mx) evs createQueryCache"

lemma cache_run_simps [simp]:
  "cache_run mx [] = createQueryCache" "cache_run mx (evs @ [e]) = apply_event mx e (cache_run mx evs)"
  by (simp_all add: cache_run_def)

section \<open>How calls change the cache\<close>

lemma get_cached_state: "snd (get_cached key options now s) = s \<or>
    snd (get_cached key options now s) = snd (refresh key (co_ttlMs options) (stale_of options) s)
    \<and> (case map_of (qc_entries s) key of None \<Rightarrow> True | Some e \<Rightarrow> ce_promise e = None)"
  by (auto simp: get_cached_def Let_def split: option.splits prod.splits)

lemma fold_alist_delete: "fold (\<lambda>e. alist_delete (fst e)) xs m = filter (\<lambda>e. fst e \<notin> fst ` set xs) m"
  by (induction xs arbitrary: m) (auto simp: alist_delete_def intro!: filter_cong)


text \<open>An entry holds something when it has a value or has no load to wait for; the others only mark a first load.\<close>

definition holding :: "string \<times> 'v CacheEntry \<Rightarrow> bool" where
  "holding e \<longleftrightarrow> ce_promise (snd e) = None \<or> ce_value (snd e) \<noteq> None"

lemma evicted_idle: "set (evicted mx kept) \<subseteq> {e \<in> set kept. idle e}"
  using set_take_subset by (fastforce simp: evicted_def)

lemma prune_eq:
  "prune mx now m = (let kept = live_entries now m in
     if length kept \<le> mx then kept else filter (\<lambda>e. fst e \<notin> fst ` set (evicted mx kept)) kept)"
  by (simp add: prune_def Let_def fold_alist_delete)

lemma keys_distinct_unique: "keys_distinct m \<Longrightarrow> e \<in> set m \<Longrightarrow> e' \<in> set m \<Longrightarrow> fst e' = fst e \<Longrightarrow> e' = e"
  by (auto simp: keys_distinct_def distinct_map dest: inj_onD)

lemma set_prune: "set (prune mx now m) \<subseteq> set m"
  by (auto simp: prune_eq Let_def live_entries_def)

lemma keys_distinct_prune: "keys_distinct m \<Longrightarrow> keys_distinct (prune mx now m)"
  by (simp add: prune_eq Let_def live_entries_def keys_distinct_filter)

lemma prune_keeps_loading:
  assumes "keys_distinct m" "e \<in> set m" "\<not> idle e"
  shows "e \<in> set (prune mx now m)"
proof -
  have live: "e \<in> set (live_entries now m)" using assms by (simp add: live_entries_def)
  have "fst e \<notin> fst ` set (evicted mx (live_entries now m))"
  proof
    assume "fst e \<in> fst ` set (evicted mx (live_entries now m))"
    then obtain e' where e': "e' \<in> set (live_entries now m)" "idle e'" "fst e' = fst e"
      using evicted_idle [of mx "live_entries now m"] by auto
    then have "e' \<in> set m" by (simp add: live_entries_def)
    then have "e' = e" using keys_distinct_unique [OF assms(1,2)] e'(3) by simp
    then show False using e'(2) assms(3) by simp
  qed
  then show ?thesis using live by (simp add: prune_eq Let_def)
qed

lemma length_evict:
  assumes "distinct (map fst kept)"
  shows "length (filter (\<lambda>e. fst e \<notin> fst ` set (evicted mx kept)) kept) = length kept - length (evicted mx kept)"
proof -
  let ?gone = "evicted mx kept"
  have "distinct kept" using assms by (simp add: distinct_map)
  then have dg: "distinct ?gone" by (simp add: evicted_def)
  have "set (filter (\<lambda>e. fst e \<in> fst ` set ?gone) kept) = set ?gone"
    using evicted_idle [of mx kept] assms by (auto simp: distinct_map dest: inj_onD)
  then have "length (filter (\<lambda>e. fst e \<in> fst ` set ?gone) kept) = length ?gone"
    using dg \<open>distinct kept\<close> by (metis distinct_card distinct_filter)
  then show ?thesis
    using sum_length_filter_compl [of "\<lambda>e. fst e \<in> fst ` set ?gone" kept] by simp
qed

lemma length_filter_imp: "(\<And>x. P x \<Longrightarrow> Q x) \<Longrightarrow> length (filter P xs) \<le> length (filter Q xs)"
  by (induction xs) auto

lemma prune_bound:
  assumes d: "keys_distinct m" and v: "length (filter (\<lambda>e. holding e \<and> \<not> idle e) m) \<le> mx"
  shows "length (filter holding (prune mx now m)) \<le> mx"
proof -
  define kept where "kept = live_entries now m"
  define final where "final = filter (\<lambda>e. fst e \<notin> fst ` set (evicted mx kept)) kept"
  have dk: "distinct (map fst kept)" using d by (simp add: kept_def live_entries_def keys_distinct_def distinct_map_filter)
  show ?thesis
  proof (cases "length kept \<le> mx")
    case True
    then have "prune mx now m = kept" by (simp add: prune_eq Let_def kept_def)
    then show ?thesis using le_trans [OF length_filter_le True] by simp
  next
    case big: False
    then have pr: "prune mx now m = final" by (simp add: prune_eq Let_def kept_def final_def)
    show ?thesis
    proof (cases "length kept - mx \<le> length (filter idle kept)")
      case True
      then have "length final = mx" using length_evict [OF dk, of mx] big by (simp add: final_def evicted_def Let_def)
      then show ?thesis unfolding pr by (intro le_trans [OF length_filter_le]) simp
    next
      case False
      then have "set (evicted mx kept) = {e \<in> set kept. idle e}" by (simp add: evicted_def)
      then have "filter holding final = filter (\<lambda>e. holding e \<and> \<not> idle e) final"
        by (intro filter_cong refl) (auto simp: final_def)
      moreover have "length (filter (\<lambda>e. holding e \<and> \<not> idle e) final) \<le> length (filter (\<lambda>e. holding e \<and> \<not> idle e) m)"
        unfolding final_def kept_def live_entries_def filter_filter conj_assoc [symmetric]
        by (rule length_filter_imp) blast
      ultimately show ?thesis unfolding pr using v by simp
    qed
  qed
qed

section \<open>The cache as a whole\<close>

definition loads_ok :: "'v query_cache \<Rightarrow> bool" where
  "loads_ok s \<longleftrightarrow> keys_distinct (qc_entries s) \<and> distinct (map rl_id (qc_loads s)) \<and> (\<forall>l \<in> set (qc_loads s). rl_id l < qc_next s)
     \<and> (\<forall>k e p. map_of (qc_entries s) k = Some e \<and> ce_promise e = Some p \<longrightarrow> (\<exists>l \<in> set (qc_loads s). rl_id l = p \<and> rl_key l = k))"

lemma map_of_prune: "keys_distinct m \<Longrightarrow> map_of (prune mx now m) k = Some e \<Longrightarrow> map_of m k = Some e"
  using set_prune [of mx now m] keys_distinct_prune [of m mx now] by (auto simp flip: keys_distinct_mem)

lemma find_load:
  "find (\<lambda>l. rl_id l = p) ls = Some l \<Longrightarrow> l \<in> set ls \<and> rl_id l = p"
  by (auto simp: find_Some_iff)

lemma loads_ok_refresh:
  assumes "loads_ok s"
  shows "loads_ok (snd (refresh key ttl stale s))"
  using assms
  by (fastforce simp: loads_ok_def refresh_def Let_def alist_simps less_Suc_eq split: option.splits if_splits)

lemma loads_ok_settle:
  assumes ok: "loads_ok s" and l: "l \<in> set (qc_loads s)" "rl_id l = p"
    and m: "keys_distinct m" "\<And>k e. k \<noteq> rl_key l \<Longrightarrow> map_of m k = Some e \<Longrightarrow> map_of (qc_entries s) k = Some e"
      "\<And>e. map_of m (rl_key l) = Some e \<Longrightarrow> ce_promise e = None \<or>
         map_of (qc_entries s) (rl_key l) = Some e \<and> ce_promise e \<noteq> Some p"
  shows "loads_ok (s\<lparr>qc_entries := m, qc_loads := filter (\<lambda>l. rl_id l \<noteq> p) (qc_loads s)\<rparr>)"
proof -
  have uniq: "l' = l" if "l' \<in> set (qc_loads s)" "rl_id l' = p" for l'
    using ok that l by (auto simp: loads_ok_def distinct_map dest: inj_onD)
  have "\<exists>l' \<in> set (qc_loads s). rl_id l' \<noteq> p \<and> rl_id l' = q \<and> rl_key l' = k"
    if e: "map_of m k = Some e" "ce_promise e = Some q" for k e q
  proof -
    have "map_of (qc_entries s) k = Some e" "k = rl_key l \<longrightarrow> q \<noteq> p"
      using e m(2,3) by (cases "k = rl_key l"; force)+
    then obtain l' where l': "l' \<in> set (qc_loads s)" "rl_id l' = q" "rl_key l' = k"
      using ok e(2) unfolding loads_ok_def by blast
    then have "q \<noteq> p" using uniq [of l'] \<open>k = rl_key l \<longrightarrow> q \<noteq> p\<close> by auto
    then show ?thesis using l' by blast
  qed
  then have "\<exists>l' \<in> set (filter (\<lambda>l. rl_id l \<noteq> p) (qc_loads s)). rl_id l' = q \<and> rl_key l' = k"
    if "map_of m k = Some e" "ce_promise e = Some q" for k e q
    using that by fastforce
  then show ?thesis using ok m(1) by (simp add: loads_ok_def distinct_map_filter)
qed

lemma loads_ok_event:
  assumes ok: "loads_ok s"
  shows "loads_ok (apply_event mx ev s)"
proof -
  have d: "keys_distinct (qc_entries s)" using ok by (simp add: loads_ok_def)
  show ?thesis
  proof (cases ev)
    case (Get key options now)
    then show ?thesis using get_cached_state [of key options now s] ok loads_ok_refresh [OF ok] by auto
  next
    case (Loaded p v now now')
    show ?thesis
    proof (cases "find (\<lambda>l. rl_id l = p) (qc_loads s)")
      case None
      then show ?thesis using ok Loaded by (simp add: load_done_def)
    next
      case (Some l)
      let ?e = "\<lparr>ce_freshUntil = now + rl_ttlMs l, ce_staleUntil = now + rl_ttlMs l + rl_staleMs l, ce_value = v, ce_promise = None\<rparr>"
      have d': "keys_distinct (alist_set (rl_key l) ?e (qc_entries s))" using d by (simp add: alist_simps)
      note find_load [OF Some]
      then have "loads_ok (s\<lparr>qc_entries := prune mx now' (alist_set (rl_key l) ?e (qc_entries s)),
          qc_loads := filter (\<lambda>l. rl_id l \<noteq> p) (qc_loads s)\<rparr>)"
        by (intro loads_ok_settle [OF ok, of l])
          (auto simp: alist_simps keys_distinct_prune d d' dest!: map_of_prune [OF d'])
      then show ?thesis using Loaded Some by (simp add: load_done_def)
    qed
  next
    case (Failed p)
    show ?thesis
    proof (cases "find (\<lambda>l. rl_id l = p) (qc_loads s)")
      case None
      then show ?thesis using ok Failed by (simp add: load_failed_def)
    next
      case (Some l)
      define m where "m = (case map_of (qc_entries s) (rl_key l) of None \<Rightarrow> qc_entries s
            | Some cached \<Rightarrow>
                if ce_value cached \<noteq> None then alist_set (rl_key l) (cached\<lparr>ce_promise := None\<rparr>) (qc_entries s)
                else if ce_promise cached = Some p then alist_delete (rl_key l) (qc_entries s) else qc_entries s)"
      have "loads_ok (s\<lparr>qc_entries := m, qc_loads := filter (\<lambda>l. rl_id l \<noteq> p) (qc_loads s)\<rparr>)"
        by (rule loads_ok_settle [OF ok, of l])
          (use find_load [OF Some] d in \<open>auto simp: m_def alist_simps split: option.splits if_splits\<close>)
      then show ?thesis using Failed Some by (simp add: load_failed_def m_def)
    qed
  next
    case (Prune now)
    then show ?thesis using ok d by (auto simp: loads_ok_def keys_distinct_prune dest!: map_of_prune [OF d])
  qed (use ok in \<open>simp add: loads_ok_def clear_cache_def\<close>)
qed

lemma loads_ok_run: "loads_ok (cache_run mx evs)"
  by (induction evs rule: rev_induct) (simp_all add: loads_ok_event, simp add: loads_ok_def createQueryCache_def)

subsection \<open>The size of the cache\<close>

abbreviation held :: "(string \<times> 'v CacheEntry) list \<Rightarrow> nat" where
  "held m \<equiv> length (filter holding m)"

lemma filter_alist_set:
  "\<not> P (k, e) \<or> (\<exists>e'. map_of m k = Some e' \<and> P (k, e')) \<Longrightarrow>
   length (filter P (alist_set k e m)) \<le> length (filter P m)"
  by (induction k e m rule: alist_set.induct) (auto split: if_splits)

lemma loading_alist_set:
  "ce_promise e = None \<Longrightarrow> length (filter (\<lambda>e. holding e \<and> \<not> idle e) (alist_set k e m)) \<le> held m"
  by (rule le_trans [OF filter_alist_set length_filter_imp]) auto

lemma held_event:
  assumes ok: "loads_ok s" and b: "held (qc_entries s) \<le> mx"
  shows "held (qc_entries (apply_event mx ev s)) \<le> mx"
proof -
  have d: "keys_distinct (qc_entries s)" using ok by (simp add: loads_ok_def)
  show ?thesis
  proof (cases ev)
    case (Get key options now)
    have "held (qc_entries (snd (refresh key ttl stale s))) \<le> held (qc_entries s)" for ttl stale
      by (auto simp: refresh_def Let_def holding_def split: option.splits intro!: filter_alist_set)
    then show ?thesis using get_cached_state [of key options now s] b Get le_trans by fastforce
  next
    case (Loaded p v now now')
    then show ?thesis
      using b le_trans [OF loading_alist_set b]
      by (auto simp: load_done_def d alist_simps split: option.splits intro!: prune_bound)
  next
    case (Failed p)
    have "held (alist_set k (e\<lparr>ce_promise := None\<rparr>) (qc_entries s)) \<le> mx"
      if "map_of (qc_entries s) k = Some e" "ce_value e \<noteq> None" for k e
      using that b by (intro le_trans [OF filter_alist_set]) (auto simp: holding_def)
    moreover have "held (alist_delete k (qc_entries s)) \<le> mx" for k
      unfolding alist_delete_def filter_filter by (rule le_trans [OF length_filter_imp b]) simp
    ultimately show ?thesis using Failed b by (auto simp: load_failed_def split: option.splits)
  next
    case (Prune now)
    have "length (filter (\<lambda>e. holding e \<and> \<not> idle e) (qc_entries s)) \<le> mx"
      by (rule le_trans [OF length_filter_imp b]) simp
    then show ?thesis using Prune prune_bound [OF d] by simp
  qed (simp add: clear_cache_def)
qed

lemma held_run: "held (qc_entries (cache_run mx evs)) \<le> mx"
  by (induction evs rule: rev_induct) (simp_all only: cache_run_simps held_event loads_ok_run, simp add: createQueryCache_def)

lemma loading_entries_bound:
  assumes "loads_ok s"
  shows "length (filter (\<lambda>e. \<not> holding e) (qc_entries s)) \<le> length (qc_loads s)"
proof -
  let ?L = "filter (\<lambda>e. \<not> holding e) (qc_entries s)"
  have d: "distinct (map fst ?L)" using assms by (simp add: loads_ok_def keys_distinct_def distinct_map_filter)
  have "fst ` set ?L \<subseteq> rl_key ` set (qc_loads s)"
  proof
    fix k
    assume "k \<in> fst ` set ?L"
    then obtain e p where "map_of (qc_entries s) k = Some e" "ce_promise e = Some p"
      using assms by (auto simp: loads_ok_def keys_distinct_mem holding_def)
    then show "k \<in> rl_key ` set (qc_loads s)" using assms unfolding loads_ok_def by blast
  qed
  then have "card (fst ` set ?L) \<le> card (rl_key ` set (qc_loads s))" by (simp add: card_mono)
  also have "\<dots> \<le> length (qc_loads s)" by (metis card_image_le card_length finite_set le_trans)
  finally show ?thesis using distinct_card [OF d] by simp
qed

text \<open>C37: the cache never grows beyond its limit by more than the loads in progress, whatever calls, failures and clears
  happen in whatever order.\<close>

theorem cache_size_bounded:
  "length (qc_entries (cache_run mx evs)) \<le> mx + length (qc_loads (cache_run mx evs))"
  using held_run [of mx evs] loading_entries_bound [OF loads_ok_run, of mx evs]
    sum_length_filter_compl [of holding "qc_entries (cache_run mx evs)"] by linarith

subsection \<open>Where cached values come from\<close>

definition started_by :: "nat \<Rightarrow> 'v cache_event list \<Rightarrow> running_load \<Rightarrow> bool" where
  "started_by mx evs l \<longleftrightarrow> (\<exists>pre post options t. evs = pre @ Get (rl_key l) options t # post
     \<and> rl_id l = qc_next (cache_run mx pre) \<and> rl_ttlMs l = co_ttlMs options \<and> rl_staleMs l = stale_of options)"

definition stored_by :: "nat \<Rightarrow> 'v cache_event list \<Rightarrow> string \<Rightarrow> 'v CacheEntry \<Rightarrow> bool" where
  "stored_by mx evs k e \<longleftrightarrow> (\<exists>pre post l t t'. evs = pre @ Loaded (rl_id l) (ce_value e) t t' # post \<and> Clear \<notin> set post
     \<and> started_by mx pre l \<and> rl_key l = k \<and> ce_freshUntil e = t + rl_ttlMs l \<and> ce_staleUntil e = t + rl_ttlMs l + rl_staleMs l)"

lemma started_by_mono: "started_by mx evs l \<Longrightarrow> started_by mx (evs @ [ev]) l"
  unfolding started_by_def by (metis append.assoc append_Cons)

lemma stored_by_mono: "stored_by mx evs k e \<Longrightarrow> ev \<noteq> Clear \<Longrightarrow> stored_by mx (evs @ [ev]) k e"
  unfolding stored_by_def by (elim exE conjE, intro exI conjI) (assumption | simp)+

lemma stored_by_cong:
  "stored_by mx evs k e \<Longrightarrow> ce_value e' = ce_value e \<Longrightarrow> ce_freshUntil e' = ce_freshUntil e \<Longrightarrow>
   ce_staleUntil e' = ce_staleUntil e \<Longrightarrow> stored_by mx evs k e'"
  by (simp add: stored_by_def)

lemma loads_event:
  assumes "l \<in> set (qc_loads (apply_event mx ev s))"
  shows "l \<in> set (qc_loads s) \<or> (\<exists>options t. ev = Get (rl_key l) options t \<and> rl_id l = qc_next s
     \<and> rl_ttlMs l = co_ttlMs options \<and> rl_staleMs l = stale_of options)"
proof (cases ev)
  case (Get key options now)
  then show ?thesis
    using assms get_cached_state [of key options now s] by (auto simp: refresh_def Let_def)
qed (use assms in \<open>auto simp: load_done_def load_failed_def clear_cache_def split: option.splits\<close>)

lemma loads_started: "l \<in> set (qc_loads (cache_run mx evs)) \<Longrightarrow> started_by mx evs l"
proof (induction evs rule: rev_induct)
  case (snoc ev evs)
  show ?case
  proof (cases "l \<in> set (qc_loads (cache_run mx evs))")
    case True
    then show ?thesis by (intro started_by_mono snoc.IH)
  next
    case False
    then obtain options t where "ev = Get (rl_key l) options t" "rl_id l = qc_next (cache_run mx evs)"
      "rl_ttlMs l = co_ttlMs options" "rl_staleMs l = stale_of options"
      using loads_event [of l mx ev "cache_run mx evs"] snoc.prems by auto
    then show ?thesis
      unfolding started_by_def by (intro exI [of _ evs] exI [of _ "[]"] exI [of _ options] exI [of _ t]) simp
  qed
qed (simp add: createQueryCache_def)

lemma entry_event:
  assumes ok: "loads_ok s" and e: "map_of (qc_entries (apply_event mx ev s)) k = Some e" "ce_value e = Some v"
  shows "ev \<noteq> Clear \<and> (\<exists>e'. map_of (qc_entries s) k = Some e' \<and> ce_value e' = ce_value e
        \<and> ce_freshUntil e' = ce_freshUntil e \<and> ce_staleUntil e' = ce_staleUntil e)
    \<or> (\<exists>l t t'. ev = Loaded (rl_id l) (ce_value e) t t' \<and> l \<in> set (qc_loads s) \<and> rl_key l = k
        \<and> ce_freshUntil e = t + rl_ttlMs l \<and> ce_staleUntil e = t + rl_ttlMs l + rl_staleMs l)"
proof -
  have d: "keys_distinct (qc_entries s)" using ok by (simp add: loads_ok_def)
  note dset = keys_distinct_set [OF d]
  show ?thesis
  proof (cases ev)
    case (Get key options now)
    then show ?thesis
      using e get_cached_state [of key options now s]
      by (auto simp: refresh_def Let_def alist_simps split: option.splits if_splits)
  next
    case (Loaded p w now now')
    show ?thesis
    proof (cases "find (\<lambda>l. rl_id l = p) (qc_loads s)")
      case None
      then show ?thesis using e Loaded by (auto simp: load_done_def)
    next
      case (Some l)
      let ?e = "\<lparr>ce_freshUntil = now + rl_ttlMs l, ce_staleUntil = now + rl_ttlMs l + rl_staleMs l, ce_value = w, ce_promise = None\<rparr>"
      have "map_of (alist_set (rl_key l) ?e (qc_entries s)) k = Some e"
        by (rule map_of_prune [OF dset, of mx now']) (use e(1) Loaded Some in \<open>simp add: load_done_def\<close>)
      then show ?thesis
        using find_load [OF Some] Loaded by (cases "k = rl_key l") (auto simp: alist_simps)
    qed
  next
    case (Failed p)
    then show ?thesis using e by (auto simp: load_failed_def alist_simps split: option.splits if_splits)
  next
    case (Prune now)
    then show ?thesis using e by (auto dest: map_of_prune [OF d])
  next
    case Clear
    then show ?thesis using e by (simp add: clear_cache_def)
  qed
qed

lemma entries_stored:
  "map_of (qc_entries (cache_run mx evs)) k = Some e \<Longrightarrow> ce_value e = Some v \<Longrightarrow> stored_by mx evs k e"
proof (induction evs arbitrary: e rule: rev_induct)
  case (snoc ev evs)
  note ev = entry_event [OF loads_ok_run snoc.prems(1) [unfolded cache_run_simps] snoc.prems(2)]
  from ev show ?case
  proof (elim disjE conjE exE)
    fix e'
    assume "ev \<noteq> Clear" "map_of (qc_entries (cache_run mx evs)) k = Some e'" "ce_value e' = ce_value e"
      "ce_freshUntil e' = ce_freshUntil e" "ce_staleUntil e' = ce_staleUntil e"
    then show ?thesis
      using snoc.IH [of e'] snoc.prems(2) stored_by_mono stored_by_cong by metis
  next
    fix l t t'
    assume "ev = Loaded (rl_id l) (ce_value e) t t'" "l \<in> set (qc_loads (cache_run mx evs))" "rl_key l = k"
      "ce_freshUntil e = t + rl_ttlMs l" "ce_staleUntil e = t + rl_ttlMs l + rl_staleMs l"
    then show ?thesis
      using loads_started [of l mx evs] unfolding stored_by_def
      by (intro exI [of _ evs] exI [of _ "[]"] exI [of _ l] exI [of _ t] exI [of _ t']) simp
  qed
qed (simp add: createQueryCache_def)

lemma get_value:
  assumes "fst (get_cached key options now s) = Value v"
  obtains e where "map_of (qc_entries s) key = Some e" "ce_value e = Some v" "now < ce_freshUntil e \<or> now < ce_staleUntil e"
  using assms by (auto simp: get_cached_def Let_def split: option.splits prod.splits if_splits)

text \<open>C11: a value answered at once was loaded for the same key by a load that an earlier call started, it was stored after
  the last clear, and its time to live and stale time, as given by that earlier call, have not both passed.\<close>

theorem answered_value_is_recent:
  assumes "fst (get_cached key options now (cache_run mx evs)) = Value v"
  shows "\<exists>before between after opts t0 p t t'.
    evs = before @ Get key opts t0 # between @ Loaded p (Some v) t t' # after
    \<and> p = qc_next (cache_run mx before) \<and> Clear \<notin> set after \<and> now < t + co_ttlMs opts + max 0 (stale_of opts)"
proof -
  obtain e where e: "map_of (qc_entries (cache_run mx evs)) key = Some e" "ce_value e = Some v"
    "now < ce_freshUntil e \<or> now < ce_staleUntil e"
    using get_value [OF assms] .
  obtain pre post l t t' where p: "evs = pre @ Loaded (rl_id l) (Some v) t t' # post" "Clear \<notin> set post" "started_by mx pre l"
    "rl_key l = key" "ce_freshUntil e = t + rl_ttlMs l" "ce_staleUntil e = t + rl_ttlMs l + rl_staleMs l"
    using entries_stored [OF e(1,2)] e(2) by (auto simp: stored_by_def)
  obtain before between opts t0 where b: "pre = before @ Get key opts t0 # between" "rl_id l = qc_next (cache_run mx before)"
    "rl_ttlMs l = co_ttlMs opts" "rl_staleMs l = stale_of opts"
    using p(3,4) by (auto simp: started_by_def)
  have "now < t + co_ttlMs opts + max 0 (stale_of opts)" using e(3) p(5,6) b(3,4) by linarith
  moreover have "evs = before @ Get key opts t0 # between @ Loaded (rl_id l) (Some v) t t' # post" using p(1) b(1) by simp
  ultimately show ?thesis using p(2) b(2) by blast
qed

theorem answered_value_is_recent_witness:
  "\<exists>before between after opts t0 p t t'.
    [Get ''k'' \<lparr>co_ttlMs = 10, co_staleMs = Some 5\<rparr> 100, Loaded 0 (Some True) 120 120]
      = before @ Get ''k'' opts t0 # between @ Loaded p (Some True) t t' # after
    \<and> p = qc_next (cache_run 1 before) \<and> Clear \<notin> set after \<and> 134 < t + co_ttlMs opts + max 0 (stale_of opts)"
  by (rule answered_value_is_recent [where options = "\<lparr>co_ttlMs = 10, co_staleMs = None\<rparr>"])
    (simp add: cache_run_def createQueryCache_def get_cached_def refresh_def load_done_def prune_def live_entries_def
      evicted_def stale_of_def Let_def)

subsection \<open>One load per key\<close>

definition loads_marked :: "'v query_cache \<Rightarrow> bool" where
  "loads_marked s \<longleftrightarrow> (\<forall>l \<in> set (qc_loads s). \<exists>e. map_of (qc_entries s) (rl_key l) = Some e \<and> ce_promise e = Some (rl_id l))"

lemma marked_unique:
  assumes "loads_ok s" "loads_marked s" "l \<in> set (qc_loads s)" "l' \<in> set (qc_loads s)" "rl_key l = rl_key l'"
  shows "l = l'"
proof -
  have "rl_id l = rl_id l'" using assms(2-5) unfolding loads_marked_def by (metis option.inject)
  then show ?thesis using assms(1,3,4) by (auto simp: loads_ok_def distinct_map dest: inj_onD)
qed

text \<open>Settling one load leaves the marks of the others, which are for other keys.\<close>

lemma loads_marked_settle:
  assumes ok: "loads_ok s" "loads_marked s" and l: "l \<in> set (qc_loads s)" "rl_id l = p"
    and m: "\<And>k e. k \<noteq> rl_key l \<Longrightarrow> map_of (qc_entries s) k = Some e \<Longrightarrow> ce_promise e \<noteq> None \<Longrightarrow> map_of m k = Some e"
  shows "loads_marked (s\<lparr>qc_entries := m, qc_loads := filter (\<lambda>l. rl_id l \<noteq> p) (qc_loads s)\<rparr>)"
  unfolding loads_marked_def
proof
  fix l'
  assume "l' \<in> set (qc_loads (s\<lparr>qc_entries := m, qc_loads := filter (\<lambda>l. rl_id l \<noteq> p) (qc_loads s)\<rparr>))"
  then have l': "l' \<in> set (qc_loads s)" "rl_id l' \<noteq> p" by auto
  then have "rl_key l' \<noteq> rl_key l" using marked_unique [OF ok l'(1) l(1)] l(2) by auto
  moreover obtain e where "map_of (qc_entries s) (rl_key l') = Some e" "ce_promise e = Some (rl_id l')"
    using ok(2) l'(1) by (auto simp: loads_marked_def)
  ultimately show "\<exists>e. map_of (qc_entries (s\<lparr>qc_entries := m, qc_loads := filter (\<lambda>l. rl_id l \<noteq> p) (qc_loads s)\<rparr>)) (rl_key l') = Some e
      \<and> ce_promise e = Some (rl_id l')"
    using m [of "rl_key l'" e] by auto
qed

lemma map_of_prune_loading:
  "keys_distinct m \<Longrightarrow> map_of m k = Some e \<Longrightarrow> ce_promise e \<noteq> None \<Longrightarrow> map_of (prune mx now m) k = Some e"
  using prune_keeps_loading [of m "(k, e)" mx now] keys_distinct_prune [of m mx now]
  by (simp add: keys_distinct_mem)

lemma loads_marked_event:
  assumes ok: "loads_ok s" "loads_marked s" and "ev \<noteq> Clear"
  shows "loads_marked (apply_event mx ev s)"
proof -
  have d: "keys_distinct (qc_entries s)" using ok by (simp add: loads_ok_def)
  show ?thesis
  proof (cases ev)
    case (Get key options now)
    have "loads_marked (snd (refresh key ttl stale s))"
      if "case map_of (qc_entries s) key of None \<Rightarrow> True | Some e \<Rightarrow> ce_promise e = None" for ttl stale
      using ok(2) that by (fastforce simp: loads_marked_def refresh_def Let_def alist_simps split: option.splits)
    then show ?thesis using get_cached_state [of key options now s] ok(2) Get by auto
  next
    case (Loaded p v now now')
    show ?thesis
    proof (cases "find (\<lambda>l. rl_id l = p) (qc_loads s)")
      case None
      then show ?thesis using ok Loaded by (simp add: load_done_def)
    next
      case (Some l)
      then show ?thesis
        using find_load [OF Some] Loaded
        by (auto simp: load_done_def alist_simps d intro!: loads_marked_settle [OF ok] map_of_prune_loading)
    qed
  next
    case (Failed p)
    show ?thesis
    proof (cases "find (\<lambda>l. rl_id l = p) (qc_loads s)")
      case None
      then show ?thesis using ok Failed by (simp add: load_failed_def)
    next
      case (Some l)
      define m where "m = (case map_of (qc_entries s) (rl_key l) of None \<Rightarrow> qc_entries s
            | Some cached \<Rightarrow>
                if ce_value cached \<noteq> None then alist_set (rl_key l) (cached\<lparr>ce_promise := None\<rparr>) (qc_entries s)
                else if ce_promise cached = Some p then alist_delete (rl_key l) (qc_entries s) else qc_entries s)"
      have "loads_marked (s\<lparr>qc_entries := m, qc_loads := filter (\<lambda>l. rl_id l \<noteq> p) (qc_loads s)\<rparr>)"
        by (rule loads_marked_settle [OF ok, of l])
          (use find_load [OF Some] in \<open>auto simp: m_def alist_simps split: option.splits\<close>)
      then show ?thesis using Failed Some by (simp add: load_failed_def m_def)
    qed
  next
    case (Prune now)
    then show ?thesis using ok(2) map_of_prune_loading [OF d] by (fastforce simp: loads_marked_def)
  qed (use assms in simp)
qed

lemma loads_marked_run: "Clear \<notin> set evs \<Longrightarrow> loads_marked (cache_run mx evs)"
  by (induction evs rule: rev_induct) (auto simp: loads_marked_event loads_ok_run, simp add: loads_marked_def createQueryCache_def)

lemma wait_for_running_load:
  assumes "loads_ok s" "get_cached key options now s = (Wait p, s')"
  shows "\<exists>l \<in> set (qc_loads s'). rl_id l = p \<and> rl_key l = key"
proof -
  consider "s' = s" "\<exists>e. map_of (qc_entries s) key = Some e \<and> ce_promise e = Some p"
    | "(p, s') = refresh key (co_ttlMs options) (stale_of options) s"
    using assms(2) by (auto simp: get_cached_def Let_def split: option.splits prod.splits if_splits)
  then show ?thesis
  proof cases
    case 1
    then show ?thesis using assms(1) unfolding loads_ok_def by blast
  qed (simp add: refresh_def Let_def)
qed

text \<open>Callers share loads. A caller that has to wait waits for a running load of the key it asked for, and as long as
  the cache is not cleared at most one load per key runs at any time, also when loads fail.\<close>

theorem one_load_per_key:
  assumes "Clear \<notin> set evs"
  shows "distinct (map rl_key (qc_loads (cache_run mx evs)))
    \<and> (case get_cached key options now (cache_run mx evs) of (Value v, s) \<Rightarrow> True
       | (Wait p, s) \<Rightarrow> map rl_id (filter (\<lambda>l. rl_key l = key) (qc_loads s)) = [p])"
proof -
  have keys: "distinct (map rl_key (qc_loads (cache_run mx evs)))" if "Clear \<notin> set evs" for evs :: "'a cache_event list"
    using marked_unique [OF loads_ok_run loads_marked_run [OF that]] loads_ok_run [of mx evs]
    by (auto simp: loads_ok_def distinct_map inj_on_def)
  have single: "map rl_id (filter (\<lambda>l. rl_key l = key) ls) = [rl_id l]"
    if "distinct (map rl_key ls)" "l \<in> set ls" "rl_key l = key" for ls l
    using that by (induction ls) (auto simp: filter_empty_conv rev_image_eqI)
  have "map rl_id (filter (\<lambda>l. rl_key l = key) (qc_loads s)) = [p]"
    if get: "get_cached key options now (cache_run mx evs) = (Wait p, s)" for p s
  proof -
    have s: "s = cache_run mx (evs @ [Get key options now])" using get by simp
    have "distinct (map rl_key (qc_loads s))" unfolding s by (rule keys) (use assms in simp)
    moreover obtain l where "l \<in> set (qc_loads s)" "rl_id l = p" "rl_key l = key"
      using wait_for_running_load [OF loads_ok_run get] by blast
    ultimately show ?thesis using single by blast
  qed
  then show ?thesis using keys [OF assms] by (auto split: prod.split answer.split)
qed

theorem one_load_per_key_witness:
  "distinct (map rl_key (qc_loads (cache_run 1 [Get ''k'' \<lparr>co_ttlMs = 10, co_staleMs = None\<rparr> 100, Failed 0 :: bool cache_event])))
    \<and> (case get_cached ''k'' \<lparr>co_ttlMs = 10, co_staleMs = None\<rparr> 105
         (cache_run 1 [Get ''k'' \<lparr>co_ttlMs = 10, co_staleMs = None\<rparr> 100, Failed 0 :: bool cache_event]) of (Value v, s) \<Rightarrow> True
       | (Wait p, s) \<Rightarrow> map rl_id (filter (\<lambda>l. rl_key l = ''k'') (qc_loads s)) = [p])"
  by (rule one_load_per_key) simp

text \<open>Clearing the cache does not reach a load in progress: it stores its value afterwards, and callers get a value read
  before the clear as fresh.\<close>

lemma clear_misses_running_load:
  "fst (get_cached ''k'' \<lparr>co_ttlMs = 1000, co_staleMs = Some 0\<rparr> 130
     (cache_run 500 [Get ''k'' \<lparr>co_ttlMs = 1000, co_staleMs = Some 0\<rparr> 100, Clear, Loaded 0 (Some ''granted before'') 120 120]))
   = Value ''granted before''"
  by (simp add: cache_run_def createQueryCache_def clear_cache_def get_cached_def refresh_def load_done_def prune_def
      live_entries_def evicted_def stale_of_def Let_def)

end
