(* ===== verification/EventSystems.thy ===== *)
theory EventSystems
  imports Prelude
begin

text \<open>
  Components whose code is cut at its awaits: the pieces are the events of a system, an event applies only when it is
  possible, and a reachable state is one that events lead to. The contract of such a system gives the two ways its clients
  use it, invariants and concrete runs.
\<close>

fun guarded_run :: "('e \<Rightarrow> 's \<Rightarrow> bool) \<Rightarrow> ('e \<Rightarrow> 's \<Rightarrow> 's) \<Rightarrow> 'e list \<Rightarrow> 's \<Rightarrow> 's option" where
  "guarded_run possible app [] s = Some s"
| "guarded_run possible app (ev # evs) s = (if possible ev s then guarded_run possible app evs (app ev s) else None)"

lemma guarded_run_snoc:
  "guarded_run possible app (evs @ [ev]) s
     = Option.bind (guarded_run possible app evs s) (\<lambda>s'. if possible ev s' then Some (app ev s') else None)"
  by (induction possible app evs s rule: guarded_run.induct) simp_all

locale event_system =
  fixes possible :: "'e \<Rightarrow> 's \<Rightarrow> bool" and app :: "'e \<Rightarrow> 's \<Rightarrow> 's" and init :: 's and reach :: "'s \<Rightarrow> bool"
  assumes reach_init: "reach init"
    and reach_step: "reach s \<Longrightarrow> possible ev s \<Longrightarrow> reach (app ev s)"
    and reach_least: "reach s \<Longrightarrow> P init \<Longrightarrow> (\<And>s ev. P s \<Longrightarrow> possible ev s \<Longrightarrow> P (app ev s)) \<Longrightarrow> P s"
begin

lemma run_reach: "guarded_run possible app evs s = Some s' \<Longrightarrow> reach s \<Longrightarrow> reach s'"
  by (induction evs arbitrary: s) (auto split: if_splits intro: reach_step)

lemma run_init: "guarded_run possible app evs init = Some s \<Longrightarrow> reach s"
  by (rule run_reach [OF _ reach_init])

text \<open>The reachable states are those of the runs.\<close>

lemma reach_iff_run: "reach s \<longleftrightarrow> (\<exists>evs. guarded_run possible app evs init = Some s)"
proof
  assume "reach s"
  then show "\<exists>evs. guarded_run possible app evs init = Some s"
  proof (rule reach_least)
    show "\<exists>evs. guarded_run possible app evs init = Some init" by (rule exI [of _ "[]"]) simp
    fix s ev
    assume "\<exists>evs. guarded_run possible app evs init = Some s" and p: "possible ev s"
    then obtain evs where "guarded_run possible app evs init = Some s" by blast
    then have "guarded_run possible app (evs @ [ev]) init = Some (app ev s)" using p by (simp add: guarded_run_snoc)
    then show "\<exists>evs. guarded_run possible app evs init = Some (app ev s)" by blast
  qed
qed (auto intro: run_init)

end

end
