(* ===== verification/GroupHealth.thy ===== *)
theory GroupHealth
  imports EventSystems
begin

text \<open>
  Health of forward groups (server/forwardGroupHealthRecheck.ts): how long a health report counts, when the next report
  runs out or the next waiting window ends, the queue that evaluates groups in batches and retries the ones that fail, the
  scheduler that enters a group into the queue at such a time, and the scheduler for hosts that fall silent.

  Times are rationals in milliseconds, their sums exact. \<open>setTimeout\<close> hands out fresh handles of armed timers; a timer
  fires at any moment from its due time on and is no longer armed then. \<open>new Date(String(value || "")).getTime()\<close> is the
  parameter \<open>dateParse\<close>.
\<close>

section \<open>Armed timers\<close>

record 'k timer_wheel =
  tw_armed :: "(nat \<times> 'k \<times> rat) list"
  tw_next :: nat

definition MAX_TIMER_DELAY_MS :: rat where "MAX_TIMER_DELAY_MS = 2147483647"

text \<open>Node runs a timer whose delay is out of its range after one millisecond.\<close>

definition node_delay :: "rat \<Rightarrow> rat" where
  "node_delay d = (if 1 \<le> d \<and> d \<le> MAX_TIMER_DELAY_MS then d else 1)"

definition empty_wheel :: "'k timer_wheel" where
  "empty_wheel = \<lparr>tw_armed = [], tw_next = 0\<rparr>"

definition set_timer :: "'k \<Rightarrow> rat \<Rightarrow> rat \<Rightarrow> 'k timer_wheel \<Rightarrow> nat \<times> 'k timer_wheel" where
  "set_timer k delay now w =
     (tw_next w, w\<lparr>tw_armed := (tw_next w, k, now + node_delay delay) # tw_armed w, tw_next := Suc (tw_next w)\<rparr>)"

definition clear_timer :: "nat \<Rightarrow> 'k timer_wheel \<Rightarrow> 'k timer_wheel" where
  "clear_timer t w = w\<lparr>tw_armed := alist_delete t (tw_armed w)\<rparr>"

section \<open>Reports and windows\<close>

datatype time_value = DateValue jsnum | OtherValue jsval

definition timestamp :: "(jsval \<Rightarrow> jsnum) \<Rightarrow> time_value \<Rightarrow> jsnum" where
  "timestamp dateParse v = (case v of DateValue t \<Rightarrow> t
     | OtherValue w \<Rightarrow>
        let parsed = dateParse w; fallback = (if is_finite parsed then parsed else inum 0) in
        (case to_number w of Fin n \<Rightarrow>
             if n > 0 then Fin (if n < 10000000000 then n * 1000 else n) else fallback
         | _ \<Rightarrow> fallback))"

datatype health_state = Healthy | Unhealthy | Pending | Stale

definition FORWARD_GROUP_AGENT_HEALTH_FRESHNESS_TTL_MS :: rat where
  "FORWARD_GROUP_AGENT_HEALTH_FRESHNESS_TTL_MS = 5 * 60 * 1000"

record health_member =
  hm_isEnabled :: jsval
  hm_chinaHealthStatus :: "string option"
  hm_chinaHealthCheckedAt :: time_value
  hm_healthStatus :: "string option"
  hm_lastCheckedAt :: time_value

definition report_state :: "(jsval \<Rightarrow> jsnum) \<Rightarrow> string option \<Rightarrow> time_value \<Rightarrow> jsnum \<Rightarrow> health_state" where
  "report_state dateParse statusValue checkedAtValue now =
     (let raw = (case statusValue of None \<Rightarrow> ''unknown'' | Some s \<Rightarrow> if s = [] then ''unknown'' else s);
          status = js_lower (js_trim raw) in
      if status = ''unknown'' then Pending
      else if status \<noteq> ''healthy'' \<and> status \<noteq> ''unhealthy'' then Stale
      else (case (now, timestamp dateParse checkedAtValue) of
              (Fin n, Fin checkedAt) \<Rightarrow>
                if checkedAt \<le> 0 \<or> checkedAt > n + 60000 then Stale
                else if n - checkedAt < FORWARD_GROUP_AGENT_HEALTH_FRESHNESS_TTL_MS
                then (if status = ''healthy'' then Healthy else Unhealthy) else Stale
            | _ \<Rightarrow> Stale))"

definition forwardGroupChinaHealthStateAt :: "(jsval \<Rightarrow> jsnum) \<Rightarrow> health_member \<Rightarrow> jsnum \<Rightarrow> health_state" where
  "forwardGroupChinaHealthStateAt dateParse member now =
     report_state dateParse (hm_chinaHealthStatus member) (hm_chinaHealthCheckedAt member) now"

definition forwardGroupAgentHealthStateAt :: "(jsval \<Rightarrow> jsnum) \<Rightarrow> health_member \<Rightarrow> jsnum \<Rightarrow> health_state" where
  "forwardGroupAgentHealthStateAt dateParse member now =
     report_state dateParse (hm_healthStatus member) (hm_lastCheckedAt member) now"

fun switched_off :: "jsval \<Rightarrow> bool" where
  "switched_off (JBool b) = (\<not> b)"
| "switched_off (JNum x) = num_eq x (inum 0)"
| "switched_off (JStr s) = (s = ''0'' \<or> js_lower s = ''false'')"
| "switched_off JUndefined = False"
| "switched_off JNull = False"

definition finite_part :: "jsnum \<Rightarrow> rat" where
  "finite_part x = (case x of Fin r \<Rightarrow> r | _ \<Rightarrow> 0)"

definition earliest :: "rat list \<Rightarrow> rat option" where
  "earliest deadlines = (if deadlines = [] then None else Some (Min (set deadlines)))"

text \<open>\<open>now\<close> is the time handed in when it is finite and the clock otherwise.\<close>

definition nextForwardGroupChinaHealthExpiryAt :: "(jsval \<Rightarrow> jsnum) \<Rightarrow> bool \<Rightarrow> health_member list \<Rightarrow> rat \<Rightarrow> rat option" where
  "nextForwardGroupChinaHealthExpiryAt dateParse enabled members now =
     (if \<not> enabled then None
      else earliest (map (\<lambda>m. finite_part (timestamp dateParse (hm_chinaHealthCheckedAt m)) + FORWARD_GROUP_AGENT_HEALTH_FRESHNESS_TTL_MS)
        (filter (\<lambda>m. \<not> switched_off (hm_isEnabled m) \<and> forwardGroupChinaHealthStateAt dateParse m (Fin now) = Healthy) members)))"

definition isActivityFreshAt :: "jsval \<Rightarrow> jsval \<Rightarrow> jsval \<Rightarrow> bool" where
  "isActivityFreshAt lastSeenAtValue timeoutMsValue nowValue =
     (case (to_number lastSeenAtValue, to_number timeoutMsValue, to_number nowValue) of
        (Fin lastSeenAt, Fin timeoutMs, Fin now) \<Rightarrow>
          if lastSeenAt \<le> 0 \<or> timeoutMs < 0 then False else now - lastSeenAt < timeoutMs
      | _ \<Rightarrow> False)"

definition latestKnownActivityAt :: "jsval list \<Rightarrow> jsval \<Rightarrow> rat" where
  "latestKnownActivityAt values nowValue =
     (case to_number nowValue of Fin now \<Rightarrow>
        let latest = foldl (\<lambda>latest v. case to_number v of Fin candidate \<Rightarrow> if candidate > latest then candidate else latest
                                         | _ \<Rightarrow> latest) 0 values
        in if latest > 0 then min now latest else 0
      | _ \<Rightarrow> 0)"

record window_member =
  wm_healthy :: bool
  wm_failureSince :: time_value
  wm_healthySince :: time_value
  wm_failedLongEnough :: bool
  wm_recoveredLongEnough :: bool

definition window_deadlines :: "(jsval \<Rightarrow> jsnum) \<Rightarrow> rat \<Rightarrow> rat \<Rightarrow> window_member \<Rightarrow> rat list" where
  "window_deadlines dateParse failoverMs recoverMs m =
     (let since = (\<lambda>v. finite_part (timestamp dateParse v)) in
      (if \<not> wm_healthy m \<and> \<not> wm_failedLongEnough m \<and> since (wm_failureSince m) > 0
       then [since (wm_failureSince m) + max 0 failoverMs] else []) @
      (if wm_healthy m \<and> \<not> wm_recoveredLongEnough m \<and> since (wm_healthySince m) > 0
       then [since (wm_healthySince m) + max 0 recoverMs] else []))"

definition nextForwardGroupHealthRecheckAt ::
  "(jsval \<Rightarrow> jsnum) \<Rightarrow> window_member list \<Rightarrow> rat \<Rightarrow> rat \<Rightarrow> rat \<Rightarrow> rat option" where
  "nextForwardGroupHealthRecheckAt dateParse members failoverMs recoverMs now =
     map_option (max now) (earliest (concat (map (window_deadlines dateParse failoverMs recoverMs) members)))"

section \<open>The evaluation queue\<close>

record eval_config =
  ec_debounceMs :: rat
  ec_retryBaseMs :: rat
  ec_retryMaxMs :: rat

definition evaluation_config :: "rat option \<Rightarrow> rat option \<Rightarrow> rat option \<Rightarrow> eval_config" where
  "evaluation_config debounceMs retryBaseMs retryMaxMs =
     (let base = max 1 (case retryBaseMs of None \<Rightarrow> 1000 | Some n \<Rightarrow> n) in
      \<lparr>ec_debounceMs = max 0 (case debounceMs of None \<Rightarrow> 250 | Some n \<Rightarrow> n), ec_retryBaseMs = base,
       ec_retryMaxMs = max base (case retryMaxMs of None \<Rightarrow> 30000 | Some n \<Rightarrow> n)\<rparr>)"

datatype queue_timer = FlushTimer | RetryTimer int

text \<open>\<open>eq_evaluations\<close> are the batches handed to \<open>evaluate\<close> whose promise has not settled.\<close>

record eval_queue =
  eq_pending :: "int list"
  eq_retryTimers :: "(int \<times> nat) list"
  eq_consecutiveFailures :: "(int \<times> nat) list"
  eq_timer :: "nat option"
  eq_running :: bool
  eq_evaluations :: "int list list"
  eq_wheel :: "queue_timer timer_wheel"

definition new_queue :: eval_queue where
  "new_queue = \<lparr>eq_pending = [], eq_retryTimers = [], eq_consecutiveFailures = [], eq_timer = None, eq_running = False,
     eq_evaluations = [], eq_wheel = empty_wheel\<rparr>"

definition arm_flush :: "rat \<Rightarrow> rat \<Rightarrow> eval_queue \<Rightarrow> eval_queue" where
  "arm_flush delayMs now q =
     (if eq_timer q \<noteq> None \<or> eq_running q \<or> eq_pending q = [] then q
      else let (t, w) = set_timer FlushTimer delayMs now (eq_wheel q) in q\<lparr>eq_timer := Some t, eq_wheel := w\<rparr>)"

definition enqueue_groups :: "eval_config \<Rightarrow> jsval list \<Rightarrow> rat \<Rightarrow> eval_queue \<Rightarrow> nat \<times> eval_queue" where
  "enqueue_groups cfg groupIds now q =
     (let q1 = q\<lparr>eq_pending := add_positive_ids groupIds (eq_pending q)\<rparr>;
          q2 = arm_flush (ec_debounceMs cfg) now q1
      in (length (eq_pending q2), q2))"

definition retryDelayMs :: "eval_config \<Rightarrow> int \<Rightarrow> eval_queue \<Rightarrow> rat \<times> eval_queue" where
  "retryDelayMs cfg g q =
     (let failures = (case map_of (eq_consecutiveFailures q) g of None \<Rightarrow> 0 | Some n \<Rightarrow> n) + 1;
          exponent = min (failures - 1) 30
      in (min (ec_retryMaxMs cfg) (ec_retryBaseMs cfg * 2 ^ exponent),
          q\<lparr>eq_consecutiveFailures := alist_set g failures (eq_consecutiveFailures q)\<rparr>))"

definition stop_retry_timer :: "int \<Rightarrow> eval_queue \<Rightarrow> eval_queue" where
  "stop_retry_timer g q = (case map_of (eq_retryTimers q) g of None \<Rightarrow> q | Some t \<Rightarrow> q\<lparr>eq_wheel := clear_timer t (eq_wheel q)\<rparr>)"

definition clearRetry :: "int \<Rightarrow> eval_queue \<Rightarrow> eval_queue" where
  "clearRetry g q =
     (let q1 = stop_retry_timer g (q\<lparr>eq_consecutiveFailures := alist_delete g (eq_consecutiveFailures q)\<rparr>)
      in q1\<lparr>eq_retryTimers := alist_delete g (eq_retryTimers q1)\<rparr>)"

definition scheduleRetry :: "eval_config \<Rightarrow> rat \<Rightarrow> int \<Rightarrow> eval_queue \<Rightarrow> rat \<times> eval_queue" where
  "scheduleRetry cfg now g q =
     (let (delayMs, q1) = retryDelayMs cfg g (stop_retry_timer g q);
          (t, w) = set_timer (RetryTimer g) delayMs now (eq_wheel q1)
      in (delayMs, q1\<lparr>eq_wheel := w, eq_retryTimers := alist_set g t (eq_retryTimers q1)\<rparr>))"

definition flush :: "eval_queue \<Rightarrow> eval_queue" where
  "flush q = (if eq_running q \<or> eq_pending q = [] then q
     else q\<lparr>eq_pending := [], eq_running := True, eq_evaluations := eq_evaluations q @ [eq_pending q]\<rparr>)"

definition queue_timer_fired :: "nat \<Rightarrow> rat \<Rightarrow> eval_queue \<Rightarrow> eval_queue" where
  "queue_timer_fired t now q0 =
     (case map_of (tw_armed (eq_wheel q0)) t of None \<Rightarrow> q0
      | Some (kind, due) \<Rightarrow>
          let q = q0\<lparr>eq_wheel := clear_timer t (eq_wheel q0)\<rparr> in
          (case kind of FlushTimer \<Rightarrow> flush (q\<lparr>eq_timer := None\<rparr>)
           | RetryTimer g \<Rightarrow>
               if map_of (eq_retryTimers q) g \<noteq> Some t then q
               else arm_flush 0 now (q\<lparr>eq_retryTimers := alist_delete g (eq_retryTimers q), eq_pending := set_add g (eq_pending q)\<rparr>)))"

text \<open>How an evaluation ends: well, with the error that names the groups that failed, or with another error.\<close>

datatype evaluation_outcome = Evaluated | BatchError "jsval list" | OtherError

definition retryGroupIds :: "jsval list \<Rightarrow> int list" where
  "retryGroupIds failures = js_distinct (filter (\<lambda>g. g > 0) (List.map_filter (\<lambda>v. as_integer (to_number v)) failures))"

definition retry_ids :: "evaluation_outcome \<Rightarrow> int list \<Rightarrow> int list" where
  "retry_ids outcome groupIds =
     (case outcome of Evaluated \<Rightarrow> []
      | BatchError failures \<Rightarrow>
          (let requested = filter (\<lambda>g. g \<in> set groupIds) (retryGroupIds failures) in if requested \<noteq> [] then requested else groupIds)
      | OtherError \<Rightarrow> groupIds)"

definition flush_settled :: "eval_config \<Rightarrow> int list \<Rightarrow> evaluation_outcome \<Rightarrow> rat \<Rightarrow> eval_queue \<Rightarrow> eval_queue" where
  "flush_settled cfg groupIds outcome now q0 =
     (let retryIds = retry_ids outcome groupIds;
          q1 = fold clearRetry (filter (\<lambda>g. g \<notin> set retryIds) groupIds) (q0\<lparr>eq_evaluations := remove1 groupIds (eq_evaluations q0)\<rparr>);
          q2 = fold (\<lambda>g q. snd (scheduleRetry cfg now g q)) retryIds q1
      in arm_flush (ec_debounceMs cfg) now (q2\<lparr>eq_running := False\<rparr>))"

section \<open>Rechecks at a given time\<close>

record recheck_scheduler =
  rs_pending :: "(int \<times> rat \<times> nat) list"
  rs_wheel :: "int timer_wheel"

definition new_rechecks :: recheck_scheduler where
  "new_rechecks = \<lparr>rs_pending = [], rs_wheel = empty_wheel\<rparr>"

definition clear_recheck_timer :: "int \<Rightarrow> recheck_scheduler \<Rightarrow> recheck_scheduler" where
  "clear_recheck_timer g s = (case map_of (rs_pending s) g of None \<Rightarrow> s | Some (_, t) \<Rightarrow> s\<lparr>rs_wheel := clear_timer t (rs_wheel s)\<rparr>)"

definition recheck_replace :: "jsval \<Rightarrow> jsval \<Rightarrow> rat \<Rightarrow> recheck_scheduler \<Rightarrow> bool \<times> recheck_scheduler" where
  "recheck_replace groupIdValue dueAtValue now s =
     (case as_integer (to_number groupIdValue) of None \<Rightarrow> (False, s)
      | Some g \<Rightarrow>
          if g \<le> 0 then (False, s)
          else let drop = (let s1 = clear_recheck_timer g s in (False, s1\<lparr>rs_pending := alist_delete g (rs_pending s1)\<rparr>)) in
          (case to_number dueAtValue of
             Fin dueAt \<Rightarrow>
               if dueAt \<le> 0 then drop
               else if map_option fst (map_of (rs_pending s) g) = Some dueAt then (True, s)
               else let s1 = clear_recheck_timer g s;
                        (t, w) = set_timer g (max 0 (dueAt - now) + 25) now (rs_wheel s1)
                    in (True, s1\<lparr>rs_wheel := w, rs_pending := alist_set g (dueAt, t) (rs_pending s1)\<rparr>)
           | _ \<Rightarrow> drop))"

definition recheck_fired :: "nat \<Rightarrow> recheck_scheduler \<Rightarrow> int option \<times> recheck_scheduler" where
  "recheck_fired t s =
     (case map_of (tw_armed (rs_wheel s)) t of None \<Rightarrow> (None, s)
      | Some (g, due) \<Rightarrow>
          let s1 = s\<lparr>rs_wheel := clear_timer t (rs_wheel s)\<rparr> in
          (case map_of (rs_pending s1) g of
             Some (dueAt, t') \<Rightarrow> if t' = t then (Some g, s1\<lparr>rs_pending := alist_delete g (rs_pending s1)\<rparr>) else (None, s1)
           | None \<Rightarrow> (None, s1)))"

definition recheck_dueAt :: "jsval \<Rightarrow> recheck_scheduler \<Rightarrow> rat option" where
  "recheck_dueAt v s = (case as_integer (to_number v) of None \<Rightarrow> None | Some g \<Rightarrow> map_option fst (map_of (rs_pending s) g))"

section \<open>When a report runs out\<close>

lemma report_state_counts:
  "report_state dp st ck (Fin now) = Healthy \<longleftrightarrow>
   (\<exists>s c. st = Some s \<and> js_lower (js_trim s) = ''healthy'' \<and> s \<noteq> [] \<and> timestamp dp ck = Fin c \<and> 0 < c \<and> c \<le> now + 60000
      \<and> now < c + FORWARD_GROUP_AGENT_HEALTH_FRESHNESS_TTL_MS)"
proof -
  have unk: "js_lower (js_trim ''unknown'') = ''unknown''" by code_simp
  show ?thesis
    by (auto simp: report_state_def Let_def unk algebra_simps split: option.splits jsnum.splits if_splits)
qed

lemma earliest_Some: "earliest ds = Some d \<longleftrightarrow> d \<in> set ds \<and> (\<forall>x \<in> set ds. d \<le> x)"
proof (cases "ds = []")
  case False
  then have "Min (set ds) \<in> set ds" "\<forall>x \<in> set ds. Min (set ds) \<le> x" by simp_all
  then show ?thesis using False unfolding earliest_def by (auto intro: antisym)
qed (simp add: earliest_def)

lemma earliest_None: "earliest ds = None \<longleftrightarrow> ds = []"
  by (simp add: earliest_def)

definition counted_healthy :: "(jsval \<Rightarrow> jsnum) \<Rightarrow> rat \<Rightarrow> health_member \<Rightarrow> bool" where
  "counted_healthy dp now m \<longleftrightarrow> \<not> switched_off (hm_isEnabled m) \<and> forwardGroupChinaHealthStateAt dp m (Fin now) = Healthy"

lemma counted_later:
  assumes "counted_healthy dp now m" "now \<le> t"
  shows "counted_healthy dp t m \<longleftrightarrow>
    t < finite_part (timestamp dp (hm_chinaHealthCheckedAt m)) + FORWARD_GROUP_AGENT_HEALTH_FRESHNESS_TTL_MS"
  using assms by (auto simp: counted_healthy_def forwardGroupChinaHealthStateAt_def report_state_counts finite_part_def)

text \<open>The expiry time of a group's reports is exact. Without a later report, the members that count as healthy now
  stay so until that time, and at that time at least one of them stops counting; there is such a time exactly when the
  check is on and some member counts as healthy.\<close>

theorem health_expiry_is_first_change:
  "(case nextForwardGroupChinaHealthExpiryAt dp enabled members now of
      None \<Rightarrow> enabled = False \<or> filter (counted_healthy dp now) members = []
    | Some d \<Rightarrow> enabled \<and> now < d
        \<and> {t. now \<le> t \<and> t < d} \<subseteq>
             {t. filter (counted_healthy dp t) (filter (counted_healthy dp now) members) = filter (counted_healthy dp now) members}
        \<and> filter (counted_healthy dp d) (filter (counted_healthy dp now) members) \<noteq> filter (counted_healthy dp now) members)"
proof (cases "enabled")
  case True
  define ms where "ms = filter (counted_healthy dp now) members"
  define expiry :: "health_member \<Rightarrow> rat" where "expiry m = finite_part (timestamp dp (hm_chinaHealthCheckedAt m)) + FORWARD_GROUP_AGENT_HEALTH_FRESHNESS_TTL_MS" for m
  have e: "nextForwardGroupChinaHealthExpiryAt dp enabled members now = earliest (map expiry ms)"
    using True by (simp add: nextForwardGroupChinaHealthExpiryAt_def ms_def counted_healthy_def [abs_def] expiry_def [abs_def])
  have later: "counted_healthy dp t m \<longleftrightarrow> t < expiry m" if "m \<in> set ms" "now \<le> t" for m t
    using that counted_later [of dp now m t] by (simp add: ms_def expiry_def)
  show ?thesis
  proof (cases "earliest (map expiry ms)")
    case None
    then have "filter (counted_healthy dp now) members = []" by (simp add: earliest_None ms_def)
    then show ?thesis using e None by simp
  next
    case (Some d)
    then have d: "d \<in> expiry ` set ms" "\<And>m. m \<in> set ms \<Longrightarrow> d \<le> expiry m" by (auto simp: earliest_Some)
    then obtain m where m: "m \<in> set ms" "expiry m = d" by blast
    have "now < d" using later [OF m(1), of now] m by (simp add: ms_def)
    moreover have "filter (counted_healthy dp t) ms = ms" if "now \<le> t" "t < d" for t
      using later that d(2) by (fastforce simp: filter_id_conv)
    moreover have "filter (counted_healthy dp d) ms \<noteq> ms"
      using later [OF m(1), of d] m \<open>now < d\<close> by (auto simp: filter_id_conv)
    ultimately show ?thesis using e Some True by (auto simp: ms_def [symmetric])
  qed
qed (simp add: nextForwardGroupChinaHealthExpiryAt_def)

section \<open>The timers of the queue\<close>

lemma armed_set_timer:
  "set_timer k delay now w = (t, w') \<Longrightarrow> t = tw_next w \<and> tw_next w' = Suc t
     \<and> map_of (tw_armed w') = (map_of (tw_armed w))(t \<mapsto> (k, now + node_delay delay))"
  by (auto simp: set_timer_def)

lemma armed_clear_timer [simp]: "map_of (tw_armed (clear_timer t w)) = (map_of (tw_armed w))(t := None)"
  "tw_next (clear_timer t w) = tw_next w"
  by (simp_all add: clear_timer_def alist_simps)

definition timers_ok :: "eval_queue \<Rightarrow> bool" where
  "timers_ok q \<longleftrightarrow> (\<forall>t. tw_next (eq_wheel q) \<le> t \<longrightarrow> map_of (tw_armed (eq_wheel q)) t = None)
   \<and> (\<forall>t k d. map_of (tw_armed (eq_wheel q)) t = Some (k, d) \<longrightarrow>
        (case k of FlushTimer \<Rightarrow> eq_timer q = Some t | RetryTimer g \<Rightarrow> map_of (eq_retryTimers q) g = Some t))
   \<and> (\<forall>t. eq_timer q = Some t \<longrightarrow> (\<exists>d. map_of (tw_armed (eq_wheel q)) t = Some (FlushTimer, d)))
   \<and> (\<forall>g t. map_of (eq_retryTimers q) g = Some t \<longrightarrow> (\<exists>d. map_of (tw_armed (eq_wheel q)) t = Some (RetryTimer g, d)))"

lemma timers_okD:
  assumes "timers_ok q"
  shows "tw_next (eq_wheel q) \<le> t \<Longrightarrow> map_of (tw_armed (eq_wheel q)) t = None"
    "map_of (tw_armed (eq_wheel q)) t = Some (FlushTimer, d) \<Longrightarrow> eq_timer q = Some t"
    "map_of (tw_armed (eq_wheel q)) t = Some (RetryTimer g, d) \<Longrightarrow> map_of (eq_retryTimers q) g = Some t"
    "eq_timer q = Some t \<Longrightarrow> \<exists>d. map_of (tw_armed (eq_wheel q)) t = Some (FlushTimer, d)"
    "map_of (eq_retryTimers q) g = Some t \<Longrightarrow> \<exists>d. map_of (tw_armed (eq_wheel q)) t = Some (RetryTimer g, d)"
  using assms by (fastforce simp: timers_ok_def)+

lemma timers_okI:
  assumes "\<And>t. tw_next (eq_wheel q) \<le> t \<Longrightarrow> map_of (tw_armed (eq_wheel q)) t = None"
    "\<And>t d. map_of (tw_armed (eq_wheel q)) t = Some (FlushTimer, d) \<Longrightarrow> eq_timer q = Some t"
    "\<And>t g d. map_of (tw_armed (eq_wheel q)) t = Some (RetryTimer g, d) \<Longrightarrow> map_of (eq_retryTimers q) g = Some t"
    "\<And>t. eq_timer q = Some t \<Longrightarrow> \<exists>d. map_of (tw_armed (eq_wheel q)) t = Some (FlushTimer, d)"
    "\<And>g t. map_of (eq_retryTimers q) g = Some t \<Longrightarrow> \<exists>d. map_of (tw_armed (eq_wheel q)) t = Some (RetryTimer g, d)"
  shows "timers_ok q"
  using assms unfolding timers_ok_def by (auto split: queue_timer.split)

lemma timers_ok_cong:
  "eq_wheel q' = eq_wheel q \<Longrightarrow> eq_timer q' = eq_timer q \<Longrightarrow> eq_retryTimers q' = eq_retryTimers q \<Longrightarrow> timers_ok q' = timers_ok q"
  by (simp only: timers_ok_def)

lemma timers_ok_map_cong:
  "map_of (tw_armed (eq_wheel q')) = map_of (tw_armed (eq_wheel q)) \<Longrightarrow> tw_next (eq_wheel q') = tw_next (eq_wheel q) \<Longrightarrow>
   eq_timer q' = eq_timer q \<Longrightarrow> map_of (eq_retryTimers q') = map_of (eq_retryTimers q) \<Longrightarrow> timers_ok q' = timers_ok q"
  by (simp only: timers_ok_def)

lemma arm_flush_cases:
  obtains "arm_flush delay now q = q" "eq_timer q \<noteq> None \<or> eq_running q \<or> eq_pending q = []"
  | t where "t = tw_next (eq_wheel q)" "eq_timer q = None" "\<not> eq_running q" "eq_pending q \<noteq> []"
      "map_of (tw_armed (eq_wheel (arm_flush delay now q))) = (map_of (tw_armed (eq_wheel q)))(t \<mapsto> (FlushTimer, now + node_delay delay))"
      "tw_next (eq_wheel (arm_flush delay now q)) = Suc t" "eq_timer (arm_flush delay now q) = Some t"
  by (auto simp: arm_flush_def set_timer_def Let_def)

lemma arm_flush_frame [simp]:
  "eq_pending (arm_flush d now q) = eq_pending q" "eq_retryTimers (arm_flush d now q) = eq_retryTimers q"
  "eq_running (arm_flush d now q) = eq_running q" "eq_evaluations (arm_flush d now q) = eq_evaluations q"
  "eq_consecutiveFailures (arm_flush d now q) = eq_consecutiveFailures q"
  by (simp_all add: arm_flush_def set_timer_def Let_def)

lemma timers_ok_arm:
  assumes ok: "timers_ok q"
  shows "timers_ok (arm_flush delay now q)"
proof (rule arm_flush_cases [of delay now q])
  fix t
  assume t: "t = tw_next (eq_wheel q)" "eq_timer q = None"
    "map_of (tw_armed (eq_wheel (arm_flush delay now q))) = (map_of (tw_armed (eq_wheel q)))(t \<mapsto> (FlushTimer, now + node_delay delay))"
    "tw_next (eq_wheel (arm_flush delay now q)) = Suc t" "eq_timer (arm_flush delay now q) = Some t"
  have fresh: "map_of (tw_armed (eq_wheel q)) t = None" using timers_okD(1) [OF ok] t(1) by simp
  show ?thesis
  proof (rule timers_okI)
    fix u d
    assume "map_of (tw_armed (eq_wheel (arm_flush delay now q))) u = Some (FlushTimer, d)"
    then show "eq_timer (arm_flush delay now q) = Some u"
      using t timers_okD(2) [OF ok, of u] by (auto split: if_splits)
  next
    fix u g d
    assume "map_of (tw_armed (eq_wheel (arm_flush delay now q))) u = Some (RetryTimer g, d)"
    then show "map_of (eq_retryTimers (arm_flush delay now q)) g = Some u"
      using t timers_okD(3) [OF ok, of u g d] by (auto split: if_splits)
  next
    fix g u
    assume "map_of (eq_retryTimers (arm_flush delay now q)) g = Some u"
    then show "\<exists>d. map_of (tw_armed (eq_wheel (arm_flush delay now q))) u = Some (RetryTimer g, d)"
      using t fresh timers_okD(5) [OF ok, of g u] by auto
  qed (use t timers_okD(1) [OF ok] in auto)
qed (use ok in simp)

lemma clearRetry_frame [simp]:
  "eq_pending (clearRetry g q) = eq_pending q" "eq_timer (clearRetry g q) = eq_timer q" "eq_running (clearRetry g q) = eq_running q"
  "eq_evaluations (clearRetry g q) = eq_evaluations q" "map_of (eq_retryTimers (clearRetry g q)) = (map_of (eq_retryTimers q))(g := None)"
  by (auto simp: clearRetry_def stop_retry_timer_def Let_def alist_simps split: option.splits)

lemma armed_clearRetry:
  "map_of (tw_armed (eq_wheel (clearRetry g q))) t =
     (if map_of (eq_retryTimers q) g = Some t then None else map_of (tw_armed (eq_wheel q)) t)"
  "tw_next (eq_wheel (clearRetry g q)) = tw_next (eq_wheel q)"
  by (auto simp: clearRetry_def stop_retry_timer_def Let_def split: option.splits)

lemma timers_ok_clearRetry:
  assumes ok: "timers_ok q"
  shows "timers_ok (clearRetry g q)"
proof (rule timers_okI)
  fix t
  assume "tw_next (eq_wheel (clearRetry g q)) \<le> t"
  then show "map_of (tw_armed (eq_wheel (clearRetry g q))) t = None"
    using timers_okD(1) [OF ok, of t] by (simp add: armed_clearRetry)
next
  fix t d
  assume "map_of (tw_armed (eq_wheel (clearRetry g q))) t = Some (FlushTimer, d)"
  then show "eq_timer (clearRetry g q) = Some t"
    using timers_okD(2) [OF ok, of t d] by (simp add: armed_clearRetry split: if_splits)
next
  fix t h d
  assume "map_of (tw_armed (eq_wheel (clearRetry g q))) t = Some (RetryTimer h, d)"
  then show "map_of (eq_retryTimers (clearRetry g q)) h = Some t"
    using timers_okD(3) [OF ok, of t h d] by (auto simp: armed_clearRetry split: if_splits)
next
  fix t
  assume "eq_timer (clearRetry g q) = Some t"
  then obtain d where "map_of (tw_armed (eq_wheel q)) t = Some (FlushTimer, d)" using timers_okD(4) [OF ok, of t] by auto
  moreover have "map_of (eq_retryTimers q) g \<noteq> Some t" using calculation timers_okD(5) [OF ok, of g t] by auto
  ultimately show "\<exists>d. map_of (tw_armed (eq_wheel (clearRetry g q))) t = Some (FlushTimer, d)"
    using timers_okD(1) [OF ok, of t] by (auto simp: armed_clearRetry)
next
  fix h t
  assume r: "map_of (eq_retryTimers (clearRetry g q)) h = Some t"
  then obtain d where "map_of (tw_armed (eq_wheel q)) t = Some (RetryTimer h, d)" "h \<noteq> g"
    using timers_okD(5) [OF ok, of h t] by (auto split: if_splits)
  moreover have "map_of (eq_retryTimers q) g \<noteq> Some t" using calculation timers_okD(5) [OF ok, of g t] by auto
  ultimately show "\<exists>d. map_of (tw_armed (eq_wheel (clearRetry g q))) t = Some (RetryTimer h, d)"
    by (simp add: armed_clearRetry)
qed

lemma scheduleRetry_frame [simp]:
  "eq_pending (snd (scheduleRetry cfg now g q)) = eq_pending q" "eq_timer (snd (scheduleRetry cfg now g q)) = eq_timer q"
  "eq_running (snd (scheduleRetry cfg now g q)) = eq_running q" "eq_evaluations (snd (scheduleRetry cfg now g q)) = eq_evaluations q"
  "map_of (eq_retryTimers (snd (scheduleRetry cfg now g q))) = (map_of (eq_retryTimers q))(g \<mapsto> tw_next (eq_wheel q))"
  by (auto simp: scheduleRetry_def retryDelayMs_def stop_retry_timer_def set_timer_def Let_def alist_simps split: option.splits)

lemma armed_scheduleRetry:
  "map_of (tw_armed (eq_wheel (snd (scheduleRetry cfg now g q)))) t =
     (if t = tw_next (eq_wheel q) then Some (RetryTimer g, now + node_delay (fst (scheduleRetry cfg now g q)))
      else if map_of (eq_retryTimers q) g = Some t then None else map_of (tw_armed (eq_wheel q)) t)"
  "tw_next (eq_wheel (snd (scheduleRetry cfg now g q))) = Suc (tw_next (eq_wheel q))"
  by (auto simp: scheduleRetry_def retryDelayMs_def stop_retry_timer_def set_timer_def Let_def split: option.splits)

lemma timers_ok_scheduleRetry:
  assumes ok: "timers_ok q"
  shows "timers_ok (snd (scheduleRetry cfg now g q))"
proof (rule timers_okI)
  fix t
  assume "tw_next (eq_wheel (snd (scheduleRetry cfg now g q))) \<le> t"
  then show "map_of (tw_armed (eq_wheel (snd (scheduleRetry cfg now g q)))) t = None"
    using timers_okD(1) [OF ok, of t] by (simp add: armed_scheduleRetry)
next
  fix t d
  assume "map_of (tw_armed (eq_wheel (snd (scheduleRetry cfg now g q)))) t = Some (FlushTimer, d)"
  then show "eq_timer (snd (scheduleRetry cfg now g q)) = Some t"
    using timers_okD(2) [OF ok, of t d] by (simp add: armed_scheduleRetry split: if_splits)
next
  fix t h d
  assume "map_of (tw_armed (eq_wheel (snd (scheduleRetry cfg now g q)))) t = Some (RetryTimer h, d)"
  then show "map_of (eq_retryTimers (snd (scheduleRetry cfg now g q))) h = Some t"
    using timers_okD(3) [OF ok, of t h d] by (auto simp: armed_scheduleRetry split: if_splits)
next
  fix t
  assume "eq_timer (snd (scheduleRetry cfg now g q)) = Some t"
  then obtain d where "map_of (tw_armed (eq_wheel q)) t = Some (FlushTimer, d)" using timers_okD(4) [OF ok, of t] by auto
  moreover have "map_of (eq_retryTimers q) g \<noteq> Some t" using calculation timers_okD(5) [OF ok, of g t] by auto
  ultimately show "\<exists>d. map_of (tw_armed (eq_wheel (snd (scheduleRetry cfg now g q)))) t = Some (FlushTimer, d)"
    using timers_okD(1) [OF ok, of t] by (auto simp: armed_scheduleRetry)
next
  fix h t
  assume r: "map_of (eq_retryTimers (snd (scheduleRetry cfg now g q))) h = Some t"
  show "\<exists>d. map_of (tw_armed (eq_wheel (snd (scheduleRetry cfg now g q)))) t = Some (RetryTimer h, d)"
  proof (cases "h = g")
    case False
    then obtain d where "map_of (tw_armed (eq_wheel q)) t = Some (RetryTimer h, d)"
      using timers_okD(5) [OF ok, of h t] r by auto
    moreover have "map_of (eq_retryTimers q) g \<noteq> Some t" using calculation timers_okD(5) [OF ok, of g t] False by auto
    ultimately show ?thesis using timers_okD(1) [OF ok, of t] by (auto simp: armed_scheduleRetry)
  qed (use r in \<open>simp add: armed_scheduleRetry\<close>)
qed

section \<open>Runs of the queue\<close>

datatype queue_event = Enqueue "jsval list" rat | Fire nat rat | Settle "int list" evaluation_outcome rat

fun queue_event_possible :: "queue_event \<Rightarrow> eval_queue \<Rightarrow> bool" where
  "queue_event_possible (Enqueue vs now) q = True"
| "queue_event_possible (Fire t now) q = (case map_of (tw_armed (eq_wheel q)) t of None \<Rightarrow> False | Some (k, due) \<Rightarrow> due \<le> now)"
| "queue_event_possible (Settle b out now) q = (b \<in> set (eq_evaluations q))"

fun queue_apply :: "eval_config \<Rightarrow> queue_event \<Rightarrow> eval_queue \<Rightarrow> eval_queue" where
  "queue_apply cfg (Enqueue vs now) q = snd (enqueue_groups cfg vs now q)"
| "queue_apply cfg (Fire t now) q = queue_timer_fired t now q"
| "queue_apply cfg (Settle b out now) q = flush_settled cfg b out now q"

inductive queue_reach :: "eval_config \<Rightarrow> eval_queue \<Rightarrow> bool" for cfg where
  start: "queue_reach cfg new_queue"
| step: "queue_reach cfg q \<Longrightarrow> queue_event_possible ev q \<Longrightarrow> queue_reach cfg (queue_apply cfg ev q)"

definition phase_ok :: "eval_queue \<Rightarrow> bool" where
  "phase_ok q \<longleftrightarrow> (if eq_running q then \<exists>b. eq_evaluations q = [b] else eq_evaluations q = [] \<and> (eq_pending q \<noteq> [] \<longrightarrow> eq_timer q \<noteq> None))"

lemma phase_ok_arm:
  "(if eq_running q then \<exists>b. eq_evaluations q = [b] else eq_evaluations q = []) \<Longrightarrow> phase_ok (arm_flush d now q)"
  by (rule arm_flush_cases [of d now q]) (auto simp: phase_ok_def)

lemma phase_ok_flush:
  "\<not> eq_running q \<Longrightarrow> eq_evaluations q = [] \<Longrightarrow> phase_ok (flush q)"
  by (auto simp: phase_ok_def flush_def)

lemma timers_ok_flush [simp]: "timers_ok (flush q) = timers_ok q"
  by (rule timers_ok_cong) (simp_all add: flush_def)

lemma fold_clearRetry:
  "timers_ok q \<Longrightarrow> timers_ok (fold clearRetry gs q)"
  "eq_pending (fold clearRetry gs q) = eq_pending q" "eq_timer (fold clearRetry gs q) = eq_timer q"
  "eq_running (fold clearRetry gs q) = eq_running q" "eq_evaluations (fold clearRetry gs q) = eq_evaluations q"
  "g \<notin> set gs \<Longrightarrow> map_of (eq_retryTimers (fold clearRetry gs q)) g = map_of (eq_retryTimers q) g"
  by (induction gs arbitrary: q) (simp_all add: timers_ok_clearRetry)

abbreviation schedule_all :: "eval_config \<Rightarrow> rat \<Rightarrow> int list \<Rightarrow> eval_queue \<Rightarrow> eval_queue" where
  "schedule_all cfg now gs q \<equiv> fold (\<lambda>g q. snd (scheduleRetry cfg now g q)) gs q"

lemma fold_scheduleRetry:
  "timers_ok q \<Longrightarrow> timers_ok (schedule_all cfg now gs q)"
  "eq_pending (schedule_all cfg now gs q) = eq_pending q" "eq_timer (schedule_all cfg now gs q) = eq_timer q"
  "eq_running (schedule_all cfg now gs q) = eq_running q" "eq_evaluations (schedule_all cfg now gs q) = eq_evaluations q"
  "g \<in> set gs \<or> map_of (eq_retryTimers q) g \<noteq> None \<Longrightarrow> map_of (eq_retryTimers (schedule_all cfg now gs q)) g \<noteq> None"
proof -
  show "g \<in> set gs \<or> map_of (eq_retryTimers q) g \<noteq> None \<Longrightarrow> map_of (eq_retryTimers (schedule_all cfg now gs q)) g \<noteq> None"
  proof (induction gs arbitrary: q)
    case (Cons h gs)
    show ?case using Cons.IH [of "snd (scheduleRetry cfg now h q)"] Cons.prems by (cases "h = g") auto
  qed simp
qed (induction gs arbitrary: q; simp add: timers_ok_scheduleRetry)+

text \<open>A settled evaluation, as one step.\<close>

lemma flush_settled_parts:
  assumes "timers_ok q" "eq_evaluations q = [b]"
  shows "timers_ok (flush_settled cfg b out now q)" "phase_ok (flush_settled cfg b out now q)"
    "eq_pending (flush_settled cfg b out now q) = eq_pending q" "eq_evaluations (flush_settled cfg b out now q) = []"
    "g \<in> set (retry_ids out b) \<or> g \<notin> set b \<and> map_of (eq_retryTimers q) g \<noteq> None \<Longrightarrow>
       map_of (eq_retryTimers (flush_settled cfg b out now q)) g \<noteq> None"
proof -
  define q1 where "q1 = fold clearRetry (filter (\<lambda>g. g \<notin> set (retry_ids out b)) b) (q\<lparr>eq_evaluations := remove1 b (eq_evaluations q)\<rparr>)"
  define q2 where "q2 = schedule_all cfg now (retry_ids out b) q1"
  have e: "flush_settled cfg b out now q = arm_flush (ec_debounceMs cfg) now (q2\<lparr>eq_running := False\<rparr>)"
    by (simp add: flush_settled_def Let_def q1_def q2_def)
  have "timers_ok (q\<lparr>eq_evaluations := remove1 b (eq_evaluations q)\<rparr>)"
    using assms(1) timers_ok_cong [of "q\<lparr>eq_evaluations := remove1 b (eq_evaluations q)\<rparr>" q] by simp
  then have "timers_ok q2" by (simp add: q2_def q1_def fold_clearRetry(1) fold_scheduleRetry(1))
  then have "timers_ok (q2\<lparr>eq_running := False\<rparr>)" using timers_ok_cong [of "q2\<lparr>eq_running := False\<rparr>" q2] by simp
  then show "timers_ok (flush_settled cfg b out now q)" unfolding e by (rule timers_ok_arm)
  have q2: "eq_pending q2 = eq_pending q" "eq_evaluations q2 = []"
    using assms(2) by (simp_all add: q2_def q1_def fold_clearRetry fold_scheduleRetry)
  then show "phase_ok (flush_settled cfg b out now q)" "eq_pending (flush_settled cfg b out now q) = eq_pending q"
    "eq_evaluations (flush_settled cfg b out now q) = []"
    unfolding e by (simp_all add: phase_ok_arm)
  assume g: "g \<in> set (retry_ids out b) \<or> g \<notin> set b \<and> map_of (eq_retryTimers q) g \<noteq> None"
  then have "g \<in> set (retry_ids out b) \<or> map_of (eq_retryTimers q1) g \<noteq> None"
    unfolding q1_def by (auto simp: fold_clearRetry(6))
  then have "map_of (eq_retryTimers q2) g \<noteq> None" unfolding q2_def by (rule fold_scheduleRetry(6))
  then show "map_of (eq_retryTimers (flush_settled cfg b out now q)) g \<noteq> None" unfolding e by simp
qed

lemma timers_ok_flush_fired:
  assumes ok: "timers_ok q" and t: "map_of (tw_armed (eq_wheel q)) t = Some (FlushTimer, d)"
  shows "timers_ok (q\<lparr>eq_wheel := clear_timer t (eq_wheel q), eq_timer := None\<rparr>)"
proof (rule timers_okI)
  fix u e
  assume "map_of (tw_armed (eq_wheel (q\<lparr>eq_wheel := clear_timer t (eq_wheel q), eq_timer := None\<rparr>))) u = Some (FlushTimer, e)"
  then show "eq_timer (q\<lparr>eq_wheel := clear_timer t (eq_wheel q), eq_timer := None\<rparr>) = Some u"
    using timers_okD(2) [OF ok, of u e] timers_okD(2) [OF ok t] by (auto split: if_splits)
next
  fix u g e
  assume "map_of (tw_armed (eq_wheel (q\<lparr>eq_wheel := clear_timer t (eq_wheel q), eq_timer := None\<rparr>))) u = Some (RetryTimer g, e)"
  then show "map_of (eq_retryTimers (q\<lparr>eq_wheel := clear_timer t (eq_wheel q), eq_timer := None\<rparr>)) g = Some u"
    using timers_okD(3) [OF ok, of u g e] by (auto split: if_splits)
next
  fix g u
  assume "map_of (eq_retryTimers (q\<lparr>eq_wheel := clear_timer t (eq_wheel q), eq_timer := None\<rparr>)) g = Some u"
  then show "\<exists>e. map_of (tw_armed (eq_wheel (q\<lparr>eq_wheel := clear_timer t (eq_wheel q), eq_timer := None\<rparr>))) u = Some (RetryTimer g, e)"
    using timers_okD(5) [OF ok, of g u] t by auto
qed (use timers_okD(1) [OF ok] in auto)

lemma timers_ok_retry_fired:
  assumes ok: "timers_ok q" and t: "map_of (tw_armed (eq_wheel q)) t = Some (RetryTimer g, d)"
  shows "timers_ok (q\<lparr>eq_wheel := clear_timer t (eq_wheel q), eq_retryTimers := alist_delete g (eq_retryTimers q), eq_pending := p\<rparr>)"
proof -
  have "map_of (eq_retryTimers q) g = Some t" using timers_okD(3) [OF ok t] .
  then have "timers_ok (q\<lparr>eq_wheel := clear_timer t (eq_wheel q), eq_retryTimers := alist_delete g (eq_retryTimers q), eq_pending := p\<rparr>)
      = timers_ok (clearRetry g q)"
    by (intro timers_ok_map_cong ext) (auto simp: armed_clearRetry alist_simps)
  then show ?thesis using timers_ok_clearRetry [OF ok] by simp
qed

definition waiting :: "eval_queue \<Rightarrow> int \<Rightarrow> bool" where
  "waiting q g \<longleftrightarrow> g \<in> set (eq_pending q) \<or> g \<in> set (concat (eq_evaluations q)) \<or> map_of (eq_retryTimers q) g \<noteq> None"

lemma queue_event_inv:
  assumes ok: "timers_ok q" "phase_ok q" and ev: "queue_event_possible ev q"
  shows "timers_ok (queue_apply cfg ev q) \<and> phase_ok (queue_apply cfg ev q)"
proof (cases ev)
  case (Enqueue vs now)
  define p where "p = add_positive_ids vs (eq_pending q)"
  have "timers_ok (q\<lparr>eq_pending := p\<rparr>)" using ok(1) timers_ok_cong [of "q\<lparr>eq_pending := p\<rparr>" q] by simp
  then have "timers_ok (arm_flush (ec_debounceMs cfg) now (q\<lparr>eq_pending := p\<rparr>))" by (rule timers_ok_arm)
  moreover have "phase_ok (arm_flush (ec_debounceMs cfg) now (q\<lparr>eq_pending := p\<rparr>))"
    by (rule phase_ok_arm) (use ok(2) in \<open>auto simp: phase_ok_def split: if_splits\<close>)
  ultimately show ?thesis using Enqueue by (simp add: enqueue_groups_def Let_def p_def)
next
  case (Fire t now)
  then obtain k d where t: "map_of (tw_armed (eq_wheel q)) t = Some (k, d)" using ev by (auto split: option.splits)
  show ?thesis
  proof (cases k)
    case FlushTimer
    then have tm: "eq_timer q = Some t" using timers_okD(2) [OF ok(1)] t by blast
    show ?thesis
    proof (cases "eq_running q")
      case True
      then show ?thesis using Fire t FlushTimer ok(2) timers_ok_flush_fired [OF ok(1)]
        by (simp add: queue_timer_fired_def Let_def flush_def phase_ok_def)
    next
      case False
      then show ?thesis using Fire t FlushTimer ok(2) timers_ok_flush_fired [OF ok(1)]
        by (simp add: queue_timer_fired_def Let_def phase_ok_def [of q] phase_ok_flush)
    qed
  next
    case (RetryTimer g)
    have "map_of (eq_retryTimers q) g = Some t" using timers_okD(3) [OF ok(1)] t RetryTimer by blast
    then show ?thesis
      using Fire t RetryTimer ok timers_ok_retry_fired [OF ok(1), of t g d "set_add g (eq_pending q)"]
      by (auto simp: queue_timer_fired_def Let_def phase_ok_def [of q] intro!: timers_ok_arm phase_ok_arm split: if_splits)
  qed
next
  case (Settle b out now)
  then have "eq_evaluations q = [b]" using ev ok(2) by (auto simp: phase_ok_def split: if_splits)
  then show ?thesis using Settle flush_settled_parts [OF ok(1)] by simp
qed

interpretation evaluations: event_system queue_event_possible "queue_apply cfg" new_queue "queue_reach cfg"
proof unfold_locales
  fix q and P :: "eval_queue \<Rightarrow> bool"
  assume "queue_reach cfg q" "P new_queue" and next_q: "\<And>q ev. P q \<Longrightarrow> queue_event_possible ev q \<Longrightarrow> P (queue_apply cfg ev q)"
  then show "P q" by (induction rule: queue_reach.induct) (auto intro: next_q)
qed (auto intro: queue_reach.intros)

lemma queue_reach_inv: "queue_reach cfg q \<Longrightarrow> timers_ok q \<and> phase_ok q"
proof (erule evaluations.reach_least)
  show "timers_ok new_queue \<and> phase_ok new_queue" by (simp add: timers_ok_def phase_ok_def new_queue_def empty_wheel_def)
qed (use queue_event_inv in blast)

lemma fired_flush:
  assumes "timers_ok q" "phase_ok q" "\<not> eq_running q" "g \<in> set (eq_pending q)"
  obtains t e where "now \<le> e" "queue_event_possible (Fire t e) q" "g \<in> set (concat (eq_evaluations (queue_apply cfg (Fire t e) q)))"
proof -
  obtain t where "eq_timer q = Some t" using assms by (cases "eq_timer q") (auto simp: phase_ok_def)
  then obtain d where "map_of (tw_armed (eq_wheel q)) t = Some (FlushTimer, d)" using timers_okD(4) [OF assms(1)] by blast
  moreover have "eq_pending q \<noteq> []" using assms(4) by auto
  ultimately show thesis using that [of "max d now" t] assms(3,4) by (simp add: queue_timer_fired_def Let_def flush_def)
qed

lemma fired_retry:
  assumes "timers_ok q" "\<not> eq_running q" "map_of (eq_retryTimers q) g = Some t"
  obtains e where "now \<le> e" "queue_event_possible (Fire t e) q" "\<not> eq_running (queue_apply cfg (Fire t e) q)"
    "g \<in> set (eq_pending (queue_apply cfg (Fire t e) q))"
proof -
  obtain d where "map_of (tw_armed (eq_wheel q)) t = Some (RetryTimer g, d)" using timers_okD(5) [OF assms(1,3)] by blast
  then show thesis using that [of "max d now"] assms(2,3) by (auto simp: queue_timer_fired_def Let_def)
qed

lemma flush_settled_running [simp]: "\<not> eq_running (flush_settled cfg b out now q)"
  by (simp add: flush_settled_def Let_def)

fun possible_run :: "eval_config \<Rightarrow> queue_event list \<Rightarrow> eval_queue \<Rightarrow> bool" where
  "possible_run cfg [] q = True"
| "possible_run cfg (ev # evs) q = (queue_event_possible ev q \<and> possible_run cfg evs (queue_apply cfg ev q))"

text \<open>The events of the queue itself: a timer fires, or a running evaluation ends with the given outcome; never a call from
  outside.\<close>

fun own_event :: "evaluation_outcome \<Rightarrow> queue_event \<Rightarrow> bool" where
  "own_event outcome (Enqueue vs now) = False"
| "own_event outcome (Fire t now) = True"
| "own_event outcome (Settle b out now) = (out = outcome)"

fun event_time :: "queue_event \<Rightarrow> rat" where
  "event_time (Enqueue vs now) = now"
| "event_time (Fire t now) = now"
| "event_time (Settle b out now) = now"

definition own_run :: "eval_config \<Rightarrow> evaluation_outcome \<Rightarrow> rat \<Rightarrow> queue_event list \<Rightarrow> eval_queue \<Rightarrow> bool" where
  "own_run cfg outcome now evs q \<longleftrightarrow> possible_run cfg evs q \<and> list_all (own_event outcome) evs \<and> sorted (now # map event_time evs)"

lemma own_run_Nil [simp]: "own_run cfg outcome now [] q"
  by (simp add: own_run_def)

lemma own_run_Cons:
  assumes "queue_event_possible ev q" "own_event outcome ev" "now \<le> event_time ev"
    "own_run cfg outcome (event_time ev) evs (queue_apply cfg ev q)"
  shows "own_run cfg outcome now (ev # evs) q"
  using assms by (auto simp: own_run_def)

lemma idle_group_reaches_evaluation:
  assumes ok: "timers_ok q" "phase_ok q" and idle: "\<not> eq_running q" and w: "waiting q g"
  obtains evs where "own_run cfg outcome now evs q" "length evs \<le> 2" "g \<in> set (concat (eq_evaluations (fold (queue_apply cfg) evs q)))"
proof (cases "g \<in> set (eq_pending q)")
  case True
  obtain t d where td: "now \<le> d" "queue_event_possible (Fire t d) q" "g \<in> set (concat (eq_evaluations (queue_apply cfg (Fire t d) q)))"
    using fired_flush [OF ok idle True] .
  show thesis by (rule that [of "[Fire t d]"]) (use td in \<open>simp_all add: own_run_Cons\<close>)
next
  case False
  have "eq_evaluations q = []" using ok(2) idle by (simp add: phase_ok_def)
  then obtain u where "map_of (eq_retryTimers q) g = Some u" using w False by (auto simp: waiting_def)
  then obtain e where ue: "now \<le> e" "queue_event_possible (Fire u e) q" "\<not> eq_running (queue_apply cfg (Fire u e) q)"
    "g \<in> set (eq_pending (queue_apply cfg (Fire u e) q))"
    using fired_retry [OF ok(1) idle] by blast
  note inv = queue_event_inv [OF ok ue(2), of cfg]
  obtain t d where td: "e \<le> d" "queue_event_possible (Fire t d) (queue_apply cfg (Fire u e) q)"
    "g \<in> set (concat (eq_evaluations (queue_apply cfg (Fire t d) (queue_apply cfg (Fire u e) q))))"
    using fired_flush [OF conjunct1 [OF inv] conjunct2 [OF inv] ue(3,4)] .
  have "own_run cfg outcome now [Fire u e, Fire t d] q"
    by (intro own_run_Cons) (use ue td in simp_all)
  then show thesis by (rule that) (use td in simp_all)
qed

text \<open>C12: a group handed to the queue is never lost. While it waits for its debounce time, is being evaluated or waits for a
  retry it stays in one of these states through every call, every timer and every end of an evaluation, until an
  evaluation that contains it ends without asking to try it again. Evaluations never overlap.\<close>

theorem queued_group_is_never_lost:
  assumes "queue_reach cfg q" "queue_event_possible ev q" "waiting q g"
  shows "length (eq_evaluations q) \<le> 1 \<and>
    (waiting (queue_apply cfg ev q) g \<or> (\<exists>b out now. ev = Settle b out now \<and> g \<in> set b \<and> g \<notin> set (retry_ids out b)))"
proof -
  have ok: "timers_ok q" "phase_ok q" using queue_reach_inv [OF assms(1)] by simp_all
  have len: "length (eq_evaluations q) \<le> 1" using ok(2) by (auto simp: phase_ok_def split: if_splits)
  show ?thesis
  proof (cases ev)
    case (Enqueue vs now)
    then show ?thesis using assms(3) len by (auto simp: waiting_def enqueue_groups_def Let_def)
  next
    case (Fire t now)
    then obtain k d where t: "map_of (tw_armed (eq_wheel q)) t = Some (k, d)" using assms(2) by (auto split: option.splits)
    show ?thesis
    proof (cases k)
      case FlushTimer
      then show ?thesis using Fire t assms(3) len by (auto simp: queue_timer_fired_def Let_def flush_def waiting_def)
    next
      case (RetryTimer h)
      then show ?thesis using Fire t assms(3) len by (auto simp: queue_timer_fired_def Let_def waiting_def alist_simps split: if_splits)
    qed
  next
    case (Settle b out now)
    then have b: "eq_evaluations q = [b]" using assms(2) ok(2) by (auto simp: phase_ok_def split: if_splits)
    have "map_of (eq_retryTimers (flush_settled cfg b out now q)) g \<noteq> None"
      if "g \<notin> set (eq_pending q)" "\<not> (g \<in> set b \<and> g \<notin> set (retry_ids out b))"
      by (rule flush_settled_parts(5) [OF ok(1) b]) (use that assms(3) b in \<open>auto simp: waiting_def\<close>)
    then show ?thesis
      using Settle len flush_settled_parts(3) [OF ok(1) b, of cfg out now] by (auto simp: waiting_def)
  qed
qed

text \<open>C38: the queue never stalls. From every state it can get into, and from any time on, a group that waits is being
  evaluated after at most three more events of the queue itself: the end of the running evaluation, however it ends,
  and the firing of armed timers at or after their due times, in the order of time. No call of enqueue is among them.\<close>

theorem waiting_group_reaches_evaluation:
  assumes "queue_reach cfg q" "waiting q g"
  shows "\<exists>evs. possible_run cfg evs q \<and> list_all (own_event outcome) evs \<and> sorted (now # map event_time evs)
    \<and> length evs \<le> 3 \<and> g \<in> set (concat (eq_evaluations (fold (queue_apply cfg) evs q)))"
proof -
  have ok: "timers_ok q" "phase_ok q" using queue_reach_inv [OF assms(1)] by simp_all
  have "\<exists>evs. own_run cfg outcome now evs q \<and> length evs \<le> 3 \<and> g \<in> set (concat (eq_evaluations (fold (queue_apply cfg) evs q)))"
  proof (cases "eq_running q")
    case False
    obtain evs where e: "own_run cfg outcome now evs q" "length evs \<le> 2" "g \<in> set (concat (eq_evaluations (fold (queue_apply cfg) evs q)))"
      using idle_group_reaches_evaluation [OF ok False assms(2)] .
    show ?thesis by (rule exI [of _ evs]) (use e in simp)
  next
    case True
    then obtain b where b: "eq_evaluations q = [b]" using ok(2) by (auto simp: phase_ok_def)
    show ?thesis
    proof (cases "g \<in> set b")
      case True
      then show ?thesis using b by (intro exI [of _ "[]"]) simp
    next
      case False
      define q1 where "q1 = flush_settled cfg b outcome now q"
      have w: "waiting q1 g"
        using flush_settled_parts(3) [OF ok(1) b, of cfg outcome now] flush_settled_parts(5) [OF ok(1) b, of g outcome cfg now] assms(2) b False
        by (auto simp: waiting_def q1_def)
      have ok1: "timers_ok q1" "phase_ok q1" "\<not> eq_running q1"
        using flush_settled_parts(1,2) [OF ok(1) b] by (simp_all add: q1_def)
      obtain evs where e: "own_run cfg outcome now evs q1" "length evs \<le> 2" "g \<in> set (concat (eq_evaluations (fold (queue_apply cfg) evs q1)))"
        using idle_group_reaches_evaluation [OF ok1 w] .
      have "own_run cfg outcome now (Settle b outcome now # evs) q" by (rule own_run_Cons) (use e b in \<open>simp_all add: q1_def\<close>)
      then show ?thesis by (intro exI [of _ "Settle b outcome now # evs"]) (use e in \<open>simp add: q1_def\<close>)
    qed
  qed
  then show ?thesis by (simp only: own_run_def conj_assoc)
qed

subsection \<open>The delay of a retry\<close>

definition failures_of :: "eval_queue \<Rightarrow> int \<Rightarrow> nat" where
  "failures_of q g = (case map_of (eq_consecutiveFailures q) g of None \<Rightarrow> 0 | Some n \<Rightarrow> n)"

lemma scheduleRetry_backoff:
  "fst (scheduleRetry cfg now g q) = min (ec_retryMaxMs cfg) (ec_retryBaseMs cfg * 2 ^ min (failures_of q g) 30)"
  "failures_of (snd (scheduleRetry cfg now g q)) h = (if h = g then Suc (failures_of q g) else failures_of q h)"
  by (auto simp: scheduleRetry_def retryDelayMs_def stop_retry_timer_def failures_of_def set_timer_def Let_def alist_simps
      split: option.splits)

lemma failures_clearRetry: "failures_of (clearRetry g q) h = (if h = g then 0 else failures_of q h)"
  by (auto simp: clearRetry_def stop_retry_timer_def failures_of_def Let_def alist_simps split: option.splits)

lemma retry_delay_bounds:
  fixes debounce base mx
  defines "cfg \<equiv> evaluation_config debounce base mx"
  shows "1 \<le> ec_retryBaseMs cfg" "ec_retryBaseMs cfg \<le> fst (scheduleRetry cfg now g q)"
    "fst (scheduleRetry cfg now g q) \<le> ec_retryMaxMs cfg"
proof -
  have c: "1 \<le> ec_retryBaseMs cfg" "ec_retryBaseMs cfg \<le> ec_retryMaxMs cfg"
    by (simp_all add: cfg_def evaluation_config_def Let_def)
  then show "1 \<le> ec_retryBaseMs cfg" "fst (scheduleRetry cfg now g q) \<le> ec_retryMaxMs cfg"
    by (simp_all add: scheduleRetry_backoff)
  have "ec_retryBaseMs cfg * 1 \<le> ec_retryBaseMs cfg * 2 ^ min (failures_of q g) 30"
    using c(1) by (intro mult_left_mono) simp_all
  then show "ec_retryBaseMs cfg \<le> fst (scheduleRetry cfg now g q)" using c(2) by (simp add: scheduleRetry_backoff)
qed

section \<open>Rechecks and the queue together\<close>

text \<open>
  In server/repositories/forwardGroupRepository.ts the recheck scheduler hands a group whose time has come to the queue.
\<close>

record group_health =
  gh_queue :: eval_queue
  gh_rechecks :: recheck_scheduler

datatype health_event = OfQueue queue_event | Replace jsval jsval rat | RecheckFires nat rat

definition recheck_due :: "eval_config \<Rightarrow> nat \<Rightarrow> rat \<Rightarrow> group_health \<Rightarrow> group_health" where
  "recheck_due cfg t now H =
     (case recheck_fired t (gh_rechecks H) of
        (None, s) \<Rightarrow> H\<lparr>gh_rechecks := s\<rparr>
      | (Some g, s) \<Rightarrow> H\<lparr>gh_rechecks := s, gh_queue := snd (enqueue_groups cfg [JNum (inum g)] now (gh_queue H))\<rparr>)"

fun health_apply :: "eval_config \<Rightarrow> health_event \<Rightarrow> group_health \<Rightarrow> group_health" where
  "health_apply cfg (OfQueue ev) H = H\<lparr>gh_queue := queue_apply cfg ev (gh_queue H)\<rparr>"
| "health_apply cfg (Replace g due now) H = H\<lparr>gh_rechecks := snd (recheck_replace g due now (gh_rechecks H))\<rparr>"
| "health_apply cfg (RecheckFires t now) H = recheck_due cfg t now H"

text \<open>The due times handed to the scheduler lie less than 24 days ahead, the range of a timer; the windows a group can be
  configured with are at most an hour.\<close>

fun health_event_possible :: "health_event \<Rightarrow> group_health \<Rightarrow> bool" where
  "health_event_possible (OfQueue ev) H = queue_event_possible ev (gh_queue H)"
| "health_event_possible (Replace g due now) H =
     (case to_number due of Fin d \<Rightarrow> d \<le> now + MAX_TIMER_DELAY_MS - 25 | _ \<Rightarrow> True)"
| "health_event_possible (RecheckFires t now) H =
     (case map_of (tw_armed (rs_wheel (gh_rechecks H))) t of None \<Rightarrow> False | Some (g, due) \<Rightarrow> due \<le> now)"

inductive health_reach :: "eval_config \<Rightarrow> group_health \<Rightarrow> bool" for cfg where
  health_start: "health_reach cfg \<lparr>gh_queue = new_queue, gh_rechecks = new_rechecks\<rparr>"
| health_step: "health_reach cfg H \<Longrightarrow> health_event_possible ev H \<Longrightarrow> health_reach cfg (health_apply cfg ev H)"

definition rechecks_ok :: "recheck_scheduler \<Rightarrow> bool" where
  "rechecks_ok s \<longleftrightarrow> (\<forall>t. tw_next (rs_wheel s) \<le> t \<longrightarrow> map_of (tw_armed (rs_wheel s)) t = None)
   \<and> (\<forall>t g d. map_of (tw_armed (rs_wheel s)) t = Some (g, d) \<longrightarrow>
        0 < g \<and> (\<exists>dueAt. map_of (rs_pending s) g = Some (dueAt, t) \<and> dueAt + 25 \<le> d))
   \<and> (\<forall>g dueAt t. map_of (rs_pending s) g = Some (dueAt, t) \<longrightarrow> (\<exists>d. map_of (tw_armed (rs_wheel s)) t = Some (g, d)))"

lemma rechecks_okD:
  assumes "rechecks_ok s"
  shows "tw_next (rs_wheel s) \<le> t \<Longrightarrow> map_of (tw_armed (rs_wheel s)) t = None"
    "map_of (tw_armed (rs_wheel s)) t = Some (g, d) \<Longrightarrow> 0 < g \<and> (\<exists>dueAt. map_of (rs_pending s) g = Some (dueAt, t) \<and> dueAt + 25 \<le> d)"
    "map_of (rs_pending s) g = Some (dueAt, t) \<Longrightarrow> \<exists>d. map_of (tw_armed (rs_wheel s)) t = Some (g, d)"
  using assms unfolding rechecks_ok_def by blast+

text \<open>Taking a group out of the scheduler, with its timer.\<close>

lemma rechecks_ok_remove:
  assumes ok: "rechecks_ok s"
    and "map_of (tw_armed (rs_wheel s')) = (\<lambda>t. if \<exists>dueAt. map_of (rs_pending s) g = Some (dueAt, t) then None else map_of (tw_armed (rs_wheel s)) t)"
    and "tw_next (rs_wheel s') = tw_next (rs_wheel s)" "map_of (rs_pending s') = (map_of (rs_pending s))(g := None)"
  shows "rechecks_ok s'"
  unfolding rechecks_ok_def assms(2-4)
proof (intro conjI allI impI)
  fix t h d
  assume a: "(if \<exists>dueAt. map_of (rs_pending s) g = Some (dueAt, t) then None else map_of (tw_armed (rs_wheel s)) t) = Some (h, d)"
  then have t: "map_of (tw_armed (rs_wheel s)) t = Some (h, d)" "\<nexists>dueAt. map_of (rs_pending s) g = Some (dueAt, t)"
    by (auto split: if_splits)
  then show "0 < h" using rechecks_okD(2) [OF ok] by blast
  have "h \<noteq> g" using t rechecks_okD(2) [OF ok t(1)] by blast
  then show "\<exists>dueAt. ((map_of (rs_pending s))(g := None)) h = Some (dueAt, t) \<and> dueAt + 25 \<le> d"
    using rechecks_okD(2) [OF ok t(1)] by simp
next
  fix h dueAt t
  assume "((map_of (rs_pending s))(g := None)) h = Some (dueAt, t)"
  then have h: "h \<noteq> g" "map_of (rs_pending s) h = Some (dueAt, t)" by (auto split: if_splits)
  then obtain d where d: "map_of (tw_armed (rs_wheel s)) t = Some (h, d)" using rechecks_okD(3) [OF ok] by blast
  have "\<nexists>dueAt. map_of (rs_pending s) g = Some (dueAt, t)" using rechecks_okD(3) [OF ok, of g _ t] d h(1) by fastforce
  then show "\<exists>d. (if \<exists>dueAt. map_of (rs_pending s) g = Some (dueAt, t) then None else map_of (tw_armed (rs_wheel s)) t) = Some (h, d)"
    using d by simp
qed (use rechecks_okD(1) [OF ok] in auto)

lemma rechecks_ok_drop:
  assumes "rechecks_ok s"
  shows "rechecks_ok ((clear_recheck_timer g s)\<lparr>rs_pending := alist_delete g (rs_pending (clear_recheck_timer g s))\<rparr>)"
  by (rule rechecks_ok_remove [OF assms, of _ g])
    (auto simp: clear_recheck_timer_def alist_simps fun_eq_iff split: option.splits)

text \<open>Entering a group that has no entry.\<close>

lemma rechecks_ok_add:
  assumes ok: "rechecks_ok s" and g: "0 < g" "map_of (rs_pending s) g = None" and d: "dueAt + 25 \<le> d"
    and s': "map_of (tw_armed (rs_wheel s')) = (map_of (tw_armed (rs_wheel s)))(tw_next (rs_wheel s) \<mapsto> (g, d))"
      "tw_next (rs_wheel s') = Suc (tw_next (rs_wheel s))" "map_of (rs_pending s') = (map_of (rs_pending s))(g \<mapsto> (dueAt, tw_next (rs_wheel s)))"
  shows "rechecks_ok s'"
  unfolding rechecks_ok_def s'
proof (intro conjI allI impI)
  fix t h e
  assume "((map_of (tw_armed (rs_wheel s)))(tw_next (rs_wheel s) \<mapsto> (g, d))) t = Some (h, e)"
  then consider "t = tw_next (rs_wheel s)" "h = g" "e = d" | "t \<noteq> tw_next (rs_wheel s)" "map_of (tw_armed (rs_wheel s)) t = Some (h, e)"
    by (auto split: if_splits)
  then have "0 < h \<and> (\<exists>dueAt'. ((map_of (rs_pending s))(g \<mapsto> (dueAt, tw_next (rs_wheel s)))) h = Some (dueAt', t) \<and> dueAt' + 25 \<le> e)"
  proof cases
    case 2
    then have "h \<noteq> g" using rechecks_okD(2) [OF ok 2(2)] g(2) by auto
    then show ?thesis using rechecks_okD(2) [OF ok 2(2)] by simp
  qed (use g d in simp)
  then show "0 < h" "\<exists>dueAt'. ((map_of (rs_pending s))(g \<mapsto> (dueAt, tw_next (rs_wheel s)))) h = Some (dueAt', t) \<and> dueAt' + 25 \<le> e"
    by blast+
next
  fix h dueAt' t
  assume "((map_of (rs_pending s))(g \<mapsto> (dueAt, tw_next (rs_wheel s)))) h = Some (dueAt', t)"
  then show "\<exists>e. ((map_of (tw_armed (rs_wheel s)))(tw_next (rs_wheel s) \<mapsto> (g, d))) t = Some (h, e)"
    using rechecks_okD(3) [OF ok, of h dueAt' t] rechecks_okD(1) [OF ok, of t] by (fastforce split: if_splits)
qed (use rechecks_okD(1) [OF ok] in auto)

lemma rechecks_ok_replace:
  assumes ok: "rechecks_ok s" and r: "case to_number due of Fin d \<Rightarrow> d \<le> now + MAX_TIMER_DELAY_MS - 25 | _ \<Rightarrow> True"
  shows "rechecks_ok (snd (recheck_replace gv due now s))"
proof (cases "as_integer (to_number gv)")
  case (Some g)
  define s1 where "s1 = (clear_recheck_timer g s)\<lparr>rs_pending := alist_delete g (rs_pending (clear_recheck_timer g s))\<rparr>"
  have ok1: "rechecks_ok s1" unfolding s1_def by (rule rechecks_ok_drop [OF ok])
  show ?thesis
  proof (cases "\<exists>d. g > 0 \<and> to_number due = Fin d \<and> d > 0 \<and> map_option fst (map_of (rs_pending s) g) \<noteq> Some d")
    case True
    then obtain d where d: "g > 0" "to_number due = Fin d" "d > 0" "map_option fst (map_of (rs_pending s) g) \<noteq> Some d" by blast
    have range: "max 0 (d - now) + 25 \<le> MAX_TIMER_DELAY_MS" using r d(2) by (simp add: MAX_TIMER_DELAY_MS_def)
    have pend: "rs_pending (clear_recheck_timer g s) = rs_pending s" by (simp add: clear_recheck_timer_def split: option.splits prod.splits)
    have e: "snd (recheck_replace gv due now s) = (clear_recheck_timer g s)
       \<lparr>rs_wheel := snd (set_timer g (max 0 (d - now) + 25) now (rs_wheel (clear_recheck_timer g s))),
        rs_pending := alist_set g (d, tw_next (rs_wheel (clear_recheck_timer g s))) (rs_pending (clear_recheck_timer g s))\<rparr>"
      using Some d by (simp add: recheck_replace_def set_timer_def Let_def)
    show ?thesis
      by (rule rechecks_ok_add [OF ok1 d(1), of d "now + (max 0 (d - now) + 25)"])
        (use range in \<open>auto simp: e s1_def set_timer_def node_delay_def alist_simps pend fun_eq_iff\<close>)
  next
    case False
    then have "snd (recheck_replace gv due now s) = s \<or> snd (recheck_replace gv due now s) = s1"
      using Some by (auto simp: recheck_replace_def Let_def s1_def split: jsnum.split)
    then show ?thesis using ok ok1 by auto
  qed
qed (use ok in \<open>simp add: recheck_replace_def\<close>)

lemma recheck_fired_armed:
  assumes ok: "rechecks_ok s" and t: "map_of (tw_armed (rs_wheel s)) t = Some (g, d)"
  shows "fst (recheck_fired t s) = Some g" "rechecks_ok (snd (recheck_fired t s))" "map_of (rs_pending (snd (recheck_fired t s))) g = None"
proof -
  obtain dueAt where p: "map_of (rs_pending s) g = Some (dueAt, t)" using rechecks_okD(2) [OF ok t] by blast
  have f: "recheck_fired t s = (Some g, s\<lparr>rs_wheel := clear_timer t (rs_wheel s), rs_pending := alist_delete g (rs_pending s)\<rparr>)"
    using t p by (simp add: recheck_fired_def Let_def)
  show "fst (recheck_fired t s) = Some g" "map_of (rs_pending (snd (recheck_fired t s))) g = None"
    by (simp_all add: f alist_simps)
  show "rechecks_ok (snd (recheck_fired t s))"
    by (rule rechecks_ok_remove [OF ok, of _ g]) (auto simp: f p alist_simps fun_eq_iff)
qed

lemma health_reach_inv: "health_reach cfg H \<Longrightarrow> rechecks_ok (gh_rechecks H) \<and> queue_reach cfg (gh_queue H)"
proof (induction rule: health_reach.induct)
  case health_start
  then show ?case by (simp add: rechecks_ok_def new_rechecks_def empty_wheel_def queue_reach.start)
next
  case (health_step H ev)
  have enq: "queue_reach cfg (snd (enqueue_groups cfg vs now (gh_queue H)))" for vs now
    using queue_reach.step [of cfg "gh_queue H" "Enqueue vs now"] health_step.IH by simp
  show ?case
  proof (cases ev)
    case (OfQueue e)
    then show ?thesis using health_step queue_reach.step by simp
  next
    case (Replace g due now)
    then show ?thesis using health_step rechecks_ok_replace by simp
  next
    case (RecheckFires t now)
    then obtain g d where "map_of (tw_armed (rs_wheel (gh_rechecks H))) t = Some (g, d)"
      using health_step.hyps by (auto split: option.splits)
    then show ?thesis
      using RecheckFires health_step.IH recheck_fired_armed [of "gh_rechecks H" t g d] enq
      by (auto simp: recheck_due_def split: prod.splits)
  qed
qed

text \<open>Every group with a recheck time has exactly one armed timer, which fires no earlier than 25 ms after that time, and
  every armed timer is one of these: a replaced time never fires. When it fires the group enters the evaluation queue.\<close>

theorem recheck_reaches_queue_in_time:
  assumes "health_reach cfg H"
  shows "(map_of (rs_pending (gh_rechecks H)) g = Some (dueAt, t) \<longrightarrow>
      (\<exists>d. map_of (tw_armed (rs_wheel (gh_rechecks H))) t = Some (g, d) \<and> dueAt + 25 \<le> d))
    \<and> (map_of (tw_armed (rs_wheel (gh_rechecks H))) u = Some (h, d) \<longrightarrow>
      map_option snd (map_of (rs_pending (gh_rechecks H)) h) = Some u \<and> waiting (gh_queue (recheck_due cfg u now H)) h
      \<and> map_of (rs_pending (gh_rechecks (recheck_due cfg u now H))) h = None)"
proof -
  have ok: "rechecks_ok (gh_rechecks H)" using health_reach_inv [OF assms] by simp
  have "\<exists>d. map_of (tw_armed (rs_wheel (gh_rechecks H))) t = Some (g, d) \<and> dueAt + 25 \<le> d"
    if "map_of (rs_pending (gh_rechecks H)) g = Some (dueAt, t)"
    using rechecks_okD(3) [OF ok that] rechecks_okD(2) [OF ok] that by fastforce
  moreover have "map_option snd (map_of (rs_pending (gh_rechecks H)) h) = Some u \<and> waiting (gh_queue (recheck_due cfg u now H)) h
      \<and> map_of (rs_pending (gh_rechecks (recheck_due cfg u now H))) h = None"
    if u: "map_of (tw_armed (rs_wheel (gh_rechecks H))) u = Some (h, d)"
  proof -
    have "0 < h" "map_option snd (map_of (rs_pending (gh_rechecks H)) h) = Some u" using rechecks_okD(2) [OF ok u] by auto
    moreover have "recheck_due cfg u now H = H\<lparr>gh_rechecks := snd (recheck_fired u (gh_rechecks H)),
        gh_queue := snd (enqueue_groups cfg [JNum (inum h)] now (gh_queue H))\<rparr>"
      using recheck_fired_armed(1) [OF ok u] by (cases "recheck_fired u (gh_rechecks H)") (simp add: recheck_due_def)
    ultimately show ?thesis
      using recheck_fired_armed(3) [OF ok u] by (simp add: enqueue_groups_def Let_def waiting_def positive_id_int)
  qed
  ultimately show ?thesis by blast
qed

subsection \<open>Witnesses\<close>

definition sample_config :: eval_config where
  "sample_config = evaluation_config None None None"

text \<open>Two groups are being evaluated; the evaluation reports that one of them failed.\<close>

definition sample_queue :: eval_queue where
  "sample_queue = queue_apply sample_config (Fire 0 250) (queue_apply sample_config (Enqueue [JNum (inum 7), JNum (inum 8)] 0) new_queue)"

lemma sample_queue_reach: "queue_reach sample_config sample_queue"
  unfolding sample_queue_def
  by (rule queue_reach.step [OF queue_reach.step [OF queue_reach.start]])
    (simp_all add: enqueue_groups_def arm_flush_def add_positive_ids_def set_add_def positive_id_def new_queue_def empty_wheel_def
      set_timer_def node_delay_def MAX_TIMER_DELAY_MS_def sample_config_def evaluation_config_def Let_def)

lemma sample_queue_eval: "eq_evaluations sample_queue = [[7, 8]]"
  by (simp add: sample_queue_def enqueue_groups_def arm_flush_def add_positive_ids_def set_add_def positive_id_def new_queue_def empty_wheel_def
      set_timer_def queue_timer_fired_def flush_def Let_def)

theorem queued_group_is_never_lost_witness:
  "length (eq_evaluations sample_queue) \<le> 1 \<and>
   (waiting (queue_apply sample_config (Settle [7, 8] (BatchError [JNum (inum 8)]) 300) sample_queue) 8 \<or>
    (\<exists>b out now. Settle [7, 8] (BatchError [JNum (inum 8)]) 300 = Settle b out now \<and> 8 \<in> set b \<and> 8 \<notin> set (retry_ids out b)))"
  by (rule queued_group_is_never_lost)
    (use sample_queue_reach sample_queue_eval in \<open>simp_all add: waiting_def\<close>)

text \<open>Group 9 is handed in while groups 7 and 8 are being evaluated; the evaluation fails.\<close>

definition sample_busy :: eval_queue where
  "sample_busy = queue_apply sample_config (Enqueue [JNum (inum 9)] 260) sample_queue"

lemma sample_busy_reach: "queue_reach sample_config sample_busy"
  unfolding sample_busy_def by (rule queue_reach.step [OF sample_queue_reach]) simp

lemma sample_busy_pending: "9 \<in> set (eq_pending sample_busy)" "eq_evaluations sample_busy = [[7, 8]]"
  using sample_queue_eval by (simp_all add: sample_busy_def enqueue_groups_def Let_def positive_id_def)

theorem waiting_group_reaches_evaluation_witness:
  "eq_evaluations sample_busy = [[7, 8]]
   \<and> (\<exists>evs. possible_run sample_config evs sample_busy \<and> list_all (own_event OtherError) evs \<and> sorted (300 # map event_time evs)
     \<and> length evs \<le> 3 \<and> 9 \<in> set (concat (eq_evaluations (fold (queue_apply sample_config) evs sample_busy))))"
  using waiting_group_reaches_evaluation [OF sample_busy_reach, of 9 OtherError 300] sample_busy_pending
  by (simp add: waiting_def)

definition sample_health :: group_health where
  "sample_health = health_apply sample_config (Replace (JNum (inum 7)) (JNum (inum 1000)) 400) \<lparr>gh_queue = new_queue, gh_rechecks = new_rechecks\<rparr>"

lemma sample_health_timer:
  "health_reach sample_config sample_health" "map_of (tw_armed (rs_wheel (gh_rechecks sample_health))) 0 = Some (7, 1025)"
  "map_of (rs_pending (gh_rechecks sample_health)) 7 = Some (1000, 0)"
proof -
  show "health_reach sample_config sample_health"
    unfolding sample_health_def by (rule health_reach.health_step [OF health_reach.health_start]) (simp add: MAX_TIMER_DELAY_MS_def)
qed (simp_all add: sample_health_def recheck_replace_def clear_recheck_timer_def new_rechecks_def empty_wheel_def
      set_timer_def node_delay_def MAX_TIMER_DELAY_MS_def Let_def)

theorem recheck_reaches_queue_in_time_witness:
  "(\<exists>d. map_of (tw_armed (rs_wheel (gh_rechecks sample_health))) 0 = Some (7, d) \<and> 1000 + 25 \<le> d)
   \<and> waiting (gh_queue (recheck_due sample_config 0 1030 sample_health)) 7"
  using recheck_reaches_queue_in_time [OF sample_health_timer(1), where g = 7 and dueAt = 1000 and t = 0 and u = 0 and h = 7
      and d = 1025 and now = 1030] sample_health_timer(2,3) by blast

end
