(* ===== verification/TaskPools.thy ===== *)
theory TaskPools
  imports EventSystems "HOL-Library.Multiset"
begin

text \<open>
  Running asynchronous work: the bounded pool (server/asyncPool.ts), the dispatcher that runs the tasks of a key one after
  the other (server/keyedTaskDispatcher.ts) and the coordinator of runtime recoveries (server/agentRuntimeRecovery.ts).
  Each function is cut at its awaits; the settling of a promise is an event, and events come in any order. Concurrency
  values and times are integers.
\<close>

section \<open>A pool of workers\<close>

text \<open>For no items the one worker ends at once and the result is the empty list the early return of \<open>mapWithConcurrency\<close>
  gives.\<close>

datatype worker = Busy nat | Finished

record ('e, 'r) pool =
  po_results :: "'r option list"
  po_nextIndex :: nat
  po_failed :: bool
  po_firstError :: "'e option"
  po_workers :: "worker list"

text \<open>The head of the loop of a worker, up to the call of the mapper: the next item, or the end.\<close>

definition worker_next :: "nat \<Rightarrow> ('e, 'r) pool \<Rightarrow> worker \<times> ('e, 'r) pool" where
  "worker_next n s =
     (if po_failed s then (Finished, s)
      else let index = po_nextIndex s; s1 = s\<lparr>po_nextIndex := index + 1\<rparr> in
           if index \<ge> n then (Finished, s1) else (Busy index, s1))"

definition start_worker :: "nat \<Rightarrow> ('e, 'r) pool \<Rightarrow> ('e, 'r) pool" where
  "start_worker n s = (let (w, s1) = worker_next n s in s1\<lparr>po_workers := po_workers s1 @ [w]\<rparr>)"

definition pool_concurrency :: "nat \<Rightarrow> int \<Rightarrow> nat" where
  "pool_concurrency n concurrencyValue = nat (max 1 (min (int n) (if concurrencyValue = 0 then 1 else concurrencyValue)))"

definition pool_start :: "nat \<Rightarrow> int \<Rightarrow> ('e, 'r) pool" where
  "pool_start n concurrencyValue = (start_worker n ^^ pool_concurrency n concurrencyValue)
     \<lparr>po_results = replicate n None, po_nextIndex = 0, po_failed = False, po_firstError = None, po_workers = []\<rparr>"

text \<open>The mapper of the item of worker \<open>w\<close> settles with \<open>out\<close>.\<close>

definition mapper_settled :: "nat \<Rightarrow> nat \<Rightarrow> 'e + 'r \<Rightarrow> ('e, 'r) pool \<Rightarrow> ('e, 'r) pool" where
  "mapper_settled n w out s =
     (case po_workers s ! w of Finished \<Rightarrow> s
      | Busy index \<Rightarrow>
          let s1 = (case out of Inr r \<Rightarrow> s\<lparr>po_results := (po_results s)[index := Some r]\<rparr>
                    | Inl e \<Rightarrow> s\<lparr>po_failed := True, po_firstError := Some e\<rparr>);
              (w', s2) = worker_next n s1
          in s2\<lparr>po_workers := (po_workers s2)[w := w']\<rparr>)"

definition pool_result :: "('e, 'r) pool \<Rightarrow> ('e + 'r list) option" where
  "pool_result s = (if list_all (\<lambda>w. w = Finished) (po_workers s)
     then Some (if po_failed s then Inl (the (po_firstError s)) else Inr (map the (po_results s))) else None)"

inductive pool_reach :: "nat \<Rightarrow> int \<Rightarrow> (nat \<Rightarrow> 'e + 'r) \<Rightarrow> nat \<Rightarrow> ('e, 'r) pool \<Rightarrow> bool" for n c f where
  pool_init: "pool_reach n c f 0 (pool_start n c)"
| pool_step: "pool_reach n c f k s \<Longrightarrow> w < length (po_workers s) \<Longrightarrow> po_workers s ! w = Busy i \<Longrightarrow>
    pool_reach n c f (Suc k) (mapper_settled n w (f i) s)"

definition in_work :: "('e, 'r) pool \<Rightarrow> nat set" where
  "in_work s = {i. Busy i \<in> set (po_workers s)}"

text \<open>The items below the index are split into those in work and those that have settled; \<open>k\<close> counts the latter.\<close>

definition pool_inv :: "nat \<Rightarrow> (nat \<Rightarrow> 'e + 'r) \<Rightarrow> nat \<Rightarrow> ('e, 'r) pool \<Rightarrow> bool" where
  "pool_inv n f k s \<longleftrightarrow> length (po_results s) = n \<and> (\<forall>i. count (mset (po_workers s)) (Busy i) \<le> 1)
   \<and> in_work s \<subseteq> {..<min n (po_nextIndex s)} \<and> k = card ({..<min n (po_nextIndex s)} - in_work s)
   \<and> (\<forall>i \<in> {..<min n (po_nextIndex s)} - in_work s.
        (\<forall>r. f i = Inr r \<longrightarrow> po_results s ! i = Some r) \<and> (\<forall>e. f i = Inl e \<longrightarrow> po_failed s))
   \<and> (if po_failed s then \<exists>i < n. \<exists>e. f i = Inl e \<and> po_firstError s = Some e
      else Finished \<in> set (po_workers s) \<longrightarrow> n \<le> po_nextIndex s)"

lemma in_work_mset: "in_work s = {i. 0 < count (mset (po_workers s)) (Busy i)}"
  by (simp add: in_work_def)

text \<open>One more worker at the head of its loop.\<close>

lemma pool_inv_next:
  assumes inv: "pool_inv n f k s" and w: "worker_next n s = (w, s1)"
    and m: "mset ws = add_mset w (mset (po_workers s))"
  shows "pool_inv n f k (s1\<lparr>po_workers := ws\<rparr>)"
proof -
  have set: "set ws = insert w (set (po_workers s))" using arg_cong [OF m, of set_mset] by simp
  show ?thesis
  proof (cases "po_failed s \<or> n \<le> po_nextIndex s")
    case True
    then have w: "w = Finished" "s1 = (if po_failed s then s else s\<lparr>po_nextIndex := po_nextIndex s + 1\<rparr>)"
      using w by (auto simp: worker_next_def Let_def split: if_splits)
    have "in_work (s1\<lparr>po_workers := ws\<rparr>) = in_work s" using set w(1) by (auto simp: in_work_def)
    moreover have "min n (po_nextIndex s1) = min n (po_nextIndex s)" using True w(2) by auto
    ultimately show ?thesis using inv True w m set unfolding pool_inv_def by (auto split: if_splits)
  next
    case False
    define j where "j = po_nextIndex s"
    have w: "w = Busy j" "s1 = s\<lparr>po_nextIndex := j + 1\<rparr>" "j < n"
      using w False by (auto simp: worker_next_def Let_def j_def)
    have j: "j \<notin> in_work s" using inv by (auto simp: pool_inv_def j_def)
    have iw: "in_work (s1\<lparr>po_workers := ws\<rparr>) = insert j (in_work s)" using set w(1) by (auto simp: in_work_def)
    have range: "{..<min n (po_nextIndex s1)} = insert j {..<min n (po_nextIndex s)}" using w by (auto simp: j_def)
    have same: "{..<min n (po_nextIndex s1)} - in_work (s1\<lparr>po_workers := ws\<rparr>) = {..<min n (po_nextIndex s)} - in_work s"
      using j unfolding iw range by (auto simp: j_def)
    have "count (mset ws) (Busy i) \<le> 1" for i
    proof (cases "i = j")
      case True
      have "count (mset (po_workers s)) (Busy j) = 0" using j by (simp add: in_work_def count_mset_0_iff)
      then show ?thesis using m w(1) True by simp
    qed (use inv m w(1) in \<open>simp add: pool_inv_def\<close>)
    then show ?thesis using inv False w(2) iw range same set w(1) unfolding pool_inv_def by (auto simp: w(2))
  qed
qed

text \<open>The item of a worker settles: it leaves the set in work and counts as settled.\<close>

lemma pool_inv_outcome:
  assumes inv: "pool_inv n f k s" and m: "mset (po_workers s) = add_mset (Busy i) (mset ws)"
    and s1: "s1 = (case f i of Inr r \<Rightarrow> s\<lparr>po_results := (po_results s)[i := Some r]\<rparr>
                    | Inl e \<Rightarrow> s\<lparr>po_failed := True, po_firstError := Some e\<rparr>)"
  shows "pool_inv n f (Suc k) (s1\<lparr>po_workers := ws\<rparr>)"
proof -
  have set: "set (po_workers s) = insert (Busy i) (set ws)" using arg_cong [OF m, of set_mset] by simp
  have c: "count (mset (po_workers s)) (Busy j) \<le> 1" for j using inv by (simp add: pool_inv_def)
  have c0: "count (mset ws) (Busy i) = 0" using c [of i] m by simp
  then have i0: "Busy i \<notin> set ws" by simp
  have iw: "in_work s = insert i (in_work (s1\<lparr>po_workers := ws\<rparr>))" "i \<notin> in_work (s1\<lparr>po_workers := ws\<rparr>)"
    using set i0 by (auto simp: in_work_def)
  define R where "R = {..<min n (po_nextIndex s)}"
  have i: "i \<in> R" "in_work s \<subseteq> R" using inv iw(1) by (auto simp: pool_inv_def R_def)
  have next_eq: "po_nextIndex s1 = po_nextIndex s" by (simp add: s1 split: sum.split)
  have settled: "R - in_work (s1\<lparr>po_workers := ws\<rparr>) = insert i (R - in_work s)" using i(1) iw by auto
  have "Suc k = card (R - in_work (s1\<lparr>po_workers := ws\<rparr>))"
  proof -
    have "k = card (R - in_work s)" using inv by (simp add: pool_inv_def R_def)
    moreover have "i \<notin> R - in_work s" using iw(1) by blast
    ultimately show ?thesis unfolding settled by (simp add: R_def)
  qed
  moreover have "length (po_results s1) = n" using inv by (simp add: s1 pool_inv_def split: sum.split)
  moreover have "\<forall>j. count (mset ws) (Busy j) \<le> 1"
  proof
    fix j
    show "count (mset ws) (Busy j) \<le> 1"
    proof (cases "j = i")
      case True
      show ?thesis unfolding True c0 by simp
    qed (use c [of j] m in simp)
  qed
  moreover have "in_work (s1\<lparr>po_workers := ws\<rparr>) \<subseteq> R" using i iw by blast
  moreover have "\<forall>j \<in> R - in_work (s1\<lparr>po_workers := ws\<rparr>).
        (\<forall>r. f j = Inr r \<longrightarrow> po_results s1 ! j = Some r) \<and> (\<forall>e. f j = Inl e \<longrightarrow> po_failed s1)"
  proof
    fix j
    assume "j \<in> R - in_work (s1\<lparr>po_workers := ws\<rparr>)"
    then consider "j = i" | "j \<noteq> i" "j \<in> R - in_work s" unfolding settled by blast
    then show "(\<forall>r. f j = Inr r \<longrightarrow> po_results s1 ! j = Some r) \<and> (\<forall>e. f j = Inl e \<longrightarrow> po_failed s1)"
    proof cases
      case 1
      then show ?thesis using i inv by (auto simp: s1 R_def pool_inv_def split: sum.split)
    next
      case 2
      then show ?thesis using inv by (auto simp: s1 R_def pool_inv_def split: sum.split)
    qed
  qed
  moreover have "if po_failed s1 then \<exists>j < n. \<exists>e. f j = Inl e \<and> po_firstError s1 = Some e
      else Finished \<in> set ws \<longrightarrow> n \<le> po_nextIndex s"
    using inv i set by (auto simp: s1 R_def pool_inv_def split: sum.split if_splits)
  ultimately show ?thesis unfolding pool_inv_def by (simp add: next_eq R_def)
qed

lemma pool_inv_settle:
  assumes inv: "pool_inv n f k s" and w: "w < length (po_workers s)" "po_workers s ! w = Busy i"
  shows "pool_inv n f (Suc k) (mapper_settled n w (f i) s)"
proof -
  define ws where "ws = take w (po_workers s) @ drop (Suc w) (po_workers s)"
  define s1 where "s1 = (case f i of Inr r \<Rightarrow> s\<lparr>po_results := (po_results s)[i := Some r]\<rparr>
                    | Inl e \<Rightarrow> s\<lparr>po_failed := True, po_firstError := Some e\<rparr>)"
  have ms: "mset (po_workers s) = add_mset (Busy i) (mset ws)"
    using arg_cong [OF id_take_nth_drop [OF w(1)], of mset] w(2) by (simp add: ws_def)
  have inv1: "pool_inv n f (Suc k) (s1\<lparr>po_workers := ws\<rparr>)" by (rule pool_inv_outcome [OF inv ms s1_def])
  obtain w' s2 where nx: "worker_next n (s1\<lparr>po_workers := ws\<rparr>) = (w', s2)" by force
  have ws_s1: "po_workers s1 = po_workers s" by (simp add: s1_def split: sum.split)
  have e: "mapper_settled n w (f i) s = s2\<lparr>po_workers := (po_workers s)[w := w']\<rparr>"
    using nx w(2) ws_s1 by (auto simp: mapper_settled_def worker_next_def Let_def s1_def [symmetric] split: if_splits)
  have "mset ((po_workers s)[w := w']) = add_mset w' (mset ws)" using w ms by (simp add: mset_update)
  then show ?thesis unfolding e using pool_inv_next [OF inv1 nx, of "(po_workers s)[w := w']"] by simp
qed

lemma pool_inv_start:
  fixes f :: "nat \<Rightarrow> 'a + 'b"
  shows "pool_inv n f 0 (pool_start n c)"
proof -
  have "pool_inv n f 0 ((start_worker n ^^ m)
     \<lparr>po_results = replicate n None, po_nextIndex = 0, po_failed = False, po_firstError = None, po_workers = []\<rparr>)" for m
  proof (induction m)
    case 0
    then show ?case by (simp add: pool_inv_def in_work_def)
  next
    case (Suc m)
    define s :: "('a, 'b) pool" where "s = (start_worker n ^^ m)
     \<lparr>po_results = replicate n None, po_nextIndex = 0, po_failed = False, po_firstError = None, po_workers = []\<rparr>"
    obtain w s1 where w: "worker_next n s = (w, s1)" by force
    have "po_workers s1 = po_workers s" using w by (auto simp: worker_next_def Let_def split: if_splits)
    then have "start_worker n s = s1\<lparr>po_workers := po_workers s @ [w]\<rparr>" using w by (simp add: start_worker_def)
    then show ?case using pool_inv_next [OF Suc.IH [folded s_def] w, of "po_workers s @ [w]"] by (simp add: s_def [symmetric])
  qed
  then show ?thesis by (simp add: pool_start_def)
qed

lemma pool_reach_inv: "pool_reach n c f k s \<Longrightarrow> pool_inv n f k s"
  by (induction rule: pool_reach.induct) (simp_all add: pool_inv_start pool_inv_settle)

lemma pool_reach_workers: "pool_reach n c f k s \<Longrightarrow> length (po_workers s) = pool_concurrency n c"
proof (induction rule: pool_reach.induct)
  case pool_init
  have "length (po_workers ((start_worker n ^^ m) s)) = length (po_workers s) + m" for m and s :: "('a, 'b) pool"
    by (induction m) (auto simp: start_worker_def worker_next_def Let_def)
  then show ?case by (simp add: pool_start_def)
next
  case (pool_step k s w i)
  then show ?case by (simp add: mapper_settled_def worker_next_def Let_def split: worker.split sum.split)
qed

lemma pool_all_finished: "list_all (\<lambda>w. w = Finished) (po_workers s) \<Longrightarrow> in_work s = {}"
  by (auto simp: list_all_iff in_work_def)

text \<open>C39: mapping with bounded concurrency gives what mapping one item after the other would give, whatever order the
  items settle in: the list of all results in the order of the items when no item fails, and otherwise the error of
  some item that failed.\<close>

theorem pool_equals_sequential_map:
  assumes "pool_reach n c f k s" "pool_result s = Some out"
  shows "case out of Inr rs \<Rightarrow> map Inr rs = map f [0..<n] | Inl e \<Rightarrow> Inl e \<in> f ` {..<n}"
proof -
  note inv = pool_reach_inv [OF assms(1)]
  have fin: "in_work s = {}" using assms(2) pool_all_finished [of s] by (auto simp: pool_result_def split: if_splits)
  show ?thesis
  proof (cases "po_failed s")
    case True
    then obtain i e where "i < n" "f i = Inl e" "po_firstError s = Some e" using inv by (auto simp: pool_inv_def)
    then show ?thesis using True assms(2) by (force simp: pool_result_def split: if_splits)
  next
    case False
    have "0 < length (po_workers s)" using pool_reach_workers [OF assms(1)] by (simp add: pool_concurrency_def)
    then have "hd (po_workers s) \<in> set (po_workers s)" by simp
    then have "Finished \<in> set (po_workers s)" using assms(2) by (auto simp: pool_result_def list_all_iff split: if_splits)
    then have "n \<le> po_nextIndex s" using inv False by (simp add: pool_inv_def)
    then have r: "\<exists>r. f i = Inr r \<and> po_results s ! i = Some r" if "i < n" for i
      using inv fin False that by (cases "f i") (auto simp: pool_inv_def)
    have "map Inr (map the (po_results s)) = map f [0..<n]"
      by (rule nth_equalityI) (use inv r in \<open>force simp: pool_inv_def\<close>)+
    then show ?thesis using False assms(2) by (auto simp: pool_result_def split: if_splits)
  qed
qed

text \<open>At most the given number of mappers run at a time, no item is handed out twice, and every run ends: it has at most
  one step per item, and as long as there is no result some worker has an item that can settle.\<close>

theorem pool_terminates_within_bounds:
  assumes "pool_reach n c f k s"
  shows "k \<le> n \<and> card (in_work s) \<le> pool_concurrency n c \<and> k + card (in_work s) \<le> n
    \<and> (pool_result s = None \<longleftrightarrow> in_work s \<noteq> {})"
proof -
  note inv = pool_reach_inv [OF assms]
  define R where "R = {..<min n (po_nextIndex s)}"
  have sub: "in_work s \<subseteq> R" "finite R" "card R \<le> n" "k = card (R - in_work s)"
    using inv by (simp_all add: pool_inv_def R_def)
  then have "k + card (in_work s) = card R" by (simp add: card_Diff_subset card_mono finite_subset)
  moreover have "card (in_work s) \<le> length (po_workers s)"
  proof -
    have "Busy ` in_work s \<subseteq> set (po_workers s)" by (auto simp: in_work_def)
    then have "card (Busy ` in_work s) \<le> card (set (po_workers s))" by (intro card_mono) simp_all
    then show ?thesis using card_image [of Busy "in_work s"] card_length [of "po_workers s"] by (simp add: inj_on_def)
  qed
  moreover have "pool_result s = None \<longleftrightarrow> in_work s \<noteq> {}"
  proof -
    have "w = Finished \<or> (\<exists>i. w = Busy i)" for w by (cases w) auto
    then show ?thesis by (auto simp: pool_result_def in_work_def list_all_iff)
  qed
  ultimately show ?thesis using sub(3) pool_reach_workers [OF assms] by simp
qed

section \<open>Tasks in order per key\<close>

datatype task_phase = Queued "nat option" | SlotWait | Running | Settled | Closed

record dispatched_task =
  dt_key :: string
  dt_phase :: task_phase

record dispatcher =
  dp_tasks :: "dispatched_task list"
  dp_keyTails :: "(string \<times> nat) list"
  dp_slotWaiters :: "nat list"
  dp_idleWaiters :: nat
  dp_activeSlots :: nat
  dp_pendingTasks :: nat

definition new_dispatcher :: dispatcher where
  "new_dispatcher = \<lparr>dp_tasks = [], dp_keyTails = [], dp_slotWaiters = [], dp_idleWaiters = 0, dp_activeSlots = 0, dp_pendingTasks = 0\<rparr>"

definition dispatcher_concurrency :: "int \<Rightarrow> nat" where
  "dispatcher_concurrency concurrencyValue = nat (max 1 (if concurrencyValue = 0 then 1 else concurrencyValue))"

definition dispatcher_key :: "string \<Rightarrow> string" where
  "dispatcher_key keyValue = (let k = js_trim keyValue in if k = [] then ''default'' else k)"

definition set_phase :: "nat \<Rightarrow> task_phase \<Rightarrow> dispatcher \<Rightarrow> dispatcher" where
  "set_phase i p s = s\<lparr>dp_tasks := (dp_tasks s)[i := (dp_tasks s ! i)\<lparr>dt_phase := p\<rparr>]\<rparr>"

definition dispatcher_enqueue :: "string \<Rightarrow> dispatcher \<Rightarrow> nat \<times> dispatcher" where
  "dispatcher_enqueue keyValue s =
     (let key = dispatcher_key keyValue; i = length (dp_tasks s) in
      (i, s\<lparr>dp_tasks := dp_tasks s @ [\<lparr>dt_key = key, dt_phase = Queued (map_of (dp_keyTails s) key)\<rparr>],
            dp_keyTails := alist_set key i (dp_keyTails s), dp_pendingTasks := dp_pendingTasks s + 1\<rparr>))"

text \<open>The task behind a settled predecessor asks for a slot.\<close>

definition acquireSlot :: "nat \<Rightarrow> nat \<Rightarrow> dispatcher \<Rightarrow> dispatcher" where
  "acquireSlot concurrency i s =
     (if dp_activeSlots s < concurrency then (set_phase i Running s)\<lparr>dp_activeSlots := dp_activeSlots s + 1\<rparr>
      else (set_phase i SlotWait s)\<lparr>dp_slotWaiters := dp_slotWaiters s @ [i]\<rparr>)"

definition releaseSlot :: "dispatcher \<Rightarrow> dispatcher" where
  "releaseSlot s = (case dp_slotWaiters s of
       next # rest \<Rightarrow> (set_phase next Running s)\<lparr>dp_slotWaiters := rest\<rparr>
     | [] \<Rightarrow> s\<lparr>dp_activeSlots := dp_activeSlots s - 1\<rparr>)"

definition task_settled :: "nat \<Rightarrow> dispatcher \<Rightarrow> dispatcher" where
  "task_settled i s = releaseSlot (set_phase i Settled s)"

definition tail_settled :: "nat \<Rightarrow> dispatcher \<Rightarrow> dispatcher" where
  "tail_settled i s =
     (let s1 = set_phase i Closed s; key = dt_key (dp_tasks s ! i);
          s2 = (if map_of (dp_keyTails s1) key = Some i then s1\<lparr>dp_keyTails := alist_delete key (dp_keyTails s1)\<rparr> else s1);
          s3 = s2\<lparr>dp_pendingTasks := dp_pendingTasks s2 - 1\<rparr>
      in if dp_pendingTasks s3 = 0 then s3\<lparr>dp_idleWaiters := 0\<rparr> else s3)"

definition waitForIdle :: "dispatcher \<Rightarrow> bool \<times> dispatcher" where
  "waitForIdle s = (if dp_pendingTasks s = 0 then (True, s) else (False, s\<lparr>dp_idleWaiters := dp_idleWaiters s + 1\<rparr>))"

datatype dispatch_event = EnqueueTask string | BeginTask nat | TaskSettles nat | TailSettles nat | WaitIdle

abbreviation phase_of :: "dispatcher \<Rightarrow> nat \<Rightarrow> task_phase" where
  "phase_of s i \<equiv> dt_phase (dp_tasks s ! i)"

abbreviation key_of :: "dispatcher \<Rightarrow> nat \<Rightarrow> string" where
  "key_of s i \<equiv> dt_key (dp_tasks s ! i)"

fun dispatch_possible :: "dispatch_event \<Rightarrow> dispatcher \<Rightarrow> bool" where
  "dispatch_possible (EnqueueTask k) s = True"
| "dispatch_possible (BeginTask i) s = (i < length (dp_tasks s) \<and>
     (case phase_of s i of Queued None \<Rightarrow> True | Queued (Some j) \<Rightarrow> phase_of s j = Closed | _ \<Rightarrow> False))"
| "dispatch_possible (TaskSettles i) s = (i < length (dp_tasks s) \<and> phase_of s i = Running)"
| "dispatch_possible (TailSettles i) s = (i < length (dp_tasks s) \<and> phase_of s i = Settled)"
| "dispatch_possible WaitIdle s = True"

fun dispatch_apply :: "nat \<Rightarrow> dispatch_event \<Rightarrow> dispatcher \<Rightarrow> dispatcher" where
  "dispatch_apply c (EnqueueTask k) s = snd (dispatcher_enqueue k s)"
| "dispatch_apply c (BeginTask i) s = acquireSlot c i s"
| "dispatch_apply c (TaskSettles i) s = task_settled i s"
| "dispatch_apply c (TailSettles i) s = tail_settled i s"
| "dispatch_apply c WaitIdle s = snd (waitForIdle s)"

inductive dispatch_reach :: "nat \<Rightarrow> dispatcher \<Rightarrow> bool" for c where
  dispatch_init: "dispatch_reach c new_dispatcher"
| dispatch_step: "dispatch_reach c s \<Longrightarrow> dispatch_possible ev s \<Longrightarrow> dispatch_reach c (dispatch_apply c ev s)"

definition with_phase :: "task_phase \<Rightarrow> dispatcher \<Rightarrow> nat set" where
  "with_phase p s = {i. i < length (dp_tasks s) \<and> phase_of s i = p}"

text \<open>The slots: what the counters and the queue of waiters say of the tasks.\<close>

definition slots_ok :: "nat \<Rightarrow> dispatcher \<Rightarrow> bool" where
  "slots_ok c s \<longleftrightarrow> card (with_phase Running s) = dp_activeSlots s \<and> dp_activeSlots s \<le> c \<and> distinct (dp_slotWaiters s)
     \<and> set (dp_slotWaiters s) = with_phase SlotWait s \<and> (dp_slotWaiters s \<noteq> [] \<longrightarrow> dp_activeSlots s = c)"

text \<open>The order of the tasks of a key: a task that has begun has only closed ones before it.\<close>

definition order_ok :: "dispatcher \<Rightarrow> bool" where
  "order_ok s \<longleftrightarrow> (\<forall>j < length (dp_tasks s).
     (case phase_of s j of
        Queued (Some i) \<Rightarrow> i < j \<and> key_of s i = key_of s j \<and> (\<forall>m. i < m \<and> m < j \<longrightarrow> key_of s m \<noteq> key_of s j)
      | _ \<Rightarrow> \<forall>m < j. key_of s m = key_of s j \<longrightarrow> phase_of s m = Closed))
   \<and> (\<forall>k. case map_of (dp_keyTails s) k of
        Some i \<Rightarrow> i < length (dp_tasks s) \<and> key_of s i = k \<and> (\<forall>m. i < m \<and> m < length (dp_tasks s) \<longrightarrow> key_of s m \<noteq> k)
      | None \<Rightarrow> \<forall>m < length (dp_tasks s). key_of s m = k \<longrightarrow> phase_of s m = Closed)"

definition pending_ok :: "dispatcher \<Rightarrow> bool" where
  "pending_ok s \<longleftrightarrow> dp_pendingTasks s = card {i. i < length (dp_tasks s) \<and> phase_of s i \<noteq> Closed}
     \<and> (dp_pendingTasks s = 0 \<longrightarrow> dp_idleWaiters s = 0)"

lemma finite_with_phase [simp]: "finite (with_phase p s)"
  by (simp add: with_phase_def)

lemma set_phase_frame [simp]:
  "length (dp_tasks (set_phase i p s)) = length (dp_tasks s)" "key_of (set_phase i p s) j = key_of s j"
  "dp_keyTails (set_phase i p s) = dp_keyTails s" "dp_slotWaiters (set_phase i p s) = dp_slotWaiters s"
  "dp_activeSlots (set_phase i p s) = dp_activeSlots s" "dp_pendingTasks (set_phase i p s) = dp_pendingTasks s"
  "dp_idleWaiters (set_phase i p s) = dp_idleWaiters s"
proof -
  show "key_of (set_phase i p s) j = key_of s j"
    by (cases "length (dp_tasks s) \<le> i"; cases "i = j") (simp_all add: set_phase_def list_update_beyond)
qed (simp_all add: set_phase_def)

lemma phase_of_set_phase: "i < length (dp_tasks s) \<Longrightarrow> phase_of (set_phase i p s) j = (if j = i then p else phase_of s j)"
  by (simp add: set_phase_def nth_list_update)

lemma with_phase_set_phase:
  "i < length (dp_tasks s) \<Longrightarrow> with_phase p (set_phase i q s) = (if p = q then insert i (with_phase p s) else with_phase p s - {i})"
  by (auto simp: with_phase_def phase_of_set_phase)

lemma slots_ok_cong:
  "dp_tasks s' = dp_tasks s \<Longrightarrow> dp_slotWaiters s' = dp_slotWaiters s \<Longrightarrow> dp_activeSlots s' = dp_activeSlots s \<Longrightarrow> slots_ok c s' = slots_ok c s"
  by (simp only: slots_ok_def with_phase_def)

lemma slots_ok_enqueue:
  assumes "slots_ok c s"
  shows "slots_ok c (snd (dispatcher_enqueue k s))"
proof -
  have "with_phase p (snd (dispatcher_enqueue k s)) = with_phase p s" if "p = Running \<or> p = SlotWait" for p
    using that by (auto simp: with_phase_def dispatcher_enqueue_def Let_def nth_append less_Suc_eq)
  then show ?thesis using assms by (simp add: slots_ok_def) (simp add: dispatcher_enqueue_def Let_def)
qed

lemma slots_ok_begin:
  assumes ok: "slots_ok c s" and i: "i < length (dp_tasks s)" "\<exists>x. phase_of s i = Queued x"
  shows "slots_ok c (acquireSlot c i s)"
proof -
  have nw: "i \<notin> with_phase Running s" "i \<notin> with_phase SlotWait s" using i(2) by (auto simp: with_phase_def)
  have wp: "with_phase p ((set_phase i q s)\<lparr>dp_activeSlots := a\<rparr>) = with_phase p (set_phase i q s)"
    "with_phase p ((set_phase i q s)\<lparr>dp_slotWaiters := ws\<rparr>) = with_phase p (set_phase i q s)" for p q a ws
    by (simp_all add: with_phase_def)
  show ?thesis
    using ok nw by (auto simp: acquireSlot_def slots_ok_def wp with_phase_set_phase [OF i(1)])
qed

lemma slots_ok_settle:
  assumes ok: "slots_ok c s" and i: "i < length (dp_tasks s)" "phase_of s i = Running"
  shows "slots_ok c (task_settled i s)"
proof -
  define s1 where "s1 = set_phase i Settled s"
  have run: "with_phase Running s1 = with_phase Running s - {i}" "with_phase SlotWait s1 = with_phase SlotWait s"
    using i by (auto simp: s1_def with_phase_set_phase) (simp add: with_phase_def)
  have i_run: "i \<in> with_phase Running s" using i by (simp add: with_phase_def)
  then have pos: "0 < card (with_phase Running s)" "card (with_phase Running s1) = card (with_phase Running s) - 1"
    unfolding run by (auto simp: card_gt_0_iff)
  show ?thesis
  proof (cases "dp_slotWaiters s")
    case Nil
    then have "task_settled i s = s1\<lparr>dp_activeSlots := dp_activeSlots s - 1\<rparr>" by (simp add: task_settled_def releaseSlot_def s1_def)
    moreover have "with_phase p (s1\<lparr>dp_activeSlots := dp_activeSlots s - 1\<rparr>) = with_phase p s1" for p by (simp add: with_phase_def)
    ultimately show ?thesis using ok pos run Nil by (auto simp: slots_ok_def s1_def)
  next
    case (Cons x rest)
    have x: "x \<in> with_phase SlotWait s1" "x \<notin> set rest" "set rest = with_phase SlotWait s1 - {x}" "distinct rest"
      using ok Cons run(2) by (auto simp: slots_ok_def)
    then have xl: "x < length (dp_tasks s1)" "x \<notin> with_phase Running s1" by (auto simp: with_phase_def)
    have e: "task_settled i s = (set_phase x Running s1)\<lparr>dp_slotWaiters := rest\<rparr>"
      using Cons by (simp add: task_settled_def releaseSlot_def s1_def)
    have wp: "with_phase p ((set_phase x Running s1)\<lparr>dp_slotWaiters := rest\<rparr>) = with_phase p (set_phase x Running s1)" for p
      by (simp add: with_phase_def)
    have "card (with_phase Running (set_phase x Running s1)) = card (with_phase Running s)"
      using pos xl by (simp add: with_phase_set_phase)
    then show ?thesis
      using ok x Cons unfolding e by (simp add: slots_ok_def wp with_phase_set_phase [OF xl(1)]) (simp add: s1_def)
  qed
qed

lemma slots_ok_close:
  assumes ok: "slots_ok c s" and i: "i < length (dp_tasks s)" "phase_of s i = Settled"
  shows "slots_ok c (tail_settled i s)"
proof -
  have "with_phase p (set_phase i Closed s) = with_phase p s" if "p = Running \<or> p = SlotWait" for p
    using i that by (auto simp: with_phase_set_phase) (simp_all add: with_phase_def)
  then have "slots_ok c (set_phase i Closed s)" using ok by (simp add: slots_ok_def)
  moreover have "slots_ok c (tail_settled i s) = slots_ok c (set_phase i Closed s)"
    by (rule slots_ok_cong) (simp_all add: tail_settled_def Let_def)
  ultimately show ?thesis by simp
qed

text \<open>Tasks of the same key before a task.\<close>

definition before_closed :: "dispatcher \<Rightarrow> nat \<Rightarrow> bool" where
  "before_closed s j \<longleftrightarrow> (\<forall>m < j. key_of s m = key_of s j \<longrightarrow> phase_of s m = Closed)"

lemma order_okD:
  assumes "order_ok s"
  shows "j < length (dp_tasks s) \<Longrightarrow> \<nexists>i. phase_of s j = Queued (Some i) \<Longrightarrow> before_closed s j"
    "j < length (dp_tasks s) \<Longrightarrow> phase_of s j = Queued (Some i) \<Longrightarrow>
       i < j \<and> key_of s i = key_of s j \<and> (\<forall>m. i < m \<and> m < j \<longrightarrow> key_of s m \<noteq> key_of s j)"
    "map_of (dp_keyTails s) k = Some i \<Longrightarrow>
       i < length (dp_tasks s) \<and> key_of s i = k \<and> (\<forall>m. i < m \<and> m < length (dp_tasks s) \<longrightarrow> key_of s m \<noteq> k)"
    "map_of (dp_keyTails s) k = None \<Longrightarrow> m < length (dp_tasks s) \<Longrightarrow> key_of s m = k \<Longrightarrow> phase_of s m = Closed"
proof -
  have t: "case phase_of s j of
        Queued (Some i) \<Rightarrow> i < j \<and> key_of s i = key_of s j \<and> (\<forall>m. i < m \<and> m < j \<longrightarrow> key_of s m \<noteq> key_of s j)
      | _ \<Rightarrow> \<forall>m < j. key_of s m = key_of s j \<longrightarrow> phase_of s m = Closed" if "j < length (dp_tasks s)"
    using assms that by (simp only: order_ok_def)
  have k: "case map_of (dp_keyTails s) k of
        Some i \<Rightarrow> i < length (dp_tasks s) \<and> key_of s i = k \<and> (\<forall>m. i < m \<and> m < length (dp_tasks s) \<longrightarrow> key_of s m \<noteq> k)
      | None \<Rightarrow> \<forall>m < length (dp_tasks s). key_of s m = k \<longrightarrow> phase_of s m = Closed"
    using assms by (simp only: order_ok_def)
  show "j < length (dp_tasks s) \<Longrightarrow> \<nexists>i. phase_of s j = Queued (Some i) \<Longrightarrow> before_closed s j"
    using t unfolding before_closed_def by (cases "phase_of s j") (auto split: option.splits)
  show "j < length (dp_tasks s) \<Longrightarrow> phase_of s j = Queued (Some i) \<Longrightarrow>
       i < j \<and> key_of s i = key_of s j \<and> (\<forall>m. i < m \<and> m < j \<longrightarrow> key_of s m \<noteq> key_of s j)"
    using t by simp
  show "map_of (dp_keyTails s) k = Some i \<Longrightarrow>
       i < length (dp_tasks s) \<and> key_of s i = k \<and> (\<forall>m. i < m \<and> m < length (dp_tasks s) \<longrightarrow> key_of s m \<noteq> k)"
    using k by simp
  show "map_of (dp_keyTails s) k = None \<Longrightarrow> m < length (dp_tasks s) \<Longrightarrow> key_of s m = k \<Longrightarrow> phase_of s m = Closed"
    using k by simp
qed

lemma order_okI:
  assumes "\<And>j. j < length (dp_tasks s) \<Longrightarrow> \<nexists>i. phase_of s j = Queued (Some i) \<Longrightarrow> before_closed s j"
    "\<And>j i. j < length (dp_tasks s) \<Longrightarrow> phase_of s j = Queued (Some i) \<Longrightarrow>
       i < j \<and> key_of s i = key_of s j \<and> (\<forall>m. i < m \<and> m < j \<longrightarrow> key_of s m \<noteq> key_of s j)"
    "\<And>k i. map_of (dp_keyTails s) k = Some i \<Longrightarrow>
       i < length (dp_tasks s) \<and> key_of s i = k \<and> (\<forall>m. i < m \<and> m < length (dp_tasks s) \<longrightarrow> key_of s m \<noteq> k)"
    "\<And>k m. map_of (dp_keyTails s) k = None \<Longrightarrow> m < length (dp_tasks s) \<Longrightarrow> key_of s m = k \<Longrightarrow> phase_of s m = Closed"
  shows "order_ok s"
  unfolding order_ok_def
proof (intro conjI allI impI)
  fix j
  assume j: "j < length (dp_tasks s)"
  show "case phase_of s j of
        Queued (Some i) \<Rightarrow> i < j \<and> key_of s i = key_of s j \<and> (\<forall>m. i < m \<and> m < j \<longrightarrow> key_of s m \<noteq> key_of s j)
      | _ \<Rightarrow> \<forall>m < j. key_of s m = key_of s j \<longrightarrow> phase_of s m = Closed"
    using assms(1,2) [OF j] unfolding before_closed_def by (cases "phase_of s j") (auto split: option.split)
next
  fix k
  show "case map_of (dp_keyTails s) k of
        Some i \<Rightarrow> i < length (dp_tasks s) \<and> key_of s i = k \<and> (\<forall>m. i < m \<and> m < length (dp_tasks s) \<longrightarrow> key_of s m \<noteq> k)
      | None \<Rightarrow> \<forall>m < length (dp_tasks s). key_of s m = k \<longrightarrow> phase_of s m = Closed"
    using assms(3,4) by (auto split: option.split)
qed

lemma before_closed_queued:
  assumes ok: "order_ok s" and j: "j < length (dp_tasks s)" "phase_of s j = Queued (Some i)" "phase_of s i = Closed"
  shows "before_closed s j"
  unfolding before_closed_def
proof (intro allI impI)
  fix m
  assume m: "m < j" "key_of s m = key_of s j"
  have i: "i < j" "key_of s i = key_of s j" "\<And>m. i < m \<Longrightarrow> m < j \<Longrightarrow> key_of s m \<noteq> key_of s j"
    using order_okD(2) [OF ok j(1,2)] by blast+
  have "before_closed s i" using order_okD(1) [OF ok, of i] i(1) j by auto
  then show "phase_of s m = Closed"
    using m i j(3) unfolding before_closed_def by (metis linorder_neqE_nat)
qed

lemma order_ok_phase:
  assumes ok: "order_ok s" and i: "i < length (dp_tasks s)" "phase_of s i \<noteq> Closed" "before_closed s i" and p: "\<And>x. p \<noteq> Queued x"
  shows "order_ok (set_phase i p s)"
proof (rule order_okI; (unfold set_phase_frame)?)
  fix j
  assume j: "j < length (dp_tasks s)" "\<nexists>x. phase_of (set_phase i p s) j = Queued (Some x)"
  have "before_closed s j" using i(3) order_okD(1) [OF ok j(1)] j(2) phase_of_set_phase [OF i(1)] by (cases "j = i") auto
  then show "before_closed (set_phase i p s) j" using i(2) by (auto simp: before_closed_def phase_of_set_phase [OF i(1)])
next
  fix j x
  assume j: "j < length (dp_tasks s)" "phase_of (set_phase i p s) j = Queued (Some x)"
  then have "phase_of s j = Queued (Some x)" using p by (auto simp: phase_of_set_phase [OF i(1)] split: if_splits)
  then show "x < j \<and> key_of s x = key_of s j \<and> (\<forall>m. x < m \<and> m < j \<longrightarrow> key_of s m \<noteq> key_of s j)" by (rule order_okD(2) [OF ok j(1)])
next
  fix k x
  assume "map_of (dp_keyTails s) k = Some x"
  then show "x < length (dp_tasks s) \<and> key_of s x = k \<and> (\<forall>m. x < m \<and> m < length (dp_tasks s) \<longrightarrow> key_of s m \<noteq> k)"
    by (rule order_okD(3) [OF ok])
next
  fix k m
  assume "map_of (dp_keyTails s) k = None" "m < length (dp_tasks s)" "key_of s m = k"
  then show "phase_of (set_phase i p s) m = Closed"
    using order_okD(4) [OF ok] i(2) by (auto simp: phase_of_set_phase [OF i(1)])
qed

lemma order_ok_cong: "dp_tasks s' = dp_tasks s \<Longrightarrow> dp_keyTails s' = dp_keyTails s \<Longrightarrow> order_ok s' = order_ok s"
  by (simp only: order_ok_def)

lemma order_ok_enqueue:
  assumes ok: "order_ok s"
  shows "order_ok (snd (dispatcher_enqueue kv s))"
proof -
  define k where "k = dispatcher_key kv"
  define n where "n = length (dp_tasks s)"
  define s' where "s' = snd (dispatcher_enqueue kv s)"
  have len: "length (dp_tasks s') = Suc n" and tails: "map_of (dp_keyTails s') = (map_of (dp_keyTails s))(k \<mapsto> n)"
    by (simp_all add: s'_def dispatcher_enqueue_def Let_def n_def k_def alist_simps)
  have old: "key_of s' m = key_of s m" "phase_of s' m = phase_of s m" if "m < n" for m
    using that by (simp_all add: s'_def dispatcher_enqueue_def Let_def n_def nth_append)
  have new: "key_of s' n = k" "phase_of s' n = Queued (map_of (dp_keyTails s) k)"
    by (simp_all add: s'_def dispatcher_enqueue_def Let_def n_def k_def)
  have "order_ok s'"
  proof (rule order_okI)
    fix j
    assume j: "j < length (dp_tasks s')" "\<nexists>i. phase_of s' j = Queued (Some i)"
    show "before_closed s' j"
    proof (cases "j = n")
      case True
      then have "map_of (dp_keyTails s) k = None" using j(2) new by (cases "map_of (dp_keyTails s) k") auto
      then show ?thesis using order_okD(4) [OF ok, of k] True new old by (simp add: before_closed_def n_def)
    next
      case False
      then have "j < n" using j(1) len by simp
      then show ?thesis using order_okD(1) [OF ok, of j] j(2) old by (simp add: before_closed_def n_def)
    qed
  next
    fix j i
    assume j: "j < length (dp_tasks s')" "phase_of s' j = Queued (Some i)"
    show "i < j \<and> key_of s' i = key_of s' j \<and> (\<forall>m. i < m \<and> m < j \<longrightarrow> key_of s' m \<noteq> key_of s' j)"
    proof (cases "j = n")
      case True
      then have "map_of (dp_keyTails s) k = Some i" using j(2) new by simp
      then show ?thesis using order_okD(3) [OF ok, of k i] True new old by (simp add: n_def)
    next
      case False
      then have "j < n" using j(1) len by simp
      then show ?thesis using order_okD(2) [OF ok, of j i] j(2) old by (auto simp: n_def)
    qed
  next
    fix k' i
    assume k': "map_of (dp_keyTails s') k' = Some i"
    show "i < length (dp_tasks s') \<and> key_of s' i = k' \<and> (\<forall>m. i < m \<and> m < length (dp_tasks s') \<longrightarrow> key_of s' m \<noteq> k')"
    proof (cases "k' = k")
      case True
      then show ?thesis using k' new len by (auto simp: tails)
    next
      case False
      then have "map_of (dp_keyTails s) k' = Some i" using k' by (simp add: tails)
      then show ?thesis using order_okD(3) [OF ok, of k' i] False new old len by (auto simp: n_def less_Suc_eq)
    qed
  next
    fix k' m
    assume k': "map_of (dp_keyTails s') k' = None" "m < length (dp_tasks s')" "key_of s' m = k'"
    then have "k' \<noteq> k" by (auto simp: tails)
    then have "m < n" using k' new len by (auto simp: less_Suc_eq)
    then show "phase_of s' m = Closed" using order_okD(4) [OF ok, of k' m] k' \<open>k' \<noteq> k\<close> old by (simp add: tails n_def)
  qed
  then show ?thesis by (simp add: s'_def)
qed

lemma order_ok_close:
  assumes ok: "order_ok s" and i: "i < length (dp_tasks s)" "phase_of s i = Settled"
  shows "order_ok (tail_settled i s)"
proof -
  define s1 where "s1 = set_phase i Closed s"
  define k where "k = key_of s i"
  have bc: "before_closed s i" using order_okD(1) [OF ok i(1)] i(2) by simp
  have ok1: "order_ok s1" unfolding s1_def by (rule order_ok_phase [OF ok i(1) _ bc]) (use i(2) in simp_all)
  define s2 where "s2 = (if map_of (dp_keyTails s1) k = Some i then s1\<lparr>dp_keyTails := alist_delete k (dp_keyTails s1)\<rparr> else s1)"
  have "order_ok s2"
  proof (cases "map_of (dp_keyTails s1) k = Some i")
    case True
    have closed: "phase_of s1 m = Closed" if m: "m < length (dp_tasks s1)" "key_of s1 m = k" for m
    proof -
      have "\<not> i < m" using order_okD(3) [OF ok1 True] m by blast
      then show ?thesis using bc m i by (auto simp: s1_def k_def before_closed_def phase_of_set_phase)
    qed
    have t: "dp_tasks s2 = dp_tasks s1" "map_of (dp_keyTails s2) = (map_of (dp_keyTails s1))(k := None)"
      using True by (simp_all add: s2_def alist_simps)
    show ?thesis
    proof (rule order_okI; (unfold t before_closed_def)?)
      fix k' m
      assume "((map_of (dp_keyTails s1))(k := None)) k' = None" "m < length (dp_tasks s1)" "key_of s1 m = k'"
      then show "phase_of s1 m = Closed" using closed order_okD(4) [OF ok1] by (auto split: if_splits)
    next
      fix k' x
      assume "((map_of (dp_keyTails s1))(k := None)) k' = Some x"
      then show "x < length (dp_tasks s1) \<and> key_of s1 x = k' \<and> (\<forall>m. x < m \<and> m < length (dp_tasks s1) \<longrightarrow> key_of s1 m \<noteq> k')"
        using order_okD(3) [OF ok1, of k' x] by (auto split: if_splits)
    next
      fix j
      assume j: "j < length (dp_tasks s1)" "\<nexists>x. phase_of s1 j = Queued (Some x)"
      show "\<forall>m < j. key_of s1 m = key_of s1 j \<longrightarrow> phase_of s1 m = Closed"
        using order_okD(1) [OF ok1 j] unfolding before_closed_def .
    next
      fix j x
      assume j: "j < length (dp_tasks s1)" "phase_of s1 j = Queued (Some x)"
      show "x < j \<and> key_of s1 x = key_of s1 j \<and> (\<forall>m. x < m \<and> m < j \<longrightarrow> key_of s1 m \<noteq> key_of s1 j)"
        by (rule order_okD(2) [OF ok1 j])
    qed
  qed (simp add: s2_def ok1)
  moreover have "order_ok (tail_settled i s) = order_ok s2"
    by (rule order_ok_cong) (simp_all add: tail_settled_def Let_def s2_def s1_def k_def)
  ultimately show ?thesis by simp
qed

lemma pending_ok_cong:
  "dp_tasks s' = dp_tasks s \<Longrightarrow> dp_pendingTasks s' = dp_pendingTasks s \<Longrightarrow> dp_idleWaiters s' = dp_idleWaiters s \<Longrightarrow> pending_ok s' = pending_ok s"
  by (simp only: pending_ok_def)

lemma pending_ok_phase:
  assumes "pending_ok s" "i < length (dp_tasks s)" "phase_of s i \<noteq> Closed" "p \<noteq> Closed"
  shows "pending_ok (set_phase i p s)"
proof -
  have "{j. j < length (dp_tasks s) \<and> phase_of (set_phase i p s) j \<noteq> Closed} = {j. j < length (dp_tasks s) \<and> phase_of s j \<noteq> Closed}"
    using assms by (auto simp: phase_of_set_phase)
  then show ?thesis using assms(1) by (simp add: pending_ok_def)
qed

lemma pending_ok_enqueue:
  assumes "pending_ok s"
  shows "pending_ok (snd (dispatcher_enqueue k s))"
proof -
  let ?s' = "snd (dispatcher_enqueue k s)"
  have "{i. i < length (dp_tasks ?s') \<and> phase_of ?s' i \<noteq> Closed}
      = insert (length (dp_tasks s)) {i. i < length (dp_tasks s) \<and> phase_of s i \<noteq> Closed}"
    by (auto simp: dispatcher_enqueue_def Let_def nth_append less_Suc_eq)
  then show ?thesis using assms by (simp add: pending_ok_def) (simp add: dispatcher_enqueue_def Let_def)
qed

lemma pending_ok_close:
  assumes ok: "pending_ok s" and i: "i < length (dp_tasks s)" "phase_of s i = Settled"
  shows "pending_ok (tail_settled i s)"
proof -
  define open_tasks where "open_tasks = {j. j < length (dp_tasks s) \<and> phase_of s j \<noteq> Closed}"
  define s1 where "s1 = set_phase i Closed s"
  define k where "k = key_of s i"
  define s2 where "s2 = (if map_of (dp_keyTails s1) k = Some i then s1\<lparr>dp_keyTails := alist_delete k (dp_keyTails s1)\<rparr> else s1)"
  have s2: "dp_tasks s2 = dp_tasks s1" "dp_pendingTasks s2 = dp_pendingTasks s" by (simp_all add: s2_def) (simp_all add: s1_def)
  have e: "tail_settled i s = (let s3 = s2\<lparr>dp_pendingTasks := dp_pendingTasks s2 - 1\<rparr>
      in if dp_pendingTasks s3 = 0 then s3\<lparr>dp_idleWaiters := 0\<rparr> else s3)"
    by (simp only: tail_settled_def Let_def s2_def s1_def k_def)
  have t: "dp_tasks (tail_settled i s) = dp_tasks (set_phase i Closed s)"
    "dp_pendingTasks (tail_settled i s) = dp_pendingTasks s - 1"
    "dp_pendingTasks (tail_settled i s) = 0 \<Longrightarrow> dp_idleWaiters (tail_settled i s) = 0"
    unfolding e by (simp_all add: Let_def s2 s1_def split: if_splits)
  have "{j. j < length (dp_tasks (tail_settled i s)) \<and> phase_of (tail_settled i s) j \<noteq> Closed} = open_tasks - {i}"
    using i by (auto simp: t open_tasks_def phase_of_set_phase)
  moreover have "i \<in> open_tasks" "finite open_tasks" using i by (simp_all add: open_tasks_def)
  moreover have "dp_pendingTasks s = card open_tasks" using ok by (simp add: pending_ok_def open_tasks_def)
  ultimately show ?thesis using t(2,3) by (simp add: pending_ok_def)
qed

lemma dispatch_event_inv:
  assumes ok: "slots_ok c s" "order_ok s" "pending_ok s" and ev: "dispatch_possible ev s"
  shows "slots_ok c (dispatch_apply c ev s) \<and> order_ok (dispatch_apply c ev s) \<and> pending_ok (dispatch_apply c ev s)"
proof (cases ev)
  case (EnqueueTask k)
  then show ?thesis using ok by (simp add: slots_ok_enqueue order_ok_enqueue pending_ok_enqueue)
next
  case (BeginTask i)
  then obtain x where i: "i < length (dp_tasks s)" "phase_of s i = Queued x" "\<And>j. x = Some j \<Longrightarrow> phase_of s j = Closed"
    using ev by (auto split: task_phase.splits option.splits)
  have bc: "before_closed s i"
    using order_okD(1) [OF ok(2) i(1)] before_closed_queued [OF ok(2) i(1)] i(2,3) by (cases x) auto
  have ph: "order_ok (set_phase i p s)" "pending_ok (set_phase i p s)" if "p = Running \<or> p = SlotWait" for p
    using order_ok_phase [OF ok(2) i(1) _ bc, of p] pending_ok_phase [OF ok(3) i(1), of p] i(2) that by auto
  obtain p where p: "p = Running \<or> p = SlotWait" "dp_tasks (acquireSlot c i s) = dp_tasks (set_phase i p s)"
    by (cases "dp_activeSlots s < c") (auto simp: acquireSlot_def)
  have fr: "dp_keyTails (acquireSlot c i s) = dp_keyTails (set_phase i p s)"
    "dp_pendingTasks (acquireSlot c i s) = dp_pendingTasks (set_phase i p s)"
    "dp_idleWaiters (acquireSlot c i s) = dp_idleWaiters (set_phase i p s)" by (simp_all add: acquireSlot_def)
  have "order_ok (acquireSlot c i s)" using ph(1) [OF p(1)] order_ok_cong [OF p(2) fr(1)] by simp
  moreover have "pending_ok (acquireSlot c i s)" using ph(2) [OF p(1)] pending_ok_cong [OF p(2) fr(2,3)] by simp
  ultimately show ?thesis using BeginTask slots_ok_begin [OF ok(1) i(1)] i(2) by simp
next
  case (TaskSettles i)
  then have i: "i < length (dp_tasks s)" "phase_of s i = Running" using ev by simp_all
  define s1 where "s1 = set_phase i Settled s"
  have ok1: "order_ok s1" "pending_ok s1"
    unfolding s1_def using order_ok_phase [OF ok(2) i(1) _ order_okD(1) [OF ok(2) i(1)]] pending_ok_phase [OF ok(3) i(1)] i(2)
    by simp_all
  have "order_ok (releaseSlot s1) \<and> pending_ok (releaseSlot s1)"
  proof (cases "dp_slotWaiters s1")
    case Nil
    then show ?thesis using ok1 order_ok_cong [of "releaseSlot s1" s1] pending_ok_cong [of "releaseSlot s1" s1] by (simp add: releaseSlot_def)
  next
    case (Cons x rest)
    then have "x \<in> with_phase SlotWait s" using ok(1) by (auto simp: s1_def slots_ok_def)
    then have x: "x < length (dp_tasks s1)" "phase_of s1 x = SlotWait"
      using i by (auto simp: s1_def with_phase_def phase_of_set_phase)
    have "order_ok (set_phase x Running s1)" "pending_ok (set_phase x Running s1)"
      using order_ok_phase [OF ok1(1) x(1) _ order_okD(1) [OF ok1(1) x(1)]] pending_ok_phase [OF ok1(2) x(1)] x(2) by simp_all
    then show ?thesis
      using Cons order_ok_cong [of "releaseSlot s1" "set_phase x Running s1"] pending_ok_cong [of "releaseSlot s1" "set_phase x Running s1"]
      by (simp add: releaseSlot_def)
  qed
  then show ?thesis using TaskSettles slots_ok_settle [OF ok(1) i] by (simp add: task_settled_def s1_def)
next
  case (TailSettles i)
  then have i: "i < length (dp_tasks s)" "phase_of s i = Settled" using ev by simp_all
  then show ?thesis using TailSettles slots_ok_close [OF ok(1)] order_ok_close [OF ok(2)] pending_ok_close [OF ok(3)] by simp
next
  case WaitIdle
  have "dp_tasks (snd (waitForIdle s)) = dp_tasks s" by (simp add: waitForIdle_def)
  moreover have "pending_ok (snd (waitForIdle s))" using ok(3) by (simp add: waitForIdle_def pending_ok_def)
  ultimately show ?thesis
    using WaitIdle ok slots_ok_cong [of "snd (waitForIdle s)" s] order_ok_cong [of "snd (waitForIdle s)" s] by (simp add: waitForIdle_def)
qed

interpretation dispatch: event_system dispatch_possible "dispatch_apply c" new_dispatcher "dispatch_reach c"
proof unfold_locales
  fix s and P :: "dispatcher \<Rightarrow> bool"
  assume "dispatch_reach c s" "P new_dispatcher" and step: "\<And>s ev. P s \<Longrightarrow> dispatch_possible ev s \<Longrightarrow> P (dispatch_apply c ev s)"
  then show "P s" by (induction rule: dispatch_reach.induct) (auto intro: step)
qed (auto intro: dispatch_init dispatch_step)

lemma dispatch_reach_inv: "dispatch_reach c s \<Longrightarrow> slots_ok c s \<and> order_ok s \<and> pending_ok s"
proof (erule dispatch.reach_least)
  show "slots_ok c new_dispatcher \<and> order_ok new_dispatcher \<and> pending_ok new_dispatcher"
    by (simp add: slots_ok_def order_ok_def pending_ok_def with_phase_def new_dispatcher_def)
qed (use dispatch_event_inv in blast)

text \<open>C13: the dispatcher runs at most the given number of tasks at a time and the tasks of a key strictly one after the other in
  the order they were handed in: when a task has begun, every earlier task of its key has ended. No slot is left idle
  while a task that may run waits for one.\<close>

theorem dispatcher_orders_and_bounds:
  assumes "dispatch_reach c s"
  shows "card (with_phase Running s) \<le> c
    \<and> (i < j \<and> j < length (dp_tasks s) \<and> key_of s i = key_of s j \<and> (\<forall>x. phase_of s j \<noteq> Queued x) \<longrightarrow> phase_of s i = Closed)
    \<and> (with_phase SlotWait s \<noteq> {} \<longrightarrow> card (with_phase Running s) = c)"
proof -
  have ok: "slots_ok c s" "order_ok s" using dispatch_reach_inv [OF assms] by simp_all
  have "phase_of s i = Closed" if "i < j" "j < length (dp_tasks s)" "key_of s i = key_of s j" "\<forall>x. phase_of s j \<noteq> Queued x"
    using order_okD(1) [OF ok(2) that(2)] that by (simp add: before_closed_def)
  moreover have "with_phase SlotWait s \<noteq> {} \<Longrightarrow> card (with_phase Running s) = c" using ok(1) by (auto simp: slots_ok_def)
  ultimately show ?thesis using ok(1) by (auto simp: slots_ok_def)
qed

text \<open>The dispatcher never gets stuck. While a task is pending some task can take its next step, and callers that wait for
  the dispatcher to be idle are woken up when the last task has ended.\<close>

theorem dispatcher_makes_progress:
  assumes "dispatch_reach c s" "0 < c"
  shows "if dp_pendingTasks s = 0 then dp_idleWaiters s = 0
    else \<exists>i. dispatch_possible (BeginTask i) s \<or> dispatch_possible (TaskSettles i) s \<or> dispatch_possible (TailSettles i) s"
proof (cases "dp_pendingTasks s = 0")
  case True
  then show ?thesis using dispatch_reach_inv [OF assms(1)] by (simp add: pending_ok_def)
next
  case False
  have ok: "slots_ok c s" "order_ok s" "pending_ok s" using dispatch_reach_inv [OF assms(1)] by simp_all
  define P where "P i \<longleftrightarrow> i < length (dp_tasks s) \<and> phase_of s i \<noteq> Closed" for i
  have "{i. P i} \<noteq> {}" using ok(3) False by (auto simp: pending_ok_def P_def)
  then obtain i where "P i" by blast
  then obtain i where i: "P i" "\<And>j. j < i \<Longrightarrow> \<not> P j" using ex_least_nat_le [of P] by metis
  then have len: "i < length (dp_tasks s)" by (simp add: P_def)
  have "\<exists>i. dispatch_possible (BeginTask i) s \<or> dispatch_possible (TaskSettles i) s \<or> dispatch_possible (TailSettles i) s"
  proof (cases "phase_of s i")
    case (Queued x)
    have "phase_of s j = Closed" if "x = Some j" for j
      using order_okD(2) [OF ok(2) len, of j] Queued that i(2) [of j] len by (auto simp: P_def)
    then show ?thesis using Queued len by (intro exI [of _ i]) (auto split: option.split)
  next
    case SlotWait
    then have "with_phase SlotWait s \<noteq> {}" using len by (auto simp: with_phase_def)
    then have "card (with_phase Running s) = c" using ok(1) by (auto simp: slots_ok_def)
    then have "with_phase Running s \<noteq> {}" using assms(2) by auto
    then show ?thesis by (auto simp: with_phase_def)
  qed (use i len in \<open>auto simp: P_def\<close>)
  then show ?thesis using False by simp
qed

section \<open>Recovery of the runtime of a host\<close>

text \<open>A state object of \<open>AgentRuntimeRecoveryCoordinator\<close>. A request that is in flight is known by its call. The objects live in a
  store and the map of the coordinator holds their addresses: a call that runs a task keeps its object even after the
  host has been cleared.\<close>

definition AGENT_RUNTIME_RECOVERY_COOLDOWN_MS :: int where
  "AGENT_RUNTIME_RECOVERY_COOLDOWN_MS = 60 * 1000"

definition recoveryStrength :: "bool option \<Rightarrow> int" where
  "recoveryStrength preserveReportedRuntime = (if preserveReportedRuntime = Some True then 0 else 1)"

definition recovery_cooldown :: "int option \<Rightarrow> int" where
  "recovery_cooldown cooldownMs = max 0 (case cooldownMs of Some c \<Rightarrow> c | None \<Rightarrow> AGENT_RUNTIME_RECOVERY_COOLDOWN_MS)"

record recovery_state =
  rs_lastSuccessAt :: int
  rs_lastSuccessStrength :: int
  rs_inFlight :: "(int \<times> nat) option"

text \<open>Where a call of \<open>run\<close> stands: at the await of the task another call runs, at the await of its own task with the address
  of its state object, after its task has succeeded at some time (true), answered without a task (false), or left by
  the error of its task.\<close>

datatype recovery_phase = Awaiting nat | InTask nat | Ran int | Coalesced | Raised

record recovery_call =
  rc_host :: int
  rc_strength :: int
  rc_phase :: recovery_phase

record recovery =
  rv_store :: "recovery_state list"
  rv_states :: "(int \<times> nat) list"
  rv_calls :: "recovery_call list"

definition new_recovery :: recovery where
  "new_recovery = \<lparr>rv_store = [], rv_states = [], rv_calls = []\<rparr>"

definition set_call :: "nat \<Rightarrow> recovery_phase \<Rightarrow> recovery \<Rightarrow> recovery" where
  "set_call i p s = s\<lparr>rv_calls := (rv_calls s)[i := (rv_calls s ! i)\<lparr>rc_phase := p\<rparr>]\<rparr>"

definition recovery_object :: "int \<Rightarrow> recovery \<Rightarrow> nat \<times> recovery" where
  "recovery_object hostId s = (case map_of (rv_states s) hostId of
       Some a \<Rightarrow> (a, s)
     | None \<Rightarrow> let a = length (rv_store s) in
         (a, s\<lparr>rv_store := rv_store s @ [\<lparr>rs_lastSuccessAt = 0, rs_lastSuccessStrength = -1, rs_inFlight = None\<rparr>],
               rv_states := alist_set hostId a (rv_states s)\<rparr>))"

text \<open>The body of \<open>run\<close> for call \<open>i\<close> up to its first await.\<close>

definition recovery_enter :: "int \<Rightarrow> int \<Rightarrow> nat \<Rightarrow> recovery \<Rightarrow> recovery" where
  "recovery_enter cooldownMs now i s0 =
     (let call = rv_calls s0 ! i; strength = rc_strength call; (a, s) = recovery_object (rc_host call) s0; st = rv_store s ! a in
      case rs_inFlight st of
        Some (_, j) \<Rightarrow> set_call i (Awaiting j) s
      | None \<Rightarrow>
          if now - rs_lastSuccessAt st < cooldownMs \<and> rs_lastSuccessStrength st \<ge> strength then set_call i Coalesced s
          else (set_call i (InTask a) s)\<lparr>rv_store := (rv_store s)[a := st\<lparr>rs_inFlight := Some (strength, i)\<rparr>]\<rparr>)"

definition recovery_run :: "int \<Rightarrow> int \<Rightarrow> int \<Rightarrow> bool option \<Rightarrow> recovery \<Rightarrow> recovery" where
  "recovery_run cooldownMs now hostId preserve s =
     (let i = length (rv_calls s);
          s1 = s\<lparr>rv_calls := rv_calls s @ [\<lparr>rc_host = hostId, rc_strength = recoveryStrength preserve, rc_phase = Coalesced\<rparr>]\<rparr>
      in if hostId \<le> 0 then s1 else recovery_enter cooldownMs now i s1)"

text \<open>The task of call \<open>i\<close> ends at time \<open>now\<close>, with or without an error.\<close>

definition recovery_settled :: "int \<Rightarrow> bool \<Rightarrow> nat \<Rightarrow> recovery \<Rightarrow> recovery" where
  "recovery_settled now ok i s =
     (case rc_phase (rv_calls s ! i) of
        InTask a \<Rightarrow>
          let st = rv_store s ! a;
              st1 = (if ok then st\<lparr>rs_lastSuccessAt := now, rs_lastSuccessStrength := rc_strength (rv_calls s ! i)\<rparr> else st);
              st2 = (if map_option snd (rs_inFlight st1) = Some i then st1\<lparr>rs_inFlight := None\<rparr> else st1)
          in (set_call i (if ok then Ran now else Raised) s)\<lparr>rv_store := (rv_store s)[a := st2]\<rparr>
      | _ \<Rightarrow> s)"

fun task_succeeded :: "recovery_phase \<Rightarrow> bool" where
  "task_succeeded (Ran _) = True"
| "task_succeeded _ = False"

text \<open>Call \<open>i\<close> goes on after the task it has waited for.\<close>

definition recovery_resumed :: "int \<Rightarrow> int \<Rightarrow> nat \<Rightarrow> recovery \<Rightarrow> recovery" where
  "recovery_resumed cooldownMs now i s =
     (case rc_phase (rv_calls s ! i) of
        Awaiting j \<Rightarrow>
          if rc_strength (rv_calls s ! j) \<ge> rc_strength (rv_calls s ! i) \<and> task_succeeded (rc_phase (rv_calls s ! j))
          then set_call i Coalesced s else recovery_enter cooldownMs now i s
      | _ \<Rightarrow> s)"

definition recovery_clear :: "int \<Rightarrow> recovery \<Rightarrow> recovery" where
  "recovery_clear hostId s = (if 0 < hostId then s\<lparr>rv_states := alist_delete hostId (rv_states s)\<rparr> else s)"

definition recovery_clearAll :: "recovery \<Rightarrow> recovery" where
  "recovery_clearAll s = s\<lparr>rv_states := []\<rparr>"

datatype recovery_event = RunCall int "bool option" | TaskEnds nat bool | CallResumes nat | ClearHost int | ClearAll

abbreviation call_phase :: "recovery \<Rightarrow> nat \<Rightarrow> recovery_phase" where
  "call_phase s i \<equiv> rc_phase (rv_calls s ! i)"

abbreviation call_host :: "recovery \<Rightarrow> nat \<Rightarrow> int" where
  "call_host s i \<equiv> rc_host (rv_calls s ! i)"

abbreviation call_strength :: "recovery \<Rightarrow> nat \<Rightarrow> int" where
  "call_strength s i \<equiv> rc_strength (rv_calls s ! i)"

fun task_over :: "recovery_phase \<Rightarrow> bool" where
  "task_over (Ran _) = True"
| "task_over Raised = True"
| "task_over _ = False"

fun recovery_possible :: "recovery_event \<Rightarrow> recovery \<Rightarrow> bool" where
  "recovery_possible (TaskEnds i _) s = (i < length (rv_calls s) \<and> (case call_phase s i of InTask _ \<Rightarrow> True | _ \<Rightarrow> False))"
| "recovery_possible (CallResumes i) s = (i < length (rv_calls s)
     \<and> (case call_phase s i of Awaiting j \<Rightarrow> task_over (call_phase s j) | _ \<Rightarrow> False))"
| "recovery_possible _ s = True"

fun recovery_apply :: "int \<Rightarrow> int \<Rightarrow> recovery_event \<Rightarrow> recovery \<Rightarrow> recovery" where
  "recovery_apply c now (RunCall h p) s = recovery_run c now h p s"
| "recovery_apply c now (TaskEnds i ok) s = recovery_settled now ok i s"
| "recovery_apply c now (CallResumes i) s = recovery_resumed c now i s"
| "recovery_apply c now (ClearHost h) s = recovery_clear h s"
| "recovery_apply c now ClearAll s = recovery_clearAll s"

text \<open>The hosts whose state an event removes.\<close>

fun event_clears :: "recovery_event \<Rightarrow> recovery \<Rightarrow> int set" where
  "event_clears (ClearHost h) s = {h}"
| "event_clears ClearAll s = fst ` set (rv_states s)"
| "event_clears _ s = {}"

inductive recovery_reach :: "int \<Rightarrow> int set \<Rightarrow> recovery \<Rightarrow> bool" for c where
  recovery_init: "recovery_reach c {} new_recovery"
| recovery_step: "recovery_reach c cl s \<Longrightarrow> recovery_possible ev s \<Longrightarrow>
    recovery_reach c (cl \<union> event_clears ev s) (recovery_apply c now ev s)"

text \<open>The calls and the objects agree: an object is in flight exactly for the call in its task, an object that remembers a success
  remembers that of a call of its host, a waiting call waits for a call of the same host.\<close>

definition objects_ok :: "recovery \<Rightarrow> bool" where
  "objects_ok s \<longleftrightarrow>
     (\<forall>h a. map_of (rv_states s) h = Some a \<longrightarrow> a < length (rv_store s)
        \<and> (\<forall>h'. map_of (rv_states s) h' = Some a \<longrightarrow> h' = h)
        \<and> (0 \<le> rs_lastSuccessStrength (rv_store s ! a) \<longrightarrow>
             (\<exists>j < length (rv_calls s). call_phase s j = Ran (rs_lastSuccessAt (rv_store s ! a)) \<and> call_host s j = h
                \<and> call_strength s j = rs_lastSuccessStrength (rv_store s ! a))))
   \<and> (\<forall>a < length (rv_store s). \<forall>st j. rs_inFlight (rv_store s ! a) = Some (st, j) \<longrightarrow> j < length (rv_calls s) \<and> call_phase s j = InTask a)"

definition calls_ok :: "int set \<Rightarrow> recovery \<Rightarrow> bool" where
  "calls_ok cl s \<longleftrightarrow> (\<forall>i < length (rv_calls s).
       (\<forall>a. call_phase s i = InTask a \<longrightarrow> a < length (rv_store s) \<and> rs_inFlight (rv_store s ! a) = Some (call_strength s i, i)
          \<and> (map_of (rv_states s) (call_host s i) = Some a \<or> call_host s i \<in> cl)
          \<and> (\<forall>h. map_of (rv_states s) h = Some a \<longrightarrow> h = call_host s i))
     \<and> (\<forall>j. call_phase s i = Awaiting j \<longrightarrow> j < length (rv_calls s) \<and> call_host s j = call_host s i
          \<and> (task_over (call_phase s j) \<or> (\<exists>a. call_phase s j = InTask a))))"

lemma objects_okD:
  assumes "objects_ok s"
  shows "map_of (rv_states s) h = Some a \<Longrightarrow> a < length (rv_store s)"
    "map_of (rv_states s) h = Some a \<Longrightarrow> map_of (rv_states s) h' = Some a \<Longrightarrow> h' = h"
    "map_of (rv_states s) h = Some a \<Longrightarrow> 0 \<le> rs_lastSuccessStrength (rv_store s ! a) \<Longrightarrow>
       \<exists>j < length (rv_calls s). call_phase s j = Ran (rs_lastSuccessAt (rv_store s ! a)) \<and> call_host s j = h
         \<and> call_strength s j = rs_lastSuccessStrength (rv_store s ! a)"
    "a < length (rv_store s) \<Longrightarrow> rs_inFlight (rv_store s ! a) = Some (st, j) \<Longrightarrow> j < length (rv_calls s) \<and> call_phase s j = InTask a"
  using assms unfolding objects_ok_def by blast+

lemma calls_okD:
  assumes "calls_ok cl s" "i < length (rv_calls s)"
  shows "call_phase s i = InTask a \<Longrightarrow> a < length (rv_store s) \<and> rs_inFlight (rv_store s ! a) = Some (call_strength s i, i)
          \<and> (map_of (rv_states s) (call_host s i) = Some a \<or> call_host s i \<in> cl)
          \<and> (\<forall>h. map_of (rv_states s) h = Some a \<longrightarrow> h = call_host s i)"
    "call_phase s i = Awaiting j \<Longrightarrow> j < length (rv_calls s) \<and> call_host s j = call_host s i
          \<and> (task_over (call_phase s j) \<or> (\<exists>a. call_phase s j = InTask a))"
  using assms unfolding calls_ok_def by blast+

fun call_idle :: "recovery_phase \<Rightarrow> bool" where
  "call_idle Coalesced = True"
| "call_idle (Awaiting _) = True"
| "call_idle _ = False"

lemma set_call_frame [simp]:
  "length (rv_calls (set_call i p s)) = length (rv_calls s)" "call_host (set_call i p s) j = call_host s j"
  "call_strength (set_call i p s) j = call_strength s j"
  "rv_store (set_call i p s) = rv_store s" "rv_states (set_call i p s) = rv_states s"
proof -
  show "call_host (set_call i p s) j = call_host s j" "call_strength (set_call i p s) j = call_strength s j"
    by (cases "length (rv_calls s) \<le> i"; cases "i = j"; simp add: set_call_def list_update_beyond)+
qed (simp_all add: set_call_def)

lemma call_phase_set_call: "i < length (rv_calls s) \<Longrightarrow> call_phase (set_call i p s) j = (if j = i then p else call_phase s j)"
  by (simp add: set_call_def nth_list_update)

lemma set_call_keeps_ok:
  assumes ok: "objects_ok s" "calls_ok cl s" and i: "i < length (rv_calls s)" "call_idle (call_phase s i)" "call_idle p"
    and w: "\<And>j. p = Awaiting j \<Longrightarrow> j < length (rv_calls s) \<and> j \<noteq> i \<and> call_host s j = call_host s i
        \<and> (task_over (call_phase s j) \<or> (\<exists>a. call_phase s j = InTask a))"
  shows "objects_ok (set_call i p s)" "calls_ok cl (set_call i p s)"
proof -
  have ni: "call_phase s i \<noteq> Ran t" "call_phase s i \<noteq> InTask a" "\<not> task_over (call_phase s i)" "p \<noteq> InTask a" "p \<noteq> Ran t" for t a
    using i(2,3) by (cases "call_phase s i"; cases p; simp)+
  have ph: "call_phase (set_call i p s) j = (if j = i then p else call_phase s j)" for j by (rule call_phase_set_call [OF i(1)])
  show "objects_ok (set_call i p s)"
    unfolding objects_ok_def set_call_frame ph
  proof (intro allI impI conjI)
    fix h a
    assume a: "map_of (rv_states s) h = Some a"
    show "a < length (rv_store s)" "h' = h" if "map_of (rv_states s) h' = Some a" for h' using objects_okD(1,2) [OF ok(1)] a that by blast+
    assume "0 \<le> rs_lastSuccessStrength (rv_store s ! a)"
    from objects_okD(3) [OF ok(1) a this] obtain j where "j < length (rv_calls s)" "call_phase s j = Ran (rs_lastSuccessAt (rv_store s ! a))"
      "call_host s j = h" "call_strength s j = rs_lastSuccessStrength (rv_store s ! a)" by blast
    moreover have "j \<noteq> i" using calculation(2) ni(1) by metis
    ultimately show "\<exists>j < length (rv_calls s). (if j = i then p else call_phase s j) = Ran (rs_lastSuccessAt (rv_store s ! a)) \<and> call_host s j = h
        \<and> call_strength s j = rs_lastSuccessStrength (rv_store s ! a)" by auto
  next
    fix a st j
    assume a: "a < length (rv_store s)" "rs_inFlight (rv_store s ! a) = Some (st, j)"
    have j: "j < length (rv_calls s)" "call_phase s j = InTask a" using objects_okD(4) [OF ok(1) a] by simp_all
    then have "j \<noteq> i" using ni(2) by metis
    then show "j < length (rv_calls s)" "(if j = i then p else call_phase s j) = InTask a" using j by simp_all
  qed
  show "calls_ok cl (set_call i p s)"
    unfolding calls_ok_def set_call_frame ph
  proof (intro allI impI conjI)
    fix m j
    assume m: "m < length (rv_calls s)" "(if m = i then p else call_phase s m) = Awaiting j"
    have j: "j < length (rv_calls s) \<and> call_host s j = call_host s m \<and> j \<noteq> i \<and> (task_over (call_phase s j) \<or> (\<exists>a. call_phase s j = InTask a))"
    proof (cases "m = i")
      case False
      then have "call_phase s m = Awaiting j" using m(2) by simp
      then show ?thesis using calls_okD(2) [OF ok(2) m(1)] ni(2,3) by metis
    qed (use w [of j] m in auto)
    show "j < length (rv_calls s)" "call_host s j = call_host s m"
      "task_over (if j = i then p else call_phase s j) \<or> (\<exists>a. (if j = i then p else call_phase s j) = InTask a)" using j by auto
  next
    fix m a
    assume m: "m < length (rv_calls s)" "(if m = i then p else call_phase s m) = InTask a"
    then have "call_phase s m = InTask a" using ni(4) by (auto split: if_splits)
    then show "a < length (rv_store s)" "rs_inFlight (rv_store s ! a) = Some (call_strength s m, m)"
      "map_of (rv_states s) (call_host s m) = Some a \<or> call_host s m \<in> cl" "\<And>h. map_of (rv_states s) h = Some a \<Longrightarrow> h = call_host s m"
      using calls_okD(1) [OF ok(2) m(1)] by blast+
  qed
qed

lemma recovery_object_ok:
  assumes ok: "objects_ok s0" "calls_ok cl s0" and o: "recovery_object h s0 = (a, s)"
  shows "objects_ok s" "calls_ok cl s" "rv_calls s = rv_calls s0" "map_of (rv_states s) h = Some a" "a < length (rv_store s)"
proof -
  have "objects_ok s \<and> calls_ok cl s \<and> rv_calls s = rv_calls s0 \<and> map_of (rv_states s) h = Some a \<and> a < length (rv_store s)"
  proof (cases "map_of (rv_states s0) h")
    case (Some b)
    then show ?thesis using o ok by (auto simp: recovery_object_def objects_ok_def)
  next
    case None
    then have e: "a = length (rv_store s0)" "rv_calls s = rv_calls s0" "map_of (rv_states s) = (map_of (rv_states s0))(h \<mapsto> a)"
      "rv_store s = rv_store s0 @ [\<lparr>rs_lastSuccessAt = 0, rs_lastSuccessStrength = -1, rs_inFlight = None\<rparr>]"
      using o by (auto simp: recovery_object_def Let_def alist_simps)
    have lt: "b < a" if "map_of (rv_states s0) h' = Some b" for h' b using ok(1) that e(1) unfolding objects_ok_def by blast
    have st: "rv_store s ! b = rv_store s0 ! b" if "b < a" for b using that by (simp add: e nth_append)
    have "objects_ok s"
      unfolding objects_ok_def
    proof (intro conjI allI impI)
      fix h' b
      assume b: "map_of (rv_states s) h' = Some b"
      show "b < length (rv_store s)" using b lt [of h' b] by (auto simp: e split: if_splits)
      show "h'' = h'" if "map_of (rv_states s) h'' = Some b" for h''
        using b that lt [of h' b] lt [of h'' b] objects_okD(2) [OF ok(1), of h' b h''] by (auto simp: e(3) split: if_splits)
      assume "0 \<le> rs_lastSuccessStrength (rv_store s ! b)"
      then have "h' \<noteq> h" using b by (auto simp: e)
      then have o: "map_of (rv_states s0) h' = Some b" using b by (simp add: e)
      have "0 \<le> rs_lastSuccessStrength (rv_store s0 ! b)" using \<open>0 \<le> rs_lastSuccessStrength (rv_store s ! b)\<close> st [OF lt [OF o]] by simp
      then show "\<exists>j < length (rv_calls s). call_phase s j = Ran (rs_lastSuccessAt (rv_store s ! b)) \<and> call_host s j = h'
          \<and> call_strength s j = rs_lastSuccessStrength (rv_store s ! b)"
        using objects_okD(3) [OF ok(1) o] unfolding st [OF lt [OF o]] e(2) by blast
    next
      fix b stg j
      assume "b < length (rv_store s)" "rs_inFlight (rv_store s ! b) = Some (stg, j)"
      then have "b < length (rv_store s0)" "rs_inFlight (rv_store s0 ! b) = Some (stg, j)" by (auto simp: e nth_append split: if_splits)
      then show "j < length (rv_calls s)" "call_phase s j = InTask b" using objects_okD(4) [OF ok(1)] unfolding e(2) by blast+
    qed
    moreover have "calls_ok cl s"
      unfolding calls_ok_def e(2)
    proof (intro allI impI conjI)
      fix i b
      assume i: "i < length (rv_calls s0)" "call_phase s0 i = InTask b"
      then have b: "b < length (rv_store s0)" "rs_inFlight (rv_store s0 ! b) = Some (call_strength s0 i, i)"
        "map_of (rv_states s0) (call_host s0 i) = Some b \<or> call_host s0 i \<in> cl" "\<And>h. map_of (rv_states s0) h = Some b \<Longrightarrow> h = call_host s0 i"
        using calls_okD(1) [OF ok(2)] by blast+
      show "b < length (rv_store s)" "rs_inFlight (rv_store s ! b) = Some (call_strength s0 i, i)" using b by (simp_all add: e nth_append)
      show "map_of (rv_states s) (call_host s0 i) = Some b \<or> call_host s0 i \<in> cl" using b(3) None by (auto simp: e)
      show "h' = call_host s0 i" if "map_of (rv_states s) h' = Some b" for h' using that b(1,4) by (auto simp: e split: if_splits)
    next
      fix i j
      assume i: "i < length (rv_calls s0)" "call_phase s0 i = Awaiting j"
      then show "j < length (rv_calls s0)" "call_host s0 j = call_host s0 i" "task_over (call_phase s0 j) \<or> (\<exists>a. call_phase s0 j = InTask a)"
        using calls_okD(2) [OF ok(2)] by blast+
    qed
    ultimately show ?thesis using e by simp
  qed
  then show "objects_ok s" "calls_ok cl s" "rv_calls s = rv_calls s0" "map_of (rv_states s) h = Some a" "a < length (rv_store s)" by simp_all
qed

text \<open>A call starts its task.\<close>

lemma start_task_ok:
  assumes ok: "objects_ok s" "calls_ok cl s" and i: "i < length (rv_calls s)" "call_idle (call_phase s i)"
    and a: "map_of (rv_states s) (call_host s i) = Some a" "rs_inFlight (rv_store s ! a) = None"
  defines "s' \<equiv> (set_call i (InTask a) s)\<lparr>rv_store := (rv_store s)[a := (rv_store s ! a)\<lparr>rs_inFlight := Some (call_strength s i, i)\<rparr>]\<rparr>"
  shows "objects_ok s'" "calls_ok cl s'"
proof -
  have al: "a < length (rv_store s)" by (rule objects_okD(1) [OF ok(1) a(1)])
  have ni: "call_phase s i \<noteq> Ran t" "call_phase s i \<noteq> InTask b" "\<not> task_over (call_phase s i)" for t b
    using i(2) by (cases "call_phase s i"; simp)+
  have fr: "length (rv_calls s') = length (rv_calls s)" "length (rv_store s') = length (rv_store s)" "rv_states s' = rv_states s"
    "\<And>j. call_host s' j = call_host s j" "\<And>j. call_strength s' j = call_strength s j" by (simp_all add: s'_def)
  have ph: "call_phase s' j = (if j = i then InTask a else call_phase s j)" for j
    using call_phase_set_call [OF i(1)] by (simp add: s'_def)
  have st: "rs_lastSuccessAt (rv_store s' ! b) = rs_lastSuccessAt (rv_store s ! b)"
    "rs_lastSuccessStrength (rv_store s' ! b) = rs_lastSuccessStrength (rv_store s ! b)"
    "rs_inFlight (rv_store s' ! b) = (if b = a then Some (call_strength s i, i) else rs_inFlight (rv_store s ! b))" for b
    using al by (simp_all add: s'_def nth_list_update)
  show "objects_ok s'"
    unfolding objects_ok_def fr st ph
  proof (intro allI impI conjI)
    fix h b
    assume b: "map_of (rv_states s) h = Some b"
    show "b < length (rv_store s)" "h' = h" if "map_of (rv_states s) h' = Some b" for h' using objects_okD(1,2) [OF ok(1)] b that by blast+
    assume "0 \<le> rs_lastSuccessStrength (rv_store s ! b)"
    from objects_okD(3) [OF ok(1) b this] obtain j where "j < length (rv_calls s)" "call_phase s j = Ran (rs_lastSuccessAt (rv_store s ! b))"
      "call_host s j = h" "call_strength s j = rs_lastSuccessStrength (rv_store s ! b)" by blast
    moreover have "j \<noteq> i" using calculation(2) ni(1) by metis
    ultimately show "\<exists>j < length (rv_calls s). (if j = i then InTask a else call_phase s j) = Ran (rs_lastSuccessAt (rv_store s ! b)) \<and> call_host s j = h
        \<and> call_strength s j = rs_lastSuccessStrength (rv_store s ! b)" by auto
  next
    fix b q j
    assume b: "b < length (rv_store s)" "(if b = a then Some (call_strength s i, i) else rs_inFlight (rv_store s ! b)) = Some (q, j)"
    show "j < length (rv_calls s)" "(if j = i then InTask a else call_phase s j) = InTask b"
      using b objects_okD(4) [OF ok(1) b(1), of q j] i(1) ni(2) by (auto split: if_splits)
  qed
  show "calls_ok cl s'"
    unfolding calls_ok_def fr st ph
  proof (intro allI impI conjI)
    fix m b
    assume m: "m < length (rv_calls s)" "(if m = i then InTask a else call_phase s m) = InTask b"
    have c: "b < length (rv_store s) \<and> rs_inFlight (rv_store s ! b) = Some (call_strength s m, m)
        \<and> (map_of (rv_states s) (call_host s m) = Some b \<or> call_host s m \<in> cl) \<and> (\<forall>h. map_of (rv_states s) h = Some b \<longrightarrow> h = call_host s m)"
      if "m \<noteq> i" using calls_okD(1) [OF ok(2) m(1), of b] m(2) that by simp
    show "b < length (rv_store s)" "map_of (rv_states s) (call_host s m) = Some b \<or> call_host s m \<in> cl" using c al a m(2) by (auto split: if_splits)
    show "(if b = a then Some (call_strength s i, i) else rs_inFlight (rv_store s ! b)) = Some (call_strength s m, m)"
      using c a(2) m(2) by (auto split: if_splits)
    show "h = call_host s m" if "map_of (rv_states s) h = Some b" for h
      using c m(2) that objects_okD(2) [OF ok(1) a(1), of h] by (auto split: if_splits)
  next
    fix m j
    assume m: "m < length (rv_calls s)" "(if m = i then InTask a else call_phase s m) = Awaiting j"
    have "j < length (rv_calls s) \<and> call_host s j = call_host s m \<and> (task_over (call_phase s j) \<or> (\<exists>b. call_phase s j = InTask b))"
      using calls_okD(2) [OF ok(2) m(1), of j] m(2) by (auto split: if_splits)
    then show "j < length (rv_calls s)" "call_host s j = call_host s m"
      "task_over (if j = i then InTask a else call_phase s j) \<or> (\<exists>b. (if j = i then InTask a else call_phase s j) = InTask b)" by auto
  qed
qed

text \<open>What entering the body of \<open>run\<close> does: it coalesces only behind a recent success that is as strong.\<close>

lemma recovery_enter_ok:
  assumes ok: "objects_ok s" "calls_ok cl s" and i: "i < length (rv_calls s)" "call_idle (call_phase s i)"
  shows "objects_ok (recovery_enter c now i s)" "calls_ok cl (recovery_enter c now i s)"
    "length (rv_calls (recovery_enter c now i s)) = length (rv_calls s)"
    "call_host (recovery_enter c now i s) m = call_host s m" "call_strength (recovery_enter c now i s) m = call_strength s m"
    "m \<noteq> i \<Longrightarrow> call_phase (recovery_enter c now i s) m = call_phase s m"
    "call_phase (recovery_enter c now i s) i = Coalesced \<Longrightarrow> 0 \<le> call_strength s i \<Longrightarrow>
       \<exists>j t. j < length (rv_calls s) \<and> call_phase s j = Ran t \<and> call_host s j = call_host s i \<and> call_strength s i \<le> call_strength s j \<and> now - t < c"
proof -
  obtain a r where o: "recovery_object (call_host s i) s = (a, r)" by (cases "recovery_object (call_host s i) s") auto
  note r = recovery_object_ok [OF ok o]
  have ir: "i < length (rv_calls r)" "call_idle (call_phase r i)" using i by (simp_all add: r(3))
  define e where "e = recovery_enter c now i s"
  have "objects_ok e \<and> calls_ok cl e \<and> length (rv_calls e) = length (rv_calls s)
    \<and> (\<forall>m. call_host e m = call_host s m \<and> call_strength e m = call_strength s m \<and> (m \<noteq> i \<longrightarrow> call_phase e m = call_phase s m))
    \<and> (call_phase e i = Coalesced \<longrightarrow> 0 \<le> call_strength s i \<longrightarrow>
       (\<exists>j t. j < length (rv_calls s) \<and> call_phase s j = Ran t \<and> call_host s j = call_host s i \<and> call_strength s i \<le> call_strength s j \<and> now - t < c))"
  proof (cases "rs_inFlight (rv_store r ! a)")
    case (Some qj)
    then obtain q j where qj: "rs_inFlight (rv_store r ! a) = Some (q, j)" by (cases qj) auto
    then have e: "e = set_call i (Awaiting j) r" using o by (simp add: e_def recovery_enter_def)
    have j: "j < length (rv_calls r)" "call_phase r j = InTask a" using objects_okD(4) [OF r(1) r(5) qj] by simp_all
    have jh: "call_host r j = call_host s i" using calls_okD(1) [OF r(2) j] r(4) by auto
    have ji: "j \<noteq> i" using j(2) ir(2) by auto
    have "objects_ok e" "calls_ok cl e" unfolding e
      by (rule set_call_keeps_ok [OF r(1,2) ir]; use j jh ji r(3) in auto)+
    then show ?thesis using r(3) call_phase_set_call [OF ir(1)] by (simp add: e)
  next
    case None
    let ?st = "rv_store r ! a"
    show ?thesis
    proof (cases "now - rs_lastSuccessAt ?st < c \<and> rs_lastSuccessStrength ?st \<ge> call_strength s i")
      case True
      then have e: "e = set_call i Coalesced r" using o None by (simp add: e_def recovery_enter_def)
      have "objects_ok e" "calls_ok cl e" unfolding e by (rule set_call_keeps_ok [OF r(1,2) ir]; simp)+
      moreover have "\<exists>j t. j < length (rv_calls s) \<and> call_phase s j = Ran t \<and> call_host s j = call_host s i
          \<and> call_strength s i \<le> call_strength s j \<and> now - t < c" if "0 \<le> call_strength s i"
      proof -
        have "0 \<le> rs_lastSuccessStrength ?st" using True that by simp
        from objects_okD(3) [OF r(1,4) this] show ?thesis using True unfolding r(3) by auto
      qed
      ultimately show ?thesis using r(3) call_phase_set_call [OF ir(1)] by (simp add: e)
    next
      case False
      have al: "map_of (rv_states r) (call_host r i) = Some a" using r(3,4) by simp
      have e: "e = (set_call i (InTask a) r)\<lparr>rv_store := (rv_store r)[a := ?st\<lparr>rs_inFlight := Some (call_strength r i, i)\<rparr>]\<rparr>"
        using o None False by (simp add: e_def recovery_enter_def r(3)) auto
      have "objects_ok e" "calls_ok cl e" unfolding e by (rule start_task_ok [OF r(1,2) ir al None])+
      moreover have "call_phase e m = (if m = i then InTask a else call_phase r m)" for m using call_phase_set_call [OF ir(1)] by (simp add: e)
      moreover have "call_host e m = call_host r m" "call_strength e m = call_strength r m" "length (rv_calls e) = length (rv_calls r)" for m
        by (simp_all add: e)
      ultimately show ?thesis using r(3) by simp
    qed
  qed
  then show "objects_ok (recovery_enter c now i s)" "calls_ok cl (recovery_enter c now i s)"
    "length (rv_calls (recovery_enter c now i s)) = length (rv_calls s)"
    "call_host (recovery_enter c now i s) m = call_host s m" "call_strength (recovery_enter c now i s) m = call_strength s m"
    "m \<noteq> i \<Longrightarrow> call_phase (recovery_enter c now i s) m = call_phase s m"
    "call_phase (recovery_enter c now i s) i = Coalesced \<Longrightarrow> 0 \<le> call_strength s i \<Longrightarrow>
       \<exists>j t. j < length (rv_calls s) \<and> call_phase s j = Ran t \<and> call_host s j = call_host s i \<and> call_strength s i \<le> call_strength s j \<and> now - t < c"
    unfolding e_def by blast+
qed

text \<open>The end of a task, and a new call.\<close>

lemma recovery_settled_eq:
  assumes "calls_ok cl s" "i < length (rv_calls s)" "call_phase s i = InTask a"
  defines "st \<equiv> rv_store s ! a"
  shows "recovery_settled now ok i s = (set_call i (if ok then Ran now else Raised) s)\<lparr>rv_store := (rv_store s)[a :=
    \<lparr>rs_lastSuccessAt = (if ok then now else rs_lastSuccessAt st),
     rs_lastSuccessStrength = (if ok then call_strength s i else rs_lastSuccessStrength st), rs_inFlight = None\<rparr>]\<rparr>"
  using calls_okD(1) [OF assms(1-3)] assms(3) by (cases "rv_store s ! a") (simp add: recovery_settled_def st_def Let_def)

lemma recovery_settled_ok:
  assumes ok: "objects_ok s" "calls_ok cl s" and i: "i < length (rv_calls s)" "call_phase s i = InTask a"
  shows "objects_ok (recovery_settled now success i s)" "calls_ok cl (recovery_settled now success i s)"
    "call_phase (recovery_settled now success i s) m = (if m = i then if success then Ran now else Raised else call_phase s m)"
    "length (rv_calls (recovery_settled now success i s)) = length (rv_calls s)"
    "call_host (recovery_settled now success i s) m = call_host s m" "call_strength (recovery_settled now success i s) m = call_strength s m"
proof -
  define p where "p = (if success then Ran now else Raised)"
  define s' where "s' = recovery_settled now success i s"
  note s' = s'_def [unfolded recovery_settled_eq [OF ok(2) i], folded p_def]
  note ai = calls_okD(1) [OF ok(2) i]
  have al: "a < length (rv_store s)" using ai by simp
  have fr: "length (rv_calls s') = length (rv_calls s)" "length (rv_store s') = length (rv_store s)" "rv_states s' = rv_states s"
    "\<And>j. call_host s' j = call_host s j" "\<And>j. call_strength s' j = call_strength s j" by (simp_all add: s')
  have ph: "call_phase s' j = (if j = i then p else call_phase s j)" for j using call_phase_set_call [OF i(1)] by (simp add: s')
  have st: "rs_lastSuccessAt (rv_store s' ! b) = (if b = a \<and> success then now else rs_lastSuccessAt (rv_store s ! b))"
    "rs_lastSuccessStrength (rv_store s' ! b) = (if b = a \<and> success then call_strength s i else rs_lastSuccessStrength (rv_store s ! b))"
    "rs_inFlight (rv_store s' ! b) = (if b = a then None else rs_inFlight (rv_store s ! b))" for b
    using al by (simp_all add: s' nth_list_update)
  have over: "task_over p" by (simp add: p_def)
  have "objects_ok s'"
    unfolding objects_ok_def fr
  proof (intro allI impI conjI)
    fix h b
    assume b: "map_of (rv_states s) h = Some b"
    show "b < length (rv_store s)" "h' = h" if "map_of (rv_states s) h' = Some b" for h' using objects_okD(1,2) [OF ok(1)] b that by blast+
    assume pos: "0 \<le> rs_lastSuccessStrength (rv_store s' ! b)"
    show "\<exists>j < length (rv_calls s). call_phase s' j = Ran (rs_lastSuccessAt (rv_store s' ! b)) \<and> call_host s j = h
        \<and> call_strength s j = rs_lastSuccessStrength (rv_store s' ! b)"
    proof (cases "b = a \<and> success")
      case True
      then have "call_phase s' i = Ran now" "call_host s i = h" using ai b by (auto simp: ph p_def)
      then show ?thesis using i(1) True by (intro exI [of _ i]) (simp add: st)
    next
      case False
      then have eq: "rs_lastSuccessAt (rv_store s' ! b) = rs_lastSuccessAt (rv_store s ! b)"
        "rs_lastSuccessStrength (rv_store s' ! b) = rs_lastSuccessStrength (rv_store s ! b)" unfolding st by auto
      obtain j where j: "j < length (rv_calls s)" "call_phase s j = Ran (rs_lastSuccessAt (rv_store s ! b))" "call_host s j = h"
        "call_strength s j = rs_lastSuccessStrength (rv_store s ! b)" using objects_okD(3) [OF ok(1) b] pos unfolding eq by blast
      have "j \<noteq> i" using j(2) i(2) by auto
      then show ?thesis using j by (intro exI [of _ j]) (simp add: eq ph)
    qed
  next
    fix b q j
    assume b: "b < length (rv_store s)" "rs_inFlight (rv_store s' ! b) = Some (q, j)"
    then have "b \<noteq> a" "rs_inFlight (rv_store s ! b) = Some (q, j)" by (auto simp: st split: if_splits)
    then show "j < length (rv_calls s)" "call_phase s' j = InTask b" using objects_okD(4) [OF ok(1) b(1)] i(2) by (auto simp: ph)
  qed
  moreover have "calls_ok cl s'"
    unfolding calls_ok_def fr
  proof (intro allI impI conjI)
    fix m b
    assume m: "m < length (rv_calls s)" "call_phase s' m = InTask b"
    then have mi: "m \<noteq> i" "call_phase s m = InTask b" using over by (auto simp: ph split: if_splits)
    note c = calls_okD(1) [OF ok(2) m(1) mi(2)]
    have fm: "rs_inFlight (rv_store s ! b) = Some (call_strength s m, m)" using c by blast
    moreover have "rs_inFlight (rv_store s ! a) = Some (call_strength s i, i)" using ai by blast
    ultimately have "b \<noteq> a" using mi(1) by auto
    show "h = call_host s m" if "map_of (rv_states s) h = Some b" for h using c that by blast
    show "b < length (rv_store s)" "map_of (rv_states s) (call_host s m) = Some b \<or> call_host s m \<in> cl"
      "rs_inFlight (rv_store s' ! b) = Some (call_strength s m, m)" using c fm \<open>b \<noteq> a\<close> unfolding st by auto
  next
    fix m j
    assume m: "m < length (rv_calls s)" "call_phase s' m = Awaiting j"
    then have "call_phase s m = Awaiting j" using over by (auto simp: ph split: if_splits)
    from calls_okD(2) [OF ok(2) m(1) this]
    show "j < length (rv_calls s)" "call_host s j = call_host s m" "task_over (call_phase s' j) \<or> (\<exists>b. call_phase s' j = InTask b)"
      using over by (auto simp: ph)
  qed
  ultimately show "objects_ok (recovery_settled now success i s)" "calls_ok cl (recovery_settled now success i s)"
    "call_phase (recovery_settled now success i s) m = (if m = i then if success then Ran now else Raised else call_phase s m)"
    "length (rv_calls (recovery_settled now success i s)) = length (rv_calls s)"
    "call_host (recovery_settled now success i s) m = call_host s m" "call_strength (recovery_settled now success i s) m = call_strength s m"
    using ph [of m] fr unfolding s'_def p_def by simp_all
qed

lemma new_call_ok:
  fixes h q :: int
  assumes ok: "objects_ok s" "calls_ok cl s"
  defines "s' \<equiv> s\<lparr>rv_calls := rv_calls s @ [\<lparr>rc_host = h, rc_strength = q, rc_phase = Coalesced\<rparr>]\<rparr>"
  shows "objects_ok s'" "calls_ok cl s'"
proof -
  have old: "rv_calls s' ! j = rv_calls s ! j" if "j < length (rv_calls s)" for j using that by (simp add: s'_def nth_append)
  have fr: "length (rv_calls s') = Suc (length (rv_calls s))" "rv_store s' = rv_store s" "rv_states s' = rv_states s"
    "call_phase s' (length (rv_calls s)) = Coalesced" by (simp_all add: s'_def)
  show "objects_ok s'"
    unfolding objects_ok_def fr
  proof (intro allI impI conjI)
    fix g b
    assume b: "map_of (rv_states s) g = Some b"
    show "b < length (rv_store s)" "h' = g" if "map_of (rv_states s) h' = Some b" for h' using objects_okD(1,2) [OF ok(1)] b that by blast+
    assume "0 \<le> rs_lastSuccessStrength (rv_store s ! b)"
    from objects_okD(3) [OF ok(1) b this]
    show "\<exists>j < Suc (length (rv_calls s)). call_phase s' j = Ran (rs_lastSuccessAt (rv_store s ! b)) \<and> call_host s' j = g
        \<and> call_strength s' j = rs_lastSuccessStrength (rv_store s ! b)" using old by (auto intro: less_SucI)
  next
    fix b v j
    assume "b < length (rv_store s)" "rs_inFlight (rv_store s ! b) = Some (v, j)"
    from objects_okD(4) [OF ok(1) this] show "j < Suc (length (rv_calls s))" "call_phase s' j = InTask b" using old [of j] by simp_all
  qed
  show "calls_ok cl s'"
    unfolding calls_ok_def fr
  proof (intro allI impI)
    fix m
    assume m: "m < Suc (length (rv_calls s))"
    show "(\<forall>a. call_phase s' m = InTask a \<longrightarrow> a < length (rv_store s) \<and> rs_inFlight (rv_store s ! a) = Some (call_strength s' m, m)
          \<and> (map_of (rv_states s) (call_host s' m) = Some a \<or> call_host s' m \<in> cl)
          \<and> (\<forall>h. map_of (rv_states s) h = Some a \<longrightarrow> h = call_host s' m))
       \<and> (\<forall>j. call_phase s' m = Awaiting j \<longrightarrow> j < Suc (length (rv_calls s)) \<and> call_host s' j = call_host s' m
          \<and> (task_over (call_phase s' j) \<or> (\<exists>a. call_phase s' j = InTask a)))"
    proof (cases "m = length (rv_calls s)")
      case False
      then have m: "m < length (rv_calls s)" using m by simp
      have "j < Suc (length (rv_calls s)) \<and> call_host s' j = call_host s m \<and> (task_over (call_phase s' j) \<or> (\<exists>a. call_phase s' j = InTask a))"
        if "call_phase s m = Awaiting j" for j using calls_okD(2) [OF ok(2) m that] old [of j] by (simp add: less_SucI)
      then show ?thesis unfolding old [OF m] using calls_okD(1) [OF ok(2) m] by blast
    qed (simp add: fr(4))
  qed
qed

text \<open>Dropping state objects from the map.\<close>

lemma forget_states_ok:
  assumes ok: "objects_ok s" "calls_ok cl s"
    and sub: "\<And>h. map_of m h = (if h \<in> gone then None else map_of (rv_states s) h)"
  shows "objects_ok (s\<lparr>rv_states := m\<rparr>)" "calls_ok (cl \<union> gone) (s\<lparr>rv_states := m\<rparr>)"
proof -
  let ?s = "s\<lparr>rv_states := m\<rparr>"
  have fr: "rv_calls ?s = rv_calls s" "rv_store ?s = rv_store s" "rv_states ?s = m" by simp_all
  have old: "map_of (rv_states s) h = Some a" if "map_of m h = Some a" for h a using sub [of h] that by (simp split: if_splits)
  show "objects_ok ?s"
    unfolding objects_ok_def fr using old objects_okD [OF ok(1)] by blast
  have "map_of m h = Some a \<or> h \<in> cl \<union> gone" if "map_of (rv_states s) h = Some a \<or> h \<in> cl" for h a using sub [of h] that by auto
  then show "calls_ok (cl \<union> gone) ?s"
    unfolding calls_ok_def fr using old calls_okD [OF ok(2)] by blast
qed

text \<open>As a system of timed events, with the set of cleared hosts beside the state.\<close>

definition timed_possible :: "int \<times> recovery_event \<Rightarrow> int set \<times> recovery \<Rightarrow> bool" where
  "timed_possible = (\<lambda>(now, ev) (cl, s). recovery_possible ev s)"

definition timed_apply :: "int \<Rightarrow> int \<times> recovery_event \<Rightarrow> int set \<times> recovery \<Rightarrow> int set \<times> recovery" where
  "timed_apply c = (\<lambda>(now, ev) (cl, s). (cl \<union> event_clears ev s, recovery_apply c now ev s))"

interpretation recoveries: event_system timed_possible "timed_apply c" "({}, new_recovery)" "\<lambda>(cl, s). recovery_reach c cl s"
proof unfold_locales
  fix s and P :: "int set \<times> recovery \<Rightarrow> bool"
  assume r: "case s of (cl, s) \<Rightarrow> recovery_reach c cl s" and i: "P ({}, new_recovery)"
    and step: "\<And>s ev. P s \<Longrightarrow> timed_possible ev s \<Longrightarrow> P (timed_apply c ev s)"
  obtain cl t where s: "s = (cl, t)" by (cases s)
  then have "recovery_reach c cl t" using r by simp
  then have "P (cl, t)"
  proof (induction rule: recovery_reach.induct)
    case (recovery_step cl s ev now)
    then show ?case using step [of "(cl, s)" "(now, ev)"] by (simp add: timed_possible_def timed_apply_def)
  qed (rule i)
  then show "P s" by (simp add: s)
qed (auto simp: timed_possible_def timed_apply_def intro: recovery_init recovery_step)

lemma recovery_reach_inv: "recovery_reach c cl s \<Longrightarrow> objects_ok s \<and> calls_ok cl s \<and> (\<forall>i < length (rv_calls s). 0 \<le> call_strength s i)"
proof (induction rule: recovery_reach.induct)
  case recovery_init
  then show ?case by (simp add: objects_ok_def calls_ok_def new_recovery_def)
next
  case (recovery_step cl s ev now)
  then have ok: "objects_ok s" "calls_ok cl s" and pos: "\<And>i. i < length (rv_calls s) \<Longrightarrow> 0 \<le> call_strength s i" by simp_all
  show ?case
  proof (cases ev)
    case (RunCall h p)
    define s1 where "s1 = s\<lparr>rv_calls := rv_calls s @ [\<lparr>rc_host = h, rc_strength = recoveryStrength p, rc_phase = Coalesced\<rparr>]\<rparr>"
    have ok1: "objects_ok s1" "calls_ok cl s1" unfolding s1_def by (rule new_call_ok [OF ok])+
    have n: "length (rv_calls s) < length (rv_calls s1)" "call_idle (call_phase s1 (length (rv_calls s)))" by (simp_all add: s1_def)
    have pos1: "0 \<le> call_strength s1 i" if "i < length (rv_calls s1)" for i
      using that pos by (auto simp: s1_def nth_append recoveryStrength_def less_Suc_eq)
    have "recovery_apply c now ev s = (if h \<le> 0 then s1 else recovery_enter c now (length (rv_calls s)) s1)"
      by (simp add: RunCall recovery_run_def Let_def s1_def)
    then show ?thesis using ok1 pos1 recovery_enter_ok [OF ok1 n] RunCall by simp
  next
    case (TaskEnds i success)
    then obtain a where i: "i < length (rv_calls s)" "call_phase s i = InTask a"
      using recovery_step.hyps(2) by (auto split: recovery_phase.splits)
    show ?thesis using recovery_settled_ok [OF ok i] pos TaskEnds by simp
  next
    case (CallResumes i)
    then obtain j where i: "i < length (rv_calls s)" "call_phase s i = Awaiting j"
      using recovery_step.hyps(2) by (auto split: recovery_phase.splits)
    have idle: "call_idle (call_phase s i)" using i by simp
    have "objects_ok (set_call i Coalesced s)" "calls_ok cl (set_call i Coalesced s)"
      by (rule set_call_keeps_ok [OF ok i(1) idle]; simp)+
    then show ?thesis using recovery_enter_ok [OF ok i(1) idle] pos i(2) by (simp add: CallResumes recovery_resumed_def)
  next
    case (ClearHost h)
    show ?thesis
    proof (cases "0 < h")
      case True
      have "\<And>g. map_of (alist_delete h (rv_states s)) g = (if g \<in> {h} then None else map_of (rv_states s) g)" by (simp add: alist_simps)
      from forget_states_ok [OF ok this] show ?thesis using pos ClearHost True by (simp add: recovery_clear_def)
    next
      case False
      have "calls_ok (cl \<union> {h}) s" using ok(2) unfolding calls_ok_def by blast
      then show ?thesis using ok pos ClearHost False by (simp add: recovery_clear_def)
    qed
  next
    case ClearAll
    have "\<And>g. map_of [] g = (if g \<in> fst ` set (rv_states s) then None else map_of (rv_states s) g)" by (simp add: eq_commute [of None] map_of_eq_None_iff)
    from forget_states_ok [OF ok this] show ?thesis using pos ClearAll by (simp add: recovery_clearAll_def)
  qed
qed

lemmas recovery_reach_ok = recovery_reach_inv [THEN conjunct1] recovery_reach_inv [THEN conjunct2, THEN conjunct1]

text \<open>No call is stuck: the task of a call can end, and a call that waits goes on when the task it waits for has ended.\<close>

lemma unanswered_call_moves_on:
  assumes "recovery_reach c cl s" "i < length (rv_calls s)"
  shows "case call_phase s i of
      InTask a \<Rightarrow> recovery_possible (TaskEnds i ok) s
    | Awaiting j \<Rightarrow> recovery_possible (CallResumes i) s \<or> recovery_possible (TaskEnds j ok) s
    | _ \<Rightarrow> True"
proof (cases "call_phase s i")
  case (Awaiting j)
  then show ?thesis using calls_okD(2) [OF recovery_reach_ok(2) [OF assms(1)] assms(2) Awaiting] assms(2) by auto
qed (use assms(2) in simp_all)

lemma running_call_unique:
  assumes "recovery_reach c cl s" "i < length (rv_calls s)" "call_phase s i = InTask a" "j < length (rv_calls s)" "call_phase s j = InTask b"
    "call_host s i = call_host s j" "call_host s i \<notin> cl"
  shows "i = j"
proof -
  note ok = recovery_reach_ok(2) [OF assms(1)]
  have "map_of (rv_states s) (call_host s i) = Some a" "map_of (rv_states s) (call_host s j) = Some b"
    using calls_okD(1) [OF ok assms(2,3)] calls_okD(1) [OF ok assms(4,5)] assms(7) assms(7) [unfolded assms(6)] by blast+
  then have "a = b" using assms(6) by simp
  moreover have "rs_inFlight (rv_store s ! a) = Some (call_strength s i, i)" "rs_inFlight (rv_store s ! b) = Some (call_strength s j, j)"
    using calls_okD(1) [OF ok assms(2,3)] calls_okD(1) [OF ok assms(4,5)] by blast+
  ultimately show ?thesis by simp
qed

text \<open>Recoveries of a host never run at the same time, unless the state of the host has been cleared in between.\<close>

theorem recovery_tasks_exclusive:
  assumes "recovery_reach c cl s" "h \<notin> cl"
  shows "card {i. i < length (rv_calls s) \<and> call_host s i = h \<and> (\<exists>a. call_phase s i = InTask a)} \<le> 1"
  using running_call_unique [OF assms(1)] assms(2) by (subst One_nat_def, subst card_le_Suc0_iff_eq) auto

text \<open>C14: a request is answered without running its task only behind a recovery of the same host that succeeded and was at
  least as strong: one within the cooldown, or the one in flight that the request has waited for. So a full reset is
  never replaced by a light reconciliation, and a failed recovery never hides a later request.\<close>

theorem coalesced_only_when_covered:
  assumes reach: "recovery_reach c cl s" and ev: "recovery_possible ev s" and s': "s' = recovery_apply c now ev s"
    and i: "i < length (rv_calls s')" "call_phase s' i = Coalesced" "i < length (rv_calls s) \<longrightarrow> call_phase s i \<noteq> Coalesced" "0 < call_host s' i"
  shows "\<exists>j t. j < length (rv_calls s) \<and> call_phase s j = Ran t \<and> call_host s j = call_host s' i \<and> call_strength s' i \<le> call_strength s j
    \<and> (now - t < c \<or> i < length (rv_calls s) \<and> call_phase s i = Awaiting j)"
proof -
  have ok: "objects_ok s" "calls_ok cl s" and pos: "\<And>i. i < length (rv_calls s) \<Longrightarrow> 0 \<le> call_strength s i"
    using recovery_reach_inv [OF reach] by simp_all
  show ?thesis
  proof (cases ev)
    case (RunCall h p)
    define n where "n = length (rv_calls s)"
    define s1 where "s1 = s\<lparr>rv_calls := rv_calls s @ [\<lparr>rc_host = h, rc_strength = recoveryStrength p, rc_phase = Coalesced\<rparr>]\<rparr>"
    have ok1: "objects_ok s1" "calls_ok cl s1" unfolding s1_def by (rule new_call_ok [OF ok])+
    have n: "n < length (rv_calls s1)" "call_idle (call_phase s1 n)" "0 \<le> call_strength s1 n" by (simp_all add: s1_def n_def recoveryStrength_def)
    note e = recovery_enter_ok [OF ok1 n(1,2), where c = c and now = now]
    have old: "rv_calls s1 ! j = rv_calls s ! j" if "j < n" for j using that by (simp add: s1_def n_def nth_append)
    have s'e: "s' = (if h \<le> 0 then s1 else recovery_enter c now n s1)" by (simp add: s' RunCall recovery_run_def Let_def s1_def n_def)
    have len: "length (rv_calls s') = Suc n" using e(3) by (simp add: s'e) (simp add: s1_def n_def)
    have "i = n"
    proof (rule ccontr)
      assume "i \<noteq> n"
      then have "i < n" "call_phase s' i = call_phase s i" using i(1) len e(6) [of i] old [of i] by (simp_all add: s'e)
      then show False using i(2,3) by (simp add: n_def)
    qed
    have "call_host s1 n = h" by (simp add: s1_def n_def)
    then have h: "0 < h" using i(4) e(4) [of n] \<open>i = n\<close> by (auto simp: s'e split: if_splits)
    have se: "s' = recovery_enter c now n s1" using h by (simp add: s'e)
    obtain j t where j: "j < length (rv_calls s1)" "call_phase s1 j = Ran t" "call_host s1 j = call_host s1 n"
      "call_strength s1 n \<le> call_strength s1 j" "now - t < c"
      using e(7) n(3) i(2) \<open>i = n\<close> se by blast
    have "j \<noteq> n" using j(2) n(2) by auto
    then have "j < n" using j(1) by (simp add: s1_def n_def)
    then show ?thesis using j old [of j] e(4,5) [of n] \<open>i = n\<close> by (intro exI [of _ j] exI [of _ t]) (simp add: se n_def)
  next
    case (TaskEnds k success)
    then obtain a where k: "k < length (rv_calls s)" "call_phase s k = InTask a" using ev by (auto split: recovery_phase.splits)
    show ?thesis using recovery_settled_ok(3,4) [OF ok k, of now success] i s' TaskEnds by (auto split: if_splits)
  next
    case (CallResumes k)
    then obtain j where k: "k < length (rv_calls s)" "call_phase s k = Awaiting j" "task_over (call_phase s j)"
      using ev by (auto split: recovery_phase.splits)
    have idle: "call_idle (call_phase s k)" using k by simp
    note e = recovery_enter_ok [OF ok k(1) idle, where c = c and now = now]
    show ?thesis
    proof (cases "call_strength s j \<ge> call_strength s k \<and> task_succeeded (call_phase s j)")
      case True
      then have se: "s' = set_call k Coalesced s" using k(2) by (simp add: s' CallResumes recovery_resumed_def)
      then have "i = k" using i k(1) call_phase_set_call [OF k(1), of Coalesced i] by (auto split: if_splits)
      moreover obtain t where "call_phase s j = Ran t" using True by (cases "call_phase s j") auto
      moreover have "j < length (rv_calls s)" "call_host s j = call_host s k" using calls_okD(2) [OF ok(2) k(1,2)] by simp_all
      ultimately show ?thesis using k True by (intro exI [of _ j] exI [of _ t]) (simp add: se)
    next
      case False
      then have se: "s' = recovery_enter c now k s" using k(2) by (auto simp: s' CallResumes recovery_resumed_def)
      then have "i = k" using i e(3) e(6) [of i] by auto
      then show ?thesis using e(7) i(2) pos [OF k(1)] e(4,5) [of k] unfolding se by metis
    qed
  qed (use i s' in \<open>auto simp: recovery_clear_def recovery_clearAll_def split: if_splits\<close>)
qed

section \<open>Concrete runs\<close>

text \<open>Three items on two workers; the second item settles first.\<close>

definition example_mapper :: "nat \<Rightarrow> string + nat" where
  "example_mapper i = Inr (10 * i)"

definition example_pool :: "(string, nat) pool" where
  "example_pool = mapper_settled 3 0 (example_mapper 0) (mapper_settled 3 1 (example_mapper 2) (mapper_settled 3 1 (example_mapper 1) (pool_start 3 2)))"

lemma example_pool_reach: "pool_reach 3 2 example_mapper 3 example_pool"
proof -
  let ?s = "pool_start 3 2 :: (string, nat) pool"
  have a: "pool_reach 3 2 example_mapper (Suc 0) (mapper_settled 3 1 (example_mapper 1) ?s)"
    by (rule pool_step [OF pool_init]) code_simp+
  have b: "pool_reach 3 2 example_mapper (Suc (Suc 0)) (mapper_settled 3 1 (example_mapper 2) (mapper_settled 3 1 (example_mapper 1) ?s))"
    by (rule pool_step [OF a]) code_simp+
  have "pool_reach 3 2 example_mapper (Suc (Suc (Suc 0))) example_pool"
    unfolding example_pool_def by (rule pool_step [OF b]) code_simp+
  then show ?thesis by (simp add: eval_nat_numeral)
qed

lemma example_pool_result: "pool_result example_pool = Some (Inr [0, 10, 20])"
  by code_simp

theorem pool_equals_sequential_map_witness:
  "pool_result example_pool = Some (Inr [0, 10, 20]) \<and> map Inr [0, 10, 20] = map example_mapper [0..<3]"
  using pool_equals_sequential_map [OF example_pool_reach example_pool_result] example_pool_result by simp

theorem pool_terminates_within_bounds_witness:
  "pool_reach 3 2 example_mapper 3 example_pool \<and> pool_result example_pool \<noteq> None \<and> in_work example_pool = {}"
  using pool_terminates_within_bounds [OF example_pool_reach] example_pool_reach example_pool_result by simp

text \<open>One slot; two tasks of key a and one of key b. The second task of a begins after the first has closed, and waits for the
  slot the task of b has taken over.\<close>

definition example_dispatch :: dispatcher where
  "example_dispatch = the (guarded_run dispatch_possible (dispatch_apply 1) [EnqueueTask ''a'', EnqueueTask '' a'', EnqueueTask ''b'', BeginTask 0, BeginTask 2, WaitIdle,
     TaskSettles 0, TailSettles 0, BeginTask 1] new_dispatcher)"

lemma example_dispatch_run:
  "guarded_run dispatch_possible (dispatch_apply 1) [EnqueueTask ''a'', EnqueueTask '' a'', EnqueueTask ''b'', BeginTask 0, BeginTask 2, WaitIdle,
     TaskSettles 0, TailSettles 0, BeginTask 1] new_dispatcher = Some example_dispatch"
  by code_simp

lemma example_dispatch_reach: "dispatch_reach 1 example_dispatch"
  by (rule dispatch.run_init [OF example_dispatch_run])

lemma example_dispatch_state:
  "length (dp_tasks example_dispatch) = 3" "key_of example_dispatch 0 = key_of example_dispatch 1" "phase_of example_dispatch 1 = SlotWait"
  "phase_of example_dispatch 2 = Running" "dp_pendingTasks example_dispatch = 2"
  by code_simp+

theorem dispatcher_orders_and_bounds_witness:
  "dispatch_reach 1 example_dispatch \<and> phase_of example_dispatch 1 = SlotWait \<and> phase_of example_dispatch 0 = Closed
   \<and> card (with_phase Running example_dispatch) = 1"
proof -
  have "1 \<in> with_phase SlotWait example_dispatch" using example_dispatch_state by (simp add: with_phase_def)
  then have "with_phase SlotWait example_dispatch \<noteq> {}" by blast
  then show ?thesis
    using dispatcher_orders_and_bounds [OF example_dispatch_reach, of 0 1] example_dispatch_reach example_dispatch_state by simp
qed

theorem dispatcher_makes_progress_witness:
  "dp_pendingTasks example_dispatch = 2 \<and> (\<exists>i. dispatch_possible (BeginTask i) example_dispatch
     \<or> dispatch_possible (TaskSettles i) example_dispatch \<or> dispatch_possible (TailSettles i) example_dispatch)"
  using dispatcher_makes_progress [OF example_dispatch_reach] example_dispatch_state by simp

text \<open>A light recovery of host 7 runs, a full reset waits for it and then runs itself.\<close>

definition example_recovery :: recovery where
  "example_recovery = snd (the (guarded_run timed_possible (timed_apply 60000)
     [(1000, RunCall 7 (Some True)), (1001, RunCall 7 None), (1500, TaskEnds 0 True), (1501, CallResumes 1)] ({}, new_recovery)))"

lemma example_recovery_run:
  "guarded_run timed_possible (timed_apply 60000)
     [(1000, RunCall 7 (Some True)), (1001, RunCall 7 None), (1500, TaskEnds 0 True), (1501, CallResumes 1)] ({}, new_recovery)
     = Some ({}, example_recovery)"
  by code_simp

lemma example_recovery_reach: "recovery_reach 60000 {} example_recovery"
  using recoveries.run_init [OF example_recovery_run] by simp

theorem recovery_tasks_exclusive_witness:
  "call_phase example_recovery 0 = Ran 1500 \<and> call_phase example_recovery 1 = InTask 0
   \<and> card {i. i < length (rv_calls example_recovery) \<and> call_host example_recovery i = 7 \<and> (\<exists>a. call_phase example_recovery i = InTask a)} \<le> 1"
proof -
  have "call_phase example_recovery 0 = Ran 1500" "call_phase example_recovery 1 = InTask 0" by code_simp+
  then show ?thesis using recovery_tasks_exclusive [OF example_recovery_reach, of 7] by simp
qed

text \<open>A second light request within the cooldown is answered by the first.\<close>

definition example_cooldown :: recovery where
  "example_cooldown = snd (the (guarded_run timed_possible (timed_apply 60000)
     [(1000, RunCall 7 (Some True)), (1500, TaskEnds 0 True)] ({}, new_recovery)))"

lemma example_cooldown_run:
  "guarded_run timed_possible (timed_apply 60000) [(1000, RunCall 7 (Some True)), (1500, TaskEnds 0 True)] ({}, new_recovery)
     = Some ({}, example_cooldown)"
  by code_simp

theorem coalesced_only_when_covered_witness:
  "call_phase (recovery_apply 60000 2000 (RunCall 7 (Some True)) example_cooldown) 1 = Coalesced
   \<and> (\<exists>j t. j < length (rv_calls example_cooldown) \<and> call_phase example_cooldown j = Ran t \<and> call_host example_cooldown j = 7
        \<and> 0 \<le> call_strength example_cooldown j \<and> 2000 - t < 60000)"
proof -
  let ?ev = "RunCall 7 (Some True)"
  have f: "recovery_possible ?ev example_cooldown" "1 < length (rv_calls (recovery_apply 60000 2000 ?ev example_cooldown))"
    "call_phase (recovery_apply 60000 2000 ?ev example_cooldown) 1 = Coalesced" "length (rv_calls example_cooldown) = 1"
    "call_host (recovery_apply 60000 2000 ?ev example_cooldown) 1 = 7" "call_strength (recovery_apply 60000 2000 ?ev example_cooldown) 1 = 0"
    by code_simp+
  have "recovery_reach 60000 {} example_cooldown" using recoveries.run_init [OF example_cooldown_run] by simp
  from coalesced_only_when_covered [OF this f(1) refl f(2,3)] show ?thesis using f by simp
qed

end
