(* ===== verification/AgentEvents.thy ===== *)
theory AgentEvents
  imports HeartbeatGate EventSystems "HOL-Library.Sublist"
begin

text \<open>
  The event streams to the agents (server/agentEvents.ts): one response per host over which frames are pushed, the bounded
  queue of frames while the socket applies backpressure, and the maps that throttle refreshes and remember which hosts
  are watched. What a write to a response returns is an argument (\<open>out\<close>, per response and per call), so is the text of an
  encrypted message (\<open>enc\<close>). A response belongs to one client. Console output and its throttle are left out.
\<close>

section \<open>A client\<close>

datatype write_outcome = WriteOk | WriteFull | WriteThrows

datatype terminate_response = TerminateNone | TerminateEnd | TerminateDestroy

text \<open>An \<open>AgentEventClient\<close> with what the code sees of its response: whether events can be awaited, whether it has ended, the
  frames written to it and the number of calls of write.\<close>

record event_client =
  ec_hostId :: int
  ec_token :: string
  ec_once :: bool
  ec_unavailable :: bool
  ec_written :: "string list"
  ec_writes :: nat
  ec_closed :: bool
  ec_backpressured :: bool
  ec_pendingFrames :: "string list"
  ec_pendingBytes :: int
  ec_drainTimer :: bool
  ec_heartbeatTimer :: bool
  ec_closeListeners :: "nat list"
  ec_notified :: "nat list"
  ec_onDrain :: bool
  ec_terminated :: terminate_response

definition AGENT_EVENT_MAX_PENDING_FRAMES :: nat where "AGENT_EVENT_MAX_PENDING_FRAMES = 16"

definition AGENT_EVENT_MAX_PENDING_BYTES :: int where "AGENT_EVENT_MAX_PENDING_BYTES = 1024 * 1024"

definition AGENT_REFRESH_COALESCE_MS :: int where "AGENT_REFRESH_COALESCE_MS = 1500"

definition AGENT_EVENT_CACHE_RETENTION_MS :: int where "AGENT_EVENT_CACHE_RETENTION_MS = 60 * 60 * 1000"

text \<open>\<open>Buffer.byteLength\<close> in UTF-8, for code units below 256.\<close>

definition byteLength :: "string \<Rightarrow> int" where
  "byteLength s = sum_list (map (\<lambda>c. if of_char c < (128 :: nat) then 1 else 2) s)"

definition closeAgentEventClient :: "terminate_response \<Rightarrow> event_client \<Rightarrow> event_client" where
  "closeAgentEventClient terminateResponse c =
     (if ec_closed c then c
      else let c1 = c\<lparr>ec_closed := True, ec_backpressured := False, ec_pendingFrames := [], ec_pendingBytes := 0,
                 ec_drainTimer := False, ec_heartbeatTimer := False, ec_onDrain := False,
                 ec_notified := ec_notified c @ ec_closeListeners c, ec_closeListeners := []\<rparr> in
           if terminateResponse = TerminateNone \<or> ec_unavailable c1 then c1
           else c1\<lparr>ec_unavailable := True, ec_terminated := terminateResponse\<rparr>)"

definition armDrainTimeout :: "event_client \<Rightarrow> event_client" where
  "armDrainTimeout c = (if ec_drainTimer c \<or> ec_closed c then c else c\<lparr>ec_drainTimer := True\<rparr>)"

definition drain_timeout :: "event_client \<Rightarrow> event_client" where
  "drain_timeout c = (let c1 = c\<lparr>ec_drainTimer := False\<rparr> in
     if ec_closed c1 \<or> \<not> ec_backpressured c1 then c1 else closeAgentEventClient TerminateDestroy c1)"

definition writeFrameNow :: "(nat \<Rightarrow> write_outcome) \<Rightarrow> string \<Rightarrow> event_client \<Rightarrow> bool \<times> event_client" where
  "writeFrameNow out frame c =
     (if ec_closed c \<or> ec_unavailable c then (False, closeAgentEventClient TerminateNone c)
      else let c1 = c\<lparr>ec_writes := ec_writes c + 1\<rparr> in
        case out (ec_writes c) of
          WriteThrows \<Rightarrow> (False, closeAgentEventClient TerminateDestroy c1)
        | WriteOk \<Rightarrow> (True, c1\<lparr>ec_written := ec_written c1 @ [frame]\<rparr>)
        | WriteFull \<Rightarrow>
            let c2 = c1\<lparr>ec_written := ec_written c1 @ [frame], ec_backpressured := True\<rparr> in
            if \<not> ec_once c2 then (False, closeAgentEventClient TerminateDestroy c2)
            else (True, armDrainTimeout (c2\<lparr>ec_onDrain := True\<rparr>)))"

fun flush_frames :: "(nat \<Rightarrow> write_outcome) \<Rightarrow> string list \<Rightarrow> event_client \<Rightarrow> event_client" where
  "flush_frames out [] c = c"
| "flush_frames out (frame # rest) c =
     (if ec_closed c \<or> ec_backpressured c then c
      else let (ok, c1) = writeFrameNow out frame (c\<lparr>ec_pendingFrames := rest, ec_pendingBytes := max 0 (ec_pendingBytes c - byteLength frame)\<rparr>) in
           if ok then flush_frames out rest c1 else c1)"

definition flushPendingFrames :: "(nat \<Rightarrow> write_outcome) \<Rightarrow> event_client \<Rightarrow> event_client" where
  "flushPendingFrames out c = flush_frames out (ec_pendingFrames c) c"

definition onDrain :: "(nat \<Rightarrow> write_outcome) \<Rightarrow> event_client \<Rightarrow> event_client" where
  "onDrain out c0 = (let c = c0\<lparr>ec_onDrain := False\<rparr> in
     if ec_closed c then c else flushPendingFrames out (c\<lparr>ec_backpressured := False, ec_drainTimer := False\<rparr>))"

definition writeAgentEventFrame :: "(nat \<Rightarrow> write_outcome) \<Rightarrow> string \<Rightarrow> bool \<Rightarrow> event_client \<Rightarrow> bool \<times> event_client" where
  "writeAgentEventFrame out frame queueWhenBackpressured c =
     (if ec_closed c \<or> ec_unavailable c then (False, closeAgentEventClient TerminateNone c)
      else if \<not> ec_backpressured c then writeFrameNow out frame c
      else if \<not> queueWhenBackpressured then (True, c)
      else let frameBytes = byteLength frame in
        if length (ec_pendingFrames c) \<ge> AGENT_EVENT_MAX_PENDING_FRAMES \<or> ec_pendingBytes c + frameBytes > AGENT_EVENT_MAX_PENDING_BYTES
        then (False, closeAgentEventClient TerminateDestroy c)
        else (True, c\<lparr>ec_pendingFrames := ec_pendingFrames c @ [frame], ec_pendingBytes := ec_pendingBytes c + frameBytes\<rparr>))"

definition client_onClose :: "nat \<Rightarrow> event_client \<Rightarrow> event_client" where
  "client_onClose listener c = (if ec_closed c then c\<lparr>ec_notified := ec_notified c @ [listener]\<rparr>
     else c\<lparr>ec_closeListeners := set_add listener (ec_closeListeners c)\<rparr>)"

definition client_offClose :: "nat \<Rightarrow> event_client \<Rightarrow> event_client" where
  "client_offClose listener c = c\<lparr>ec_closeListeners := removeAll listener (ec_closeListeners c)\<rparr>"

section \<open>The messages\<close>

datatype agent_message =
    AgentRefresh string int bool bool
  | AgentUpgrade string string string "string option"
  | AgentPanelMigration string
  | AgentSupportBundle string string
  | AgentDesiredState string

fun message_type :: "agent_message \<Rightarrow> string" where
  "message_type (AgentRefresh _ _ _ _) = ''agent-refresh''"
| "message_type (AgentUpgrade _ _ _ _) = ''agent-upgrade''"
| "message_type (AgentPanelMigration _) = ''agent-panel-migration''"
| "message_type (AgentSupportBundle _ _) = ''agent-support-bundle''"
| "message_type (AgentDesiredState _) = ''agent-desired-state''"

definition encryptedEventFrame :: "(string \<Rightarrow> agent_message \<Rightarrow> string \<Rightarrow> string) \<Rightarrow> agent_message \<Rightarrow> string \<Rightarrow> string" where
  "encryptedEventFrame enc message token =
     ''event: message'' @ [CHR 0x0A] @ ''data: '' @ enc (message_type message) message token @ [CHR 0x0A, CHR 0x0A]"

fun replace_breaks :: "bool \<Rightarrow> string \<Rightarrow> string" where
  "replace_breaks after [] = []"
| "replace_breaks after (c # cs) =
     (if c = CHR 0x0D \<or> c = CHR 0x0A then (if after then replace_breaks True cs else CHR '' '' # replace_breaks True cs)
      else c # replace_breaks False cs)"

definition comment_frame :: "string \<Rightarrow> string" where
  "comment_frame comment = '': '' @ replace_breaks False comment @ [CHR 0x0A, CHR 0x0A]"

section \<open>The streams of all hosts\<close>

text \<open>The clients ever registered, the map from hosts to their current client, the plans of the heartbeat gate and the maps of
  times.\<close>

record event_streams =
  es_clients :: "event_client list"
  es_current :: "(int \<times> nat) list"
  es_plans :: plan_cache
  es_refreshPushedAt :: "(int \<times> int) list"
  es_metricsWatchUntil :: "(int \<times> int) list"
  es_tcpingRequestUntil :: "(int \<times> int) list"

definition no_streams :: event_streams where
  "no_streams = \<lparr>es_clients = [], es_current = [], es_plans = [], es_refreshPushedAt = [], es_metricsWatchUntil = [], es_tcpingRequestUntil = []\<rparr>"

text \<open>An operation on client \<open>i\<close>. A client that it closes leaves the map when it is the current one of its host.\<close>

definition on_client :: "nat \<Rightarrow> (event_client \<Rightarrow> 'a \<times> event_client) \<Rightarrow> event_streams \<Rightarrow> 'a \<times> event_streams" where
  "on_client i f s =
     (let c = es_clients s ! i; (r, c') = f c; s1 = s\<lparr>es_clients := (es_clients s)[i := c']\<rparr> in
      (r, if \<not> ec_closed c \<and> ec_closed c' \<and> map_of (es_current s) (ec_hostId c) = Some i
          then s1\<lparr>es_current := alist_delete (ec_hostId c) (es_current s)\<rparr> else s1))"

definition update_client :: "nat \<Rightarrow> (event_client \<Rightarrow> event_client) \<Rightarrow> event_streams \<Rightarrow> event_streams" where
  "update_client i f s = snd (on_client i (\<lambda>c. ((), f c)) s)"

definition new_client :: "int \<Rightarrow> string \<Rightarrow> bool \<Rightarrow> int \<Rightarrow> event_client" where
  "new_client hostId token once heartbeatIntervalMs =
     \<lparr>ec_hostId = hostId, ec_token = token, ec_once = once, ec_unavailable = False, ec_written = [], ec_writes = 0,
      ec_closed = False, ec_backpressured = False, ec_pendingFrames = [], ec_pendingBytes = 0, ec_drainTimer = False,
      ec_heartbeatTimer = (0 < heartbeatIntervalMs), ec_closeListeners = [], ec_notified = [], ec_onDrain = False,
      ec_terminated = TerminateNone\<rparr>"

definition registerAgentEventClient :: "int \<Rightarrow> string \<Rightarrow> bool \<Rightarrow> int \<Rightarrow> event_streams \<Rightarrow> nat \<times> event_streams" where
  "registerAgentEventClient hostId token once heartbeatIntervalMs s =
     (let s1 = (case map_of (es_current s) hostId of None \<Rightarrow> s
                | Some p \<Rightarrow> update_client p
                    (\<lambda>c. closeAgentEventClient (if ec_backpressured c then TerminateDestroy else TerminateEnd) c) s);
          i = length (es_clients s1)
      in (i, s1\<lparr>es_clients := es_clients s1 @ [new_client hostId token once heartbeatIntervalMs],
               es_current := alist_set hostId i (es_current s1)\<rparr>))"

definition unregisterAgentEventClient :: "int \<Rightarrow> nat \<Rightarrow> event_streams \<Rightarrow> event_streams" where
  "unregisterAgentEventClient hostId i s =
     (if map_of (es_current s) hostId = Some i then update_client i (closeAgentEventClient TerminateNone) s else s)"

definition sendAgentEvent ::
  "(nat \<Rightarrow> nat \<Rightarrow> write_outcome) \<Rightarrow> (string \<Rightarrow> agent_message \<Rightarrow> string \<Rightarrow> string) \<Rightarrow> int \<Rightarrow> agent_message \<Rightarrow> event_streams \<Rightarrow> bool \<times> event_streams" where
  "sendAgentEvent out enc hostId message s =
     (case map_of (es_current s) hostId of
        None \<Rightarrow> (False, s)
      | Some i \<Rightarrow> on_client i (\<lambda>c. writeAgentEventFrame (out i) (encryptedEventFrame enc message (ec_token c)) True c) s)"

definition last_time :: "(int \<times> int) list \<Rightarrow> int \<Rightarrow> int" where
  "last_time m k = (case map_of m k of Some t \<Rightarrow> t | None \<Rightarrow> 0)"

definition pushAgentRefresh ::
  "(nat \<Rightarrow> nat \<Rightarrow> write_outcome) \<Rightarrow> (string \<Rightarrow> agent_message \<Rightarrow> string \<Rightarrow> string) \<Rightarrow> int \<Rightarrow> int \<Rightarrow> string \<Rightarrow> bool \<Rightarrow> bool
     \<Rightarrow> event_streams \<Rightarrow> bool \<times> event_streams" where
  "pushAgentRefresh out enc now hostId reason urgent forceMimicCheck s =
     (let s1 = s\<lparr>es_plans := invalidate (JNum (inum hostId)) (es_plans s)\<rparr> in
      if \<not> urgent \<and> now - last_time (es_refreshPushedAt s1) hostId < AGENT_REFRESH_COALESCE_MS then (True, s1)
      else sendAgentEvent out enc hostId (AgentRefresh reason now urgent forceMimicCheck)
             (s1\<lparr>es_refreshPushedAt := alist_set hostId now (es_refreshPushedAt s1)\<rparr>))"

definition pushAgentUpgrade ::
  "(nat \<Rightarrow> nat \<Rightarrow> write_outcome) \<Rightarrow> (string \<Rightarrow> agent_message \<Rightarrow> string \<Rightarrow> string) \<Rightarrow> string \<Rightarrow> int \<Rightarrow> string option \<Rightarrow> string \<Rightarrow> string option
     \<Rightarrow> string \<Rightarrow> event_streams \<Rightarrow> bool \<times> event_streams" where
  "pushAgentUpgrade out enc AGENT_VERSION hostId targetVersion panelUrl releaseVersion targetDistribution s =
     sendAgentEvent out enc hostId
       (AgentUpgrade (case targetVersion of Some v \<Rightarrow> if v = [] then AGENT_VERSION else v | None \<Rightarrow> AGENT_VERSION) targetDistribution panelUrl
          (case releaseVersion of Some v \<Rightarrow> if v = [] then None else Some v | None \<Rightarrow> None))
       (s\<lparr>es_plans := invalidate (JNum (inum hostId)) (es_plans s)\<rparr>)"

definition pushAgentPanelMigration ::
  "(nat \<Rightarrow> nat \<Rightarrow> write_outcome) \<Rightarrow> (string \<Rightarrow> agent_message \<Rightarrow> string \<Rightarrow> string) \<Rightarrow> int \<Rightarrow> string \<Rightarrow> event_streams \<Rightarrow> bool \<times> event_streams" where
  "pushAgentPanelMigration out enc hostId data s =
     sendAgentEvent out enc hostId (AgentPanelMigration data) (s\<lparr>es_plans := invalidate (JNum (inum hostId)) (es_plans s)\<rparr>)"

definition pushAgentSupportBundle ::
  "(nat \<Rightarrow> nat \<Rightarrow> write_outcome) \<Rightarrow> (string \<Rightarrow> agent_message \<Rightarrow> string \<Rightarrow> string) \<Rightarrow> int \<Rightarrow> string \<Rightarrow> string \<Rightarrow> event_streams \<Rightarrow> bool \<times> event_streams" where
  "pushAgentSupportBundle out enc hostId taskId requestedAt s = sendAgentEvent out enc hostId (AgentSupportBundle taskId requestedAt) s"

definition pushAgentDesiredState ::
  "(nat \<Rightarrow> nat \<Rightarrow> write_outcome) \<Rightarrow> (string \<Rightarrow> agent_message \<Rightarrow> string \<Rightarrow> string) \<Rightarrow> int \<Rightarrow> string \<Rightarrow> event_streams \<Rightarrow> bool \<times> event_streams" where
  "pushAgentDesiredState out enc hostId payload s =
     (if hostId \<le> 0 then (False, s) else sendAgentEvent out enc hostId (AgentDesiredState payload) s)"

section \<open>Watched hosts and requested probes\<close>

fun mark_watching :: "int \<Rightarrow> int \<Rightarrow> int list \<Rightarrow> (int \<times> int) list \<Rightarrow> int list \<times> (int \<times> int) list" where
  "mark_watching now until [] m = ([], m)"
| "mark_watching now until (h # hs) m =
     (if 0 < h then
        let (newly, m') = mark_watching now until hs (alist_set h until m) in ((if last_time m h \<le> now then h # newly else newly), m')
      else mark_watching now until hs m)"

definition markHostMetricsWatching :: "int list \<Rightarrow> int \<Rightarrow> int \<Rightarrow> event_streams \<Rightarrow> int list \<times> event_streams" where
  "markHostMetricsWatching hostIds ttlMs now s =
     (let (newly, m) = mark_watching now (now + ttlMs) hostIds (es_metricsWatchUntil s) in (newly, s\<lparr>es_metricsWatchUntil := m\<rparr>))"

definition isHostMetricsWatching :: "int \<Rightarrow> int \<Rightarrow> event_streams \<Rightarrow> bool \<times> event_streams" where
  "isHostMetricsWatching hostId now s =
     (if last_time (es_metricsWatchUntil s) hostId \<le> now
      then (False, s\<lparr>es_metricsWatchUntil := alist_delete hostId (es_metricsWatchUntil s)\<rparr>) else (True, s))"

definition requestHostTcping :: "int \<Rightarrow> int \<Rightarrow> int \<Rightarrow> event_streams \<Rightarrow> bool \<times> event_streams" where
  "requestHostTcping hostId ttlMs now s =
     (if hostId \<le> 0 then (False, s) else (True, s\<lparr>es_tcpingRequestUntil := alist_set hostId (now + ttlMs) (es_tcpingRequestUntil s)\<rparr>))"

definition hasHostTcpingRequest :: "int \<Rightarrow> int \<Rightarrow> event_streams \<Rightarrow> bool \<times> event_streams" where
  "hasHostTcpingRequest hostId now s =
     (if last_time (es_tcpingRequestUntil s) hostId \<le> now
      then (False, s\<lparr>es_tcpingRequestUntil := alist_delete hostId (es_tcpingRequestUntil s)\<rparr>) else (True, s))"

definition clearHostTcpingRequest :: "int \<Rightarrow> event_streams \<Rightarrow> event_streams" where
  "clearHostTcpingRequest hostId s = s\<lparr>es_tcpingRequestUntil := alist_delete hostId (es_tcpingRequestUntil s)\<rparr>"

definition pruneAgentEventCaches :: "int \<Rightarrow> event_streams \<Rightarrow> event_streams" where
  "pruneAgentEventCaches now s =
     s\<lparr>es_refreshPushedAt := filter (\<lambda>e. \<not> now - snd e \<ge> AGENT_EVENT_CACHE_RETENTION_MS) (es_refreshPushedAt s),
       es_metricsWatchUntil := filter (\<lambda>e. \<not> snd e \<le> now) (es_metricsWatchUntil s),
       es_tcpingRequestUntil := filter (\<lambda>e. \<not> snd e \<le> now) (es_tcpingRequestUntil s)\<rparr>"

section \<open>Runs\<close>

datatype stream_event =
    Connect int string bool int
  | HandleEvent nat agent_message
  | HandleComment nat string
  | HandleClose nat
  | HandleListen nat nat
  | HandleUnlisten nat nat
  | Disconnect int nat
  | Push int agent_message
  | PushRefresh int int string bool bool
  | HeartbeatTick nat
  | Drained nat
  | DrainTimeout nat
  | ResponseEnded nat
  | ResponseClosed nat
  | ResponseFailed nat

fun stream_possible :: "stream_event \<Rightarrow> event_streams \<Rightarrow> bool" where
  "stream_possible (HandleEvent i _) s = (i < length (es_clients s))"
| "stream_possible (HandleComment i _) s = (i < length (es_clients s))"
| "stream_possible (HandleClose i) s = (i < length (es_clients s))"
| "stream_possible (HandleListen i _) s = (i < length (es_clients s))"
| "stream_possible (HandleUnlisten i _) s = (i < length (es_clients s))"
| "stream_possible (HeartbeatTick i) s = (i < length (es_clients s) \<and> ec_heartbeatTimer (es_clients s ! i))"
| "stream_possible (Drained i) s = (i < length (es_clients s) \<and> ec_onDrain (es_clients s ! i))"
| "stream_possible (DrainTimeout i) s = (i < length (es_clients s) \<and> ec_drainTimer (es_clients s ! i))"
| "stream_possible (ResponseEnded i) s = (i < length (es_clients s))"
| "stream_possible (ResponseClosed i) s = (i < length (es_clients s) \<and> ec_once (es_clients s ! i) \<and> \<not> ec_closed (es_clients s ! i))"
| "stream_possible (ResponseFailed i) s = (i < length (es_clients s) \<and> ec_once (es_clients s ! i) \<and> \<not> ec_closed (es_clients s ! i))"
| "stream_possible _ s = True"

text \<open>\<open>ResponseEnded\<close> is the response itself: it becomes unusable before the code hears of it.\<close>

fun stream_apply :: "(nat \<Rightarrow> nat \<Rightarrow> write_outcome) \<Rightarrow> (string \<Rightarrow> agent_message \<Rightarrow> string \<Rightarrow> string) \<Rightarrow> stream_event \<Rightarrow> event_streams \<Rightarrow> event_streams" where
  "stream_apply out enc (Connect h token once hb) s = snd (registerAgentEventClient h token once hb s)"
| "stream_apply out enc (HandleEvent i m) s = snd (on_client i (\<lambda>c. writeAgentEventFrame (out i) (encryptedEventFrame enc m (ec_token c)) True c) s)"
| "stream_apply out enc (HandleComment i t) s = snd (on_client i (writeAgentEventFrame (out i) (comment_frame t) False) s)"
| "stream_apply out enc (HandleClose i) s = update_client i (closeAgentEventClient TerminateNone) s"
| "stream_apply out enc (HandleListen i l) s = update_client i (client_onClose l) s"
| "stream_apply out enc (HandleUnlisten i l) s = update_client i (client_offClose l) s"
| "stream_apply out enc (Disconnect h i) s = unregisterAgentEventClient h i s"
| "stream_apply out enc (Push h m) s = snd (sendAgentEvent out enc h m s)"
| "stream_apply out enc (PushRefresh now h reason urgent force) s = snd (pushAgentRefresh out enc now h reason urgent force s)"
| "stream_apply out enc (HeartbeatTick i) s = snd (on_client i (writeAgentEventFrame (out i) (comment_frame ''ping'') False) s)"
| "stream_apply out enc (Drained i) s = update_client i (onDrain (out i)) s"
| "stream_apply out enc (DrainTimeout i) s = update_client i drain_timeout s"
| "stream_apply out enc (ResponseEnded i) s = update_client i (\<lambda>c. c\<lparr>ec_unavailable := True\<rparr>) s"
| "stream_apply out enc (ResponseClosed i) s = update_client i (closeAgentEventClient TerminateNone) s"
| "stream_apply out enc (ResponseFailed i) s = update_client i (closeAgentEventClient TerminateDestroy) s"

text \<open>The frames of messages an event hands to client \<open>i\<close>.\<close>

fun stream_offers :: "(string \<Rightarrow> agent_message \<Rightarrow> string \<Rightarrow> string) \<Rightarrow> stream_event \<Rightarrow> event_streams \<Rightarrow> nat \<Rightarrow> string list" where
  "stream_offers enc (HandleEvent j m) s i = (if i = j then [encryptedEventFrame enc m (ec_token (es_clients s ! i))] else [])"
| "stream_offers enc (Push h m) s i =
     (if map_of (es_current s) h = Some i then [encryptedEventFrame enc m (ec_token (es_clients s ! i))] else [])"
| "stream_offers enc (PushRefresh now h reason urgent force) s i =
     (if map_of (es_current s) h = Some i \<and> (urgent \<or> now - last_time (es_refreshPushedAt s) h \<ge> AGENT_REFRESH_COALESCE_MS)
      then [encryptedEventFrame enc (AgentRefresh reason now urgent force) (ec_token (es_clients s ! i))] else [])"
| "stream_offers enc _ s i = []"

inductive stream_reach ::
  "(nat \<Rightarrow> nat \<Rightarrow> write_outcome) \<Rightarrow> (string \<Rightarrow> agent_message \<Rightarrow> string \<Rightarrow> string) \<Rightarrow> (nat \<Rightarrow> string list) \<Rightarrow> event_streams \<Rightarrow> bool" for out enc where
  stream_init: "stream_reach out enc (\<lambda>i. []) no_streams"
| stream_step: "stream_reach out enc off s \<Longrightarrow> stream_possible ev s \<Longrightarrow>
    stream_reach out enc (\<lambda>i. off i @ stream_offers enc ev s i) (stream_apply out enc ev s)"

section \<open>What a client keeps\<close>

definition is_comment :: "string \<Rightarrow> bool" where
  "is_comment frame \<longleftrightarrow> frame \<noteq> [] \<and> hd frame = CHR '':''"

definition message_frames :: "string list \<Rightarrow> string list" where
  "message_frames fs = filter (\<lambda>f. \<not> is_comment f) fs"

lemma message_frames_simps [simp]:
  "message_frames [] = []" "message_frames (xs @ ys) = message_frames xs @ message_frames ys"
  "message_frames [f] = (if is_comment f then [] else [f])"
  by (simp_all add: message_frames_def)

lemma frame_kinds [simp]: "\<not> is_comment (encryptedEventFrame enc m token)" "is_comment (comment_frame t)"
  by (simp_all add: is_comment_def encryptedEventFrame_def comment_frame_def)

text \<open>What was handed to an open client is what was written followed by the queue; a closed client has released everything and
  its response has a prefix.\<close>

definition stream_ok :: "string list \<Rightarrow> event_client \<Rightarrow> bool" where
  "stream_ok off c \<longleftrightarrow>
     (if ec_closed c then \<not> ec_backpressured c \<and> ec_pendingFrames c = [] \<and> ec_pendingBytes c = 0 \<and> \<not> ec_drainTimer c
        \<and> \<not> ec_heartbeatTimer c \<and> \<not> ec_onDrain c \<and> ec_closeListeners c = [] \<and> prefix (message_frames (ec_written c)) off
      else off = message_frames (ec_written c) @ ec_pendingFrames c \<and> ec_drainTimer c = ec_backpressured c
        \<and> ec_onDrain c = ec_backpressured c \<and> ec_pendingBytes c = sum_list (map byteLength (ec_pendingFrames c))
        \<and> ec_pendingBytes c \<le> AGENT_EVENT_MAX_PENDING_BYTES \<and> length (ec_pendingFrames c) \<le> AGENT_EVENT_MAX_PENDING_FRAMES)"

definition client_ok :: "string list \<Rightarrow> event_client \<Rightarrow> bool" where
  "client_ok off c \<longleftrightarrow> stream_ok off c \<and> (ec_pendingFrames c \<noteq> [] \<longrightarrow> ec_backpressured c)"

lemma close_closed [simp]: "ec_closed (closeAgentEventClient t c)"
  by (simp add: closeAgentEventClient_def Let_def)

lemma close_idle: "ec_closed c \<Longrightarrow> closeAgentEventClient t c = c"
  by (simp add: closeAgentEventClient_def)

lemma close_written [simp]: "ec_written (closeAgentEventClient t c) = ec_written c" "ec_hostId (closeAgentEventClient t c) = ec_hostId c"
  "ec_token (closeAgentEventClient t c) = ec_token c"
  by (simp_all add: closeAgentEventClient_def Let_def)

lemma close_releases:
  "\<not> ec_closed c \<Longrightarrow> prefix (message_frames (ec_written c)) off \<Longrightarrow> client_ok off (closeAgentEventClient t c)"
  by (simp add: client_ok_def stream_ok_def closeAgentEventClient_def Let_def)

lemma close_ok: "client_ok off c \<Longrightarrow> client_ok off (closeAgentEventClient t c)"
proof (cases "ec_closed c")
  case False
  assume "client_ok off c"
  then have "prefix (message_frames (ec_written c)) off" using False by (simp add: client_ok_def stream_ok_def)
  then show ?thesis by (rule close_releases [OF False])
qed (simp add: close_idle)

text \<open>A frame taken from the head of what is still to be sent.\<close>

lemma writeFrameNow_ok:
  assumes c: "\<not> ec_closed c" "\<not> ec_backpressured c" "\<not> ec_drainTimer c" "\<not> ec_onDrain c"
    and off: "off = message_frames (ec_written c) @ message_frames [frame] @ ec_pendingFrames c"
    and b: "ec_pendingBytes c = sum_list (map byteLength (ec_pendingFrames c))" "ec_pendingBytes c \<le> AGENT_EVENT_MAX_PENDING_BYTES"
      "length (ec_pendingFrames c) \<le> AGENT_EVENT_MAX_PENDING_FRAMES"
    and w: "writeFrameNow out frame c = (ok, c')"
  shows "stream_ok off c'" "ok = (\<not> ec_closed c')" "ok \<Longrightarrow> ec_pendingFrames c' = ec_pendingFrames c"
proof -
  have cl: "stream_ok off (closeAgentEventClient t d)" if "ec_written d = ec_written c \<or> ec_written d = ec_written c @ [frame]" "\<not> ec_closed d" for t d
    using that close_releases [OF that(2)] by (auto simp: off client_ok_def)
  have "stream_ok off c' \<and> ok = (\<not> ec_closed c') \<and> (ok \<longrightarrow> ec_pendingFrames c' = ec_pendingFrames c)"
  proof (cases "ec_unavailable c")
    case True
    then show ?thesis using w cl [of c] c(1) by (auto simp: writeFrameNow_def)
  next
    case False
    define c1 where "c1 = c\<lparr>ec_writes := ec_writes c + 1\<rparr>"
    define c2 where "c2 = c1\<lparr>ec_written := ec_written c1 @ [frame], ec_backpressured := True\<rparr>"
    have f: "ec_written c1 = ec_written c" "\<not> ec_closed c1" "ec_written c2 = ec_written c @ [frame]" "\<not> ec_closed c2" using c by (simp_all add: c1_def c2_def)
    show ?thesis
    proof (cases "out (ec_writes c)")
      case WriteOk
      then have "ok" "c' = c1\<lparr>ec_written := ec_written c1 @ [frame]\<rparr>" using w c(1) False by (simp_all add: writeFrameNow_def c1_def)
      then show ?thesis using c b off by (simp add: stream_ok_def c1_def)
    next
      case WriteFull
      then have "(ok, c') = (if \<not> ec_once c2 then (False, closeAgentEventClient TerminateDestroy c2) else (True, armDrainTimeout (c2\<lparr>ec_onDrain := True\<rparr>)))"
        using w c(1) False by (cases "ec_once c") (simp_all add: writeFrameNow_def Let_def c1_def c2_def)
      then show ?thesis
        using cl [of c2] f c b off by (cases "ec_once c2") (simp_all add: armDrainTimeout_def stream_ok_def c1_def c2_def)
    next
      case WriteThrows
      then have "\<not> ok" "c' = closeAgentEventClient TerminateDestroy c1" using w c(1) False by (simp_all add: writeFrameNow_def c1_def)
      then show ?thesis using cl [of c1] f by simp
    qed
  qed
  then show "stream_ok off c'" "ok = (\<not> ec_closed c')" "ok \<Longrightarrow> ec_pendingFrames c' = ec_pendingFrames c" by simp_all
qed

lemma byteLength_nonneg [simp]: "0 \<le> byteLength s"
  by (induction s) (auto simp: byteLength_def)

lemma queue_bytes_nonneg [simp]: "0 \<le> sum_list (map byteLength fs)"
  by (induction fs) simp_all

lemma flush_frames_ok:
  assumes "stream_ok off c" "\<not> ec_closed c" "ec_pendingFrames c = fs" "\<forall>f \<in> set fs. \<not> is_comment f"
  shows "client_ok off (flush_frames out fs c)"
  using assms
proof (induction fs arbitrary: c)
  case Nil
  then show ?case by (simp add: client_ok_def)
next
  case (Cons f fs)
  show ?case
  proof (cases "ec_backpressured c")
    case True
    then show ?thesis using Cons.prems by (simp add: client_ok_def)
  next
    case False
    define d where "d = c\<lparr>ec_pendingFrames := fs, ec_pendingBytes := max 0 (ec_pendingBytes c - byteLength f)\<rparr>"
    obtain ok c' where w: "writeFrameNow out f d = (ok, c')" by (cases "writeFrameNow out f d") auto
    have "byteLength f + sum_list (map byteLength fs) \<le> AGENT_EVENT_MAX_PENDING_BYTES" using Cons.prems(1-3) by (simp add: stream_ok_def)
    then have le: "sum_list (map byteLength fs) \<le> AGENT_EVENT_MAX_PENDING_BYTES" using byteLength_nonneg [of f] by linarith
    note wf = writeFrameNow_ok [OF _ _ _ _ _ _ _ _ w, of off]
    have c': "stream_ok off c'" "ok = (\<not> ec_closed c')" "ok \<Longrightarrow> ec_pendingFrames c' = fs"
      using wf le Cons.prems False by (simp_all add: d_def stream_ok_def)
    have e: "flush_frames out (f # fs) c = (if ok then flush_frames out fs c' else c')"
      using Cons.prems(2) False w by (simp add: d_def)
    show ?thesis
    proof (cases ok)
      case True
      then show ?thesis using Cons.IH [OF c'(1)] c'(2,3) Cons.prems(4) unfolding e by simp
    next
      case f: False
      then have "ec_pendingFrames c' = []" using c' by (simp add: stream_ok_def)
      then show ?thesis using c'(1) f unfolding e by (simp add: client_ok_def)
    qed
  qed
qed

lemma writeAgentEventFrame_ok:
  assumes c: "client_ok off c" and q: "queue = (\<not> is_comment frame)"
  shows "client_ok (off @ message_frames [frame]) (snd (writeAgentEventFrame out frame queue c))"
proof (cases "ec_closed c \<or> ec_unavailable c")
  case True
  then have e: "snd (writeAgentEventFrame out frame queue c) = closeAgentEventClient TerminateNone c" by (auto simp: writeAgentEventFrame_def)
  show ?thesis
  proof (cases "ec_closed c")
    case True
    then show ?thesis using c unfolding e close_idle [OF True] by (simp add: client_ok_def stream_ok_def prefix_def) auto
  next
    case False
    then show ?thesis using c unfolding e by (intro close_releases) (simp_all add: client_ok_def stream_ok_def)
  qed
next
  case open_c: False
  have st: "off = message_frames (ec_written c) @ ec_pendingFrames c" using c open_c by (simp add: client_ok_def stream_ok_def)
  show ?thesis
  proof (cases "ec_backpressured c")
    case False
    then have p: "ec_pendingFrames c = []" using c by (auto simp: client_ok_def)
    obtain ok c' where w: "writeFrameNow out frame c = (ok, c')" by (cases "writeFrameNow out frame c") auto
    have "stream_ok (off @ message_frames [frame]) c'" "ok = (\<not> ec_closed c')" "ok \<Longrightarrow> ec_pendingFrames c' = []"
      using writeFrameNow_ok [OF _ _ _ _ _ _ _ _ w, of "off @ message_frames [frame]"] c open_c False p
      by (simp_all add: client_ok_def stream_ok_def)
    then have "client_ok (off @ message_frames [frame]) c'" by (cases ok) (simp_all add: client_ok_def stream_ok_def)
    then show ?thesis using open_c False w by (simp add: writeAgentEventFrame_def)
  next
    case bp: True
    show ?thesis
    proof (cases queue)
      case False
      then show ?thesis using c q bp open_c by (simp add: writeAgentEventFrame_def)
    next
      case True
      show ?thesis
      proof (cases "length (ec_pendingFrames c) \<ge> AGENT_EVENT_MAX_PENDING_FRAMES \<or> ec_pendingBytes c + byteLength frame > AGENT_EVENT_MAX_PENDING_BYTES")
        case full: True
        then have "snd (writeAgentEventFrame out frame queue c) = closeAgentEventClient TerminateDestroy c"
          using open_c bp True by (auto simp: writeAgentEventFrame_def Let_def)
        then show ?thesis using open_c st by (simp add: close_releases)
      next
        case False
        then have "snd (writeAgentEventFrame out frame queue c)
            = c\<lparr>ec_pendingFrames := ec_pendingFrames c @ [frame], ec_pendingBytes := ec_pendingBytes c + byteLength frame\<rparr>"
          using open_c bp True by (auto simp: writeAgentEventFrame_def Let_def)
        then show ?thesis using c open_c bp True q False by (simp add: client_ok_def stream_ok_def)
      qed
    qed
  qed
qed

lemma onDrain_ok:
  assumes "client_ok off c" "\<forall>f \<in> set (ec_pendingFrames c). \<not> is_comment f"
  shows "client_ok off (onDrain out c)"
proof (cases "ec_closed c")
  case True
  then show ?thesis using assms by (simp add: onDrain_def client_ok_def stream_ok_def)
next
  case False
  define d where "d = c\<lparr>ec_onDrain := False, ec_backpressured := False, ec_drainTimer := False\<rparr>"
  have "client_ok off (flush_frames out (ec_pendingFrames c) d)"
    by (rule flush_frames_ok) (use assms False in \<open>simp_all add: d_def client_ok_def stream_ok_def\<close>)
  then show ?thesis using False by (simp add: onDrain_def flushPendingFrames_def d_def)
qed

lemma drain_timeout_ok: "client_ok off c \<Longrightarrow> ec_drainTimer c \<Longrightarrow> client_ok off (drain_timeout c) \<and> ec_closed (drain_timeout c)"
  by (auto simp: drain_timeout_def Let_def client_ok_def stream_ok_def closeAgentEventClient_def split: if_splits)

section \<open>What the streams keep\<close>

definition streams_ok :: "(nat \<Rightarrow> string list) \<Rightarrow> event_streams \<Rightarrow> bool" where
  "streams_ok off s \<longleftrightarrow>
     (\<forall>i < length (es_clients s). client_ok (off i) (es_clients s ! i) \<and> (\<forall>f \<in> set (off i). \<not> is_comment f)
        \<and> (\<not> ec_closed (es_clients s ! i) \<longrightarrow> map_of (es_current s) (ec_hostId (es_clients s ! i)) = Some i))
   \<and> (\<forall>h i. map_of (es_current s) h = Some i \<longrightarrow> i < length (es_clients s) \<and> \<not> ec_closed (es_clients s ! i) \<and> ec_hostId (es_clients s ! i) = h)
   \<and> (\<forall>i \<ge> length (es_clients s). off i = [])"

lemma streams_okD:
  assumes "streams_ok off s"
  shows "i < length (es_clients s) \<Longrightarrow> client_ok (off i) (es_clients s ! i)"
    "i < length (es_clients s) \<Longrightarrow> f \<in> set (off i) \<Longrightarrow> \<not> is_comment f"
    "i < length (es_clients s) \<Longrightarrow> \<not> ec_closed (es_clients s ! i) \<Longrightarrow> map_of (es_current s) (ec_hostId (es_clients s ! i)) = Some i"
    "map_of (es_current s) h = Some i \<Longrightarrow> i < length (es_clients s) \<and> \<not> ec_closed (es_clients s ! i) \<and> ec_hostId (es_clients s ! i) = h"
    "length (es_clients s) \<le> i \<Longrightarrow> off i = []"
  using assms unfolding streams_ok_def by blast+

lemma streams_ok_cong:
  "es_clients s' = es_clients s \<Longrightarrow> es_current s' = es_current s \<Longrightarrow> streams_ok off s' = streams_ok off s"
  by (simp only: streams_ok_def)

lemma on_client_ok:
  assumes ok: "streams_ok off s" and i: "i < length (es_clients s)" and f: "f (es_clients s ! i) = (r, c')"
    and c': "client_ok (off i @ fs) c'" "\<forall>g \<in> set fs. \<not> is_comment g" "ec_hostId c' = ec_hostId (es_clients s ! i)"
      "ec_closed (es_clients s ! i) \<Longrightarrow> ec_closed c'"
    and off': "\<And>j. off' j = off j @ (if j = i then fs else [])"
  shows "streams_ok off' (snd (on_client i f s))"
proof -
  define c where "c = es_clients s ! i"
  define s' where "s' = snd (on_client i f s)"
  define gone where "gone \<longleftrightarrow> \<not> ec_closed c \<and> ec_closed c' \<and> map_of (es_current s) (ec_hostId c) = Some i"
  have cl: "es_clients s' = (es_clients s)[i := c']"
    and cur: "es_current s' = (if gone then alist_delete (ec_hostId c) (es_current s) else es_current s)"
    using f by (simp_all add: s'_def on_client_def Let_def c_def gone_def)
  have nth: "es_clients s' ! j = (if j = i then c' else es_clients s ! j)" for j using i by (simp add: cl nth_list_update)
  have len: "length (es_clients s') = length (es_clients s)" by (simp add: cl)
  have open_eq: "gone \<longleftrightarrow> \<not> ec_closed c \<and> ec_closed c'" using streams_okD(3) [OF ok i] by (auto simp: gone_def c_def)
  have m: "map_of (es_current s') h = (if gone \<and> h = ec_hostId c then None else map_of (es_current s) h)" for h
    by (simp add: cur alist_simps)
  have "streams_ok off' s'"
    unfolding streams_ok_def len
  proof (intro conjI allI impI)
    fix j
    assume j: "j < length (es_clients s)"
    show "client_ok (off' j) (es_clients s' ! j)" using c'(1) streams_okD(1) [OF ok j] by (simp add: nth off')
    show "\<forall>g \<in> set (off' j). \<not> is_comment g" using streams_okD(2) [OF ok j] c'(2) by (auto simp: off')
    assume op: "\<not> ec_closed (es_clients s' ! j)"
    show "map_of (es_current s') (ec_hostId (es_clients s' ! j)) = Some j"
    proof (cases "j = i")
      case True
      then have "\<not> gone" "\<not> ec_closed c" using op c'(4) by (auto simp: nth open_eq c_def)
      then show ?thesis using True streams_okD(3) [OF ok i] c'(3) by (simp add: m nth c_def)
    next
      case False
      then have "map_of (es_current s) (ec_hostId (es_clients s ! j)) = Some j" using op streams_okD(3) [OF ok j] by (simp add: nth)
      then show ?thesis using False by (auto simp: m nth gone_def)
    qed
  next
    fix h j
    assume "map_of (es_current s') h = Some j"
    then have hj: "map_of (es_current s) h = Some j" "\<not> (gone \<and> h = ec_hostId c)" by (auto simp: m split: if_splits)
    note d = streams_okD(4) [OF ok hj(1)]
    show "j < length (es_clients s)" using d by simp
    show "ec_hostId (es_clients s' ! j) = h" using d c'(3) by (auto simp: nth)
    show "\<not> ec_closed (es_clients s' ! j)" using d hj(2) by (auto simp: nth open_eq c_def)
  next
    fix j
    assume j: "length (es_clients s) \<le> j"
    then show "off' j = []" using streams_okD(5) [OF ok j] i by (simp add: off')
  qed
  then show ?thesis by (simp add: s'_def)
qed

lemma update_client_ok:
  assumes "streams_ok off s" "i < length (es_clients s)" "client_ok (off i) (f (es_clients s ! i))"
    "ec_hostId (f (es_clients s ! i)) = ec_hostId (es_clients s ! i)" "ec_closed (es_clients s ! i) \<Longrightarrow> ec_closed (f (es_clients s ! i))"
  shows "streams_ok off (update_client i f s)"
  unfolding update_client_def by (rule on_client_ok [OF assms(1,2), where fs = "[]" and c' = "f (es_clients s ! i)"]) (use assms in simp_all)

lemma write_frame_host [simp]: "ec_hostId (snd (writeFrameNow out frame c)) = ec_hostId c"
  by (simp add: writeFrameNow_def Let_def armDrainTimeout_def split: write_outcome.split)

lemma flush_frames_host [simp]: "ec_hostId (flush_frames out fs c) = ec_hostId c"
proof (induction out fs c rule: flush_frames.induct)
  case (2 out frame rest c)
  define d where "d = c\<lparr>ec_pendingFrames := rest, ec_pendingBytes := max 0 (ec_pendingBytes c - byteLength frame)\<rparr>"
  obtain ok c' where w: "writeFrameNow out frame d = (ok, c')" by (cases "writeFrameNow out frame d") auto
  then have "ec_hostId c' = ec_hostId c" using write_frame_host [of out frame d] by (simp add: d_def)
  then show ?case using 2 [folded d_def, OF _ w [symmetric] refl] w by (simp add: d_def [symmetric])
qed simp

lemma client_operations_frame [simp]:
  "ec_hostId (snd (writeAgentEventFrame out frame q c)) = ec_hostId c"
  "ec_closed c \<Longrightarrow> ec_closed (snd (writeAgentEventFrame out frame q c))"
  "ec_hostId (onDrain out c) = ec_hostId c" "ec_closed c \<Longrightarrow> ec_closed (onDrain out c)"
  "ec_hostId (drain_timeout c) = ec_hostId c" "ec_closed c \<Longrightarrow> ec_closed (drain_timeout c)"
  by (simp_all add: writeAgentEventFrame_def onDrain_def flushPendingFrames_def drain_timeout_def Let_def)

lemma write_on_client_ok:
  assumes ok: "streams_ok off s" and i: "i < length (es_clients s)" and q: "q = (\<not> is_comment frame)"
    and f: "f (es_clients s ! i) = writeAgentEventFrame out frame q (es_clients s ! i)"
    and off': "\<And>j. off' j = off j @ (if j = i then message_frames [frame] else [])"
  shows "streams_ok off' (snd (on_client i f s))"
proof (rule on_client_ok [OF ok i, where fs = "message_frames [frame]"])
  show "f (es_clients s ! i) = (fst (f (es_clients s ! i)), snd (f (es_clients s ! i)))" by simp
  show "client_ok (off i @ message_frames [frame]) (snd (f (es_clients s ! i)))"
    unfolding f by (rule writeAgentEventFrame_ok [OF streams_okD(1) [OF ok i] q])
qed (use off' in \<open>simp_all add: f\<close>)

lemma register_ok:
  assumes ok: "streams_ok off s"
  shows "streams_ok off (snd (registerAgentEventClient h token once hb s))"
proof -
  define s1 where "s1 = (case map_of (es_current s) h of None \<Rightarrow> s
    | Some p \<Rightarrow> update_client p (\<lambda>c. closeAgentEventClient (if ec_backpressured c then TerminateDestroy else TerminateEnd) c) s)"
  have "streams_ok off s1 \<and> map_of (es_current s1) h = None"
  proof (cases "map_of (es_current s) h")
    case None
    then show ?thesis using ok by (simp add: s1_def)
  next
    case (Some p)
    note p = streams_okD(4) [OF ok Some]
    have "streams_ok off s1" unfolding s1_def Some option.case
      by (rule update_client_ok [OF ok]) (use p close_ok [OF streams_okD(1) [OF ok]] in simp_all)
    moreover have "map_of (es_current s1) h = None" using Some p by (simp add: s1_def update_client_def on_client_def Let_def alist_simps)
    ultimately show ?thesis by simp
  qed
  then have ok1: "streams_ok off s1" and free: "map_of (es_current s1) h = None" by simp_all
  define n where "n = length (es_clients s1)"
  define s' where "s' = s1\<lparr>es_clients := es_clients s1 @ [new_client h token once hb], es_current := alist_set h n (es_current s1)\<rparr>"
  have len: "length (es_clients s') = Suc n" and m: "map_of (es_current s') = (map_of (es_current s1))(h \<mapsto> n)"
    by (simp_all add: s'_def n_def alist_simps)
  have nth: "es_clients s' ! j = (if j < n then es_clients s1 ! j else new_client h token once hb)" if "j < Suc n" for j
    using that by (auto simp: s'_def n_def nth_append less_Suc_eq)
  have "streams_ok off s'"
    unfolding streams_ok_def len
  proof (intro conjI allI impI)
    fix j
    assume j: "j < Suc n"
    have new: "client_ok [] (new_client h token once hb)" by (simp add: client_ok_def stream_ok_def new_client_def AGENT_EVENT_MAX_PENDING_BYTES_def)
    show "client_ok (off j) (es_clients s' ! j)" "\<forall>g \<in> set (off j). \<not> is_comment g"
      using streams_okD(1,2,5) [OF ok1, of j] new j by (auto simp: nth n_def less_Suc_eq)
    assume "\<not> ec_closed (es_clients s' ! j)"
    then show "map_of (es_current s') (ec_hostId (es_clients s' ! j)) = Some j"
      using streams_okD(3) [OF ok1, of j] free j by (cases "j < n") (auto simp: nth m n_def new_client_def)
  next
    fix g j
    assume g: "map_of (es_current s') g = Some j"
    have "j < n" if "g \<noteq> h" using g that streams_okD(4) [OF ok1, of g j] by (simp add: m n_def)
    then show j: "j < Suc n" using g by (cases "g = h") (auto simp: m)
    show "\<not> ec_closed (es_clients s' ! j)" "ec_hostId (es_clients s' ! j) = g"
      using g streams_okD(4) [OF ok1, of g j] by (cases "g = h"; simp add: nth [OF j] m new_client_def n_def)+
  next
    fix j
    assume "Suc n \<le> j"
    then show "off j = []" using streams_okD(5) [OF ok1, of j] by (simp add: n_def)
  qed
  then show ?thesis by (simp add: registerAgentEventClient_def Let_def s1_def [symmetric] s'_def n_def)
qed

lemma send_ok:
  assumes ok: "streams_ok off s"
    and off': "\<And>j. off' j = off j @ (if map_of (es_current s) h = Some j then [encryptedEventFrame enc m (ec_token (es_clients s ! j))] else [])"
  shows "streams_ok off' (snd (sendAgentEvent out enc h m s))"
proof (cases "map_of (es_current s) h")
  case None
  then have "off' = off" using off' by auto
  then show ?thesis using ok None by (simp add: sendAgentEvent_def)
next
  case (Some i)
  have e: "snd (sendAgentEvent out enc h m s)
      = snd (on_client i (\<lambda>c. writeAgentEventFrame (out i) (encryptedEventFrame enc m (ec_token c)) True c) s)" using Some by (simp add: sendAgentEvent_def)
  show ?thesis
    unfolding e
  proof (rule write_on_client_ok [OF ok, where frame = "encryptedEventFrame enc m (ec_token (es_clients s ! i))" and q = True])
    show "i < length (es_clients s)" using streams_okD(4) [OF ok Some] by simp
    show "off' j = off j @ (if j = i then message_frames [encryptedEventFrame enc m (ec_token (es_clients s ! i))] else [])" for j
      using off' [of j] Some by auto
  qed simp_all
qed

lemma stream_event_ok:
  assumes ok: "streams_ok off s" and ev: "stream_possible ev s"
  shows "streams_ok (\<lambda>i. off i @ stream_offers enc ev s i) (stream_apply out enc ev s)"
proof (cases ev)
  case (Connect h token once hb)
  then show ?thesis using register_ok [OF ok] by simp
next
  case (HandleEvent i m)
  then show ?thesis using ev
    by (auto intro!: write_on_client_ok [OF ok, where frame = "encryptedEventFrame enc m (ec_token (es_clients s ! i))" and q = True])
next
  case (HandleComment i t)
  then show ?thesis using ev by (auto intro!: write_on_client_ok [OF ok, where frame = "comment_frame t" and q = False])
next
  case (HeartbeatTick i)
  then show ?thesis using ev by (auto intro!: write_on_client_ok [OF ok, where frame = "comment_frame ''ping''" and q = False])
next
  case (HandleClose i)
  then show ?thesis using ev by (auto intro!: update_client_ok [OF ok] close_ok streams_okD(1) [OF ok])
next
  case (ResponseClosed i)
  then show ?thesis using ev by (auto intro!: update_client_ok [OF ok] close_ok streams_okD(1) [OF ok])
next
  case (ResponseFailed i)
  then show ?thesis using ev by (auto intro!: update_client_ok [OF ok] close_ok streams_okD(1) [OF ok])
next
  case (Disconnect h i)
  then show ?thesis using ok streams_okD(4) [OF ok]
    by (auto simp: unregisterAgentEventClient_def intro!: update_client_ok [OF ok] close_ok streams_okD(1) [OF ok])
next
  case (HandleListen i l)
  have "client_ok (off i) (client_onClose l (es_clients s ! i))" if "i < length (es_clients s)"
    using streams_okD(1) [OF ok that] by (auto simp: client_onClose_def client_ok_def stream_ok_def)
  then show ?thesis using HandleListen ev by (auto intro!: update_client_ok [OF ok] simp: client_onClose_def)
next
  case (HandleUnlisten i l)
  have "client_ok (off i) (client_offClose l (es_clients s ! i))" if "i < length (es_clients s)"
    using streams_okD(1) [OF ok that] by (auto simp: client_offClose_def client_ok_def stream_ok_def)
  then show ?thesis using HandleUnlisten ev by (auto intro!: update_client_ok [OF ok] simp: client_offClose_def)
next
  case (ResponseEnded i)
  have "client_ok (off i) ((es_clients s ! i)\<lparr>ec_unavailable := True\<rparr>)" if "i < length (es_clients s)"
    using streams_okD(1) [OF ok that] by (auto simp: client_ok_def stream_ok_def)
  then show ?thesis using ResponseEnded ev by (auto intro!: update_client_ok [OF ok])
next
  case (Drained i)
  then have i: "i < length (es_clients s)" using ev by simp
  have "\<forall>f \<in> set (ec_pendingFrames (es_clients s ! i)). \<not> is_comment f"
    using streams_okD(1,2) [OF ok i] by (auto simp: client_ok_def stream_ok_def split: if_splits)
  from onDrain_ok [OF streams_okD(1) [OF ok i] this] show ?thesis using Drained i by (auto intro!: update_client_ok [OF ok])
next
  case (DrainTimeout i)
  then show ?thesis using ev drain_timeout_ok streams_okD(1) [OF ok] by (auto intro!: update_client_ok [OF ok])
next
  case (Push h m)
  then show ?thesis using send_ok [OF ok, of _ h enc m out] by simp
next
  case (PushRefresh now h reason urgent force)
  define s1 where "s1 = s\<lparr>es_plans := invalidate (JNum (inum h)) (es_plans s)\<rparr>"
  have ok1: "streams_ok off s1" using streams_ok_cong [of s1 s] ok by (simp add: s1_def)
  show ?thesis
  proof (cases "\<not> urgent \<and> now - last_time (es_refreshPushedAt s) h < AGENT_REFRESH_COALESCE_MS")
    case True
    then show ?thesis using ok1 by (simp add: PushRefresh pushAgentRefresh_def Let_def s1_def)
  next
    case False
    define s2 where "s2 = s1\<lparr>es_refreshPushedAt := alist_set h now (es_refreshPushedAt s1)\<rparr>"
    have ok2: "streams_ok off s2" using streams_ok_cong [of s2 s1] ok1 by (simp add: s2_def)
    have e: "stream_apply out enc ev s = snd (sendAgentEvent out enc h (AgentRefresh reason now urgent force) s2)"
      using False by (auto simp: PushRefresh pushAgentRefresh_def Let_def s1_def s2_def)
    show ?thesis unfolding e by (rule send_ok [OF ok2]) (use False in \<open>auto simp: PushRefresh s2_def s1_def\<close>)
  qed
qed

text \<open>As a system of events, with the messages handed in beside the state.\<close>

definition offering_possible :: "stream_event \<Rightarrow> (nat \<Rightarrow> string list) \<times> event_streams \<Rightarrow> bool" where
  "offering_possible ev = (\<lambda>(off, s). stream_possible ev s)"

definition offering_apply ::
  "(nat \<Rightarrow> nat \<Rightarrow> write_outcome) \<Rightarrow> (string \<Rightarrow> agent_message \<Rightarrow> string \<Rightarrow> string) \<Rightarrow> stream_event
     \<Rightarrow> (nat \<Rightarrow> string list) \<times> event_streams \<Rightarrow> (nat \<Rightarrow> string list) \<times> event_streams" where
  "offering_apply out enc ev = (\<lambda>(off, s). (\<lambda>i. off i @ stream_offers enc ev s i, stream_apply out enc ev s))"

interpretation streams: event_system offering_possible "offering_apply out enc" "(\<lambda>i. [], no_streams)" "\<lambda>(off, s). stream_reach out enc off s"
proof unfold_locales
  fix s and P :: "(nat \<Rightarrow> string list) \<times> event_streams \<Rightarrow> bool"
  assume r: "case s of (off, s) \<Rightarrow> stream_reach out enc off s" and i: "P (\<lambda>i. [], no_streams)"
    and step: "\<And>s ev. P s \<Longrightarrow> offering_possible ev s \<Longrightarrow> P (offering_apply out enc ev s)"
  obtain off t where s: "s = (off, t)" by (cases s)
  then have "stream_reach out enc off t" using r by simp
  then have "P (off, t)"
  proof (induction rule: stream_reach.induct)
    case (stream_step off s ev)
    then show ?case using step [of "(off, s)" ev] by (simp add: offering_possible_def offering_apply_def)
  qed (rule i)
  then show "P s" by (simp add: s)
qed (auto simp: offering_possible_def offering_apply_def intro: stream_init stream_step)

lemma stream_reach_ok: "stream_reach out enc off s \<Longrightarrow> streams_ok off s"
proof (induction rule: stream_reach.induct)
  case stream_init
  then show ?case by (simp add: streams_ok_def no_streams_def)
next
  case (stream_step off s ev)
  then show ?case by (intro stream_event_ok)
qed

section \<open>Properties\<close>

text \<open>C15: the messages handed to an event stream arrive in order and without gaps. As long as the stream is open, what was
  handed in is what was written followed by the queue; after it has been closed the response has a prefix. Heartbeat
  comments never displace a message. The queue never holds more than sixteen frames or a mebibyte, and a closed stream
  keeps no frames, timers or listeners.\<close>

theorem stream_is_ordered_and_bounded:
  assumes "stream_reach out enc off s" "i < length (es_clients s)"
  defines "c \<equiv> es_clients s ! i"
  shows "prefix (message_frames (ec_written c)) (off i)
    \<and> (if ec_closed c then ec_pendingFrames c = [] \<and> \<not> ec_drainTimer c \<and> \<not> ec_heartbeatTimer c \<and> \<not> ec_onDrain c \<and> ec_closeListeners c = []
       else off i = message_frames (ec_written c) @ ec_pendingFrames c)
    \<and> length (ec_pendingFrames c) \<le> 16 \<and> sum_list (map byteLength (ec_pendingFrames c)) \<le> 1048576"
proof -
  have "stream_ok (off i) c" using streams_okD(1) [OF stream_reach_ok [OF assms(1)] assms(2)] by (simp add: client_ok_def c_def)
  then show ?thesis
    by (cases "ec_closed c") (simp_all add: stream_ok_def AGENT_EVENT_MAX_PENDING_FRAMES_def AGENT_EVENT_MAX_PENDING_BYTES_def)
qed

text \<open>A host has one open stream at most, and the map holds exactly the open ones.\<close>

lemma current_stream_iff:
  assumes "stream_reach out enc off s"
  shows "map_of (es_current s) h = Some i \<longleftrightarrow> i < length (es_clients s) \<and> \<not> ec_closed (es_clients s ! i) \<and> ec_hostId (es_clients s ! i) = h"
  using streams_okD(3,4) [OF stream_reach_ok [OF assms]] by blast

lemma flush_all_accepted:
  assumes "\<And>k. ec_writes c \<le> k \<Longrightarrow> k < ec_writes c + length fs \<Longrightarrow> out k = WriteOk"
    and "\<not> ec_closed c" "\<not> ec_unavailable c" "\<not> ec_backpressured c" "ec_pendingFrames c = fs"
  shows "ec_pendingFrames (flush_frames out fs c) = [] \<and> ec_written (flush_frames out fs c) = ec_written c @ fs
    \<and> \<not> ec_closed (flush_frames out fs c)"
  using assms
proof (induction fs arbitrary: c)
  case (Cons f fs)
  define d where "d = c\<lparr>ec_pendingFrames := fs, ec_pendingBytes := max 0 (ec_pendingBytes c - byteLength f)\<rparr>"
  define e where "e = d\<lparr>ec_writes := ec_writes d + 1, ec_written := ec_written d @ [f]\<rparr>"
  have "out (ec_writes c) = WriteOk" using Cons.prems(1) by simp
  then have "writeFrameNow out f d = (True, e)" using Cons.prems(2-) by (simp add: writeFrameNow_def Let_def d_def e_def)
  then have "flush_frames out (f # fs) c = flush_frames out fs e" using Cons.prems(2-) by (simp add: d_def [symmetric])
  moreover have "ec_written e = ec_written c @ [f]" "ec_writes e = ec_writes c + 1" "\<not> ec_closed e" "\<not> ec_unavailable e"
    "\<not> ec_backpressured e" "ec_pendingFrames e = fs"
    using Cons.prems(2-) by (simp_all add: e_def d_def)
  ultimately show ?case using Cons.IH [of e] Cons.prems(1) by (simp del: flush_frames.simps)
qed simp

lemma writeFrameNow_pending:
  "writeFrameNow out f c = (ok, c') \<Longrightarrow> length (ec_pendingFrames c') \<le> length (ec_pendingFrames c)"
  by (auto simp: writeFrameNow_def closeAgentEventClient_def armDrainTimeout_def Let_def
      split: if_splits write_outcome.splits)

lemma flush_frames_pending: "length (ec_pendingFrames (flush_frames out fs c)) \<le> max (length fs) (length (ec_pendingFrames c))"
proof (induction out fs c rule: flush_frames.induct)
  case (2 out f fs c)
  define d where "d = c\<lparr>ec_pendingFrames := fs, ec_pendingBytes := max 0 (ec_pendingBytes c - byteLength f)\<rparr>"
  obtain ok e where w: "writeFrameNow out f d = (ok, e)" by (cases "writeFrameNow out f d")
  have "length (ec_pendingFrames e) \<le> length fs" using writeFrameNow_pending [OF w] by (simp add: d_def)
  moreover have "length (ec_pendingFrames (flush_frames out fs e)) \<le> max (length fs) (length (ec_pendingFrames e))"
    if "\<not> (ec_closed c \<or> ec_backpressured c)" ok
    by (rule 2 [OF that(1) _ _ that(2)]) (use w in \<open>simp_all add: d_def\<close>)
  ultimately show ?case using w by (auto simp: d_def [symmetric])
qed simp

lemma flush_progress:
  assumes "\<not> ec_closed c" "\<not> ec_backpressured c" "fs \<noteq> []"
  shows "length (ec_pendingFrames (flush_frames out fs c)) < length fs"
proof (cases fs)
  case (Cons f rest)
  define d where "d = c\<lparr>ec_pendingFrames := rest, ec_pendingBytes := max 0 (ec_pendingBytes c - byteLength f)\<rparr>"
  obtain ok e where w: "writeFrameNow out f d = (ok, e)" by (cases "writeFrameNow out f d")
  have "length (ec_pendingFrames e) \<le> length rest" using writeFrameNow_pending [OF w] by (simp add: d_def)
  then show ?thesis using assms w flush_frames_pending [of out rest e] by (simp add: Cons d_def [symmetric])
qed (use assms in simp)

lemma onDrain_flushes:
  assumes "\<not> ec_closed c"
  shows "onDrain out c = flush_frames out (ec_pendingFrames c) (c\<lparr>ec_onDrain := False, ec_backpressured := False, ec_drainTimer := False\<rparr>)"
  using assms by (simp add: onDrain_def flushPendingFrames_def Let_def)

text \<open>C16: queued messages are not stuck. A stream with a queue waits for the drain event of its response and has its timer
  running. When the timer fires first, the stream is closed, so the agent reconnects. When the response drains, whatever
  its next writes do, the queue becomes shorter (or the stream is closed) and nothing that was handed in is lost: it has
  been written or is still queued; and when the response takes the next writes, as many as there are queued frames,
  the queue is empty, the stream stays open and everything that was handed in has been written. The outcomes of the
  writes after the drain (\<open>out'\<close>) do not depend on those before it (\<open>out\<close>), which made the queue.\<close>

theorem backlog_drains_or_stream_closes:
  fixes out' :: "nat \<Rightarrow> nat \<Rightarrow> write_outcome"
  assumes reach: "stream_reach out enc off s" and i: "i < length (es_clients s)" and p: "ec_pendingFrames (es_clients s ! i) \<noteq> []"
  defines "c \<equiv> es_clients s ! i" and "c' \<equiv> es_clients (stream_apply out' enc (Drained i) s) ! i"
  shows "stream_possible (DrainTimeout i) s \<and> ec_closed (es_clients (stream_apply out enc (DrainTimeout i) s) ! i)
    \<and> stream_possible (Drained i) s
    \<and> length (ec_pendingFrames c') < length (ec_pendingFrames c)
    \<and> (ec_closed c' \<or> message_frames (ec_written c') @ ec_pendingFrames c' = off i)
    \<and> ((\<forall>k. ec_writes c \<le> k \<and> k < ec_writes c + length (ec_pendingFrames c) \<longrightarrow> out' i k = WriteOk) \<and> \<not> ec_unavailable c \<longrightarrow>
        \<not> ec_closed c' \<and> ec_pendingFrames c' = [] \<and> message_frames (ec_written c') = off i)"
proof -
  note ok = stream_reach_ok [OF reach]
  have c: "client_ok (off i) c" using streams_okD(1) [OF ok i] by (simp add: c_def)
  then have st: "ec_drainTimer c" "ec_onDrain c" "\<not> ec_closed c" "off i = message_frames (ec_written c) @ ec_pendingFrames c"
    using p by (auto simp: client_ok_def stream_ok_def c_def split: if_splits)
  have upd: "es_clients (update_client i f s) ! i = f c" for f using i by (simp add: update_client_def on_client_def Let_def c_def)
  define d where "d = c\<lparr>ec_onDrain := False, ec_backpressured := False, ec_drainTimer := False\<rparr>"
  have c': "c' = flush_frames (out' i) (ec_pendingFrames c) d" using onDrain_flushes [OF st(3), of "out' i"] upd by (simp add: c'_def d_def)
  have short: "length (ec_pendingFrames c') < length (ec_pendingFrames c)"
    unfolding c' by (rule flush_progress) (use p st(3) in \<open>simp_all add: d_def c_def\<close>)
  have "\<forall>f \<in> set (ec_pendingFrames c). \<not> is_comment f" using streams_okD(2) [OF ok i] st(4) by simp
  then have "client_ok (off i) c'" using onDrain_ok [OF c, of "out' i"] c' onDrain_flushes [OF st(3), of "out' i"] by (simp add: d_def)
  then have kept: "ec_closed c' \<or> message_frames (ec_written c') @ ec_pendingFrames c' = off i"
    by (auto simp: client_ok_def stream_ok_def split: if_splits)
  have all: "\<not> ec_closed c' \<and> ec_pendingFrames c' = [] \<and> message_frames (ec_written c') = off i"
    if w: "\<forall>k. ec_writes c \<le> k \<and> k < ec_writes c + length (ec_pendingFrames c) \<longrightarrow> out' i k = WriteOk" and u: "\<not> ec_unavailable c"
  proof -
    have "ec_pendingFrames c' = [] \<and> \<not> ec_closed c'"
      unfolding c' using flush_all_accepted [of d "ec_pendingFrames c" "out' i"] w u st(3) by (simp add: d_def)
    then show ?thesis using kept by simp
  qed
  show ?thesis using drain_timeout_ok [OF c st(1)] st i upd short kept all unfolding c_def by simp
qed

text \<open>C40: a refresh that could not be delivered hides the next one. Pushing a refresh to a host without a stream fails, but it is
  remembered as pushed: when the agent connects and another refresh follows within the coalescing window, that one is
  reported as pushed and nothing is sent.\<close>

theorem failed_refresh_hides_next:
  assumes none: "map_of (es_current s) h = None" "now - last_time (es_refreshPushedAt s) h \<ge> AGENT_REFRESH_COALESCE_MS"
    and s1: "pushAgentRefresh out enc now h reason False force s = (pushed, s1)"
    and s2: "registerAgentEventClient h token once hb s1 = (i, s2)"
    and s3: "pushAgentRefresh out enc now' h reason' False force' s2 = (pushed', s3)" and t: "now' - now < AGENT_REFRESH_COALESCE_MS"
  shows "\<not> pushed \<and> map_of (es_current s2) h = Some i \<and> pushed' \<and> es_clients s3 = es_clients s2"
proof -
  have 1: "\<not> pushed" "map_of (es_refreshPushedAt s1) h = Some now" "es_current s1 = es_current s"
    using s1 none by (auto simp: pushAgentRefresh_def Let_def sendAgentEvent_def alist_simps)
  have 2: "map_of (es_current s2) h = Some i" "es_refreshPushedAt s2 = es_refreshPushedAt s1"
    using s2 none(1) 1(3) by (auto simp: registerAgentEventClient_def Let_def alist_simps)
  then show ?thesis using 1 s3 t by (auto simp: pushAgentRefresh_def Let_def last_time_def)
qed

section \<open>Concrete runs\<close>

text \<open>The second write fills the socket; the next message is queued, and a heartbeat comment is dropped.\<close>

definition example_out :: "nat \<Rightarrow> nat \<Rightarrow> write_outcome" where
  "example_out i n = (if n = 1 then WriteFull else WriteOk)"

definition example_enc :: "string \<Rightarrow> agent_message \<Rightarrow> string \<Rightarrow> string" where
  "example_enc kind message token = kind"

definition example_run :: "((nat \<Rightarrow> string list) \<times> event_streams) option" where
  "example_run = guarded_run offering_possible (offering_apply example_out example_enc)
     [Connect 4 ''t'' True 25000, Push 4 (AgentDesiredState ''a''), Push 4 (AgentSupportBundle ''b'' ''n''), HeartbeatTick 0,
      Push 4 (AgentPanelMigration ''c'')] (\<lambda>i. [], no_streams)"

definition example_offered :: "nat \<Rightarrow> string list" where
  "example_offered = fst (the example_run)"

definition example_streams :: event_streams where
  "example_streams = snd (the example_run)"

lemma example_streams_reach: "stream_reach example_out example_enc example_offered example_streams"
proof -
  have "\<not> Option.is_none example_run" by code_simp
  then have "example_run \<noteq> None" by (simp add: Option.is_none_def)
  then have "example_run = Some (example_offered, example_streams)" by (auto simp: example_offered_def example_streams_def)
  from streams.run_init [OF this [unfolded example_run_def]] show ?thesis by simp
qed

lemma example_streams_state:
  "length (es_clients example_streams) = 1" "length (ec_pendingFrames (es_clients example_streams ! 0)) = 1"
  "length (ec_written (es_clients example_streams ! 0)) = 2" "\<not> ec_closed (es_clients example_streams ! 0)"
  by code_simp+

theorem stream_is_ordered_and_bounded_witness:
  "length (ec_pendingFrames (es_clients example_streams ! 0)) = 1
   \<and> example_offered 0 = message_frames (ec_written (es_clients example_streams ! 0)) @ ec_pendingFrames (es_clients example_streams ! 0)"
  using stream_is_ordered_and_bounded [OF example_streams_reach, of 0] example_streams_state by simp

theorem backlog_drains_or_stream_closes_witness:
  "stream_possible (DrainTimeout 0) example_streams \<and> stream_possible (Drained 0) example_streams
   \<and> ec_closed (es_clients (stream_apply example_out example_enc (DrainTimeout 0) example_streams) ! 0)
   \<and> length (ec_pendingFrames (es_clients example_streams ! 0)) = 1 \<and> length (example_offered 0) = 3
   \<and> message_frames (ec_written (es_clients (stream_apply example_out example_enc (Drained 0) example_streams) ! 0)) = example_offered 0"
proof -
  have p: "ec_pendingFrames (es_clients example_streams ! 0) \<noteq> []" using example_streams_state(2) by auto
  have "length (example_offered 0) = 3" by code_simp
  moreover have "ec_writes (es_clients example_streams ! 0) = 2" by code_simp
  moreover have "\<not> ec_unavailable (es_clients example_streams ! 0)" by code_simp
  ultimately show ?thesis
    using backlog_drains_or_stream_closes [OF example_streams_reach _ p, where out' = example_out] example_streams_state(1,2)
    by (simp add: example_out_def)
qed

text \<open>A refresh at 10 s without a stream, the agent connects, a refresh at 11 s.\<close>

definition example_refused :: "bool \<times> event_streams" where
  "example_refused = pushAgentRefresh example_out example_enc 10000 4 ''a'' False False no_streams"

definition example_connected :: "nat \<times> event_streams" where
  "example_connected = registerAgentEventClient 4 ''t'' True 25000 (snd example_refused)"

theorem failed_refresh_hides_next_witness:
  "\<not> fst example_refused \<and> map_of (es_current (snd example_connected)) 4 = Some (fst example_connected)
   \<and> fst (pushAgentRefresh example_out example_enc 11000 4 ''b'' False False (snd example_connected))
   \<and> es_clients (snd (pushAgentRefresh example_out example_enc 11000 4 ''b'' False False (snd example_connected))) = es_clients (snd example_connected)"
proof -
  have n: "map_of (es_current no_streams) 4 = None" "10000 - last_time (es_refreshPushedAt no_streams) 4 \<ge> AGENT_REFRESH_COALESCE_MS"
    "11000 - 10000 < AGENT_REFRESH_COALESCE_MS"
    by (simp_all add: no_streams_def last_time_def AGENT_REFRESH_COALESCE_MS_def)
  have "pushAgentRefresh example_out example_enc 10000 4 ''a'' False False no_streams = (fst example_refused, snd example_refused)"
    "registerAgentEventClient 4 ''t'' True 25000 (snd example_refused) = (fst example_connected, snd example_connected)"
    by (simp_all add: example_refused_def example_connected_def)
  from failed_refresh_hides_next [OF n(1,2) this prod.collapse [symmetric] n(3)] show ?thesis by simp
qed

end
