(* ===== verification/AgentTasks.thy ===== *)
theory AgentTasks
  imports EventSystems
begin

text \<open>
  Tasks an agent pulls and reports back, kept in the memory of the panel: network tests (server/lookingGlassAgentTasks.ts)
  and the iperf3 server of a host (server/iperf3AgentTasks.ts). Timers are part of the state and fire as events; the clock
  and the random identifier of a task are arguments. The texts shown to the user are constants by name. Time stamps of the
  panel are milliseconds, those an agent sends are texts.
\<close>

section \<open>Network tests\<close>

datatype lg_status = LgQueued | LgRunning | LgSuccess | LgError | LgTimeout

datatype notice = CreatedNotice | PulledNotice | TimeoutNotice | StartNotice | StopNotice | StartingNotice | StoppingNotice

datatype text_part = Notice notice | Given string

datatype stamp = Iso int | StampText string

record lg_task =
  lt_taskId :: string
  lt_method :: string
  lt_target :: string
  lt_resolvedAddress :: string
  lt_resolvedAddresses :: "string list"
  lt_family :: int
  lt_port :: "int option"
  lt_createdAt :: int

record lg_state =
  ls_hostId :: int
  ls_task :: lg_task
  ls_status :: lg_status
  ls_output :: "text_part list"
  ls_exitCode :: "int option"
  ls_timedOut :: bool
  ls_durationMs :: int
  ls_startedAt :: stamp
  ls_finishedAt :: stamp
  ls_updatedAt :: int
  ls_error :: "text_part option"

text \<open>What an agent reports; a field that it leaves out is \<open>None\<close>.\<close>

record lg_result =
  lr_taskId :: string
  lr_output :: "string option"
  lr_exitCode :: "int option"
  lr_timedOut :: bool
  lr_durationMs :: "int option"
  lr_startedAt :: "string option"
  lr_finishedAt :: "string option"
  lr_error :: "string option"

record looking_glass =
  lg_queues :: "(int \<times> lg_task list) list"
  lg_states :: "(string \<times> lg_state) list"
  lg_timers :: "string list"
  lg_removals :: "(string \<times> int option) list"

definition new_looking_glass :: looking_glass where
  "new_looking_glass = \<lparr>lg_queues = [], lg_states = [], lg_timers = [], lg_removals = []\<rparr>"

definition TERMINAL_STATES :: "lg_status list" where
  "TERMINAL_STATES = [LgSuccess, LgError, LgTimeout]"

definition TERMINAL_STATE_RETENTION_MS :: int where
  "TERMINAL_STATE_RETENTION_MS = 15 * 60 * 1000"

definition terminal :: "lg_state \<Rightarrow> bool" where
  "terminal st \<longleftrightarrow> ls_status st \<in> set TERMINAL_STATES"

definition host_queue :: "int \<Rightarrow> (int \<times> 'a list) list \<Rightarrow> 'a list" where
  "host_queue h queues = (case map_of queues h of None \<Rightarrow> [] | Some q \<Rightarrow> q)"

definition store_queue :: "int \<Rightarrow> 'a list \<Rightarrow> (int \<times> 'a list) list \<Rightarrow> (int \<times> 'a list) list" where
  "store_queue h q queues = (if q \<noteq> [] then alist_set h q queues else alist_delete h queues)"

text \<open>\<open>queue.slice(-n)\<close>\<close>

definition last_n :: "nat \<Rightarrow> 'a list \<Rightarrow> 'a list" where
  "last_n n xs = drop (length xs - n) xs"

definition scheduleTerminalStateRemoval :: "string \<Rightarrow> looking_glass \<Rightarrow> looking_glass" where
  "scheduleTerminalStateRemoval taskId s =
     s\<lparr>lg_removals := lg_removals s @ [(taskId, map_option ls_updatedAt (map_of (lg_states s) taskId))]\<rparr>"

definition removal_fired :: "string \<times> int option \<Rightarrow> looking_glass \<Rightarrow> looking_glass" where
  "removal_fired entry s0 =
     (let s = s0\<lparr>lg_removals := remove1 entry (lg_removals s0)\<rparr> in
      case map_of (lg_states s) (fst entry) of None \<Rightarrow> s
      | Some st \<Rightarrow> if \<not> terminal st \<or> Some (ls_updatedAt st) \<noteq> snd entry then s
                   else s\<lparr>lg_states := alist_delete (fst entry) (lg_states s)\<rparr>)"

definition lg_markTimeout :: "int \<Rightarrow> string \<Rightarrow> looking_glass \<Rightarrow> looking_glass" where
  "lg_markTimeout now taskId s0 =
     (let s = s0\<lparr>lg_timers := removeAll taskId (lg_timers s0)\<rparr> in
      case map_of (lg_states s) taskId of None \<Rightarrow> s
      | Some st \<Rightarrow>
          if terminal st then s
          else let st1 = st\<lparr>ls_status := LgTimeout, ls_timedOut := True, ls_exitCode := Some 1, ls_finishedAt := Iso now,
                      ls_updatedAt := now, ls_error := Some (Notice TimeoutNotice), ls_output := ls_output st @ [Notice TimeoutNotice]\<rparr>;
                   s1 = s\<lparr>lg_states := alist_set taskId st1 (lg_states s)\<rparr>;
                   s2 = (case map_of (lg_queues s1) (ls_hostId st1) of None \<Rightarrow> s1
                         | Some q \<Rightarrow> s1\<lparr>lg_queues := store_queue (ls_hostId st1) (filter (\<lambda>task. lt_taskId task \<noteq> taskId) q) (lg_queues s1)\<rparr>)
               in scheduleTerminalStateRemoval taskId s2)"

definition pruneLookingGlassAgentTaskStates :: "int \<Rightarrow> looking_glass \<Rightarrow> looking_glass" where
  "pruneLookingGlassAgentTaskStates now s =
     s\<lparr>lg_states := filter (\<lambda>e. \<not> (terminal (snd e) \<and> \<not> now - ls_updatedAt (snd e) < TERMINAL_STATE_RETENTION_MS)) (lg_states s)\<rparr>"

definition hasActiveLookingGlassTask :: "int \<Rightarrow> looking_glass \<Rightarrow> bool" where
  "hasActiveLookingGlassTask hostId s = list_ex (\<lambda>e. ls_hostId (snd e) = hostId \<and> \<not> terminal (snd e)) (lg_states s)"

text \<open>\<open>input\<close> gives all of a task but its identifier and its time; the answer is nothing when the call throws.\<close>

definition enqueueLookingGlassAgentTask :: "int \<Rightarrow> string \<Rightarrow> int \<Rightarrow> lg_task \<Rightarrow> looking_glass \<Rightarrow> (lg_task \<times> looking_glass) option" where
  "enqueueLookingGlassAgentTask now uuid hostId input s =
     (if hasActiveLookingGlassTask hostId s then None
      else let task = input\<lparr>lt_taskId := uuid, lt_createdAt := now\<rparr>;
               queue = host_queue hostId (lg_queues s) @ [task];
               st = \<lparr>ls_hostId = hostId, ls_task = task, ls_status = LgQueued, ls_output = [Notice CreatedNotice], ls_exitCode = None,
                     ls_timedOut = False, ls_durationMs = 0, ls_startedAt = Iso now, ls_finishedAt = StampText [], ls_updatedAt = now,
                     ls_error = None\<rparr>
           in Some (task, s\<lparr>lg_queues := alist_set hostId (last_n 20 queue) (lg_queues s), lg_timers := lg_timers s @ [uuid],
                            lg_states := alist_set uuid st (lg_states s)\<rparr>))"

definition mark_running :: "int \<Rightarrow> lg_task \<Rightarrow> (string \<times> lg_state) list \<Rightarrow> (string \<times> lg_state) list" where
  "mark_running now task states =
     (case map_of states (lt_taskId task) of None \<Rightarrow> states
      | Some st \<Rightarrow> if terminal st then states
          else alist_set (lt_taskId task)
                 (st\<lparr>ls_status := LgRunning, ls_startedAt := Iso now, ls_updatedAt := now, ls_output := [Notice PulledNotice]\<rparr>) states)"

definition takeLookingGlassAgentTasks :: "int \<Rightarrow> int \<Rightarrow> nat \<Rightarrow> looking_glass \<Rightarrow> lg_task list \<times> looking_glass" where
  "takeLookingGlassAgentTasks now hostId limit s =
     (let queue = host_queue hostId (lg_queues s); tasks = take limit queue in
      (tasks, s\<lparr>lg_queues := store_queue hostId (drop limit queue) (lg_queues s),
                lg_states := fold (mark_running now) tasks (lg_states s)\<rparr>))"

definition hasQueuedLookingGlassAgentTasks :: "int \<Rightarrow> looking_glass \<Rightarrow> bool" where
  "hasQueuedLookingGlassAgentTasks hostId s = (0 < length (host_queue hostId (lg_queues s)))"

definition text_of :: "string \<Rightarrow> text_part list" where
  "text_of t = (if t = [] then [] else [Given t])"

definition stamp_or :: "string option \<Rightarrow> stamp \<Rightarrow> stamp" where
  "stamp_or given fallback = (case given of Some t \<Rightarrow> if t = [] then fallback else StampText t | None \<Rightarrow> fallback)"

definition updateLookingGlassAgentTaskProgress :: "int \<Rightarrow> int \<Rightarrow> lg_result \<Rightarrow> looking_glass \<Rightarrow> bool \<times> looking_glass" where
  "updateLookingGlassAgentTaskProgress now hostId r s =
     (case map_of (lg_states s) (lr_taskId r) of None \<Rightarrow> (False, s)
      | Some st \<Rightarrow>
          if ls_hostId st \<noteq> hostId \<or> terminal st then (False, s)
          else (True, s\<lparr>lg_states := alist_set (lr_taskId r)
            (st\<lparr>ls_status := LgRunning, ls_output := (case lr_output r of Some t \<Rightarrow> text_of t | None \<Rightarrow> ls_output st),
               ls_durationMs := (case lr_durationMs r of Some d \<Rightarrow> d | None \<Rightarrow> ls_durationMs st),
               ls_startedAt := stamp_or (lr_startedAt r) (ls_startedAt st), ls_updatedAt := now,
               ls_error := (case lr_error r of Some e \<Rightarrow> if e = [] then ls_error st else Some (Given e) | None \<Rightarrow> ls_error st)\<rparr>) (lg_states s)\<rparr>))"

definition completeLookingGlassAgentTask :: "int \<Rightarrow> int \<Rightarrow> lg_result \<Rightarrow> looking_glass \<Rightarrow> bool \<times> looking_glass" where
  "completeLookingGlassAgentTask now hostId r s =
     (case map_of (lg_states s) (lr_taskId r) of None \<Rightarrow> (False, s)
      | Some st \<Rightarrow>
          if ls_hostId st \<noteq> hostId then (False, s)
          else let st1 = st\<lparr>ls_status := (if lr_timedOut r then LgTimeout else if lr_exitCode r = Some 0 then LgSuccess else LgError),
                     ls_output := (case lr_output r of Some t \<Rightarrow> text_of t | None \<Rightarrow> []), ls_exitCode := lr_exitCode r,
                     ls_timedOut := lr_timedOut r, ls_durationMs := (case lr_durationMs r of Some d \<Rightarrow> d | None \<Rightarrow> 0),
                     ls_startedAt := stamp_or (lr_startedAt r) (ls_startedAt st), ls_finishedAt := stamp_or (lr_finishedAt r) (Iso now),
                     ls_updatedAt := now, ls_error := map_option Given (lr_error r)\<rparr>
               in (True, scheduleTerminalStateRemoval (lr_taskId r)
                    (s\<lparr>lg_timers := removeAll (lr_taskId r) (lg_timers s), lg_states := alist_set (lr_taskId r) st1 (lg_states s)\<rparr>)))"

definition getLookingGlassAgentTaskStatus :: "int \<Rightarrow> string \<Rightarrow> looking_glass \<Rightarrow> lg_state option" where
  "getLookingGlassAgentTaskStatus hostId taskId s =
     (case map_of (lg_states s) taskId of None \<Rightarrow> None | Some st \<Rightarrow> if ls_hostId st \<noteq> hostId then None else Some st)"

datatype lg_event =
    LgEnqueue int string int lg_task
  | LgTake int int nat
  | LgProgress int int lg_result
  | LgComplete int int lg_result
  | LgTimer int string
  | LgRemoval "string \<times> int option"
  | LgPrune int

text \<open>A random identifier is new.\<close>

fun lg_possible :: "lg_event \<Rightarrow> looking_glass \<Rightarrow> bool" where
  "lg_possible (LgEnqueue now uuid h input) s = (uuid \<notin> fst ` set (lg_states s) \<and> uuid \<notin> set (lg_timers s))"
| "lg_possible (LgTimer now taskId) s = (taskId \<in> set (lg_timers s))"
| "lg_possible (LgRemoval e) s = (e \<in> set (lg_removals s))"
| "lg_possible _ s = True"

fun lg_apply :: "lg_event \<Rightarrow> looking_glass \<Rightarrow> looking_glass" where
  "lg_apply (LgEnqueue now uuid h input) s = (case enqueueLookingGlassAgentTask now uuid h input s of None \<Rightarrow> s | Some (_, s') \<Rightarrow> s')"
| "lg_apply (LgTake now h limit) s = snd (takeLookingGlassAgentTasks now h limit s)"
| "lg_apply (LgProgress now h r) s = snd (updateLookingGlassAgentTaskProgress now h r s)"
| "lg_apply (LgComplete now h r) s = snd (completeLookingGlassAgentTask now h r s)"
| "lg_apply (LgTimer now taskId) s = lg_markTimeout now taskId s"
| "lg_apply (LgRemoval e) s = removal_fired e s"
| "lg_apply (LgPrune now) s = pruneLookingGlassAgentTaskStates now s"

inductive lg_reach :: "looking_glass \<Rightarrow> bool" where
  lg_init: "lg_reach new_looking_glass"
| lg_step: "lg_reach s \<Longrightarrow> lg_possible ev s \<Longrightarrow> lg_reach (lg_apply ev s)"

definition task_ids :: "lg_task list \<Rightarrow> string set" where
  "task_ids ts = lt_taskId ` set ts"

text \<open>Every test that is not over has its timer, a host has one of them at most, and one that waits is in the queue of its
  host.\<close>

definition lg_ok :: "looking_glass \<Rightarrow> bool" where
  "lg_ok s \<longleftrightarrow> keys_distinct (lg_states s)
   \<and> (\<forall>k st. map_of (lg_states s) k = Some st \<longrightarrow> (\<not> terminal st \<longleftrightarrow> k \<in> set (lg_timers s))
        \<and> (ls_status st = LgQueued \<longrightarrow> k \<in> task_ids (host_queue (ls_hostId st) (lg_queues s))))
   \<and> (\<forall>k \<in> set (lg_timers s). map_of (lg_states s) k \<noteq> None)
   \<and> (\<forall>k l st st'. map_of (lg_states s) k = Some st \<longrightarrow> map_of (lg_states s) l = Some st' \<longrightarrow> \<not> terminal st \<longrightarrow> \<not> terminal st'
        \<longrightarrow> ls_hostId st = ls_hostId st' \<longrightarrow> k = l)"

lemma lg_okD:
  assumes "lg_ok s"
  shows "keys_distinct (lg_states s)"
    "map_of (lg_states s) k = Some st \<Longrightarrow> (\<not> terminal st \<longleftrightarrow> k \<in> set (lg_timers s))"
    "map_of (lg_states s) k = Some st \<Longrightarrow> ls_status st = LgQueued \<Longrightarrow> k \<in> task_ids (host_queue (ls_hostId st) (lg_queues s))"
    "k \<in> set (lg_timers s) \<Longrightarrow> \<exists>st. map_of (lg_states s) k = Some st"
    "map_of (lg_states s) k = Some st \<Longrightarrow> map_of (lg_states s) l = Some st' \<Longrightarrow> \<not> terminal st \<Longrightarrow> \<not> terminal st' \<Longrightarrow>
       ls_hostId st = ls_hostId st' \<Longrightarrow> k = l"
  using assms unfolding lg_ok_def by blast+

lemma lg_okI:
  assumes "keys_distinct (lg_states s)"
    "\<And>k st. map_of (lg_states s) k = Some st \<Longrightarrow> (\<not> terminal st \<longleftrightarrow> k \<in> set (lg_timers s))"
    "\<And>k st. map_of (lg_states s) k = Some st \<Longrightarrow> ls_status st = LgQueued \<Longrightarrow> k \<in> task_ids (host_queue (ls_hostId st) (lg_queues s))"
    "\<And>k. k \<in> set (lg_timers s) \<Longrightarrow> map_of (lg_states s) k \<noteq> None"
    "\<And>k l st st'. map_of (lg_states s) k = Some st \<Longrightarrow> map_of (lg_states s) l = Some st' \<Longrightarrow> \<not> terminal st \<Longrightarrow> \<not> terminal st' \<Longrightarrow>
       ls_hostId st = ls_hostId st' \<Longrightarrow> k = l"
  shows "lg_ok s"
  unfolding lg_ok_def using assms by blast

lemma terminal_simps [simp]:
  "terminal (st\<lparr>ls_status := x\<rparr>) = (x \<in> set TERMINAL_STATES)" "LgQueued \<notin> set TERMINAL_STATES" "LgRunning \<notin> set TERMINAL_STATES"
  "LgSuccess \<in> set TERMINAL_STATES" "LgError \<in> set TERMINAL_STATES" "LgTimeout \<in> set TERMINAL_STATES"
  by (simp_all add: terminal_def TERMINAL_STATES_def)

lemma queued_not_terminal: "ls_status st = LgQueued \<Longrightarrow> \<not> terminal st"
  by (simp add: terminal_def TERMINAL_STATES_def)

lemma host_queue_store [simp]: "host_queue g (store_queue h q queues) = (if g = h then q else host_queue g queues)"
  by (simp add: host_queue_def store_queue_def alist_simps)

text \<open>One state is replaced by a later one of the same task.\<close>

lemma lg_ok_replace:
  assumes ok: "lg_ok s" and st: "map_of (lg_states s) k = Some st" "ls_hostId st' = ls_hostId st" "terminal st \<Longrightarrow> terminal st'"
      "ls_status st' \<noteq> LgQueued"
    and s': "lg_states s' = alist_set k st' (lg_states s)" "set (lg_timers s') = (if terminal st' then set (lg_timers s) - {k} else set (lg_timers s))"
    and q: "\<And>j h. j \<noteq> k \<Longrightarrow> j \<in> task_ids (host_queue h (lg_queues s)) \<Longrightarrow> j \<in> task_ids (host_queue h (lg_queues s'))"
  shows "lg_ok s'"
proof -
  have m: "map_of (lg_states s') j = (if j = k then Some st' else map_of (lg_states s) j)" for j by (simp add: s'(1) alist_simps)
  have old: "\<exists>sa. map_of (lg_states s) j = Some sa \<and> \<not> terminal sa \<and> ls_hostId sa = ls_hostId sj"
    if "map_of (lg_states s') j = Some sj" "\<not> terminal sj" for j sj
    using that st(1-3) by (cases "j = k") (auto simp: m)
  show ?thesis
  proof (rule lg_okI)
    show "keys_distinct (lg_states s')" using lg_okD(1) [OF ok] by (simp add: s'(1) alist_simps)
    fix j sj
    assume j: "map_of (lg_states s') j = Some sj"
    show "\<not> terminal sj \<longleftrightarrow> j \<in> set (lg_timers s')"
      using j lg_okD(2) [OF ok] st(1,3) by (cases "j = k") (auto simp: m s'(2))
    show "j \<in> task_ids (host_queue (ls_hostId sj) (lg_queues s'))" if "ls_status sj = LgQueued"
      using j that q st(4) lg_okD(3) [OF ok, of j sj] by (cases "j = k") (auto simp: m)
    show "j = l" if e: "map_of (lg_states s') l = Some sl" "\<not> terminal sj" "\<not> terminal sl" "ls_hostId sj = ls_hostId sl" for l sl
    proof -
      obtain sa sb where "map_of (lg_states s) j = Some sa" "\<not> terminal sa" "ls_hostId sa = ls_hostId sj"
        "map_of (lg_states s) l = Some sb" "\<not> terminal sb" "ls_hostId sb = ls_hostId sl" using old [OF j] old [OF e(1)] e(2,3) by blast
      then show ?thesis using lg_okD(5) [OF ok, of j sa l sb] e(4) by simp
    qed
  next
    fix j
    assume "j \<in> set (lg_timers s')"
    then show "map_of (lg_states s') j \<noteq> None" using lg_okD(4) [OF ok, of j] by (auto simp: m s'(2) split: if_splits)
  qed
qed

text \<open>States of tests that are over are dropped.\<close>

lemma lg_ok_drop:
  assumes ok: "lg_ok s" and s': "keys_distinct (lg_states s')" "lg_timers s' = lg_timers s" "lg_queues s' = lg_queues s"
    and m: "\<And>k. map_of (lg_states s') k = map_of (lg_states s) k \<or> map_of (lg_states s') k = None \<and> (\<forall>st. map_of (lg_states s) k = Some st \<longrightarrow> terminal st)"
  shows "lg_ok s'"
proof (rule lg_okI)
  have sub: "map_of (lg_states s) k = Some st" if "map_of (lg_states s') k = Some st" for k st using m [of k] that by auto
  show "\<not> terminal st \<longleftrightarrow> k \<in> set (lg_timers s')" if "map_of (lg_states s') k = Some st" for k st using lg_okD(2) [OF ok sub [OF that]] s' by simp
  show "k \<in> task_ids (host_queue (ls_hostId st) (lg_queues s'))" if "map_of (lg_states s') k = Some st" "ls_status st = LgQueued" for k st
    using lg_okD(3) [OF ok sub] that s' by simp
  show "k = l" if "map_of (lg_states s') k = Some st" "map_of (lg_states s') l = Some st'" "\<not> terminal st" "\<not> terminal st'"
    "ls_hostId st = ls_hostId st'" for k l st st' using lg_okD(5) [OF ok sub sub] that by blast
  show "map_of (lg_states s') k \<noteq> None" if k: "k \<in> set (lg_timers s')" for k
  proof -
    obtain st where st: "map_of (lg_states s) k = Some st" using lg_okD(4) [OF ok, of k] k s'(2) by auto
    then have "\<not> terminal st" using lg_okD(2) [OF ok st] k s'(2) by simp
    then show ?thesis using m [of k] st by auto
  qed
qed (rule s'(1))

lemma map_of_mark_running:
  "map_of (fold (mark_running now) ts states) k = map_option (\<lambda>st. if k \<in> task_ids ts \<and> \<not> terminal st
     then st\<lparr>ls_status := LgRunning, ls_startedAt := Iso now, ls_updatedAt := now, ls_output := [Notice PulledNotice]\<rparr> else st) (map_of states k)"
proof (induction ts arbitrary: states)
  case Nil
  then show ?case by (simp add: task_ids_def option.map_ident)
next
  case (Cons t ts)
  have one: "map_of (mark_running now t states) k = map_option (\<lambda>st. if k = lt_taskId t \<and> \<not> terminal st
     then st\<lparr>ls_status := LgRunning, ls_startedAt := Iso now, ls_updatedAt := now, ls_output := [Notice PulledNotice]\<rparr> else st) (map_of states k)"
    by (cases "map_of states k"; cases "k = lt_taskId t") (auto simp: mark_running_def alist_simps split: option.split)
  show ?case by (cases "map_of states k") (auto simp: Cons.IH one task_ids_def terminal_def)
qed

lemma keys_distinct_mark_running: "keys_distinct states \<Longrightarrow> keys_distinct (fold (mark_running now) ts states)"
  by (induction ts arbitrary: states) (auto simp: mark_running_def alist_simps split: option.split)

lemma lg_ok_take:
  assumes ok: "lg_ok s"
  shows "lg_ok (snd (takeLookingGlassAgentTasks now h limit s))"
proof -
  define q where "q = host_queue h (lg_queues s)"
  define s' where "s' = snd (takeLookingGlassAgentTasks now h limit s)"
  define f where "f = (\<lambda>k st. if k \<in> task_ids (take limit q) \<and> \<not> terminal st
     then st\<lparr>ls_status := LgRunning, ls_startedAt := Iso now, ls_updatedAt := now, ls_output := [Notice PulledNotice]\<rparr> else st)"
  have m: "map_of (lg_states s') k = map_option (f k) (map_of (lg_states s) k)" for k
    by (simp add: s'_def takeLookingGlassAgentTasks_def Let_def q_def f_def map_of_mark_running)
  have fr: "lg_timers s' = lg_timers s" "host_queue g (lg_queues s') = (if g = h then drop limit q else host_queue g (lg_queues s))"
    "keys_distinct (lg_states s')" for g
    using lg_okD(1) [OF ok] by (simp_all add: s'_def takeLookingGlassAgentTasks_def Let_def q_def keys_distinct_mark_running)
  have fs: "terminal (f k st) = terminal st" "ls_hostId (f k st) = ls_hostId st" for k st by (simp_all add: f_def terminal_def)
  have "lg_ok s'"
  proof (rule lg_okI [OF fr(3)])
    fix k st
    assume "map_of (lg_states s') k = Some st"
    then obtain st0 where st0: "map_of (lg_states s) k = Some st0" "st = f k st0" by (auto simp: m)
    show "\<not> terminal st \<longleftrightarrow> k \<in> set (lg_timers s')" using lg_okD(2) [OF ok st0(1)] by (simp add: st0 fs fr)
    show "k = l" if e: "map_of (lg_states s') l = Some st'" "\<not> terminal st" "\<not> terminal st'" "ls_hostId st = ls_hostId st'" for l st'
    proof -
      obtain sl where sl: "map_of (lg_states s) l = Some sl" "st' = f l sl" using e(1) by (auto simp: m)
      show ?thesis using lg_okD(5) [OF ok st0(1) sl(1)] e(2-4) unfolding st0(2) sl(2) fs by blast
    qed
    assume qd: "ls_status st = LgQueued"
    then have "st = st0" "k \<notin> task_ids (take limit q)" using st0(2) queued_not_terminal [OF qd] by (auto simp: f_def fs split: if_splits)
    moreover have "k \<in> task_ids (host_queue (ls_hostId st0) (lg_queues s))" using lg_okD(3) [OF ok st0(1)] qd \<open>st = st0\<close> by simp
    ultimately show "k \<in> task_ids (host_queue (ls_hostId st) (lg_queues s'))"
      using set_append [of "take limit q" "drop limit q"] by (auto simp: fr q_def task_ids_def)
  next
    fix k
    assume "k \<in> set (lg_timers s')"
    then show "map_of (lg_states s') k \<noteq> None" using lg_okD(4) [OF ok, of k] by (auto simp: fr m)
  qed
  then show ?thesis by (simp add: s'_def)
qed

lemma lg_ok_complete:
  assumes ok: "lg_ok s"
  shows "lg_ok (snd (completeLookingGlassAgentTask now h r s))"
proof (cases "\<exists>st. map_of (lg_states s) (lr_taskId r) = Some st \<and> ls_hostId st = h")
  case True
  then obtain st where st: "map_of (lg_states s) (lr_taskId r) = Some st" "ls_hostId st = h" by blast
  define s' where "s' = snd (completeLookingGlassAgentTask now h r s)"
  obtain st' where st': "lg_states s' = alist_set (lr_taskId r) st' (lg_states s)" "ls_hostId st' = ls_hostId st" "terminal st'"
    "ls_status st' \<noteq> LgQueued"
    using st by (simp add: s'_def completeLookingGlassAgentTask_def Let_def scheduleTerminalStateRemoval_def terminal_def TERMINAL_STATES_def)
  have fr: "lg_timers s' = removeAll (lr_taskId r) (lg_timers s)" "lg_queues s' = lg_queues s"
    using st by (simp_all add: s'_def completeLookingGlassAgentTask_def Let_def scheduleTerminalStateRemoval_def)
  have "lg_ok s'" by (rule lg_ok_replace [OF ok st(1) st'(2)]) (use st' fr in simp_all)
  then show ?thesis by (simp add: s'_def)
next
  case False
  then show ?thesis using ok by (auto simp: completeLookingGlassAgentTask_def split: option.split)
qed

lemma lg_ok_progress:
  assumes ok: "lg_ok s"
  shows "lg_ok (snd (updateLookingGlassAgentTaskProgress now h r s))"
proof (cases "\<exists>st. map_of (lg_states s) (lr_taskId r) = Some st \<and> ls_hostId st = h \<and> \<not> terminal st")
  case True
  then obtain st where st: "map_of (lg_states s) (lr_taskId r) = Some st" "ls_hostId st = h" "\<not> terminal st" by blast
  define s' where "s' = snd (updateLookingGlassAgentTaskProgress now h r s)"
  obtain st' where st': "lg_states s' = alist_set (lr_taskId r) st' (lg_states s)" "ls_hostId st' = ls_hostId st" "ls_status st' = LgRunning"
    using st by (simp add: s'_def updateLookingGlassAgentTaskProgress_def)
  have fr: "lg_timers s' = lg_timers s" "lg_queues s' = lg_queues s" using st by (simp_all add: s'_def updateLookingGlassAgentTaskProgress_def)
  have "\<not> terminal st'" using st'(3) by (simp add: terminal_def)
  then have "lg_ok s'" by (intro lg_ok_replace [OF ok st(1) st'(2)]) (use st st' fr in simp_all)
  then show ?thesis by (simp add: s'_def)
next
  case False
  then show ?thesis using ok by (auto simp: updateLookingGlassAgentTaskProgress_def split: option.split)
qed

lemma lg_ok_timeout:
  assumes ok: "lg_ok s" and t: "taskId \<in> set (lg_timers s)"
  shows "lg_ok (lg_markTimeout now taskId s)" "\<exists>st. map_of (lg_states (lg_markTimeout now taskId s)) taskId = Some st \<and> ls_status st = LgTimeout"
    "\<And>h. taskId \<notin> task_ids (host_queue h (lg_queues (lg_markTimeout now taskId s))) \<or> map_option ls_hostId (map_of (lg_states s) taskId) \<noteq> Some h"
proof -
  obtain st where st: "map_of (lg_states s) taskId = Some st" "\<not> terminal st" using lg_okD(2,4) [OF ok] t by blast
  define st1 where "st1 = st\<lparr>ls_status := LgTimeout, ls_timedOut := True, ls_exitCode := Some 1, ls_finishedAt := Iso now,
                      ls_updatedAt := now, ls_error := Some (Notice TimeoutNotice), ls_output := ls_output st @ [Notice TimeoutNotice]\<rparr>"
  define q where "q = filter (\<lambda>task. lt_taskId task \<noteq> taskId) (host_queue (ls_hostId st) (lg_queues s))"
  define s' where "s' = lg_markTimeout now taskId s"
  have qs: "lg_queues s' = (case map_of (lg_queues s) (ls_hostId st) of None \<Rightarrow> lg_queues s
      | Some q' \<Rightarrow> store_queue (ls_hostId st) (filter (\<lambda>task. lt_taskId task \<noteq> taskId) q') (lg_queues s))"
    using st by (simp add: s'_def lg_markTimeout_def scheduleTerminalStateRemoval_def Let_def split: option.split)
  have s': "lg_states s' = alist_set taskId st1 (lg_states s)" "lg_timers s' = removeAll taskId (lg_timers s)"
    using st by (simp_all add: s'_def lg_markTimeout_def st1_def scheduleTerminalStateRemoval_def Let_def split: option.split)
  have hq: "host_queue g (lg_queues s') = (if g = ls_hostId st then q else host_queue g (lg_queues s))" for g
  proof (cases "map_of (lg_queues s) (ls_hostId st)")
    case None
    then have "host_queue (ls_hostId st) (lg_queues s) = []" by (simp add: host_queue_def)
    then show ?thesis using None by (simp add: qs q_def)
  next
    case (Some q')
    then have "host_queue (ls_hostId st) (lg_queues s) = q'" by (simp add: host_queue_def)
    then show ?thesis using Some by (simp add: qs q_def)
  qed
  have t1: "terminal st1" "ls_hostId st1 = ls_hostId st" "ls_status st1 = LgTimeout" by (simp_all add: st1_def terminal_def TERMINAL_STATES_def)
  have "lg_ok s'"
    by (rule lg_ok_replace [OF ok st(1), of st1]) (use t1 in \<open>auto simp: s' hq q_def task_ids_def\<close>)
  then show "lg_ok (lg_markTimeout now taskId s)" by (simp add: s'_def)
  show "\<exists>st. map_of (lg_states (lg_markTimeout now taskId s)) taskId = Some st \<and> ls_status st = LgTimeout"
    using t1 by (simp add: s'(1) [unfolded s'_def] alist_simps)
  show "\<And>h. taskId \<notin> task_ids (host_queue h (lg_queues (lg_markTimeout now taskId s))) \<or> map_option ls_hostId (map_of (lg_states s) taskId) \<noteq> Some h"
    using st(1) by (auto simp: hq [unfolded s'_def] q_def task_ids_def)
qed

lemma active_iff:
  assumes "keys_distinct (lg_states s)"
  shows "hasActiveLookingGlassTask h s \<longleftrightarrow> (\<exists>k st. map_of (lg_states s) k = Some st \<and> ls_hostId st = h \<and> \<not> terminal st)"
  unfolding keys_distinct_mem [OF assms, symmetric] hasActiveLookingGlassTask_def list_ex_iff by force

lemma last_n_snoc: "0 < n \<Longrightarrow> x \<in> set (last_n n (xs @ [x]))"
  by (simp add: last_n_def)

lemma lg_ok_enqueue:
  assumes ok: "lg_ok s" and new: "uuid \<notin> fst ` set (lg_states s)" "uuid \<notin> set (lg_timers s)"
    and e: "enqueueLookingGlassAgentTask now uuid h input s = Some (task, s')"
  shows "lg_ok s'"
proof -
  define q where "q = host_queue h (lg_queues s)"
  define st where "st = \<lparr>ls_hostId = h, ls_task = task, ls_status = LgQueued, ls_output = [Notice CreatedNotice], ls_exitCode = None,
                     ls_timedOut = False, ls_durationMs = 0, ls_startedAt = Iso now, ls_finishedAt = StampText [], ls_updatedAt = now,
                     ls_error = None\<rparr>"
  have free: "\<not> hasActiveLookingGlassTask h s" using e by (auto simp: enqueueLookingGlassAgentTask_def split: if_splits)
  then have s': "lg_states s' = alist_set uuid st (lg_states s)" "lg_timers s' = lg_timers s @ [uuid]" "lt_taskId task = uuid"
    "host_queue g (lg_queues s') = (if g = h then last_n 20 (q @ [task]) else host_queue g (lg_queues s))" for g
    using e by (auto simp: enqueueLookingGlassAgentTask_def Let_def st_def q_def alist_simps host_queue_def)
  have none: "terminal sj" if "map_of (lg_states s) j = Some sj" "ls_hostId sj = h" for j sj
    using free that active_iff [OF lg_okD(1) [OF ok]] by blast
  have st: "\<not> terminal st" "ls_hostId st = h" by (simp_all add: st_def terminal_def TERMINAL_STATES_def)
  have m: "map_of (lg_states s') j = (if j = uuid then Some st else map_of (lg_states s) j)" for j by (simp add: s'(1) alist_simps)
  show ?thesis
  proof (rule lg_okI)
    show "keys_distinct (lg_states s')" using lg_okD(1) [OF ok] by (simp add: s'(1) alist_simps)
    fix j sj
    assume j: "map_of (lg_states s') j = Some sj"
    show "\<not> terminal sj \<longleftrightarrow> j \<in> set (lg_timers s')" using j lg_okD(2) [OF ok] st by (cases "j = uuid") (auto simp: m s'(2))
    show "j \<in> task_ids (host_queue (ls_hostId sj) (lg_queues s'))" if qd: "ls_status sj = LgQueued"
    proof (cases "j = uuid")
      case True
      then show ?thesis using j st s'(3) last_n_snoc [of 20 task q] by (auto simp: m s'(4) task_ids_def)
    next
      case False
      then have old: "map_of (lg_states s) j = Some sj" using j by (simp add: m)
      then have "ls_hostId sj \<noteq> h" using none queued_not_terminal [OF qd] by blast
      then show ?thesis using lg_okD(3) [OF ok old qd] by (simp add: s'(4))
    qed
    show "j = l" if n: "map_of (lg_states s') l = Some sl" "\<not> terminal sj" "\<not> terminal sl" "ls_hostId sj = ls_hostId sl" for l sl
    proof (cases "j = uuid \<or> l = uuid")
      case True
      then show ?thesis using j n none [of j sj] none [of l sl] st by (auto simp: m split: if_splits)
    next
      case False
      then show ?thesis using j n lg_okD(5) [OF ok, of j sj l sl] by (simp add: m)
    qed
  next
    fix j
    assume "j \<in> set (lg_timers s')"
    then show "map_of (lg_states s') j \<noteq> None" using lg_okD(4) [OF ok, of j] by (auto simp: m s'(2))
  qed
qed

interpretation tests: event_system lg_possible lg_apply new_looking_glass lg_reach
proof unfold_locales
  fix s and P :: "looking_glass \<Rightarrow> bool"
  assume "lg_reach s" "P new_looking_glass" and step: "\<And>s ev. P s \<Longrightarrow> lg_possible ev s \<Longrightarrow> P (lg_apply ev s)"
  then show "P s" by (induction rule: lg_reach.induct) (auto intro: step)
qed (auto intro: lg_init lg_step)

lemma lg_event_ok:
  assumes ok: "lg_ok s" and ev: "lg_possible ev s"
  shows "lg_ok (lg_apply ev s)"
proof (cases ev)
  case (LgEnqueue now uuid h input)
  then show ?thesis using ok ev lg_ok_enqueue [OF ok] by (auto split: option.split)
next
  case (LgRemoval e)
  have "lg_ok (removal_fired e s)"
  proof (rule lg_ok_drop [OF ok])
    show "keys_distinct (lg_states (removal_fired e s))" "lg_timers (removal_fired e s) = lg_timers s" "lg_queues (removal_fired e s) = lg_queues s"
      using lg_okD(1) [OF ok] by (auto simp: removal_fired_def Let_def alist_simps split: option.split)
  qed (auto simp: removal_fired_def Let_def alist_simps split: option.split)
  then show ?thesis by (simp add: LgRemoval)
next
  case (LgPrune now)
  let ?P = "\<lambda>e. \<not> (terminal (snd e) \<and> \<not> now - ls_updatedAt (snd e) < TERMINAL_STATE_RETENTION_MS)"
  let ?s = "pruneLookingGlassAgentTaskStates now s"
  have kd: "keys_distinct (lg_states ?s)"
    using lg_okD(1) [OF ok] by (simp add: pruneLookingGlassAgentTaskStates_def keys_distinct_filter)
  have "lg_ok ?s"
  proof (rule lg_ok_drop [OF ok kd])
    fix k
    show "map_of (lg_states ?s) k = map_of (lg_states s) k
        \<or> map_of (lg_states ?s) k = None \<and> (\<forall>st. map_of (lg_states s) k = Some st \<longrightarrow> terminal st)"
    proof (cases "map_of (lg_states ?s) k")
      case None
      then have "(k, st) \<notin> set (lg_states ?s)" for st using keys_distinct_mem [OF kd] by simp
      then show ?thesis using None keys_distinct_mem [OF lg_okD(1) [OF ok], of k] by (auto simp: pruneLookingGlassAgentTaskStates_def)
    next
      case (Some st)
      then have "(k, st) \<in> set (lg_states s)" using keys_distinct_mem [OF kd, of k st] by (simp add: pruneLookingGlassAgentTaskStates_def)
      then show ?thesis using Some keys_distinct_mem [OF lg_okD(1) [OF ok], of k st] by simp
    qed
  qed (simp_all add: pruneLookingGlassAgentTaskStates_def)
  then show ?thesis by (simp add: LgPrune)
qed (use ok ev in \<open>simp_all add: lg_ok_take lg_ok_progress lg_ok_complete lg_ok_timeout\<close>)

lemma lg_reach_ok: "lg_reach s \<Longrightarrow> lg_ok s"
proof (erule tests.reach_least)
  show "lg_ok new_looking_glass" by (simp add: lg_ok_def new_looking_glass_def)
qed (rule lg_event_ok)

text \<open>C19: a host runs one network test at a time, and no test blocks its host. A new test is refused exactly while one of the
  host is not over; that one has its timer armed, and when it fires the test is over, has left the queue and the next
  one is accepted. A test that still waits is among those the agent is given when it pulls the queue.\<close>

theorem tests_never_block_host:
  assumes "lg_reach s"
  shows "card {k. \<exists>st. map_of (lg_states s) k = Some st \<and> ls_hostId st = h \<and> \<not> terminal st} \<le> 1
    \<and> (enqueueLookingGlassAgentTask now uuid h input s = None \<longleftrightarrow> (\<exists>k st. map_of (lg_states s) k = Some st \<and> ls_hostId st = h \<and> \<not> terminal st))
    \<and> (map_of (lg_states s) k = Some st \<and> ls_hostId st = h \<and> \<not> terminal st \<longrightarrow>
        lg_possible (LgTimer now k) s \<and> enqueueLookingGlassAgentTask now uuid h input (lg_apply (LgTimer now k) s) \<noteq> None
        \<and> k \<notin> task_ids (host_queue h (lg_queues (lg_apply (LgTimer now k) s)))
        \<and> (ls_status st = LgQueued \<longrightarrow> k \<in> task_ids (fst (takeLookingGlassAgentTasks now h (length (host_queue h (lg_queues s))) s))))"
proof -
  note ok = lg_reach_ok [OF assms]
  let ?A = "{k. \<exists>st. map_of (lg_states s) k = Some st \<and> ls_hostId st = h \<and> \<not> terminal st}"
  have "?A \<subseteq> fst ` set (lg_states s)" using map_of_SomeD by force
  then have fin: "finite ?A" by (rule finite_subset) simp
  have one: "card ?A \<le> 1"
  proof -
    have "\<forall>a \<in> ?A. \<forall>b \<in> ?A. a = b" using lg_okD(5) [OF ok] by blast
    then show ?thesis using card_le_Suc0_iff_eq [OF fin] by simp
  qed
  have refuse: "enqueueLookingGlassAgentTask now uuid h input t = None \<longleftrightarrow> hasActiveLookingGlassTask h t" for t
    by (simp add: enqueueLookingGlassAgentTask_def Let_def)
  have timer: "lg_possible (LgTimer now k) s \<and> enqueueLookingGlassAgentTask now uuid h input (lg_apply (LgTimer now k) s) \<noteq> None
      \<and> k \<notin> task_ids (host_queue h (lg_queues (lg_apply (LgTimer now k) s)))"
    if a: "map_of (lg_states s) k = Some st" "ls_hostId st = h" "\<not> terminal st"
  proof -
    have t: "k \<in> set (lg_timers s)" using lg_okD(2) [OF ok a(1)] a(3) by simp
    define s' where "s' = lg_markTimeout now k s"
    have ok': "lg_ok s'" using lg_ok_timeout(1) [OF ok t] by (simp add: s'_def)
    obtain st' where st': "map_of (lg_states s') k = Some st'" "ls_status st' = LgTimeout" using lg_ok_timeout(2) [OF ok t] by (auto simp: s'_def)
    have other: "map_of (lg_states s') j = map_of (lg_states s) j" if "j \<noteq> k" for j
      using that by (simp add: s'_def lg_markTimeout_def Let_def scheduleTerminalStateRemoval_def alist_simps split: option.split)
    have "\<not> hasActiveLookingGlassTask h s'"
    proof
      assume "hasActiveLookingGlassTask h s'"
      then obtain j sj where j: "map_of (lg_states s') j = Some sj" "ls_hostId sj = h" "\<not> terminal sj"
        using active_iff [OF lg_okD(1) [OF ok']] by blast
      then have "j \<noteq> k" using st' by (auto simp: terminal_def)
      then show False using j other [of j] lg_okD(5) [OF ok a(1), of j sj] a by simp
    qed
    then show ?thesis using t refuse [of s'] lg_ok_timeout(3) [OF ok t, of h now] a by (simp add: s'_def)
  qed
  have pulled: "k \<in> task_ids (fst (takeLookingGlassAgentTasks now h (length (host_queue h (lg_queues s))) s))"
    if "map_of (lg_states s) k = Some st" "ls_hostId st = h" "ls_status st = LgQueued"
    using lg_okD(3) [OF ok that(1,3)] that(2) by (simp add: takeLookingGlassAgentTasks_def Let_def)
  show ?thesis
  proof (intro conjI impI)
    show "enqueueLookingGlassAgentTask now uuid h input s = None \<longleftrightarrow> (\<exists>k st. map_of (lg_states s) k = Some st \<and> ls_hostId st = h \<and> \<not> terminal st)"
      unfolding refuse by (rule active_iff [OF lg_okD(1) [OF ok]])
  qed (use one timer pulled in blast)+
qed

section \<open>The iperf3 server of a host\<close>

datatype iperf3_op = OpStart | OpStop

datatype iperf3_status = IpIdle | IpQueued | IpStarting | IpRunning | IpStopping | IpStopped | IpError

record iperf3_task =
  it_taskId :: string
  it_op :: iperf3_op
  it_port :: int
  it_createdAt :: int

record iperf3_state =
  ip_taskId :: string
  ip_state :: iperf3_status
  ip_port :: int
  ip_output :: "text_part list"
  ip_pid :: "int option"
  ip_startedAt :: "string option"
  ip_updatedAt :: stamp
  ip_error :: "text_part option"
  ip_timer :: "string option"

record iperf3_result =
  ir_taskId :: string
  ir_port :: int
  ir_status :: iperf3_status
  ir_output :: string
  ir_pid :: "int option option"
  ir_startedAt :: "string option"
  ir_updatedAt :: "string option"
  ir_error :: "string option"

record iperf3_tasks =
  ix_queues :: "(int \<times> iperf3_task list) list"
  ix_states :: "(int \<times> iperf3_state) list"
  ix_timers :: "(int \<times> string) list"

definition new_iperf3 :: iperf3_tasks where
  "new_iperf3 = \<lparr>ix_queues = [], ix_states = [], ix_timers = []\<rparr>"

definition AUTO_IPERF3_PORT :: int where "AUTO_IPERF3_PORT = 0"

definition iperf3_markTimeout :: "int \<Rightarrow> int \<Rightarrow> string \<Rightarrow> iperf3_tasks \<Rightarrow> iperf3_tasks" where
  "iperf3_markTimeout now hostId taskId s0 =
     (let s = s0\<lparr>ix_timers := removeAll (hostId, taskId) (ix_timers s0)\<rparr> in
      case map_of (ix_states s) hostId of None \<Rightarrow> s
      | Some st \<Rightarrow>
          if ip_taskId st \<noteq> taskId \<or> ip_state st = IpRunning \<or> ip_state st = IpStopped then s
          else s\<lparr>ix_states := alist_set hostId (st\<lparr>ip_state := IpError, ip_error := Some (Notice TimeoutNotice),
                   ip_output := [Notice TimeoutNotice], ip_updatedAt := Iso now\<rparr>) (ix_states s)\<rparr>)"

definition clear_iperf3_timer :: "int \<Rightarrow> iperf3_tasks \<Rightarrow> iperf3_tasks" where
  "clear_iperf3_timer hostId s = (case map_of (ix_states s) hostId of None \<Rightarrow> s
     | Some st \<Rightarrow> case ip_timer st of None \<Rightarrow> s | Some t \<Rightarrow> s\<lparr>ix_timers := removeAll (hostId, t) (ix_timers s)\<rparr>)"

definition iperf3_refused :: "iperf3_op \<Rightarrow> iperf3_state \<Rightarrow> bool" where
  "iperf3_refused op current = (case op of
       OpStart \<Rightarrow> ip_state current \<in> set [IpQueued, IpStarting, IpRunning, IpStopping]
     | OpStop \<Rightarrow> ip_state current \<in> set [IpQueued, IpStarting, IpStopping])"

definition enqueueIperf3AgentTask ::
  "int \<Rightarrow> string \<Rightarrow> int \<Rightarrow> iperf3_op \<Rightarrow> int option \<Rightarrow> iperf3_tasks \<Rightarrow> (iperf3_task \<times> iperf3_tasks) option" where
  "enqueueIperf3AgentTask now uuid hostId op port s =
     (if (case map_of (ix_states s) hostId of Some current \<Rightarrow> iperf3_refused op current | None \<Rightarrow> False) then None
      else let p = (case port of None \<Rightarrow> AUTO_IPERF3_PORT | Some p \<Rightarrow> p);
               task = \<lparr>it_taskId = uuid, it_op = op, it_port = p, it_createdAt = now\<rparr>;
               queue = host_queue hostId (ix_queues s) @ [task];
               st = \<lparr>ip_taskId = uuid, ip_state = (if op = OpStart then IpQueued else IpStopping), ip_port = p,
                     ip_output = [Notice (if op = OpStart then StartNotice else StopNotice)], ip_pid = None, ip_startedAt = None,
                     ip_updatedAt = Iso now, ip_error = None, ip_timer = Some uuid\<rparr>;
               s1 = clear_iperf3_timer hostId s
           in Some (task, s1\<lparr>ix_queues := alist_set hostId (last_n 10 queue) (ix_queues s1), ix_timers := ix_timers s1 @ [(hostId, uuid)],
                            ix_states := alist_set hostId st (ix_states s1)\<rparr>))"

definition mark_pulled :: "int \<Rightarrow> int \<Rightarrow> iperf3_task \<Rightarrow> (int \<times> iperf3_state) list \<Rightarrow> (int \<times> iperf3_state) list" where
  "mark_pulled now hostId task states =
     (case map_of states hostId of None \<Rightarrow> states
      | Some st \<Rightarrow> if ip_taskId st \<noteq> it_taskId task then states
          else alist_set hostId (st\<lparr>ip_state := (if it_op task = OpStart then IpStarting else IpStopping),
                 ip_output := [Notice (if it_op task = OpStart then StartingNotice else StoppingNotice)], ip_updatedAt := Iso now\<rparr>) states)"

definition takeIperf3AgentTasks :: "int \<Rightarrow> int \<Rightarrow> nat \<Rightarrow> iperf3_tasks \<Rightarrow> iperf3_task list \<times> iperf3_tasks" where
  "takeIperf3AgentTasks now hostId limit s =
     (let queue = host_queue hostId (ix_queues s); tasks = take limit queue in
      (tasks, s\<lparr>ix_queues := store_queue hostId (drop limit queue) (ix_queues s),
                ix_states := fold (mark_pulled now hostId) tasks (ix_states s)\<rparr>))"

definition completeIperf3AgentTask :: "int \<Rightarrow> int \<Rightarrow> iperf3_result \<Rightarrow> iperf3_tasks \<Rightarrow> iperf3_tasks" where
  "completeIperf3AgentTask now hostId r s =
     (let previous = map_of (ix_states s) hostId; s1 = clear_iperf3_timer hostId s;
          st = \<lparr>ip_taskId = (if ir_taskId r \<noteq> [] then ir_taskId r else case previous of Some p \<Rightarrow> ip_taskId p | None \<Rightarrow> []),
                ip_state = ir_status r,
                ip_port = (if ir_port r \<noteq> 0 then ir_port r else case previous of Some p \<Rightarrow> ip_port p | None \<Rightarrow> AUTO_IPERF3_PORT),
                ip_output = text_of (ir_output r),
                ip_pid = (case ir_pid r of Some pid \<Rightarrow> pid | None \<Rightarrow> Option.bind previous ip_pid),
                ip_startedAt = (case ir_startedAt r of Some t \<Rightarrow> if t = [] then Option.bind previous ip_startedAt else Some t
                                | None \<Rightarrow> Option.bind previous ip_startedAt),
                ip_updatedAt = stamp_or (ir_updatedAt r) (Iso now),
                ip_error = (case ir_error r of Some e \<Rightarrow> if e = [] then None else Some (Given e) | None \<Rightarrow> None), ip_timer = None\<rparr>
      in s1\<lparr>ix_states := alist_set hostId st (ix_states s1)\<rparr>)"

definition hasQueuedIperf3AgentTasks :: "int \<Rightarrow> iperf3_tasks \<Rightarrow> bool" where
  "hasQueuedIperf3AgentTasks hostId s = (0 < length (host_queue hostId (ix_queues s)))"

definition hasActiveIperf3Task :: "int \<Rightarrow> iperf3_tasks \<Rightarrow> bool" where
  "hasActiveIperf3Task hostId s = (case map_of (ix_states s) hostId of None \<Rightarrow> False
     | Some st \<Rightarrow> ip_state st \<in> set [IpQueued, IpStarting, IpRunning, IpStopping])"

datatype iperf3_event =
    IpEnqueue int string int iperf3_op "int option"
  | IpTake int int nat
  | IpComplete int int iperf3_result
  | IpTimer int int string

fun iperf3_possible :: "iperf3_event \<Rightarrow> iperf3_tasks \<Rightarrow> bool" where
  "iperf3_possible (IpTimer now h taskId) s = ((h, taskId) \<in> set (ix_timers s))"
| "iperf3_possible _ s = True"

fun iperf3_apply :: "iperf3_event \<Rightarrow> iperf3_tasks \<Rightarrow> iperf3_tasks" where
  "iperf3_apply (IpEnqueue now uuid h op port) s = (case enqueueIperf3AgentTask now uuid h op port s of None \<Rightarrow> s | Some (_, s') \<Rightarrow> s')"
| "iperf3_apply (IpTake now h limit) s = snd (takeIperf3AgentTasks now h limit s)"
| "iperf3_apply (IpComplete now h r) s = completeIperf3AgentTask now h r s"
| "iperf3_apply (IpTimer now h taskId) s = iperf3_markTimeout now h taskId s"

inductive iperf3_reach :: "iperf3_tasks \<Rightarrow> bool" where
  iperf3_init: "iperf3_reach new_iperf3"
| iperf3_step: "iperf3_reach s \<Longrightarrow> iperf3_possible ev s \<Longrightarrow> iperf3_reach (iperf3_apply ev s)"

text \<open>An armed timer is that of the current state of its host.\<close>

definition iperf3_ok :: "iperf3_tasks \<Rightarrow> bool" where
  "iperf3_ok s \<longleftrightarrow> (\<forall>h t. (h, t) \<in> set (ix_timers s) \<longrightarrow> map_option ip_timer (map_of (ix_states s) h) = Some (Some t))"

lemma cleared_timer:
  assumes "iperf3_ok s"
  shows "(g, t) \<in> set (ix_timers (clear_iperf3_timer h s)) \<longleftrightarrow> g \<noteq> h \<and> (g, t) \<in> set (ix_timers s)"
    "ix_states (clear_iperf3_timer h s) = ix_states s" "ix_queues (clear_iperf3_timer h s) = ix_queues s"
proof -
  have "map_option ip_timer (map_of (ix_states s) g) = Some (Some t)" if "(g, t) \<in> set (ix_timers s)" using assms that by (simp add: iperf3_ok_def)
  then show "(g, t) \<in> set (ix_timers (clear_iperf3_timer h s)) \<longleftrightarrow> g \<noteq> h \<and> (g, t) \<in> set (ix_timers s)"
    by (cases "map_of (ix_states s) h") (auto simp: clear_iperf3_timer_def split: option.split)
qed (auto simp: clear_iperf3_timer_def split: option.split)

lemma map_of_mark_pulled:
  "g \<noteq> h \<Longrightarrow> map_of (fold (mark_pulled now h) ts states) g = map_of states g"
  "map_option ip_timer (map_of (fold (mark_pulled now h) ts states) h) = map_option ip_timer (map_of states h)"
proof -
  have one: "map_of (mark_pulled now h t states) g = map_of states g" if "g \<noteq> h" for g t states
    using that by (auto simp: mark_pulled_def alist_simps split: option.split)
  have two: "map_option ip_timer (map_of (mark_pulled now h t states) h) = map_option ip_timer (map_of states h)" for t states
    by (auto simp: mark_pulled_def alist_simps split: option.split)
  show "g \<noteq> h \<Longrightarrow> map_of (fold (mark_pulled now h) ts states) g = map_of states g" by (induction ts arbitrary: states) (simp_all add: one)
  show "map_option ip_timer (map_of (fold (mark_pulled now h) ts states) h) = map_option ip_timer (map_of states h)"
    by (induction ts arbitrary: states) (simp_all add: two)
qed

lemma iperf3_event_ok:
  assumes ok: "iperf3_ok s"
  shows "iperf3_ok (iperf3_apply ev s)"
proof (cases ev)
  case (IpEnqueue now uuid h op port)
  show ?thesis
  proof (cases "enqueueIperf3AgentTask now uuid h op port s")
    case None
    then show ?thesis using ok by (simp add: IpEnqueue)
  next
    case (Some r)
    then show ?thesis using ok
      by (auto simp: IpEnqueue iperf3_ok_def enqueueIperf3AgentTask_def Let_def cleared_timer [OF ok] alist_simps split: if_splits option.splits)
  qed
next
  case (IpTake now h limit)
  have "map_option ip_timer (map_of (fold (mark_pulled now h) ts (ix_states s)) g) = map_option ip_timer (map_of (ix_states s) g)" for ts g
    by (cases "g = h") (simp_all add: map_of_mark_pulled)
  then show ?thesis using ok by (simp add: IpTake iperf3_ok_def takeIperf3AgentTasks_def Let_def)
next
  case (IpComplete now h r)
  then show ?thesis using ok by (simp add: iperf3_ok_def completeIperf3AgentTask_def Let_def cleared_timer [OF ok] alist_simps)
next
  case (IpTimer now h taskId)
  let ?s = "iperf3_markTimeout now h taskId s"
  have same: "map_option ip_timer (map_of (ix_states ?s) g) = map_option ip_timer (map_of (ix_states s) g)" for g
    by (auto simp: iperf3_markTimeout_def Let_def alist_simps split: option.split)
  have "set (ix_timers ?s) \<subseteq> set (ix_timers s)" by (auto simp: iperf3_markTimeout_def Let_def split: option.split)
  then show ?thesis using ok unfolding IpTimer iperf3_apply.simps iperf3_ok_def same by blast
qed

interpretation iperf3: event_system iperf3_possible iperf3_apply new_iperf3 iperf3_reach
proof unfold_locales
  fix s and P :: "iperf3_tasks \<Rightarrow> bool"
  assume "iperf3_reach s" "P new_iperf3" and step: "\<And>s ev. P s \<Longrightarrow> iperf3_possible ev s \<Longrightarrow> P (iperf3_apply ev s)"
  then show "P s" by (induction rule: iperf3_reach.induct) (auto intro: step)
qed (auto intro: iperf3_init iperf3_step)

lemma iperf3_reach_ok: "iperf3_reach s \<Longrightarrow> iperf3_ok s"
proof (erule iperf3.reach_least)
  show "iperf3_ok new_iperf3" by (simp add: iperf3_ok_def new_iperf3_def)
qed (rule iperf3_event_ok)

text \<open>A host in this state refuses both operations, and no timer will change that.\<close>

definition iperf3_blocked :: "int \<Rightarrow> iperf3_tasks \<Rightarrow> bool" where
  "iperf3_blocked h s \<longleftrightarrow> (\<exists>st. map_of (ix_states s) h = Some st \<and> ip_state st \<in> {IpStarting, IpStopping}) \<and> (\<forall>t. (h, t) \<notin> set (ix_timers s))"

lemma blocked_refuses: "iperf3_blocked h s \<Longrightarrow> enqueueIperf3AgentTask now uuid h op port s = None"
  by (cases op) (auto simp: iperf3_blocked_def enqueueIperf3AgentTask_def iperf3_refused_def)

lemma mark_pulled_busy:
  "\<exists>st. map_of states h = Some st \<and> ip_state st \<in> {IpStarting, IpStopping} \<Longrightarrow>
   \<exists>st. map_of (fold (mark_pulled now h) ts states) h = Some st \<and> ip_state st \<in> {IpStarting, IpStopping}"
proof (induction ts arbitrary: states)
  case (Cons t ts)
  have "\<exists>st. map_of (mark_pulled now h t states) h = Some st \<and> ip_state st \<in> {IpStarting, IpStopping}"
    using Cons.prems by (auto simp: mark_pulled_def alist_simps)
  from Cons.IH [OF this] show ?case by simp
qed simp

fun reports_host :: "int \<Rightarrow> iperf3_event \<Rightarrow> bool" where
  "reports_host h (IpComplete now g r) = (g = h)"
| "reports_host h _ = False"

lemma blocked_step:
  assumes b: "iperf3_blocked h s" and ok: "iperf3_ok s" and ev: "iperf3_possible ev s" "\<not> reports_host h ev"
  shows "iperf3_blocked h (iperf3_apply ev s)"
proof (cases ev)
  case (IpEnqueue now uuid g op port)
  show ?thesis
  proof (cases "g = h")
    case True
    then show ?thesis using b blocked_refuses [OF b] by (simp add: IpEnqueue)
  next
    case False
    then show ?thesis using b
      by (auto simp: IpEnqueue iperf3_blocked_def enqueueIperf3AgentTask_def Let_def cleared_timer [OF ok] alist_simps split: option.split)
  qed
next
  case (IpTake now g limit)
  have "\<exists>st. map_of (fold (mark_pulled now g) ts (ix_states s)) h = Some st \<and> ip_state st \<in> {IpStarting, IpStopping}" for ts
    using b mark_pulled_busy [of "ix_states s" h now ts] map_of_mark_pulled(1) [of h g] by (cases "g = h") (simp_all add: iperf3_blocked_def)
  then show ?thesis using b by (simp add: IpTake iperf3_blocked_def takeIperf3AgentTasks_def Let_def)
next
  case (IpComplete now g r)
  then show ?thesis using b ev(2) by (auto simp: iperf3_blocked_def completeIperf3AgentTask_def Let_def cleared_timer [OF ok] alist_simps)
next
  case (IpTimer now g taskId)
  then have "g \<noteq> h" using b ev(1) by (auto simp: iperf3_blocked_def)
  then show ?thesis using b by (auto simp: IpTimer iperf3_blocked_def iperf3_markTimeout_def Let_def alist_simps split: option.split)
qed

text \<open>C20: an iperf3 task that the agent pulls after it has timed out blocks its host. The timeout leaves the task in the queue;
  pulling it sets the state back to starting with no timer left, and until the agent reports for this host, whatever
  else happens, both a new start and a stop are refused.\<close>

theorem late_pull_blocks_iperf3:
  assumes reach: "iperf3_reach s" and q: "host_queue h (ix_queues s) = []"
    and s1: "enqueueIperf3AgentTask t0 uuid h op port s = Some (task, s1)"
    and s2: "s2 = iperf3_apply (IpTimer t1 h uuid) s1" and s3: "takeIperf3AgentTasks t2 h (Suc n) s2 = (tasks, s3)"
    and run: "guarded_run iperf3_possible iperf3_apply evs s3 = Some s4" "list_all (\<lambda>ev. \<not> reports_host h ev) evs"
  shows "iperf3_possible (IpTimer t1 h uuid) s1 \<and> tasks = [task] \<and> enqueueIperf3AgentTask t3 uuid' h op' port' s4 = None"
proof -
  note ok = iperf3_reach_ok [OF reach]
  obtain st where 1: "map_of (ix_states s1) h = Some st" "ip_taskId st = uuid" "ip_state st \<in> {IpQueued, IpStopping}" "it_taskId task = uuid"
    "host_queue h (ix_queues s1) = [task]" "(h, uuid) \<in> set (ix_timers s1)"
    using s1 q by (auto simp: enqueueIperf3AgentTask_def Let_def cleared_timer [OF ok] alist_simps last_n_def host_queue_def split: if_splits option.splits)
  have t1: "t = uuid" if "(h, t) \<in> set (ix_timers s1)" for t
    using s1 that by (auto simp: enqueueIperf3AgentTask_def Let_def cleared_timer [OF ok] split: if_splits option.splits)
  have ok1: "iperf3_ok s1" using iperf3_event_ok [OF ok, of "IpEnqueue t0 uuid h op port"] s1 by simp
  have 2: "map_option ip_taskId (map_of (ix_states s2) h) = Some uuid" "ix_queues s2 = ix_queues s1" "\<forall>t. (h, t) \<notin> set (ix_timers s2)"
    using 1(1-3) t1 by (auto simp: s2 iperf3_markTimeout_def Let_def alist_simps)
  have 3: "tasks = [task]" "iperf3_blocked h s3"
    using s3 2 1(4,5) by (auto simp: takeIperf3AgentTasks_def Let_def iperf3_blocked_def mark_pulled_def alist_simps)
  have "iperf3_ok s2" unfolding s2 by (rule iperf3_event_ok [OF ok1])
  then have "iperf3_ok s3" using iperf3_event_ok [of s2 "IpTake t2 h (Suc n)"] s3 by simp
  then have "iperf3_blocked h s4"
    using run 3(2) by (induction evs arbitrary: s3) (auto split: if_splits intro: blocked_step iperf3_event_ok)
  then show ?thesis using 1(6) 3(1) blocked_refuses by simp
qed

section \<open>Concrete runs\<close>

definition example_lg_task :: lg_task where
  "example_lg_task = \<lparr>lt_taskId = '''', lt_method = ''ping'', lt_target = ''h'', lt_resolvedAddress = ''a'', lt_resolvedAddresses = [''a''],
     lt_family = 4, lt_port = None, lt_createdAt = 0\<rparr>"

definition example_tests :: looking_glass where
  "example_tests = the (guarded_run lg_possible lg_apply [LgEnqueue 10 ''u1'' 3 example_lg_task] new_looking_glass)"

lemma example_tests_reach: "lg_reach example_tests"
proof -
  have "guarded_run lg_possible lg_apply [LgEnqueue 10 ''u1'' 3 example_lg_task] new_looking_glass = Some example_tests"
    unfolding example_tests_def by (simp add: new_looking_glass_def)
  then show ?thesis by (rule tests.run_init)
qed

theorem tests_never_block_host_witness:
  "enqueueLookingGlassAgentTask 20 ''u2'' 3 example_lg_task example_tests = None
   \<and> enqueueLookingGlassAgentTask 20 ''u2'' 3 example_lg_task (lg_apply (LgTimer 20 ''u1'') example_tests) \<noteq> None"
proof -
  define st where "st = the (map_of (lg_states example_tests) ''u1'')"
  have "map_of (lg_states example_tests) ''u1'' = Some st" "ls_hostId st = 3" "\<not> terminal st"
    by (simp_all add: st_def example_tests_def new_looking_glass_def enqueueLookingGlassAgentTask_def hasActiveLookingGlassTask_def Let_def terminal_def
        TERMINAL_STATES_def)
  then show ?thesis using tests_never_block_host [OF example_tests_reach, of 3 20 "''u2''" example_lg_task "''u1''" st] by blast
qed

definition example_started :: "iperf3_task \<times> iperf3_tasks" where
  "example_started = the (enqueueIperf3AgentTask 0 ''u1'' 3 OpStart None new_iperf3)"

definition example_timed_out :: iperf3_tasks where
  "example_timed_out = iperf3_apply (IpTimer 30000 3 ''u1'') (snd example_started)"

definition example_pulled :: "iperf3_task list \<times> iperf3_tasks" where
  "example_pulled = takeIperf3AgentTasks 40000 3 2 example_timed_out"

theorem late_pull_blocks_iperf3_witness:
  "fst example_pulled = [fst example_started] \<and> enqueueIperf3AgentTask 90000 ''u2'' 3 OpStop None (snd example_pulled) = None"
proof -
  have "enqueueIperf3AgentTask 0 ''u1'' 3 OpStart None new_iperf3 \<noteq> None" by (simp add: new_iperf3_def enqueueIperf3AgentTask_def Let_def)
  then have a: "enqueueIperf3AgentTask 0 ''u1'' 3 OpStart None new_iperf3 = Some (fst example_started, snd example_started)"
    by (auto simp: example_started_def)
  have b: "takeIperf3AgentTasks 40000 3 (Suc 1) example_timed_out = (fst example_pulled, snd example_pulled)"
    by (simp add: example_pulled_def numeral_2_eq_2)
  have q: "host_queue 3 (ix_queues new_iperf3) = []" by (simp add: new_iperf3_def host_queue_def)
  show ?thesis
    using late_pull_blocks_iperf3 [OF iperf3_init q a example_timed_out_def b, of "[]" "snd example_pulled" 90000 "''u2''" OpStop None] by simp
qed

end
