(* ===== verification/AgentGuards.thy ===== *)
theory AgentGuards
  imports EventSystems
begin

text \<open>
  Two guards in front of what agents do: the challenges an agent proves its identity with (server/agentAuthChallenge.ts) and
  the rule that an interface is taken down only after it has been seen unused long enough (server/mimicRemovalGuard.ts).
  The base64url codec, the message authentication code and the digest of a removal are arguments, so are random bytes and
  the clock; bytes are numbers below 256.
\<close>

section \<open>Challenges\<close>

definition CHALLENGE_RANDOM_BYTES :: nat where "CHALLENGE_RANDOM_BYTES = 24"

definition CHALLENGE_MAC_BYTES :: nat where "CHALLENGE_MAC_BYTES = 32"

definition CHALLENGE_PAYLOAD_BYTES :: nat where "CHALLENGE_PAYLOAD_BYTES = 8 + CHALLENGE_RANDOM_BYTES"

definition CHALLENGE_BYTES :: nat where "CHALLENGE_BYTES = CHALLENGE_PAYLOAD_BYTES + CHALLENGE_MAC_BYTES"

definition CHALLENGE_VALIDITY_MS :: rat where "CHALLENGE_VALIDITY_MS = 10 * 60 * 1000"

definition CHALLENGE_FUTURE_TOLERANCE_MS :: rat where "CHALLENGE_FUTURE_TOLERANCE_MS = 1000"

definition CONSUMED_CACHE_CLEANUP_INTERVAL_MS :: rat where "CONSUMED_CACHE_CLEANUP_INTERVAL_MS = 10000"

text \<open>The codec and the code: \<open>base64url\<close> decoding and encoding of a \<open>Buffer\<close>, and the keyed digest of a payload.\<close>

record codec =
  b64_decode :: "string \<Rightarrow> nat list"
  b64_encode :: "nat list \<Rightarrow> string"
  challengeMac :: "nat list \<Rightarrow> nat list"

definition b64_char :: "char \<Rightarrow> bool" where
  "b64_char c \<longleftrightarrow> (let n = of_char c :: nat in 48 \<le> n \<and> n \<le> 57 \<or> 65 \<le> n \<and> n \<le> 90 \<or> 97 \<le> n \<and> n \<le> 122 \<or> n = 45 \<or> n = 95)"

definition decodeChallenge :: "codec \<Rightarrow> string \<Rightarrow> nat list option" where
  "decodeChallenge K v =
     (if \<not> (80 \<le> length v \<and> length v \<le> 100 \<and> list_all b64_char v) then None
      else let decoded = b64_decode K v in
           if length decoded \<noteq> CHALLENGE_BYTES \<or> b64_encode K decoded \<noteq> v then None else Some decoded)"

text \<open>\<open>writeBigUInt64BE\<close> and \<open>readBigUInt64BE\<close>\<close>

definition write_u64 :: "nat \<Rightarrow> nat list" where
  "write_u64 n = map (\<lambda>i. n div 256 ^ (7 - i) mod 256) [0..<8]"

definition read_u64 :: "nat list \<Rightarrow> nat" where
  "read_u64 bs = foldl (\<lambda>acc b. acc * 256 + b) 0 (take 8 bs)"

record challenge_cache =
  cc_consumed :: "(string \<times> rat) list"
  cc_cleanupAt :: rat

definition no_challenges :: challenge_cache where
  "no_challenges = \<lparr>cc_consumed = [], cc_cleanupAt = 0\<rparr>"

definition cleanupConsumedChallenges :: "rat \<Rightarrow> challenge_cache \<Rightarrow> challenge_cache" where
  "cleanupConsumedChallenges nowMs s =
     (if nowMs < cc_cleanupAt s then s
      else s\<lparr>cc_cleanupAt := nowMs + CONSUMED_CACHE_CLEANUP_INTERVAL_MS,
             cc_consumed := filter (\<lambda>e. \<not> snd e \<le> nowMs) (cc_consumed s)\<rparr>)"

definition issueAgentAuthChallenge :: "codec \<Rightarrow> nat list \<Rightarrow> rat \<Rightarrow> string" where
  "issueAgentAuthChallenge K randomBytes nowMs =
     (let payload = write_u64 (nat (max 0 \<lfloor>nowMs\<rfloor>)) @ randomBytes in b64_encode K (payload @ challengeMac K payload))"

definition issued_at :: "codec \<Rightarrow> string \<Rightarrow> rat" where
  "issued_at K challenge = of_nat (read_u64 (b64_decode K challenge))"

definition validateAgentAuthChallenge :: "codec \<Rightarrow> string \<Rightarrow> rat \<Rightarrow> bool" where
  "validateAgentAuthChallenge K challenge nowMs =
     (case decodeChallenge K challenge of None \<Rightarrow> False
      | Some decoded \<Rightarrow>
          let payload = take CHALLENGE_PAYLOAD_BYTES decoded; receivedMac = drop CHALLENGE_PAYLOAD_BYTES decoded in
          if receivedMac \<noteq> challengeMac K payload then False
          else let ageMs = nowMs - of_nat (read_u64 payload) in
               ageMs \<ge> - CHALLENGE_FUTURE_TOLERANCE_MS \<and> ageMs \<le> CHALLENGE_VALIDITY_MS)"

definition consumeAgentAuthChallenge :: "codec \<Rightarrow> string \<Rightarrow> rat \<Rightarrow> challenge_cache \<Rightarrow> bool \<times> challenge_cache" where
  "consumeAgentAuthChallenge K challenge nowMs s =
     (if \<not> validateAgentAuthChallenge K challenge nowMs then (False, s)
      else let s1 = cleanupConsumedChallenges nowMs s;
               existingExpiry = (case map_of (cc_consumed s1) challenge of Some e \<Rightarrow> e | None \<Rightarrow> 0) in
           if existingExpiry > nowMs then (False, s1)
           else (True, s1\<lparr>cc_consumed := alist_set challenge (nowMs + CHALLENGE_VALIDITY_MS) (cc_consumed s1)\<rparr>))"

text \<open>Calls at times that do not decrease, with the accepted ones in the order they came.\<close>

record challenge_run =
  cr_now :: rat
  cr_accepted :: "(string \<times> rat) list"
  cr_cache :: challenge_cache

definition challenge_start :: challenge_run where
  "challenge_start = \<lparr>cr_now = 0, cr_accepted = [], cr_cache = no_challenges\<rparr>"

definition consume_possible :: "string \<times> rat \<Rightarrow> challenge_run \<Rightarrow> bool" where
  "consume_possible call r \<longleftrightarrow> cr_now r \<le> snd call"

definition consume_apply :: "codec \<Rightarrow> string \<times> rat \<Rightarrow> challenge_run \<Rightarrow> challenge_run" where
  "consume_apply K call r =
     (let (ok, s) = consumeAgentAuthChallenge K (fst call) (snd call) (cr_cache r) in
      \<lparr>cr_now = snd call, cr_accepted = (if ok then cr_accepted r @ [call] else cr_accepted r), cr_cache = s\<rparr>)"

inductive challenge_reach :: "codec \<Rightarrow> challenge_run \<Rightarrow> bool" for K where
  challenge_init: "challenge_reach K challenge_start"
| challenge_step: "challenge_reach K r \<Longrightarrow> consume_possible call r \<Longrightarrow> challenge_reach K (consume_apply K call r)"

interpretation challenges: event_system consume_possible "consume_apply K" challenge_start "challenge_reach K"
proof unfold_locales
  fix s and P :: "challenge_run \<Rightarrow> bool"
  assume "challenge_reach K s" "P challenge_start" and step: "\<And>s ev. P s \<Longrightarrow> consume_possible ev s \<Longrightarrow> P (consume_apply K ev s)"
  then show "P s" by (induction rule: challenge_reach.induct) (auto intro: step)
qed (auto intro: challenge_init challenge_step)

text \<open>A challenge that was accepted is remembered until the validity has passed since then.\<close>

definition remembered :: "challenge_run \<Rightarrow> bool" where
  "remembered r \<longleftrightarrow> 0 \<le> cr_now r \<and> keys_distinct (cc_consumed (cr_cache r)) \<and> (\<forall>(c, t) \<in> set (cr_accepted r). t \<le> cr_now r \<and>
     (t + CHALLENGE_VALIDITY_MS \<le> cr_now r \<or> (\<exists>e. map_of (cc_consumed (cr_cache r)) c = Some e \<and> t + CHALLENGE_VALIDITY_MS \<le> e)))"

definition replay_ok :: "codec \<Rightarrow> (string \<times> rat) list \<Rightarrow> bool" where
  "replay_ok K calls \<longleftrightarrow> (\<forall>i j. i < j \<longrightarrow> j < length calls \<longrightarrow> fst (calls ! i) = fst (calls ! j) \<longrightarrow>
     snd (calls ! i) + CHALLENGE_VALIDITY_MS \<le> snd (calls ! j))
   \<and> (\<forall>(c, t) \<in> set calls. issued_at K c - CHALLENGE_FUTURE_TOLERANCE_MS \<le> t \<and> t \<le> issued_at K c + CHALLENGE_VALIDITY_MS)"

lemma validate_window:
  "validateAgentAuthChallenge K c now \<Longrightarrow>
   issued_at K c - CHALLENGE_FUTURE_TOLERANCE_MS \<le> now \<and> now \<le> issued_at K c + CHALLENGE_VALIDITY_MS"
  by (auto simp: validateAgentAuthChallenge_def decodeChallenge_def issued_at_def read_u64_def CHALLENGE_PAYLOAD_BYTES_def
      CHALLENGE_RANDOM_BYTES_def Let_def min_def split: option.splits if_splits)

lemma cleanup_keeps:
  assumes "map_of (cc_consumed s) c = Some e" "now < e" "keys_distinct (cc_consumed s)"
  shows "map_of (cc_consumed (cleanupConsumedChallenges now s)) c = Some e"
proof -
  have "(c, e) \<in> set (filter (\<lambda>x. \<not> snd x \<le> now) (cc_consumed s))" using assms keys_distinct_mem [OF assms(3), of c e] by simp
  then have "map_of (filter (\<lambda>x. \<not> snd x \<le> now) (cc_consumed s)) c = Some e"
    using keys_distinct_mem [OF keys_distinct_filter [OF assms(3)]] by blast
  then show ?thesis using assms(1) by (simp add: cleanupConsumedChallenges_def)
qed

lemma cleanup_distinct: "keys_distinct (cc_consumed s) \<Longrightarrow> keys_distinct (cc_consumed (cleanupConsumedChallenges now s))"
  by (simp add: cleanupConsumedChallenges_def keys_distinct_filter)

lemma consume_keeps_remembered:
  assumes r: "remembered r" "replay_ok K (cr_accepted r)" and p: "consume_possible call r"
  shows "remembered (consume_apply K call r) \<and> replay_ok K (cr_accepted (consume_apply K call r))"
proof -
  obtain c now where call: "call = (c, now)" by (cases call)
  define s where "s = cr_cache r"
  have le: "cr_now r \<le> now" "0 \<le> now" using p r by (auto simp: consume_possible_def call remembered_def)
  have kd: "keys_distinct (cc_consumed s)" using r(1) by (simp add: remembered_def s_def)
  have acc: "t \<le> now" "t + CHALLENGE_VALIDITY_MS \<le> now \<or> (\<exists>e. map_of (cc_consumed s) d = Some e \<and> t + CHALLENGE_VALIDITY_MS \<le> e)"
    if "(d, t) \<in> set (cr_accepted r)" for d t using r(1) that le by (fastforce simp: remembered_def s_def)+
  define s1 where "s1 = cleanupConsumedChallenges now s"
  have kd1: "keys_distinct (cc_consumed s1)" using cleanup_distinct [OF kd] by (simp add: s1_def)
  have acc1: "t + CHALLENGE_VALIDITY_MS \<le> now \<or> (\<exists>e. map_of (cc_consumed s1) d = Some e \<and> t + CHALLENGE_VALIDITY_MS \<le> e)"
    if "(d, t) \<in> set (cr_accepted r)" for d t
    using acc(2) [OF that] cleanup_keeps [OF _ _ kd, of d _ now] unfolding s1_def by (meson le_less_trans not_le order_trans)
  consider (bad) "\<not> validateAgentAuthChallenge K c now"
    | (seen) "validateAgentAuthChallenge K c now" "(case map_of (cc_consumed s1) c of Some e \<Rightarrow> e | None \<Rightarrow> 0) > now"
    | (ok) "validateAgentAuthChallenge K c now" "\<not> (case map_of (cc_consumed s1) c of Some e \<Rightarrow> e | None \<Rightarrow> 0) > now" by blast
  then show ?thesis
  proof cases
    case bad
    then have "consume_apply K call r = \<lparr>cr_now = now, cr_accepted = cr_accepted r, cr_cache = s\<rparr>"
      by (simp add: consume_apply_def call consumeAgentAuthChallenge_def s_def)
    then show ?thesis using acc kd le r(2) by (auto simp: remembered_def)
  next
    case seen
    then have "consume_apply K call r = \<lparr>cr_now = now, cr_accepted = cr_accepted r, cr_cache = s1\<rparr>"
      by (simp add: consume_apply_def call consumeAgentAuthChallenge_def s_def s1_def)
    then show ?thesis using acc(1) acc1 kd1 le r(2) by (auto simp: remembered_def)
  next
    case ok
    define s2 where "s2 = s1\<lparr>cc_consumed := alist_set c (now + CHALLENGE_VALIDITY_MS) (cc_consumed s1)\<rparr>"
    have e: "consume_apply K call r = \<lparr>cr_now = now, cr_accepted = cr_accepted r @ [(c, now)], cr_cache = s2\<rparr>"
      using ok by (simp add: consume_apply_def call consumeAgentAuthChallenge_def s_def s1_def s2_def Let_def)
    have "t + CHALLENGE_VALIDITY_MS \<le> now" if "(c, t) \<in> set (cr_accepted r)" for t
      using acc1 [OF that] ok(2) by (auto split: option.splits)
    then have "replay_ok K (cr_accepted r @ [(c, now)])"
      using r(2) validate_window [OF ok(1)] by (auto simp: replay_ok_def nth_append less_Suc_eq)
    moreover have "remembered \<lparr>cr_now = now, cr_accepted = cr_accepted r @ [(c, now)], cr_cache = s2\<rparr>"
    proof -
      have "t + CHALLENGE_VALIDITY_MS \<le> now \<or> (\<exists>e. map_of (cc_consumed s2) d = Some e \<and> t + CHALLENGE_VALIDITY_MS \<le> e)"
        if "(d, t) \<in> set (cr_accepted r)" for d t
        using acc1 [OF that] acc(1) [OF that] by (cases "d = c") (simp_all add: s2_def alist_simps)
      then show ?thesis using acc(1) kd1 le by (auto simp: remembered_def s2_def alist_simps)
    qed
    ultimately show ?thesis by (simp add: e)
  qed
qed

lemma challenge_reach_ok: "challenge_reach K r \<Longrightarrow> remembered r \<and> replay_ok K (cr_accepted r)"
proof (erule challenges.reach_least)
  show "remembered challenge_start \<and> replay_ok K (cr_accepted challenge_start)"
    by (simp add: remembered_def replay_ok_def challenge_start_def no_challenges_def)
qed (use consume_keeps_remembered in blast)

text \<open>C17: a challenge is accepted once. When it was accepted after the moment it was issued, no later call accepts it again; a
  second acceptance needs a first one at the very moment of the issue or before it, and a call at the end of the
  validity.\<close>

theorem challenge_accepted_once:
  assumes "challenge_reach K r" "i < j" "j < length (cr_accepted r)" "fst (cr_accepted r ! i) = fst (cr_accepted r ! j)"
  shows "snd (cr_accepted r ! i) \<le> issued_at K (fst (cr_accepted r ! i))
    \<and> issued_at K (fst (cr_accepted r ! i)) \<le> snd (cr_accepted r ! i) + CHALLENGE_FUTURE_TOLERANCE_MS
    \<and> snd (cr_accepted r ! i) + CHALLENGE_VALIDITY_MS \<le> snd (cr_accepted r ! j)"
proof -
  have ok: "replay_ok K (cr_accepted r)" using challenge_reach_ok [OF assms(1)] by simp
  have w: "issued_at K (fst (cr_accepted r ! k)) - CHALLENGE_FUTURE_TOLERANCE_MS \<le> snd (cr_accepted r ! k)
      \<and> snd (cr_accepted r ! k) \<le> issued_at K (fst (cr_accepted r ! k)) + CHALLENGE_VALIDITY_MS" if "k < length (cr_accepted r)" for k
    using ok nth_mem [OF that] by (auto simp: replay_ok_def split_beta)
  have "snd (cr_accepted r ! i) + CHALLENGE_VALIDITY_MS \<le> snd (cr_accepted r ! j)" using ok assms(2-4) unfolding replay_ok_def by blast
  then show ?thesis using w [of i] w [of j] assms(2-4) by simp
qed

text \<open>An issued challenge is valid from its issue on.\<close>

lemma digits_base: "foldl (\<lambda>acc b. acc * 256 + b) 0 (map (\<lambda>i. n div 256 ^ (k - 1 - i) mod 256) [0..<k]) = n mod (256 :: nat) ^ k"
proof (induction k arbitrary: n)
  case (Suc k)
  have m: "map (\<lambda>i. n div 256 ^ (k - i) mod 256) [0..<k] = map (\<lambda>i. (n div 256) div 256 ^ (k - 1 - i) mod 256) [0..<k]"
    by (rule map_cong) (auto simp: div_mult2_eq [symmetric] power_Suc [symmetric] Suc_diff_Suc simp del: power_Suc)
  have "foldl (\<lambda>acc b. acc * 256 + b) 0 (map (\<lambda>i. n div 256 ^ (k - i) mod 256) [0..<Suc k])
      = foldl (\<lambda>acc b. acc * 256 + b) 0 (map (\<lambda>i. n div 256 ^ (k - i) mod 256) [0..<k]) * 256 + n mod 256" by simp
  also have "\<dots> = (n div 256 mod 256 ^ k) * 256 + n mod 256" unfolding m Suc.IH ..
  also have "\<dots> = n mod 256 ^ Suc k" by (simp add: mod_mult2_eq)
  finally show ?case by simp
qed simp

lemma read_write_u64: "n < 2 ^ 64 \<Longrightarrow> read_u64 (write_u64 n @ xs) = n"
  using digits_base [of n 8] by (simp add: read_u64_def write_u64_def)

lemma issued_challenge_is_valid:
  assumes K: "\<And>bs. length bs = 64 \<Longrightarrow> b64_decode K (b64_encode K bs) = bs" "\<And>bs. length bs = 64 \<Longrightarrow> length (b64_encode K bs) = 86"
      "\<And>bs. list_all b64_char (b64_encode K bs)" "\<And>bs. length (challengeMac K bs) = 32"
    and t: "length randomBytes = 24" "0 \<le> t0" "\<lfloor>t0\<rfloor> < 2 ^ 64" "t0 \<le> now" "now \<le> of_int \<lfloor>t0\<rfloor> + CHALLENGE_VALIDITY_MS"
  shows "validateAgentAuthChallenge K (issueAgentAuthChallenge K randomBytes t0) now"
proof -
  define n where "n = nat \<lfloor>t0\<rfloor>"
  define payload where "payload = write_u64 n @ randomBytes"
  have n: "n < 2 ^ 64" "of_nat n = (of_int \<lfloor>t0\<rfloor> :: rat)" using t(2,3) by (simp_all add: n_def nat_less_iff)
  have len: "length payload = 32" using t(1) by (simp add: payload_def write_u64_def)
  have e: "issueAgentAuthChallenge K randomBytes t0 = b64_encode K (payload @ challengeMac K payload)"
    using t(2) by (simp add: issueAgentAuthChallenge_def payload_def n_def)
  have d: "decodeChallenge K (issueAgentAuthChallenge K randomBytes t0) = Some (payload @ challengeMac K payload)"
    unfolding e using K len by (simp add: decodeChallenge_def CHALLENGE_BYTES_def CHALLENGE_PAYLOAD_BYTES_def CHALLENGE_RANDOM_BYTES_def CHALLENGE_MAC_BYTES_def)
  have "of_int \<lfloor>t0\<rfloor> \<le> now" using t(4) of_int_floor_le [of t0] by linarith
  then show ?thesis
    using t(5) len n read_write_u64 [OF n(1), of randomBytes]
    by (simp add: validateAgentAuthChallenge_def d CHALLENGE_PAYLOAD_BYTES_def CHALLENGE_RANDOM_BYTES_def CHALLENGE_FUTURE_TOLERANCE_MS_def
        payload_def [symmetric])
qed

section \<open>Removal of interfaces\<close>

record empty_observation =
  eo_firstSeenAt :: int
  eo_lastSeenAt :: int
  eo_streak :: nat
  eo_token :: string

type_synonym observations = "(string \<times> empty_observation) list"

definition MIMIC_REMOVAL_MIN_STREAK :: nat where "MIMIC_REMOVAL_MIN_STREAK = 3"

definition MIMIC_REMOVAL_MIN_AGE_MS :: int where "MIMIC_REMOVAL_MIN_AGE_MS = 60000"

definition host_prefix :: "int \<Rightarrow> string" where
  "host_prefix hostId = show_int hostId @ '':''"

definition observationKey :: "int \<Rightarrow> string \<Rightarrow> string" where
  "observationKey hostId networkInterface = host_prefix hostId @ js_trim networkInterface"

definition removalToken :: "(string \<Rightarrow> string) \<Rightarrow> string \<Rightarrow> int \<Rightarrow> string" where
  "removalToken sha256 key firstSeenAt = sha256 (key @ '':'' @ show_int firstSeenAt @ '':forwardx-mimic-removal-v1'')"

definition key_starts_with :: "string \<Rightarrow> string \<Rightarrow> bool" where
  "key_starts_with p s \<longleftrightarrow> take (length p) s = p"

definition resetMimicRemovalGuard :: "int \<Rightarrow> observations \<Rightarrow> observations" where
  "resetMimicRemovalGuard hostId obs = filter (\<lambda>e. \<not> key_starts_with (host_prefix hostId) (fst e)) obs"

text \<open>\<open>ri_now\<close> is the time the guard works with, \<open>Number(input.now || Date.now())\<close>: the given time, or the clock when none
  (or zero) is given.\<close>

record removal_input =
  ri_hostId :: int
  ri_desired :: "string list"
  ri_reported :: "string list"
  ri_completeSnapshot :: bool
  ri_rebootDetected :: bool
  ri_now :: int

definition clean_names :: "string list \<Rightarrow> string list" where
  "clean_names xs = js_distinct (filter (\<lambda>x. x \<noteq> []) (map js_trim xs))"

definition next_observation :: "(string \<Rightarrow> string) \<Rightarrow> string \<Rightarrow> int \<Rightarrow> empty_observation option \<Rightarrow> empty_observation" where
  "next_observation sha256 key now previous = (case previous of
       Some p \<Rightarrow> if now \<ge> eo_lastSeenAt p then p\<lparr>eo_streak := eo_streak p + 1, eo_lastSeenAt := now\<rparr>
         else \<lparr>eo_firstSeenAt = now, eo_lastSeenAt = now, eo_streak = 1, eo_token = removalToken sha256 key now\<rparr>
     | None \<Rightarrow> \<lparr>eo_firstSeenAt = now, eo_lastSeenAt = now, eo_streak = 1, eo_token = removalToken sha256 key now\<rparr>)"

definition removal_due :: "int \<Rightarrow> empty_observation \<Rightarrow> bool" where
  "removal_due now st \<longleftrightarrow> eo_streak st \<ge> MIMIC_REMOVAL_MIN_STREAK \<and> now - eo_firstSeenAt st \<ge> MIMIC_REMOVAL_MIN_AGE_MS"

definition observe ::
  "(string \<Rightarrow> string) \<Rightarrow> int \<Rightarrow> int \<Rightarrow> string list \<Rightarrow> string \<Rightarrow> (string \<times> string) list \<times> observations \<Rightarrow> (string \<times> string) list \<times> observations" where
  "observe sha256 hostId now desired iface acc =
     (case acc of (approved, obs) \<Rightarrow>
      if iface \<in> set desired then acc
      else let key = observationKey hostId iface; st = next_observation sha256 key now (map_of obs key) in
           (if removal_due now st then alist_set iface (eo_token st) approved else approved, alist_set key st obs))"

definition approveMimicInterfaceRemovals ::
  "(string \<Rightarrow> string) \<Rightarrow> removal_input \<Rightarrow> observations \<Rightarrow> (string \<times> string) list \<times> observations" where
  "approveMimicInterfaceRemovals sha256 inp obs =
     (let hostId = ri_hostId inp; desired = clean_names (ri_desired inp); reported = clean_names (ri_reported inp) in
      if hostId \<le> 0 then ([], obs)
      else let obs1 = (if ri_rebootDetected inp then resetMimicRemovalGuard hostId obs else obs);
               prefix = host_prefix hostId;
               obs2 = filter (\<lambda>e. \<not> (key_starts_with prefix (fst e)
                        \<and> (let iface = drop (length prefix) (fst e) in iface \<in> set desired \<or> iface \<notin> set reported))) obs1
           in if \<not> ri_completeSnapshot inp \<or> ri_rebootDetected inp then ([], obs2)
              else fold (observe sha256 hostId (ri_now inp) desired) reported ([], obs2))"

datatype guard_event = Check removal_input | GuardReset int

fun guard_apply :: "(string \<Rightarrow> string) \<Rightarrow> guard_event \<Rightarrow> observations \<Rightarrow> observations" where
  "guard_apply sha256 (Check inp) obs = snd (approveMimicInterfaceRemovals sha256 inp obs)"
| "guard_apply sha256 (GuardReset h) obs = resetMimicRemovalGuard h obs"

definition guard_state :: "(string \<Rightarrow> string) \<Rightarrow> guard_event list \<Rightarrow> observations" where
  "guard_state sha256 evs = fold (guard_apply sha256) evs []"

text \<open>The keys of the observations tell hosts and interfaces apart.\<close>

lemma key_of_host:
  assumes "0 \<le> h" "0 \<le> g"
  shows "key_starts_with (host_prefix h) (observationKey g iface) \<longleftrightarrow> h = g"
    "drop (length (host_prefix h)) (observationKey h iface) = js_trim iface"
proof -
  have tw: "takeWhile is_digit (show_nat n @ CHR '':'' # xs) = show_nat n" for n xs
    using show_nat_digits [of n] by (simp add: list_all_iff takeWhile_append2 is_digit_def)
  have sh: "show_int h = show_nat (nat h)" "show_int g = show_nat (nat g)" using assms by (simp_all add: show_int_def)
  show "key_starts_with (host_prefix h) (observationKey g iface) \<longleftrightarrow> h = g"
  proof
    assume "key_starts_with (host_prefix h) (observationKey g iface)"
    then have "observationKey g iface = host_prefix h @ drop (length (host_prefix h)) (observationKey g iface)"
      unfolding key_starts_with_def by (metis append_take_drop_id)
    then have "takeWhile is_digit (observationKey g iface) = show_nat (nat h)" using tw by (metis append.assoc append_Cons append_Nil host_prefix_def sh(1))
    then have "show_nat (nat g) = show_nat (nat h)" using tw by (simp add: observationKey_def host_prefix_def sh)
    then have "nat g = nat h" using digits_val_show_nat by metis
    then show "h = g" using assms by simp
  qed (simp add: key_starts_with_def observationKey_def)
  show "drop (length (host_prefix h)) (observationKey h iface) = js_trim iface" by (simp add: observationKey_def)
qed

lemma negative_host_prefix:
  assumes "g < 0" "0 \<le> h"
  shows "\<not> key_starts_with (host_prefix g) (observationKey h iface)"
proof
  assume s: "key_starts_with (host_prefix g) (observationKey h iface)"
  obtain d ds where d: "show_nat (nat h) = d # ds" by (cases "show_nat (nat h)") auto
  then have "is_digit d" using show_nat_digits [of "nat h"] by simp
  moreover have "d = CHR ''-''" using s assms d by (simp add: key_starts_with_def host_prefix_def observationKey_def show_int_def)
  ultimately show False by (simp add: is_digit_def)
qed

lemma key_eq:
  assumes "0 \<le> h" "0 \<le> g"
  shows "observationKey h i = observationKey g j \<longleftrightarrow> h = g \<and> js_trim i = js_trim j"
  using key_of_host(1) [OF assms, of j] key_of_host(1) [OF assms(1) assms(1), of i] by (auto simp: observationKey_def)

lemma clean_names_trimmed: "iface \<in> set (clean_names xs) \<Longrightarrow> js_trim iface = iface"
  by (auto simp: clean_names_def js_distinct_def)

lemma clean_names_distinct: "distinct (clean_names xs)"
  by (simp add: clean_names_def js_distinct_def)

text \<open>What one pass over the reported interfaces does to one of them.\<close>

lemma observe_fold:
  assumes "0 \<le> h" "distinct is" "\<forall>i \<in> set is. js_trim i = i" "js_trim iface = iface"
  defines "k \<equiv> observationKey h iface"
  shows "map_of (snd (fold (observe sha256 h now desired) is (ap, obs))) k
      = (if iface \<in> set is \<and> iface \<notin> set desired then Some (next_observation sha256 k now (map_of obs k)) else map_of obs k)
    \<and> (iface \<in> fst ` set (fst (fold (observe sha256 h now desired) is (ap, obs))) \<longleftrightarrow>
        iface \<in> fst ` set ap \<or> iface \<in> set is \<and> iface \<notin> set desired \<and> removal_due now (next_observation sha256 k now (map_of obs k)))
    \<and> (\<forall>g j. 0 \<le> g \<longrightarrow> g \<noteq> h \<longrightarrow> map_of (snd (fold (observe sha256 h now desired) is (ap, obs))) (observationKey g j) = map_of obs (observationKey g j))"
  using assms(2,3)
proof (induction "is" arbitrary: ap obs)
  case (Cons i rest)
  obtain ap' obs' where o: "observe sha256 h now desired i (ap, obs) = (ap', obs')" by (cases "observe sha256 h now desired i (ap, obs)") auto
  have k: "k = observationKey h i \<longleftrightarrow> i = iface" using key_eq [OF assms(1) assms(1), of iface i] Cons.prems(2) assms(4) by (auto simp: k_def)
  have m: "map_of obs' k = (if i = iface \<and> iface \<notin> set desired then Some (next_observation sha256 k now (map_of obs k)) else map_of obs k)"
    using o k by (auto simp: observe_def Let_def alist_simps split: if_splits)
  have ap: "ap' = fst (observe sha256 h now desired i (ap, obs))" by (simp add: o)
  have "fst ` set ap' = (if i \<notin> set desired \<and> removal_due now (next_observation sha256 (observationKey h i) now (map_of obs (observationKey h i)))
      then insert i (fst ` set ap) else fst ` set ap)"
    by (simp add: ap observe_def Let_def keys_alist_set)
  then have a: "iface \<in> fst ` set ap' \<longleftrightarrow> iface \<in> fst ` set ap
      \<or> i = iface \<and> iface \<notin> set desired \<and> removal_due now (next_observation sha256 k now (map_of obs k))"
    using k by (cases "i = iface") simp_all
  have g: "map_of obs' (observationKey g j) = map_of obs (observationKey g j)" if "0 \<le> g" "g \<noteq> h" for g j
    using o key_eq [OF assms(1) that(1), of i j] that(2) by (auto simp: observe_def Let_def alist_simps split: if_splits)
  have "iface \<notin> set rest" if "i = iface" using that Cons.prems(1) by auto
  then have m': "map_of obs k = map_of obs' k \<or> iface \<notin> set rest" using m by auto
  have IH: "map_of (snd (fold (observe sha256 h now desired) rest (ap', obs'))) k
      = (if iface \<in> set rest \<and> iface \<notin> set desired then Some (next_observation sha256 k now (map_of obs' k)) else map_of obs' k)"
    "iface \<in> fst ` set (fst (fold (observe sha256 h now desired) rest (ap', obs'))) \<longleftrightarrow>
        iface \<in> fst ` set ap' \<or> iface \<in> set rest \<and> iface \<notin> set desired \<and> removal_due now (next_observation sha256 k now (map_of obs' k))"
    "0 \<le> g \<Longrightarrow> g \<noteq> h \<Longrightarrow>
       map_of (snd (fold (observe sha256 h now desired) rest (ap', obs'))) (observationKey g j) = map_of obs' (observationKey g j)" for g j
    using Cons.IH [of ap' obs'] Cons.prems by auto
  have step: "fold (observe sha256 h now desired) (i # rest) (ap, obs) = fold (observe sha256 h now desired) rest (ap', obs')" using o by simp
  show ?case
    unfolding step
  proof (intro conjI allI impI)
    show "map_of (snd (fold (observe sha256 h now desired) rest (ap', obs'))) k
      = (if iface \<in> set (i # rest) \<and> iface \<notin> set desired then Some (next_observation sha256 k now (map_of obs k)) else map_of obs k)"
      unfolding IH(1) m using m' m by auto
    show "iface \<in> fst ` set (fst (fold (observe sha256 h now desired) rest (ap', obs'))) \<longleftrightarrow> iface \<in> fst ` set ap
        \<or> iface \<in> set (i # rest) \<and> iface \<notin> set desired \<and> removal_due now (next_observation sha256 k now (map_of obs k))"
      unfolding IH(2) a using m' by auto
  qed (simp add: IH(3) g)
qed simp

text \<open>The effect of one event on the observation of an interface.\<close>

definition reports_unused :: "int \<Rightarrow> string \<Rightarrow> guard_event \<Rightarrow> bool" where
  "reports_unused h iface ev = (case ev of
       Check inp \<Rightarrow> ri_hostId inp = h \<longrightarrow> \<not> ri_rebootDetected inp \<and> iface \<in> set (clean_names (ri_reported inp)) \<and> iface \<notin> set (clean_names (ri_desired inp))
     | GuardReset g \<Rightarrow> g \<noteq> h)"

definition complete_check :: "int \<Rightarrow> guard_event \<Rightarrow> bool" where
  "complete_check h ev = (case ev of Check inp \<Rightarrow> ri_hostId inp = h \<and> ri_completeSnapshot inp | GuardReset g \<Rightarrow> False)"

fun event_now :: "guard_event \<Rightarrow> int" where
  "event_now (Check inp) = ri_now inp"
| "event_now (GuardReset h) = 0"

lemma reset_at: "map_of (resetMimicRemovalGuard g obs) k = (if key_starts_with (host_prefix g) k then None else map_of obs k)"
  using map_of_filter_keys [of "\<lambda>x. \<not> key_starts_with (host_prefix g) x" obs k] by (simp add: resetMimicRemovalGuard_def)

lemma guard_event_effect:
  assumes h: "0 < h" "js_trim iface = iface"
  defines "k \<equiv> observationKey h iface"
  shows "map_of (guard_apply sha256 ev obs) k =
    (if \<not> reports_unused h iface ev then None
     else if complete_check h ev then Some (next_observation sha256 k (event_now ev) (map_of obs k)) else map_of obs k)"
proof (cases ev)
  case (GuardReset g)
  show ?thesis
  proof (cases "g < 0")
    case True
    then have "\<not> key_starts_with (host_prefix g) k" using negative_host_prefix h(1) by (simp add: k_def)
    then show ?thesis using True h by (simp add: GuardReset reset_at reports_unused_def complete_check_def)
  next
    case False
    then show ?thesis using h key_of_host(1) [of g h iface]
      by (auto simp: GuardReset reset_at reports_unused_def complete_check_def k_def)
  qed
next
  case (Check inp)
  define g where "g = ri_hostId inp"
  define desired where "desired = clean_names (ri_desired inp)"
  define reported where "reported = clean_names (ri_reported inp)"
  show ?thesis
  proof (cases "0 < g")
    case False
    then show ?thesis using h by (auto simp: Check approveMimicInterfaceRemovals_def reports_unused_def complete_check_def g_def)
  next
    case True
    have sw: "key_starts_with (host_prefix g) k \<longleftrightarrow> g = h" using key_of_host(1) [of g h iface] True h by (simp add: k_def)
    have dr: "drop (length (host_prefix h)) k = iface" using key_of_host(2) [of h h iface] h by (simp add: k_def)
    define obs1 where "obs1 = (if ri_rebootDetected inp then resetMimicRemovalGuard g obs else obs)"
    define obs2 where "obs2 = filter (\<lambda>e. \<not> (key_starts_with (host_prefix g) (fst e)
       \<and> (let i = drop (length (host_prefix g)) (fst e) in i \<in> set desired \<or> i \<notin> set reported))) obs1"
    have m1: "map_of obs1 k = (if ri_rebootDetected inp \<and> g = h then None else map_of obs k)"
      unfolding obs1_def by (simp only: reset_at sw if_distrib [of "\<lambda>m. map_of m k"]) auto
    have m2: "map_of obs2 k = (if g = h \<and> (iface \<in> set desired \<or> iface \<notin> set reported) then None else map_of obs1 k)"
      using map_of_filter_keys [of "\<lambda>x. \<not> (key_starts_with (host_prefix g) x
         \<and> (let i = drop (length (host_prefix g)) x in i \<in> set desired \<or> i \<notin> set reported))" obs1 k] by (auto simp: obs2_def sw dr Let_def)
    have e: "snd (approveMimicInterfaceRemovals sha256 inp obs) = (if \<not> ri_completeSnapshot inp \<or> ri_rebootDetected inp then obs2
        else snd (fold (observe sha256 g (ri_now inp) desired) reported ([], obs2)))"
      using True by (simp add: approveMimicInterfaceRemovals_def Let_def obs2_def obs1_def g_def desired_def reported_def)
    have tr: "\<forall>i \<in> set reported. js_trim i = i" "distinct reported" by (simp_all add: reported_def clean_names_trimmed clean_names_distinct)
    note f = observe_fold [OF _ tr(2,1) h(2), of g sha256 "ri_now inp" desired "[]" obs2]
    show ?thesis
    proof (cases "g = h")
      case True
      then show ?thesis using f h m1 m2
        by (auto simp: Check e reports_unused_def complete_check_def g_def [symmetric] desired_def [symmetric] reported_def [symmetric] k_def)
    next
      case False
      then have "map_of (snd (fold (observe sha256 g (ri_now inp) desired) reported ([], obs2))) k = map_of obs2 k" using f \<open>0 < g\<close> h by (simp add: k_def)
      then show ?thesis using False m1 m2 by (auto simp: Check e reports_unused_def complete_check_def g_def [symmetric])
    qed
  qed
qed

text \<open>An observation sums up the events since its first one: none of them contradicts it, and its streak counts the complete
  ones.\<close>

definition sustained :: "int \<Rightarrow> string \<Rightarrow> guard_event list \<Rightarrow> empty_observation \<Rightarrow> bool" where
  "sustained h iface seg st \<longleftrightarrow> list_all (reports_unused h iface) seg \<and> seg \<noteq> [] \<and> complete_check h (hd seg)
     \<and> eo_firstSeenAt st = event_now (hd seg) \<and> eo_streak st = length (filter (complete_check h) seg)"

lemma observation_is_sustained:
  assumes h: "0 < h" "js_trim iface = iface"
  shows "map_of (guard_state sha256 evs) (observationKey h iface) = Some st \<Longrightarrow> \<exists>pre seg. evs = pre @ seg \<and> sustained h iface seg st"
proof (induction evs arbitrary: st rule: rev_induct)
  case Nil
  then show ?case by (simp add: guard_state_def)
next
  case (snoc ev evs)
  let ?old = "map_of (guard_state sha256 evs) (observationKey h iface)"
  have e: "Some st = (if \<not> reports_unused h iface ev then None
     else if complete_check h ev then Some (next_observation sha256 (observationKey h iface) (event_now ev) ?old) else ?old)"
    using snoc.prems guard_event_effect [OF h, of sha256 ev "guard_state sha256 evs"] by (simp add: guard_state_def)
  then have u: "reports_unused h iface ev" by (simp split: if_splits)
  show ?case
  proof (cases "complete_check h ev")
    case False
    then have "?old = Some st" using e u by simp
    then obtain pre seg where "evs = pre @ seg" "sustained h iface seg st" using snoc.IH by blast
    then show ?thesis using u False by (intro exI [of _ pre] exI [of _ "seg @ [ev]"]) (auto simp: sustained_def)
  next
    case True
    then have st: "st = next_observation sha256 (observationKey h iface) (event_now ev) ?old" using e u by simp
    have fresh: ?thesis if "eo_firstSeenAt st = event_now ev" "eo_streak st = 1"
      using that True u by (intro exI [of _ evs] exI [of _ "[ev]"]) (simp add: sustained_def)
    show ?thesis
    proof (cases "\<exists>p. ?old = Some p \<and> event_now ev \<ge> eo_lastSeenAt p")
      case False
      then show ?thesis by (intro fresh) (auto simp: st next_observation_def split: option.split)
    next
      case continued: True
      then obtain p where p: "?old = Some p" "event_now ev \<ge> eo_lastSeenAt p" by blast
      obtain pre seg where seg: "evs = pre @ seg" "sustained h iface seg p" using snoc.IH p(1) by blast
      have "st = p\<lparr>eo_streak := eo_streak p + 1, eo_lastSeenAt := event_now ev\<rparr>" using p by (simp add: st next_observation_def)
      then show ?thesis using seg u True by (intro exI [of _ pre] exI [of _ "seg @ [ev]"]) (auto simp: sustained_def)
    qed
  qed
qed

lemma approved_is_due:
  assumes a: "iface \<in> fst ` set (fst (approveMimicInterfaceRemovals sha256 inp obs))"
  shows "0 < ri_hostId inp" "js_trim iface = iface"
    "\<exists>st. map_of (snd (approveMimicInterfaceRemovals sha256 inp obs)) (observationKey (ri_hostId inp) iface) = Some st \<and> removal_due (ri_now inp) st"
proof -
  define desired where "desired = clean_names (ri_desired inp)"
  define reported where "reported = clean_names (ri_reported inp)"
  have tr: "\<forall>i \<in> set reported. js_trim i = i" "distinct reported" by (simp_all add: reported_def clean_names_trimmed clean_names_distinct)
  obtain obs2 where e: "0 < ri_hostId inp"
    "approveMimicInterfaceRemovals sha256 inp obs = fold (observe sha256 (ri_hostId inp) (ri_now inp) desired) reported ([], obs2)"
    using a by (auto simp: approveMimicInterfaceRemovals_def Let_def desired_def reported_def split: if_splits)
  have only: "fst ` set (fst (fold (observe sha256 g now desired) is acc)) \<subseteq> fst ` set (fst acc) \<union> set is" for g now "is" acc
  proof (induction "is" arbitrary: acc)
    case (Cons i rest)
    have "fst ` set (fst (observe sha256 g now desired i acc)) \<subseteq> insert i (fst ` set (fst acc))"
      by (cases acc) (simp add: observe_def Let_def keys_alist_set subset_insertI)
    then have "fst ` set (fst (fold (observe sha256 g now desired) (i # rest) acc)) \<subseteq> insert i (fst ` set (fst acc)) \<union> set rest"
      using Cons.IH [of "observe sha256 g now desired i acc"] unfolding fold.simps comp_apply by blast
    then show ?case by simp
  qed simp
  have r: "iface \<in> set reported" using a only [of "ri_hostId inp" "ri_now inp" reported "([], obs2)"] by (auto simp: e(2))
  then have t: "js_trim iface = iface" using tr by simp
  note f = observe_fold [OF _ tr(2,1) t, of "ri_hostId inp" sha256 "ri_now inp" desired "[]" obs2]
  show "0 < ri_hostId inp" by (rule e(1))
  show "js_trim iface = iface" by (rule t)
  show "\<exists>st. map_of (snd (approveMimicInterfaceRemovals sha256 inp obs)) (observationKey (ri_hostId inp) iface) = Some st \<and> removal_due (ri_now inp) st"
    using f a e(1) r unfolding e(2) by auto
qed

text \<open>C18: the removal of an interface is approved only after it has been seen unused long enough. The latest events include at
  least three complete snapshots of the host, the first of them a minute or more before the approval, and since then no
  snapshot of the host wanted the interface, missed it or came after a reboot, and nothing reset the guard.\<close>

theorem removal_needs_sustained_observation:
  assumes "iface \<in> fst ` set (fst (approveMimicInterfaceRemovals sha256 inp (guard_state sha256 evs)))"
  shows "\<exists>pre seg. evs @ [Check inp] = pre @ seg \<and> list_all (reports_unused (ri_hostId inp) iface) seg
    \<and> 3 \<le> length (filter (complete_check (ri_hostId inp)) seg) \<and> seg \<noteq> [] \<and> complete_check (ri_hostId inp) (hd seg)
    \<and> ri_now inp - event_now (hd seg) \<ge> 60000"
proof -
  note d = approved_is_due [OF assms]
  obtain st where st: "map_of (guard_state sha256 (evs @ [Check inp])) (observationKey (ri_hostId inp) iface) = Some st" "removal_due (ri_now inp) st"
    using d(3) by (auto simp: guard_state_def)
  from observation_is_sustained [OF d(1,2) st(1)] obtain pre seg where "evs @ [Check inp] = pre @ seg" "sustained (ri_hostId inp) iface seg st" by blast
  then show ?thesis using st(2)
    by (intro exI [of _ pre] exI [of _ seg]) (simp add: sustained_def removal_due_def MIMIC_REMOVAL_MIN_STREAK_def MIMIC_REMOVAL_MIN_AGE_MS_def)
qed

section \<open>Concrete runs\<close>

text \<open>Sixty-four zero bytes are eighty-six letters A in base64url. The challenge is used in the millisecond of its issue and
  again exactly ten minutes later.\<close>

definition zero_codec :: codec where
  "zero_codec = \<lparr>b64_decode = (\<lambda>v. replicate 64 0), b64_encode = (\<lambda>bs. replicate 86 (CHR ''A'')), challengeMac = (\<lambda>p. replicate 32 0)\<rparr>"

definition zero_challenge :: string where
  "zero_challenge = replicate 86 (CHR ''A'')"

definition replayed :: challenge_run where
  "replayed = consume_apply zero_codec (zero_challenge, 600000) (consume_apply zero_codec (zero_challenge, 0) challenge_start)"

lemma zero_challenge_valid: "validateAgentAuthChallenge zero_codec zero_challenge t \<longleftrightarrow> - 1000 \<le> t \<and> t \<le> 600000"
  by (simp add: validateAgentAuthChallenge_def decodeChallenge_def zero_codec_def zero_challenge_def CHALLENGE_BYTES_def CHALLENGE_PAYLOAD_BYTES_def
      CHALLENGE_RANDOM_BYTES_def CHALLENGE_MAC_BYTES_def b64_char_def list_all_iff read_u64_def CHALLENGE_FUTURE_TOLERANCE_MS_def
      CHALLENGE_VALIDITY_MS_def Let_def eval_nat_numeral)

lemma replayed_accepted: "cr_accepted replayed = [(zero_challenge, 0), (zero_challenge, 600000)]"
  by (simp add: replayed_def consume_apply_def consumeAgentAuthChallenge_def zero_challenge_valid cleanupConsumedChallenges_def challenge_start_def
      no_challenges_def CHALLENGE_VALIDITY_MS_def CONSUMED_CACHE_CLEANUP_INTERVAL_MS_def Let_def)

lemma replayed_reach: "challenge_reach zero_codec replayed"
proof -
  have a: "challenge_reach zero_codec (consume_apply zero_codec (zero_challenge, 0) challenge_start)"
    by (rule challenge_step [OF challenge_init]) (simp add: consume_possible_def challenge_start_def)
  have "cr_now (consume_apply zero_codec (zero_challenge, 0) challenge_start) = 0" by (simp add: consume_apply_def split_beta Let_def)
  then show ?thesis unfolding replayed_def by (intro challenge_step [OF a]) (simp add: consume_possible_def)
qed

theorem challenge_accepted_once_witness:
  "fst (cr_accepted replayed ! 0) = fst (cr_accepted replayed ! 1) \<and> 0 \<le> issued_at zero_codec zero_challenge
   \<and> issued_at zero_codec zero_challenge \<le> 0 + CHALLENGE_FUTURE_TOLERANCE_MS"
  using challenge_accepted_once [OF replayed_reach, of 0 1] by (simp add: replayed_accepted)

definition example_check :: "int \<Rightarrow> removal_input" where
  "example_check now = \<lparr>ri_hostId = 2, ri_desired = [], ri_reported = [''eth0''], ri_completeSnapshot = True, ri_rebootDetected = False, ri_now = now\<rparr>"

theorem removal_needs_sustained_observation_witness:
  "fst (approveMimicInterfaceRemovals id (example_check 61000) (guard_state id [Check (example_check 1000), Check (example_check 30000)])) \<noteq> []
   \<and> (\<exists>pre seg. [Check (example_check 1000), Check (example_check 30000)] @ [Check (example_check 61000)] = pre @ seg
      \<and> 3 \<le> length (filter (complete_check 2) seg) \<and> 61000 - event_now (hd seg) \<ge> 60000)"
proof -
  let ?r = "fst (approveMimicInterfaceRemovals id (example_check 61000) (guard_state id [Check (example_check 1000), Check (example_check 30000)]))"
  have m: "map fst ?r = [''eth0'']" by code_simp
  have "fst ` set ?r = {''eth0''}" using arg_cong [OF m, of set] by (simp only: list.set_map list.set)
  then have "''eth0'' \<in> fst ` set ?r" by blast
  from removal_needs_sustained_observation [OF this] show ?thesis using m by (auto simp: example_check_def)
qed

end
