(* ===== verification/Spec2Isabelle.thy ===== *)
theory Spec2Isabelle
  imports PortPolicy ForwardTypes PortReservations LedgerProperties GlobalPortReclaim AuthLimits RuleQuota HeartbeatGate
    AgentReports TunnelRuntime TunnelLatency HostStatus TunnelPorts LinkAccess QueryCache
    GroupHealth TaskPools AgentEvents AgentTasks AgentGuards
begin

text \<open>
  A verification library of the ForwardX panel (server/ and shared/, TypeScript). The panel manages hosts that run
  agents, the forwarding rules and tunnels between them, and the ports they listen on. The library models the parts
  of the panel that decide: who may use which port, who is let in, which report counts, and what state a tunnel is in.

  \<^bold>\<open>Prelude.\<close> What the code relies on of JavaScript: numbers as doubles with NaN and infinities, conversion of unknown
  values, strings, insertion-ordered maps, and computations that may throw (\<open>ebind\<close>, \<open>guardE\<close>). Strings have code
  units below 256. Integers that the code only compares and adds stay integers where they are bounded by validation;
  wrap-around and exactness bounds (\<open>MAX_SAFE_INTEGER\<close>) are written out where the code has them.

  \<^bold>\<open>Ports.\<close> \<open>PortPolicy\<close> is server/portPolicy.ts: allowlists, ranges and their combination; a policy means the set of
  ports it admits, combination is intersection, the fast interval path agrees with the general one, and an allowlist
  survives printing and parsing. \<open>ForwardTypes\<close> is shared/forwardTypes.ts. \<open>PortReservations\<close> is
  server/portReservations.ts: in-memory reservations of ports per host. \<open>Claims\<close> holds the contract of a component
  that hands out exclusive claims with release handles (locale \<open>claim_book\<close>); reservations and the heartbeat gate are
  interpretations of it.

  \<^bold>\<open>Port ledger.\<close> \<open>GlobalPortLedger\<close> is server/globalPortAllocationService.ts with the keys and tags of
  server/globalPortBackfill.ts: allocations and references in a database, one function per operation, transactions
  that roll back by throwing. \<open>LedgerRefinement\<close> gives the abstract state machine of one allocation (\<open>alloc_step\<close>) and
  proves that every operation follows it and keeps the table constraints; \<open>LedgerProperties\<close> holds the properties.
  \<open>GlobalPortReclaim\<close> is server/globalPortReclaimService.ts: the scan that frees released ports when all hosts agree,
  as transactions on the same ledger, with the interleaving of both proved safe. \<open>TunnelPorts\<close> is
  server/tunnelGlobalPortService.ts: the listener ports that tunnels, exit nodes, hops and rules ask for, their entry into
  the ledger when a tunnel is saved, and the reconciliation of the ledger with what an agent reports as running, which
  keeps every listener in use except one that the same run has promoted from its staged row. It rests
  on frame lemmas of the ledger (which references an operation can touch) and on the fact that a row carries the key of
  its own columns.

  \<^bold>\<open>Admission.\<close> \<open>AuthLimits\<close> is server/boundedCache.ts, server/authRateLimit.ts and server/twoFactorChallenges.ts; over
  whole runs of the module a request is limited exactly by the streaks of failures in the run;
  \<open>RuleQuota\<close> is server/keyedTaskLock.ts, its promise chain as a step system, and server/ruleQuotaReservations.ts;
  \<open>HeartbeatGate\<close> is server/agentHeartbeatGate.ts: the bounded first-come-first-served gate, the cache of stable plans
  and the choice of intervals.

  \<^bold>\<open>Reports and runtime state.\<close> \<open>AgentReports\<close> is server/agentTcpingReportGate.ts (throttling with commit) and
  server/agentStatusOrdering.ts (refusing overtaken reports). \<open>TunnelRuntime\<close> is server/tunnelRuntimeStatus.ts,
  server/tunnelRuntimePlan.ts, shared/exitStrategy.ts, server/tunnelExitStrategy.ts and
  server/forwardGroupRuntimeStatus.ts. \<open>TunnelLatency\<close> is server/tunnelAutoLatencyState.ts and
  server/tunnelMultiEntryLatencyState.ts, compared with a reference over fresh samples.

  \<^bold>\<open>Liveness of agents.\<close> \<open>AgentLiveness\<close> is server/agentActivity.ts, server/agentFastLiveness.ts (the tracker with its
  timers), server/hostOfflineNotificationDebouncer.ts and the comparison of agent versions; timers are entries of the
  state that fire as steps at their due time, and the locale \<open>tracker_contract\<close> says what its operations promise.
  \<open>HostStatus\<close> is server/hostStatusNotifier.ts on the host rows of server/repositories/hostRepository.ts: the handlers of
  a transition are cut at their awaits and interleave with other hosts, with new transitions, with failing database
  calls, and with the writes of routes, priming and the sweep outside the queue; the stored flag catches up with the
  tracker unless a task gave up after its five attempts or a write from outside came last, and no alarm is raised for a
  host that has come back.

  \<^bold>\<open>Access.\<close> \<open>LinkAccess\<close> is server/linkAccessView.ts with the billing snapshot of
  server/repositories/trafficBillingRepository.ts: the expansion of what is granted to a user over groups and tunnels (a
  fixed point with two nested loops, proved to end and to be the least closure given by \<open>reach_group\<close> and
  \<open>reach_tunnel\<close>), the effect of billing on what may be used, the gate in front of the rules of an agent, and the view of
  a tunnel that a user gets. \<open>QueryCache\<close> is server/queryCache.ts, the cache in front of these scopes and of other queries:
  calls and the ends of loads are the events of a run, and the lemmas say where an answered value comes from.

  \<^bold>\<open>Work in the background.\<close> \<open>GroupHealth\<close> is server/forwardGroupHealthRecheck.ts as
  server/repositories/forwardGroupRepository.ts wires it: freshness of health reports and the moment they expire, the queue
  that evaluates groups with a debounce and retries, and the timers that recheck a group when its health may change; no
  queued group is lost and every waiting group reaches its evaluation. \<open>TaskPools\<close> is server/asyncPool.ts,
  server/keyedTaskDispatcher.ts and server/agentRuntimeRecovery.ts: a bounded pool that agrees with the sequential map, a
  dispatcher that keeps the order of each key on a bounded number of slots and never gets stuck, and a coordinator that
  answers a recovery request without running it only behind a success that covers it. \<open>AgentEvents\<close> is
  server/agentEvents.ts: the event streams to the agents with their bounded queues under backpressure; messages arrive in
  order and without gaps, and a queue is either drained, each drain shortening it, or its stream closed. \<open>AgentTasks\<close> is
  server/lookingGlassAgentTasks.ts and server/iperf3AgentTasks.ts: tasks that agents pull and report; a network test never
  blocks its host, while an iperf3 task that is pulled after its timeout can. \<open>AgentGuards\<close> is
  server/agentAuthChallenge.ts and server/mimicRemovalGuard.ts: a challenge is accepted once, and an interface is removed
  only after it has been reported unused for long enough. Timers and pending promises are part of the
  state, and their ends are events that come in any order. \<open>EventSystems\<close> holds the contract of such a component (locale
  \<open>event_system\<close>: possible events, the state after an event, the reachable states), interpreted by the evaluation queue,
  the dispatcher, the recovery coordinator, the streams, the tasks and the
  challenges.

  \<^bold>\<open>How code is modelled.\<close> A module-level map or a class instance is a record or an association list passed through the
  functions; the clock is an argument; a closure that releases something is a handle together with the set of handles
  still open; asynchronous code is cut at its awaits into steps of a relation, or is a sequence of transactions.
  Digests, random values, agents' answers and the results of queries outside the modelled tables are arguments;
  a property that needs the digest to be injective says so. Loops are structural recursion over the data they traverse;
  the one loop that need not end, the pruning of the login rate limit, carries fuel, and the properties say for which
  states enough fuel exists.

  \<^bold>\<open>Kinds of properties.\<close> Safety of ports (no port is handed out twice, freed early or reused while referenced), mutual
  exclusion and order of locks and gates, refinement of the ledger, limits and windows of admission, liveness (a free
  port can be acquired, a scan frees a port, an uncommitted report passes again, the head of the queue is admitted),
  equivalence with reference definitions, round trips and bounds.

  \<^bold>\<open>Not modelled.\<close> Routes, routers and repositories (queries and schemas around the modelled decisions), the database
  layer and migrations, cryptography, external services (DNS, payments, Telegram), the generation of Xray configuration,
  the scheduler, the web client, and the agents, which are Go programs. Inside modelled files: the worker pool of
  \<open>probeHostsBounded\<close>, the re-entrant billing lock of keyedTaskLock.ts (asynchronous local storage), constant response
  objects and label texts, the scheduler of silent hosts in forwardGroupHealthRecheck.ts (no part of the server constructs it).
  Planned next: the port services of Xray and of rules (server/xrayPortOperations.ts, server/rulePortProbeService.ts)
  and the integrity of forward groups.
\<close>

end
